(* ===== verification/Renoir_Prelude.thy ===== *)
theory Renoir_Prelude
  imports Main "HOL-Library.AList" "HOL-Library.Multiset"
begin

text \<open>
  Shared ground of the development: the result type of a Rust call (a value, a panic, or no
  return at all), the 64-bit bounds of \<^verbatim>\<open>Timestamp\<close>, the standard library's \<^verbatim>\<open>HashMap\<close> as an
  association list whose iteration order is a parameter, and the list lemmas the components use.
\<close>

named_theorems res_simps \<open>evaluation of the result monad\<close>
named_theorems stream_simps \<open>equations of the stream specifications\<close>

section \<open>Results of Rust calls\<close>

text \<open>
  The panics of the modelled code: \<^verbatim>\<open>unwrap\<close>/\<^verbatim>\<open>expect\<close> on \<^verbatim>\<open>None\<close> or \<^verbatim>\<open>Err\<close>, a failed
  \<^verbatim>\<open>assert!\<close>, an index out of range, arithmetic overflow (checked builds), a division by zero, an explicit
  \<^verbatim>\<open>panic!\<close> and \<^verbatim>\<open>unreachable!\<close>.
\<close>

datatype error = UnwrapNone | AssertFailed | IndexOutOfBounds | ArithOverflow | ExplicitPanic
  | Unreachable | DivideByZero

type_synonym 'a res = "(error + 'a) option"

abbreviation ret :: "'a \<Rightarrow> 'a res" where
  "ret x \<equiv> Some (Inr x)"

abbreviation panic :: "error \<Rightarrow> 'a res" where
  "panic e \<equiv> Some (Inl e)"

text \<open>Sequencing: a panic or a call that never returns ends the caller as well.\<close>

definition bindR :: "'a res \<Rightarrow> ('a \<Rightarrow> 'b res) \<Rightarrow> 'b res" where
  "bindR m f = (case m of None \<Rightarrow> None | Some (Inl e) \<Rightarrow> Some (Inl e) | Some (Inr x) \<Rightarrow> f x)"

lemma bindR_simps [simp, res_simps]:
  "bindR None f = None"
  "bindR (panic e) f = panic e"
  "bindR (ret x) f = f x"
  by (simp_all add: bindR_def)

lemma bindR_eq_ret: "bindR m f = ret y \<longleftrightarrow> (\<exists>x. m = ret x \<and> f x = ret y)"
  by (auto simp: bindR_def split: option.splits sum.splits)

lemma bindR_mono [partial_function_mono]:
  fixes B :: "('x \<Rightarrow> 'y option) \<Rightarrow> 'a res"
  assumes B: "mono_option B" and C: "\<And>y. mono_option (\<lambda>f. C y f)"
  shows "mono_option (\<lambda>f. bindR (B f) (\<lambda>y. C y f))"
proof (rule monotoneI)
  fix f g :: "'x \<Rightarrow> 'y option"
  assume fg: "option.le_fun f g"
  have "option_ord (B f) (B g)"
    using B fg by (rule monotoneD [of _ _ _ f g])
  moreover have "option_ord (C y f) (C y g)" for y
    using C by (rule monotoneD) (rule fg)
  ultimately show "option_ord (bindR (B f) (\<lambda>y. C y f)) (bindR (B g) (\<lambda>y. C y g))"
    by (cases "B f"; cases "B g") (auto simp: bindR_def flat_ord_def split: sum.splits)
qed

text \<open>\<^verbatim>\<open>assert!\<close> and \<^verbatim>\<open>Option::unwrap\<close>.\<close>

definition assertR :: "bool \<Rightarrow> 'a res \<Rightarrow> 'a res" where
  "assertR b k = (if b then k else panic AssertFailed)"

definition unwrapR :: "'a option \<Rightarrow> 'a res" where
  "unwrapR x = (case x of None \<Rightarrow> panic UnwrapNone | Some y \<Rightarrow> ret y)"

lemma assertR_simps [simp, res_simps]: "assertR True k = k" "assertR False k = panic AssertFailed"
  by (simp_all add: assertR_def)

lemma assertR_mono [partial_function_mono]: "mono_option F \<Longrightarrow> mono_option (\<lambda>f. assertR b (F f))"
  by (cases b) (simp_all add: monotone_def option.leq_refl)

lemma unwrapR_simps [simp, res_simps]: "unwrapR None = panic UnwrapNone" "unwrapR (Some x) = ret x"
  by (simp_all add: unwrapR_def)

section \<open>Machine integers\<close>

text \<open>
  \<^verbatim>\<open>Timestamp\<close> is \<^verbatim>\<open>i64\<close>; timestamps are integers here and every operation that can leave the
  64-bit range is written with its bounds.
\<close>

type_synonym timestamp = int

definition i64_min :: int where "i64_min = - (2 ^ 63)"
definition i64_max :: int where "i64_max = 2 ^ 63 - 1"

definition in_i64 :: "int \<Rightarrow> bool" where
  "in_i64 t \<longleftrightarrow> i64_min \<le> t \<and> t \<le> i64_max"

definition checked_i64 :: "int \<Rightarrow> int option" where
  "checked_i64 t = (if in_i64 t then Some t else None)"

definition arith_i64 :: "int \<Rightarrow> int res" where
  "arith_i64 t = (if in_i64 t then ret t else panic ArithOverflow)"

text \<open>\<^verbatim>\<open>Option<Timestamp>\<close> combined with \<^verbatim>\<open>max\<close>: \<^verbatim>\<open>Some(old.unwrap_or(ts).max(ts))\<close>.\<close>

definition opt_max :: "timestamp option \<Rightarrow> timestamp \<Rightarrow> timestamp option" where
  "opt_max old ts = Some (max (case old of None \<Rightarrow> ts | Some t \<Rightarrow> t) ts)"

lemma opt_max_simps [simp]: "opt_max None t = Some t" "opt_max (Some a) t = Some (max a t)"
  by (simp_all add: opt_max_def)

definition max_of :: "timestamp list \<Rightarrow> timestamp option" where
  "max_of ts = (if ts = [] then None else Some (Max (set ts)))"

lemma max_of_Nil [simp]: "max_of [] = None"
  by (simp add: max_of_def)

lemma max_of_snoc [simp]: "max_of (ts @ [t]) = opt_max (max_of ts) t"
  by (cases "ts = []") (auto simp: max_of_def max.commute)

section \<open>Hash maps\<close>

text \<open>
  A \<^verbatim>\<open>HashMap\<close> is an association list with distinct keys. The order in which a map is drained
  or iterated is not specified by the standard library: the definitions that iterate take the
  order as a parameter \<open>ho\<close>, and \<open>hash_order ho\<close> says that it only permutes.
\<close>

type_synonym ('k, 'v) hmap = "('k \<times> 'v) list"

definition hash_order :: "('a list \<Rightarrow> 'a list) \<Rightarrow> bool" where
  "hash_order ho \<longleftrightarrow> (\<forall>m. mset (ho m) = mset m)"

lemma hash_order_mset: "hash_order ho \<Longrightarrow> mset (ho m) = mset m"
  by (simp add: hash_order_def)

lemma hash_order_set: "hash_order ho \<Longrightarrow> set (ho m) = set m"
  using hash_order_mset [of ho m] by (metis set_mset_mset)

lemma hash_order_id [simp]: "hash_order (\<lambda>xs. xs)"
  by (simp add: hash_order_def)

lemma hash_order_rev [simp]: "hash_order rev"
  by (simp add: hash_order_def)

abbreviation keys :: "('k, 'v) hmap \<Rightarrow> 'k list" where
  "keys m \<equiv> map fst m"

lemma hash_order_keys:
  assumes "hash_order ho" and "distinct (keys m)"
  shows "distinct (keys (ho m))" and "map_of (ho m) = map_of m" and "set (keys (ho m)) = set (keys m)"
proof -
  have "mset (keys (ho m)) = mset (keys m)"
    using hash_order_mset [OF assms(1), of m] by (metis mset_map)
  with assms(2) show dist: "distinct (keys (ho m))" by (metis mset_eq_imp_distinct_iff)
  show "set (keys (ho m)) = set (keys m)" using hash_order_set [OF assms(1), of m] by simp
  show "map_of (ho m) = map_of m"
    using dist assms(2) hash_order_set [OF assms(1), of m] by (simp add: map_of_inject_set)
qed

lemma mset_update:
  assumes "distinct (keys m)" and "map_of m k = Some v"
  shows "mset (AList.update k w m) + {# (k, v) #} = mset m + {# (k, w) #}"
  using assms
proof (induction m)
  case Nil
  then show ?case by simp
next
  case (Cons x m)
  then show ?case by (cases x) (auto split: if_splits)
qed

lemma update_new: "map_of m k = None \<Longrightarrow> AList.update k w m = m @ [(k, w)]"
  by (induction m) (auto split: if_splits)

lemma distinct_update_snoc [simp]:
  "map_of m k = None \<Longrightarrow> distinct (keys m) \<Longrightarrow> distinct (keys (m @ [(k, w)]))"
  by (auto simp: map_of_eq_None_iff image_iff)

text \<open>\<^verbatim>\<open>map.entry(k).or_default().push(x)\<close>.\<close>

definition push_entry :: "'k \<Rightarrow> 'a \<Rightarrow> ('k, 'a list) hmap \<Rightarrow> ('k, 'a list) hmap" where
  "push_entry k x m = AList.update k ((case map_of m k of None \<Rightarrow> [] | Some xs \<Rightarrow> xs) @ [x]) m"

lemma push_entry_map:
  "map_of (push_entry k x m) k' = (if k' = k then Some ((case map_of m k of None \<Rightarrow> [] | Some xs \<Rightarrow> xs) @ [x]) else map_of m k')"
  by (simp add: push_entry_def update_conv')

lemma push_entry_distinct: "distinct (keys m) \<Longrightarrow> distinct (keys (push_entry k x m))"
  by (simp add: push_entry_def distinct_update)

section \<open>Lists\<close>

lemma filter_concat_map: "filter P (concat (map f xs)) = concat (map (\<lambda>x. filter P (f x)) xs)"
  by (induction xs) auto

lemma foldl_snoc: "foldl f a (xs @ [x]) = f (foldl f a xs) x"
  by simp

end
