(* ===== verification/Stream_Element.thy ===== *)
theory Stream_Element
  imports Renoir_Prelude
begin

text \<open>
  The protocol every operator speaks (\<^verbatim>\<open>src/operator/mod.rs\<close>): the elements of a stream, the
  \<^verbatim>\<open>Operator\<close> trait's \<^verbatim>\<open>next\<close> as a pull function over the operator's state, the sequences an
  operator produces, the grammar of well-formed streams and the worker loop that drives a block.
  The locale \<open>stream_operator\<close> is the contract of an operator in a chain.
\<close>

section \<open>Elements\<close>

datatype 'a stream_element =
    Item 'a
  | Timestamped 'a timestamp
  | Watermark timestamp
  | FlushBatch
  | Terminate
  | FlushAndRestart

fun variant :: "'a stream_element \<Rightarrow> unit stream_element" where
  "variant (Item _) = Item ()"
| "variant (Timestamped _ _) = Item ()"
| "variant (Watermark w) = Watermark w"
| "variant Terminate = Terminate"
| "variant FlushAndRestart = FlushAndRestart"
| "variant FlushBatch = FlushBatch"

fun elem_map :: "('a \<Rightarrow> 'b) \<Rightarrow> 'a stream_element \<Rightarrow> 'b stream_element" where
  "elem_map f (Item x) = Item (f x)"
| "elem_map f (Timestamped x ts) = Timestamped (f x) ts"
| "elem_map f (Watermark w) = Watermark w"
| "elem_map f Terminate = Terminate"
| "elem_map f FlushAndRestart = FlushAndRestart"
| "elem_map f FlushBatch = FlushBatch"

fun timestamp_of :: "'a stream_element \<Rightarrow> timestamp option" where
  "timestamp_of (Timestamped _ ts) = Some ts"
| "timestamp_of (Watermark ts) = Some ts"
| "timestamp_of _ = None"

fun add_key :: "'k \<Rightarrow> 'a stream_element \<Rightarrow> ('k \<times> 'a) stream_element" where
  "add_key k (Item v) = Item (k, v)"
| "add_key k (Timestamped v ts) = Timestamped (k, v) ts"
| "add_key k (Watermark w) = Watermark w"
| "add_key k Terminate = Terminate"
| "add_key k FlushAndRestart = FlushAndRestart"
| "add_key k FlushBatch = FlushBatch"

fun elem_value :: "'a stream_element \<Rightarrow> 'a option" where
  "elem_value (Item v) = Some v"
| "elem_value (Timestamped v _) = Some v"
| "elem_value (Watermark _) = None"
| "elem_value FlushBatch = None"
| "elem_value Terminate = None"
| "elem_value FlushAndRestart = None"

fun take_key :: "('k \<times> 'a) stream_element \<Rightarrow> 'k option \<times> 'a stream_element" where
  "take_key (Item (k, v)) = (Some k, Item v)"
| "take_key (Timestamped (k, v) ts) = (Some k, Timestamped v ts)"
| "take_key (Watermark w) = (None, Watermark w)"
| "take_key Terminate = (None, Terminate)"
| "take_key FlushAndRestart = (None, FlushAndRestart)"
| "take_key FlushBatch = (None, FlushBatch)"

fun elem_key :: "('k \<times> 'a) stream_element \<Rightarrow> 'k option" where
  "elem_key (Item (k, _)) = Some k"
| "elem_key (Timestamped (k, _) _) = Some k"
| "elem_key (Watermark _) = None"
| "elem_key Terminate = None"
| "elem_key FlushAndRestart = None"
| "elem_key FlushBatch = None"

lemma elem_map_id [simp]: "elem_map (\<lambda>x. x) e = e"
  by (cases e) auto

lemma elem_map_comp [simp]: "elem_map g (elem_map f e) = elem_map (g \<circ> f) e"
  by (cases e) auto

lemma elem_map_eq_simps [simp]:
  "elem_map f e = Terminate \<longleftrightarrow> e = Terminate"
  "elem_map f e = FlushAndRestart \<longleftrightarrow> e = FlushAndRestart"
  "elem_map f e = FlushBatch \<longleftrightarrow> e = FlushBatch"
  "elem_map f e = Watermark w \<longleftrightarrow> e = Watermark w"
  by (cases e; auto)+

lemma take_key_add_key [simp]: "elem_value e \<noteq> None \<Longrightarrow> take_key (add_key k e) = (Some k, e)"
  by (cases e) auto

section \<open>Operators as pull functions\<close>

text \<open>
  \<^verbatim>\<open>fn next(&mut self) -> StreamElement<Out>\<close> over the operator's own state \<open>'s\<close>. An operator
  that wraps a previous operator takes the pull function of that operator as an argument, as
  \<^verbatim>\<open>struct Map<F, Op> { prev: Op, f: F }\<close> takes the type of its predecessor.
\<close>

type_synonym ('s, 'e) gen = "'s \<Rightarrow> ('e \<times> 's) res"
type_synonym ('s, 'a) pull = "('s, 'a stream_element) gen"

text \<open>\<open>pulls nxt s es s'\<close>: successive calls from the state \<open>s\<close> return the elements \<open>es\<close>.\<close>

inductive pulls :: "('s, 'e) gen \<Rightarrow> 's \<Rightarrow> 'e list \<Rightarrow> 's \<Rightarrow> bool"
  for nxt :: "('s, 'e) gen" where
  pulls_Nil: "pulls nxt s [] s"
| pulls_Cons: "nxt s = ret (e, s1) \<Longrightarrow> pulls nxt s1 es s2 \<Longrightarrow> pulls nxt s (e # es) s2"

inductive_simps pulls_Nil_iff [simp]: "pulls nxt s [] s'"
inductive_cases pulls_ConsE: "pulls nxt s (e # es) s'"

lemma pulls_Cons_iff:
  "pulls nxt s (e # es) s' \<longleftrightarrow> (\<exists>s1. nxt s = ret (e, s1) \<and> pulls nxt s1 es s')"
  by (auto elim: pulls_ConsE intro: pulls_Cons)

lemma pulls_append:
  "pulls nxt s (xs @ ys) s' \<longleftrightarrow> (\<exists>s1. pulls nxt s xs s1 \<and> pulls nxt s1 ys s')"
  by (induction xs arbitrary: s) (auto simp: pulls_Cons_iff)

lemma pulls_appendI: "pulls nxt s xs s1 \<Longrightarrow> pulls nxt s1 ys s2 \<Longrightarrow> pulls nxt s (xs @ ys) s2"
  by (auto simp: pulls_append)

lemma pulls_single [simp]: "pulls nxt s [e] s' \<longleftrightarrow> nxt s = ret (e, s')"
  by (auto simp: pulls_Cons_iff)

lemma pulls_functional: "pulls nxt s es s1 \<Longrightarrow> pulls nxt s es s2 \<Longrightarrow> s1 = s2"
  by (induction es arbitrary: s) (auto simp: pulls_Cons_iff)

text \<open>The scripted operator of the unit tests: a queue of elements, then \<^verbatim>\<open>Terminate\<close>.\<close>

fun fake_next :: "('a stream_element list, 'a) pull" where
  "fake_next [] = ret (Terminate, [])"
| "fake_next (e # es) = ret (e, es)"

lemma pulls_fake: "pulls fake_next (xs @ ys) xs ys"
  by (induction xs) (auto simp: pulls_Cons_iff)

lemma pulls_fake_all: "pulls fake_next xs xs []"
  using pulls_fake [of xs "[]"] by simp

section \<open>Well-formed streams\<close>

text \<open>
  The grammar documented on \<^verbatim>\<open>StreamElement\<close>:
  \<open>((Item | Timestamped | Watermark | FlushBatch)* FlushAndRestart)+ Terminate\<close>.
  The flag records whether the last element was a \<^verbatim>\<open>FlushAndRestart\<close>.
\<close>

fun wf_from :: "bool \<Rightarrow> 'a stream_element list \<Rightarrow> bool" where
  "wf_from clean [] = False"
| "wf_from clean (Terminate # es) = (clean \<and> es = [])"
| "wf_from clean (FlushAndRestart # es) = wf_from True es"
| "wf_from clean (e # es) = wf_from False es"

definition wf_stream :: "'a stream_element list \<Rightarrow> bool" where
  "wf_stream es = wf_from False es"

fun is_marker :: "'a stream_element \<Rightarrow> bool" where
  "is_marker Terminate = True"
| "is_marker FlushAndRestart = True"
| "is_marker _ = False"

lemma wf_from_data:
  "\<not> is_marker e \<Longrightarrow> wf_from b (e # es) = wf_from False es"
  by (cases e) auto

lemma wf_from_weaken: "wf_from False es \<Longrightarrow> wf_from b es"
  by (cases es; cases "hd es") auto

lemma wf_from_ends: "wf_from b es \<Longrightarrow> \<exists>ys. es = ys @ [Terminate] \<and> Terminate \<notin> set ys"
proof (induction b es rule: wf_from.induct)
  case (2 clean es)
  then show ?case by (intro exI [of _ "[]"]) simp
qed (auto simp: Cons_eq_append_conv)

lemma wf_stream_ends:
  assumes "wf_stream es"
  obtains ys where "es = ys @ [Terminate]" and "Terminate \<notin> set ys"
  using wf_from_ends [of False es] assms by (auto simp: wf_stream_def)

lemma wf_from_map: "wf_from b (map (elem_map f) es) = wf_from b es"
  by (induction b es rule: wf_from.induct) auto

text \<open>
  The iterations of a stream: the data between two \<^verbatim>\<open>FlushAndRestart\<close>. The inverse rebuilds
  the stream, so that a property of a well-formed stream can be proved iteration by iteration.
\<close>

fun iterations_from :: "'a stream_element list \<Rightarrow> 'a stream_element list \<Rightarrow> 'a stream_element list list"
where
  "iterations_from seg [] = []"
| "iterations_from seg (FlushAndRestart # es) = seg # iterations_from [] es"
| "iterations_from seg (Terminate # es) = []"
| "iterations_from seg (e # es) = iterations_from (seg @ [e]) es"

definition iterations :: "'a stream_element list \<Rightarrow> 'a stream_element list list" where
  "iterations es = iterations_from [] es"

definition unsegment :: "'a stream_element list list \<Rightarrow> 'a stream_element list" where
  "unsegment segs = concat (map (\<lambda>seg. seg @ [FlushAndRestart]) segs) @ [Terminate]"

lemma unsegment_Cons: "unsegment (seg # segs) = (seg @ [FlushAndRestart]) @ unsegment segs"
  by (simp add: unsegment_def)

definition data_only :: "'a stream_element list \<Rightarrow> bool" where
  "data_only es = list_all (\<lambda>e. \<not> is_marker e) es"

lemma data_only_simps [simp]:
  "data_only []"
  "data_only (e # es) \<longleftrightarrow> \<not> is_marker e \<and> data_only es"
  "data_only (xs @ ys) \<longleftrightarrow> data_only xs \<and> data_only ys"
  by (auto simp: data_only_def)

lemma wf_from_data_append: "data_only xs \<Longrightarrow> wf_from False ys \<Longrightarrow> wf_from b (xs @ ys)"
  by (induction xs arbitrary: b) (auto simp: wf_from_data intro: wf_from_weaken)

lemma iterations_from_data:
  "\<not> is_marker e \<Longrightarrow> iterations_from seg (e # es) = iterations_from (seg @ [e]) es"
  by (cases e) auto

lemma iterations_from_segment:
  "data_only xs \<Longrightarrow> iterations_from seg (xs @ FlushAndRestart # es) = (seg @ xs) # iterations_from [] es"
  by (induction xs arbitrary: seg) (auto simp: iterations_from_data)

lemma iterations_unsegment:
  assumes "\<forall>seg \<in> set segs. data_only seg"
  shows "iterations (unsegment segs) = segs"
  using assms
  by (induction segs) (auto simp: iterations_def unsegment_def iterations_from_segment)

lemma wf_from_cases:
  assumes "wf_from b es" and "es \<noteq> [Terminate] \<or> \<not> b"
  obtains seg rest where "es = seg @ FlushAndRestart # rest" and "data_only seg"
    and "wf_from True rest"
proof -
  have "\<exists>seg rest. es = seg @ FlushAndRestart # rest \<and> data_only seg \<and> wf_from True rest"
    using assms
  proof (induction es arbitrary: b)
    case Nil
    then show ?case by simp
  next
    case (Cons e es)
    show ?case
    proof (cases "is_marker e")
      case True
      with Cons.prems show ?thesis
        by (cases e) (auto intro: exI [of _ "[]"])
    next
      case False
      with Cons.prems have "wf_from False es" by (simp add: wf_from_data)
      from Cons.IH [OF this] obtain seg rest
        where "es = seg @ FlushAndRestart # rest" and "data_only seg" and "wf_from True rest"
        by auto
      with False show ?thesis
        by (intro exI [of _ "e # seg"] exI [of _ rest]) auto
    qed
  qed
  with that show thesis by blast
qed

lemma wf_from_segments:
  "wf_from b es \<Longrightarrow> \<exists>segs. es = unsegment segs \<and> (\<forall>seg \<in> set segs. data_only seg) \<and> (b \<or> segs \<noteq> [])"
proof (induction "length es" arbitrary: b es rule: less_induct)
  case less
  show ?case
  proof (cases "es = [Terminate] \<and> b")
    case True
    then show ?thesis by (intro exI [of _ "[]"]) (simp add: unsegment_def)
  next
    case False
    then obtain seg rest where es: "es = seg @ FlushAndRestart # rest" and "data_only seg"
      and "wf_from True rest"
      using wf_from_cases [OF less.prems] by blast
    moreover from less.hyps [OF _ \<open>wf_from True rest\<close>] es obtain segs
      where "rest = unsegment segs" and "\<forall>seg \<in> set segs. data_only seg"
      by auto
    ultimately show ?thesis
      by (intro exI [of _ "seg # segs"]) (simp add: unsegment_def)
  qed
qed

lemma wf_from_unsegment:
  assumes "\<forall>seg \<in> set segs. data_only seg"
  shows "wf_from b (unsegment segs) \<longleftrightarrow> b \<or> segs \<noteq> []"
proof -
  have data: "data_only seg \<Longrightarrow> wf_from b (seg @ FlushAndRestart # es) = wf_from True es" for b es
    and seg :: "'a stream_element list"
    by (induction seg arbitrary: b) (auto simp: wf_from_data)
  show ?thesis
    using assms by (induction segs arbitrary: b) (auto simp: unsegment_def data)
qed

text \<open>Every well-formed stream is the concatenation of its iterations.\<close>

lemma wf_stream_unsegment:
  assumes "wf_stream es"
  shows "unsegment (iterations es) = es"
    and "\<forall>seg \<in> set (iterations es). data_only seg"
    and "iterations es \<noteq> []"
proof -
  from assms obtain segs where segs: "es = unsegment segs" "\<forall>seg \<in> set segs. data_only seg" "segs \<noteq> []"
    using wf_from_segments [of False es] by (auto simp: wf_stream_def)
  then have "iterations es = segs" by (simp add: iterations_unsegment)
  with segs show "unsegment (iterations es) = es"
    and "\<forall>seg \<in> set (iterations es). data_only seg" and "iterations es \<noteq> []"
    by auto
qed

lemma wf_stream_unsegmentI:
  "\<forall>seg \<in> set segs. data_only seg \<Longrightarrow> segs \<noteq> [] \<Longrightarrow> wf_stream (unsegment segs)"
  by (simp add: wf_stream_def wf_from_unsegment)

text \<open>The data, the timestamps and the watermarks of an iteration.\<close>

definition elem_values :: "'a stream_element list \<Rightarrow> 'a list" where
  "elem_values es = List.map_filter elem_value es"

fun item_timestamp :: "'a stream_element \<Rightarrow> timestamp option" where
  "item_timestamp (Timestamped _ ts) = Some ts"
| "item_timestamp _ = None"

fun watermark_of :: "'a stream_element \<Rightarrow> timestamp option" where
  "watermark_of (Watermark ts) = Some ts"
| "watermark_of _ = None"

definition stamps :: "'a stream_element list \<Rightarrow> timestamp list" where
  "stamps es = List.map_filter item_timestamp es"

definition watermarks :: "'a stream_element list \<Rightarrow> timestamp list" where
  "watermarks es = List.map_filter watermark_of es"

lemma map_filter_append [simp]:
  "List.map_filter f (xs @ ys) = List.map_filter f xs @ List.map_filter f ys"
  by (induction xs) (auto simp: List.map_filter_simps split: option.splits)

lemma elem_data_snoc [simp]:
  "elem_values [] = []" "stamps [] = []" "watermarks [] = []"
  "elem_values (xs @ ys) = elem_values xs @ elem_values ys"
  "stamps (xs @ ys) = stamps xs @ stamps ys"
  "watermarks (xs @ ys) = watermarks xs @ watermarks ys"
  "elem_values (e # es) = (case elem_value e of None \<Rightarrow> [] | Some v \<Rightarrow> [v]) @ elem_values es"
  "stamps (e # es) = (case item_timestamp e of None \<Rightarrow> [] | Some v \<Rightarrow> [v]) @ stamps es"
  "watermarks (e # es) = (case watermark_of e of None \<Rightarrow> [] | Some v \<Rightarrow> [v]) @ watermarks es"
  by (auto simp: elem_values_def stamps_def watermarks_def List.map_filter_simps split: option.splits)

fun with_timestamp :: "timestamp option \<Rightarrow> 'b \<Rightarrow> 'b stream_element" where
  "with_timestamp None item = Item item"
| "with_timestamp (Some ts) item = Timestamped item ts"

lemma is_marker_with_timestamp [simp]: "\<not> is_marker (with_timestamp t x)"
  by (cases t) auto

text \<open>
  The promise of a watermark: after \<^verbatim>\<open>Watermark(t)\<close> no message with a timestamp up to \<open>t\<close>
  follows in the iteration, and watermarks advance. \<open>time_ordered\<close> is the stronger property that
  event time never goes back.
\<close>

definition above :: "timestamp option \<Rightarrow> timestamp \<Rightarrow> bool" where
  "above m t = (case m of None \<Rightarrow> True | Some w \<Rightarrow> w < t)"

fun wm_from :: "timestamp option \<Rightarrow> 'a stream_element list \<Rightarrow> bool" where
  "wm_from m [] = True"
| "wm_from m (Timestamped _ t # es) = (above m t \<and> wm_from m es)"
| "wm_from m (Watermark w # es) = (above m w \<and> wm_from (Some w) es)"
| "wm_from m (FlushAndRestart # es) = wm_from None es"
| "wm_from m (_ # es) = wm_from m es"

definition respects_watermarks :: "'a stream_element list \<Rightarrow> bool" where
  "respects_watermarks es = wm_from None es"

fun time_ordered :: "timestamp option \<Rightarrow> 'a stream_element list \<Rightarrow> bool" where
  "time_ordered m [] = True"
| "time_ordered m (Timestamped _ t # es) =
     ((case m of None \<Rightarrow> True | Some m \<Rightarrow> m \<le> t) \<and> time_ordered (Some t) es)"
| "time_ordered m (Watermark w # es) =
     ((case m of None \<Rightarrow> True | Some m \<Rightarrow> m \<le> w) \<and> time_ordered (Some w) es)"
| "time_ordered m (FlushAndRestart # es) = time_ordered None es"
| "time_ordered m (_ # es) = time_ordered m es"

lemma above_simps [simp]: "above None t" "above (Some w) t \<longleftrightarrow> w < t"
  by (simp_all add: above_def)

lemma above_trans: "above m w \<Longrightarrow> w < t \<Longrightarrow> above m t"
  by (auto simp: above_def split: option.splits)

section \<open>Transducers\<close>

text \<open>
  Most operators consume one input element at a time, answering it with zero or more output
  elements. \<open>transduce\<close> runs such a step function over a stream. The locale relates it to a
  pull function: in an idle state (nothing left to return), an element answered with nothing
  continues the loop of \<^verbatim>\<open>next\<close>, and an answer is returned over the following calls.
\<close>

fun transduce :: "('c \<Rightarrow> 'i \<Rightarrow> 'o list \<times> 'c) \<Rightarrow> 'c \<Rightarrow> 'i list \<Rightarrow> 'o list" where
  "transduce step c [] = []"
| "transduce step c (e # es) = (case step c e of (out, c') \<Rightarrow> out @ transduce step c' es)"

fun transduce_state :: "('c \<Rightarrow> 'i \<Rightarrow> 'o list \<times> 'c) \<Rightarrow> 'c \<Rightarrow> 'i list \<Rightarrow> 'c" where
  "transduce_state step c [] = c"
| "transduce_state step c (e # es) = transduce_state step (snd (step c e)) es"

lemma transduce_append:
  "transduce step c (xs @ ys) = transduce step c xs @ transduce step (transduce_state step c xs) ys"
  by (induction xs arbitrary: c) (auto split: prod.splits)

lemma transduce_state_append [simp]:
  "transduce_state step c (xs @ ys) = transduce_state step (transduce_state step c xs) ys"
  by (induction xs arbitrary: c) auto

text \<open>
  A step function that answers a data element with nothing, closes an iteration with the answer
  \<open>h seg\<close> and starts the next one afresh, computes \<open>h\<close> iteration by iteration.
\<close>

lemma transduce_unsegment:
  assumes "\<And>seg. data_only seg \<Longrightarrow> seg \<in> set segs
      \<Longrightarrow> transduce step c0 (seg @ [FlushAndRestart]) = h seg @ [FlushAndRestart]"
    and "\<And>seg. data_only seg \<Longrightarrow> seg \<in> set segs
      \<Longrightarrow> transduce_state step c0 (seg @ [FlushAndRestart]) = c0"
    and "transduce step c0 [Terminate] = [Terminate]"
    and "\<forall>seg \<in> set segs. data_only seg"
  shows "transduce step c0 (unsegment segs) = unsegment (map h segs)"
  using assms(1,2,4)
proof (induction segs)
  case Nil
  then show ?case using assms(3) by (simp add: unsegment_def)
next
  case (Cons seg segs)
  have "unsegment (seg # segs) = (seg @ [FlushAndRestart]) @ unsegment segs"
    by (simp add: unsegment_def)
  then have "transduce step c0 (unsegment (seg # segs)) =
      transduce step c0 (seg @ [FlushAndRestart]) @
      transduce step (transduce_state step c0 (seg @ [FlushAndRestart])) (unsegment segs)"
    by (simp only: transduce_append)
  also have "\<dots> = h seg @ [FlushAndRestart] @ transduce step c0 (unsegment segs)"
    using Cons.prems by simp
  finally show ?case
    using Cons by (simp add: unsegment_def)
qed

lemma pulls_start_cong:
  "nxt s = nxt t \<Longrightarrow> es \<noteq> [] \<Longrightarrow> pulls nxt s es s' \<longleftrightarrow> pulls nxt t es s'"
  by (cases es) (auto simp: pulls_Cons_iff)

locale transducer =
  fixes p :: "('s, 'i) gen" and nxt :: "('st, 'o) gen"
    and idle :: "'st \<Rightarrow> 'c \<Rightarrow> 's \<Rightarrow> bool"
    and step :: "'c \<Rightarrow> 'i \<Rightarrow> 'o list \<times> 'c"
  assumes silent: "idle st c s \<Longrightarrow> p s = ret (e, s1) \<Longrightarrow> step c e = ([], c')
      \<Longrightarrow> \<exists>st1. nxt st = nxt st1 \<and> idle st1 c' s1"
    and answer: "idle st c s \<Longrightarrow> p s = ret (e, s1) \<Longrightarrow> step c e = (y # ys, c')
      \<Longrightarrow> \<exists>st1. pulls nxt st (y # ys) st1 \<and> idle st1 c' s1"
begin

lemma produces_last:
  assumes "idle st c s" and "pulls p s (es @ [e]) s'"
    and "fst (step (transduce_state step c es) e) \<noteq> []"
  shows "\<exists>st'. pulls nxt st (transduce step c (es @ [e])) st'
    \<and> idle st' (transduce_state step c (es @ [e])) s'"
  using assms
proof (induction es arbitrary: st c s)
  case Nil
  then show ?case
    using answer [of st c s e s'] by (cases "step c e"; cases "fst (step c e)") auto
next
  case (Cons x es)
  then obtain s1 where x: "p s = ret (x, s1)" and rest: "pulls p s1 (es @ [e]) s'"
    by (auto simp: pulls_Cons_iff)
  obtain out c' where sx: "step c x = (out, c')" by (cases "step c x")
  with Cons.prems have last: "fst (step (transduce_state step c' es) e) \<noteq> []" by simp
  have "transduce step c' (es @ [e]) \<noteq> []"
    using last by (auto simp: transduce_append split: prod.splits)
  moreover obtain st1 where st1: "idle st1 c' s1"
    "if out = [] then nxt st = nxt st1 else pulls nxt st out st1"
    using silent [OF Cons.prems(1) x] answer [OF Cons.prems(1) x] sx by (cases out) auto
  moreover from Cons.IH [OF st1(1) rest last] obtain st' where
    "pulls nxt st1 (transduce step c' (es @ [e])) st'"
    and "idle st' (transduce_state step c' (es @ [e])) s'" by blast
  ultimately show ?case
    using sx pulls_start_cong [of nxt st st1] by (auto split: if_splits intro: pulls_appendI)
qed

end

text \<open>For a stream that ends with \<^verbatim>\<open>Terminate\<close>, which is always answered.\<close>

lemma transducer_stream:
  fixes p :: "('s, 'a) pull"
  assumes "transducer p nxt idle step"
    and "wf_stream es" and "idle st c s" and "pulls p s es s'"
    and "\<And>c. fst (step c Terminate) \<noteq> []"
  shows "\<exists>st'. pulls nxt st (transduce step c es) st'"
proof -
  from assms(2) obtain ys where "es = ys @ [Terminate]" by (rule wf_stream_ends)
  with transducer.produces_last [OF assms(1,3), of ys Terminate s'] assms(4,5) show ?thesis by blast
qed

text \<open>
  The same for steps that may panic: \<open>transduceR\<close> stops at the first panic, and an operator
  whose loop follows the step function returns what a run without panic computes.
\<close>

fun transduceR :: "('c \<Rightarrow> 'i \<Rightarrow> ('o list \<times> 'c) res) \<Rightarrow> 'c \<Rightarrow> 'i list \<Rightarrow> ('o list \<times> 'c) res" where
  "transduceR step c [] = ret ([], c)"
| "transduceR step c (e # es) =
     bindR (step c e) (\<lambda>(out, c'). bindR (transduceR step c' es) (\<lambda>(outs, c''). ret (out @ outs, c'')))"

lemma transduceR_Cons_ret:
  "transduceR step c (e # es) = ret (out, c2) \<longleftrightarrow>
     (\<exists>out1 c1 out2. step c e = ret (out1, c1) \<and> transduceR step c1 es = ret (out2, c2) \<and> out = out1 @ out2)"
  by (auto simp: bindR_eq_ret)

lemma transduceR_append:
  "transduceR step c (xs @ ys) = bindR (transduceR step c xs) (\<lambda>(out, c1).
     bindR (transduceR step c1 ys) (\<lambda>(out', c2). ret (out @ out', c2)))"
proof (induction xs arbitrary: c)
  case Nil
  show ?case by (auto simp: bindR_def split: option.splits sum.splits)
next
  case (Cons x xs)
  show ?case
    by (cases "step c x") (auto simp: Cons.IH bindR_def split: option.splits sum.splits)
qed

lemma transduceR_append_ret:
  "transduceR step c (xs @ ys) = ret (out, c2) \<longleftrightarrow>
     (\<exists>out1 c1 out2. transduceR step c xs = ret (out1, c1) \<and> transduceR step c1 ys = ret (out2, c2)
       \<and> out = out1 @ out2)"
  by (auto simp: transduceR_append bindR_eq_ret)

text \<open>Iteration by iteration: an invariant that holds at every restart, and what an iteration returns.\<close>

lemma transduceR_unsegment:
  assumes "I c" and "\<And>c seg. I c \<Longrightarrow> seg \<in> set segs \<Longrightarrow>
      \<exists>out c'. transduceR step c (seg @ [FlushAndRestart]) = ret (out @ [FlushAndRestart], c') \<and> Q seg out \<and> I c'"
    and "\<And>c. I c \<Longrightarrow> step c Terminate = ret ([Terminate], c)"
  shows "\<exists>outs c'. transduceR step c (unsegment segs) = ret (unsegment outs, c') \<and> list_all2 Q segs outs"
  using assms(1,2)
proof (induction segs arbitrary: c)
  case Nil
  then show ?case using assms(3) by (intro exI [of _ "[]"]) (simp add: unsegment_def)
next
  case (Cons seg segs)
  obtain out c1 where seg: "transduceR step c (seg @ [FlushAndRestart]) = ret (out @ [FlushAndRestart], c1)" "Q seg out" "I c1"
    using Cons.prems(1) Cons.prems(2) [of c seg] by auto
  from Cons.IH [OF seg(3)] Cons.prems(2) obtain outs c' where
    "transduceR step c1 (unsegment segs) = ret (unsegment outs, c')" "list_all2 Q segs outs" by auto
  then show ?case using seg(1,2)
    by (intro exI [of _ "out # outs"] exI [of _ c']) (simp only: unsegment_Cons transduceR_append bindR_simps prod.case, simp)
qed

locale fallible_transducer =
  fixes p :: "('s, 'i) gen" and nxt :: "('st, 'o) gen"
    and idle :: "'st \<Rightarrow> 'c \<Rightarrow> 's \<Rightarrow> bool"
    and step :: "'c \<Rightarrow> 'i \<Rightarrow> ('o list \<times> 'c) res"
  assumes silentR: "idle st c s \<Longrightarrow> p s = ret (e, s1) \<Longrightarrow> step c e = ret ([], c')
      \<Longrightarrow> \<exists>st1. nxt st = nxt st1 \<and> idle st1 c' s1"
    and answerR: "idle st c s \<Longrightarrow> p s = ret (e, s1) \<Longrightarrow> step c e = ret (y # ys, c')
      \<Longrightarrow> \<exists>st1. pulls nxt st (y # ys) st1 \<and> idle st1 c' s1"
begin

lemma producesR_last:
  assumes "idle st c s" and "pulls p s (es @ [e]) s'"
    and "transduceR step c (es @ [e]) = ret (out, c')"
    and "\<And>c1 c2. step c1 e \<noteq> ret ([], c2)"
  shows "\<exists>st'. pulls nxt st out st' \<and> idle st' c' s'"
  using assms(1,2,3)
proof (induction es arbitrary: st c s out)
  case Nil
  then show ?case
    using answerR [of st c s e s'] assms(4) [of c]
    by (cases out) (auto simp: bindR_eq_ret)
next
  case (Cons x es)
  then obtain s1 where x: "p s = ret (x, s1)" and rest: "pulls p s1 (es @ [e]) s'"
    by (auto simp: pulls_Cons_iff)
  from Cons.prems(3) obtain out1 c1 out2 where step: "step c x = ret (out1, c1)"
    and run: "transduceR step c1 (es @ [e]) = ret (out2, c')" and out: "out = out1 @ out2"
    unfolding append_Cons transduceR_Cons_ret by blast
  have "out2 \<noteq> []"
    using run assms(4) by (auto simp: transduceR_append_ret bindR_eq_ret)
  moreover obtain st1 where st1: "idle st1 c1 s1"
    "if out1 = [] then nxt st = nxt st1 else pulls nxt st out1 st1"
    using silentR [OF Cons.prems(1) x] answerR [OF Cons.prems(1) x] step by (cases out1) auto
  moreover from Cons.IH [OF st1(1) rest run] obtain st' where
    "pulls nxt st1 out2 st'" and "idle st' c' s'" by blast
  ultimately show ?case
    using out pulls_start_cong [of nxt st st1 out2] by (auto split: if_splits intro: pulls_appendI)
qed

end

section \<open>The worker loop\<close>

text \<open>
  \<^verbatim>\<open>do_work\<close> calls \<^verbatim>\<open>next\<close> on the block's last operator until it returns \<^verbatim>\<open>Terminate\<close>.
\<close>

partial_function (option) do_work :: "('s, 'a) pull \<Rightarrow> 's \<Rightarrow> 's res" where
  "do_work nxt s =
     bindR (nxt s) (\<lambda>(e, s'). if e = Terminate then ret s' else do_work nxt s')"

lemma do_work_pulls:
  "pulls nxt s (ys @ [Terminate]) s' \<Longrightarrow> Terminate \<notin> set ys \<Longrightarrow> do_work nxt s = ret s'"
  by (induction ys arbitrary: s)
    (auto simp: pulls_Cons_iff do_work.simps [of nxt])

section \<open>The contract of an operator\<close>

text \<open>
  An operator is given by its constructor from the previous operator's state, its \<^verbatim>\<open>next\<close> over
  the previous operator's \<^verbatim>\<open>next\<close>, and the function on streams it is meant to compute on the
  inputs it supports. Its promise: whatever the previous operator is, if that operator produces
  a well-formed supported stream, this one produces the specified stream, which is well-formed.
\<close>

locale stream_operator =
  fixes make :: "'s \<Rightarrow> 'st"
    and nxt :: "('s, 'a) pull \<Rightarrow> ('st, 'b) pull"
    and sem :: "'a stream_element list \<Rightarrow> 'b stream_element list"
    and supports :: "'a stream_element list \<Rightarrow> bool"
  assumes produces: "wf_stream es \<Longrightarrow> supports es \<Longrightarrow> pulls p s es s'
      \<Longrightarrow> \<exists>st'. pulls (nxt p) (make s) (sem es) st'"
    and sem_wf: "wf_stream es \<Longrightarrow> supports es \<Longrightarrow> wf_stream (sem es)"
begin

text \<open>The worker of a block that ends with this operator completes.\<close>

lemma worker_completes:
  assumes "wf_stream es" and "supports es" and "pulls p s es s'"
  shows "\<exists>st'. do_work (nxt p) (make s) = ret st'"
proof -
  from produces [OF assms] obtain st' where st': "pulls (nxt p) (make s) (sem es) st'" ..
  from sem_wf [OF assms(1,2)] obtain ys where ys: "sem es = ys @ [Terminate]" "Terminate \<notin> set ys"
    by (rule wf_stream_ends)
  with st' show ?thesis
    using do_work_pulls [of "nxt p" "make s" ys st'] by auto
qed

end

text \<open>Chaining: the second operator pulls from the first, and computes the composition.\<close>

locale operator_chain =
  first: stream_operator make1 nxt1 sem1 supports1 +
  second: stream_operator make2 nxt2 sem2 supports2
  for make1 :: "'s \<Rightarrow> 'st" and nxt1 :: "('s, 'a) pull \<Rightarrow> ('st, 'b) pull"
    and sem1 :: "'a stream_element list \<Rightarrow> 'b stream_element list" and supports1
    and make2 :: "'st \<Rightarrow> 'su" and nxt2 :: "('st, 'b) pull \<Rightarrow> ('su, 'c) pull"
    and sem2 :: "'b stream_element list \<Rightarrow> 'c stream_element list" and supports2

sublocale operator_chain \<subseteq> chain: stream_operator "\<lambda>s. make2 (make1 s)" "\<lambda>p. nxt2 (nxt1 p)"
  "\<lambda>es. sem2 (sem1 es)" "\<lambda>es. supports1 es \<and> supports2 (sem1 es)"
proof
  fix es s s' and p :: "('s, 'a) pull"
  assume wf: "wf_stream es" and sup: "supports1 es \<and> supports2 (sem1 es)" and "pulls p s es s'"
  from sup \<open>pulls p s es s'\<close> first.produces [OF wf] obtain st'
    where "pulls (nxt1 p) (make1 s) (sem1 es) st'" by blast
  with sup first.sem_wf [OF wf] show "\<exists>st'. pulls (nxt2 (nxt1 p)) (make2 (make1 s)) (sem2 (sem1 es)) st'"
    using second.produces by blast
next
  fix es
  assume "wf_stream es" and "supports1 es \<and> supports2 (sem1 es)"
  then show "wf_stream (sem2 (sem1 es))"
    using first.sem_wf second.sem_wf by blast
qed

end
