(* ===== verification/Basic_Operators.thy ===== *)
theory Basic_Operators
  imports Stream_Element
begin

text \<open>
  The element-wise operators of \<^verbatim>\<open>src/operator\<close>: \<^verbatim>\<open>Map\<close>, \<^verbatim>\<open>Filter\<close>, \<^verbatim>\<open>FilterMap\<close>, \<^verbatim>\<open>KeyBy\<close>,
  \<^verbatim>\<open>Inspect\<close>, \<^verbatim>\<open>AddTimestamp\<close>, \<^verbatim>\<open>DropTimestamp\<close>, \<^verbatim>\<open>FlatMap\<close>, \<^verbatim>\<open>KeyedFlatMap\<close>, \<^verbatim>\<open>Flatten\<close>,
  \<^verbatim>\<open>KeyedFlatten\<close> and \<^verbatim>\<open>RichMap\<close>. Each \<^verbatim>\<open>next\<close> is written over the previous operator's \<^verbatim>\<open>next\<close>;
  each is interpreted as a \<open>stream_operator\<close>. The iterators the user's functions return are
  the lists of the items they yield.
\<close>

section \<open>Map, KeyBy and Inspect\<close>

definition map_next :: "('a \<Rightarrow> 'b) \<Rightarrow> ('s, 'a) pull \<Rightarrow> ('s, 'b) pull" where
  "map_next f prev s = bindR (prev s) (\<lambda>(e, s'). ret (elem_map f e, s'))"

definition key_by_next :: "('a \<Rightarrow> 'k) \<Rightarrow> ('s, 'a) pull \<Rightarrow> ('s, 'k \<times> 'a) pull" where
  "key_by_next keyer prev s =
     bindR (prev s) (\<lambda>(e, s'). ret (case e of
         Item t \<Rightarrow> Item (keyer t, t)
       | Timestamped t ts \<Rightarrow> Timestamped (keyer t, t) ts
       | Watermark w \<Rightarrow> Watermark w
       | Terminate \<Rightarrow> Terminate
       | FlushAndRestart \<Rightarrow> FlushAndRestart
       | FlushBatch \<Rightarrow> FlushBatch, s'))"

text \<open>The closure of \<^verbatim>\<open>Inspect\<close> is an \<^verbatim>\<open>FnMut\<close>: its captured state is part of the operator.\<close>

definition inspect_next :: "('c \<Rightarrow> 'a \<Rightarrow> 'c) \<Rightarrow> ('s, 'a) pull \<Rightarrow> ('s \<times> 'c, 'a) pull" where
  "inspect_next f prev st =
     (case st of (s, c) \<Rightarrow>
        bindR (prev s) (\<lambda>(el, s'). ret (el, (s', case el of
            Item t \<Rightarrow> f c t
          | Timestamped t _ \<Rightarrow> f c t
          | _ \<Rightarrow> c))))"

lemma key_by_next_eq: "key_by_next keyer = map_next (\<lambda>t. (keyer t, t))"
proof -
  have "(case e of Item t \<Rightarrow> Item (keyer t, t) | Timestamped t ts \<Rightarrow> Timestamped (keyer t, t) ts
       | Watermark w \<Rightarrow> Watermark w | Terminate \<Rightarrow> Terminate
       | FlushAndRestart \<Rightarrow> FlushAndRestart | FlushBatch \<Rightarrow> FlushBatch)
     = elem_map (\<lambda>t. (keyer t, t)) e" for e
    by (cases e) auto
  then show ?thesis
    by (intro ext) (simp add: key_by_next_def map_next_def)
qed

lemma pulls_map: "pulls p s es s' \<Longrightarrow> pulls (map_next f p) s (map (elem_map f) es) s'"
  by (induction rule: pulls.induct) (auto simp: pulls_Cons_iff map_next_def)

lemma pulls_inspect:
  "pulls p s es s' \<Longrightarrow> \<exists>c'. pulls (inspect_next f p) (s, c) es (s', c')"
proof (induction arbitrary: c rule: pulls.induct)
  case (pulls_Cons s e s1 es s2)
  then show ?case by (simp add: pulls_Cons_iff inspect_next_def)
qed simp

interpretation map_op: stream_operator "\<lambda>s. s" "map_next f" "map (elem_map f)" "\<lambda>_. True"
  for f :: "'a \<Rightarrow> 'b"
  by unfold_locales (auto simp: wf_stream_def wf_from_map intro: pulls_map)

interpretation key_by_op: stream_operator "\<lambda>s. s" "key_by_next keyer"
  "map (elem_map (\<lambda>t. (keyer t, t)))" "\<lambda>_. True"
  for keyer :: "'a \<Rightarrow> 'k"
  unfolding key_by_next_eq by unfold_locales

interpretation inspect_op: stream_operator "\<lambda>s. (s, c)" "inspect_next f" "\<lambda>es. es" "\<lambda>_. True"
  for f :: "'c \<Rightarrow> 'a \<Rightarrow> 'c" and c
proof
  fix es s s' and p :: "('s, 'a) pull"
  assume "pulls p s es s'"
  then show "\<exists>st'. pulls (inspect_next f p) (s, c) es st'"
    using pulls_inspect [of p s es s' f c] by blast
qed

section \<open>Filter, FilterMap and DropTimestamp\<close>

partial_function (option) filter_next
  :: "('a \<Rightarrow> bool) \<Rightarrow> ('s, 'a) pull \<Rightarrow> ('s, 'a) pull" where
  "filter_next predicate prev s =
     bindR (prev s) (\<lambda>(e, s'). case e of
         Item item \<Rightarrow> (if \<not> predicate item then filter_next predicate prev s' else ret (e, s'))
       | Timestamped item _ \<Rightarrow> (if \<not> predicate item then filter_next predicate prev s' else ret (e, s'))
       | _ \<Rightarrow> ret (e, s'))"

partial_function (option) filter_map_next
  :: "('a \<Rightarrow> 'b option) \<Rightarrow> ('s, 'a) pull \<Rightarrow> ('s, 'b) pull" where
  "filter_map_next predicate prev s =
     bindR (prev s) (\<lambda>(e, s'). case e of
         Item item \<Rightarrow>
           (case predicate item of
              Some el \<Rightarrow> ret (Item el, s')
            | None \<Rightarrow> filter_map_next predicate prev s')
       | Timestamped item ts \<Rightarrow>
           (case predicate item of
              Some el \<Rightarrow> ret (Timestamped el ts, s')
            | None \<Rightarrow> filter_map_next predicate prev s')
       | Watermark w \<Rightarrow> ret (Watermark w, s')
       | Terminate \<Rightarrow> ret (Terminate, s')
       | FlushAndRestart \<Rightarrow> ret (FlushAndRestart, s')
       | FlushBatch \<Rightarrow> ret (FlushBatch, s'))"

partial_function (option) drop_timestamp_next
  :: "('s, 'a) pull \<Rightarrow> ('s, 'a) pull" where
  "drop_timestamp_next prev s =
     bindR (prev s) (\<lambda>(e, s'). case e of
         Watermark _ \<Rightarrow> drop_timestamp_next prev s'
       | Timestamped item _ \<Rightarrow> ret (Item item, s')
       | el \<Rightarrow> ret (el, s'))"

text \<open>The specifications: which elements survive, and as what.\<close>

fun keeps :: "('a \<Rightarrow> bool) \<Rightarrow> 'a stream_element \<Rightarrow> bool" where
  "keeps P (Item x) = P x"
| "keeps P (Timestamped x _) = P x"
| "keeps P _ = True"

fun elem_filter_map :: "('a \<Rightarrow> 'b option) \<Rightarrow> 'a stream_element \<Rightarrow> 'b stream_element option" where
  "elem_filter_map f (Item x) = map_option Item (f x)"
| "elem_filter_map f (Timestamped x ts) = map_option (\<lambda>y. Timestamped y ts) (f x)"
| "elem_filter_map f (Watermark w) = Some (Watermark w)"
| "elem_filter_map f Terminate = Some Terminate"
| "elem_filter_map f FlushAndRestart = Some FlushAndRestart"
| "elem_filter_map f FlushBatch = Some FlushBatch"

fun untimed :: "'a stream_element \<Rightarrow> 'a stream_element option" where
  "untimed (Watermark _) = None"
| "untimed (Timestamped x _) = Some (Item x)"
| "untimed e = Some e"

text \<open>
  A loop that skips some elements and returns the others one by one is the transducer of the
  partial function that says what becomes of an element.
\<close>

definition partial_step :: "('a stream_element \<Rightarrow> 'b stream_element option) \<Rightarrow> unit
    \<Rightarrow> 'a stream_element \<Rightarrow> 'b stream_element list \<times> unit" where
  "partial_step g c e = (case g e of None \<Rightarrow> [] | Some y \<Rightarrow> [y], ())"

lemma transduce_partial_step: "transduce (partial_step g) c es = List.map_filter g es"
  by (induction es arbitrary: c) (auto simp: partial_step_def List.map_filter_simps split: option.splits)

lemma partial_transducer:
  assumes "\<And>s e s1. p s = ret (e, s1) \<Longrightarrow>
    q s = (case g e of None \<Rightarrow> q s1 | Some y \<Rightarrow> ret (y, s1))"
  shows "transducer p q (\<lambda>st c s. st = s) (partial_step g)"
  by unfold_locales (auto simp: partial_step_def assms split: option.splits)

lemma partial_produces:
  fixes g :: "'a stream_element \<Rightarrow> 'b stream_element option"
  assumes "\<And>s e s1. p s = ret (e, s1) \<Longrightarrow>
    q s = (case g e of None \<Rightarrow> q s1 | Some y \<Rightarrow> ret (y, s1))"
    and "wf_stream es" and "pulls p s es s'" and "g Terminate \<noteq> None"
  shows "\<exists>st'. pulls q s (List.map_filter g es) st'"
  using transducer_stream [OF partial_transducer [OF assms(1)] assms(2) _ assms(3)] assms(4)
  by (auto simp: transduce_partial_step partial_step_def)

lemma wf_from_map_filter:
  fixes g :: "'a stream_element \<Rightarrow> 'b stream_element option"
  assumes "g Terminate = Some Terminate" and "g FlushAndRestart = Some FlushAndRestart"
    and "\<And>e y. \<not> is_marker e \<Longrightarrow> g e = Some y \<Longrightarrow> \<not> is_marker y"
  shows "wf_from b es \<Longrightarrow> wf_from b (List.map_filter g es)"
proof (induction es arbitrary: b)
  case Nil
  then show ?case by simp
next
  case (Cons e es)
  show ?case
  proof (cases "is_marker e")
    case True
    with Cons assms(1,2) show ?thesis
      by (cases e) (auto simp: List.map_filter_simps)
  next
    case False
    with Cons have "wf_from False (List.map_filter g es)" by (simp add: wf_from_data)
    with False assms(3) show ?thesis
      by (auto simp: List.map_filter_simps wf_from_data intro: wf_from_weaken split: option.splits)
  qed
qed

lemma filter_eq_map_filter: "filter P es = List.map_filter (\<lambda>e. if P e then Some e else None) es"
  by (induction es) (auto simp: List.map_filter_simps)

interpretation filter_op: stream_operator "\<lambda>s. s" "filter_next predicate"
  "filter (keeps predicate)" "\<lambda>_. True"
  for predicate :: "'a \<Rightarrow> bool"
proof
  fix es s s' and p :: "('s, 'a) pull"
  assume "wf_stream es" and "pulls p s es s'"
  then show "\<exists>st'. pulls (filter_next predicate p) s (filter (keeps predicate) es) st'"
    unfolding filter_eq_map_filter
    by (intro partial_produces) (auto simp: filter_next.simps split: stream_element.splits)
next
  fix es :: "'a stream_element list"
  assume "wf_stream es"
  then show "wf_stream (filter (keeps predicate) es)"
    unfolding filter_eq_map_filter wf_stream_def
    by (intro wf_from_map_filter) (auto split: if_splits)
qed

lemma elem_filter_map_marker:
  "\<not> is_marker e \<Longrightarrow> elem_filter_map f e = Some y \<Longrightarrow> \<not> is_marker y"
  by (cases e) auto

interpretation filter_map_op: stream_operator "\<lambda>s. s" "filter_map_next predicate"
  "List.map_filter (elem_filter_map predicate)" "\<lambda>_. True"
  for predicate :: "'a \<Rightarrow> 'b option"
proof
  fix es s s' and p :: "('s, 'a) pull"
  assume "wf_stream es" and "pulls p s es s'"
  then show "\<exists>st'. pulls (filter_map_next predicate p) s
      (List.map_filter (elem_filter_map predicate) es) st'"
    by (intro partial_produces)
      (auto simp: filter_map_next.simps split: stream_element.splits option.splits)
next
  fix es :: "'a stream_element list"
  assume "wf_stream es"
  then show "wf_stream (List.map_filter (elem_filter_map predicate) es)"
    unfolding wf_stream_def
    by (intro wf_from_map_filter) (auto dest: elem_filter_map_marker)
qed

interpretation drop_timestamp_op: stream_operator "\<lambda>s. s"
  "drop_timestamp_next :: ('s, 'a) pull \<Rightarrow> ('s, 'a) pull"
  "List.map_filter untimed" "\<lambda>_. True"
proof
  fix es s s' and p :: "('s, 'a) pull"
  assume "wf_stream es" and "pulls p s es s'"
  then show "\<exists>st'. pulls (drop_timestamp_next p) s (List.map_filter untimed es) st'"
    by (intro partial_produces) (auto simp: drop_timestamp_next.simps split: stream_element.splits)
next
  fix es :: "'a stream_element list"
  assume "wf_stream es"
  then show "wf_stream (List.map_filter untimed es)"
    unfolding wf_stream_def
    by (intro wf_from_map_filter) (auto elim!: untimed.elims)
qed

section \<open>AddTimestamp\<close>

record 's add_timestamp =
  at_prev :: 's
  pending_watermark :: "timestamp option"

definition add_timestamp_new :: "'s \<Rightarrow> 's add_timestamp" where
  "add_timestamp_new prev = \<lparr>at_prev = prev, pending_watermark = None\<rparr>"

definition add_timestamp_next :: "('a \<Rightarrow> timestamp) \<Rightarrow> ('a \<Rightarrow> timestamp \<Rightarrow> timestamp option)
    \<Rightarrow> ('s, 'a) pull \<Rightarrow> ('s add_timestamp, 'a) pull" where
  "add_timestamp_next timestamp_gen watermark_gen prev st =
     (case pending_watermark st of
        Some ts \<Rightarrow> ret (Watermark ts, st\<lparr>pending_watermark := None\<rparr>)
      | None \<Rightarrow>
          bindR (prev (at_prev st)) (\<lambda>(elem, s').
            let st = st\<lparr>at_prev := s'\<rparr> in
            case elem of
              Item item \<Rightarrow>
                let ts = timestamp_gen item; watermark = watermark_gen item ts
                in ret (Timestamped item ts, st\<lparr>pending_watermark := watermark\<rparr>)
            | FlushAndRestart \<Rightarrow> ret (elem, st)
            | FlushBatch \<Rightarrow> ret (elem, st)
            | Terminate \<Rightarrow> ret (elem, st)
            | _ \<Rightarrow> panic ExplicitPanic))"

fun stamp :: "('a \<Rightarrow> timestamp) \<Rightarrow> ('a \<Rightarrow> timestamp \<Rightarrow> timestamp option)
    \<Rightarrow> 'a stream_element \<Rightarrow> 'a stream_element list" where
  "stamp tg wg (Item x) = Timestamped x (tg x) #
     (case wg x (tg x) of None \<Rightarrow> [] | Some w \<Rightarrow> [Watermark w])"
| "stamp tg wg e = [e]"

fun untimestamped :: "'a stream_element \<Rightarrow> bool" where
  "untimestamped (Timestamped _ _) = False"
| "untimestamped (Watermark _) = False"
| "untimestamped _ = True"

lemma pulls_add_timestamp:
  assumes "pulls p s es s'" and "list_all untimestamped es"
  shows "pulls (add_timestamp_next tg wg p) \<lparr>at_prev = s, pending_watermark = None\<rparr>
    (concat (map (stamp tg wg) es)) \<lparr>at_prev = s', pending_watermark = None\<rparr>"
  using assms
proof (induction rule: pulls.induct)
  case (pulls_Cons s e s1 es s2)
  then show ?case
    by (cases e) (auto simp: pulls_Cons_iff add_timestamp_next_def Let_def split: option.splits)
qed simp

lemma wf_from_concat_map:
  fixes g :: "'a stream_element \<Rightarrow> 'b stream_element list"
  assumes "g Terminate = [Terminate]" and "g FlushAndRestart = [FlushAndRestart]"
    and "\<And>e. \<not> is_marker e \<Longrightarrow> e \<in> set es \<Longrightarrow> data_only (g e)"
  shows "wf_from b es \<Longrightarrow> wf_from b (concat (map g es))"
  using assms(3)
proof (induction es arbitrary: b)
  case (Cons e es)
  show ?case
  proof (cases "is_marker e")
    case True
    with Cons assms(1,2) show ?thesis by (cases e) auto
  next
    case False
    with Cons have "wf_from False (concat (map g es))" by (simp add: wf_from_data)
    with False Cons.prems(2) show ?thesis by (simp add: wf_from_data_append)
  qed
qed simp

interpretation add_timestamp_op: stream_operator add_timestamp_new "add_timestamp_next tg wg"
  "\<lambda>es. concat (map (stamp tg wg) es)" "list_all untimestamped"
  for tg :: "'a \<Rightarrow> timestamp" and wg
proof
  fix es s s' and p :: "('s, 'a) pull"
  assume "list_all untimestamped es" and "pulls p s es s'"
  then show "\<exists>st'. pulls (add_timestamp_next tg wg p) (add_timestamp_new s)
      (concat (map (stamp tg wg) es)) st'"
    using pulls_add_timestamp [of p s es s' tg wg] by (auto simp: add_timestamp_new_def)
next
  fix es :: "'a stream_element list"
  assume "wf_stream es" and "list_all untimestamped es"
  moreover have "data_only (stamp tg wg e)" if "\<not> is_marker e" for e
    using that by (cases e) (auto split: option.splits)
  ultimately show "wf_stream (concat (map (stamp tg wg) es))"
    unfolding wf_stream_def by (intro wf_from_concat_map) auto
qed

section \<open>FlatMap and Flatten\<close>

record ('s, 'b) flat_map =
  fm_prev :: 's
  fm_frontiter :: "'b list option"
  fm_timestamp :: "timestamp option"

definition flat_map_new :: "'s \<Rightarrow> ('s, 'b) flat_map" where
  "flat_map_new prev = \<lparr>fm_prev = prev, fm_frontiter = None, fm_timestamp = None\<rparr>"

text \<open>
  The first half of the loop body returns the next item of the current inner iterator; when the
  iterator is exhausted (or there is none) the second half asks the previous operator.
\<close>

partial_function (option) flat_map_next
  :: "('a \<Rightarrow> 'b list) \<Rightarrow> ('s, 'a) pull \<Rightarrow> (('s, 'b) flat_map, 'b) pull" where
  "flat_map_next f prev st =
     (case fm_frontiter st of
        Some (item # rest) \<Rightarrow>
          ret (with_timestamp (fm_timestamp st) item, st\<lparr>fm_frontiter := Some rest\<rparr>)
      | _ \<Rightarrow>
          bindR (prev (fm_prev st)) (\<lambda>(e, s').
            let st = st\<lparr>fm_prev := s', fm_frontiter := None\<rparr> in
            case e of
              Item inner \<Rightarrow>
                flat_map_next f prev (st\<lparr>fm_frontiter := Some (f inner), fm_timestamp := None\<rparr>)
            | Timestamped inner ts \<Rightarrow>
                flat_map_next f prev (st\<lparr>fm_frontiter := Some (f inner), fm_timestamp := Some ts\<rparr>)
            | Watermark ts \<Rightarrow> ret (Watermark ts, st)
            | FlushBatch \<Rightarrow> ret (FlushBatch, st)
            | Terminate \<Rightarrow> ret (Terminate, st)
            | FlushAndRestart \<Rightarrow> ret (FlushAndRestart, st)))"

record ('s, 'k, 'b) keyed_flat_map =
  kfm_prev :: 's
  kfm_frontiter :: "('k \<times> 'b list) option"
  kfm_timestamp :: "timestamp option"

definition keyed_flat_map_new :: "'s \<Rightarrow> ('s, 'k, 'b) keyed_flat_map" where
  "keyed_flat_map_new prev = \<lparr>kfm_prev = prev, kfm_frontiter = None, kfm_timestamp = None\<rparr>"

partial_function (option) keyed_flat_map_next
  :: "('k \<times> 'a \<Rightarrow> 'b list) \<Rightarrow> ('s, 'k \<times> 'a) pull \<Rightarrow> (('s, 'k, 'b) keyed_flat_map, 'k \<times> 'b) pull"
where
  "keyed_flat_map_next f prev st =
     (case kfm_frontiter st of
        Some (key, item # rest) \<Rightarrow>
          ret (with_timestamp (kfm_timestamp st) (key, item),
               st\<lparr>kfm_frontiter := Some (key, rest)\<rparr>)
      | _ \<Rightarrow>
          bindR (prev (kfm_prev st)) (\<lambda>(e, s').
            let st = st\<lparr>kfm_prev := s', kfm_frontiter := None\<rparr> in
            case e of
              Item kv \<Rightarrow>
                keyed_flat_map_next f prev
                  (st\<lparr>kfm_frontiter := Some (fst kv, f kv), kfm_timestamp := None\<rparr>)
            | Timestamped kv ts \<Rightarrow>
                keyed_flat_map_next f prev
                  (st\<lparr>kfm_frontiter := Some (fst kv, f kv), kfm_timestamp := Some ts\<rparr>)
            | Watermark ts \<Rightarrow> ret (Watermark ts, st)
            | FlushBatch \<Rightarrow> ret (FlushBatch, st)
            | Terminate \<Rightarrow> ret (Terminate, st)
            | FlushAndRestart \<Rightarrow> ret (FlushAndRestart, st)))"

text \<open>
  \<^verbatim>\<open>Flatten\<close> and \<^verbatim>\<open>KeyedFlatten\<close> have the same fields and the same loop, with the value itself
  as the iterator (\<^verbatim>\<open>into_kv\<close> on a pair is the identity).
\<close>

definition flatten_next :: "('s, 'b list) pull \<Rightarrow> (('s, 'b) flat_map, 'b) pull" where
  "flatten_next = flat_map_next (\<lambda>inner. inner)"

definition keyed_flatten_next
  :: "('s, 'k \<times> 'b list) pull \<Rightarrow> (('s, 'k, 'b) keyed_flat_map, 'k \<times> 'b) pull" where
  "keyed_flatten_next = keyed_flat_map_next snd"

fun elem_flat_map :: "('a \<Rightarrow> 'b list) \<Rightarrow> 'a stream_element \<Rightarrow> 'b stream_element list" where
  "elem_flat_map f (Item x) = map Item (f x)"
| "elem_flat_map f (Timestamped x ts) = map (\<lambda>y. Timestamped y ts) (f x)"
| "elem_flat_map f (Watermark w) = [Watermark w]"
| "elem_flat_map f FlushBatch = [FlushBatch]"
| "elem_flat_map f Terminate = [Terminate]"
| "elem_flat_map f FlushAndRestart = [FlushAndRestart]"

lemma wf_stream_flat_map: "wf_stream es \<Longrightarrow> wf_stream (concat (map (elem_flat_map f) es))"
proof -
  have "data_only (elem_flat_map f e)" if "\<not> is_marker e" for e
    using that by (cases e) (auto simp: data_only_def list_all_iff)
  then show "wf_stream es \<Longrightarrow> ?thesis"
    unfolding wf_stream_def by (intro wf_from_concat_map) auto
qed

lemma flat_map_drain:
  "pulls (flat_map_next f p) \<lparr>fm_prev = s, fm_frontiter = Some xs, fm_timestamp = t\<rparr>
     (map (with_timestamp t) xs) \<lparr>fm_prev = s, fm_frontiter = Some [], fm_timestamp = t\<rparr>"
  by (induction xs) (auto simp: pulls_Cons_iff flat_map_next.simps)

lemma keyed_flat_map_drain:
  "pulls (keyed_flat_map_next f p) \<lparr>kfm_prev = s, kfm_frontiter = Some (k, xs), kfm_timestamp = t\<rparr>
     (map (\<lambda>x. with_timestamp t (k, x)) xs)
     \<lparr>kfm_prev = s, kfm_frontiter = Some (k, []), kfm_timestamp = t\<rparr>"
  by (induction xs) (auto simp: pulls_Cons_iff keyed_flat_map_next.simps)

lemma with_timestamp_eqs: "map (with_timestamp None) xs = map Item xs"
  "map (with_timestamp (Some t)) xs = map (\<lambda>y. Timestamped y t) xs"
  by auto

definition keyed_items :: "('k \<times> 'a \<Rightarrow> 'b list) \<Rightarrow> 'k \<times> 'a \<Rightarrow> ('k \<times> 'b) list" where
  "keyed_items f kv = map (Pair (fst kv)) (f kv)"

fun flat_map_idle :: "('s, 'b) flat_map \<Rightarrow> unit \<Rightarrow> 's \<Rightarrow> bool" where
  "flat_map_idle st _ s = (fm_prev st = s \<and> (fm_frontiter st = None \<or> fm_frontiter st = Some []))"

fun keyed_flat_map_idle :: "('s, 'k, 'b) keyed_flat_map \<Rightarrow> unit \<Rightarrow> 's \<Rightarrow> bool" where
  "keyed_flat_map_idle st _ s =
     (kfm_prev st = s \<and> (kfm_frontiter st = None \<or> (\<exists>k. kfm_frontiter st = Some (k, []))))"

text \<open>In an idle state \<open>next\<close> asks the previous operator, and an element opens its iterator.\<close>

lemma flat_map_opens:
  assumes "flat_map_idle st c s" and "p s = ret (e, s1)"
  shows "e = Item x \<Longrightarrow> flat_map_next f p st
      = flat_map_next f p \<lparr>fm_prev = s1, fm_frontiter = Some (f x), fm_timestamp = None\<rparr>"
    and "e = Timestamped x t \<Longrightarrow> flat_map_next f p st
      = flat_map_next f p \<lparr>fm_prev = s1, fm_frontiter = Some (f x), fm_timestamp = Some t\<rparr>"
    and "elem_value e = None \<Longrightarrow> \<exists>st1. pulls (flat_map_next f p) st (elem_flat_map f e) st1
      \<and> flat_map_idle st1 c s1"
proof -
  obtain t0 where st: "st = \<lparr>fm_prev = s, fm_frontiter = None, fm_timestamp = t0\<rparr>
      \<or> st = \<lparr>fm_prev = s, fm_frontiter = Some [], fm_timestamp = t0\<rparr>"
    using assms(1) by (cases st) auto
  show "e = Item x \<Longrightarrow> flat_map_next f p st
      = flat_map_next f p \<lparr>fm_prev = s1, fm_frontiter = Some (f x), fm_timestamp = None\<rparr>"
    using st assms(2) by (subst flat_map_next.simps) (auto simp: Let_def)
  show "e = Timestamped x t \<Longrightarrow> flat_map_next f p st
      = flat_map_next f p \<lparr>fm_prev = s1, fm_frontiter = Some (f x), fm_timestamp = Some t\<rparr>"
    using st assms(2) by (subst flat_map_next.simps) (auto simp: Let_def)
  show "\<exists>st1. pulls (flat_map_next f p) st (elem_flat_map f e) st1 \<and> flat_map_idle st1 c s1"
    if "elem_value e = None"
    using that st assms(2) by (cases e) (auto simp: flat_map_next.simps Let_def)
qed

lemma keyed_flat_map_opens:
  assumes "keyed_flat_map_idle st c s" and "p s = ret (e, s1)"
  shows "e = Item x \<Longrightarrow> keyed_flat_map_next f p st
      = keyed_flat_map_next f p \<lparr>kfm_prev = s1, kfm_frontiter = Some (fst x, f x), kfm_timestamp = None\<rparr>"
    and "e = Timestamped x t \<Longrightarrow> keyed_flat_map_next f p st
      = keyed_flat_map_next f p \<lparr>kfm_prev = s1, kfm_frontiter = Some (fst x, f x), kfm_timestamp = Some t\<rparr>"
    and "elem_value e = None \<Longrightarrow> \<exists>st1. pulls (keyed_flat_map_next f p) st
        (elem_flat_map (keyed_items f) e) st1 \<and> keyed_flat_map_idle st1 c s1"
proof -
  obtain t0 k0 where st: "st = \<lparr>kfm_prev = s, kfm_frontiter = None, kfm_timestamp = t0\<rparr>
      \<or> st = \<lparr>kfm_prev = s, kfm_frontiter = Some (k0, []), kfm_timestamp = t0\<rparr>"
    using assms(1) by (cases st) auto
  show "e = Item x \<Longrightarrow> keyed_flat_map_next f p st
      = keyed_flat_map_next f p \<lparr>kfm_prev = s1, kfm_frontiter = Some (fst x, f x), kfm_timestamp = None\<rparr>"
    using st assms(2) by (subst keyed_flat_map_next.simps) (auto simp: Let_def)
  show "e = Timestamped x t \<Longrightarrow> keyed_flat_map_next f p st
      = keyed_flat_map_next f p \<lparr>kfm_prev = s1, kfm_frontiter = Some (fst x, f x), kfm_timestamp = Some t\<rparr>"
    using st assms(2) by (subst keyed_flat_map_next.simps) (auto simp: Let_def)
  show "\<exists>st1. pulls (keyed_flat_map_next f p) st
      (elem_flat_map (keyed_items f) e) st1 \<and> keyed_flat_map_idle st1 c s1"
    if "elem_value e = None"
    using that st assms(2) by (cases e) (auto simp: keyed_flat_map_next.simps Let_def)
qed

text \<open>
  Both loops open an iterator for a data element and return its items over the next calls: one
  lemma turns an operator that opens and drains in this way into a transducer.
\<close>

lemma open_drain_transducer:
  assumes opens: "\<And>st s e s1 v. idle st () s \<Longrightarrow> p s = ret (e, s1) \<Longrightarrow> elem_value e = Some v
      \<Longrightarrow> nxt st = nxt (opened e v s1)"
    and drains: "\<And>e v s1. elem_value e = Some v \<Longrightarrow> \<exists>st1. pulls nxt (opened e v s1) (g e) st1 \<and> idle st1 () s1"
    and forwards: "\<And>st s e s1. idle st () s \<Longrightarrow> p s = ret (e, s1) \<Longrightarrow> elem_value e = None
      \<Longrightarrow> g e \<noteq> [] \<and> (\<exists>st1. pulls nxt st (g e) st1 \<and> idle st1 () s1)"
  shows "transducer p nxt idle (\<lambda>c e. (g e, ()))"
proof
  fix st c s e s1 c'
  assume idle: "idle st c s" and e: "p s = ret (e, s1)" and g: "(g e, ()) = ([], c')"
  then obtain v where v: "elem_value e = Some v"
    using forwards [of st s e s1] by (cases "elem_value e") auto
  with idle e g opens [of st s e s1 v] drains [OF v, of s1]
  show "\<exists>st1. nxt st = nxt st1 \<and> idle st1 c' s1" by auto
next
  fix st c s e s1 y ys c'
  assume idle: "idle st c s" and e: "p s = ret (e, s1)" and g: "(g e, ()) = (y # ys, c')"
  show "\<exists>st1. pulls nxt st (y # ys) st1 \<and> idle st1 c' s1"
  proof (cases "elem_value e")
    case None
    with idle e g forwards [of st s e s1] show ?thesis by auto
  next
    case (Some v)
    with idle e g opens [of st s e s1 v] drains [OF Some, of s1] show ?thesis
      using pulls_start_cong [of nxt st "opened e v s1" "y # ys"] by auto
  qed
qed

lemma transduce_stateless: "transduce (\<lambda>c e. (g e, ())) c es = concat (map g es)"
  by (induction es arbitrary: c) auto

lemma flat_map_transducer:
  fixes f :: "'a \<Rightarrow> 'b list" and p :: "('s, 'a) pull"
  shows "transducer p (flat_map_next f p) flat_map_idle (\<lambda>c e. (elem_flat_map f e, ()))"
proof (rule open_drain_transducer [where opened = "\<lambda>e v s1.
    \<lparr>fm_prev = s1, fm_frontiter = Some (f v), fm_timestamp = timestamp_of e\<rparr>"])
  fix st :: "('s, 'b) flat_map" and s e s1 v
  assume "flat_map_idle st () s" and "p s = ret (e, s1)" and "elem_value e = Some v"
  then show "flat_map_next f p st = flat_map_next f p
      \<lparr>fm_prev = s1, fm_frontiter = Some (f v), fm_timestamp = timestamp_of e\<rparr>"
    by (cases e) (auto intro!: flat_map_opens(1,2))
next
  fix e :: "'a stream_element" and v s1
  assume "elem_value e = Some v"
  then show "\<exists>st1. pulls (flat_map_next f p)
      \<lparr>fm_prev = s1, fm_frontiter = Some (f v), fm_timestamp = timestamp_of e\<rparr> (elem_flat_map f e) st1
      \<and> flat_map_idle st1 () s1"
    using flat_map_drain [of f p s1 "f v" "timestamp_of e"]
    by (cases e) (auto simp: with_timestamp_eqs)
next
  fix st :: "('s, 'b) flat_map" and s e s1
  assume "flat_map_idle st () s" and "p s = ret (e, s1)" and "elem_value e = None"
  then show "elem_flat_map f e \<noteq> [] \<and>
      (\<exists>st1. pulls (flat_map_next f p) st (elem_flat_map f e) st1 \<and> flat_map_idle st1 () s1)"
    using flat_map_opens(3) [of st "()" s p e s1 f] by (cases e) auto
qed

interpretation flat_map_op: stream_operator flat_map_new "flat_map_next f"
  "\<lambda>es. concat (map (elem_flat_map f) es)" "\<lambda>_. True"
  for f :: "'a \<Rightarrow> 'b list"
proof
  fix es s s' and p :: "('s, 'a) pull"
  assume "wf_stream es" and "pulls p s es s'"
  then show "\<exists>st'. pulls (flat_map_next f p) (flat_map_new s) (concat (map (elem_flat_map f) es)) st'"
    using transducer_stream [OF flat_map_transducer, of es "flat_map_new s" "()" s p s' f]
    by (simp add: transduce_stateless flat_map_new_def)
qed (simp add: wf_stream_flat_map)

lemma keyed_flat_map_transducer:
  fixes f :: "'k \<times> 'a \<Rightarrow> 'b list" and p :: "('s, 'k \<times> 'a) pull"
  shows "transducer p (keyed_flat_map_next f p) keyed_flat_map_idle (\<lambda>c e. (elem_flat_map (keyed_items f) e, ()))"
proof (rule open_drain_transducer [where opened = "\<lambda>e v s1.
    \<lparr>kfm_prev = s1, kfm_frontiter = Some (fst v, f v), kfm_timestamp = timestamp_of e\<rparr>"])
  fix st :: "('s, 'k, 'b) keyed_flat_map" and s e s1 v
  assume "keyed_flat_map_idle st () s" and "p s = ret (e, s1)" and "elem_value e = Some v"
  then show "keyed_flat_map_next f p st = keyed_flat_map_next f p
      \<lparr>kfm_prev = s1, kfm_frontiter = Some (fst v, f v), kfm_timestamp = timestamp_of e\<rparr>"
    by (cases e) (auto intro!: keyed_flat_map_opens(1,2))
next
  fix e :: "('k \<times> 'a) stream_element" and v s1
  assume "elem_value e = Some v"
  then show "\<exists>st1. pulls (keyed_flat_map_next f p)
      \<lparr>kfm_prev = s1, kfm_frontiter = Some (fst v, f v), kfm_timestamp = timestamp_of e\<rparr> (elem_flat_map (keyed_items f) e) st1
      \<and> keyed_flat_map_idle st1 () s1"
    using keyed_flat_map_drain [of f p s1 "fst v" "f v" "timestamp_of e"]
    by (cases e) (force simp: keyed_items_def comp_def)+
next
  fix st :: "('s, 'k, 'b) keyed_flat_map" and s e s1
  assume "keyed_flat_map_idle st () s" and "p s = ret (e, s1)" and "elem_value e = None"
  then show "elem_flat_map (keyed_items f) e \<noteq> [] \<and>
      (\<exists>st1. pulls (keyed_flat_map_next f p) st (elem_flat_map (keyed_items f) e) st1 \<and> keyed_flat_map_idle st1 () s1)"
    using keyed_flat_map_opens(3) [of st "()" s p e s1 f] by (cases e) auto
qed

interpretation keyed_flat_map_op: stream_operator keyed_flat_map_new "keyed_flat_map_next f"
  "\<lambda>es. concat (map (elem_flat_map (keyed_items f)) es)" "\<lambda>_. True"
  for f :: "'k \<times> 'a \<Rightarrow> 'b list"
proof
  fix es s s' and p :: "('s, 'k \<times> 'a) pull"
  assume "wf_stream es" and "pulls p s es s'"
  then show "\<exists>st'. pulls (keyed_flat_map_next f p) (keyed_flat_map_new s) (concat (map (elem_flat_map (keyed_items f)) es)) st'"
    using transducer_stream [OF keyed_flat_map_transducer, of es "keyed_flat_map_new s" "()" s p s' f]
    by (simp add: transduce_stateless keyed_flat_map_new_def)
qed (simp add: wf_stream_flat_map)

interpretation flatten_op: stream_operator flat_map_new flatten_next
  "\<lambda>es. concat (map (elem_flat_map (\<lambda>x. x)) es)" "\<lambda>_. True"
  unfolding flatten_next_def by unfold_locales

interpretation keyed_flatten_op: stream_operator keyed_flat_map_new keyed_flatten_next
  "\<lambda>es. concat (map (elem_flat_map (keyed_items snd)) es)" "\<lambda>_. True"
  unfolding keyed_flatten_next_def by unfold_locales

end
