(* ===== verification/Folds.thy ===== *)
theory Folds
  imports Stream_Element
begin

text \<open>
  \<^verbatim>\<open>Fold\<close> (\<^verbatim>\<open>src/operator/fold.rs\<close>) and \<^verbatim>\<open>KeyedFold\<close> (\<^verbatim>\<open>src/operator/keyed_fold.rs\<close>): operators that
  consume a whole iteration and then return one accumulated value (per key), the largest
  watermark and the end marker. Both are interpreted as \<open>stream_operator\<close>s whose specification
  is a function of the iterations of the input.
\<close>

section \<open>Fold\<close>

record ('s, 'o) fold_op =
  fo_prev :: 's
  fo_accumulator :: "'o option"
  fo_timestamp :: "timestamp option"
  fo_max_watermark :: "timestamp option"
  fo_received_end :: bool
  fo_received_end_iter :: bool

definition fold_new :: "'s \<Rightarrow> ('s, 'o) fold_op" where
  "fold_new prev = \<lparr>fo_prev = prev, fo_accumulator = None, fo_timestamp = None,
     fo_max_watermark = None, fo_received_end = False, fo_received_end_iter = False\<rparr>"

text \<open>The arms of the \<^verbatim>\<open>match\<close> inside the loop.\<close>

fun fold_absorb :: "('o \<Rightarrow> 'a \<Rightarrow> 'o) \<Rightarrow> 'o \<Rightarrow> ('s, 'o) fold_op \<Rightarrow> 'a stream_element \<Rightarrow> ('s, 'o) fold_op"
where
  "fold_absorb f init st Terminate = st\<lparr>fo_received_end := True\<rparr>"
| "fold_absorb f init st FlushAndRestart = st\<lparr>fo_received_end := True, fo_received_end_iter := True\<rparr>"
| "fold_absorb f init st (Watermark ts) = st\<lparr>fo_max_watermark := opt_max (fo_max_watermark st) ts\<rparr>"
| "fold_absorb f init st (Item item) =
     st\<lparr>fo_accumulator := Some (f (case fo_accumulator st of None \<Rightarrow> init | Some acc \<Rightarrow> acc) item)\<rparr>"
| "fold_absorb f init st (Timestamped item ts) =
     st\<lparr>fo_timestamp := opt_max (fo_timestamp st) ts,
        fo_accumulator := Some (f (case fo_accumulator st of None \<Rightarrow> init | Some acc \<Rightarrow> acc) item)\<rparr>"
| "fold_absorb f init st FlushBatch = st"

partial_function (option) fold_loop
  :: "('o \<Rightarrow> 'a \<Rightarrow> 'o) \<Rightarrow> 'o \<Rightarrow> ('s, 'a) pull \<Rightarrow> ('s, 'o) fold_op \<Rightarrow> ('s, 'o) fold_op res" where
  "fold_loop f init prev st =
     (if \<not> fo_received_end st then
        bindR (prev (fo_prev st)) (\<lambda>(e, s').
          fold_loop f init prev (fold_absorb f init (st\<lparr>fo_prev := s'\<rparr>) e))
      else ret st)"

definition fold_emit :: "('s, 'o) fold_op \<Rightarrow> 'o stream_element \<times> ('s, 'o) fold_op" where
  "fold_emit st =
     (case fo_accumulator st of
        Some acc \<Rightarrow>
          (case fo_timestamp st of
             Some ts \<Rightarrow> (Timestamped acc ts, st\<lparr>fo_accumulator := None, fo_timestamp := None\<rparr>)
           | None \<Rightarrow> (Item acc, st\<lparr>fo_accumulator := None\<rparr>))
      | None \<Rightarrow>
          (case fo_max_watermark st of
             Some ts \<Rightarrow> (Watermark ts, st\<lparr>fo_max_watermark := None\<rparr>)
           | None \<Rightarrow>
               (if fo_received_end_iter st
                then (FlushAndRestart, st\<lparr>fo_received_end_iter := False, fo_received_end := False\<rparr>)
                else (Terminate, st))))"

definition fold_next :: "('o \<Rightarrow> 'a \<Rightarrow> 'o) \<Rightarrow> 'o \<Rightarrow> ('s, 'a) pull \<Rightarrow> (('s, 'o) fold_op, 'o) pull" where
  "fold_next f init prev st = bindR (fold_loop f init prev st) (\<lambda>st. ret (fold_emit st))"

subsection \<open>What an iteration folds to\<close>

definition fold_iteration :: "('o \<Rightarrow> 'a \<Rightarrow> 'o) \<Rightarrow> 'o \<Rightarrow> 'a stream_element list \<Rightarrow> 'o stream_element list" where
  "fold_iteration f init seg =
     (if elem_values seg = [] then []
      else [with_timestamp (max_of (stamps seg)) (foldl f init (elem_values seg))]) @
     (case max_of (watermarks seg) of None \<Rightarrow> [] | Some w \<Rightarrow> [Watermark w])"

definition fold_sem :: "('o \<Rightarrow> 'a \<Rightarrow> 'o) \<Rightarrow> 'o \<Rightarrow> 'a stream_element list \<Rightarrow> 'o stream_element list" where
  "fold_sem f init es = unsegment (map (fold_iteration f init) (iterations es))"

text \<open>
  The control state of the loop: \<open>None\<close> after \<^verbatim>\<open>Terminate\<close>, else the data absorbed since the
  last end marker.
\<close>

fun fold_idle :: "('o \<Rightarrow> 'a \<Rightarrow> 'o) \<Rightarrow> 'o \<Rightarrow> ('s, 'o) fold_op \<Rightarrow> 'a stream_element list option \<Rightarrow> 's \<Rightarrow> bool"
where
  "fold_idle f init st None s =
     (fo_received_end st \<and> \<not> fo_received_end_iter st \<and> fo_accumulator st = None
      \<and> fo_max_watermark st = None)"
| "fold_idle f init st (Some seg) s =
     (st = \<lparr>fo_prev = s,
            fo_accumulator = (if elem_values seg = [] then None else Some (foldl f init (elem_values seg))),
            fo_timestamp = max_of (stamps seg), fo_max_watermark = max_of (watermarks seg),
            fo_received_end = False, fo_received_end_iter = False\<rparr>)"

fun batch_step :: "('a stream_element list \<Rightarrow> 'b stream_element list) \<Rightarrow> 'a stream_element list option
    \<Rightarrow> 'a stream_element \<Rightarrow> 'b stream_element list \<times> 'a stream_element list option" where
  "batch_step h None e = ([Terminate], None)"
| "batch_step h (Some seg) FlushAndRestart = (h seg @ [FlushAndRestart], Some [])"
| "batch_step h (Some seg) Terminate = (h seg @ [Terminate], None)"
| "batch_step h (Some seg) e = ([], Some (seg @ [e]))"

lemma batch_step_data:
  "\<not> is_marker e \<Longrightarrow> batch_step h (Some seg) e = ([], Some (seg @ [e]))"
  by (cases e) auto

lemma batch_step_segment:
  "data_only xs \<Longrightarrow> transduce (batch_step h) (Some seg) xs = []
     \<and> transduce_state (batch_step h) (Some seg) xs = Some (seg @ xs)"
  by (induction xs arbitrary: seg) (auto simp: batch_step_data)

lemma transduce_batch_step:
  assumes "wf_stream es" and "h [] = []"
  shows "transduce (batch_step h) (Some []) es = unsegment (map h (iterations es))"
proof -
  have "transduce (batch_step h) (Some []) (unsegment (iterations es)) = unsegment (map h (iterations es))"
    using assms(2) wf_stream_unsegment(2) [OF assms(1)]
    by (intro transduce_unsegment) (auto simp: transduce_append batch_step_segment)
  then show ?thesis
    using wf_stream_unsegment(1) [OF assms(1)] by simp
qed

lemma batch_wf:
  assumes "wf_stream es" and "\<And>seg. data_only (h seg)"
  shows "wf_stream (unsegment (map h (iterations es)))"
  using assms wf_stream_unsegment(3) [OF assms(1)] by (intro wf_stream_unsegmentI) auto

subsection \<open>Fold meets its specification\<close>

lemma fold_loop_step:
  "\<not> fo_received_end st \<Longrightarrow> prev (fo_prev st) = ret (e, s') \<Longrightarrow>
   fold_loop f init prev st = fold_loop f init prev (fold_absorb f init (st\<lparr>fo_prev := s'\<rparr>) e)"
  by (subst fold_loop.simps) simp

lemma fold_loop_done: "fo_received_end st \<Longrightarrow> fold_loop f init prev st = ret st"
  by (subst fold_loop.simps) simp

text \<open>
  Once the end of an iteration has been received, the pending accumulator, watermark and end
  marker are returned by the following calls.
\<close>

lemma fold_flush:
  assumes "fo_received_end st" and "fo_accumulator st = None \<longrightarrow> fo_timestamp st = None"
  shows "pulls (fold_next f init p) st
    ((case fo_accumulator st of None \<Rightarrow> [] | Some a \<Rightarrow> [with_timestamp (fo_timestamp st) a]) @
     (case fo_max_watermark st of None \<Rightarrow> [] | Some w \<Rightarrow> [Watermark w]) @
     [if fo_received_end_iter st then FlushAndRestart else Terminate])
    \<lparr>fo_prev = fo_prev st, fo_accumulator = None, fo_timestamp = None, fo_max_watermark = None,
     fo_received_end = (\<not> fo_received_end_iter st), fo_received_end_iter = False\<rparr>"
  using assms
  by (cases st; cases "fo_accumulator st"; cases "fo_timestamp st"; cases "fo_max_watermark st")
    (auto simp: pulls_Cons_iff fold_next_def fold_loop_done fold_emit_def)

lemma fold_transducer:
  fixes f :: "'o \<Rightarrow> 'a \<Rightarrow> 'o" and p :: "('s, 'a) pull"
  shows "transducer p (fold_next f init p) (fold_idle f init) (batch_step (fold_iteration f init))"
proof
  fix st :: "('s, 'o) fold_op" and c s e s1 c'
  assume idle: "fold_idle f init st c s" and e: "p s = ret (e, s1)"
    and silent: "batch_step (fold_iteration f init) c e = ([], c')"
  then obtain seg where c: "c = Some seg" and data: "\<not> is_marker e"
    by (cases c; cases e) auto
  with idle e have "fold_next f init p st
      = fold_next f init p (fold_absorb f init (st\<lparr>fo_prev := s1\<rparr>) e)"
    by (auto simp: fold_next_def fold_loop_step)
  moreover have "fold_idle f init (fold_absorb f init (st\<lparr>fo_prev := s1\<rparr>) e) c' s1"
    using idle silent c data by (cases e) auto
  ultimately show "\<exists>st1. fold_next f init p st = fold_next f init p st1 \<and> fold_idle f init st1 c' s1"
    by blast
next
  fix st :: "('s, 'o) fold_op" and c s e s1 y ys c'
  assume idle: "fold_idle f init st c s" and e: "p s = ret (e, s1)"
    and out: "batch_step (fold_iteration f init) c e = (y # ys, c')"
  show "\<exists>st1. pulls (fold_next f init p) st (y # ys) st1 \<and> fold_idle f init st1 c' s1"
  proof (cases c)
    case None
    with idle out show ?thesis
      by (auto simp: fold_next_def fold_loop_done fold_emit_def)
  next
    case (Some seg)
    with out have e_end: "e = FlushAndRestart \<or> e = Terminate"
      by (cases e) auto
    let ?st = "fold_absorb f init (st\<lparr>fo_prev := s1\<rparr>) e"
    have "fold_next f init p st = fold_next f init p ?st"
      using idle e Some by (auto simp: fold_next_def fold_loop_step)
    moreover have "stamps seg = []" if "elem_values seg = []"
    proof -
      have "length (stamps seg) \<le> length (elem_values seg)"
        by (induction seg) (auto split: option.splits elim!: item_timestamp.elims)
      with that show ?thesis by simp
    qed
    ultimately show ?thesis
      using fold_flush [of ?st f init p] idle out Some e_end
        pulls_start_cong [of "fold_next f init p" st ?st "y # ys"]
      by (auto simp: fold_iteration_def split: if_splits)
  qed
qed

interpretation fold_tr: transducer p "fold_next f init p" "fold_idle f init" "batch_step (fold_iteration f init)"
  for f :: "'o \<Rightarrow> 'a \<Rightarrow> 'o" and init and p :: "('s, 'a) pull"
  by (rule fold_transducer)

interpretation fold_op: stream_operator fold_new "fold_next f init" "fold_sem f init" "\<lambda>_. True"
  for f :: "'o \<Rightarrow> 'a \<Rightarrow> 'o" and init
proof
  fix es s s' and p :: "('s, 'a) pull"
  assume "wf_stream es" and "pulls p s es s'"
  moreover have "fold_idle f init (fold_new s) (Some []) s"
    by (simp add: fold_new_def)
  moreover have "fst (batch_step (fold_iteration f init) c Terminate) \<noteq> []" for c
    by (cases c) auto
  ultimately have "\<exists>st'. pulls (fold_next f init p) (fold_new s)
      (transduce (batch_step (fold_iteration f init)) (Some []) es) st'"
    by (intro transducer_stream [OF fold_tr.transducer_axioms])
  with \<open>wf_stream es\<close> show "\<exists>st'. pulls (fold_next f init p) (fold_new s) (fold_sem f init es) st'"
    by (simp add: transduce_batch_step fold_sem_def fold_iteration_def)
next
  fix es :: "'a stream_element list"
  assume "wf_stream es"
  then show "wf_stream (fold_sem f init es)"
    unfolding fold_sem_def
    by (rule batch_wf) (auto simp: fold_iteration_def split: option.splits)
qed

section \<open>KeyedFold\<close>

record ('s, 'k, 'o) keyed_fold =
  kf_prev :: 's
  kf_accumulators :: "('k, 'o) hmap"
  kf_timestamps :: "('k, timestamp) hmap"
  kf_ready :: "('k \<times> 'o) stream_element list"
  kf_max_watermark :: "timestamp option"
  kf_received_end :: bool
  kf_received_end_iter :: bool

definition keyed_fold_new :: "'s \<Rightarrow> ('s, 'k, 'o) keyed_fold" where
  "keyed_fold_new prev = \<lparr>kf_prev = prev, kf_accumulators = [], kf_timestamps = [], kf_ready = [],
     kf_max_watermark = None, kf_received_end = False, kf_received_end_iter = False\<rparr>"

definition kf_process_item :: "('o \<Rightarrow> 'v \<Rightarrow> 'o) \<Rightarrow> 'o \<Rightarrow> ('k, 'o) hmap \<Rightarrow> 'k \<Rightarrow> 'v \<Rightarrow> ('k, 'o) hmap" where
  "kf_process_item f init accs key v =
     (case map_of accs key of
        None \<Rightarrow> AList.update key (f init v) accs
      | Some acc \<Rightarrow> AList.update key (f acc v) accs)"

definition kf_bump :: "('k, timestamp) hmap \<Rightarrow> 'k \<Rightarrow> timestamp \<Rightarrow> ('k, timestamp) hmap" where
  "kf_bump m k ts =
     (case map_of m k of
        Some entry \<Rightarrow> AList.update k (max entry ts) m
      | None \<Rightarrow> AList.update k ts m)"

fun keyed_fold_absorb :: "('o \<Rightarrow> 'v \<Rightarrow> 'o) \<Rightarrow> 'o \<Rightarrow> ('s, 'k, 'o) keyed_fold
    \<Rightarrow> ('k \<times> 'v) stream_element \<Rightarrow> ('s, 'k, 'o) keyed_fold" where
  "keyed_fold_absorb f init st Terminate = st\<lparr>kf_received_end := True\<rparr>"
| "keyed_fold_absorb f init st FlushAndRestart =
     st\<lparr>kf_received_end := True, kf_received_end_iter := True\<rparr>"
| "keyed_fold_absorb f init st (Watermark ts) =
     st\<lparr>kf_max_watermark := opt_max (kf_max_watermark st) ts\<rparr>"
| "keyed_fold_absorb f init st (Item (k, v)) =
     st\<lparr>kf_accumulators := kf_process_item f init (kf_accumulators st) k v\<rparr>"
| "keyed_fold_absorb f init st (Timestamped (k, v) ts) =
     st\<lparr>kf_accumulators := kf_process_item f init (kf_accumulators st) k v,
        kf_timestamps := kf_bump (kf_timestamps st) k ts\<rparr>"
| "keyed_fold_absorb f init st FlushBatch = st"

partial_function (option) keyed_fold_loop
  :: "('o \<Rightarrow> 'v \<Rightarrow> 'o) \<Rightarrow> 'o \<Rightarrow> ('s, 'k \<times> 'v) pull \<Rightarrow> ('s, 'k, 'o) keyed_fold
    \<Rightarrow> ('s, 'k, 'o) keyed_fold res" where
  "keyed_fold_loop f init prev st =
     (if \<not> kf_received_end st then
        bindR (prev (kf_prev st)) (\<lambda>(e, s').
          keyed_fold_loop f init prev (keyed_fold_absorb f init (st\<lparr>kf_prev := s'\<rparr>) e))
      else ret st)"

text \<open>
  Draining the accumulators: each key takes its timestamp, if any, out of the other map. The
  drained entries come in the map's iteration order \<open>ho\<close>.
\<close>

fun kf_drain :: "('k, 'o) hmap \<Rightarrow> ('k, timestamp) hmap
    \<Rightarrow> ('k \<times> 'o) stream_element list \<times> ('k, timestamp) hmap" where
  "kf_drain [] tss = ([], tss)"
| "kf_drain ((key, v) # rest) tss =
     (case map_of tss key of
        Some ts \<Rightarrow> (case kf_drain rest (AList.delete key tss) of
            (es, tss') \<Rightarrow> (Timestamped (key, v) ts # es, tss'))
      | None \<Rightarrow> (case kf_drain rest tss of (es, tss') \<Rightarrow> (Item (key, v) # es, tss')))"

definition keyed_fold_emit :: "(('k, 'o) hmap \<Rightarrow> ('k, 'o) hmap) \<Rightarrow> ('s, 'k, 'o) keyed_fold
    \<Rightarrow> ('k \<times> 'o) stream_element \<times> ('s, 'k, 'o) keyed_fold" where
  "keyed_fold_emit ho st =
     (let st = (if kf_accumulators st \<noteq> [] then
                  (case kf_drain (ho (kf_accumulators st)) (kf_timestamps st) of
                     (es, tss) \<Rightarrow> st\<lparr>kf_ready := kf_ready st @ es, kf_accumulators := [],
                                     kf_timestamps := tss\<rparr>)
                else st)
      in if kf_ready st \<noteq> [] then (last (kf_ready st), st\<lparr>kf_ready := butlast (kf_ready st)\<rparr>)
         else (case kf_max_watermark st of
                 Some ts \<Rightarrow> (Watermark ts, st\<lparr>kf_max_watermark := None\<rparr>)
               | None \<Rightarrow>
                   (if kf_received_end_iter st
                    then (FlushAndRestart,
                          st\<lparr>kf_received_end_iter := False, kf_received_end := False\<rparr>)
                    else (Terminate, st))))"

definition keyed_fold_next :: "(('k, 'o) hmap \<Rightarrow> ('k, 'o) hmap) \<Rightarrow> ('o \<Rightarrow> 'v \<Rightarrow> 'o) \<Rightarrow> 'o
    \<Rightarrow> ('s, 'k \<times> 'v) pull \<Rightarrow> (('s, 'k, 'o) keyed_fold, 'k \<times> 'o) pull" where
  "keyed_fold_next ho f init prev st =
     bindR (keyed_fold_loop f init prev st) (\<lambda>st. ret (keyed_fold_emit ho st))"

subsection \<open>What an iteration folds to, key by key\<close>

definition key_elems :: "'k \<Rightarrow> ('k \<times> 'v) stream_element list \<Rightarrow> ('k \<times> 'v) stream_element list" where
  "key_elems k seg = filter (\<lambda>e. elem_key e = Some k) seg"

definition key_values :: "'k \<Rightarrow> ('k \<times> 'v) stream_element list \<Rightarrow> 'v list" where
  "key_values k seg = map snd (elem_values (key_elems k seg))"

text \<open>The accumulators and timestamps after absorbing the data of an iteration.\<close>

definition kf_accs :: "('o \<Rightarrow> 'v \<Rightarrow> 'o) \<Rightarrow> 'o \<Rightarrow> ('k \<times> 'v) stream_element list \<Rightarrow> ('k, 'o) hmap" where
  "kf_accs f init seg = foldl (\<lambda>m (k, v). kf_process_item f init m k v) [] (elem_values seg)"

definition kf_tss :: "('k \<times> 'v) stream_element list \<Rightarrow> ('k, timestamp) hmap" where
  "kf_tss seg = foldl (\<lambda>m (k, t). kf_bump m k t) []
     (List.map_filter (\<lambda>e. case e of Timestamped (k, _) t \<Rightarrow> Some (k, t) | _ \<Rightarrow> None) seg)"

definition keyed_result :: "('o \<Rightarrow> 'v \<Rightarrow> 'o) \<Rightarrow> 'o \<Rightarrow> ('k \<times> 'v) stream_element list \<Rightarrow> 'k
    \<Rightarrow> ('k \<times> 'o) stream_element" where
  "keyed_result f init seg k =
     with_timestamp (max_of (stamps (key_elems k seg))) (k, foldl f init (key_values k seg))"

definition keyed_fold_iteration :: "(('k, 'o) hmap \<Rightarrow> ('k, 'o) hmap) \<Rightarrow> ('o \<Rightarrow> 'v \<Rightarrow> 'o) \<Rightarrow> 'o
    \<Rightarrow> ('k \<times> 'v) stream_element list \<Rightarrow> ('k \<times> 'o) stream_element list" where
  "keyed_fold_iteration ho f init seg =
     rev (map (keyed_result f init seg) (keys (ho (kf_accs f init seg)))) @
     (case max_of (watermarks seg) of None \<Rightarrow> [] | Some w \<Rightarrow> [Watermark w])"

definition keyed_fold_sem :: "(('k, 'o) hmap \<Rightarrow> ('k, 'o) hmap) \<Rightarrow> ('o \<Rightarrow> 'v \<Rightarrow> 'o) \<Rightarrow> 'o
    \<Rightarrow> ('k \<times> 'v) stream_element list \<Rightarrow> ('k \<times> 'o) stream_element list" where
  "keyed_fold_sem ho f init es = unsegment (map (keyed_fold_iteration ho f init) (iterations es))"

lemma key_elems_simps [simp]:
  "key_elems k [] = []" "key_elems k (xs @ ys) = key_elems k xs @ key_elems k ys"
  "key_elems k [e] = (if elem_key e = Some k then [e] else [])"
  by (auto simp: key_elems_def)

lemma key_values_simps [simp]:
  "key_values k [] = []" "key_values k (xs @ ys) = key_values k xs @ key_values k ys"
  by (auto simp: key_values_def)

lemma kf_accs_snoc [simp]:
  "kf_accs f init [] = []"
  "kf_accs f init (seg @ [Item (k, v)]) = kf_process_item f init (kf_accs f init seg) k v"
  "kf_accs f init (seg @ [Timestamped (k, v) t]) = kf_process_item f init (kf_accs f init seg) k v"
  "elem_value e = None \<Longrightarrow> kf_accs f init (seg @ [e]) = kf_accs f init seg"
  by (auto simp: kf_accs_def)

lemma kf_tss_snoc [simp]:
  "kf_tss [] = []"
  "kf_tss (seg @ [Timestamped (k, v) t]) = kf_bump (kf_tss seg) k t"
  "item_timestamp e = None \<Longrightarrow> kf_tss (seg @ [e]) = kf_tss seg"
  by (cases e; auto simp: kf_tss_def List.map_filter_simps)+

lemma kf_process_item_keys:
  "distinct (keys m) \<Longrightarrow> distinct (keys (kf_process_item f init m k v))"
  "set (keys (kf_process_item f init m k v)) = insert k (set (keys m))"
  "map_of (kf_process_item f init m k v) k' =
     (if k' = k then Some (f (case map_of m k of None \<Rightarrow> init | Some a \<Rightarrow> a) v) else map_of m k')"
  by (auto simp: kf_process_item_def distinct_update update_conv' dom_update simp flip: dom_map_of_conv_image_fst
      split: option.splits)

lemma kf_bump_keys:
  "distinct (keys m) \<Longrightarrow> distinct (keys (kf_bump m k t))"
  "set (keys (kf_bump m k t)) = insert k (set (keys m))"
  "map_of (kf_bump m k t) k' = (if k' = k then opt_max (map_of m k) t else map_of m k')"
  by (auto simp: kf_bump_def distinct_update update_conv' dom_update simp flip: dom_map_of_conv_image_fst
      split: option.splits)

lemma kf_accs_distinct: "distinct (keys (kf_accs f init seg))"
proof (induction seg rule: rev_induct)
  case (snoc e seg)
  then show ?case
    by (cases e) (auto simp: kf_process_item_keys)
qed simp

lemma kf_accs_lookup:
  "map_of (kf_accs f init seg) k =
     (if key_values k seg = [] then None else Some (foldl f init (key_values k seg)))"
proof (induction seg rule: rev_induct)
  case (snoc e seg)
  then show ?case
    by (cases e) (auto simp: kf_process_item_keys(3) key_values_def)
qed simp

lemma kf_tss_distinct: "distinct (keys (kf_tss seg))"
proof (induction seg rule: rev_induct)
  case (snoc e seg)
  then show ?case by (cases e) (auto simp: kf_bump_keys)
qed simp

lemma kf_tss_lookup: "map_of (kf_tss seg) k = max_of (stamps (key_elems k seg))"
proof (induction seg rule: rev_induct)
  case (snoc e seg)
  then show ?case by (cases e) (auto simp: kf_bump_keys(3))
qed simp

lemma kf_keys_subset: "set (keys (kf_tss seg)) \<subseteq> set (keys (kf_accs f init seg))"
proof (induction seg rule: rev_induct)
  case (snoc e seg)
  then show ?case
  proof (cases e)
    case (Item x)
    with snoc show ?thesis
      using kf_process_item_keys(2) [of f init "kf_accs f init seg" "fst x" "snd x"] by (cases x) auto
  next
    case (Timestamped x t)
    with snoc show ?thesis
      using kf_process_item_keys(2) [of f init "kf_accs f init seg" "fst x" "snd x"]
        kf_bump_keys(2) [of "kf_tss seg" "fst x" t] by (cases x) auto
  qed auto
qed simp

lemma kf_drain_elems:
  "distinct (keys m) \<Longrightarrow> fst (kf_drain m tss) = map (\<lambda>(k, v). with_timestamp (map_of tss k) (k, v)) m"
proof (induction m tss rule: kf_drain.induct)
  case (2 key v rest tss)
  then have "key \<notin> set (keys rest)" by simp
  then have "map (\<lambda>(k, v). with_timestamp (map_of (AList.delete key tss) k) (k, v)) rest =
      map (\<lambda>(k, v). with_timestamp (map_of tss k) (k, v)) rest"
    by (intro map_cong) (auto simp: delete_conv' image_iff)
  with 2 show ?case
    by (cases "map_of tss key") (auto split: prod.splits)
qed simp

lemma set_keys_delete: "set (keys (AList.delete k m)) = set (keys m) - {k}"
  by (simp only: delete_keys set_removeAll)

lemma kf_drain_rest: "set (keys (snd (kf_drain m tss))) = set (keys tss) - set (keys m)"
proof (induction m tss rule: kf_drain.induct)
  case (2 key v rest tss)
  show ?case
  proof (cases "map_of tss key")
    case None
    then have "key \<notin> set (keys tss)" by (simp add: map_of_eq_None_iff)
    moreover have "snd (kf_drain ((key, v) # rest) tss) = snd (kf_drain rest tss)"
      using None by (simp split: prod.splits)
    ultimately show ?thesis using 2(1) [OF None] by (simp add: Diff_insert0)
  next
    case (Some t)
    then have "snd (kf_drain ((key, v) # rest) tss) = snd (kf_drain rest (AList.delete key tss))"
      by (simp split: prod.splits)
    with 2(2) [OF Some] show ?thesis
      unfolding set_keys_delete by auto
  qed
qed simp

subsection \<open>KeyedFold meets its specification\<close>

fun keyed_fold_idle :: "('o \<Rightarrow> 'v \<Rightarrow> 'o) \<Rightarrow> 'o \<Rightarrow> ('s, 'k, 'o) keyed_fold
    \<Rightarrow> ('k \<times> 'v) stream_element list option \<Rightarrow> 's \<Rightarrow> bool" where
  "keyed_fold_idle f init st None s =
     (kf_received_end st \<and> \<not> kf_received_end_iter st \<and> kf_accumulators st = [] \<and> kf_ready st = []
      \<and> kf_max_watermark st = None)"
| "keyed_fold_idle f init st (Some seg) s =
     (st = \<lparr>kf_prev = s, kf_accumulators = kf_accs f init seg, kf_timestamps = kf_tss seg,
            kf_ready = [], kf_max_watermark = max_of (watermarks seg),
            kf_received_end = False, kf_received_end_iter = False\<rparr>)"

lemma keyed_fold_loop_step:
  "\<not> kf_received_end st \<Longrightarrow> prev (kf_prev st) = ret (e, s') \<Longrightarrow>
   keyed_fold_loop f init prev st = keyed_fold_loop f init prev (keyed_fold_absorb f init (st\<lparr>kf_prev := s'\<rparr>) e)"
  by (subst keyed_fold_loop.simps) simp

lemma keyed_fold_loop_done: "kf_received_end st \<Longrightarrow> keyed_fold_loop f init prev st = ret st"
  by (subst keyed_fold_loop.simps) simp

lemma keyed_fold_next_done:
  "kf_received_end st \<Longrightarrow> keyed_fold_next ho f init p st = ret (keyed_fold_emit ho st)"
  by (simp add: keyed_fold_next_def keyed_fold_loop_done)

lemma keyed_fold_flush_ready:
  assumes "kf_received_end st" and "kf_accumulators st = []"
  shows "pulls (keyed_fold_next ho f init p) st
    (rev (kf_ready st) @ (case kf_max_watermark st of None \<Rightarrow> [] | Some w \<Rightarrow> [Watermark w]) @
     [if kf_received_end_iter st then FlushAndRestart else Terminate])
    (st\<lparr>kf_ready := [], kf_max_watermark := None,
       kf_received_end := (\<not> kf_received_end_iter st), kf_received_end_iter := False\<rparr>)"
  using assms
proof (induction "kf_ready st" arbitrary: st rule: rev_induct)
  case Nil
  then show ?case
    by (cases st; cases "kf_max_watermark st")
      (auto simp: pulls_Cons_iff keyed_fold_next_done keyed_fold_emit_def)
next
  case (snoc r rs)
  let ?st = "st\<lparr>kf_ready := rs\<rparr>"
  have "keyed_fold_next ho f init p st = ret (r, ?st)"
    using snoc.prems snoc.hyps(2) [symmetric] by (simp add: keyed_fold_next_done keyed_fold_emit_def)
  moreover note snoc.hyps(1) [of ?st]
  ultimately show ?case
    using snoc.prems snoc.hyps(2) [symmetric] by (auto simp: pulls_Cons_iff)
qed

text \<open>The first call after the end of an iteration drains the accumulators.\<close>

lemma keyed_fold_flush:
  assumes ho: "hash_order ho" and "kf_received_end st" and "kf_ready st = []"
    and accs: "kf_accumulators st = kf_accs f init seg" "kf_timestamps st = kf_tss seg"
  shows "pulls (keyed_fold_next ho f init p) st
    (rev (map (keyed_result f init seg) (keys (ho (kf_accs f init seg)))) @
     (case kf_max_watermark st of None \<Rightarrow> [] | Some w \<Rightarrow> [Watermark w]) @
     [if kf_received_end_iter st then FlushAndRestart else Terminate])
    (st\<lparr>kf_accumulators := [], kf_timestamps := [], kf_max_watermark := None,
       kf_received_end := (\<not> kf_received_end_iter st), kf_received_end_iter := False\<rparr>)"
proof -
  let ?accs = "kf_accs f init seg"
  obtain es tss where drain: "kf_drain (ho ?accs) (kf_tss seg) = (es, tss)" by force
  have ho_set: "set (ho ?accs) = set ?accs" using ho by (rule hash_order_set)
  have ho_dist: "distinct (keys (ho ?accs))"
    using kf_accs_distinct [of f init seg] hash_order_mset [OF ho, of ?accs]
    by (metis mset_eq_imp_distinct_iff mset_map)
  have "set (keys tss) = {}"
    using kf_drain_rest [of "ho ?accs" "kf_tss seg"] drain kf_keys_subset [of seg f init] ho_set by auto
  then have tss: "tss = []" by simp
  have "with_timestamp (map_of (kf_tss seg) k) (k, v) = keyed_result f init seg k"
    if "(k, v) \<in> set (ho ?accs)" for k v
    using that ho_set kf_accs_lookup [of f init seg k] kf_accs_distinct [of f init seg]
    by (auto simp: keyed_result_def kf_tss_lookup split: if_splits)
  then have es: "es = map (keyed_result f init seg) (keys (ho ?accs))"
    using kf_drain_elems [OF ho_dist, of "kf_tss seg"] drain by auto
  let ?st = "st\<lparr>kf_accumulators := [], kf_timestamps := [], kf_ready := es\<rparr>"
  have "ho [] = []" using hash_order_mset [OF ho, of "[]"] by simp
  moreover have "kf_tss seg = []" if "?accs = []"
    using kf_keys_subset [of seg f init] that by auto
  ultimately have "keyed_fold_emit ho st = keyed_fold_emit ho ?st"
    using assms drain tss es by (cases st) (auto simp: keyed_fold_emit_def)
  then have "keyed_fold_next ho f init p st = keyed_fold_next ho f init p ?st"
    using assms(2) by (simp add: keyed_fold_next_done)
  then show ?thesis
    using keyed_fold_flush_ready [of ?st ho f init p] assms es
      pulls_start_cong [of "keyed_fold_next ho f init p" st ?st]
    by (cases st) auto
qed

lemma keyed_fold_transducer:
  fixes f :: "'o \<Rightarrow> 'v \<Rightarrow> 'o" and p :: "('s, 'k \<times> 'v) pull"
  assumes ho: "hash_order ho"
  shows "transducer p (keyed_fold_next ho f init p) (keyed_fold_idle f init)
    (batch_step (keyed_fold_iteration ho f init))"
proof
  fix st :: "('s, 'k, 'o) keyed_fold" and c s e s1 c'
  assume idle: "keyed_fold_idle f init st c s" and e: "p s = ret (e, s1)"
    and silent: "batch_step (keyed_fold_iteration ho f init) c e = ([], c')"
  then obtain seg where c: "c = Some seg" and data: "\<not> is_marker e"
    by (cases c; cases e) auto
  with idle e have "keyed_fold_next ho f init p st
      = keyed_fold_next ho f init p (keyed_fold_absorb f init (st\<lparr>kf_prev := s1\<rparr>) e)"
    by (auto simp: keyed_fold_next_def keyed_fold_loop_step)
  moreover have "keyed_fold_idle f init (keyed_fold_absorb f init (st\<lparr>kf_prev := s1\<rparr>) e) c' s1"
    using idle silent c data by (cases e) auto
  ultimately show "\<exists>st1. keyed_fold_next ho f init p st = keyed_fold_next ho f init p st1
      \<and> keyed_fold_idle f init st1 c' s1"
    by blast
next
  fix st :: "('s, 'k, 'o) keyed_fold" and c s e s1 y ys c'
  assume idle: "keyed_fold_idle f init st c s" and e: "p s = ret (e, s1)"
    and out: "batch_step (keyed_fold_iteration ho f init) c e = (y # ys, c')"
  show "\<exists>st1. pulls (keyed_fold_next ho f init p) st (y # ys) st1 \<and> keyed_fold_idle f init st1 c' s1"
  proof (cases c)
    case None
    with idle out show ?thesis
      by (auto simp: keyed_fold_next_done keyed_fold_emit_def)
  next
    case (Some seg)
    with out have e_end: "e = FlushAndRestart \<or> e = Terminate"
      by (cases e) auto
    let ?st = "keyed_fold_absorb f init (st\<lparr>kf_prev := s1\<rparr>) e"
    have "keyed_fold_next ho f init p st = keyed_fold_next ho f init p ?st"
      using idle e Some by (auto simp: keyed_fold_next_def keyed_fold_loop_step)
    with Some e_end show ?thesis
      using keyed_fold_flush [OF ho, of ?st f init seg p] idle out
        pulls_start_cong [of "keyed_fold_next ho f init p" st ?st "y # ys"]
      by (auto simp: keyed_fold_iteration_def)
  qed
qed

lemma keyed_fold_produces:
  assumes "hash_order ho" and "wf_stream es" and "pulls p s es s'"
  shows "\<exists>st'. pulls (keyed_fold_next ho f init p) (keyed_fold_new s) (keyed_fold_sem ho f init es) st'"
proof -
  have "keyed_fold_idle f init (keyed_fold_new s) (Some []) s"
    by (simp add: keyed_fold_new_def)
  moreover have "fst (batch_step (keyed_fold_iteration ho f init) c Terminate) \<noteq> []" for c
    by (cases c) auto
  ultimately have "\<exists>st'. pulls (keyed_fold_next ho f init p) (keyed_fold_new s)
      (transduce (batch_step (keyed_fold_iteration ho f init)) (Some []) es) st'"
    using assms by (intro transducer_stream [OF keyed_fold_transducer])
  moreover have "ho [] = []" using hash_order_mset [OF assms(1), of "[]"] by simp
  ultimately show ?thesis
    using assms(2) by (simp add: transduce_batch_step keyed_fold_sem_def keyed_fold_iteration_def)
qed

lemma keyed_fold_sem_wf: "wf_stream es \<Longrightarrow> wf_stream (keyed_fold_sem ho f init es)"
  unfolding keyed_fold_sem_def
  by (rule batch_wf)
    (auto simp: keyed_fold_iteration_def keyed_result_def data_only_def list_all_iff split: option.splits)

text \<open>
  Any fixed iteration order gives an operator of a chain; insertion order is one.
\<close>

interpretation keyed_fold_op: stream_operator keyed_fold_new "keyed_fold_next (\<lambda>m. m) f init"
  "keyed_fold_sem (\<lambda>m. m) f init" "\<lambda>_. True"
  for f :: "'o \<Rightarrow> 'v \<Rightarrow> 'o" and init
  by unfold_locales (simp_all add: keyed_fold_produces keyed_fold_sem_wf)

text \<open>
  Independently of the order: an iteration yields exactly one element for each key that occurs
  in it, the fold of the key's values in arrival order stamped with the key's largest timestamp,
  and then the largest watermark.
\<close>

definition keyed_output :: "('o \<Rightarrow> 'v \<Rightarrow> 'o) \<Rightarrow> 'o \<Rightarrow> ('k \<times> 'v) stream_element list \<Rightarrow> ('k \<times> 'o) stream_element list \<Rightarrow> bool" where
  "keyed_output f init seg out \<longleftrightarrow>
     (\<exists>ks. distinct ks \<and> set ks = {k. key_values k seg \<noteq> []}
       \<and> out = map (keyed_result f init seg) ks @ (case max_of (watermarks seg) of None \<Rightarrow> [] | Some w \<Rightarrow> [Watermark w]))"

lemma keyed_fold_iteration_output:
  assumes "hash_order ho"
  shows "keyed_output f init seg (keyed_fold_iteration ho f init seg)"
proof -
  let ?accs = "kf_accs f init seg"
  have perm: "mset (keys (ho ?accs)) = mset (keys ?accs)"
    by (metis assms hash_order_mset mset_map)
  have "k \<in> set (keys ?accs) \<longleftrightarrow> key_values k seg \<noteq> []" for k
    using kf_accs_lookup [of f init seg k] map_of_eq_None_iff [of ?accs k]
    by (auto split: if_splits)
  then have "set (keys (ho ?accs)) = {k. key_values k seg \<noteq> []}" using mset_eq_setD [OF perm] by blast
  moreover have "distinct (keys (ho ?accs))" unfolding mset_eq_imp_distinct_iff [OF perm] by (rule kf_accs_distinct)
  ultimately show ?thesis unfolding keyed_output_def keyed_fold_iteration_def
    by (intro exI [of _ "rev (keys (ho ?accs))"] conjI) (simp_all only: distinct_rev set_rev rev_map [symmetric])
qed

lemma keyed_output_mset:
  assumes "keyed_output f init seg out"
  shows "mset out = image_mset (keyed_result f init seg) (mset_set {k. key_values k seg \<noteq> []}) +
    (case max_of (watermarks seg) of None \<Rightarrow> {#} | Some w \<Rightarrow> {# Watermark w #})"
proof -
  from assms obtain ks where ks: "distinct ks" "set ks = {k. key_values k seg \<noteq> []}"
    "out = map (keyed_result f init seg) ks @ (case max_of (watermarks seg) of None \<Rightarrow> [] | Some w \<Rightarrow> [Watermark w])"
    unfolding keyed_output_def by blast
  have "mset ks = mset_set {k. key_values k seg \<noteq> []}" unfolding ks(2) [symmetric] using ks(1) by (rule mset_set_set [symmetric])
  then show ?thesis unfolding ks(3) by (simp split: option.split)
qed

lemmas keyed_fold_iteration_mset = keyed_output_mset [OF keyed_fold_iteration_output]

section \<open>Properties\<close>

text \<open>
  \<^verbatim>\<open>Fold\<close>: whatever operator it pulls from, on a well-formed stream it returns, for each
  iteration, the left fold of the iteration's values (nothing for an iteration without values)
  stamped with the largest timestamp, then the largest watermark, then the end marker, and after
  the last iteration \<^verbatim>\<open>Terminate\<close>.
\<close>

theorem fold_folds_iterations:
  assumes "wf_stream es" and "pulls p s es s'"
  shows "\<exists>st'. pulls (fold_next f init p) (fold_new s)
    (unsegment (map (fold_iteration f init) (iterations es))) st'"
  using fold_op.produces [OF assms(1) TrueI assms(2), of f init] by (simp add: fold_sem_def)

theorem fold_folds_iterations_witness:
  "\<exists>st'. pulls (fold_next (+) (0 :: int) fake_next)
      (fold_new [Timestamped 3 7, Item 4, Watermark 7, FlushAndRestart, FlushAndRestart, Terminate])
      [Timestamped 7 7, Watermark 7, FlushAndRestart, FlushAndRestart, Terminate] st'"
  using fold_folds_iterations [of "[Timestamped 3 7, Item 4, Watermark 7, FlushAndRestart, FlushAndRestart, Terminate]"
      fake_next _ "[]" "(+)" "0 :: int", OF _ pulls_fake_all]
  by (simp add: wf_stream_def iterations_def fold_iteration_def unsegment_def max_of_def)

text \<open>
  C6: \<^verbatim>\<open>KeyedFold\<close>: whatever operator it pulls from and in whatever order the hash maps are
  drained, on a well-formed stream it returns for each iteration first exactly one element per key that
  occurs in it, in some order of the keys: the left fold of that key's values in arrival order, stamped with that key's
  largest timestamp if it has one; and after all of them the iteration's largest watermark, if there is one, and the end marker.
\<close>

theorem keyed_fold_folds_keys:
  assumes "hash_order ho" and "wf_stream es" and "pulls p s es s'"
  shows "\<exists>outs st'. pulls (keyed_fold_next ho f init p) (keyed_fold_new s) (unsegment outs) st'
    \<and> list_all2 (keyed_output f init) (iterations es) outs"
proof -
  from keyed_fold_produces [OF assms] obtain st' where
    "pulls (keyed_fold_next ho f init p) (keyed_fold_new s) (keyed_fold_sem ho f init es) st'" by blast
  moreover have "list_all2 (keyed_output f init) segs (map (keyed_fold_iteration ho f init) segs)" for segs
    by (induction segs) (simp_all add: keyed_fold_iteration_output [OF assms(1)])
  ultimately show ?thesis
    by (intro exI [of _ "map (keyed_fold_iteration ho f init) (iterations es)"] exI [of _ st'] conjI)
      (simp_all add: keyed_fold_sem_def)
qed

theorem keyed_fold_folds_keys_witness:
  "\<exists>x y st'. pulls (keyed_fold_next rev (+) (0 :: int) fake_next)
      (keyed_fold_new [Item (True, 1), Timestamped (False, 2) 5, Item (True, 3), Watermark 6, FlushAndRestart, Terminate])
      [x, y, Watermark 6, FlushAndRestart, Terminate] st'
    \<and> {x, y} = {Item (True, 4), Timestamped (False, 2) 5}"
proof -
  let ?seg = "[Item (True, 1 :: int), Timestamped (False, 2) 5, Item (True, 3), Watermark 6]"
  let ?es = "?seg @ [FlushAndRestart, Terminate]"
  have wf: "wf_stream ?es" by (simp add: wf_stream_def)
  have its: "iterations ?es = [?seg]" by (simp add: iterations_def)
  from keyed_fold_folds_keys [OF hash_order_rev wf pulls_fake_all, of "(+)" 0] obtain outs st' where
    run: "pulls (keyed_fold_next rev (+) 0 fake_next) (keyed_fold_new ?es) (unsegment outs) st'"
    and "list_all2 (keyed_output (+) 0) [?seg] outs" unfolding its by blast
  then obtain out where out: "outs = [out]" "keyed_output (+) 0 ?seg out" by (auto simp: list_all2_Cons1)
  have results: "keyed_result (+) 0 ?seg True = Item (True, 4)" "keyed_result (+) 0 ?seg False = Timestamped (False, 2) 5"
    "max_of (watermarks ?seg) = Some 6" and keys: "{k. key_values k ?seg \<noteq> []} = {True, False}"
    by (auto simp: keyed_result_def key_values_def key_elems_def max_of_def)
  from out(2) obtain ks where ks: "distinct ks" "set ks = {True, False}" "out = map (keyed_result (+) 0 ?seg) ks @ [Watermark 6]"
    unfolding keyed_output_def results(3) keys by auto
  have "length ks = 2" using ks(1,2) distinct_card [of ks] by simp
  then obtain a b where ab: "ks = [a, b]" by (auto simp: length_Suc_conv numeral_2_eq_2)
  then have "a \<noteq> b" using ks(1) by simp
  then have "(a = True \<and> b = False) \<or> (a = False \<and> b = True)" by (cases a; cases b) simp_all
  then have "{keyed_result (+) 0 ?seg a, keyed_result (+) 0 ?seg b} = {Item (True, 4), Timestamped (False, 2) 5}"
    using results(1,2) by auto
  moreover have "unsegment outs = [keyed_result (+) 0 ?seg a, keyed_result (+) 0 ?seg b, Watermark 6, FlushAndRestart, Terminate]"
    unfolding out(1) ks(3) ab by (simp add: unsegment_def)
  ultimately show ?thesis using run
    by (intro exI [of _ "keyed_result (+) 0 ?seg a"] exI [of _ "keyed_result (+) 0 ?seg b"] exI [of _ st'] conjI) (simp_all only: append.simps)
qed

end
