(* ===== verification/Stateful_Operators.thy ===== *)
theory Stateful_Operators
  imports Basic_Operators Folds
begin

text \<open>
  Operators that keep state between elements: \<^verbatim>\<open>RichMap\<close> (\<^verbatim>\<open>src/operator/rich_map.rs\<close>) with one
  closure per key, and \<^verbatim>\<open>Reorder\<close> (\<^verbatim>\<open>src/operator/reorder.rs\<close>) which buffers timestamped items
  until a watermark releases them in order. Each is interpreted as a \<open>stream_operator\<close>.
\<close>

section \<open>RichMap\<close>

text \<open>
  The user's \<^verbatim>\<open>FnMut((&K, I)) -> O\<close> is a function of the closure's captured state; a clone of
  the initial closure starts from the initial captured state.
\<close>

record ('s, 'k, 'c) rich_map =
  rm_prev :: 's
  rm_maps_fn :: "('k, 'c) hmap"

definition rich_map_new :: "'s \<Rightarrow> ('s, 'k, 'c) rich_map" where
  "rich_map_new prev = \<lparr>rm_prev = prev, rm_maps_fn = []\<rparr>"

text \<open>\<^verbatim>\<open>StreamElement::map\<close> with a closure that updates captured state.\<close>

fun elem_map_mut :: "('m \<Rightarrow> 'a \<Rightarrow> 'b \<times> 'm) \<Rightarrow> 'm \<Rightarrow> 'a stream_element \<Rightarrow> 'b stream_element \<times> 'm" where
  "elem_map_mut g m (Item x) = (case g m x of (y, m') \<Rightarrow> (Item y, m'))"
| "elem_map_mut g m (Timestamped x ts) = (case g m x of (y, m') \<Rightarrow> (Timestamped y ts, m'))"
| "elem_map_mut g m (Watermark w) = (Watermark w, m)"
| "elem_map_mut g m Terminate = (Terminate, m)"
| "elem_map_mut g m FlushAndRestart = (FlushAndRestart, m)"
| "elem_map_mut g m FlushBatch = (FlushBatch, m)"

definition rich_map_apply :: "('c \<Rightarrow> 'k \<Rightarrow> 'i \<Rightarrow> 'o \<times> 'c) \<Rightarrow> 'c \<Rightarrow> ('k, 'c) hmap \<Rightarrow> 'k \<times> 'i
    \<Rightarrow> ('k \<times> 'o) \<times> ('k, 'c) hmap" where
  "rich_map_apply f init_map maps kv =
     (case kv of (key, v) \<Rightarrow>
        let map_fn = (case map_of maps key of Some map_fn \<Rightarrow> map_fn | None \<Rightarrow> init_map)
        in (case f map_fn key v of (new_value, map_fn') \<Rightarrow>
              ((key, new_value), AList.update key map_fn' maps)))"

definition rich_map_next :: "('c \<Rightarrow> 'k \<Rightarrow> 'i \<Rightarrow> 'o \<times> 'c) \<Rightarrow> 'c \<Rightarrow> ('s, 'k \<times> 'i) pull
    \<Rightarrow> (('s, 'k, 'c) rich_map, 'k \<times> 'o) pull" where
  "rich_map_next f init_map prev st =
     bindR (prev (rm_prev st)) (\<lambda>(element, s').
       case elem_map_mut (rich_map_apply f init_map) (rm_maps_fn st) element of
         (e, maps) \<Rightarrow> ret (e, \<lparr>rm_prev = s', rm_maps_fn = maps\<rparr>))"

text \<open>
  Specification: the closure of a key has seen exactly the earlier values of that key, in all
  earlier iterations as well.
\<close>

definition closure_after :: "('c \<Rightarrow> 'k \<Rightarrow> 'i \<Rightarrow> 'o \<times> 'c) \<Rightarrow> 'c \<Rightarrow> 'k \<Rightarrow> 'i list \<Rightarrow> 'c" where
  "closure_after f c k vs = foldl (\<lambda>c v. snd (f c k v)) c vs"

definition rich_map_sem :: "('c \<Rightarrow> 'k \<Rightarrow> 'i \<Rightarrow> 'o \<times> 'c) \<Rightarrow> 'c \<Rightarrow> ('k \<times> 'i) stream_element list
    \<Rightarrow> ('k \<times> 'o) stream_element list" where
  "rich_map_sem f c es = map (\<lambda>i. elem_map (\<lambda>(k, v).
       (k, fst (f (closure_after f c k (key_values k (take i es))) k v))) (es ! i)) [0..<length es]"

lemma rich_map_sem_snoc:
  "rich_map_sem f c (es @ [e]) = rich_map_sem f c es @
     [elem_map (\<lambda>(k, v). (k, fst (f (closure_after f c k (key_values k es)) k v))) e]"
  by (simp add: rich_map_sem_def nth_append)

lemma key_values_single:
  "key_values k [e] = (case elem_value e of Some (k', v) \<Rightarrow> if k' = k then [v] else [] | None \<Rightarrow> [])"
  by (cases e) (auto simp: key_values_def key_elems_def)

lemma rich_map_state:
  assumes "pulls p s es s'"
  shows "\<exists>maps. pulls (rich_map_next f c p) (rich_map_new s) (rich_map_sem f c es)
      \<lparr>rm_prev = s', rm_maps_fn = maps\<rparr> \<and>
    (\<forall>k. (case map_of maps k of Some m \<Rightarrow> m | None \<Rightarrow> c) = closure_after f c k (key_values k es))"
  using assms
proof (induction es arbitrary: s' rule: rev_induct)
  case Nil
  then show ?case
    by (auto simp: rich_map_new_def rich_map_sem_def closure_after_def key_values_def key_elems_def)
next
  case (snoc e es)
  then obtain s1 where es: "pulls p s es s1" and e: "p s1 = ret (e, s')"
    by (auto simp: pulls_append)
  from snoc.IH [OF es] obtain maps where
    IH: "pulls (rich_map_next f c p) (rich_map_new s) (rich_map_sem f c es) \<lparr>rm_prev = s1, rm_maps_fn = maps\<rparr>"
    and cl: "\<And>k. (case map_of maps k of Some m \<Rightarrow> m | None \<Rightarrow> c) = closure_after f c k (key_values k es)"
    by blast
  obtain e' maps' where m: "elem_map_mut (rich_map_apply f c) maps e = (e', maps')"
    by (cases "elem_map_mut (rich_map_apply f c) maps e")
  have e': "e' = elem_map (\<lambda>(k, v). (k, fst (f (closure_after f c k (key_values k es)) k v))) e"
    using m by (cases e) (auto simp: rich_map_apply_def cl split: prod.splits)
  have cl': "(case map_of maps' k of Some m \<Rightarrow> m | None \<Rightarrow> c) = closure_after f c k (key_values k (es @ [e]))" for k
    using m cl by (cases e)
      (auto simp: rich_map_apply_def key_values_single closure_after_def update_conv split: prod.splits)
  have "rich_map_next f c p \<lparr>rm_prev = s1, rm_maps_fn = maps\<rparr> = ret (e', \<lparr>rm_prev = s', rm_maps_fn = maps'\<rparr>)"
    using e m by (simp add: rich_map_next_def)
  with IH e' have "pulls (rich_map_next f c p) (rich_map_new s) (rich_map_sem f c (es @ [e]))
      \<lparr>rm_prev = s', rm_maps_fn = maps'\<rparr>"
    by (auto simp: rich_map_sem_snoc pulls_append)
  with cl' show ?case by blast
qed

lemma rich_map_sem_markers: "wf_from b (rich_map_sem f c es) = wf_from b es"
proof -
  have wf_cong: "map is_marker xs = map is_marker ys \<Longrightarrow> map (\<lambda>e. e = Terminate) xs = map (\<lambda>e. e = Terminate) ys
      \<Longrightarrow> wf_from b xs = wf_from b ys"
    for xs :: "'x stream_element list" and ys :: "'y stream_element list" and b
  proof (induction xs arbitrary: ys b)
    case (Cons x xs)
    then obtain y ys' where "ys = y # ys'" by (cases ys) auto
    with Cons show ?case by (cases x; cases y) auto
  qed simp
  have mark: "is_marker (elem_map g e) = is_marker e" for g :: "'x \<Rightarrow> 'y" and e
    by (cases e) auto
  have "map is_marker (rich_map_sem f c es) = map is_marker es"
    by (induction es rule: rev_induct) (simp_all add: rich_map_sem_snoc mark, simp add: rich_map_sem_def)
  moreover have "map (\<lambda>e. e = Terminate) (rich_map_sem f c es) = map (\<lambda>e. e = Terminate) es"
    by (induction es rule: rev_induct) (simp_all add: rich_map_sem_snoc, simp add: rich_map_sem_def)
  ultimately show ?thesis by (rule wf_cong)
qed

interpretation rich_map_op: stream_operator rich_map_new "rich_map_next f c" "rich_map_sem f c" "\<lambda>_. True"
  for f :: "'c \<Rightarrow> 'k \<Rightarrow> 'i \<Rightarrow> 'o \<times> 'c" and c
proof
  fix es s s' and p :: "('s, 'k \<times> 'i) pull"
  assume "pulls p s es s'"
  then show "\<exists>st'. pulls (rich_map_next f c p) (rich_map_new s) (rich_map_sem f c es) st'"
    using rich_map_state [of p s es s' f c] by blast
qed (simp add: wf_stream_def rich_map_sem_markers)


section \<open>Reorder\<close>

text \<open>
  The buffer holds \<^verbatim>\<open>TimestampedItem\<close>s, pairs compared by timestamp only. It is sorted by the
  \<^verbatim>\<open>glidesort\<close> crate, a parameter \<open>srt\<close>; the crate documents a stable sort. The scratch memory
  handed to it has no other use.
\<close>

type_synonym 'a timestamped_item = "'a \<times> timestamp"

record ('s, 'a) reorder =
  ro_buffer :: "'a timestamped_item list"
  ro_last_watermark :: "timestamp option"
  ro_prev :: 's
  ro_received_end :: bool

definition reorder_new :: "'s \<Rightarrow> ('s, 'a) reorder" where
  "reorder_new prev = \<lparr>ro_buffer = [], ro_last_watermark = None, ro_prev = prev, ro_received_end = False\<rparr>"

definition reorder_emit :: "('s, 'a) reorder \<Rightarrow> 'a stream_element \<times> ('s, 'a) reorder" where
  "reorder_emit st =
     (case ro_last_watermark st of
        Some w \<Rightarrow>
          (case ro_buffer st of
             (item, ts) # rest \<Rightarrow>
               if ts \<le> w then (Timestamped item ts, st\<lparr>ro_buffer := rest\<rparr>)
               else (Watermark w, st\<lparr>ro_last_watermark := None\<rparr>)
           | [] \<Rightarrow> (Watermark w, st\<lparr>ro_last_watermark := None\<rparr>))
      | None \<Rightarrow>
          (case ro_buffer st of
             (item, ts) # rest \<Rightarrow> (Timestamped item ts, st\<lparr>ro_buffer := rest\<rparr>)
           | [] \<Rightarrow> (FlushAndRestart, st\<lparr>ro_received_end := False\<rparr>)))"

partial_function (option) reorder_next
  :: "('a timestamped_item list \<Rightarrow> 'a timestamped_item list) \<Rightarrow> ('s, 'a) pull
    \<Rightarrow> (('s, 'a) reorder, 'a) pull" where
  "reorder_next srt prev st =
     (if \<not> ro_received_end st \<and> ro_last_watermark st = None then
        bindR (prev (ro_prev st)) (\<lambda>(e, s').
          let st = st\<lparr>ro_prev := s'\<rparr> in
          case e of
            Item x \<Rightarrow> ret (Item x, st)
          | Timestamped item ts \<Rightarrow> reorder_next srt prev (st\<lparr>ro_buffer := ro_buffer st @ [(item, ts)]\<rparr>)
          | Watermark ts \<Rightarrow>
              reorder_next srt prev (st\<lparr>ro_last_watermark := Some ts, ro_buffer := srt (ro_buffer st)\<rparr>)
          | FlushBatch \<Rightarrow> ret (FlushBatch, st)
          | FlushAndRestart \<Rightarrow>
              reorder_next srt prev (st\<lparr>ro_received_end := True, ro_buffer := srt (ro_buffer st)\<rparr>)
          | Terminate \<Rightarrow> ret (Terminate, st))
      else ret (reorder_emit st))"

text \<open>What the crate documents: the result is sorted, and equal timestamps keep their order.\<close>

definition stable_sort :: "('a timestamped_item list \<Rightarrow> 'a timestamped_item list) \<Rightarrow> bool" where
  "stable_sort srt \<longleftrightarrow> (\<forall>xs. mset (srt xs) = mset xs \<and> sorted (map snd (srt xs))
     \<and> (\<forall>t. filter (\<lambda>x. snd x = t) (srt xs) = filter (\<lambda>x. snd x = t) xs))"

lemma stable_sort_eq: "stable_sort srt \<Longrightarrow> srt xs = sort_key snd xs"
  unfolding stable_sort_def
  by (rule properties_for_sort_key [symmetric]) (simp_all add: eq_commute)

lemma stable_sort_sort_key: "stable_sort (sort_key snd)"
  by (simp add: stable_sort_def sort_key_stable)

text \<open>The specification, element by element, with the buffered items as the state.\<close>

abbreviation timestamped_items :: "'a timestamped_item list \<Rightarrow> 'a stream_element list" where
  "timestamped_items b \<equiv> map (\<lambda>(item, ts). Timestamped item ts) b"

fun reorder_step :: "'a timestamped_item list \<Rightarrow> 'a stream_element
    \<Rightarrow> 'a stream_element list \<times> 'a timestamped_item list" where
  "reorder_step b (Timestamped item ts) = ([], b @ [(item, ts)])"
| "reorder_step b (Watermark w) =
     (timestamped_items (takeWhile (\<lambda>x. snd x \<le> w) (sort_key snd b)) @ [Watermark w],
      dropWhile (\<lambda>x. snd x \<le> w) (sort_key snd b))"
| "reorder_step b FlushAndRestart = (timestamped_items (sort_key snd b) @ [FlushAndRestart], [])"
| "reorder_step b e = ([e], b)"

definition reorder_sem :: "'a stream_element list \<Rightarrow> 'a stream_element list" where
  "reorder_sem es = transduce reorder_step [] es"

abbreviation reorder_idle :: "('s, 'a) reorder \<Rightarrow> 'a timestamped_item list \<Rightarrow> 's \<Rightarrow> bool" where
  "reorder_idle st b s \<equiv>
     st = \<lparr>ro_buffer = b, ro_last_watermark = None, ro_prev = s, ro_received_end = False\<rparr>"

lemma reorder_next_emit:
  "ro_received_end st \<or> ro_last_watermark st \<noteq> None \<Longrightarrow> reorder_next srt p st = ret (reorder_emit st)"
  by (subst reorder_next.simps) auto

lemma reorder_release:
  "pulls (reorder_next srt p)
     \<lparr>ro_buffer = b, ro_last_watermark = Some w, ro_prev = s, ro_received_end = False\<rparr>
     (timestamped_items (takeWhile (\<lambda>x. snd x \<le> w) b) @ [Watermark w])
     \<lparr>ro_buffer = dropWhile (\<lambda>x. snd x \<le> w) b, ro_last_watermark = None, ro_prev = s,
      ro_received_end = False\<rparr>"
proof (induction b)
  case (Cons x b)
  then show ?case
    by (cases x) (auto simp: pulls_Cons_iff reorder_next_emit reorder_emit_def)
qed (simp add: reorder_next_emit reorder_emit_def)

lemma reorder_flush:
  "pulls (reorder_next srt p)
     \<lparr>ro_buffer = b, ro_last_watermark = None, ro_prev = s, ro_received_end = True\<rparr>
     (timestamped_items b @ [FlushAndRestart])
     \<lparr>ro_buffer = [], ro_last_watermark = None, ro_prev = s, ro_received_end = False\<rparr>"
proof (induction b)
  case (Cons x b)
  then show ?case
    by (cases x) (auto simp: pulls_Cons_iff reorder_next_emit reorder_emit_def)
qed (simp add: reorder_next_emit reorder_emit_def)

lemma reorder_transducer:
  assumes srt: "stable_sort srt"
  fixes p :: "('s, 'a) pull"
  shows "transducer p (reorder_next srt p) reorder_idle reorder_step"
proof
  fix st :: "('s, 'a) reorder" and b s e s1 b'
  assume st: "reorder_idle st b s" and e: "p s = ret (e, s1)" and "reorder_step b e = ([], b')"
  then obtain item ts where "e = Timestamped item ts" and "b' = b @ [(item, ts)]"
    by (cases e) auto
  with st e show "\<exists>st1. reorder_next srt p st = reorder_next srt p st1 \<and> reorder_idle st1 b' s1"
    by (subst reorder_next.simps) simp
next
  fix st :: "('s, 'a) reorder" and b s e s1 y ys b'
  assume st: "reorder_idle st b s" and e: "p s = ret (e, s1)"
    and out: "reorder_step b e = (y # ys, b')"
  show "\<exists>st1. pulls (reorder_next srt p) st (y # ys) st1 \<and> reorder_idle st1 b' s1"
  proof (cases e)
    case (Watermark w)
    have "reorder_next srt p st = reorder_next srt p
        \<lparr>ro_buffer = sort_key snd b, ro_last_watermark = Some w, ro_prev = s1, ro_received_end = False\<rparr>"
      using st e Watermark by (subst reorder_next.simps) (simp add: stable_sort_eq [OF srt])
    with reorder_release [of srt p "sort_key snd b" w s1] out Watermark show ?thesis
      by (simp add: pulls_start_cong [of "reorder_next srt p" st])
  next
    case FlushAndRestart
    have "reorder_next srt p st = reorder_next srt p
        \<lparr>ro_buffer = sort_key snd b, ro_last_watermark = None, ro_prev = s1, ro_received_end = True\<rparr>"
      using st e FlushAndRestart by (subst reorder_next.simps) (simp add: stable_sort_eq [OF srt])
    with reorder_flush [of srt p "sort_key snd b" s1] out FlushAndRestart show ?thesis
      by (simp add: pulls_start_cong [of "reorder_next srt p" st])
  qed (use st e out in \<open>(auto, (subst reorder_next.simps, simp)+)\<close>)
qed

interpretation reorder_tr: transducer p "reorder_next (sort_key snd) p" reorder_idle reorder_step
  for p :: "('s, 'a) pull"
  by (rule reorder_transducer [OF stable_sort_sort_key])

text \<open>
  The operator iteration by iteration: what the watermarks release, then the rest in order.
\<close>

definition reorder_iteration :: "'a stream_element list \<Rightarrow> 'a stream_element list" where
  "reorder_iteration seg = transduce reorder_step [] seg @
     timestamped_items (sort_key snd (transduce_state reorder_step [] seg))"

lemma reorder_sem_iterations:
  assumes "wf_stream es"
  shows "reorder_sem es = unsegment (map reorder_iteration (iterations es))"
proof -
  have "transduce reorder_step [] (unsegment (iterations es)) = unsegment (map reorder_iteration (iterations es))"
    using wf_stream_unsegment(2) [OF assms]
    by (intro transduce_unsegment) (auto simp: transduce_append reorder_iteration_def)
  then show ?thesis
    using wf_stream_unsegment(1) [OF assms] by (simp add: reorder_sem_def)
qed

lemma timestamped_items_data [simp]: "data_only (timestamped_items b)"
  by (auto simp: data_only_def list_all_iff)

lemma reorder_data: "data_only seg \<Longrightarrow> data_only (transduce reorder_step b seg)"
proof (induction seg arbitrary: b)
  case (Cons e seg)
  then show ?case by (cases e) auto
qed simp

interpretation reorder_op: stream_operator reorder_new "reorder_next (sort_key snd)" reorder_sem "\<lambda>_. True"
proof
  fix es s s' p
  assume "wf_stream es" and "pulls p s es s'"
  then show "\<exists>st'. pulls (reorder_next (sort_key snd) p) (reorder_new s) (reorder_sem es) st'"
    using transducer_stream [OF reorder_tr.transducer_axioms, of es "reorder_new s" "[]" s p s']
    by (simp add: reorder_sem_def reorder_new_def)
next
  fix es
  assume "wf_stream es"
  then show "wf_stream (reorder_sem es)"
    unfolding reorder_sem_iterations [OF \<open>wf_stream es\<close>]
    using wf_stream_unsegment(2,3) [OF \<open>wf_stream es\<close>]
    by (intro wf_stream_unsegmentI) (auto simp: reorder_iteration_def reorder_data)
qed

subsection \<open>Nothing is lost, and event time never goes back\<close>

lemma timestamped_items_mset_sort [simp]:
  "mset (timestamped_items (sort_key snd b)) = mset (timestamped_items b)"
  by (metis mset_map mset_sort)

lemma reorder_step_mset:
  assumes "\<not> is_marker e" and "reorder_step b e = (out, b')"
  shows "mset out + mset (timestamped_items b') = add_mset e (mset (timestamped_items b))"
proof (cases e)
  case (Watermark w)
  have "mset (timestamped_items (takeWhile (\<lambda>x. snd x \<le> w) (sort_key snd b))) +
      mset (timestamped_items (dropWhile (\<lambda>x. snd x \<le> w) (sort_key snd b))) =
      mset (timestamped_items (sort_key snd b))"
    by (metis map_append mset_append takeWhile_dropWhile_id)
  with assms Watermark show ?thesis by (auto simp del: mset_map)
qed (use assms in auto)

lemma reorder_mset:
  "data_only seg \<Longrightarrow> mset (transduce reorder_step b seg) +
     mset (timestamped_items (transduce_state reorder_step b seg)) = mset seg + mset (timestamped_items b)"
proof (induction seg arbitrary: b)
  case (Cons e seg)
  obtain out b' where e: "reorder_step b e = (out, b')" by (cases "reorder_step b e")
  with Cons reorder_step_mset [of e b out b'] have "mset out + (mset seg + mset (timestamped_items b')) =
      add_mset e (mset seg + mset (timestamped_items b))"
    by (simp add: ac_simps del: mset_map)
  with e Cons.IH [of b'] Cons.prems show ?case by (simp add: ac_simps del: mset_map)
qed simp

lemma reorder_iteration_mset: "data_only seg \<Longrightarrow> mset (reorder_iteration seg) = mset seg"
  using reorder_mset [of seg "[]"] by (simp add: reorder_iteration_def del: mset_map)

lemma filter_stamp_items:
  "filter (\<lambda>e. item_timestamp e = Some t) (timestamped_items b) =
     timestamped_items (filter (\<lambda>x. snd x = t) b)"
  by (induction b) auto

lemma filter_stamp_sort:
  "filter (\<lambda>e. item_timestamp e = Some t) (timestamped_items (sort_key snd b)) =
   filter (\<lambda>e. item_timestamp e = Some t) (timestamped_items b)"
proof -
  have "filter (\<lambda>x. snd x = t) (sort_key snd b) = filter (\<lambda>x. snd x = t) b"
    by (rule sort_key_stable)
  then show ?thesis by (simp add: filter_stamp_items)
qed

lemma reorder_stable_gen:
  "data_only seg \<Longrightarrow> filter (\<lambda>e. item_timestamp e = Some t) (transduce reorder_step b seg) @
     filter (\<lambda>e. item_timestamp e = Some t) (timestamped_items (transduce_state reorder_step b seg)) =
   filter (\<lambda>e. item_timestamp e = Some t) (timestamped_items b @ seg)"
proof (induction seg arbitrary: b)
  case (Cons e seg)
  show ?case
  proof (cases e)
    case (Watermark w)
    let ?F = "filter (\<lambda>e. item_timestamp e = Some t)" and ?s = "sort_key snd b"
    have "?F (timestamped_items (takeWhile (\<lambda>x. snd x \<le> w) ?s)) @
        ?F (timestamped_items (dropWhile (\<lambda>x. snd x \<le> w) ?s)) = ?F (timestamped_items b)"
      by (metis filter_append filter_stamp_sort map_append takeWhile_dropWhile_id)
    with Watermark Cons show ?thesis by simp
  qed (use Cons in auto)
qed simp

lemma reorder_iteration_stable:
  "data_only seg \<Longrightarrow> filter (\<lambda>e. item_timestamp e = Some t) (reorder_iteration seg) =
     filter (\<lambda>e. item_timestamp e = Some t) seg"
  using reorder_stable_gen [of seg t "[]"] by (simp add: reorder_iteration_def filter_stamp_sort)

lemma time_ordered_items:
  assumes "sorted (map snd b)" and "\<forall>x \<in> set b. case m of None \<Rightarrow> True | Some m \<Rightarrow> m \<le> snd x"
    and "time_ordered (if b = [] then m else Some (snd (last b))) es"
  shows "time_ordered m (timestamped_items b @ es)"
  using assms
proof (induction b arbitrary: m)
  case (Cons x b)
  then show ?case by (cases x) (auto split: if_splits option.splits)
qed simp

lemma respects_items:
  "(\<forall>x \<in> set b. above m (snd x)) \<Longrightarrow> wm_from m (timestamped_items b @ es) \<longleftrightarrow> wm_from m es"
  by (induction b) auto

lemma sorted_dropWhile_above:
  assumes "sorted (map snd b)" and "x \<in> set (dropWhile (\<lambda>x. snd x \<le> (w::int)) b)"
  shows "w < snd x"
  using assms
proof (induction b)
  case (Cons y b)
  then show ?case by (auto split: if_splits)
qed simp

text \<open>
  The bound \<open>m\<close> is the last watermark; everything in the buffer is above it, and what has been
  returned so far does not exceed it.
\<close>

lemma reorder_time_ordered:
  assumes "wm_from m es" and "\<forall>x \<in> set b. above m (snd x)"
  shows "time_ordered m (transduce reorder_step b es) \<and> wm_from m (transduce reorder_step b es)"
  using assms
proof (induction es arbitrary: m b)
  case (Cons e es)
  have weak: "\<forall>x \<in> set b. case m of None \<Rightarrow> True | Some m \<Rightarrow> m \<le> snd x"
    using Cons.prems(2) by (auto simp: above_def split: option.splits)
  show ?case
  proof (cases e)
    case (Watermark w)
    let ?out = "takeWhile (\<lambda>x. snd x \<le> w) (sort_key snd b)"
      and ?b = "dropWhile (\<lambda>x. snd x \<le> w) (sort_key snd b)"
    have out: "x \<in> set b \<and> snd x \<le> w" if "x \<in> set ?out" for x
      using that by (auto dest: set_takeWhileD)
    have last: "snd (last ?out) \<le> w" if "?out \<noteq> []"
      using out [OF last_in_set [OF that]] by simp
    have sorted: "sorted (map snd ?out)"
      by (rule sorted_wrt_takeWhile [of "(\<le>)" "map snd (sort_key snd b)" "\<lambda>t. t \<le> w",
            simplified takeWhile_map comp_def]) simp
    have IH: "time_ordered (Some w) (transduce reorder_step ?b es) \<and> wm_from (Some w) (transduce reorder_step ?b es)"
      using Cons.prems(1) Watermark sorted_dropWhile_above [of "sort_key snd b" _ w]
      by (intro Cons.IH) auto
    have wm: "case m of None \<Rightarrow> True | Some m \<Rightarrow> m \<le> w"
      using Cons.prems(1) Watermark by (auto simp: above_def split: option.splits)
    have "time_ordered (if ?out = [] then m else Some (snd (last ?out))) (Watermark w # transduce reorder_step ?b es)"
      using IH last wm by simp
    then have "time_ordered m (timestamped_items ?out @ Watermark w # transduce reorder_step ?b es)"
      using out weak sorted by (intro time_ordered_items) auto
    moreover have "wm_from m (timestamped_items ?out @ Watermark w # transduce reorder_step ?b es)"
      using IH out Cons.prems Watermark by (subst respects_items) auto
    ultimately show ?thesis using Watermark by simp
  next
    case FlushAndRestart
    have IH: "time_ordered None (transduce reorder_step [] es) \<and> wm_from None (transduce reorder_step [] es)"
      using Cons.prems(1) FlushAndRestart by (intro Cons.IH) auto
    then have "time_ordered m (timestamped_items (sort_key snd b) @ FlushAndRestart # transduce reorder_step [] es)"
      using weak by (intro time_ordered_items) auto
    moreover have "wm_from m (timestamped_items (sort_key snd b) @ FlushAndRestart # transduce reorder_step [] es)"
      using IH Cons.prems by (subst respects_items) auto
    ultimately show ?thesis using FlushAndRestart by simp
  qed (use Cons in auto)
qed simp

section \<open>Properties\<close>

lemma reorder_orders:
  assumes "stable_sort srt" and "wf_stream es" and "respects_watermarks es" and "pulls p s es s'"
  shows "\<exists>out st'. pulls (reorder_next srt p) (reorder_new s) out st' \<and> wf_stream out
    \<and> respects_watermarks out \<and> time_ordered None out
    \<and> list_all2 (\<lambda>seg seg'. mset seg' = mset seg \<and> (\<forall>t. filter (\<lambda>e. item_timestamp e = Some t) seg' =
        filter (\<lambda>e. item_timestamp e = Some t) seg)) (iterations es) (iterations out)"
proof -
  have "\<exists>st'. pulls (reorder_next srt p) (reorder_new s) (reorder_sem es) st'"
    using transducer_stream [OF reorder_transducer [OF assms(1)] assms(2) _ assms(4), of "reorder_new s" "[]"]
    by (simp add: reorder_sem_def reorder_new_def)
  moreover have "respects_watermarks (reorder_sem es)" and "time_ordered None (reorder_sem es)"
    using reorder_time_ordered [of None es "[]"] assms(3)
    by (simp_all add: reorder_sem_def respects_watermarks_def)
  moreover have "iterations (reorder_sem es) = map reorder_iteration (iterations es)"
    unfolding reorder_sem_iterations [OF assms(2)]
    using wf_stream_unsegment(2) [OF assms(2)]
    by (intro iterations_unsegment) (auto simp: reorder_iteration_def reorder_data)
  moreover have "list_all2 (\<lambda>seg seg'. mset seg' = mset seg \<and> (\<forall>t. filter (\<lambda>e. item_timestamp e = Some t) seg' =
        filter (\<lambda>e. item_timestamp e = Some t) seg)) (iterations es) (map reorder_iteration (iterations es))"
    using wf_stream_unsegment(2) [OF assms(2)]
    by (auto simp: list_all2_conv_all_nth reorder_iteration_mset reorder_iteration_stable)
  ultimately show ?thesis
    using reorder_op.sem_wf [OF assms(2) TrueI] by auto
qed

text \<open>
  C5: \<^verbatim>\<open>Reorder\<close>: for any stable sort and any previous operator whose stream keeps the watermark
  promise, the operator returns a well-formed stream that keeps it as well and in which event time
  never goes back within an iteration; each iteration is a permutation of the input's, and items
  with equal timestamps stay in arrival order.
\<close>

theorem reorder_orders_event_time:
  assumes "stable_sort srt" and "wf_stream es" and "respects_watermarks es" and "pulls p s es s'"
  shows "\<exists>out st'. pulls (reorder_next srt p) (reorder_new s) out st' \<and> wf_stream out
    \<and> respects_watermarks out \<and> time_ordered None out
    \<and> list_all2 (\<lambda>seg seg'. mset seg' = mset seg \<and> (\<forall>t. filter (\<lambda>e. item_timestamp e = Some t) seg' =
        filter (\<lambda>e. item_timestamp e = Some t) seg)) (iterations es) (iterations out)"
  using assms by (rule reorder_orders)

theorem reorder_orders_event_time_witness:
  "\<exists>out st'. pulls (reorder_next (sort_key snd) fake_next)
      (reorder_new [Timestamped (1 :: nat) 1, Timestamped 3 3, Timestamped 2 2, Watermark 3,
         Timestamped 6 6, Timestamped 4 4, FlushAndRestart, Terminate]) out st' \<and> time_ordered None out"
proof -
  let ?es = "[Timestamped (1 :: nat) 1, Timestamped 3 3, Timestamped 2 2, Watermark 3,
         Timestamped 6 6, Timestamped 4 4, FlushAndRestart, Terminate]"
  have "wf_stream ?es" and "respects_watermarks ?es"
    by (simp_all add: wf_stream_def respects_watermarks_def)
  from reorder_orders_event_time [OF stable_sort_sort_key this pulls_fake_all] show ?thesis by blast
qed

text \<open>
  C21: \<^verbatim>\<open>RichMap\<close>: the \<open>i\<close>-th element is mapped by its key's closure in the state that results from
  exactly the earlier values of the same key, so that keys do not influence each other. The state
  is carried over the end of an iteration.
\<close>

theorem rich_map_per_key_state:
  assumes "pulls p s es s'"
  shows "\<exists>out st'. pulls (rich_map_next f c p) (rich_map_new s) out st' \<and> length out = length es
    \<and> (\<forall>i < length es. out ! i = elem_map (\<lambda>(k, v).
        (k, fst (f (closure_after f c k (key_values k (take i es))) k v))) (es ! i))"
proof -
  obtain maps where "pulls (rich_map_next f c p) (rich_map_new s) (rich_map_sem f c es)
      \<lparr>rm_prev = s', rm_maps_fn = maps\<rparr>"
    using rich_map_state [OF assms, of f c] by blast
  then show ?thesis
    by (intro exI [of _ "rich_map_sem f c es"] exI conjI) (auto simp: rich_map_sem_def)
qed

theorem rich_map_per_key_state_witness:
  "\<exists>out st'. pulls (rich_map_next (\<lambda>c k v. (c + v, c + v)) (0 :: int) fake_next)
      (rich_map_new [Item (True, 1), Item (False, 2), FlushAndRestart, Item (True, 3), FlushAndRestart, Terminate]) out st'
    \<and> length out = 6 \<and> out ! 3 = Item (True, 4)"
proof -
  let ?es = "[Item (True, 1), Item (False, 2), FlushAndRestart, Item (True, 3), FlushAndRestart, Terminate]
      :: (bool \<times> int) stream_element list"
    and ?f = "\<lambda>c k v. (c + v, c + v :: int)"
  from rich_map_per_key_state [OF pulls_fake_all [of ?es], of ?f 0] obtain out st' where
    out: "pulls (rich_map_next ?f 0 fake_next) (rich_map_new ?es) out st'" "length out = length ?es"
    and nth: "\<forall>i < length ?es. out ! i = elem_map (\<lambda>(k, v).
        (k, fst (?f (closure_after ?f 0 k (key_values k (take i ?es))) k v))) (?es ! i)" by blast
  from nth have "out ! 3 = elem_map (\<lambda>(k, v).
        (k, fst (?f (closure_after ?f 0 k (key_values k (take 3 ?es))) k v))) (?es ! 3)"
    by (rule allE [of _ 3]) simp
  then have "out ! 3 = Item (True, 4)"
    by (simp add: closure_after_def key_values_def key_elems_def)
  with out show ?thesis
    by (intro exI [of _ out] exI [of _ st']) simp
qed

end
