(* ===== verification/Limit_Sorted.thy ===== *)
theory Limit_Sorted
  imports Stream_Element "HOL-Library.Sorting_Algorithms"
begin

text \<open>
  \<^verbatim>\<open>LimitSorted\<close> (\<^verbatim>\<open>src/operator/limit_sorted.rs\<close>): the operator behind \<^verbatim>\<open>sorted_by\<close>,
  \<^verbatim>\<open>limit\<close> and \<^verbatim>\<open>sorted_limit_by\<close>. It accumulates an iteration, sorts it, skips the offset
  and returns at most the limit, as a state machine with an explicit \<^verbatim>\<open>enum State\<close>. The
  user's \<^verbatim>\<open>Fn(&Out, &Out) -> Ordering\<close> is a \<open>comparator\<close> and the standard library's stable
  \<^verbatim>\<open>sort_by\<close> is the library's stable \<open>sort\<close>.
\<close>

datatype 'a limit_state =
    Accumulating "'a list"
  | Sorting "'a list"
  | Flushing "'a list" nat
  | Restarting
  | Terminating

record ('s, 'a) limit_sorted =
  ls_prev :: 's
  ls_limit :: "nat option"
  ls_offset :: "nat option"
  ls_sorted :: bool
  ls_sort_by :: "'a comparator"
  ls_state :: "'a limit_state"
  ls_timestamp :: "timestamp option"
  ls_max_watermark :: "timestamp option"
  ls_received_end :: bool

definition limit_sorted_new :: "'a comparator \<Rightarrow> nat option \<Rightarrow> nat option \<Rightarrow> bool \<Rightarrow> 's
    \<Rightarrow> ('s, 'a) limit_sorted" where
  "limit_sorted_new sort_by limit offset srtd prev =
     \<lparr>ls_prev = prev, ls_limit = limit, ls_offset = offset, ls_sorted = srtd, ls_sort_by = sort_by,
      ls_state = Accumulating [], ls_timestamp = None, ls_max_watermark = None,
      ls_received_end = False\<rparr>"

text \<open>The arms of the inner \<^verbatim>\<open>match self.prev.next()\<close> while accumulating.\<close>

fun limit_sorted_absorb :: "'a list \<Rightarrow> ('s, 'a) limit_sorted \<Rightarrow> 'a stream_element \<Rightarrow> ('s, 'a) limit_sorted"
where
  "limit_sorted_absorb buf st Terminate = st\<lparr>ls_received_end := True, ls_state := Sorting buf\<rparr>"
| "limit_sorted_absorb buf st FlushAndRestart = st\<lparr>ls_state := Sorting buf\<rparr>"
| "limit_sorted_absorb buf st (Watermark ts) = st\<lparr>ls_max_watermark := opt_max (ls_max_watermark st) ts\<rparr>"
| "limit_sorted_absorb buf st (Item item) = st\<lparr>ls_state := Accumulating (buf @ [item])\<rparr>"
| "limit_sorted_absorb buf st (Timestamped item ts) =
     st\<lparr>ls_timestamp := opt_max (ls_timestamp st) ts, ls_state := Accumulating (buf @ [item])\<rparr>"
| "limit_sorted_absorb buf st FlushBatch = st"

definition limit_sorted_sort :: "'a list \<Rightarrow> ('s, 'a) limit_sorted \<Rightarrow> 'a limit_state" where
  "limit_sorted_sort items st =
     (let items = (if ls_sorted st then sort (ls_sort_by st) items else items);
          iter = (case ls_offset st of Some offset \<Rightarrow> drop offset items | None \<Rightarrow> items);
          cnt = min (case ls_limit st of Some l \<Rightarrow> l | None \<Rightarrow> length iter) (length iter)
      in Flushing iter cnt)"

partial_function (option) limit_sorted_next
  :: "('s, 'a) pull \<Rightarrow> (('s, 'a) limit_sorted, 'a) pull" where
  "limit_sorted_next prev st =
     (case ls_state st of
        Accumulating buf \<Rightarrow>
          bindR (prev (ls_prev st)) (\<lambda>(e, s').
            limit_sorted_next prev (limit_sorted_absorb buf (st\<lparr>ls_prev := s'\<rparr>) e))
      | Sorting items \<Rightarrow> limit_sorted_next prev (st\<lparr>ls_state := limit_sorted_sort items st\<rparr>)
      | Flushing iter cnt \<Rightarrow>
          if 0 < cnt then
            (case iter of
               [] \<Rightarrow> panic UnwrapNone
             | item # rest \<Rightarrow>
                 ret (case ls_timestamp st of Some ts \<Rightarrow> Timestamped item ts | None \<Rightarrow> Item item,
                      st\<lparr>ls_state := Flushing rest (cnt - 1)\<rparr>))
          else if ls_received_end st then ret (FlushAndRestart, st\<lparr>ls_state := Terminating\<rparr>)
          else
            (case ls_max_watermark st of
               Some w \<Rightarrow> ret (Watermark w, st\<lparr>ls_state := Restarting\<rparr>)
             | None \<Rightarrow> limit_sorted_next prev (st\<lparr>ls_state := Restarting\<rparr>))
      | Restarting \<Rightarrow> ret (FlushAndRestart, st\<lparr>ls_state := Accumulating []\<rparr>)
      | Terminating \<Rightarrow> ret (Terminate, st))"

section \<open>Specification\<close>

definition limit_slice :: "'a comparator \<Rightarrow> nat option \<Rightarrow> nat option \<Rightarrow> bool \<Rightarrow> 'a list \<Rightarrow> 'a list" where
  "limit_slice cmp limit offset srtd xs =
     (let ys = (if srtd then sort cmp xs else xs);
          zs = (case offset of None \<Rightarrow> ys | Some n \<Rightarrow> drop n ys)
      in (case limit of None \<Rightarrow> zs | Some n \<Rightarrow> take n zs))"

text \<open>
  The items carry the largest timestamp, and the watermark is the largest watermark, of all the
  data received so far: \<open>hist\<close> holds the data of the current and the earlier iterations.
\<close>

definition limit_items :: "('a list \<Rightarrow> 'a list) \<Rightarrow> 'a stream_element list \<Rightarrow> 'a stream_element list
    \<Rightarrow> 'a stream_element list" where
  "limit_items sl hist seg = map (with_timestamp (max_of (stamps hist))) (sl (elem_values seg))"

definition limit_iteration :: "('a list \<Rightarrow> 'a list) \<Rightarrow> 'a stream_element list \<Rightarrow> 'a stream_element list
    \<Rightarrow> 'a stream_element list" where
  "limit_iteration sl hist seg = limit_items sl hist seg @
     (case max_of (watermarks hist) of None \<Rightarrow> [] | Some w \<Rightarrow> [Watermark w])"

fun limit_iterations :: "('a list \<Rightarrow> 'a list) \<Rightarrow> 'a stream_element list \<Rightarrow> 'a stream_element list list
    \<Rightarrow> 'a stream_element list list" where
  "limit_iterations sl hist [] = [[]]"
| "limit_iterations sl hist (seg # segs) =
     limit_iteration sl (hist @ seg) seg # limit_iterations sl (hist @ seg) segs"

text \<open>The output has one more, empty, iteration than the input.\<close>

definition limit_sorted_sem :: "'a comparator \<Rightarrow> nat option \<Rightarrow> nat option \<Rightarrow> bool \<Rightarrow> 'a stream_element list
    \<Rightarrow> 'a stream_element list" where
  "limit_sorted_sem cmp limit offset srtd es =
     unsegment (limit_iterations (limit_slice cmp limit offset srtd) [] (iterations es))"

fun limit_step :: "('a list \<Rightarrow> 'a list) \<Rightarrow> ('a stream_element list \<times> 'a stream_element list) option
    \<Rightarrow> 'a stream_element \<Rightarrow> 'a stream_element list \<times> ('a stream_element list \<times> 'a stream_element list) option"
where
  "limit_step sl None e = ([Terminate], None)"
| "limit_step sl (Some (hist, seg)) FlushAndRestart =
     (limit_iteration sl (hist @ seg) seg @ [FlushAndRestart], Some (hist @ seg, []))"
| "limit_step sl (Some (hist, seg)) Terminate =
     (limit_items sl (hist @ seg) seg @ [FlushAndRestart, Terminate], None)"
| "limit_step sl (Some (hist, seg)) e = ([], Some (hist, seg @ [e]))"

lemma limit_step_data:
  "\<not> is_marker e \<Longrightarrow> limit_step sl (Some (hist, seg)) e = ([], Some (hist, seg @ [e]))"
  by (cases e) auto

lemma limit_step_segment:
  "data_only xs \<Longrightarrow> transduce (limit_step sl) (Some (hist, seg)) xs = []
     \<and> transduce_state (limit_step sl) (Some (hist, seg)) xs = Some (hist, seg @ xs)"
  by (induction xs arbitrary: seg) (auto simp: limit_step_data)

lemma transduce_limit_step:
  assumes "\<forall>seg \<in> set segs. data_only seg" and "sl [] = []"
  shows "transduce (limit_step sl) (Some (hist, [])) (unsegment segs) =
    unsegment (limit_iterations sl hist segs)"
  using assms
proof (induction segs arbitrary: hist)
  case Nil
  then show ?case by (simp add: unsegment_def limit_items_def)
next
  case (Cons seg segs)
  have "unsegment (seg # segs) = seg @ FlushAndRestart # unsegment segs"
    by (simp add: unsegment_def)
  with Cons show ?case
    by (simp add: transduce_append limit_step_segment) (simp add: unsegment_def)
qed

section \<open>The operator meets it\<close>

fun limit_idle :: "'a comparator \<Rightarrow> nat option \<Rightarrow> nat option \<Rightarrow> bool \<Rightarrow> ('s, 'a) limit_sorted
    \<Rightarrow> ('a stream_element list \<times> 'a stream_element list) option \<Rightarrow> 's \<Rightarrow> bool" where
  "limit_idle cmp limit offset srtd st None s = (ls_state st = Terminating)"
| "limit_idle cmp limit offset srtd st (Some (hist, seg)) s =
     (st = \<lparr>ls_prev = s, ls_limit = limit, ls_offset = offset, ls_sorted = srtd, ls_sort_by = cmp,
            ls_state = Accumulating (elem_values seg), ls_timestamp = max_of (stamps (hist @ seg)),
            ls_max_watermark = max_of (watermarks (hist @ seg)), ls_received_end = False\<rparr>)"

lemma limit_next_accumulate:
  "ls_state st = Accumulating buf \<Longrightarrow> prev (ls_prev st) = ret (e, s') \<Longrightarrow>
   limit_sorted_next prev st = limit_sorted_next prev (limit_sorted_absorb buf (st\<lparr>ls_prev := s'\<rparr>) e)"
  by (subst limit_sorted_next.simps) simp

lemma limit_next_sort:
  "ls_state st = Sorting items \<Longrightarrow>
   limit_sorted_next prev st = limit_sorted_next prev (st\<lparr>ls_state := limit_sorted_sort items st\<rparr>)"
  by (subst limit_sorted_next.simps) simp

lemma limit_flush_items:
  assumes "ls_state st = Flushing iter cnt" and "cnt \<le> length iter"
  shows "pulls (limit_sorted_next p) st (map (with_timestamp (ls_timestamp st)) (take cnt iter))
    (st\<lparr>ls_state := Flushing (drop cnt iter) 0\<rparr>)"
  using assms
proof (induction cnt arbitrary: st iter)
  case 0
  then show ?case by simp
next
  case (Suc cnt)
  then obtain item rest where iter: "iter = item # rest" by (cases iter) auto
  let ?st = "st\<lparr>ls_state := Flushing rest cnt\<rparr>"
  have "limit_sorted_next p st = ret (with_timestamp (ls_timestamp st) item, ?st)"
    using Suc.prems iter by (subst limit_sorted_next.simps) (simp split: option.splits)
  with Suc.IH [of ?st rest] Suc.prems iter show ?case
    by (simp add: pulls_Cons_iff)
qed

lemma limit_flush_restart:
  assumes "ls_state st = Flushing iter 0" and "\<not> ls_received_end st"
  shows "pulls (limit_sorted_next p) st
    ((case ls_max_watermark st of None \<Rightarrow> [] | Some w \<Rightarrow> [Watermark w]) @ [FlushAndRestart])
    (st\<lparr>ls_state := Accumulating []\<rparr>)"
proof -
  have restart: "limit_sorted_next p (st\<lparr>ls_state := Restarting\<rparr>) =
      ret (FlushAndRestart, st\<lparr>ls_state := Accumulating []\<rparr>)"
    by (subst limit_sorted_next.simps) simp
  have "limit_sorted_next p st = (case ls_max_watermark st of
      Some w \<Rightarrow> ret (Watermark w, st\<lparr>ls_state := Restarting\<rparr>)
    | None \<Rightarrow> limit_sorted_next p (st\<lparr>ls_state := Restarting\<rparr>))"
    using assms by (subst limit_sorted_next.simps) simp
  with restart show ?thesis
    by (auto simp: pulls_Cons_iff split: option.splits)
qed

lemma limit_flush_end:
  assumes "ls_state st = Flushing iter 0" and "ls_received_end st"
  shows "pulls (limit_sorted_next p) st [FlushAndRestart, Terminate] (st\<lparr>ls_state := Terminating\<rparr>)"
proof -
  have "limit_sorted_next p st = ret (FlushAndRestart, st\<lparr>ls_state := Terminating\<rparr>)"
    using assms by (subst limit_sorted_next.simps) simp
  moreover have "limit_sorted_next p (st\<lparr>ls_state := Terminating\<rparr>) =
      ret (Terminate, st\<lparr>ls_state := Terminating\<rparr>)"
    by (subst limit_sorted_next.simps) simp
  ultimately show ?thesis by (simp add: pulls_Cons_iff)
qed

lemma limit_sorted_sort_slice:
  obtains iter cnt where "limit_sorted_sort items st = Flushing iter cnt" and "cnt \<le> length iter"
    and "take cnt iter = limit_slice (ls_sort_by st) (ls_limit st) (ls_offset st) (ls_sorted st) items"
proof
  let ?sorted = "if ls_sorted st then sort (ls_sort_by st) items else items"
  let ?iter = "case ls_offset st of Some offset \<Rightarrow> drop offset ?sorted | None \<Rightarrow> ?sorted"
  let ?cnt = "min (case ls_limit st of Some l \<Rightarrow> l | None \<Rightarrow> length ?iter) (length ?iter)"
  show "limit_sorted_sort items st = Flushing ?iter ?cnt"
    by (simp add: limit_sorted_sort_def Let_def)
  show "?cnt \<le> length ?iter" by simp
  show "take ?cnt ?iter = limit_slice (ls_sort_by st) (ls_limit st) (ls_offset st) (ls_sorted st) items"
    by (cases "ls_limit st") (simp_all add: limit_slice_def Let_def min_def)
qed

text \<open>From the end of an iteration on: the sorted slice, then the end of the iteration.\<close>

lemma limit_sorting_pulls:
  assumes st: "ls_state st = Sorting items"
    and rest: "\<And>iter. pulls (limit_sorted_next p) (st\<lparr>ls_state := Flushing iter 0\<rparr>) es st'" and "es \<noteq> []"
  shows "pulls (limit_sorted_next p) st (map (with_timestamp (ls_timestamp st))
    (limit_slice (ls_sort_by st) (ls_limit st) (ls_offset st) (ls_sorted st) items) @ es) st'"
proof -
  obtain iter cnt where "limit_sorted_sort items st = Flushing iter cnt" "cnt \<le> length iter"
    "take cnt iter = limit_slice (ls_sort_by st) (ls_limit st) (ls_offset st) (ls_sorted st) items"
    by (rule limit_sorted_sort_slice)
  with limit_flush_items [of "st\<lparr>ls_state := Flushing iter cnt\<rparr>" iter cnt p] rest [of "drop cnt iter"]
  have "pulls (limit_sorted_next p) (st\<lparr>ls_state := limit_sorted_sort items st\<rparr>)
    (map (with_timestamp (ls_timestamp st))
      (limit_slice (ls_sort_by st) (ls_limit st) (ls_offset st) (ls_sorted st) items) @ es) st'"
    by (auto simp: pulls_append)
  with limit_next_sort [OF st] \<open>es \<noteq> []\<close> show ?thesis
    by (subst pulls_start_cong [of _ st]) auto
qed

lemma limit_transducer:
  fixes p :: "('s, 'a) pull"
  shows "transducer p (limit_sorted_next p) (limit_idle cmp limit offset srtd)
    (limit_step (limit_slice cmp limit offset srtd))"
proof
  fix st :: "('s, 'a) limit_sorted" and c s e s1 c'
  assume idle: "limit_idle cmp limit offset srtd st c s" and e: "p s = ret (e, s1)"
    and "limit_step (limit_slice cmp limit offset srtd) c e = ([], c')"
  then obtain hist seg where c: "c = Some (hist, seg)" and c': "c' = Some (hist, seg @ [e])"
    and data: "\<not> is_marker e"
    by (cases c; cases e) auto
  let ?st = "limit_sorted_absorb (elem_values seg) (st\<lparr>ls_prev := s1\<rparr>) e"
  have "limit_sorted_next p st = limit_sorted_next p ?st"
    using idle e c by (intro limit_next_accumulate) auto
  moreover have "limit_idle cmp limit offset srtd ?st c' s1"
    using idle c c' data by (cases e) (simp_all del: append_assoc add: append_assoc [symmetric])
  ultimately show "\<exists>st1. limit_sorted_next p st = limit_sorted_next p st1
      \<and> limit_idle cmp limit offset srtd st1 c' s1" by blast
next
  fix st :: "('s, 'a) limit_sorted" and c s e s1 y ys c'
  assume idle: "limit_idle cmp limit offset srtd st c s" and e: "p s = ret (e, s1)"
    and out: "limit_step (limit_slice cmp limit offset srtd) c e = (y # ys, c')"
  show "\<exists>st1. pulls (limit_sorted_next p) st (y # ys) st1 \<and> limit_idle cmp limit offset srtd st1 c' s1"
  proof (cases c)
    case None
    then have "limit_sorted_next p st = ret (Terminate, st)"
      using idle by (subst limit_sorted_next.simps) simp
    with None idle out show ?thesis by auto
  next
    case (Some hs)
    then obtain hist seg where c: "c = Some (hist, seg)" by (cases hs) auto
    with out have e_end: "e = FlushAndRestart \<or> e = Terminate" by (cases e) auto
    let ?st = "limit_sorted_absorb (elem_values seg) (st\<lparr>ls_prev := s1\<rparr>) e"
    have step: "limit_sorted_next p st = limit_sorted_next p ?st"
      using idle e c by (intro limit_next_accumulate) auto
    have sorting: "ls_state ?st = Sorting (elem_values seg)"
      using e_end by auto
    have "\<exists>st1. pulls (limit_sorted_next p) ?st (y # ys) st1 \<and> limit_idle cmp limit offset srtd st1 c' s1"
    proof (cases "e = Terminate")
      case True
      have "pulls (limit_sorted_next p) (?st\<lparr>ls_state := Flushing iter 0\<rparr>) [FlushAndRestart, Terminate]
          (?st\<lparr>ls_state := Terminating\<rparr>)" for iter
        using limit_flush_end [of "?st\<lparr>ls_state := Flushing iter 0\<rparr>" iter p] True by simp
      from limit_sorting_pulls [OF sorting this] show ?thesis
        using idle c out True by (auto simp: limit_items_def)
    next
      case False
      with e_end have e: "e = FlushAndRestart" by simp
      have "pulls (limit_sorted_next p) (?st\<lparr>ls_state := Flushing iter 0\<rparr>)
          ((case ls_max_watermark ?st of None \<Rightarrow> [] | Some w \<Rightarrow> [Watermark w]) @ [FlushAndRestart])
          (?st\<lparr>ls_state := Accumulating []\<rparr>)" for iter
        using limit_flush_restart [of "?st\<lparr>ls_state := Flushing iter 0\<rparr>" iter p] e idle c by simp
      from limit_sorting_pulls [OF sorting this] show ?thesis
        using idle c out e by (auto simp: limit_items_def limit_iteration_def)
    qed
    with step show ?thesis
      using pulls_start_cong [of "limit_sorted_next p" st ?st "y # ys"] by auto
  qed
qed

interpretation limit_tr: transducer p "limit_sorted_next p" "limit_idle cmp limit offset srtd"
  "limit_step (limit_slice cmp limit offset srtd)"
  for p :: "('s, 'a) pull" and cmp limit offset srtd
  by (rule limit_transducer)

lemma limit_slice_Nil [simp]: "limit_slice cmp limit offset srtd [] = []"
  by (auto simp: limit_slice_def Let_def split: option.splits)

interpretation limit_sorted_op: stream_operator "limit_sorted_new cmp limit offset srtd" limit_sorted_next
  "limit_sorted_sem cmp limit offset srtd" "\<lambda>_. True"
  for cmp :: "'a comparator" and limit offset srtd
proof
  fix es s s' and p :: "('s, 'a) pull"
  assume wf: "wf_stream es" and "pulls p s es s'"
  let ?step = "limit_step (limit_slice cmp limit offset srtd)"
  have "fst (?step c Terminate) \<noteq> []" for c
    by (cases c) auto
  then have "\<exists>st'. pulls (limit_sorted_next p) (limit_sorted_new cmp limit offset srtd s)
      (transduce ?step (Some ([], [])) es) st'"
    using wf \<open>pulls p s es s'\<close>
    by (intro transducer_stream [OF limit_tr.transducer_axioms]) (auto simp: limit_sorted_new_def)
  then show "\<exists>st'. pulls (limit_sorted_next p) (limit_sorted_new cmp limit offset srtd s)
      (limit_sorted_sem cmp limit offset srtd es) st'"
    using transduce_limit_step [OF wf_stream_unsegment(2) [OF wf], of "limit_slice cmp limit offset srtd" "[]"]
    by (simp add: limit_sorted_sem_def wf_stream_unsegment(1) [OF wf])
next
  fix es :: "'a stream_element list"
  assume "wf_stream es"
  have "\<forall>seg \<in> set (limit_iterations sl hist segs). data_only seg" for sl hist and segs :: "'a stream_element list list"
    by (induction sl hist segs rule: limit_iterations.induct)
      (auto simp: limit_iteration_def limit_items_def data_only_def list_all_iff split: option.splits)
  moreover have "limit_iterations sl hist segs \<noteq> []" for sl hist and segs :: "'a stream_element list list"
    by (cases segs) auto
  ultimately show "wf_stream (limit_sorted_sem cmp limit offset srtd es)"
    by (simp add: limit_sorted_sem_def wf_stream_unsegmentI)
qed

section \<open>Properties\<close>

text \<open>
  C20: \<^verbatim>\<open>LimitSorted\<close>: it never panics; for each iteration of a well-formed stream it returns the
  slice \<open>[offset, offset + limit)\<close> of the iteration's values, stably sorted if asked to, and the end
  marker, and it ends the stream with an additional empty iteration. Each item carries the largest
  timestamp, and each iteration ends with the largest watermark, received since the start of the
  stream, not since the start of the iteration.
\<close>

theorem limit_sorted_slices:
  assumes "wf_stream es" and "pulls p s es s'"
  shows "\<exists>outs st'. pulls (limit_sorted_next p) (limit_sorted_new cmp limit offset srtd s) (unsegment (outs @ [[]])) st'
    \<and> length outs = length (iterations es)
    \<and> (\<forall>i < length outs. let seen = concat (take (Suc i) (iterations es)) in outs ! i =
        map (with_timestamp (max_of (stamps seen)))
          (limit_slice cmp limit offset srtd (elem_values (iterations es ! i))) @
        (case max_of (watermarks seen) of None \<Rightarrow> [] | Some w \<Rightarrow> [Watermark w]))"
proof -
  have gen: "\<exists>outs. limit_iterations sl hist segs = outs @ [[]] \<and> length outs = length segs
    \<and> (\<forall>i < length outs. outs ! i = limit_iteration sl (hist @ concat (take (Suc i) segs)) (segs ! i))"
    for sl hist and segs :: "'a stream_element list list"
  proof (induction segs arbitrary: hist)
    case (Cons seg segs)
    from Cons.IH [of "hist @ seg"] obtain outs where
      "limit_iterations sl (hist @ seg) segs = outs @ [[]]" "length outs = length segs"
      "\<forall>i < length outs. outs ! i = limit_iteration sl (hist @ seg @ concat (take (Suc i) segs)) (segs ! i)"
      by auto
    then show ?case
      by (intro exI [of _ "limit_iteration sl (hist @ seg) seg # outs"]) (auto simp: nth_Cons split: nat.splits)
  qed simp
  from gen [of "limit_slice cmp limit offset srtd" "[]" "iterations es"] obtain outs where
    outs: "limit_sorted_sem cmp limit offset srtd es = unsegment (outs @ [[]])" "length outs = length (iterations es)"
    "\<forall>i < length outs. outs ! i = limit_iteration (limit_slice cmp limit offset srtd)
      (concat (take (Suc i) (iterations es))) (iterations es ! i)"
    by (auto simp: limit_sorted_sem_def)
  from limit_sorted_op.produces [OF assms(1) TrueI assms(2), of cmp limit offset srtd] outs show ?thesis
    by (auto simp: limit_iteration_def limit_items_def Let_def)
qed

theorem limit_sorted_slices_witness:
  "\<exists>outs st'. pulls (limit_sorted_next fake_next) (limit_sorted_new default (Some 2) (Some 1) True
      [Timestamped (9 :: nat) 4, Item 3, Item 5, FlushAndRestart, Terminate]) (unsegment (outs @ [[]])) st'
    \<and> length outs = 1 \<and> outs ! 0 = map (with_timestamp (Some 4)) (limit_slice default (Some 2) (Some 1) True [9, 3, 5])"
proof -
  let ?es = "[Timestamped (9 :: nat) 4, Item 3, Item 5, FlushAndRestart, Terminate]"
  have wf: "wf_stream ?es" by (simp add: wf_stream_def)
  have it: "iterations ?es = [[Timestamped 9 4, Item 3, Item 5]]" by (simp add: iterations_def)
  show ?thesis
    using limit_sorted_slices [OF wf pulls_fake_all, of default "Some 2" "Some 1" True]
    by (force simp: it max_of_def)
qed

end
