(* ===== verification/Network.thy ===== *)
theory Network
  imports Stream_Element
begin

text \<open>
  The identifiers and messages of \<^verbatim>\<open>src/network/mod.rs\<close>: coordinates of blocks, replicas, receiver
  endpoints and demultiplexers, and the batches that replicas exchange. Coordinates are ordered
  as their \<^verbatim>\<open>derive(Ord)\<close> orders them, field by field.
\<close>

datatype coord = Coord (block_id: nat) (host_id: nat) (replica_id: nat)

instantiation coord :: linorder
begin

definition less_eq_coord :: "coord \<Rightarrow> coord \<Rightarrow> bool" where
  "less_eq_coord a b \<longleftrightarrow> block_id a < block_id b \<or>
     (block_id a = block_id b \<and> (host_id a < host_id b \<or>
       (host_id a = host_id b \<and> replica_id a \<le> replica_id b)))"

definition less_coord :: "coord \<Rightarrow> coord \<Rightarrow> bool" where
  "less_coord a b \<longleftrightarrow> a \<le> b \<and> \<not> b \<le> (a :: coord)"

instance
  by standard (auto simp: less_eq_coord_def less_coord_def intro: coord.expand)

end

text \<open>\<^verbatim>\<open>Coord\<close> derives \<^verbatim>\<open>Default\<close>.\<close>

definition default_coord :: coord where
  "default_coord = Coord 0 0 0"

datatype block_coord = BlockCoord (bc_block_id: nat) (bc_host_id: nat)

instantiation block_coord :: linorder
begin

definition less_eq_block_coord :: "block_coord \<Rightarrow> block_coord \<Rightarrow> bool" where
  "less_eq_block_coord a b \<longleftrightarrow> bc_block_id a < bc_block_id b \<or> (bc_block_id a = bc_block_id b \<and> bc_host_id a \<le> bc_host_id b)"

definition less_block_coord :: "block_coord \<Rightarrow> block_coord \<Rightarrow> bool" where
  "less_block_coord a b \<longleftrightarrow> a \<le> b \<and> \<not> b \<le> (a :: block_coord)"

instance
  by standard (auto simp: less_eq_block_coord_def less_block_coord_def intro: block_coord.expand)

end

datatype receiver_endpoint = ReceiverEndpoint (re_coord: coord) (re_prev_block_id: nat)

instantiation receiver_endpoint :: linorder
begin

definition less_eq_receiver_endpoint :: "receiver_endpoint \<Rightarrow> receiver_endpoint \<Rightarrow> bool" where
  "less_eq_receiver_endpoint a b \<longleftrightarrow> re_coord a < re_coord b \<or>
     (re_coord a = re_coord b \<and> re_prev_block_id a \<le> re_prev_block_id b)"

definition less_receiver_endpoint :: "receiver_endpoint \<Rightarrow> receiver_endpoint \<Rightarrow> bool" where
  "less_receiver_endpoint a b \<longleftrightarrow> a \<le> b \<and> \<not> b \<le> (a :: receiver_endpoint)"

instance
  by standard (auto simp: less_eq_receiver_endpoint_def less_receiver_endpoint_def intro: receiver_endpoint.expand)

end

datatype demux_coord = DemuxCoord (dc_coord: block_coord) (dc_prev_block_id: nat)

instantiation demux_coord :: linorder
begin

definition less_eq_demux_coord :: "demux_coord \<Rightarrow> demux_coord \<Rightarrow> bool" where
  "less_eq_demux_coord a b \<longleftrightarrow> dc_coord a < dc_coord b \<or> (dc_coord a = dc_coord b \<and> dc_prev_block_id a \<le> dc_prev_block_id b)"

definition less_demux_coord :: "demux_coord \<Rightarrow> demux_coord \<Rightarrow> bool" where
  "less_demux_coord a b \<longleftrightarrow> a \<le> b \<and> \<not> b \<le> (a :: demux_coord)"

instance
  by standard (auto simp: less_eq_demux_coord_def less_demux_coord_def intro: demux_coord.expand)

end

definition block_coord_of :: "coord \<Rightarrow> block_coord" where
  "block_coord_of c = BlockCoord (block_id c) (host_id c)"

definition demux_coord_new :: "coord \<Rightarrow> coord \<Rightarrow> demux_coord" where
  "demux_coord_new from_coord to_coord = DemuxCoord (block_coord_of to_coord) (block_id from_coord)"

definition demux_of_endpoint :: "receiver_endpoint \<Rightarrow> demux_coord" where
  "demux_of_endpoint e = DemuxCoord (block_coord_of (re_coord e)) (re_prev_block_id e)"

definition includes_channel :: "demux_coord \<Rightarrow> coord \<Rightarrow> coord \<Rightarrow> bool" where
  "includes_channel d from_coord to_coord \<longleftrightarrow>
     dc_coord d = block_coord_of to_coord \<and> dc_prev_block_id d = block_id from_coord"

lemma includes_channel_new:
  "includes_channel d from_coord to_coord \<longleftrightarrow> d = demux_coord_new from_coord to_coord"
  by (cases d) (auto simp: includes_channel_def demux_coord_new_def)

lemma demux_of_endpoint_new:
  "demux_of_endpoint (ReceiverEndpoint to_coord (block_id from_coord)) = demux_coord_new from_coord to_coord"
  by (simp add: demux_of_endpoint_def demux_coord_new_def)

record 'a network_message =
  nm_sender :: coord
  nm_data :: "'a stream_element list"

definition new_single :: "'a stream_element \<Rightarrow> coord \<Rightarrow> 'a network_message" where
  "new_single e sender = \<lparr>nm_sender = sender, nm_data = [e]\<rparr>"

definition new_batch :: "'a stream_element list \<Rightarrow> coord \<Rightarrow> 'a network_message" where
  "new_batch es sender = \<lparr>nm_sender = sender, nm_data = es\<rparr>"

definition num_items :: "'a network_message \<Rightarrow> nat" where
  "num_items m = length (nm_data m)"

end
