(* ===== verification/Start.thy ===== *)
theory Start
  imports Network
begin

text \<open>
  The first operator of a block (\<^verbatim>\<open>src/operator/start\<close>): \<^verbatim>\<open>WatermarkFrontier\<close> merges the
  watermarks of the previous replicas and \<^verbatim>\<open>Start\<close> turns the batches received from them into one
  stream. The receiving part is the trait \<^verbatim>\<open>StartReceiver\<close>: its \<^verbatim>\<open>recv\<close> and \<^verbatim>\<open>recv_timeout\<close> are
  parameters of \<open>start_next\<close>, and the lock of an enclosing iteration is a parameter as well.
  The theorems hold for every sequence of messages these return.
\<close>

section \<open>The watermark frontier\<close>

record watermark_frontier =
  wf_map :: "(coord \<times> timestamp option) list"
  wf_front :: "timestamp option"

definition opt_join :: "'t option \<Rightarrow> 't option \<Rightarrow> ('t \<Rightarrow> 't \<Rightarrow> 't) \<Rightarrow> 't option" where
  "opt_join a b f =
     (case (a, b) of
        (Some a, Some b) \<Rightarrow> Some (f a b)
      | (a, None) \<Rightarrow> a
      | (None, a) \<Rightarrow> a)"

text \<open>
  \<^verbatim>\<open>collect\<close> into an \<^verbatim>\<open>IndexMap\<close> inserts the pairs one after the other; its iteration order is the
  order of insertion.
\<close>

definition frontier_new :: "coord list \<Rightarrow> watermark_frontier" where
  "frontier_new prev_replicas =
     \<lparr>wf_map = foldl (\<lambda>m c. AList.update c None m) [] prev_replicas, wf_front = None\<rparr>"

definition compute_frontier :: "watermark_frontier \<Rightarrow> timestamp option" where
  "compute_frontier fr =
     (case foldl (\<lambda>(all, mn) x. (all \<and> x \<noteq> None, opt_join mn x min)) (True, None) (map snd (wf_map fr)) of
        (complete, mn) \<Rightarrow> if complete then mn else None)"

definition frontier_update :: "coord \<Rightarrow> timestamp \<Rightarrow> watermark_frontier
    \<Rightarrow> (timestamp option \<times> watermark_frontier) res" where
  "frontier_update coord ts fr =
     (case map_of (wf_map fr) coord of
        None \<Rightarrow> panic IndexOutOfBounds
      | Some t0 \<Rightarrow>
          if (case t0 of Some t \<Rightarrow> ts \<le> t | None \<Rightarrow> False) then ret (None, fr)
          else
            let fr1 = fr\<lparr>wf_map := AList.update coord (Some ts) (wf_map fr)\<rparr>;
                prev_frontier = wf_front fr;
                front = compute_frontier fr1
            in ret (case (prev_frontier, front) of
                      (None, Some new) \<Rightarrow> Some new
                    | (Some old, Some new) \<Rightarrow> if old \<noteq> new then Some new else None
                    | _ \<Rightarrow> None,
                    fr1\<lparr>wf_front := front\<rparr>))"

definition frontier_reset :: "watermark_frontier \<Rightarrow> watermark_frontier" where
  "frontier_reset fr = fr\<lparr>wf_map := map (\<lambda>(c, _). (c, None)) (wf_map fr), wf_front := None\<rparr>"

subsection \<open>The frontier is the minimum over the replicas\<close>

text \<open>
  The abstract state: what each replica has reached. A timestamp is safe when every replica has
  reached it.
\<close>

definition safe_front :: "coord list \<Rightarrow> (coord \<Rightarrow> timestamp option) \<Rightarrow> timestamp option" where
  "safe_front cs reached =
     (if cs \<noteq> [] \<and> (\<forall>c \<in> set cs. reached c \<noteq> None)
      then Some (Min ((\<lambda>c. the (reached c)) ` set cs)) else None)"

definition frontier_of :: "coord list \<Rightarrow> (coord \<Rightarrow> timestamp option) \<Rightarrow> watermark_frontier" where
  "frontier_of cs reached =
     \<lparr>wf_map = map (\<lambda>c. (c, reached c)) cs, wf_front = safe_front cs reached\<rparr>"

definition opt_min :: "timestamp list \<Rightarrow> timestamp option" where
  "opt_min ts = (if ts = [] then None else Some (Min (set ts)))"

lemma opt_join_min: "opt_join (opt_min ts) (Some t) min = opt_min (ts @ [t])"
  by (auto simp: opt_join_def opt_min_def min.commute split: option.splits)

lemma opt_join_None [simp]: "opt_join a None f = a"
  by (cases a) (auto simp: opt_join_def)

lemma frontier_fold:
  "foldl (\<lambda>(all, mn) x. (all \<and> x \<noteq> None, opt_join mn x min)) (True, None) xs =
     (\<forall>x \<in> set xs. x \<noteq> None, opt_min (List.map_filter (\<lambda>x. x) xs))"
proof (induction xs rule: rev_induct)
  case Nil
  show ?case by (simp add: opt_min_def List.map_filter_simps)
next
  case (snoc x xs)
  then show ?case by (cases x) (auto simp: opt_join_min List.map_filter_simps)
qed

lemma compute_frontier_of: "compute_frontier (frontier_of cs reached) = safe_front cs reached"
proof (cases "\<forall>c \<in> set cs. reached c \<noteq> None")
  case True
  then have "List.map_filter (\<lambda>x. x) (map reached cs) = map (\<lambda>c. the (reached c)) cs"
    by (induction cs) (auto simp: List.map_filter_simps)
  with True show ?thesis
    unfolding compute_frontier_def frontier_fold
    by (auto simp: frontier_of_def safe_front_def opt_min_def comp_def)
next
  case False
  then show ?thesis
    unfolding compute_frontier_def frontier_fold by (auto simp: frontier_of_def safe_front_def)
qed

lemma frontier_new_of: "distinct cs \<Longrightarrow> frontier_new cs = frontier_of cs (\<lambda>_. None)"
proof -
  have "distinct cs \<Longrightarrow> foldl (\<lambda>m c. AList.update c None m) [] cs = map (\<lambda>c. (c, None :: timestamp option)) cs"
    for cs :: "coord list"
  proof (induction cs rule: rev_induct)
    case (snoc c cs)
    have "map_of (map (\<lambda>c. (c, None :: timestamp option)) cs) c = None"
      using snoc.prems by (auto simp: map_of_eq_None_iff)
    with snoc show ?case by (simp add: update_new)
  qed simp
  then show "distinct cs \<Longrightarrow> frontier_new cs = frontier_of cs (\<lambda>_. None)"
    by (auto simp: frontier_new_def frontier_of_def safe_front_def)
qed

lemma frontier_reset_of: "frontier_reset (frontier_of cs reached) = frontier_of cs (\<lambda>_. None)"
  by (auto simp: frontier_reset_def frontier_of_def safe_front_def)

lemma map_of_graph [simp]: "map_of (map (\<lambda>c. (c, g c)) cs) c = (if c \<in> set cs then Some (g c) else None)"
  by (induction cs) auto

lemma update_graph:
  "distinct cs \<Longrightarrow> c \<in> set cs \<Longrightarrow>
   AList.update c v (map (\<lambda>c. (c, g c)) cs) = map (\<lambda>x. (x, (g(c := v)) x)) cs"
  by (induction cs) auto

text \<open>
  \<^verbatim>\<open>update\<close> raises what the replica has reached and answers with the new minimum when it differs
  from the old one.
\<close>

lemma frontier_update_of:
  assumes "distinct cs" and "c \<in> set cs"
  shows "frontier_update c ts (frontier_of cs reached) =
    (let reached' = reached(c := opt_max (reached c) ts)
     in ret (if safe_front cs reached' \<noteq> safe_front cs reached then safe_front cs reached' else None,
             frontier_of cs reached'))"
proof (cases "case reached c of Some t \<Rightarrow> ts \<le> t | None \<Rightarrow> False")
  case True
  then have "reached(c := opt_max (reached c) ts) = reached"
    by (auto split: option.splits)
  with True assms show ?thesis by (simp add: frontier_update_def frontier_of_def)
next
  case False
  let ?r = "reached(c := Some ts)"
  have r: "opt_max (reached c) ts = Some ts"
    using False by (auto split: option.splits)
  have new: "(frontier_of cs reached)\<lparr>wf_map := AList.update c (Some ts) (wf_map (frontier_of cs reached))\<rparr> =
      (frontier_of cs ?r)\<lparr>wf_front := safe_front cs reached\<rparr>"
    using assms by (simp add: frontier_of_def update_graph)
  have "compute_frontier ((frontier_of cs ?r)\<lparr>wf_front := f\<rparr>) = safe_front cs ?r" for f
    using compute_frontier_of [of cs ?r] by (simp add: compute_frontier_def frontier_of_def)
  moreover have "safe_front cs ?r \<noteq> None" if "safe_front cs reached \<noteq> None"
    using that by (auto simp: safe_front_def split: if_splits)
  moreover have "(frontier_of cs ?r)\<lparr>wf_front := safe_front cs ?r\<rparr> = frontier_of cs ?r"
    by (simp add: frontier_of_def)
  moreover have "map_of (wf_map (frontier_of cs reached)) c = Some (reached c)"
    and "wf_front (frontier_of cs reached) = safe_front cs reached"
    using assms(2) by (simp_all add: frontier_of_def)
  ultimately show ?thesis
    using False by (auto simp: frontier_update_def Let_def new r split: option.splits)
qed

lemma safe_front_le:
  assumes "safe_front cs reached = Some f" and "c \<in> set cs"
  shows "\<exists>t. reached c = Some t \<and> f \<le> t"
proof -
  from assms obtain t where t: "reached c = Some t"
    by (auto simp: safe_front_def split: if_splits)
  have "Min ((\<lambda>c. the (reached c)) ` set cs) \<le> the (reached c)"
    using assms(2) by simp
  with assms(1) t show ?thesis by (auto simp: safe_front_def split: if_splits)
qed

text \<open>The frontier never moves back while the replicas advance.\<close>

lemma safe_front_mono:
  assumes "\<And>c t. c \<in> set cs \<Longrightarrow> reached c = Some t \<Longrightarrow> \<exists>t'. reached' c = Some t' \<and> t \<le> t'"
    and "safe_front cs reached = Some f"
  shows "\<exists>f'. safe_front cs reached' = Some f' \<and> f \<le> f'"
proof -
  have all: "\<exists>t'. reached' c = Some t' \<and> f \<le> t'" if "c \<in> set cs" for c
    using safe_front_le [OF assms(2) that] assms(1) [OF that] by (meson order_trans)
  then have "safe_front cs reached' = Some (Min ((\<lambda>c. the (reached' c)) ` set cs))"
    using assms(2) by (force simp: safe_front_def split: if_splits)
  moreover have "f \<le> Min ((\<lambda>c. the (reached' c)) ` set cs)"
    using all assms(2) by (fastforce simp: safe_front_def split: if_splits)
  ultimately show ?thesis by blast
qed

lemma safe_front_advance:
  assumes "reached' = reached(c := opt_max (reached c) t)"
  shows "safe_front cs reached' = None \<Longrightarrow> safe_front cs reached = None"
    and "safe_front cs reached = Some f \<Longrightarrow> \<exists>f'. safe_front cs reached' = Some f' \<and> f \<le> f'"
proof -
  have mono: "\<exists>u. reached' x = Some u \<and> v \<le> u" if "reached x = Some v" for x v
    using that assms by (cases "x = c") auto
  show "safe_front cs reached = Some f \<Longrightarrow> \<exists>f'. safe_front cs reached' = Some f' \<and> f \<le> f'"
    using mono by (rule safe_front_mono)
  show "safe_front cs reached' = None \<Longrightarrow> safe_front cs reached = None"
    using safe_front_mono [of cs reached reached', OF mono] by (cases "safe_front cs reached") auto
qed

section \<open>The operator\<close>

text \<open>
  The lock of an iteration is a function that waits for a generation: it returns, or it does not.
  \<^verbatim>\<open>recv_timeout\<close> returns \<open>None\<close> for \<^verbatim>\<open>Err(RecvTimeoutError)\<close>, whatever the error.
\<close>

record ('r, 'a) start =
  st_max_delay :: "nat option"
  st_coord :: "coord option"
  st_receiver :: 'r
  st_batch_iter :: "(coord \<times> 'a stream_element list) option"
  st_missing_terminate :: nat
  st_missing_flush_and_restart :: nat
  st_num_previous_replicas :: nat
  st_flushed_batch :: bool
  st_already_timed_out :: bool
  st_watermark_frontier :: watermark_frontier
  st_wait_for_state :: bool
  st_state_lock :: "(nat \<Rightarrow> unit res) option"
  st_state_generation :: nat

definition start_new :: "'r \<Rightarrow> (nat \<Rightarrow> unit res) option \<Rightarrow> ('r, 'a) start" where
  "start_new receiver state_lock =
     \<lparr>st_max_delay = None, st_coord = None, st_receiver = receiver, st_batch_iter = None,
      st_missing_terminate = 0, st_missing_flush_and_restart = 0, st_num_previous_replicas = 0,
      st_flushed_batch = False, st_already_timed_out = False,
      st_watermark_frontier = \<lparr>wf_map = [], wf_front = None\<rparr>, st_wait_for_state = False,
      st_state_lock = state_lock, st_state_generation = 0\<rparr>"

text \<open>
  \<^verbatim>\<open>setup\<close>, after the receiver's own \<^verbatim>\<open>setup\<close> has returned \<open>receiver\<close> with the given previous
  replicas: the coordinate and the batch mode's delay come from the execution metadata.
\<close>

definition start_setup :: "coord \<Rightarrow> nat option \<Rightarrow> 'r \<Rightarrow> coord list \<Rightarrow> ('r, 'a) start \<Rightarrow> ('r, 'a) start" where
  "start_setup coord max_delay receiver prev_replicas st =
     st\<lparr>st_receiver := receiver, st_num_previous_replicas := length prev_replicas,
        st_missing_terminate := length prev_replicas,
        st_missing_flush_and_restart := length prev_replicas,
        st_watermark_frontier := frontier_new prev_replicas,
        st_coord := Some coord, st_max_delay := max_delay\<rparr>"

text \<open>
  Receiving the next batch, the last \<^verbatim>\<open>match\<close> of the loop: it reads and writes the receiver and
  the flag \<^verbatim>\<open>already_timed_out\<close>.
\<close>

definition start_fetch :: "('r \<Rightarrow> ('a network_message \<times> 'r) res)
    \<Rightarrow> (nat \<Rightarrow> 'r \<Rightarrow> ('a network_message option \<times> 'r) res)
    \<Rightarrow> nat option \<Rightarrow> (bool \<times> 'r, 'a network_message) gen" where
  "start_fetch recv recv_timeout max_delay q =
     (case (q, max_delay) of
        ((False, rcv), Some max_delay) \<Rightarrow>
          bindR (recv_timeout max_delay rcv) (\<lambda>(r, rcv).
            case r of
              Some net_msg \<Rightarrow> ret (net_msg, (False, rcv))
            | None \<Rightarrow> ret (new_single FlushBatch default_coord, (True, rcv)))
      | ((_, rcv), _) \<Rightarrow>
          bindR (recv rcv) (\<lambda>(net_msg, rcv). ret (net_msg, (False, rcv))))"

definition start_receive :: "('r \<Rightarrow> ('a network_message \<times> 'r) res)
    \<Rightarrow> (nat \<Rightarrow> 'r \<Rightarrow> ('a network_message option \<times> 'r) res)
    \<Rightarrow> ('r, 'a) start \<Rightarrow> ('r, 'a) start res" where
  "start_receive recv recv_timeout st =
     bindR (start_fetch recv recv_timeout (st_max_delay st) (st_already_timed_out st, st_receiver st))
       (\<lambda>(net_msg, ato, rcv).
          ret (st\<lparr>st_already_timed_out := ato, st_receiver := rcv,
                  st_batch_iter := Some (nm_sender net_msg, nm_data net_msg)\<rparr>))"

text \<open>Handling one element of a batch: \<open>Inl\<close> continues the loop, \<open>Inr\<close> returns an element.\<close>

definition start_item :: "coord \<Rightarrow> 'a stream_element \<Rightarrow> ('r, 'a) start
    \<Rightarrow> (('r, 'a) start + 'a stream_element \<times> ('r, 'a) start) res" where
  "start_item sender item st =
     (case item of
        Watermark ts \<Rightarrow>
          bindR (frontier_update sender ts (st_watermark_frontier st)) (\<lambda>(r, fr).
            let st = st\<lparr>st_watermark_frontier := fr\<rparr>
            in case r of Some ts \<Rightarrow> ret (Inr (Watermark ts, st)) | None \<Rightarrow> ret (Inl st))
      | FlushAndRestart \<Rightarrow>
          bindR (frontier_update sender i64_max (st_watermark_frontier st)) (\<lambda>(_, fr).
            ret (Inl (st\<lparr>st_watermark_frontier := fr,
                         st_missing_flush_and_restart := st_missing_flush_and_restart st - 1\<rparr>)))
      | Terminate \<Rightarrow> ret (Inl (st\<lparr>st_missing_terminate := st_missing_terminate st - 1\<rparr>))
      | FlushBatch \<Rightarrow>
          if st_flushed_batch st then ret (Inl st)
          else ret (Inr (FlushBatch, st\<lparr>st_flushed_batch := True\<rparr>))
      | _ \<Rightarrow> ret (Inr (item, st\<lparr>st_flushed_batch := False\<rparr>)))"

definition start_wait :: "('r, 'a) start \<Rightarrow> ('r, 'a) start res" where
  "start_wait st =
     (if st_wait_for_state st then
        bindR (case st_state_lock st of
                 Some lock \<Rightarrow> lock (st_state_generation st)
               | None \<Rightarrow> ret ())
          (\<lambda>_. ret (st\<lparr>st_wait_for_state := False\<rparr>))
      else ret st)"

partial_function (option) start_loop :: "('r \<Rightarrow> ('a network_message \<times> 'r) res)
    \<Rightarrow> (nat \<Rightarrow> 'r \<Rightarrow> ('a network_message option \<times> 'r) res) \<Rightarrow> (('r, 'a) start, 'a) pull" where
  "start_loop recv recv_timeout st =
     (if st_missing_terminate st = 0 then ret (Terminate, st)
      else if st_missing_flush_and_restart st = 0 then
        ret (FlushAndRestart,
             st\<lparr>st_missing_flush_and_restart := st_num_previous_replicas st,
                st_watermark_frontier := frontier_reset (st_watermark_frontier st),
                st_wait_for_state := True,
                st_state_generation := st_state_generation st + 2\<rparr>)
      else
        bindR (start_wait st) (\<lambda>st.
          case st_batch_iter st of
            Some (sender, inner) \<Rightarrow>
              (case inner of
                 [] \<Rightarrow> start_loop recv recv_timeout (st\<lparr>st_batch_iter := None\<rparr>)
               | item # inner \<Rightarrow>
                   bindR (start_item sender item (st\<lparr>st_batch_iter := Some (sender, inner)\<rparr>)) (\<lambda>r.
                     case r of
                       Inl st \<Rightarrow> start_loop recv recv_timeout st
                     | Inr (e, st) \<Rightarrow> ret (e, st)))
          | None \<Rightarrow>
              bindR (start_receive recv recv_timeout st) (\<lambda>st. start_loop recv recv_timeout st)))"

definition start_next :: "('r \<Rightarrow> ('a network_message \<times> 'r) res)
    \<Rightarrow> (nat \<Rightarrow> 'r \<Rightarrow> ('a network_message option \<times> 'r) res) \<Rightarrow> (('r, 'a) start, 'a) pull" where
  "start_next recv recv_timeout st =
     bindR (unwrapR (st_coord st)) (\<lambda>_. start_loop recv recv_timeout st)"

section \<open>Arrivals\<close>

text \<open>
  What reaches \<^verbatim>\<open>Start\<close>, element by element: the rest of the open batch, then the batches the
  receiver returns. The state of this source is the open batch, the timeout flag and the receiver.
\<close>

type_synonym ('r, 'a) inbox = "(coord \<times> 'a stream_element list) option \<times> bool \<times> 'r"

partial_function (option) next_arrival :: "('r \<Rightarrow> ('a network_message \<times> 'r) res)
    \<Rightarrow> (nat \<Rightarrow> 'r \<Rightarrow> ('a network_message option \<times> 'r) res)
    \<Rightarrow> nat option \<Rightarrow> (('r, 'a) inbox, coord \<times> 'a stream_element) gen" where
  "next_arrival recv recv_timeout max_delay box =
     (case box of (bi, q) \<Rightarrow>
        case bi of
          Some (sender, e # inner) \<Rightarrow> ret ((sender, e), (Some (sender, inner), q))
        | _ \<Rightarrow> bindR (start_fetch recv recv_timeout max_delay q) (\<lambda>(m, q).
            next_arrival recv recv_timeout max_delay (Some (nm_sender m, nm_data m), q)))"

lemma next_arrival_simps:
  "next_arrival recv recv_timeout md (Some (sender, e # inner), q) = ret ((sender, e), (Some (sender, inner), q))"
  "next_arrival recv recv_timeout md (Some (sender, []), q) = next_arrival recv recv_timeout md (None, q)"
  "next_arrival recv recv_timeout md (None, q) = bindR (start_fetch recv recv_timeout md q) (\<lambda>(m, q).
     next_arrival recv recv_timeout md (Some (nm_sender m, nm_data m), q))"
  by (subst (1) next_arrival.simps, simp) (subst (1 2) next_arrival.simps, simp, subst (1) next_arrival.simps, simp)

text \<open>The messages a receiver returns are the arrivals of their elements, in order.\<close>

definition arrivals :: "'a network_message list \<Rightarrow> (coord \<times> 'a stream_element) list" where
  "arrivals ms = concat (map (\<lambda>m. map (Pair (nm_sender m)) (nm_data m)) ms)"

lemma pulls_batch:
  "pulls (next_arrival recv recv_timeout md) (Some (sender, es @ inner), q) (map (Pair sender) es)
     (Some (sender, inner), q)"
  by (induction es) (auto simp: pulls_Cons_iff next_arrival_simps)

lemma arrivals_nonempty: "ms \<noteq> [] \<Longrightarrow> nm_data (last ms) \<noteq> [] \<Longrightarrow> arrivals ms \<noteq> []"
  by (auto simp: arrivals_def intro: last_in_set)

lemma pulls_arrivals:
  assumes "pulls (start_fetch recv recv_timeout md) q ms q'" and "ms \<noteq> []" and "nm_data (last ms) \<noteq> []"
  shows "\<exists>sender. pulls (next_arrival recv recv_timeout md) (None, q) (arrivals ms) (Some (sender, []), q')"
  using assms
proof (induction ms arbitrary: q)
  case (Cons m ms)
  let ?p = "next_arrival recv recv_timeout md"
  from Cons.prems obtain q1 where m: "start_fetch recv recv_timeout md q = ret (m, q1)"
    and ms: "pulls (start_fetch recv recv_timeout md) q1 ms q'"
    by (auto simp: pulls_Cons_iff)
  then have first: "?p (None, q) = ?p (Some (nm_sender m, nm_data m), q1)"
    by (simp add: next_arrival_simps)
  have batch: "pulls ?p (Some (nm_sender m, nm_data m), q1) (map (Pair (nm_sender m)) (nm_data m))
      (Some (nm_sender m, []), q1)"
    using pulls_batch [of recv recv_timeout md "nm_sender m" "nm_data m" "[]" q1] by simp
  show ?case
  proof (cases "ms = []")
    case True
    with ms batch first Cons.prems show ?thesis
      by (auto simp: arrivals_def pulls_start_cong [of ?p "(None, q)"])
  next
    case False
    with Cons.IH [OF ms] Cons.prems obtain sender where
      rest: "pulls ?p (None, q1) (arrivals ms) (Some (sender, []), q')" by auto
    have "arrivals ms \<noteq> []" using False Cons.prems by (simp add: arrivals_nonempty)
    then have "pulls ?p (Some (nm_sender m, []), q1) (arrivals ms) (Some (sender, []), q')"
      using rest by (subst pulls_start_cong [of ?p _ "(None, q1)"]) (simp_all add: next_arrival_simps)
    with batch have "pulls ?p (Some (nm_sender m, nm_data m), q1) (arrivals (m # ms)) (Some (sender, []), q')"
      by (auto simp: arrivals_def intro: pulls_appendI)
    moreover have "arrivals (m # ms) \<noteq> []"
      using \<open>arrivals ms \<noteq> []\<close> by (simp add: arrivals_def)
    ultimately show ?thesis
      using first by (auto simp: pulls_start_cong [of ?p "(None, q)"])
  qed
qed simp

text \<open>
  The specification: what each replica has reached, the numbers of replicas still to end the
  iteration and still to terminate, and whether the last element returned was a \<^verbatim>\<open>FlushBatch\<close>.
  \<open>None\<close> when all the replicas have terminated.
\<close>

type_synonym merge_state = "((coord \<Rightarrow> timestamp option) \<times> nat \<times> nat \<times> bool) option"

fun merge_step :: "coord list \<Rightarrow> merge_state \<Rightarrow> coord \<times> 'a stream_element
    \<Rightarrow> 'a stream_element list \<times> merge_state" where
  "merge_step cs None _ = ([Terminate], None)"
| "merge_step cs (Some (reached, mf, mt, flushed)) (sender, Watermark ts) =
     (let reached' = reached(sender := opt_max (reached sender) ts)
      in (if safe_front cs reached' \<noteq> safe_front cs reached then [Watermark (the (safe_front cs reached'))] else [],
          Some (reached', mf, mt, flushed)))"
| "merge_step cs (Some (reached, mf, mt, flushed)) (sender, FlushAndRestart) =
     (if mf \<le> 1 then ([FlushAndRestart], Some (\<lambda>_. None, length cs, mt, flushed))
      else ([], Some (reached(sender := opt_max (reached sender) i64_max), mf - 1, mt, flushed)))"
| "merge_step cs (Some (reached, mf, mt, flushed)) (sender, Terminate) =
     (if mt \<le> 1 then ([Terminate], None) else ([], Some (reached, mf, mt - 1, flushed)))"
| "merge_step cs (Some (reached, mf, mt, flushed)) (sender, FlushBatch) =
     (if flushed then [] else [FlushBatch], Some (reached, mf, mt, True))"
| "merge_step cs (Some (reached, mf, mt, flushed)) (sender, e) = ([e], Some (reached, mf, mt, False))"

abbreviation merge_init :: "coord list \<Rightarrow> merge_state" where
  "merge_init cs \<equiv> Some (\<lambda>_. None, length cs, length cs, False)"

text \<open>
  Watermarks and end markers come from the replicas known at \<^verbatim>\<open>setup\<close>; the fake batch of a
  timeout only flushes.
\<close>

fun known_sender :: "coord list \<Rightarrow> coord \<times> 'a stream_element \<Rightarrow> bool" where
  "known_sender cs (sender, FlushBatch) = True"
| "known_sender cs (sender, e) = (sender \<in> set cs)"

definition checked_arrival :: "coord list \<Rightarrow> ('q, coord \<times> 'a stream_element) gen
    \<Rightarrow> ('q, coord \<times> 'a stream_element) gen" where
  "checked_arrival cs p q = (case p q of
      Some (Inr (x, q')) \<Rightarrow> if known_sender cs x then ret (x, q') else panic IndexOutOfBounds
    | r \<Rightarrow> r)"

lemma pulls_checked_arrival:
  "pulls p q xs q' \<Longrightarrow> list_all (known_sender cs) xs \<Longrightarrow> pulls (checked_arrival cs p) q xs q'"
  by (induction rule: pulls.induct) (auto simp: pulls_Cons_iff checked_arrival_def)

definition lock_returns :: "(nat \<Rightarrow> unit res) option \<Rightarrow> bool" where
  "lock_returns lock = (case lock of None \<Rightarrow> True | Some l \<Rightarrow> \<forall>g. l g = ret ())"

fun start_idle :: "coord list \<Rightarrow> nat option \<Rightarrow> ('r, 'a) start \<Rightarrow> merge_state \<Rightarrow> ('r, 'a) inbox \<Rightarrow> bool" where
  "start_idle cs md st None box = (st_missing_terminate st = 0 \<and> st_coord st \<noteq> None)"
| "start_idle cs md st (Some (reached, mf, mt, flushed)) (bi, ato, rcv) =
     (st_coord st \<noteq> None \<and> st_max_delay st = md \<and> st_receiver st = rcv \<and> st_batch_iter st = bi
      \<and> st_missing_terminate st = mt \<and> 0 < mt \<and> st_missing_flush_and_restart st = mf \<and> 0 < mf
      \<and> st_num_previous_replicas st = length cs \<and> st_flushed_batch st = flushed
      \<and> st_already_timed_out st = ato \<and> st_watermark_frontier st = frontier_of cs reached
      \<and> lock_returns (st_state_lock st))"

lemma start_wait_returns: "lock_returns (st_state_lock st) \<Longrightarrow> start_wait st = ret (st\<lparr>st_wait_for_state := False\<rparr>)"
  by (auto simp: start_wait_def lock_returns_def split: option.splits)

lemma start_loop_running:
  assumes "start_idle cs md st (Some c) box"
  shows "start_loop recv recv_timeout st = (let st = st\<lparr>st_wait_for_state := False\<rparr> in
    case st_batch_iter st of
      Some (sender, []) \<Rightarrow> start_loop recv recv_timeout (st\<lparr>st_batch_iter := None\<rparr>)
    | Some (sender, item # inner) \<Rightarrow>
        bindR (start_item sender item (st\<lparr>st_batch_iter := Some (sender, inner)\<rparr>)) (\<lambda>r.
          case r of Inl st \<Rightarrow> start_loop recv recv_timeout st | Inr (e, st) \<Rightarrow> ret (e, st))
    | None \<Rightarrow> bindR (start_receive recv recv_timeout st) (\<lambda>st. start_loop recv recv_timeout st))"
  using assms
  by (cases c; cases box; subst start_loop.simps)
    (auto simp: start_wait_returns Let_def split: option.splits list.splits)

lemma start_idle_fetch:
  assumes idle: "start_idle cs md st (Some c) (bi, q)" and "case bi of None \<Rightarrow> True | Some (_, inner) \<Rightarrow> inner = []"
    and m: "start_fetch recv recv_timeout md q = ret (m, q')"
  shows "\<exists>st1. start_loop recv recv_timeout st = start_loop recv recv_timeout st1
    \<and> start_idle cs md st1 (Some c) (Some (nm_sender m, nm_data m), q')"
proof -
  obtain ato rcv where q': "q' = (ato, rcv)" by (cases q')
  let ?st = "st\<lparr>st_wait_for_state := False, st_batch_iter := None\<rparr>"
  let ?st1 = "?st\<lparr>st_already_timed_out := ato, st_receiver := rcv,
      st_batch_iter := Some (nm_sender m, nm_data m)\<rparr>"
  have none: "start_loop recv recv_timeout st' = start_loop recv recv_timeout ?st1"
    if "start_idle cs md st' (Some c) (None, q)" and "st'\<lparr>st_wait_for_state := False\<rparr> = ?st" for st'
    using m that(1) idle q'
    by (cases c; cases q) (simp add: start_loop_running [OF that(1)] start_receive_def that(2) Let_def)
  have "start_loop recv recv_timeout st = start_loop recv recv_timeout ?st1"
  proof (cases bi)
    case None
    with idle show ?thesis by (cases c; cases q; intro none) auto
  next
    case (Some b)
    have "start_loop recv recv_timeout st = start_loop recv recv_timeout ?st"
      using idle assms(2) Some
      by (cases c; cases q; cases b) (auto simp: start_loop_running [OF idle] Let_def)
    moreover have "start_idle cs md ?st (Some c) (None, q)"
      using idle by (cases c; cases q) auto
    ultimately show ?thesis using none [of ?st] by simp
  qed
  moreover have "start_idle cs md ?st1 (Some c) (Some (nm_sender m, nm_data m), q')"
    using idle q' by (cases c; cases q) auto
  ultimately show ?thesis by blast
qed

text \<open>The loop fetches until it holds the next arrival.\<close>

lemma start_idle_arrival:
  assumes "next_arrival recv recv_timeout md box = ret ((sender, e), box')"
    and "start_idle cs md st (Some c) box"
  shows "\<exists>st1 inner q. start_loop recv recv_timeout st = start_loop recv recv_timeout st1
    \<and> start_idle cs md st1 (Some c) (Some (sender, e # inner), q) \<and> box' = (Some (sender, inner), q)"
proof -
  have "\<forall>st sender e box'. y = Inr ((sender, e), box') \<longrightarrow> start_idle cs md st (Some c) box \<longrightarrow>
      (\<exists>st1 inner q. start_loop recv recv_timeout st = start_loop recv recv_timeout st1
        \<and> start_idle cs md st1 (Some c) (Some (sender, e # inner), q) \<and> box' = (Some (sender, inner), q))"
    if "next_arrival recv recv_timeout md box = Some y" for y
    using that
  proof (induction recv recv_timeout md box y rule: next_arrival.raw_induct)
    case (1 nxt recv recv_timeout md box y)
    obtain bi q where box: "box = (bi, q)" by (cases box)
    show ?case
    proof (cases "case bi of None \<Rightarrow> True | Some (_, inner) \<Rightarrow> inner = []")
      case True
      show ?thesis
      proof (intro allI impI)
        fix st sender e box'
        assume y: "y = Inr ((sender, e), box')" and idle: "start_idle cs md st (Some c) box"
        from True box "1.hyps" y obtain m q1 where
          m: "start_fetch recv recv_timeout md q = ret (m, q1)"
          and nx: "nxt recv recv_timeout md (Some (nm_sender m, nm_data m), q1) = Some y"
          by (auto split: option.splits list.splits simp: bindR_eq_ret)
        from start_idle_fetch [OF idle [unfolded box] True m] obtain st2 where
          "start_loop recv recv_timeout st = start_loop recv recv_timeout st2"
          and "start_idle cs md st2 (Some c) (Some (nm_sender m, nm_data m), q1)" by blast
        moreover have "next_arrival recv recv_timeout md (Some (nm_sender m, nm_data m), q1) = Some y"
          using "1.prems" box True m by (cases bi) (auto simp: next_arrival_simps)
        ultimately show "\<exists>st1 inner q. start_loop recv recv_timeout st = start_loop recv recv_timeout st1
            \<and> start_idle cs md st1 (Some c) (Some (sender, e # inner), q) \<and> box' = (Some (sender, inner), q)"
          using "1.IH" [OF nx] y by (cases box') fastforce
      qed
    next
      case False
      with "1.hyps" box show ?thesis
        by (auto split: option.splits list.splits)
    qed
  qed (rule that)
  with assms show ?thesis by blast
qed

text \<open>
  One arrival: silent when it is absorbed (an old watermark, a repeated flush, an end marker of
  some but not all replicas), otherwise the element it is answered with.
\<close>

lemma start_loop_arrival:
  assumes cs: "distinct cs" "cs \<noteq> []" and known: "known_sender cs (sender, e)"
    and idle: "start_idle cs md st (Some c) (Some (sender, e # inner), q)"
    and step: "merge_step cs (Some c) (sender, e) = (out, c')"
  shows "case out of
      [] \<Rightarrow> \<exists>st1. start_loop recv recv_timeout st = start_loop recv recv_timeout st1
        \<and> start_idle cs md st1 c' (Some (sender, inner), q)
    | [y] \<Rightarrow> \<exists>st1. start_loop recv recv_timeout st = ret (y, st1)
        \<and> start_idle cs md st1 c' (Some (sender, inner), q)
    | _ \<Rightarrow> False"
proof -
  obtain reached mf mt flushed where c: "c = (reached, mf, mt, flushed)" by (cases c) auto
  obtain ato rcv where q: "q = (ato, rcv)" by (cases q)
  note loop = start_loop_running [OF idle, of recv recv_timeout]
  let ?st = "st\<lparr>st_wait_for_state := False, st_batch_iter := Some (sender, inner)\<rparr>"
  have item: "start_loop recv recv_timeout st = bindR (start_item sender e ?st) (\<lambda>r.
      case r of Inl st \<Rightarrow> start_loop recv recv_timeout st | Inr (e, st) \<Rightarrow> ret (e, st))"
    using idle c q by (simp add: loop Let_def)
  have front: "st_watermark_frontier st = frontier_of cs reached" using idle c q by simp
  show ?thesis
  proof (cases e)
    case (Watermark ts)
    with known have "sender \<in> set cs" by simp
    from frontier_update_of [OF cs(1) this, of ts reached] show ?thesis
      using idle step c q Watermark safe_front_advance(1) [OF refl, of cs reached sender ts]
      by (auto simp: item start_item_def front Let_def split: option.splits if_splits)
  next
    case FlushAndRestart
    with known have "sender \<in> set cs" by simp
    from frontier_update_of [OF cs(1) this, of i64_max reached] have
      far: "start_item sender e ?st = ret (Inl (?st\<lparr>
        st_watermark_frontier := frontier_of cs (reached(sender := opt_max (reached sender) i64_max)),
        st_missing_flush_and_restart := mf - 1\<rparr>))" (is "_ = ret (Inl ?far)")
      using idle c q FlushAndRestart by (simp add: start_item_def front Let_def)
    have loop_far: "start_loop recv recv_timeout st = start_loop recv recv_timeout ?far"
      unfolding item far by simp
    show ?thesis
    proof (cases "mf \<le> 1")
      case True
      have "start_loop recv recv_timeout ?far = ret (FlushAndRestart,
          ?far\<lparr>st_missing_flush_and_restart := length cs,
               st_watermark_frontier := frontier_of cs (\<lambda>_. None), st_wait_for_state := True,
               st_state_generation := st_state_generation ?far + 2\<rparr>)"
        using idle c q True by (subst start_loop.simps) (simp add: frontier_reset_of)
      with True idle step c q FlushAndRestart cs loop_far show ?thesis by auto
    next
      case False
      then have "start_idle cs md ?far c' (Some (sender, inner), q)" and "out = []"
        using idle step c q FlushAndRestart by auto
      with loop_far show ?thesis by auto
    qed
  next
    case Terminate
    let ?last = "?st\<lparr>st_missing_terminate := mt - 1\<rparr>"
    have "start_loop recv recv_timeout st = start_loop recv recv_timeout ?last"
      using idle c q Terminate by (simp add: item start_item_def)
    moreover have "start_loop recv recv_timeout ?last = ret (Terminate, ?last)" if "mt \<le> 1"
      using that by (subst start_loop.simps) simp
    ultimately show ?thesis
      using idle step c q Terminate by (auto split: if_splits)
  qed (use idle step c q in \<open>auto simp: item start_item_def split: if_splits\<close>)
qed

lemma start_next_idle:
  "start_idle cs md st c box \<Longrightarrow> start_next recv recv_timeout st = start_loop recv recv_timeout st"
  by (cases c; cases box) (auto simp: start_next_def)

lemma start_transducer:
  fixes recv :: "'r \<Rightarrow> ('a network_message \<times> 'r) res"
  assumes cs: "distinct cs" "cs \<noteq> []"
  shows "transducer (checked_arrival cs (next_arrival recv recv_timeout md))
    (start_next recv recv_timeout) (start_idle cs md) (merge_step cs)"
proof
  fix st :: "('r, 'a) start" and c box x box1 c'
  assume idle: "start_idle cs md st c box" and step: "merge_step cs c x = ([], c')"
    and x: "checked_arrival cs (next_arrival recv recv_timeout md) box = ret (x, box1)"
  obtain sender e where xe: "x = (sender, e)" by (cases x)
  from step obtain c0 where c: "c = Some c0" by (cases c) auto
  from x xe have known: "known_sender cs (sender, e)"
    and arr: "next_arrival recv recv_timeout md box = ret ((sender, e), box1)"
    by (auto simp: checked_arrival_def split: option.splits sum.splits if_splits)
  from start_idle_arrival [OF arr idle [unfolded c]] obtain st1 inner q where
    st1: "start_loop recv recv_timeout st = start_loop recv recv_timeout st1"
    "start_idle cs md st1 (Some c0) (Some (sender, e # inner), q)" "box1 = (Some (sender, inner), q)"
    by blast
  from start_loop_arrival [OF cs known st1(2) step [unfolded c xe], of recv recv_timeout] st1(1,3)
  show "\<exists>st1. start_next recv recv_timeout st = start_next recv recv_timeout st1 \<and> start_idle cs md st1 c' box1"
    by (simp add: start_next_idle [OF idle]) (metis start_next_idle)
next
  fix st :: "('r, 'a) start" and c box x box1 y ys c'
  assume idle: "start_idle cs md st c box" and step: "merge_step cs c x = (y # ys, c')"
    and x: "checked_arrival cs (next_arrival recv recv_timeout md) box = ret (x, box1)"
  show "\<exists>st1. pulls (start_next recv recv_timeout) st (y # ys) st1 \<and> start_idle cs md st1 c' box1"
  proof (cases c)
    case None
    then have "start_loop recv recv_timeout st = ret (Terminate, st)"
      using idle by (subst start_loop.simps) simp
    with None idle step show ?thesis by (auto simp: start_next_idle [OF idle])
  next
    case (Some c0)
    obtain sender e where xe: "x = (sender, e)" by (cases x)
    from x xe have known: "known_sender cs (sender, e)"
      and arr: "next_arrival recv recv_timeout md box = ret ((sender, e), box1)"
      by (auto simp: checked_arrival_def split: option.splits sum.splits if_splits)
    from start_idle_arrival [OF arr idle [unfolded Some]] obtain st1 inner q where
      st1: "start_loop recv recv_timeout st = start_loop recv recv_timeout st1"
      "start_idle cs md st1 (Some c0) (Some (sender, e # inner), q)" "box1 = (Some (sender, inner), q)"
      by blast
    from start_loop_arrival [OF cs known st1(2) step [unfolded Some xe], of recv recv_timeout] st1(1,3)
    show ?thesis by (auto simp: start_next_idle [OF idle] split: list.splits)
  qed
qed

section \<open>Merging an iteration\<close>

definition from_sender :: "coord \<Rightarrow> (coord \<times> 'a stream_element) list \<Rightarrow> 'a stream_element list" where
  "from_sender c xs = map snd (filter (\<lambda>(s, e). s = c \<and> e \<noteq> FlushBatch) xs)"

abbreviation payload :: "'a stream_element list \<Rightarrow> 'a stream_element list" where
  "payload es \<equiv> filter (\<lambda>e. elem_value e \<noteq> None) es"

text \<open>
  What may still come from a replica in the current iteration: data that keeps its own watermark
  promise and then the end marker, possibly followed by its \<^verbatim>\<open>Terminate\<close>; or only the latter;
  or nothing.
\<close>

definition sender_rest :: "timestamp option \<Rightarrow> 'a stream_element list \<Rightarrow> bool" where
  "sender_rest m d \<longleftrightarrow> d = [] \<or> d = [Terminate] \<or>
     (\<exists>body tl. d = body @ FlushAndRestart # tl \<and> (tl = [] \<or> tl = [Terminate]) \<and> data_only body \<and> wm_from m body)"

lemma from_sender_simps [simp]:
  "from_sender c [] = []"
  "from_sender c ((s, e) # xs) = (if s = c \<and> e \<noteq> FlushBatch then e # from_sender c xs else from_sender c xs)"
  "from_sender c (xs @ ys) = from_sender c xs @ from_sender c ys"
  by (auto simp: from_sender_def)

lemma sender_rest_FlushAndRestart:
  "sender_rest m (FlushAndRestart # d) \<longleftrightarrow> d = [] \<or> d = [Terminate]"
  by (auto simp: sender_rest_def Cons_eq_append_conv)

lemma sender_rest_Terminate: "sender_rest m (Terminate # d) \<longleftrightarrow> d = []"
  by (auto simp: sender_rest_def Cons_eq_append_conv)

lemma sender_rest_data:
  assumes "\<not> is_marker e" and "sender_rest m (e # d)"
  shows "FlushAndRestart \<in> set d" and "wm_from m [e]"
    and "sender_rest (case e of Watermark w \<Rightarrow> Some w | _ \<Rightarrow> m) d"
proof -
  from assms obtain body tl where b: "e # d = body @ FlushAndRestart # tl" "tl = [] \<or> tl = [Terminate]"
    "data_only body" "wm_from m body"
    by (auto simp: sender_rest_def)
  with assms(1) obtain body' where body: "body = e # body'" "d = body' @ FlushAndRestart # tl"
    by (auto simp: Cons_eq_append_conv)
  with b show "FlushAndRestart \<in> set d" by auto
  from b body show "wm_from m [e]" by (cases e) auto
  from b body assms(1) show "sender_rest (case e of Watermark w \<Rightarrow> Some w | _ \<Rightarrow> m) d"
    unfolding sender_rest_def by (cases e) auto
qed

definition running :: "coord list \<Rightarrow> (coord \<times> 'a stream_element) list \<Rightarrow> coord set" where
  "running cs xs = {c \<in> set cs. FlushAndRestart \<in> set (from_sender c xs)}"

definition terminates :: "(coord \<times> 'a stream_element) list \<Rightarrow> nat" where
  "terminates xs = length (filter (\<lambda>x. snd x = Terminate) xs)"

lemma terminates_simps [simp]:
  "terminates [] = 0"
  "terminates ((s, e) # xs) = (if e = Terminate then Suc (terminates xs) else terminates xs)"
  "terminates (xs @ ys) = terminates xs + terminates ys"
  by (auto simp: terminates_def)

lemma running_finite [simp]: "finite (running cs xs)"
  by (simp add: running_def)

text \<open>The last watermark returned never exceeds the frontier.\<close>

definition below_front :: "timestamp option \<Rightarrow> timestamp option \<Rightarrow> bool" where
  "below_front m f = (case m of None \<Rightarrow> True | Some m \<Rightarrow> (case f of None \<Rightarrow> False | Some f \<Rightarrow> m \<le> f))"

lemma below_front_above:
  assumes "below_front m (safe_front cs reached)" and "c \<in> set cs" and "above (reached c) t"
  shows "above m t"
proof (cases m)
  case (Some w)
  with assms(1) obtain f where f: "safe_front cs reached = Some f" and "w \<le> f"
    by (auto simp: below_front_def split: option.splits)
  moreover from safe_front_le [OF f assms(2)] obtain u where "reached c = Some u" and "f \<le> u" by blast
  ultimately show ?thesis using Some assms(3) by simp
qed simp

lemma below_front_advance:
  assumes "below_front m (safe_front cs reached)"
  shows "below_front m (safe_front cs (reached(c := opt_max (reached c) t)))"
proof (cases m)
  case (Some w)
  with assms obtain f where f: "safe_front cs reached = Some f" and "w \<le> f"
    by (auto simp: below_front_def split: option.splits)
  with safe_front_advance(2) [OF refl f, of c t] Some show ?thesis
    by (auto simp: below_front_def)
qed (simp add: below_front_def)

lemma below_front_strict:
  assumes "below_front m (safe_front cs reached)" and "r' = reached(c := opt_max (reached c) t)"
    and "safe_front cs r' \<noteq> safe_front cs reached"
  shows "above m (the (safe_front cs r'))" and "safe_front cs r' \<noteq> None"
proof -
  show "safe_front cs r' \<noteq> None"
    using assms safe_front_advance(1) [OF assms(2), of cs] by metis
  show "above m (the (safe_front cs r'))"
  proof (cases m)
    case (Some w)
    with assms(1) obtain f where f: "safe_front cs reached = Some f" and "w \<le> f"
      by (auto simp: below_front_def split: option.splits)
    with safe_front_advance(2) [OF assms(2) f] assms(3) Some show ?thesis by force
  qed simp
qed

lemma running_skip: "e \<noteq> FlushAndRestart \<Longrightarrow> running cs ((s, e) # xs) = running cs xs"
  by (auto simp: running_def split: if_splits)

lemma running_end:
  assumes "s \<in> set cs" and "sender_rest m (from_sender s ((s, FlushAndRestart) # xs))"
  shows "running cs ((s, FlushAndRestart) # xs) = insert s (running cs xs)" and "s \<notin> running cs xs"
  using assms by (auto simp: running_def sender_rest_FlushAndRestart)

lemma running_last:
  assumes "list_all (known_sender cs) xs" and "xs \<noteq> []" and "snd (last xs) = FlushAndRestart"
  shows "running cs xs \<noteq> {}"
proof -
  obtain s where s: "last xs = (s, FlushAndRestart)"
    using assms(3) by (cases "last xs") auto
  then have last: "(s, FlushAndRestart) \<in> set xs"
    using last_in_set [OF assms(2)] by simp
  with assms(1) have "s \<in> set cs"
    by (auto simp: list_all_iff)
  moreover from last have "FlushAndRestart \<in> set (from_sender s xs)"
    by (force simp: from_sender_def)
  ultimately show ?thesis by (auto simp: running_def)
qed

text \<open>What the merged iteration promises.\<close>

definition merged_iteration :: "timestamp option \<Rightarrow> (coord \<times> 'a stream_element) list \<Rightarrow> 'a stream_element list \<Rightarrow> bool" where
  "merged_iteration m xs out \<longleftrightarrow> data_only out \<and> wm_from m out \<and> payload out = payload (map snd xs)"

lemma merged_iteration_Cons:
  assumes "merged_iteration m' xs out" and "payload ys = payload [e]" and "data_only ys"
    and "\<And>zs. wm_from m' zs \<Longrightarrow> wm_from m (ys @ zs)"
  shows "merged_iteration m ((s, e) # xs) (ys @ out)"
  using assms by (simp add: merged_iteration_def)

lemma merge_iteration:
  assumes "list_all (known_sender cs) xs" and "\<forall>c \<in> set cs. sender_rest (reached c) (from_sender c xs)"
    and "mf = card (running cs xs)" and "xs \<noteq> []" and "snd (last xs) = FlushAndRestart"
    and "terminates xs < mt" and "below_front m (safe_front cs reached)"
  shows "\<exists>out fl'. transduce (merge_step cs) (Some (reached, mf, mt, fl)) xs = out @ [FlushAndRestart]
    \<and> transduce_state (merge_step cs) (Some (reached, mf, mt, fl)) xs = Some (\<lambda>_. None, length cs, mt - terminates xs, fl')
    \<and> merged_iteration m xs out"
  using assms
proof (induction xs arbitrary: reached mf mt fl m)
  case (Cons x xs)
  obtain s e where x: "x = (s, e)" by (cases x)
  have more: "xs \<noteq> [] \<and> snd (last xs) = FlushAndRestart" if "e \<noteq> FlushAndRestart"
    using Cons.prems(5) x that by (cases xs) auto
  have rest: "\<forall>c \<in> set cs. sender_rest (reached' c) (from_sender c xs)"
    if "reached' s = (case e of Watermark w \<Rightarrow> Some w | _ \<Rightarrow> reached s)" and "\<And>c. c \<noteq> s \<Longrightarrow> reached' c = reached c"
      and "\<not> is_marker e" and "e \<noteq> FlushBatch" for reached'
  proof
    fix c
    assume "c \<in> set cs"
    then show "sender_rest (reached' c) (from_sender c xs)"
      using bspec [OF Cons.prems(2) \<open>c \<in> set cs\<close>] x that
        sender_rest_data(3) [of e "reached s" "from_sender s xs"]
      by (cases "c = s") (auto split: if_splits)
  qed
  have known: "s \<in> set cs" if "e \<noteq> FlushBatch"
    using Cons.prems(1) x that by (cases e) auto
  have here: "sender_rest (reached s) (e # from_sender s xs)" if "e \<noteq> FlushBatch"
    using bspec [OF Cons.prems(2) known [OF that]] x that by simp
  have goal: ?case
    if step: "merge_step cs (Some (reached, mf, mt, fl)) (s, e) = (ys, Some (reached', mf', mt', fl'))"
      and cont: "\<forall>c \<in> set cs. sender_rest (reached' c) (from_sender c xs)" "mf' = card (running cs xs)"
        "xs \<noteq> []" "snd (last xs) = FlushAndRestart" "terminates xs < mt'" "below_front m' (safe_front cs reached')"
      and mt: "mt' - terminates xs = mt - terminates (x # xs)"
      and ys: "payload ys = payload [e]" "data_only ys" "\<And>zs. wm_from m' zs \<Longrightarrow> wm_from m (ys @ zs)"
    for ys reached' mf' mt' fl' m'
  proof -
    from Cons.prems(1) have "list_all (known_sender cs) xs" by simp
    from Cons.IH [OF this cont] obtain out fl'' where
      out: "transduce (merge_step cs) (Some (reached', mf', mt', fl')) xs = out @ [FlushAndRestart]"
      "transduce_state (merge_step cs) (Some (reached', mf', mt', fl')) xs = Some (\<lambda>_. None, length cs, mt' - terminates xs, fl'')"
      "merged_iteration m' xs out" by blast
    from merged_iteration_Cons [OF out(3) ys, of s] out(1,2) step x mt show ?thesis
      by (intro exI [of _ "ys @ out"] exI [of _ fl'']) simp
  qed
  show ?case
  proof (cases e)
    case (Item a)
    from here Item have "wm_from (reached s) [e]" and "FlushAndRestart \<in> set (from_sender s xs)"
      using sender_rest_data [of e "reached s" "from_sender s xs"] by auto
    show ?thesis
      using Cons.prems x Item more rest [of reached]
      by (intro goal [of "[e]" reached mf mt False m]) (auto simp: running_skip)
  next
    case (Timestamped a t)
    from here Timestamped have "above (reached s) t"
      using sender_rest_data(2) [of e "reached s" "from_sender s xs"] by auto
    then have "above m t"
      using below_front_above [OF Cons.prems(7)] known Timestamped by simp
    then show ?thesis
      using Cons.prems x Timestamped more rest [of reached]
      by (intro goal [of "[e]" reached mf mt False m]) (auto simp: running_skip)
  next
    case (Watermark w)
    let ?r = "reached(s := opt_max (reached s) w)"
    from here Watermark have "above (reached s) w"
      using sender_rest_data(2) [of e "reached s" "from_sender s xs"] by auto
    then have r: "?r s = Some w" by (cases "reached s") auto
    let ?m = "if safe_front cs ?r \<noteq> safe_front cs reached then safe_front cs ?r else m"
      and ?ys = "if safe_front cs ?r \<noteq> safe_front cs reached then [Watermark (the (safe_front cs ?r))] else []"
    have below: "below_front ?m (safe_front cs ?r)"
      using below_front_advance [OF Cons.prems(7), of s w]
      by (auto simp: below_front_def split: option.splits)
    have "wm_from ?m zs \<Longrightarrow> wm_from m (?ys @ zs)" for zs :: "'a stream_element list"
      using below_front_strict [OF Cons.prems(7) refl, of s w] by auto
    then show ?thesis
      using Cons.prems x Watermark more rest [of ?r] r below
      by (intro goal [of ?ys ?r mf mt fl ?m]) (auto simp: running_skip Let_def)
  next
    case FlushBatch
    then show ?thesis
      using Cons.prems x more
      by (intro goal [of "if fl then [] else [FlushBatch]" reached mf mt True m]) (auto simp: running_skip)
  next
    case Terminate
    with here have "from_sender s xs = []" by (simp add: sender_rest_Terminate)
    then have "sender_rest (reached c) (from_sender c xs)" if "c \<in> set cs" for c
      using bspec [OF Cons.prems(2) that] x Terminate
      by (cases "c = s") (auto simp: sender_rest_def split: if_splits)
    then show ?thesis
      using Cons.prems x Terminate more
      by (intro goal [of "[]" reached mf "mt - 1" fl m]) (auto simp: running_skip)
  next
    case FlushAndRestart
    with here have own: "from_sender s xs = [] \<or> from_sender s xs = [Terminate]"
      by (simp add: sender_rest_FlushAndRestart)
    let ?r = "reached(s := opt_max (reached s) i64_max)"
    have rest': "sender_rest (?r c) (from_sender c xs)" if "c \<in> set cs" for c
    proof (cases "c = s")
      case True
      with own show ?thesis by (auto simp: sender_rest_def)
    next
      case False
      with bspec [OF Cons.prems(2) that] x show ?thesis by simp
    qed
    have run: "running cs (x # xs) = insert s (running cs xs)" "s \<notin> running cs xs"
      using running_end [of s cs "reached s" xs] known here x FlushAndRestart by auto
    show ?thesis
    proof (cases "running cs xs = {}")
      case True
      then have "xs = []"
        using running_last [of cs xs] Cons.prems(1,5) x by (cases "xs = []") auto
      with Cons.prems True x FlushAndRestart run show ?thesis
        by (auto simp: merged_iteration_def)
    next
      case False
      then have "card (running cs xs) \<noteq> 0" by simp
      moreover from False have "xs \<noteq> []" by (auto simp: running_def)
      ultimately show ?thesis
        using Cons.prems x FlushAndRestart run rest' below_front_advance [OF Cons.prems(7), of s i64_max]
        by (intro goal [of "[]" ?r "card (running cs xs)" mt fl m]) auto
    qed
  qed
qed simp

text \<open>After the last iteration only the \<^verbatim>\<open>Terminate\<close>s are left, and possibly timeouts.\<close>

lemma merge_closing:
  assumes "\<forall>x \<in> set xs. snd x = Terminate \<or> snd x = FlushBatch" and "xs \<noteq> []" and "snd (last xs) = Terminate"
    and "terminates xs = mt"
  shows "\<exists>fb. transduce (merge_step cs) (Some (reached, mf, mt, fl)) xs = fb @ [Terminate] \<and> set fb \<subseteq> {FlushBatch}
    \<and> ((\<forall>x \<in> set xs. snd x = Terminate) \<longrightarrow> fb = [])"
  using assms
proof (induction xs arbitrary: mt fl)
  case (Cons x xs)
  obtain s e where x: "x = (s, e)" by (cases x)
  show ?case
  proof (cases "xs = []")
    case True
    with Cons.prems x show ?thesis by auto
  next
    case False
    then have "Suc 0 \<le> terminates xs"
      using Cons.prems(3) last_in_set [OF False] by (simp add: terminates_def Suc_le_eq filter_empty_conv) (metis False last_in_set)
    moreover from Cons.prems x have "e = Terminate \<or> e = FlushBatch" by simp
    ultimately show ?thesis
      using Cons.IH [of "terminates xs" fl] Cons.IH [of "terminates xs" True] Cons.prems False x
      by (cases fl) (force simp: subset_iff)+
  qed
qed simp

text \<open>
  The protocol of the previous replicas: in each iteration every replica sends data that keeps
  its watermark promise and one end marker; in the last one it also terminates. The receiver may
  interleave them in any way, with timeouts in between.
\<close>

definition iteration_input :: "coord list \<Rightarrow> (coord \<times> 'a stream_element) list \<Rightarrow> bool" where
  "iteration_input cs xs \<longleftrightarrow> list_all (known_sender cs) xs \<and> xs \<noteq> [] \<and> snd (last xs) = FlushAndRestart
     \<and> list_all (\<lambda>c. let d = from_sender c xs in
         d \<noteq> [] \<and> last d = FlushAndRestart \<and> data_only (butlast d) \<and> respects_watermarks (butlast d)) cs"

definition final_input :: "coord list \<Rightarrow> (coord \<times> 'a stream_element) list \<Rightarrow> (coord \<times> 'a stream_element) list \<Rightarrow> bool" where
  "final_input cs xs closing \<longleftrightarrow> list_all (known_sender cs) (xs @ closing) \<and> xs \<noteq> [] \<and> snd (last xs) = FlushAndRestart
     \<and> closing \<noteq> [] \<and> snd (last closing) = Terminate
     \<and> list_all (\<lambda>x. snd x = Terminate \<or> snd x = FlushBatch) closing
     \<and> list_all (\<lambda>c. let d = from_sender c (xs @ closing) in
         d \<noteq> [] \<and> last d = Terminate \<and> butlast d \<noteq> [] \<and> last (butlast d) = FlushAndRestart
         \<and> data_only (butlast (butlast d)) \<and> respects_watermarks (butlast (butlast d))) cs"

lemma iteration_input_rest:
  assumes "iteration_input cs xs" and "c \<in> set cs"
  shows "sender_rest None (from_sender c xs)" and "FlushAndRestart \<in> set (from_sender c xs)"
    and "Terminate \<notin> set (from_sender c xs)"
proof -
  let ?d = "from_sender c xs"
  from assms have d: "?d \<noteq> []" "last ?d = FlushAndRestart" "data_only (butlast ?d)" "respects_watermarks (butlast ?d)"
    by (auto simp: iteration_input_def list_all_iff Let_def)
  then have split: "?d = butlast ?d @ [FlushAndRestart]"
    by (metis append_butlast_last_id)
  with d show "sender_rest None ?d"
    unfolding sender_rest_def respects_watermarks_def by blast
  from split show "FlushAndRestart \<in> set ?d" by (metis in_set_conv_decomp)
  from d(3) have "Terminate \<notin> set (butlast ?d)" by (auto simp: data_only_def list_all_iff)
  then show "Terminate \<notin> set ?d"
    by (subst split) simp
qed

lemma terminates_sum:
  assumes "distinct cs" and "list_all (known_sender cs) xs"
  shows "terminates xs = (\<Sum>c \<in> set cs. length (filter (\<lambda>e. e = Terminate) (from_sender c xs)))"
  using assms(2)
proof (induction xs)
  case (Cons x xs)
  obtain s e where x: "x = (s, e)" by (cases x)
  show ?case
  proof (cases "e = Terminate")
    case True
    with Cons.prems x have "s \<in> set cs" by simp
    have "(\<Sum>c \<in> set cs. length (filter (\<lambda>e. e = Terminate) (from_sender c ((s, Terminate) # xs)))) =
        (\<Sum>c \<in> set cs. (if c = s then 1 else 0) + length (filter (\<lambda>e. e = Terminate) (from_sender c xs)))"
      by (rule sum.cong) auto
    also have "\<dots> = 1 + (\<Sum>c \<in> set cs. length (filter (\<lambda>e. e = Terminate) (from_sender c xs)))"
      using \<open>s \<in> set cs\<close> by (simp add: sum.distrib)
    finally show ?thesis using True Cons x by simp
  next
    case False
    have "(\<Sum>c \<in> set cs. length (filter (\<lambda>e. e = Terminate) (from_sender c ((s, e) # xs)))) =
        (\<Sum>c \<in> set cs. length (filter (\<lambda>e. e = Terminate) (from_sender c xs)))"
      using False by (intro sum.cong) auto
    with False Cons x show ?thesis by simp
  qed
qed simp

lemma append_replicate_split:
  assumes "xs @ replicate n t = ys @ [u, t]" and "u \<noteq> t"
  shows "xs = ys @ [u, t] \<or> xs = ys @ [u]"
proof (cases n)
  case (Suc k)
  have "replicate (Suc k) t = replicate k t @ [t]" by (simp add: replicate_append_same)
  with assms(1) Suc have eq: "xs @ replicate k t = ys @ [u]"
    by (metis append.assoc append_Cons append_Nil append_same_eq)
  show ?thesis
  proof (cases k)
    case (Suc j)
    then have "last (xs @ replicate k t) = t" by simp
    with eq assms(2) show ?thesis by simp
  qed (use eq in simp)
qed (use assms in simp)

lemma final_input_rest:
  assumes "final_input cs xs closing" and "c \<in> set cs"
  shows "sender_rest None (from_sender c xs)" and "FlushAndRestart \<in> set (from_sender c xs)"
    and "length (filter (\<lambda>e. e = Terminate) (from_sender c (xs @ closing))) = 1"
proof -
  let ?d = "from_sender c (xs @ closing)"
  let ?body = "butlast (butlast ?d)"
  from assms have d: "?d \<noteq> []" "last ?d = Terminate" "butlast ?d \<noteq> []" "last (butlast ?d) = FlushAndRestart"
    "data_only ?body" "respects_watermarks ?body"
    by (auto simp: final_input_def list_all_iff Let_def)
  then have split: "?d = ?body @ [FlushAndRestart, Terminate]"
    by (metis append.assoc append_Cons append_Nil append_butlast_last_id)
  have "e = Terminate" if "e \<in> set (from_sender c closing)" for e
    using that assms(1) by (auto simp: final_input_def from_sender_def list_all_iff)
  then obtain n where n: "from_sender c closing = replicate n Terminate"
    by (metis replicate_length_same)
  have body: "Terminate \<notin> set ?body" using d(5) by (auto simp: data_only_def list_all_iff)
  have cases: "from_sender c xs = ?body @ [FlushAndRestart, Terminate] \<or> from_sender c xs = ?body @ [FlushAndRestart]"
    using split n by (intro append_replicate_split [of _ n]) simp_all
  with d(5,6) show "sender_rest None (from_sender c xs)"
    unfolding sender_rest_def respects_watermarks_def by blast
  from cases show "FlushAndRestart \<in> set (from_sender c xs)"
    by (metis in_set_conv_decomp append_Cons append_Nil)
  have "filter (\<lambda>e. e = Terminate) ?d = [Terminate]"
    using body by (subst split) (auto simp: filter_empty_conv)
  then show "length (filter (\<lambda>e. e = Terminate) ?d) = 1" by simp
qed

lemma card_running:
  assumes "distinct cs" and "\<And>c. c \<in> set cs \<Longrightarrow> FlushAndRestart \<in> set (from_sender c xs)"
  shows "card (running cs xs) = length cs"
proof -
  have "running cs xs = set cs" using assms(2) by (auto simp: running_def)
  with assms(1) show ?thesis by (simp add: distinct_card)
qed

text \<open>A whole run: any number of iterations, the last one with its termination.\<close>

lemma merge_iterations:
  assumes cs: "distinct cs" "cs \<noteq> []" and "\<forall>r \<in> set rs. iteration_input cs r"
  shows "\<exists>outs fl'. transduce (merge_step cs) (Some (\<lambda>_. None, length cs, length cs, fl)) (concat rs)
      = concat (map (\<lambda>out. out @ [FlushAndRestart]) outs)
    \<and> transduce_state (merge_step cs) (Some (\<lambda>_. None, length cs, length cs, fl)) (concat rs)
      = Some (\<lambda>_. None, length cs, length cs, fl')
    \<and> list_all2 (merged_iteration None) rs outs"
  using assms(3)
proof (induction rs arbitrary: fl)
  case (Cons r rs)
  then have r: "iteration_input cs r" by simp
  have "terminates r = 0"
    using terminates_sum [OF cs(1), of r] r iteration_input_rest(3) [OF r]
    by (auto simp: iteration_input_def filter_empty_conv)
  moreover have "below_front None (safe_front cs (\<lambda>_. None))" by (simp add: below_front_def)
  ultimately obtain out fl1 where
    out: "transduce (merge_step cs) (Some (\<lambda>_. None, length cs, length cs, fl)) r = out @ [FlushAndRestart]"
    "transduce_state (merge_step cs) (Some (\<lambda>_. None, length cs, length cs, fl)) r = Some (\<lambda>_. None, length cs, length cs, fl1)"
    "merged_iteration None r out"
    using merge_iteration [of cs r "\<lambda>_. None" "length cs" "length cs" None fl] r cs
      iteration_input_rest(1,2) [OF r] card_running [OF cs(1), of r]
    by (auto simp: iteration_input_def)
  from Cons.IH [of fl1] Cons.prems obtain outs fl' where
    "transduce (merge_step cs) (Some (\<lambda>_. None, length cs, length cs, fl1)) (concat rs) = concat (map (\<lambda>out. out @ [FlushAndRestart]) outs)"
    "transduce_state (merge_step cs) (Some (\<lambda>_. None, length cs, length cs, fl1)) (concat rs) = Some (\<lambda>_. None, length cs, length cs, fl')"
    "list_all2 (merged_iteration None) rs outs"
    by auto
  with out show ?case
    by (intro exI [of _ "out # outs"] exI [of _ fl']) (simp add: transduce_append)
qed simp

lemma merge_run:
  assumes cs: "distinct cs" "cs \<noteq> []" and rs: "\<forall>r \<in> set rs. iteration_input cs r"
    and fin: "final_input cs r closing"
  shows "\<exists>outs fb. transduce (merge_step cs) (merge_init cs) (concat (rs @ [r]) @ closing)
      = concat (map (\<lambda>out. out @ [FlushAndRestart]) outs) @ fb @ [Terminate]
    \<and> list_all2 (merged_iteration None) (rs @ [r]) outs
    \<and> set fb \<subseteq> {FlushBatch} \<and> ((\<forall>x \<in> set closing. snd x = Terminate) \<longrightarrow> fb = [])"
proof -
  from merge_iterations [OF cs rs, of False] obtain outs fl where
    outs: "transduce (merge_step cs) (merge_init cs) (concat rs) = concat (map (\<lambda>out. out @ [FlushAndRestart]) outs)"
    "transduce_state (merge_step cs) (merge_init cs) (concat rs) = Some (\<lambda>_. None, length cs, length cs, fl)"
    "list_all2 (merged_iteration None) rs outs" by blast
  have "terminates (r @ closing) = (\<Sum>c \<in> set cs. 1)"
    using terminates_sum [OF cs(1), of "r @ closing"] fin final_input_rest(3) [OF fin]
    by (simp add: final_input_def)
  then have total: "terminates r + terminates closing = length cs"
    using cs(1) by (simp add: distinct_card)
  have "terminates closing \<noteq> 0"
    using fin last_in_set [of closing] by (auto simp: final_input_def terminates_def filter_empty_conv)
  with total have less: "terminates r < length cs" and rest: "terminates closing = length cs - terminates r"
    by simp_all
  have "below_front None (safe_front cs (\<lambda>_. None))" by (simp add: below_front_def)
  with less obtain out fl1 where
    out: "transduce (merge_step cs) (Some (\<lambda>_. None, length cs, length cs, fl)) r = out @ [FlushAndRestart]"
    "transduce_state (merge_step cs) (Some (\<lambda>_. None, length cs, length cs, fl)) r
      = Some (\<lambda>_. None, length cs, length cs - terminates r, fl1)"
    "merged_iteration None r out"
    using merge_iteration [of cs r "\<lambda>_. None" "length cs" "length cs" None fl] fin
      final_input_rest(1,2) [OF fin] card_running [OF cs(1), of r]
    by (auto simp: final_input_def)
  moreover from merge_closing [of closing "length cs - terminates r" cs "\<lambda>_. None" "length cs" fl1] fin rest
  obtain fb where "transduce (merge_step cs) (Some (\<lambda>_. None, length cs, length cs - terminates r, fl1)) closing = fb @ [Terminate]"
    "set fb \<subseteq> {FlushBatch}" "(\<forall>x \<in> set closing. snd x = Terminate) \<longrightarrow> fb = []"
    by (auto simp: final_input_def list_all_iff)
  ultimately show ?thesis
    using outs by (intro exI [of _ "outs @ [out]"] exI [of _ fb]) (simp add: transduce_append list_all2_appendI)
qed

section \<open>Start keeps the stream protocol\<close>

text \<open>
  From \<^verbatim>\<open>setup\<close> on, for all the messages the receiver returns: the operator returns what
  merging their elements gives.
\<close>

lemma start_produces:
  assumes cs: "distinct cs" "cs \<noteq> []" and lock: "lock_returns lock"
    and ms: "pulls (start_fetch recv recv_timeout md) (False, rcv) ms q"
    and known: "list_all (known_sender cs) (arrivals ms)"
    and last: "arrivals ms = xs @ [x]" "fst (merge_step cs (transduce_state (merge_step cs) (merge_init cs) xs) x) \<noteq> []"
    and "nm_data (last ms) \<noteq> []"
  shows "\<exists>st'. pulls (start_next recv recv_timeout) (start_setup coord md rcv cs (start_new rcv0 lock))
    (transduce (merge_step cs) (merge_init cs) (arrivals ms)) st'"
proof -
  have "ms \<noteq> []" using last(1) by (auto simp: arrivals_def)
  from pulls_arrivals [OF ms this assms(8)] obtain sender where
    "pulls (next_arrival recv recv_timeout md) (None, False, rcv) (arrivals ms) (Some (sender, []), q)" by blast
  then have "pulls (checked_arrival cs (next_arrival recv recv_timeout md)) (None, False, rcv) (xs @ [x]) (Some (sender, []), q)"
    using known last(1) by (simp add: pulls_checked_arrival)
  moreover have "start_idle cs md (start_setup coord md rcv cs (start_new rcv0 lock)) (merge_init cs) (None, False, rcv)"
    using cs lock by (simp add: start_setup_def start_new_def frontier_new_of)
  ultimately show ?thesis
    using transducer.produces_last [OF start_transducer [OF cs]] last by metis
qed

lemma merged_stream_wf:
  assumes "outs \<noteq> []" and "\<forall>out \<in> set outs. data_only out"
  shows "wf_stream (concat (map (\<lambda>out. out @ [FlushAndRestart]) outs) @ [Terminate])"
  using wf_stream_unsegmentI [OF assms(2,1)] by (simp add: unsegment_def)

lemma merge_terminated:
  "Terminate \<in> set (transduce (merge_step cs) c xs) \<Longrightarrow> transduce_state (merge_step cs) c xs = None"
proof (induction xs arbitrary: c)
  case (Cons x xs)
  have ended: "transduce_state (merge_step cs) None ys = None" for ys :: "(coord \<times> 'a stream_element) list"
    by (induction ys) auto
  obtain out c' where step: "merge_step cs c x = (out, c')" by (cases "merge_step cs c x")
  then have "Terminate \<in> set out \<Longrightarrow> c' = None"
    by (cases "(cs, c, x)" rule: merge_step.cases) (auto simp: Let_def split: if_splits)
  with Cons step ended show ?case by auto
qed simp

text \<open>
  The unit tests drive the operator with a scripted network. Here the script is a list of
  messages, \<open>None\<close> for a timeout; past its end no call returns.
\<close>

fun script_recv :: "'a network_message option list \<Rightarrow> ('a network_message \<times> 'a network_message option list) res" where
  "script_recv [] = None"
| "script_recv (None # script) = script_recv script"
| "script_recv (Some m # script) = ret (m, script)"

fun script_recv_timeout :: "nat \<Rightarrow> 'a network_message option list
    \<Rightarrow> ('a network_message option \<times> 'a network_message option list) res" where
  "script_recv_timeout _ [] = None"
| "script_recv_timeout _ (r # script) = ret (r, script)"

text \<open>Feeding watermarks to the frontier, collecting what it declares safe.\<close>

fun frontier_run :: "(coord \<times> timestamp) list \<Rightarrow> watermark_frontier \<Rightarrow> (timestamp list \<times> watermark_frontier) res" where
  "frontier_run [] fr = ret ([], fr)"
| "frontier_run ((c, t) # ups) fr =
     bindR (frontier_update c t fr) (\<lambda>(r, fr).
       bindR (frontier_run ups fr) (\<lambda>(rs, fr).
         ret (case r of None \<Rightarrow> rs | Some w \<Rightarrow> w # rs, fr)))"

definition reached_after :: "(coord \<times> timestamp) list \<Rightarrow> coord \<Rightarrow> timestamp option" where
  "reached_after ups c = max_of (map snd (filter (\<lambda>u. fst u = c) ups))"

lemma reached_after_snoc: "reached_after (ups @ [(c, t)]) = (reached_after ups)(c := opt_max (reached_after ups c) t)"
  by (auto simp: reached_after_def)

lemma frontier_run_append:
  "frontier_run (xs @ ys) fr = bindR (frontier_run xs fr) (\<lambda>(rs, fr).
     bindR (frontier_run ys fr) (\<lambda>(rs', fr). ret (rs @ rs', fr)))"
proof (induction xs fr rule: frontier_run.induct)
  case (2 c t ups fr)
  show ?case
  proof (cases "\<exists>r fr'. frontier_update c t fr = ret (r, fr')")
    case True
    then obtain r fr' where u: "frontier_update c t fr = ret (r, fr')" by blast
    from "2.IH" u show ?thesis
      by (auto simp: bindR_def split: option.splits sum.splits)
  next
    case False
    then show ?thesis by (auto simp: bindR_def split: option.splits sum.splits)
  qed
qed (auto simp: bindR_def split: option.splits sum.splits)

lemma frontier_run_safe:
  assumes "distinct cs" and "\<forall>u \<in> set ups. fst u \<in> set cs"
  shows "\<exists>answers. frontier_run ups (frontier_new cs) = ret (answers, frontier_of cs (reached_after ups))
    \<and> sorted_wrt (<) answers
    \<and> safe_front cs (reached_after ups) = (if answers = [] then None else Some (last answers))"
  using assms(2)
proof (induction ups rule: rev_induct)
  case Nil
  then show ?case
    using assms(1) by (simp add: frontier_new_of reached_after_def [abs_def]) (auto simp: safe_front_def)
next
  case (snoc u ups)
  obtain c t where u: "u = (c, t)" by (cases u)
  from snoc obtain answers where IH: "frontier_run ups (frontier_new cs) = ret (answers, frontier_of cs (reached_after ups))"
    "sorted_wrt (<) answers" "safe_front cs (reached_after ups) = (if answers = [] then None else Some (last answers))"
    by auto
  let ?old = "safe_front cs (reached_after ups)" and ?new = "safe_front cs (reached_after (ups @ [u]))"
  have upd: "frontier_update c t (frontier_of cs (reached_after ups)) =
      ret (if ?new \<noteq> ?old then ?new else None, frontier_of cs (reached_after (ups @ [u])))"
    using frontier_update_of [OF assms(1), of c t] snoc.prems u by (simp add: reached_after_snoc Let_def)
  show ?case
  proof (cases "?new = ?old")
    case True
    with upd IH u show ?thesis by (auto simp: frontier_run_append)
  next
    case False
    with safe_front_advance(1) [OF reached_after_snoc, of cs ups c t] u obtain w where w: "?new = Some w"
      by (cases ?new) auto
    have "\<forall>a \<in> set answers. a < w"
    proof (cases "answers = []")
      case nonempty: False
      then have "last answers \<le> w"
        using safe_front_advance(2) [OF reached_after_snoc, of cs ups "last answers" c t] IH(3) w u by auto
      then have "last answers < w" using False IH(3) w nonempty by auto
      moreover have "a \<le> last answers" if "a \<in> set answers" for a
        using IH(2) nonempty that
        by (induction answers) (auto split: if_splits intro: order.strict_implies_order)
      ultimately show ?thesis by fastforce
    qed simp
    with False upd IH u w show ?thesis
      by (intro exI [of _ "answers @ [w]"]) (auto simp: frontier_run_append sorted_wrt_append)
  qed
qed

section \<open>Properties\<close>

text \<open>
  C8: \<^verbatim>\<open>WatermarkFrontier\<close>: whatever watermarks the previous replicas send, \<^verbatim>\<open>update\<close> never
  panics, the frontier is the minimum over the replicas of the largest watermark each has sent
  (nothing while a replica has sent none), and the timestamps declared safe strictly increase up
  to exactly that minimum.
\<close>

theorem frontier_is_minimum:
  assumes "distinct cs" and "\<forall>u \<in> set ups. fst u \<in> set cs"
  shows "\<exists>answers fr. frontier_run ups (frontier_new cs) = ret (answers, fr)
    \<and> wf_front fr = safe_front cs (reached_after ups)
    \<and> sorted_wrt (<) answers \<and> wf_front fr = (if answers = [] then None else Some (last answers))"
  using frontier_run_safe [OF assms] by (auto simp: frontier_of_def)

theorem frontier_is_minimum_witness:
  "\<exists>answers fr. frontier_run [(Coord 0 0 0, 20), (Coord 0 0 1, 100), (Coord 0 0 0, 70)]
      (frontier_new [Coord 0 0 0, Coord 0 0 1]) = ret (answers, fr)
    \<and> wf_front fr = Some 70 \<and> sorted_wrt (<) answers \<and> last answers = 70"
  using frontier_is_minimum [of "[Coord 0 0 0, Coord 0 0 1]"
      "[(Coord 0 0 0, 20), (Coord 0 0 1, 100), (Coord 0 0 0, 70)]"]
  by (auto simp: safe_front_def reached_after_def max_of_def split: if_splits)

lemma start_merges:
  assumes "distinct cs" and "cs \<noteq> []" and "lock_returns lock"
    and "pulls (start_fetch recv recv_timeout md) (False, rcv) ms q" and "nm_data (last ms) \<noteq> []"
    and "arrivals ms = concat (rs @ [r]) @ closing"
    and "\<forall>r \<in> set rs. iteration_input cs r" and "final_input cs r closing"
  shows "\<exists>outs fb st'. pulls (start_next recv recv_timeout)
      (start_setup coord md rcv cs (start_new rcv0 lock))
      (concat (map (\<lambda>out. out @ [FlushAndRestart]) outs) @ fb @ [Terminate]) st'
    \<and> list_all2 (merged_iteration None) (rs @ [r]) outs
    \<and> set fb \<subseteq> {FlushBatch} \<and> ((\<forall>x \<in> set closing. snd x = Terminate) \<longrightarrow> fb = [])"
proof -
  from merge_run [OF assms(1,2,7,8)] obtain outs fb where
    out: "transduce (merge_step cs) (merge_init cs) (arrivals ms)
      = concat (map (\<lambda>out. out @ [FlushAndRestart]) outs) @ fb @ [Terminate]"
    and rest: "list_all2 (merged_iteration None) (rs @ [r]) outs"
      "set fb \<subseteq> {FlushBatch}" "(\<forall>x \<in> set closing. snd x = Terminate) \<longrightarrow> fb = []"
    unfolding assms(6) by blast
  obtain xs x where x: "arrivals ms = xs @ [x]"
    using assms(6,8) by (metis append_is_Nil_conv final_input_def rev_exhaust)
  have "fst (merge_step cs (transduce_state (merge_step cs) (merge_init cs) xs) x) \<noteq> []"
  proof
    assume none: "fst (merge_step cs (transduce_state (merge_step cs) (merge_init cs) xs) x) = []"
    then have "transduce (merge_step cs) (merge_init cs) xs = transduce (merge_step cs) (merge_init cs) (arrivals ms)"
      by (cases "merge_step cs (transduce_state (merge_step cs) (merge_init cs) xs) x")
        (simp add: x transduce_append)
    then have "transduce_state (merge_step cs) (merge_init cs) xs = None"
      by (intro merge_terminated) (simp add: out)
    with none show False by simp
  qed
  moreover have "list_all (known_sender cs) (arrivals ms)"
    using assms(6,7,8) by (auto simp: iteration_input_def final_input_def list_all_iff)
  ultimately show ?thesis
    using start_produces [OF assms(1-4) _ x _ assms(5), of coord rcv0] out rest by metis
qed

text \<open>
  C1: \<^verbatim>\<open>Start\<close> merges the previous replicas. Suppose the receiver returns, in any interleaving
  and with any timeouts, iterations in which every replica sends data that keeps its own watermark
  promise and one \<^verbatim>\<open>FlushAndRestart\<close>, and finally a \<^verbatim>\<open>Terminate\<close> from each. Then the operator
  returns for each iteration exactly the data received in it, in the order of arrival, with
  watermarks that no later message of any replica violates, then one \<^verbatim>\<open>FlushAndRestart\<close>; and
  after the last one a single \<^verbatim>\<open>Terminate\<close>, preceded by nothing but flushes, and by nothing at
  all unless the receiver times out.
\<close>

theorem start_merges_replicas:
  assumes "distinct cs" and "cs \<noteq> []" and "lock_returns lock"
    and "pulls (start_fetch recv recv_timeout md) (False, rcv) ms q" and "nm_data (last ms) \<noteq> []"
    and "arrivals ms = concat (rs @ [r]) @ closing"
    and "\<forall>r \<in> set rs. iteration_input cs r" and "final_input cs r closing"
  shows "\<exists>outs fb st'. pulls (start_next recv recv_timeout)
      (start_setup coord md rcv cs (start_new rcv0 lock))
      (concat (map (\<lambda>out. out @ [FlushAndRestart]) outs) @ fb @ [Terminate]) st'
    \<and> list_all2 (merged_iteration None) (rs @ [r]) outs
    \<and> set fb \<subseteq> {FlushBatch} \<and> ((\<forall>x \<in> set closing. snd x = Terminate) \<longrightarrow> fb = [])"
  by (rule start_merges [OF assms])

theorem start_merges_replicas_witness:
  "\<exists>outs fb st'. pulls (start_next script_recv script_recv_timeout)
      (start_setup (Coord 1 0 0) (Some 50)
        [Some (new_batch [Timestamped (42 :: nat) 10, Watermark 20] (Coord 0 0 0)), None,
         Some (new_batch [Watermark 100, FlushAndRestart, Terminate] (Coord 0 0 1)),
         Some (new_batch [FlushAndRestart, Terminate] (Coord 0 0 0))]
        [Coord 0 0 0, Coord 0 0 1] (start_new [] None))
      (concat (map (\<lambda>out. out @ [FlushAndRestart]) outs) @ fb @ [Terminate]) st'
    \<and> length outs = 1 \<and> fb = []"
proof -
  let ?a = "Coord 0 0 0" and ?b = "Coord 0 0 1"
  let ?ms = "[new_batch [Timestamped (42 :: nat) 10, Watermark 20] ?a, new_single FlushBatch default_coord,
      new_batch [Watermark 100, FlushAndRestart, Terminate] ?b, new_batch [FlushAndRestart, Terminate] ?a]"
  let ?script = "[Some (new_batch [Timestamped (42 :: nat) 10, Watermark 20] ?a), None,
      Some (new_batch [Watermark 100, FlushAndRestart, Terminate] ?b),
      Some (new_batch [FlushAndRestart, Terminate] ?a)]"
  let ?r = "[(?a, Timestamped 42 10), (?a, Watermark 20), (default_coord, FlushBatch), (?b, Watermark 100),
      (?b, FlushAndRestart), (?b, Terminate), (?a, FlushAndRestart)]"
  have fetch: "pulls (start_fetch script_recv script_recv_timeout (Some 50)) (False, ?script) ?ms (False, [])"
    by (subst pulls_Cons_iff, simp add: start_fetch_def)+
  have fin: "final_input [?a, ?b] ?r [(?a, Terminate)]"
    by (simp add: final_input_def default_coord_def respects_watermarks_def)
  have ms: "arrivals ?ms = concat ([] @ [?r]) @ [(?a, Terminate)]"
    by (simp add: arrivals_def new_batch_def new_single_def)
  obtain outs fb st' where *: "pulls (start_next script_recv script_recv_timeout)
      (start_setup (Coord 1 0 0) (Some 50) ?script [?a, ?b] (start_new [] None))
      (concat (map (\<lambda>out. out @ [FlushAndRestart]) outs) @ fb @ [Terminate]) st'"
    and "list_all2 (merged_iteration None) ([] @ [?r]) outs" and "fb = []"
    using start_merges_replicas [OF _ _ _ fetch _ ms _ fin, of None "Coord 1 0 0" "[]"]
    by (auto simp: lock_returns_def new_batch_def)
  moreover from this(2) have "length outs = 1" by (auto dest: list_all2_lengthD)
  ultimately show ?thesis by blast
qed

end
