(* ===== verification/Window.thy ===== *)
theory Window
  imports Stream_Element
begin

text \<open>
  The window operator (\<^verbatim>\<open>src/operator/window/mod.rs\<close>): one window manager per key, which sees the
  key's elements and all the watermarks and end markers. The trait \<^verbatim>\<open>WindowManager\<close> is the locale
  \<open>window_manager\<close>: its law says that a manager may be created late without a difference, and the
  locale proves that every key is windowed as if it were alone.
\<close>

section \<open>Window results\<close>

datatype 'a window_result = WItem 'a | WTimestamped 'a timestamp

fun window_result_new :: "'a \<Rightarrow> timestamp option \<Rightarrow> 'a window_result" where
  "window_result_new item (Some ts) = WTimestamped item ts"
| "window_result_new item None = WItem item"

fun wr_item :: "'a window_result \<Rightarrow> 'a" where
  "wr_item (WItem item) = item"
| "wr_item (WTimestamped item _) = item"

fun wr_element :: "'a window_result \<Rightarrow> 'a stream_element" where
  "wr_element (WItem item) = Item item"
| "wr_element (WTimestamped item ts) = Timestamped item ts"

lemma wr_element_new [simp]: "wr_element (window_result_new x ts) = with_timestamp ts x"
  by (cases ts) auto

lemma wr_element_data [simp]: "\<not> is_marker (wr_element r)" "elem_value (wr_element r) = Some (wr_item r)"
  by (cases r; simp)+

section \<open>The operator\<close>

text \<open>
  \<^verbatim>\<open>process\<close> returns the results of the windows it closes, or panics; \<^verbatim>\<open>recycle\<close> tells whether the
  manager can be dropped.
\<close>

type_synonym ('m, 'i, 'o) process = "'m \<Rightarrow> 'i stream_element \<Rightarrow> ('o window_result list \<times> 'm) res"

record ('s, 'k, 'm, 'o) window_operator =
  wo_prev :: 's
  wo_windows :: "('k, 'm) hmap"
  wo_init :: 'm
  wo_output_buffer :: "('k \<times> 'o) stream_element list"

definition window_operator_new :: "'m \<Rightarrow> 's \<Rightarrow> ('s, 'k, 'm, 'o) window_operator" where
  "window_operator_new init prev =
     \<lparr>wo_prev = prev, wo_windows = [], wo_init = init, wo_output_buffer = []\<rparr>"

definition keyed_results :: "'k \<Rightarrow> 'o window_result list \<Rightarrow> ('k \<times> 'o) stream_element list" where
  "keyed_results key rs = map (\<lambda>e. add_key key (wr_element e)) rs"

text \<open>An element of a key: its manager is created on demand.\<close>

definition window_item :: "('m, 'i, 'o) process \<Rightarrow> 'm \<Rightarrow> ('k, 'm) hmap \<Rightarrow> ('k \<times> 'i) stream_element
    \<Rightarrow> (('k \<times> 'o) stream_element list \<times> ('k, 'm) hmap) res" where
  "window_item process init windows el =
     (case take_key el of (key, el) \<Rightarrow>
        bindR (unwrapR key) (\<lambda>key.
          let mgr = (case map_of windows key of Some mgr \<Rightarrow> mgr | None \<Rightarrow> init)
          in bindR (process mgr el) (\<lambda>(rs, mgr).
               ret (keyed_results key rs, AList.update key mgr windows))))"

text \<open>\<^verbatim>\<open>HashMap::retain\<close> over all the managers.\<close>

fun window_retain :: "('m, 'i, 'o) process \<Rightarrow> ('m \<Rightarrow> bool) \<Rightarrow> 'i stream_element \<Rightarrow> ('k, 'm) hmap
    \<Rightarrow> (('k \<times> 'o) stream_element list \<times> ('k, 'm) hmap) res" where
  "window_retain process recycle el [] = ret ([], [])"
| "window_retain process recycle el ((key, mgr) # windows) =
     bindR (process mgr el) (\<lambda>(rs, mgr).
       bindR (window_retain process recycle el windows) (\<lambda>(out, windows).
         ret (keyed_results key rs @ out,
              if \<not> recycle mgr then (key, mgr) # windows else windows)))"

definition window_system :: "(('k, 'm) hmap \<Rightarrow> ('k, 'm) hmap) \<Rightarrow> ('m, 'i, 'o) process \<Rightarrow> ('m \<Rightarrow> bool)
    \<Rightarrow> ('k, 'm) hmap \<Rightarrow> ('k \<times> 'i) stream_element
    \<Rightarrow> (('k \<times> 'o) stream_element list \<times> ('k, 'm) hmap) res" where
  "window_system ho process recycle windows el =
     (case take_key el of (_, el) \<Rightarrow>
        bindR (window_retain process recycle el (ho windows)) (\<lambda>(out, windows).
          bindR (case el of
                   Watermark w \<Rightarrow> ret (Watermark w)
                 | Terminate \<Rightarrow> ret Terminate
                 | FlushAndRestart \<Rightarrow> ret FlushAndRestart
                 | _ \<Rightarrow> panic Unreachable)
            (\<lambda>msg. ret (out @ [msg], windows))))"

partial_function (option) window_next :: "(('k, 'm) hmap \<Rightarrow> ('k, 'm) hmap) \<Rightarrow> ('m, 'i, 'o) process
    \<Rightarrow> ('m \<Rightarrow> bool) \<Rightarrow> ('s, 'k \<times> 'i) pull \<Rightarrow> (('s, 'k, 'm, 'o) window_operator, 'k \<times> 'o) pull" where
  "window_next ho process recycle prev st =
     (case wo_output_buffer st of
        item # rest \<Rightarrow> ret (item, st\<lparr>wo_output_buffer := rest\<rparr>)
      | [] \<Rightarrow>
          bindR (prev (wo_prev st)) (\<lambda>(el, s').
            if el = FlushBatch then ret (FlushBatch, st\<lparr>wo_prev := s'\<rparr>)
            else
              bindR (if elem_value el \<noteq> None
                     then window_item process (wo_init st) (wo_windows st) el
                     else window_system ho process recycle (wo_windows st) el)
                (\<lambda>(out, windows). window_next ho process recycle prev
                   (st\<lparr>wo_prev := s', wo_windows := windows, wo_output_buffer := out\<rparr>))))"

text \<open>One element, as a step on the managers.\<close>

definition window_step :: "(('k, 'm) hmap \<Rightarrow> ('k, 'm) hmap) \<Rightarrow> ('m, 'i, 'o) process \<Rightarrow> ('m \<Rightarrow> bool) \<Rightarrow> 'm
    \<Rightarrow> ('k, 'm) hmap \<Rightarrow> ('k \<times> 'i) stream_element
    \<Rightarrow> (('k \<times> 'o) stream_element list \<times> ('k, 'm) hmap) res" where
  "window_step ho process recycle init windows el =
     (if el = FlushBatch then ret ([FlushBatch], windows)
      else if elem_value el \<noteq> None then window_item process init windows el
      else window_system ho process recycle windows el)"

lemma window_next_buffer:
  "pulls (window_next ho process recycle p)
     \<lparr>wo_prev = s, wo_windows = ws, wo_init = init, wo_output_buffer = out @ rest\<rparr> out
     \<lparr>wo_prev = s, wo_windows = ws, wo_init = init, wo_output_buffer = rest\<rparr>"
proof (induction out)
  case (Cons y out)
  have "window_next ho process recycle p
      \<lparr>wo_prev = s, wo_windows = ws, wo_init = init, wo_output_buffer = (y # out) @ rest\<rparr> =
    ret (y, \<lparr>wo_prev = s, wo_windows = ws, wo_init = init, wo_output_buffer = out @ rest\<rparr>)"
    by (subst window_next.simps) simp
  with Cons show ?case by (simp add: pulls_Cons_iff)
qed simp

lemma window_transducer:
  fixes p :: "('s, 'k \<times> 'i) pull" and process :: "('m, 'i, 'o) process"
  shows "fallible_transducer p (window_next ho process recycle p)
    (\<lambda>st ws s. st = \<lparr>wo_prev = s, wo_windows = ws, wo_init = init, wo_output_buffer = []\<rparr>)
    (window_step ho process recycle init)"
proof -
  let ?st = "\<lambda>s ws out. \<lparr>wo_prev = s, wo_windows = ws, wo_init = init, wo_output_buffer = out\<rparr>"
  have step: "window_next ho process recycle p (?st s ws []) = window_next ho process recycle p (?st s1 ws' out)"
    if "p s = ret (e, s1)" and "window_step ho process recycle init ws e = ret (out, ws')" and "e \<noteq> FlushBatch"
    for s ws e s1 out ws'
    using that by (subst window_next.simps) (auto simp: window_step_def split: stream_element.splits if_splits)
  have flush: "window_next ho process recycle p (?st s ws []) = ret (FlushBatch, ?st s1 ws [])"
    if "p s = ret (FlushBatch, s1)" for s ws s1
    using that by (subst window_next.simps) simp
  show ?thesis
  proof
    fix st :: "('s, 'k, 'm, 'o) window_operator" and ws s e s1 ws'
    assume "st = ?st s ws []" and e: "p s = ret (e, s1)"
      and w: "window_step ho process recycle init ws e = ret ([], ws')"
    then show "\<exists>st1. window_next ho process recycle p st = window_next ho process recycle p st1 \<and> st1 = ?st s1 ws' []"
      using step [OF e w] by (cases "e = FlushBatch") (auto simp: window_step_def)
  next
    fix st :: "('s, 'k, 'm, 'o) window_operator" and ws s e s1 y ys ws'
    assume st: "st = ?st s ws []" and e: "p s = ret (e, s1)"
      and w: "window_step ho process recycle init ws e = ret (y # ys, ws')"
    show "\<exists>st1. pulls (window_next ho process recycle p) st (y # ys) st1 \<and> st1 = ?st s1 ws' []"
    proof (cases "e = FlushBatch")
      case True
      with st e w flush show ?thesis by (auto simp: window_step_def)
    next
      case False
      have "pulls (window_next ho process recycle p) (?st s1 ws' (y # ys)) (y # ys) (?st s1 ws' [])"
        using window_next_buffer [of ho process recycle p s1 ws' init "y # ys" "[]"] by simp
      with step [OF e w False] st show ?thesis
        by (auto simp: pulls_start_cong [of _ "?st s ws []"])
    qed
  qed
qed

interpretation window_tr: fallible_transducer p "window_next ho process recycle p"
  "\<lambda>st ws s. st = \<lparr>wo_prev = s, wo_windows = ws, wo_init = init, wo_output_buffer = []\<rparr>"
  "window_step ho process recycle init"
  for p :: "('s, 'k \<times> 'i) pull" and process :: "('m, 'i, 'o) process" and ho recycle init
  by (rule window_transducer)

section \<open>Each key is windowed on its own\<close>

text \<open>
  What a key sees of a stream: its own elements without the key, the watermarks and the end
  markers.
\<close>

fun key_sees :: "'k \<Rightarrow> ('k \<times> 'a) stream_element \<Rightarrow> 'a stream_element option" where
  "key_sees k (Item (k', v)) = (if k' = k then Some (Item v) else None)"
| "key_sees k (Timestamped (k', v) ts) = (if k' = k then Some (Timestamped v ts) else None)"
| "key_sees k FlushBatch = None"
| "key_sees k (Watermark w) = Some (Watermark w)"
| "key_sees k Terminate = Some Terminate"
| "key_sees k FlushAndRestart = Some FlushAndRestart"

definition key_view :: "'k \<Rightarrow> ('k \<times> 'a) stream_element list \<Rightarrow> 'a stream_element list" where
  "key_view k es = List.map_filter (key_sees k) es"

lemma key_view_simps [simp]:
  "key_view k [] = []"
  "key_view k (e # es) = (case key_sees k e of None \<Rightarrow> [] | Some x \<Rightarrow> [x]) @ key_view k es"
  "key_view k (xs @ ys) = key_view k xs @ key_view k ys"
  by (auto simp: key_view_def List.map_filter_simps split: option.splits)

text \<open>
  A single manager on such a view: the results of an element, and the element itself after them
  unless it is data.
\<close>

definition manager_step :: "('m, 'i, 'o) process \<Rightarrow> 'm \<Rightarrow> 'i stream_element
    \<Rightarrow> ('o stream_element list \<times> 'm) res" where
  "manager_step process m e =
     bindR (process m e) (\<lambda>(rs, m').
       ret (map wr_element rs @ (case e of Watermark w \<Rightarrow> [Watermark w] | Terminate \<Rightarrow> [Terminate]
              | FlushAndRestart \<Rightarrow> [FlushAndRestart] | _ \<Rightarrow> []), m'))"

lemma manager_step_ret:
  "manager_step process m e = ret (out, m') \<longleftrightarrow> (\<exists>rs. process m e = ret (rs, m') \<and>
     out = map wr_element rs @ (case e of Watermark w \<Rightarrow> [Watermark w] | Terminate \<Rightarrow> [Terminate]
              | FlushAndRestart \<Rightarrow> [FlushAndRestart] | _ \<Rightarrow> []))"
  by (auto simp: manager_step_def bindR_eq_ret)

lemma key_view_keyed_results: "key_view k (keyed_results k' rs) = (if k' = k then map wr_element rs else [])"
proof (induction rs)
  case (Cons r rs)
  then show ?case by (cases r) (auto simp: keyed_results_def)
qed (simp add: keyed_results_def)

text \<open>The elements that carry no data, in order.\<close>

definition system_elems :: "'a stream_element list \<Rightarrow> unit stream_element list" where
  "system_elems es = map variant (filter (\<lambda>e. elem_value e = None) es)"

lemma system_elems_append [simp]:
  "system_elems [] = []" "system_elems (xs @ ys) = system_elems xs @ system_elems ys"
  "system_elems (e # xs) = (if elem_value e = None then variant e # system_elems xs else system_elems xs)"
  by (simp_all add: system_elems_def)

lemma system_elems_keyed_results [simp]: "system_elems (keyed_results k rs) = []"
proof -
  have "elem_value (add_key k (wr_element r)) \<noteq> None" for r :: "'b window_result" by (cases r) auto
  then show ?thesis by (auto simp: system_elems_def keyed_results_def filter_empty_conv)
qed

text \<open>
  A manager alone: it is replaced by a new one when it can be dropped after an element that
  carries no data.
\<close>

definition recycling :: "('m, 'i, 'o) process \<Rightarrow> ('m \<Rightarrow> bool) \<Rightarrow> 'm \<Rightarrow> ('m, 'i, 'o) process" where
  "recycling process recycle init m e =
     bindR (process m e) (\<lambda>(rs, m'). ret (rs, if elem_value e = None \<and> recycle m' then init else m'))"

lemma recycling_never [simp]: "recycling process (\<lambda>_. False) init = process"
  by (auto simp: recycling_def bindR_def fun_eq_iff split: option.splits sum.splits)

lemma recycling_ret:
  "recycling process recycle init m e = ret (rs, m') \<longleftrightarrow>
     (\<exists>n. process m e = ret (rs, n) \<and> m' = (if elem_value e = None \<and> recycle n then init else n))"
  by (auto simp: recycling_def bindR_eq_ret)

text \<open>
  The law of a manager: a new one ignores watermarks and end markers, so that it can be created at
  the first element of the key.
\<close>

locale window_manager =
  fixes process :: "('m, 'i, 'o) process" and recycle :: "'m \<Rightarrow> bool" and init :: 'm
  assumes idle: "elem_value e = None \<Longrightarrow> e \<noteq> FlushBatch \<Longrightarrow> process init e = ret (rs, m')
      \<Longrightarrow> rs = [] \<and> (m' = init \<or> recycle m')"
begin

abbreviation alone :: "('m, 'i, 'o) process" where
  "alone \<equiv> recycling process recycle init"

definition managed :: "('k \<Rightarrow> 'm) \<Rightarrow> ('k, 'm) hmap \<Rightarrow> bool" where
  "managed M ws \<longleftrightarrow> distinct (keys ws) \<and>
     (\<forall>k. M k = (case map_of ws k of Some m \<Rightarrow> m | None \<Rightarrow> init))"

lemma alone_idle:
  "elem_value e = None \<Longrightarrow> e \<noteq> FlushBatch \<Longrightarrow> alone init e = ret (rs, m') \<Longrightarrow> rs = [] \<and> m' = init"
  using idle [of e] by (fastforce simp: recycling_ret split: if_splits)

lemma window_item_managed:
  assumes "managed M ws" and "elem_key e = Some k"
    and "alone (M k) (snd (take_key e)) = ret (rs, m)"
  shows "\<exists>ws'. window_item process init ws e = ret (keyed_results k rs, ws') \<and> managed (M(k := m)) ws'"
proof -
  obtain el where el: "take_key e = (Some k, el)" "elem_value el \<noteq> None"
    using assms(2) by (cases e) auto
  with assms have "process (case map_of ws k of Some m \<Rightarrow> m | None \<Rightarrow> init) el = ret (rs, m)"
    by (auto simp: managed_def recycling_ret)
  then have "window_item process init ws e = ret (keyed_results k rs, AList.update k m ws)"
    using el by (simp add: window_item_def)
  moreover have "managed (M(k := m)) (AList.update k m ws)"
    using assms(1) by (auto simp: managed_def update_conv distinct_update)
  ultimately show ?thesis by blast
qed

lemma window_retain_managed:
  assumes "elem_value e = None" and "distinct (keys ws)" and "\<And>k n. map_of ws k = Some n \<Longrightarrow> M k = n"
    and "\<And>k. k \<in> set (keys ws) \<Longrightarrow> alone (M k) e = ret (rs k, M' k)"
  shows "\<exists>out ws'. window_retain process recycle e ws = ret (out, ws')
    \<and> distinct (keys ws') \<and> set (keys ws') \<subseteq> set (keys ws)
    \<and> (\<forall>k. key_view k out = (if k \<in> set (keys ws) then map wr_element (rs k) else []))
    \<and> (\<forall>k \<in> set (keys ws). M' k = (case map_of ws' k of Some m \<Rightarrow> m | None \<Rightarrow> init))
    \<and> system_elems out = []"
  using assms(2-)
proof (induction ws)
  case (Cons x ws)
  obtain k0 n0 where x: "x = (k0, n0)" by (cases x)
  have same: "\<And>k n. map_of ws k = Some n \<Longrightarrow> M k = n"
    using Cons.prems(1,2) x by (auto dest: map_of_SomeD simp: image_iff split: if_splits)
  have dist: "distinct (keys ws)" and procs: "\<And>k. k \<in> set (keys ws) \<Longrightarrow> alone (M k) e = ret (rs k, M' k)"
    using Cons.prems(1,3) by auto
  from Cons.IH [OF dist same procs] obtain out ws' where
    IH: "window_retain process recycle e ws = ret (out, ws')" "distinct (keys ws')" "set (keys ws') \<subseteq> set (keys ws)"
    "\<And>k. key_view k out = (if k \<in> set (keys ws) then map wr_element (rs k) else [])"
    "\<And>k. k \<in> set (keys ws) \<Longrightarrow> M' k = (case map_of ws' k of Some m \<Rightarrow> m | None \<Rightarrow> init)" "system_elems out = []"
    by blast
  have "M k0 = n0" using Cons.prems(2) [of k0 n0] x by simp
  then have "alone n0 e = ret (rs k0, M' k0)" using Cons.prems(3) [of k0] x by simp
  then obtain n where n: "process n0 e = ret (rs k0, n)" "M' k0 = (if recycle n then init else n)"
    using assms(1) by (auto simp: recycling_ret)
  have k0: "k0 \<notin> set (keys ws)" "k0 \<notin> set (keys ws')" using Cons.prems(1) x IH(3) by auto
  let ?ws = "if \<not> recycle n then (k0, n) # ws' else ws'"
  have "window_retain process recycle e (x # ws) = ret (keyed_results k0 (rs k0) @ out, ?ws)"
    using IH(1) n(1) x by simp
  moreover have "distinct (keys ?ws)" and "set (keys ?ws) \<subseteq> set (keys (x # ws))"
    using IH(2,3) k0 x by auto
  moreover have "key_view k (keyed_results k0 (rs k0) @ out) =
      (if k \<in> set (keys (x # ws)) then map wr_element (rs k) else [])" for k
    using IH(4) [of k] k0 x by (auto simp: key_view_keyed_results)
  moreover have "M' k = (case map_of ?ws k of Some m \<Rightarrow> m | None \<Rightarrow> init)" if "k \<in> set (keys (x # ws))" for k
  proof (cases "k = k0")
    case True
    have "map_of ws' k0 = None" using k0(2) by (simp add: map_of_eq_None_iff)
    with True n(2) show ?thesis by auto
  next
    case False
    with IH(5) [of k] that x show ?thesis by auto
  qed
  moreover have "system_elems (keyed_results k0 (rs k0) @ out) = []"
    using IH(6) by simp
  ultimately show ?case by blast
qed simp

lemma window_system_managed:
  fixes g :: "'k \<times> 'i \<Rightarrow> 'k \<times> 'o" and h :: "'i \<Rightarrow> 'o"
  assumes ho: "hash_order ho" and ws: "managed M ws"
    and e: "elem_value e = None" "e \<noteq> FlushBatch" and x: "x = snd (take_key e)"
    and procs: "\<And>k. alone (M k) x = ret (rs k, M' k)"
  shows "\<exists>out ws'. window_system ho process recycle ws e = ret (out @ [elem_map g e], ws') \<and> managed M' ws'
    \<and> (\<forall>k. key_view k (out @ [elem_map g e]) = map wr_element (rs k) @ [elem_map h x]) \<and> system_elems out = []"
proof -
  have dist: "distinct (keys ws)" and all: "\<And>k. M k = (case map_of ws k of Some m \<Rightarrow> m | None \<Rightarrow> init)"
    using ws by (auto simp: managed_def)
  then have known: "\<And>k n. map_of ws k = Some n \<Longrightarrow> M k = n" and news: "\<And>k. map_of ws k = None \<Longrightarrow> M k = init"
    by simp_all
  have sys: "elem_value x = None" "x \<noteq> FlushBatch" using e x by (cases e; simp)+
  note ho' = hash_order_keys [OF ho dist]
  from window_retain_managed [OF sys(1), of "ho ws" M rs M'] obtain out ws' where
    out: "window_retain process recycle x (ho ws) = ret (out, ws')" "distinct (keys ws')" "set (keys ws') \<subseteq> set (keys ws)"
    "\<And>k. key_view k out = (if k \<in> set (keys ws) then map wr_element (rs k) else [])"
    "\<And>k. k \<in> set (keys ws) \<Longrightarrow> M' k = (case map_of ws' k of Some m \<Rightarrow> m | None \<Rightarrow> init)" "system_elems out = []"
    using ho' known procs by (simp only: ho') blast
  have idle': "rs k = [] \<and> M' k = init" if "k \<notin> set (keys ws)" for k
    using that alone_idle [OF sys] procs [of k] news [of k] by (auto simp: map_of_eq_None_iff)
  have new: "M' k = (case map_of ws' k of Some m \<Rightarrow> m | None \<Rightarrow> init)" for k
  proof (cases "k \<in> set (keys ws)")
    case False
    then have "map_of ws' k = None" using out(3) by (metis map_of_eq_None_iff set_map subsetD)
    with idle' [OF False] show ?thesis by simp
  qed (rule out(5))
  have "window_system ho process recycle ws e = ret (out @ [elem_map g e], ws')"
    using e x out(1) by (cases e) (auto simp: window_system_def)
  moreover have "managed M' ws'" using out(2) new by (simp add: managed_def)
  moreover have "key_view k (out @ [elem_map g e]) = map wr_element (rs k) @ [elem_map h x]" for k
    using out(4) [of k] idle' [of k] e x by (cases e) auto
  ultimately show ?thesis using out(6) by blast
qed

text \<open>
  Running all the keys together gives, to every key, what its manager alone gives.
\<close>

lemma windows_per_key:
  assumes ho: "hash_order ho" and "managed M ws"
    and "\<And>k. transduceR (manager_step alone) (M k) (key_view k es) = ret (out k, M' k)"
  shows "\<exists>outs ws'. transduceR (window_step ho process recycle init) ws es = ret (outs, ws') \<and> managed M' ws'
    \<and> (\<forall>k. key_view k outs = out k) \<and> system_elems outs = system_elems es"
  using assms(2,3)
proof (induction es arbitrary: M ws out)
  case Nil
  then show ?case by (simp add: fun_eq_iff)
next
  case (Cons e es)
  show ?case
  proof (cases "e = FlushBatch")
    case True
    with Cons.IH [OF Cons.prems(1), of out] Cons.prems(2) obtain outs ws' where
      "transduceR (window_step ho process recycle init) ws es = ret (outs, ws')" "managed M' ws'"
      "\<forall>k. key_view k outs = out k" "system_elems outs = system_elems es" by auto
    moreover have "window_step ho process recycle init ws e = ret ([FlushBatch], ws)"
      by (simp add: window_step_def True)
    ultimately show ?thesis
      using True by (intro exI [of _ "FlushBatch # outs"] exI [of _ ws']) simp
  next
    case notflush: False
    show ?thesis
    proof (cases "elem_value e")
      case (Some kv)
      then obtain k0 where k0: "elem_key e = Some k0" by (cases e) auto
      then have view: "key_view k (e # es) = (if k = k0 then snd (take_key e) # key_view k es else key_view k es)" for k
        by (cases e) auto
      have data: "elem_value (snd (take_key e)) \<noteq> None" using Some by (cases kv; cases e) auto
      from Cons.prems(2) [of k0] obtain rs m o2 where m: "alone (M k0) (snd (take_key e)) = ret (rs, m)"
        "transduceR (manager_step alone) m (key_view k0 es) = ret (o2, M' k0)" "out k0 = map wr_element rs @ o2"
        using data unfolding view by (cases "snd (take_key e)") (auto simp: bindR_eq_ret manager_step_ret)
      from window_item_managed [OF Cons.prems(1) k0 m(1)] obtain ws1 where
        ws1: "window_item process init ws e = ret (keyed_results k0 rs, ws1)" "managed (M(k0 := m)) ws1" by blast
      have "transduceR (manager_step alone) ((M(k0 := m)) k) (key_view k es) = ret ((out(k0 := o2)) k, M' k)" for k
        using m(2) Cons.prems(2) [of k] unfolding view by (cases "k = k0") auto
      from Cons.IH [OF ws1(2) this] obtain outs ws' where
        outs: "transduceR (window_step ho process recycle init) ws1 es = ret (outs, ws')" "managed M' ws'"
        "\<forall>k. key_view k outs = (out(k0 := o2)) k" "system_elems outs = system_elems es" by auto
      have "system_elems (keyed_results k0 rs @ outs) = system_elems (e # es)"
        using outs(4) Some by simp
      moreover have "\<forall>k. key_view k (keyed_results k0 rs @ outs) = out k"
        using outs(3) m(3) by (auto simp: key_view_keyed_results)
      ultimately show ?thesis
        using ws1(1) outs(1,2) Some notflush
          window_step_def [of ho process recycle init ws e]
        by (intro exI [of _ "keyed_results k0 rs @ outs"] exI [of _ ws']) simp
    next
      case None
      let ?x = "snd (take_key e)" and ?g = "\<lambda>_. undefined" and ?h = "\<lambda>_. undefined"
      have view: "key_view k (e # es) = ?x # key_view k es" for k
        using None notflush by (cases e) auto
      have fwd: "(case ?x of Watermark w \<Rightarrow> [Watermark w] | Terminate \<Rightarrow> [Terminate]
          | FlushAndRestart \<Rightarrow> [FlushAndRestart] | _ \<Rightarrow> []) = [elem_map ?h ?x]"
        using None notflush by (cases e) auto
      have "\<forall>k. \<exists>rs m o2. alone (M k) ?x = ret (rs, m)
          \<and> transduceR (manager_step alone) m (key_view k es) = ret (o2, M' k)
          \<and> out k = map wr_element rs @ [elem_map ?h ?x] @ o2"
      proof
        fix k
        from Cons.prems(2) [of k] obtain o1 m o2 where "manager_step alone (M k) ?x = ret (o1, m)"
          "transduceR (manager_step alone) m (key_view k es) = ret (o2, M' k)" "out k = o1 @ o2"
          unfolding view transduceR_Cons_ret by blast
        then show "\<exists>rs m o2. alone (M k) ?x = ret (rs, m)
            \<and> transduceR (manager_step alone) m (key_view k es) = ret (o2, M' k)
            \<and> out k = map wr_element rs @ [elem_map ?h ?x] @ o2"
          by (auto simp: manager_step_ret fwd)
      qed
      then obtain rs M1 o2 where one: "\<And>k. alone (M k) ?x = ret (rs k, M1 k)"
        "\<And>k. transduceR (manager_step alone) (M1 k) (key_view k es) = ret (o2 k, M' k)"
        "\<And>k. out k = map wr_element (rs k) @ [elem_map ?h ?x] @ o2 k" by metis
      from window_system_managed [OF ho Cons.prems(1) None notflush refl one(1), of ?g ?h] obtain o1 ws1 where
        o1: "window_system ho process recycle ws e = ret (o1 @ [elem_map ?g e], ws1)" "managed M1 ws1"
        "\<forall>k. key_view k (o1 @ [elem_map ?g e]) = map wr_element (rs k) @ [elem_map ?h ?x]" "system_elems o1 = []" by blast
      obtain outs ws' where outs: "transduceR (window_step ho process recycle init) ws1 es = ret (outs, ws')"
        "managed M' ws'" "\<forall>k. key_view k outs = o2 k"
        "system_elems outs = system_elems es"
        using Cons.IH [OF o1(2) one(2)] by auto
      have "system_elems ((o1 @ [elem_map ?g e]) @ outs) = system_elems (e # es)"
        using outs(4) o1(4) None by (cases e) auto
      moreover have "\<forall>k. key_view k ((o1 @ [elem_map ?g e]) @ outs) = out k"
        using o1(3) outs(3) one(3) by (metis append.assoc key_view_simps(3))
      ultimately show ?thesis
        using o1(1) outs(1,2) None notflush
          window_step_def [of ho process recycle init ws e]
        by (intro exI [of _ "(o1 @ [elem_map ?g e]) @ outs"] exI [of _ ws']) simp
    qed
  qed
qed

text \<open>The operator, from its construction on.\<close>

lemma window_operator_per_key:
  assumes "hash_order ho" and "wf_stream es" and "pulls p s es s'"
    and "\<And>k. transduceR (manager_step alone) init (key_view k es) = ret (out k, M' k)"
  shows "\<exists>outs st'. pulls (window_next ho process recycle p) (window_operator_new init s) outs st'
    \<and> (\<forall>k. key_view k outs = out k) \<and> system_elems outs = system_elems es"
proof -
  have "managed (\<lambda>_. init) []" by (simp add: managed_def)
  from windows_per_key [OF assms(1) this assms(4)] obtain outs ws' where
    outs: "transduceR (window_step ho process recycle init) [] es = ret (outs, ws')"
    "\<forall>k. key_view k outs = out k" "system_elems outs = system_elems es" by blast
  obtain ys where es: "es = ys @ [Terminate]" using assms(2) by (rule wf_stream_ends)
  have answered: "window_step ho process recycle init c Terminate \<noteq> ret ([], c')" for c c'
    by (auto simp: window_step_def window_system_def bindR_eq_ret)
  have "\<exists>st'. pulls (window_next ho process recycle p) (window_operator_new init s) outs st'"
    using window_tr.producesR_last [OF _ assms(3) [unfolded es] outs(1) [unfolded es] answered]
    by (simp add: window_operator_new_def) blast
  with outs show ?thesis by blast
qed

end

end
