(* ===== verification/Window_Accumulators.thy ===== *)
theory Window_Accumulators
  imports Renoir_Prelude
begin

text \<open>
  The window accumulators (\<^verbatim>\<open>src/operator/window/aggr\<close>). The trait \<^verbatim>\<open>WindowAccumulator\<close> is the locale
  \<open>window_accumulator\<close>: after at least one element, \<^verbatim>\<open>output\<close> returns a function of the elements
  processed, which is the convention the trait documents. Every accumulator is interpreted with the
  function it is meant to compute.
\<close>

locale window_accumulator =
  fixes acc_process :: "'a \<Rightarrow> 'i \<Rightarrow> 'a" and acc_output :: "'a \<Rightarrow> 'o res" and acc_init :: 'a
    and result :: "'i list \<Rightarrow> 'o"
  assumes output_result: "xs \<noteq> [] \<Longrightarrow> acc_output (foldl acc_process acc_init xs) = ret (result xs)"
begin

lemma output_snoc: "acc_output (acc_process (foldl acc_process acc_init xs) x) = ret (result (xs @ [x]))"
  using output_result [of "xs @ [x]"] by simp

end

section \<open>Fold and FoldFirst\<close>

text \<open>The closure updates the state in place: \<open>f s x\<close> is the updated state.\<close>

definition acc_fold_process :: "('s \<Rightarrow> 'i \<Rightarrow> 's) \<Rightarrow> 's \<Rightarrow> 'i \<Rightarrow> 's" where
  "acc_fold_process f state el = f state el"

definition acc_fold_output :: "'s \<Rightarrow> 's res" where
  "acc_fold_output state = ret state"

definition fold_first_process :: "('i \<Rightarrow> 'i \<Rightarrow> 'i) \<Rightarrow> 'i option \<Rightarrow> 'i \<Rightarrow> 'i option" where
  "fold_first_process f state el = (case state of None \<Rightarrow> Some el | Some s \<Rightarrow> Some (f s el))"

definition fold_first_output :: "'i option \<Rightarrow> 'i res" where
  "fold_first_output state = unwrapR state"

interpretation acc_fold: window_accumulator "acc_fold_process f" acc_fold_output init "foldl f init"
  for f :: "'s \<Rightarrow> 'i \<Rightarrow> 's" and init
proof
  fix xs :: "'i list"
  have "foldl (acc_fold_process f) init xs = foldl f init xs"
    by (induction xs rule: rev_induct) (auto simp: acc_fold_process_def)
  then show "acc_fold_output (foldl (acc_fold_process f) init xs) = ret (foldl f init xs)"
    by (simp add: acc_fold_output_def)
qed

lemma foldl_fold_first: "foldl (fold_first_process f) (Some x) xs = Some (foldl f x xs)"
  by (induction xs arbitrary: x) (auto simp: fold_first_process_def)

interpretation acc_fold_first: window_accumulator "fold_first_process f" fold_first_output None
  "\<lambda>xs. foldl f (hd xs) (tl xs)"
  for f :: "'i \<Rightarrow> 'i \<Rightarrow> 'i"
proof
  fix xs :: "'i list"
  assume "xs \<noteq> []"
  then show "fold_first_output (foldl (fold_first_process f) None xs) = ret (foldl f (hd xs) (tl xs))"
    by (cases xs) (auto simp: fold_first_output_def fold_first_process_def [of f None] foldl_fold_first)
qed

section \<open>Minimum and maximum\<close>

definition acc_max :: "'i :: linorder \<Rightarrow> 'i \<Rightarrow> 'i" where
  "acc_max mx x = (if mx < x then x else mx)"

definition acc_max_by_key :: "('i \<Rightarrow> 'k :: linorder) \<Rightarrow> 'i \<Rightarrow> 'i \<Rightarrow> 'i" where
  "acc_max_by_key get_key mx x = (if get_key mx < get_key x then x else mx)"

definition acc_min :: "'i :: linorder \<Rightarrow> 'i \<Rightarrow> 'i" where
  "acc_min mn x = (if x < mn then x else mn)"

definition acc_min_by_key :: "('i \<Rightarrow> 'k :: linorder) \<Rightarrow> 'i \<Rightarrow> 'i \<Rightarrow> 'i" where
  "acc_min_by_key get_key mn x = (if get_key x < get_key mn then x else mn)"

interpretation acc_maximum: window_accumulator "fold_first_process acc_max" fold_first_output None
  "\<lambda>xs. Max (set xs)"
proof
  fix xs :: "'a list"
  assume "xs \<noteq> []"
  moreover have "foldl acc_max x ys = Max (set (x # ys))" for x :: 'a and ys
  proof (induction ys arbitrary: x)
    case (Cons y ys)
    have "acc_max x y = max x y" by (auto simp: acc_max_def max_def)
    with Cons [of "max x y"] show ?case
      by (cases "ys = []") (simp_all add: max.assoc)
  qed simp
  ultimately show "fold_first_output (foldl (fold_first_process acc_max) None xs) = ret (Max (set xs))"
    using acc_fold_first.output_result [of xs acc_max] by (cases xs) auto
qed

interpretation acc_minimum: window_accumulator "fold_first_process acc_min" fold_first_output None
  "\<lambda>xs. Min (set xs)"
proof
  fix xs :: "'a list"
  assume "xs \<noteq> []"
  moreover have "foldl acc_min x ys = Min (set (x # ys))" for x :: 'a and ys
  proof (induction ys arbitrary: x)
    case (Cons y ys)
    have "acc_min x y = min x y" by (auto simp: acc_min_def min_def)
    with Cons [of "min x y"] show ?case
      by (cases "ys = []") (simp_all add: min.assoc)
  qed simp
  ultimately show "fold_first_output (foldl (fold_first_process acc_min) None xs) = ret (Min (set xs))"
    using acc_fold_first.output_result [of xs acc_min] by (cases xs) auto
qed

text \<open>By key: an element of the window whose key no other exceeds (or undercuts).\<close>

lemma acc_max_by_key_best:
  "foldl (acc_max_by_key key) x xs \<in> set (x # xs) \<and> (\<forall>y \<in> set (x # xs). key y \<le> key (foldl (acc_max_by_key key) x xs))"
proof (induction xs arbitrary: x)
  case (Cons y xs)
  from Cons.IH [of "acc_max_by_key key x y"] show ?case
    by (auto simp: acc_max_by_key_def split: if_splits intro: order_trans)
qed simp

lemma acc_min_by_key_best:
  "foldl (acc_min_by_key key) x xs \<in> set (x # xs) \<and> (\<forall>y \<in> set (x # xs). key (foldl (acc_min_by_key key) x xs) \<le> key y)"
proof (induction xs arbitrary: x)
  case (Cons y xs)
  from Cons.IH [of "acc_min_by_key key x y"] show ?case
    by (auto simp: acc_min_by_key_def split: if_splits intro: order_trans)
qed simp

section \<open>Sum, count, first, last and vectors\<close>

text \<open>\<^verbatim>\<open>sum\<close> is a fold with \<^verbatim>\<open>AddAssign\<close> from \<^verbatim>\<open>Default\<close>; here for integers.\<close>

definition acc_sum :: "int \<Rightarrow> int \<Rightarrow> int" where
  "acc_sum acc x = acc + x"

definition acc_count_process :: "nat \<Rightarrow> 'i \<Rightarrow> nat" where
  "acc_count_process n _ = n + 1"

definition acc_count_output :: "nat \<Rightarrow> nat res" where
  "acc_count_output n = ret n"

definition acc_first_process :: "'i option \<Rightarrow> 'i \<Rightarrow> 'i option" where
  "acc_first_process s el = (if s = None then Some el else s)"

definition acc_first_output :: "'i option \<Rightarrow> 'i res" where
  "acc_first_output s = unwrapR s"

definition acc_last_process :: "'i option \<Rightarrow> 'i \<Rightarrow> 'i option" where
  "acc_last_process s el = Some el"

definition acc_last_output :: "'i option \<Rightarrow> 'i res" where
  "acc_last_output s = unwrapR s"

definition collect_vec_process :: "'i list \<Rightarrow> 'i \<Rightarrow> 'i list" where
  "collect_vec_process vec el = vec @ [el]"

definition collect_vec_output :: "('i list \<Rightarrow> 'o) \<Rightarrow> 'i list \<Rightarrow> 'o res" where
  "collect_vec_output f vec = ret (f vec)"

interpretation acc_sums: window_accumulator "acc_fold_process acc_sum" acc_fold_output 0 sum_list
proof
  fix xs :: "int list"
  have "foldl acc_sum 0 xs = sum_list xs"
    by (induction xs rule: rev_induct) (auto simp: acc_sum_def)
  then show "xs \<noteq> [] \<Longrightarrow> acc_fold_output (foldl (acc_fold_process acc_sum) 0 xs) = ret (sum_list xs)"
    using acc_fold.output_result [of xs acc_sum 0] by simp
qed

interpretation acc_count: window_accumulator acc_count_process acc_count_output 0 length
proof
  fix xs :: "'i list"
  have "foldl acc_count_process n xs = n + length xs" for n
    by (induction xs arbitrary: n) (auto simp: acc_count_process_def)
  then show "acc_count_output (foldl acc_count_process 0 xs) = ret (length xs)"
    by (simp add: acc_count_output_def)
qed

interpretation acc_first: window_accumulator acc_first_process acc_first_output None hd
proof
  fix xs :: "'i list"
  have "foldl acc_first_process (Some x) ys = Some x" for x :: 'i and ys
    by (induction ys) (auto simp: acc_first_process_def)
  then show "xs \<noteq> [] \<Longrightarrow> acc_first_output (foldl acc_first_process None xs) = ret (hd xs)"
    by (cases xs) (auto simp: acc_first_output_def acc_first_process_def)
qed

interpretation acc_last: window_accumulator acc_last_process acc_last_output None last
proof
  fix xs :: "'i list"
  show "xs \<noteq> [] \<Longrightarrow> acc_last_output (foldl acc_last_process None xs) = ret (last xs)"
    by (induction xs rule: rev_induct) (auto simp: acc_last_process_def acc_last_output_def)
qed

lemma foldl_collect_vec: "foldl collect_vec_process vec xs = vec @ xs"
  by (induction xs arbitrary: vec) (auto simp: collect_vec_process_def)

interpretation acc_collect_vec: window_accumulator collect_vec_process "collect_vec_output f" "[]" f
  for f :: "'i list \<Rightarrow> 'o"
  by unfold_locales (simp add: foldl_collect_vec collect_vec_output_def)

section \<open>Join\<close>

text \<open>The window join: both sides are collected, the result iterates over their product.\<close>

datatype ('l, 'r) merge_element = MLeft 'l | MRight 'r

record ('l, 'r) product_iterator =
  pi_left :: "'l list"
  pi_right :: "'r list"
  pi_i :: nat
  pi_j :: nat

definition product_iterator_new :: "'l list \<Rightarrow> 'r list \<Rightarrow> ('l, 'r) product_iterator" where
  "product_iterator_new left right = \<lparr>pi_left = left, pi_right = right, pi_i = 0, pi_j = 0\<rparr>"

definition product_iterator_next :: "('l, 'r) product_iterator \<Rightarrow> ('l \<times> 'r) option \<times> ('l, 'r) product_iterator" where
  "product_iterator_next it =
     (if length (pi_left it) \<le> pi_i it \<or> length (pi_right it) \<le> pi_j it then (None, it)
      else
        let r = (pi_left it ! pi_i it, pi_right it ! pi_j it);
            it = it\<lparr>pi_j := pi_j it + 1\<rparr>
        in (Some r, if length (pi_right it) \<le> pi_j it then it\<lparr>pi_j := 0, pi_i := pi_i it + 1\<rparr> else it))"

definition acc_join_process :: "'l list \<times> 'r list \<Rightarrow> ('l, 'r) merge_element \<Rightarrow> 'l list \<times> 'r list" where
  "acc_join_process acc el = (case acc of (left, right) \<Rightarrow>
     (case el of MLeft l \<Rightarrow> (left @ [l], right) | MRight r \<Rightarrow> (left, right @ [r])))"

definition acc_join_output :: "'l list \<times> 'r list \<Rightarrow> ('l, 'r) product_iterator res" where
  "acc_join_output acc = (case acc of (left, right) \<Rightarrow> ret (product_iterator_new left right))"

definition lefts :: "('l, 'r) merge_element list \<Rightarrow> 'l list" where
  "lefts es = List.map_filter (\<lambda>e. case e of MLeft l \<Rightarrow> Some l | MRight _ \<Rightarrow> None) es"

definition rights :: "('l, 'r) merge_element list \<Rightarrow> 'r list" where
  "rights es = List.map_filter (\<lambda>e. case e of MLeft _ \<Rightarrow> None | MRight r \<Rightarrow> Some r) es"

lemma foldl_acc_join: "foldl acc_join_process (l, r) es = (l @ lefts es, r @ rights es)"
  by (induction es arbitrary: l r)
    (auto simp: acc_join_process_def lefts_def rights_def List.map_filter_simps split: merge_element.splits)

interpretation acc_join: window_accumulator acc_join_process acc_join_output "([], [])"
  "\<lambda>es. product_iterator_new (lefts es) (rights es)"
  by unfold_locales (simp add: foldl_acc_join acc_join_output_def)

text \<open>The items an iterator yields in \<open>n\<close> calls.\<close>

fun product_iterator_take :: "nat \<Rightarrow> ('l, 'r) product_iterator \<Rightarrow> ('l \<times> 'r) option list" where
  "product_iterator_take 0 it = []"
| "product_iterator_take (Suc n) it =
     (case product_iterator_next it of (r, it') \<Rightarrow> r # product_iterator_take n it')"

lemma product_iterator_rest:
  assumes "i \<le> length left" and "j < length right" and "i = length left \<Longrightarrow> j = 0"
  shows "product_iterator_take (length (drop (i * length right + j) (List.product left right)) + n)
    \<lparr>pi_left = left, pi_right = right, pi_i = i, pi_j = j\<rparr>
    = map Some (drop (i * length right + j) (List.product left right)) @ replicate n None"
  using assms
proof (induction "length left * length right - (i * length right + j)" arbitrary: i j)
  case 0
  have "i = length left"
  proof (rule ccontr)
    assume "i \<noteq> length left"
    with "0.prems" have "Suc i * length right \<le> length left * length right" by (intro mult_le_mono1) simp
    with "0.prems" "0.hyps" show False by simp
  qed
  then have "product_iterator_next \<lparr>pi_left = left, pi_right = right, pi_i = i, pi_j = j\<rparr> =
      (None, \<lparr>pi_left = left, pi_right = right, pi_i = i, pi_j = j\<rparr>)"
    by (simp add: product_iterator_next_def)
  then have "product_iterator_take n \<lparr>pi_left = left, pi_right = right, pi_i = i, pi_j = j\<rparr> = replicate n None" for n
    by (induction n) auto
  with "0.hyps" show ?case by simp
next
  case (Suc d)
  let ?p = "i * length right + j"
  from Suc.hyps(2) have p: "?p < length (List.product left right)" by simp
  then have i: "i < length left"
    using Suc.prems by (cases "i = length left") auto
  have nth: "List.product left right ! ?p = (left ! i, right ! j)"
  proof -
    have "right \<noteq> []" using Suc.prems(2) by auto
    then have "?p div length right = i" and "?p mod length right = j"
      using Suc.prems(2) by simp_all
    with p show ?thesis by (subst product_nth) simp_all
  qed
  let ?i = "if length right \<le> j + 1 then i + 1 else i" and ?j = "if length right \<le> j + 1 then 0 else j + 1"
  have nxt: "product_iterator_next \<lparr>pi_left = left, pi_right = right, pi_i = i, pi_j = j\<rparr> =
      (Some (left ! i, right ! j), \<lparr>pi_left = left, pi_right = right, pi_i = ?i, pi_j = ?j\<rparr>)"
    using Suc.prems i by (simp add: product_iterator_next_def Let_def)
  have next_p: "?i * length right + ?j = ?p + 1"
    using Suc.prems by (auto simp: not_le)
  have d: "d = length left * length right - (?i * length right + ?j)"
    using Suc.hyps(2) next_p by simp
  have bounds: "?i \<le> length left" "?j < length right" "?i = length left \<Longrightarrow> ?j = 0"
    using Suc.prems i by (auto split: if_splits)
  have IH: "product_iterator_take (length (drop (?p + 1) (List.product left right)) + n)
    \<lparr>pi_left = left, pi_right = right, pi_i = ?i, pi_j = ?j\<rparr>
    = map Some (drop (?p + 1) (List.product left right)) @ replicate n None"
    using Suc.hyps(1) [OF d bounds] unfolding next_p .
  have "drop ?p (List.product left right) = (left ! i, right ! j) # drop (?p + 1) (List.product left right)"
    using Cons_nth_drop_Suc [OF p] nth by simp
  with nxt IH show ?case by simp
qed

end
