(* ===== verification/Window_Count.thy ===== *)
theory Window_Count
  imports Window Window_Accumulators
begin

text \<open>
  Windows by count (\<^verbatim>\<open>src/operator/window/descr/count.rs\<close>, \<^verbatim>\<open>last_k.rs\<close>, \<^verbatim>\<open>all.rs\<close>). The managers keep
  their open windows as slots with their own accumulators; the lemmas say which elements a closed
  window contains. \<open>proc\<close> and \<open>outp\<close> are the accumulator's \<^verbatim>\<open>process\<close> and \<^verbatim>\<open>output\<close>.
\<close>

section \<open>Slots\<close>

record 'a slot =
  sl_count :: nat
  sl_acc :: 'a
  sl_ts :: "timestamp option"

definition slot_new :: "'a \<Rightarrow> 'a slot" where
  "slot_new acc = \<lparr>sl_count = 0, sl_acc = acc, sl_ts = None\<rparr>"

definition join_ts :: "timestamp option \<Rightarrow> timestamp option \<Rightarrow> timestamp option" where
  "join_ts a b =
     (case (a, b) of
        (Some a, Some b) \<Rightarrow> Some (max a b)
      | (Some t, None) \<Rightarrow> Some t
      | (None, Some t) \<Rightarrow> Some t
      | (None, None) \<Rightarrow> None)"

definition slot_add :: "('a \<Rightarrow> 'i \<Rightarrow> 'a) \<Rightarrow> 'i \<Rightarrow> timestamp option \<Rightarrow> 'a slot \<Rightarrow> 'a slot" where
  "slot_add proc el ts w =
     \<lparr>sl_count = sl_count w + 1, sl_acc = proc (sl_acc w) el, sl_ts = join_ts (sl_ts w) ts\<rparr>"

text \<open>\<^verbatim>\<open>update_slot\<close>, and the loop over the first \<open>k\<close> slots; indexing out of the deque panics.\<close>

definition update_slot :: "('a \<Rightarrow> 'i \<Rightarrow> 'a) \<Rightarrow> nat \<Rightarrow> 'i \<Rightarrow> timestamp option \<Rightarrow> 'a slot list \<Rightarrow> 'a slot list res" where
  "update_slot proc idx el ts ws =
     (if idx < length ws then ret (ws[idx := slot_add proc el ts (ws ! idx)]) else panic IndexOutOfBounds)"

fun update_slots :: "('a \<Rightarrow> 'i \<Rightarrow> 'a) \<Rightarrow> nat \<Rightarrow> nat \<Rightarrow> 'i \<Rightarrow> timestamp option \<Rightarrow> 'a slot list \<Rightarrow> 'a slot list res" where
  "update_slots proc i 0 el ts ws = ret ws"
| "update_slots proc i (Suc k) el ts ws =
     bindR (update_slot proc i el ts ws) (\<lambda>ws. update_slots proc (i + 1) k el ts ws)"

lemma update_slots_prefix:
  "i + k \<le> length ws \<Longrightarrow> update_slots proc i k el ts ws =
     ret (take i ws @ map (slot_add proc el ts) (take k (drop i ws)) @ drop (i + k) ws)"
proof (induction k arbitrary: i ws)
  case (Suc k)
  then have "i < length ws" by simp
  then have "take (i + 1) (ws[i := slot_add proc el ts (ws ! i)]) = take i ws @ [slot_add proc el ts (ws ! i)]"
    and "drop (i + 1) (ws[i := slot_add proc el ts (ws ! i)]) = drop (i + 1) ws"
    and "take (Suc k) (drop i ws) = ws ! i # take k (drop (i + 1) ws)"
    by (simp_all add: take_Suc_conv_app_nth drop_update_cancel Cons_nth_drop_Suc [symmetric])
  moreover have "drop (i + Suc k) ws = drop (i + 1 + k) (ws[i := slot_add proc el ts (ws ! i)])"
    by simp
  ultimately show ?case
    using Suc \<open>i < length ws\<close> Suc.IH [of "i + 1" "ws[i := slot_add proc el ts (ws ! i)]"]
    by (simp add: update_slot_def)
qed simp

section \<open>CountWindow\<close>

record 'a count_manager =
  cw_init :: 'a
  cw_size :: nat
  cw_slide :: nat
  cw_exact :: bool
  cw_ws :: "'a slot list"

record count_window =
  cwd_size :: nat
  cwd_slide :: nat
  cwd_exact :: bool

definition count_window_new :: "nat \<Rightarrow> nat \<Rightarrow> bool \<Rightarrow> count_window" where
  "count_window_new sz slide exact = \<lparr>cwd_size = sz, cwd_slide = slide, cwd_exact = exact\<rparr>"

definition count_window_sliding :: "nat \<Rightarrow> nat \<Rightarrow> count_window res" where
  "count_window_sliding sz slide =
     assertR (0 < sz) (assertR (0 < slide) (ret \<lparr>cwd_size = sz, cwd_slide = slide, cwd_exact = True\<rparr>))"

definition count_window_tumbling :: "nat \<Rightarrow> count_window res" where
  "count_window_tumbling sz =
     assertR (0 < sz) (ret \<lparr>cwd_size = sz, cwd_slide = sz, cwd_exact = True\<rparr>)"

definition count_window_build :: "count_window \<Rightarrow> 'a \<Rightarrow> 'a count_manager" where
  "count_window_build d acc =
     \<lparr>cw_init = acc, cw_size = cwd_size d, cw_slide = cwd_slide d, cw_exact = cwd_exact d, cw_ws = []\<rparr>"

text \<open>\<^verbatim>\<open>usize::div_ceil\<close>, which panics for a zero divisor.\<close>

definition div_ceil :: "nat \<Rightarrow> nat \<Rightarrow> nat res" where
  "div_ceil a b = (if b = 0 then panic DivideByZero else ret ((a + b - 1) div b))"

definition emit_slot :: "('a \<Rightarrow> 'o res) \<Rightarrow> 'a slot \<Rightarrow> 'o window_result res" where
  "emit_slot outp r = bindR (outp (sl_acc r)) (\<lambda>x. ret (window_result_new x (sl_ts r)))"

definition count_item :: "('a \<Rightarrow> 'i \<Rightarrow> 'a) \<Rightarrow> ('a \<Rightarrow> 'o res) \<Rightarrow> 'a count_manager \<Rightarrow> 'i \<Rightarrow> timestamp option
    \<Rightarrow> ('o window_result list \<times> 'a count_manager) res" where
  "count_item proc outp m item ts =
     bindR (div_ceil (cw_size m) (cw_slide m)) (\<lambda>n.
       let ws = cw_ws m @ replicate (n - length (cw_ws m)) (slot_new (cw_init m)) in
       case ws of
         [] \<Rightarrow> panic UnwrapNone
       | front # _ \<Rightarrow>
           bindR (update_slots proc 0 (sl_count front div cw_slide m + 1) item ts ws) (\<lambda>ws.
             if sl_count (hd ws) = cw_size m
             then bindR (emit_slot outp (hd ws)) (\<lambda>r. ret ([r], m\<lparr>cw_ws := tl ws\<rparr>))
             else ret ([], m\<lparr>cw_ws := ws\<rparr>)))"

definition count_process :: "('a \<Rightarrow> 'i \<Rightarrow> 'a) \<Rightarrow> ('a \<Rightarrow> 'o res) \<Rightarrow> ('a count_manager, 'i, 'o) process" where
  "count_process proc outp m el =
     (case el of
        Item item \<Rightarrow> count_item proc outp m item None
      | Timestamped item ts \<Rightarrow> count_item proc outp m item (Some ts)
      | e \<Rightarrow>
          if e = FlushAndRestart \<or> e = Terminate then
            (let m' = m\<lparr>cw_ws := []\<rparr> in
             if cw_exact m then ret ([], m')
             else (case cw_ws m of
                     [] \<Rightarrow> ret ([], m')
                   | r # _ \<Rightarrow>
                       if 0 < sl_count r then bindR (emit_slot outp r) (\<lambda>x. ret ([x], m'))
                       else ret ([], m')))
          else ret ([], m))"

text \<open>Managers are never recycled, and a new one ignores watermarks and end markers.\<close>

interpretation count_manager: window_manager "count_process proc outp" "\<lambda>_. False" "count_window_build d acc"
  for proc :: "'a \<Rightarrow> 'i \<Rightarrow> 'a" and outp :: "'a \<Rightarrow> 'o res" and d acc
proof
  fix e rs m'
  assume "elem_value e = None" and "count_process proc outp (count_window_build d acc) e = ret (rs, m')"
  then show "rs = [] \<and> (m' = count_window_build d acc \<or> False)"
    by (cases e) (auto simp: count_process_def count_window_build_def Let_def split: if_splits)
qed

subsection \<open>Which elements a window holds\<close>

text \<open>
  The reference: all the elements of the iteration are kept, and every \<open>slide\<close> elements, once there
  are \<open>sz\<close> of them, the window of the last \<open>sz\<close> is returned; if incomplete windows are wanted, the
  first one is returned at the end.
\<close>

definition window_elem :: "('i list \<Rightarrow> 'o) \<Rightarrow> 'i stream_element list \<Rightarrow> 'o stream_element" where
  "window_elem result w = with_timestamp (max_of (stamps w)) (result (elem_values w))"

definition windows_closed :: "nat \<Rightarrow> nat \<Rightarrow> nat \<Rightarrow> nat" where
  "windows_closed sz sl n = (if n < sz then 0 else (n - sz) div sl + 1)"

definition count_leftover :: "nat \<Rightarrow> nat \<Rightarrow> bool \<Rightarrow> ('i list \<Rightarrow> 'o) \<Rightarrow> 'i stream_element list \<Rightarrow> 'o stream_element list" where
  "count_leftover sz sl exact result seen =
     (let w = drop (windows_closed sz sl (length seen) * sl) seen
      in if exact \<or> w = [] then [] else [window_elem result w])"

fun count_ref :: "nat \<Rightarrow> nat \<Rightarrow> bool \<Rightarrow> ('i list \<Rightarrow> 'o) \<Rightarrow> 'i stream_element list \<Rightarrow> 'i stream_element
    \<Rightarrow> 'o stream_element list \<times> 'i stream_element list" where
  "count_ref sz sl exact result seen (Watermark w) = ([Watermark w], seen)"
| "count_ref sz sl exact result seen FlushBatch = ([], seen)"
| "count_ref sz sl exact result seen FlushAndRestart =
     (count_leftover sz sl exact result seen @ [FlushAndRestart], [])"
| "count_ref sz sl exact result seen Terminate =
     (count_leftover sz sl exact result seen @ [Terminate], [])"
| "count_ref sz sl exact result seen e =
     (let seen = seen @ [e]; n = length seen
      in (if sz \<le> n \<and> (n - sz) mod sl = 0 then [window_elem result (drop (n - sz) seen)] else [], seen))"

lemma windows_closed_bounds:
  assumes "0 < sl" and "sl \<le> sz"
  shows "n < windows_closed sz sl n * sl + sz" and "windows_closed sz sl n * sl \<le> n"
proof -
  have less: "(n - sz) mod sl < sl" using assms(1) by simp
  note split = div_mult_mod_eq [of "n - sz" sl]
  show "n < windows_closed sz sl n * sl + sz"
  proof (cases "n < sz")
    case False
    with split less have "n < (n - sz) div sl * sl + sl + sz" by linarith
    with False show ?thesis by (simp add: windows_closed_def add.commute)
  qed (simp add: windows_closed_def)
  show "windows_closed sz sl n * sl \<le> n"
  proof (cases "n < sz")
    case False
    with split assms(2) have "(n - sz) div sl * sl + sl \<le> n" by linarith
    with False show ?thesis by (simp add: windows_closed_def add.commute)
  qed (simp add: windows_closed_def)
qed

lemma windows_closed_Suc:
  assumes "0 < sl" and "sl \<le> sz"
  shows "windows_closed sz sl (Suc n) =
      (if Suc n = windows_closed sz sl n * sl + sz then Suc (windows_closed sz sl n) else windows_closed sz sl n)"
    and "Suc n = windows_closed sz sl n * sl + sz \<longleftrightarrow> sz \<le> Suc n \<and> (Suc n - sz) mod sl = 0"
proof -
  consider "Suc n < sz" | "Suc n = sz" | "sz \<le> n" by linarith
  then have both: "windows_closed sz sl (Suc n) =
      (if Suc n = windows_closed sz sl n * sl + sz then Suc (windows_closed sz sl n) else windows_closed sz sl n)
    \<and> (Suc n = windows_closed sz sl n * sl + sz \<longleftrightarrow> sz \<le> Suc n \<and> (Suc n - sz) mod sl = 0)"
  proof cases
    case 3
    let ?d = "n - sz"
    have suc: "Suc n - sz = Suc ?d" using 3 by simp
    have iff: "Suc n = (?d div sl + 1) * sl + sz \<longleftrightarrow> Suc ?d mod sl = 0"
    proof -
      have "Suc n = (?d div sl + 1) * sl + sz \<longleftrightarrow> Suc ?d = ?d div sl * sl + sl" using 3 by auto
      also have "\<dots> \<longleftrightarrow> Suc (?d mod sl) = sl"
        using div_mult_mod_eq [of ?d sl] by linarith
      also have "\<dots> \<longleftrightarrow> Suc ?d mod sl = 0"
        using assms(1) mod_Suc [of ?d sl] by auto
      finally show ?thesis .
    qed
    have "Suc ?d div sl = (if Suc ?d mod sl = 0 then Suc (?d div sl) else ?d div sl)"
      using assms(1) by (simp add: div_Suc)
    with 3 iff suc show ?thesis by (auto simp: windows_closed_def)
  qed (auto simp: windows_closed_def)
  from both show "windows_closed sz sl (Suc n) =
      (if Suc n = windows_closed sz sl n * sl + sz then Suc (windows_closed sz sl n) else windows_closed sz sl n)"
    by (rule conjunct1)
  from both show "Suc n = windows_closed sz sl n * sl + sz \<longleftrightarrow> sz \<le> Suc n \<and> (Suc n - sz) mod sl = 0"
    by (rule conjunct2)
qed

text \<open>The slot of the window that starts at an element.\<close>

definition slot_from :: "('a \<Rightarrow> 'i \<Rightarrow> 'a) \<Rightarrow> 'a \<Rightarrow> 'i stream_element list \<Rightarrow> nat \<Rightarrow> 'a slot" where
  "slot_from proc acc es start =
     \<lparr>sl_count = length (drop start es), sl_acc = foldl proc acc (elem_values (drop start es)),
      sl_ts = max_of (stamps (drop start es))\<rparr>"

lemma slot_from_new: "length es \<le> start \<Longrightarrow> slot_from proc acc es start = slot_new acc"
  by (simp add: slot_from_def slot_new_def)

lemma slot_from_count: "sl_count (slot_from proc acc es start) = length es - start"
  by (simp add: slot_from_def)

lemma slot_from_snoc:
  assumes "elem_value e = Some v"
  shows "slot_from proc acc (es @ [e]) start =
    (if start \<le> length es then slot_add proc v (item_timestamp e) (slot_from proc acc es start)
     else slot_new acc)"
proof (cases "start \<le> length es")
  case True
  have "max_of (stamps (drop start es @ [e])) = join_ts (max_of (stamps (drop start es))) (item_timestamp e)"
    using assms by (cases e; cases "max_of (stamps (drop start es))") (auto simp: join_ts_def)
  with True assms show ?thesis
    by (simp add: slot_from_def slot_add_def)
qed (simp add: slot_from_new)

text \<open>
  The invariant: padded with new slots, the deque holds the windows from the first open one on.
\<close>

definition count_slots :: "('a \<Rightarrow> 'i \<Rightarrow> 'a) \<Rightarrow> 'a count_manager \<Rightarrow> 'i stream_element list \<Rightarrow> bool" where
  "count_slots proc m seen \<longleftrightarrow>
     (let sz = cw_size m; sl = cw_slide m; n = (sz + sl - 1) div sl; c = windows_closed sz sl (length seen)
      in length (cw_ws m) \<le> n \<and> cw_ws m @ replicate (n - length (cw_ws m)) (slot_new (cw_init m)) =
           map (\<lambda>j. slot_from proc (cw_init m) seen ((c + j) * sl)) [0..<n])"

lemma div_ceil_bounds:
  assumes "0 < sl" and "0 < (sz :: nat)"
  shows "sz \<le> (sz + sl - 1) div sl * sl" and "x < sz \<Longrightarrow> x div sl + 1 \<le> (sz + sl - 1) div sl"
proof -
  have eq: "sz + sl - 1 = (sz - 1) + sl" using assms by simp
  have d: "(sz + sl - 1) div sl = (sz - 1) div sl + 1"
    unfolding eq using div_add_self2 [of sl "sz - 1"] assms(1) by simp
  have "sz - 1 < (sz - 1) div sl * sl + sl"
    using div_mult_mod_eq [of "sz - 1" sl] mod_less_divisor [OF assms(1), of "sz - 1"] by linarith
  then show "sz \<le> (sz + sl - 1) div sl * sl" unfolding d by simp
  show "x < sz \<Longrightarrow> x div sl + 1 \<le> (sz + sl - 1) div sl"
    unfolding d using div_le_mono [of x "sz - 1" sl] by simp
qed

lemma update_slots_windows:
  assumes "0 < sl" and e: "elem_value e = Some v"
    and k: "k = (length seen - c * sl) div sl + 1" "k \<le> n" "c * sl \<le> length seen"
  shows "update_slots proc 0 k v (item_timestamp e) (map (\<lambda>j. slot_from proc acc seen ((c + j) * sl)) [0..<n]) =
    ret (map (\<lambda>j. slot_from proc acc (seen @ [e]) ((c + j) * sl)) [0..<n])"
proof -
  have started: "(c + j) * sl \<le> length seen \<longleftrightarrow> j < k" for j
    using k(1,3) less_eq_div_iff_mult_less_eq [OF assms(1), of j "length seen - c * sl"]
    by (auto simp: add_mult_distrib)
  let ?ws = "map (\<lambda>j. slot_from proc acc seen ((c + j) * sl)) [0..<n]"
  have "map (slot_add proc v (item_timestamp e)) (take k ?ws) @ drop k ?ws =
      map (\<lambda>j. slot_from proc acc (seen @ [e]) ((c + j) * sl)) [0..<n]"
  proof (rule nth_equalityI)
    fix j
    assume "j < length (map (slot_add proc v (item_timestamp e)) (take k ?ws) @ drop k ?ws)"
    then have j: "j < n" using k(2) by simp
    show "(map (slot_add proc v (item_timestamp e)) (take k ?ws) @ drop k ?ws) ! j =
        map (\<lambda>j. slot_from proc acc (seen @ [e]) ((c + j) * sl)) [0..<n] ! j"
      using j k(2) started [of j] slot_from_snoc [OF e, of proc acc seen "(c + j) * sl"]
        slot_from_new [of seen "(c + j) * sl" proc acc]
      by (cases "j < k") (auto simp: nth_append)
  qed (use k(2) in simp)
  with k(2) show ?thesis by (simp add: update_slots_prefix)
qed

lemma elem_values_snoc_ne: "elem_value e = Some v \<Longrightarrow> elem_values (es @ [e]) \<noteq> []"
  by simp

lemma count_item_padded:
  assumes m: "cw_size m = sz" "cw_slide m = sl" and "0 < sl"
    and ws: "cw_ws m @ replicate ((sz + sl - 1) div sl - length (cw_ws m)) (slot_new (cw_init m)) = ws"
    and "ws = front # rest" and "update_slots proc 0 (sl_count front div sl + 1) item ts ws = ret ws'"
  shows "count_item proc outp m item ts =
    (if sl_count (hd ws') = sz
     then bindR (emit_slot outp (hd ws')) (\<lambda>r. ret ([r], m\<lparr>cw_ws := tl ws'\<rparr>))
     else ret ([], m\<lparr>cw_ws := ws'\<rparr>))"
proof -
  have "div_ceil sz sl = ret ((sz + sl - 1) div sl)"
    using assms(3) by (simp add: div_ceil_def)
  then show ?thesis
    unfolding count_item_def Let_def m using assms(5,6) by (simp only: bindR_simps ws list.case)
qed

text \<open>
  Adding an element: the started windows are updated, and the invariant holds again with or, when
  the first window is full, without that window.
\<close>

abbreviation open_slots :: "('a \<Rightarrow> 'i \<Rightarrow> 'a) \<Rightarrow> 'a \<Rightarrow> nat \<Rightarrow> nat \<Rightarrow> 'i stream_element list \<Rightarrow> nat \<Rightarrow> 'a slot list" where
  "open_slots proc acc sz sl es c \<equiv> map (\<lambda>j. slot_from proc acc es ((c + j) * sl)) [0..<(sz + sl - 1) div sl]"

lemma open_slots_front:
  assumes "0 < sl" and "0 < sz"
  shows "open_slots proc acc sz sl es c = slot_from proc acc es (c * sl) #
    map (\<lambda>j. slot_from proc acc es ((c + j) * sl)) [1..<(sz + sl - 1) div sl]"
proof -
  have "0 < (sz + sl - 1) div sl" using div_ceil_bounds(2) [OF assms, of 0] assms by simp
  then have "[0..<(sz + sl - 1) div sl] = 0 # [1..<(sz + sl - 1) div sl]" by (simp add: upt_conv_Cons)
  then show ?thesis by simp
qed

lemma count_update:
  fixes seen :: "'i stream_element list"
  assumes sl: "0 < sl" "sl \<le> sz" and e: "elem_value e = Some v"
  defines "c \<equiv> windows_closed sz sl (length seen)"
  shows "update_slots proc 0 (sl_count (slot_from proc acc seen (c * sl)) div sl + 1) v (item_timestamp e)
      (open_slots proc acc sz sl seen c) = ret (open_slots proc acc sz sl (seen @ [e]) c)"
proof -
  note bounds = windows_closed_bounds [OF sl, of "length seen", folded c_def]
  have "(length seen - c * sl) div sl + 1 \<le> (sz + sl - 1) div sl"
    using bounds sl by (intro div_ceil_bounds(2)) linarith+
  then show ?thesis
    unfolding slot_from_count by (rule update_slots_windows [OF sl(1) e refl _ bounds(2)])
qed

lemma count_slots_pad:
  "count_slots proc m seen \<Longrightarrow>
   cw_ws m @ replicate ((cw_size m + cw_slide m - 1) div cw_slide m - length (cw_ws m)) (slot_new (cw_init m)) =
     open_slots proc (cw_init m) (cw_size m) (cw_slide m) seen (windows_closed (cw_size m) (cw_slide m) (length seen))"
  by (simp add: count_slots_def Let_def)

lemma count_slots_next:
  fixes seen :: "'i stream_element list"
  assumes sl: "0 < sl" "sl \<le> sz" and m: "cw_size m = sz" "cw_slide m = sl"
  defines "c \<equiv> windows_closed sz sl (length seen)"
  shows "Suc (length seen) \<noteq> c * sl + sz \<Longrightarrow>
      count_slots proc (m\<lparr>cw_ws := open_slots proc (cw_init m) sz sl (seen @ [e]) c\<rparr>) (seen @ [e])"
    and "Suc (length seen) = c * sl + sz \<Longrightarrow>
      count_slots proc (m\<lparr>cw_ws := tl (open_slots proc (cw_init m) sz sl (seen @ [e]) c)\<rparr>) (seen @ [e])"
proof -
  let ?N = "(sz + sl - 1) div sl" and ?acc = "cw_init m"
  show "Suc (length seen) \<noteq> c * sl + sz \<Longrightarrow>
      count_slots proc (m\<lparr>cw_ws := open_slots proc ?acc sz sl (seen @ [e]) c\<rparr>) (seen @ [e])"
    using windows_closed_Suc(1) [OF sl, of "length seen"] m by (simp add: count_slots_def Let_def c_def)
  assume full: "Suc (length seen) = c * sl + sz"
  have sz: "0 < sz" using sl by simp
  then have N: "?N = Suc (?N - 1)" using div_ceil_bounds(2) [OF sl(1) sz, of 0] by simp
  let ?ws = "tl (open_slots proc ?acc sz sl (seen @ [e]) c)"
  have tl: "?ws = map (\<lambda>j. slot_from proc ?acc (seen @ [e]) ((c + j) * sl)) [1..<?N]"
    unfolding open_slots_front [OF sl(1) sz] by simp
  have "open_slots proc ?acc sz sl (seen @ [e]) (Suc c) =
      map (\<lambda>j. slot_from proc ?acc (seen @ [e]) ((c + j) * sl)) [1..<Suc ?N]"
    by (rule nth_equalityI) (auto simp: nth_upt algebra_simps simp del: upt_Suc)
  moreover have "length (seen @ [e]) \<le> (c + ?N) * sl"
    using full div_ceil_bounds(1) [OF sl(1) sz] by (simp add: add_mult_distrib)
  ultimately have "?ws @ [slot_new ?acc] = open_slots proc ?acc sz sl (seen @ [e]) (Suc c)"
    using N tl by (simp add: slot_from_new)
  then show "count_slots proc (m\<lparr>cw_ws := ?ws\<rparr>) (seen @ [e])"
    using windows_closed_Suc(1) [OF sl, of "length seen"] full m N
    by (simp add: count_slots_def Let_def c_def)
qed

lemma emit_slot_window:
  assumes "elem_values (drop start es) \<noteq> []"
    and "\<And>ys. ys \<noteq> [] \<Longrightarrow> outp (foldl proc acc ys) = ret (result ys)"
  shows "emit_slot outp (slot_from proc acc es start) =
    ret (window_result_new (result (elem_values (drop start es))) (max_of (stamps (drop start es))))"
  unfolding emit_slot_def slot_from_def by (simp add: assms)

lemma count_item_windows:
  assumes sl: "0 < sl" "sl \<le> sz" and m: "cw_size m = sz" "cw_slide m = sl"
    and inv: "count_slots proc m seen" and e: "elem_value e = Some v"
    and out: "\<And>ys. ys \<noteq> [] \<Longrightarrow> outp (foldl proc (cw_init m) ys) = ret (result ys)"
  shows "\<exists>ws. count_item proc outp m v (item_timestamp e) =
      ret (let n = length seen + 1; w = drop (n - sz) (seen @ [e])
           in if sz \<le> n \<and> (n - sz) mod sl = 0
              then [window_result_new (result (elem_values w)) (max_of (stamps w))] else [], m\<lparr>cw_ws := ws\<rparr>)
    \<and> count_slots proc (m\<lparr>cw_ws := ws\<rparr>) (seen @ [e])"
proof -
  let ?c = "windows_closed sz sl (length seen)" and ?acc = "cw_init m"
  let ?ws = "open_slots proc ?acc sz sl (seen @ [e]) ?c" and ?front = "slot_from proc ?acc (seen @ [e]) (?c * sl)"
  note bounds = windows_closed_bounds [OF sl, of "length seen"]
  have sz: "0 < sz" using sl by simp
  have hd: "hd ?ws = ?front" unfolding open_slots_front [OF sl(1) sz] by simp
  note pad = count_slots_pad [OF inv, unfolded m]
  have item: "count_item proc outp m v (item_timestamp e) =
      (if sl_count (hd ?ws) = sz
       then bindR (emit_slot outp (hd ?ws)) (\<lambda>r. ret ([r], m\<lparr>cw_ws := tl ?ws\<rparr>))
       else ret ([], m\<lparr>cw_ws := ?ws\<rparr>))"
    using count_update [OF sl e, of proc ?acc seen] sl(1)
    by (intro count_item_padded [OF m sl(1) pad open_slots_front [OF sl(1) sz]])
  have full: "sl_count ?front = sz \<longleftrightarrow> Suc (length seen) = ?c * sl + sz"
    using bounds sz by (simp add: slot_from_count) linarith
  show ?thesis
  proof (cases "Suc (length seen) = ?c * sl + sz")
    case True
    then have start: "?c * sl = length seen + 1 - sz" by simp
    have "drop (?c * sl) (seen @ [e]) = drop (?c * sl) seen @ [e]" using bounds(2) by simp
    then have ne: "elem_values (drop (?c * sl) (seen @ [e])) \<noteq> []" using e by (metis elem_values_snoc_ne)
    have emit: "emit_slot outp ?front =
        ret (window_result_new (result (elem_values (drop (?c * sl) (seen @ [e])))) (max_of (stamps (drop (?c * sl) (seen @ [e])))))"
      using ne out by (rule emit_slot_window)
    from True full have "count_item proc outp m v (item_timestamp e) =
        ret ([window_result_new (result (elem_values (drop (?c * sl) (seen @ [e])))) (max_of (stamps (drop (?c * sl) (seen @ [e]))))],
          m\<lparr>cw_ws := tl ?ws\<rparr>)"
      unfolding item hd emit by (simp only: if_True bindR_simps simp_thms)
    with True count_slots_next(2) [OF sl m True] windows_closed_Suc(2) [OF sl, of "length seen"] show ?thesis
      unfolding start by (intro exI [of _ "tl ?ws"]) (simp add: Let_def)
  next
    case False
    with full have "count_item proc outp m v (item_timestamp e) = ret ([], m\<lparr>cw_ws := ?ws\<rparr>)"
      unfolding item hd by simp
    with False count_slots_next(1) [OF sl m False] windows_closed_Suc(2) [OF sl, of "length seen"] show ?thesis
      by (intro exI [of _ ?ws]) (auto simp: Let_def)
  qed
qed

text \<open>The end of an iteration: the first open window, and a fresh start.\<close>

lemma count_slots_front:
  assumes sl: "0 < sl" "sl \<le> sz" and m: "cw_size m = sz" "cw_slide m = sl" and inv: "count_slots proc m seen"
  shows "cw_ws m = [] \<Longrightarrow> drop (windows_closed sz sl (length seen) * sl) seen = []"
    and "cw_ws m = r # ws \<Longrightarrow> r = slot_from proc (cw_init m) seen (windows_closed sz sl (length seen) * sl)"
proof -
  let ?N = "(sz + sl - 1) div sl" and ?c = "windows_closed sz sl (length seen)"
  have N: "0 < ?N" using div_ceil_bounds(2) [of sl sz 0] sl by simp
  have pad: "cw_ws m @ replicate (?N - length (cw_ws m)) (slot_new (cw_init m)) =
      map (\<lambda>j. slot_from proc (cw_init m) seen ((?c + j) * sl)) [0..<?N]"
    using inv m by (simp add: count_slots_def Let_def)
  have "hd (map (\<lambda>j. slot_from proc (cw_init m) seen ((?c + j) * sl)) [0..<?N]) = slot_from proc (cw_init m) seen (?c * sl)"
    using N by (simp add: upt_conv_Cons)
  then have hd: "hd (cw_ws m @ replicate (?N - length (cw_ws m)) (slot_new (cw_init m))) = slot_from proc (cw_init m) seen (?c * sl)"
    by (simp only: pad)
  show "cw_ws m = r # ws \<Longrightarrow> r = slot_from proc (cw_init m) seen (?c * sl)"
    using hd by simp
  assume "cw_ws m = []"
  with hd N have "slot_new (cw_init m) = slot_from proc (cw_init m) seen (?c * sl)"
    by (simp add: hd_replicate)
  then have "length seen - ?c * sl = 0"
    by (metis slot.select_convs(1) slot_from_count slot_new_def)
  then show "drop (?c * sl) seen = []" by simp
qed

lemma data_values: "list_all (\<lambda>e. elem_value e \<noteq> None) w \<Longrightarrow> w \<noteq> [] \<Longrightarrow> elem_values w \<noteq> []"
  by (cases w) auto

lemma count_end:
  assumes sl: "0 < sl" "sl \<le> sz" and m: "cw_size m = sz" "cw_slide m = sl" and inv: "count_slots proc m seen"
    and data: "list_all (\<lambda>e. elem_value e \<noteq> None) seen"
    and out: "\<And>ys. ys \<noteq> [] \<Longrightarrow> outp (foldl proc (cw_init m) ys) = ret (result ys)"
    and e: "e = FlushAndRestart \<or> e = Terminate"
  shows "\<exists>rs. count_process proc outp m e = ret (rs, m\<lparr>cw_ws := []\<rparr>)
    \<and> map wr_element rs = count_leftover sz sl (cw_exact m) result seen"
proof -
  let ?w = "drop (windows_closed sz sl (length seen) * sl) seen"
  note front = count_slots_front [OF sl m inv]
  have emit: "emit_slot outp (slot_from proc (cw_init m) seen (windows_closed sz sl (length seen) * sl)) =
      ret (window_result_new (result (elem_values ?w)) (max_of (stamps ?w)))" if "?w \<noteq> []"
  proof -
    have "list_all (\<lambda>e. elem_value e \<noteq> None) ?w" using data by (auto simp: list_all_iff dest: in_set_dropD)
    then have "elem_values ?w \<noteq> []" using that by (rule data_values)
    then show ?thesis
      unfolding emit_slot_def slot_from_def by (simp add: out)
  qed
  show ?thesis
  proof (cases "cw_ws m")
    case Nil
    with e front(1) show ?thesis by (auto simp: count_process_def count_leftover_def Let_def)
  next
    case (Cons r ws)
    from front(2) [OF Cons] e Cons emit show ?thesis
      by (auto simp: count_process_def count_leftover_def Let_def window_elem_def slot_from_count)
  qed
qed

lemma count_slots_fresh: "0 < cw_slide m \<Longrightarrow> cw_slide m \<le> cw_size m \<Longrightarrow> count_slots proc (m\<lparr>cw_ws := []\<rparr>) []"
  by (auto simp: count_slots_def Let_def slot_from_new map_replicate_const intro!: nth_equalityI)

lemma count_manager_run:
  assumes sl: "0 < sl" "sl \<le> sz" and "cw_size m = sz" and "cw_slide m = sl" and "cw_exact m = exact" and "cw_init m = acc"
    and "count_slots proc m seen" and "list_all (\<lambda>e. elem_value e \<noteq> None) seen"
    and out: "\<And>ys. ys \<noteq> [] \<Longrightarrow> outp (foldl proc acc ys) = ret (result ys)"
  shows "\<exists>m'. transduceR (manager_step (count_process proc outp)) m es =
    ret (transduce (count_ref sz sl exact result) seen es, m')"
  using assms(3-8)
proof (induction es arbitrary: m seen)
  case (Cons e es)
  have out': "\<And>ys. ys \<noteq> [] \<Longrightarrow> outp (foldl proc (cw_init m) ys) = ret (result ys)"
    using out Cons.prems(4) by simp
  have data: ?case if e: "elem_value e = Some v" for v
  proof -
    let ?n = "length seen + 1"
    let ?w = "drop (?n - sz) (seen @ [e])"
    let ?rs = "if sz \<le> ?n \<and> (?n - sz) mod sl = 0 then [window_result_new (result (elem_values ?w)) (max_of (stamps ?w))] else []"
    from count_item_windows [where outp = outp and result = result, OF sl Cons.prems(1,2,5) e out'] obtain ws where
      "count_item proc outp m v (item_timestamp e) = ret (?rs, m\<lparr>cw_ws := ws\<rparr>)"
      and inv: "count_slots proc (m\<lparr>cw_ws := ws\<rparr>) (seen @ [e])" unfolding Let_def by blast
    then have "manager_step (count_process proc outp) m e = ret (map wr_element ?rs, m\<lparr>cw_ws := ws\<rparr>)"
      using e by (cases e) (simp_all add: manager_step_def count_process_def)
    moreover have "count_ref sz sl exact result seen e = (map wr_element ?rs, seen @ [e])"
      using e by (cases e) (simp_all add: Let_def window_elem_def)
    ultimately show ?thesis
      using Cons.IH [of "m\<lparr>cw_ws := ws\<rparr>" "seen @ [e]"] Cons.prems inv e by auto
  qed
  have final: ?case if e: "e = FlushAndRestart \<or> e = Terminate"
  proof -
    from count_end [where outp = outp and result = result, OF sl Cons.prems(1,2,5,6) out' e] obtain rs where
      "count_process proc outp m e = ret (rs, m\<lparr>cw_ws := []\<rparr>)"
      "map wr_element rs = count_leftover sz sl exact result seen"
      using Cons.prems(3) by blast
    moreover have "count_slots proc (m\<lparr>cw_ws := []\<rparr>) []"
      using Cons.prems sl by (intro count_slots_fresh) auto
    ultimately show ?thesis
      using Cons.IH [of "m\<lparr>cw_ws := []\<rparr>" "[]"] Cons.prems e manager_step_def [of "count_process proc outp" m e]
      by auto
  qed
  have "\<exists>m'. transduceR (manager_step (count_process proc outp)) m es =
      ret (transduce (count_ref sz sl exact result) seen es, m')"
    using Cons.IH Cons.prems by blast
  then show ?case
    using data final manager_step_def [of "count_process proc outp" m e] count_process_def [of proc outp m e]
    by (cases e) auto
qed simp


lemma count_slots_build:
  "0 < cwd_slide d \<Longrightarrow> cwd_slide d \<le> cwd_size d \<Longrightarrow> count_slots proc (count_window_build d acc) []"
  using count_slots_fresh [of "count_window_build d acc" proc] by (simp add: count_window_build_def)

text \<open>
  C36: a keyed count window (\<^verbatim>\<open>CountWindow\<close> of \<open>size\<close> and \<open>slide \<le> size\<close>) over any well-formed
  stream: for every key, counting restarts in each iteration; when the \<open>n\<close>-th element of the key
  arrives and \<open>n - size\<close> is a nonnegative multiple of \<open>slide\<close>, the result of the accumulator on
  exactly the last \<open>size\<close> elements of the key is emitted, stamped with the largest timestamp of
  those; at the end of the iteration an inexact window also emits its first incomplete window.
  The watermarks and end markers of the stream are kept in place, and the operator never panics.
\<close>

theorem count_window_slices:
  assumes "hash_order ho" and "wf_stream es" and "pulls p s es s'"
    and sl: "0 < cwd_slide d" "cwd_slide d \<le> cwd_size d"
    and out: "window_accumulator proc outp acc result"
  shows "\<exists>outs st'. pulls (window_next ho (count_process proc outp) (\<lambda>_. False) p)
      (window_operator_new (count_window_build d acc) s) outs st'
    \<and> (\<forall>k. key_view k outs = transduce (count_ref (cwd_size d) (cwd_slide d) (cwd_exact d) result) [] (key_view k es))
    \<and> system_elems outs = system_elems es"
proof -
  let ?m = "count_window_build d acc"
  let ?out = "\<lambda>k. transduce (count_ref (cwd_size d) (cwd_slide d) (cwd_exact d) result) [] (key_view k es)"
  have "\<exists>m'. transduceR (manager_step (count_process proc outp)) ?m (key_view k es) = ret (?out k, m')" for k
    using sl window_accumulator.output_result [OF out]
    by (intro count_manager_run [where acc = acc] count_slots_build) (simp_all add: count_window_build_def)
  then obtain M' where "\<And>k. transduceR (manager_step (count_process proc outp)) ?m (key_view k es) = ret (?out k, M' k)"
    by metis
  from count_manager.window_operator_per_key [unfolded recycling_never, OF assms(1-3) this] show ?thesis .
qed

theorem count_window_slices_witness:
  "\<exists>outs st'. pulls (window_next (\<lambda>m. m) (count_process acc_count_process acc_count_output) (\<lambda>_. False) fake_next)
      (window_operator_new (count_window_build (count_window_new 2 1 False) 0)
        [Item (CHR ''a'', 5 :: int), Timestamped (CHR ''a'', 6) 3, Item (CHR ''b'', 7), FlushAndRestart, Terminate]) outs st'
    \<and> key_view CHR ''a'' outs = [Timestamped 2 3, Timestamped 1 3, FlushAndRestart, Terminate]
    \<and> key_view CHR ''b'' outs = [Item 1, FlushAndRestart, Terminate]"
proof -
  let ?es = "[Item (CHR ''a'', 5 :: int), Timestamped (CHR ''a'', 6) 3, Item (CHR ''b'', 7), FlushAndRestart, Terminate]"
  let ?d = "count_window_new 2 1 False"
  have wf: "wf_stream ?es" by (simp add: wf_stream_def)
  have d: "0 < cwd_slide ?d" "cwd_slide ?d \<le> cwd_size ?d" by (simp_all add: count_window_new_def)
  from count_window_slices [OF hash_order_id wf pulls_fake_all d acc_count.window_accumulator_axioms]
  obtain outs st' where outs: "pulls (window_next (\<lambda>m. m) (count_process acc_count_process acc_count_output) (\<lambda>_. False) fake_next)
      (window_operator_new (count_window_build ?d 0) ?es) outs st'"
    and views: "\<And>k. key_view k outs = transduce (count_ref (cwd_size ?d) (cwd_slide ?d) (cwd_exact ?d) length) [] (key_view k ?es)"
    by blast
  have "key_view CHR ''a'' outs = [Timestamped 2 3, Timestamped 1 3, FlushAndRestart, Terminate]"
    "key_view CHR ''b'' outs = [Item 1, FlushAndRestart, Terminate]"
    by (simp_all add: views count_window_new_def window_elem_def count_leftover_def windows_closed_def max_of_def)
  with outs show ?thesis by blast
qed

section \<open>A slide larger than the size\<close>

text \<open>
  With \<open>slide > size\<close> there is one slot, updated by every element: the elements between two windows
  are not skipped, and the manager works as the tumbling one.
\<close>

lemma hopping_item:
  assumes "cw_size m < cw_slide m" and "0 < cw_size m"
    and "cw_ws m = [] \<or> (\<exists>w. cw_ws m = [w] \<and> sl_count w < cw_size m)"
  shows "count_item proc outp m item ts =
      bindR (count_item proc outp (m\<lparr>cw_slide := cw_size m\<rparr>) item ts) (\<lambda>(rs, m'). ret (rs, m'\<lparr>cw_slide := cw_slide m\<rparr>))"
    and "count_item proc outp m item ts = ret (rs, m')
      \<Longrightarrow> (cw_ws m' = [] \<or> (\<exists>w. cw_ws m' = [w] \<and> sl_count w < cw_size m)) \<and> m'\<lparr>cw_ws := []\<rparr> = m\<lparr>cw_ws := []\<rparr>"
proof -
  define w where "w = (case cw_ws m of [] \<Rightarrow> slot_new (cw_init m) | w # _ \<Rightarrow> w)"
  have w: "sl_count w < cw_size m"
    and pad: "cw_ws m @ replicate (1 - length (cw_ws m)) (slot_new (cw_init m)) = [w]"
    using assms by (auto simp: w_def slot_new_def)
  have "(cw_size m + cw_slide m - 1) div cw_slide m = 1"
    using assms(1,2) by (intro div_nat_eqI) simp_all
  moreover have "(cw_size m + cw_size m - 1) div cw_size m = 1"
    using assms(2) by (intro div_nat_eqI) simp_all
  ultimately have eqs: "count_item proc outp m item ts =
      (if sl_count w + 1 = cw_size m
       then bindR (emit_slot outp (slot_add proc item ts w)) (\<lambda>r. ret ([r], m\<lparr>cw_ws := []\<rparr>))
       else ret ([], m\<lparr>cw_ws := [slot_add proc item ts w]\<rparr>))"
    "count_item proc outp (m\<lparr>cw_slide := cw_size m\<rparr>) item ts =
      (if sl_count w + 1 = cw_size m
       then bindR (emit_slot outp (slot_add proc item ts w)) (\<lambda>r. ret ([r], m\<lparr>cw_slide := cw_size m, cw_ws := []\<rparr>))
       else ret ([], m\<lparr>cw_slide := cw_size m, cw_ws := [slot_add proc item ts w]\<rparr>))"
    using pad w assms(1,2)
    by (simp_all add: count_item_def div_ceil_def Let_def update_slot_def slot_add_def)
  show "count_item proc outp m item ts =
      bindR (count_item proc outp (m\<lparr>cw_slide := cw_size m\<rparr>) item ts) (\<lambda>(rs, m'). ret (rs, m'\<lparr>cw_slide := cw_slide m\<rparr>))"
    unfolding eqs by (auto simp: bindR_def split: option.splits sum.splits)
  show "count_item proc outp m item ts = ret (rs, m')
      \<Longrightarrow> (cw_ws m' = [] \<or> (\<exists>w. cw_ws m' = [w] \<and> sl_count w < cw_size m)) \<and> m'\<lparr>cw_ws := []\<rparr> = m\<lparr>cw_ws := []\<rparr>"
    unfolding eqs using w by (auto simp: bindR_eq_ret slot_add_def split: if_splits)
qed

definition one_slot :: "nat \<Rightarrow> nat \<Rightarrow> bool \<Rightarrow> 'a \<Rightarrow> 'a count_manager \<Rightarrow> bool" where
  "one_slot sz slide exact acc m \<longleftrightarrow> m\<lparr>cw_ws := []\<rparr> = count_window_build (count_window_new sz slide exact) acc
     \<and> (cw_ws m = [] \<or> (\<exists>w. cw_ws m = [w] \<and> sl_count w < sz))"

lemma count_window_build_ws [simp]:
  "cw_ws (count_window_build d acc) = []" "(count_window_build d acc)\<lparr>cw_ws := []\<rparr> = count_window_build d acc"
  by (simp_all add: count_window_build_def)

lemma count_item_config:
  assumes "count_item proc outp m item ts = ret (rs, m')"
  shows "cw_slide m' = cw_slide m"
proof -
  from assms obtain n where n: "div_ceil (cw_size m) (cw_slide m) = ret n"
    by (auto simp: count_item_def bindR_eq_ret)
  show ?thesis
  proof (cases "cw_ws m @ replicate (n - length (cw_ws m)) (slot_new (cw_init m))")
    case Nil
    with assms n show ?thesis by (simp add: count_item_def Let_def del: append_is_Nil_conv)
  next
    case (Cons w ws)
    with assms n show ?thesis
      by (auto simp: count_item_def Let_def bindR_eq_ret simp del: update_slots.simps split: if_splits)
  qed
qed

lemma count_process_config:
  "count_process proc outp m e = ret (rs, m') \<Longrightarrow> cw_slide m' = cw_slide m"
  by (cases e)
    (auto simp: count_process_def Let_def bindR_eq_ret dest: count_item_config split: list.splits if_splits)

lemma one_slot_fields:
  assumes "one_slot sz slide exact acc m"
  shows "cw_size m = sz" and "cw_slide m = slide" and "cw_exact m = exact" and "cw_init m = acc"
  using assms by (cases m; auto simp: one_slot_def count_window_build_def count_window_new_def)+

lemma hopping_process:
  assumes "0 < sz" and "sz < slide" and "one_slot sz slide exact acc m"
  shows "count_process proc outp m e =
      bindR (count_process proc outp (m\<lparr>cw_slide := sz\<rparr>) e) (\<lambda>(rs, m'). ret (rs, m'\<lparr>cw_slide := slide\<rparr>))"
    and "count_process proc outp m e = ret (rs, m') \<Longrightarrow> one_slot sz slide exact acc m'"
proof -
  note m = one_slot_fields [OF assms(3)]
  have ws: "cw_ws m = [] \<or> (\<exists>w. cw_ws m = [w] \<and> sl_count w < cw_size m)"
    using assms(3) m by (simp add: one_slot_def)
  note item = hopping_item [of m, OF _ _ ws, unfolded m, OF assms(2,1)]
  have same: "m\<lparr>cw_slide := slide\<rparr> = m" "m\<lparr>cw_ws := [], cw_slide := slide\<rparr> = m\<lparr>cw_ws := []\<rparr>"
    using m by (cases m; simp)+
  show "count_process proc outp m e =
      bindR (count_process proc outp (m\<lparr>cw_slide := sz\<rparr>) e) (\<lambda>(rs, m'). ret (rs, m'\<lparr>cw_slide := slide\<rparr>))"
  proof (cases "elem_value e")
    case None
    then show ?thesis
      using same by (cases e)
        (auto simp: count_process_def Let_def bindR_def split: list.splits option.splits sum.splits)
  next
    case (Some v)
    then show ?thesis
      using item(1) [of proc outp v "item_timestamp e"] by (cases e) (simp_all add: count_process_def)
  qed
  show "count_process proc outp m e = ret (rs, m') \<Longrightarrow> one_slot sz slide exact acc m'"
    using item(2) [of proc outp _ _ rs m'] assms(3) m
    by (cases e) (auto simp: count_process_def one_slot_def Let_def bindR_eq_ret
        split: list.splits if_splits)
qed


lemma hopping_run:
  assumes "0 < sz" and "sz < slide" and "one_slot sz slide exact acc m"
    and "transduceR (manager_step (count_process proc outp)) (m\<lparr>cw_slide := sz\<rparr>) es = ret (out, m')"
  shows "transduceR (manager_step (count_process proc outp)) m es = ret (out, m'\<lparr>cw_slide := slide\<rparr>)"
  using assms(3,4)
proof (induction es arbitrary: m out)
  case Nil
  then show ?case using one_slot_fields(2) [OF Nil(1)] by (cases m) auto
next
  case (Cons e es)
  note eq = hopping_process [OF assms(1,2) Cons.prems(1), of proc outp e]
  from Cons.prems(2) obtain rs m1 out2 where m1: "count_process proc outp (m\<lparr>cw_slide := sz\<rparr>) e = ret (rs, m1)"
    and rest: "transduceR (manager_step (count_process proc outp)) m1 es = ret (out2, m')"
    and out: "out = map wr_element rs @ (case e of Watermark w \<Rightarrow> [Watermark w] | Terminate \<Rightarrow> [Terminate]
              | FlushAndRestart \<Rightarrow> [FlushAndRestart] | _ \<Rightarrow> []) @ out2"
    unfolding transduceR_Cons_ret by (auto simp: manager_step_def bindR_eq_ret)
  from eq(1) m1 have m: "count_process proc outp m e = ret (rs, m1\<lparr>cw_slide := slide\<rparr>)" by simp
  then have "one_slot sz slide exact acc (m1\<lparr>cw_slide := slide\<rparr>)" by (rule eq(2))
  moreover have "(m1\<lparr>cw_slide := slide\<rparr>)\<lparr>cw_slide := sz\<rparr> = m1"
    using count_process_config [OF m1] by (cases m1) simp
  ultimately show ?case
    using Cons.IH [of "m1\<lparr>cw_slide := slide\<rparr>" out2] rest m out
      manager_step_def [of "count_process proc outp" m e] by simp
qed


text \<open>
  A count window whose slide is larger than its size: \<^verbatim>\<open>CountWindow::sliding(size, slide)\<close> with
  \<open>size < slide\<close> returns, for every key, exactly the windows of \<^verbatim>\<open>CountWindow::tumbling(size)\<close>; no
  element between two windows is skipped.
\<close>

theorem count_window_hopping_is_tumbling:
  assumes "hash_order ho" and "wf_stream es" and "pulls p s es s'"
    and sl: "0 < sz" "sz < slide" and acc: "window_accumulator proc outp acc result"
  shows "\<exists>d outs st'. count_window_sliding sz slide = ret d
    \<and> pulls (window_next ho (count_process proc outp) (\<lambda>_. False) p)
        (window_operator_new (count_window_build d acc) s) outs st'
    \<and> (\<forall>k. key_view k outs = transduce (count_ref sz sz True result) [] (key_view k es))
    \<and> system_elems outs = system_elems es"
proof -
  let ?m = "count_window_build (count_window_new sz slide True) acc"
    and ?t = "count_window_build (count_window_new sz sz True) acc"
  let ?out = "\<lambda>k. transduce (count_ref sz sz True result) [] (key_view k es)"
  have d: "count_window_sliding sz slide = ret (count_window_new sz slide True)"
    using sl by (simp add: count_window_sliding_def count_window_new_def)
  have "one_slot sz slide True acc ?m" by (simp add: one_slot_def)
  moreover have "?m\<lparr>cw_slide := sz\<rparr> = ?t" by (simp add: count_window_build_def count_window_new_def)
  moreover have "\<exists>m'. transduceR (manager_step (count_process proc outp)) ?t (key_view k es) = ret (?out k, m')" for k
    using sl window_accumulator.output_result [OF acc]
    by (intro count_manager_run [where acc = acc] count_slots_build) (simp_all add: count_window_build_def count_window_new_def)
  ultimately have "\<exists>m'. transduceR (manager_step (count_process proc outp)) ?m (key_view k es) = ret (?out k, m')" for k
    using hopping_run [OF sl] by metis
  then obtain M' where "\<And>k. transduceR (manager_step (count_process proc outp)) ?m (key_view k es) = ret (?out k, M' k)"
    by metis
  from count_manager.window_operator_per_key [unfolded recycling_never, OF assms(1-3) this] d show ?thesis by blast
qed

theorem count_window_hopping_is_tumbling_witness:
  "\<exists>d outs st'. count_window_sliding 1 3 = ret d
    \<and> pulls (window_next rev (count_process acc_count_process acc_count_output) (\<lambda>_. False) fake_next)
      (window_operator_new (count_window_build d 0)
        [Item (True, ''x''), Item (True, ''y''), FlushAndRestart, Terminate]) outs st'
    \<and> key_view True outs = [Item 1, Item 1, FlushAndRestart, Terminate]"
proof -
  let ?es = "[Item (True, ''x''), Item (True, ''y''), FlushAndRestart, Terminate]"
  have wf: "wf_stream ?es" by (simp add: wf_stream_def)
  have "key_view True outs = [Item 1, Item 1, FlushAndRestart, Terminate]"
    if "\<forall>k. key_view k outs = transduce (count_ref 1 1 True length) [] (key_view k ?es)" for outs
    using that by (simp add: window_elem_def count_leftover_def)
  moreover have "(0 :: nat) < 1" "(1 :: nat) < 3" by simp_all
  note count_window_hopping_is_tumbling [OF hash_order_rev wf pulls_fake_all this acc_count.window_accumulator_axioms]
  ultimately show ?thesis by (elim exE conjE) (intro exI conjI; assumption?; blast)
qed

section \<open>LastKWindow\<close>

record 'a last_k_manager =
  lk_init :: 'a
  lk_idx :: nat
  lk_size :: nat
  lk_ws :: "'a slot list"

definition last_k_build :: "nat \<Rightarrow> 'a \<Rightarrow> 'a last_k_manager" where
  "last_k_build sz acc = \<lparr>lk_init = acc, lk_idx = 0, lk_size = sz, lk_ws = []\<rparr>"

definition last_k_item :: "('a \<Rightarrow> 'i \<Rightarrow> 'a) \<Rightarrow> ('a \<Rightarrow> 'o res) \<Rightarrow> 'a last_k_manager \<Rightarrow> 'i \<Rightarrow> timestamp option
    \<Rightarrow> ('o window_result list \<times> 'a last_k_manager) res" where
  "last_k_item proc outp m item ts =
     (let ws = lk_ws m @ replicate (lk_size m - length (lk_ws m)) (slot_new (lk_init m)) in
      case ws of
        [] \<Rightarrow> panic UnwrapNone
      | front # _ \<Rightarrow>
          bindR (update_slots proc 0 (sl_count front + 1) item ts ws) (\<lambda>ws.
            let m' = m\<lparr>lk_idx := lk_idx m + 1\<rparr> in
            if sl_count (hd ws) = lk_size m
            then bindR (emit_slot outp (hd ws)) (\<lambda>r. ret ([r], m'\<lparr>lk_ws := tl ws\<rparr>))
            else bindR (emit_slot outp (hd ws)) (\<lambda>r. ret ([r], m'\<lparr>lk_ws := ws\<rparr>))))"

definition last_k_process :: "('a \<Rightarrow> 'i \<Rightarrow> 'a) \<Rightarrow> ('a \<Rightarrow> 'o res) \<Rightarrow> ('a last_k_manager, 'i, 'o) process" where
  "last_k_process proc outp m el =
     (case el of
        Item item \<Rightarrow> last_k_item proc outp m item None
      | Timestamped item ts \<Rightarrow> last_k_item proc outp m item (Some ts)
      | FlushAndRestart \<Rightarrow> ret ([], m\<lparr>lk_ws := []\<rparr>)
      | Terminate \<Rightarrow> ret ([], m\<lparr>lk_ws := []\<rparr>)
      | _ \<Rightarrow> ret ([], m))"

interpretation last_k_manager: window_manager "last_k_process proc outp" "\<lambda>_. False" "last_k_build sz acc"
  for proc :: "'a \<Rightarrow> 'i \<Rightarrow> 'a" and outp :: "'a \<Rightarrow> 'o res" and sz acc
proof
  fix e rs m'
  assume "elem_value e = None" and "last_k_process proc outp (last_k_build sz acc) e = ret (rs, m')"
  then show "rs = [] \<and> (m' = last_k_build sz acc \<or> False)"
    by (cases e) (auto simp: last_k_process_def last_k_build_def)
qed

text \<open>The reference: every element is answered with the window of the last \<open>k\<close> elements.\<close>

fun last_k_ref :: "nat \<Rightarrow> ('i list \<Rightarrow> 'o) \<Rightarrow> 'i stream_element list \<Rightarrow> 'i stream_element
    \<Rightarrow> 'o stream_element list \<times> 'i stream_element list" where
  "last_k_ref k result seen (Watermark w) = ([Watermark w], seen)"
| "last_k_ref k result seen FlushBatch = ([], seen)"
| "last_k_ref k result seen FlushAndRestart = ([FlushAndRestart], [])"
| "last_k_ref k result seen Terminate = ([Terminate], [])"
| "last_k_ref k result seen e =
     (let seen = seen @ [e] in ([window_elem result (drop (length seen - k) seen)], seen))"

text \<open>The slots are those of a count window of slide one.\<close>

definition as_count :: "'a last_k_manager \<Rightarrow> 'a count_manager" where
  "as_count m = \<lparr>cw_init = lk_init m, cw_size = lk_size m, cw_slide = 1, cw_exact = True, cw_ws = lk_ws m\<rparr>"

lemma as_count_fields [simp]:
  "cw_init (as_count m) = lk_init m" "cw_size (as_count m) = lk_size m" "cw_slide (as_count m) = 1"
  "cw_ws (as_count m) = lk_ws m" "as_count (m\<lparr>lk_idx := i, lk_ws := ws\<rparr>) = (as_count m)\<lparr>cw_ws := ws\<rparr>"
  "as_count (m\<lparr>lk_idx := i\<rparr>) = as_count m" "as_count (m\<lparr>lk_ws := ws\<rparr>) = (as_count m)\<lparr>cw_ws := ws\<rparr>"
  by (simp_all add: as_count_def)

lemma windows_closed_one: "0 < sz \<Longrightarrow> windows_closed sz 1 n = Suc n - sz"
  by (auto simp: windows_closed_def)

lemma last_k_item_window:
  assumes sz: "0 < sz" and m: "lk_size m = sz" and inv: "count_slots proc (as_count m) seen" and e: "elem_value e = Some v"
    and out: "\<And>ys. ys \<noteq> [] \<Longrightarrow> outp (foldl proc (lk_init m) ys) = ret (result ys)"
  shows "\<exists>i ws. last_k_item proc outp m v (item_timestamp e) =
      ret (let w = drop (Suc (length seen) - sz) (seen @ [e])
           in [window_result_new (result (elem_values w)) (max_of (stamps w))], m\<lparr>lk_idx := i, lk_ws := ws\<rparr>)
    \<and> count_slots proc ((as_count m)\<lparr>cw_ws := ws\<rparr>) (seen @ [e])"
proof -
  let ?c = "windows_closed sz 1 (length seen)" and ?acc = "lk_init m"
  let ?ws = "open_slots proc ?acc sz 1 (seen @ [e]) ?c" and ?front = "slot_from proc ?acc (seen @ [e]) (?c * 1)"
  let ?w = "drop (?c * 1) (seen @ [e])"
  have one: "0 < (1 :: nat)" "1 \<le> sz" using sz by simp_all
  note bounds = windows_closed_bounds [OF one, of "length seen"]
  have c: "?c * 1 = Suc (length seen) - sz" using sz by (simp only: windows_closed_one mult_1_right)
  have hd: "hd ?ws = ?front" unfolding open_slots_front [OF one(1) sz] by simp
  have pad: "lk_ws m @ replicate (sz - length (lk_ws m)) (slot_new ?acc) = open_slots proc ?acc sz 1 seen ?c"
    using count_slots_pad [OF inv] m by simp
  have upd: "update_slots proc 0 (sl_count (slot_from proc ?acc seen (?c * 1)) + 1) v (item_timestamp e)
      (open_slots proc ?acc sz 1 seen ?c) = ret ?ws"
    using count_update [OF one e, of proc ?acc seen] by (simp only: div_by_1)
  have "elem_values ?w \<noteq> []"
    using bounds(2) e by (simp add: windows_closed_one)
  then have emit: "emit_slot outp ?front = ret (window_result_new (result (elem_values ?w)) (max_of (stamps ?w)))"
    using out by (rule emit_slot_window)
  have item: "last_k_item proc outp m v (item_timestamp e) =
      ret ([window_result_new (result (elem_values ?w)) (max_of (stamps ?w))],
        m\<lparr>lk_idx := lk_idx m + 1, lk_ws := if sl_count ?front = sz then tl ?ws else ?ws\<rparr>)"
    unfolding last_k_item_def Let_def m pad using upd
    by (simp only: open_slots_front [OF one(1) sz, of proc ?acc seen] list.case bindR_simps hd emit if_distrib
        [of "\<lambda>ws. ret (_, m\<lparr>lk_idx := lk_idx m + 1, lk_ws := ws\<rparr>)"])
  have full: "sl_count ?front = sz \<longleftrightarrow> Suc (length seen) = ?c * 1 + sz"
    using bounds sz by (simp add: slot_from_count) linarith
  have "count_slots proc ((as_count m)\<lparr>cw_ws := if sl_count ?front = sz then tl ?ws else ?ws\<rparr>) (seen @ [e])"
  proof (cases "sl_count ?front = sz")
    case True
    with full have "Suc (length seen) = ?c * 1 + sz" by blast
    from count_slots_next(2) [OF one _ _ this, of "as_count m" proc e] m show ?thesis
      unfolding if_P [OF True] by (simp only: as_count_fields simp_thms)
  next
    case False
    with full have "Suc (length seen) \<noteq> ?c * 1 + sz" by blast
    from count_slots_next(1) [OF one _ _ this, of "as_count m" proc e] m show ?thesis
      unfolding if_not_P [OF False] by (simp only: as_count_fields simp_thms)
  qed
  with item show ?thesis unfolding c Let_def by blast
qed

lemma last_k_run:
  assumes sz: "0 < sz" and "lk_size m = sz" and "lk_init m = acc" and "count_slots proc (as_count m) seen"
    and out: "\<And>ys. ys \<noteq> [] \<Longrightarrow> outp (foldl proc acc ys) = ret (result ys)"
  shows "\<exists>m'. transduceR (manager_step (last_k_process proc outp)) m es =
    ret (transduce (last_k_ref sz result) seen es, m')"
  using assms(2-4)
proof (induction es arbitrary: m seen)
  case (Cons e es)
  have data: ?case if e: "elem_value e = Some v" for v
  proof -
    let ?w = "drop (Suc (length seen) - sz) (seen @ [e])"
    let ?rs = "[window_result_new (result (elem_values ?w)) (max_of (stamps ?w))]"
    have "\<And>ys. ys \<noteq> [] \<Longrightarrow> outp (foldl proc (lk_init m) ys) = ret (result ys)"
      using out Cons.prems(2) by simp
    from last_k_item_window [where outp = outp and result = result, OF sz Cons.prems(1,3) e this] obtain i ws where
      "last_k_item proc outp m v (item_timestamp e) = ret (?rs, m\<lparr>lk_idx := i, lk_ws := ws\<rparr>)"
      and inv: "count_slots proc ((as_count m)\<lparr>cw_ws := ws\<rparr>) (seen @ [e])" unfolding Let_def by blast
    then have "manager_step (last_k_process proc outp) m e = ret (map wr_element ?rs, m\<lparr>lk_idx := i, lk_ws := ws\<rparr>)"
      using e by (cases e) (simp_all add: manager_step_def last_k_process_def)
    moreover have "last_k_ref sz result seen e = (map wr_element ?rs, seen @ [e])"
      using e by (cases e) (simp_all add: Let_def window_elem_def)
    ultimately show ?thesis
      using Cons.IH [of "m\<lparr>lk_idx := i, lk_ws := ws\<rparr>" "seen @ [e]"] Cons.prems inv by auto
  qed
  have "count_slots proc ((as_count m)\<lparr>cw_ws := []\<rparr>) []"
    using count_slots_fresh [of "as_count m" proc] sz Cons.prems(1) by simp
  then have "\<exists>m'. transduceR (manager_step (last_k_process proc outp)) (m\<lparr>lk_ws := []\<rparr>) es =
      ret (transduce (last_k_ref sz result) [] es, m')"
    using Cons.IH [of "m\<lparr>lk_ws := []\<rparr>" "[]"] Cons.prems by simp
  moreover have "\<exists>m'. transduceR (manager_step (last_k_process proc outp)) m es =
      ret (transduce (last_k_ref sz result) seen es, m')"
    using Cons.IH Cons.prems by blast
  ultimately show ?case
    using data manager_step_def [of "last_k_process proc outp" m e] last_k_process_def [of proc outp m e]
    by (cases e) auto
qed simp

text \<open>
  \<^verbatim>\<open>LastKWindow(k)\<close> with \<open>0 < k\<close>: for every key, each element is answered at once with the
  accumulator's result on the last \<open>k\<close> elements of the key in the iteration (on all of them while
  there are fewer), stamped with their largest timestamp.
\<close>

theorem last_k_window_slides:
  assumes "hash_order ho" and "wf_stream es" and "pulls p s es s'"
    and sz: "0 < sz" and acc: "window_accumulator proc outp acc result"
  shows "\<exists>outs st'. pulls (window_next ho (last_k_process proc outp) (\<lambda>_. False) p)
      (window_operator_new (last_k_build sz acc) s) outs st'
    \<and> (\<forall>k. key_view k outs = transduce (last_k_ref sz result) [] (key_view k es))
    \<and> system_elems outs = system_elems es"
proof -
  let ?out = "\<lambda>k. transduce (last_k_ref sz result) [] (key_view k es)"
  have "count_slots proc (as_count (last_k_build sz acc)) []"
    using count_slots_fresh [of "as_count (last_k_build sz acc)" proc] sz by (simp add: as_count_def last_k_build_def)
  then have "\<exists>m'. transduceR (manager_step (last_k_process proc outp)) (last_k_build sz acc) (key_view k es) = ret (?out k, m')" for k
    using window_accumulator.output_result [OF acc] sz
    by (intro last_k_run [where acc = acc]) (simp_all add: last_k_build_def)
  then obtain M' where "\<And>k. transduceR (manager_step (last_k_process proc outp)) (last_k_build sz acc) (key_view k es) = ret (?out k, M' k)"
    by metis
  from last_k_manager.window_operator_per_key [unfolded recycling_never, OF assms(1-3) this] show ?thesis .
qed

theorem last_k_window_slides_witness:
  "\<exists>outs st'. pulls (window_next (\<lambda>m. m) (last_k_process acc_count_process acc_count_output) (\<lambda>_. False) fake_next)
      (window_operator_new (last_k_build 2 0)
        [Item (True, ''x''), Item (True, ''y''), Item (True, ''z''), FlushAndRestart, Terminate]) outs st'
    \<and> key_view True outs = [Item 1, Item 2, Item 2, FlushAndRestart, Terminate]"
proof -
  let ?es = "[Item (True, ''x''), Item (True, ''y''), Item (True, ''z''), FlushAndRestart, Terminate]"
  have wf: "wf_stream ?es" by (simp add: wf_stream_def)
  have two: "0 < (2 :: nat)" by simp
  have "key_view True outs = [Item 1, Item 2, Item 2, FlushAndRestart, Terminate]"
    if "\<forall>k. key_view k outs = transduce (last_k_ref 2 length) [] (key_view k ?es)" for outs
    using that by (simp add: window_elem_def)
  moreover note last_k_window_slides [OF hash_order_id wf pulls_fake_all two acc_count.window_accumulator_axioms]
  ultimately show ?thesis by (elim exE conjE) (intro exI conjI; assumption?; blast)
qed

section \<open>AllWindow\<close>

record 'a all_manager =
  aw_init :: 'a
  aw_accumulator :: "'a option"
  aw_tsmin :: "timestamp option"

definition all_window_build :: "'a \<Rightarrow> 'a all_manager" where
  "all_window_build acc = \<lparr>aw_init = acc, aw_accumulator = None, aw_tsmin = None\<rparr>"

definition opt_min :: "timestamp option \<Rightarrow> timestamp option \<Rightarrow> timestamp option" where
  "opt_min a b =
     (case (a, b) of
        (Some a, Some b) \<Rightarrow> Some (min a b)
      | (Some a, None) \<Rightarrow> Some a
      | (None, Some a) \<Rightarrow> Some a
      | (None, None) \<Rightarrow> None)"

definition all_process :: "('a \<Rightarrow> 'i \<Rightarrow> 'a) \<Rightarrow> ('a \<Rightarrow> 'o res) \<Rightarrow> ('a all_manager, 'i, 'o) process" where
  "all_process proc outp m el =
     (let m = m\<lparr>aw_tsmin := opt_min (timestamp_of el) (aw_tsmin m)\<rparr>;
          add = (\<lambda>item. ret ([], m\<lparr>aw_accumulator :=
                   Some (proc (case aw_accumulator m of None \<Rightarrow> aw_init m | Some a \<Rightarrow> a) item)\<rparr>));
          emit = (\<lambda>a. bindR (outp a) (\<lambda>x. ret ([window_result_new x (aw_tsmin m)],
                   m\<lparr>aw_accumulator := None, aw_tsmin := None\<rparr>)))
      in case el of
           Item item \<Rightarrow> add item
         | Timestamped item _ \<Rightarrow> add item
         | FlushAndRestart \<Rightarrow> bindR (unwrapR (aw_accumulator m)) emit
         | Terminate \<Rightarrow> (case aw_accumulator m of None \<Rightarrow> ret ([], m) | Some a \<Rightarrow> emit a)
         | _ \<Rightarrow> ret ([], m))"

text \<open>The elements of an iteration, processed by a manager.\<close>

definition min_time :: "'a stream_element list \<Rightarrow> timestamp option" where
  "min_time es = foldl (\<lambda>m e. opt_min (timestamp_of e) m) None es"

lemma all_window_step:
  assumes "\<not> is_marker e"
  shows "manager_step (all_process proc outp) m e = ret (map Watermark (watermarks [e]),
    m\<lparr>aw_tsmin := opt_min (timestamp_of e) (aw_tsmin m),
      aw_accumulator := (case elem_value e of None \<Rightarrow> aw_accumulator m
        | Some v \<Rightarrow> Some (proc (case aw_accumulator m of None \<Rightarrow> aw_init m | Some a \<Rightarrow> a) v))\<rparr>)"
  using assms by (cases e) (auto simp: manager_step_def all_process_def Let_def split: option.splits)

lemma all_window_data:
  assumes "data_only es"
  shows "transduceR (manager_step (all_process proc outp)) m es = ret (map Watermark (watermarks es),
    m\<lparr>aw_tsmin := foldl (\<lambda>t e. opt_min (timestamp_of e) t) (aw_tsmin m) es,
      aw_accumulator := if elem_values es = [] then aw_accumulator m
        else Some (foldl proc (case aw_accumulator m of None \<Rightarrow> aw_init m | Some a \<Rightarrow> a) (elem_values es))\<rparr>)"
  using assms
proof (induction es arbitrary: m)
  case (Cons e es)
  then show ?case by (auto simp: all_window_step split: option.splits)
qed simp

text \<open>
  An \<^verbatim>\<open>AllWindow\<close> manager over iterations that each hold at least one element of the key: one
  result per iteration, the accumulator's result on all the elements in order, stamped with the
  smallest timestamp the iteration carried, watermarks included.
\<close>

theorem all_window_folds_iterations:
  assumes acc: "window_accumulator proc outp acc result"
    and "\<forall>seg \<in> set segs. data_only seg \<and> elem_values seg \<noteq> []"
  shows "\<exists>m'. transduceR (manager_step (all_process proc outp)) (all_window_build acc) (unsegment segs) =
    ret (unsegment (map (\<lambda>seg. map Watermark (watermarks seg) @ [with_timestamp (min_time seg) (result (elem_values seg))]) segs), m')"
  using assms(2)
proof (induction segs)
  case Nil
  then show ?case by (simp add: unsegment_def manager_step_def all_process_def all_window_build_def opt_min_def)
next
  case (Cons seg segs)
  have "foldl proc acc (elem_values seg) = a \<Longrightarrow> outp a = ret (result (elem_values seg))" for a
    using window_accumulator.output_result [OF acc, of "elem_values seg"] Cons.prems by simp
  then have "transduceR (manager_step (all_process proc outp)) (all_window_build acc) (seg @ [FlushAndRestart]) =
      ret (map Watermark (watermarks seg) @ [with_timestamp (min_time seg) (result (elem_values seg)), FlushAndRestart],
        all_window_build acc)"
    using Cons.prems
    by (simp add: transduceR_append all_window_data manager_step_def all_process_def all_window_build_def
        min_time_def opt_min_def split: option.splits)
  moreover obtain m' where "transduceR (manager_step (all_process proc outp)) (all_window_build acc) (unsegment segs) =
      ret (unsegment (map (\<lambda>seg. map Watermark (watermarks seg) @ [with_timestamp (min_time seg) (result (elem_values seg))]) segs), m')"
    using Cons by auto
  ultimately show ?case
    unfolding unsegment_Cons list.map by (simp add: transduceR_append [of _ _ "seg @ [FlushAndRestart]"] del: append_assoc)
qed

theorem all_window_folds_iterations_witness:
  "\<exists>m'. transduceR (manager_step (all_process acc_count_process acc_count_output)) (all_window_build 0)
      [Timestamped ''x'' 4, Timestamped ''y'' 3, Watermark 5, FlushAndRestart, Item ''z'', FlushAndRestart, Terminate] =
    ret ([Watermark 5, Timestamped 2 3, FlushAndRestart, Item 1, FlushAndRestart, Terminate], m')"
proof -
  let ?segs = "[[Timestamped ''x'' 4, Timestamped ''y'' 3, Watermark 5], [Item ''z'']]"
  have "\<forall>seg \<in> set ?segs. data_only seg \<and> elem_values seg \<noteq> []" by simp
  from all_window_folds_iterations [OF acc_count.window_accumulator_axioms this] obtain m' where
    "transduceR (manager_step (all_process acc_count_process acc_count_output)) (all_window_build 0) (unsegment ?segs) =
      ret (unsegment (map (\<lambda>seg. map Watermark (watermarks seg) @ [with_timestamp (min_time seg) (length (elem_values seg))]) ?segs), m')"
    by blast
  moreover have "unsegment ?segs = [Timestamped ''x'' 4, Timestamped ''y'' 3, Watermark 5, FlushAndRestart, Item ''z'', FlushAndRestart, Terminate]"
    by (simp add: unsegment_def)
  moreover have "unsegment (map (\<lambda>seg. map Watermark (watermarks seg) @ [with_timestamp (min_time seg) (length (elem_values seg))]) ?segs) =
      [Watermark 5, Timestamped 2 3, FlushAndRestart, Item 1, FlushAndRestart, Terminate]"
    by (simp add: unsegment_def min_time_def opt_min_def)
  ultimately show ?thesis by metis
qed

text \<open>
  The \<^verbatim>\<open>AllWindow\<close> operator keeps the manager of a key after its first iteration, and the
  \<^verbatim>\<open>FlushAndRestart\<close> of an iteration in which that key has no element makes it panic (\<^verbatim>\<open>unwrap\<close> on the
  missing accumulator), whatever the key and the accumulator are.
\<close>

theorem all_window_idle_key_panics:
  assumes "hash_order ho" and acc: "window_accumulator proc outp acc result"
  shows "\<exists>st. pulls (window_next ho (all_process proc outp) (\<lambda>_. False) fake_next)
      (window_operator_new (all_window_build acc) [Item (k, v), FlushAndRestart, FlushAndRestart, Terminate])
      [Item (k, result [v]), FlushAndRestart] st
    \<and> window_next ho (all_process proc outp) (\<lambda>_. False) fake_next st = panic UnwrapNone"
proof -
  have ho: "ho [x] = [x]" for x
    using hash_order_mset [OF assms(1), of "[x]"] by (metis mset_single_iff_right)
  have out: "outp (proc acc v) = ret (result [v])"
    using window_accumulator.output_result [OF acc, of "[v]"] by simp
  let ?N = "window_next ho (all_process proc outp) (\<lambda>_. False) fake_next"
  let ?st = "\<lambda>ws q buf. \<lparr>wo_prev = q, wo_windows = ws, wo_init = all_window_build acc, wo_output_buffer = buf\<rparr>"
  let ?m = "\<lparr>aw_init = acc, aw_accumulator = Some (proc acc v), aw_tsmin = None\<rparr>"
  have first: "?N (?st [] (Item (k, v) # q) []) = ?N (?st [(k, ?m)] q [])" for q
    by (subst window_next.simps)
      (simp add: window_item_def keyed_results_def all_process_def all_window_build_def opt_min_def Let_def)
  have flush: "?N (?st [(k, ?m)] (FlushAndRestart # q) []) =
      ?N (?st [(k, all_window_build acc)] q [Item (k, result [v]), FlushAndRestart])" for q
    by (subst window_next.simps)
      (simp add: window_system_def keyed_results_def all_process_def all_window_build_def opt_min_def Let_def ho out)
  have idle: "?N (?st [(k, all_window_build acc)] (FlushAndRestart # q) []) = panic UnwrapNone" for q
    by (subst window_next.simps)
      (simp add: window_system_def all_process_def all_window_build_def opt_min_def Let_def ho)
  have "pulls ?N (?st [(k, all_window_build acc)] q [Item (k, result [v]), FlushAndRestart])
      [Item (k, result [v]), FlushAndRestart] (?st [(k, all_window_build acc)] q [])" for q
    using window_next_buffer [where out = "[Item (k, result [v]), FlushAndRestart]" and rest = "[]"] by simp
  then have "pulls ?N (?st [] [Item (k, v), FlushAndRestart, FlushAndRestart, Terminate] [])
      [Item (k, result [v]), FlushAndRestart] (?st [(k, all_window_build acc)] [FlushAndRestart, Terminate] [])"
    using first [of "[FlushAndRestart, FlushAndRestart, Terminate]"] flush [of "[FlushAndRestart, Terminate]"]
    by (simp only: pulls_Cons_iff)
  with idle show ?thesis by (auto simp: window_operator_new_def)
qed

theorem all_window_idle_key_panics_witness:
  "\<exists>st. pulls (window_next rev (all_process acc_count_process acc_count_output) (\<lambda>_. False) fake_next)
      (window_operator_new (all_window_build 0) [Item (True, ''x''), FlushAndRestart, FlushAndRestart, Terminate])
      [Item (True, 1), FlushAndRestart] st
    \<and> window_next rev (all_process acc_count_process acc_count_output) (\<lambda>_. False) fake_next st = panic UnwrapNone"
  using all_window_idle_key_panics [OF hash_order_rev acc_count.window_accumulator_axioms, of True "''x''"] by simp

end
