(* ===== verification/Window_Time.thy ===== *)
theory Window_Time
  imports Window Window_Accumulators
begin

text \<open>
  Windows by time (\<^verbatim>\<open>src/operator/window/descr/event_time.rs\<close>, \<^verbatim>\<open>processing_time.rs\<close>, \<^verbatim>\<open>session.rs\<close>,
  \<^verbatim>\<open>transaction.rs\<close>). Event time comes with the elements; the wall clock is an argument of the
  managers that read it. \<open>proc\<close> and \<open>outp\<close> are the accumulator's \<^verbatim>\<open>process\<close> and \<^verbatim>\<open>output\<close>.
\<close>

section \<open>Slots with a time span\<close>

record 'a time_slot =
  ts_acc :: 'a
  ts_start :: timestamp
  ts_end :: timestamp
  ts_active :: bool

definition time_slot_new :: "'a \<Rightarrow> timestamp \<Rightarrow> timestamp \<Rightarrow> 'a time_slot" where
  "time_slot_new acc st en = \<lparr>ts_acc = acc, ts_start = st, ts_end = en, ts_active = False\<rparr>"

text \<open>The update of the slots that contain \<open>t\<close>: \<^verbatim>\<open>skip_while\<close>, \<^verbatim>\<open>take_while\<close> and \<^verbatim>\<open>for_each\<close>.\<close>

definition feed_slots :: "('a \<Rightarrow> 'i \<Rightarrow> 'a) \<Rightarrow> 'i \<Rightarrow> timestamp \<Rightarrow> 'a time_slot list \<Rightarrow> 'a time_slot list" where
  "feed_slots proc item t ws =
     (let skipped = takeWhile (\<lambda>w. ts_end w \<le> t) ws;
          rest = dropWhile (\<lambda>w. ts_end w \<le> t) ws
      in skipped @ map (\<lambda>w. w\<lparr>ts_acc := proc (ts_acc w) item, ts_active := True\<rparr>) (takeWhile (\<lambda>w. ts_start w \<le> t) rest)
           @ dropWhile (\<lambda>w. ts_start w \<le> t) rest)"

text \<open>\<^verbatim>\<open>filter(active).map(output).collect()\<close>, with the result's constructor as \<open>wrap\<close>.\<close>

fun slot_results :: "('a \<Rightarrow> 'o res) \<Rightarrow> ('o \<Rightarrow> 'a time_slot \<Rightarrow> 'o window_result) \<Rightarrow> 'a time_slot list
    \<Rightarrow> 'o window_result list res" where
  "slot_results outp wrap [] = ret []"
| "slot_results outp wrap (w # ws) =
     (if ts_active w
      then bindR (outp (ts_acc w)) (\<lambda>x. bindR (slot_results outp wrap ws) (\<lambda>rs. ret (wrap x w # rs)))
      else slot_results outp wrap ws)"

section \<open>EventTimeWindow\<close>

record 'a event_manager =
  em_init :: 'a
  em_size :: timestamp
  em_slide :: timestamp
  em_last_watermark :: "timestamp option"
  em_ws :: "'a time_slot list"

record event_window =
  ew_size :: timestamp
  ew_slide :: timestamp

definition event_sliding :: "timestamp \<Rightarrow> timestamp \<Rightarrow> event_window res" where
  "event_sliding sz slide =
     assertR (0 < sz) (assertR (0 < slide) (ret \<lparr>ew_size = sz, ew_slide = slide\<rparr>))"

definition event_tumbling :: "timestamp \<Rightarrow> event_window res" where
  "event_tumbling sz = assertR (0 < sz) (ret \<lparr>ew_size = sz, ew_slide = sz\<rparr>)"

definition event_build :: "event_window \<Rightarrow> 'a \<Rightarrow> 'a event_manager" where
  "event_build d acc =
     \<lparr>em_init = acc, em_size = ew_size d, em_slide = ew_slide d, em_last_watermark = None, em_ws = []\<rparr>"

text \<open>\<^verbatim>\<open>i64\<close> division, which truncates towards zero.\<close>

definition div_i64 :: "int \<Rightarrow> int \<Rightarrow> int res" where
  "div_i64 a b = (if b = 0 then panic DivideByZero else arith_i64 (sgn a * sgn b * (\<bar>a\<bar> div \<bar>b\<bar>)))"

text \<open>The skip of empty windows: \<^verbatim>\<open>next_start += (w - next_start).max(0) / slide * slide\<close>.\<close>

definition skip_empty :: "timestamp \<Rightarrow> timestamp option \<Rightarrow> timestamp \<Rightarrow> timestamp res" where
  "skip_empty slide last_watermark next_start =
     (case last_watermark of
        None \<Rightarrow> ret next_start
      | Some w \<Rightarrow>
          bindR (arith_i64 (w - next_start)) (\<lambda>d.
            bindR (div_i64 (max d 0) slide) (\<lambda>n.
              bindR (arith_i64 (n * slide)) (\<lambda>k. arith_i64 (next_start + k)))))"

partial_function (option) alloc_loop :: "'a \<Rightarrow> timestamp \<Rightarrow> timestamp \<Rightarrow> timestamp option \<Rightarrow> timestamp
    \<Rightarrow> 'a time_slot list \<Rightarrow> 'a time_slot list res" where
  "alloc_loop acc sz slide last_watermark t ws =
     (if (if ws = [] then True else ts_start (last ws) < t)
      then bindR (if ws = [] then ret t else arith_i64 (ts_start (last ws) + slide)) (\<lambda>next_start.
             bindR (skip_empty slide last_watermark next_start) (\<lambda>next_start.
               bindR (arith_i64 (next_start + sz)) (\<lambda>en.
                 alloc_loop acc sz slide last_watermark t (ws @ [time_slot_new acc next_start en]))))
      else ret ws)"

definition alloc_windows :: "'a event_manager \<Rightarrow> timestamp \<Rightarrow> 'a event_manager res" where
  "alloc_windows m t =
     assertR (case em_last_watermark m of Some w \<Rightarrow> w \<le> t | None \<Rightarrow> True)
       (bindR (alloc_loop (em_init m) (em_size m) (em_slide m) (em_last_watermark m) t (em_ws m)) (\<lambda>ws.
          ret (m\<lparr>em_ws := ws\<rparr>)))"

definition event_process :: "('a \<Rightarrow> 'i \<Rightarrow> 'a) \<Rightarrow> ('a \<Rightarrow> 'o res) \<Rightarrow> ('a event_manager, 'i, 'o) process" where
  "event_process proc outp m el =
     (let results = slot_results outp (\<lambda>x w. WTimestamped x (ts_end w)) in
      case el of
        Timestamped item t \<Rightarrow>
          bindR (alloc_windows m t) (\<lambda>m. ret ([], m\<lparr>em_ws := feed_slots proc item t (em_ws m)\<rparr>))
      | Watermark t \<Rightarrow>
          bindR (results (takeWhile (\<lambda>w. ts_end w < t) (em_ws m))) (\<lambda>rs.
            ret (rs, m\<lparr>em_last_watermark := Some t, em_ws := dropWhile (\<lambda>w. ts_end w < t) (em_ws m)\<rparr>))
      | Item _ \<Rightarrow> panic ExplicitPanic
      | FlushBatch \<Rightarrow> ret ([], m)
      | _ \<Rightarrow> bindR (results (em_ws m)) (\<lambda>rs. ret (rs, m\<lparr>em_ws := []\<rparr>)))"

definition event_recycle :: "'a event_manager \<Rightarrow> bool" where
  "event_recycle m \<longleftrightarrow> em_ws m = []"

interpretation event_manager: window_manager "event_process proc outp" event_recycle "event_build d acc"
  for proc :: "'a \<Rightarrow> 'i \<Rightarrow> 'a" and outp :: "'a \<Rightarrow> 'o res" and d acc
proof
  fix e rs m'
  assume "elem_value e = None" and "event_process proc outp (event_build d acc) e = ret (rs, m')"
  then show "rs = [] \<and> (m' = event_build d acc \<or> event_recycle m')"
    by (cases e) (auto simp: event_process_def event_build_def event_recycle_def)
qed

subsection \<open>Allocation\<close>

text \<open>The bounds under which no computation overflows.\<close>

definition moderate :: "int \<Rightarrow> bool" where
  "moderate t \<longleftrightarrow> \<bar>t\<bar> \<le> 2 ^ 61"

abbreviation spaced :: "timestamp \<Rightarrow> timestamp list \<Rightarrow> bool" where
  "spaced slide starts \<equiv> sorted_wrt (\<lambda>a b. a + slide \<le> b) starts"

lemma spaced_le_last: "spaced slide xs \<Longrightarrow> 0 < slide \<Longrightarrow> a \<in> set xs \<Longrightarrow> a \<le> last xs"
proof (induction xs)
  case (Cons x xs)
  show ?case
  proof (cases "xs = []")
    case False
    then have "x \<le> last xs" using Cons.prems(1,2) by (auto dest: bspec [OF _ last_in_set])
    with Cons False show ?thesis by (cases "a = x") auto
  qed (use Cons.prems in simp)
qed simp

subsection \<open>The grid of the windows\<close>

text \<open>
  The reference for the allocation: windows start on the grid of multiples of \<open>slide\<close> from the last start \<open>b\<close> on. For an
  element at \<open>t\<close> they are allocated up to the first one that starts at \<open>t\<close> or later, without those that start
  more than a slide before the last watermark.
\<close>

definition ceil_div :: "int \<Rightarrow> int \<Rightarrow> int" where
  "ceil_div a b = - ((- a) div b)"

definition grid_after :: "timestamp \<Rightarrow> timestamp option \<Rightarrow> timestamp \<Rightarrow> timestamp \<Rightarrow> timestamp list" where
  "grid_after slide lw b t =
     map (\<lambda>j. b + j * slide) [(case lw of None \<Rightarrow> 1 | Some w \<Rightarrow> max 1 ((w - b) div slide))..ceil_div (t - b) slide]"

lemma div_floor: "0 < b \<Longrightarrow> n \<le> a div b \<longleftrightarrow> n * b \<le> (a :: int)"
proof
  assume b: "0 < b" and "n \<le> a div b"
  then have "n * b \<le> a div b * b" by (simp add: mult_right_mono)
  then show "n * b \<le> a" using pos_mod_sign [OF b, of a] div_mult_mod_eq [of a b] by linarith
next
  assume b: "0 < b" and "n * b \<le> a"
  then have "(n * b) div b \<le> a div b" by (intro zdiv_mono1)
  then show "n \<le> a div b" using b by simp
qed

lemma ceil_div_le: "0 < b \<Longrightarrow> ceil_div a b \<le> n \<longleftrightarrow> a \<le> n * b"
  using div_floor [of b "- n" "- a"] by (auto simp: ceil_div_def)

lemma ceil_div_shift: "0 < b \<Longrightarrow> ceil_div (a - n * b) b = ceil_div a b - n"
  using div_mult_self1 [of b "- a" n] by (simp add: ceil_div_def add.commute)

lemma upto_shift: "map (\<lambda>j. f (n + j)) [i..j] = map f [n + i..n + (j::int)]"
proof (induction i j rule: upto.induct)
  case (1 i j)
  then show ?case by (simp add: upto.simps [of i j] upto.simps [of "n + i" "n + j"] add.assoc)
qed

lemma grid_after_done: "0 < slide \<Longrightarrow> t \<le> b \<Longrightarrow> grid_after slide lw b t = []"
proof -
  assume "0 < slide" "t \<le> b"
  then have "ceil_div (t - b) slide \<le> 0" by (simp add: ceil_div_le)
  then show ?thesis by (auto simp: grid_after_def split: option.split)
qed

lemma grid_after_next:
  assumes "0 < slide" and "b < t" and "case lw of None \<Rightarrow> True | Some w \<Rightarrow> w \<le> t"
    and n: "n = b + (case lw of None \<Rightarrow> 1 | Some w \<Rightarrow> max 1 ((w - b) div slide)) * slide"
  shows "grid_after slide lw b t = n # grid_after slide lw n t"
proof -
  let ?j = "case lw of None \<Rightarrow> 1 | Some w \<Rightarrow> max 1 ((w - b) div slide)" and ?k = "ceil_div (t - b) slide"
  have le1: "(?j - 1) * slide < t - b"
  proof (cases lw)
    case (Some w)
    have "(w - b) div slide * slide \<le> w - b" using div_floor [OF assms(1), of "(w - b) div slide" "w - b"] by simp
    then have "((w - b) div slide - 1) * slide < t - b" using assms(1,3) Some by (simp add: left_diff_distrib)
    then show ?thesis using assms(2) Some by (simp add: max_def)
  qed (use assms(2) in simp)
  then have "\<not> ?k \<le> ?j - 1" unfolding ceil_div_le [OF assms(1)] by simp
  then have "[?j..?k] = ?j # [?j + 1..?k]" by (simp add: upto_rec1)
  then have "grid_after slide lw b t = n # map (\<lambda>j. b + j * slide) [?j + 1..?k]" by (simp add: grid_after_def n)
  also have "map (\<lambda>j. b + j * slide) [?j + 1..?k] = map (\<lambda>j. n + j * slide) [1..?k - ?j]"
    using upto_shift [of "\<lambda>j. b + j * slide" ?j 1 "?k - ?j"] by (simp add: n algebra_simps)
  also have "?k - ?j = ceil_div (t - n) slide"
    using ceil_div_shift [OF assms(1), of "t - b" ?j] by (simp add: n algebra_simps)
  also have "(case lw of None \<Rightarrow> 1 | Some w \<Rightarrow> max 1 ((w - n) div slide)) = 1"
  proof (cases lw)
    case (Some w)
    have "w - n < slide"
    proof -
      have "w - b < ((w - b) div slide + 1) * slide" using div_floor [OF assms(1), of "(w - b) div slide + 1" "w - b"] by simp
      moreover have "(w - b) div slide * slide \<le> ?j * slide" using assms(1) Some by (simp add: mult_right_mono)
      ultimately show ?thesis by (simp add: n algebra_simps)
    qed
    then have "(w - n) div slide \<le> 0" using div_floor [OF assms(1), of 1 "w - n"] by simp
    then show ?thesis using Some by simp
  qed simp
  then have "map (\<lambda>j. n + j * slide) [1..ceil_div (t - n) slide] = grid_after slide lw n t" unfolding grid_after_def by simp
  finally show ?thesis .
qed

lemma skip_grid:
  assumes "0 < (slide :: int)"
  shows "(b + slide) + max (w - (b + slide)) 0 div slide * slide = b + max 1 ((w - b) div slide) * slide"
proof (cases "b + slide \<le> w")
  case True
  have "w - (b + slide) = (w - b) + (- 1) * slide" by simp
  then have "(w - (b + slide)) div slide = (w - b) div slide - 1" using assms by (simp only: div_mult_self1)
  moreover have "1 \<le> (w - b) div slide" using True assms by (simp add: div_floor)
  ultimately show ?thesis using True by (simp add: max_absorb1 left_diff_distrib)
next
  case False
  then have "\<not> 2 \<le> (w - b) div slide" using assms by (simp add: div_floor)
  with False show ?thesis by (simp add: max_def)
qed

subsection \<open>The loop\<close>

lemma arith_i64_ret: "\<bar>t\<bar> \<le> 2 ^ 63 - 1 \<Longrightarrow> arith_i64 t = ret t"
  by (auto simp: arith_i64_def in_i64_def i64_min_def i64_max_def)

lemma skip_empty_ret:
  assumes "moderate slide" "0 < slide" "\<bar>n\<bar> \<le> 2 * 2 ^ 61"
    and "case lw of None \<Rightarrow> True | Some w \<Rightarrow> moderate w"
  shows "\<exists>n'. skip_empty slide lw n = ret n' \<and> n \<le> n' \<and> \<bar>n'\<bar> \<le> 2 * 2 ^ 61
    \<and> (n' = n \<or> (\<exists>w. lw = Some w \<and> n' \<le> w))
    \<and> n' = n + (case lw of None \<Rightarrow> 0 | Some w \<Rightarrow> max (w - n) 0 div slide * slide)"
proof (cases lw)
  case (Some w)
  let ?d = "max (w - n) 0"
  let ?k = "?d div slide * slide"
  have w: "\<bar>w\<bar> \<le> 2 ^ 61" using assms(4) Some by (simp add: moderate_def)
  have d: "0 \<le> ?d" "\<bar>w - n\<bar> \<le> 3 * 2 ^ 61" using assms(3) w by auto
  have "?k \<le> ?d" using pos_mod_sign [OF assms(2), of ?d] div_mult_mod_eq [of ?d slide] by linarith
  with d(1) assms(2) have k: "0 \<le> ?k" "?k \<le> ?d" by (simp_all add: pos_imp_zdiv_nonneg_iff)
  have q: "sgn ?d * sgn slide * (\<bar>?d\<bar> div \<bar>slide\<bar>) = ?d div slide"
    using assms(2) d(1) by (cases "?d = 0") (auto simp: sgn_if)
  have q0: "0 \<le> ?d div slide" using d(1) assms(2) by (simp add: pos_imp_zdiv_nonneg_iff)
  have q1: "?d div slide \<le> ?d div slide * slide" using q0 assms(2) by (simp add: mult_le_cancel_left1)
  have dd: "?d \<le> 3 * 2 ^ 61" using d by auto
  have a1: "arith_i64 (w - n) = ret (w - n)" using d(2) by (intro arith_i64_ret) auto
  have a2: "div_i64 ?d slide = ret (?d div slide)"
    using assms(2) q q0 q1 k dd by (simp only: div_i64_def) (simp add: arith_i64_ret)
  have a3: "arith_i64 ?k = ret ?k" using k dd by (intro arith_i64_ret) auto
  have nk: "?k = 0 \<or> n + ?k \<le> w" using k(2) by (cases "w \<le> n") auto
  then have b: "\<bar>n + ?k\<bar> \<le> 2 * 2 ^ 61" using assms(3) w k(1) by linarith
  have a4: "arith_i64 (n + ?k) = ret (n + ?k)" using b by (intro arith_i64_ret) auto
  have "skip_empty slide lw n = ret (n + ?k)"
    unfolding skip_empty_def Some option.case a1 bindR_simps a2 a3 a4 ..
  with k b nk Some show ?thesis by auto
qed (use assms(3) in \<open>simp add: skip_empty_def\<close>)

text \<open>
  The loop ends with a last window that starts at \<open>t\<close> or later; if it starts later, then either
  nothing was allocated, or the window before it is exactly one slide earlier and not after \<open>t\<close>.
\<close>

lemma alloc_loop_ret:
  assumes slide: "moderate slide" "0 < slide" and sz: "moderate sz"
    and t: "moderate t" and lw: "case lw of None \<Rightarrow> True | Some w \<Rightarrow> moderate w \<and> w \<le> t"
    and ws: "\<forall>w \<in> set ws. - (2 ^ 61) \<le> ts_start w \<and> ts_start w \<le> 2 * 2 ^ 61"
    and sp: "spaced slide (map ts_start ws)"
  shows "\<exists>ns. alloc_loop acc sz slide lw t ws = ret (ws @ map (\<lambda>n. time_slot_new acc n (n + sz)) ns)
    \<and> spaced slide (map ts_start ws @ ns) \<and> (\<forall>n \<in> set ns. - (2 ^ 61) \<le> n \<and> n \<le> 2 * 2 ^ 61)
    \<and> ns = (if ws = [] then [t] else grid_after slide lw (ts_start (last ws)) t)
    \<and> map ts_start ws @ ns \<noteq> [] \<and> t \<le> last (map ts_start ws @ ns)
    \<and> (ns = [] \<or> last ns = t \<or> (\<exists>a \<in> set (map ts_start ws @ ns). a \<le> t \<and> last ns = a + slide))"
  using ws sp
proof (induction "nat (if ws = [] then t + 2 ^ 62 else t - ts_start (last ws))" arbitrary: ws rule: less_induct)
  case less
  show ?case
  proof (cases "ws = []")
    case True
    from skip_empty_ret [of slide t lw] slide t lw obtain n' where
      n': "skip_empty slide lw t = ret n'" "t \<le> n'" "n' = t \<or> (\<exists>w. lw = Some w \<and> n' \<le> w)"
      by (auto simp: moderate_def split: option.splits)
    then have "n' = t" using lw by auto
    moreover have "arith_i64 (t + sz) = ret (t + sz)"
      using t sz by (intro arith_i64_ret) (auto simp: moderate_def)
    moreover have "alloc_loop acc sz slide lw t [time_slot_new acc t (t + sz)] = ret [time_slot_new acc t (t + sz)]"
      by (subst alloc_loop.simps) (simp add: time_slot_new_def)
    ultimately have "alloc_loop acc sz slide lw t ws = ret [time_slot_new acc t (t + sz)]"
      using True n'(1) by (subst alloc_loop.simps) simp
    with True t show ?thesis
      by (intro exI [of _ "[t]"]) (auto simp: moderate_def)
  next
    case False
    let ?b = "ts_start (last ws)"
    have b: "- (2 ^ 61) \<le> ?b" "?b \<le> 2 * 2 ^ 61" using less.prems(1) False by auto
    show ?thesis
    proof (cases "?b < t")
      case False2: False
      then have "alloc_loop acc sz slide lw t ws = ret ws"
        using False by (subst alloc_loop.simps) simp
      with False False2 less.prems show ?thesis
        by (intro exI [of _ "[]"]) (auto simp: last_map grid_after_done [OF slide(2)])
    next
      case True
      have n0: "\<bar>?b + slide\<bar> \<le> 2 * 2 ^ 61" using b slide t True by (auto simp: moderate_def)
      from skip_empty_ret [OF slide n0, of lw] lw obtain n where
        n: "skip_empty slide lw (?b + slide) = ret n" "?b + slide \<le> n" "\<bar>n\<bar> \<le> 2 * 2 ^ 61"
          "n = ?b + slide \<or> (\<exists>w. lw = Some w \<and> n \<le> w)"
          "n = ?b + slide + (case lw of None \<Rightarrow> 0 | Some w \<Rightarrow> max (w - (?b + slide)) 0 div slide * slide)"
        by (auto split: option.splits)
      have "n = ?b + (case lw of None \<Rightarrow> 1 | Some w \<Rightarrow> max 1 ((w - ?b) div slide)) * slide"
        unfolding n(5) using skip_grid [OF slide(2), of ?b] by (cases lw) simp_all
      then have grid: "grid_after slide lw ?b t = n # grid_after slide lw n t"
        using lw by (intro grid_after_next [OF slide(2) True]) (simp_all split: option.splits)
      let ?w = "time_slot_new acc n (n + sz)"
      have "alloc_loop acc sz slide lw t ws = alloc_loop acc sz slide lw t (ws @ [?w])"
        using False True n arith_i64_ret [of "?b + slide"] n0 arith_i64_ret [of "n + sz"] sz
        by (subst alloc_loop.simps) (auto simp: moderate_def)
      moreover have sp: "spaced slide (map ts_start (ws @ [?w]))"
      proof -
        have "a + slide \<le> n" if "a \<in> set (map ts_start ws)" for a
        proof -
          have "a \<le> ?b"
            using spaced_le_last [OF less.prems(2) slide(2) that] False by (simp add: last_map)
          with n(2) show ?thesis by simp
        qed
        with less.prems(2) show ?thesis by (auto simp: sorted_wrt_append time_slot_new_def)
      qed
      moreover have bd: "\<forall>w \<in> set (ws @ [?w]). - (2 ^ 61) \<le> ts_start w \<and> ts_start w \<le> 2 * 2 ^ 61"
        using less.prems(1) n(2,3) b slide(2) by (auto simp: time_slot_new_def)
      moreover have "nat (if ws @ [?w] = [] then t + 2 ^ 62 else t - ts_start (last (ws @ [?w])))
          < nat (if ws = [] then t + 2 ^ 62 else t - ts_start (last ws))"
        using False True n(2) slide(2) by (simp add: time_slot_new_def)
      ultimately obtain ns where
        ns: "alloc_loop acc sz slide lw t ws = ret ((ws @ [?w]) @ map (\<lambda>n. time_slot_new acc n (n + sz)) ns)"
          "spaced slide (map ts_start (ws @ [?w]) @ ns)" "\<forall>n \<in> set ns. - (2 ^ 61) \<le> n \<and> n \<le> 2 * 2 ^ 61"
          "t \<le> last (map ts_start (ws @ [?w]) @ ns)"
          "ns = [] \<or> last ns = t \<or> (\<exists>a \<in> set (map ts_start (ws @ [?w]) @ ns). a \<le> t \<and> last ns = a + slide)"
          "ns = grid_after slide lw n t"
        using less.hyps [of "ws @ [?w]"] by (auto simp: time_slot_new_def)
      have "n # ns \<noteq> []" and "last (n # ns) = t \<or> (\<exists>a \<in> set (map ts_start ws @ n # ns). a \<le> t \<and> last (n # ns) = a + slide)"
      proof -
        show "last (n # ns) = t \<or> (\<exists>a \<in> set (map ts_start ws @ n # ns). a \<le> t \<and> last (n # ns) = a + slide)"
        proof (cases "ns = []")
          case True2: True
          from ns(4) True2 have "t \<le> n" by (simp add: time_slot_new_def)
          with n(4) lw have "n = t \<or> n = ?b + slide" by auto
          then have "n = t \<or> (?b \<in> set (map ts_start ws @ [n]) \<and> ?b \<le> t \<and> n = ?b + slide)"
            using False True by auto
          then show ?thesis unfolding True2 last.simps by auto
        qed (use ns(5) in \<open>auto simp: time_slot_new_def\<close>)
      qed simp
      with ns False n bd grid show ?thesis
        by (intro exI [of _ "n # ns"]) (auto simp: time_slot_new_def)
    qed
  qed
qed


subsection \<open>Feeding and closing slots\<close>

definition in_window :: "timestamp \<Rightarrow> timestamp \<Rightarrow> 'i stream_element list \<Rightarrow> 'i stream_element list" where
  "in_window sz st es =
     filter (\<lambda>e. case item_timestamp e of Some t \<Rightarrow> st \<le> t \<and> t < st + sz | None \<Rightarrow> False) es"

text \<open>The slot of the window that starts at \<open>st\<close>, after the elements \<open>es\<close>.\<close>

definition window_slot :: "('a \<Rightarrow> 'i \<Rightarrow> 'a) \<Rightarrow> 'a \<Rightarrow> timestamp \<Rightarrow> 'i stream_element list \<Rightarrow> timestamp \<Rightarrow> 'a time_slot" where
  "window_slot proc acc sz es st =
     \<lparr>ts_acc = foldl proc acc (elem_values (in_window sz st es)), ts_start = st, ts_end = st + sz,
      ts_active = in_window sz st es \<noteq> []\<rparr>"

definition window_outputs :: "('i list \<Rightarrow> 'o) \<Rightarrow> timestamp \<Rightarrow> 'i stream_element list \<Rightarrow> timestamp list \<Rightarrow> 'o stream_element list" where
  "window_outputs result sz es starts =
     map (\<lambda>st. Timestamped (result (elem_values (in_window sz st es))) (st + sz))
       (filter (\<lambda>st. in_window sz st es \<noteq> []) starts)"

lemma window_slot_sel [simp]:
  "ts_start (window_slot proc acc sz es st) = st" "ts_end (window_slot proc acc sz es st) = st + sz"
  by (simp_all add: window_slot_def)

lemma in_window_snoc:
  "in_window sz st (es @ [e]) = in_window sz st es @
     (case item_timestamp e of Some t \<Rightarrow> if st \<le> t \<and> t < st + sz then [e] else [] | None \<Rightarrow> [])"
  by (simp add: in_window_def split: option.splits)

lemma in_window_empty: "(\<And>t. t \<in> set (stamps es) \<Longrightarrow> t < st) \<Longrightarrow> in_window sz st es = []"
proof (induction es)
  case (Cons e es)
  from Cons.prems have "\<And>t. item_timestamp e = Some t \<Longrightarrow> t < st" by auto
  with Cons show ?case by (force simp: in_window_def split: option.splits)
qed (simp add: in_window_def)

lemma in_window_values: "in_window sz st es \<noteq> [] \<Longrightarrow> elem_values (in_window sz st es) \<noteq> []"
proof (induction es)
  case (Cons e es)
  then show ?case by (cases e) (auto simp: in_window_def)
qed (simp add: in_window_def)

lemma takeWhile_update:
  "sorted_wrt (\<lambda>v w. P w \<longrightarrow> P v) ws \<Longrightarrow>
   map f (takeWhile P ws) @ dropWhile P ws = map (\<lambda>w. if P w then f w else w) ws"
proof (induction ws)
  case (Cons w ws)
  have "map (\<lambda>w. if P w then f w else w) ws = ws" if "\<not> P w"
    using Cons.prems that by (intro map_idI) auto
  with Cons show ?case by auto
qed simp

lemma feed_slots_map:
  assumes "spaced slide (map ts_start ws)" and "0 < slide" and "\<forall>w \<in> set ws. ts_end w = ts_start w + sz"
  shows "feed_slots proc item t ws = map (\<lambda>w. if ts_start w \<le> t \<and> t < ts_end w
    then w\<lparr>ts_acc := proc (ts_acc w) item, ts_active := True\<rparr> else w) ws"
  using assms
proof (induction ws)
  case (Cons w ws)
  show ?case
  proof (cases "ts_end w \<le> t")
    case True
    with Cons show ?thesis by (simp add: feed_slots_def Let_def)
  next
    case False
    have later: "t < ts_end v" if "v \<in> set (w # ws)" for v
      using that False Cons.prems by (auto dest!: bspec [of "set ws" _ v])
    have mono: "sorted_wrt (\<lambda>v u. ts_start u \<le> t \<longrightarrow> ts_start v \<le> t) (w # ws)"
      by (rule sorted_wrt_mono_rel [OF _ Cons.prems(1) [unfolded sorted_wrt_map]]) (use Cons.prems(2) in auto)
    have "takeWhile (\<lambda>w. ts_end w \<le> t) (w # ws) = []" "dropWhile (\<lambda>w. ts_end w \<le> t) (w # ws) = w # ws"
      using False by auto
    then have "feed_slots proc item t (w # ws) = map (\<lambda>w. if ts_start w \<le> t
        then w\<lparr>ts_acc := proc (ts_acc w) item, ts_active := True\<rparr> else w) (w # ws)"
      unfolding feed_slots_def Let_def using takeWhile_update [OF mono] by (simp only: append_Nil)
    also have "\<dots> = map (\<lambda>w. if ts_start w \<le> t \<and> t < ts_end w
        then w\<lparr>ts_acc := proc (ts_acc w) item, ts_active := True\<rparr> else w) (w # ws)"
      using later by (intro map_cong) auto
    finally show ?thesis .
  qed
qed (simp add: feed_slots_def)

lemma feed_window_slots:
  assumes "spaced slide starts" and "0 < slide"
  shows "feed_slots proc v t (map (window_slot proc acc sz es) starts) =
    map (window_slot proc acc sz (es @ [Timestamped v t])) starts"
proof -
  have "spaced slide (map ts_start (map (window_slot proc acc sz es) starts))"
    using assms(1) by (simp add: comp_def)
  from feed_slots_map [OF this assms(2), of sz proc v t] show ?thesis
    by (auto simp: window_slot_def in_window_snoc)
qed

lemma window_slot_results:
  assumes "\<And>ys. ys \<noteq> [] \<Longrightarrow> outp (foldl proc acc ys) = ret (result ys)"
  shows "\<exists>rs. slot_results outp (\<lambda>x w. WTimestamped x (ts_end w)) (map (window_slot proc acc sz es) starts) = ret rs
    \<and> map wr_element rs = window_outputs result sz es starts"
proof (induction starts)
  case (Cons st starts)
  then show ?case
    using in_window_values [of sz st es] by (auto simp: window_slot_def assms window_outputs_def)
qed (simp add: window_outputs_def)

lemma window_outputs_append: "window_outputs result sz es (xs @ ys) = window_outputs result sz es xs @ window_outputs result sz es ys"
  by (simp add: window_outputs_def)

lemma window_outputs_cong:
  "(\<And>st. st \<in> set starts \<Longrightarrow> in_window sz st es = in_window sz st es') \<Longrightarrow>
   window_outputs result sz es starts = window_outputs result sz es' starts"
  unfolding window_outputs_def by (induction starts) auto

lemma stamps_window_outputs: "t \<in> set (stamps (window_outputs result sz es starts)) \<Longrightarrow> \<exists>st \<in> set starts. t = st + sz"
  unfolding window_outputs_def by (induction starts) (auto split: if_splits)

lemma window_outputs_data [simp]:
  "watermarks (window_outputs result sz es starts) = []"
  "filter (\<lambda>e. elem_value e \<noteq> None) (window_outputs result sz es starts) = window_outputs result sz es starts"
  unfolding window_outputs_def by (induction starts) auto


subsection \<open>An iteration\<close>

text \<open>A result of a window comes before exactly the watermarks greater than its end.\<close>

definition closes_on_time :: "'o stream_element list \<Rightarrow> bool" where
  "closes_on_time outs \<longleftrightarrow> (\<forall>xs w ys. outs = xs @ Watermark w # ys \<longrightarrow>
     (\<forall>t \<in> set (stamps xs). t < w) \<and> (\<forall>t \<in> set (stamps ys). w \<le> t))"

lemma closes_on_time_Nil [simp]: "closes_on_time []"
  by (simp add: closes_on_time_def)

lemma closes_on_time_watermark:
  "closes_on_time outs \<Longrightarrow> \<forall>t \<in> set (stamps outs). t < w \<Longrightarrow> closes_on_time (outs @ [Watermark w])"
  by (fastforce simp: closes_on_time_def append_eq_append_conv2 Cons_eq_append_conv append_eq_Cons_conv)

lemma closes_on_time_results:
  assumes "closes_on_time outs" and "watermarks rs = []" and "\<forall>t \<in> set (stamps rs). \<forall>w \<in> set (watermarks outs). w \<le> t"
  shows "closes_on_time (outs @ rs)"
  unfolding closes_on_time_def
proof (intro allI impI)
  fix xs w ys
  assume eq: "outs @ rs = xs @ Watermark w # ys"
  have "Watermark w \<notin> set rs"
  proof
    assume "Watermark w \<in> set rs"
    then have "w \<in> set (watermarks rs)" by (induction rs) auto
    with assms(2) show False by simp
  qed
  with eq obtain ys1 where "outs = xs @ Watermark w # ys1" and "ys = ys1 @ rs"
    by (auto simp: append_eq_append_conv2 Cons_eq_append_conv append_eq_Cons_conv)
  with assms show "(\<forall>t \<in> set (stamps xs). t < w) \<and> (\<forall>t \<in> set (stamps ys). w \<le> t)"
    unfolding closes_on_time_def by auto
qed

definition times :: "'i stream_element list \<Rightarrow> timestamp list" where
  "times es = List.map_filter timestamp_of es"

lemma times_simps [simp]:
  "times [] = []" "times (e # es) = (case timestamp_of e of None \<Rightarrow> [] | Some t \<Rightarrow> [t]) @ times es"
  "times (xs @ ys) = times xs @ times ys"
  by (auto simp: times_def List.map_filter_simps split: option.splits)

lemma stamps_times: "t \<in> set (stamps es) \<Longrightarrow> t \<in> set (times es)"
proof (induction es)
  case (Cons e es)
  then show ?case by (cases e) auto
qed simp

lemma watermarks_times: "t \<in> set (watermarks es) \<Longrightarrow> t \<in> set (times es)"
proof (induction es)
  case (Cons e es)
  then show ?case by (cases e) auto
qed simp

lemma time_ordered_last:
  "time_ordered m (es @ [e]) \<Longrightarrow> data_only es \<Longrightarrow> timestamp_of e = Some t \<Longrightarrow>
   (case m of None \<Rightarrow> True | Some a \<Rightarrow> a \<le> t) \<and> (\<forall>a \<in> set (times es). a \<le> t)"
proof (induction es arbitrary: m)
  case Nil
  then show ?case by (cases e) (auto split: option.splits)
next
  case (Cons x es)
  then show ?case
    by (cases x) (fastforce split: option.splits)+
qed

text \<open>
  The manager after the elements \<open>seen\<close> of an iteration: \<open>closed\<close> and \<open>opened\<close> are the starts of the
  windows, \<open>outs\<close> the output so far.
\<close>

record window_plan =
  pl_closed :: "timestamp list"
  pl_open :: "timestamp list"

abbreviation plan_starts :: "window_plan \<Rightarrow> timestamp list" where
  "plan_starts pl \<equiv> pl_closed pl @ pl_open pl"

definition plan_ok :: "timestamp \<Rightarrow> timestamp \<Rightarrow> 'i stream_element list \<Rightarrow> window_plan \<Rightarrow> bool" where
  "plan_ok sz slide seen pl \<longleftrightarrow>
     spaced (min sz slide) (plan_starts pl) \<and> spaced slide (pl_open pl)
   \<and> (\<forall>st \<in> set (pl_closed pl). \<exists>w \<in> set (watermarks seen). st + sz < w)
   \<and> (\<forall>st \<in> set (pl_open pl). (\<forall>w \<in> set (watermarks seen). w \<le> st + sz) \<and> - (2 ^ 61) \<le> st \<and> st \<le> 2 * 2 ^ 61)
   \<and> (\<forall>t \<in> set (stamps seen). \<exists>st \<in> set (plan_starts pl). t \<le> st)"

definition plan_covers :: "timestamp \<Rightarrow> 'i stream_element list \<Rightarrow> window_plan \<Rightarrow> bool" where
  "plan_covers sz seen pl \<longleftrightarrow>
     (\<forall>t \<in> set (stamps seen). \<exists>st \<in> set (plan_starts pl). st \<le> t \<and> t < st + sz)
   \<and> (plan_starts pl \<noteq> [] \<longrightarrow> (\<exists>t \<in> set (times seen). last (plan_starts pl) \<le> t
        \<or> (\<exists>a \<in> set (plan_starts pl). a \<le> t \<and> last (plan_starts pl) = a + sz)))"

definition event_state :: "('a \<Rightarrow> 'i \<Rightarrow> 'a) \<Rightarrow> 'a \<Rightarrow> event_window \<Rightarrow> 'i stream_element list \<Rightarrow> window_plan \<Rightarrow> 'a event_manager \<Rightarrow> bool" where
  "event_state proc acc d seen pl m \<longleftrightarrow>
     em_init m = acc \<and> em_size m = ew_size d \<and> em_slide m = ew_slide d
   \<and> em_ws m = map (window_slot proc acc (ew_size d) seen) (pl_open pl)
   \<and> (case em_last_watermark m of None \<Rightarrow> True | Some w \<Rightarrow> w \<in> set (watermarks seen))"

text \<open>An element with a timestamp extends the plan with the new windows \<open>ns\<close>.\<close>

definition plan_more :: "timestamp \<Rightarrow> timestamp option \<Rightarrow> timestamp \<Rightarrow> window_plan \<Rightarrow> timestamp list" where
  "plan_more slide lw t pl = (if pl_open pl = [] then [t] else grid_after slide lw (last (pl_open pl)) t)"

definition plan_new :: "timestamp \<Rightarrow> timestamp option \<Rightarrow> timestamp \<Rightarrow> window_plan \<Rightarrow> timestamp list \<Rightarrow> bool" where
  "plan_new slide lw t pl ns \<longleftrightarrow>
     spaced slide (pl_open pl @ ns) \<and> (\<forall>n \<in> set ns. - (2 ^ 61) \<le> n \<and> n \<le> 2 * 2 ^ 61)
   \<and> (pl_open pl = [] \<longrightarrow> ns = [t]) \<and> plan_more slide lw t pl = ns \<and> t \<le> last (pl_open pl @ ns)
   \<and> (ns = [] \<or> last ns = t \<or> (\<exists>a \<in> set (pl_open pl @ ns). a \<le> t \<and> last ns = a + slide))"

lemma plan_closed_before:
  "plan_ok sz slide seen pl \<Longrightarrow> \<forall>a \<in> set (times seen). a \<le> t \<Longrightarrow> st \<in> set (pl_closed pl) \<Longrightarrow> st + sz < t"
  unfolding plan_ok_def by (meson order_less_le_trans watermarks_times)

lemma plan_ok_spaced: "plan_ok sz slide seen pl \<Longrightarrow> spaced slide (pl_open pl)"
  by (simp add: plan_ok_def)

lemma plan_new_later:
  assumes "0 < sz" and "0 < slide" and ok: "plan_ok sz slide seen pl" and new: "plan_new slide lw t pl ns"
    and t: "\<forall>a \<in> set (times seen). a \<le> t" and n: "n \<in> set ns" and st: "st \<in> set (plan_starts pl)"
  shows "st < n" "st + min sz slide \<le> n"
proof -
  have "st + min sz slide \<le> n"
  proof (cases "st \<in> set (pl_open pl)")
    case True
    with n new have "st + slide \<le> n" by (auto simp: plan_new_def sorted_wrt_append)
    then show ?thesis by simp
  next
    case False
    with st have closed: "st \<in> set (pl_closed pl)" by simp
    show ?thesis
    proof (cases "pl_open pl = []")
      case True
      with n new have "n = t" by (simp add: plan_new_def)
      with plan_closed_before [OF ok t closed] show ?thesis by simp
    next
      case False
      then obtain b where b: "b \<in> set (pl_open pl)" by (meson last_in_set)
      with n new have "b + slide \<le> n" by (auto simp: plan_new_def sorted_wrt_append)
      moreover have "st + min sz slide \<le> b" using ok closed b by (auto simp: plan_ok_def sorted_wrt_append)
      ultimately show ?thesis using assms(2) by simp
    qed
  qed
  with assms(1,2) show "st < n" "st + min sz slide \<le> n" by auto
qed

lemma plan_new_ok:
  assumes d: "0 < sz" "0 < slide" and ok: "plan_ok sz slide seen pl" and new: "plan_new slide lw t pl ns"
    and t: "\<forall>a \<in> set (times seen). a \<le> t"
  shows "plan_ok sz slide (seen @ [Timestamped v t]) (pl\<lparr>pl_open := pl_open pl @ ns\<rparr>)"
proof -
  note later = plan_new_later [OF d ok new t]
  have "spaced slide ns" using new by (simp add: plan_new_def sorted_wrt_append)
  then have "spaced (min sz slide) ns" by (rule sorted_wrt_mono_rel [rotated]) simp
  then have sp: "spaced (min sz slide) (plan_starts pl @ ns)"
    using ok later(2) by (auto simp: plan_ok_def sorted_wrt_append)
  have wm: "w \<le> n + sz" if "n \<in> set ns" and w: "w \<in> set (watermarks seen)" for n w
  proof (cases "pl_open pl = []")
    case True
    then have "n = t" using new that(1) by (simp add: plan_new_def)
    moreover have "w \<le> t" using t watermarks_times [OF w] by blast
    ultimately show ?thesis using d(1) by simp
  next
    case False
    then obtain b where b: "b \<in> set (pl_open pl)" by (meson last_in_set)
    then have "w \<le> b + sz" using ok w by (simp add: plan_ok_def)
    with later(1) [OF that(1), of b] b show ?thesis by simp
  qed
  have "pl_open pl @ ns \<noteq> []" using new by (auto simp: plan_new_def)
  then have "last (pl_open pl @ ns) \<in> set (pl_open pl @ ns)" by (rule last_in_set)
  then have t': "\<exists>st \<in> set (plan_starts pl @ ns). t \<le> st" using new unfolding plan_new_def by auto
  have ok': "\<forall>st \<in> set (pl_closed pl). \<exists>w \<in> set (watermarks seen). st + sz < w"
    "\<forall>st \<in> set (pl_open pl). (\<forall>w \<in> set (watermarks seen). w \<le> st + sz) \<and> - (2 ^ 61) \<le> st \<and> st \<le> 2 * 2 ^ 61"
    "\<forall>t \<in> set (stamps seen). \<exists>st \<in> set (plan_starts pl). t \<le> st"
    using ok by (auto simp: plan_ok_def)
  have new': "spaced slide (pl_open pl @ ns)" "\<forall>n \<in> set ns. - (2 ^ 61) \<le> n \<and> n \<le> 2 * 2 ^ 61"
    using new by (auto simp: plan_new_def)
  show ?thesis
    unfolding plan_ok_def
  proof (intro conjI)
    show "\<forall>a \<in> set (stamps (seen @ [Timestamped v t])). \<exists>st \<in> set (plan_starts (pl\<lparr>pl_open := pl_open pl @ ns\<rparr>)). a \<le> st"
      using t' ok'(3) by auto
  qed (use sp wm ok'(1,2) new' in auto)
qed

lemma plan_new_covers:
  assumes "0 < sz" and cov: "plan_covers sz seen pl" and new: "plan_new sz lw t pl ns"
    and t: "\<forall>a \<in> set (times seen). a \<le> t"
  shows "plan_covers sz (seen @ [Timestamped v t]) (pl\<lparr>pl_open := pl_open pl @ ns\<rparr>)"
proof -
  let ?S = "plan_starts pl @ ns"
  have ne: "pl_open pl @ ns \<noteq> []" using new by (auto simp: plan_new_def)
  then have last: "last ?S = last (pl_open pl @ ns)" "last ?S \<in> set ?S" by (auto simp: last_append)
  have far: "last ?S = t \<or> (\<exists>a \<in> set ?S. a \<le> t \<and> last ?S = a + sz)"
  proof (cases "ns = []")
    case True
    with ne have "plan_starts pl \<noteq> []" by simp
    with cov obtain x where x: "x \<in> set (times seen)"
      "last (plan_starts pl) \<le> x \<or> (\<exists>a \<in> set (plan_starts pl). a \<le> x \<and> last (plan_starts pl) = a + sz)"
      unfolding plan_covers_def by blast
    moreover have "t \<le> last ?S" using new last by (simp add: plan_new_def)
    ultimately show ?thesis using t True by fastforce
  next
    case False
    with new last show ?thesis unfolding plan_new_def by auto
  qed
  have "t \<le> last ?S" using new last by (simp add: plan_new_def)
  with far last(2) assms(1) have "\<exists>st \<in> set ?S. st \<le> t \<and> t < st + sz"
    by (cases "last ?S = t") fastforce+
  moreover have "\<forall>x \<in> set (stamps seen). \<exists>st \<in> set ?S. st \<le> x \<and> x < st + sz"
    using cov unfolding plan_covers_def by auto
  ultimately show ?thesis
    using far unfolding plan_covers_def by auto
qed

lemma plan_alloc:
  assumes d: "moderate slide" "0 < slide" "moderate sz" "0 < sz"
    and ok: "plan_ok sz slide seen pl" and t: "moderate t" "\<forall>a \<in> set (times seen). a \<le> t"
    and m: "event_state proc acc \<lparr>ew_size = sz, ew_slide = slide\<rparr> seen pl m"
    and mod: "\<forall>a \<in> set (times seen). moderate a"
  shows "\<exists>ns. alloc_windows m t = ret (m\<lparr>em_ws := map (window_slot proc acc sz seen) (pl_open pl @ ns)\<rparr>)
    \<and> plan_new slide (em_last_watermark m) t pl ns"
proof -
  let ?lw = "em_last_watermark m" and ?ws = "map (window_slot proc acc sz seen) (pl_open pl)"
  have lw: "case ?lw of None \<Rightarrow> True | Some w \<Rightarrow> moderate w \<and> w \<le> t"
    using m t(2) mod by (auto simp: event_state_def dest: watermarks_times split: option.splits)
  have "\<forall>w \<in> set ?ws. - (2 ^ 61) \<le> ts_start w \<and> ts_start w \<le> 2 * 2 ^ 61" "spaced slide (map ts_start ?ws)"
    using ok by (auto simp: plan_ok_def comp_def)
  from alloc_loop_ret [OF d(1,2,3) t(1) lw this, of acc] obtain ns where
    ns1: "alloc_loop acc sz slide ?lw t ?ws = ret (?ws @ map (\<lambda>n. time_slot_new acc n (n + sz)) ns)"
      "spaced slide (map ts_start ?ws @ ns)" "\<forall>n \<in> set ns. - (2 ^ 61) \<le> n \<and> n \<le> 2 * 2 ^ 61"
      "ns = (if ?ws = [] then [t] else grid_after slide ?lw (ts_start (last ?ws)) t)" "t \<le> last (map ts_start ?ws @ ns)"
      "ns = [] \<or> last ns = t \<or> (\<exists>a \<in> set (map ts_start ?ws @ ns). a \<le> t \<and> last ns = a + slide)" by blast
  have starts: "map ts_start ?ws = pl_open pl" by (simp add: comp_def)
  have more: "plan_more slide ?lw t pl = ns" "pl_open pl = [] \<longrightarrow> ns = [t]"
    unfolding ns1(4) by (simp_all add: plan_more_def last_map)
  have new: "plan_new slide ?lw t pl ns" unfolding plan_new_def using ns1(2,3,5,6) more unfolding starts by blast
  note ns = ns1(1) new
  have "a < n" if n: "n \<in> set ns" and "a \<in> set (stamps seen)" for a n
  proof -
    from ok that(2) obtain st where "st \<in> set (plan_starts pl)" "a \<le> st" unfolding plan_ok_def by blast
    with plan_new_later(1) [OF d(4,2) ok ns(2) t(2) n] show ?thesis by (meson order_le_less_trans)
  qed
  then have "map (\<lambda>n. time_slot_new acc n (n + sz)) ns = map (window_slot proc acc sz seen) ns"
    by (auto simp: time_slot_new_def window_slot_def in_window_empty)
  then have "alloc_windows m t = ret (m\<lparr>em_ws := map (window_slot proc acc sz seen) (pl_open pl @ ns)\<rparr>)"
    using ns(1) m lw by (auto simp: alloc_windows_def event_state_def split: option.splits)
  with ns(2) show ?thesis by blast
qed


text \<open>What the output of an iteration so far says about the closed windows.\<close>

definition event_outs :: "('i list \<Rightarrow> 'o) \<Rightarrow> timestamp \<Rightarrow> 'i stream_element list \<Rightarrow> timestamp list \<Rightarrow> 'o stream_element list \<Rightarrow> bool" where
  "event_outs result sz seen starts outs \<longleftrightarrow>
     filter (\<lambda>e. elem_value e \<noteq> None) outs = window_outputs result sz seen starts
   \<and> watermarks outs = watermarks seen \<and> closes_on_time outs"

lemma stamps_filter: "stamps (filter (\<lambda>e. elem_value e \<noteq> None) es) = stamps es"
proof (induction es)
  case (Cons e es)
  then show ?case by (cases e) auto
qed simp

lemma event_outs_stamps: "event_outs result sz seen starts outs \<Longrightarrow> t \<in> set (stamps outs) \<Longrightarrow> \<exists>st \<in> set starts. t = st + sz"
  unfolding event_outs_def by (metis stamps_filter stamps_window_outputs)

lemma event_outs_item:
  assumes "event_outs result sz seen (pl_closed pl) outs" and "plan_ok sz slide seen pl"
    and "\<forall>a \<in> set (times seen). a \<le> t"
  shows "event_outs result sz (seen @ [Timestamped v t]) (pl_closed pl) outs"
proof -
  have "in_window sz st (seen @ [Timestamped v t]) = in_window sz st seen" if "st \<in> set (pl_closed pl)" for st
    using plan_closed_before [OF assms(2,3) that] by (simp add: in_window_snoc)
  then have "window_outputs result sz (seen @ [Timestamped v t]) (pl_closed pl) = window_outputs result sz seen (pl_closed pl)"
    by (rule window_outputs_cong)
  with assms(1) show ?thesis by (simp add: event_outs_def)
qed

lemma event_outs_close:
  assumes "event_outs result sz seen (pl_closed pl) outs" and ok: "plan_ok sz slide seen pl"
    and "set cs \<subseteq> set (pl_open pl)"
  shows "event_outs result sz seen (pl_closed pl @ cs) (outs @ window_outputs result sz seen cs)"
proof -
  have "\<forall>t \<in> set (stamps (window_outputs result sz seen cs)). \<forall>w \<in> set (watermarks outs). w \<le> t"
    using assms by (fastforce simp: event_outs_def plan_ok_def dest: stamps_window_outputs)
  then have "closes_on_time (outs @ window_outputs result sz seen cs)"
    using assms(1) by (intro closes_on_time_results) (auto simp: event_outs_def)
  with assms(1) show ?thesis by (simp add: event_outs_def window_outputs_append del: not_None_eq)
qed

lemma event_outs_watermark:
  assumes "event_outs result sz seen starts outs" and "\<forall>st \<in> set starts. st + sz < w"
  shows "event_outs result sz (seen @ [Watermark w]) starts (outs @ [Watermark w])"
proof -
  have "in_window sz st (seen @ [Watermark w]) = in_window sz st seen" for st by (simp add: in_window_snoc)
  then have "window_outputs result sz (seen @ [Watermark w]) starts = window_outputs result sz seen starts"
    by (intro window_outputs_cong) simp
  moreover have "closes_on_time (outs @ [Watermark w])"
    using assms event_outs_stamps [OF assms(1)] by (intro closes_on_time_watermark) (auto simp: event_outs_def)
  ultimately show ?thesis using assms(1) by (simp add: event_outs_def)
qed

definition plan_close :: "timestamp \<Rightarrow> timestamp \<Rightarrow> window_plan \<Rightarrow> window_plan" where
  "plan_close sz w pl = \<lparr>pl_closed = pl_closed pl @ takeWhile (\<lambda>st. st + sz < w) (pl_open pl),
     pl_open = dropWhile (\<lambda>st. st + sz < w) (pl_open pl)\<rparr>"

lemma plan_close_starts [simp]: "plan_starts (plan_close sz w pl) = plan_starts pl"
  by (simp add: plan_close_def)

lemma spaced_dropWhile:
  assumes "spaced slide xs" and "0 < slide" and "x \<in> set (dropWhile (\<lambda>st. st + sz < w) xs)"
  shows "w \<le> x + sz"
  using assms by (induction xs) (auto split: if_splits dest: set_dropWhileD)

lemma plan_close_ok:
  assumes "0 < slide" and ok: "plan_ok sz slide seen pl" and t: "\<forall>a \<in> set (times seen). a \<le> w"
  shows "plan_ok sz slide (seen @ [Watermark w]) (plan_close sz w pl)"
    and "\<forall>st \<in> set (pl_closed (plan_close sz w pl)). st + sz < w"
proof -
  note before = plan_closed_before [OF ok t]
  show closed: "\<forall>st \<in> set (pl_closed (plan_close sz w pl)). st + sz < w"
    using before by (auto simp: plan_close_def dest: set_takeWhileD)
  have sp: "spaced slide (pl_open pl)" using ok by (simp add: plan_ok_def)
  then have "spaced slide (pl_open (plan_close sz w pl))"
    unfolding plan_close_def by (metis sorted_wrt_append takeWhile_dropWhile_id window_plan.select_convs(2))
  moreover have "a \<le> st + sz \<and> - (2 ^ 61) \<le> st \<and> st \<le> 2 * 2 ^ 61"
    if "st \<in> set (pl_open (plan_close sz w pl))" and "a \<in> set (watermarks (seen @ [Watermark w]))" for st a
  proof -
    have st: "st \<in> set (dropWhile (\<lambda>st. st + sz < w) (pl_open pl))" using that(1) by (simp add: plan_close_def)
    have "a \<le> w" using that(2) t watermarks_times [of a seen] by auto
    with spaced_dropWhile [OF sp assms(1) st] set_dropWhileD [OF st] ok show ?thesis
      by (auto simp: plan_ok_def)
  qed
  ultimately show "plan_ok sz slide (seen @ [Watermark w]) (plan_close sz w pl)"
    using ok closed unfolding plan_ok_def plan_close_starts by auto
qed

lemma plan_close_covers: "plan_covers slide seen pl \<Longrightarrow> plan_covers slide (seen @ [Watermark w]) (plan_close sz w pl)"
  unfolding plan_covers_def plan_close_starts by auto


text \<open>
  The reference for the starts of the windows: \<open>sts\<close> are the starts so far, and the windows that are open are known by the last one's start and the
  last watermark (\<open>None\<close> when no window is open). The first element of a run of windows starts one at its own timestamp, the later
  ones extend the grid; a watermark beyond the end of the last window ends the run. \<open>skips\<close> says whether the watermark is remembered.
\<close>

fun starts_step :: "bool \<Rightarrow> timestamp \<Rightarrow> timestamp \<Rightarrow> timestamp list \<times> (timestamp \<times> timestamp option) option \<Rightarrow> 'i stream_element
    \<Rightarrow> timestamp list \<times> (timestamp \<times> timestamp option) option" where
  "starts_step skips sz slide (sts, None) (Timestamped v t) = (sts @ [t], Some (t, None))"
| "starts_step skips sz slide (sts, Some (b, lw)) (Timestamped v t) =
     (let ns = grid_after slide lw b t in (sts @ ns, Some (last (b # ns), lw)))"
| "starts_step skips sz slide (sts, Some (b, lw)) (Watermark w) =
     (sts, if b + sz < w then None else Some (b, if skips then Some w else None))"
| "starts_step skips sz slide s _ = s"

definition window_starts :: "bool \<Rightarrow> timestamp \<Rightarrow> timestamp \<Rightarrow> 'i stream_element list \<Rightarrow> timestamp list" where
  "window_starts skips sz slide es = fst (foldl (starts_step skips sz slide) ([], None) es)"

definition plan_tracks :: "bool \<Rightarrow> timestamp \<Rightarrow> timestamp \<Rightarrow> 'i stream_element list \<Rightarrow> window_plan \<Rightarrow> timestamp option \<Rightarrow> bool" where
  "plan_tracks skips sz slide seen pl lw \<longleftrightarrow> foldl (starts_step skips sz slide) ([], None) seen =
     (plan_starts pl, if pl_open pl = [] then None else Some (last (pl_open pl), lw)) \<and> (pl_open pl = [] \<longrightarrow> lw = None)"

lemma plan_tracks_starts: "plan_tracks skips sz slide seen pl lw \<Longrightarrow> window_starts skips sz slide seen = plan_starts pl"
  by (simp add: plan_tracks_def window_starts_def)

lemma plan_tracks_new:
  assumes "plan_tracks skips sz slide seen pl lw" and "plan_new slide lw t pl ns"
  shows "plan_tracks skips sz slide (seen @ [Timestamped v t]) (pl\<lparr>pl_open := pl_open pl @ ns\<rparr>) lw"
proof -
  have ns: "ns = plan_more slide lw t pl" using assms(2) by (simp add: plan_new_def)
  from assms(1) show ?thesis unfolding plan_tracks_def ns plan_more_def by (cases "pl_open pl = []") (simp_all add: Let_def)
qed

lemma plan_tracks_close:
  assumes tr: "plan_tracks skips sz slide seen pl lw" and sp: "spaced slide (pl_open pl)" and "0 < slide"
  shows "plan_tracks skips sz slide (seen @ [Watermark w]) (plan_close sz w pl)
    (if pl_open (plan_close sz w pl) = [] then None else if skips then Some w else None)"
proof (cases "pl_open pl = []")
  case True
  then show ?thesis using tr by (simp add: plan_tracks_def plan_close_def)
next
  case False
  let ?rest = "dropWhile (\<lambda>st. st + sz < w) (pl_open pl)"
  have "st + sz < w" if "last (pl_open pl) + sz < w" "st \<in> set (pl_open pl)" for st
    using spaced_le_last [OF sp assms(3) that(2)] that(1) by simp
  then have rest: "?rest = [] \<longleftrightarrow> last (pl_open pl) + sz < w" using False by (auto simp: dropWhile_eq_Nil_conv)
  moreover have "last ?rest = last (pl_open pl)" if "?rest \<noteq> []"
    using that by (metis last_append takeWhile_dropWhile_id)
  ultimately show ?thesis using tr False by (simp add: plan_tracks_def plan_close_def)
qed

text \<open>The manager alone, over the elements of an iteration.\<close>

definition timed :: "'i stream_element list \<Rightarrow> bool" where
  "timed es = list_all (\<lambda>e. case e of Item _ \<Rightarrow> False | FlushBatch \<Rightarrow> False | _ \<Rightarrow> True) es"

abbreviation event_alone :: "('a \<Rightarrow> 'i \<Rightarrow> 'a) \<Rightarrow> ('a \<Rightarrow> 'o res) \<Rightarrow> event_window \<Rightarrow> 'a \<Rightarrow> ('a event_manager, 'i, 'o) process" where
  "event_alone proc outp d acc \<equiv> recycling (event_process proc outp) event_recycle (event_build d acc)"

abbreviation valid_window :: "event_window \<Rightarrow> bool" where
  "valid_window d \<equiv> moderate (ew_slide d) \<and> 0 < ew_slide d \<and> moderate (ew_size d) \<and> 0 < ew_size d"

lemma event_item_step:
  assumes d: "valid_window d" and ok: "plan_ok (ew_size d) (ew_slide d) seen pl"
    and t: "moderate t" "\<forall>a \<in> set (times seen). a \<le> t" and m: "event_state proc acc d seen pl m"
    and mod: "\<forall>a \<in> set (times seen). moderate a"
  shows "\<exists>ns m'. event_process proc outp m (Timestamped v t) = ret ([], m') \<and> plan_new (ew_slide d) (em_last_watermark m) t pl ns \<and> em_last_watermark m' = em_last_watermark m
    \<and> event_state proc acc d (seen @ [Timestamped v t]) (pl\<lparr>pl_open := pl_open pl @ ns\<rparr>) m'"
proof -
  have "event_state proc acc \<lparr>ew_size = ew_size d, ew_slide = ew_slide d\<rparr> seen pl m"
    using m by (simp add: event_state_def)
  from plan_alloc [OF _ _ _ _ ok t this mod] d obtain ns where
    ns: "alloc_windows m t = ret (m\<lparr>em_ws := map (window_slot proc acc (ew_size d) seen) (pl_open pl @ ns)\<rparr>)"
      "plan_new (ew_slide d) (em_last_watermark m) t pl ns" by blast
  have "feed_slots proc v t (map (window_slot proc acc (ew_size d) seen) (pl_open pl @ ns)) =
      map (window_slot proc acc (ew_size d) (seen @ [Timestamped v t])) (pl_open pl @ ns)"
    using ns(2) d by (intro feed_window_slots) (auto simp: plan_new_def)
  then have "event_process proc outp m (Timestamped v t) =
      ret ([], m\<lparr>em_ws := map (window_slot proc acc (ew_size d) (seen @ [Timestamped v t])) (pl_open pl @ ns)\<rparr>)"
    using ns(1) by (simp add: event_process_def Let_def)
  with ns(2) m show ?thesis by (auto simp: event_state_def split: option.splits)
qed

lemma window_slot_watermark: "window_slot proc acc sz (seen @ [Watermark w]) = window_slot proc acc sz seen"
  by (auto simp: window_slot_def in_window_snoc)

lemma window_slots_split:
  "takeWhile (\<lambda>s. ts_end s < w) (map (window_slot proc acc sz seen) sts) =
     map (window_slot proc acc sz seen) (takeWhile (\<lambda>st. st + sz < w) sts)"
  "dropWhile (\<lambda>s. ts_end s < w) (map (window_slot proc acc sz seen) sts) =
     map (window_slot proc acc sz seen) (dropWhile (\<lambda>st. st + sz < w) sts)"
  by (simp_all add: takeWhile_map dropWhile_map comp_def)

lemma event_watermark_step:
  assumes m: "event_state proc acc d seen pl m" and acc: "window_accumulator proc outp acc result"
  shows "\<exists>rs m'. event_alone proc outp d acc m (Watermark w) = ret (rs, m')
    \<and> map wr_element rs = window_outputs result (ew_size d) seen (takeWhile (\<lambda>st. st + ew_size d < w) (pl_open pl))
    \<and> event_state proc acc d (seen @ [Watermark w]) (plan_close (ew_size d) w pl) m'
    \<and> em_last_watermark m' = (if pl_open (plan_close (ew_size d) w pl) = [] then None else Some w)"
proof -
  let ?slot = "window_slot proc acc (ew_size d) seen"
  from window_slot_results [of outp proc acc result "ew_size d" seen "takeWhile (\<lambda>st. st + ew_size d < w) (pl_open pl)"]
    window_accumulator.output_result [OF acc] obtain rs where
    rs: "slot_results outp (\<lambda>x w. WTimestamped x (ts_end w)) (map ?slot (takeWhile (\<lambda>st. st + ew_size d < w) (pl_open pl))) = ret rs"
      "map wr_element rs = window_outputs result (ew_size d) seen (takeWhile (\<lambda>st. st + ew_size d < w) (pl_open pl))"
    by blast
  let ?m = "m\<lparr>em_last_watermark := Some w, em_ws := map ?slot (dropWhile (\<lambda>st. st + ew_size d < w) (pl_open pl))\<rparr>"
  have "event_process proc outp m (Watermark w) = ret (rs, ?m)"
    using m rs(1) by (simp add: event_process_def event_state_def window_slots_split)
  then have "event_alone proc outp d acc m (Watermark w) = ret (rs, if event_recycle ?m then event_build d acc else ?m)"
    by (simp add: recycling_def)
  moreover have "event_state proc acc d (seen @ [Watermark w]) (plan_close (ew_size d) w pl)
      (if event_recycle ?m then event_build d acc else ?m)"
    using m by (auto simp: event_state_def plan_close_def event_recycle_def event_build_def window_slot_watermark)
  moreover have "em_last_watermark (if event_recycle ?m then event_build d acc else ?m) =
      (if pl_open (plan_close (ew_size d) w pl) = [] then None else Some w)"
    by (simp add: plan_close_def event_recycle_def event_build_def)
  ultimately show ?thesis using rs(2) by blast
qed

lemma time_ordered_prefix: "time_ordered m (xs @ ys) \<Longrightarrow> time_ordered m xs"
proof (induction xs arbitrary: m)
  case (Cons x xs)
  then show ?case by (cases x) auto
qed simp


lemma event_prefix:
  assumes d: "valid_window d" and acc: "window_accumulator proc outp acc result"
    and "data_only seen" and "timed seen" and "time_ordered None seen" and "\<forall>a \<in> set (times seen). moderate a"
  shows "\<exists>m pl outs. transduceR (manager_step (event_alone proc outp d acc)) (event_build d acc) seen = ret (outs, m)
    \<and> event_state proc acc d seen pl m \<and> plan_ok (ew_size d) (ew_slide d) seen pl
    \<and> plan_covers (ew_slide d) seen pl \<and> plan_tracks True (ew_size d) (ew_slide d) seen pl (em_last_watermark m)
    \<and> event_outs result (ew_size d) seen (pl_closed pl) outs"
  using assms(3-)
proof (induction seen rule: rev_induct)
  case Nil
  let ?pl = "\<lparr>pl_closed = [], pl_open = []\<rparr>"
  have "event_state proc acc d [] ?pl (event_build d acc)" "plan_ok (ew_size d) (ew_slide d) [] ?pl"
    "plan_covers (ew_slide d) [] ?pl" "plan_tracks True (ew_size d) (ew_slide d) [] ?pl (em_last_watermark (event_build d acc))"
    "event_outs result (ew_size d) [] (pl_closed ?pl) []"
    by (simp_all add: event_state_def event_build_def plan_ok_def plan_covers_def plan_tracks_def event_outs_def window_outputs_def)
  then show ?case by (simp only: transduceR.simps) blast
next
  case (snoc e seen)
  let ?sz = "ew_size d" and ?slide = "ew_slide d" and ?step = "manager_step (event_alone proc outp d acc)"
  have prem: "data_only seen" "timed seen" "time_ordered None seen" "\<forall>a \<in> set (times seen). moderate a"
    using snoc.prems time_ordered_prefix [of None seen] by (auto simp: timed_def)
  from snoc.IH [OF prem] obtain m pl outs where
    run: "transduceR ?step (event_build d acc) seen = ret (outs, m)" and m: "event_state proc acc d seen pl m"
    and ok: "plan_ok ?sz ?slide seen pl" and cov: "plan_covers ?slide seen pl" and tr: "plan_tracks True ?sz ?slide seen pl (em_last_watermark m)"
    and outs: "event_outs result ?sz seen (pl_closed pl) outs" by blast
  have extend: "transduceR ?step (event_build d acc) (seen @ [e]) = ret (outs @ out1, m')"
    if "?step m e = ret (out1, m')" for out1 m'
    using run that by (simp add: transduceR_append)
  consider v t where "e = Timestamped v t" | w where "e = Watermark w"
    using snoc.prems(1,2) by (cases e) (auto simp: timed_def)
  then show ?case
  proof cases
    case 1
    have t: "moderate t" "\<forall>a \<in> set (times seen). a \<le> t"
      using snoc.prems time_ordered_last [OF snoc.prems(3) prem(1), of t] 1 by auto
    from event_item_step [OF d ok t m prem(4), of outp v] obtain ns m' where
      new: "event_process proc outp m e = ret ([], m')" "plan_new ?slide (em_last_watermark m) t pl ns" "em_last_watermark m' = em_last_watermark m"
      "event_state proc acc d (seen @ [e]) (pl\<lparr>pl_open := pl_open pl @ ns\<rparr>) m'" unfolding 1 by blast
    let ?pl = "pl\<lparr>pl_open := pl_open pl @ ns\<rparr>"
    have "?step m e = ret ([], m')"
      using new(1) 1 by (simp add: manager_step_def recycling_def)
    moreover have "plan_ok ?sz ?slide (seen @ [e]) ?pl"
      unfolding 1 using d by (intro plan_new_ok [OF _ _ ok new(2) t(2)]) auto
    moreover have "plan_covers ?slide (seen @ [e]) ?pl"
      unfolding 1 using d plan_new_covers [OF _ cov new(2) t(2)] by simp
    moreover have "plan_tracks True ?sz ?slide (seen @ [e]) ?pl (em_last_watermark m')"
      unfolding 1 new(3) by (rule plan_tracks_new [OF tr new(2)])
    moreover have "event_outs result ?sz (seen @ [e]) (pl_closed ?pl) outs"
      unfolding 1 using event_outs_item [OF outs ok t(2)] by simp
    ultimately show ?thesis using extend [of "[]" m'] new(4) by (metis append_Nil2)
  next
    case 2
    have t: "\<forall>a \<in> set (times seen). a \<le> w"
      using time_ordered_last [OF snoc.prems(3) prem(1), of w] 2 by auto
    let ?cs = "takeWhile (\<lambda>st. st + ?sz < w) (pl_open pl)" and ?pl = "plan_close ?sz w pl"
    from event_watermark_step [OF m acc, of w] obtain rs m' where
      new: "event_alone proc outp d acc m e = ret (rs, m')" "map wr_element rs = window_outputs result ?sz seen ?cs"
      "event_state proc acc d (seen @ [e]) ?pl m'" "em_last_watermark m' = (if pl_open ?pl = [] then None else Some w)" unfolding 2 by blast
    have "?step m e = ret (window_outputs result ?sz seen ?cs @ [Watermark w], m')"
      using new(1,2) 2 by (simp add: manager_step_def)
    moreover have "event_outs result ?sz seen (pl_closed ?pl) (outs @ window_outputs result ?sz seen ?cs)"
      using event_outs_close [OF outs ok, of ?cs] by (auto simp: plan_close_def dest: set_takeWhileD)
    from event_outs_watermark [OF this plan_close_ok(2) [OF _ ok t]] d
    have "event_outs result ?sz (seen @ [e]) (pl_closed ?pl) (outs @ window_outputs result ?sz seen ?cs @ [Watermark w])"
      unfolding 2 by auto
    moreover have "plan_ok ?sz ?slide (seen @ [e]) ?pl"
      unfolding 2 using d by (intro plan_close_ok(1) [OF _ ok t]) auto
    moreover have "plan_covers ?slide (seen @ [e]) ?pl"
      unfolding 2 using cov by (rule plan_close_covers)
    moreover have "plan_tracks True ?sz ?slide (seen @ [e]) ?pl (em_last_watermark m')"
      unfolding 2 new(4) using plan_tracks_close [OF tr plan_ok_spaced [OF ok], of w] d by (simp only: if_True)
    ultimately show ?thesis using extend new(3) by blast
  qed
qed


text \<open>As long as the watermarks are not remembered or there is none, a run of windows is the whole grid from its first element on.\<close>

definition window_grid :: "timestamp \<Rightarrow> timestamp \<Rightarrow> timestamp \<Rightarrow> timestamp list" where
  "window_grid slide t0 t = map (\<lambda>j. t0 + j * slide) [0..ceil_div (t - t0) slide]"

abbreviation grid_run :: "timestamp \<Rightarrow> timestamp \<Rightarrow> timestamp \<Rightarrow> timestamp list \<times> (timestamp \<times> timestamp option) option" where
  "grid_run slide t0 t \<equiv> (window_grid slide t0 t, Some (t0 + ceil_div (t - t0) slide * slide, None))"

lemma ceil_div_pos: "0 < b \<Longrightarrow> 0 \<le> a \<Longrightarrow> 0 \<le> ceil_div a b"
  using ceil_div_le [of b a "- 1"] by linarith

lemma ceil_div_mono: "0 < b \<Longrightarrow> a \<le> a' \<Longrightarrow> ceil_div a b \<le> ceil_div a' b"
  unfolding ceil_div_le using ceil_div_le [of b a' "ceil_div a' b"] by simp

lemma grid_run_first: "starts_step skips sz slide ([], None) (Timestamped v t) = grid_run slide t t"
  by (simp add: window_grid_def ceil_div_def)

lemma grid_run_step:
  assumes "0 < slide" and "t0 \<le> t'" and "t' \<le> t"
  shows "starts_step skips sz slide (grid_run slide t0 t') (Timestamped v t) = grid_run slide t0 t"
proof -
  let ?c = "ceil_div (t' - t0) slide" and ?k = "ceil_div (t - t0) slide" and ?f = "\<lambda>j. t0 + j * slide"
  have c: "0 \<le> ?c" "?c \<le> ?k" using assms ceil_div_pos [OF assms(1)] ceil_div_mono [OF assms(1)] by auto
  have "t - (t0 + ?c * slide) = (t - t0) - ?c * slide" by simp
  then have k: "ceil_div (t - (t0 + ?c * slide)) slide = ?k - ?c" by (simp only: ceil_div_shift [OF assms(1)])
  have new: "grid_after slide None (?f ?c) t = map ?f [?c + 1..?k]"
    unfolding grid_after_def k using upto_shift [of ?f ?c 1 "?k - ?c"] by (simp add: algebra_simps)
  have "[0..?k] = [0..?c] @ [?c + 1..?k]" using c by (rule upto_split2)
  then have "window_grid slide t0 t = window_grid slide t0 t' @ map ?f [?c + 1..?k]" by (simp add: window_grid_def)
  moreover have "last (?f ?c # map ?f [?c + 1..?k]) = ?f ?k"
  proof (cases "?c = ?k")
    case False
    with c(2) have "[?c + 1..?k] = [?c + 1..?k - 1] @ [?k]" by (intro upto_rec2) simp
    then show ?thesis by simp
  qed simp
  ultimately show ?thesis unfolding starts_step.simps Let_def new by simp
qed

lemma window_starts_grid:
  assumes "0 < slide" and "data_only seg" and "timed seg" and "time_ordered None seg" and "watermarks seg = []" and "stamps seg \<noteq> []"
  shows "foldl (starts_step skips sz slide) ([], None) seg = grid_run slide (hd (stamps seg)) (last (stamps seg))
    \<and> hd (stamps seg) \<le> last (stamps seg)"
  using assms(2-)
proof (induction seg rule: rev_induct)
  case (snoc e seg)
  from snoc.prems(1,2,4) obtain v t where e: "e = Timestamped v t" by (cases e) (auto simp: timed_def)
  have prem: "data_only seg" "timed seg" "time_ordered None seg" "watermarks seg = []"
    using snoc.prems time_ordered_prefix [of None seg] by (auto simp: timed_def)
  show ?case
  proof (cases "stamps seg = []")
    case True
    with prem have "seg = []" by (cases seg; cases "hd seg") (auto simp: timed_def)
    then show ?thesis using e by (simp only: append_Nil foldl.simps grid_run_first) simp
  next
    case False
    from snoc.IH [OF prem False] have IH: "foldl (starts_step skips sz slide) ([], None) seg = grid_run slide (hd (stamps seg)) (last (stamps seg))"
      "hd (stamps seg) \<le> last (stamps seg)" by simp_all
    have "last (stamps seg) \<le> t"
      using time_ordered_last [OF snoc.prems(3) prem(1), of t] e last_in_set [OF False] stamps_times by auto
    with IH False e show ?thesis using grid_run_step [OF assms(1) IH(2)] by auto
  qed
qed simp

text \<open>
  What an iteration is answered with: the windows start where \<open>event_starts\<close> says; each window that has elements returns the accumulator's
  result on exactly the elements with a timestamp in it, stamped with the end of the window, just before the first watermark greater
  than that. Without watermarks the windows are all those of the grid from the first timestamp up to the first
  that starts at the last one or later; if the slide is at most the size, every element is in a window.
\<close>

definition event_starts :: "event_window \<Rightarrow> 'i stream_element list \<Rightarrow> timestamp list" where
  "event_starts d seg = window_starts True (ew_size d) (ew_slide d) seg"

definition event_windows :: "event_window \<Rightarrow> ('i list \<Rightarrow> 'o) \<Rightarrow> 'i stream_element list \<Rightarrow> 'o stream_element list \<Rightarrow> bool" where
  "event_windows d result seg out \<longleftrightarrow>
     event_outs result (ew_size d) seg (event_starts d seg) out
   \<and> spaced (min (ew_size d) (ew_slide d)) (event_starts d seg)
   \<and> (ew_slide d \<le> ew_size d \<longrightarrow> (\<forall>t \<in> set (stamps seg). \<exists>st \<in> set (event_starts d seg). st \<le> t \<and> t < st + ew_size d))
   \<and> (watermarks seg = [] \<and> stamps seg \<noteq> [] \<longrightarrow> event_starts d seg = window_grid (ew_slide d) (hd (stamps seg)) (last (stamps seg)))"

lemma event_iteration:
  assumes d: "valid_window d" and acc: "window_accumulator proc outp acc result"
    and "data_only seg" and "timed seg" and "time_ordered None seg" and "\<forall>a \<in> set (times seg). moderate a"
  shows "\<exists>out. transduceR (manager_step (event_alone proc outp d acc)) (event_build d acc) (seg @ [FlushAndRestart]) =
      ret (out @ [FlushAndRestart], event_build d acc) \<and> event_windows d result seg out"
proof -
  let ?sz = "ew_size d" and ?slide = "ew_slide d" and ?step = "manager_step (event_alone proc outp d acc)"
  from event_prefix [OF assms] obtain m pl outs where
    run: "transduceR ?step (event_build d acc) seg = ret (outs, m)" and m: "event_state proc acc d seg pl m"
    and ok: "plan_ok ?sz ?slide seg pl" and cov: "plan_covers ?slide seg pl" and tr: "plan_tracks True ?sz ?slide seg pl (em_last_watermark m)"
    and outs: "event_outs result ?sz seg (pl_closed pl) outs" by blast
  let ?slot = "window_slot proc acc ?sz seg"
  from window_slot_results [of outp proc acc result ?sz seg "pl_open pl"] window_accumulator.output_result [OF acc]
  obtain rs where rs: "slot_results outp (\<lambda>x w. WTimestamped x (ts_end w)) (map ?slot (pl_open pl)) = ret rs"
    "map wr_element rs = window_outputs result ?sz seg (pl_open pl)" by blast
  have "event_process proc outp m FlushAndRestart = ret (rs, m\<lparr>em_ws := []\<rparr>)"
    using m rs(1) by (simp add: event_process_def event_state_def)
  then have "?step m FlushAndRestart = ret (window_outputs result ?sz seg (pl_open pl) @ [FlushAndRestart], event_build d acc)"
    using rs(2) by (simp add: manager_step_def recycling_def event_recycle_def)
  then have "transduceR ?step (event_build d acc) (seg @ [FlushAndRestart]) =
      ret ((outs @ window_outputs result ?sz seg (pl_open pl)) @ [FlushAndRestart], event_build d acc)"
    using run by (simp add: transduceR_append)
  moreover have "event_windows d result seg (outs @ window_outputs result ?sz seg (pl_open pl))"
  proof -
    have starts: "event_starts d seg = plan_starts pl" unfolding event_starts_def by (rule plan_tracks_starts [OF tr])
    have "\<exists>st \<in> set (plan_starts pl). st \<le> t \<and> t < st + ?sz" if "?slide \<le> ?sz" "t \<in> set (stamps seg)" for t
      using cov that unfolding plan_covers_def by (meson add_left_mono order_less_le_trans)
    moreover have "event_starts d seg = window_grid ?slide (hd (stamps seg)) (last (stamps seg))" if "watermarks seg = []" "stamps seg \<noteq> []"
      using window_starts_grid [OF _ assms(3-5) that, of ?slide True ?sz] d by (simp add: event_starts_def window_starts_def)
    moreover have "spaced (min ?sz ?slide) (plan_starts pl)" using ok by (simp add: plan_ok_def)
    ultimately show ?thesis using event_outs_close [OF outs ok order_refl] unfolding event_windows_def starts by blast
  qed
  ultimately show ?thesis by blast
qed

lemma event_stream:
  assumes d: "valid_window d" and acc: "window_accumulator proc outp acc result"
    and "\<forall>seg \<in> set segs. data_only seg \<and> timed seg \<and> time_ordered None seg \<and> (\<forall>a \<in> set (times seg). moderate a)"
  shows "\<exists>outs m'. transduceR (manager_step (event_alone proc outp d acc)) (event_build d acc) (unsegment segs) =
      ret (unsegment outs, m') \<and> list_all2 (event_windows d result) segs outs"
  using assms(3)
proof (induction segs)
  case Nil
  have "transduceR (manager_step (event_alone proc outp d acc)) (event_build d acc) (unsegment []) = ret (unsegment [], event_build d acc)"
    by (simp add: unsegment_def manager_step_def recycling_def event_process_def event_build_def event_recycle_def)
  then show ?case by blast
next
  case (Cons seg segs)
  from event_iteration [OF d acc] Cons.prems obtain out where
    out: "transduceR (manager_step (event_alone proc outp d acc)) (event_build d acc) (seg @ [FlushAndRestart]) =
      ret (out @ [FlushAndRestart], event_build d acc)" "event_windows d result seg out"
    by (metis list.set_intros(1))
  from Cons.IH Cons.prems obtain outs m' where
    outs: "transduceR (manager_step (event_alone proc outp d acc)) (event_build d acc) (unsegment segs) = ret (unsegment outs, m')"
      "list_all2 (event_windows d result) segs outs" by auto
  have "transduceR (manager_step (event_alone proc outp d acc)) (event_build d acc) (unsegment (seg # segs)) =
      ret (unsegment (out # outs), m')"
    unfolding unsegment_Cons transduceR_append [of _ _ "seg @ [FlushAndRestart]"] out(1) by (simp add: outs(1))
  with out(2) outs(2) show ?case by (metis list.rel_inject(2))
qed

subsection \<open>All the keys\<close>

lemma key_view_unsegment: "key_view k (unsegment segs) = unsegment (map (key_view k) segs)"
  by (induction segs) (auto simp: unsegment_def)

lemma key_view_data_only: "data_only es \<Longrightarrow> data_only (key_view k es)"
proof (induction es)
  case (Cons e es)
  then show ?case by (cases "(k, e)" rule: key_sees.cases) auto
qed simp

lemma key_view_timed:
  "data_only es \<Longrightarrow> list_all (\<lambda>e. case e of Item _ \<Rightarrow> False | _ \<Rightarrow> True) es \<Longrightarrow> timed (key_view k es)"
proof (induction es)
  case (Cons e es)
  then show ?case by (cases "(k, e)" rule: key_sees.cases) (auto simp: timed_def)
qed (simp add: timed_def)

lemma key_view_times: "a \<in> set (times (key_view k es)) \<Longrightarrow> a \<in> set (times es)"
proof (induction es)
  case (Cons e es)
  then show ?case by (cases "(k, e)" rule: key_sees.cases) (auto split: if_splits)
qed simp

lemma time_ordered_weaken: "time_ordered (Some a) es \<Longrightarrow> (case m of None \<Rightarrow> True | Some b \<Rightarrow> b \<le> a) \<Longrightarrow> time_ordered m es"
proof (induction es arbitrary: m)
  case (Cons e es)
  then show ?case by (cases e) (auto split: option.splits)
qed simp

lemma key_view_time_ordered: "time_ordered m es \<Longrightarrow> time_ordered m (key_view k es)"
proof (induction es arbitrary: m)
  case (Cons e es)
  have "time_ordered m (key_view k es)" if "e = Timestamped kv t" for kv t
    using Cons that time_ordered_weaken [of t "key_view k es" m] by (auto split: option.splits)
  with Cons show ?case by (cases "(k, e)" rule: key_sees.cases) auto
qed simp

lemma time_ordered_segments: "time_ordered m (seg @ FlushAndRestart # es) \<Longrightarrow> data_only seg \<Longrightarrow> time_ordered None es"
proof (induction seg arbitrary: m)
  case (Cons e seg)
  then show ?case by (cases e) auto
qed simp

lemma time_ordered_unsegment:
  "time_ordered m (unsegment segs) \<Longrightarrow> \<forall>seg \<in> set segs. data_only seg \<Longrightarrow> m = None \<Longrightarrow> \<forall>seg \<in> set segs. time_ordered None seg"
proof (induction segs)
  case (Cons seg segs)
  then have "time_ordered None (seg @ FlushAndRestart # unsegment segs)" by (simp add: unsegment_Cons)
  with Cons time_ordered_prefix [of None seg] time_ordered_segments [of None seg] show ?case by auto
qed simp


text \<open>
  C35: an event-time window, sliding or tumbling, over a well-formed stream of timestamped elements in time order (size,
  slide and timestamps at most \<open>2^61\<close>): for every key and every iteration the output is that of the windows \<open>[st, st + size)\<close> whose starts
  \<open>event_starts\<close> computes from the timestamps, the watermarks, the size and the slide: on the grid of the slide from the first element on,
  a new grid beginning when a watermark has closed all the windows, and windows more than a slide before a watermark left out. Each window
  returns the accumulator's result on exactly the elements of the key whose timestamp lies in it, in order, stamped with its end; a result
  appears before exactly the watermarks greater than its timestamp. In an iteration without watermarks the windows are
  all those of the grid; if the slide is at most the size, every element is in a window.
\<close>

theorem event_time_windows:
  assumes "hash_order ho" and wf: "wf_stream es" and "pulls p s es s'"
    and timed: "list_all (\<lambda>e. case e of Item _ \<Rightarrow> False | _ \<Rightarrow> True) es"
    and order: "time_ordered None es" and mod: "\<forall>a \<in> set (times es). moderate a"
    and d: "valid_window d" and acc: "window_accumulator proc outp acc result"
  shows "\<exists>outs st'. pulls (window_next ho (event_process proc outp) event_recycle p)
      (window_operator_new (event_build d acc) s) outs st'
    \<and> (\<forall>k. \<exists>segs. key_view k outs = unsegment segs
        \<and> list_all2 (event_windows d result) (map (key_view k) (iterations es)) segs)
    \<and> system_elems outs = system_elems es"
proof -
  note its = wf_stream_unsegment [OF wf]
  have set_es: "set seg \<subseteq> set es" if "seg \<in> set (iterations es)" for seg
  proof -
    have "set seg \<subseteq> set (unsegment (iterations es))" using that by (auto simp: unsegment_def)
    then show ?thesis by (simp only: its(1))
  qed
  have times: "moderate a" if seg: "seg \<in> set (iterations es)" and a: "a \<in> set (times seg)" for seg a
  proof -
    obtain e where "e \<in> set seg" "timestamp_of e = Some a"
      using a by (auto simp: times_def List.map_filter_def)
    then have "a \<in> set (times es)"
      using set_es [OF seg] by (auto simp: times_def List.map_filter_def image_iff intro!: bexI [of _ e])
    with mod show ?thesis by blast
  qed
  have ordered: "\<forall>seg \<in> set (iterations es). time_ordered None seg"
    using time_ordered_unsegment [of None "iterations es"] order its by simp
  have good: "\<forall>seg \<in> set (map (key_view k) (iterations es)).
      data_only seg \<and> timed seg \<and> time_ordered None seg \<and> (\<forall>a \<in> set (times seg). moderate a)" for k
  proof (clarsimp, intro conjI ballI)
    fix seg assume seg: "seg \<in> set (iterations es)"
    then have data: "data_only seg" using its(2) by blast
    then show "data_only (key_view k seg)" by (rule key_view_data_only)
    show "timed (key_view k seg)"
      using data timed set_es [OF seg] by (intro key_view_timed) (auto simp: list_all_iff)
    show "time_ordered None (key_view k seg)" using seg ordered by (blast intro: key_view_time_ordered)
    show "moderate a" if "a \<in> set (times (key_view k seg))" for a
      using times [OF seg key_view_times [OF that]] .
  qed
  have "\<exists>outs m'. transduceR (manager_step (event_alone proc outp d acc)) (event_build d acc) (key_view k es) = ret (unsegment outs, m')
      \<and> list_all2 (event_windows d result) (map (key_view k) (iterations es)) outs" for k
    using event_stream [OF d acc good [of k]] its(1) by (metis key_view_unsegment)
  then obtain outk M' where
    outk: "\<And>k. transduceR (manager_step (event_alone proc outp d acc)) (event_build d acc) (key_view k es) = ret (unsegment (outk k), M' k)"
      "\<And>k. list_all2 (event_windows d result) (map (key_view k) (iterations es)) (outk k)" by metis
  from event_manager.window_operator_per_key [OF assms(1-3) outk(1)] outk(2) show ?thesis by blast
qed

theorem event_time_windows_witness:
  "\<exists>outs st' seg. pulls (window_next (\<lambda>m. m) (event_process acc_count_process acc_count_output) event_recycle fake_next)
      (window_operator_new (event_build \<lparr>ew_size = 10, ew_slide = 5\<rparr> 0)
        [Timestamped (True, ''x'') 3, Timestamped (False, ''y'') 4, Timestamped (True, ''z'') 9, Watermark 30, FlushAndRestart, Terminate]) outs st'
    \<and> key_view True outs = seg @ [FlushAndRestart, Terminate]
    \<and> filter (\<lambda>e. elem_value e \<noteq> None) seg = [Timestamped 2 13, Timestamped 1 18]"
proof -
  let ?es = "[Timestamped (True, ''x'') 3, Timestamped (False, ''y'') 4, Timestamped (True, ''z'') 9, Watermark 30, FlushAndRestart, Terminate]"
  let ?d = "\<lparr>ew_size = 10, ew_slide = 5\<rparr>" and ?seg = "[Timestamped ''x'' 3, Timestamped ''z'' 9, Watermark 30]"
  have wf: "wf_stream ?es" by (simp add: wf_stream_def)
  have timed: "list_all (\<lambda>e. case e of Item _ \<Rightarrow> False | _ \<Rightarrow> True) ?es" "time_ordered None ?es"
    "\<forall>a \<in> set (times ?es). moderate a" "valid_window ?d"
    by (simp_all add: moderate_def)
  have views: "map (key_view True) (iterations ?es) = [?seg]" by (simp add: iterations_def)
  have starts: "event_starts ?d ?seg = [3, 8, 13]" by code_simp
  have windows: "window_outputs length 10 ?seg [3, 8, 13] = [Timestamped 2 13, Timestamped 1 18]" by code_simp
  from event_time_windows [OF hash_order_id wf pulls_fake_all timed acc_count.window_accumulator_axioms] obtain outs st' segs where
    run: "pulls (window_next (\<lambda>m. m) (event_process acc_count_process acc_count_output) event_recycle fake_next)
      (window_operator_new (event_build ?d 0) ?es) outs st'"
    and segs: "key_view True outs = unsegment segs" "list_all2 (event_windows ?d length) [?seg] segs" by (metis views)
  from segs(2) obtain seg where seg: "segs = [seg]" "event_windows ?d length ?seg seg" by (auto simp: list_all2_Cons1)
  then have "filter (\<lambda>e. elem_value e \<noteq> None) seg = [Timestamped 2 13, Timestamped 1 18]"
    unfolding event_windows_def event_outs_def starts windows [symmetric] by simp
  with run segs(1) seg(1) show ?thesis by (auto simp: unsegment_def)
qed

text \<open>
  The step that skips windows before a watermark also leaves out windows with elements: with size 10 and slide 2, the element 9 after the
  watermark 8 is in the windows that start at 2, 4 and 6, but only those of 0 and 8 are returned.
\<close>

theorem event_sliding_skips:
  defines "d \<equiv> \<lparr>ew_size = 10, ew_slide = 2\<rparr>"
  shows "\<exists>out. transduceR (manager_step (event_alone acc_count_process acc_count_output d 0)) (event_build d 0)
      ([Timestamped ''a'' 0, Watermark 8, Timestamped ''b'' 9] @ [FlushAndRestart]) = ret (out @ [FlushAndRestart], event_build d 0)
    \<and> filter (\<lambda>e. elem_value e \<noteq> None) out = [Timestamped 2 10, Timestamped 1 18]"
proof -
  let ?seg = "[Timestamped ''a'' 0, Watermark 8, Timestamped ''b'' 9]"
  have starts: "event_starts d ?seg = [0, 8, 10]" unfolding d_def by code_simp
  have windows: "window_outputs length 10 ?seg [0, 8, 10] = [Timestamped 2 10, Timestamped 1 18]" by code_simp
  have "valid_window d" "data_only ?seg" "timed ?seg" "time_ordered None ?seg" "\<forall>a \<in> set (times ?seg). moderate a"
    by (simp_all add: d_def moderate_def timed_def)
  from event_iteration [OF this(1) acc_count.window_accumulator_axioms this(2-5)] obtain out where
    out: "transduceR (manager_step (event_alone acc_count_process acc_count_output d 0)) (event_build d 0) (?seg @ [FlushAndRestart]) =
      ret (out @ [FlushAndRestart], event_build d 0)" "event_windows d length ?seg out" by blast
  have "filter (\<lambda>e. elem_value e \<noteq> None) out = window_outputs length 10 ?seg [0, 8, 10]"
    using out(2) unfolding event_windows_def event_outs_def starts by (simp add: d_def)
  with out(1) show ?thesis unfolding windows by blast
qed

text \<open>
  An element whose timestamp is lower than that of the key's first element is lost, although no
  watermark has passed it: with \<open>t' < t\<close>, the iteration \<open>(a, t), (b, t')\<close> gives the single window of
  \<open>a\<close>.
\<close>

theorem event_window_drops_earlier:
  assumes "valid_window d" and "moderate t" and "t' < t" and acc: "window_accumulator proc outp acc result"
  shows "transduceR (manager_step (event_alone proc outp d acc)) (event_build d acc)
      [Timestamped a t, Timestamped b t', FlushAndRestart] =
    ret ([Timestamped (result [a]) (t + ew_size d), FlushAndRestart], event_build d acc)"
proof -
  let ?w = "\<lparr>ts_acc = proc acc a, ts_start = t, ts_end = t + ew_size d, ts_active = True\<rparr>"
  have "arith_i64 (t + ew_size d) = ret (t + ew_size d)"
    using assms(1,2) by (intro arith_i64_ret) (auto simp: moderate_def)
  moreover have "alloc_loop acc sz slide lw t [w] = ret [w]" if "ts_start w = t" for sz slide lw w
    using that by (subst alloc_loop.simps) simp
  ultimately have "alloc_loop acc (ew_size d) (ew_slide d) None t [] = ret [time_slot_new acc t (t + ew_size d)]"
    by (subst alloc_loop.simps) (simp add: skip_empty_def time_slot_new_def)
  then have first: "event_process proc outp (event_build d acc) (Timestamped a t) = ret ([], (event_build d acc)\<lparr>em_ws := [?w]\<rparr>)"
    using assms(1) by (simp add: event_process_def alloc_windows_def event_build_def feed_slots_def time_slot_new_def)
  have "alloc_loop acc (ew_size d) (ew_slide d) None t' [?w] = ret [?w]"
    using assms(3) by (subst alloc_loop.simps) simp
  then have second: "event_process proc outp ((event_build d acc)\<lparr>em_ws := [?w]\<rparr>) (Timestamped b t') =
      ret ([], (event_build d acc)\<lparr>em_ws := [?w]\<rparr>)"
    using assms(1,3) by (simp add: event_process_def alloc_windows_def event_build_def feed_slots_def)
  have "outp (proc acc a) = ret (result [a])" using window_accumulator.output_result [OF acc, of "[a]"] by simp
  then have "event_process proc outp ((event_build d acc)\<lparr>em_ws := [?w]\<rparr>) FlushAndRestart =
      ret ([WTimestamped (result [a]) (t + ew_size d)], event_build d acc)"
    by (simp add: event_process_def event_build_def)
  with first second show ?thesis
    by (simp add: manager_step_def recycling_def event_build_def)
qed

theorem event_window_drops_earlier_witness:
  "transduceR (manager_step (event_alone acc_count_process acc_count_output \<lparr>ew_size = 10, ew_slide = 10\<rparr> 0))
      (event_build \<lparr>ew_size = 10, ew_slide = 10\<rparr> 0) [Timestamped ''a'' 7, Timestamped ''b'' 6, FlushAndRestart] =
    ret ([Timestamped 1 17, FlushAndRestart], event_build \<lparr>ew_size = 10, ew_slide = 10\<rparr> 0)"
  using event_window_drops_earlier [of "\<lparr>ew_size = 10, ew_slide = 10\<rparr>" 7 6, OF _ _ _ acc_count.window_accumulator_axioms, of "''a''" "''b''"]
  by (simp add: moderate_def)


text \<open>
  Sliding windows that contain an element are skipped as "empty": with size 10 and slide 2, after
  an element at 0 and the watermark 9, an element at 9 is put in the windows starting at 0 and at 8;
  the windows starting at 2, 4 and 6, which contain it as well, are never created.
\<close>

theorem event_sliding_skips_windows:
  assumes acc: "window_accumulator proc outp acc result"
  shows "transduceR (manager_step (event_alone proc outp \<lparr>ew_size = 10, ew_slide = 2\<rparr> acc)) (event_build \<lparr>ew_size = 10, ew_slide = 2\<rparr> acc)
      [Timestamped a 0, Watermark 9, Timestamped b 9, FlushAndRestart] =
    ret ([Watermark 9, Timestamped (result [a, b]) 10, Timestamped (result [b]) 18, FlushAndRestart],
      event_build \<lparr>ew_size = 10, ew_slide = 2\<rparr> acc)"
proof -
  let ?d = "\<lparr>ew_size = 10, ew_slide = 2\<rparr>"
  let ?slot = "\<lambda>ac st act. \<lparr>ts_acc = ac, ts_start = st, ts_end = st + 10, ts_active = act\<rparr>"
  let ?m = "\<lambda>lw ws. (event_build ?d acc)\<lparr>em_last_watermark := lw, em_ws := ws\<rparr>"
  note [simp] = event_build_def time_slot_new_def skip_empty_def div_i64_def arith_i64_ret
  have "alloc_loop acc 10 2 None 0 [] = ret [?slot acc 0 False]"
    by (subst alloc_loop.simps, simp) (subst alloc_loop.simps, simp)
  then have s1: "event_process proc outp (event_build ?d acc) (Timestamped a 0) = ret ([], ?m None [?slot (proc acc a) 0 True])"
    by (simp add: event_process_def alloc_windows_def feed_slots_def)
  have s2: "event_process proc outp (?m None [?slot (proc acc a) 0 True]) (Watermark 9) =
      ret ([], ?m (Some 9) [?slot (proc acc a) 0 True])"
    by (simp add: event_process_def)
  have "alloc_loop acc 10 2 (Some 9) 9 [?slot (proc acc a) 0 True] =
      ret [?slot (proc acc a) 0 True, ?slot acc 8 False, ?slot acc 10 False]"
    by (subst alloc_loop.simps, simp, subst alloc_loop.simps, simp, subst alloc_loop.simps, simp)
  then have s3: "event_process proc outp (?m (Some 9) [?slot (proc acc a) 0 True]) (Timestamped b 9) =
      ret ([], ?m (Some 9) [?slot (proc (proc acc a) b) 0 True, ?slot (proc acc b) 8 True, ?slot acc 10 False])"
    by (simp add: event_process_def alloc_windows_def feed_slots_def)
  have "outp (proc acc b) = ret (result [b])" "outp (proc (proc acc a) b) = ret (result [a, b])"
    using window_accumulator.output_result [OF acc, of "[b]"] window_accumulator.output_result [OF acc, of "[a, b]"] by simp_all
  then have s4: "event_process proc outp (?m (Some 9) [?slot (proc (proc acc a) b) 0 True, ?slot (proc acc b) 8 True, ?slot acc 10 False])
      FlushAndRestart = ret ([WTimestamped (result [a, b]) 10, WTimestamped (result [b]) 18], ?m (Some 9) [])"
    by (simp add: event_process_def)
  show ?thesis
    using s1 s2 s3 s4 by (simp add: manager_step_def recycling_def event_recycle_def)
qed

theorem event_sliding_skips_windows_witness:
  "transduceR (manager_step (event_alone acc_count_process acc_count_output \<lparr>ew_size = 10, ew_slide = 2\<rparr> 0))
      (event_build \<lparr>ew_size = 10, ew_slide = 2\<rparr> 0) [Timestamped ''a'' 0, Watermark 9, Timestamped ''b'' 9, FlushAndRestart] =
    ret ([Watermark 9, Timestamped 2 10, Timestamped 1 18, FlushAndRestart], event_build \<lparr>ew_size = 10, ew_slide = 2\<rparr> 0)"
  using event_sliding_skips_windows [OF acc_count.window_accumulator_axioms, of "''a''" "''b''"] by simp

end
