(* ===== verification/Window_Sessions.thy ===== *)
theory Window_Sessions
  imports Window_Time
begin

text \<open>
  Windows closed by the program's own logic or by the wall clock:
  \<^verbatim>\<open>src/operator/window/descr/transaction.rs\<close>, \<^verbatim>\<open>session.rs\<close> and \<^verbatim>\<open>processing_time.rs\<close>. A manager that
  reads \<^verbatim>\<open>Instant::now()\<close> takes the instant as an argument; instants are integers, and their
  differences saturate at zero as in the standard library.
\<close>

section \<open>TransactionWindow\<close>

datatype transaction_op = Continue | Commit | CommitAfter timestamp | Discard

record 'a txn_slot =
  tx_acc :: 'a
  tx_close :: "timestamp option"

record 'a txn_manager =
  tm_init :: 'a
  tm_w :: "'a txn_slot option"

definition txn_build :: "'a \<Rightarrow> 'a txn_manager" where
  "txn_build acc = \<lparr>tm_init = acc, tm_w = None\<rparr>"

text \<open>\<^verbatim>\<open>return_current!\<close>: the window is taken and its accumulator's output returned.\<close>

definition return_current :: "('a \<Rightarrow> 'o res) \<Rightarrow> 'a txn_manager \<Rightarrow> ('o window_result list \<times> 'a txn_manager) res" where
  "return_current outp m =
     bindR (unwrapR (tm_w m)) (\<lambda>s. bindR (outp (tx_acc s)) (\<lambda>x. ret ([WItem x], m\<lparr>tm_w := None\<rparr>)))"

definition txn_closing :: "'a txn_manager \<Rightarrow> timestamp option" where
  "txn_closing m = (case tm_w m of None \<Rightarrow> None | Some w \<Rightarrow> tx_close w)"

definition txn_process :: "('i \<Rightarrow> transaction_op) \<Rightarrow> ('a \<Rightarrow> 'i \<Rightarrow> 'a) \<Rightarrow> ('a \<Rightarrow> 'o res) \<Rightarrow> ('a txn_manager, 'i, 'o) process" where
  "txn_process f proc outp m el =
     (case el of
        Timestamped item _ \<Rightarrow>
          (let slot = (case tm_w m of None \<Rightarrow> \<lparr>tx_acc = tm_init m, tx_close = None\<rparr> | Some s \<Rightarrow> s);
               command = f item;
               slot = slot\<lparr>tx_acc := proc (tx_acc slot) item\<rparr>
           in case command of
                Commit \<Rightarrow> return_current outp (m\<lparr>tm_w := Some slot\<rparr>)
              | CommitAfter t \<Rightarrow> ret ([], m\<lparr>tm_w := Some (slot\<lparr>tx_close := Some t\<rparr>)\<rparr>)
              | Discard \<Rightarrow> ret ([], m\<lparr>tm_w := None\<rparr>)
              | Continue \<Rightarrow> ret ([], m\<lparr>tm_w := Some slot\<rparr>))
      | Watermark t \<Rightarrow>
          (case txn_closing m of
             None \<Rightarrow> ret ([], m)
           | Some close \<Rightarrow> if close < t then return_current outp m else ret ([], m))
      | Item _ \<Rightarrow> panic ExplicitPanic
      | FlushBatch \<Rightarrow> ret ([], m)
      | _ \<Rightarrow> if txn_closing m \<noteq> None then return_current outp m else ret ([], m))"

definition txn_recycle :: "'a txn_manager \<Rightarrow> bool" where
  "txn_recycle m \<longleftrightarrow> tm_w m = None"

interpretation txn_manager: window_manager "txn_process f proc outp" txn_recycle "txn_build acc"
  for f :: "'i \<Rightarrow> transaction_op" and proc :: "'a \<Rightarrow> 'i \<Rightarrow> 'a" and outp :: "'a \<Rightarrow> 'o res" and acc
proof
  fix e rs m'
  assume "elem_value e = None" and "txn_process f proc outp (txn_build acc) e = ret (rs, m')"
  then show "rs = [] \<and> (m' = txn_build acc \<or> txn_recycle m')"
    by (cases e) (auto simp: txn_process_def txn_build_def txn_closing_def)
qed

text \<open>
  The reference keeps the elements of the open window and the time after which it is committed. The
  end of an iteration commits a window only if it has such a time; otherwise the window stays open.
\<close>

fun txn_ref :: "('i \<Rightarrow> transaction_op) \<Rightarrow> ('i list \<Rightarrow> 'o) \<Rightarrow> 'i list \<times> timestamp option \<Rightarrow> 'i stream_element
    \<Rightarrow> 'o stream_element list \<times> ('i list \<times> timestamp option)" where
  "txn_ref f result (xs, c) (Timestamped v t) =
     (case f v of
        Commit \<Rightarrow> ([Item (result (xs @ [v]))], [], None)
      | CommitAfter t \<Rightarrow> ([], xs @ [v], Some t)
      | Discard \<Rightarrow> ([], [], None)
      | Continue \<Rightarrow> ([], xs @ [v], c))"
| "txn_ref f result (xs, c) (Watermark t) =
     (if (case c of Some close \<Rightarrow> close < t | None \<Rightarrow> False)
      then ([Item (result xs), Watermark t], [], None) else ([Watermark t], xs, c))"
| "txn_ref f result (xs, c) FlushAndRestart =
     (if c \<noteq> None then ([Item (result xs), FlushAndRestart], [], None) else ([FlushAndRestart], xs, c))"
| "txn_ref f result (xs, c) Terminate =
     (if c \<noteq> None then ([Item (result xs), Terminate], [], None) else ([Terminate], xs, c))"
| "txn_ref f result (xs, c) e = ([], xs, c)"

definition txn_state :: "('a \<Rightarrow> 'i \<Rightarrow> 'a) \<Rightarrow> 'a \<Rightarrow> 'i list \<Rightarrow> timestamp option \<Rightarrow> 'a txn_manager" where
  "txn_state proc acc xs c = \<lparr>tm_init = acc,
     tm_w = if xs = [] then None else Some \<lparr>tx_acc = foldl proc acc xs, tx_close = c\<rparr>\<rparr>"

lemma txn_step:
  assumes acc: "window_accumulator proc outp acc result" and "xs = [] \<longrightarrow> c = None"
    and e: "\<forall>v. e \<noteq> Item v" "e \<noteq> FlushBatch" and "txn_ref f result (xs, c) e = (out, xs', c')"
  shows "manager_step (recycling (txn_process f proc outp) txn_recycle (txn_build acc)) (txn_state proc acc xs c) e =
    ret (out, txn_state proc acc xs' c') \<and> (xs' = [] \<longrightarrow> c' = None)"
proof -
  have out: "ys \<noteq> [] \<Longrightarrow> outp (foldl proc acc ys) = ret (result ys)" for ys
    using window_accumulator.output_result [OF acc] .
  have out': "outp (proc (foldl proc acc ys) y) = ret (result (ys @ [y]))" for ys y
    using out [of "ys @ [y]"] by simp
  note defs = manager_step_def recycling_def txn_process_def txn_recycle_def txn_state_def txn_build_def
    txn_closing_def return_current_def
  show ?thesis
  proof (cases e)
    case (Timestamped v t)
    with assms(2,5) out' [of xs v] out' [of "[]" v] show ?thesis
      by (cases "f v"; cases "xs = []") (auto simp: defs)
  next
    case (Watermark t)
    with assms(2,5) out [of xs] show ?thesis
      by (cases "xs = []") (auto simp: defs split: option.splits if_splits)
  next
    case FlushAndRestart
    with assms(2,5) out [of xs] show ?thesis
      by (cases "xs = []") (auto simp: defs split: option.splits if_splits)
  next
    case Terminate
    with assms(2,5) out [of xs] show ?thesis
      by (cases "xs = []") (auto simp: defs split: option.splits if_splits)
  qed (use e in auto)
qed

lemma txn_run:
  assumes acc: "window_accumulator proc outp acc result" and "xs = [] \<longrightarrow> c = None"
    and "\<forall>e \<in> set es. (\<forall>v. e \<noteq> Item v) \<and> e \<noteq> FlushBatch"
  shows "\<exists>m'. transduceR (manager_step (recycling (txn_process f proc outp) txn_recycle (txn_build acc)))
      (txn_state proc acc xs c) es = ret (transduce (txn_ref f result) (xs, c) es, m')"
  using assms(2,3)
proof (induction es arbitrary: xs c)
  case (Cons e es)
  obtain out xs' c' where ref: "txn_ref f result (xs, c) e = (out, xs', c')"
    by (metis prod.exhaust)
  from txn_step [OF acc Cons.prems(1) _ _ ref] Cons.prems(2) have
    step: "manager_step (recycling (txn_process f proc outp) txn_recycle (txn_build acc)) (txn_state proc acc xs c) e =
      ret (out, txn_state proc acc xs' c')" and "xs' = [] \<longrightarrow> c' = None" by auto
  with Cons obtain m' where "transduceR (manager_step (recycling (txn_process f proc outp) txn_recycle (txn_build acc)))
      (txn_state proc acc xs' c') es = ret (transduce (txn_ref f result) (xs', c') es, m')"
    by (metis list.set_intros(2))
  with ref step show ?case by auto
qed simp

lemma key_view_no_flush:
  "\<forall>e \<in> set es. (\<forall>v. e \<noteq> Item v) \<Longrightarrow> x \<in> set (key_view k es) \<Longrightarrow> (\<forall>v. x \<noteq> Item v) \<and> x \<noteq> FlushBatch"
proof (induction es)
  case (Cons e es)
  then show ?case by (cases "(k, e)" rule: key_sees.cases) (auto split: if_splits)
qed simp

text \<open>
  C37: a transaction window over any well-formed stream of timestamped elements: for every key the
  elements are collected in one window at a time; \<^verbatim>\<open>Commit\<close> returns the accumulator's result on the
  elements since the last commit or discard, the committing one included; \<^verbatim>\<open>Discard\<close> drops them;
  \<^verbatim>\<open>CommitAfter(t)\<close> commits at the first watermark greater than \<open>t\<close> or at the end of the iteration. A
  window without a commit time is not closed by the end of an iteration: its elements are kept for
  the next one.
\<close>

theorem transaction_windows:
  assumes "hash_order ho" and "wf_stream es" and "pulls p s es s'"
    and timed: "\<forall>e \<in> set es. \<forall>v. e \<noteq> Item v" and acc: "window_accumulator proc outp acc result"
  shows "\<exists>outs st'. pulls (window_next ho (txn_process f proc outp) txn_recycle p)
      (window_operator_new (txn_build acc) s) outs st'
    \<and> (\<forall>k. key_view k outs = transduce (txn_ref f result) ([], None) (key_view k es))
    \<and> system_elems outs = system_elems es"
proof -
  have "txn_build acc = txn_state proc acc [] None" by (simp add: txn_build_def txn_state_def)
  then have "\<exists>m'. transduceR (manager_step (recycling (txn_process f proc outp) txn_recycle (txn_build acc)))
      (txn_build acc) (key_view k es) = ret (transduce (txn_ref f result) ([], None) (key_view k es), m')" for k
    using txn_run [OF acc, of "[]" None "key_view k es" f] key_view_no_flush [OF timed] by simp
  then obtain M' where "\<And>k. transduceR (manager_step (recycling (txn_process f proc outp) txn_recycle (txn_build acc)))
      (txn_build acc) (key_view k es) = ret (transduce (txn_ref f result) ([], None) (key_view k es), M' k)" by metis
  from txn_manager.window_operator_per_key [OF assms(1-3) this] show ?thesis .
qed

theorem transaction_windows_witness:
  "\<exists>outs st'. pulls (window_next rev (txn_process (\<lambda>v. if v = (0 :: int) then Commit else Continue) acc_count_process acc_count_output)
        txn_recycle fake_next)
      (window_operator_new (txn_build 0)
        [Timestamped (True, 5) 1, FlushAndRestart, Timestamped (True, 0) 1, FlushAndRestart, Terminate]) outs st'
    \<and> key_view True outs = [FlushAndRestart, Item 2, FlushAndRestart, Terminate]"
proof -
  let ?es = "[Timestamped (True, 5 :: int) 1, FlushAndRestart, Timestamped (True, 0) 1, FlushAndRestart, Terminate]"
  have wf: "wf_stream ?es" by (simp add: wf_stream_def)
  have timed: "\<forall>e \<in> set ?es. \<forall>v. e \<noteq> Item v" by simp
  have "key_view True outs = [FlushAndRestart, Item 2, FlushAndRestart, Terminate]"
    if "\<forall>k. key_view k outs = transduce (txn_ref (\<lambda>v. if v = 0 then Commit else Continue) length) ([], None) (key_view k ?es)"
    for outs
    using that by simp
  moreover note transaction_windows [OF hash_order_rev wf pulls_fake_all timed acc_count.window_accumulator_axioms,
      of "\<lambda>v. if v = 0 then Commit else Continue"]
  ultimately show ?thesis by (elim exE conjE) (intro exI conjI; assumption?; blast)
qed

section \<open>SessionWindow\<close>

record 'a session_slot =
  ss_acc :: 'a
  ss_last :: int

record 'a session_manager =
  se_init :: 'a
  se_gap :: int
  se_w :: "'a session_slot option"

definition session_build :: "int \<Rightarrow> 'a \<Rightarrow> 'a session_manager" where
  "session_build gap acc = \<lparr>se_init = acc, se_gap = gap, se_w = None\<rparr>"

definition session_process :: "('a \<Rightarrow> 'i \<Rightarrow> 'a) \<Rightarrow> ('a \<Rightarrow> 'o res) \<Rightarrow> int \<Rightarrow> ('a session_manager, 'i, 'o) process" where
  "session_process proc outp now m el =
     bindR (case se_w m of
              Some slot \<Rightarrow>
                if se_gap m < max 0 (now - ss_last slot)
                then bindR (outp (ss_acc slot)) (\<lambda>x. ret ([WItem x], None))
                else ret ([], Some slot)
            | None \<Rightarrow> ret ([], None))
       (\<lambda>(r, w).
          let add = (\<lambda>item.
                let slot = (case w of None \<Rightarrow> \<lparr>ss_acc = se_init m, ss_last = now\<rparr> | Some s \<Rightarrow> s)
                in ret (r, m\<lparr>se_w := Some \<lparr>ss_acc = proc (ss_acc slot) item, ss_last = now\<rparr>\<rparr>));
              flush = (case (r, w) of
                  ([], Some s) \<Rightarrow> bindR (outp (ss_acc s)) (\<lambda>x. ret ([WItem x], m\<lparr>se_w := None\<rparr>))
                | _ \<Rightarrow> ret (r, m\<lparr>se_w := w\<rparr>))
          in case el of
               Item item \<Rightarrow> add item
             | Timestamped item _ \<Rightarrow> add item
             | Terminate \<Rightarrow> flush
             | FlushAndRestart \<Rightarrow> flush
             | _ \<Rightarrow> ret (r, m\<lparr>se_w := w\<rparr>))"

text \<open>A manager that reads the clock, run on elements paired with the instants it reads.\<close>

definition clocked :: "(int \<Rightarrow> ('m, 'i, 'o) process) \<Rightarrow> 'm \<Rightarrow> int \<times> 'i stream_element \<Rightarrow> ('o list \<times> 'm) res" where
  "clocked process m x = bindR (process (fst x) m (snd x)) (\<lambda>(rs, m'). ret (map wr_item rs, m'))"

definition timed_values :: "(int \<times> 'i stream_element) list \<Rightarrow> (int \<times> 'i) list" where
  "timed_values xs = List.map_filter (\<lambda>(now, e). map_option (Pair now) (elem_value e)) xs"

lemma timed_values_simps [simp]:
  "timed_values [] = []"
  "timed_values ((now, e) # xs) = (case elem_value e of None \<Rightarrow> [] | Some v \<Rightarrow> [(now, v)]) @ timed_values xs"
  by (auto simp: timed_values_def List.map_filter_simps split: option.splits)

text \<open>The reference: a sequence is cut wherever two consecutive elements are more than \<open>gap\<close> apart.\<close>

fun sessions_from :: "int \<Rightarrow> int \<Rightarrow> 'i list \<Rightarrow> (int \<times> 'i) list \<Rightarrow> 'i list list" where
  "sessions_from gap prev cur [] = [cur]"
| "sessions_from gap prev cur ((t, x) # xs) =
     (if gap < t - prev then cur # sessions_from gap t [x] xs else sessions_from gap t (cur @ [x]) xs)"

fun sessions :: "int \<Rightarrow> (int \<times> 'i) list \<Rightarrow> 'i list list" where
  "sessions gap [] = []"
| "sessions gap ((t, x) # xs) = sessions_from gap t [x] xs"

lemma sessions_from_split:
  "\<forall>t \<in> fst ` set xs. gap < t - prev \<Longrightarrow> sessions_from gap prev cur xs = cur # sessions gap xs"
  by (cases xs) auto

lemma sessions_from_concat: "concat (sessions_from gap prev cur xs) = cur @ map snd xs"
  by (induction gap prev cur xs rule: sessions_from.induct) auto

lemma sessions_concat: "concat (sessions gap xs) = map snd xs"
  by (cases xs) (auto simp: sessions_from_concat)

lemma timed_values_times: "p \<in> set (timed_values xs) \<Longrightarrow> fst p \<in> fst ` set xs"
  by (induction xs) (auto split: option.splits)

text \<open>The manager with the elements \<open>cur\<close> of the open session, the last of them at \<open>prev\<close>.\<close>

definition session_state :: "('a \<Rightarrow> 'i \<Rightarrow> 'a) \<Rightarrow> int \<Rightarrow> 'a \<Rightarrow> ('i list \<times> int) option \<Rightarrow> 'a session_manager" where
  "session_state proc gap acc st = \<lparr>se_init = acc, se_gap = gap,
     se_w = map_option (\<lambda>(cur, prev). \<lparr>ss_acc = foldl proc acc cur, ss_last = prev\<rparr>) st\<rparr>"

definition session_rest :: "int \<Rightarrow> ('i list \<times> int) option \<Rightarrow> (int \<times> 'i) list \<Rightarrow> 'i list list" where
  "session_rest gap st xs = (case st of None \<Rightarrow> sessions gap xs | Some (cur, prev) \<Rightarrow> sessions_from gap prev cur xs)"

definition session_expire :: "int \<Rightarrow> int \<Rightarrow> ('i list \<times> int) option \<Rightarrow> 'i list list \<times> ('i list \<times> int) option" where
  "session_expire gap now st =
     (case st of Some (cur, prev) \<Rightarrow> if gap < now - prev then ([cur], None) else ([], st) | None \<Rightarrow> ([], None))"

definition session_valid :: "('i list \<times> int) option \<Rightarrow> int \<Rightarrow> bool" where
  "session_valid st now = (case st of None \<Rightarrow> True | Some (cur, prev) \<Rightarrow> cur \<noteq> [] \<and> prev \<le> now)"

lemma session_step:
  assumes acc: "window_accumulator proc outp acc result" and "0 < gap" and "session_valid st now"
    and ex: "session_expire gap now st = (ended, st1)"
  shows "elem_value el = Some v \<Longrightarrow> clocked (session_process proc outp) (session_state proc gap acc st) (now, el) =
      ret (map result ended, session_state proc gap acc (Some ((case st1 of None \<Rightarrow> [] | Some (cur, _) \<Rightarrow> cur) @ [v], now)))"
    and "elem_value el = None \<Longrightarrow> \<not> is_marker el \<Longrightarrow> clocked (session_process proc outp) (session_state proc gap acc st) (now, el) =
      ret (map result ended, session_state proc gap acc st1)"
    and "is_marker el \<Longrightarrow> clocked (session_process proc outp) (session_state proc gap acc st) (now, el) =
      ret (map result (ended @ (case st1 of None \<Rightarrow> [] | Some (cur, _) \<Rightarrow> [cur])), session_build gap acc)"
proof -
  have out: "ys \<noteq> [] \<Longrightarrow> outp (foldl proc acc ys) = ret (result ys)" for ys
    using window_accumulator.output_result [OF acc] .
  note defs = clocked_def session_process_def session_state_def session_build_def session_expire_def session_valid_def
  show "elem_value el = Some v \<Longrightarrow> clocked (session_process proc outp) (session_state proc gap acc st) (now, el) =
      ret (map result ended, session_state proc gap acc (Some ((case st1 of None \<Rightarrow> [] | Some (cur, _) \<Rightarrow> cur) @ [v], now)))"
    using assms(2-4) by (cases el) (auto simp: defs out split: option.splits if_splits)
  show "elem_value el = None \<Longrightarrow> \<not> is_marker el \<Longrightarrow> clocked (session_process proc outp) (session_state proc gap acc st) (now, el) =
      ret (map result ended, session_state proc gap acc st1)"
    using assms(2-4) by (cases el) (auto simp: defs out split: option.splits if_splits)
  show "is_marker el \<Longrightarrow> clocked (session_process proc outp) (session_state proc gap acc st) (now, el) =
      ret (map result (ended @ (case st1 of None \<Rightarrow> [] | Some (cur, _) \<Rightarrow> [cur])), session_build gap acc)"
    using assms(2-4) by (cases el) (auto simp: defs out split: option.splits if_splits)
qed

lemma session_rest_step:
  assumes "session_expire gap now st = (ended, st1)" and "\<forall>x \<in> set xs. now \<le> fst x"
  shows "session_rest gap st ((now, v) # xs) =
      ended @ session_rest gap (Some ((case st1 of None \<Rightarrow> [] | Some (cur, _) \<Rightarrow> cur) @ [v], now)) xs"
    and "session_rest gap st xs = ended @ session_rest gap st1 xs"
proof -
  have "sessions_from gap prev cur xs = cur # sessions gap xs" if "gap < now - prev" for prev cur
    using that assms(2) by (intro sessions_from_split) fastforce
  then show "session_rest gap st xs = ended @ session_rest gap st1 xs"
    using assms(1) by (auto simp: session_rest_def session_expire_def split: option.splits if_splits)
qed (use assms(1) in \<open>auto simp: session_rest_def session_expire_def split: option.splits if_splits\<close>)

lemma session_run:
  assumes acc: "window_accumulator proc outp acc result" and gap: "0 < gap" and fin: "is_marker e"
    and "sorted (map fst xs)" and "\<forall>x \<in> set xs. \<not> is_marker (snd x) \<and> fst x \<le> final"
    and "\<forall>x \<in> set xs. session_valid st (fst x)" and "session_valid st final"
  shows "transduceR (clocked (session_process proc outp)) (session_state proc gap acc st) (xs @ [(final, e)]) =
      ret (map result (session_rest gap st (timed_values xs)), session_build gap acc)"
  using assms(4-)
proof (induction xs arbitrary: st)
  case Nil
  obtain ended st1 where ex: "session_expire gap final st = (ended, st1)" by (metis prod.exhaust)
  have "ended @ (case st1 of None \<Rightarrow> [] | Some (cur, _) \<Rightarrow> [cur]) = session_rest gap st []"
    using ex by (auto simp: session_expire_def session_rest_def split: option.splits if_splits)
  with session_step(3) [OF acc gap Nil.prems(4) ex fin] show ?case by simp
next
  case (Cons x xs)
  obtain now el where x: "x = (now, el)" by (cases x)
  obtain ended st1 where ex: "session_expire gap now st = (ended, st1)" by (metis prod.exhaust)
  have valid: "session_valid st now" using Cons.prems(3) x by simp
  have later: "\<forall>y \<in> set xs. now \<le> fst y" and data: "\<not> is_marker el" and final: "now \<le> final"
    using Cons.prems(1,2) x by auto
  have later': "\<forall>y \<in> set (timed_values xs). now \<le> fst y"
    using later timed_values_times [of _ xs] by fastforce
  have IH: "transduceR (clocked (session_process proc outp)) (session_state proc gap acc st') (xs @ [(final, e)]) =
      ret (map result (session_rest gap st' (timed_values xs)), session_build gap acc)"
    if "session_valid st' now" for st'
    using that Cons.prems later final by (intro Cons.IH) (auto simp: session_valid_def split: option.splits)
  show ?case
  proof (cases "elem_value el")
    case None
    have "session_valid st1 now"
      using ex valid by (auto simp: session_expire_def session_valid_def split: option.splits if_splits)
    then show ?thesis
      using session_step(2) [OF acc gap valid ex None data] IH [of st1] session_rest_step(2) [OF ex later'] x None by simp
  next
    case (Some v)
    let ?st = "Some ((case st1 of None \<Rightarrow> [] | Some (cur, _) \<Rightarrow> cur) @ [v], now)"
    have "session_valid ?st now" by (simp add: session_valid_def)
    then show ?thesis
      using session_step(1) [OF acc gap valid ex Some] IH [of ?st] session_rest_step(1) [OF ex later'] x Some by simp
  qed
qed

text \<open>
  C38: a session window manager over an iteration, read by a clock that does not go back: the elements
  are cut exactly where two consecutive ones are more than \<open>gap\<close> apart, each session returns the
  accumulator's result on its elements, in order, and the manager is as new afterwards. Nothing is
  lost or counted twice.
\<close>

theorem session_windows:
  assumes acc: "window_accumulator proc outp acc result" and "0 < gap" and "is_marker e"
    and "sorted (map fst xs)" and "\<forall>x \<in> set xs. \<not> is_marker (snd x) \<and> fst x \<le> final"
  shows "transduceR (clocked (session_process proc outp)) (session_build gap acc) (xs @ [(final, e)]) =
      ret (map result (sessions gap (timed_values xs)), session_build gap acc)
    \<and> concat (sessions gap (timed_values xs)) = map snd (timed_values xs)"
proof -
  have "session_build gap acc = session_state proc gap acc None"
    by (simp add: session_build_def session_state_def)
  with session_run [OF assms(1-5), of None] show ?thesis
    by (simp add: session_valid_def session_rest_def sessions_concat)
qed

theorem session_windows_witness:
  "transduceR (clocked (session_process acc_count_process acc_count_output)) (session_build 10 0)
      ([(0, Item ''a''), (7, Item ''b''), (18, Item ''c''), (30, Watermark 2)] @ [(31, FlushAndRestart)]) =
    ret ([2, 1], session_build 10 0)"
  using session_windows [OF acc_count.window_accumulator_axioms, of 10 FlushAndRestart
      "[(0, Item ''a''), (7, Item ''b''), (18, Item ''c''), (30, Watermark 2)]" 31] by simp

section \<open>ProcessingTimeWindow\<close>

record 'a pt_manager =
  pt_init :: 'a
  pt_size :: int
  pt_slide :: int
  pt_ws :: "'a time_slot list"

record pt_window =
  pw_size :: int
  pw_slide :: int

definition pt_sliding :: "int \<Rightarrow> int \<Rightarrow> pt_window res" where
  "pt_sliding sz slide = assertR (sz \<noteq> 0) (assertR (slide \<noteq> 0) (ret \<lparr>pw_size = sz, pw_slide = slide\<rparr>))"

definition pt_tumbling :: "int \<Rightarrow> pt_window res" where
  "pt_tumbling sz = assertR (sz \<noteq> 0) (ret \<lparr>pw_size = sz, pw_slide = sz\<rparr>)"

definition pt_build :: "pt_window \<Rightarrow> 'a \<Rightarrow> 'a pt_manager" where
  "pt_build d acc = \<lparr>pt_init = acc, pt_size = pw_size d, pt_slide = pw_slide d, pt_ws = []\<rparr>"

text \<open>The allocation loop of an element, and the end of \<^verbatim>\<open>process\<close> that closes the expired windows.\<close>

partial_function (option) pt_alloc :: "'a \<Rightarrow> int \<Rightarrow> int \<Rightarrow> int \<Rightarrow> 'a time_slot list \<Rightarrow> 'a time_slot list res" where
  "pt_alloc acc sz slide now ws =
     (if (if ws = [] then True else ts_start (last ws) < now)
      then let next_start = (if ws = [] then now else ts_start (last ws) + slide)
           in pt_alloc acc sz slide now (ws @ [time_slot_new acc next_start (next_start + sz)])
      else ret ws)"

definition pt_close :: "('a \<Rightarrow> 'o res) \<Rightarrow> int \<Rightarrow> 'a pt_manager \<Rightarrow> ('o window_result list \<times> 'a pt_manager) res" where
  "pt_close outp now m =
     bindR (slot_results outp (\<lambda>x _. WItem x) (takeWhile (\<lambda>w. ts_end w < now) (pt_ws m))) (\<lambda>rs.
       ret (rs, m\<lparr>pt_ws := dropWhile (\<lambda>w. ts_end w < now) (pt_ws m)\<rparr>))"

definition pt_process :: "('a \<Rightarrow> 'i \<Rightarrow> 'a) \<Rightarrow> ('a \<Rightarrow> 'o res) \<Rightarrow> int \<Rightarrow> ('a pt_manager, 'i, 'o) process" where
  "pt_process proc outp now m el =
     (let add = (\<lambda>item. bindR (pt_alloc (pt_init m) (pt_size m) (pt_slide m) now (pt_ws m)) (\<lambda>ws.
            pt_close outp now (m\<lparr>pt_ws := feed_slots proc item now ws\<rparr>)));
          flush = bindR (slot_results outp (\<lambda>x _. WItem x) (pt_ws m)) (\<lambda>rs. ret (rs, m\<lparr>pt_ws := []\<rparr>))
      in case el of
           Item item \<Rightarrow> add item
         | Timestamped item _ \<Rightarrow> add item
         | Terminate \<Rightarrow> flush
         | FlushAndRestart \<Rightarrow> flush
         | _ \<Rightarrow> pt_close outp now m)"

text \<open>
  An event-time manager without a watermark allocates the same windows, as long as it does not
  overflow.
\<close>

lemma pt_alloc_event:
  assumes "alloc_loop acc sz slide lw now ws = ret ws'" and "lw = None"
  shows "pt_alloc acc sz slide now ws = ret ws'"
proof -
  have "lw = None \<longrightarrow> (\<forall>ws2. (Inr ws' :: error + _) = Inr ws2 \<longrightarrow> pt_alloc acc sz slide now ws = ret ws2)"
    apply (rule alloc_loop.raw_induct [where P = "\<lambda>acc sz slide lw now ws r.
        lw = None \<longrightarrow> (\<forall>ws'. r = Inr ws' \<longrightarrow> pt_alloc acc sz slide now ws = ret ws')"])
     defer
     apply (rule assms(1))
    apply (intro impI allI)
    apply (subst pt_alloc.simps)
    apply (auto simp: Let_def bindR_eq_ret skip_empty_def arith_i64_def split: if_splits)
    done
  with assms(2) show ?thesis by blast
qed

definition as_event :: "'a pt_manager \<Rightarrow> 'a event_manager" where
  "as_event m = \<lparr>em_init = pt_init m, em_size = pt_size m, em_slide = pt_slide m, em_last_watermark = None, em_ws = pt_ws m\<rparr>"

definition pt_event :: "pt_window \<Rightarrow> event_window" where
  "pt_event d = \<lparr>ew_size = pw_size d, ew_slide = pw_slide d\<rparr>"

text \<open>What the event-time manager would have seen: every reading of the clock is a watermark.\<close>

definition pt_seen :: "(int \<times> 'i stream_element) list \<Rightarrow> 'i stream_element list" where
  "pt_seen xs = concat (map (\<lambda>(now, e). (case elem_value e of None \<Rightarrow> [] | Some v \<Rightarrow> [Timestamped v now]) @ [Watermark now]) xs)"

lemma slot_results_items:
  assumes "slot_results outp wrap ws = ret rs" and "\<And>x w. wr_item (wrap x w) = x"
  shows "\<exists>rs'. slot_results outp (\<lambda>x _. WItem x) ws = ret rs' \<and> map wr_item rs' = map wr_item rs"
  using assms(1)
proof (induction ws arbitrary: rs)
  case (Cons w ws)
  then show ?case
    by (cases "ts_active w") (fastforce simp: bindR_eq_ret assms(2))+
qed simp

lemma wr_item_elements: "map wr_item rs = elem_values (map wr_element rs)"
  by (induction rs) auto

lemma pt_slot_results:
  assumes "window_accumulator proc outp acc result"
  shows "\<exists>rs. slot_results outp (\<lambda>x _. WItem x) (map (window_slot proc acc sz es) starts) = ret rs
    \<and> map wr_item rs = elem_values (window_outputs result sz es starts)"
proof -
  from window_slot_results [of outp proc acc result sz es starts] window_accumulator.output_result [OF assms]
  obtain rs where rs: "slot_results outp (\<lambda>x w. WTimestamped x (ts_end w)) (map (window_slot proc acc sz es) starts) = ret rs"
    "map wr_element rs = window_outputs result sz es starts" by blast
  from slot_results_items [OF rs(1)] rs(2) show ?thesis by (auto simp: wr_item_elements)
qed

lemma pt_close_step:
  assumes m: "event_state proc acc (pt_event d) seen pl (as_event m)" and acc: "window_accumulator proc outp acc result"
  shows "\<exists>rs m'. pt_close outp now m = ret (rs, m')
    \<and> map wr_item rs = elem_values (window_outputs result (pw_size d) seen (takeWhile (\<lambda>st. st + pw_size d < now) (pl_open pl)))
    \<and> event_state proc acc (pt_event d) (seen @ [Watermark now]) (plan_close (pw_size d) now pl) (as_event m')"
proof -
  have ws: "pt_ws m = map (window_slot proc acc (pw_size d) seen) (pl_open pl)"
    using m by (simp add: event_state_def as_event_def pt_event_def)
  from pt_slot_results [OF acc] obtain rs where
    rs: "slot_results outp (\<lambda>x _. WItem x) (map (window_slot proc acc (pw_size d) seen) (takeWhile (\<lambda>st. st + pw_size d < now) (pl_open pl))) = ret rs"
      "map wr_item rs = elem_values (window_outputs result (pw_size d) seen (takeWhile (\<lambda>st. st + pw_size d < now) (pl_open pl)))"
    by blast
  let ?m = "m\<lparr>pt_ws := map (window_slot proc acc (pw_size d) seen) (dropWhile (\<lambda>st. st + pw_size d < now) (pl_open pl))\<rparr>"
  have "pt_close outp now m = ret (rs, ?m)"
    by (simp add: pt_close_def ws window_slots_split rs(1))
  moreover have "event_state proc acc (pt_event d) (seen @ [Watermark now]) (plan_close (pw_size d) now pl) (as_event ?m)"
    using m by (simp add: event_state_def as_event_def pt_event_def plan_close_def window_slot_watermark)
  ultimately show ?thesis using rs(2) by blast
qed

lemma pt_item_step:
  assumes d: "valid_window (pt_event d)" and ok: "plan_ok (pw_size d) (pw_slide d) seen pl"
    and t: "moderate now" "\<forall>a \<in> set (times seen). a \<le> now" and m: "event_state proc acc (pt_event d) seen pl (as_event m)"
    and mod: "\<forall>a \<in> set (times seen). moderate a"
  shows "\<exists>ns ws. pt_alloc (pt_init m) (pt_size m) (pt_slide m) now (pt_ws m) = ret ws \<and> plan_new (pw_slide d) None now pl ns
    \<and> event_state proc acc (pt_event d) (seen @ [Timestamped v now]) (pl\<lparr>pl_open := pl_open pl @ ns\<rparr>)
        (as_event (m\<lparr>pt_ws := feed_slots proc v now ws\<rparr>))"
proof -
  from event_item_step [OF d _ t m mod, of "\<lambda>_. None" v] ok obtain ns m' where
    e: "event_process proc (\<lambda>_. None) (as_event m) (Timestamped v now) = ret ([], m')" "plan_new (pw_slide d) (em_last_watermark (as_event m)) now pl ns"
      "event_state proc acc (pt_event d) (seen @ [Timestamped v now]) (pl\<lparr>pl_open := pl_open pl @ ns\<rparr>) m'"
    by (auto simp: pt_event_def)
  from e(1) obtain ws where ws: "alloc_loop (pt_init m) (pt_size m) (pt_slide m) None now (pt_ws m) = ret ws"
    and m': "m' = (as_event m)\<lparr>em_ws := feed_slots proc v now ws\<rparr>"
    by (auto simp: event_process_def alloc_windows_def as_event_def bindR_eq_ret)
  have "em_last_watermark (as_event m) = None" by (simp add: as_event_def)
  with pt_alloc_event [OF ws refl] e(2,3) m' show ?thesis
    by (intro exI [of _ ns] exI [of _ ws]) (simp add: as_event_def)
qed

lemma pt_seen_simps [simp]:
  "pt_seen [] = []" "pt_seen (xs @ ys) = pt_seen xs @ pt_seen ys"
  "pt_seen [(now, e)] = (case elem_value e of None \<Rightarrow> [] | Some v \<Rightarrow> [Timestamped v now]) @ [Watermark now]"
  by (simp_all add: pt_seen_def)

lemma pt_seen_times: "set (times (pt_seen xs)) \<subseteq> fst ` set xs"
  by (induction xs) (auto simp: pt_seen_def split: option.splits)

lemma pt_seen_stamps: "stamps (pt_seen xs) = map fst (timed_values xs)"
  by (induction xs) (auto simp: pt_seen_def split: option.splits)

lemma pt_seen_window:
  "in_window sz st (pt_seen xs) = map (\<lambda>(t, v). Timestamped v t) (filter (\<lambda>(t, v). st \<le> t \<and> t < st + sz) (timed_values xs))"
  by (induction xs) (auto simp: pt_seen_def in_window_def split: option.splits)

lemma elem_values_stamped: "elem_values (map (\<lambda>(t, v). Timestamped v t) ps) = map snd ps"
  by (induction ps) auto

text \<open>The values in a window of instants.\<close>

definition values_in :: "int \<Rightarrow> (int \<times> 'i) list \<Rightarrow> int \<Rightarrow> 'i list" where
  "values_in sz ps st = map snd (filter (\<lambda>(t, v). st \<le> t \<and> t < st + sz) ps)"

lemma pt_window_values:
  "elem_values (window_outputs result sz (pt_seen xs) starts) =
     map result (filter (\<lambda>vs. vs \<noteq> []) (map (values_in sz (timed_values xs)) starts))"
  unfolding window_outputs_def
  by (induction starts) (simp_all add: pt_seen_window values_in_def elem_values_stamped)

lemma pt_close_plan:
  assumes d: "0 < pw_slide d" and ok: "plan_ok (pw_size d) (pw_slide d) seen pl" and t: "\<forall>a \<in> set (times seen). a \<le> now"
    and m: "event_state proc acc (pt_event d) seen pl (as_event m)" and acc: "window_accumulator proc outp acc result"
    and cov: "plan_covers (pw_slide d) seen pl" and tr: "plan_tracks False (pw_size d) (pw_slide d) seen pl None"
  shows "\<exists>rs m' pl'. pt_close outp now m = ret (rs, m')
    \<and> elem_values (window_outputs result (pw_size d) seen (pl_closed pl)) @ map wr_item rs =
        elem_values (window_outputs result (pw_size d) (seen @ [Watermark now]) (pl_closed pl'))
    \<and> event_state proc acc (pt_event d) (seen @ [Watermark now]) pl' (as_event m')
    \<and> plan_ok (pw_size d) (pw_slide d) (seen @ [Watermark now]) pl'
    \<and> plan_covers (pw_slide d) (seen @ [Watermark now]) pl' \<and> plan_tracks False (pw_size d) (pw_slide d) (seen @ [Watermark now]) pl' None"
proof -
  have same: "window_outputs result (pw_size d) (seen @ [Watermark now]) sts = window_outputs result (pw_size d) seen sts" for sts
    by (intro window_outputs_cong) (simp add: in_window_snoc)
  from pt_close_step [OF m acc, of now] obtain rs m' where
    rs: "pt_close outp now m = ret (rs, m')"
      "map wr_item rs = elem_values (window_outputs result (pw_size d) seen (takeWhile (\<lambda>st. st + pw_size d < now) (pl_open pl)))"
      "event_state proc acc (pt_event d) (seen @ [Watermark now]) (plan_close (pw_size d) now pl) (as_event m')" by blast
  have "plan_tracks False (pw_size d) (pw_slide d) (seen @ [Watermark now]) (plan_close (pw_size d) now pl) None"
    using plan_tracks_close [OF tr plan_ok_spaced [OF ok] d, of now] by (simp only: if_False if_cancel)
  moreover have "elem_values (window_outputs result (pw_size d) seen (pl_closed pl)) @ map wr_item rs =
      elem_values (window_outputs result (pw_size d) (seen @ [Watermark now]) (pl_closed (plan_close (pw_size d) now pl)))"
    using rs(2) by (simp add: same window_outputs_append plan_close_def)
  ultimately show ?thesis
    using rs(1,3) plan_close_ok(1) [OF d ok t] plan_close_covers [OF cov] by blast
qed

lemma pt_prefix:
  assumes d: "valid_window (pt_event d)" and acc: "window_accumulator proc outp acc result"
    and "sorted (map fst xs)" and "\<forall>x \<in> set xs. \<not> is_marker (snd x) \<and> moderate (fst x)"
  shows "\<exists>m pl. transduceR (clocked (pt_process proc outp)) (pt_build d acc) xs =
      ret (elem_values (window_outputs result (pw_size d) (pt_seen xs) (pl_closed pl)), m)
    \<and> event_state proc acc (pt_event d) (pt_seen xs) pl (as_event m) \<and> plan_ok (pw_size d) (pw_slide d) (pt_seen xs) pl
    \<and> plan_covers (pw_slide d) (pt_seen xs) pl \<and> plan_tracks False (pw_size d) (pw_slide d) (pt_seen xs) pl None"
  using assms(3-)
proof (induction xs rule: rev_induct)
  case Nil
  let ?pl = "\<lparr>pl_closed = [], pl_open = []\<rparr>"
  show ?case
    by (intro exI [of _ "pt_build d acc"] exI [of _ ?pl] conjI)
      (simp_all add: event_state_def as_event_def pt_event_def pt_build_def plan_ok_def plan_covers_def plan_tracks_def window_outputs_def)
next
  case (snoc x xs)
  let ?sz = "pw_size d" and ?slide = "pw_slide d" and ?step = "clocked (pt_process proc outp)" and ?seen = "pt_seen xs"
  obtain now e where x: "x = (now, e)" by (cases x)
  have pos: "0 < ?sz" "0 < ?slide" using d by (auto simp: pt_event_def)
  have now: "moderate now" "\<not> is_marker e" "\<forall>y \<in> set xs. fst y \<le> now" and prem: "sorted (map fst xs)"
    "\<forall>x \<in> set xs. \<not> is_marker (snd x) \<and> moderate (fst x)"
    using snoc.prems x by (auto simp: sorted_append)
  then have t: "\<forall>a \<in> set (times ?seen). a \<le> now" "\<forall>a \<in> set (times ?seen). moderate a"
    using pt_seen_times [of xs] by fastforce+
  from snoc.IH [OF prem] obtain m pl where
    run: "transduceR ?step (pt_build d acc) xs = ret (elem_values (window_outputs result ?sz ?seen (pl_closed pl)), m)"
    and m: "event_state proc acc (pt_event d) ?seen pl (as_event m)" and ok: "plan_ok ?sz ?slide ?seen pl"
    and cov: "plan_covers ?slide ?seen pl" and tr: "plan_tracks False ?sz ?slide ?seen pl None" by blast
  have extend: "transduceR ?step (pt_build d acc) (xs @ [x]) =
      ret (elem_values (window_outputs result ?sz ?seen (pl_closed pl)) @ map wr_item rs, m')"
    if "pt_process proc outp now m e = ret (rs, m')" for rs m'
    using run x that by (simp add: transduceR_append clocked_def)
  show ?case
  proof (cases "elem_value e")
    case None
    then have seen: "pt_seen (xs @ [x]) = ?seen @ [Watermark now]" using x by simp
    from None have "pt_process proc outp now m e = pt_close outp now m"
      using now(2) by (cases e) (auto simp: pt_process_def)
    with pt_close_plan [OF pos(2) ok t(1) m acc cov tr] extend show ?thesis
      unfolding seen by metis
  next
    case (Some v)
    from pt_item_step [OF d ok now(1) t(1) m t(2), of v] obtain ns ws where
      item: "pt_alloc (pt_init m) (pt_size m) (pt_slide m) now (pt_ws m) = ret ws" "plan_new ?slide None now pl ns"
        "event_state proc acc (pt_event d) (?seen @ [Timestamped v now]) (pl\<lparr>pl_open := pl_open pl @ ns\<rparr>)
          (as_event (m\<lparr>pt_ws := feed_slots proc v now ws\<rparr>))" by blast
    let ?seen' = "?seen @ [Timestamped v now]" and ?pl = "pl\<lparr>pl_open := pl_open pl @ ns\<rparr>"
    have ok': "plan_ok ?sz ?slide ?seen' ?pl" using plan_new_ok [OF pos ok item(2) t(1)] .
    have cov': "plan_covers ?slide ?seen' ?pl" by (rule plan_new_covers [OF pos(2) cov item(2) t(1)])
    have tr': "plan_tracks False ?sz ?slide ?seen' ?pl None" by (rule plan_tracks_new [OF tr item(2)])
    have t': "\<forall>a \<in> set (times ?seen'). a \<le> now" using t(1) by simp
    have "window_outputs result ?sz ?seen' (pl_closed pl) = window_outputs result ?sz ?seen (pl_closed pl)"
      using plan_closed_before [OF ok t(1)] by (intro window_outputs_cong) (fastforce simp: in_window_snoc)
    moreover have "pt_process proc outp now m e = pt_close outp now (m\<lparr>pt_ws := feed_slots proc v now ws\<rparr>)"
      using Some item(1) by (cases e) (simp_all add: pt_process_def)
    moreover have seen: "pt_seen (xs @ [x]) = ?seen' @ [Watermark now]" using x Some by simp
    moreover note pt_close_plan [OF pos(2) ok' t' item(3) acc cov' tr']
    moreover have "pl_closed ?pl = pl_closed pl" by simp
    ultimately show ?thesis
      using extend by metis
  qed
qed

text \<open>
  The starts of the windows over the readings of the clock. While every message is an element, the windows are all those of the grid from the
  first reading on; only a message without an element can find all of them closed, after which the next element begins a new grid.
\<close>

definition pt_starts :: "pt_window \<Rightarrow> (int \<times> 'i stream_element) list \<Rightarrow> int list" where
  "pt_starts d xs = window_starts False (pw_size d) (pw_slide d) (pt_seen xs)"

lemma pt_starts_grid:
  assumes "0 < sz" and "0 < slide" and "sorted (map fst xs)" and "\<forall>x \<in> set xs. elem_value (snd x) \<noteq> None" and "xs \<noteq> []"
  shows "foldl (starts_step False sz slide) ([], None) (pt_seen xs) = grid_run slide (fst (hd xs)) (fst (last xs)) \<and> fst (hd xs) \<le> fst (last xs)"
  using assms(3-)
proof (induction xs rule: rev_induct)
  case (snoc x xs)
  obtain now e v where x: "x = (now, e)" "elem_value e = Some v" using snoc.prems(2) by (cases x) auto
  have bound: "now \<le> t0 + ceil_div (now - t0) slide * slide" for t0
    using ceil_div_le [OF assms(2), of "now - t0" "ceil_div (now - t0) slide"] by simp
  have close: "starts_step False sz slide (grid_run slide t0 now) (Watermark now) = grid_run slide t0 now" for t0
    using assms(1) bound [of t0] by simp
  show ?case
  proof (cases "xs = []")
    case True
    then show ?thesis using x by (simp only: append_Nil pt_seen_simps foldl_append option.case foldl.simps grid_run_first close) simp
  next
    case False
    have prem: "sorted (map fst xs)" "\<forall>x \<in> set xs. elem_value (snd x) \<noteq> None" "fst (last xs) \<le> now"
      using snoc.prems x False by (auto simp: sorted_append)
    from snoc.IH [OF prem(1,2) False] have IH: "foldl (starts_step False sz slide) ([], None) (pt_seen xs) = grid_run slide (fst (hd xs)) (fst (last xs))"
      "fst (hd xs) \<le> fst (last xs)" by simp_all
    have "foldl (starts_step False sz slide) ([], None) (pt_seen (xs @ [x])) = grid_run slide (fst (hd xs)) now"
      unfolding pt_seen_simps x option.case foldl_append IH(1) foldl.simps grid_run_step [OF assms(2) IH(2) prem(3)] close ..
    then show ?thesis using x IH(2) prem(3) False by simp
  qed
qed simp

text \<open>
  C39: a processing-time window manager, sliding or tumbling, over an iteration, with a clock that does not go back (size,
  slide and instants at most \<open>2^61\<close>): the results are those of the windows \<open>[st, st + size)\<close> of instants whose starts \<open>pt_starts\<close> computes from
  the readings of the clock, the size and the slide, in order, each on exactly the elements received in it. While
  every message is an element the windows are all those of the grid of the slide from the first reading up to the first that starts at the last
  one or later; if the slide is at most the size every element is in a window; the manager is as new afterwards.
\<close>

theorem processing_time_windows:
  assumes "valid_window (pt_event d)" and acc: "window_accumulator proc outp acc result"
    and "sorted (map fst xs)" and "\<forall>x \<in> set xs. \<not> is_marker (snd x) \<and> moderate (fst x)" and e: "is_marker e"
  shows "transduceR (clocked (pt_process proc outp)) (pt_build d acc) (xs @ [(final, e)]) =
      ret (map result (filter (\<lambda>vs. vs \<noteq> []) (map (values_in (pw_size d) (timed_values xs)) (pt_starts d xs))), pt_build d acc)
    \<and> spaced (min (pw_size d) (pw_slide d)) (pt_starts d xs)
    \<and> (pw_slide d \<le> pw_size d \<longrightarrow>
        (\<forall>p \<in> set (timed_values xs). \<exists>st \<in> set (pt_starts d xs). st \<le> fst p \<and> fst p < st + pw_size d))
    \<and> (xs \<noteq> [] \<and> (\<forall>x \<in> set xs. elem_value (snd x) \<noteq> None) \<longrightarrow>
        pt_starts d xs = window_grid (pw_slide d) (fst (hd xs)) (fst (last xs)))"
proof -
  let ?sz = "pw_size d"
  from pt_prefix [OF assms(1-4)] obtain m pl where
    run: "transduceR (clocked (pt_process proc outp)) (pt_build d acc) xs =
      ret (elem_values (window_outputs result ?sz (pt_seen xs) (pl_closed pl)), m)"
    and m: "event_state proc acc (pt_event d) (pt_seen xs) pl (as_event m)" and ok: "plan_ok ?sz (pw_slide d) (pt_seen xs) pl"
    and cov: "plan_covers (pw_slide d) (pt_seen xs) pl" and tr: "plan_tracks False ?sz (pw_slide d) (pt_seen xs) pl None" by blast
  have starts: "pt_starts d xs = plan_starts pl" unfolding pt_starts_def by (rule plan_tracks_starts [OF tr])
  from pt_slot_results [OF acc] obtain rs where
    rs: "slot_results outp (\<lambda>x _. WItem x) (map (window_slot proc acc ?sz (pt_seen xs)) (pl_open pl)) = ret rs"
      "map wr_item rs = elem_values (window_outputs result ?sz (pt_seen xs) (pl_open pl))" by blast
  have "clocked (pt_process proc outp) m (final, e) = ret (map wr_item rs, pt_build d acc)"
    using m rs(1) e by (cases e; cases m)
      (auto simp: clocked_def pt_process_def event_state_def as_event_def pt_event_def pt_build_def)
  with run have "transduceR (clocked (pt_process proc outp)) (pt_build d acc) (xs @ [(final, e)]) =
      ret (elem_values (window_outputs result ?sz (pt_seen xs) (plan_starts pl)), pt_build d acc)"
    by (simp add: transduceR_append rs(2) window_outputs_append)
  moreover have "\<exists>st \<in> set (plan_starts pl). st \<le> fst p \<and> fst p < st + ?sz"
    if "pw_slide d \<le> ?sz" and p: "p \<in> set (timed_values xs)" for p
  proof -
    have "fst p \<in> set (stamps (pt_seen xs))" using p by (auto simp: pt_seen_stamps)
    with cov that(1) show ?thesis unfolding plan_covers_def by (meson add_left_mono order_less_le_trans)
  qed
  moreover have "pt_starts d xs = window_grid (pw_slide d) (fst (hd xs)) (fst (last xs))"
    if "xs \<noteq> []" "\<forall>x \<in> set xs. elem_value (snd x) \<noteq> None"
    using pt_starts_grid [OF _ _ assms(3) that(2,1), of ?sz "pw_slide d"] assms(1) by (simp add: pt_starts_def window_starts_def pt_event_def)
  moreover have "spaced (min ?sz (pw_slide d)) (plan_starts pl)" using ok by (simp add: plan_ok_def)
  ultimately show ?thesis unfolding pt_window_values starts by blast
qed

theorem processing_time_windows_witness:
  "transduceR (clocked (pt_process acc_count_process acc_count_output)) (pt_build \<lparr>pw_size = 10, pw_slide = 4\<rparr> 0)
      ([(3, Item ''a''), (9, Item ''b''), (40, FlushBatch), (41, Item ''c'')] @ [(42, FlushAndRestart)]) =
      ret ([2, 1, 1], pt_build \<lparr>pw_size = 10, pw_slide = 4\<rparr> 0)"
proof -
  let ?d = "\<lparr>pw_size = 10, pw_slide = 4\<rparr>" and ?xs = "[(3, Item ''a''), (9, Item ''b''), (40 :: int, FlushBatch), (41, Item ''c'')]"
  have pre: "valid_window (pt_event ?d)" "sorted (map fst ?xs)" "\<forall>x \<in> set ?xs. \<not> is_marker (snd x) \<and> moderate (fst x)"
    "is_marker FlushAndRestart"
    by (simp_all add: pt_event_def moderate_def)
  have "map length (filter (\<lambda>vs. vs \<noteq> []) (map (values_in (pw_size ?d) (timed_values ?xs)) (pt_starts ?d ?xs))) = [2, 1, 1]" by code_simp
  with processing_time_windows [OF pre(1) acc_count.window_accumulator_axioms pre(2-4), of 42] show ?thesis by simp
qed

end
