(* ===== verification/Batcher.thy ===== *)
theory Batcher
  imports Network
begin

text \<open>
  Batching (\<^verbatim>\<open>src/block/batcher.rs\<close>) over the channels of \<^verbatim>\<open>src/network/network_channel.rs\<close>. The channels
  are a store: a queue per receiver endpoint, shared by all the senders of that endpoint, and
  whether the receiver is still there. Instants are integers and an argument of the operations that
  read the clock; the capacity of the vectors, which only affects speed, is left out.
\<close>

section \<open>Channels\<close>

record 'a network =
  nt_queue :: "receiver_endpoint \<Rightarrow> 'a network_message list"
  nt_open :: "receiver_endpoint \<Rightarrow> bool"

text \<open>
  \<^verbatim>\<open>send\<close> waits while the channel is full and fails if the receiver is gone; \<^verbatim>\<open>try_send\<close> also gives the
  message back when the channel is full, which is the argument \<open>full\<close>.
\<close>

definition net_send :: "'a network \<Rightarrow> receiver_endpoint \<Rightarrow> 'a network_message \<Rightarrow> 'a network option" where
  "net_send net ep m =
     (if nt_open net ep then Some (net\<lparr>nt_queue := (nt_queue net)(ep := nt_queue net ep @ [m])\<rparr>) else None)"

datatype 'a try_send = SendOk "'a network" | SendFull "'a network_message" | SendDisconnected

definition net_try_send :: "bool \<Rightarrow> 'a network \<Rightarrow> receiver_endpoint \<Rightarrow> 'a network_message \<Rightarrow> 'a try_send" where
  "net_try_send full net ep m =
     (case net_send net ep m of
        None \<Rightarrow> SendDisconnected
      | Some net' \<Rightarrow> if full then SendFull m else SendOk net')"

section \<open>Batch modes\<close>

datatype batch_mode = Fixed nat | Adaptive nat int | Timed nat int | Single

fun max_size :: "batch_mode \<Rightarrow> nat" where
  "max_size (Fixed n) = n"
| "max_size (Adaptive n _) = n"
| "max_size (Timed n _) = n"
| "max_size Single = 1"

fun mode_interval :: "batch_mode \<Rightarrow> int option" where
  "mode_interval (Adaptive _ t) = Some t"
| "mode_interval (Timed _ t) = Some t"
| "mode_interval _ = None"

fun max_delay :: "batch_mode \<Rightarrow> int option" where
  "max_delay (Adaptive _ t) = Some t"
| "max_delay (Timed _ t) = Some t"
| "max_delay Single = Some 5000"
| "max_delay (Fixed _) = None"

text \<open>The constructors demand a positive size (\<^verbatim>\<open>NonZeroUsize\<close>). Durations are in milliseconds.\<close>

definition mode_fixed :: "nat \<Rightarrow> batch_mode res" where
  "mode_fixed n = (if n = 0 then panic UnwrapNone else ret (Fixed n))"

definition mode_adaptive :: "nat \<Rightarrow> int \<Rightarrow> batch_mode res" where
  "mode_adaptive n delay = (if n = 0 then panic UnwrapNone else ret (Adaptive n delay))"

definition mode_timed :: "nat \<Rightarrow> int \<Rightarrow> batch_mode res" where
  "mode_timed n interval = (if n = 0 then panic UnwrapNone else ret (Timed n interval))"

definition mode_default :: "batch_mode res" where
  "mode_default = mode_timed 1024 100"

section \<open>The batcher\<close>

record 'a batcher =
  bt_sender :: receiver_endpoint
  bt_mode :: batch_mode
  bt_buffer :: "'a stream_element list"
  bt_last_send :: int
  bt_coord :: coord
  bt_finished :: bool

definition batcher_new :: "int \<Rightarrow> receiver_endpoint \<Rightarrow> batch_mode \<Rightarrow> coord \<Rightarrow> 'a batcher" where
  "batcher_new now sender mode coord =
     \<lparr>bt_sender = sender, bt_mode = mode, bt_buffer = [], bt_last_send = now, bt_coord = coord, bt_finished = False\<rparr>"

definition batcher_flush :: "int \<Rightarrow> 'a network \<Rightarrow> 'a batcher \<Rightarrow> ('a network \<times> 'a batcher) res" where
  "batcher_flush now net b =
     (if bt_buffer b \<noteq> []
      then bindR (unwrapR (net_send net (bt_sender b) (new_batch (bt_buffer b) (bt_coord b)))) (\<lambda>net.
             ret (net, b\<lparr>bt_buffer := [], bt_last_send := now\<rparr>))
      else ret (net, b))"

definition batcher_enqueue :: "int \<Rightarrow> 'a network \<Rightarrow> 'a batcher \<Rightarrow> 'a stream_element \<Rightarrow> ('a network \<times> 'a batcher) res" where
  "batcher_enqueue now net b message =
     (let pushed = b\<lparr>bt_buffer := bt_buffer b @ [message]\<rparr> in
      case bt_mode b of
        Adaptive n delay \<Rightarrow>
          if n \<le> length (bt_buffer pushed) \<or> delay < max 0 (now - bt_last_send b)
          then batcher_flush now net pushed else ret (net, pushed)
      | Fixed n \<Rightarrow> if n \<le> length (bt_buffer pushed) then batcher_flush now net pushed else ret (net, pushed)
      | Timed n _ \<Rightarrow> if n \<le> length (bt_buffer pushed) then batcher_flush now net pushed else ret (net, pushed)
      | Single \<Rightarrow>
          bindR (unwrapR (net_send net (bt_sender b) (new_single message (bt_coord b)))) (\<lambda>net. ret (net, b)))"

definition batcher_try_flush :: "int \<Rightarrow> bool \<Rightarrow> 'a network \<Rightarrow> 'a batcher \<Rightarrow> (bool \<times> 'a network \<times> 'a batcher) res" where
  "batcher_try_flush now full net b =
     (if bt_buffer b \<noteq> []
      then (case net_try_send full net (bt_sender b) (new_batch (bt_buffer b) (bt_coord b)) of
              SendOk net \<Rightarrow> ret (True, net, b\<lparr>bt_buffer := [], bt_last_send := now\<rparr>)
            | SendFull m \<Rightarrow> ret (False, net, b\<lparr>bt_buffer := nm_data m\<rparr>)
            | SendDisconnected \<Rightarrow> panic ExplicitPanic)
      else ret (False, net, b))"

definition batcher_end :: "'a network \<Rightarrow> 'a batcher \<Rightarrow> ('a network \<times> 'a batcher) res" where
  "batcher_end net b =
     bindR (if bt_buffer b \<noteq> []
            then unwrapR (net_send net (bt_sender b) (new_batch (bt_buffer b) (bt_coord b)))
            else ret net)
       (\<lambda>net. ret (net, b\<lparr>bt_buffer := [], bt_finished := True\<rparr>))"

section \<open>What a receiver gets from a batcher\<close>

text \<open>The messages of a sender in the queue of an endpoint, and their elements.\<close>

definition from_sender :: "'a network \<Rightarrow> receiver_endpoint \<Rightarrow> coord \<Rightarrow> 'a network_message list" where
  "from_sender net ep c = filter (\<lambda>m. nm_sender m = c) (nt_queue net ep)"

definition delivered :: "'a network \<Rightarrow> receiver_endpoint \<Rightarrow> coord \<Rightarrow> 'a stream_element list" where
  "delivered net ep c = concat (map nm_data (from_sender net ep c))"

definition content :: "'a network \<Rightarrow> 'a batcher \<Rightarrow> 'a stream_element list" where
  "content net b = delivered net (bt_sender b) (bt_coord b) @ bt_buffer b"

text \<open>The size of the batches: never empty, never more than the mode allows, and the buffer stays below.\<close>

definition batches_ok :: "'a network \<Rightarrow> 'a batcher \<Rightarrow> bool" where
  "batches_ok net b \<longleftrightarrow>
     (\<forall>m \<in> set (from_sender net (bt_sender b) (bt_coord b)). 1 \<le> num_items m \<and> num_items m \<le> max_size (bt_mode b))
   \<and> length (bt_buffer b) < max_size (bt_mode b)"

lemma net_send_open: "nt_open net ep \<Longrightarrow> net_send net ep m = Some (net\<lparr>nt_queue := (nt_queue net)(ep := nt_queue net ep @ [m])\<rparr>)"
  by (simp add: net_send_def)

lemma from_sender_push [simp]:
  "from_sender (net\<lparr>nt_queue := (nt_queue net)(ep := nt_queue net ep @ [m])\<rparr>) ep' c =
     from_sender net ep' c @ (if ep' = ep \<and> nm_sender m = c then [m] else [])"
  by (simp add: from_sender_def)

lemma delivered_push [simp]:
  "delivered (net\<lparr>nt_queue := (nt_queue net)(ep := nt_queue net ep @ [m])\<rparr>) ep' c =
     delivered net ep' c @ (if ep' = ep \<and> nm_sender m = c then nm_data m else [])"
  by (auto simp: delivered_def)

lemmas batch_message_simps = new_batch_def new_single_def num_items_def

text \<open>Every operation keeps what was enqueued, in order, and touches only its own channel.\<close>

definition channel_frame :: "'a network \<Rightarrow> 'a network \<Rightarrow> receiver_endpoint \<Rightarrow> coord \<Rightarrow> bool" where
  "channel_frame net net' ep c \<longleftrightarrow> nt_open net' = nt_open net \<and>
     (\<forall>ep' c'. (ep', c') \<noteq> (ep, c) \<longrightarrow> from_sender net' ep' c' = from_sender net ep' c')"

lemma channel_frame_refl [simp]: "channel_frame net net ep c"
  by (simp add: channel_frame_def)

lemma channel_frame_push [simp]:
  "nm_sender m = c \<Longrightarrow> channel_frame net (net\<lparr>nt_queue := (nt_queue net)(ep := nt_queue net ep @ [m])\<rparr>) ep c"
  by (auto simp: channel_frame_def)

lemma flush_ok:
  assumes "nt_open net (bt_sender b)" and "batches_ok net b"
  shows "\<exists>net' last. batcher_flush now net b = ret (net', b\<lparr>bt_buffer := [], bt_last_send := last\<rparr>)
    \<and> content net' (b\<lparr>bt_buffer := [], bt_last_send := last\<rparr>) = content net b
    \<and> batches_ok net' (b\<lparr>bt_buffer := [], bt_last_send := last\<rparr>) \<and> channel_frame net net' (bt_sender b) (bt_coord b)"
proof (cases "bt_buffer b = []")
  case True
  then have "b = b\<lparr>bt_buffer := []\<rparr>" by (cases b) simp
  with True assms show ?thesis
    by (intro exI [of _ net] exI [of _ "bt_last_send b"])
      (simp add: batcher_flush_def content_def batches_ok_def)
next
  case False
  with assms show ?thesis
    by (auto simp: batcher_flush_def net_send_open content_def batches_ok_def batch_message_simps Suc_le_eq)
qed

lemma enqueue_ok:
  assumes "nt_open net (bt_sender b)" and "batches_ok net b"
  shows "\<exists>net' buf last. batcher_enqueue now net b e = ret (net', b\<lparr>bt_buffer := buf, bt_last_send := last\<rparr>)
    \<and> content net' (b\<lparr>bt_buffer := buf, bt_last_send := last\<rparr>) = content net b @ [e]
    \<and> batches_ok net' (b\<lparr>bt_buffer := buf, bt_last_send := last\<rparr>) \<and> channel_frame net net' (bt_sender b) (bt_coord b)"
proof -
  have single: ?thesis if "bt_mode b = Single"
  proof -
    have "b\<lparr>bt_buffer := [], bt_last_send := bt_last_send b\<rparr> = b" "bt_buffer b = []"
      using that assms(2) by (cases b; simp add: batches_ok_def)+
    then show ?thesis
      using that assms
      by (intro exI [of _ "net\<lparr>nt_queue := (nt_queue net)(bt_sender b := nt_queue net (bt_sender b) @ [new_single e (bt_coord b)])\<rparr>"]
          exI [of _ "[]"] exI [of _ "bt_last_send b"])
        (auto simp: batcher_enqueue_def net_send_open content_def batches_ok_def batch_message_simps)
  qed
  let ?b = "b\<lparr>bt_buffer := bt_buffer b @ [e]\<rparr>"
  have flushed: "\<exists>net' buf last. batcher_flush now net ?b = ret (net', b\<lparr>bt_buffer := buf, bt_last_send := last\<rparr>)
    \<and> content net' (b\<lparr>bt_buffer := buf, bt_last_send := last\<rparr>) = content net b @ [e]
    \<and> batches_ok net' (b\<lparr>bt_buffer := buf, bt_last_send := last\<rparr>) \<and> channel_frame net net' (bt_sender b) (bt_coord b)"
    using assms
    by (intro exI [of _ "net\<lparr>nt_queue := (nt_queue net)(bt_sender b := nt_queue net (bt_sender b) @ [new_batch (bt_buffer ?b) (bt_coord b)])\<rparr>"]
        exI [of _ "[]"] exI [of _ now])
      (auto simp: batcher_flush_def net_send_open content_def batches_ok_def batch_message_simps)
  have kept: "\<exists>net' buf last. ret (net, ?b) = ret (net', b\<lparr>bt_buffer := buf, bt_last_send := last\<rparr>)
    \<and> content net' (b\<lparr>bt_buffer := buf, bt_last_send := last\<rparr>) = content net b @ [e]
    \<and> batches_ok net' (b\<lparr>bt_buffer := buf, bt_last_send := last\<rparr>) \<and> channel_frame net net' (bt_sender b) (bt_coord b)"
    if "length (bt_buffer b) + 1 < max_size (bt_mode b)"
    using assms that
    by (intro exI [of _ net] exI [of _ "bt_buffer b @ [e]"] exI [of _ "bt_last_send b"])
      (cases b, simp add: content_def batches_ok_def from_sender_def delivered_def)
  show ?thesis
  proof (cases "bt_mode b")
    case (Fixed n)
    then show ?thesis using flushed kept by (cases "n \<le> length (bt_buffer b) + 1") (simp_all add: batcher_enqueue_def)
  next
    case (Adaptive n delay)
    then show ?thesis using flushed kept
      by (cases "n \<le> length (bt_buffer b) + 1 \<or> delay < max 0 (now - bt_last_send b)") (simp_all add: batcher_enqueue_def)
  next
    case (Timed n interval)
    then show ?thesis using flushed kept by (cases "n \<le> length (bt_buffer b) + 1") (simp_all add: batcher_enqueue_def)
  qed (rule single)
qed

lemma try_flush_ok:
  assumes "nt_open net (bt_sender b)" and "batches_ok net b"
  shows "\<exists>sent net' buf last. batcher_try_flush now full net b = ret (sent, net', b\<lparr>bt_buffer := buf, bt_last_send := last\<rparr>)
    \<and> content net' (b\<lparr>bt_buffer := buf, bt_last_send := last\<rparr>) = content net b
    \<and> batches_ok net' (b\<lparr>bt_buffer := buf, bt_last_send := last\<rparr>) \<and> channel_frame net net' (bt_sender b) (bt_coord b)"
proof (cases "bt_buffer b = [] \<or> full")
  case True
  have "b\<lparr>bt_buffer := bt_buffer b, bt_last_send := bt_last_send b\<rparr> = b" "b\<lparr>bt_buffer := bt_buffer b\<rparr> = b" by (cases b; simp)+
  with True assms show ?thesis
    by (intro exI [of _ False] exI [of _ net] exI [of _ "bt_buffer b"] exI [of _ "bt_last_send b"])
      (auto simp: batcher_try_flush_def net_try_send_def net_send_open batch_message_simps)
next
  case False
  with assms show ?thesis
    by (intro exI [of _ True] exI [of _ "net\<lparr>nt_queue := (nt_queue net)(bt_sender b := nt_queue net (bt_sender b) @ [new_batch (bt_buffer b) (bt_coord b)])\<rparr>"]
        exI [of _ "[]"] exI [of _ now])
      (auto simp: batcher_try_flush_def net_try_send_def net_send_open content_def batches_ok_def batch_message_simps Suc_le_eq)
qed

section \<open>Any sequence of operations\<close>

text \<open>
  The operations on a batcher, the background flush of \<^verbatim>\<open>Timed\<close> batching included, interleaved with the
  messages of other senders to the same receiver.
\<close>

datatype 'a batcher_action =
    Enqueue int "'a stream_element"
  | Flush int
  | Tick int bool
  | Foreign "'a network_message"

fun batcher_op :: "'a batcher_action \<Rightarrow> 'a network \<Rightarrow> 'a batcher \<Rightarrow> ('a network \<times> 'a batcher) res" where
  "batcher_op (Enqueue now e) net b = batcher_enqueue now net b e"
| "batcher_op (Flush now) net b = batcher_flush now net b"
| "batcher_op (Tick now full) net b = bindR (batcher_try_flush now full net b) (\<lambda>(_, net, b). ret (net, b))"
| "batcher_op (Foreign m) net b = bindR (unwrapR (net_send net (bt_sender b) m)) (\<lambda>net. ret (net, b))"

fun batcher_run :: "'a batcher_action list \<Rightarrow> 'a network \<Rightarrow> 'a batcher \<Rightarrow> ('a network \<times> 'a batcher) res" where
  "batcher_run [] net b = ret (net, b)"
| "batcher_run (x # xs) net b = bindR (batcher_op x net b) (\<lambda>(net, b). batcher_run xs net b)"

fun enqueued :: "'a batcher_action list \<Rightarrow> 'a stream_element list" where
  "enqueued [] = []"
| "enqueued (Enqueue _ e # xs) = e # enqueued xs"
| "enqueued (_ # xs) = enqueued xs"

definition same_channel :: "'a batcher \<Rightarrow> 'a batcher \<Rightarrow> bool" where
  "same_channel b b' \<longleftrightarrow> bt_sender b' = bt_sender b \<and> bt_coord b' = bt_coord b \<and> bt_mode b' = bt_mode b"

lemma batcher_op_ok:
  assumes "nt_open net (bt_sender b)" and "batches_ok net b" and "\<forall>m. x = Foreign m \<longrightarrow> nm_sender m \<noteq> bt_coord b"
  shows "\<exists>net' b'. batcher_op x net b = ret (net', b') \<and> same_channel b b' \<and> nt_open net' = nt_open net
    \<and> content net' b' = content net b @ enqueued [x] \<and> batches_ok net' b'"
proof (cases x)
  case (Enqueue now e)
  with enqueue_ok [OF assms(1,2), of now e] show ?thesis by (auto simp: same_channel_def channel_frame_def)
next
  case (Flush now)
  with flush_ok [OF assms(1,2), of now] show ?thesis by (auto simp: same_channel_def channel_frame_def)
next
  case (Tick now full)
  with try_flush_ok [OF assms(1,2), of now full] show ?thesis by (auto simp: same_channel_def channel_frame_def)
next
  case (Foreign m)
  with assms show ?thesis by (simp add: net_send_open content_def batches_ok_def same_channel_def)
qed

lemma enqueued_Cons: "enqueued (x # xs) = enqueued [x] @ enqueued xs"
  by (cases x) auto

lemma batcher_run_ok:
  assumes "nt_open net (bt_sender b)" and "batches_ok net b" and "\<forall>m. Foreign m \<in> set xs \<longrightarrow> nm_sender m \<noteq> bt_coord b"
  shows "\<exists>net' b'. batcher_run xs net b = ret (net', b') \<and> same_channel b b' \<and> nt_open net' = nt_open net
    \<and> content net' b' = content net b @ enqueued xs \<and> batches_ok net' b'"
  using assms
proof (induction xs arbitrary: net b)
  case (Cons x xs)
  from batcher_op_ok [OF Cons.prems(1,2), of x] Cons.prems(3) obtain net1 b1 where
    one: "batcher_op x net b = ret (net1, b1)" "same_channel b b1" "nt_open net1 = nt_open net"
      "content net1 b1 = content net b @ enqueued [x]" "batches_ok net1 b1" by auto
  with Cons.IH [of net1 b1] Cons.prems obtain net' b' where
    "batcher_run xs net1 b1 = ret (net', b')" "same_channel b1 b'" "nt_open net' = nt_open net1"
    "content net' b' = content net1 b1 @ enqueued xs" "batches_ok net' b'"
    by (auto simp: same_channel_def)
  with one show ?case by (auto simp: same_channel_def enqueued_Cons [of x xs])
qed (auto simp: same_channel_def)

text \<open>
  C10: whatever the batch mode, the clock, the background flushes (accepted or refused by a full
  channel) and the messages of other senders, a batcher that is ended has delivered exactly the
  elements that were enqueued, in order and once, in batches that are never empty and never larger
  than the mode's size; no operation panics while the receiver is there.
\<close>

theorem batcher_delivers:
  assumes "nt_open net ep" and "from_sender net ep c = []" and "0 < max_size mode"
    and "\<forall>m. Foreign m \<in> set xs \<longrightarrow> nm_sender m \<noteq> c"
  shows "\<exists>net1 b1 net2 b2. batcher_run xs net (batcher_new t0 ep mode c) = ret (net1, b1)
    \<and> batcher_end net1 b1 = ret (net2, b2) \<and> bt_finished b2
    \<and> delivered net2 ep c = enqueued xs
    \<and> (\<forall>m \<in> set (from_sender net2 ep c). 1 \<le> num_items m \<and> num_items m \<le> max_size mode)"
proof -
  let ?b = "batcher_new t0 ep mode c"
  have "nt_open net (bt_sender ?b)" "batches_ok net ?b" "\<forall>m. Foreign m \<in> set xs \<longrightarrow> nm_sender m \<noteq> bt_coord ?b"
    using assms by (simp_all add: batcher_new_def batches_ok_def)
  from batcher_run_ok [OF this] obtain net1 b1 where
    run: "batcher_run xs net ?b = ret (net1, b1)" "same_channel ?b b1" "nt_open net1 = nt_open net"
      "content net1 b1 = content net ?b @ enqueued xs" "batches_ok net1 b1" by blast
  have b1: "bt_sender b1 = ep" "bt_coord b1 = c" "bt_mode b1 = mode"
    using run(2) by (simp_all add: same_channel_def batcher_new_def)
  have "content net ?b = []" using assms(2) by (simp add: content_def delivered_def batcher_new_def)
  then have all: "delivered net1 ep c @ bt_buffer b1 = enqueued xs" using run(4) b1 by (simp add: content_def)
  let ?net = "if bt_buffer b1 = [] then net1 else net1\<lparr>nt_queue := (nt_queue net1)(ep := nt_queue net1 ep @ [new_batch (bt_buffer b1) c])\<rparr>"
  have "batcher_end net1 b1 = ret (?net, b1\<lparr>bt_buffer := [], bt_finished := True\<rparr>)"
    using assms(1) run(3) b1 by (simp add: batcher_end_def net_send_open)
  moreover have "delivered ?net ep c = enqueued xs"
    using all by (cases "bt_buffer b1 = []") (simp_all add: batch_message_simps)
  moreover have "\<forall>m \<in> set (from_sender ?net ep c). 1 \<le> num_items m \<and> num_items m \<le> max_size mode"
    using run(5) b1 by (auto simp: batches_ok_def batch_message_simps Suc_le_eq)
  ultimately show ?thesis
    using run(1) by auto
qed

theorem batcher_delivers_witness:
  "\<exists>net1 b1 net2 b2. batcher_run [Enqueue 0 (Item ''a''), Tick 1 True, Enqueue 2 (Item ''b''), Enqueue 3 FlushAndRestart]
        \<lparr>nt_queue = \<lambda>_. [], nt_open = \<lambda>_. True\<rparr>
        (batcher_new 0 (ReceiverEndpoint (Coord 1 0 0) 0) (Fixed 2) (Coord 0 0 0)) = ret (net1, b1)
    \<and> batcher_end net1 b1 = ret (net2, b2)
    \<and> delivered net2 (ReceiverEndpoint (Coord 1 0 0) 0) (Coord 0 0 0) = [Item ''a'', Item ''b'', FlushAndRestart]"
proof -
  let ?net = "\<lparr>nt_queue = \<lambda>_. [], nt_open = \<lambda>_. True\<rparr>"
  have "nt_open ?net (ReceiverEndpoint (Coord 1 0 0) 0)" "from_sender ?net (ReceiverEndpoint (Coord 1 0 0) 0) (Coord 0 0 0) = []"
    "0 < max_size (Fixed 2)"
    by (simp_all add: from_sender_def)
  from batcher_delivers [OF this, of "[Enqueue 0 (Item ''a''), Tick 1 True, Enqueue 2 (Item ''b''), Enqueue 3 FlushAndRestart]" 0]
  show ?thesis by (simp del: batcher_run.simps) blast
qed

end
