(* ===== verification/End_Block.thy ===== *)
theory End_Block
  imports Batcher
begin

text \<open>
  The end of a block: \<^verbatim>\<open>src/block/next_strategy.rs\<close>, \<^verbatim>\<open>src/operator/end.rs\<close> and the router of
  \<^verbatim>\<open>src/operator/route.rs\<close>. Data elements go to one replica of every following block (or to all),
  watermarks and end markers to every replica. The queue of an endpoint in the store is the log of
  what has been sent to it. The clock and the random generator are arguments.
\<close>

section \<open>Loops over senders\<close>

text \<open>\<^verbatim>\<open>for &idx in indexes { op(&mut senders[idx]) }\<close>\<close>

fun for_senders :: "('n \<Rightarrow> 'b \<Rightarrow> ('n \<times> 'b) res) \<Rightarrow> nat list \<Rightarrow> 'n \<Rightarrow> 'b list \<Rightarrow> ('n \<times> 'b list) res" where
  "for_senders op [] net bs = ret (net, bs)"
| "for_senders op (i # idxs) net bs =
     (if i < length bs
      then bindR (op net (bs ! i)) (\<lambda>(net, b). for_senders op idxs net (bs[i := b]))
      else panic IndexOutOfBounds)"

text \<open>
  The contract of an operation on one sender: it succeeds on a usable sender, has the effect \<open>eff\<close> on
  what the sender holds and does not touch the senders with another address.
\<close>

locale sender_op =
  fixes op :: "'n \<Rightarrow> 'b \<Rightarrow> ('n \<times> 'b) res" and adr :: "'b \<Rightarrow> 'k" and usable :: "'n \<Rightarrow> 'b \<Rightarrow> bool"
    and held :: "'n \<Rightarrow> 'b \<Rightarrow> 'v" and eff :: "'k \<Rightarrow> 'v \<Rightarrow> 'v"
  assumes op_ok: "usable net b \<Longrightarrow> \<exists>net' b'. op net b = ret (net', b') \<and> adr b' = adr b \<and> usable net' b'
      \<and> held net' b' = eff (adr b) (held net b)
      \<and> (\<forall>c. adr c \<noteq> adr b \<longrightarrow> usable net' c = usable net c \<and> held net' c = held net c)"
begin

lemma for_senders_ok:
  assumes "distinct (map adr bs)" and "\<forall>b \<in> set bs. usable net b"
    and "distinct idxs" and "set idxs \<subseteq> {..<length bs}"
  shows "\<exists>net' bs'. for_senders op idxs net bs = ret (net', bs') \<and> map adr bs' = map adr bs
    \<and> (\<forall>b \<in> set bs'. usable net' b)
    \<and> (\<forall>i < length bs. held net' (bs' ! i) =
        (if i \<in> set idxs then eff (adr (bs ! i)) (held net (bs ! i)) else held net (bs ! i)))
    \<and> (\<forall>c. adr c \<notin> set (map adr bs) \<longrightarrow> usable net' c = usable net c \<and> held net' c = held net c)"
  using assms
proof (induction idxs arbitrary: net bs)
  case Nil
  then show ?case by auto
next
  case (Cons i idxs)
  then have i: "i < length bs" by auto
  with Cons.prems(2) have "usable net (bs ! i)" by auto
  from op_ok [OF this] obtain net1 b1 where
    b1: "op net (bs ! i) = ret (net1, b1)" "adr b1 = adr (bs ! i)" "usable net1 b1"
      "held net1 b1 = eff (adr (bs ! i)) (held net (bs ! i))"
      "\<And>c. adr c \<noteq> adr (bs ! i) \<Longrightarrow> usable net1 c = usable net c \<and> held net1 c = held net c" by blast
  let ?bs = "bs[i := b1]"
  have adrs: "map adr ?bs = map adr bs" using i b1(2) by (simp add: map_update list_update_same_conv)
  have other: "adr (bs ! j) \<noteq> adr (bs ! i)" if "j < length bs" "j \<noteq> i" for j
    using Cons.prems(1) that i by (auto simp: distinct_conv_nth)
  have use: "\<forall>b \<in> set ?bs. usable net1 b"
  proof
    fix b assume "b \<in> set ?bs"
    then obtain j where j: "j < length bs" "b = ?bs ! j" by (auto simp: in_set_conv_nth)
    then show "usable net1 b"
      using b1(3,5) other [of j] Cons.prems(2) by (cases "j = i") auto
  qed
  from Cons.IH [of ?bs net1] use adrs Cons.prems(1,3,4) obtain net' bs' where
    IH: "for_senders op idxs net1 ?bs = ret (net', bs')" "map adr bs' = map adr bs" "\<forall>b \<in> set bs'. usable net' b"
      "\<forall>j < length bs. held net' (bs' ! j) =
        (if j \<in> set idxs then eff (adr (?bs ! j)) (held net1 (?bs ! j)) else held net1 (?bs ! j))"
      "\<forall>c. adr c \<notin> set (map adr bs) \<longrightarrow> usable net' c = usable net1 c \<and> held net' c = held net1 c"
    by auto
  have "held net' (bs' ! j) = (if j \<in> set (i # idxs) then eff (adr (bs ! j)) (held net (bs ! j)) else held net (bs ! j))"
    if "j < length bs" for j
    using IH(4) that b1(4,5) other [of j] Cons.prems(3) by (cases "j = i") auto
  moreover have "usable net' c = usable net c \<and> held net' c = held net c" if "adr c \<notin> set (map adr bs)" for c
    using IH(5) that b1(5) [of c] i by (metis length_map nth_map nth_mem)
  ultimately show ?case using IH(1-3) b1(1) i by auto
qed

end

section \<open>Next strategies\<close>

datatype 'a next_strategy = OnlyOne | Random | GroupBy "'a \<Rightarrow> nat" | All

definition strategy_group_by :: "('k \<Rightarrow> nat) \<Rightarrow> ('a \<Rightarrow> 'k) \<Rightarrow> 'a next_strategy" where
  "strategy_group_by group_by_hash keyer = GroupBy (\<lambda>item. group_by_hash (keyer item))"

fun strategy_index :: "('r \<Rightarrow> nat \<times> 'r) \<Rightarrow> 'a next_strategy \<Rightarrow> 'r \<Rightarrow> 'a \<Rightarrow> nat \<times> 'r" where
  "strategy_index rng OnlyOne r message = (0, r)"
| "strategy_index rng All r message = (0, r)"
| "strategy_index rng Random r message = rng r"
| "strategy_index rng (GroupBy keyer) r message = (keyer message, r)"

section \<open>End\<close>

type_synonym 'a sender = "receiver_endpoint \<times> 'a batcher"

record ('s, 'a, 'r) end_op =
  en_prev :: 's
  en_coord :: "coord option"
  en_strategy :: "'a next_strategy"
  en_mode :: batch_mode
  en_blocks :: "nat list list"
  en_senders :: "'a sender list"
  en_feedback :: "nat option"
  en_ignore :: "nat list"
  en_rng :: 'r
  en_net :: "'a network"

definition end_new :: "'s \<Rightarrow> 'a next_strategy \<Rightarrow> batch_mode \<Rightarrow> 'r \<Rightarrow> 'a network \<Rightarrow> ('s, 'a, 'r) end_op" where
  "end_new prev strategy mode r net =
     \<lparr>en_prev = prev, en_coord = None, en_strategy = strategy, en_mode = mode, en_blocks = [], en_senders = [],
      en_feedback = None, en_ignore = [], en_rng = r, en_net = net\<rparr>"

definition mark_feedback :: "nat \<Rightarrow> ('s, 'a, 'r) end_op \<Rightarrow> ('s, 'a, 'r) end_op" where
  "mark_feedback block st = st\<lparr>en_feedback := Some block\<rparr>"

definition ignore_destination :: "nat \<Rightarrow> ('s, 'a, 'r) end_op \<Rightarrow> ('s, 'a, 'r) end_op" where
  "ignore_destination block st = st\<lparr>en_ignore := en_ignore st @ [block]\<rparr>"

abbreviation sender_block :: "'a sender \<Rightarrow> nat" where
  "sender_block s \<equiv> block_id (re_coord (fst s))"

text \<open>The indexes of the senders of each block, in the order of the senders.\<close>

fun group_indexes :: "nat \<Rightarrow> nat list \<Rightarrow> (nat, nat list) hmap \<Rightarrow> (nat, nat list) hmap" where
  "group_indexes i [] m = m"
| "group_indexes i (block # blocks) m =
     group_indexes (i + 1) blocks
       (AList.update block ((case map_of m block of None \<Rightarrow> [] | Some is \<Rightarrow> is) @ [i]) m)"

definition setup_senders :: "((nat \<times> nat list) list \<Rightarrow> (nat \<times> nat list) list) \<Rightarrow> ('s, 'a, 'r) end_op \<Rightarrow> ('s, 'a, 'r) end_op res" where
  "setup_senders ho st =
     (let senders = sort_key fst (en_senders st);
          blocks = (case en_strategy st of
                      All \<Rightarrow> map (\<lambda>i. [i]) [0..<length senders]
                    | _ \<Rightarrow> map snd (ho (group_indexes 0 (map sender_block senders) [])))
      in assertR (case en_strategy st of OnlyOne \<Rightarrow> list_all (\<lambda>is. length is = 1) blocks | _ \<Rightarrow> True)
           (ret (st\<lparr>en_senders := senders, en_blocks := blocks\<rparr>)))"

definition end_setup :: "((nat \<times> nat list) list \<Rightarrow> (nat \<times> nat list) list) \<Rightarrow> int \<Rightarrow> coord \<Rightarrow> receiver_endpoint list
    \<Rightarrow> ('s, 'a, 'r) end_op \<Rightarrow> ('s, 'a, 'r) end_op res" where
  "end_setup ho now coord endpoints st =
     (let kept = filter (\<lambda>ep. block_id (re_coord ep) \<notin> set (en_ignore st)) endpoints;
          senders = map (\<lambda>ep. (ep, batcher_new now ep (en_mode st) coord)) kept
      in bindR (setup_senders ho (st\<lparr>en_senders := senders\<rparr>)) (\<lambda>st. ret (st\<lparr>en_coord := Some coord\<rparr>)))"

definition sender_enqueue :: "int \<Rightarrow> 'a stream_element \<Rightarrow> 'a network \<Rightarrow> 'a sender \<Rightarrow> ('a network \<times> 'a sender) res" where
  "sender_enqueue now message net s =
     bindR (batcher_enqueue now net (snd s) message) (\<lambda>(net, b). ret (net, (fst s, b)))"

definition sender_broadcast :: "int \<Rightarrow> nat option \<Rightarrow> 'a stream_element \<Rightarrow> 'a network \<Rightarrow> 'a sender \<Rightarrow> ('a network \<times> 'a sender) res" where
  "sender_broadcast now feedback message net s =
     (if message = Terminate \<and> Some (sender_block s) = feedback then ret (net, s)
      else sender_enqueue now message net s)"

definition sender_flush :: "int \<Rightarrow> 'a network \<Rightarrow> 'a sender \<Rightarrow> ('a network \<times> 'a sender) res" where
  "sender_flush now net s = bindR (batcher_flush now net (snd s)) (\<lambda>(net, b). ret (net, (fst s, b)))"

definition sender_end :: "'a network \<Rightarrow> 'a sender \<Rightarrow> ('a network \<times> 'a sender) res" where
  "sender_end net s = bindR (batcher_end net (snd s)) (\<lambda>(net, b). ret (net, (fst s, b)))"

text \<open>The loop over the blocks for a data element: one sender of each, chosen by the index.\<close>

fun end_direct :: "int \<Rightarrow> 'a stream_element \<Rightarrow> nat \<Rightarrow> nat list list \<Rightarrow> 'a network \<Rightarrow> 'a sender list
    \<Rightarrow> ('a network \<times> 'a sender list) res" where
  "end_direct now message index [] net senders = ret (net, senders)"
| "end_direct now message index (block # blocks) net senders =
     (if block = [] then panic DivideByZero
      else bindR (for_senders (sender_enqueue now message) [block ! (index mod length block)] net senders)
             (\<lambda>(net, senders). end_direct now message index blocks net senders))"

definition end_route :: "('r \<Rightarrow> nat \<times> 'r) \<Rightarrow> int \<Rightarrow> 'a stream_element \<Rightarrow> ('s, 'a, 'r) end_op \<Rightarrow> ('s, 'a, 'r) end_op res" where
  "end_route rng now message st =
     (case elem_value message of
        Some item \<Rightarrow>
          (case strategy_index rng (en_strategy st) (en_rng st) item of (index, r) \<Rightarrow>
             bindR (end_direct now message index (en_blocks st) (en_net st) (en_senders st)) (\<lambda>(net, senders).
               ret (st\<lparr>en_rng := r, en_net := net, en_senders := senders\<rparr>)))
      | None \<Rightarrow>
          if message = FlushBatch then ret st
          else bindR (for_senders (sender_broadcast now (en_feedback st) message) (concat (en_blocks st)) (en_net st) (en_senders st))
                 (\<lambda>(net, senders). ret (st\<lparr>en_net := net, en_senders := senders\<rparr>)))"

text \<open>The second half of \<^verbatim>\<open>next\<close>, which \<^verbatim>\<open>End\<close> and \<^verbatim>\<open>RoutingEnd\<close> have in common.\<close>

definition flush_senders :: "int \<Rightarrow> unit stream_element \<Rightarrow> 'a network \<Rightarrow> 'a sender list \<Rightarrow> ('a network \<times> 'a sender list) res" where
  "flush_senders now to_return net senders =
     (if to_return = FlushAndRestart \<or> to_return = FlushBatch
      then for_senders (sender_flush now) [0..<length senders] net senders
      else if to_return = Terminate
      then bindR (for_senders sender_end [0..<length senders] net senders) (\<lambda>(net, _). ret (net, []))
      else ret (net, senders))"

definition end_next :: "('r \<Rightarrow> nat \<times> 'r) \<Rightarrow> int \<Rightarrow> ('s, 'a) pull \<Rightarrow> (('s, 'a, 'r) end_op, unit) pull" where
  "end_next rng now prev st =
     bindR (prev (en_prev st)) (\<lambda>(message, s').
       bindR (end_route rng now message (st\<lparr>en_prev := s'\<rparr>)) (\<lambda>st.
         bindR (flush_senders now (variant message) (en_net st) (en_senders st)) (\<lambda>(net, senders).
           ret (variant message, st\<lparr>en_net := net, en_senders := senders\<rparr>))))"

section \<open>The senders as a store\<close>

definition sender_ok :: "coord \<Rightarrow> 'a network \<Rightarrow> 'a sender \<Rightarrow> bool" where
  "sender_ok c net s \<longleftrightarrow> bt_sender (snd s) = fst s \<and> bt_coord (snd s) = c \<and> nt_open net (fst s) \<and> batches_ok net (snd s)"

definition sender_held :: "coord \<Rightarrow> 'a network \<Rightarrow> 'a sender \<Rightarrow> 'a stream_element list" where
  "sender_held c net s = delivered net (fst s) c @ bt_buffer (snd s)"

lemma sender_frame:
  assumes "channel_frame net net' ep c" and "fst s \<noteq> ep"
  shows "sender_ok c net' s = sender_ok c net s" and "sender_held c net' s = sender_held c net s"
    and "delivered net' (fst s) c = delivered net (fst s) c"
proof -
  have "from_sender net' (fst s) c' = from_sender net (fst s) c'" for c'
    using assms by (auto simp: channel_frame_def)
  then show "sender_ok c net' s = sender_ok c net s" and "sender_held c net' s = sender_held c net s"
    and "delivered net' (fst s) c = delivered net (fst s) c"
    using assms(1) by (auto simp: sender_ok_def sender_held_def batches_ok_def delivered_def channel_frame_def)
qed

interpretation enqueue_op: sender_op "sender_enqueue now e" fst "sender_ok c" "sender_held c" "\<lambda>_ v. v @ [e]"
  for now and e :: "'a stream_element" and c
proof
  fix net and s :: "'a sender"
  assume s: "sender_ok c net s"
  then have "nt_open net (bt_sender (snd s))" "batches_ok net (snd s)" by (auto simp: sender_ok_def)
  from enqueue_ok [OF this, of now e] obtain net' buf last where
    b: "batcher_enqueue now net (snd s) e = ret (net', (snd s)\<lparr>bt_buffer := buf, bt_last_send := last\<rparr>)"
      "content net' ((snd s)\<lparr>bt_buffer := buf, bt_last_send := last\<rparr>) = content net (snd s) @ [e]"
      "batches_ok net' ((snd s)\<lparr>bt_buffer := buf, bt_last_send := last\<rparr>)"
      "channel_frame net net' (bt_sender (snd s)) (bt_coord (snd s))" by blast
  let ?s = "(fst s, (snd s)\<lparr>bt_buffer := buf, bt_last_send := last\<rparr>)"
  have "sender_enqueue now e net s = ret (net', ?s)" by (simp add: sender_enqueue_def b(1))
  moreover have "sender_ok c net' ?s" "sender_held c net' ?s = sender_held c net s @ [e]"
    using s b(2-4) by (auto simp: sender_ok_def sender_held_def content_def channel_frame_def)
  moreover have frame: "channel_frame net net' (fst s) c" using s b(4) by (simp add: sender_ok_def)
  ultimately show "\<exists>net' s'. sender_enqueue now e net s = ret (net', s') \<and> fst s' = fst s \<and> sender_ok c net' s'
      \<and> sender_held c net' s' = sender_held c net s @ [e]
      \<and> (\<forall>x :: 'a sender. fst x \<noteq> fst s \<longrightarrow> sender_ok c net' x = sender_ok c net x \<and> sender_held c net' x = sender_held c net x)"
    using sender_frame(1,2) [OF frame] by auto
qed

interpretation broadcast_op: sender_op "sender_broadcast now feedback e" fst "sender_ok c" "sender_held c"
  "\<lambda>ep v. if e = Terminate \<and> Some (block_id (re_coord ep)) = feedback then v else v @ [e]"
  for now feedback and e :: "'a stream_element" and c
proof
  fix net and s :: "'a sender"
  assume s: "sender_ok c net s"
  show "\<exists>net' s'. sender_broadcast now feedback e net s = ret (net', s') \<and> fst s' = fst s \<and> sender_ok c net' s'
      \<and> sender_held c net' s' = (if e = Terminate \<and> Some (sender_block s) = feedback then sender_held c net s else sender_held c net s @ [e])
      \<and> (\<forall>x :: 'a sender. fst x \<noteq> fst s \<longrightarrow> sender_ok c net' x = sender_ok c net x \<and> sender_held c net' x = sender_held c net x)"
    using enqueue_op.op_ok [OF s] s by (cases "e = Terminate \<and> Some (sender_block s) = feedback") (auto simp: sender_broadcast_def)
qed

text \<open>Flushing and ending a sender leave nothing in its buffer.\<close>

definition sender_parts :: "coord \<Rightarrow> 'a network \<Rightarrow> 'a sender \<Rightarrow> 'a stream_element list \<times> 'a stream_element list" where
  "sender_parts c net s = (delivered net (fst s) c, bt_buffer (snd s))"

interpretation flush_op: sender_op "sender_flush now" fst "sender_ok c" "sender_parts c" "\<lambda>_ v. (fst v @ snd v, [])"
  for now c
proof
  fix net and s :: "'a sender"
  assume s: "sender_ok c net s"
  then have "nt_open net (bt_sender (snd s))" "batches_ok net (snd s)" by (auto simp: sender_ok_def)
  from flush_ok [OF this, of now] obtain net' last where
    b: "batcher_flush now net (snd s) = ret (net', (snd s)\<lparr>bt_buffer := [], bt_last_send := last\<rparr>)"
      "content net' ((snd s)\<lparr>bt_buffer := [], bt_last_send := last\<rparr>) = content net (snd s)"
      "batches_ok net' ((snd s)\<lparr>bt_buffer := [], bt_last_send := last\<rparr>)"
      "channel_frame net net' (bt_sender (snd s)) (bt_coord (snd s))" by blast
  let ?s = "(fst s, (snd s)\<lparr>bt_buffer := [], bt_last_send := last\<rparr>)"
  have "sender_flush now net s = ret (net', ?s)" by (simp add: sender_flush_def b(1))
  moreover have "sender_ok c net' ?s" "sender_parts c net' ?s = (fst (sender_parts c net s) @ snd (sender_parts c net s), [])"
    using s b(2-4) by (auto simp: sender_ok_def sender_parts_def content_def channel_frame_def)
  moreover have frame: "channel_frame net net' (fst s) c" using s b(4) by (simp add: sender_ok_def)
  ultimately show "\<exists>net' s'. sender_flush now net s = ret (net', s') \<and> fst s' = fst s \<and> sender_ok c net' s'
      \<and> sender_parts c net' s' = (fst (sender_parts c net s) @ snd (sender_parts c net s), [])
      \<and> (\<forall>x :: 'a sender. fst x \<noteq> fst s \<longrightarrow> sender_ok c net' x = sender_ok c net x \<and> sender_parts c net' x = sender_parts c net x)"
    using sender_frame(1,3) [OF frame] by (auto simp: sender_parts_def)
qed

interpretation end_op: sender_op sender_end fst "sender_ok c" "sender_parts c" "\<lambda>_ v. (fst v @ snd v, [])"
  for c
proof
  fix net and s :: "'a sender"
  assume s: "sender_ok c net s"
  let ?b = "(snd s)\<lparr>bt_buffer := [], bt_finished := True\<rparr>"
  let ?net = "if bt_buffer (snd s) = [] then net
    else net\<lparr>nt_queue := (nt_queue net)(fst s := nt_queue net (fst s) @ [new_batch (bt_buffer (snd s)) c])\<rparr>"
  have "sender_end net s = ret (?net, (fst s, ?b))"
    using s by (simp add: sender_end_def batcher_end_def sender_ok_def net_send_open)
  moreover have frame: "channel_frame net ?net (fst s) c" by (simp add: batch_message_simps)
  moreover have "sender_ok c ?net (fst s, ?b)" "sender_parts c ?net (fst s, ?b) = (fst (sender_parts c net s) @ snd (sender_parts c net s), [])"
    using s by (auto simp: sender_ok_def sender_parts_def batches_ok_def batch_message_simps Suc_le_eq)
  ultimately show "\<exists>net' s'. sender_end net s = ret (net', s') \<and> fst s' = fst s \<and> sender_ok c net' s'
      \<and> sender_parts c net' s' = (fst (sender_parts c net s) @ snd (sender_parts c net s), [])
      \<and> (\<forall>x :: 'a sender. fst x \<noteq> fst s \<longrightarrow> sender_ok c net' x = sender_ok c net x \<and> sender_parts c net' x = sender_parts c net x)"
    using sender_frame(1,3) [OF frame] by (auto simp: sender_parts_def)
qed

section \<open>The blocks partition the senders\<close>

definition positions :: "nat \<Rightarrow> nat list \<Rightarrow> nat list" where
  "positions b bs = filter (\<lambda>i. bs ! i = b) [0..<length bs]"

lemma positions_Cons:
  "positions b (x # bs) = (if x = b then [0] else []) @ map Suc (positions b bs)"
proof -
  have "[0..<length (x # bs)] = 0 # map Suc [0..<length bs]"
    by (simp add: upt_conv_Cons map_Suc_upt del: upt_Suc)
  then show ?thesis by (simp add: positions_def filter_map comp_def)
qed

lemma positions_set [simp]: "set (positions b bs) = {i. i < length bs \<and> bs ! i = b}"
  by (auto simp: positions_def)

lemma positions_distinct [simp]: "distinct (positions b bs)"
  by (simp add: positions_def)

lemma positions_empty: "positions b bs = [] \<longleftrightarrow> b \<notin> set bs"
  by (auto simp: positions_def filter_empty_conv in_set_conv_nth)

lemma group_indexes_map:
  "map_of (group_indexes i bs m) b =
     (if b \<in> set bs then Some ((case map_of m b of None \<Rightarrow> [] | Some is \<Rightarrow> is) @ map ((+) i) (positions b bs))
      else map_of m b)"
proof (induction bs arbitrary: i m)
  case (Cons x bs)
  have shift: "map ((+) i) (map Suc xs) = map ((+) (i + 1)) xs" for xs by simp
  show ?case
    using Cons.IH [of "i + 1"]
    by (auto simp: positions_Cons update_conv' positions_empty split: option.splits)
qed (simp add: positions_def)

lemma group_indexes_distinct: "distinct (keys m) \<Longrightarrow> distinct (keys (group_indexes i bs m))"
  by (induction bs arbitrary: i m) (auto simp: distinct_update)

text \<open>The blocks of senders that \<^verbatim>\<open>setup_senders\<close> makes.\<close>

definition sender_blocks :: "((nat \<times> nat list) list \<Rightarrow> (nat \<times> nat list) list) \<Rightarrow> nat list \<Rightarrow> nat list list" where
  "sender_blocks ho bs = map snd (ho (group_indexes 0 bs []))"

lemma group_indexes_entry:
  assumes "hash_order ho"
  shows "(b, js) \<in> set (ho (group_indexes 0 bs [])) \<longleftrightarrow> b \<in> set bs \<and> js = positions b bs"
proof -
  have "distinct (keys (group_indexes 0 bs []))" by (rule group_indexes_distinct) simp
  then have "(b, js) \<in> set (ho (group_indexes 0 bs [])) \<longleftrightarrow> map_of (group_indexes 0 bs []) b = Some js"
    using hash_order_set [OF assms] by (simp add: map_of_eq_Some_iff)
  moreover have "map ((+) 0) xs = xs" for xs :: "nat list" by (simp add: map_idI)
  ultimately show ?thesis by (auto simp: group_indexes_map)
qed

lemma sender_blocks_in:
  assumes "hash_order ho"
  shows "js \<in> set (sender_blocks ho bs) \<longleftrightarrow> (\<exists>b \<in> set bs. js = positions b bs)"
proof -
  have "js \<in> set (sender_blocks ho bs) \<longleftrightarrow> (\<exists>b. (b, js) \<in> set (ho (group_indexes 0 bs [])))"
    by (auto simp: sender_blocks_def intro: rev_image_eqI)
  then show ?thesis by (auto simp: group_indexes_entry [OF assms])
qed

lemma sender_blocks_distinct:
  assumes "hash_order ho"
  shows "distinct (concat (sender_blocks ho bs))"
proof -
  let ?m = "ho (group_indexes 0 bs [])"
  have keys: "distinct (keys ?m)"
    by (rule hash_order_keys(1) [OF assms]) (rule group_indexes_distinct, simp)
  have "map snd ?m = map (\<lambda>b. positions b bs) (keys ?m)"
    using group_indexes_entry [OF assms] by (auto simp: map_eq_conv)
  moreover have "distinct (concat (map (\<lambda>b. positions b bs) ks))" if "distinct ks" for ks
    using that by (induction ks) auto
  ultimately show ?thesis unfolding sender_blocks_def using keys by metis
qed

lemma sender_blocks_cover:
  assumes "hash_order ho"
  shows "set (concat (sender_blocks ho bs)) = {..<length bs}"
proof -
  have "i \<in> set (concat (sender_blocks ho bs))" if "i < length bs" for i
  proof -
    have "positions (bs ! i) bs \<in> set (sender_blocks ho bs)" using that sender_blocks_in [OF assms] by auto
    then show ?thesis using that by (auto intro!: bexI [of _ "positions (bs ! i) bs"])
  qed
  then show ?thesis by (auto simp: sender_blocks_in [OF assms])
qed

section \<open>Which replica gets an element\<close>

abbreviation ep_block :: "receiver_endpoint \<Rightarrow> nat" where
  "ep_block ep \<equiv> block_id (re_coord ep)"

definition blocks_of :: "((nat \<times> nat list) list \<Rightarrow> (nat \<times> nat list) list) \<Rightarrow> 'a next_strategy \<Rightarrow> receiver_endpoint list \<Rightarrow> nat list list" where
  "blocks_of ho strategy eps =
     (case strategy of All \<Rightarrow> map (\<lambda>i. [i]) [0..<length eps] | _ \<Rightarrow> sender_blocks ho (map ep_block eps))"

text \<open>The replicas of the block of \<open>ep\<close>, in order, and whether \<open>ep\<close> is the one with an index.\<close>

definition replicas :: "receiver_endpoint list \<Rightarrow> receiver_endpoint \<Rightarrow> receiver_endpoint list" where
  "replicas eps ep = filter (\<lambda>e. ep_block e = ep_block ep) eps"

definition chosen_replica :: "'a next_strategy \<Rightarrow> receiver_endpoint list \<Rightarrow> nat \<Rightarrow> receiver_endpoint \<Rightarrow> bool" where
  "chosen_replica strategy eps index ep =
     (case strategy of All \<Rightarrow> True | _ \<Rightarrow> ep = replicas eps ep ! (index mod length (replicas eps ep)))"

abbreviation pick :: "nat \<Rightarrow> nat list \<Rightarrow> nat" where
  "pick index block \<equiv> block ! (index mod length block)"

lemma positions_replicas: "map ((!) eps) (positions (ep_block ep) (map ep_block eps)) = replicas eps ep"
proof -
  have "positions (ep_block ep) (map ep_block eps) = filter (\<lambda>i. ep_block (eps ! i) = ep_block ep) [0..<length eps]"
    unfolding positions_def by (intro filter_cong) auto
  moreover have "map ((!) eps) (filter (\<lambda>i. ep_block (eps ! i) = ep_block ep) [0..<length eps]) =
      filter (\<lambda>e. ep_block e = ep_block ep) (map ((!) eps) [0..<length eps])"
    by (simp add: filter_map comp_def)
  ultimately show ?thesis by (simp add: replicas_def map_nth)
qed

lemma pick_in: "block \<noteq> [] \<Longrightarrow> pick index block \<in> set block"
  by simp

lemma picks_distinct:
  "distinct (concat blocks) \<Longrightarrow> [] \<notin> set blocks \<Longrightarrow> distinct (map (pick index) blocks)"
proof (induction blocks)
  case (Cons b bs)
  then have "pick index b \<in> set b" "\<forall>x \<in> set bs. pick index x \<in> set x" by (auto intro: pick_in)
  moreover have "set b \<inter> set x = {}" if "x \<in> set bs" for x using Cons.prems(1) that by auto
  ultimately have "pick index b \<notin> set (map (pick index) bs)" by fastforce
  with Cons show ?case by auto
qed simp

lemma blocks_of_ok:
  assumes "hash_order ho"
  shows "distinct (concat (blocks_of ho strategy eps))" and "set (concat (blocks_of ho strategy eps)) = {..<length eps}"
    and "[] \<notin> set (blocks_of ho strategy eps)"
proof -
  have "distinct (concat (map (\<lambda>i. [i]) xs)) = distinct xs" for xs :: "nat list" by (induction xs) auto
  then show "distinct (concat (blocks_of ho strategy eps))"
    using sender_blocks_distinct [OF assms] by (cases strategy) (auto simp: blocks_of_def)
  show "set (concat (blocks_of ho strategy eps)) = {..<length eps}"
    using sender_blocks_cover [OF assms, of "map ep_block eps"] by (cases strategy) (auto simp: blocks_of_def)
  show "[] \<notin> set (blocks_of ho strategy eps)"
    by (cases strategy) (auto simp: blocks_of_def sender_blocks_in [OF assms] positions_empty dest!: sym [of "[]"])
qed

lemma picked:
  assumes ho: "hash_order ho" and "distinct eps" and j: "j < length eps"
  shows "j \<in> set (map (pick index) (blocks_of ho strategy eps)) \<longleftrightarrow> chosen_replica strategy eps index (eps ! j)"
proof (cases "\<exists>i. strategy = All")
  case True
  with j show ?thesis by (auto simp: blocks_of_def chosen_replica_def)
next
  case False
  let ?bs = "map ep_block eps" and ?b = "ep_block (eps ! j)"
  let ?ps = "positions ?b ?bs"
  have blocks: "blocks_of ho strategy eps = sender_blocks ho ?bs" using False by (cases strategy) (auto simp: blocks_of_def)
  have j_in: "j \<in> set ?ps" using j by simp
  then have ne: "?ps \<noteq> []" by (metis empty_iff empty_set)
  have "j \<in> set (map (pick index) (sender_blocks ho ?bs)) \<longleftrightarrow> j = pick index ?ps"
  proof
    assume "j \<in> set (map (pick index) (sender_blocks ho ?bs))"
    then obtain block where "block \<in> set (sender_blocks ho ?bs)" "j = pick index block" by auto
    then obtain b where b: "b \<in> set ?bs" "j = pick index (positions b ?bs)"
      using sender_blocks_in [OF ho, of block ?bs] by metis
    then have "positions b ?bs \<noteq> []" by (simp add: positions_empty del: set_map)
    then have "j \<in> set (positions b ?bs)" using pick_in b(2) by blast
    then have "b = ?b" by auto
    with b(2) show "j = pick index ?ps" by simp
  next
    assume "j = pick index ?ps"
    moreover have "?ps \<in> set (sender_blocks ho ?bs)" using j sender_blocks_in [OF ho, of ?ps ?bs] by auto
    ultimately show "j \<in> set (map (pick index) (sender_blocks ho ?bs))" by auto
  qed
  also have "\<dots> \<longleftrightarrow> eps ! j = eps ! pick index ?ps"
  proof -
    have "pick index ?ps < length eps" using pick_in [OF ne, of index] by auto
    then show ?thesis using assms(2) j by (simp add: nth_eq_iff_index_eq)
  qed
  also have "eps ! pick index ?ps = replicas eps (eps ! j) ! (index mod length (replicas eps (eps ! j)))"
    using ne by (simp add: positions_replicas [symmetric])
  finally show ?thesis using False unfolding blocks by (cases strategy) (auto simp: chosen_replica_def)
qed

lemma end_direct_picks:
  "[] \<notin> set blocks \<Longrightarrow> end_direct now e index blocks net bs = for_senders (sender_enqueue now e) (map (pick index) blocks) net bs"
proof (induction blocks arbitrary: net bs)
  case (Cons b blocks)
  then show ?case
    by (auto simp: bindR_def split: option.splits sum.splits)
qed simp

text \<open>What an endpoint is to receive of a sequence of elements, each with the index chosen for it.\<close>

definition routed :: "'a next_strategy \<Rightarrow> receiver_endpoint list \<Rightarrow> nat option \<Rightarrow> receiver_endpoint \<Rightarrow> 'a stream_element \<times> nat \<Rightarrow> bool" where
  "routed strategy eps feedback ep h =
     (case elem_value (fst h) of
        Some _ \<Rightarrow> chosen_replica strategy eps (snd h) ep
      | None \<Rightarrow> fst h \<noteq> FlushBatch \<and> \<not> (fst h = Terminate \<and> Some (ep_block ep) = feedback))"

definition received :: "'a next_strategy \<Rightarrow> receiver_endpoint list \<Rightarrow> nat option \<Rightarrow> ('a stream_element \<times> nat) list
    \<Rightarrow> receiver_endpoint \<Rightarrow> 'a stream_element list" where
  "received strategy eps feedback hist ep = map fst (filter (routed strategy eps feedback ep) hist)"

definition chosen_index :: "('r \<Rightarrow> nat \<times> 'r) \<Rightarrow> ('s, 'a, 'r) end_op \<Rightarrow> 'a stream_element \<Rightarrow> nat" where
  "chosen_index rng st m =
     (case elem_value m of None \<Rightarrow> 0 | Some item \<Rightarrow> fst (strategy_index rng (en_strategy st) (en_rng st) item))"

definition senders_hold :: "coord \<Rightarrow> receiver_endpoint list \<Rightarrow> (receiver_endpoint \<Rightarrow> 'a stream_element list)
    \<Rightarrow> 'a network \<Rightarrow> 'a sender list \<Rightarrow> bool" where
  "senders_hold c eps hold net senders \<longleftrightarrow>
     map fst senders = eps \<and> (\<forall>s \<in> set senders. sender_ok c net s \<and> sender_held c net s = hold (fst s))"

lemma senders_hold_nth:
  "senders_hold c eps hold net senders \<Longrightarrow> j < length eps \<Longrightarrow> sender_held c net (senders ! j) = hold (eps ! j)"
  unfolding senders_hold_def by (metis length_map nth_map nth_mem)

lemma senders_holdI:
  assumes "map fst senders = eps" "\<forall>s \<in> set senders. sender_ok c net s"
    "\<And>j. j < length eps \<Longrightarrow> sender_held c net (senders ! j) = hold (eps ! j)"
  shows "senders_hold c eps hold net senders"
proof -
  have "sender_held c net s = hold (fst s)" if s: "s \<in> set senders" for s
  proof -
    obtain j where "j < length senders" "s = senders ! j" using s by (auto simp: in_set_conv_nth)
    then show ?thesis using assms(1,3) by (metis length_map nth_map)
  qed
  with assms(1,2) show ?thesis by (simp add: senders_hold_def)
qed

text \<open>Enqueuing an element at some senders, and at all but those of the feedback block.\<close>

lemma enqueue_senders:
  assumes hold: "senders_hold c eps hold net senders" and eps: "distinct eps"
    and "distinct idxs" "set idxs \<subseteq> {..<length eps}"
    and at: "\<And>j. j < length eps \<Longrightarrow> j \<in> set idxs \<longleftrightarrow> P (eps ! j)"
  shows "\<exists>net' senders'. for_senders (sender_enqueue now m) idxs net senders = ret (net', senders')
    \<and> senders_hold c eps (\<lambda>ep. hold ep @ (if P ep then [m] else [])) net' senders'"
proof -
  have sd: "distinct (map fst senders)" "\<forall>s \<in> set senders. sender_ok c net s" "map fst senders = eps"
    using hold eps by (auto simp: senders_hold_def)
  have len: "length senders = length eps" using sd(3) by auto
  obtain net' bs where
    loop: "for_senders (sender_enqueue now m) idxs net senders = ret (net', bs)" "map fst bs = eps" "\<forall>s \<in> set bs. sender_ok c net' s"
      "\<forall>j < length eps. sender_held c net' (bs ! j) =
        (if j \<in> set idxs then sender_held c net (senders ! j) @ [m] else sender_held c net (senders ! j))"
    using enqueue_op.for_senders_ok [OF sd(1,2) assms(3), of now m] assms(4) unfolding sd(3) len by blast
  have "senders_hold c eps (\<lambda>ep. hold ep @ (if P ep then [m] else [])) net' bs"
    using loop(2-4) senders_hold_nth [OF hold] at by (intro senders_holdI) auto
  with loop(1) show ?thesis by blast
qed

lemma broadcast_senders:
  assumes hold: "senders_hold c eps hold net senders" and eps: "distinct eps"
    and idxs: "distinct idxs" "set idxs = {..<length eps}"
  shows "\<exists>net' senders'. for_senders (sender_broadcast now feedback m) idxs net senders = ret (net', senders')
    \<and> senders_hold c eps (\<lambda>ep. hold ep @ (if m = Terminate \<longrightarrow> Some (ep_block ep) \<noteq> feedback then [m] else [])) net' senders'"
proof -
  have sd: "distinct (map fst senders)" "\<forall>s \<in> set senders. sender_ok c net s" "map fst senders = eps"
    using hold eps by (auto simp: senders_hold_def)
  have len: "length senders = length eps" using sd(3) by auto
  then have sub: "set idxs \<subseteq> {..<length senders}" using idxs(2) by simp
  note loop_ok = broadcast_op.for_senders_ok [OF sd(1,2) idxs(1) sub, of now feedback m]
  obtain net' bs where
    loop: "for_senders (sender_broadcast now feedback m) idxs net senders = ret (net', bs)"
      "map fst bs = eps" "\<forall>s \<in> set bs. sender_ok c net' s"
      "\<forall>j < length eps. sender_held c net' (bs ! j) =
        (if m = Terminate \<and> Some (ep_block (fst (senders ! j))) = feedback then sender_held c net (senders ! j)
         else sender_held c net (senders ! j) @ [m])"
    using loop_ok unfolding sd(3) len idxs(2) by (elim exE conjE) simp
  moreover have "fst (senders ! j) = eps ! j" if "j < length eps" for j using sd(3) that len by (metis nth_map)
  ultimately have "senders_hold c eps (\<lambda>ep. hold ep @ (if m = Terminate \<longrightarrow> Some (ep_block ep) \<noteq> feedback then [m] else [])) net' bs"
    using senders_hold_nth [OF hold] by (intro senders_holdI) auto
  with loop(1) show ?thesis by blast
qed

text \<open>A set-up \<^verbatim>\<open>End\<close> whose senders hold \<open>hold\<close>.\<close>

definition end_ready :: "((nat \<times> nat list) list \<Rightarrow> (nat \<times> nat list) list) \<Rightarrow> 'a next_strategy \<Rightarrow> receiver_endpoint list
    \<Rightarrow> nat option \<Rightarrow> ('s, 'a, 'r) end_op \<Rightarrow> bool" where
  "end_ready ho strategy eps feedback st \<longleftrightarrow>
     en_strategy st = strategy \<and> en_feedback st = feedback \<and> en_blocks st = blocks_of ho strategy eps"

lemma end_route_ok:
  assumes ho: "hash_order ho" and eps: "distinct eps" and ready: "end_ready ho strategy eps feedback st"
    and hold: "senders_hold c eps hold (en_net st) (en_senders st)"
  shows "\<exists>st'. end_route rng now m st = ret st' \<and> end_ready ho strategy eps feedback st' \<and> en_prev st' = en_prev st
    \<and> senders_hold c eps (\<lambda>ep. hold ep @ (if routed strategy eps feedback ep (m, chosen_index rng st m) then [m] else []))
        (en_net st') (en_senders st')"
proof -
  note blocks = blocks_of_ok [OF ho, of strategy eps] and ready = ready [unfolded end_ready_def]
  show ?thesis
  proof (cases "elem_value m")
    case (Some item)
    obtain index r where idx: "strategy_index rng strategy (en_rng st) item = (index, r)" by (metis prod.exhaust)
    let ?picks = "map (pick index) (blocks_of ho strategy eps)"
    have "pick index b \<in> set (concat (blocks_of ho strategy eps))" if "b \<in> set (blocks_of ho strategy eps)" for b
      using that blocks(3) pick_in [of b index] by (metis UN_I set_concat)
    then have sub: "set ?picks \<subseteq> {..<length eps}" unfolding blocks(2) by auto
    have at: "j \<in> set ?picks \<longleftrightarrow> routed strategy eps feedback (eps ! j) (m, chosen_index rng st m)" if "j < length eps" for j
      using picked [OF ho eps that, of index strategy] Some ready idx by (simp add: routed_def chosen_index_def)
    obtain net' bs where
      "for_senders (sender_enqueue now m) ?picks (en_net st) (en_senders st) = ret (net', bs)"
      "senders_hold c eps (\<lambda>ep. hold ep @ (if routed strategy eps feedback ep (m, chosen_index rng st m) then [m] else [])) net' bs"
      using enqueue_senders [OF hold eps picks_distinct [OF blocks(1,3)] sub at, of now m] by blast
    then show ?thesis using Some ready idx blocks(3) by (simp add: end_route_def end_direct_picks end_ready_def)
  next
    case None
    show ?thesis
    proof (cases "m = FlushBatch")
      case True
      then show ?thesis using hold ready by (simp add: end_route_def end_ready_def routed_def)
    next
      case False
      have eff: "routed strategy eps feedback ep (m, chosen_index rng st m) \<longleftrightarrow> \<not> (m = Terminate \<and> Some (ep_block ep) = feedback)" for ep
        using None False by (simp add: routed_def)
      obtain net' bs where
        loop: "for_senders (sender_broadcast now feedback m) (concat (blocks_of ho strategy eps)) (en_net st) (en_senders st) = ret (net', bs)"
          "senders_hold c eps (\<lambda>ep. hold ep @ (if m = Terminate \<longrightarrow> Some (ep_block ep) \<noteq> feedback then [m] else [])) net' bs"
        using broadcast_senders [OF hold eps blocks(1,2), of now feedback m] by blast
      have "end_route rng now m st = ret (st\<lparr>en_net := net', en_senders := bs\<rparr>)"
        using None False ready loop(1) by (simp add: end_route_def)
      with loop(2) ready show ?thesis by (simp add: eff end_ready_def cong: if_cong)
    qed
  qed
qed

section \<open>Flushing and ending the senders\<close>

text \<open>Once ended, every channel has got all that its sender held.\<close>

definition senders_ended :: "coord \<Rightarrow> receiver_endpoint list \<Rightarrow> (receiver_endpoint \<Rightarrow> 'a stream_element list)
    \<Rightarrow> 'a network \<Rightarrow> 'a sender list \<Rightarrow> bool" where
  "senders_ended c eps hold net senders \<longleftrightarrow> senders = [] \<and> (\<forall>ep \<in> set eps. delivered net ep c = hold ep)"

lemma sender_held_parts: "sender_held c net s = fst (sender_parts c net s) @ snd (sender_parts c net s)"
  by (simp add: sender_held_def sender_parts_def)

lemma emptied:
  assumes hold: "senders_hold c eps hold net senders" and "map fst bs = eps"
    and parts: "\<forall>i < length senders. sender_parts c net' (bs ! i) = (sender_held c net (senders ! i), [])"
  shows "\<forall>s \<in> set bs. sender_held c net' s = hold (fst s) \<and> delivered net' (fst s) c = hold (fst s)"
proof
  fix s assume "s \<in> set bs"
  then obtain i where i: "i < length bs" "s = bs ! i" by (auto simp: in_set_conv_nth)
  have eq: "map fst senders = map fst bs" using hold assms(2) by (simp add: senders_hold_def)
  then have len: "length bs = length senders" by (metis length_map)
  have "fst (senders ! i) = fst s" using eq i len by (metis nth_map)
  moreover have "sender_held c net (senders ! i) = hold (fst (senders ! i))"
    using hold i len by (auto simp: senders_hold_def)
  moreover have "sender_parts c net' s = (sender_held c net (senders ! i), [])" using parts i len by auto
  ultimately show "sender_held c net' s = hold (fst s) \<and> delivered net' (fst s) c = hold (fst s)"
    by (simp add: sender_held_parts) (simp add: sender_parts_def)
qed

lemma flush_senders_ok:
  assumes hold: "senders_hold c eps hold net senders" and eps: "distinct eps"
  shows "\<exists>net' senders'. flush_senders now v net senders = ret (net', senders')
    \<and> (if v = Terminate then senders_ended c eps hold net' senders' else senders_hold c eps hold net' senders')"
proof -
  have sd: "distinct (map fst senders)" "\<forall>s \<in> set senders. sender_ok c net s"
    using hold eps by (auto simp: senders_hold_def)
  have up: "distinct [0..<length senders]" "set [0..<length senders] \<subseteq> {..<length senders}" by auto
  consider "v = FlushAndRestart \<or> v = FlushBatch" | "v = Terminate" | "v \<noteq> FlushAndRestart" "v \<noteq> FlushBatch" "v \<noteq> Terminate" by blast
  then show ?thesis
  proof cases
    case 1
    from flush_op.for_senders_ok [OF sd up, of now] obtain net' bs where
      loop: "for_senders (sender_flush now) [0..<length senders] net senders = ret (net', bs)" "map fst bs = map fst senders"
        "\<forall>s \<in> set bs. sender_ok c net' s" "\<forall>i < length senders. sender_parts c net' (bs ! i) = (sender_held c net (senders ! i), [])"
      by (auto simp: sender_held_parts)
    moreover have "map fst bs = eps" using loop(2) hold by (simp add: senders_hold_def)
    ultimately show ?thesis using 1 emptied [OF hold _ loop(4)] by (auto simp: flush_senders_def senders_hold_def)
  next
    case 2
    from end_op.for_senders_ok [OF sd up] obtain net' bs where
      loop: "for_senders sender_end [0..<length senders] net senders = ret (net', bs)" "map fst bs = map fst senders"
        "\<forall>i < length senders. sender_parts c net' (bs ! i) = (sender_held c net (senders ! i), [])"
      by (auto simp: sender_held_parts)
    have fst: "map fst bs = eps" using loop(2) hold by (simp add: senders_hold_def)
    have "\<forall>ep \<in> set eps. delivered net' ep c = hold ep" using emptied [OF hold fst loop(3)] fst by auto
    then show ?thesis using 2 loop(1) by (auto simp: flush_senders_def senders_ended_def)
  next
    case 3
    then show ?thesis using hold by (auto simp: flush_senders_def)
  qed
qed

section \<open>Setting up\<close>

lemma map_sort_key: "map f (sort_key f xs) = sort (map f xs)"
proof -
  have "map f (insort_key f x xs) = insort (f x) (map f xs)" for x and xs by (induction xs) auto
  then show ?thesis by (induction xs) auto
qed

lemma positions_single:
  assumes "distinct bs" and "b \<in> set bs"
  shows "length (positions b bs) = 1"
proof -
  obtain i where i: "i < length bs" "bs ! i = b" using assms(2) by (auto simp: in_set_conv_nth)
  then have "set (positions b bs) = {i}" using assms(1) by (auto simp: nth_eq_iff_index_eq)
  then show ?thesis using distinct_card [OF positions_distinct, of b bs] by simp
qed

lemma sorted_sender_blocks: "map sender_block (sort_key fst (map (\<lambda>ep. (ep, f ep)) eps)) = map ep_block (sort eps)"
proof -
  have "map sender_block (sort_key fst (map (\<lambda>ep. (ep, f ep)) eps)) = map ep_block (map fst (sort_key fst (map (\<lambda>ep. (ep, f ep)) eps)))"
    by simp
  then show ?thesis unfolding map_sort_key by (simp add: comp_def)
qed

text \<open>The endpoints an \<^verbatim>\<open>End\<close> sends to, in the order of its senders.\<close>

definition destinations :: "nat list \<Rightarrow> receiver_endpoint list \<Rightarrow> receiver_endpoint list" where
  "destinations ignored endpoints = sort (filter (\<lambda>ep. ep_block ep \<notin> set ignored) endpoints)"

text \<open>The receivers are there, this replica has sent nothing yet, and the strategy fits the network.\<close>

definition end_fresh :: "coord \<Rightarrow> receiver_endpoint list \<Rightarrow> ('s, 'a, 'r) end_op \<Rightarrow> bool" where
  "end_fresh c endpoints st \<longleftrightarrow>
     distinct endpoints \<and> 0 < max_size (en_mode st)
   \<and> (\<forall>ep \<in> set endpoints. nt_open (en_net st) ep \<and> from_sender (en_net st) ep c = [])
   \<and> (en_strategy st = OnlyOne \<longrightarrow> distinct (map ep_block (destinations (en_ignore st) endpoints)))"

lemma destinations_distinct [simp]: "distinct endpoints \<Longrightarrow> distinct (destinations ignored endpoints)"
  by (simp add: destinations_def)

lemma new_senders_hold:
  assumes "\<forall>ep \<in> set kept. nt_open net ep \<and> from_sender net ep c = []" and "0 < max_size mode"
  shows "senders_hold c (sort kept) (\<lambda>_. []) net (sort_key fst (map (\<lambda>ep. (ep, batcher_new now ep mode c)) kept))"
  unfolding senders_hold_def map_sort_key
  using assms by (auto simp: comp_def sender_ok_def sender_held_def batcher_new_def batches_ok_def delivered_def)

lemma end_setup_ok:
  fixes st :: "('s, 'a, 'r) end_op"
  assumes ho: "hash_order ho" and fresh: "end_fresh c endpoints st"
  shows "\<exists>st'. end_setup ho now c endpoints st = ret st' \<and> en_prev st' = en_prev st \<and> en_ignore st' = en_ignore st
    \<and> end_ready ho (en_strategy st) (destinations (en_ignore st) endpoints) (en_feedback st) st'
    \<and> senders_hold c (destinations (en_ignore st) endpoints) (\<lambda>_. []) (en_net st') (en_senders st')"
proof -
  let ?kept = "filter (\<lambda>ep. ep_block ep \<notin> set (en_ignore st)) endpoints" and ?eps = "destinations (en_ignore st) endpoints"
  let ?senders = "sort_key fst (map (\<lambda>ep. (ep, batcher_new now ep (en_mode st) c)) ?kept) :: 'a sender list"
  have eps: "map fst ?senders = ?eps" unfolding map_sort_key by (simp add: destinations_def comp_def)
  have "map sender_block ?senders = map ep_block ?eps" unfolding destinations_def by (rule sorted_sender_blocks)
  moreover have "length ?senders = length ?eps" unfolding eps [symmetric] by (rule length_map [symmetric])
  ultimately have blocks: "(case en_strategy st of
        All \<Rightarrow> map (\<lambda>i. [i]) [0..<length ?senders]
      | _ \<Rightarrow> map snd (ho (group_indexes 0 (map sender_block ?senders) []))) = blocks_of ho (en_strategy st) ?eps"
    by (cases "en_strategy st") (simp_all add: blocks_of_def sender_blocks_def)
  have "case en_strategy st of OnlyOne \<Rightarrow> list_all (\<lambda>is. length is = 1) (blocks_of ho (en_strategy st) ?eps) | _ \<Rightarrow> True"
    using fresh positions_single
    by (auto simp: end_fresh_def blocks_of_def list_all_iff sender_blocks_in [OF ho] split: next_strategy.split)
  moreover have "senders_hold c ?eps (\<lambda>_. []) (en_net st) ?senders"
    using new_senders_hold [of ?kept "en_net st" c "en_mode st" now] fresh by (auto simp: end_fresh_def destinations_def)
  ultimately show ?thesis
    using blocks by (cases "en_strategy st") (simp_all add: end_setup_def setup_senders_def Let_def end_ready_def)
qed

section \<open>Any run of an end\<close>

definition sender_tick :: "int \<Rightarrow> bool \<Rightarrow> 'a network \<Rightarrow> 'a sender \<Rightarrow> ('a network \<times> 'a sender) res" where
  "sender_tick now full net s = bindR (batcher_try_flush now full net (snd s)) (\<lambda>(_, net, b). ret (net, (fst s, b)))"

interpretation tick_op: sender_op "sender_tick now full" fst "sender_ok c" "sender_held c" "\<lambda>_ v. v"
  for now full c
proof
  fix net and s :: "'a sender"
  assume s: "sender_ok c net s"
  then have "nt_open net (bt_sender (snd s))" "batches_ok net (snd s)" by (auto simp: sender_ok_def)
  from try_flush_ok [OF this, of now full] obtain sent net' buf last where
    b: "batcher_try_flush now full net (snd s) = ret (sent, net', (snd s)\<lparr>bt_buffer := buf, bt_last_send := last\<rparr>)"
      "content net' ((snd s)\<lparr>bt_buffer := buf, bt_last_send := last\<rparr>) = content net (snd s)"
      "batches_ok net' ((snd s)\<lparr>bt_buffer := buf, bt_last_send := last\<rparr>)"
      "channel_frame net net' (bt_sender (snd s)) (bt_coord (snd s))" by blast
  let ?s = "(fst s, (snd s)\<lparr>bt_buffer := buf, bt_last_send := last\<rparr>)"
  have "sender_tick now full net s = ret (net', ?s)" by (simp add: sender_tick_def b(1))
  moreover have "sender_ok c net' ?s" "sender_held c net' ?s = sender_held c net s"
    using s b(2-4) by (auto simp: sender_ok_def sender_held_def content_def channel_frame_def)
  moreover have frame: "channel_frame net net' (fst s) c" using s b(4) by (simp add: sender_ok_def)
  ultimately show "\<exists>net' s'. sender_tick now full net s = ret (net', s') \<and> fst s' = fst s \<and> sender_ok c net' s'
      \<and> sender_held c net' s' = sender_held c net s
      \<and> (\<forall>x :: 'a sender. fst x \<noteq> fst s \<longrightarrow> sender_ok c net' x = sender_ok c net x \<and> sender_held c net' x = sender_held c net x)"
    using sender_frame(1,2) [OF frame] by auto
qed

text \<open>
  The run of an \<^verbatim>\<open>End\<close>: its own steps until it has seen \<^verbatim>\<open>Terminate\<close>, the background flush of one of its
  senders, and messages of other replicas on the same channels. The history has every element that
  was pulled, with the index chosen for it.
\<close>

inductive end_reach :: "((nat \<times> nat list) list \<Rightarrow> (nat \<times> nat list) list) \<Rightarrow> ('r \<Rightarrow> nat \<times> 'r) \<Rightarrow> ('s, 'a) pull \<Rightarrow> coord \<Rightarrow> int
    \<Rightarrow> receiver_endpoint list \<Rightarrow> ('s, 'a, 'r) end_op \<Rightarrow> ('a stream_element \<times> nat) list \<Rightarrow> bool \<Rightarrow> ('s, 'a, 'r) end_op \<Rightarrow> bool"
  for ho rng prev c t0 endpoints st0 where
  init: "end_setup ho t0 c endpoints st0 = ret st \<Longrightarrow> end_reach ho rng prev c t0 endpoints st0 [] False st"
| step: "end_reach ho rng prev c t0 endpoints st0 hist False st \<Longrightarrow> prev (en_prev st) = ret (m, s')
    \<Longrightarrow> end_next rng now prev st = ret (v, st')
    \<Longrightarrow> end_reach ho rng prev c t0 endpoints st0 (hist @ [(m, chosen_index rng st m)]) (m = Terminate) st'"
| tick: "end_reach ho rng prev c t0 endpoints st0 hist False st \<Longrightarrow> i < length (en_senders st)
    \<Longrightarrow> for_senders (sender_tick now full) [i] (en_net st) (en_senders st) = ret (net, senders)
    \<Longrightarrow> end_reach ho rng prev c t0 endpoints st0 hist False (st\<lparr>en_net := net, en_senders := senders\<rparr>)"
| foreign: "end_reach ho rng prev c t0 endpoints st0 hist fin st \<Longrightarrow> nm_sender m \<noteq> c \<Longrightarrow> net_send (en_net st) ep m = Some net
    \<Longrightarrow> end_reach ho rng prev c t0 endpoints st0 hist fin (st\<lparr>en_net := net\<rparr>)"

lemma received_snoc:
  "received strategy eps feedback (hist @ [h]) ep =
     received strategy eps feedback hist ep @ (if routed strategy eps feedback ep h then [fst h] else [])"
  by (simp add: received_def)

lemma end_next_ok:
  assumes ho: "hash_order ho" and eps: "distinct eps" and ready: "end_ready ho strategy eps feedback st"
    and hold: "senders_hold c eps (received strategy eps feedback hist) (en_net st) (en_senders st)"
    and m: "prev (en_prev st) = ret (m, s')"
  shows "\<exists>st'. end_next rng now prev st = ret (variant m, st') \<and> end_ready ho strategy eps feedback st' \<and> en_prev st' = s'
    \<and> (let hold = received strategy eps feedback (hist @ [(m, chosen_index rng st m)]) in
        if m = Terminate then senders_ended c eps hold (en_net st') (en_senders st')
        else senders_hold c eps hold (en_net st') (en_senders st'))"
proof -
  let ?st = "st\<lparr>en_prev := s'\<rparr>" and ?hold = "received strategy eps feedback (hist @ [(m, chosen_index rng st m)])"
  have "end_ready ho strategy eps feedback ?st" using ready by (simp add: end_ready_def)
  moreover have "senders_hold c eps (received strategy eps feedback hist) (en_net ?st) (en_senders ?st)" using hold by simp
  moreover have "chosen_index rng ?st m = chosen_index rng st m" by (simp add: chosen_index_def split: option.split)
  ultimately obtain st1 where st1: "end_route rng now m ?st = ret st1" "end_ready ho strategy eps feedback st1" "en_prev st1 = s'"
    "senders_hold c eps ?hold (en_net st1) (en_senders st1)"
    using end_route_ok [OF ho eps, of strategy feedback ?st c "received strategy eps feedback hist" rng now m]
    unfolding received_snoc [abs_def] fst_conv by auto
  from flush_senders_ok [OF st1(4) eps, of now "variant m"] obtain net' senders' where
    fl: "flush_senders now (variant m) (en_net st1) (en_senders st1) = ret (net', senders')"
      "if variant m = Terminate then senders_ended c eps ?hold net' senders' else senders_hold c eps ?hold net' senders'" by blast
  moreover have "variant m = Terminate \<longleftrightarrow> m = Terminate" by (cases m) simp_all
  ultimately show ?thesis using st1(1-3) m by (cases "m = Terminate") (simp_all add: end_next_def end_ready_def Let_def)
qed

lemma senders_hold_foreign:
  assumes "senders_hold c eps hold net senders" and "nm_sender m \<noteq> c" and "net_send net ep m = Some net'"
  shows "senders_hold c eps hold net' senders"
proof -
  have net': "net' = net\<lparr>nt_queue := (nt_queue net)(ep := nt_queue net ep @ [m])\<rparr>"
    using assms(3) by (simp add: net_send_def split: if_splits)
  have "from_sender net' ep' c = from_sender net ep' c" for ep' using assms(2) by (simp add: net')
  moreover have "nt_open net' = nt_open net" by (simp add: net')
  ultimately show ?thesis using assms(1) by (auto simp: senders_hold_def sender_ok_def sender_held_def batches_ok_def delivered_def)
qed

lemma senders_hold_tick:
  assumes hold: "senders_hold c eps hold net senders" and eps: "distinct eps" and i: "i < length senders"
    and tick: "for_senders (sender_tick now full) [i] net senders = ret (net', senders')"
  shows "senders_hold c eps hold net' senders'"
proof -
  have sd: "distinct (map fst senders)" "\<forall>s \<in> set senders. sender_ok c net s" "map fst senders = eps"
    using hold eps by (auto simp: senders_hold_def)
  have "distinct [i]" "set [i] \<subseteq> {..<length senders}" using i by auto
  from tick_op.for_senders_ok [OF sd(1,2) this, of now full] tick
  have "map fst senders' = eps" "\<forall>s \<in> set senders'. sender_ok c net' s"
    "\<forall>j < length senders. sender_held c net' (senders' ! j) = sender_held c net (senders ! j)"
    using sd(3) by auto
  moreover have "length senders = length eps" using sd(3) by auto
  ultimately show ?thesis using senders_hold_nth [OF hold] by (intro senders_holdI) auto
qed

definition end_invariant :: "((nat \<times> nat list) list \<Rightarrow> (nat \<times> nat list) list) \<Rightarrow> coord \<Rightarrow> 'a next_strategy \<Rightarrow> receiver_endpoint list
    \<Rightarrow> nat option \<Rightarrow> ('a stream_element \<times> nat) list \<Rightarrow> bool \<Rightarrow> ('s, 'a, 'r) end_op \<Rightarrow> bool" where
  "end_invariant ho c strategy eps feedback hist fin st \<longleftrightarrow>
     end_ready ho strategy eps feedback st
   \<and> (if fin then senders_ended c eps (received strategy eps feedback hist) (en_net st) (en_senders st)
      else senders_hold c eps (received strategy eps feedback hist) (en_net st) (en_senders st))"

lemma end_reach_invariant:
  assumes "end_reach ho rng prev c t0 endpoints st0 hist fin st"
    and ho: "hash_order ho" and fresh: "end_fresh c endpoints st0"
  shows "end_invariant ho c (en_strategy st0) (destinations (en_ignore st0) endpoints) (en_feedback st0) hist fin st"
  using assms(1)
proof (induction rule: end_reach.induct)
  case (init st)
  then show ?case using end_setup_ok [OF ho fresh, of t0] by (auto simp: end_invariant_def received_def [abs_def])
next
  case (step hist st m s' now v st')
  have "distinct (destinations (en_ignore st0) endpoints)" using fresh by (simp add: end_fresh_def)
  with step show ?case
    using end_next_ok [OF ho, of "destinations (en_ignore st0) endpoints" "en_strategy st0" "en_feedback st0" st c hist prev m s' rng now]
    by (auto simp: end_invariant_def Let_def)
next
  case (tick hist st i now full net senders)
  have "distinct (destinations (en_ignore st0) endpoints)" using fresh by (simp add: end_fresh_def)
  from senders_hold_tick [OF _ this tick(2,3)] tick.IH show ?case by (auto simp: end_invariant_def end_ready_def)
next
  case (foreign hist fin st m ep net)
  have "delivered net ep' c = delivered (en_net st) ep' c" for ep'
    using foreign.hyps by (auto simp: net_send_def split: if_splits)
  then show ?case using foreign.IH senders_hold_foreign [OF _ foreign.hyps(2,3)]
    by (cases fin) (auto simp: end_invariant_def end_ready_def senders_ended_def)
qed

text \<open>Every finite input up to its \<^verbatim>\<open>Terminate\<close> is consumed; the indexes of \<^verbatim>\<open>GroupBy\<close> are those of its function.\<close>

lemma end_runs:
  assumes ho: "hash_order ho" and fresh: "end_fresh c endpoints st0" and strategy: "en_strategy st0 = GroupBy f"
    and "pulls prev (en_prev st0) es s" and "Terminate \<notin> set (butlast es)"
  shows "\<exists>st. end_reach ho rng prev c t0 endpoints st0 (map (\<lambda>m. (m, case elem_value m of None \<Rightarrow> 0 | Some x \<Rightarrow> f x)) es)
      (es \<noteq> [] \<and> last es = Terminate) st \<and> en_prev st = s"
  using assms(4,5)
proof (induction es arbitrary: s rule: rev_induct)
  case Nil
  obtain st where "end_setup ho t0 c endpoints st0 = ret st" "en_prev st = en_prev st0" using end_setup_ok [OF ho fresh] by blast
  with Nil show ?case using end_reach.init by fastforce
next
  case (snoc m es)
  then obtain s1 where s1: "pulls prev (en_prev st0) es s1" "prev s1 = ret (m, s)" by (auto simp: pulls_append pulls_Cons_iff)
  have "Terminate \<notin> set es" using snoc.prems(2) by simp
  then have "Terminate \<notin> set (butlast es)" "\<not> (es \<noteq> [] \<and> last es = Terminate)" by (auto dest: in_set_butlastD last_in_set)
  with snoc.IH [OF s1(1)] obtain st where
    st: "end_reach ho rng prev c t0 endpoints st0 (map (\<lambda>m. (m, case elem_value m of None \<Rightarrow> 0 | Some x \<Rightarrow> f x)) es) False st" "en_prev st = s1"
    by auto
  let ?eps = "destinations (en_ignore st0) endpoints"
  have inv: "end_ready ho (en_strategy st0) ?eps (en_feedback st0) st"
    "senders_hold c ?eps (received (en_strategy st0) ?eps (en_feedback st0) (map (\<lambda>m. (m, case elem_value m of None \<Rightarrow> 0 | Some x \<Rightarrow> f x)) es)) (en_net st) (en_senders st)"
    using end_reach_invariant [OF st(1) ho fresh] by (simp_all add: end_invariant_def)
  have d: "distinct ?eps" using fresh by (simp add: end_fresh_def)
  have m: "prev (en_prev st) = ret (m, s)" using s1(2) st(2) by simp
  from end_next_ok [where prev = prev, OF ho d inv m, of rng 0] obtain st' where
    st': "end_next rng 0 prev st = ret (variant m, st')" "en_prev st' = s" by blast
  have "chosen_index rng st m = (case elem_value m of None \<Rightarrow> 0 | Some x \<Rightarrow> f x)"
    using inv(1) strategy by (auto simp: chosen_index_def end_ready_def split: option.split)
  then show ?case using end_reach.step [OF st(1) m st'(1)] st'(2) by auto
qed

text \<open>
  C9: whatever the batch mode, the clock, the order of the hash map of blocks, the random generator,
  the background flushes and the traffic of other replicas, the end of a block always works (setting it
  up and every \<^verbatim>\<open>next\<close> return, while the receivers are there), and at every moment each destination
  has received, or its sender still holds, exactly what it has to get, in order: of the data elements those
  whose index, modulo the number of replicas of its block, is its own (all of them for \<^verbatim>\<open>All\<close>), every
  watermark and every end marker except the \<^verbatim>\<open>Terminate\<close> of a feedback loop. After \<^verbatim>\<open>Terminate\<close> nothing is
  left in a buffer.
\<close>

theorem end_routes:
  assumes "hash_order ho" and "end_fresh c endpoints st0"
  shows "(\<exists>st. end_setup ho t0 c endpoints st0 = ret st)
    \<and> (let eps = destinations (en_ignore st0) endpoints; want = received (en_strategy st0) eps (en_feedback st0) in
        (end_reach ho rng prev c t0 endpoints st0 hist False st \<longrightarrow>
           map fst (en_senders st) = eps
         \<and> (\<forall>s \<in> set (en_senders st). delivered (en_net st) (fst s) c @ bt_buffer (snd s) = want hist (fst s))
         \<and> (\<forall>m s' now. prev (en_prev st) = ret (m, s') \<longrightarrow> (\<exists>st'. end_next rng now prev st = ret (variant m, st'))))
      \<and> (end_reach ho rng prev c t0 endpoints st0 hist True st \<longrightarrow>
           en_senders st = [] \<and> (\<forall>ep \<in> set eps. delivered (en_net st) ep c = want hist ep)))"
proof -
  let ?eps = "destinations (en_ignore st0) endpoints"
  let ?want = "received (en_strategy st0) ?eps (en_feedback st0)"
  have "\<exists>st. end_setup ho t0 c endpoints st0 = ret st" using end_setup_ok [OF assms] by blast
  moreover have "map fst (en_senders st) = ?eps
         \<and> (\<forall>s \<in> set (en_senders st). delivered (en_net st) (fst s) c @ bt_buffer (snd s) = ?want hist (fst s))
         \<and> (\<forall>m s' now. prev (en_prev st) = ret (m, s') \<longrightarrow> (\<exists>st'. end_next rng now prev st = ret (variant m, st')))"
    if "end_reach ho rng prev c t0 endpoints st0 hist False st"
  proof -
    have inv: "end_ready ho (en_strategy st0) ?eps (en_feedback st0) st" "senders_hold c ?eps (?want hist) (en_net st) (en_senders st)"
      using end_reach_invariant [OF that assms] by (simp_all add: end_invariant_def)
    have "distinct ?eps" using assms(2) by (simp add: end_fresh_def)
    note ok = end_next_ok [where prev = prev, OF assms(1) this inv]
    have "\<exists>st'. end_next rng now prev st = ret (variant m, st')" if "prev (en_prev st) = ret (m, s')" for m s' now
      using ok [OF that, of rng now] by blast
    then show ?thesis using inv(2) by (auto simp: senders_hold_def sender_held_def)
  qed
  moreover have "en_senders st = [] \<and> (\<forall>ep \<in> set ?eps. delivered (en_net st) ep c = ?want hist ep)"
    if "end_reach ho rng prev c t0 endpoints st0 hist True st"
    using end_reach_invariant [OF that assms] by (simp add: end_invariant_def senders_ended_def)
  ultimately show ?thesis unfolding Let_def by blast
qed

theorem end_routes_witness:
  "\<exists>st. end_reach (\<lambda>m. m) (\<lambda>r. (0, r)) fake_next (Coord 0 0 0) 0
      [ReceiverEndpoint (Coord 1 0 1) 0, ReceiverEndpoint (Coord 1 0 0) 0]
      (end_new [Item 7, Item 4, FlushAndRestart, Terminate] (GroupBy (\<lambda>n. n)) (Fixed 2) () \<lparr>nt_queue = \<lambda>_. [], nt_open = \<lambda>_. True\<rparr>)
      [(Item 7, 7), (Item 4, 4), (FlushAndRestart, 0), (Terminate, 0)] True st
    \<and> delivered (en_net st) (ReceiverEndpoint (Coord 1 0 0) 0) (Coord 0 0 0) = [Item 4, FlushAndRestart, Terminate]
    \<and> delivered (en_net st) (ReceiverEndpoint (Coord 1 0 1) 0) (Coord 0 0 0) = [Item 7, FlushAndRestart, Terminate]"
proof -
  let ?eps = "[ReceiverEndpoint (Coord 1 0 1) 0, ReceiverEndpoint (Coord 1 0 0) 0]"
  let ?st0 = "end_new [Item 7, Item 4, FlushAndRestart, Terminate] (GroupBy (\<lambda>n :: nat. n)) (Fixed 2) () \<lparr>nt_queue = \<lambda>_. [], nt_open = \<lambda>_. True\<rparr>"
  have fresh: "end_fresh (Coord 0 0 0) ?eps ?st0" by (simp add: end_fresh_def end_new_def from_sender_def)
  have strategy: "en_strategy ?st0 = GroupBy (\<lambda>n. n)" by (simp add: end_new_def)
  have input: "pulls fake_next (en_prev ?st0) [Item 7, Item 4, FlushAndRestart, Terminate] []"
    using pulls_fake_all by (simp add: end_new_def)
  obtain st where reach: "end_reach (\<lambda>m. m) (\<lambda>r. (0, r)) fake_next (Coord 0 0 0) 0 ?eps ?st0
      [(Item 7, 7), (Item 4, 4), (FlushAndRestart, 0), (Terminate, 0)] True st"
    using end_runs [OF hash_order_id fresh strategy input, of "\<lambda>r. (0, r)" 0] by auto
  have dest: "destinations (en_ignore ?st0) ?eps = [ReceiverEndpoint (Coord 1 0 0) 0, ReceiverEndpoint (Coord 1 0 1) 0]"
    by (simp add: destinations_def end_new_def less_eq_receiver_endpoint_def less_coord_def less_eq_coord_def)
  have "en_feedback ?st0 = None" by (simp add: end_new_def)
  with end_routes [OF hash_order_id fresh] reach dest strategy
  have "\<forall>ep \<in> set [ReceiverEndpoint (Coord 1 0 0) 0, ReceiverEndpoint (Coord 1 0 1) 0]. delivered (en_net st) ep (Coord 0 0 0) =
     received (GroupBy (\<lambda>n. n)) [ReceiverEndpoint (Coord 1 0 0) 0, ReceiverEndpoint (Coord 1 0 1) 0] None
      [(Item 7, 7), (Item 4, 4), (FlushAndRestart, 0), (Terminate, 0)] ep"
    unfolding Let_def by (metis (no_types))
  moreover have mod_examples: "(7 :: nat) mod Suc (Suc 0) = Suc 0" "(4 :: nat) mod Suc (Suc 0) = 0"
    by (simp_all flip: numeral_2_eq_2)
  ultimately have "delivered (en_net st) (ReceiverEndpoint (Coord 1 0 0) 0) (Coord 0 0 0) = [Item 4, FlushAndRestart, Terminate]
    \<and> delivered (en_net st) (ReceiverEndpoint (Coord 1 0 1) 0) (Coord 0 0 0) = [Item 7, FlushAndRestart, Terminate]"
    by (simp add: received_def routed_def chosen_replica_def replicas_def mod_examples)
  with reach show ?thesis by blast
qed

end
