(* ===== verification/Route.thy ===== *)
theory Route
  imports End_Block
begin

text \<open>
  The router of \<^verbatim>\<open>src/operator/route.rs\<close>: the end of a block whose data elements go to the first route
  whose filter accepts them.
\<close>

section \<open>RoutingEnd\<close>

record 'a endpoint =
  ed_block_id :: nat
  ed_filter :: "'a \<Rightarrow> bool"
  ed_indexes :: "nat list"

record ('s, 'a, 'r) routing_end =
  rt_prev :: 's
  rt_coord :: "coord option"
  rt_strategy :: "'a next_strategy"
  rt_mode :: batch_mode
  rt_senders :: "'a sender list"
  rt_endpoints :: "'a endpoint list"
  rt_routes :: "(nat \<times> ('a \<Rightarrow> bool)) list"
  rt_rng :: 'r
  rt_net :: "'a network"

definition routing_end_new :: "'s \<Rightarrow> (nat \<times> ('a \<Rightarrow> bool)) list \<Rightarrow> 'a next_strategy \<Rightarrow> batch_mode \<Rightarrow> 'r \<Rightarrow> 'a network
    \<Rightarrow> ('s, 'a, 'r) routing_end" where
  "routing_end_new prev routes strategy mode r net =
     \<lparr>rt_prev = prev, rt_coord = None, rt_strategy = strategy, rt_mode = mode, rt_senders = [], rt_endpoints = [],
      rt_routes = routes, rt_rng = r, rt_net = net\<rparr>"

text \<open>The loop that drains the routes: each one takes its block out of the map.\<close>

fun take_routes :: "(nat \<times> ('a \<Rightarrow> bool)) list \<Rightarrow> (nat, nat list) hmap \<Rightarrow> ('a endpoint list \<times> (nat, nat list) hmap) res" where
  "take_routes [] block_map = ret ([], block_map)"
| "take_routes ((block, flt) # routes) block_map =
     bindR (unwrapR (map_of block_map block)) (\<lambda>indexes.
       bindR (take_routes routes (AList.delete block block_map)) (\<lambda>(endpoints, block_map).
         ret (\<lparr>ed_block_id = block, ed_filter = flt, ed_indexes = indexes\<rparr> # endpoints, block_map)))"

definition setup_endpoints :: "('s, 'a, 'r) routing_end \<Rightarrow> ('s, 'a, 'r) routing_end res" where
  "setup_endpoints st =
     (let senders = sort_key fst (rt_senders st) in
      bindR (take_routes (rt_routes st) (group_indexes 0 (map sender_block senders) [])) (\<lambda>(endpoints, block_map).
        assertR (block_map = [])
          (ret (st\<lparr>rt_senders := senders, rt_endpoints := rt_endpoints st @ endpoints, rt_routes := []\<rparr>))))"

definition routing_end_setup :: "int \<Rightarrow> coord \<Rightarrow> receiver_endpoint list \<Rightarrow> ('s, 'a, 'r) routing_end \<Rightarrow> ('s, 'a, 'r) routing_end res" where
  "routing_end_setup now coord endpoints st =
     bindR (setup_endpoints (st\<lparr>rt_senders := map (\<lambda>ep. (ep, batcher_new now ep (rt_mode st) coord)) endpoints\<rparr>))
       (\<lambda>st. ret (st\<lparr>rt_coord := Some coord\<rparr>))"

text \<open>The loop over the endpoints for a data element ends at the first filter that accepts it.\<close>

fun route_direct :: "int \<Rightarrow> 'a stream_element \<Rightarrow> 'a \<Rightarrow> nat \<Rightarrow> 'a endpoint list \<Rightarrow> 'a network \<Rightarrow> 'a sender list
    \<Rightarrow> ('a network \<times> 'a sender list) res" where
  "route_direct now message item index [] net senders = ret (net, senders)"
| "route_direct now message item index (e # es) net senders =
     (if ed_filter e item
      then if index < length (ed_indexes e) then for_senders (sender_enqueue now message) [ed_indexes e ! index] net senders
           else panic IndexOutOfBounds
      else route_direct now message item index es net senders)"

definition routing_end_route :: "('r \<Rightarrow> nat \<times> 'r) \<Rightarrow> int \<Rightarrow> 'a stream_element \<Rightarrow> ('s, 'a, 'r) routing_end \<Rightarrow> ('s, 'a, 'r) routing_end res" where
  "routing_end_route rng now message st =
     (case elem_value message of
        Some item \<Rightarrow>
          (case strategy_index rng (rt_strategy st) (rt_rng st) item of (index, r) \<Rightarrow>
             bindR (route_direct now message item index (rt_endpoints st) (rt_net st) (rt_senders st)) (\<lambda>(net, senders).
               ret (st\<lparr>rt_rng := r, rt_net := net, rt_senders := senders\<rparr>)))
      | None \<Rightarrow>
          if message = FlushBatch then ret st
          else bindR (for_senders (sender_enqueue now message) (concat (map ed_indexes (rt_endpoints st))) (rt_net st) (rt_senders st))
                 (\<lambda>(net, senders). ret (st\<lparr>rt_net := net, rt_senders := senders\<rparr>)))"

definition routing_end_next :: "('r \<Rightarrow> nat \<times> 'r) \<Rightarrow> int \<Rightarrow> ('s, 'a) pull \<Rightarrow> (('s, 'a, 'r) routing_end, unit) pull" where
  "routing_end_next rng now prev st =
     assertR (rt_routes st = [])
      (bindR (prev (rt_prev st)) (\<lambda>(message, s').
         bindR (routing_end_route rng now message (st\<lparr>rt_prev := s'\<rparr>)) (\<lambda>st.
           bindR (flush_senders now (variant message) (rt_net st) (rt_senders st)) (\<lambda>(net, senders).
             ret (variant message, st\<lparr>rt_net := net, rt_senders := senders\<rparr>)))))"

section \<open>The endpoints after the setup\<close>

lemma take_routes_ok:
  assumes "distinct (keys routes)" and "set (keys routes) \<subseteq> dom (map_of m)"
  shows "\<exists>m'. take_routes routes m = ret (map (\<lambda>(b, f). \<lparr>ed_block_id = b, ed_filter = f, ed_indexes = the (map_of m b)\<rparr>) routes, m')
    \<and> map_of m' = map_of m |` (- set (keys routes))"
  using assms
proof (induction routes arbitrary: m)
  case (Cons x routes)
  obtain b f where x: "x = (b, f)" by (cases x)
  let ?m = "AList.delete b m"
  have del: "map_of ?m = (map_of m)(b := None)" by (rule delete_conv')
  have "set (keys routes) \<subseteq> dom (map_of ?m)" "b \<notin> set (keys routes)" using Cons.prems x by (auto simp: del)
  with Cons.IH [of ?m] Cons.prems(1) obtain m' where
    IH: "take_routes routes ?m = ret (map (\<lambda>(b, f). \<lparr>ed_block_id = b, ed_filter = f, ed_indexes = the (map_of ?m b)\<rparr>) routes, m')"
      "map_of m' = map_of ?m |` (- set (keys routes))" by auto
  have "the (map_of ?m k) = the (map_of m k)" if "k \<in> set (keys routes)" for k
    using that \<open>b \<notin> _\<close> by (auto simp: del)
  then have "map (\<lambda>(b, f). \<lparr>ed_block_id = b, ed_filter = f, ed_indexes = the (map_of ?m b)\<rparr>) routes =
      map (\<lambda>(b, f). \<lparr>ed_block_id = b, ed_filter = f, ed_indexes = the (map_of m b)\<rparr>) routes"
    by (intro map_cong refl) force
  moreover have "map_of m' = map_of m |` (- set (keys (x # routes)))"
    by (auto simp: IH(2) del x restrict_map_def fun_eq_iff)
  moreover obtain js where "map_of m b = Some js" using Cons.prems(2) x by auto
  ultimately show ?case using IH(1) x by simp
qed (simp add: restrict_map_def)

lemma group_indexes_positions: "map_of (group_indexes 0 bs []) b = (if b \<in> set bs then Some (positions b bs) else None)"
  using group_indexes_map [of 0 bs "[]" b] by (simp add: map_idI)

definition endpoints_of :: "(nat \<times> ('a \<Rightarrow> bool)) list \<Rightarrow> receiver_endpoint list \<Rightarrow> 'a endpoint list" where
  "endpoints_of routes eps =
     map (\<lambda>(b, f). \<lparr>ed_block_id = b, ed_filter = f, ed_indexes = positions b (map ep_block eps)\<rparr>) routes"

lemma take_routes_all:
  assumes "distinct (keys routes)" and blocks: "set (keys routes) = set (map ep_block eps)"
  shows "take_routes routes (group_indexes 0 (map ep_block eps) []) = ret (endpoints_of routes eps, [])"
proof -
  let ?m = "group_indexes 0 (map ep_block eps) []"
  have "set (keys routes) \<subseteq> dom (map_of ?m)" unfolding blocks by (auto simp: group_indexes_positions)
  from take_routes_ok [OF assms(1) this] obtain m' where
    m': "take_routes routes ?m = ret (map (\<lambda>(b, f). \<lparr>ed_block_id = b, ed_filter = f, ed_indexes = the (map_of ?m b)\<rparr>) routes, m')"
      "map_of m' = map_of ?m |` (- set (keys routes))" by blast
  have "map_of m' = Map.empty"
    unfolding m'(2) blocks by (auto simp: restrict_map_def fun_eq_iff group_indexes_positions)
  then have "m' = []" by (metis map_of_eq_empty_iff)
  moreover have "map (\<lambda>(b, f). \<lparr>ed_block_id = b, ed_filter = f, ed_indexes = the (map_of ?m b)\<rparr>) routes = endpoints_of routes eps"
    unfolding endpoints_of_def using blocks by (intro map_cong refl) (force simp: group_indexes_positions)
  ultimately show ?thesis using m'(1) by simp
qed

lemma endpoints_indexes:
  assumes "distinct (keys routes)" and "set (keys routes) = set (map ep_block eps)"
  shows "distinct (concat (map ed_indexes (endpoints_of routes eps)))"
    and "set (concat (map ed_indexes (endpoints_of routes eps))) = {..<length eps}"
proof -
  have ix: "map ed_indexes (endpoints_of routes eps) = map (\<lambda>b. positions b (map ep_block eps)) (keys routes)"
    by (simp add: endpoints_of_def comp_def case_prod_beta)
  have "distinct (concat (map (\<lambda>b. positions b (map ep_block eps)) ks))" if "distinct ks" for ks
    using that by (induction ks) auto
  then show "distinct (concat (map ed_indexes (endpoints_of routes eps)))" unfolding ix using assms(1) by blast
  have "i \<in> set (concat (map (\<lambda>b. positions b (map ep_block eps)) (keys routes)))" if "i < length eps" for i
  proof -
    have "ep_block (eps ! i) \<in> set (keys routes)" unfolding assms(2) using that by simp
    moreover have "i \<in> set (positions (ep_block (eps ! i)) (map ep_block eps))" using that by simp
    ultimately show ?thesis unfolding set_concat set_map by blast
  qed
  then show "set (concat (map ed_indexes (endpoints_of routes eps))) = {..<length eps}" unfolding ix by auto
qed

section \<open>Which endpoint gets an element\<close>

definition first_route :: "(nat \<times> ('a \<Rightarrow> bool)) list \<Rightarrow> 'a \<Rightarrow> nat option" where
  "first_route routes item = map_option fst (find (\<lambda>(b, f). f item) routes)"

definition route_accepts :: "(nat \<times> ('a \<Rightarrow> bool)) list \<Rightarrow> receiver_endpoint list \<Rightarrow> receiver_endpoint \<Rightarrow> 'a stream_element \<Rightarrow> bool" where
  "route_accepts routes eps ep m =
     (case elem_value m of
        Some item \<Rightarrow> first_route routes item = Some (ep_block ep) \<and> ep = replicas eps ep ! 0
      | None \<Rightarrow> m \<noteq> FlushBatch)"

lemma route_direct_first:
  "route_direct now m item index (endpoints_of routes eps) net senders =
     (case first_route routes item of
        None \<Rightarrow> ret (net, senders)
      | Some b \<Rightarrow> let ps = positions b (map ep_block eps) in
          if index < length ps then for_senders (sender_enqueue now m) [ps ! index] net senders else panic IndexOutOfBounds)"
  by (induction routes) (auto simp: endpoints_of_def first_route_def Let_def)

definition routing_ready :: "(nat \<times> ('a \<Rightarrow> bool)) list \<Rightarrow> receiver_endpoint list \<Rightarrow> ('s, 'a, 'r) routing_end \<Rightarrow> bool" where
  "routing_ready routes eps st \<longleftrightarrow>
     rt_routes st = [] \<and> rt_strategy st = OnlyOne \<and> rt_endpoints st = endpoints_of routes eps"

lemma first_route_position:
  assumes eps: "distinct eps" and j: "j < length eps" and b: "b \<in> set (map ep_block eps)"
  shows "j \<in> set [positions b (map ep_block eps) ! 0] \<longleftrightarrow> b = ep_block (eps ! j) \<and> eps ! j = replicas eps (eps ! j) ! 0"
proof -
  let ?ps = "positions b (map ep_block eps)"
  have ne: "?ps \<noteq> []" using b by (simp add: positions_empty del: set_map)
  then have in_ps: "?ps ! 0 \<in> set ?ps" by (metis length_greater_0_conv nth_mem)
  then have lt: "?ps ! 0 < length eps" and blk: "ep_block (eps ! (?ps ! 0)) = b" by auto
  have rep: "replicas eps (eps ! j) ! 0 = eps ! (?ps ! 0)" if "b = ep_block (eps ! j)"
    using ne unfolding that positions_replicas [symmetric] by (simp add: nth_map)
  show ?thesis
  proof
    assume "j \<in> set [?ps ! 0]"
    then have "j = ?ps ! 0" by simp
    then show "b = ep_block (eps ! j) \<and> eps ! j = replicas eps (eps ! j) ! 0" using blk rep by auto
  next
    assume "b = ep_block (eps ! j) \<and> eps ! j = replicas eps (eps ! j) ! 0"
    then have "eps ! j = eps ! (?ps ! 0)" using rep by simp
    then show "j \<in> set [?ps ! 0]" using eps j lt by (simp add: nth_eq_iff_index_eq)
  qed
qed

lemma routing_end_route_ok:
  assumes routes: "distinct (keys routes)" "set (keys routes) = set (map ep_block eps)" and eps: "distinct eps"
    and ready: "routing_ready routes eps st" and hold: "senders_hold c eps hold (rt_net st) (rt_senders st)"
  shows "\<exists>st'. routing_end_route rng now m st = ret st' \<and> routing_ready routes eps st' \<and> rt_prev st' = rt_prev st
    \<and> senders_hold c eps (\<lambda>ep. hold ep @ (if route_accepts routes eps ep m then [m] else [])) (rt_net st') (rt_senders st')"
proof (cases "elem_value m")
  case None
  note all = endpoints_indexes [OF routes]
  have at: "j \<in> set (concat (map ed_indexes (endpoints_of routes eps))) \<longleftrightarrow> True" if "j < length eps" for j
    using that unfolding all(2) by simp
  obtain net' bs where
    "for_senders (sender_enqueue now m) (concat (map ed_indexes (endpoints_of routes eps))) (rt_net st) (rt_senders st) = ret (net', bs)"
    "senders_hold c eps (\<lambda>ep. hold ep @ (if True then [m] else [])) net' bs"
    using enqueue_senders [OF hold eps all(1) _ at, of now m] unfolding all(2) by auto
  then show ?thesis using None hold ready by (cases "m = FlushBatch") (auto simp: routing_end_route_def routing_ready_def route_accepts_def)
next
  case (Some item)
  show ?thesis
  proof (cases "first_route routes item")
    case None
    then show ?thesis using Some hold ready by (auto simp: routing_end_route_def routing_ready_def route_accepts_def route_direct_first)
  next
    case first: (Some b)
    let ?ps = "positions b (map ep_block eps)"
    have "b \<in> set (keys routes)" using first by (force simp: first_route_def find_Some_iff in_set_conv_nth)
    then have b: "b \<in> set (map ep_block eps)" unfolding routes(2) .
    then have ne: "?ps \<noteq> []" by (simp add: positions_empty del: set_map)
    then have "?ps ! 0 \<in> set ?ps" by (metis length_greater_0_conv nth_mem)
    then have sub: "set [?ps ! 0] \<subseteq> {..<length eps}" by auto
    have at: "j \<in> set [?ps ! 0] \<longleftrightarrow> route_accepts routes eps (eps ! j) m" if "j < length eps" for j
      using first_route_position [OF eps that b] Some first by (simp add: route_accepts_def)
    have "distinct [?ps ! 0]" by simp
    from enqueue_senders [OF hold eps this sub at, of now m] obtain net' bs where
      "for_senders (sender_enqueue now m) [?ps ! 0] (rt_net st) (rt_senders st) = ret (net', bs)"
      "senders_hold c eps (\<lambda>ep. hold ep @ (if route_accepts routes eps ep m then [m] else [])) net' bs" by blast
    then show ?thesis
      using Some first ready ne by (simp add: routing_end_route_def routing_ready_def route_direct_first Let_def)
  qed
qed

definition route_received :: "(nat \<times> ('a \<Rightarrow> bool)) list \<Rightarrow> receiver_endpoint list \<Rightarrow> 'a stream_element list \<Rightarrow> receiver_endpoint
    \<Rightarrow> 'a stream_element list" where
  "route_received routes eps hist ep = filter (route_accepts routes eps ep) hist"

lemma routing_end_next_ok:
  assumes routes: "distinct (keys routes)" "set (keys routes) = set (map ep_block eps)" and eps: "distinct eps"
    and ready: "routing_ready routes eps st" and hold: "senders_hold c eps (route_received routes eps hist) (rt_net st) (rt_senders st)"
    and m: "prev (rt_prev st) = ret (m, s')"
  shows "\<exists>st'. routing_end_next rng now prev st = ret (variant m, st') \<and> routing_ready routes eps st' \<and> rt_prev st' = s'
    \<and> (let hold = route_received routes eps (hist @ [m]) in
        if m = Terminate then senders_ended c eps hold (rt_net st') (rt_senders st')
        else senders_hold c eps hold (rt_net st') (rt_senders st'))"
proof -
  let ?st = "st\<lparr>rt_prev := s'\<rparr>" and ?hold = "route_received routes eps (hist @ [m])"
  have "routing_ready routes eps ?st" using ready by (simp add: routing_ready_def)
  moreover have "senders_hold c eps (route_received routes eps hist) (rt_net ?st) (rt_senders ?st)" using hold by simp
  moreover have "?hold = (\<lambda>ep. route_received routes eps hist ep @ (if route_accepts routes eps ep m then [m] else []))"
    by (simp add: fun_eq_iff route_received_def)
  ultimately obtain st1 where st1: "routing_end_route rng now m ?st = ret st1" "routing_ready routes eps st1" "rt_prev st1 = s'"
    "senders_hold c eps ?hold (rt_net st1) (rt_senders st1)"
    using routing_end_route_ok [OF routes eps, of ?st c "route_received routes eps hist" rng now m] by auto
  from flush_senders_ok [OF st1(4) eps, of now "variant m"] obtain net' senders' where
    fl: "flush_senders now (variant m) (rt_net st1) (rt_senders st1) = ret (net', senders')"
      "if variant m = Terminate then senders_ended c eps ?hold net' senders' else senders_hold c eps ?hold net' senders'" by blast
  moreover have "variant m = Terminate \<longleftrightarrow> m = Terminate" by (cases m) simp_all
  ultimately show ?thesis
    using st1(1-3) m ready by (cases "m = Terminate") (simp_all add: routing_end_next_def routing_ready_def Let_def)
qed

text \<open>The receivers are there, nothing was sent yet, and the routes are the blocks that follow.\<close>

definition routing_fresh :: "coord \<Rightarrow> receiver_endpoint list \<Rightarrow> ('s, 'a, 'r) routing_end \<Rightarrow> bool" where
  "routing_fresh c eps st \<longleftrightarrow>
     distinct eps \<and> 0 < max_size (rt_mode st) \<and> rt_strategy st = OnlyOne \<and> rt_endpoints st = []
   \<and> (\<forall>ep \<in> set eps. nt_open (rt_net st) ep \<and> from_sender (rt_net st) ep c = [])
   \<and> distinct (keys (rt_routes st)) \<and> set (keys (rt_routes st)) = set (map ep_block eps)"

lemma routing_end_setup_ok:
  fixes st :: "('s, 'a, 'r) routing_end"
  assumes fresh: "routing_fresh c eps st"
  shows "\<exists>st'. routing_end_setup now c eps st = ret st' \<and> rt_prev st' = rt_prev st \<and> routing_ready (rt_routes st) (sort eps) st'
    \<and> senders_hold c (sort eps) (\<lambda>_. []) (rt_net st') (rt_senders st')"
proof -
  let ?senders = "sort_key fst (map (\<lambda>ep. (ep, batcher_new now ep (rt_mode st) c)) eps) :: 'a sender list"
  have "map sender_block ?senders = map ep_block (sort eps)" by (rule sorted_sender_blocks)
  moreover have "take_routes (rt_routes st) (group_indexes 0 (map ep_block (sort eps)) []) = ret (endpoints_of (rt_routes st) (sort eps), [])"
    by (rule take_routes_all) (use fresh in \<open>auto simp: routing_fresh_def\<close>)
  moreover have "senders_hold c (sort eps) (\<lambda>_. []) (rt_net st) ?senders"
    using fresh by (intro new_senders_hold) (auto simp: routing_fresh_def)
  ultimately show ?thesis
    using fresh by (simp add: routing_end_setup_def setup_endpoints_def Let_def routing_ready_def routing_fresh_def)
qed


inductive routing_reach :: "('r \<Rightarrow> nat \<times> 'r) \<Rightarrow> ('s, 'a) pull \<Rightarrow> coord \<Rightarrow> int \<Rightarrow> receiver_endpoint list
    \<Rightarrow> ('s, 'a, 'r) routing_end \<Rightarrow> 'a stream_element list \<Rightarrow> bool \<Rightarrow> ('s, 'a, 'r) routing_end \<Rightarrow> bool"
  for rng prev c t0 eps st0 where
  init: "routing_end_setup t0 c eps st0 = ret st \<Longrightarrow> routing_reach rng prev c t0 eps st0 [] False st"
| step: "routing_reach rng prev c t0 eps st0 hist False st \<Longrightarrow> prev (rt_prev st) = ret (m, s')
    \<Longrightarrow> routing_end_next rng now prev st = ret (v, st')
    \<Longrightarrow> routing_reach rng prev c t0 eps st0 (hist @ [m]) (m = Terminate) st'"
| tick: "routing_reach rng prev c t0 eps st0 hist False st \<Longrightarrow> i < length (rt_senders st)
    \<Longrightarrow> for_senders (sender_tick now full) [i] (rt_net st) (rt_senders st) = ret (net, senders)
    \<Longrightarrow> routing_reach rng prev c t0 eps st0 hist False (st\<lparr>rt_net := net, rt_senders := senders\<rparr>)"
| foreign: "routing_reach rng prev c t0 eps st0 hist fin st \<Longrightarrow> nm_sender m \<noteq> c \<Longrightarrow> net_send (rt_net st) ep m = Some net
    \<Longrightarrow> routing_reach rng prev c t0 eps st0 hist fin (st\<lparr>rt_net := net\<rparr>)"

definition routing_invariant :: "coord \<Rightarrow> (nat \<times> ('a \<Rightarrow> bool)) list \<Rightarrow> receiver_endpoint list \<Rightarrow> 'a stream_element list \<Rightarrow> bool
    \<Rightarrow> ('s, 'a, 'r) routing_end \<Rightarrow> bool" where
  "routing_invariant c routes eps hist fin st \<longleftrightarrow>
     routing_ready routes eps st
   \<and> (if fin then senders_ended c eps (route_received routes eps hist) (rt_net st) (rt_senders st)
      else senders_hold c eps (route_received routes eps hist) (rt_net st) (rt_senders st))"

lemma routing_freshD:
  assumes "routing_fresh c eps st0"
  shows "distinct (keys (rt_routes st0))" and "set (keys (rt_routes st0)) = set (map ep_block (sort eps))" and "distinct (sort eps)"
  using assms by (simp_all add: routing_fresh_def)

lemma routing_reach_invariant:
  assumes "routing_reach rng prev c t0 eps st0 hist fin st" and fresh: "routing_fresh c eps st0"
  shows "routing_invariant c (rt_routes st0) (sort eps) hist fin st"
  using assms(1)
proof (induction rule: routing_reach.induct)
  case (init st)
  then show ?case using routing_end_setup_ok [OF fresh, of t0] by (auto simp: routing_invariant_def route_received_def [abs_def])
next
  case (step hist st m s' now v st')
  then show ?case
    using routing_end_next_ok [OF routing_freshD [OF fresh], of st c hist prev m s' rng now]
    by (auto simp: routing_invariant_def Let_def)
next
  case (tick hist st i now full net senders)
  from senders_hold_tick [OF _ routing_freshD(3) [OF fresh] tick(2,3)] tick.IH show ?case
    by (auto simp: routing_invariant_def routing_ready_def)
next
  case (foreign hist fin st m ep net)
  have "delivered net ep' c = delivered (rt_net st) ep' c" for ep'
    using foreign.hyps by (auto simp: net_send_def split: if_splits)
  then show ?case using foreign.IH senders_hold_foreign [OF _ foreign.hyps(2,3)]
    by (cases fin) (auto simp: routing_invariant_def routing_ready_def senders_ended_def)
qed

text \<open>
  C11: a router whose routes are the blocks that follow it always works, and at every moment each
  destination has received, or its sender still holds, exactly the elements whose first accepting filter is
  that of its route, with every watermark and end marker, in order; an element that no filter accepts goes
  nowhere. After \<^verbatim>\<open>Terminate\<close> nothing is left in a buffer.
\<close>

theorem route_first_match:
  assumes "routing_fresh c eps st0"
  shows "(\<exists>st. routing_end_setup t0 c eps st0 = ret st)
    \<and> (routing_reach rng prev c t0 eps st0 hist False st \<longrightarrow>
         map fst (rt_senders st) = sort eps
       \<and> (\<forall>s \<in> set (rt_senders st). delivered (rt_net st) (fst s) c @ bt_buffer (snd s) =
            route_received (rt_routes st0) (sort eps) hist (fst s))
       \<and> (\<forall>m s' now. prev (rt_prev st) = ret (m, s') \<longrightarrow> (\<exists>st'. routing_end_next rng now prev st = ret (variant m, st'))))
    \<and> (routing_reach rng prev c t0 eps st0 hist True st \<longrightarrow>
         rt_senders st = [] \<and> (\<forall>ep \<in> set eps. delivered (rt_net st) ep c = route_received (rt_routes st0) (sort eps) hist ep))"
proof (intro conjI impI)
  show "\<exists>st. routing_end_setup t0 c eps st0 = ret st" using routing_end_setup_ok [OF assms] by blast
next
  assume "routing_reach rng prev c t0 eps st0 hist False st"
  from routing_reach_invariant [OF this assms]
  have inv: "routing_ready (rt_routes st0) (sort eps) st"
    "senders_hold c (sort eps) (route_received (rt_routes st0) (sort eps) hist) (rt_net st) (rt_senders st)"
    by (simp_all add: routing_invariant_def)
  then show "map fst (rt_senders st) = sort eps"
    "\<forall>s \<in> set (rt_senders st). delivered (rt_net st) (fst s) c @ bt_buffer (snd s) = route_received (rt_routes st0) (sort eps) hist (fst s)"
    by (auto simp: senders_hold_def sender_held_def)
  note ok = routing_end_next_ok [where prev = prev, OF routing_freshD [OF assms] inv]
  show "\<forall>m s' now. prev (rt_prev st) = ret (m, s') \<longrightarrow> (\<exists>st'. routing_end_next rng now prev st = ret (variant m, st'))"
    using ok by blast
next
  assume "routing_reach rng prev c t0 eps st0 hist True st"
  from routing_reach_invariant [OF this assms]
  show "rt_senders st = []" "\<forall>ep \<in> set eps. delivered (rt_net st) ep c = route_received (rt_routes st0) (sort eps) hist ep"
    by (simp_all add: routing_invariant_def senders_ended_def)
qed

lemma routing_runs:
  assumes fresh: "routing_fresh c eps st0" and "pulls prev (rt_prev st0) es s" and "Terminate \<notin> set (butlast es)"
  shows "\<exists>st. routing_reach rng prev c t0 eps st0 es (es \<noteq> [] \<and> last es = Terminate) st \<and> rt_prev st = s"
  using assms(2,3)
proof (induction es arbitrary: s rule: rev_induct)
  case Nil
  obtain st where "routing_end_setup t0 c eps st0 = ret st" "rt_prev st = rt_prev st0" using routing_end_setup_ok [OF fresh] by blast
  with Nil show ?case using routing_reach.init by fastforce
next
  case (snoc m es)
  then obtain s1 where s1: "pulls prev (rt_prev st0) es s1" "prev s1 = ret (m, s)" by (auto simp: pulls_append pulls_Cons_iff)
  have "Terminate \<notin> set es" using snoc.prems(2) by simp
  then have "Terminate \<notin> set (butlast es)" "\<not> (es \<noteq> [] \<and> last es = Terminate)" by (auto dest: in_set_butlastD last_in_set)
  with snoc.IH [OF s1(1)] obtain st where st: "routing_reach rng prev c t0 eps st0 es False st" "rt_prev st = s1" by auto
  have m: "prev (rt_prev st) = ret (m, s)" using s1(2) st(2) by simp
  have inv: "routing_ready (rt_routes st0) (sort eps) st"
    "senders_hold c (sort eps) (route_received (rt_routes st0) (sort eps) es) (rt_net st) (rt_senders st)"
    using routing_reach_invariant [OF st(1) fresh] by (simp_all add: routing_invariant_def)
  from routing_end_next_ok [where prev = prev, OF routing_freshD [OF fresh] inv m, of rng 0] obtain st' where
    "routing_end_next rng 0 prev st = ret (variant m, st')" "rt_prev st' = s" by blast
  then show ?case using routing_reach.step [OF st(1) m] by fastforce
qed

theorem route_first_match_witness:
  "\<exists>st. routing_reach (\<lambda>r. (0, r)) fake_next (Coord 0 0 0) 0
      [ReceiverEndpoint (Coord 1 0 0) 0, ReceiverEndpoint (Coord 2 0 0) 0]
      (routing_end_new [Item 3, Item 8, Item 9, Terminate] [(2, \<lambda>n :: nat. n < 5), (1, even)] OnlyOne (Fixed 2) ()
        \<lparr>nt_queue = \<lambda>_. [], nt_open = \<lambda>_. True\<rparr>) [Item 3, Item 8, Item 9, Terminate] True st
    \<and> delivered (rt_net st) (ReceiverEndpoint (Coord 1 0 0) 0) (Coord 0 0 0) = [Item 8, Terminate]
    \<and> delivered (rt_net st) (ReceiverEndpoint (Coord 2 0 0) 0) (Coord 0 0 0) = [Item 3, Terminate]"
proof -
  let ?eps = "[ReceiverEndpoint (Coord 1 0 0) 0, ReceiverEndpoint (Coord 2 0 0) 0]"
  let ?st0 = "routing_end_new [Item 3, Item 8, Item 9, Terminate] [(2, \<lambda>n :: nat. n < 5), (1, even)] OnlyOne (Fixed 2) ()
    \<lparr>nt_queue = \<lambda>_. [], nt_open = \<lambda>_. True\<rparr>"
  have fresh: "routing_fresh (Coord 0 0 0) ?eps ?st0" by (auto simp: routing_fresh_def routing_end_new_def from_sender_def)
  have input: "pulls fake_next (rt_prev ?st0) [Item 3, Item 8, Item 9, Terminate] []"
    using pulls_fake_all by (simp add: routing_end_new_def)
  obtain st where reach: "routing_reach (\<lambda>r. (0, r)) fake_next (Coord 0 0 0) 0 ?eps ?st0 [Item 3, Item 8, Item 9, Terminate] True st"
    using routing_runs [OF fresh input, of "\<lambda>r. (0, r)" 0] by auto
  have sorted: "sort ?eps = ?eps" by (simp add: less_eq_receiver_endpoint_def less_coord_def less_eq_coord_def)
  have routes: "rt_routes ?st0 = [(2, \<lambda>n. n < 5), (1, even)]" by (simp add: routing_end_new_def)
  have "\<forall>ep \<in> set ?eps. delivered (rt_net st) ep (Coord 0 0 0) =
      route_received [(2, \<lambda>n. n < 5), (1, even)] ?eps [Item 3, Item 8, Item 9, Terminate] ep"
    using route_first_match [OF fresh] reach unfolding sorted routes by blast
  then have "delivered (rt_net st) (ReceiverEndpoint (Coord 1 0 0) 0) (Coord 0 0 0) = [Item 8, Terminate]
    \<and> delivered (rt_net st) (ReceiverEndpoint (Coord 2 0 0) 0) (Coord 0 0 0) = [Item 3, Terminate]"
    by (simp add: route_received_def route_accepts_def first_route_def replicas_def)
  with reach show ?thesis by blast
qed

end
