(* ===== verification/Binary_Start.thy ===== *)
theory Binary_Start
  imports Network
begin

text \<open>
  The receivers of \<^verbatim>\<open>Start\<close>: \<^verbatim>\<open>src/operator/start/simple.rs\<close>, from one previous block, and
  \<^verbatim>\<open>src/operator/start/binary.rs\<close>, from two, one of which may be cached. The operations of the channels
  (\<^verbatim>\<open>src/channel.rs\<close> over the \<^verbatim>\<open>flume\<close> crate) are a parameter: a call returns a result and the channel
  it leaves, or does not return.
\<close>

section \<open>Channels\<close>

datatype recv_error = RecvTimeout | RecvDisconnected

type_synonym 'a recv_result = "recv_error + 'a network_message"

record ('q, 'a) receiver_ops =
  rc_recv :: "'q \<Rightarrow> ('a recv_result \<times> 'q) res"
  rc_recv_timeout :: "nat \<Rightarrow> 'q \<Rightarrow> ('a recv_result \<times> 'q) res"

datatype ('l, 'r) select_result = SelectA "'l recv_result" | SelectB "'r recv_result"

record ('q, 'p, 'l, 'r) binary_ops =
  bo_left :: "('q, 'l) receiver_ops"
  bo_right :: "('p, 'r) receiver_ops"
  bo_select :: "'q \<Rightarrow> 'p \<Rightarrow> (('l, 'r) select_result \<times> 'q \<times> 'p) res"
  bo_select_timeout :: "nat \<Rightarrow> 'q \<Rightarrow> 'p \<Rightarrow> ((recv_error + ('l, 'r) select_result) \<times> 'q \<times> 'p) res"

text \<open>
  What the code relies on: a message that is received is the first of those still to come,
  nothing is lost by an error or on the other channel of a \<^verbatim>\<open>select\<close>, and no call panics.
\<close>

definition takes :: "'a recv_result \<Rightarrow> 'a network_message list \<Rightarrow> 'a network_message list \<Rightarrow> bool" where
  "takes r before after = (case r of Inr m \<Rightarrow> before = m # after | Inl _ \<Rightarrow> after = before)"

definition fifo_receiver :: "('q, 'a) receiver_ops \<Rightarrow> ('q \<Rightarrow> 'a network_message list) \<Rightarrow> bool" where
  "fifo_receiver ops pend \<longleftrightarrow>
     (\<forall>q r q'. rc_recv ops q = ret (r, q') \<longrightarrow> takes r (pend q) (pend q'))
   \<and> (\<forall>t q r q'. rc_recv_timeout ops t q = ret (r, q') \<longrightarrow> takes r (pend q) (pend q'))
   \<and> (\<forall>t q e. rc_recv ops q \<noteq> panic e \<and> rc_recv_timeout ops t q \<noteq> panic e)"

definition takes_select :: "('l, 'r) select_result \<Rightarrow> 'l network_message list \<Rightarrow> 'l network_message list
    \<Rightarrow> 'r network_message list \<Rightarrow> 'r network_message list \<Rightarrow> bool" where
  "takes_select r l l' rr rr' =
     (case r of SelectA x \<Rightarrow> takes x l l' \<and> rr' = rr | SelectB x \<Rightarrow> takes x rr rr' \<and> l' = l)"

definition fifo_channels :: "('q, 'p, 'l, 'r) binary_ops \<Rightarrow> ('q \<Rightarrow> 'l network_message list) \<Rightarrow> ('p \<Rightarrow> 'r network_message list) \<Rightarrow> bool" where
  "fifo_channels ops pend_l pend_r \<longleftrightarrow>
     fifo_receiver (bo_left ops) pend_l \<and> fifo_receiver (bo_right ops) pend_r
   \<and> (\<forall>q p r q' p'. bo_select ops q p = ret (r, q', p') \<longrightarrow> takes_select r (pend_l q) (pend_l q') (pend_r p) (pend_r p'))
   \<and> (\<forall>t q p r q' p'. bo_select_timeout ops t q p = ret (r, q', p') \<longrightarrow>
        (case r of Inl _ \<Rightarrow> pend_l q' = pend_l q \<and> pend_r p' = pend_r p
         | Inr s \<Rightarrow> takes_select s (pend_l q) (pend_l q') (pend_r p) (pend_r p')))
   \<and> (\<forall>t q p e. bo_select ops q p \<noteq> panic e \<and> bo_select_timeout ops t q p \<noteq> panic e)"

section \<open>SimpleStartReceiver\<close>

record 'q simple_receiver =
  sr_receiver :: "'q option"
  sr_previous_replicas :: "coord list"
  sr_previous_block_id :: nat

definition simple_new :: "nat \<Rightarrow> 'q simple_receiver" where
  "simple_new block = \<lparr>sr_receiver = None, sr_previous_replicas = [], sr_previous_block_id = block\<rparr>"

text \<open>
  \<^verbatim>\<open>get_receiver\<close> is the topology's; the previous replicas come with the type of their connection, a
  number here, and those of another type belong to another \<^verbatim>\<open>Start\<close>.
\<close>

definition side_replicas :: "(coord \<times> nat) list \<Rightarrow> nat \<Rightarrow> nat \<Rightarrow> coord list" where
  "side_replicas prevs in_type block = [prev. (prev, typ) \<leftarrow> prevs, in_type = typ, block_id prev = block]"

definition simple_setup :: "(receiver_endpoint \<Rightarrow> 'q res) \<Rightarrow> coord \<Rightarrow> (coord \<times> nat) list \<Rightarrow> nat \<Rightarrow> 'q simple_receiver \<Rightarrow> 'q simple_receiver res" where
  "simple_setup get_receiver coord prevs in_type sr =
     bindR (get_receiver (ReceiverEndpoint coord (sr_previous_block_id sr))) (\<lambda>q.
       ret (sr\<lparr>sr_receiver := Some q,
               sr_previous_replicas := sr_previous_replicas sr @ side_replicas prevs in_type (sr_previous_block_id sr)\<rparr>))"

definition simple_recv_timeout :: "('q, 'a) receiver_ops \<Rightarrow> nat \<Rightarrow> 'q simple_receiver \<Rightarrow> ('a recv_result \<times> 'q simple_receiver) res" where
  "simple_recv_timeout ops timeout sr =
     bindR (unwrapR (sr_receiver sr)) (\<lambda>q.
       bindR (rc_recv_timeout ops timeout q) (\<lambda>(r, q). ret (r, sr\<lparr>sr_receiver := Some q\<rparr>)))"

definition simple_recv :: "('q, 'a) receiver_ops \<Rightarrow> 'q simple_receiver \<Rightarrow> ('a network_message \<times> 'q simple_receiver) res" where
  "simple_recv ops sr =
     bindR (unwrapR (sr_receiver sr)) (\<lambda>q.
       bindR (rc_recv ops q) (\<lambda>(r, q).
         case r of Inl _ \<Rightarrow> panic UnwrapNone | Inr m \<Rightarrow> ret (m, sr\<lparr>sr_receiver := Some q\<rparr>)))"

section \<open>One side of a binary receiver\<close>

datatype ('l, 'r) binary_element = BLeft 'l | BRight 'r | LeftEnd | RightEnd

record ('q, 'i) side_receiver =
  sd_receiver :: "'q simple_receiver"
  sd_instances :: nat
  sd_missing_flush_and_restart :: nat
  sd_missing_terminate :: nat
  sd_cached :: bool
  sd_cache :: "'i network_message list"
  sd_cache_full :: bool
  sd_cache_pointer :: nat

definition side_new :: "nat \<Rightarrow> bool \<Rightarrow> ('q, 'i) side_receiver" where
  "side_new block cached =
     \<lparr>sd_receiver = simple_new block, sd_instances = 0, sd_missing_flush_and_restart = 0, sd_missing_terminate = 0,
      sd_cached = cached, sd_cache = [], sd_cache_full = False, sd_cache_pointer = 0\<rparr>"

definition side_setup :: "(receiver_endpoint \<Rightarrow> 'q res) \<Rightarrow> coord \<Rightarrow> (coord \<times> nat) list \<Rightarrow> nat \<Rightarrow> ('q, 'i) side_receiver \<Rightarrow> ('q, 'i) side_receiver res" where
  "side_setup get_receiver coord prevs in_type side =
     bindR (simple_setup get_receiver coord prevs in_type (sd_receiver side)) (\<lambda>sr.
       let n = length (sr_previous_replicas sr)
       in ret (side\<lparr>sd_receiver := sr, sd_instances := n, sd_missing_flush_and_restart := n, sd_missing_terminate := n\<rparr>))"

definition side_recv :: "('q, 'a) receiver_ops \<Rightarrow> nat option \<Rightarrow> ('q, 'i) side_receiver \<Rightarrow> ('a recv_result \<times> ('q, 'i) side_receiver) res" where
  "side_recv ops timeout side =
     (case timeout of
        Some t \<Rightarrow> bindR (simple_recv_timeout ops t (sd_receiver side)) (\<lambda>(r, sr). ret (r, side\<lparr>sd_receiver := sr\<rparr>))
      | None \<Rightarrow> bindR (simple_recv ops (sd_receiver side)) (\<lambda>(m, sr). ret (Inr m, side\<lparr>sd_receiver := sr\<rparr>)))"

definition side_reset :: "('q, 'i) side_receiver \<Rightarrow> ('q, 'i) side_receiver" where
  "side_reset side =
     (let side = side\<lparr>sd_missing_flush_and_restart := sd_instances side\<rparr>
      in if sd_cached side then side\<lparr>sd_cache_full := True, sd_cache_pointer := 0\<rparr> else side)"

definition is_terminated :: "('q, 'i) side_receiver \<Rightarrow> bool" where
  "is_terminated side \<longleftrightarrow> sd_missing_terminate side = 0"

definition is_ended :: "('q, 'i) side_receiver \<Rightarrow> bool" where
  "is_ended side \<longleftrightarrow> (if sd_cached side then is_terminated side else sd_missing_flush_and_restart side = 0)"

definition cache_finished :: "('q, 'i) side_receiver \<Rightarrow> bool" where
  "cache_finished side \<longleftrightarrow> length (sd_cache side) \<le> sd_cache_pointer side"

definition next_cached_item :: "('q, 'i) side_receiver \<Rightarrow> ('i network_message \<times> ('q, 'i) side_receiver) res" where
  "next_cached_item side =
     (let side = side\<lparr>sd_cache_pointer := sd_cache_pointer side + 1\<rparr>;
          side = (if cache_finished side then side\<lparr>sd_missing_flush_and_restart := 0\<rparr> else side)
      in if sd_cache_pointer side - 1 < length (sd_cache side)
         then ret (sd_cache side ! (sd_cache_pointer side - 1), side)
         else panic IndexOutOfBounds)"

text \<open>\<^verbatim>\<open>x -= 1\<close> on a \<^verbatim>\<open>usize\<close>.\<close>

definition dec_usize :: "nat \<Rightarrow> nat res" where
  "dec_usize n = (if n = 0 then panic ArithOverflow else ret (n - 1))"

definition process_item :: "('a \<Rightarrow> 'i) \<Rightarrow> 'i \<Rightarrow> 'a stream_element \<Rightarrow> ('q, 'i) side_receiver
    \<Rightarrow> ('i stream_element list \<times> ('q, 'i) side_receiver) res" where
  "process_item wrap ending item side =
     bindR (if item = FlushAndRestart
            then bindR (dec_usize (sd_missing_flush_and_restart side)) (\<lambda>n.
                   ret (if n = 0 then [Item ending] else [], side\<lparr>sd_missing_flush_and_restart := n\<rparr>))
            else ret ([], side)) (\<lambda>(rs, side).
       bindR (if item = Terminate
              then bindR (dec_usize (sd_missing_terminate side)) (\<lambda>n. ret (side\<lparr>sd_missing_terminate := n\<rparr>))
              else ret side) (\<lambda>side.
         ret (rs @ (if \<not> sd_cached side \<or> item \<noteq> Terminate then [elem_map wrap item] else []), side)))"

fun process_items :: "('a \<Rightarrow> 'i) \<Rightarrow> 'i \<Rightarrow> 'a stream_element list \<Rightarrow> ('q, 'i) side_receiver
    \<Rightarrow> ('i stream_element list \<times> ('q, 'i) side_receiver) res" where
  "process_items wrap ending [] side = ret ([], side)"
| "process_items wrap ending (item # items) side =
     bindR (process_item wrap ending item side) (\<lambda>(rs, side).
       bindR (process_items wrap ending items side) (\<lambda>(rest, side). ret (rs @ rest, side)))"

definition process_side :: "('a \<Rightarrow> 'i) \<Rightarrow> 'i \<Rightarrow> 'a network_message \<Rightarrow> ('q, 'i) side_receiver
    \<Rightarrow> ('i network_message \<times> ('q, 'i) side_receiver) res" where
  "process_side wrap ending message side =
     bindR (process_items wrap ending (nm_data message) side) (\<lambda>(items, side).
       let out = new_batch items (nm_sender message)
       in ret (out, if sd_cached side
                    then side\<lparr>sd_cache := sd_cache side @ [out], sd_cache_pointer := length (sd_cache side) + 1\<rparr>
                    else side))"

section \<open>BinaryStartReceiver\<close>

record ('q, 'p, 'l, 'r) binary_receiver =
  br_left :: "('q, ('l, 'r) binary_element) side_receiver"
  br_right :: "('p, ('l, 'r) binary_element) side_receiver"
  br_first_message :: bool

definition binary_new :: "nat \<Rightarrow> nat \<Rightarrow> bool \<Rightarrow> bool \<Rightarrow> ('q, 'p, 'l, 'r) binary_receiver res" where
  "binary_new left_block right_block left_cache right_cache =
     assertR (\<not> (left_cache \<and> right_cache))
       (ret \<lparr>br_left = side_new left_block left_cache, br_right = side_new right_block right_cache, br_first_message = False\<rparr>)"

definition binary_setup :: "(receiver_endpoint \<Rightarrow> 'q res) \<Rightarrow> (receiver_endpoint \<Rightarrow> 'p res) \<Rightarrow> coord \<Rightarrow> (coord \<times> nat) list \<Rightarrow> nat \<Rightarrow> nat
    \<Rightarrow> ('q, 'p, 'l, 'r) binary_receiver \<Rightarrow> ('q, 'p, 'l, 'r) binary_receiver res" where
  "binary_setup get_left get_right coord prevs type_l type_r br =
     bindR (side_setup get_left coord prevs type_l (br_left br)) (\<lambda>l.
       bindR (side_setup get_right coord prevs type_r (br_right br)) (\<lambda>r.
         ret (br\<lparr>br_left := l, br_right := r\<rparr>)))"

definition binary_prev_replicas :: "('q, 'p, 'l, 'r) binary_receiver \<Rightarrow> coord list" where
  "binary_prev_replicas br = sr_previous_replicas (sd_receiver (br_left br)) @ sr_previous_replicas (sd_receiver (br_right br))"

text \<open>The terminates of a cached side, which were never put in the cache.\<close>

definition num_terminates :: "('q, 'p, 'l, 'r) binary_receiver \<Rightarrow> nat" where
  "num_terminates br =
     (if sd_cached (br_left br) then sd_instances (br_left br)
      else if sd_cached (br_right br) then sd_instances (br_right br) else 0)"

definition binary_restart :: "('q, 'p, 'l, 'r) binary_receiver \<Rightarrow> ('q, 'p, 'l, 'r) binary_receiver" where
  "binary_restart br =
     (if is_ended (br_left br) \<and> is_ended (br_right br) \<and> cache_finished (br_left br) \<and> cache_finished (br_right br)
      then \<lparr>br_left = side_reset (br_left br), br_right = side_reset (br_right br), br_first_message = True\<rparr>
      else br)"

datatype ('l, 'r) from_side = SideLeft "'l recv_result" | SideRight "'r recv_result"

text \<open>Receiving from one side, and from the side that is ready when both may still send.\<close>

definition recv_left :: "('q, 'p, 'l, 'r) binary_ops \<Rightarrow> nat option \<Rightarrow> ('q, 'p, 'l, 'r) binary_receiver
    \<Rightarrow> (('l, 'r) from_side \<times> ('q, 'p, 'l, 'r) binary_receiver) res" where
  "recv_left ops timeout br =
     bindR (side_recv (bo_left ops) timeout (br_left br)) (\<lambda>(r, l). ret (SideLeft r, br\<lparr>br_left := l\<rparr>))"

definition recv_right :: "('q, 'p, 'l, 'r) binary_ops \<Rightarrow> nat option \<Rightarrow> ('q, 'p, 'l, 'r) binary_receiver
    \<Rightarrow> (('l, 'r) from_side \<times> ('q, 'p, 'l, 'r) binary_receiver) res" where
  "recv_right ops timeout br =
     bindR (side_recv (bo_right ops) timeout (br_right br)) (\<lambda>(r, s). ret (SideRight r, br\<lparr>br_right := s\<rparr>))"

definition select_any :: "('q, 'p, 'l, 'r) binary_ops \<Rightarrow> bool \<Rightarrow> bool \<Rightarrow> nat option \<Rightarrow> 'q \<Rightarrow> 'p
    \<Rightarrow> ((recv_error + ('l, 'r) select_result) \<times> 'q \<times> 'p) res" where
  "select_any ops left_terminated right_terminated timeout q p =
     (case (left_terminated, right_terminated, timeout) of
        (False, False, Some t) \<Rightarrow> bo_select_timeout ops t q p
      | (False, False, None) \<Rightarrow> bindR (bo_select ops q p) (\<lambda>(r, q, p). ret (Inr r, q, p))
      | (True, False, Some t) \<Rightarrow> bindR (rc_recv_timeout (bo_right ops) t p) (\<lambda>(r, p).
          ret (case r of Inl e \<Rightarrow> Inl e | Inr m \<Rightarrow> Inr (SelectB (Inr m)), q, p))
      | (False, True, Some t) \<Rightarrow> bindR (rc_recv_timeout (bo_left ops) t q) (\<lambda>(r, q).
          ret (case r of Inl e \<Rightarrow> Inl e | Inr m \<Rightarrow> Inr (SelectA (Inr m)), q, p))
      | (True, False, None) \<Rightarrow> bindR (rc_recv (bo_right ops) p) (\<lambda>(r, p). ret (Inr (SelectB r), q, p))
      | (False, True, None) \<Rightarrow> bindR (rc_recv (bo_left ops) q) (\<lambda>(r, q). ret (Inr (SelectA r), q, p))
      | (True, True, _) \<Rightarrow> ret (Inl RecvDisconnected, q, p))"

fun from_select :: "recv_error + ('l, 'r) select_result \<Rightarrow> ('l, 'r) from_side" where
  "from_select (Inr (SelectA (Inr m))) = SideLeft (Inr m)"
| "from_select (Inr (SelectA (Inl _))) = SideLeft (Inl RecvDisconnected)"
| "from_select (Inr (SelectB (Inr m))) = SideRight (Inr m)"
| "from_select (Inr (SelectB (Inl _))) = SideRight (Inl RecvDisconnected)"
| "from_select (Inl e) = SideLeft (Inl e)"

definition recv_any :: "('q, 'p, 'l, 'r) binary_ops \<Rightarrow> nat option \<Rightarrow> ('q, 'p, 'l, 'r) binary_receiver
    \<Rightarrow> (('l, 'r) from_side \<times> ('q, 'p, 'l, 'r) binary_receiver) res" where
  "recv_any ops timeout br =
     bindR (unwrapR (sr_receiver (sd_receiver (br_left br)))) (\<lambda>q.
     bindR (unwrapR (sr_receiver (sd_receiver (br_right br)))) (\<lambda>p.
     bindR (select_any ops (is_terminated (br_left br)) (is_terminated (br_right br)) timeout q p) (\<lambda>(r, q, p).
       ret (from_select r,
            br\<lparr>br_left := br_left br\<lparr>sd_receiver := (sd_receiver (br_left br))\<lparr>sr_receiver := Some q\<rparr>\<rparr>,
               br_right := br_right br\<lparr>sd_receiver := (sd_receiver (br_right br))\<lparr>sr_receiver := Some p\<rparr>\<rparr>\<rparr>))))"

text \<open>Wrapping what was received in the variants of its side.\<close>

definition binary_process :: "('l, 'r) from_side \<Rightarrow> ('q, 'p, 'l, 'r) binary_receiver
    \<Rightarrow> (('l, 'r) binary_element recv_result \<times> ('q, 'p, 'l, 'r) binary_receiver) res" where
  "binary_process data br =
     (case data of
        SideLeft (Inr m) \<Rightarrow> bindR (process_side BLeft LeftEnd m (br_left br)) (\<lambda>(out, l). ret (Inr out, br\<lparr>br_left := l\<rparr>))
      | SideRight (Inr m) \<Rightarrow> bindR (process_side BRight RightEnd m (br_right br)) (\<lambda>(out, r). ret (Inr out, br\<lparr>br_right := r\<rparr>))
      | SideLeft (Inl e) \<Rightarrow> ret (Inl e, br)
      | SideRight (Inl e) \<Rightarrow> ret (Inl e, br))"

definition cache_ready :: "('q, 'i) side_receiver \<Rightarrow> bool" where
  "cache_ready side \<longleftrightarrow> sd_cached side \<and> sd_cache_full side \<and> \<not> cache_finished side"

definition binary_select :: "('q, 'p, 'l, 'r) binary_ops \<Rightarrow> nat option \<Rightarrow> ('q, 'p, 'l, 'r) binary_receiver
    \<Rightarrow> (('l, 'r) binary_element recv_result \<times> ('q, 'p, 'l, 'r) binary_receiver) res" where
  "binary_select ops timeout br =
     (if is_terminated (br_left br) \<and> is_terminated (br_right br) \<and> 0 < num_terminates br
      then ret (Inr (new_batch (replicate (num_terminates br) Terminate) default_coord), br)
      else
        let br = binary_restart br in
        if br_first_message br \<and> (sd_cached (br_left br) \<or> sd_cached (br_right br)) then
          assertR (sd_cached (br_left br) \<longrightarrow> sd_cache_full (br_left br))
          (assertR (sd_cached (br_right br) \<longrightarrow> sd_cache_full (br_right br))
            (let br = br\<lparr>br_first_message := False\<rparr> in
             bindR (if sd_cached (br_left br) then recv_right ops timeout br else recv_left ops timeout br)
               (\<lambda>(data, br). binary_process data br)))
        else if cache_ready (br_left br) then
          bindR (next_cached_item (br_left br)) (\<lambda>(m, l). ret (Inr m, br\<lparr>br_left := l\<rparr>))
        else if cache_ready (br_right br) then
          bindR (next_cached_item (br_right br)) (\<lambda>(m, r). ret (Inr m, br\<lparr>br_right := r\<rparr>))
        else
          bindR (if is_ended (br_left br) then recv_right ops timeout br
                 else if is_ended (br_right br) then recv_left ops timeout br
                 else recv_any ops timeout br)
            (\<lambda>(data, br). binary_process data br))"

definition binary_recv_timeout :: "('q, 'p, 'l, 'r) binary_ops \<Rightarrow> nat \<Rightarrow> ('q, 'p, 'l, 'r) binary_receiver
    \<Rightarrow> (('l, 'r) binary_element network_message option \<times> ('q, 'p, 'l, 'r) binary_receiver) res" where
  "binary_recv_timeout ops t br =
     bindR (binary_select ops (Some t) br) (\<lambda>(r, br). ret (case r of Inl _ \<Rightarrow> None | Inr m \<Rightarrow> Some m, br))"

definition binary_recv :: "('q, 'p, 'l, 'r) binary_ops \<Rightarrow> ('q, 'p, 'l, 'r) binary_receiver
    \<Rightarrow> (('l, 'r) binary_element network_message \<times> ('q, 'p, 'l, 'r) binary_receiver) res" where
  "binary_recv ops br =
     bindR (binary_select ops None br) (\<lambda>(r, br). case r of Inl _ \<Rightarrow> panic UnwrapNone | Inr m \<Rightarrow> ret (m, br))"

section \<open>The iterations of the two sides\<close>

text \<open>What was read, in order, from the left (\<open>Inl\<close>) and from the right (\<open>Inr\<close>).\<close>

type_synonym ('l, 'r) reading = "('l network_message + 'r network_message) list"

definition lefts :: "('l, 'r) reading \<Rightarrow> 'l network_message list" where
  "lefts tr = concat (map (\<lambda>x. case x of Inl m \<Rightarrow> [m] | Inr _ \<Rightarrow> []) tr)"

definition rights :: "('l, 'r) reading \<Rightarrow> 'r network_message list" where
  "rights tr = concat (map (\<lambda>x. case x of Inl _ \<Rightarrow> [] | Inr m \<Rightarrow> [m]) tr)"

definition markers :: "'a stream_element \<Rightarrow> 'a network_message list \<Rightarrow> nat" where
  "markers e ms = count_list (concat (map nm_data ms)) e"

abbreviation fars :: "'a network_message list \<Rightarrow> nat" where
  "fars \<equiv> markers FlushAndRestart"

abbreviation terms :: "'a network_message list \<Rightarrow> nat" where
  "terms \<equiv> markers Terminate"

lemma reading_simps [simp]:
  "lefts [] = []" "lefts (tr @ tr') = lefts tr @ lefts tr'" "lefts [Inl m] = [m]" "lefts [Inr m'] = []"
  "rights [] = []" "rights (tr @ tr') = rights tr @ rights tr'" "rights [Inl m] = []" "rights [Inr m'] = [m']"
  by (simp_all add: lefts_def rights_def)

lemma markers_simps [simp]:
  "markers e [] = 0" "markers e (ms @ ms') = markers e ms + markers e ms'"
  "markers e [m] = count_list (nm_data m) e" "markers e (m # ms) = count_list (nm_data m) e + markers e ms"
  by (simp_all add: markers_def)

text \<open>
  A side that has ended the iteration is not read until the other has ended it too; an iteration is
  complete when all the replicas of both sides have ended it.
\<close>

fun disciplined :: "nat \<Rightarrow> nat \<Rightarrow> ('l, 'r) reading \<Rightarrow> bool" where
  "disciplined nl nr [] \<longleftrightarrow> True"
| "disciplined nl nr (Inl m # tr) \<longleftrightarrow> 0 < nl \<and> disciplined (nl - fars [m]) nr tr"
| "disciplined nl nr (Inr m # tr) \<longleftrightarrow> 0 < nr \<and> disciplined nl (nr - fars [m]) tr"

definition complete_iteration :: "nat \<Rightarrow> nat \<Rightarrow> ('l, 'r) reading \<Rightarrow> bool" where
  "complete_iteration nl nr tr \<longleftrightarrow> fars (lefts tr) = nl \<and> fars (rights tr) = nr \<and> disciplined nl nr tr"

text \<open>The elements of a batch, wrapped, with the end of the side before its last \<^verbatim>\<open>FlushAndRestart\<close>.\<close>

fun mark_end :: "nat \<Rightarrow> ('a \<Rightarrow> 'i) \<Rightarrow> 'i \<Rightarrow> 'a stream_element list \<Rightarrow> 'i stream_element list" where
  "mark_end n wrap ending [] = []"
| "mark_end n wrap ending (e # es) =
     (if e = FlushAndRestart then (if n = 1 then [Item ending] else []) @ FlushAndRestart # mark_end (n - 1) wrap ending es
      else elem_map wrap e # mark_end n wrap ending es)"

fun iteration_out :: "nat \<Rightarrow> nat \<Rightarrow> ('l, 'r) reading \<Rightarrow> ('l, 'r) binary_element network_message list" where
  "iteration_out nl nr [] = []"
| "iteration_out nl nr (Inl m # tr) =
     new_batch (mark_end nl BLeft LeftEnd (nm_data m)) (nm_sender m) # iteration_out (nl - fars [m]) nr tr"
| "iteration_out nl nr (Inr m # tr) =
     new_batch (mark_end nr BRight RightEnd (nm_data m)) (nm_sender m) # iteration_out nl (nr - fars [m]) tr"

lemma iteration_out_snoc:
  "iteration_out nl nr (tr @ [Inl m]) = iteration_out nl nr tr @
     [new_batch (mark_end (nl - fars (lefts tr)) BLeft LeftEnd (nm_data m)) (nm_sender m)]"
  "iteration_out nl nr (tr @ [Inr m']) = iteration_out nl nr tr @
     [new_batch (mark_end (nr - fars (rights tr)) BRight RightEnd (nm_data m')) (nm_sender m')]"
  by (induction nl nr tr rule: iteration_out.induct) (simp_all add: lefts_def rights_def diff_diff_left)

lemma disciplined_snoc:
  "disciplined nl nr (tr @ [Inl m]) \<longleftrightarrow> disciplined nl nr tr \<and> fars (lefts tr) < nl"
  "disciplined nl nr (tr @ [Inr m']) \<longleftrightarrow> disciplined nl nr tr \<and> fars (rights tr) < nr"
  by (induction nl nr tr rule: disciplined.induct) (auto simp: lefts_def rights_def)

lemma process_items_uncached:
  assumes "\<not> sd_cached side" and "count_list items FlushAndRestart \<le> sd_missing_flush_and_restart side"
    and "count_list items Terminate \<le> sd_missing_terminate side"
  shows "process_items wrap ending items side =
    ret (mark_end (sd_missing_flush_and_restart side) wrap ending items,
         side\<lparr>sd_missing_flush_and_restart := sd_missing_flush_and_restart side - count_list items FlushAndRestart,
              sd_missing_terminate := sd_missing_terminate side - count_list items Terminate\<rparr>)"
  using assms
proof (induction items arbitrary: side)
  case (Cons e items)
  let ?s = "side\<lparr>sd_missing_flush_and_restart := sd_missing_flush_and_restart side - count_list [e] FlushAndRestart,
      sd_missing_terminate := sd_missing_terminate side - count_list [e] Terminate\<rparr>"
  have "process_item wrap ending e side =
      ret ((if e = FlushAndRestart \<and> sd_missing_flush_and_restart side = 1 then [Item ending] else []) @ [elem_map wrap e], ?s)"
    using Cons.prems by (auto simp: process_item_def dec_usize_def)
  moreover have "process_items wrap ending items ?s =
      ret (mark_end (sd_missing_flush_and_restart ?s) wrap ending items,
         ?s\<lparr>sd_missing_flush_and_restart := sd_missing_flush_and_restart ?s - count_list items FlushAndRestart,
            sd_missing_terminate := sd_missing_terminate ?s - count_list items Terminate\<rparr>)"
    by (rule Cons.IH) (use Cons.prems in \<open>auto split: if_splits\<close>)
  ultimately show ?case by (auto simp: diff_diff_left)
qed simp

section \<open>The two sides are read iteration by iteration\<close>

definition pending :: "('q \<Rightarrow> 'a network_message list) \<Rightarrow> ('q, 'i) side_receiver \<Rightarrow> 'a network_message list" where
  "pending pend side = pend (the (sr_receiver (sd_receiver side)))"

text \<open>The state of a side that is not cached and has read \<open>seen\<close> in all and \<open>now\<close> in this iteration.\<close>

definition side_counts :: "nat \<Rightarrow> 'a network_message list \<Rightarrow> 'a network_message list \<Rightarrow> ('q, 'i) side_receiver \<Rightarrow> bool" where
  "side_counts n seen current side \<longleftrightarrow>
     \<not> sd_cached side \<and> sd_cache side = [] \<and> sd_instances side = n
   \<and> sd_missing_terminate side = n - terms seen
   \<and> fars current \<le> n \<and> sd_missing_flush_and_restart side = n - fars current"

definition side_at :: "nat \<Rightarrow> ('q \<Rightarrow> 'a network_message list) \<Rightarrow> 'a network_message list \<Rightarrow> 'a network_message list
    \<Rightarrow> 'a network_message list \<Rightarrow> ('q, 'i) side_receiver \<Rightarrow> bool" where
  "side_at n pend content seen current side \<longleftrightarrow>
     side_counts n seen current side \<and> sr_receiver (sd_receiver side) \<noteq> None \<and> seen @ pending pend side = content"

text \<open>The messages of a side: no batch has two end markers, no replica terminates twice.\<close>

definition content_ok :: "nat \<Rightarrow> 'a network_message list \<Rightarrow> bool" where
  "content_ok n content \<longleftrightarrow> 0 < n \<and> (\<forall>m \<in> set content. fars [m] \<le> 1) \<and> terms content \<le> n"

lemma process_side_ok:
  assumes side: "side_counts n seen current side" and ok: "content_ok n (seen @ m # rest)" and open_side: "\<not> is_ended side"
  shows "\<exists>side'. process_side wrap ending m side = ret (new_batch (mark_end (n - fars current) wrap ending (nm_data m)) (nm_sender m), side')
    \<and> sd_receiver side' = sd_receiver side \<and> side_counts n (seen @ [m]) (current @ [m]) side'"
proof -
  have "fars current < n" using side open_side by (auto simp: side_counts_def is_ended_def)
  moreover have "fars [m] \<le> 1" using ok by (simp add: content_ok_def)
  ultimately have far: "count_list (nm_data m) FlushAndRestart \<le> n - fars current" "fars (current @ [m]) \<le> n" by auto
  have "terms seen + count_list (nm_data m) Terminate \<le> n" using ok by (simp add: content_ok_def)
  then have trm: "count_list (nm_data m) Terminate \<le> n - terms seen" by linarith
  have "process_items wrap ending (nm_data m) side = ret (mark_end (n - fars current) wrap ending (nm_data m),
      side\<lparr>sd_missing_flush_and_restart := n - fars current - fars [m], sd_missing_terminate := n - terms seen - terms [m]\<rparr>)"
    using process_items_uncached [of side "nm_data m" wrap ending] side far trm by (simp add: side_counts_def)
  then show ?thesis using side far(2) by (auto simp: process_side_def side_counts_def diff_diff_left)
qed

lemma side_counts_channel [simp]: "side_counts n seen current (side\<lparr>sd_receiver := r\<rparr>) = side_counts n seen current side"
  "is_ended (side\<lparr>sd_receiver := r\<rparr>) = is_ended side"
  by (simp_all add: side_counts_def is_ended_def is_terminated_def)

text \<open>Receiving changes the channels only.\<close>

definition with_channels :: "('q, 'p, 'l, 'r) binary_receiver \<Rightarrow> 'q \<Rightarrow> 'p \<Rightarrow> ('q, 'p, 'l, 'r) binary_receiver" where
  "with_channels br q p =
     br\<lparr>br_left := br_left br\<lparr>sd_receiver := (sd_receiver (br_left br))\<lparr>sr_receiver := Some q\<rparr>\<rparr>,
        br_right := br_right br\<lparr>sd_receiver := (sd_receiver (br_right br))\<lparr>sr_receiver := Some p\<rparr>\<rparr>\<rparr>"

definition reads_side :: "('l, 'r) from_side \<Rightarrow> 'l network_message list \<Rightarrow> 'l network_message list
    \<Rightarrow> 'r network_message list \<Rightarrow> 'r network_message list \<Rightarrow> bool" where
  "reads_side data l l' r r' =
     (case data of SideLeft x \<Rightarrow> takes x l l' \<and> r' = r | SideRight x \<Rightarrow> takes x r r' \<and> l' = l)"

text \<open>A call that waits: it may not return, and without a timeout it panics if the channel is gone.\<close>

definition waits :: "nat option \<Rightarrow> 'a res \<Rightarrow> ('a \<Rightarrow> bool) \<Rightarrow> bool" where
  "waits timeout call P = (case call of None \<Rightarrow> True | Some (Inl e) \<Rightarrow> timeout = None \<and> e = UnwrapNone | Some (Inr x) \<Rightarrow> P x)"

lemma waits_bind:
  assumes "waits timeout m P" and "\<And>x. P x \<Longrightarrow> waits timeout (f x) Q"
  shows "waits timeout (bindR m f) Q"
proof (cases m)
  case (Some r)
  with assms show ?thesis by (cases r) (simp_all add: waits_def)
qed (simp add: waits_def)

lemma waits_ret [simp]: "waits timeout (ret x) P = P x"
  by (simp add: waits_def)

lemma with_channels_same:
  "sr_receiver (sd_receiver (br_left br)) = Some q \<Longrightarrow> br_left (with_channels br q p) = br_left br"
  "sr_receiver (sd_receiver (br_right br)) = Some p \<Longrightarrow> br_right (with_channels br q p) = br_right br"
  by (cases "br_left br"; cases "sd_receiver (br_left br)"; simp add: with_channels_def)
    (cases "br_right br"; cases "sd_receiver (br_right br)"; simp add: with_channels_def)

lemma side_recv_waits:
  assumes "fifo_receiver ops pend" and "sr_receiver (sd_receiver side) = Some q"
  shows "waits timeout (side_recv ops timeout side) (\<lambda>(r, side'). \<exists>q'.
    side' = side\<lparr>sd_receiver := (sd_receiver side)\<lparr>sr_receiver := Some q'\<rparr>\<rparr> \<and> takes r (pend q) (pend q'))"
  using assms unfolding fifo_receiver_def side_recv_def simple_recv_def simple_recv_timeout_def waits_def
  by (auto simp: bindR_def split: option.splits sum.splits)

lemma recv_left_waits:
  assumes ops: "fifo_channels ops pl pr" and q: "sr_receiver (sd_receiver (br_left br)) = Some q"
    and p: "sr_receiver (sd_receiver (br_right br)) = Some p"
  shows "waits timeout (recv_left ops timeout br) (\<lambda>(data, br'). \<exists>r q'.
    data = SideLeft r \<and> br' = with_channels br q' p \<and> takes r (pl q) (pl q'))"
proof -
  have same: "br_right br\<lparr>sd_receiver := (sd_receiver (br_right br))\<lparr>sr_receiver := Some p\<rparr>\<rparr> = br_right br"
    using p by (cases "br_right br"; cases "sd_receiver (br_right br)") simp
  have "fifo_receiver (bo_left ops) pl" using ops by (simp add: fifo_channels_def)
  from side_recv_waits [OF this q] show ?thesis
    unfolding recv_left_def by (rule waits_bind) (auto simp: with_channels_def same)
qed

lemma recv_right_waits:
  assumes ops: "fifo_channels ops pl pr" and q: "sr_receiver (sd_receiver (br_left br)) = Some q"
    and p: "sr_receiver (sd_receiver (br_right br)) = Some p"
  shows "waits timeout (recv_right ops timeout br) (\<lambda>(data, br'). \<exists>r p'.
    data = SideRight r \<and> br' = with_channels br q p' \<and> takes r (pr p) (pr p'))"
proof -
  have same: "br_left br\<lparr>sd_receiver := (sd_receiver (br_left br))\<lparr>sr_receiver := Some q\<rparr>\<rparr> = br_left br"
    using q by (cases "br_left br"; cases "sd_receiver (br_left br)") simp
  have "fifo_receiver (bo_right ops) pr" using ops by (simp add: fifo_channels_def)
  from side_recv_waits [OF this p] show ?thesis
    unfolding recv_right_def by (rule waits_bind) (auto simp: with_channels_def same)
qed

lemma fifo_waits:
  assumes "fifo_receiver ops pend"
  shows "waits timeout (rc_recv ops q) (\<lambda>(r, q'). takes r (pend q) (pend q'))"
    and "waits timeout (rc_recv_timeout ops t q) (\<lambda>(r, q'). takes r (pend q) (pend q'))"
  using assms unfolding fifo_receiver_def waits_def by (auto split: option.split sum.split)

lemma fifo_select_waits:
  assumes "fifo_channels ops pl pr"
  shows "waits timeout (bo_select ops q p) (\<lambda>(r, q', p'). takes_select r (pl q) (pl q') (pr p) (pr p'))"
    and "waits timeout (bo_select_timeout ops t q p) (\<lambda>(r, q', p').
      case r of Inl _ \<Rightarrow> pl q' = pl q \<and> pr p' = pr p | Inr s \<Rightarrow> takes_select s (pl q) (pl q') (pr p) (pr p'))"
  using assms unfolding fifo_channels_def waits_def by (auto split: option.split sum.split)

lemma select_any_waits:
  assumes ops: "fifo_channels ops pl pr"
  shows "waits timeout (select_any ops lt rt timeout q p) (\<lambda>(r, q', p').
    case r of Inl _ \<Rightarrow> pl q' = pl q \<and> pr p' = pr p | Inr s \<Rightarrow> takes_select s (pl q) (pl q') (pr p) (pr p'))"
proof -
  note l = fifo_waits [of "bo_left ops" pl] and r = fifo_waits [of "bo_right ops" pr] and s = fifo_select_waits [OF ops]
  have fifo: "fifo_receiver (bo_left ops) pl" "fifo_receiver (bo_right ops) pr" using ops by (simp_all add: fifo_channels_def)
  show ?thesis
  proof (cases lt)
    case True
    then show ?thesis
      by (cases rt; cases timeout)
        (auto simp: select_any_def takes_select_def takes_def intro!: waits_bind [OF r(1) [OF fifo(2)]] waits_bind [OF r(2) [OF fifo(2)]]
          split: sum.split)
  next
    case False
    show ?thesis
    proof (cases "\<not> rt \<and> timeout \<noteq> None")
      case True
      with False s(2) show ?thesis by (auto simp: select_any_def)
    next
      case False
      with \<open>\<not> lt\<close> show ?thesis
      by (cases rt; cases timeout)
        (auto simp: select_any_def takes_select_def takes_def intro!: waits_bind [OF s(1)] waits_bind [OF l(1) [OF fifo(1)]] waits_bind [OF l(2) [OF fifo(1)]]
          split: sum.split)
    qed
  qed
qed

lemma from_select_reads:
  "(case r of Inl _ \<Rightarrow> l' = l \<and> rr' = rr | Inr s \<Rightarrow> takes_select s l l' rr rr') \<Longrightarrow> reads_side (from_select r) l l' rr rr'"
  by (cases r rule: from_select.cases) (simp_all add: reads_side_def takes_select_def takes_def)

lemma recv_any_waits:
  assumes ops: "fifo_channels ops pl pr" and q: "sr_receiver (sd_receiver (br_left br)) = Some q"
    and p: "sr_receiver (sd_receiver (br_right br)) = Some p"
  shows "waits timeout (recv_any ops timeout br) (\<lambda>(data, br'). \<exists>q' p'.
    br' = with_channels br q' p' \<and> reads_side data (pl q) (pl q') (pr p) (pr p'))"
proof -
  note select_any_waits [OF ops]
  then have "waits timeout (select_any ops (is_terminated (br_left br)) (is_terminated (br_right br)) timeout q p) (\<lambda>(r, q', p').
      case r of Inl _ \<Rightarrow> pl q' = pl q \<and> pr p' = pr p | Inr s \<Rightarrow> takes_select s (pl q) (pl q') (pr p) (pr p'))" .
  then show ?thesis
    unfolding recv_any_def with_channels_def [symmetric] q p unwrapR_simps bindR_simps
    by (rule waits_bind) (auto intro!: exI dest: from_select_reads)
qed

definition binary_at :: "('q \<Rightarrow> 'l network_message list) \<Rightarrow> ('p \<Rightarrow> 'r network_message list) \<Rightarrow> nat \<Rightarrow> nat
    \<Rightarrow> 'l network_message list \<Rightarrow> 'r network_message list \<Rightarrow> ('l, 'r) reading list \<Rightarrow> ('l, 'r) reading
    \<Rightarrow> ('q, 'p, 'l, 'r) binary_receiver \<Rightarrow> bool" where
  "binary_at pl pr nl nr cl cr its part br \<longleftrightarrow>
     side_at nl pl cl (lefts (concat its @ part)) (lefts part) (br_left br)
   \<and> side_at nr pr cr (rights (concat its @ part)) (rights part) (br_right br)
   \<and> (\<forall>it \<in> set its. complete_iteration nl nr it) \<and> disciplined nl nr part"

definition binary_out :: "nat \<Rightarrow> nat \<Rightarrow> ('l, 'r) reading list \<Rightarrow> ('l, 'r) reading \<Rightarrow> ('l, 'r) binary_element network_message list" where
  "binary_out nl nr its part = concat (map (iteration_out nl nr) its) @ iteration_out nl nr part"

lemma binary_restart_at:
  assumes br: "binary_at pl pr nl nr cl cr its part br" and n: "0 < nl" "0 < nr"
  shows "\<exists>its' part'. binary_at pl pr nl nr cl cr its' part' (binary_restart br) \<and> concat its' @ part' = concat its @ part
    \<and> binary_out nl nr its' part' = binary_out nl nr its part
    \<and> \<not> (is_ended (br_left (binary_restart br)) \<and> is_ended (br_right (binary_restart br)))"
proof (cases "is_ended (br_left br) \<and> is_ended (br_right br)")
  case False
  then have "binary_restart br = br" by (auto simp: binary_restart_def)
  with br False show ?thesis by auto
next
  case True
  have sides: "side_at nl pl cl (lefts (concat its @ part)) (lefts part) (br_left br)"
    "side_at nr pr cr (rights (concat its @ part)) (rights part) (br_right br)"
    and its: "\<forall>it \<in> set its. complete_iteration nl nr it" "disciplined nl nr part" using br by (simp_all add: binary_at_def)
  then have part: "complete_iteration nl nr part" using True by (auto simp: side_at_def side_counts_def is_ended_def complete_iteration_def)
  have restart: "binary_restart br = \<lparr>br_left = side_reset (br_left br), br_right = side_reset (br_right br), br_first_message = True\<rparr>"
    using True sides by (simp add: binary_restart_def cache_finished_def side_at_def side_counts_def)
  have reset: "side_at n pend c seen [] (side_reset s)" "\<not> is_ended (side_reset s)"
    if "side_at n pend c seen cur s" "0 < n" for n seen cur and pend :: "'x \<Rightarrow> 'y network_message list" and c and s :: "('x, 'z) side_receiver"
    using that by (auto simp: side_at_def side_counts_def side_reset_def is_ended_def pending_def)
  have "binary_at pl pr nl nr cl cr (its @ [part]) [] (binary_restart br)"
    unfolding restart binary_at_def using its part reset(1) [OF sides(1) n(1)] reset(1) [OF sides(2) n(2)] by simp
  moreover have "\<not> is_ended (br_left (binary_restart br))" unfolding restart using reset(2) [OF sides(1) n(1)] by simp
  ultimately show ?thesis by (intro exI [of _ "its @ [part]"] exI [of _ "[]"]) (simp add: binary_out_def)
qed

text \<open>Processing what was read from a side that had not ended.\<close>

lemma side_process:
  assumes side: "side_at n pend c seen current side" and ok: "content_ok n c" and "\<not> is_ended side"
    and q: "sr_receiver (sd_receiver side) = Some q" and m: "pend q = m # pend q'"
  shows "\<exists>side'. process_side wrap ending m (side\<lparr>sd_receiver := (sd_receiver side)\<lparr>sr_receiver := Some q'\<rparr>\<rparr>) =
      ret (new_batch (mark_end (n - fars current) wrap ending (nm_data m)) (nm_sender m), side')
    \<and> side_at n pend c (seen @ [m]) (current @ [m]) side'"
proof -
  have c: "c = seen @ m # pend q'" using side q m by (simp add: side_at_def pending_def)
  have "side_counts n seen current (side\<lparr>sd_receiver := (sd_receiver side)\<lparr>sr_receiver := Some q'\<rparr>\<rparr>)"
    using side by (simp add: side_at_def)
  from process_side_ok [OF this ok [unfolded c]] assms(3) obtain side' where
    "process_side wrap ending m (side\<lparr>sd_receiver := (sd_receiver side)\<lparr>sr_receiver := Some q'\<rparr>\<rparr>) =
      ret (new_batch (mark_end (n - fars current) wrap ending (nm_data m)) (nm_sender m), side')"
    "sd_receiver side' = (sd_receiver side)\<lparr>sr_receiver := Some q'\<rparr>" "side_counts n (seen @ [m]) (current @ [m]) side'" by fastforce
  then show ?thesis using c by (simp add: side_at_def pending_def)
qed

lemma binary_process_left:
  assumes br: "binary_at pl pr nl nr cl cr its part br" and ok: "content_ok nl cl" and no_end: "\<not> is_ended (br_left br)"
    and q: "sr_receiver (sd_receiver (br_left br)) = Some q" and p: "sr_receiver (sd_receiver (br_right br)) = Some p"
    and m: "pl q = m # pl q'"
  shows "\<exists>out br'. binary_process (SideLeft (Inr m)) (with_channels br q' p) = ret (Inr out, br')
    \<and> binary_at pl pr nl nr cl cr its (part @ [Inl m]) br' \<and> binary_out nl nr its (part @ [Inl m]) = binary_out nl nr its part @ [out]"
proof -
  have left: "side_at nl pl cl (lefts (concat its @ part)) (lefts part) (br_left br)" using br by (simp add: binary_at_def)
  then have "fars (lefts part) < nl" using no_end by (auto simp: side_at_def side_counts_def is_ended_def)
  moreover have "br_right (with_channels br q' p) = br_right br" using p by (rule with_channels_same)
  ultimately show ?thesis
    using side_process [OF left ok no_end q m, of BLeft LeftEnd] br
    by (auto simp: binary_process_def with_channels_def binary_at_def binary_out_def iteration_out_snoc disciplined_snoc)
qed

lemma binary_process_right:
  assumes br: "binary_at pl pr nl nr cl cr its part br" and ok: "content_ok nr cr" and no_end: "\<not> is_ended (br_right br)"
    and q: "sr_receiver (sd_receiver (br_left br)) = Some q" and p: "sr_receiver (sd_receiver (br_right br)) = Some p"
    and m: "pr p = m # pr p'"
  shows "\<exists>out br'. binary_process (SideRight (Inr m)) (with_channels br q p') = ret (Inr out, br')
    \<and> binary_at pl pr nl nr cl cr its (part @ [Inr m]) br' \<and> binary_out nl nr its (part @ [Inr m]) = binary_out nl nr its part @ [out]"
proof -
  have right: "side_at nr pr cr (rights (concat its @ part)) (rights part) (br_right br)" using br by (simp add: binary_at_def)
  then have "fars (rights part) < nr" using no_end by (auto simp: side_at_def side_counts_def is_ended_def)
  moreover have "br_left (with_channels br q p') = br_left br" using q by (rule with_channels_same)
  ultimately show ?thesis
    using side_process [OF right ok no_end p m, of BRight RightEnd] br
    by (auto simp: binary_process_def with_channels_def binary_at_def binary_out_def iteration_out_snoc disciplined_snoc)
qed

lemma with_channels_simps [simp]:
  "with_channels (with_channels br q p) q' p' = with_channels br q' p'"
  "sr_receiver (sd_receiver (br_left (with_channels br q p))) = Some q"
  "sr_receiver (sd_receiver (br_right (with_channels br q p))) = Some p"
  "is_ended (br_left (with_channels br q p)) = is_ended (br_left br)"
  "is_ended (br_right (with_channels br q p)) = is_ended (br_right br)"
  by (simp_all add: with_channels_def)

lemma binary_at_channels:
  assumes "binary_at pl pr nl nr cl cr its part br"
    and "sr_receiver (sd_receiver (br_left br)) = Some q" and "sr_receiver (sd_receiver (br_right br)) = Some p"
    and "pl q' = pl q" and "pr p' = pr p"
  shows "binary_at pl pr nl nr cl cr its part (with_channels br q' p')"
  using assms by (simp add: binary_at_def side_at_def pending_def with_channels_def)

lemma binary_process_step:
  assumes br: "binary_at pl pr nl nr cl cr its part br" and ok: "content_ok nl cl" "content_ok nr cr"
    and q: "sr_receiver (sd_receiver (br_left br)) = Some q" and p: "sr_receiver (sd_receiver (br_right br)) = Some p"
    and reads: "reads_side data (pl q) (pl q') (pr p) (pr p')"
    and side: "case data of SideLeft _ \<Rightarrow> \<not> is_ended (br_left br) | SideRight _ \<Rightarrow> \<not> is_ended (br_right br)"
  shows "\<exists>r br' part'. binary_process data (with_channels br q' p') = ret (r, br')
    \<and> binary_at pl pr nl nr cl cr its part' br' \<and> binary_out nl nr its part' = binary_out nl nr its part @ (case r of Inl _ \<Rightarrow> [] | Inr m \<Rightarrow> [m])"
proof (cases data)
  case (SideLeft x)
  show ?thesis
  proof (cases x)
    case (Inl e)
    then show ?thesis using SideLeft reads binary_at_channels [OF br q p, of q' p']
      by (auto simp: binary_process_def reads_side_def takes_def)
  next
    case (Inr m)
    have pr: "pr p' = pr p" and m: "pl q = m # pl q'" using SideLeft Inr reads by (simp_all add: reads_side_def takes_def)
    have br1: "binary_at pl pr nl nr cl cr its part (with_channels br q p')" by (rule binary_at_channels [OF br q p refl pr])
    have "\<not> is_ended (br_left (with_channels br q p'))" using side SideLeft by simp
    from binary_process_left [OF br1 ok(1) this _ _ m] show ?thesis using SideLeft Inr by fastforce
  qed
next
  case (SideRight x)
  show ?thesis
  proof (cases x)
    case (Inl e)
    then show ?thesis using SideRight reads binary_at_channels [OF br q p, of q' p']
      by (auto simp: binary_process_def reads_side_def takes_def)
  next
    case (Inr m)
    have pl: "pl q' = pl q" and m: "pr p = m # pr p'" using SideRight Inr reads by (simp_all add: reads_side_def takes_def)
    have br1: "binary_at pl pr nl nr cl cr its part (with_channels br q' p)" by (rule binary_at_channels [OF br q p pl refl])
    have "\<not> is_ended (br_right (with_channels br q' p))" using side SideRight by simp
    from binary_process_right [OF br1 ok(2) this _ _ m] show ?thesis using SideRight Inr by fastforce
  qed
qed

lemma waits_weaken: "waits timeout m P \<Longrightarrow> (\<And>x. P x \<Longrightarrow> Q x) \<Longrightarrow> waits timeout m Q"
  by (auto simp: waits_def split: option.splits sum.splits)

lemma binary_select_step:
  assumes ops: "fifo_channels ops pl pr" and ok: "content_ok nl cl" "content_ok nr cr"
    and br: "binary_at pl pr nl nr cl cr its part br"
  shows "waits timeout (binary_select ops timeout br) (\<lambda>(r, br'). \<exists>its' part'. binary_at pl pr nl nr cl cr its' part' br'
    \<and> binary_out nl nr its' part' = binary_out nl nr its part @ (case r of Inl _ \<Rightarrow> [] | Inr m \<Rightarrow> [m]))"
proof -
  have n: "0 < nl" "0 < nr" using ok by (simp_all add: content_ok_def)
  let ?br = "binary_restart br"
  from binary_restart_at [OF br n] obtain its' part' where
    re: "binary_at pl pr nl nr cl cr its' part' ?br" "binary_out nl nr its' part' = binary_out nl nr its part"
      "\<not> (is_ended (br_left ?br) \<and> is_ended (br_right ?br))" by blast
  have unc: "\<not> sd_cached (br_left br)" "\<not> sd_cached (br_right br)" "\<not> sd_cached (br_left ?br)" "\<not> sd_cached (br_right ?br)"
    using br re(1) by (simp_all add: binary_at_def side_at_def side_counts_def)
  obtain q p where q: "sr_receiver (sd_receiver (br_left ?br)) = Some q" and p: "sr_receiver (sd_receiver (br_right ?br)) = Some p"
    using re(1) by (auto simp: binary_at_def side_at_def)
  let ?recv = "if is_ended (br_left ?br) then recv_right ops timeout ?br
     else if is_ended (br_right ?br) then recv_left ops timeout ?br else recv_any ops timeout ?br"
  have sel: "binary_select ops timeout br = bindR ?recv (\<lambda>(data, br). binary_process data br)"
    using unc by (simp add: binary_select_def num_terminates_def cache_ready_def Let_def)
  have recv: "waits timeout ?recv (\<lambda>(data, br'). \<exists>q' p'. br' = with_channels ?br q' p' \<and> reads_side data (pl q) (pl q') (pr p) (pr p')
      \<and> (case data of SideLeft _ \<Rightarrow> \<not> is_ended (br_left ?br) | SideRight _ \<Rightarrow> \<not> is_ended (br_right ?br)))"
  proof (cases "is_ended (br_left ?br)")
    case True
    then have eq: "?recv = recv_right ops timeout ?br" and right: "\<not> is_ended (br_right ?br)" using re(3) by simp_all
    show ?thesis unfolding eq
      by (rule waits_weaken [OF recv_right_waits [OF ops q p]]) (use right in \<open>fastforce simp: reads_side_def\<close>)
  next
    case False
    show ?thesis
    proof (cases "is_ended (br_right ?br)")
      case True
      then have eq: "?recv = recv_left ops timeout ?br" using False by simp
      show ?thesis unfolding eq
        by (rule waits_weaken [OF recv_left_waits [OF ops q p]]) (use False in \<open>fastforce simp: reads_side_def\<close>)
    next
      case right: False
      then have eq: "?recv = recv_any ops timeout ?br" using False by simp
      show ?thesis unfolding eq
        by (rule waits_weaken [OF recv_any_waits [OF ops q p]]) (use False right in \<open>fastforce split: from_side.split\<close>)
    qed
  qed
  show ?thesis unfolding sel
  proof (rule waits_bind [OF recv], clarify)
    fix data q' p'
    assume "reads_side data (pl q) (pl q') (pr p) (pr p')"
      and "case data of SideLeft _ \<Rightarrow> \<not> is_ended (br_left ?br) | SideRight _ \<Rightarrow> \<not> is_ended (br_right ?br)"
    from binary_process_step [OF re(1) ok q p this] re(2)
    show "waits timeout (binary_process data (with_channels ?br q' p')) (\<lambda>(r, br'). \<exists>its' part'. binary_at pl pr nl nr cl cr its' part' br'
        \<and> binary_out nl nr its' part' = binary_out nl nr its part @ (case r of Inl _ \<Rightarrow> [] | Inr m \<Rightarrow> [m]))"
      by fastforce
  qed
qed

section \<open>Runs of the receiver\<close>

fun binary_run :: "('q, 'p, 'l, 'r) binary_ops \<Rightarrow> nat option list \<Rightarrow> ('q, 'p, 'l, 'r) binary_receiver
    \<Rightarrow> (('l, 'r) binary_element network_message list \<times> ('q, 'p, 'l, 'r) binary_receiver) res" where
  "binary_run ops [] br = ret ([], br)"
| "binary_run ops (t # ts) br =
     bindR (binary_select ops t br) (\<lambda>(r, br).
       bindR (binary_run ops ts br) (\<lambda>(ms, br). ret ((case r of Inl _ \<Rightarrow> ms | Inr m \<Rightarrow> m # ms), br)))"

lemma waits_timeout: "waits t m P \<Longrightarrow> (t = None \<Longrightarrow> t' = None) \<Longrightarrow> waits t' m P"
  by (auto simp: waits_def split: option.splits sum.splits)

lemma binary_run_at:
  assumes ops: "fifo_channels ops pl pr" and ok: "content_ok nl cl" "content_ok nr cr"
    and br: "binary_at pl pr nl nr cl cr its part br" and t: "None \<in> set ts \<Longrightarrow> t = None"
  shows "waits t (binary_run ops ts br) (\<lambda>(ms, br'). \<exists>its' part'. binary_at pl pr nl nr cl cr its' part' br'
    \<and> binary_out nl nr its' part' = binary_out nl nr its part @ ms)"
  using br t
proof (induction ts arbitrary: br its part)
  case Nil
  then show ?case by auto
next
  case (Cons t1 ts)
  have "waits t (binary_select ops t1 br) (\<lambda>(r, br'). \<exists>its' part'. binary_at pl pr nl nr cl cr its' part' br'
    \<and> binary_out nl nr its' part' = binary_out nl nr its part @ (case r of Inl _ \<Rightarrow> [] | Inr m \<Rightarrow> [m]))"
    by (rule waits_timeout [OF binary_select_step [OF ops ok Cons.prems(1)]]) (use Cons.prems(2) in auto)
  then show ?case unfolding binary_run.simps
  proof (rule waits_bind, clarify)
    fix r br' its' part'
    assume at: "binary_at pl pr nl nr cl cr its' part' br'"
      and out: "binary_out nl nr its' part' = binary_out nl nr its part @ (case r of Inl _ \<Rightarrow> [] | Inr m \<Rightarrow> [m])"
    have "waits t (binary_run ops ts br') (\<lambda>(ms, br''). \<exists>its'' part''. binary_at pl pr nl nr cl cr its'' part'' br''
        \<and> binary_out nl nr its'' part'' = binary_out nl nr its' part' @ ms)"
      using Cons.IH [OF at] Cons.prems(2) by simp
    then show "waits t (bindR (binary_run ops ts br') (\<lambda>(ms, br). ret ((case r of Inl _ \<Rightarrow> ms | Inr m \<Rightarrow> m # ms), br)))
      (\<lambda>(ms, br'). \<exists>its' part'. binary_at pl pr nl nr cl cr its' part' br' \<and> binary_out nl nr its' part' = binary_out nl nr its part @ ms)"
      by (rule waits_bind) (use out in \<open>cases r; fastforce\<close>)
  qed
qed

text \<open>Each side announces its end exactly once in an iteration.\<close>

lemma mark_end_count:
  "(\<And>x. wrap x \<noteq> ending) \<Longrightarrow> count_list (mark_end n wrap ending es) (Item ending) = (if 0 < n \<and> n \<le> count_list es FlushAndRestart then 1 else 0)"
proof (induction es arbitrary: n)
  case (Cons e es)
  then show ?case by (cases e) auto
qed auto

lemma mark_end_other:
  "(\<And>x. wrap x \<noteq> other) \<Longrightarrow> ending \<noteq> other \<Longrightarrow> count_list (mark_end n wrap ending es) (Item other) = 0"
proof (induction es arbitrary: n)
  case (Cons e es)
  then show ?case by (cases e) auto
qed simp

lemma iteration_out_ends:
  "markers (Item LeftEnd) (iteration_out nl nr tr) = (if 0 < nl \<and> nl \<le> fars (lefts tr) then 1 else 0)"
  "markers (Item RightEnd) (iteration_out nl nr tr) = (if 0 < nr \<and> nr \<le> fars (rights tr) then 1 else 0)"
  by (induction nl nr tr rule: iteration_out.induct)
    (auto simp: new_batch_def mark_end_count mark_end_other lefts_def rights_def)

lemma binary_setup_at:
  assumes l: "get_l (ReceiverEndpoint c lb) = ret q" and r: "get_r (ReceiverEndpoint c rb) = ret p"
  shows "\<exists>br0 br. binary_new lb rb False False = ret br0 \<and> binary_setup get_l get_r c prevs type_l type_r br0 = ret br
    \<and> binary_prev_replicas br = side_replicas prevs type_l lb @ side_replicas prevs type_r rb
    \<and> binary_at pl pr (length (side_replicas prevs type_l lb)) (length (side_replicas prevs type_r rb)) (pl q) (pr p) [] [] br"
  using assms
  by (simp add: binary_new_def binary_setup_def side_setup_def simple_setup_def side_new_def simple_new_def Let_def
      binary_prev_replicas_def binary_at_def side_at_def side_counts_def pending_def)

text \<open>
  C27: a binary receiver without a cache reads its two sides iteration by iteration: whatever the order in
  which messages arrive and the timeouts, the messages read are the two sides' own, in their order, cut into
  iterations in which every replica of both sides has ended exactly once, and a side that has ended the
  iteration is not read before the other has. The batches returned are those messages with their elements
  wrapped in the variant of their side, and in each complete iteration each side announces its end exactly once.
  The only panic is a channel that is gone while the receiver waits without a timeout.
\<close>

theorem binary_aligns_iterations:
  assumes "fifo_channels ops pl pr" and "get_l (ReceiverEndpoint c lb) = ret q" and "get_r (ReceiverEndpoint c rb) = ret p"
    and "content_ok (length (side_replicas prevs type_l lb)) (pl q)" and "content_ok (length (side_replicas prevs type_r rb)) (pr p)"
  shows "\<exists>br0 br1. binary_new lb rb False False = ret br0 \<and> binary_setup get_l get_r c prevs type_l type_r br0 = ret br1
    \<and> (case binary_run ops ts br1 of
          None \<Rightarrow> True
        | Some (Inl e) \<Rightarrow> None \<in> set ts \<and> e = UnwrapNone
        | Some (Inr (ms, br)) \<Rightarrow>
            \<exists>its part. lefts (concat its @ part) @ pending pl (br_left br) = pl q
              \<and> rights (concat its @ part) @ pending pr (br_right br) = pr p
              \<and> ms = binary_out (length (side_replicas prevs type_l lb)) (length (side_replicas prevs type_r rb)) its part
              \<and> disciplined (length (side_replicas prevs type_l lb)) (length (side_replicas prevs type_r rb)) part
              \<and> (\<forall>it \<in> set its. complete_iteration (length (side_replicas prevs type_l lb)) (length (side_replicas prevs type_r rb)) it
                   \<and> (let out = iteration_out (length (side_replicas prevs type_l lb)) (length (side_replicas prevs type_r rb)) it
                      in markers (Item LeftEnd) out = 1 \<and> markers (Item RightEnd) out = 1)))"
proof -
  let ?nl = "length (side_replicas prevs type_l lb)" and ?nr = "length (side_replicas prevs type_r rb)"
  obtain br0 br1 where br: "binary_new lb rb False False = ret br0" "binary_setup get_l get_r c prevs type_l type_r br0 = ret br1"
    "binary_at pl pr ?nl ?nr (pl q) (pr p) [] [] br1"
    using binary_setup_at [where get_l = get_l and get_r = get_r, OF assms(2,3), of prevs type_l type_r pl pr] by blast
  define t where "t = (if None \<in> set ts then None else Some (0 :: nat))"
  have "None \<in> set ts \<longrightarrow> t = None" by (simp add: t_def)
  note run = binary_run_at [OF assms(1,4,5) br(3), of ts t, OF this [rule_format]]
  have n: "0 < ?nl" "0 < ?nr" using assms(4,5) by (simp_all add: content_ok_def)
  have ends: "markers (Item LeftEnd) (iteration_out ?nl ?nr it) = 1" "markers (Item RightEnd) (iteration_out ?nl ?nr it) = 1"
    if "complete_iteration ?nl ?nr it" for it
    using that n by (simp_all add: iteration_out_ends complete_iteration_def)
  have "case binary_run ops ts br1 of
          None \<Rightarrow> True
        | Some (Inl e) \<Rightarrow> None \<in> set ts \<and> e = UnwrapNone
        | Some (Inr (ms, br)) \<Rightarrow>
            \<exists>its part. lefts (concat its @ part) @ pending pl (br_left br) = pl q
              \<and> rights (concat its @ part) @ pending pr (br_right br) = pr p
              \<and> ms = binary_out ?nl ?nr its part \<and> disciplined ?nl ?nr part
              \<and> (\<forall>it \<in> set its. complete_iteration ?nl ?nr it
                   \<and> (let out = iteration_out ?nl ?nr it in markers (Item LeftEnd) out = 1 \<and> markers (Item RightEnd) out = 1))"
  proof (cases "binary_run ops ts br1")
    case (Some r)
    show ?thesis
    proof (cases r)
      case (Inl e)
      then show ?thesis using Some run by (auto simp: waits_def t_def split: if_splits)
    next
      case (Inr x)
      obtain ms br where x: "x = (ms, br)" by (cases x)
      obtain its part where "binary_at pl pr ?nl ?nr (pl q) (pr p) its part br" "binary_out ?nl ?nr its part = binary_out ?nl ?nr [] [] @ ms"
        using run Some Inr x by (auto simp: waits_def)
      then show ?thesis using Some Inr x ends
        by (auto simp: binary_at_def side_at_def binary_out_def Let_def intro!: exI [of _ its] exI [of _ part])
    qed
  qed simp
  with br(1,2) show ?thesis by blast
qed

text \<open>Channels whose messages have all arrived, the left one first.\<close>

definition queue_receiver :: "('a network_message list, 'a) receiver_ops" where
  "queue_receiver =
     \<lparr>rc_recv = \<lambda>q. case q of [] \<Rightarrow> None | m # q \<Rightarrow> ret (Inr m, q),
      rc_recv_timeout = \<lambda>_ q. case q of [] \<Rightarrow> ret (Inl RecvTimeout, []) | m # q \<Rightarrow> ret (Inr m, q)\<rparr>"

definition queue_channels :: "('l network_message list, 'r network_message list, 'l, 'r) binary_ops" where
  "queue_channels =
     \<lparr>bo_left = queue_receiver, bo_right = queue_receiver,
      bo_select = \<lambda>q p. case q of m # q \<Rightarrow> ret (SelectA (Inr m), q, p)
        | [] \<Rightarrow> (case p of m # p \<Rightarrow> ret (SelectB (Inr m), [], p) | [] \<Rightarrow> None),
      bo_select_timeout = \<lambda>_ q p. case q of m # q \<Rightarrow> ret (Inr (SelectA (Inr m)), q, p)
        | [] \<Rightarrow> (case p of m # p \<Rightarrow> ret (Inr (SelectB (Inr m)), [], p) | [] \<Rightarrow> ret (Inl RecvTimeout, [], []))\<rparr>"

lemma queue_receiver_fifo: "fifo_receiver queue_receiver (\<lambda>q. q)"
  by (auto simp: fifo_receiver_def queue_receiver_def takes_def split: list.splits)

lemma queue_channels_fifo: "fifo_channels queue_channels (\<lambda>q. q) (\<lambda>p. p)"
  unfolding fifo_channels_def
  by (auto simp: queue_receiver_fifo queue_channels_def takes_select_def takes_def split: list.splits)

lemma binary_example:
  "bindR (binary_new 1 2 False False) (\<lambda>br0.
   bindR (binary_setup (\<lambda>_. ret [new_batch [Item ''a'', FlushAndRestart] (Coord 1 0 0), new_single Terminate (Coord 1 0 0)])
       (\<lambda>_. ret [new_batch [Item True, FlushAndRestart] (Coord 2 0 0), new_single Terminate (Coord 2 0 0)])
       (Coord 3 0 0) [(Coord 1 0 0, 0), (Coord 2 0 0, 1)] 0 1 br0) (\<lambda>br1.
   bindR (binary_run queue_channels [None, Some 5, None, None] br1) (\<lambda>(ms, br).
     ret (ms, pending (\<lambda>q. q) (br_left br), pending (\<lambda>p. p) (br_right br))))) =
   ret ([new_batch [Item (BLeft ''a''), Item LeftEnd, FlushAndRestart] (Coord 1 0 0),
         new_batch [Item (BRight True), Item RightEnd, FlushAndRestart] (Coord 2 0 0),
         new_single Terminate (Coord 1 0 0), new_single Terminate (Coord 2 0 0)], [], [])"
  by code_simp

theorem binary_aligns_iterations_witness:
  "\<exists>br0 br1 ms br its part. binary_new 1 2 False False = ret br0
     \<and> binary_setup (\<lambda>_. ret [new_batch [Item ''a'', FlushAndRestart] (Coord 1 0 0), new_single Terminate (Coord 1 0 0)])
         (\<lambda>_. ret [new_batch [Item True, FlushAndRestart] (Coord 2 0 0), new_single Terminate (Coord 2 0 0)])
         (Coord 3 0 0) [(Coord 1 0 0, 0), (Coord 2 0 0, 1)] 0 1 br0 = ret br1
     \<and> binary_run queue_channels [None, Some 5, None, None] br1 = ret (ms, br)
     \<and> ms = binary_out 1 1 its part
     \<and> ms = [new_batch [Item (BLeft ''a''), Item LeftEnd, FlushAndRestart] (Coord 1 0 0),
             new_batch [Item (BRight True), Item RightEnd, FlushAndRestart] (Coord 2 0 0),
             new_single Terminate (Coord 1 0 0), new_single Terminate (Coord 2 0 0)]"
proof -
  let ?l = "[new_batch [Item ''a'', FlushAndRestart] (Coord 1 0 0), new_single Terminate (Coord 1 0 0)]"
  let ?r = "[new_batch [Item True, FlushAndRestart] (Coord 2 0 0), new_single Terminate (Coord 2 0 0)]"
  let ?prevs = "[(Coord 1 0 0, 0), (Coord 2 0 0, 1)]"
  have n: "length (side_replicas ?prevs 0 1) = 1" "length (side_replicas ?prevs 1 2) = 1" by (simp_all add: side_replicas_def)
  have ok: "content_ok (length (side_replicas ?prevs 0 1)) ?l" "content_ok (length (side_replicas ?prevs 1 2)) ?r"
    unfolding n by (simp_all add: content_ok_def new_batch_def new_single_def)
  have "(\<lambda>_. ret ?l) (ReceiverEndpoint (Coord 3 0 0) 1) = ret ?l" "(\<lambda>_. ret ?r) (ReceiverEndpoint (Coord 3 0 0) 2) = ret ?r" by simp_all
  from binary_aligns_iterations [where get_l = "\<lambda>_. ret ?l" and get_r = "\<lambda>_. ret ?r" and ts = "[None, Some 5, None, None]",
      OF queue_channels_fifo this ok] binary_example
  show ?thesis unfolding n bindR_eq_ret by fastforce
qed

section \<open>The end of a cached stream\<close>

text \<open>
  With a cached left side the receiver asks the other side first, to know whether a new iteration is
  about to start; but when the right side has several replicas, after the \<^verbatim>\<open>Terminate\<close> of the first of them the
  cache is replayed all the same, although no iteration follows.
\<close>

theorem binary_cache_replayed_at_end:
  assumes "sd_cached (br_left br)" and "sd_cache_full (br_left br)" and "sd_cache_pointer (br_left br) = 0" and "sd_cache (br_left br) = b # bs"
    and "\<not> sd_cached (br_right br)" and "sd_missing_flush_and_restart (br_right br) = n" and "sd_missing_terminate (br_right br) = n" and "2 \<le> n"
    and "br_first_message br" and "sr_receiver (sd_receiver (br_right br)) = Some p"
    and "rc_recv (bo_right ops) p = ret (Inr (new_single Terminate c), p')"
  shows "\<exists>br1 br2. binary_select ops None br = ret (Inr (new_single Terminate c), br1) \<and> \<not> is_terminated (br_right br1)
    \<and> binary_select ops None br1 = ret (Inr b, br2)"
  using assms
  by (simp add: binary_select_def is_terminated_def is_ended_def binary_restart_def recv_right_def side_recv_def simple_recv_def
      binary_process_def process_side_def process_item_def dec_usize_def new_single_def new_batch_def cache_ready_def cache_finished_def
      next_cached_item_def Let_def)

definition replay_example :: "(string network_message list, bool network_message list, string, bool) binary_receiver" where
  "replay_example =
     \<lparr>br_left = (side_new 1 True)\<lparr>sd_instances := 1, sd_cache_full := True, sd_cache := [new_batch [Item (BLeft ''a''), Item LeftEnd, FlushAndRestart] (Coord 1 0 0)]\<rparr>,
      br_right = (side_new 2 False)\<lparr>sd_receiver := (simple_new 2)\<lparr>sr_receiver := Some [new_single Terminate (Coord 2 0 0), new_single Terminate (Coord 2 0 1)]\<rparr>,
        sd_instances := 2, sd_missing_flush_and_restart := 2, sd_missing_terminate := 2\<rparr>,
      br_first_message = True\<rparr>"

theorem binary_cache_replayed_at_end_witness:
  "\<exists>br1 br2. binary_select queue_channels None replay_example = ret (Inr (new_single Terminate (Coord 2 0 0)), br1) \<and> \<not> is_terminated (br_right br1)
    \<and> binary_select queue_channels None br1 = ret (Inr (new_batch [Item (BLeft ''a''), Item LeftEnd, FlushAndRestart] (Coord 1 0 0)), br2)"
  by (rule binary_cache_replayed_at_end [of _ _ "[]" 2 "[new_single Terminate (Coord 2 0 0), new_single Terminate (Coord 2 0 1)]"])
    (simp_all add: replay_example_def side_new_def simple_new_def queue_channels_def queue_receiver_def)

end
