(* ===== verification/Join.thy ===== *)
theory Join
  imports Binary_Start
begin

text \<open>
  The joins by hash: \<^verbatim>\<open>src/operator/join/mod.rs\<close>, \<^verbatim>\<open>src/operator/join/local_hash.rs\<close> and
  \<^verbatim>\<open>src/operator/join/keyed_join.rs\<close>. Their input is the stream of a binary \<^verbatim>\<open>Start\<close>. The coordinate they
  keep is only logged and left out.
\<close>

section \<open>Join variants\<close>

datatype join_variant = InnerJoin | LeftJoin | OuterJoin

definition left_outer :: "join_variant \<Rightarrow> bool" where
  "left_outer v \<longleftrightarrow> v = LeftJoin \<or> v = OuterJoin"

definition right_outer :: "join_variant \<Rightarrow> bool" where
  "right_outer v \<longleftrightarrow> v = OuterJoin"

type_synonym ('a, 'b) outer_tuple = "'a option \<times> 'b option"

section \<open>What a join returns\<close>

text \<open>
  The reference: the pairs with equal keys, and with an outer variant each element without a partner.
  The order of the results is not specified.
\<close>

definition inner_pairs :: "('k \<times> 'a) list \<Rightarrow> ('k \<times> 'b) list \<Rightarrow> ('k \<times> ('a, 'b) outer_tuple) list" where
  "inner_pairs L R = [(k, (Some x, Some y)). ((k, x), (k', y)) \<leftarrow> List.product L R, k = k']"

definition left_only :: "('k \<times> 'a) list \<Rightarrow> ('k \<times> 'b) list \<Rightarrow> ('k \<times> ('a, 'b) outer_tuple) list" where
  "left_only L R = [(k, (Some x, None)). (k, x) \<leftarrow> L, k \<notin> fst ` set R]"

definition right_only :: "('k \<times> 'a) list \<Rightarrow> ('k \<times> 'b) list \<Rightarrow> ('k \<times> ('a, 'b) outer_tuple) list" where
  "right_only L R = [(k, (None, Some y)). (k, y) \<leftarrow> R, k \<notin> fst ` set L]"

definition join_spec :: "join_variant \<Rightarrow> ('k \<times> 'a) list \<Rightarrow> ('k \<times> 'b) list \<Rightarrow> ('k \<times> ('a, 'b) outer_tuple) list" where
  "join_spec v L R = inner_pairs L R @ (if left_outer v then left_only L R else []) @ (if right_outer v then right_only L R else [])"

text \<open>The elements of the two sides in an iteration, and the iterations a binary \<^verbatim>\<open>Start\<close> produces.\<close>

definition left_items :: "('a, 'b) binary_element stream_element list \<Rightarrow> 'a list" where
  "left_items es = concat (map (\<lambda>e. case e of Item (BLeft x) \<Rightarrow> [x] | _ \<Rightarrow> []) es)"

definition right_items :: "('a, 'b) binary_element stream_element list \<Rightarrow> 'b list" where
  "right_items es = concat (map (\<lambda>e. case e of Item (BRight y) \<Rightarrow> [y] | _ \<Rightarrow> []) es)"

fun sides_from :: "bool \<Rightarrow> bool \<Rightarrow> ('a, 'b) binary_element stream_element list \<Rightarrow> bool" where
  "sides_from le re [] \<longleftrightarrow> le \<and> re"
| "sides_from le re (Item (BLeft _) # es) \<longleftrightarrow> \<not> le \<and> sides_from le re es"
| "sides_from le re (Item (BRight _) # es) \<longleftrightarrow> \<not> re \<and> sides_from le re es"
| "sides_from le re (Item LeftEnd # es) \<longleftrightarrow> \<not> le \<and> sides_from True re es"
| "sides_from le re (Item RightEnd # es) \<longleftrightarrow> \<not> re \<and> sides_from le True es"
| "sides_from le re (FlushBatch # es) \<longleftrightarrow> sides_from le re es"
| "sides_from le re _ \<longleftrightarrow> False"

abbreviation two_sided :: "('a, 'b) binary_element stream_element list \<Rightarrow> bool" where
  "two_sided seg \<equiv> sides_from False False seg"

lemma items_simps [simp]:
  "left_items [] = []" "right_items [] = []"
  "left_items (xs @ ys) = left_items xs @ left_items ys" "right_items (xs @ ys) = right_items xs @ right_items ys"
  "left_items (Item (BLeft x) # es) = x # left_items es" "right_items (Item (BLeft x) # es) = right_items es"
  "left_items (Item (BRight y) # es) = left_items es" "right_items (Item (BRight y) # es) = y # right_items es"
  "left_items (Item LeftEnd # es) = left_items es" "right_items (Item LeftEnd # es) = right_items es"
  "left_items (Item RightEnd # es) = left_items es" "right_items (Item RightEnd # es) = right_items es"
  "left_items (FlushBatch # es) = left_items es" "right_items (FlushBatch # es) = right_items es"
  by (simp_all add: left_items_def right_items_def)

section \<open>A loop with a buffer\<close>

text \<open>
  \<^verbatim>\<open>while self.buffer.is_empty() { match self.prev.next() { ... } } self.buffer.pop_front()\<close>: the body of the
  \<^verbatim>\<open>match\<close> pushes to the buffer (\<open>Inl\<close>) or returns (\<open>Inr\<close>).
\<close>

type_synonym ('c, 'i, 'o) handler = "'c \<Rightarrow> 'i stream_element \<Rightarrow> ('o list \<times> 'c + 'o stream_element \<times> 'c) res"

record ('s, 'c, 'o) buffered =
  bf_prev :: 's
  bf_core :: 'c
  bf_buffer :: "'o list"

partial_function (option) buffer_next :: "('c, 'i, 'o) handler \<Rightarrow> ('s, 'i) pull \<Rightarrow> (('s, 'c, 'o) buffered, 'o) pull" where
  "buffer_next handle prev st =
     (case bf_buffer st of
        item # rest \<Rightarrow> ret (Item item, st\<lparr>bf_buffer := rest\<rparr>)
      | [] \<Rightarrow>
          bindR (prev (bf_prev st)) (\<lambda>(e, s').
            bindR (handle (bf_core st) e) (\<lambda>r.
              case r of
                Inl (items, c) \<Rightarrow> buffer_next handle prev (st\<lparr>bf_prev := s', bf_core := c, bf_buffer := items\<rparr>)
              | Inr (out, c) \<Rightarrow> ret (out, st\<lparr>bf_prev := s', bf_core := c\<rparr>))))"

definition buffer_step :: "('c, 'i, 'o) handler \<Rightarrow> 'c \<Rightarrow> 'i stream_element \<Rightarrow> ('o stream_element list \<times> 'c) res" where
  "buffer_step handle c e =
     bindR (handle c e) (\<lambda>r. case r of Inl (items, c) \<Rightarrow> ret (map Item items, c) | Inr (out, c) \<Rightarrow> ret ([out], c))"

lemma buffer_step_ret:
  "buffer_step handle c e = ret (out, c') \<longleftrightarrow>
     (\<exists>items. handle c e = ret (Inl (items, c')) \<and> out = map Item items) \<or> (\<exists>y. handle c e = ret (Inr (y, c')) \<and> out = [y])"
proof (cases "handle c e")
  case (Some r)
  then show ?thesis
  proof (cases r)
    case (Inr x)
    with Some show ?thesis by (cases x; cases "projl x"; cases "projr x") (auto simp: buffer_step_def)
  qed (auto simp: buffer_step_def)
qed (simp add: buffer_step_def)

definition buffer_idle :: "('s, 'c, 'o) buffered \<Rightarrow> 'c \<Rightarrow> 's \<Rightarrow> bool" where
  "buffer_idle st c s \<longleftrightarrow> bf_prev st = s \<and> bf_core st = c \<and> bf_buffer st = []"

lemma pulls_buffer:
  "pulls (buffer_next handle prev) \<lparr>bf_prev = s, bf_core = c, bf_buffer = xs\<rparr> (map Item xs) \<lparr>bf_prev = s, bf_core = c, bf_buffer = []\<rparr>"
  by (induction xs) (auto simp: pulls_Cons_iff buffer_next.simps [of handle prev])

interpretation buffer_tr: fallible_transducer p "buffer_next handle p" buffer_idle "buffer_step handle"
  for p :: "('s, 'i) pull" and handle :: "('c, 'i, 'o) handler"
proof
  fix st :: "('s, 'c, 'o) buffered" and c s e s1 c'
  assume st: "buffer_idle st c s" and e: "p s = ret (e, s1)" and "buffer_step handle c e = ret ([], c')"
  then have "handle c e = ret (Inl ([], c'))" by (auto simp: buffer_step_ret)
  then have "buffer_next handle p st = buffer_next handle p (st\<lparr>bf_prev := s1, bf_core := c', bf_buffer := []\<rparr>)"
    using st e by (subst buffer_next.simps) (simp add: buffer_idle_def)
  then show "\<exists>st1. buffer_next handle p st = buffer_next handle p st1 \<and> buffer_idle st1 c' s1"
    by (intro exI conjI) (assumption, simp add: buffer_idle_def)
next
  fix st :: "('s, 'c, 'o) buffered" and c s e s1 y ys c'
  assume st: "buffer_idle st c s" and e: "p s = ret (e, s1)" and step: "buffer_step handle c e = ret (y # ys, c')"
  have st_eq: "st = \<lparr>bf_prev = s, bf_core = c, bf_buffer = []\<rparr>" using st by (cases st) (simp add: buffer_idle_def)
  from step consider items where "handle c e = ret (Inl (items, c'))" "y # ys = map Item items"
    | "handle c e = ret (Inr (y, c'))" "ys = []"
    by (auto simp: buffer_step_ret)
  then show "\<exists>st1. pulls (buffer_next handle p) st (y # ys) st1 \<and> buffer_idle st1 c' s1"
  proof cases
    case 1
    have "buffer_next handle p st = buffer_next handle p \<lparr>bf_prev = s1, bf_core = c', bf_buffer = items\<rparr>"
      using st_eq e 1 by (subst buffer_next.simps) simp
    moreover have "y # ys \<noteq> []" by simp
    ultimately show ?thesis
      using pulls_buffer [of handle p s1 c' items] 1(2) pulls_start_cong [of "buffer_next handle p" st]
      by (metis buffer_idle_def buffered.select_convs(1-3))
  next
    case 2
    then have "buffer_next handle p st = ret (y, \<lparr>bf_prev = s1, bf_core = c', bf_buffer = []\<rparr>)"
      using st_eq e by (subst buffer_next.simps) simp
    then show ?thesis using 2(2) by (auto simp: buffer_idle_def intro!: exI)
  qed
qed

section \<open>The hash join\<close>

record ('k, 'a) side_hash_map =
  sm_data :: "('k, 'a list) hmap"
  sm_keys :: "'k set"
  sm_ended :: bool
  sm_count :: nat

definition side_default :: "('k, 'a) side_hash_map" where
  "side_default = \<lparr>sm_data = [], sm_keys = {}, sm_ended = False, sm_count = 0\<rparr>"

text \<open>
  \<^verbatim>\<open>add_item\<close>, written for the left side and used for the right one with the sides swapped; it returns
  what it pushes to the buffer.
\<close>

definition add_item :: "('l option \<Rightarrow> 'r option \<Rightarrow> 't) \<Rightarrow> bool \<Rightarrow> bool \<Rightarrow> 'k \<Rightarrow> 'l \<Rightarrow> ('k, 'l) side_hash_map \<Rightarrow> ('k, 'r) side_hash_map
    \<Rightarrow> ('k \<times> 't) list \<times> ('k, 'l) side_hash_map" where
  "add_item make_pair left_out right_out k item left right =
     ((case map_of (sm_data right) k of
         Some rs \<Rightarrow> map (\<lambda>rhs. (k, make_pair (Some item) (Some rhs))) rs
       | None \<Rightarrow> if sm_ended right \<and> left_out then [(k, make_pair (Some item) None)] else []),
      left\<lparr>sm_count := sm_count left + 1,
           sm_keys := (if right_out then insert k (sm_keys left) else sm_keys left),
           sm_data := (if \<not> sm_ended right then push_entry k item (sm_data left) else sm_data left)\<rparr>)"

definition side_ended :: "(('k \<times> 'r list) list \<Rightarrow> ('k \<times> 'r list) list) \<Rightarrow> ('l option \<Rightarrow> 'r option \<Rightarrow> 't) \<Rightarrow> bool
    \<Rightarrow> ('k, 'l) side_hash_map \<Rightarrow> ('k, 'r) side_hash_map \<Rightarrow> ('k \<times> 't) list \<times> ('k, 'l) side_hash_map \<times> ('k, 'r) side_hash_map" where
  "side_ended ho make_pair right_out left right =
     ((if right_out
       then concat (map (\<lambda>(k, rs). if k \<notin> sm_keys left then map (\<lambda>rhs. (k, make_pair None (Some rhs))) rs else []) (ho (sm_data right)))
       else []),
      left\<lparr>sm_keys := {}, sm_ended := True\<rparr>, right\<lparr>sm_data := []\<rparr>)"

record ('k, 'a, 'b) hash_join =
  hj_left :: "('k, 'a) side_hash_map"
  hj_right :: "('k, 'b) side_hash_map"
  hj_variant :: join_variant

definition hash_join_new :: "join_variant \<Rightarrow> ('k, 'a, 'b) hash_join" where
  "hash_join_new v = \<lparr>hj_left = side_default, hj_right = side_default, hj_variant = v\<rparr>"

text \<open>One element of the two sides, with its key: the match of \<^verbatim>\<open>JoinLocalHash::next\<close>.\<close>

fun join_process :: "(('k \<times> 'a list) list \<Rightarrow> ('k \<times> 'a list) list) \<Rightarrow> (('k \<times> 'b list) list \<Rightarrow> ('k \<times> 'b list) list)
    \<Rightarrow> ('k, 'a, 'b) hash_join \<Rightarrow> ('k \<times> 'a, 'k \<times> 'b) binary_element \<Rightarrow> ('k \<times> ('a, 'b) outer_tuple) list \<times> ('k, 'a, 'b) hash_join" where
  "join_process ho1 ho2 j (BLeft (k, x)) =
     (case add_item (\<lambda>x y. (x, y)) (left_outer (hj_variant j)) (right_outer (hj_variant j)) k x (hj_left j) (hj_right j) of
        (items, l) \<Rightarrow> (items, j\<lparr>hj_left := l\<rparr>))"
| "join_process ho1 ho2 j (BRight (k, y)) =
     (case add_item (\<lambda>x y. (y, x)) (right_outer (hj_variant j)) (left_outer (hj_variant j)) k y (hj_right j) (hj_left j) of
        (items, r) \<Rightarrow> (items, j\<lparr>hj_right := r\<rparr>))"
| "join_process ho1 ho2 j LeftEnd =
     (case side_ended ho2 (\<lambda>x y. (x, y)) (right_outer (hj_variant j)) (hj_left j) (hj_right j) of
        (items, l, r) \<Rightarrow> (items, j\<lparr>hj_left := l, hj_right := r\<rparr>))"
| "join_process ho1 ho2 j RightEnd =
     (case side_ended ho1 (\<lambda>x y. (y, x)) (left_outer (hj_variant j)) (hj_right j) (hj_left j) of
        (items, r, l) \<Rightarrow> (items, j\<lparr>hj_left := l, hj_right := r\<rparr>))"

definition join_restart :: "('k, 'a, 'b) hash_join \<Rightarrow> ('k, 'a, 'b) hash_join res" where
  "join_restart j =
     assertR (sm_ended (hj_left j)) (assertR (sm_ended (hj_right j))
      (assertR (sm_data (hj_left j) = []) (assertR (sm_data (hj_right j) = [])
       (assertR (sm_keys (hj_left j) = {}) (assertR (sm_keys (hj_right j) = {})
        (ret (j\<lparr>hj_left := (hj_left j)\<lparr>sm_ended := False, sm_count := 0\<rparr>, hj_right := (hj_right j)\<lparr>sm_ended := False, sm_count := 0\<rparr>\<rparr>)))))))"

definition join_keyed :: "('a \<Rightarrow> 'k) \<Rightarrow> ('b \<Rightarrow> 'k) \<Rightarrow> ('a, 'b) binary_element \<Rightarrow> ('k \<times> 'a, 'k \<times> 'b) binary_element" where
  "join_keyed keyer1 keyer2 e =
     (case e of BLeft x \<Rightarrow> BLeft (keyer1 x, x) | BRight y \<Rightarrow> BRight (keyer2 y, y) | LeftEnd \<Rightarrow> LeftEnd | RightEnd \<Rightarrow> RightEnd)"

definition join_handle :: "(('k \<times> 'a list) list \<Rightarrow> ('k \<times> 'a list) list) \<Rightarrow> (('k \<times> 'b list) list \<Rightarrow> ('k \<times> 'b list) list)
    \<Rightarrow> ('i \<Rightarrow> ('k \<times> 'a, 'k \<times> 'b) binary_element) \<Rightarrow> (('k, 'a, 'b) hash_join, 'i, 'k \<times> ('a, 'b) outer_tuple) handler" where
  "join_handle ho1 ho2 keyed j e =
     (case e of
        Item el \<Rightarrow> ret (Inl (join_process ho1 ho2 j (keyed el)))
      | FlushAndRestart \<Rightarrow> bindR (join_restart j) (\<lambda>j. ret (Inr (FlushAndRestart, j)))
      | Terminate \<Rightarrow> ret (Inr (Terminate, j))
      | FlushBatch \<Rightarrow> ret (Inr (FlushBatch, j))
      | Watermark _ \<Rightarrow> panic ExplicitPanic
      | Timestamped _ _ \<Rightarrow> panic ExplicitPanic)"

text \<open>\<^verbatim>\<open>JoinLocalHash\<close> computes the keys of its elements.\<close>

definition local_hash_next :: "(('k \<times> 'a list) list \<Rightarrow> ('k \<times> 'a list) list) \<Rightarrow> (('k \<times> 'b list) list \<Rightarrow> ('k \<times> 'b list) list)
    \<Rightarrow> ('a \<Rightarrow> 'k) \<Rightarrow> ('b \<Rightarrow> 'k) \<Rightarrow> ('s, ('a, 'b) binary_element) pull
    \<Rightarrow> (('s, ('k, 'a, 'b) hash_join, 'k \<times> ('a, 'b) outer_tuple) buffered, 'k \<times> ('a, 'b) outer_tuple) pull" where
  "local_hash_next ho1 ho2 keyer1 keyer2 = buffer_next (join_handle ho1 ho2 (join_keyed keyer1 keyer2))"

text \<open>\<^verbatim>\<open>JoinKeyedOuter::process_item\<close> spells the four cases out; its \<^verbatim>\<open>next\<close> is the same loop.\<close>

fun keyed_outer_process :: "(('k \<times> 'a list) list \<Rightarrow> ('k \<times> 'a list) list) \<Rightarrow> (('k \<times> 'b list) list \<Rightarrow> ('k \<times> 'b list) list)
    \<Rightarrow> ('k, 'a, 'b) hash_join \<Rightarrow> ('k \<times> 'a, 'k \<times> 'b) binary_element \<Rightarrow> ('k \<times> ('a, 'b) outer_tuple) list \<times> ('k, 'a, 'b) hash_join" where
  "keyed_outer_process ho1 ho2 j (BLeft (key, v1)) =
     (let l = hj_left j; r = hj_right j;
          pushed = (case map_of (sm_data r) key of
              Some vs \<Rightarrow> map (\<lambda>v2. (key, (Some v1, Some v2))) vs
            | None \<Rightarrow> if sm_ended r \<and> left_outer (hj_variant j) then [(key, (Some v1, None))] else []);
          l = l\<lparr>sm_count := sm_count l + 1\<rparr>;
          l = (if right_outer (hj_variant j) then l\<lparr>sm_keys := insert key (sm_keys l)\<rparr> else l);
          l = (if \<not> sm_ended r then l\<lparr>sm_data := push_entry key v1 (sm_data l)\<rparr> else l)
      in (pushed, j\<lparr>hj_left := l\<rparr>))"
| "keyed_outer_process ho1 ho2 j (BRight (key, v2)) =
     (let l = hj_left j; r = hj_right j;
          pushed = (case map_of (sm_data l) key of
              Some vs \<Rightarrow> map (\<lambda>v1. (key, (Some v1, Some v2))) vs
            | None \<Rightarrow> if sm_ended l \<and> right_outer (hj_variant j) then [(key, (None, Some v2))] else []);
          r = r\<lparr>sm_count := sm_count r + 1\<rparr>;
          r = (if left_outer (hj_variant j) then r\<lparr>sm_keys := insert key (sm_keys r)\<rparr> else r);
          r = (if \<not> sm_ended l then r\<lparr>sm_data := push_entry key v2 (sm_data r)\<rparr> else r)
      in (pushed, j\<lparr>hj_right := r\<rparr>))"
| "keyed_outer_process ho1 ho2 j LeftEnd =
     (let l = hj_left j; r = hj_right j;
          pushed = (if right_outer (hj_variant j)
            then concat (map (\<lambda>(key, vs). if key \<notin> sm_keys l then map (\<lambda>v2. (key, (None, Some v2))) vs else []) (ho2 (sm_data r)))
            else [])
      in (pushed, j\<lparr>hj_left := l\<lparr>sm_keys := {}, sm_ended := True\<rparr>, hj_right := r\<lparr>sm_data := []\<rparr>\<rparr>))"
| "keyed_outer_process ho1 ho2 j RightEnd =
     (let l = hj_left j; r = hj_right j;
          pushed = (if left_outer (hj_variant j)
            then concat (map (\<lambda>(key, vs). if key \<notin> sm_keys r then map (\<lambda>v1. (key, (Some v1, None))) vs else []) (ho1 (sm_data l)))
            else [])
      in (pushed, j\<lparr>hj_right := r\<lparr>sm_keys := {}, sm_ended := True\<rparr>, hj_left := l\<lparr>sm_data := []\<rparr>\<rparr>))"

lemma keyed_outer_process_eq: "keyed_outer_process ho1 ho2 j el = join_process ho1 ho2 j el"
  by (induction ho1 ho2 j el rule: keyed_outer_process.induct) (auto simp: add_item_def side_ended_def Let_def split: option.split)

definition keyed_outer_handle :: "(('k \<times> 'a list) list \<Rightarrow> ('k \<times> 'a list) list) \<Rightarrow> (('k \<times> 'b list) list \<Rightarrow> ('k \<times> 'b list) list)
    \<Rightarrow> (('k, 'a, 'b) hash_join, ('k \<times> 'a, 'k \<times> 'b) binary_element, 'k \<times> ('a, 'b) outer_tuple) handler" where
  "keyed_outer_handle ho1 ho2 j e =
     (case e of
        Item el \<Rightarrow> ret (Inl (keyed_outer_process ho1 ho2 j el))
      | FlushAndRestart \<Rightarrow> bindR (join_restart j) (\<lambda>j. ret (Inr (FlushAndRestart, j)))
      | Terminate \<Rightarrow> ret (Inr (Terminate, j))
      | FlushBatch \<Rightarrow> ret (Inr (FlushBatch, j))
      | Watermark _ \<Rightarrow> panic ExplicitPanic
      | Timestamped _ _ \<Rightarrow> panic ExplicitPanic)"

lemma keyed_outer_handle_eq: "keyed_outer_handle ho1 ho2 = join_handle ho1 ho2 (\<lambda>x. x)"
  by (intro ext) (simp add: keyed_outer_handle_def join_handle_def keyed_outer_process_eq split: stream_element.split)

definition keyed_outer_next :: "(('k \<times> 'a list) list \<Rightarrow> ('k \<times> 'a list) list) \<Rightarrow> (('k \<times> 'b list) list \<Rightarrow> ('k \<times> 'b list) list)
    \<Rightarrow> ('s, ('k \<times> 'a, 'k \<times> 'b) binary_element) pull
    \<Rightarrow> (('s, ('k, 'a, 'b) hash_join, 'k \<times> ('a, 'b) outer_tuple) buffered, 'k \<times> ('a, 'b) outer_tuple) pull" where
  "keyed_outer_next ho1 ho2 = buffer_next (keyed_outer_handle ho1 ho2)"

definition buffered_new :: "'s \<Rightarrow> 'c \<Rightarrow> ('s, 'c, 'o) buffered" where
  "buffered_new prev core = \<lparr>bf_prev = prev, bf_core = core, bf_buffer = []\<rparr>"

section \<open>The state of a hash join in an iteration\<close>

definition key_group :: "'k \<Rightarrow> ('k \<times> 'a) list \<Rightarrow> 'a list" where
  "key_group k L = [x. (k', x) \<leftarrow> L, k' = k]"

definition grouped :: "('k \<times> 'a) list \<Rightarrow> ('k, 'a list) hmap \<Rightarrow> bool" where
  "grouped L m \<longleftrightarrow> distinct (keys m) \<and> (\<forall>k. map_of m k = (if key_group k L = [] then None else Some (key_group k L)))"

lemma key_group_simps [simp]:
  "key_group k [] = []" "key_group k (L @ L') = key_group k L @ key_group k L'"
  "key_group k ((k', x) # L) = (if k' = k then [x] else []) @ key_group k L"
  by (simp_all add: key_group_def)

lemma key_group_empty: "key_group k L = [] \<longleftrightarrow> k \<notin> fst ` set L"
  by (induction L) auto

lemma grouped_Nil [simp]: "grouped [] m \<longleftrightarrow> m = []"
proof
  assume "grouped [] m"
  then have "\<forall>k. map_of m k = None" by (auto simp: grouped_def)
  then show "m = []" by (metis ext map_of_eq_empty_iff)
qed (simp add: grouped_def)

lemma grouped_push: "grouped L m \<Longrightarrow> grouped (L @ [(k, x)]) (push_entry k x m)"
  by (auto simp: grouped_def push_entry_def distinct_update update_conv')

text \<open>Left and right are symmetric; \<open>mk\<close> builds the tuple from this side and the other.\<close>

definition this_only :: "('l option \<Rightarrow> 'r option \<Rightarrow> 't) \<Rightarrow> ('k \<times> 'l) list \<Rightarrow> ('k \<times> 'r) list \<Rightarrow> ('k \<times> 't) list" where
  "this_only mk L R = [(k, mk (Some x) None). (k, x) \<leftarrow> L, k \<notin> fst ` set R]"

lemma add_item_out:
  assumes R: "grouped R (sm_data right)"
  shows "fst (add_item mk lo ro k x left right) =
    map (\<lambda>y. (k, mk (Some x) (Some y))) (key_group k R) @ (if sm_ended right \<and> lo then this_only mk [(k, x)] R else [])"
  using R key_group_empty [of k R]
  by (auto simp: add_item_def grouped_def this_only_def split: option.splits if_splits)

lemma inner_pairs_left:
  "inner_pairs (L @ [(k, x)]) R = inner_pairs L R @ map (\<lambda>y. (k, (Some x, Some y))) (key_group k R)"
proof -
  have prod: "List.product (L @ [a]) R = List.product L R @ map (Pair a) R" for a by (induction L) auto
  have "concat (map (\<lambda>((k, x), k', y). if k = k' then [(k, Some x, Some y)] else []) (map (Pair (k, x)) R)) =
      map (\<lambda>y. (k, (Some x, Some y))) (key_group k R)" by (induction R) auto
  then show ?thesis by (simp add: inner_pairs_def prod)
qed

lemma inner_pairs_right:
  "mset (inner_pairs L (R @ [(k, y)])) = mset (inner_pairs L R) + mset (map (\<lambda>x. (k, (Some x, Some y))) (key_group k L))"
  by (induction L) (auto simp: inner_pairs_def)

lemma grouped_elements:
  assumes "distinct (keys m)" and "\<forall>(k, rs) \<in> set m. rs = key_group k R"
  shows "mset (concat (map (\<lambda>(k, rs). map (Pair k) rs) m)) = filter_mset (\<lambda>p. fst p \<in> set (keys m)) (mset R)"
  using assms
proof (induction m)
  case (Cons e m)
  obtain k rs where e: "e = (k, rs)" by (cases e)
  have one: "mset (map (Pair k) (key_group k R)) = filter_mset (\<lambda>p. fst p = k) (mset R)" by (induction R) auto
  have "filter_mset (\<lambda>p. fst p \<in> set (keys (e # m))) (mset R) =
      filter_mset (\<lambda>p. fst p = k) (mset R) + filter_mset (\<lambda>p. fst p \<in> set (keys m)) (mset R)"
    using Cons.prems(1) e by (intro multiset_eqI) auto
  then show ?case using Cons e one by simp
qed simp

lemma grouped_entry:
  assumes "grouped R m" and "(k, rs) \<in> set m"
  shows "rs = key_group k R"
proof -
  have "map_of m k = Some rs" using assms by (intro map_of_is_SomeI) (auto simp: grouped_def)
  with assms(1) show ?thesis by (auto simp: grouped_def split: if_splits)
qed

lemma mset_concat_map: "mset (concat (map f xs)) = (\<Sum>x \<in># mset xs. mset (f x))"
  by (induction xs) simp_all

lemma grouped_drain:
  assumes ho: "hash_order ho" and m: "grouped R m"
  shows "mset (concat (map (\<lambda>(k, rs). if P k then map (\<lambda>y. (k, mk y)) rs else []) (ho m))) = mset [(k, mk y). (k, y) \<leftarrow> R, P k]"
proof -
  let ?els = "\<lambda>m. concat (map (\<lambda>(k, rs). map (Pair k) rs) m)"
  have keep: "concat (map (\<lambda>(k, rs). if P k then map (\<lambda>y. (k, mk y)) rs else []) m) =
      map (\<lambda>(k, y). (k, mk y)) (filter (\<lambda>(k, y). P k) (?els m))" for m
    by (induction m) (auto simp: filter_map comp_def)
  have "mset (ho m) = mset m" by (rule hash_order_mset [OF ho])
  then have "mset (?els (ho m)) = mset (?els m)" unfolding mset_concat_map by simp
  also have "\<dots> = filter_mset (\<lambda>p. fst p \<in> set (keys m)) (mset R)"
    by (rule grouped_elements) (use m grouped_entry [OF m] in \<open>auto simp: grouped_def simp del: Some_eq_map_of_iff\<close>)
  also have "\<dots> = mset R"
  proof -
    have "fst p \<in> set (keys m)" if "p \<in> set R" for p
    proof -
      have "key_group (fst p) R \<noteq> []" using that by (auto simp: key_group_empty)
      then have "map_of m (fst p) \<noteq> None" using m by (simp add: grouped_def)
      then show ?thesis by (metis domI domIff dom_map_of_conv_image_fst image_set)
    qed
    then show ?thesis by (simp add: filter_mset_eq_conv)
  qed
  finally have els: "mset (?els (ho m)) = mset R" .
  have "[(k, mk y). (k, y) \<leftarrow> R, P k] = map (\<lambda>(k, y). (k, mk y)) (filter (\<lambda>(k, y). P k) R)" by (induction R) auto
  moreover have "mset (map f (filter Q (?els (ho m)))) = mset (map f (filter Q R))" for f Q
    using els by (simp add: mset_map mset_filter)
  ultimately show ?thesis unfolding keep by simp
qed

definition outer_mset :: "join_variant \<Rightarrow> bool \<Rightarrow> bool \<Rightarrow> ('k \<times> 'a) list \<Rightarrow> ('k \<times> 'b) list \<Rightarrow> ('k \<times> ('a, 'b) outer_tuple) multiset" where
  "outer_mset v le re L R = mset (inner_pairs L R)
     + (if re \<and> left_outer v then mset (left_only L R) else {#}) + (if le \<and> right_outer v then mset (right_only L R) else {#})"

definition hash_join_at :: "join_variant \<Rightarrow> bool \<Rightarrow> bool \<Rightarrow> ('k \<times> 'a) list \<Rightarrow> ('k \<times> 'b) list \<Rightarrow> ('k, 'a, 'b) hash_join \<Rightarrow> bool" where
  "hash_join_at v le re L R j \<longleftrightarrow>
     hj_variant j = v \<and> sm_ended (hj_left j) = le \<and> sm_ended (hj_right j) = re
   \<and> grouped (if re then [] else L) (sm_data (hj_left j)) \<and> grouped (if le then [] else R) (sm_data (hj_right j))
   \<and> sm_keys (hj_left j) = (if le \<or> \<not> right_outer v then {} else fst ` set L)
   \<and> sm_keys (hj_right j) = (if re \<or> \<not> left_outer v then {} else fst ` set R)"

lemma process_left:
  assumes "hash_join_at v False re L R j"
  shows "\<exists>items j'. join_process ho1 ho2 j (BLeft (k, x)) = (items, j') \<and> hash_join_at v False re (L @ [(k, x)]) R j'
    \<and> outer_mset v False re (L @ [(k, x)]) R = outer_mset v False re L R + mset items"
proof -
  have "grouped R (sm_data (hj_right j))" using assms by (simp add: hash_join_at_def)
  note out = add_item_out [OF this, of "\<lambda>x y. (x, y)" "left_outer v" "right_outer v" k x "hj_left j"]
  have "left_only (L @ [(k, x)]) R = left_only L R @ this_only (\<lambda>x y. (x, y)) [(k, x)] R" by (simp add: left_only_def this_only_def)
  then show ?thesis
    using assms out grouped_push
    by (auto simp: hash_join_at_def outer_mset_def inner_pairs_left add_item_def split: if_splits)
qed

lemma process_right:
  assumes "hash_join_at v le False L R j"
  shows "\<exists>items j'. join_process ho1 ho2 j (BRight (k, y)) = (items, j') \<and> hash_join_at v le False L (R @ [(k, y)]) j'
    \<and> outer_mset v le False L (R @ [(k, y)]) = outer_mset v le False L R + mset items"
proof -
  have "grouped L (sm_data (hj_left j))" using assms by (simp add: hash_join_at_def)
  note out = add_item_out [OF this, of "\<lambda>x y. (y, x)" "right_outer v" "left_outer v" k y "hj_right j"]
  have "right_only L (R @ [(k, y)]) = right_only L R @ this_only (\<lambda>x y. (y, x)) [(k, y)] L" by (simp add: right_only_def this_only_def)
  then show ?thesis
    using assms out grouped_push
    by (auto simp: hash_join_at_def outer_mset_def inner_pairs_right add_item_def split: if_splits)
qed

lemma process_left_end:
  assumes ho: "hash_order ho2" and "hash_join_at v False re L R j"
  shows "\<exists>items j'. join_process ho1 ho2 j LeftEnd = (items, j') \<and> hash_join_at v True re L R j'
    \<and> outer_mset v True re L R = outer_mset v False re L R + mset items"
proof -
  have R: "grouped R (sm_data (hj_right j))" using assms(2) by (simp add: hash_join_at_def)
  have "mset (concat (map (\<lambda>(k, rs). if k \<notin> fst ` set L then map (\<lambda>y. (k, (None, Some y))) rs else []) (ho2 (sm_data (hj_right j))))) =
      mset (right_only L R)" unfolding right_only_def by (rule grouped_drain [OF ho R])
  then show ?thesis using assms(2) by (auto simp: hash_join_at_def outer_mset_def side_ended_def)
qed

lemma process_right_end:
  assumes ho: "hash_order ho1" and "hash_join_at v le False L R j"
  shows "\<exists>items j'. join_process ho1 ho2 j RightEnd = (items, j') \<and> hash_join_at v le True L R j'
    \<and> outer_mset v le True L R = outer_mset v le False L R + mset items"
proof -
  have L: "grouped L (sm_data (hj_left j))" using assms(2) by (simp add: hash_join_at_def)
  have "mset (concat (map (\<lambda>(k, ls). if k \<notin> fst ` set R then map (\<lambda>x. (k, (Some x, None))) ls else []) (ho1 (sm_data (hj_left j))))) =
      mset (left_only L R)" unfolding left_only_def by (rule grouped_drain [OF ho L])
  then show ?thesis using assms(2) by (auto simp: hash_join_at_def outer_mset_def side_ended_def)
qed


section \<open>A hash join returns the join of each iteration\<close>

lemma join_handle_keyed:
  "buffer_step (join_handle ho1 ho2 keyed) j e = buffer_step (join_handle ho1 ho2 (\<lambda>x. x)) j (elem_map keyed e)"
  by (cases e) (simp_all add: buffer_step_def join_handle_def)

lemma transduce_keyed:
  "transduceR (buffer_step (join_handle ho1 ho2 keyed)) j es =
     transduceR (buffer_step (join_handle ho1 ho2 (\<lambda>x. x))) j (map (elem_map keyed) es)"
proof (induction es arbitrary: j)
  case (Cons e es)
  then show ?case by (simp add: join_handle_keyed [of ho1 ho2 keyed j e])
qed simp

definition plain :: "'o stream_element list \<Rightarrow> bool" where
  "plain out \<longleftrightarrow> (\<forall>e \<in> set out. e = FlushBatch \<or> (\<exists>x. e = Item x))"

lemma plain_simps [simp]: "plain []" "plain (xs @ ys) \<longleftrightarrow> plain xs \<and> plain ys" "plain (FlushBatch # xs) \<longleftrightarrow> plain xs" "plain (map Item vs)"
  by (auto simp: plain_def)

text \<open>The results of an iteration: no marker, the flushes of the input, and the tuples in any order.\<close>

definition joins :: "'o list \<Rightarrow> 'i stream_element list \<Rightarrow> 'o stream_element list \<Rightarrow> bool" where
  "joins tuples seg out \<longleftrightarrow> mset (elem_values out) = mset tuples \<and> plain out
     \<and> count_list out FlushBatch = count_list seg FlushBatch"

lemma join_item_step:
  assumes "join_process ho1 ho2 j el = (items, j')"
  shows "buffer_step (join_handle ho1 ho2 (\<lambda>x. x)) j (Item el) = ret (map Item items, j')"
  using assms by (simp add: buffer_step_def join_handle_def)

lemma map_Item_facts [simp]: "elem_values (map Item xs) = xs" "count_list (map Item xs) FlushBatch = 0"
  "count_list (xs' @ ys') e = count_list xs' e + count_list ys' e"
  by (induction xs) auto

lemma join_segment:
  assumes ho: "hash_order ho1" "hash_order ho2"
    and "hash_join_at v le re L R j" and "sides_from le re seg"
  shows "\<exists>out j'. transduceR (buffer_step (join_handle ho1 ho2 (\<lambda>x. x))) j seg = ret (out, j')
    \<and> hash_join_at v True True (L @ left_items seg) (R @ right_items seg) j'
    \<and> outer_mset v True True (L @ left_items seg) (R @ right_items seg) = outer_mset v le re L R + mset (elem_values out)
    \<and> plain out \<and> count_list out FlushBatch = count_list seg FlushBatch"
  using assms(3,4)
proof (induction seg arbitrary: le re L R j)
  case Nil
  then show ?case by auto
next
  case (Cons e seg)
  let ?step = "buffer_step (join_handle ho1 ho2 (\<lambda>x. x))"
  have item: ?case
    if e: "e = Item el" and p: "\<exists>items j'. join_process ho1 ho2 j el = (items, j') \<and> hash_join_at v le' re' L' R' j'
        \<and> outer_mset v le' re' L' R' = outer_mset v le re L R + mset items"
      and rest: "sides_from le' re' seg" and LR: "L @ left_items (e # seg) = L' @ left_items seg" "R @ right_items (e # seg) = R' @ right_items seg"
    for el le' re' L' R'
  proof -
    obtain items j1 where p: "join_process ho1 ho2 j el = (items, j1)" "hash_join_at v le' re' L' R' j1"
      "outer_mset v le' re' L' R' = outer_mset v le re L R + mset items" using p by blast
    from Cons.IH [OF p(2) rest] obtain out j' where
      IH: "transduceR ?step j1 seg = ret (out, j')" "hash_join_at v True True (L' @ left_items seg) (R' @ right_items seg) j'"
        "outer_mset v True True (L' @ left_items seg) (R' @ right_items seg) = outer_mset v le' re' L' R' + mset (elem_values out)"
        "plain out" "count_list out FlushBatch = count_list seg FlushBatch" by blast
    show ?thesis unfolding LR unfolding e transduceR.simps join_item_step [OF p(1)] using IH p(3) by auto
  qed
  show ?case
  proof (cases e)
    case (Item el)
    show ?thesis
    proof (cases el)
      case (BLeft kx)
      obtain k x where kx: "kx = (k, x)" by (cases kx)
      show ?thesis using Cons.prems Item BLeft kx process_left [of v re L R j ho1 ho2 k x]
        by (intro item [of el False re "L @ [(k, x)]" R]) auto
    next
      case (BRight ky)
      obtain k y where ky: "ky = (k, y)" by (cases ky)
      show ?thesis using Cons.prems Item BRight ky process_right [of v le L R j ho1 ho2 k y]
        by (intro item [of el le False L "R @ [(k, y)]"]) auto
    next
      case LeftEnd
      show ?thesis using Cons.prems Item LeftEnd process_left_end [OF ho(2), of v re L R j ho1]
        by (intro item [of el True re L R]) auto
    next
      case RightEnd
      show ?thesis using Cons.prems Item RightEnd process_right_end [OF ho(1), of v le L R j ho2]
        by (intro item [of el le True L R]) auto
    qed
  next
    case FlushBatch
    have "?step j FlushBatch = ret ([FlushBatch], j)" by (simp add: buffer_step_def join_handle_def)
    moreover have "sides_from le re seg" using Cons.prems(2) FlushBatch by simp
    from Cons.IH [OF Cons.prems(1) this] obtain out j' where
      "transduceR ?step j seg = ret (out, j')" "hash_join_at v True True (L @ left_items seg) (R @ right_items seg) j'"
        "outer_mset v True True (L @ left_items seg) (R @ right_items seg) = outer_mset v le re L R + mset (elem_values out)"
        "plain out" "count_list out FlushBatch = count_list seg FlushBatch" by blast
    ultimately show ?thesis unfolding FlushBatch transduceR.simps by auto
  qed (use Cons.prems in auto)
qed

lemma join_iteration:
  assumes ho: "hash_order ho1" "hash_order ho2" and j: "hash_join_at v False False [] [] j" and seg: "two_sided seg"
  shows "\<exists>out j'. transduceR (buffer_step (join_handle ho1 ho2 (\<lambda>x. x))) j (seg @ [FlushAndRestart]) = ret (out @ [FlushAndRestart], j')
    \<and> joins (join_spec v (left_items seg) (right_items seg)) seg out \<and> hash_join_at v False False [] [] j'"
proof -
  from join_segment [OF ho j seg] obtain out j1 where
    seg: "transduceR (buffer_step (join_handle ho1 ho2 (\<lambda>x. x))) j seg = ret (out, j1)"
      "hash_join_at v True True (left_items seg) (right_items seg) j1"
      "outer_mset v True True (left_items seg) (right_items seg) = mset (elem_values out)"
      "plain out" "count_list out FlushBatch = count_list seg FlushBatch"
    by (auto simp: outer_mset_def inner_pairs_def left_only_def right_only_def)
  have "\<exists>j'. join_restart j1 = ret j' \<and> hash_join_at v False False [] [] j'"
    using seg(2) by (simp add: join_restart_def hash_join_at_def)
  then obtain j' where "join_restart j1 = ret j'" "hash_join_at v False False [] [] j'" by blast
  moreover have "joins (join_spec v (left_items seg) (right_items seg)) seg out"
    using seg(3-5) by (auto simp: joins_def join_spec_def outer_mset_def ac_simps)
  ultimately show ?thesis using seg(1) by (simp add: transduceR_append buffer_step_def join_handle_def)
qed


lemma map_unsegment: "map (elem_map f) (unsegment segs) = unsegment (map (map (elem_map f)) segs)"
  by (induction segs) (simp_all add: unsegment_def)

lemma join_keyed_items:
  "left_items (map (elem_map (join_keyed f g)) seg) = map (\<lambda>x. (f x, x)) (left_items seg)"
  "right_items (map (elem_map (join_keyed f g)) seg) = map (\<lambda>y. (g y, y)) (right_items seg)"
  "sides_from le re (map (elem_map (join_keyed f g)) seg) = sides_from le re seg"
proof -
  show "left_items (map (elem_map (join_keyed f g)) seg) = map (\<lambda>x. (f x, x)) (left_items seg)"
    "right_items (map (elem_map (join_keyed f g)) seg) = map (\<lambda>y. (g y, y)) (right_items seg)"
    by (induction seg) (auto simp: join_keyed_def left_items_def right_items_def split: stream_element.split binary_element.split)
  show "sides_from le re (map (elem_map (join_keyed f g)) seg) = sides_from le re seg"
    by (induction le re seg rule: sides_from.induct) (simp_all add: join_keyed_def)
qed

lemma count_FlushBatch_map: "count_list (map (elem_map f) seg) FlushBatch = count_list seg FlushBatch"
proof (induction seg)
  case (Cons e seg)
  then show ?case by (cases e) auto
qed simp

text \<open>A run of an operator with a buffer, from what it does in an iteration.\<close>

lemma buffer_run:
  fixes p :: "('s, 'i) pull"
  assumes wf: "wf_stream es" and input: "pulls p s es s'" and start: "I c"
    and iter: "\<And>c seg. I c \<Longrightarrow> seg \<in> set (iterations es) \<Longrightarrow>
      \<exists>out c'. transduceR (buffer_step handle) c (seg @ [FlushAndRestart]) = ret (out @ [FlushAndRestart], c') \<and> Q seg out \<and> I c'"
    and fin: "\<And>c. buffer_step handle c Terminate = ret ([Terminate], c)"
  shows "\<exists>outs st'. pulls (buffer_next handle p) (buffered_new s c) (unsegment outs) st' \<and> list_all2 Q (iterations es) outs"
proof -
  from transduceR_unsegment [where I = I and Q = Q, OF start iter fin] obtain outs c' where
    run: "transduceR (buffer_step handle) c (unsegment (iterations es)) = ret (unsegment outs, c')"
    and Q: "list_all2 Q (iterations es) outs" by blast
  have es: "unsegment (iterations es) = es" by (rule wf_stream_unsegment(1) [OF wf])
  obtain ys where ys: "es = ys @ [Terminate]" using wf by (rule wf_stream_ends)
  have idle: "buffer_idle (buffered_new s c) c s" by (simp add: buffer_idle_def buffered_new_def)
  have "transduceR (buffer_step handle) c (ys @ [Terminate]) = ret (unsegment outs, c')" using run unfolding es unfolding ys .
  from buffer_tr.producesR_last [OF idle input [unfolded ys] this] fin Q show ?thesis by auto
qed

text \<open>A run of a join, whatever computes the keys of the elements.\<close>

lemma hash_join_run:
  fixes p :: "('s, 'i) pull"
  assumes ho: "hash_order ho1" "hash_order ho2" and wf: "wf_stream es"
    and sides: "\<forall>seg \<in> set (iterations es). two_sided (map (elem_map keyed) seg)" and input: "pulls p s es s'"
  shows "\<exists>outs st'. pulls (buffer_next (join_handle ho1 ho2 keyed) p) (buffered_new s (hash_join_new v)) (unsegment outs) st'
    \<and> list_all2 (\<lambda>seg out. joins (join_spec v (left_items (map (elem_map keyed) seg)) (right_items (map (elem_map keyed) seg))) seg out)
        (iterations es) outs"
proof -
  let ?step = "buffer_step (join_handle ho1 ho2 keyed)" and ?I = "hash_join_at v False False [] []"
  let ?Q = "\<lambda>seg out. joins (join_spec v (left_items (map (elem_map keyed) seg)) (right_items (map (elem_map keyed) seg))) seg out"
  have start: "?I (hash_join_new v)" by (simp add: hash_join_at_def hash_join_new_def side_default_def)
  have iter: "\<exists>out j'. transduceR ?step j (seg @ [FlushAndRestart]) = ret (out @ [FlushAndRestart], j') \<and> ?Q seg out \<and> ?I j'"
    if "?I j" "seg \<in> set (iterations es)" for j seg
    using join_iteration [OF ho that(1), of "map (elem_map keyed) seg"] sides that(2)
    by (auto simp: transduce_keyed [of ho1 ho2 keyed] joins_def count_FlushBatch_map)
  have fin: "?step j Terminate = ret ([Terminate], j)" for j by (simp add: buffer_step_def join_handle_def)
  from buffer_run [where I = ?I and Q = ?Q, OF wf input start iter fin] show ?thesis by blast
qed

text \<open>The finishing maps of \<^verbatim>\<open>inner()\<close> and \<^verbatim>\<open>left()\<close>, which unwrap what their variant always fills.\<close>

definition inner_unwrap :: "('a, 'b) outer_tuple \<Rightarrow> ('a \<times> 'b) res" where
  "inner_unwrap t = bindR (unwrapR (fst t)) (\<lambda>x. bindR (unwrapR (snd t)) (\<lambda>y. ret (x, y)))"

definition left_unwrap :: "('a, 'b) outer_tuple \<Rightarrow> ('a \<times> 'b option) res" where
  "left_unwrap t = bindR (unwrapR (fst t)) (\<lambda>x. ret (x, snd t))"

lemma join_spec_unwraps:
  "t \<in> set (join_spec InnerJoin L R) \<Longrightarrow> \<exists>x y. inner_unwrap (snd t) = ret (x, y)"
  "t \<in> set (join_spec LeftJoin L R) \<Longrightarrow> \<exists>x y. left_unwrap (snd t) = ret (x, y)"
  by (auto simp: join_spec_def left_outer_def right_outer_def inner_pairs_def left_only_def inner_unwrap_def left_unwrap_def
      split: if_splits)

lemma joins_unwrap:
  assumes "joins (join_spec v L R) seg out" and "t \<in> set (elem_values out)"
  shows "(v = InnerJoin \<longrightarrow> (\<exists>x y. inner_unwrap (snd t) = ret (x, y))) \<and> (v = LeftJoin \<longrightarrow> (\<exists>x y. left_unwrap (snd t) = ret (x, y)))"
proof -
  have "set (elem_values out) = set (join_spec v L R)" using assms(1) by (metis joins_def set_mset_mset)
  with assms(2) show ?thesis using join_spec_unwraps [of t L R] by auto
qed

section \<open>The inner join of keyed streams\<close>

record ('k, 'a, 'b) keyed_inner =
  ki_left :: "('k, 'a list) hmap"
  ki_right :: "('k, 'b list) hmap"
  ki_left_ended :: bool
  ki_right_ended :: bool

definition keyed_inner_new :: "('k, 'a, 'b) keyed_inner" where
  "keyed_inner_new = \<lparr>ki_left = [], ki_right = [], ki_left_ended = False, ki_right_ended = False\<rparr>"

fun keyed_inner_process :: "('k, 'a, 'b) keyed_inner \<Rightarrow> ('k \<times> 'a, 'k \<times> 'b) binary_element \<Rightarrow> ('k \<times> ('a \<times> 'b)) list \<times> ('k, 'a, 'b) keyed_inner" where
  "keyed_inner_process j (BLeft (k, x)) =
     ((case map_of (ki_right j) k of None \<Rightarrow> [] | Some ys \<Rightarrow> map (\<lambda>y. (k, (x, y))) ys),
      j\<lparr>ki_left := push_entry k x (ki_left j)\<rparr>)"
| "keyed_inner_process j (BRight (k, y)) =
     ((case map_of (ki_left j) k of None \<Rightarrow> [] | Some xs \<Rightarrow> map (\<lambda>x. (k, (x, y))) xs),
      j\<lparr>ki_right := push_entry k y (ki_right j)\<rparr>)"
| "keyed_inner_process j LeftEnd =
     (let j = j\<lparr>ki_left_ended := True, ki_right := []\<rparr>
      in ([], if ki_right_ended j then j\<lparr>ki_left := [], ki_right := []\<rparr> else j))"
| "keyed_inner_process j RightEnd =
     (let j = j\<lparr>ki_right_ended := True, ki_left := []\<rparr>
      in ([], if ki_left_ended j then j\<lparr>ki_left := [], ki_right := []\<rparr> else j))"

definition keyed_inner_handle :: "(('k, 'a, 'b) keyed_inner, ('k \<times> 'a, 'k \<times> 'b) binary_element, 'k \<times> ('a \<times> 'b)) handler" where
  "keyed_inner_handle j e =
     (case e of
        Item el \<Rightarrow> ret (Inl (keyed_inner_process j el))
      | FlushAndRestart \<Rightarrow>
          assertR (ki_left j = []) (assertR (ki_right j = [])
            (ret (Inr (FlushAndRestart, j\<lparr>ki_left_ended := False, ki_right_ended := False\<rparr>))))
      | Terminate \<Rightarrow> ret (Inr (Terminate, j))
      | FlushBatch \<Rightarrow> ret (Inr (FlushBatch, j))
      | Watermark _ \<Rightarrow> panic ExplicitPanic
      | Timestamped _ _ \<Rightarrow> panic ExplicitPanic)"

definition keyed_inner_next :: "('s, ('k \<times> 'a, 'k \<times> 'b) binary_element) pull
    \<Rightarrow> (('s, ('k, 'a, 'b) keyed_inner, 'k \<times> ('a \<times> 'b)) buffered, 'k \<times> ('a \<times> 'b)) pull" where
  "keyed_inner_next = buffer_next keyed_inner_handle"

text \<open>The reference, and the state after part of an iteration.\<close>

definition inner_spec :: "('k \<times> 'a) list \<Rightarrow> ('k \<times> 'b) list \<Rightarrow> ('k \<times> ('a \<times> 'b)) list" where
  "inner_spec L R = [(k, (x, y)). ((k, x), (k', y)) \<leftarrow> List.product L R, k = k']"

definition keyed_inner_at :: "bool \<Rightarrow> bool \<Rightarrow> ('k \<times> 'a) list \<Rightarrow> ('k \<times> 'b) list \<Rightarrow> ('k, 'a, 'b) keyed_inner \<Rightarrow> bool" where
  "keyed_inner_at le re L R j \<longleftrightarrow>
     ki_left_ended j = le \<and> ki_right_ended j = re \<and> (\<not> re \<longrightarrow> grouped L (ki_left j)) \<and> (\<not> le \<longrightarrow> grouped R (ki_right j))
   \<and> (le \<and> re \<longrightarrow> ki_left j = [] \<and> ki_right j = [])"

lemma inner_spec_left:
  "inner_spec (L @ [(k, x)]) R = inner_spec L R @ map (\<lambda>y. (k, (x, y))) (key_group k R)"
proof -
  have prod: "List.product (L @ [a]) R = List.product L R @ map (Pair a) R" for a by (induction L) auto
  have "concat (map (\<lambda>((k, x), k', y). if k = k' then [(k, x, y)] else []) (map (Pair (k, x)) R)) =
      map (\<lambda>y. (k, (x, y))) (key_group k R)" by (induction R) auto
  then show ?thesis by (simp add: inner_spec_def prod)
qed

lemma inner_spec_right:
  "mset (inner_spec L (R @ [(k, y)])) = mset (inner_spec L R) + mset (map (\<lambda>x. (k, (x, y))) (key_group k L))"
  by (induction L) (auto simp: inner_spec_def)

lemma grouped_lookup: "grouped R m \<Longrightarrow> (case map_of m k of None \<Rightarrow> [] | Some ys \<Rightarrow> map h ys) = map h (key_group k R)"
  by (simp add: grouped_def)

lemma keyed_inner_segment:
  assumes "keyed_inner_at le re L R j" and "sides_from le re seg"
  shows "\<exists>out j'. transduceR (buffer_step keyed_inner_handle) j seg = ret (out, j')
    \<and> keyed_inner_at True True (L @ left_items seg) (R @ right_items seg) j'
    \<and> mset (inner_spec (L @ left_items seg) (R @ right_items seg)) = mset (inner_spec L R) + mset (elem_values out)
    \<and> plain out \<and> count_list out FlushBatch = count_list seg FlushBatch"
  using assms
proof (induction le re seg arbitrary: L R j rule: sides_from.induct)
  case (1 le re)
  then show ?case by auto
next
  case (2 le re kx es)
  obtain k x where kx: "kx = (k, x)" by (cases kx)
  let ?j = "j\<lparr>ki_left := push_entry k x (ki_left j)\<rparr>"
  have "keyed_inner_at le re (L @ [(k, x)]) R ?j" using 2(2,3) grouped_push by (auto simp: keyed_inner_at_def)
  moreover have "buffer_step keyed_inner_handle j (Item (BLeft (k, x))) = ret (map Item (map (\<lambda>y. (k, (x, y))) (key_group k R)), ?j)"
    using 2(2,3) grouped_lookup [where R = R and m = "ki_right j" and k = k and h = "\<lambda>y. (k, (x, y))"]
    by (simp add: buffer_step_def keyed_inner_handle_def keyed_inner_at_def del: map_map)
  ultimately show ?case using 2(1) [of "L @ [(k, x)]" R ?j] 2(3) kx by (auto simp: inner_spec_left simp del: map_map)
next
  case (3 le re ky es)
  obtain k y where ky: "ky = (k, y)" by (cases ky)
  let ?j = "j\<lparr>ki_right := push_entry k y (ki_right j)\<rparr>"
  have "keyed_inner_at le re L (R @ [(k, y)]) ?j" using 3(2,3) grouped_push by (auto simp: keyed_inner_at_def)
  moreover have "buffer_step keyed_inner_handle j (Item (BRight (k, y))) = ret (map Item (map (\<lambda>x. (k, (x, y))) (key_group k L)), ?j)"
    using 3(2,3) grouped_lookup [where R = L and m = "ki_left j" and k = k and h = "\<lambda>x. (k, (x, y))"]
    by (simp add: buffer_step_def keyed_inner_handle_def keyed_inner_at_def del: map_map)
  ultimately show ?case using 3(1) [of L "R @ [(k, y)]" ?j] 3(3) ky by (auto simp: inner_spec_right simp del: map_map)
next
  case (4 le re es)
  let ?j = "snd (keyed_inner_process j LeftEnd)"
  have "keyed_inner_at True re L R ?j" using 4(2,3) by (auto simp: keyed_inner_at_def)
  moreover have "buffer_step keyed_inner_handle j (Item LeftEnd) = ret ([], ?j)" by (simp add: buffer_step_def keyed_inner_handle_def Let_def)
  ultimately show ?case using 4(1) [of L R ?j] 4(3) by auto
next
  case (5 le re es)
  let ?j = "snd (keyed_inner_process j RightEnd)"
  have "keyed_inner_at le True L R ?j" using 5(2,3) by (auto simp: keyed_inner_at_def)
  moreover have "buffer_step keyed_inner_handle j (Item RightEnd) = ret ([], ?j)" by (simp add: buffer_step_def keyed_inner_handle_def Let_def)
  ultimately show ?case using 5(1) [of L R ?j] 5(3) by auto
next
  case (6 le re es)
  have "buffer_step keyed_inner_handle j FlushBatch = ret ([FlushBatch], j)" by (simp add: buffer_step_def keyed_inner_handle_def)
  then show ?case using 6(1) [of L R j] 6(2,3) by auto
qed simp_all

lemma keyed_inner_run:
  fixes p :: "('s, ('k \<times> 'a, 'k \<times> 'b) binary_element) pull"
  assumes wf: "wf_stream es" and sides: "\<forall>seg \<in> set (iterations es). two_sided seg" and input: "pulls p s es s'"
  shows "\<exists>outs st'. pulls (keyed_inner_next p) (buffered_new s keyed_inner_new) (unsegment outs) st'
    \<and> list_all2 (\<lambda>seg out. joins (inner_spec (left_items seg) (right_items seg)) seg out) (iterations es) outs"
proof -
  let ?step = "buffer_step keyed_inner_handle" and ?I = "keyed_inner_at False False [] []"
  let ?Q = "\<lambda>seg out. joins (inner_spec (left_items seg) (right_items seg)) seg out"
  have start: "?I keyed_inner_new" by (simp add: keyed_inner_at_def keyed_inner_new_def)
  have iter: "\<exists>out j'. transduceR ?step j (seg @ [FlushAndRestart]) = ret (out @ [FlushAndRestart], j') \<and> ?Q seg out \<and> ?I j'"
    if j: "?I j" and "seg \<in> set (iterations es)" for j and seg
  proof -
    have "two_sided seg" using sides that(2) by blast
    from keyed_inner_segment [OF j this] obtain out j1 where
      seg: "transduceR ?step j seg = ret (out, j1)" "keyed_inner_at True True (left_items seg) (right_items seg) j1"
        "mset (inner_spec (left_items seg) (right_items seg)) = mset (elem_values out)" "plain out"
        "count_list out FlushBatch = count_list seg FlushBatch"
      by (auto simp: inner_spec_def)
    have "?step j1 FlushAndRestart = ret ([FlushAndRestart], j1\<lparr>ki_left_ended := False, ki_right_ended := False\<rparr>)"
      using seg(2) by (simp add: buffer_step_def keyed_inner_handle_def keyed_inner_at_def)
    then show ?thesis using seg by (simp add: transduceR_append keyed_inner_at_def joins_def)
  qed
  have fin: "?step j Terminate = ret ([Terminate], j)" for j by (simp add: buffer_step_def keyed_inner_handle_def)
  from buffer_run [where I = ?I and Q = ?Q, OF wf input start iter fin] show ?thesis unfolding keyed_inner_next_def by blast
qed

section \<open>Properties\<close>

text \<open>
  C28: for every iteration of a well-formed binary stream \<^verbatim>\<open>JoinLocalHash\<close> returns, without panicking, exactly
  the tuples of the join of the two sides (as a multiset, for any order in which the hash maps are
  drained and any interleaving of the sides): every pair with equal keys once, for \<^verbatim>\<open>left\<close> and \<^verbatim>\<open>outer\<close> each left element without a
  partner, for \<^verbatim>\<open>outer\<close> each right element without one; \<^verbatim>\<open>inner()\<close> and \<^verbatim>\<open>left()\<close> can unwrap what they return.
\<close>

theorem local_hash_joins:
  assumes "hash_order ho1" and "hash_order ho2" and "wf_stream es" and "\<forall>seg \<in> set (iterations es). two_sided seg" and "pulls p s es s'"
  shows "\<exists>outs st'. pulls (local_hash_next ho1 ho2 keyer1 keyer2 p) (buffered_new s (hash_join_new v)) (unsegment outs) st'
    \<and> list_all2 (\<lambda>seg out. joins (join_spec v (map (\<lambda>x. (keyer1 x, x)) (left_items seg)) (map (\<lambda>y. (keyer2 y, y)) (right_items seg))) seg out
         \<and> (\<forall>t \<in> set (elem_values out). (v = InnerJoin \<longrightarrow> (\<exists>x y. inner_unwrap (snd t) = ret (x, y)))
             \<and> (v = LeftJoin \<longrightarrow> (\<exists>x y. left_unwrap (snd t) = ret (x, y)))))
       (iterations es) outs"
proof -
  have "\<forall>seg \<in> set (iterations es). two_sided (map (elem_map (join_keyed keyer1 keyer2)) seg)"
    using assms(4) by (simp add: join_keyed_items)
  from hash_join_run [OF assms(1-3) this assms(5), of v] obtain outs st' where
    out: "pulls (local_hash_next ho1 ho2 keyer1 keyer2 p) (buffered_new s (hash_join_new v)) (unsegment outs) st'"
      "list_all2 (\<lambda>seg out. joins (join_spec v (map (\<lambda>x. (keyer1 x, x)) (left_items seg)) (map (\<lambda>y. (keyer2 y, y)) (right_items seg))) seg out)
         (iterations es) outs"
    unfolding join_keyed_items local_hash_next_def by blast
  have "list_all2 (\<lambda>seg out. joins (join_spec v (map (\<lambda>x. (keyer1 x, x)) (left_items seg)) (map (\<lambda>y. (keyer2 y, y)) (right_items seg))) seg out
         \<and> (\<forall>t \<in> set (elem_values out). (v = InnerJoin \<longrightarrow> (\<exists>x y. inner_unwrap (snd t) = ret (x, y)))
             \<and> (v = LeftJoin \<longrightarrow> (\<exists>x y. left_unwrap (snd t) = ret (x, y)))))
       (iterations es) outs"
    by (rule list_all2_mono [OF out(2)]) (blast dest: joins_unwrap)
  with out(1) show ?thesis by blast
qed

text \<open>
  The joins of two keyed streams: \<^verbatim>\<open>JoinKeyedOuter\<close> returns the outer join of the values of each key, \<^verbatim>\<open>JoinKeyedInner\<close>
  the inner join, for each iteration and without panicking.
\<close>

theorem keyed_joins:
  assumes "hash_order ho1" and "hash_order ho2" and "wf_stream es" and "\<forall>seg \<in> set (iterations es). two_sided seg" and "pulls p s es s'"
  shows "(\<exists>outs st'. pulls (keyed_outer_next ho1 ho2 p) (buffered_new s (hash_join_new v)) (unsegment outs) st'
       \<and> list_all2 (\<lambda>seg out. joins (join_spec v (left_items seg) (right_items seg)) seg out) (iterations es) outs)
    \<and> (\<exists>outs st'. pulls (keyed_inner_next p) (buffered_new s keyed_inner_new) (unsegment outs) st'
       \<and> list_all2 (\<lambda>seg out. joins (inner_spec (left_items seg) (right_items seg)) seg out) (iterations es) outs)"
proof -
  have id: "map (elem_map (\<lambda>x. x)) seg = seg" for seg :: "'x stream_element list"
  proof -
    have "elem_map (\<lambda>x. x) e = e" for e :: "'x stream_element" by (cases e) simp_all
    then show ?thesis by (simp add: map_idI)
  qed
  have "\<exists>outs st'. pulls (keyed_outer_next ho1 ho2 p) (buffered_new s (hash_join_new v)) (unsegment outs) st'
       \<and> list_all2 (\<lambda>seg out. joins (join_spec v (left_items seg) (right_items seg)) seg out) (iterations es) outs"
    using hash_join_run [OF assms(1-3) _ assms(5), of "\<lambda>x. x" v] assms(4) unfolding id keyed_outer_next_def keyed_outer_handle_eq by blast
  with keyed_inner_run [OF assms(3-5)] show ?thesis by blast
qed

abbreviation join_example :: "(nat \<times> string, nat \<times> bool) binary_element stream_element list" where
  "join_example \<equiv> [Item (BLeft (1, ''a'')), Item (BRight (1, True)), Item LeftEnd, Item (BRight (2, False)), Item (BRight (1, False)),
     Item RightEnd, FlushAndRestart, Terminate]"

lemma join_example_ok:
  "wf_stream join_example" "iterations join_example = [butlast (butlast join_example)]" "\<forall>seg \<in> set (iterations join_example). two_sided seg"
  by (simp_all add: wf_stream_def iterations_def)

theorem local_hash_joins_witness:
  "\<exists>out st'. pulls (local_hash_next (\<lambda>m. m) rev fst fst fake_next) (buffered_new join_example (hash_join_new OuterJoin)) (out @ [FlushAndRestart, Terminate]) st'
    \<and> mset (elem_values out) = {# (1, (Some (1, ''a''), Some (1, True))), (1, (Some (1, ''a''), Some (1, False))), (2, (None, Some (2, False))) #}"
proof -
  obtain outs st' where
    run: "pulls (local_hash_next (\<lambda>m. m) rev fst fst fake_next) (buffered_new join_example (hash_join_new OuterJoin)) (unsegment outs) st'"
    and out: "list_all2 (\<lambda>seg out. joins (join_spec OuterJoin (map (\<lambda>x. (fst x, x)) (left_items seg)) (map (\<lambda>y. (fst y, y)) (right_items seg))) seg out)
         (iterations join_example) outs"
    using local_hash_joins [OF hash_order_id hash_order_rev join_example_ok(1,3) pulls_fake_all, of fst fst OuterJoin]
    by (auto elim!: list_all2_mono)
  then obtain o1 where "outs = [o1]" unfolding join_example_ok(2) by (auto simp: list_all2_Cons1)
  with run out show ?thesis unfolding join_example_ok(2)
    by (auto simp: unsegment_def joins_def join_spec_def inner_pairs_def left_only_def right_only_def left_outer_def right_outer_def)
qed

theorem keyed_joins_witness:
  "\<exists>out st'. pulls (keyed_inner_next fake_next) (buffered_new join_example keyed_inner_new) (out @ [FlushAndRestart, Terminate]) st'
    \<and> mset (elem_values out) = {# (1, (''a'', True)), (1, (''a'', False)) #}"
proof -
  obtain outs st' where
    run: "pulls (keyed_inner_next fake_next) (buffered_new join_example keyed_inner_new) (unsegment outs) st'"
    and out: "list_all2 (\<lambda>seg out. joins (inner_spec (left_items seg) (right_items seg)) seg out) (iterations join_example) outs"
    using keyed_joins [OF hash_order_id hash_order_id join_example_ok(1,3) pulls_fake_all, of InnerJoin] by blast
  then obtain o1 where "outs = [o1]" unfolding join_example_ok(2) by (auto simp: list_all2_Cons1)
  with run out show ?thesis unfolding join_example_ok(2) by (auto simp: unsegment_def joins_def inner_spec_def)
qed

end
