(* ===== verification/Sort_Merge_Join.thy ===== *)
theory Sort_Merge_Join
  imports Join
begin

text \<open>
  The sort-merge join of \<^verbatim>\<open>src/operator/join/local_sort_merge.rs\<close>. The two sides are vectors whose last
  element is popped; \<^verbatim>\<open>advance\<close> fills the buffer with the tuples of at most a few elements at a time.
\<close>

section \<open>The operator\<close>

record ('k, 'a, 'b) sort_merge =
  sj_left_ended :: bool
  sj_right_ended :: bool
  sj_left :: "('k \<times> 'a) list"
  sj_right :: "('k \<times> 'b) list"
  sj_buffer :: "('k \<times> ('a, 'b) outer_tuple) list"
  sj_variant :: join_variant
  sj_last_left_key :: "'k option"

definition sort_merge_new :: "join_variant \<Rightarrow> ('k, 'a, 'b) sort_merge" where
  "sort_merge_new v =
     \<lparr>sj_left_ended = False, sj_right_ended = False, sj_left = [], sj_right = [], sj_buffer = [], sj_variant = v, sj_last_left_key = None\<rparr>"

definition discard_right :: "('k, 'a, 'b) sort_merge \<Rightarrow> ('k, 'a, 'b) sort_merge res" where
  "discard_right j =
     (if sj_right j = [] then panic UnwrapNone
      else
        let (rkey, rvalue) = last (sj_right j);
            j = j\<lparr>sj_right := butlast (sj_right j)\<rparr>;
            matched = (case sj_last_left_key j of Some lkey \<Rightarrow> lkey = rkey | None \<Rightarrow> False)
        in ret (if \<not> matched \<and> right_outer (sj_variant j) then j\<lparr>sj_buffer := sj_buffer j @ [(rkey, (None, Some rvalue))]\<rparr> else j))"

fun discard_times :: "nat \<Rightarrow> ('k, 'a, 'b) sort_merge \<Rightarrow> ('k, 'a, 'b) sort_merge res" where
  "discard_times 0 j = ret j"
| "discard_times (Suc n) j = bindR (discard_right j) (discard_times n)"

text \<open>The body of the loop of \<^verbatim>\<open>advance\<close>, and the loop; its inner \<^verbatim>\<open>while !self.right.is_empty()\<close> discards all that is left.\<close>

definition advance_step :: "('k :: linorder, 'a, 'b) sort_merge \<Rightarrow> ('k, 'a, 'b) sort_merge res" where
  "advance_step j =
     (if sj_left j \<noteq> [] then
        let (lkey, lvalue) = last (sj_left j);
            j = j\<lparr>sj_left := butlast (sj_left j)\<rparr>;
            discarded = length (takeWhile (\<lambda>(rkey, _). lkey < rkey) (rev (sj_right j)))
        in bindR (discard_times discarded j) (\<lambda>j.
          let has_matches = (sj_right j \<noteq> [] \<and> fst (last (sj_right j)) = lkey);
              matches = map (\<lambda>(_, rvalue). (lkey, (Some lvalue, Some rvalue))) (takeWhile (\<lambda>(rkey, _). lkey = rkey) (rev (sj_right j)));
              items = (if has_matches then matches
                       else if left_outer (sj_variant j) then [(lkey, (Some lvalue, None))] else [])
          in ret (j\<lparr>sj_buffer := sj_buffer j @ items, sj_last_left_key := Some lkey\<rparr>))
      else discard_times (length (sj_right j)) j)"

lemma bindR_cong [fundef_cong]: "m = m' \<Longrightarrow> (\<And>x. m' = ret x \<Longrightarrow> f x = g x) \<Longrightarrow> bindR m f = bindR m' g"
  by (auto simp: bindR_def split: option.splits sum.splits)

lemma discard_right_length:
  "discard_right j = ret j' \<Longrightarrow> length (sj_right j') < length (sj_right j) \<and> sj_left j' = sj_left j"
  by (auto simp: discard_right_def Let_def split: if_splits prod.splits)

lemma discard_times_length:
  "discard_times n j = ret j' \<Longrightarrow> length (sj_right j') + n = length (sj_right j) \<and> sj_left j' = sj_left j"
proof (induction n arbitrary: j)
  case (Suc n)
  then obtain j1 where "discard_right j = ret j1" "discard_times n j1 = ret j'" by (auto simp: bindR_eq_ret)
  moreover have "length (sj_right j1) + 1 = length (sj_right j)" "sj_left j1 = sj_left j"
    using \<open>discard_right j = ret j1\<close> by (auto simp: discard_right_def Let_def split: if_splits prod.splits)
  ultimately show ?case using Suc.IH [of j1] by auto
qed simp

lemma advance_step_decreases:
  assumes "advance_step j = ret j'" and "sj_left j \<noteq> [] \<or> sj_right j \<noteq> []"
  shows "length (sj_left j') + length (sj_right j') < length (sj_left j) + length (sj_right j)"
proof (cases "sj_left j = []")
  case True
  with assms discard_times_length [of "length (sj_right j)" j j'] show ?thesis by (auto simp: advance_step_def)
next
  case False
  then obtain n where "length (sj_left j) = Suc n" by (cases "sj_left j") auto
  with assms False show ?thesis
    by (auto simp: advance_step_def Let_def bindR_eq_ret dest!: discard_times_length split: prod.splits)
qed

function advance :: "('k :: linorder, 'a, 'b) sort_merge \<Rightarrow> ('k, 'a, 'b) sort_merge res" where
  "advance j =
     (if sj_buffer j = [] \<and> (sj_left j \<noteq> [] \<or> sj_right j \<noteq> []) then bindR (advance_step j) advance else ret j)"
  by auto
termination
  by (relation "measure (\<lambda>j. length (sj_left j) + length (sj_right j))") (auto dest: advance_step_decreases)

declare advance.simps [simp del]

fun sort_merge_item :: "(('k \<times> 'a) list \<Rightarrow> ('k \<times> 'a) list) \<Rightarrow> (('k \<times> 'b) list \<Rightarrow> ('k \<times> 'b) list)
    \<Rightarrow> ('a \<Rightarrow> 'k :: linorder) \<Rightarrow> ('b \<Rightarrow> 'k) \<Rightarrow> ('a, 'b) binary_element \<Rightarrow> ('k, 'a, 'b) sort_merge \<Rightarrow> ('k, 'a, 'b) sort_merge" where
  "sort_merge_item srt1 srt2 keyer1 keyer2 (BLeft x) j = j\<lparr>sj_left := sj_left j @ [(keyer1 x, x)]\<rparr>"
| "sort_merge_item srt1 srt2 keyer1 keyer2 (BRight y) j = j\<lparr>sj_right := sj_right j @ [(keyer2 y, y)]\<rparr>"
| "sort_merge_item srt1 srt2 keyer1 keyer2 LeftEnd j = j\<lparr>sj_left_ended := True, sj_left := srt1 (sj_left j)\<rparr>"
| "sort_merge_item srt1 srt2 keyer1 keyer2 RightEnd j = j\<lparr>sj_right_ended := True, sj_right := srt2 (sj_right j)\<rparr>"

definition sort_merge_restart :: "('k, 'a, 'b) sort_merge \<Rightarrow> ('k, 'a, 'b) sort_merge res" where
  "sort_merge_restart j =
     assertR (sj_left_ended j) (assertR (sj_right_ended j) (assertR (sj_left j = []) (assertR (sj_right j = [])
       (ret (j\<lparr>sj_left_ended := False, sj_right_ended := False, sj_last_left_key := None\<rparr>)))))"

partial_function (option) sort_merge_next :: "(('k \<times> 'a) list \<Rightarrow> ('k \<times> 'a) list) \<Rightarrow> (('k \<times> 'b) list \<Rightarrow> ('k \<times> 'b) list)
    \<Rightarrow> ('a \<Rightarrow> 'k :: linorder) \<Rightarrow> ('b \<Rightarrow> 'k) \<Rightarrow> ('s, ('a, 'b) binary_element) pull
    \<Rightarrow> ('s \<times> ('k, 'a, 'b) sort_merge, 'k \<times> ('a, 'b) outer_tuple) pull" where
  "sort_merge_next srt1 srt2 keyer1 keyer2 prev st =
     (case st of (s, j) \<Rightarrow>
      bindR (if sj_buffer j = [] \<and> sj_left_ended j \<and> sj_right_ended j then advance j else ret j) (\<lambda>j.
        case sj_buffer j of
          item # rest \<Rightarrow> ret (Item item, (s, j\<lparr>sj_buffer := rest\<rparr>))
        | [] \<Rightarrow>
            bindR (prev s) (\<lambda>(e, s').
              case e of
                Item el \<Rightarrow> sort_merge_next srt1 srt2 keyer1 keyer2 prev (s', sort_merge_item srt1 srt2 keyer1 keyer2 el j)
              | FlushAndRestart \<Rightarrow> bindR (sort_merge_restart j) (\<lambda>j. ret (FlushAndRestart, (s', j)))
              | FlushBatch \<Rightarrow> ret (FlushBatch, (s', j))
              | Terminate \<Rightarrow> ret (Terminate, (s', j))
              | Timestamped _ _ \<Rightarrow> panic ExplicitPanic
              | Watermark _ \<Rightarrow> panic ExplicitPanic)))"

section \<open>The merge as a function\<close>

text \<open>
  The reference works on the two sides in the order in which they are popped, from the largest key down:
  the tuples of one left element, after the right elements with larger keys, which no other left element can match.
\<close>

definition discarded :: "join_variant \<Rightarrow> 'k option \<Rightarrow> ('k \<times> 'b) list \<Rightarrow> ('k \<times> ('a, 'b) outer_tuple) list" where
  "discarded v lk r = (if right_outer v then [(k, (None, Some y)). (k, y) \<leftarrow> r, lk \<noteq> Some k] else [])"

lemma discarded_Nil [simp]: "discarded v lk [] = []"
  by (simp add: discarded_def)

definition merge_one :: "join_variant \<Rightarrow> 'k option \<Rightarrow> 'k :: linorder \<Rightarrow> 'a \<Rightarrow> ('k \<times> 'b) list \<Rightarrow> ('k \<times> ('a, 'b) outer_tuple) list" where
  "merge_one v lk k x r =
     discarded v lk (takeWhile (\<lambda>p. k < fst p) r) @
     (case takeWhile (\<lambda>p. k = fst p) (dropWhile (\<lambda>p. k < fst p) r) of
        [] \<Rightarrow> if left_outer v then [(k, (Some x, None))] else []
      | ms \<Rightarrow> map (\<lambda>p. (k, (Some x, Some (snd p)))) ms)"

fun merge_out :: "join_variant \<Rightarrow> 'k option \<Rightarrow> ('k :: linorder \<times> 'a) list \<Rightarrow> ('k \<times> 'b) list \<Rightarrow> ('k \<times> ('a, 'b) outer_tuple) list" where
  "merge_out v lk [] r = discarded v lk r"
| "merge_out v lk ((k, x) # l) r = merge_one v lk k x r @ merge_out v (Some k) l (dropWhile (\<lambda>p. k < fst p) r)"

lemma discard_times_out:
  "sj_right j = rev (xs @ ys) \<Longrightarrow> discard_times (length xs) j =
     ret (j\<lparr>sj_right := rev ys, sj_buffer := sj_buffer j @ discarded (sj_variant j) (sj_last_left_key j) xs\<rparr>)"
proof (induction xs arbitrary: j)
  case Nil
  then show ?case by (cases j) (simp add: discarded_def)
next
  case (Cons p xs)
  obtain k y where p: "p = (k, y)" by (cases p)
  let ?j = "j\<lparr>sj_right := rev (xs @ ys), sj_buffer := sj_buffer j @ discarded (sj_variant j) (sj_last_left_key j) [p]\<rparr>"
  have "discard_right j = ret ?j"
    using Cons.prems p by (cases j) (auto simp: discard_right_def discarded_def butlast_append split: option.splits)
  moreover have "discard_times (length xs) ?j =
      ret (?j\<lparr>sj_right := rev ys, sj_buffer := sj_buffer ?j @ discarded (sj_variant ?j) (sj_last_left_key ?j) xs\<rparr>)"
    by (rule Cons.IH) simp
  moreover have d: "discarded v lk (p # xs) = discarded v lk [p] @ discarded v lk xs" for v lk by (simp add: discarded_def)
  ultimately show ?case by (simp add: d)
qed

lemma advance_step_out:
  fixes j :: "('k :: linorder, 'a, 'b) sort_merge"
  assumes "sj_left j = rev ((k, x) # l)" and "sj_right j = rev r"
  shows "advance_step j = ret (j\<lparr>sj_left := rev l, sj_right := rev (dropWhile (\<lambda>p. k < fst p) r),
      sj_buffer := sj_buffer j @ merge_one (sj_variant j) (sj_last_left_key j) k x r, sj_last_left_key := Some k\<rparr>)"
proof -
  define big rest where "big = takeWhile (\<lambda>p. k < fst p) r" and "rest = dropWhile (\<lambda>p. k < fst p) r"
  let ?j = "j\<lparr>sj_left := rev l\<rparr>"
  have "discard_times (length big) ?j =
      ret (?j\<lparr>sj_right := rev rest, sj_buffer := sj_buffer ?j @ discarded (sj_variant ?j) (sj_last_left_key ?j) big\<rparr>)"
    by (rule discard_times_out) (simp add: assms(2) big_def rest_def)
  moreover have "advance_step j = bindR (discard_times (length big) ?j) (\<lambda>j.
          let has_matches = (sj_right j \<noteq> [] \<and> fst (last (sj_right j)) = k);
              matches = map (\<lambda>p. (k, (Some x, Some (snd p)))) (takeWhile (\<lambda>p. k = fst p) (rev (sj_right j)));
              items = (if has_matches then matches else if left_outer (sj_variant j) then [(k, (Some x, None))] else [])
          in ret (j\<lparr>sj_buffer := sj_buffer j @ items, sj_last_left_key := Some k\<rparr>))"
    using assms by (simp add: advance_step_def case_prod_beta' big_def Let_def cong: if_cong)
  ultimately show ?thesis
    unfolding merge_one_def big_def [symmetric] rest_def [symmetric] by (cases rest) (simp_all add: Let_def)
qed

text \<open>\<^verbatim>\<open>advance\<close> stops with something in the buffer or with nothing left to merge.\<close>

lemma advance_out:
  assumes "sj_buffer j = []" and "sj_left j = rev l" and "sj_right j = rev r"
  shows "\<exists>l' r' b lk'. advance j = ret (j\<lparr>sj_left := rev l', sj_right := rev r', sj_buffer := b, sj_last_left_key := lk'\<rparr>)
    \<and> merge_out (sj_variant j) (sj_last_left_key j) l r = b @ merge_out (sj_variant j) lk' l' r'
    \<and> (b = [] \<longrightarrow> l' = [] \<and> r' = []) \<and> length l' + length r' \<le> length l + length r \<and> (l \<noteq> [] \<or> r \<noteq> [] \<longrightarrow> length l' + length r' < length l + length r)"
  using assms
proof (induction "length l + length r" arbitrary: j l r rule: less_induct)
  case less
  show ?case
  proof (cases l)
    case Nil
    show ?thesis
    proof (cases r)
      case Nil
      have "j\<lparr>sj_left := [], sj_right := [], sj_buffer := [], sj_last_left_key := sj_last_left_key j\<rparr> = j"
        using less.prems Nil \<open>l = []\<close> by (cases j) simp
      then show ?thesis using less.prems Nil \<open>l = []\<close> by (subst advance.simps) (auto intro!: exI [of _ "[]"] exI [of _ "sj_last_left_key j"] simp: discarded_def)
    next
      case (Cons p r1)
      let ?j = "j\<lparr>sj_right := [], sj_buffer := discarded (sj_variant j) (sj_last_left_key j) r\<rparr>"
      have "advance_step j = ret ?j"
        using less.prems \<open>l = []\<close> discard_times_out [of j r "[]"] by (simp add: advance_step_def)
      moreover have "advance ?j = ret ?j" using less.prems \<open>l = []\<close> by (subst advance.simps) simp
      ultimately have "advance j = ret ?j" using less.prems Cons by (subst advance.simps) simp
      moreover have "?j = j\<lparr>sj_left := rev [], sj_right := rev [], sj_buffer := discarded (sj_variant j) (sj_last_left_key j) r,
          sj_last_left_key := sj_last_left_key j\<rparr>" using less.prems \<open>l = []\<close> by (cases j) simp
      ultimately show ?thesis using Cons \<open>l = []\<close>
        by (intro exI [of _ "[]"] exI [of _ "discarded (sj_variant j) (sj_last_left_key j) r"] exI [of _ "sj_last_left_key j"])
          (auto simp: discarded_def)
    qed
  next
    case (Cons p l1)
    obtain k x where p: "p = (k, x)" by (cases p)
    let ?r = "dropWhile (\<lambda>p. k < fst p) r"
    let ?j = "j\<lparr>sj_left := rev l1, sj_right := rev ?r, sj_buffer := merge_one (sj_variant j) (sj_last_left_key j) k x r, sj_last_left_key := Some k\<rparr>"
    have step: "advance_step j = ret ?j" using advance_step_out [of j k x l1 r] less.prems Cons p by simp
    then have adv: "advance j = advance ?j" using less.prems Cons by (subst advance.simps) simp
    have len: "length ?r \<le> length r" by (rule length_dropWhile_le)
    show ?thesis
    proof (cases "merge_one (sj_variant j) (sj_last_left_key j) k x r = []")
      case False
      then have "advance ?j = ret ?j" by (subst advance.simps) simp
      then show ?thesis using adv False Cons p len
        by (intro exI [of _ l1] exI [of _ ?r] exI [of _ "merge_one (sj_variant j) (sj_last_left_key j) k x r"] exI [of _ "Some k"]) auto
    next
      case True
      have "length l1 + length ?r < length l + length r" using Cons len by simp
      from less.hyps [OF this, of ?j] True
      have "\<exists>l' r' b lk'. advance ?j = ret (?j\<lparr>sj_left := rev l', sj_right := rev r', sj_buffer := b, sj_last_left_key := lk'\<rparr>)
          \<and> merge_out (sj_variant j) (Some k) l1 ?r = b @ merge_out (sj_variant j) lk' l' r'
          \<and> (b = [] \<longrightarrow> l' = [] \<and> r' = []) \<and> length l' + length r' \<le> length l1 + length ?r" by fastforce
      then obtain l' r' b lk' where
        IH: "advance ?j = ret (?j\<lparr>sj_left := rev l', sj_right := rev r', sj_buffer := b, sj_last_left_key := lk'\<rparr>)"
          "merge_out (sj_variant j) (Some k) l1 ?r = b @ merge_out (sj_variant j) lk' l' r'"
          "b = [] \<longrightarrow> l' = [] \<and> r' = []" "length l' + length r' \<le> length l1 + length ?r" by blast
      show ?thesis using adv IH True Cons p len
        by (intro exI [of _ l'] exI [of _ r'] exI [of _ b] exI [of _ lk']) (auto split: if_splits)
    qed
  qed
qed

section \<open>The merge is the join\<close>

lemma inner_pairs_alt:
  "inner_pairs L R = concat (map (\<lambda>p. concat (map (\<lambda>q. if fst p = fst q then [(fst p, (Some (snd p), Some (snd q)))] else []) R)) L)"
  by (induction L) (auto simp: inner_pairs_def comp_def case_prod_beta' cong: if_cong)

lemma join_spec_mset:
  assumes "mset L = mset L'" and "mset R = mset R'"
  shows "mset (join_spec v L R) = mset (join_spec v L' R')"
proof -
  have "mset (inner_pairs L R) = mset (inner_pairs L' R')" unfolding inner_pairs_alt mset_concat_map using assms by simp
  moreover have "set L = set L'" "set R = set R'" using assms by (metis set_mset_mset)+
  then have "mset (left_only L R) = mset (left_only L' R')" "mset (right_only L R) = mset (right_only L' R')"
    unfolding left_only_def right_only_def mset_concat_map using assms by simp_all
  ultimately show ?thesis by (simp add: join_spec_def)
qed

definition descending :: "('k :: linorder \<times> 'a) list \<Rightarrow> bool" where
  "descending l = sorted_wrt (\<lambda>p q. fst q \<le> fst p) l"

lemma descending_simps [simp]:
  "descending []" "descending (p # l) \<longleftrightarrow> (\<forall>q \<in> set l. fst q \<le> fst p) \<and> descending l"
  by (simp_all add: descending_def)

text \<open>What the operator relies on of \<^verbatim>\<open>glidesort::sort_by\<close> with the comparison of the keys.\<close>

definition sorts_by_key :: "(('k :: linorder \<times> 'a) list \<Rightarrow> ('k \<times> 'a) list) \<Rightarrow> bool" where
  "sorts_by_key srt \<longleftrightarrow> (\<forall>xs. mset (srt xs) = mset xs \<and> sorted (map fst (srt xs)))"

lemma sorts_by_key_sort_key: "sorts_by_key (sort_key fst)"
  by (simp add: sorts_by_key_def)

lemma descending_sort: "sorts_by_key srt \<Longrightarrow> descending (rev (srt L))"
  by (auto simp: descending_def sorts_by_key_def sorted_wrt_rev sorted_map)

lemma descending_split:
  assumes "descending r"
  shows "r = takeWhile (\<lambda>p. k < fst p) r @ dropWhile (\<lambda>p. k < fst p) r"
    and "\<forall>p \<in> set (takeWhile (\<lambda>p. k < fst p) r). k < fst p"
    and "\<forall>p \<in> set (dropWhile (\<lambda>p. k < fst p) r). fst p \<le> k" and "descending (dropWhile (\<lambda>p. k < fst p) r)"
proof -
  show "r = takeWhile (\<lambda>p. k < fst p) r @ dropWhile (\<lambda>p. k < fst p) r" by simp
  show "\<forall>p \<in> set (takeWhile (\<lambda>p. k < fst p) r). k < fst p" by (auto dest: set_takeWhileD)
  show "\<forall>p \<in> set (dropWhile (\<lambda>p. k < fst p) r). fst p \<le> k"
    using assms by (induction r) (auto simp: not_less intro: order_trans)
  show "descending (dropWhile (\<lambda>p. k < fst p) r)" using assms by (induction r) auto
qed

lemma descending_group:
  "descending r \<Longrightarrow> \<forall>p \<in> set r. fst p \<le> k \<Longrightarrow> map snd (takeWhile (\<lambda>p. k = fst p) r) = key_group k r"
proof (induction r)
  case (Cons p r)
  have "key_group k r = []" if "fst p < k" using Cons.prems(1) that by (auto simp: key_group_empty)
  with Cons show ?case by (cases p) (auto simp: less_le)
qed simp

text \<open>The right elements that no left element matches, those with the last left key being matched already.\<close>

definition unmatched_right :: "'k option \<Rightarrow> ('k \<times> 'a) list \<Rightarrow> ('k \<times> 'b) list \<Rightarrow> ('k \<times> ('a, 'b) outer_tuple) list" where
  "unmatched_right lk L R = [(k, (None, Some y)). (k, y) \<leftarrow> R, k \<notin> fst ` set L \<and> lk \<noteq> Some k]"

lemma unmatched_right_append: "unmatched_right lk L (R @ R') = unmatched_right lk L R @ unmatched_right lk L R'"
  by (simp add: unmatched_right_def)

definition merge_mset :: "join_variant \<Rightarrow> 'k option \<Rightarrow> ('k \<times> 'a) list \<Rightarrow> ('k \<times> 'b) list \<Rightarrow> ('k \<times> ('a, 'b) outer_tuple) multiset" where
  "merge_mset v lk L R = mset (inner_pairs L R) + (if left_outer v then mset (left_only L R) else {#})
     + (if right_outer v then mset (unmatched_right lk L R) else {#})"

lemma merge_one_mset:
  assumes l: "descending ((k, x) # l)" and r: "descending r" and lk: "\<forall>m. lk = Some m \<longrightarrow> k \<le> m \<and> (\<forall>p \<in> set r. fst p \<le> m)"
  shows "merge_mset v lk ((k, x) # l) r = mset (merge_one v lk k x r) + merge_mset v (Some k) l (dropWhile (\<lambda>p. k < fst p) r)"
proof -
  let ?big = "takeWhile (\<lambda>p. k < fst p) r" and ?rest = "dropWhile (\<lambda>p. k < fst p) r"
  note sp = descending_split [OF r, of k]
  have big: "k' \<notin> fst ` set ?big" if "k' \<le> k" for k' using sp(2) that by fastforce
  have keys: "fst ` set r = fst ` set ?big \<union> fst ` set ?rest" by (metis image_Un set_append sp(1))
  have lk_keys: "fst p \<le> k" if "p \<in> set l" for p using l that by simp
  have none: "key_group k' ?big = []" if "k' \<le> k" for k' using big [OF that] by (simp add: key_group_empty)
  have group: "key_group k' r = key_group k' ?rest" if "k' \<le> k" for k'
    using none [OF that] sp(1) key_group_simps(2) [of k' ?big ?rest] by simp
  have "mset (inner_pairs ((k, x) # l) r) = mset (map (\<lambda>y. (k, (Some x, Some y))) (key_group k r)) + mset (inner_pairs l r)"
    using inner_pairs_left [of "[]" k x r] by (simp add: inner_pairs_def)
  moreover have "inner_pairs l r = inner_pairs l ?rest"
  proof -
    have "concat (map (\<lambda>q. if fst p = fst q then [(fst p, (Some (snd p), Some (snd q)))] else []) r) =
        concat (map (\<lambda>q. if fst p = fst q then [(fst p, (Some (snd p), Some (snd q)))] else []) ?rest)" if "p \<in> set l" for p
    proof -
      have h: "concat (map (\<lambda>q. if k' = fst q then [(k', (Some (snd p), Some (snd q)))] else []) R) = map (\<lambda>y. (k', (Some (snd p), Some y))) (key_group k' R)"
        for k' and R :: "('a \<times> 'c) list" by (induction R) auto
      show ?thesis unfolding h group [OF lk_keys [OF that]] ..
    qed
    then show ?thesis unfolding inner_pairs_alt by (intro arg_cong [where f = concat] map_ext) blast
  qed
  ultimately have inner: "mset (inner_pairs ((k, x) # l) r) =
      mset (map (\<lambda>y. (k, (Some x, Some y))) (key_group k ?rest)) + mset (inner_pairs l ?rest)"
    using group [of k] by simp
  have left: "left_only ((k, x) # l) r = (if key_group k ?rest = [] then [(k, (Some x, None))] else []) @ left_only l ?rest"
  proof -
    have "k' \<in> fst ` set r \<longleftrightarrow> k' \<in> fst ` set ?rest" if "k' \<le> k" for k' using big [OF that] keys by blast
    then have "left_only l r = left_only l ?rest" "k \<notin> fst ` set r \<longleftrightarrow> key_group k ?rest = []"
      using lk_keys by (auto simp: left_only_def key_group_empty intro!: arg_cong [where f = concat] map_cong)
    then show ?thesis by (simp add: left_only_def)
  qed
  have right: "unmatched_right lk ((k, x) # l) r = [(k, (None, Some y)). (k, y) \<leftarrow> ?big, lk \<noteq> Some k] @ unmatched_right (Some k) l ?rest"
  proof -
    have 1: "unmatched_right lk ((k, x) # l) ?big = [(k, (None, Some y)). (k, y) \<leftarrow> ?big, lk \<noteq> Some k]"
      unfolding unmatched_right_def using sp(2) lk_keys by (intro arg_cong [where f = concat] map_cong refl) force
    have 2: "unmatched_right lk ((k, x) # l) ?rest = unmatched_right (Some k) l ?rest"
      unfolding unmatched_right_def using sp(3) lk by (intro arg_cong [where f = concat] map_cong refl) force
    have "unmatched_right lk ((k, x) # l) r = unmatched_right lk ((k, x) # l) ?big @ unmatched_right lk ((k, x) # l) ?rest"
      using unmatched_right_append [of lk "(k, x) # l" ?big ?rest] by simp
    then show ?thesis unfolding 1 2 .
  qed
  have grp: "map snd (takeWhile (\<lambda>p. k = fst p) ?rest) = key_group k ?rest" by (rule descending_group [OF sp(4,3)])
  have "(case takeWhile (\<lambda>p. k = fst p) ?rest of [] \<Rightarrow> if left_outer v then [(k, (Some x, None))] else []
      | ms \<Rightarrow> map (\<lambda>p. (k, (Some x, Some (snd p)))) ms) =
    (if key_group k ?rest = [] then if left_outer v then [(k, (Some x, None))] else [] else map (\<lambda>y. (k, (Some x, Some y))) (key_group k ?rest))"
    unfolding grp [symmetric] by (simp split: list.split)
  then show ?thesis
    by (auto simp: merge_mset_def merge_one_def inner left right discarded_def)
qed

lemma merge_out_mset:
  "descending l \<Longrightarrow> descending r \<Longrightarrow> (\<forall>m. lk = Some m \<longrightarrow> (\<forall>p \<in> set l. fst p \<le> m) \<and> (\<forall>p \<in> set r. fst p \<le> m))
    \<Longrightarrow> mset (merge_out v lk l r) = merge_mset v lk l r"
proof (induction l arbitrary: lk r)
  case Nil
  then show ?case by (simp add: merge_mset_def discarded_def unmatched_right_def inner_pairs_def left_only_def)
next
  case (Cons p l)
  obtain k x where p: "p = (k, x)" by (cases p)
  let ?rest = "dropWhile (\<lambda>p. k < fst p) r"
  have "\<forall>m. Some k = Some m \<longrightarrow> (\<forall>p \<in> set l. fst p \<le> m) \<and> (\<forall>p \<in> set ?rest. fst p \<le> m)"
    using Cons.prems(1) p descending_split(3) [OF Cons.prems(2), of k] by simp
  with Cons.IH [of ?rest "Some k"] Cons.prems p have "mset (merge_out v (Some k) l ?rest) = merge_mset v (Some k) l ?rest"
    using descending_split(4) [OF Cons.prems(2), of k] by simp
  moreover have "merge_mset v lk ((k, x) # l) r = mset (merge_one v lk k x r) + merge_mset v (Some k) l ?rest"
    by (rule merge_one_mset) (use Cons.prems p in auto)
  ultimately show ?case using p by simp
qed

lemma merge_joins:
  assumes "sorts_by_key srt1" and "sorts_by_key srt2"
  shows "mset (merge_out v None (rev (srt1 L)) (rev (srt2 R))) = mset (join_spec v L R)"
proof -
  let ?l = "rev (srt1 L)" and ?r = "rev (srt2 R)"
  have "mset (merge_out v None ?l ?r) = merge_mset v None ?l ?r" by (rule merge_out_mset) (simp_all add: descending_sort assms)
  also have "\<dots> = mset (join_spec v ?l ?r)" by (simp add: merge_mset_def join_spec_def unmatched_right_def right_only_def)
  also have "\<dots> = mset (join_spec v L R)" by (rule join_spec_mset) (use assms in \<open>simp_all add: sorts_by_key_def\<close>)
  finally show ?thesis .
qed

section \<open>The operator returns the merge\<close>

abbreviation both_ended :: "('k, 'a, 'b) sort_merge \<Rightarrow> bool" where
  "both_ended j \<equiv> sj_left_ended j \<and> sj_right_ended j"

definition sm_drained :: "'k option \<Rightarrow> ('k, 'a, 'b) sort_merge \<Rightarrow> ('k, 'a, 'b) sort_merge" where
  "sm_drained lk j = j\<lparr>sj_left := [], sj_right := [], sj_buffer := [], sj_last_left_key := lk\<rparr>"

lemma pulls_sm_buffer:
  "sj_buffer j = xs @ ys \<Longrightarrow> pulls (sort_merge_next srt1 srt2 keyer1 keyer2 p) (s, j) (map Item xs) (s, j\<lparr>sj_buffer := ys\<rparr>)"
proof (induction xs arbitrary: j)
  case Nil
  then show ?case by (cases j) simp
next
  case (Cons x xs)
  have "sort_merge_next srt1 srt2 keyer1 keyer2 p (s, j) = ret (Item x, (s, j\<lparr>sj_buffer := xs @ ys\<rparr>))"
    using Cons.prems by (subst sort_merge_next.simps) simp
  moreover have "pulls (sort_merge_next srt1 srt2 keyer1 keyer2 p) (s, j\<lparr>sj_buffer := xs @ ys\<rparr>) (map Item xs) (s, j\<lparr>sj_buffer := ys\<rparr>)"
    using Cons.IH [of "j\<lparr>sj_buffer := xs @ ys\<rparr>"] by simp
  ultimately show ?case by (simp add: pulls_Cons_iff)
qed

lemma sort_merge_drains:
  assumes "both_ended j" and "sj_buffer j = []" and "sj_left j = rev l" and "sj_right j = rev r"
  shows "\<exists>st' lk'. pulls (sort_merge_next srt1 srt2 keyer1 keyer2 p) (s, j) (map Item (merge_out (sj_variant j) (sj_last_left_key j) l r)) st'
    \<and> sort_merge_next srt1 srt2 keyer1 keyer2 p st' = sort_merge_next srt1 srt2 keyer1 keyer2 p (s, sm_drained lk' j)"
  using assms
proof (induction "length l + length r" arbitrary: j l r rule: less_induct)
  case less
  let ?nxt = "sort_merge_next srt1 srt2 keyer1 keyer2 p"
  from advance_out [OF less.prems(2-4)] obtain l' r' b lk where
    adv: "advance j = ret (j\<lparr>sj_left := rev l', sj_right := rev r', sj_buffer := b, sj_last_left_key := lk\<rparr>)"
      "merge_out (sj_variant j) (sj_last_left_key j) l r = b @ merge_out (sj_variant j) lk l' r'"
      "b = [] \<longrightarrow> l' = [] \<and> r' = []" "l \<noteq> [] \<or> r \<noteq> [] \<longrightarrow> length l' + length r' < length l + length r" by blast
  let ?j1 = "j\<lparr>sj_left := rev l', sj_right := rev r', sj_buffer := b, sj_last_left_key := lk\<rparr>"
  show ?case
  proof (cases b)
    case Nil
    then have j1: "?j1 = sm_drained lk j" using adv(3) by (simp add: sm_drained_def)
    have "advance ?j1 = ret ?j1" using Nil adv(3) by (subst advance.simps) simp
    then have "?nxt (s, j) = ?nxt (s, ?j1)"
      using less.prems adv(1) Nil by (subst (1 2) sort_merge_next.simps) simp
    moreover have "merge_out (sj_variant j) (sj_last_left_key j) l r = []" using adv(2,3) Nil by (simp add: discarded_def)
    ultimately show ?thesis using j1 by auto
  next
    case (Cons y ys)
    have first: "?nxt (s, j) = ret (Item y, (s, ?j1\<lparr>sj_buffer := ys\<rparr>))"
      using less.prems adv(1) Cons by (subst sort_merge_next.simps) simp
    let ?j2 = "?j1\<lparr>sj_buffer := []\<rparr>"
    have "pulls ?nxt (s, ?j1\<lparr>sj_buffer := ys\<rparr>) (map Item ys) (s, ?j2)"
      using pulls_sm_buffer [of "?j1\<lparr>sj_buffer := ys\<rparr>" ys "[]"] by simp
    with first have buf: "pulls ?nxt (s, j) (map Item b) (s, ?j2)" using Cons by (simp add: pulls_Cons_iff)
    have "l \<noteq> [] \<or> r \<noteq> []" using adv(2) Cons by auto
    then have "length l' + length r' < length l + length r" using adv(4) by blast
    from less.hyps [OF this, of ?j2] less.prems obtain st' lk' where
      "pulls ?nxt (s, ?j2) (map Item (merge_out (sj_variant j) lk l' r')) st'" "?nxt st' = ?nxt (s, sm_drained lk' ?j2)" by auto
    moreover have "sm_drained lk' ?j2 = sm_drained lk' j" by (simp add: sm_drained_def)
    ultimately show ?thesis using pulls_appendI [OF buf] unfolding adv(2) map_append by metis
  qed
qed

text \<open>Element by element: the merge is the answer to the end of the second side.\<close>

definition sm_step :: "(('k \<times> 'a) list \<Rightarrow> ('k \<times> 'a) list) \<Rightarrow> (('k \<times> 'b) list \<Rightarrow> ('k \<times> 'b) list)
    \<Rightarrow> ('a \<Rightarrow> 'k :: linorder) \<Rightarrow> ('b \<Rightarrow> 'k) \<Rightarrow> ('k, 'a, 'b) sort_merge \<Rightarrow> ('a, 'b) binary_element stream_element
    \<Rightarrow> (('k \<times> ('a, 'b) outer_tuple) stream_element list \<times> ('k, 'a, 'b) sort_merge) res" where
  "sm_step srt1 srt2 keyer1 keyer2 c e =
     (case e of
        Item el \<Rightarrow>
          if both_ended c then panic Unreachable
          else let j = sort_merge_item srt1 srt2 keyer1 keyer2 el c
               in if both_ended j
                  then ret (map Item (merge_out (sj_variant j) (sj_last_left_key j) (rev (sj_left j)) (rev (sj_right j))), sm_drained None j)
                  else ret ([], j)
      | FlushAndRestart \<Rightarrow> bindR (sort_merge_restart c) (\<lambda>j. ret ([FlushAndRestart], j))
      | FlushBatch \<Rightarrow> ret ([FlushBatch], c)
      | Terminate \<Rightarrow> ret ([Terminate], c)
      | _ \<Rightarrow> panic ExplicitPanic)"

definition sm_waiting :: "'s \<times> ('k, 'a, 'b) sort_merge \<Rightarrow> ('k, 'a, 'b) sort_merge \<Rightarrow> 's \<Rightarrow> bool" where
  "sm_waiting st c s \<longleftrightarrow> sj_buffer c = [] \<and>
     (if both_ended c then sj_left c = [] \<and> sj_right c = [] \<and> (\<exists>lk. st = (s, sm_drained lk c)) else st = (s, c))"

definition sm_idle :: "(('k \<times> 'a) list \<Rightarrow> ('k \<times> 'a) list) \<Rightarrow> (('k \<times> 'b) list \<Rightarrow> ('k \<times> 'b) list)
    \<Rightarrow> ('a \<Rightarrow> 'k :: linorder) \<Rightarrow> ('b \<Rightarrow> 'k) \<Rightarrow> ('s, ('a, 'b) binary_element) pull
    \<Rightarrow> 's \<times> ('k, 'a, 'b) sort_merge \<Rightarrow> ('k, 'a, 'b) sort_merge \<Rightarrow> 's \<Rightarrow> bool" where
  "sm_idle srt1 srt2 keyer1 keyer2 p st c s \<longleftrightarrow>
     (\<exists>st0. sort_merge_next srt1 srt2 keyer1 keyer2 p st = sort_merge_next srt1 srt2 keyer1 keyer2 p st0 \<and> sm_waiting st0 c s)"

text \<open>Waiting, the operator pulls the next element.\<close>

lemma sm_waiting_next:
  assumes "sm_waiting st c s" and "p s = ret (e, s1)"
  shows "\<exists>j. sort_merge_next srt1 srt2 keyer1 keyer2 p st = (case e of
      Item el \<Rightarrow> sort_merge_next srt1 srt2 keyer1 keyer2 p (s1, sort_merge_item srt1 srt2 keyer1 keyer2 el j)
    | FlushAndRestart \<Rightarrow> bindR (sort_merge_restart j) (\<lambda>j. ret (FlushAndRestart, (s1, j)))
    | FlushBatch \<Rightarrow> ret (FlushBatch, (s1, j))
    | Terminate \<Rightarrow> ret (Terminate, (s1, j))
    | _ \<Rightarrow> panic ExplicitPanic)
    \<and> (if both_ended c then \<exists>lk. j = sm_drained lk c else j = c)"
proof (cases "both_ended c")
  case True
  then obtain lk where st: "st = (s, sm_drained lk c)" using assms(1) by (auto simp: sm_waiting_def)
  have "advance (sm_drained lk c) = ret (sm_drained lk c)" by (subst advance.simps) (simp add: sm_drained_def)
  then show ?thesis using True st assms(2)
    by (intro exI [of _ "sm_drained lk c"]) (subst sort_merge_next.simps, auto simp: sm_drained_def split: stream_element.split)
next
  case False
  then have "st = (s, c)" "sj_buffer c = []" using assms(1) by (auto simp: sm_waiting_def split: if_splits)
  then show ?thesis using False assms(2)
    by (intro exI [of _ c]) (subst sort_merge_next.simps, auto split: stream_element.split)
qed

lemma sm_step_pulls:
  assumes idle: "sm_idle srt1 srt2 keyer1 keyer2 p st c s" and e: "p s = ret (e, s1)" and step: "sm_step srt1 srt2 keyer1 keyer2 c e = ret (out, c')"
  shows "\<exists>st1. (if out = [] then sort_merge_next srt1 srt2 keyer1 keyer2 p st = sort_merge_next srt1 srt2 keyer1 keyer2 p st1
      else pulls (sort_merge_next srt1 srt2 keyer1 keyer2 p) st out st1) \<and> sm_idle srt1 srt2 keyer1 keyer2 p st1 c' s1"
proof -
  let ?nxt = "sort_merge_next srt1 srt2 keyer1 keyer2 p"
  from idle obtain st0 where st0: "?nxt st = ?nxt st0" "sm_waiting st0 c s" by (auto simp: sm_idle_def)
  from sm_waiting_next [where p = p and e = e and ?s1.0 = s1 and ?srt1.0 = srt1 and ?srt2.0 = srt2 and ?keyer1.0 = keyer1 and ?keyer2.0 = keyer2, OF st0(2) e] obtain j where
    j: "?nxt st = (case e of Item el \<Rightarrow> ?nxt (s1, sort_merge_item srt1 srt2 keyer1 keyer2 el j)
        | FlushAndRestart \<Rightarrow> bindR (sort_merge_restart j) (\<lambda>j. ret (FlushAndRestart, (s1, j)))
        | FlushBatch \<Rightarrow> ret (FlushBatch, (s1, j)) | Terminate \<Rightarrow> ret (Terminate, (s1, j)) | _ \<Rightarrow> panic ExplicitPanic)"
      "if both_ended c then \<exists>lk. j = sm_drained lk c else j = c" unfolding st0(1) by blast
  have buf: "sj_buffer c = []" using st0(2) by (simp add: sm_waiting_def)
  have wait: "sm_idle srt1 srt2 keyer1 keyer2 p (s1, j) c s1"
    using j(2) st0(2) unfolding sm_idle_def by (intro exI [of _ "(s1, j)"]) (auto simp: sm_waiting_def split: if_splits)
  show ?thesis
  proof (cases e)
    case (Item el)
    with step j(2) have c: "\<not> both_ended c" "j = c" by (auto simp: sm_step_def split: if_splits)
    let ?j = "sort_merge_item srt1 srt2 keyer1 keyer2 el c"
    have nxt: "?nxt st = ?nxt (s1, ?j)" using j(1) Item c by simp
    have buf': "sj_buffer ?j = []" using buf by (cases el) simp_all
    show ?thesis
    proof (cases "both_ended ?j")
      case False
      then have "sm_idle srt1 srt2 keyer1 keyer2 p (s1, ?j) ?j s1" using buf' unfolding sm_idle_def by (intro exI [of _ "(s1, ?j)"]) (auto simp: sm_waiting_def)
      then show ?thesis using step Item c False nxt by (auto simp: sm_step_def Let_def)
    next
      case True
      let ?out = "map Item (merge_out (sj_variant ?j) (sj_last_left_key ?j) (rev (sj_left ?j)) (rev (sj_right ?j)))"
      from sort_merge_drains [OF True buf', of "rev (sj_left ?j)" "rev (sj_right ?j)" srt1 srt2 keyer1 keyer2 p s1] obtain st' lk' where
        dr: "pulls ?nxt (s1, ?j) ?out st'" "?nxt st' = ?nxt (s1, sm_drained lk' ?j)" by auto
      have "sm_idle srt1 srt2 keyer1 keyer2 p st' (sm_drained None ?j) s1"
        unfolding sm_idle_def using dr(2) True
        by (intro exI [of _ "(s1, sm_drained lk' ?j)"]) (auto simp: sm_waiting_def sm_drained_def)
      moreover have "out = ?out" "c' = sm_drained None ?j" using step Item c True by (auto simp: sm_step_def Let_def)
      moreover have "if ?out = [] then ?nxt st = ?nxt st' else pulls ?nxt st ?out st'"
        using dr(1) nxt pulls_start_cong [of ?nxt st "(s1, ?j)" ?out st'] by auto
      ultimately show ?thesis by blast
    qed
  next
    case FlushAndRestart
    then obtain j' where j': "sort_merge_restart c = ret j'" "out = [FlushAndRestart]" "c' = j'"
      using step by (auto simp: sm_step_def bindR_eq_ret)
    then have c: "both_ended c" "\<not> both_ended j'" "sj_buffer j' = []" using buf by (auto simp: sort_merge_restart_def assertR_def split: if_splits)
    have "sort_merge_restart j = ret j'" using j' j(2) c(1) buf
      by (auto simp: sort_merge_restart_def assertR_def sm_drained_def split: if_splits)
    then have "?nxt st = ret (FlushAndRestart, (s1, j'))" using j(1) FlushAndRestart by simp
    moreover have "sm_idle srt1 srt2 keyer1 keyer2 p (s1, j') j' s1"
      unfolding sm_idle_def using c by (intro exI [of _ "(s1, j')"]) (auto simp: sm_waiting_def)
    ultimately show ?thesis using j'(2,3) by auto
  qed (use step j(1) wait in \<open>auto simp: sm_step_def\<close>)
qed

interpretation sort_merge_tr: fallible_transducer p "sort_merge_next srt1 srt2 keyer1 keyer2 p" "sm_idle srt1 srt2 keyer1 keyer2 p" "sm_step srt1 srt2 keyer1 keyer2"
  for p :: "('s, ('a, 'b) binary_element) pull" and srt1 srt2 and keyer1 :: "'a \<Rightarrow> 'k :: linorder" and keyer2 :: "'b \<Rightarrow> 'k"
proof
  fix st :: "'s \<times> ('k, 'a, 'b) sort_merge" and c s e s1 c'
  assume "sm_idle srt1 srt2 keyer1 keyer2 p st c s" "p s = ret (e, s1)" "sm_step srt1 srt2 keyer1 keyer2 c e = ret ([], c')"
  from sm_step_pulls [OF this] show "\<exists>st1. sort_merge_next srt1 srt2 keyer1 keyer2 p st = sort_merge_next srt1 srt2 keyer1 keyer2 p st1 \<and> sm_idle srt1 srt2 keyer1 keyer2 p st1 c' s1"
    by simp
next
  fix st :: "'s \<times> ('k, 'a, 'b) sort_merge" and c s e s1 y ys c'
  assume "sm_idle srt1 srt2 keyer1 keyer2 p st c s" "p s = ret (e, s1)" "sm_step srt1 srt2 keyer1 keyer2 c e = ret (y # ys, c')"
  from sm_step_pulls [OF this] show "\<exists>st1. pulls (sort_merge_next srt1 srt2 keyer1 keyer2 p) st (y # ys) st1 \<and> sm_idle srt1 srt2 keyer1 keyer2 p st1 c' s1"
    by simp
qed

section \<open>Iterations and runs\<close>

lemma ended_items: "sides_from True True es \<Longrightarrow> left_items es = [] \<and> right_items es = []"
proof (induction es)
  case (Cons e es)
  from Cons.prems have "e = FlushBatch" by (rule sides_from.elims(2)) simp_all
  then show ?case using Cons by simp
qed simp

definition sm_at :: "(('k \<times> 'a) list \<Rightarrow> ('k \<times> 'a) list) \<Rightarrow> (('k \<times> 'b) list \<Rightarrow> ('k \<times> 'b) list) \<Rightarrow> join_variant \<Rightarrow> bool \<Rightarrow> bool
    \<Rightarrow> ('k \<times> 'a) list \<Rightarrow> ('k \<times> 'b) list \<Rightarrow> ('k, 'a, 'b) sort_merge \<Rightarrow> bool" where
  "sm_at srt1 srt2 v le re L R c \<longleftrightarrow> c = \<lparr>sj_left_ended = le, sj_right_ended = re,
     sj_left = (if le \<and> re then [] else if le then srt1 L else L), sj_right = (if le \<and> re then [] else if re then srt2 R else R),
     sj_buffer = [], sj_variant = v, sj_last_left_key = None\<rparr>"

lemma sm_segment:
  fixes keyer1 :: "'a \<Rightarrow> 'k :: linorder" and keyer2 :: "'b \<Rightarrow> 'k"
  assumes srt: "sorts_by_key srt1" "sorts_by_key srt2" and "sm_at srt1 srt2 v le re L R c" and "sides_from le re seg"
  defines "lvals \<equiv> \<lambda>seg. map (\<lambda>x. (keyer1 x, x)) (left_items seg)" and "rvals \<equiv> \<lambda>seg. map (\<lambda>y. (keyer2 y, y)) (right_items seg)"
  shows "\<exists>out c'. transduceR (sm_step srt1 srt2 keyer1 keyer2) c seg = ret (out, c') \<and> sm_at srt1 srt2 v True True (L @ lvals seg) (R @ rvals seg) c'
    \<and> mset (elem_values out) = (if le \<and> re then {#} else mset (join_spec v (L @ lvals seg) (R @ rvals seg)))
    \<and> plain out \<and> count_list out FlushBatch = count_list seg FlushBatch"
  using assms(3,4)
proof (induction le re seg arbitrary: L R c rule: sides_from.induct)
  case (1 le re)
  then show ?case by (simp add: lvals_def rvals_def sm_at_def)
next
  case (2 le re x es)
  have "sm_at srt1 srt2 v False re (L @ [(keyer1 x, x)]) R (sort_merge_item srt1 srt2 keyer1 keyer2 (BLeft x) c)"
    using 2(2,3) by (simp add: sm_at_def)
  moreover have "sm_step srt1 srt2 keyer1 keyer2 c (Item (BLeft x)) = ret ([], sort_merge_item srt1 srt2 keyer1 keyer2 (BLeft x) c)"
    using 2(2,3) by (simp add: sm_step_def sm_at_def)
  ultimately show ?case using 2(1) [of "L @ [(keyer1 x, x)]" R "sort_merge_item srt1 srt2 keyer1 keyer2 (BLeft x) c"] 2(3) by (auto simp: lvals_def rvals_def)
next
  case (3 le re y es)
  have "sm_at srt1 srt2 v le False L (R @ [(keyer2 y, y)]) (sort_merge_item srt1 srt2 keyer1 keyer2 (BRight y) c)"
    using 3(2,3) by (simp add: sm_at_def)
  moreover have "sm_step srt1 srt2 keyer1 keyer2 c (Item (BRight y)) = ret ([], sort_merge_item srt1 srt2 keyer1 keyer2 (BRight y) c)"
    using 3(2,3) by (simp add: sm_step_def sm_at_def)
  ultimately show ?case using 3(1) [of L "R @ [(keyer2 y, y)]" "sort_merge_item srt1 srt2 keyer1 keyer2 (BRight y) c"] 3(3) by (auto simp: lvals_def rvals_def)
next
  case (4 le re es)
  let ?out = "map Item (if re then merge_out v None (rev (srt1 L)) (rev (srt2 R)) else [])"
  have "\<exists>c1. sm_step srt1 srt2 keyer1 keyer2 c (Item LeftEnd) = ret (?out, c1) \<and> sm_at srt1 srt2 v True re L R c1"
    using 4(2,3) by (simp add: sm_step_def sm_at_def sm_drained_def Let_def)
  then obtain c1 where c1: "sm_step srt1 srt2 keyer1 keyer2 c (Item LeftEnd) = ret (?out, c1)" "sm_at srt1 srt2 v True re L R c1" by blast
  have "re \<Longrightarrow> lvals es = [] \<and> rvals es = []" using 4(3) ended_items [of es] by (simp add: lvals_def rvals_def)
  then show ?case using 4(1) [OF c1(2)] 4(3) c1(1) merge_joins [OF srt, of v L R]
    by (auto simp: lvals_def rvals_def simp del: map_map)
next
  case (5 le re es)
  let ?out = "map Item (if le then merge_out v None (rev (srt1 L)) (rev (srt2 R)) else [])"
  have "\<exists>c1. sm_step srt1 srt2 keyer1 keyer2 c (Item RightEnd) = ret (?out, c1) \<and> sm_at srt1 srt2 v le True L R c1"
    using 5(2,3) by (simp add: sm_step_def sm_at_def sm_drained_def Let_def)
  then obtain c1 where c1: "sm_step srt1 srt2 keyer1 keyer2 c (Item RightEnd) = ret (?out, c1)" "sm_at srt1 srt2 v le True L R c1" by blast
  have "le \<Longrightarrow> lvals es = [] \<and> rvals es = []" using 5(3) ended_items [of es] by (simp add: lvals_def rvals_def)
  then show ?case using 5(1) [OF c1(2)] 5(3) c1(1) merge_joins [OF srt, of v L R]
    by (auto simp: lvals_def rvals_def simp del: map_map)
next
  case (6 le re es)
  have "sm_step srt1 srt2 keyer1 keyer2 c FlushBatch = ret ([FlushBatch], c)" by (simp add: sm_step_def)
  then show ?case using 6(1) [of L R c] 6(2,3) by (auto simp: lvals_def rvals_def)
qed simp_all

lemma sort_merge_run:
  fixes p :: "('s, ('a, 'b) binary_element) pull" and keyer1 :: "'a \<Rightarrow> 'k :: linorder"
  assumes srt: "sorts_by_key srt1" "sorts_by_key srt2" and wf: "wf_stream es"
    and sides: "\<forall>seg \<in> set (iterations es). two_sided seg" and input: "pulls p s es s'"
  shows "\<exists>outs st'. pulls (sort_merge_next srt1 srt2 keyer1 keyer2 p) (s, sort_merge_new v) (unsegment outs) st'
    \<and> list_all2 (\<lambda>seg out. joins (join_spec v (map (\<lambda>x. (keyer1 x, x)) (left_items seg)) (map (\<lambda>y. (keyer2 y, y)) (right_items seg))) seg out)
        (iterations es) outs"
proof -
  let ?step = "sm_step srt1 srt2 keyer1 keyer2" and ?I = "sm_at srt1 srt2 v False False [] []"
  let ?Q = "\<lambda>seg out. joins (join_spec v (map (\<lambda>x. (keyer1 x, x)) (left_items seg)) (map (\<lambda>y. (keyer2 y, y)) (right_items seg))) seg out"
  have start: "?I (sort_merge_new v)" by (simp add: sm_at_def sort_merge_new_def)
  have iter: "\<exists>out c'. transduceR ?step c (seg @ [FlushAndRestart]) = ret (out @ [FlushAndRestart], c') \<and> ?Q seg out \<and> ?I c'"
    if c: "?I c" and "seg \<in> set (iterations es)" for c and seg
  proof -
    have "two_sided seg" using sides that(2) by blast
    from sm_segment [OF srt c this, of keyer1 keyer2] obtain out c1 where
      out: "transduceR ?step c seg = ret (out, c1)" "sj_left_ended c1" "sj_right_ended c1" "c1 = \<lparr>sj_left_ended = True, sj_right_ended = True,
          sj_left = [], sj_right = [], sj_buffer = [], sj_variant = v, sj_last_left_key = None\<rparr>" "?Q seg out"
      by (auto simp: sm_at_def joins_def)
    have "?step c1 FlushAndRestart = ret ([FlushAndRestart], sort_merge_new v)"
      by (simp add: out(4) sm_step_def sort_merge_restart_def sort_merge_new_def)
    then show ?thesis using out(1,5) start by (simp add: transduceR_append)
  qed
  have fin: "?step c Terminate = ret ([Terminate], c)" for c by (simp add: sm_step_def)
  from transduceR_unsegment [where I = ?I and Q = ?Q, OF start iter fin] obtain outs c' where
    run: "transduceR ?step (sort_merge_new v) (unsegment (iterations es)) = ret (unsegment outs, c')"
    and Q: "list_all2 ?Q (iterations es) outs" by blast
  have es: "unsegment (iterations es) = es" by (rule wf_stream_unsegment(1) [OF wf])
  obtain ys where ys: "es = ys @ [Terminate]" using wf by (rule wf_stream_ends)
  have idle: "sm_idle srt1 srt2 keyer1 keyer2 p (s, sort_merge_new v) (sort_merge_new v) s"
    by (auto simp: sm_idle_def sm_waiting_def sort_merge_new_def)
  have "transduceR ?step (sort_merge_new v) (ys @ [Terminate]) = ret (unsegment outs, c')" using run unfolding es unfolding ys .
  from sort_merge_tr.producesR_last [OF idle input [unfolded ys] this] fin Q show ?thesis by auto
qed

section \<open>Properties\<close>

text \<open>
  C29: for every iteration of a well-formed binary stream \<^verbatim>\<open>JoinLocalSortMerge\<close> returns, without panicking, the same
  tuples as the definition of the join of the two sides (and as \<^verbatim>\<open>JoinLocalHash\<close>), whatever the variant; the loop of \<^verbatim>\<open>advance\<close> and every call of
  \<^verbatim>\<open>next\<close> end, and the asserts on the two vectors hold at the end of the iteration.
\<close>

theorem sort_merge_joins:
  assumes "sorts_by_key srt1" and "sorts_by_key srt2" and "wf_stream es" and "\<forall>seg \<in> set (iterations es). two_sided seg" and "pulls p s es s'"
  shows "\<exists>outs st'. pulls (sort_merge_next srt1 srt2 keyer1 keyer2 p) (s, sort_merge_new v) (unsegment outs) st'
    \<and> list_all2 (\<lambda>seg out. joins (join_spec v (map (\<lambda>x. (keyer1 x, x)) (left_items seg)) (map (\<lambda>y. (keyer2 y, y)) (right_items seg))) seg out)
        (iterations es) outs"
  by (rule sort_merge_run [OF assms])

theorem sort_merge_joins_witness:
  "\<exists>out st'. pulls (sort_merge_next (sort_key fst) (sort_key fst) fst fst fake_next) (join_example, sort_merge_new OuterJoin) (out @ [FlushAndRestart, Terminate]) st'
    \<and> mset (elem_values out) = {# (2, (None, Some (2, False))), (1, (Some (1, ''a''), Some (1, True))), (1, (Some (1, ''a''), Some (1, False))) #}"
proof -
  obtain outs st' where
    run: "pulls (sort_merge_next (sort_key fst) (sort_key fst) fst fst fake_next) (join_example, sort_merge_new OuterJoin) (unsegment outs) st'"
    and out: "list_all2 (\<lambda>seg out. joins (join_spec OuterJoin (map (\<lambda>x. (fst x, x)) (left_items seg)) (map (\<lambda>y. (fst y, y)) (right_items seg))) seg out)
         (iterations join_example) outs"
    using sort_merge_joins [OF sorts_by_key_sort_key sorts_by_key_sort_key join_example_ok(1,3) pulls_fake_all, of fst fst OuterJoin] by blast
  then obtain o1 where "outs = [o1]" unfolding join_example_ok(2) by (auto simp: list_all2_Cons1)
  with run out show ?thesis unfolding join_example_ok(2)
    by (intro exI [of _ o1] exI [of _ st']) (simp add: unsegment_def joins_def join_spec_def inner_pairs_def left_only_def right_only_def left_outer_def right_outer_def)
qed

end
