(* ===== verification/Remote.thy ===== *)
theory Remote
  imports Batcher
begin

text \<open>
  Messages between hosts: \<^verbatim>\<open>src/network/sync/remote.rs\<close>, and the threads of
  \<^verbatim>\<open>src/network/sync/multiplexer.rs\<close> and \<^verbatim>\<open>src/network/sync/demultiplexer.rs\<close> that move them between the channels of the
  replicas and a TCP connection. The connection is the sequence of the bytes written to it. The serializer
  is the crate \<^verbatim>\<open>bincode\<close>: the two encoders and decoders are parameters.
\<close>

section \<open>The protocol\<close>

record message_header =
  mh_size :: nat
  mh_replica_id :: nat
  mh_sender_block_id :: nat

definition header_size :: nat where
  "header_size = 20"

definition u32_max :: nat where "u32_max = 2 ^ 32 - 1"
definition u64_max :: nat where "u64_max = 2 ^ 64 - 1"

text \<open>The calls into \<^verbatim>\<open>bincode\<close>: encoding may fail, decoding also returns the number of bytes read.\<close>

record ('a, 'y) bincode =
  enc_header :: "message_header \<Rightarrow> 'y list option"
  dec_header :: "'y list \<Rightarrow> (message_header \<times> nat) option"
  enc_message :: "'a network_message \<Rightarrow> 'y list option"
  dec_message :: "'y list \<Rightarrow> ('a network_message \<times> nat) option"

definition vec_resize :: "nat \<Rightarrow> 'y \<Rightarrow> 'y list \<Rightarrow> 'y list" where
  "vec_resize n y xs = take n xs @ replicate (n - length xs) y"

text \<open>\<^verbatim>\<open>remote_send\<close> returns what it writes to the connection and its scratch buffer.\<close>

definition remote_send :: "('a, 'y :: zero) bincode \<Rightarrow> 'a network_message \<Rightarrow> receiver_endpoint \<Rightarrow> 'y list \<Rightarrow> ('y list \<times> 'y list) res" where
  "remote_send bc msg dest scratch =
     (let scratch = vec_resize header_size 0 scratch in
      bindR (unwrapR (enc_message bc msg)) (\<lambda>body.
        let scratch = scratch @ body; serialized_len = length body in
        if u32_max < serialized_len then panic UnwrapNone
        else
          let header = \<lparr>mh_size = serialized_len, mh_replica_id = replica_id (re_coord dest), mh_sender_block_id = re_prev_block_id dest\<rparr> in
          bindR (unwrapR (enc_header bc header)) (\<lambda>hbytes.
            if header_size < length hbytes then panic UnwrapNone
            else
              let scratch = hbytes @ drop (length hbytes) scratch in
              assertR (length scratch = header_size + serialized_len) (ret (scratch, scratch)))))"

text \<open>\<^verbatim>\<open>read_exact\<close> on the bytes that are still to come.\<close>

definition read_exact :: "nat \<Rightarrow> 'y list \<Rightarrow> ('y list \<times> 'y list) option" where
  "read_exact n r = (if n \<le> length r then Some (take n r, drop n r) else None)"

definition remote_recv :: "('a, 'y) bincode \<Rightarrow> demux_coord \<Rightarrow> 'y list \<Rightarrow> ((receiver_endpoint \<times> 'a network_message) \<times> 'y list) option res" where
  "remote_recv bc coord reader =
     (case read_exact header_size reader of
        None \<Rightarrow> ret None
      | Some (hbytes, reader) \<Rightarrow>
          bindR (unwrapR (dec_header bc hbytes)) (\<lambda>(header, header_len).
            assertR (header_len = header_size)
             (bindR (unwrapR (read_exact (mh_size header) reader)) (\<lambda>(body, reader).
                bindR (unwrapR (dec_message bc body)) (\<lambda>(msg, msg_len).
                  assertR (msg_len = mh_size header)
                   (let dest = ReceiverEndpoint (Coord (bc_block_id (dc_coord coord)) (bc_host_id (dc_coord coord)) (mh_replica_id header))
                        (mh_sender_block_id header)
                    in ret (Some ((dest, msg), reader))))))))"

section \<open>The threads\<close>

text \<open>The multiplexer: everything its channel holds until the last sender is dropped.\<close>

fun mux_thread :: "('a, 'y :: zero) bincode \<Rightarrow> 'y list \<Rightarrow> (receiver_endpoint \<times> 'a network_message) list \<Rightarrow> 'y list res" where
  "mux_thread bc scratch [] = ret []"
| "mux_thread bc scratch ((dest, message) # queue) =
     bindR (remote_send bc message dest scratch) (\<lambda>(bytes, scratch).
       bindR (mux_thread bc scratch queue) (\<lambda>rest. ret (bytes @ rest)))"

text \<open>
  The demultiplexer: \<open>senders\<close> are the registered endpoints; a message whose receiver is gone is
  logged and dropped.
\<close>

partial_function (option) demux_thread :: "('a, 'y) bincode \<Rightarrow> demux_coord \<Rightarrow> receiver_endpoint list \<Rightarrow> 'a network \<Rightarrow> 'y list \<Rightarrow> 'a network res" where
  "demux_thread bc coord senders net reader =
     bindR (remote_recv bc coord reader) (\<lambda>r.
       case r of
         None \<Rightarrow> ret net
       | Some ((dest, message), reader) \<Rightarrow>
           if dest \<notin> set senders then panic IndexOutOfBounds
           else demux_thread bc coord senders (case net_send net dest message of Some net \<Rightarrow> net | None \<Rightarrow> net) reader)"

section \<open>What the codec promises\<close>

text \<open>The header has a fixed-length encoding, and what is encoded decodes to itself.\<close>

definition header_ok :: "message_header \<Rightarrow> bool" where
  "header_ok h \<longleftrightarrow> mh_size h \<le> u32_max \<and> mh_replica_id h \<le> u64_max \<and> mh_sender_block_id h \<le> u64_max"

definition header_codec :: "('a, 'y) bincode \<Rightarrow> bool" where
  "header_codec bc \<longleftrightarrow> (\<forall>h. header_ok h \<longrightarrow> (\<exists>ys. enc_header bc h = Some ys \<and> length ys = header_size \<and> dec_header bc ys = Some (h, header_size)))"

definition message_codec :: "('a, 'y) bincode \<Rightarrow> 'a network_message \<Rightarrow> bool" where
  "message_codec bc m \<longleftrightarrow> (\<exists>ys. enc_message bc m = Some ys \<and> length ys \<le> u32_max \<and> dec_message bc ys = Some (m, length ys))"

text \<open>The endpoints behind a demultiplexer: replicas of its block on its host, registered and within \<^verbatim>\<open>u64\<close>.\<close>

definition reachable_endpoint :: "demux_coord \<Rightarrow> receiver_endpoint list \<Rightarrow> receiver_endpoint \<Rightarrow> bool" where
  "reachable_endpoint coord senders e \<longleftrightarrow> block_coord_of (re_coord e) = dc_coord coord \<and> e \<in> set senders
     \<and> replica_id (re_coord e) \<le> u64_max \<and> re_prev_block_id e \<le> u64_max"

definition sendable :: "('a, 'y) bincode \<Rightarrow> demux_coord \<Rightarrow> receiver_endpoint list \<Rightarrow> receiver_endpoint \<times> 'a network_message \<Rightarrow> bool" where
  "sendable bc coord senders dm \<longleftrightarrow> reachable_endpoint coord senders (fst dm) \<and> message_codec bc (snd dm)"

text \<open>The queues after a sequence of messages.\<close>

definition deliver :: "'a network \<Rightarrow> (receiver_endpoint \<times> 'a network_message) list \<Rightarrow> 'a network" where
  "deliver net queue = fold (\<lambda>(dest, message) net. case net_send net dest message of Some net \<Rightarrow> net | None \<Rightarrow> net) queue net"

lemma deliver_queue:
  "nt_open (deliver net queue) = nt_open net"
  "nt_queue (deliver net queue) e = nt_queue net e @ (if nt_open net e then [m. (d, m) \<leftarrow> queue, d = e] else [])"
  by (induction queue arbitrary: net) (auto simp: deliver_def net_send_def split: if_splits)

section \<open>One message\<close>

text \<open>A frame: the header and the body of one message, whatever the scratch buffer held before.\<close>

lemma remote_send_frame:
  assumes codec: "header_codec bc" and ok: "sendable bc coord senders (dest, m)"
  obtains hbytes body where "remote_send bc m dest scratch = ret (hbytes @ body, hbytes @ body)" and "length hbytes = header_size"
    and "dec_header bc hbytes = Some (\<lparr>mh_size = length body, mh_replica_id = replica_id (re_coord dest), mh_sender_block_id = re_prev_block_id dest\<rparr>, header_size)"
    and "dec_message bc body = Some (m, length body)"
proof -
  obtain body where body: "enc_message bc m = Some body" "length body \<le> u32_max" "dec_message bc body = Some (m, length body)"
    using ok by (auto simp: sendable_def message_codec_def)
  let ?h = "\<lparr>mh_size = length body, mh_replica_id = replica_id (re_coord dest), mh_sender_block_id = re_prev_block_id dest\<rparr>"
  have "header_ok ?h" using ok body(2) by (simp add: header_ok_def sendable_def reachable_endpoint_def)
  then obtain hbytes where h: "enc_header bc ?h = Some hbytes" "length hbytes = header_size" "dec_header bc hbytes = Some (?h, header_size)"
    using codec by (auto simp: header_codec_def)
  have "length (vec_resize header_size 0 scratch) = header_size" by (simp add: vec_resize_def)
  then have "remote_send bc m dest scratch = ret (hbytes @ body, hbytes @ body)"
    using body h by (simp add: remote_send_def Let_def)
  with h body show ?thesis by (intro that)
qed

lemma remote_recv_frame:
  assumes "length hbytes = header_size"
    and "dec_header bc hbytes = Some (\<lparr>mh_size = length body, mh_replica_id = replica_id (re_coord dest), mh_sender_block_id = re_prev_block_id dest\<rparr>, header_size)"
    and "dec_message bc body = Some (m, length body)" and "reachable_endpoint coord senders dest"
  shows "remote_recv bc coord (hbytes @ body @ rest) = ret (Some ((dest, m), rest))"
proof -
  have "ReceiverEndpoint (Coord (bc_block_id (dc_coord coord)) (bc_host_id (dc_coord coord)) (replica_id (re_coord dest))) (re_prev_block_id dest) = dest"
    using assms(4) by (cases dest; cases "re_coord dest"; cases "dc_coord coord") (auto simp: reachable_endpoint_def block_coord_of_def)
  then show ?thesis using assms(1-3) by (simp add: remote_recv_def read_exact_def Let_def)
qed

text \<open>The bytes a multiplexer writes are read back one message at a time.\<close>

lemma mux_demux:
  assumes codec: "header_codec bc" and "\<forall>dm \<in> set queue. sendable bc coord senders dm"
  shows "\<exists>bytes. mux_thread bc scratch queue = ret bytes
    \<and> (\<forall>net rest. demux_thread bc coord senders net (bytes @ rest) = demux_thread bc coord senders (deliver net queue) rest)"
  using assms(2)
proof (induction queue arbitrary: scratch)
  case Nil
  then show ?case by (simp add: deliver_def)
next
  case (Cons dm queue)
  obtain dest m where dm: "dm = (dest, m)" by (cases dm)
  have ok: "sendable bc coord senders (dest, m)" using Cons.prems dm by simp
  obtain hbytes body where frame: "remote_send bc m dest scratch = ret (hbytes @ body, hbytes @ body)" "length hbytes = header_size"
    "dec_header bc hbytes = Some (\<lparr>mh_size = length body, mh_replica_id = replica_id (re_coord dest), mh_sender_block_id = re_prev_block_id dest\<rparr>, header_size)"
    "dec_message bc body = Some (m, length body)" by (rule remote_send_frame [OF codec ok])
  obtain bytes where bytes: "mux_thread bc (hbytes @ body) queue = ret bytes"
    "\<forall>net rest. demux_thread bc coord senders net (bytes @ rest) = demux_thread bc coord senders (deliver net queue) rest"
    using Cons.IH [of "hbytes @ body"] Cons.prems by auto
  have reach: "reachable_endpoint coord senders dest" "dest \<in> set senders" using ok by (simp_all add: sendable_def reachable_endpoint_def)
  have "demux_thread bc coord senders net ((hbytes @ body @ bytes) @ rest) = demux_thread bc coord senders (deliver net (dm # queue)) rest" for net rest
    using remote_recv_frame [OF frame(2-4) reach(1), of "bytes @ rest"] reach(2) bytes(2) dm
    by (subst demux_thread.simps) (simp add: deliver_def)
  then show ?case using frame(1) bytes(1) dm by simp
qed

lemma remote_recv_cut:
  assumes "length hbytes = header_size"
    and "dec_header bc hbytes = Some (\<lparr>mh_size = length body, mh_replica_id = r, mh_sender_block_id = b\<rparr>, header_size)"
    and "n < length (hbytes @ body)"
  shows "remote_recv bc coord (take n (hbytes @ body)) = (if n < header_size then ret None else panic UnwrapNone)"
  using assms by (auto simp: remote_recv_def read_exact_def min_def)

section \<open>Properties\<close>

text \<open>
  C17: what a multiplexer reads from its channel arrives on the other host: the demultiplexer appends to
  each registered endpoint exactly the messages sent to it, in their order, and ends without a panic
  when the connection is closed, whatever the scratch buffers held. Messages for a replica that is gone are dropped.
\<close>

theorem mux_demux_roundtrip:
  assumes "header_codec bc" and "\<forall>dm \<in> set queue. sendable bc coord senders dm"
  shows "\<exists>bytes net'. mux_thread bc scratch queue = ret bytes \<and> demux_thread bc coord senders net bytes = ret net'
    \<and> nt_open net' = nt_open net \<and> (\<forall>e. nt_queue net' e = nt_queue net e @ (if nt_open net e then [m. (d, m) \<leftarrow> queue, d = e] else []))"
proof -
  obtain bytes where bytes: "mux_thread bc scratch queue = ret bytes"
    "\<forall>net rest. demux_thread bc coord senders net (bytes @ rest) = demux_thread bc coord senders (deliver net queue) rest"
    using mux_demux [OF assms] by blast
  have "demux_thread bc coord senders net' [] = ret net'" for net'
    by (subst demux_thread.simps) (simp add: remote_recv_def read_exact_def header_size_def)
  then have "demux_thread bc coord senders net bytes = ret (deliver net queue)" using bytes(2) [rule_format, of net "[]"] by simp
  with bytes(1) show ?thesis using deliver_queue [of net queue] by blast
qed

text \<open>
  C18: a connection that breaks inside a message: the messages before it are delivered; if the break is inside the
  header the demultiplexer ends as at a regular end of the stream, the loss of the message going unnoticed, and if it is inside the body it panics.
\<close>

theorem demux_truncated:
  assumes "header_codec bc" and "\<forall>dm \<in> set (queue @ [last_msg]). sendable bc coord senders dm"
  shows "\<exists>bytes frame. mux_thread bc scratch queue = ret bytes \<and> mux_thread bc scratch' [last_msg] = ret frame
    \<and> (\<forall>n < length frame. demux_thread bc coord senders net (bytes @ take n frame) =
          (if n < header_size then ret (deliver net queue) else panic UnwrapNone))"
proof -
  have "\<forall>dm \<in> set queue. sendable bc coord senders dm" using assms(2) by simp
  then obtain bytes where bytes: "mux_thread bc scratch queue = ret bytes"
    "\<forall>net rest. demux_thread bc coord senders net (bytes @ rest) = demux_thread bc coord senders (deliver net queue) rest"
    using mux_demux [OF assms(1)] by blast
  obtain dest m where dm: "last_msg = (dest, m)" by (cases last_msg)
  have ok: "sendable bc coord senders (dest, m)" using assms(2) dm by simp
  obtain hbytes body where frame: "remote_send bc m dest scratch' = ret (hbytes @ body, hbytes @ body)" "length hbytes = header_size"
    "dec_header bc hbytes = Some (\<lparr>mh_size = length body, mh_replica_id = replica_id (re_coord dest), mh_sender_block_id = re_prev_block_id dest\<rparr>, header_size)"
    by (rule remote_send_frame [OF assms(1) ok])
  have "demux_thread bc coord senders net (bytes @ take n (hbytes @ body)) = (if n < header_size then ret (deliver net queue) else panic UnwrapNone)"
    if "n < length (hbytes @ body)" for n
    unfolding bytes(2) [rule_format]
    by (subst demux_thread.simps) (unfold remote_recv_cut [OF frame(2,3) that], simp)
  with bytes(1) frame(1) dm show ?thesis by auto
qed

section \<open>A concrete codec\<close>

text \<open>Little endian integers of a fixed length, and two messages: the instance the witnesses evaluate.\<close>

fun le_bytes :: "nat \<Rightarrow> nat \<Rightarrow> nat list" where
  "le_bytes 0 n = []"
| "le_bytes (Suc k) n = n mod 256 # le_bytes k (n div 256)"

fun le_value :: "nat list \<Rightarrow> nat" where
  "le_value [] = 0"
| "le_value (b # bs) = b + 256 * le_value bs"

lemma le_bytes_length [simp]: "length (le_bytes k n) = k"
  by (induction k arbitrary: n) simp_all

lemma le_value_bytes: "n < 256 ^ k \<Longrightarrow> le_value (le_bytes k n) = n"
proof (induction k arbitrary: n)
  case (Suc k)
  have "n div 256 < 256 ^ k" using Suc.prems by (simp add: less_mult_imp_div_less mult.commute)
  with Suc.IH show ?case by simp
qed simp

definition le_codec :: "(nat network_message, nat list) hmap \<Rightarrow> (nat, nat) bincode" where
  "le_codec table =
     \<lparr>enc_header = (\<lambda>h. Some (le_bytes 4 (mh_size h) @ le_bytes 8 (mh_replica_id h) @ le_bytes 8 (mh_sender_block_id h))),
      dec_header = (\<lambda>ys. Some (\<lparr>mh_size = le_value (take 4 ys), mh_replica_id = le_value (take 8 (drop 4 ys)),
        mh_sender_block_id = le_value (take 8 (drop 12 ys))\<rparr>, 20)),
      enc_message = map_of table,
      dec_message = (\<lambda>ys. map_option (\<lambda>m. (m, length ys)) (map_of (map prod.swap table) ys))\<rparr>"

lemma le_codec_header: "header_codec (le_codec table)"
proof -
  have "(2 :: nat) ^ 32 = 256 ^ 4" "(2 :: nat) ^ 64 = 256 ^ 8" by simp_all
  then have "h \<le> u32_max \<Longrightarrow> le_value (le_bytes 4 h) = h" "h \<le> u64_max \<Longrightarrow> le_value (le_bytes 8 h) = h" for h
    using le_value_bytes [of h 4] le_value_bytes [of h 8] by (simp_all add: u32_max_def u64_max_def)
  then show ?thesis by (auto simp: header_codec_def header_ok_def le_codec_def header_size_def)
qed

abbreviation remote_a :: receiver_endpoint where "remote_a \<equiv> ReceiverEndpoint (Coord 1 0 0) 0"
abbreviation remote_b :: receiver_endpoint where "remote_b \<equiv> ReceiverEndpoint (Coord 1 0 1) 0"
abbreviation remote_m :: "nat network_message" where "remote_m \<equiv> new_single (Item 7) (Coord 0 1 0)"
abbreviation remote_t :: "nat network_message" where "remote_t \<equiv> new_single Terminate (Coord 0 1 0)"
abbreviation remote_codec :: "(nat, nat) bincode" where "remote_codec \<equiv> le_codec [(remote_m, [1, 7]), (remote_t, [3])]"
abbreviation remote_net :: "nat network" where "remote_net \<equiv> \<lparr>nt_queue = (\<lambda>_. []), nt_open = (\<lambda>_. True)\<rparr>"

lemma remote_sendable:
  "\<forall>dm \<in> set ([(remote_a, remote_m), (remote_b, remote_t)] @ [(remote_a, remote_t)]). sendable remote_codec (DemuxCoord (BlockCoord 1 0) 0) [remote_a, remote_b] dm"
  by (simp add: sendable_def reachable_endpoint_def message_codec_def le_codec_def block_coord_of_def u64_max_def u32_max_def new_single_def)

theorem mux_demux_roundtrip_witness:
  "\<exists>bytes net'. mux_thread remote_codec [9] [(remote_a, remote_m), (remote_b, remote_t)] = ret bytes
    \<and> demux_thread remote_codec (DemuxCoord (BlockCoord 1 0) 0) [remote_a, remote_b] remote_net bytes = ret net'
    \<and> nt_queue net' remote_a = [remote_m] \<and> nt_queue net' remote_b = [remote_t]"
proof -
  have "\<forall>dm \<in> set [(remote_a, remote_m), (remote_b, remote_t)]. sendable remote_codec (DemuxCoord (BlockCoord 1 0) 0) [remote_a, remote_b] dm"
    using remote_sendable by simp
  from mux_demux_roundtrip [OF le_codec_header this, of "[9]" remote_net] show ?thesis by auto
qed

theorem demux_truncated_witness:
  "\<exists>bytes frame. mux_thread remote_codec [] [(remote_a, remote_m), (remote_b, remote_t)] = ret bytes \<and> mux_thread remote_codec [] [(remote_a, remote_t)] = ret frame
    \<and> demux_thread remote_codec (DemuxCoord (BlockCoord 1 0) 0) [remote_a, remote_b] remote_net (bytes @ take 5 frame) =
        ret (deliver remote_net [(remote_a, remote_m), (remote_b, remote_t)])
    \<and> demux_thread remote_codec (DemuxCoord (BlockCoord 1 0) 0) [remote_a, remote_b] remote_net (bytes @ take 20 frame) = panic UnwrapNone"
proof -
  obtain bytes frame where run: "mux_thread remote_codec [] [(remote_a, remote_m), (remote_b, remote_t)] = ret bytes"
    "mux_thread remote_codec [] [(remote_a, remote_t)] = ret frame"
    "\<forall>n < length frame. demux_thread remote_codec (DemuxCoord (BlockCoord 1 0) 0) [remote_a, remote_b] remote_net (bytes @ take n frame) =
         (if n < header_size then ret (deliver remote_net [(remote_a, remote_m), (remote_b, remote_t)]) else panic UnwrapNone)"
    using demux_truncated [OF le_codec_header remote_sendable, of "[]" "[]" remote_net] by blast
  have "length frame = 21"
    using run(2) by (auto simp: remote_send_def le_codec_def vec_resize_def header_size_def u32_max_def new_single_def assertR_def Let_def split: if_splits)
  then show ?thesis using run(1,2) run(3) [rule_format, of 5] run(3) [rule_format, of 20] by (auto simp: header_size_def)
qed

end
