(* ===== verification/Topology.thy ===== *)
theory Topology
  imports Network "HOL-Library.Sublist"
begin

text \<open>
  The topology of the execution graph, \<^verbatim>\<open>src/network/topology.rs\<close>: the connections between replicas, the ports of
  the demultiplexers and the channels handed to the replicas. A typemap of hash maps is one map whose keys start
  with the type. A channel is named by its receiver endpoint, for which at most one is ever
  registered; the threads that serve remote channels are values here, their loops are in \<^verbatim>\<open>Remote\<close>.
\<close>

section \<open>Configuration\<close>

record host_config =
  hc_address :: string
  hc_base_port :: nat
  hc_num_cores :: nat

datatype runtime_config = LocalConfig (cf_parallelism: nat) | RemoteConfig "nat option" (cf_hosts: "host_config list")

fun config_host_id :: "runtime_config \<Rightarrow> nat option" where
  "config_host_id (LocalConfig _) = Some 0"
| "config_host_id (RemoteConfig host _) = host"

definition arith_u16 :: "nat \<Rightarrow> nat res" where
  "arith_u16 n = (if n < 2 ^ 16 then ret n else panic ArithOverflow)"

section \<open>State\<close>

type_synonym type_id = nat
type_synonym address = "string \<times> nat"

datatype net_sender = LocalSender receiver_endpoint | MuxSender demux_coord receiver_endpoint

text \<open>A demultiplexer and a multiplexer: where they bind or connect, and what has been registered.\<close>

record demux_handle =
  dh_address :: address
  dh_num_clients :: nat
  dh_registered :: "receiver_endpoint list"

record topology =
  tp_config :: runtime_config
  tp_receivers :: "(type_id \<times> receiver_endpoint, receiver_endpoint) hmap option"
  tp_senders :: "(type_id \<times> receiver_endpoint, net_sender) hmap option"
  tp_demultiplexers :: "(type_id \<times> demux_coord, demux_handle) hmap option"
  tp_multiplexers :: "(type_id \<times> demux_coord, address) hmap option"
  tp_next :: "(coord \<times> type_id, (coord \<times> bool) list) hmap"
  tp_prev :: "(coord, (coord \<times> type_id) list) hmap"
  tp_senders_metadata :: "(receiver_endpoint, bool) hmap"
  tp_block_replicas :: "(nat, coord set) hmap"
  tp_used_receivers :: "receiver_endpoint set"
  tp_registered_receivers :: "receiver_endpoint set"
  tp_addresses :: "(demux_coord, address) hmap"

definition topology_new :: "runtime_config \<Rightarrow> topology" where
  "topology_new config =
     \<lparr>tp_config = config, tp_receivers = Some [], tp_senders = Some [], tp_demultiplexers = Some [], tp_multiplexers = Some [],
      tp_next = [], tp_prev = [], tp_senders_metadata = [], tp_block_replicas = [], tp_used_receivers = {},
      tp_registered_receivers = {}, tp_addresses = []\<rparr>"

section \<open>Connections\<close>

definition replica_insert :: "nat \<Rightarrow> coord \<Rightarrow> (nat, coord set) hmap \<Rightarrow> (nat, coord set) hmap" where
  "replica_insert b c m = AList.update b (insert c (case map_of m b of None \<Rightarrow> {} | Some cs \<Rightarrow> cs)) m"

definition topology_connect :: "coord \<Rightarrow> coord \<Rightarrow> type_id \<Rightarrow> bool \<Rightarrow> topology \<Rightarrow> topology res" where
  "topology_connect from_coord to_coord ty fragile tp =
     bindR (unwrapR (config_host_id (tp_config tp))) (\<lambda>host.
       let from_remote = (host_id from_coord \<noteq> host);
           to_remote = (host_id to_coord \<noteq> host);
           tp = tp\<lparr>tp_next := push_entry (from_coord, ty) (to_coord, fragile) (tp_next tp),
                  tp_prev := push_entry to_coord (from_coord, ty) (tp_prev tp),
                  tp_block_replicas := replica_insert (block_id to_coord) to_coord (replica_insert (block_id from_coord) from_coord (tp_block_replicas tp))\<rparr>
       in if from_remote \<and> to_remote then ret tp
          else
            let endpoint = ReceiverEndpoint to_coord (block_id from_coord);
                meta = (case map_of (tp_senders_metadata tp) endpoint of None \<Rightarrow> False | Some b \<Rightarrow> b)
            in ret (tp\<lparr>tp_senders_metadata := AList.update endpoint (meta \<or> to_remote) (tp_senders_metadata tp)\<rparr>))"

definition topology_prev :: "topology \<Rightarrow> coord \<Rightarrow> (coord \<times> type_id) list" where
  "topology_prev tp c = (case map_of (tp_prev tp) c of Some prev \<Rightarrow> prev | None \<Rightarrow> [])"

text \<open>The order of a \<^verbatim>\<open>HashSet\<close> is the parameter \<open>so\<close>.\<close>

definition topology_replicas :: "(coord set \<Rightarrow> coord list) \<Rightarrow> topology \<Rightarrow> nat \<Rightarrow> coord list" where
  "topology_replicas so tp b = (case map_of (tp_block_replicas tp) b of Some cs \<Rightarrow> so cs | None \<Rightarrow> [])"

section \<open>Ports\<close>

text \<open>
  \<^verbatim>\<open>build\<close>: the demultiplexers of all the connections, in ascending order, take the ports of their host from its
  base port on. The set of the coordinates is collected in the order \<open>ho\<close> in which the map is iterated.
\<close>

definition demux_coords :: "((coord \<times> type_id, (coord \<times> bool) list) hmap \<Rightarrow> (coord \<times> type_id, (coord \<times> bool) list) hmap) \<Rightarrow> topology \<Rightarrow> demux_coord list" where
  "demux_coords ho tp =
     sort (remdups (concat (map (\<lambda>((from_coord, ty), tos). map (\<lambda>(to_coord, fragile). demux_coord_new from_coord to_coord) tos) (ho (tp_next tp)))))"

fun assign_ports :: "host_config list \<Rightarrow> (nat, nat) hmap \<Rightarrow> (demux_coord, address) hmap \<Rightarrow> demux_coord list \<Rightarrow> (demux_coord, address) hmap res" where
  "assign_ports hosts used addresses [] = ret addresses"
| "assign_ports hosts used addresses (coord # coords) =
     (let host_id = bc_host_id (dc_coord coord);
          port_offset = (case map_of used host_id of Some n \<Rightarrow> n | None \<Rightarrow> 0)
      in if length hosts \<le> host_id then panic IndexOutOfBounds
         else bindR (arith_u16 (hc_base_port (hosts ! host_id) + port_offset)) (\<lambda>port.
                bindR (arith_u16 (port_offset + 1)) (\<lambda>offset.
                  assign_ports hosts (AList.update host_id offset used)
                    (AList.update coord (hc_address (hosts ! host_id), port) addresses) coords)))"

definition topology_build :: "((coord \<times> type_id, (coord \<times> bool) list) hmap \<Rightarrow> (coord \<times> type_id, (coord \<times> bool) list) hmap) \<Rightarrow> topology \<Rightarrow> topology res" where
  "topology_build ho tp =
     (case tp_config tp of
        LocalConfig _ \<Rightarrow> ret tp
      | RemoteConfig _ hosts \<Rightarrow>
          bindR (assign_ports hosts [] (tp_addresses tp) (demux_coords ho tp)) (\<lambda>addresses. ret (tp\<lparr>tp_addresses := addresses\<rparr>)))"

section \<open>Channels\<close>

definition remote_prev_blocks :: "type_id \<Rightarrow> demux_coord \<Rightarrow> topology \<Rightarrow> block_coord set" where
  "remote_prev_blocks ty d tp =
     set [block_coord_of from_coord. ((from_coord, t), tos) \<leftarrow> tp_next tp, host_id from_coord \<noteq> bc_host_id (dc_coord d), t = ty,
       (to_coord, fragile) \<leftarrow> tos, includes_channel d from_coord to_coord]"

definition register_demux :: "type_id \<Rightarrow> receiver_endpoint \<Rightarrow> topology \<Rightarrow> topology res" where
  "register_demux ty endpoint tp =
     (let d = demux_of_endpoint endpoint; prev = remote_prev_blocks ty d tp in
      bindR (unwrapR (tp_demultiplexers tp)) (\<lambda>demuxes.
        bindR (if map_of demuxes (ty, d) = None \<and> prev \<noteq> {}
               then case map_of (tp_addresses tp) d of
                      None \<Rightarrow> panic IndexOutOfBounds
                    | Some address \<Rightarrow> ret (AList.update (ty, d) \<lparr>dh_address = address, dh_num_clients = card prev, dh_registered = []\<rparr> demuxes)
               else ret demuxes) (\<lambda>demuxes.
          ret (tp\<lparr>tp_demultiplexers := Some (case map_of demuxes (ty, d) of
            None \<Rightarrow> demuxes
          | Some demux \<Rightarrow> AList.update (ty, d) (demux\<lparr>dh_registered := dh_registered demux @ [endpoint]\<rparr>) demuxes)\<rparr>))))"

definition register_mux :: "type_id \<Rightarrow> receiver_endpoint \<Rightarrow> topology \<Rightarrow> (net_sender \<times> topology) res" where
  "register_mux ty endpoint tp =
     (let d = demux_of_endpoint endpoint in
      bindR (unwrapR (tp_multiplexers tp)) (\<lambda>muxers.
        bindR (if map_of muxers (ty, d) = None
               then case map_of (tp_addresses tp) d of
                      None \<Rightarrow> panic IndexOutOfBounds
                    | Some address \<Rightarrow> ret (AList.update (ty, d) address muxers)
               else ret muxers) (\<lambda>muxers.
          ret (MuxSender d endpoint, tp\<lparr>tp_multiplexers := Some muxers\<rparr>))))"

definition insert_receiver :: "type_id \<Rightarrow> receiver_endpoint \<Rightarrow> topology \<Rightarrow> topology res" where
  "insert_receiver ty endpoint tp =
     bindR (unwrapR (tp_receivers tp)) (\<lambda>m. ret (tp\<lparr>tp_receivers := Some (AList.update (ty, endpoint) endpoint m)\<rparr>))"

definition insert_sender :: "type_id \<Rightarrow> receiver_endpoint \<Rightarrow> net_sender \<Rightarrow> topology \<Rightarrow> topology res" where
  "insert_sender ty endpoint sender tp =
     bindR (unwrapR (tp_senders tp)) (\<lambda>m. ret (tp\<lparr>tp_senders := Some (AList.update (ty, endpoint) sender m)\<rparr>))"

definition register_channel :: "type_id \<Rightarrow> receiver_endpoint \<Rightarrow> topology \<Rightarrow> topology res" where
  "register_channel ty endpoint tp =
     assertR (endpoint \<notin> tp_registered_receivers tp)
      (let tp = tp\<lparr>tp_registered_receivers := insert endpoint (tp_registered_receivers tp)\<rparr> in
       case map_of (tp_senders_metadata tp) endpoint of
         None \<Rightarrow> panic ExplicitPanic
       | Some to_remote \<Rightarrow>
           (case tp_config tp of
              RemoteConfig host _ \<Rightarrow>
                if to_remote then bindR (register_mux ty endpoint tp) (\<lambda>(sender, tp). insert_sender ty endpoint sender tp)
                else
                  bindR (unwrapR host) (\<lambda>host.
                    bindR (if host_id (re_coord endpoint) = host then register_demux ty endpoint tp else ret tp) (\<lambda>tp.
                      bindR (insert_receiver ty endpoint tp) (insert_sender ty endpoint (LocalSender endpoint))))
            | LocalConfig _ \<Rightarrow> bindR (insert_receiver ty endpoint tp) (insert_sender ty endpoint (LocalSender endpoint))))"

definition get_sender :: "type_id \<Rightarrow> receiver_endpoint \<Rightarrow> topology \<Rightarrow> (net_sender \<times> topology) res" where
  "get_sender ty endpoint tp =
     bindR (unwrapR (tp_senders tp)) (\<lambda>m.
       bindR (if map_of m (ty, endpoint) = None then register_channel ty endpoint tp else ret tp) (\<lambda>tp.
         bindR (unwrapR (tp_senders tp)) (\<lambda>m.
           bindR (unwrapR (map_of m (ty, endpoint))) (\<lambda>sender. ret (sender, tp)))))"

fun get_senders_loop :: "type_id \<Rightarrow> nat \<Rightarrow> (coord \<times> bool) list \<Rightarrow> topology \<Rightarrow> ((receiver_endpoint \<times> net_sender) list \<times> topology) res" where
  "get_senders_loop ty block [] tp = ret ([], tp)"
| "get_senders_loop ty block ((c, fragile) # rest) tp =
     (if fragile then get_senders_loop ty block rest tp
      else
        let endpoint = ReceiverEndpoint c block in
        bindR (get_sender ty endpoint tp) (\<lambda>(sender, tp).
          bindR (get_senders_loop ty block rest tp) (\<lambda>(senders, tp). ret ((endpoint, sender) # senders, tp))))"

definition get_senders :: "type_id \<Rightarrow> coord \<Rightarrow> topology \<Rightarrow> ((receiver_endpoint \<times> net_sender) list \<times> topology) res" where
  "get_senders ty coord tp =
     (case map_of (tp_next tp) (coord, ty) of
        None \<Rightarrow> ret ([], tp)
      | Some tos \<Rightarrow> get_senders_loop ty (block_id coord) tos tp)"

definition get_receiver :: "type_id \<Rightarrow> receiver_endpoint \<Rightarrow> topology \<Rightarrow> (receiver_endpoint \<times> topology) res" where
  "get_receiver ty endpoint tp =
     (if endpoint \<in> tp_used_receivers tp then panic ExplicitPanic
      else
        let tp = tp\<lparr>tp_used_receivers := insert endpoint (tp_used_receivers tp)\<rparr> in
        bindR (unwrapR (tp_receivers tp)) (\<lambda>m.
          bindR (if map_of m (ty, endpoint) = None then register_channel ty endpoint tp else ret tp) (\<lambda>tp.
            bindR (unwrapR (tp_receivers tp)) (\<lambda>m.
              bindR (unwrapR (map_of m (ty, endpoint))) (\<lambda>receiver.
                ret (receiver, tp\<lparr>tp_receivers := Some (AList.delete (ty, endpoint) m)\<rparr>))))))"

definition topology_finalize :: "topology \<Rightarrow> topology" where
  "topology_finalize tp = tp\<lparr>tp_receivers := None, tp_senders := None, tp_demultiplexers := None, tp_multiplexers := None\<rparr>"

section \<open>What a sequence of connections leaves\<close>

text \<open>A connection of the execution graph: sender, receiver, type of the elements, whether it is fragile.\<close>

type_synonym edge = "coord \<times> coord \<times> type_id \<times> bool"

fun connect_all :: "edge list \<Rightarrow> topology \<Rightarrow> topology res" where
  "connect_all [] tp = ret tp"
| "connect_all ((f, t, ty, fragile) # es) tp = bindR (topology_connect f t ty fragile tp) (connect_all es)"

lemma connect_all_append: "connect_all (xs @ ys) tp = bindR (connect_all xs tp) (connect_all ys)"
proof (induction xs arbitrary: tp)
  case (Cons e xs)
  obtain f t ty fragile where e: "e = (f, t, ty, fragile)" by (cases e)
  then show ?case using Cons by (cases "topology_connect f t ty fragile tp") (auto simp: bindR_def split: sum.splits)
qed simp

definition edges_next :: "edge list \<Rightarrow> coord \<Rightarrow> type_id \<Rightarrow> (coord \<times> bool) list" where
  "edges_next E f ty = [(t, fr). (f', t, ty', fr) \<leftarrow> E, f' = f \<and> ty' = ty]"

definition edges_prev :: "edge list \<Rightarrow> coord \<Rightarrow> (coord \<times> type_id) list" where
  "edges_prev E t = [(f, ty). (f, t', ty, fr) \<leftarrow> E, t' = t]"

definition edges_coords :: "edge list \<Rightarrow> coord set" where
  "edges_coords E = (\<Union>(f, t, ty, fr) \<in> set E. {f, t})"

text \<open>The channels this host is concerned with.\<close>

definition edges_channels :: "nat \<Rightarrow> edge list \<Rightarrow> receiver_endpoint set" where
  "edges_channels h E = {ReceiverEndpoint t (block_id f) | f t ty fr. (f, t, ty, fr) \<in> set E \<and> (host_id f = h \<or> host_id t = h)}"

definition non_empty :: "'x list \<Rightarrow> 'x list option" where
  "non_empty xs = (if xs = [] then None else Some xs)"

lemma non_empty_snoc: "(case non_empty xs of None \<Rightarrow> [] | Some ys \<Rightarrow> ys) = xs"
  by (simp add: non_empty_def)

definition connected :: "runtime_config \<Rightarrow> nat \<Rightarrow> edge list \<Rightarrow> topology \<Rightarrow> bool" where
  "connected config h E tp \<longleftrightarrow> config_host_id config = Some h
   \<and> distinct (keys (tp_next tp)) \<and> (\<forall>f ty. map_of (tp_next tp) (f, ty) = non_empty (edges_next E f ty))
   \<and> (\<forall>t. map_of (tp_prev tp) t = non_empty (edges_prev E t))
   \<and> (\<forall>b. map_of (tp_block_replicas tp) b = (let cs = {c \<in> edges_coords E. block_id c = b} in if cs = {} then None else Some cs))
   \<and> (\<forall>e. map_of (tp_senders_metadata tp) e = (if e \<in> edges_channels h E then Some (host_id (re_coord e) \<noteq> h) else None))
   \<and> tp_config tp = config \<and> tp_receivers tp = Some [] \<and> tp_senders tp = Some [] \<and> tp_demultiplexers tp = Some [] \<and> tp_multiplexers tp = Some []
   \<and> tp_used_receivers tp = {} \<and> tp_registered_receivers tp = {} \<and> tp_addresses tp = []"

lemma edges_snoc [simp]:
  "edges_next [] f ty = []" "edges_prev [] t = []" "edges_coords [] = {}" "edges_channels h [] = {}"
  "edges_next (E @ [(f', t, ty', fr)]) f ty = edges_next E f ty @ (if f' = f \<and> ty' = ty then [(t, fr)] else [])"
  "edges_prev (E @ [(f, t', ty, fr)]) t = edges_prev E t @ (if t' = t then [(f, ty)] else [])"
  "edges_coords (E @ [(f, t, ty, fr)]) = insert f (insert t (edges_coords E))"
  "edges_channels h (E @ [(f, t, ty, fr)]) =
     (if host_id f = h \<or> host_id t = h then {ReceiverEndpoint t (block_id f)} else {}) \<union> edges_channels h E"
  by (auto simp: edges_next_def edges_prev_def edges_coords_def edges_channels_def)

lemma replica_insert_map:
  "map_of (replica_insert b c m) b' = (if b' = b then Some (insert c (case map_of m b of None \<Rightarrow> {} | Some cs \<Rightarrow> cs)) else map_of m b')"
  by (simp add: replica_insert_def update_conv')

lemma connect_step:
  assumes "connected config h E tp"
  shows "\<exists>tp'. topology_connect f t ty fr tp = ret tp' \<and> connected config h (E @ [(f, t, ty, fr)]) tp'"
proof -
  have config: "tp_config tp = config" "config_host_id config = Some h"
    using assms by (auto simp: connected_def)
  let ?e = "ReceiverEndpoint t (block_id f)"
  let ?tp1 = "tp\<lparr>tp_next := push_entry (f, ty) (t, fr) (tp_next tp), tp_prev := push_entry t (f, ty) (tp_prev tp),
      tp_block_replicas := replica_insert (block_id t) t (replica_insert (block_id f) f (tp_block_replicas tp))\<rparr>"
  let ?meta = "AList.update ?e ((case map_of (tp_senders_metadata tp) ?e of None \<Rightarrow> False | Some b \<Rightarrow> b) \<or> host_id t \<noteq> h) (tp_senders_metadata tp)"
  let ?tp2 = "if host_id f \<noteq> h \<and> host_id t \<noteq> h then ?tp1 else ?tp1\<lparr>tp_senders_metadata := ?meta\<rparr>"
  have step: "topology_connect f t ty fr tp = ret ?tp2" using config by (simp add: topology_connect_def Let_def)
  have nxt: "map_of (push_entry (f, ty) (t, fr) (tp_next tp)) (f', ty') = non_empty (edges_next (E @ [(f, t, ty, fr)]) f' ty')" for f' ty'
    using assms by (auto simp: connected_def push_entry_map non_empty_def)
  have prv: "map_of (push_entry t (f, ty) (tp_prev tp)) t' = non_empty (edges_prev (E @ [(f, t, ty, fr)]) t')" for t'
    using assms by (auto simp: connected_def push_entry_map non_empty_def)
  have rep: "map_of (replica_insert (block_id t) t (replica_insert (block_id f) f (tp_block_replicas tp))) b =
      (let cs = {c \<in> edges_coords (E @ [(f, t, ty, fr)]). block_id c = b} in if cs = {} then None else Some cs)" for b
    using assms by (auto simp: connected_def replica_insert_map Let_def)
  have meta: "map_of ?meta e = (if e = ?e then Some (host_id t \<noteq> h) else map_of (tp_senders_metadata tp) e)" for e
    using assms by (auto simp: connected_def update_conv')
  have "connected config h (E @ [(f, t, ty, fr)]) ?tp2"
  proof (cases "host_id f \<noteq> h \<and> host_id t \<noteq> h")
    case True
    then show ?thesis using assms nxt prv rep by (simp add: connected_def push_entry_distinct)
  next
    case False
    have m: "map_of ?meta e = (if e \<in> edges_channels h (E @ [(f, t, ty, fr)]) then Some (host_id (re_coord e) \<noteq> h) else None)" for e
      unfolding meta using assms False by (auto simp: connected_def)
    show ?thesis using assms nxt prv rep m False by (auto simp: connected_def push_entry_distinct simp del: edges_snoc update_conv')
  qed
  with step show ?thesis by blast
qed

lemma connect_all_connected:
  assumes "config_host_id config = Some h"
  shows "\<exists>tp. connect_all E (topology_new config) = ret tp \<and> connected config h E tp"
proof (induction E rule: rev_induct)
  case Nil
  then show ?case using assms by (auto simp: connected_def topology_new_def non_empty_def)
next
  case (snoc e E)
  obtain f t ty fr where e: "e = (f, t, ty, fr)" by (cases e)
  from snoc obtain tp where "connect_all E (topology_new config) = ret tp" "connected config h E tp" by blast
  with connect_step [of config h E tp f t ty fr] e show ?case by (auto simp: connect_all_append)
qed

section \<open>The ports of a host\<close>

abbreviation demux_host :: "demux_coord \<Rightarrow> nat" where
  "demux_host d \<equiv> bc_host_id (dc_coord d)"

definition on_host :: "nat \<Rightarrow> demux_coord list \<Rightarrow> nat" where
  "on_host i cs = length (filter (\<lambda>d. demux_host d = i) cs)"

abbreviation used_ports :: "(nat, nat) hmap \<Rightarrow> nat \<Rightarrow> nat" where
  "used_ports used i \<equiv> (case map_of used i of Some n \<Rightarrow> n | None \<Rightarrow> 0)"

lemma assign_ports_result:
  assumes "distinct cs" and "\<forall>d \<in> set cs. demux_host d < length hosts"
    and "\<forall>i < length hosts. used_ports used i + on_host i cs < 2 ^ 16 \<and> hc_base_port (hosts ! i) + used_ports used i + on_host i cs \<le> 2 ^ 16"
  shows "\<exists>addresses'. assign_ports hosts used addresses cs = ret addresses' \<and> (\<forall>d. map_of addresses' d =
    (if d \<in> set cs then Some (hc_address (hosts ! demux_host d),
        hc_base_port (hosts ! demux_host d) + used_ports used (demux_host d) + on_host (demux_host d) (takeWhile (\<lambda>c. c \<noteq> d) cs))
     else map_of addresses d))"
  using assms
proof (induction cs arbitrary: used addresses)
  case (Cons c cs)
  let ?i = "demux_host c"
  let ?used = "AList.update ?i (used_ports used ?i + 1) used"
  let ?addresses = "AList.update c (hc_address (hosts ! ?i), hc_base_port (hosts ! ?i) + used_ports used ?i) addresses"
  have used: "used_ports ?used i = used_ports used i + (if i = ?i then 1 else 0)" for i by (simp add: update_conv')
  have one: "on_host i (c # cs) = (if i = ?i then 1 else 0) + on_host i cs" for i by (simp add: on_host_def)
  have i: "?i < length hosts" using Cons.prems(2) by simp
  have room: "used_ports used ?i + 1 + on_host ?i cs < 2 ^ 16" "hc_base_port (hosts ! ?i) + used_ports used ?i + 1 + on_host ?i cs \<le> 2 ^ 16"
    using Cons.prems(3) i one [of ?i] by auto
  have "assign_ports hosts used addresses (c # cs) = assign_ports hosts ?used ?addresses cs"
    using i room by (simp add: Let_def arith_u16_def)
  moreover have "\<forall>i < length hosts. used_ports ?used i + on_host i cs < 2 ^ 16 \<and> hc_base_port (hosts ! i) + used_ports ?used i + on_host i cs \<le> 2 ^ 16"
    using Cons.prems(3) unfolding used one by auto
  with Cons.IH [of ?used ?addresses] Cons.prems(1,2) obtain addresses' where
    IH: "assign_ports hosts ?used ?addresses cs = ret addresses'" "\<forall>d. map_of addresses' d =
      (if d \<in> set cs then Some (hc_address (hosts ! demux_host d),
          hc_base_port (hosts ! demux_host d) + used_ports ?used (demux_host d) + on_host (demux_host d) (takeWhile (\<lambda>c. c \<noteq> d) cs))
       else map_of ?addresses d)" by auto
  moreover have "map_of addresses' d =
    (if d \<in> set (c # cs) then Some (hc_address (hosts ! demux_host d),
        hc_base_port (hosts ! demux_host d) + used_ports used (demux_host d) + on_host (demux_host d) (takeWhile (\<lambda>c. c \<noteq> d) (c # cs)))
     else map_of addresses d)" for d
  proof (cases "d = c")
    case True
    then show ?thesis using IH(2) Cons.prems(1) by (simp add: update_conv' on_host_def)
  next
    case False
    then show ?thesis using IH(2) unfolding used by (simp add: update_conv' on_host_def)
  qed
  ultimately show ?case by auto
qed simp

lemma takeWhile_sorted:
  assumes "sorted_wrt (<) cs" and "d \<in> set cs"
  shows "takeWhile (\<lambda>c. c \<noteq> d) cs = filter (\<lambda>c. c < (d :: 'x :: linorder)) cs"
  using assms
proof (induction cs)
  case (Cons c cs)
  show ?case
  proof (cases "c = d")
    case True
    then have "\<forall>x \<in> set cs. \<not> x < d" using Cons.prems(1) by auto
    then show ?thesis using True by (simp add: filter_False)
  next
    case False
    then show ?thesis using Cons by auto
  qed
qed simp

lemma on_host_below:
  assumes "sorted_wrt (<) cs" and "d \<in> set cs"
  shows "on_host i (takeWhile (\<lambda>c. c \<noteq> d) cs) = card {c \<in> set cs. demux_host c = i \<and> c < d}"
proof -
  have "distinct cs" using assms(1) by (simp add: strict_sorted_iff)
  then have "on_host i (takeWhile (\<lambda>c. c \<noteq> d) cs) = card (set (filter (\<lambda>c. demux_host c = i) (filter (\<lambda>c. c < d) cs)))"
    unfolding on_host_def takeWhile_sorted [OF assms] by (subst distinct_card) simp_all
  also have "set (filter (\<lambda>c. demux_host c = i) (filter (\<lambda>c. c < d) cs)) = {c \<in> set cs. demux_host c = i \<and> c < d}" by auto
  finally show ?thesis .
qed

definition edges_demuxes :: "edge list \<Rightarrow> demux_coord set" where
  "edges_demuxes E = (\<lambda>(f, t, ty, fr). demux_coord_new f t) ` set E"

lemma demux_coords_edges:
  assumes ho: "hash_order ho" and tp: "connected config h E tp"
  shows "set (demux_coords ho tp) = edges_demuxes E" and "sorted_wrt (<) (demux_coords ho tp)"
proof -
  have entry: "((f, ty), tos) \<in> set (tp_next tp) \<longleftrightarrow> tos \<noteq> [] \<and> tos = edges_next E f ty" for f ty tos
  proof -
    have "distinct (keys (tp_next tp))" using tp by (simp add: connected_def)
    then have "((f, ty), tos) \<in> set (tp_next tp) \<longleftrightarrow> map_of (tp_next tp) (f, ty) = Some tos" by (rule map_of_eq_Some_iff [symmetric])
    then show ?thesis using tp by (auto simp: connected_def non_empty_def)
  qed
  have "demux_coord_new f t \<in> set (demux_coords ho tp)" if "(f, t, ty, fr) \<in> set E" for f t ty fr
  proof -
    have "(t, fr) \<in> set (edges_next E f ty)" using that by (force simp: edges_next_def)
    moreover from this have "((f, ty), edges_next E f ty) \<in> set (tp_next tp)" unfolding entry by auto
    ultimately show ?thesis using hash_order_set [OF ho] by (force simp: demux_coords_def)
  qed
  moreover have "d \<in> edges_demuxes E" if d: "d \<in> set (demux_coords ho tp)" for d
  proof -
    from d obtain f ty tos t fr where "((f, ty), tos) \<in> set (tp_next tp)" "(t, fr) \<in> set tos" "d = demux_coord_new f t"
      using hash_order_set [OF ho] by (force simp: demux_coords_def)
    then show ?thesis unfolding entry by (force simp: edges_next_def edges_demuxes_def)
  qed
  ultimately show "set (demux_coords ho tp) = edges_demuxes E" by (force simp: edges_demuxes_def)
  show "sorted_wrt (<) (demux_coords ho tp)" by (simp add: demux_coords_def strict_sorted_iff)
qed

text \<open>A host has enough ports for its demultiplexers.\<close>

definition enough_ports :: "host_config list \<Rightarrow> edge list \<Rightarrow> bool" where
  "enough_ports hosts E \<longleftrightarrow> (\<forall>c \<in> edges_coords E. host_id c < length hosts)
     \<and> (\<forall>i < length hosts. let n = card {d \<in> edges_demuxes E. demux_host d = i} in n < 2 ^ 16 \<and> hc_base_port (hosts ! i) + n \<le> 2 ^ 16)"

definition demux_address :: "host_config list \<Rightarrow> edge list \<Rightarrow> demux_coord \<Rightarrow> address" where
  "demux_address hosts E d = (hc_address (hosts ! demux_host d),
     hc_base_port (hosts ! demux_host d) + card {d' \<in> edges_demuxes E. demux_host d' = demux_host d \<and> d' < d})"

lemma build_addresses:
  assumes ho: "hash_order ho" and tp: "connected (RemoteConfig (Some h) hosts) h E tp" and room: "enough_ports hosts E"
  shows "\<exists>tp'. topology_build ho tp = ret tp' \<and> tp' = tp\<lparr>tp_addresses := tp_addresses tp'\<rparr>
    \<and> (\<forall>d. map_of (tp_addresses tp') d = (if d \<in> edges_demuxes E then Some (demux_address hosts E d) else None))"
proof -
  let ?cs = "demux_coords ho tp"
  note cs = demux_coords_edges [OF ho tp]
  have "\<forall>d \<in> set ?cs. demux_host d < length hosts"
    using room unfolding cs(1) by (force simp: enough_ports_def edges_demuxes_def edges_coords_def demux_coord_new_def block_coord_of_def)
  moreover have "on_host i ?cs = card {d \<in> edges_demuxes E. demux_host d = i}" for i
  proof -
    have "distinct ?cs" using cs(2) by (simp add: strict_sorted_iff)
    then have "on_host i ?cs = card (set (filter (\<lambda>d. demux_host d = i) ?cs))" unfolding on_host_def by (subst distinct_card) simp_all
    also have "set (filter (\<lambda>d. demux_host d = i) ?cs) = {d \<in> edges_demuxes E. demux_host d = i}" using cs(1) by auto
    finally show ?thesis .
  qed
  then have "\<forall>i < length hosts. used_ports [] i + on_host i ?cs < 2 ^ 16 \<and> hc_base_port (hosts ! i) + used_ports [] i + on_host i ?cs \<le> 2 ^ 16"
    using room by (simp add: enough_ports_def Let_def)
  moreover have "distinct ?cs" using cs(2) by (simp add: strict_sorted_iff)
  ultimately obtain addresses where a: "assign_ports hosts [] [] ?cs = ret addresses" "\<forall>d. map_of addresses d =
    (if d \<in> set ?cs then Some (hc_address (hosts ! demux_host d),
        hc_base_port (hosts ! demux_host d) + used_ports [] (demux_host d) + on_host (demux_host d) (takeWhile (\<lambda>c. c \<noteq> d) ?cs))
     else map_of [] d)"
    using assign_ports_result [of ?cs hosts "[]" "[]"] by blast
  have "map_of addresses d = (if d \<in> edges_demuxes E then Some (demux_address hosts E d) else None)" for d
    using a(2) on_host_below [OF cs(2), of d] unfolding cs(1) by (simp add: demux_address_def)
  moreover have "topology_build ho tp = ret (tp\<lparr>tp_addresses := addresses\<rparr>)" using tp a(1) by (simp add: topology_build_def connected_def)
  ultimately show ?thesis by auto
qed

lemma demux_address_inj:
  assumes "d \<in> edges_demuxes E" "d' \<in> edges_demuxes E" "demux_host d = demux_host d'" "snd (demux_address hosts E d) = snd (demux_address hosts E d')"
  shows "d = d'"
proof (rule ccontr)
  assume "d \<noteq> d'"
  have less: "card {c \<in> edges_demuxes E. demux_host c = demux_host x \<and> c < x} < card {c \<in> edges_demuxes E. demux_host c = demux_host y \<and> c < y}"
    if "x < y" "x \<in> edges_demuxes E" "demux_host x = demux_host y" for x y
  proof (rule psubset_card_mono)
    show "finite {c \<in> edges_demuxes E. demux_host c = demux_host y \<and> c < y}" by (simp add: edges_demuxes_def)
    show "{c \<in> edges_demuxes E. demux_host c = demux_host x \<and> c < x} \<subset> {c \<in> edges_demuxes E. demux_host c = demux_host y \<and> c < y}"
      using that by auto
  qed
  from \<open>d \<noteq> d'\<close> have "d < d' \<or> d' < d" by auto
  then show False using less [of d d'] less [of d' d] assms by (auto simp: demux_address_def)
qed


section \<open>The channels handed to the replicas\<close>

text \<open>
  The calls of the replicas while they are set up, from the topology that \<^verbatim>\<open>build\<close> leaves: an endpoint carries
  the type of its connections, \<open>ty\<close>.
\<close>

inductive handing :: "runtime_config \<Rightarrow> nat \<Rightarrow> edge list \<Rightarrow> (receiver_endpoint \<Rightarrow> type_id) \<Rightarrow> topology \<Rightarrow> bool"
  for config h E ty where
  built: "connected config h E tp0 \<Longrightarrow> hash_order ho \<Longrightarrow> topology_build ho tp0 = ret tp \<Longrightarrow> handing config h E ty tp"
| sender_call: "handing config h E ty tp \<Longrightarrow> e \<in> edges_channels h E \<Longrightarrow> get_sender (ty e) e tp = ret (s, tp') \<Longrightarrow> handing config h E ty tp'"
| senders_call: "handing config h E ty tp \<Longrightarrow> host_id c = h \<Longrightarrow> get_senders t c tp = ret (ss, tp') \<Longrightarrow> handing config h E ty tp'"
| receiver_call: "handing config h E ty tp \<Longrightarrow> e \<in> edges_channels h E \<Longrightarrow> host_id (re_coord e) = h
    \<Longrightarrow> get_receiver (ty e) e tp = ret (r, tp') \<Longrightarrow> handing config h E ty tp'"

definition sender_of :: "nat \<Rightarrow> receiver_endpoint \<Rightarrow> net_sender" where
  "sender_of h e = (if host_id (re_coord e) = h then LocalSender e else MuxSender (demux_of_endpoint e) e)"

text \<open>The connections have one type per endpoint, a local environment has one host, and a remote one enough ports.\<close>

definition well_connected :: "runtime_config \<Rightarrow> nat \<Rightarrow> edge list \<Rightarrow> (receiver_endpoint \<Rightarrow> type_id) \<Rightarrow> bool" where
  "well_connected config h E ty \<longleftrightarrow> (\<forall>(f, t, typ, fr) \<in> set E. ty (ReceiverEndpoint t (block_id f)) = typ)
     \<and> (case config of LocalConfig _ \<Rightarrow> h = 0 \<and> (\<forall>c \<in> edges_coords E. host_id c = 0) | RemoteConfig host hosts \<Rightarrow> host = Some h \<and> enough_ports hosts E)"

text \<open>The invariant: who has been handed what.\<close>

definition serviceable :: "runtime_config \<Rightarrow> nat \<Rightarrow> edge list \<Rightarrow> topology \<Rightarrow> bool" where
  "serviceable config h E tp \<longleftrightarrow> tp_config tp = config
   \<and> (\<forall>f t. map_of (tp_next tp) (f, t) = non_empty (edges_next E f t))
   \<and> (\<forall>e. map_of (tp_senders_metadata tp) e = (if e \<in> edges_channels h E then Some (host_id (re_coord e) \<noteq> h) else None))
   \<and> (\<exists>D. tp_demultiplexers tp = Some D)
   \<and> (\<exists>M. tp_multiplexers tp = Some M \<and> (\<forall>t d a. map_of M (t, d) = Some a \<longrightarrow> map_of (tp_addresses tp) d = Some a))
   \<and> (\<forall>host hosts. config = RemoteConfig host hosts
        \<longrightarrow> (\<forall>d. map_of (tp_addresses tp) d = (if d \<in> edges_demuxes E then Some (demux_address hosts E d) else None)))"

definition handed :: "runtime_config \<Rightarrow> nat \<Rightarrow> edge list \<Rightarrow> (receiver_endpoint \<Rightarrow> type_id) \<Rightarrow> topology \<Rightarrow> bool" where
  "handed config h E ty tp \<longleftrightarrow> serviceable config h E tp
   \<and> (\<exists>S. tp_senders tp = Some S \<and> (\<forall>t e. map_of S (t, e) = (if e \<in> tp_registered_receivers tp \<and> t = ty e then Some (sender_of h e) else None)))
   \<and> (\<exists>R. tp_receivers tp = Some R \<and> (\<forall>t e. map_of R (t, e) =
        (if e \<in> tp_registered_receivers tp \<and> t = ty e \<and> host_id (re_coord e) = h \<and> e \<notin> tp_used_receivers tp then Some e else None)))
   \<and> tp_used_receivers tp \<subseteq> tp_registered_receivers tp"

lemma serviceable_cong:
  "serviceable config h E (tp\<lparr>tp_used_receivers := U\<rparr>) = serviceable config h E tp"
  "serviceable config h E (tp\<lparr>tp_registered_receivers := G\<rparr>) = serviceable config h E tp"
  "serviceable config h E (tp\<lparr>tp_senders := S\<rparr>) = serviceable config h E tp"
  "serviceable config h E (tp\<lparr>tp_receivers := R\<rparr>) = serviceable config h E tp"
  by (simp_all add: serviceable_def)

lemma register_demux_ret:
  assumes "tp_demultiplexers tp = Some D" and "map_of (tp_addresses tp) (demux_of_endpoint e) = Some a"
  shows "\<exists>D'. register_demux t e tp = ret (tp\<lparr>tp_demultiplexers := Some D'\<rparr>)"
  using assms by (cases "map_of D (t, demux_of_endpoint e) = None \<and> remote_prev_blocks t (demux_of_endpoint e) tp \<noteq> {}")
    (auto simp: register_demux_def Let_def)

lemma channel_demux: "e \<in> edges_channels h E \<Longrightarrow> demux_of_endpoint e \<in> edges_demuxes E"
  by (force simp: edges_channels_def edges_demuxes_def demux_of_endpoint_new)

text \<open>Registering a channel.\<close>

lemma register_channel_result:
  assumes ok: "well_connected config h E ty" and inv: "serviceable config h E tp" and e: "e \<in> edges_channels h E" "e \<notin> tp_registered_receivers tp"
    and S: "tp_senders tp = Some S" and R: "tp_receivers tp = Some R"
  shows "\<exists>tp'. register_channel t e tp = ret tp' \<and> serviceable config h E tp'
    \<and> tp_registered_receivers tp' = insert e (tp_registered_receivers tp) \<and> tp_used_receivers tp' = tp_used_receivers tp
    \<and> tp_senders tp' = Some (AList.update (t, e) (sender_of h e) S)
    \<and> tp_receivers tp' = Some (if host_id (re_coord e) = h then AList.update (t, e) e R else R)"
proof -
  obtain D M where D: "tp_demultiplexers tp = Some D" and M: "tp_multiplexers tp = Some M" "\<forall>t d a. map_of M (t, d) = Some a \<longrightarrow> map_of (tp_addresses tp) d = Some a"
    using inv by (auto simp: serviceable_def)
  have meta: "map_of (tp_senders_metadata tp) e = Some (host_id (re_coord e) \<noteq> h)" using inv e by (simp add: serviceable_def)
  have cfg: "tp_config tp = config" using inv by (simp add: serviceable_def)
  let ?tp = "tp\<lparr>tp_registered_receivers := insert e (tp_registered_receivers tp)\<rparr>"
  show ?thesis
  proof (cases config)
    case (LocalConfig n)
    then have "host_id (re_coord e) = h" using ok e(1) by (force simp: well_connected_def edges_channels_def edges_coords_def)
    moreover from this have "register_channel t e tp = ret (tp\<lparr>tp_registered_receivers := insert e (tp_registered_receivers tp),
        tp_senders := Some (AList.update (t, e) (sender_of h e) S), tp_receivers := Some (AList.update (t, e) e R)\<rparr>)"
      using e(2) meta cfg LocalConfig S R
      by (simp add: register_channel_def insert_receiver_def insert_sender_def Let_def sender_of_def)
    ultimately show ?thesis using inv by (simp add: serviceable_cong)
  next
    case (RemoteConfig host hosts)
    have host: "host = Some h" using ok RemoteConfig by (simp add: well_connected_def)
    have addr: "map_of (tp_addresses tp) (demux_of_endpoint e) = Some (demux_address hosts E (demux_of_endpoint e))"
      using inv channel_demux [OF e(1)] RemoteConfig by (simp add: serviceable_def)
    show ?thesis
    proof (cases "host_id (re_coord e) = h")
      case True
      obtain D' where "register_demux t e ?tp = ret (?tp\<lparr>tp_demultiplexers := Some D'\<rparr>)"
        using register_demux_ret [of ?tp D e _ t] D addr by auto
      then have "register_channel t e tp = ret (tp\<lparr>tp_registered_receivers := insert e (tp_registered_receivers tp),
          tp_demultiplexers := Some D', tp_receivers := Some (AList.update (t, e) e R), tp_senders := Some (AList.update (t, e) (sender_of h e) S)\<rparr>)"
        using e(2) meta cfg RemoteConfig S R True host
        by (simp add: register_channel_def insert_receiver_def insert_sender_def Let_def sender_of_def)
      moreover have "serviceable config h E (tp\<lparr>tp_demultiplexers := Some D'\<rparr>)" using inv by (simp add: serviceable_def)
      ultimately show ?thesis using True by (simp add: serviceable_def)
    next
      case False
      let ?M = "if map_of M (t, demux_of_endpoint e) = None then AList.update (t, demux_of_endpoint e) (demux_address hosts E (demux_of_endpoint e)) M else M"
      have "register_mux t e ?tp = ret (MuxSender (demux_of_endpoint e) e, ?tp\<lparr>tp_multiplexers := Some ?M\<rparr>)"
        using M addr by (simp add: register_mux_def Let_def)
      then have "register_channel t e tp = ret (tp\<lparr>tp_registered_receivers := insert e (tp_registered_receivers tp),
          tp_multiplexers := Some ?M, tp_senders := Some (AList.update (t, e) (sender_of h e) S)\<rparr>)"
        using e(2) meta cfg RemoteConfig S False by (simp add: register_channel_def insert_sender_def Let_def sender_of_def)
      moreover have "\<forall>t d a. map_of ?M (t, d) = Some a \<longrightarrow> map_of (tp_addresses tp) d = Some a"
        using M(2) addr by (auto simp: update_conv')
      ultimately show ?thesis using False R inv by (simp add: serviceable_def)
    qed
  qed
qed

text \<open>The two maps, before and after a channel is registered.\<close>

lemma handed_maps:
  assumes "handed config h E ty tp"
  obtains S R where "tp_senders tp = Some S" and "\<forall>t e. map_of S (t, e) = (if e \<in> tp_registered_receivers tp \<and> t = ty e then Some (sender_of h e) else None)"
    and "tp_receivers tp = Some R" and "\<forall>t e. map_of R (t, e) =
        (if e \<in> tp_registered_receivers tp \<and> t = ty e \<and> host_id (re_coord e) = h \<and> e \<notin> tp_used_receivers tp then Some e else None)"
    and "serviceable config h E tp" and "tp_used_receivers tp \<subseteq> tp_registered_receivers tp"
  using assms by (auto simp: handed_def)

lemma get_sender_handed:
  assumes ok: "well_connected config h E ty" and inv: "handed config h E ty tp" and e: "e \<in> edges_channels h E"
  shows "\<exists>tp'. get_sender (ty e) e tp = ret (sender_of h e, tp') \<and> handed config h E ty tp' \<and> tp_used_receivers tp' = tp_used_receivers tp"
proof -
  from inv obtain S R where m: "tp_senders tp = Some S" "\<forall>t e. map_of S (t, e) = (if e \<in> tp_registered_receivers tp \<and> t = ty e then Some (sender_of h e) else None)"
    "tp_receivers tp = Some R" "\<forall>t e. map_of R (t, e) =
        (if e \<in> tp_registered_receivers tp \<and> t = ty e \<and> host_id (re_coord e) = h \<and> e \<notin> tp_used_receivers tp then Some e else None)"
    "serviceable config h E tp" "tp_used_receivers tp \<subseteq> tp_registered_receivers tp" by (rule handed_maps)
  show ?thesis
  proof (cases "e \<in> tp_registered_receivers tp")
    case True
    then have "get_sender (ty e) e tp = ret (sender_of h e, tp)" using m(1,2) by (simp add: get_sender_def)
    with inv show ?thesis by blast
  next
    case False
    from register_channel_result [OF ok m(5) e False m(1,3), of "ty e"] obtain tp' where
      reg: "register_channel (ty e) e tp = ret tp'" "serviceable config h E tp'"
        "tp_registered_receivers tp' = insert e (tp_registered_receivers tp)" "tp_used_receivers tp' = tp_used_receivers tp"
        "tp_senders tp' = Some (AList.update (ty e, e) (sender_of h e) S)"
        "tp_receivers tp' = Some (if host_id (re_coord e) = h then AList.update (ty e, e) e R else R)" by blast
    have "get_sender (ty e) e tp = ret (sender_of h e, tp')" using m(1,2) reg False by (simp add: get_sender_def update_conv')
    moreover have "e \<notin> tp_used_receivers tp" using m(6) False by blast
    then have "handed config h E ty tp'" using m reg(2-6) by (auto simp: handed_def update_conv')
    ultimately show ?thesis using reg(4) by blast
  qed
qed

lemma get_receiver_handed:
  assumes ok: "well_connected config h E ty" and inv: "handed config h E ty tp" and e: "e \<in> edges_channels h E" "host_id (re_coord e) = h"
    and fresh: "e \<notin> tp_used_receivers tp"
  shows "\<exists>tp'. get_receiver (ty e) e tp = ret (e, tp') \<and> handed config h E ty tp' \<and> tp_used_receivers tp' = insert e (tp_used_receivers tp)"
proof -
  from inv obtain S R where m: "tp_senders tp = Some S" "\<forall>t e. map_of S (t, e) = (if e \<in> tp_registered_receivers tp \<and> t = ty e then Some (sender_of h e) else None)"
    "tp_receivers tp = Some R" "\<forall>t e. map_of R (t, e) =
        (if e \<in> tp_registered_receivers tp \<and> t = ty e \<and> host_id (re_coord e) = h \<and> e \<notin> tp_used_receivers tp then Some e else None)"
    "serviceable config h E tp" "tp_used_receivers tp \<subseteq> tp_registered_receivers tp" by (rule handed_maps)
  let ?tp = "tp\<lparr>tp_used_receivers := insert e (tp_used_receivers tp)\<rparr>"
  show ?thesis
  proof (cases "e \<in> tp_registered_receivers tp")
    case True
    let ?tp' = "?tp\<lparr>tp_receivers := Some (AList.delete (ty e, e) R)\<rparr>"
    have "get_receiver (ty e) e tp = ret (e, ?tp')" using m(3,4) True fresh e(2) by (simp add: get_receiver_def)
    moreover have "handed config h E ty ?tp'" using m True by (auto simp: handed_def serviceable_cong delete_conv')
    ultimately show ?thesis by auto
  next
    case False
    have "serviceable config h E ?tp" "e \<notin> tp_registered_receivers ?tp" "tp_senders ?tp = Some S" "tp_receivers ?tp = Some R"
      using m False by (simp_all add: serviceable_cong)
    from register_channel_result [OF ok this(1) e(1) this(2-4), of "ty e"] e(2) obtain tp' where
      reg: "register_channel (ty e) e ?tp = ret tp'" "serviceable config h E tp'"
        "tp_registered_receivers tp' = insert e (tp_registered_receivers tp)" "tp_used_receivers tp' = insert e (tp_used_receivers tp)"
        "tp_senders tp' = Some (AList.update (ty e, e) (sender_of h e) S)" "tp_receivers tp' = Some (AList.update (ty e, e) e R)" by auto
    let ?tp' = "tp'\<lparr>tp_receivers := Some (AList.delete (ty e, e) (AList.update (ty e, e) e R))\<rparr>"
    have "get_receiver (ty e) e tp = ret (e, ?tp')" using m(3,4) reg(1,6) False fresh by (simp add: get_receiver_def update_conv')
    moreover have "handed config h E ty ?tp'" using m reg(2-6) False by (auto simp: handed_def serviceable_cong delete_conv' update_conv')
    ultimately show ?thesis using reg(4) by auto
  qed
qed

lemma get_senders_loop_handed:
  assumes "well_connected config h E ty" and "handed config h E ty tp"
    and "\<forall>(c, fr) \<in> set tos. ReceiverEndpoint c b \<in> edges_channels h E \<and> ty (ReceiverEndpoint c b) = t"
  shows "\<exists>tp'. get_senders_loop t b tos tp = ret ([(ReceiverEndpoint c b, sender_of h (ReceiverEndpoint c b)). (c, fr) \<leftarrow> tos, \<not> fr], tp')
    \<and> handed config h E ty tp' \<and> tp_used_receivers tp' = tp_used_receivers tp"
  using assms(2,3)
proof (induction tos arbitrary: tp)
  case (Cons p tos)
  obtain c fr where p: "p = (c, fr)" by (cases p)
  let ?e = "ReceiverEndpoint c b"
  show ?case
  proof (cases fr)
    case True
    then show ?thesis using Cons p by simp
  next
    case False
    have e: "?e \<in> edges_channels h E" "ty ?e = t" using Cons.prems(2) p by auto
    from get_sender_handed [OF assms(1) Cons.prems(1) e(1)] e(2) obtain tp1 where
      tp1: "get_sender t ?e tp = ret (sender_of h ?e, tp1)" "handed config h E ty tp1" "tp_used_receivers tp1 = tp_used_receivers tp" by auto
    with Cons.IH [OF tp1(2)] Cons.prems(2) p False show ?thesis by (auto simp: Let_def)
  qed
qed simp

lemma get_senders_handed:
  assumes "well_connected config h E ty" and "handed config h E ty tp" and "host_id c = h"
  shows "\<exists>tp'. get_senders t c tp = ret ([(ReceiverEndpoint to_c (block_id c), sender_of h (ReceiverEndpoint to_c (block_id c))). (to_c, fr) \<leftarrow> edges_next E c t, \<not> fr], tp')
    \<and> handed config h E ty tp' \<and> tp_used_receivers tp' = tp_used_receivers tp"
proof -
  have "ReceiverEndpoint to_c (block_id c) \<in> edges_channels h E \<and> ty (ReceiverEndpoint to_c (block_id c)) = t"
    if "(to_c, fr) \<in> set (edges_next E c t)" for to_c fr
  proof -
    have "(c, to_c, t, fr) \<in> set E" using that by (auto simp: edges_next_def)
    then show ?thesis using assms(1,3) by (force simp: edges_channels_def well_connected_def)
  qed
  then have "\<forall>(to_c, fr) \<in> set (edges_next E c t). ReceiverEndpoint to_c (block_id c) \<in> edges_channels h E \<and> ty (ReceiverEndpoint to_c (block_id c)) = t"
    by blast
  from get_senders_loop_handed [OF assms(1,2) this] obtain tp' where
    "get_senders_loop t (block_id c) (edges_next E c t) tp =
       ret ([(ReceiverEndpoint to_c (block_id c), sender_of h (ReceiverEndpoint to_c (block_id c))). (to_c, fr) \<leftarrow> edges_next E c t, \<not> fr], tp')"
    "handed config h E ty tp'" "tp_used_receivers tp' = tp_used_receivers tp" by blast
  moreover have "map_of (tp_next tp) (c, t) = non_empty (edges_next E c t)" using assms(2) by (simp add: handed_def serviceable_def)
  ultimately show ?thesis using assms(2) by (cases "edges_next E c t = []") (auto simp: get_senders_def non_empty_def)
qed

text \<open>The connections stay as they were registered.\<close>

lemma insert_prev:
  "insert_sender t e sd tp = ret tp' \<Longrightarrow> tp_prev tp' = tp_prev tp" "insert_receiver t e tp = ret tp' \<Longrightarrow> tp_prev tp' = tp_prev tp"
  by (auto simp: insert_sender_def insert_receiver_def bindR_eq_ret)

lemma register_mux_prev: "register_mux t e tp = ret (sd, tp') \<Longrightarrow> tp_prev tp' = tp_prev tp"
  by (auto simp: register_mux_def Let_def bindR_eq_ret)

lemma register_demux_prev: "register_demux t e tp = ret tp' \<Longrightarrow> tp_prev tp' = tp_prev tp"
  by (auto simp: register_demux_def Let_def bindR_eq_ret)

lemma register_channel_prev:
  assumes "register_channel t e tp = ret tp'"
  shows "tp_prev tp' = tp_prev tp"
proof -
  have "e \<notin> tp_registered_receivers tp" using assms by (auto simp: register_channel_def assertR_def split: if_splits)
  with assms show ?thesis
    by (auto simp: register_channel_def Let_def bindR_eq_ret dest!: insert_prev register_mux_prev register_demux_prev
        split: option.splits runtime_config.splits if_splits)
qed

lemma get_sender_prev: "get_sender t e tp = ret (s, tp') \<Longrightarrow> tp_prev tp' = tp_prev tp"
  by (auto simp: get_sender_def bindR_eq_ret dest: register_channel_prev split: if_splits)

lemma get_senders_loop_prev: "get_senders_loop t b tos tp = ret (ss, tp') \<Longrightarrow> tp_prev tp' = tp_prev tp"
  by (induction t b tos tp arbitrary: ss tp' rule: get_senders_loop.induct)
    (fastforce simp: bindR_eq_ret Let_def dest: get_sender_prev split: if_splits)+

lemma get_senders_prev: "get_senders t c tp = ret (ss, tp') \<Longrightarrow> tp_prev tp' = tp_prev tp"
  by (auto simp: get_senders_def dest: get_senders_loop_prev split: option.splits)

lemma get_receiver_prev: "get_receiver t e tp = ret (r, tp') \<Longrightarrow> tp_prev tp' = tp_prev tp"
  by (auto simp: get_receiver_def bindR_eq_ret Let_def dest!: register_channel_prev split: if_splits)

lemma built_handed:
  assumes ok: "well_connected config h E ty" and tp0: "connected config h E tp0" and ho: "hash_order ho" and tp: "topology_build ho tp0 = ret tp"
  shows "handed config h E ty tp"
proof (cases config)
  case (LocalConfig n)
  then have "tp = tp0" using tp tp0 by (simp add: topology_build_def connected_def)
  then show ?thesis using tp0 LocalConfig by (simp add: connected_def handed_def serviceable_def)
next
  case (RemoteConfig host hosts)
  then have host: "config = RemoteConfig (Some h) hosts" and room: "enough_ports hosts E" using ok by (simp_all add: well_connected_def)
  from build_addresses [OF ho tp0 [unfolded host] room] tp obtain
    a: "tp = tp0\<lparr>tp_addresses := tp_addresses tp\<rparr>" "\<forall>d. map_of (tp_addresses tp) d = (if d \<in> edges_demuxes E then Some (demux_address hosts E d) else None)"
    by auto
  define A where "A = tp_addresses tp"
  have tp_eq: "tp = tp0\<lparr>tp_addresses := A\<rparr>" using a(1) unfolding A_def .
  have A: "\<forall>d. map_of A d = (if d \<in> edges_demuxes E then Some (demux_address hosts E d) else None)" using a(2) unfolding A_def .
  show ?thesis using tp0 A host unfolding tp_eq by (simp add: connected_def handed_def serviceable_def)
qed

lemma handing_handed:
  assumes "well_connected config h E ty" and "handing config h E ty tp"
  shows "handed config h E ty tp"
  using assms(2)
proof (induction rule: handing.induct)
  case (built tp0 ho tp)
  then show ?case by (rule built_handed [OF assms(1)])
next
  case (sender_call tp e s tp')
  then show ?case using get_sender_handed [OF assms(1)] by fastforce
next
  case (senders_call tp c t ss tp')
  from get_senders_handed [OF assms(1) senders_call.IH senders_call.hyps(2), of t] senders_call.hyps(3) show ?case by auto
next
  case (receiver_call tp e r tp')
  have "e \<notin> tp_used_receivers tp" using receiver_call.hyps(4) by (auto simp: get_receiver_def split: if_splits)
  with receiver_call get_receiver_handed [OF assms(1)] show ?case by fastforce
qed
section \<open>Properties\<close>

text \<open>
  Registering the connections of an execution graph never panics and leaves the adjacency list, its
  inverse, the replicas of each block and the channels of this host exactly as the connections say: in their
  order, remote channels marked as such and channels between two other hosts left out.
\<close>

theorem connections_registered:
  assumes "config_host_id config = Some h"
  shows "\<exists>tp. connect_all E (topology_new config) = ret tp
    \<and> (\<forall>f ty. map_of (tp_next tp) (f, ty) = non_empty (edges_next E f ty))
    \<and> (\<forall>t. topology_prev tp t = edges_prev E t)
    \<and> (\<forall>b. set (topology_replicas sorted_list_of_set tp b) = {c \<in> edges_coords E. block_id c = b})
    \<and> (\<forall>e. map_of (tp_senders_metadata tp) e = (if e \<in> edges_channels h E then Some (host_id (re_coord e) \<noteq> h) else None))"
proof -
  obtain tp where tp: "connect_all E (topology_new config) = ret tp" "connected config h E tp" using connect_all_connected [OF assms] by blast
  have "finite (edges_coords E)" by (auto simp: edges_coords_def)
  with tp show ?thesis by (auto simp: connected_def topology_prev_def topology_replicas_def non_empty_def Let_def intro!: exI [of _ tp])
qed

text \<open>
  C16: every host computes the same addresses. Whatever the host and the order in which its hash map is iterated,
  \<^verbatim>\<open>build\<close> gives each demultiplexer of the execution graph the port of its host that its rank in the order of coordinates says, so that the multiplexers of the
  other hosts connect where it listens, and no two demultiplexers of a host share a port.
\<close>

theorem demux_ports:
  assumes "hash_order ho" and "enough_ports hosts E"
  shows "\<exists>tp tp'. connect_all E (topology_new (RemoteConfig (Some h) hosts)) = ret tp \<and> topology_build ho tp = ret tp'
    \<and> (\<forall>d. map_of (tp_addresses tp') d = (if d \<in> edges_demuxes E then Some (demux_address hosts E d) else None))
    \<and> (\<forall>d \<in> edges_demuxes E. \<forall>d' \<in> edges_demuxes E. demux_host d = demux_host d' \<longrightarrow> snd (demux_address hosts E d) = snd (demux_address hosts E d') \<longrightarrow> d = d')"
proof -
  obtain tp where tp: "connect_all E (topology_new (RemoteConfig (Some h) hosts)) = ret tp" "connected (RemoteConfig (Some h) hosts) h E tp"
    using connect_all_connected [of "RemoteConfig (Some h) hosts" h E] by auto
  from build_addresses [OF assms(1) tp(2) assms(2)] tp(1) show ?thesis using demux_address_inj by blast
qed

text \<open>
  C15: while the replicas are set up, in whatever order they ask, every sender and receiver of a registered
  connection is handed out without a panic: the senders of an endpoint on this host and its receiver share
  the channel, a sender to another host goes through the multiplexer that connects to the address of the endpoint's demultiplexer,
  \<^verbatim>\<open>get_senders\<close> returns the senders of the connections that are not fragile, in their order, and the receiver of an endpoint is handed out once: asking again panics.
\<close>

theorem channels_handed_out:
  assumes "well_connected config h E ty" and "handing config h E ty tp"
  shows "(\<forall>e \<in> edges_channels h E. \<exists>tp'. get_sender (ty e) e tp = ret (sender_of h e, tp'))
    \<and> (\<forall>c t. host_id c = h \<longrightarrow> (\<exists>tp'. get_senders t c tp =
         ret ([(ReceiverEndpoint to_c (block_id c), sender_of h (ReceiverEndpoint to_c (block_id c))). (to_c, fr) \<leftarrow> edges_next E c t, \<not> fr], tp')))
    \<and> (\<forall>e \<in> edges_channels h E. host_id (re_coord e) = h \<longrightarrow>
         (if e \<in> tp_used_receivers tp then get_receiver (ty e) e tp = panic ExplicitPanic
          else \<exists>tp'. get_receiver (ty e) e tp = ret (e, tp') \<and> e \<in> tp_used_receivers tp'))
    \<and> (\<forall>host hosts t d a. config = RemoteConfig host hosts \<longrightarrow> map_of (the (tp_multiplexers tp)) (t, d) = Some a \<longrightarrow> a = demux_address hosts E d)"
proof -
  have inv: "handed config h E ty tp" by (rule handing_handed [OF assms])
  have "a = demux_address hosts E d" if "config = RemoteConfig host hosts" "map_of (the (tp_multiplexers tp)) (t, d) = Some a" for host hosts t d a
  proof -
    obtain M where "tp_multiplexers tp = Some M" "\<forall>t d a. map_of M (t, d) = Some a \<longrightarrow> map_of (tp_addresses tp) d = Some a"
      using inv by (auto simp: handed_def serviceable_def)
    then have "map_of (tp_addresses tp) d = Some a" using that(2) by (metis option.sel)
    moreover have "\<forall>d. map_of (tp_addresses tp) d = (if d \<in> edges_demuxes E then Some (demux_address hosts E d) else None)"
      using inv that(1) by (simp add: handed_def serviceable_def)
    ultimately show ?thesis by (simp split: if_splits)
  qed
  moreover have "if e \<in> tp_used_receivers tp then get_receiver (ty e) e tp = panic ExplicitPanic
      else \<exists>tp'. get_receiver (ty e) e tp = ret (e, tp') \<and> e \<in> tp_used_receivers tp'"
    if "e \<in> edges_channels h E" "host_id (re_coord e) = h" for e
    using get_receiver_handed [OF assms(1) inv that] by (auto simp: get_receiver_def)
  moreover have "\<exists>tp'. get_sender (ty e) e tp = ret (sender_of h e, tp')" if "e \<in> edges_channels h E" for e
    using get_sender_handed [OF assms(1) inv that] by blast
  moreover have "\<exists>tp'. get_senders t c tp =
         ret ([(ReceiverEndpoint to_c (block_id c), sender_of h (ReceiverEndpoint to_c (block_id c))). (to_c, fr) \<leftarrow> edges_next E c t, \<not> fr], tp')"
    if "host_id c = h" for c t
    using get_senders_handed [OF assms(1) inv that] by blast
  ultimately show ?thesis by blast
qed

section \<open>Witnesses\<close>

abbreviation two_hosts :: "host_config list" where
  "two_hosts \<equiv> [\<lparr>hc_address = ''a'', hc_base_port = 9500, hc_num_cores = 1\<rparr>, \<lparr>hc_address = ''b'', hc_base_port = 9600, hc_num_cores = 1\<rparr>]"

abbreviation two_host_edges :: "edge list" where
  "two_host_edges \<equiv> [(Coord 0 0 0, Coord 1 0 0, 7, False), (Coord 0 0 0, Coord 1 1 0, 7, False), (Coord 0 1 0, Coord 1 1 0, 7, True)]"

lemma two_host_facts:
  "edges_demuxes two_host_edges = {DemuxCoord (BlockCoord 1 0) 0, DemuxCoord (BlockCoord 1 1) 0}"
  "enough_ports two_hosts two_host_edges"
  "ReceiverEndpoint (Coord 1 0 0) 0 \<in> edges_channels 0 two_host_edges" "ReceiverEndpoint (Coord 1 1 0) 0 \<in> edges_channels 0 two_host_edges"
proof -
  show D: "edges_demuxes two_host_edges = {DemuxCoord (BlockCoord 1 0) 0, DemuxCoord (BlockCoord 1 1) 0}"
    by (auto simp: edges_demuxes_def demux_coord_new_def block_coord_of_def)
  have card: "card {d \<in> edges_demuxes two_host_edges. demux_host d = i} \<le> 2" for i
  proof -
    have "card {d \<in> edges_demuxes two_host_edges. demux_host d = i} \<le> card (edges_demuxes two_host_edges)" by (rule card_mono) (auto simp: edges_demuxes_def)
    also have "\<dots> \<le> 2" unfolding D by (simp add: card_insert_if)
    finally show ?thesis .
  qed
  have p: "(2 :: nat) ^ 16 = 65536" by simp
  have base: "hc_base_port (two_hosts ! i) \<le> 9600" if "i < length two_hosts" for i using that by (auto simp: less_Suc_eq)
  have "card {d \<in> edges_demuxes two_host_edges. demux_host d = i} < 2 ^ 16 \<and>
      hc_base_port (two_hosts ! i) + card {d \<in> edges_demuxes two_host_edges. demux_host d = i} \<le> 2 ^ 16" if "i < length two_hosts" for i
    unfolding p using card [of i] base [OF that] by linarith
  then show "enough_ports two_hosts two_host_edges" unfolding enough_ports_def Let_def by (simp add: edges_coords_def)
  show "ReceiverEndpoint (Coord 1 0 0) 0 \<in> edges_channels 0 two_host_edges" "ReceiverEndpoint (Coord 1 1 0) 0 \<in> edges_channels 0 two_host_edges"
    by (auto simp: edges_channels_def intro!: exI [of _ "Coord 0 0 0"])
qed

theorem connections_registered_witness:
  "\<exists>tp. connect_all two_host_edges (topology_new (RemoteConfig (Some 0) two_hosts)) = ret tp
    \<and> topology_prev tp (Coord 1 1 0) = [(Coord 0 0 0, 7), (Coord 0 1 0, 7)]
    \<and> map_of (tp_senders_metadata tp) (ReceiverEndpoint (Coord 1 1 0) 0) = Some True"
proof -
  obtain tp where "connect_all two_host_edges (topology_new (RemoteConfig (Some 0) two_hosts)) = ret tp"
    "\<forall>t. topology_prev tp t = edges_prev two_host_edges t"
    "\<forall>e. map_of (tp_senders_metadata tp) e = (if e \<in> edges_channels 0 two_host_edges then Some (host_id (re_coord e) \<noteq> 0) else None)"
    using connections_registered [of "RemoteConfig (Some 0) two_hosts" 0 two_host_edges] by auto
  then show ?thesis using two_host_facts(4) by (auto simp: edges_prev_def)
qed

theorem demux_ports_witness:
  "\<exists>tp tp'. connect_all two_host_edges (topology_new (RemoteConfig (Some 1) two_hosts)) = ret tp \<and> topology_build rev tp = ret tp'
    \<and> map_of (tp_addresses tp') (DemuxCoord (BlockCoord 1 1) 0) = Some (''b'', 9600)"
proof -
  obtain tp tp' where tp: "connect_all two_host_edges (topology_new (RemoteConfig (Some 1) two_hosts)) = ret tp" "topology_build rev tp = ret tp'"
    "\<forall>d. map_of (tp_addresses tp') d = (if d \<in> edges_demuxes two_host_edges then Some (demux_address two_hosts two_host_edges d) else None)"
    using demux_ports [OF hash_order_rev two_host_facts(2), of 1] by blast
  have none: "{d' \<in> edges_demuxes two_host_edges. demux_host d' = 1 \<and> d' < DemuxCoord (BlockCoord 1 1) 0} = {}"
    unfolding two_host_facts(1) by (auto simp: less_demux_coord_def less_eq_demux_coord_def)
  have "demux_address two_hosts two_host_edges (DemuxCoord (BlockCoord 1 1) 0) = (''b'', 9600)"
    unfolding demux_address_def demux_coord.sel block_coord.sel none by simp
  then show ?thesis using tp two_host_facts(1) by auto
qed

theorem channels_handed_out_witness:
  "\<exists>tp tp' tp''. connect_all two_host_edges (topology_new (RemoteConfig (Some 0) two_hosts)) = ret tp \<and> topology_build rev tp = ret tp'
    \<and> get_sender 7 (ReceiverEndpoint (Coord 1 1 0) 0) tp' = ret (MuxSender (DemuxCoord (BlockCoord 1 1) 0) (ReceiverEndpoint (Coord 1 1 0) 0), tp'')"
proof -
  let ?c = "RemoteConfig (Some 0) two_hosts"
  have ok: "well_connected ?c 0 two_host_edges (\<lambda>_. 7)" using two_host_facts(2) by (simp add: well_connected_def)
  obtain tp where tp: "connect_all two_host_edges (topology_new ?c) = ret tp" "connected ?c 0 two_host_edges tp"
    using connect_all_connected [of ?c 0 two_host_edges] by auto
  obtain tp' where tp': "topology_build rev tp = ret tp'" using build_addresses [OF hash_order_rev tp(2) two_host_facts(2)] by blast
  have "handing ?c 0 two_host_edges (\<lambda>_. 7) tp'" by (rule handing.built [OF tp(2) hash_order_rev tp'])
  from channels_handed_out [OF ok this] two_host_facts(4) obtain tp'' where
    "get_sender 7 (ReceiverEndpoint (Coord 1 1 0) 0) tp' = ret (sender_of 0 (ReceiverEndpoint (Coord 1 1 0) 0), tp'')" by blast
  then show ?thesis using tp(1) tp' by (auto simp: sender_of_def demux_of_endpoint_def block_coord_of_def)
qed

end
