(* ===== verification/Scheduler.thy ===== *)
theory Scheduler
  imports Topology Batcher
begin

text \<open>
  The scheduler, \<^verbatim>\<open>src/scheduler.rs\<close> with the replication of \<^verbatim>\<open>src/block/mod.rs\<close>: how many replicas of a block run where, and
  the execution graph that multiplies the job graph by the replicas. Of the chain of operators of a block
  only its requirements and the channels it asks for in \<^verbatim>\<open>setup\<close> are used. \<open>ho\<close> and \<open>vo\<close> are the orders in which hash maps are iterated.
\<close>

section \<open>Replication\<close>

datatype replication = Unlimited | Limited nat | PerHost | One

definition new_limited :: "nat \<Rightarrow> replication res" where
  "new_limited n = assertR (0 < n) (ret (Limited n))"

fun intersect :: "replication \<Rightarrow> replication \<Rightarrow> replication" where
  "intersect One _ = One"
| "intersect _ One = One"
| "intersect PerHost _ = PerHost"
| "intersect _ PerHost = PerHost"
| "intersect (Limited n) (Limited m) = Limited (min n m)"
| "intersect (Limited n) _ = Limited n"
| "intersect _ (Limited n) = Limited n"
| "intersect Unlimited Unlimited = Unlimited"

fun clamp :: "replication \<Rightarrow> nat \<Rightarrow> nat" where
  "clamp Unlimited n = n"
| "clamp (Limited q) n = min n q"
| "clamp PerHost n = 1"
| "clamp One n = 1"

record block =
  bl_id :: nat
  bl_batch_mode :: batch_mode
  bl_only_one :: bool
  bl_replication :: replication

text \<open>\<^verbatim>\<open>Block::add_operator\<close> and \<^verbatim>\<open>Scheduling::replication\<close>.\<close>

definition block_add_operator :: "block \<Rightarrow> block" where
  "block_add_operator b = b\<lparr>bl_only_one := False\<rparr>"

definition block_limit :: "replication \<Rightarrow> block \<Rightarrow> block" where
  "block_limit r b = b\<lparr>bl_replication := intersect (bl_replication b) r\<rparr>"

section \<open>State\<close>

record block_info =
  bi_replicas :: "(nat, coord list) hmap"
  bi_global_ids :: "(coord, nat) hmap"
  bi_batch_mode :: batch_mode
  bi_only_one :: bool

record scheduler =
  sc_config :: runtime_config
  sc_next_blocks :: "(nat, (nat \<times> type_id \<times> bool) list) hmap"
  sc_prev_blocks :: "(nat, (nat \<times> type_id) list) hmap"
  sc_block_info :: "(nat, block_info) hmap"
  sc_block_init :: "coord list"
  sc_network :: topology

definition scheduler_new :: "runtime_config \<Rightarrow> scheduler" where
  "scheduler_new config =
     \<lparr>sc_config = config, sc_next_blocks = [], sc_prev_blocks = [], sc_block_info = [], sc_block_init = [], sc_network = topology_new config\<rparr>"

section \<open>Replicas of a block\<close>

definition local_block_info :: "runtime_config \<Rightarrow> nat \<Rightarrow> block \<Rightarrow> block_info res" where
  "local_block_info config parallelism b =
     (let instances = clamp (bl_replication b) parallelism in
      bindR (unwrapR (config_host_id config)) (\<lambda>host.
        ret \<lparr>bi_replicas = [(host, map (Coord (bl_id b) host) [0..<instances])],
             bi_global_ids = map (\<lambda>r. (Coord (bl_id b) host r, r)) [0..<instances],
             bi_batch_mode = bl_batch_mode b, bi_only_one = bl_only_one b\<rparr>))"

text \<open>The macro \<^verbatim>\<open>add_replicas!\<close>: the counter, the replicas of each host and the global identifiers.\<close>

type_synonym placement = "nat \<times> (nat, coord list) hmap \<times> (coord, nat) hmap"

definition add_replica :: "nat \<Rightarrow> nat \<Rightarrow> nat \<Rightarrow> placement \<Rightarrow> placement" where
  "add_replica block host r p =
     (case p of (global_counter, replicas, global_ids) \<Rightarrow>
        (global_counter + 1, push_entry host (Coord block host r) replicas, AList.update (Coord block host r) global_counter global_ids))"

definition add_replicas :: "nat \<Rightarrow> nat \<Rightarrow> nat \<Rightarrow> placement \<Rightarrow> placement" where
  "add_replicas block host n p =
     (case p of (global_counter, replicas, global_ids) \<Rightarrow>
        fold (add_replica block host) [0..<n]
          (global_counter, (case map_of replicas host of None \<Rightarrow> AList.update host [] replicas | Some _ \<Rightarrow> replicas), global_ids))"

fun place_hosts :: "nat \<Rightarrow> nat \<Rightarrow> (host_config \<Rightarrow> nat) \<Rightarrow> host_config list \<Rightarrow> placement \<Rightarrow> placement" where
  "place_hosts block host n [] p = p"
| "place_hosts block host n (info # hosts) p = place_hosts block (Suc host) n hosts (add_replicas block host (n info) p)"

fun place_limited :: "nat \<Rightarrow> nat \<Rightarrow> nat \<Rightarrow> host_config list \<Rightarrow> placement \<Rightarrow> placement" where
  "place_limited block host remaining [] p = p"
| "place_limited block host remaining (info # hosts) p =
     (let n = min remaining (hc_num_cores info)
      in place_limited block (Suc host) (remaining - n) hosts (add_replicas block host n p))"

definition remote_block_info :: "host_config list \<Rightarrow> block \<Rightarrow> block_info res" where
  "remote_block_info hosts b =
     bindR (case bl_replication b of
              Unlimited \<Rightarrow> ret (place_hosts (bl_id b) 0 hc_num_cores hosts (0, [], []))
            | Limited remaining \<Rightarrow> ret (place_limited (bl_id b) 0 remaining hosts (0, [], []))
            | PerHost \<Rightarrow> ret (place_hosts (bl_id b) 0 (\<lambda>_. 1) hosts (0, [], []))
            | One \<Rightarrow> if hosts = [] then panic IndexOutOfBounds else ret (add_replicas (bl_id b) 0 1 (0, [], []))) (\<lambda>(_, replicas, global_ids).
       ret \<lparr>bi_replicas = replicas, bi_global_ids = global_ids, bi_batch_mode = bl_batch_mode b, bi_only_one = bl_only_one b\<rparr>)"

fun block_info_of :: "runtime_config \<Rightarrow> block \<Rightarrow> block_info res" where
  "block_info_of (LocalConfig n) b = local_block_info (LocalConfig n) n b"
| "block_info_of (RemoteConfig _ hosts) b = remote_block_info hosts b"

definition info_replicas :: "block_info \<Rightarrow> nat \<Rightarrow> coord list" where
  "info_replicas info host = (case map_of (bi_replicas info) host of Some cs \<Rightarrow> cs | None \<Rightarrow> [])"

section \<open>The job graph\<close>

definition schedule_block :: "block \<Rightarrow> scheduler \<Rightarrow> scheduler res" where
  "schedule_block b sc =
     bindR (block_info_of (sc_config sc) b) (\<lambda>info.
       bindR (unwrapR (config_host_id (sc_config sc))) (\<lambda>host.
         ret (sc\<lparr>sc_block_info := AList.update (bl_id b) info (sc_block_info sc), sc_block_init := sc_block_init sc @ info_replicas info host\<rparr>)))"

definition connect_blocks :: "nat \<Rightarrow> nat \<Rightarrow> type_id \<Rightarrow> scheduler \<Rightarrow> scheduler" where
  "connect_blocks from_block to_block ty sc =
     sc\<lparr>sc_next_blocks := push_entry from_block (to_block, ty, False) (sc_next_blocks sc),
        sc_prev_blocks := push_entry to_block (from_block, ty) (sc_prev_blocks sc)\<rparr>"

definition connect_blocks_fragile :: "nat \<Rightarrow> nat \<Rightarrow> type_id \<Rightarrow> scheduler \<Rightarrow> scheduler" where
  "connect_blocks_fragile from_block to_block ty sc =
     sc\<lparr>sc_next_blocks := push_entry from_block (to_block, ty, True) (sc_next_blocks sc),
        sc_prev_blocks := push_entry to_block (from_block, ty) (sc_prev_blocks sc)\<rparr>"

definition scheduler_prev_blocks :: "scheduler \<Rightarrow> nat \<Rightarrow> (nat \<times> type_id) list option" where
  "scheduler_prev_blocks sc b = map_of (sc_prev_blocks sc) b"

section \<open>The execution graph\<close>

type_synonym replica_order = "(nat, coord list) hmap \<Rightarrow> (nat, coord list) hmap"

definition all_replicas :: "replica_order \<Rightarrow> block_info \<Rightarrow> coord list" where
  "all_replicas vo info = concat (map snd (vo (bi_replicas info)))"

fun connect_to :: "bool \<Rightarrow> coord \<Rightarrow> type_id \<Rightarrow> bool \<Rightarrow> nat \<Rightarrow> coord list \<Rightarrow> topology \<Rightarrow> topology res" where
  "connect_to only_one f ty fragile n [] net = ret net"
| "connect_to only_one f ty fragile n (t # ts) net =
     bindR (if only_one \<or> fragile
            then if n = 1 \<or> (host_id t = host_id f \<and> replica_id t = replica_id f) then topology_connect f t ty fragile net else ret net
            else topology_connect f t ty fragile net)
       (connect_to only_one f ty fragile n ts)"

fun connect_from :: "bool \<Rightarrow> coord list \<Rightarrow> type_id \<Rightarrow> bool \<Rightarrow> coord list \<Rightarrow> topology \<Rightarrow> topology res" where
  "connect_from only_one [] ty fragile tos net = ret net"
| "connect_from only_one (f # fs) ty fragile tos net =
     bindR (connect_to only_one f ty fragile (length tos) tos net) (connect_from only_one fs ty fragile tos)"

fun connect_nexts :: "replica_order \<Rightarrow> (nat, block_info) hmap \<Rightarrow> block_info \<Rightarrow> (nat \<times> type_id \<times> bool) list \<Rightarrow> topology \<Rightarrow> topology res" where
  "connect_nexts vo infos from_info [] net = ret net"
| "connect_nexts vo infos from_info ((to_block, ty, fragile) # nexts) net =
     (case map_of infos to_block of
        None \<Rightarrow> panic IndexOutOfBounds
      | Some to_info \<Rightarrow>
          bindR (connect_from (bi_only_one from_info) (all_replicas vo from_info) ty fragile (all_replicas vo to_info) net)
            (connect_nexts vo infos from_info nexts))"

fun connect_job_graph :: "replica_order \<Rightarrow> (nat, block_info) hmap \<Rightarrow> (nat, (nat \<times> type_id \<times> bool) list) hmap \<Rightarrow> topology \<Rightarrow> topology res" where
  "connect_job_graph vo infos [] net = ret net"
| "connect_job_graph vo infos ((from_block, nexts) # jobs) net =
     (case map_of infos from_block of
        None \<Rightarrow> panic IndexOutOfBounds
      | Some from_info \<Rightarrow> bindR (connect_nexts vo infos from_info nexts net) (connect_job_graph vo infos jobs))"

type_synonym job_order = "(nat, (nat \<times> type_id \<times> bool) list) hmap \<Rightarrow> (nat, (nat \<times> type_id \<times> bool) list) hmap"

definition build_execution_graph :: "job_order \<Rightarrow> replica_order \<Rightarrow> scheduler \<Rightarrow> scheduler res" where
  "build_execution_graph ho vo sc =
     bindR (connect_job_graph vo (sc_block_info sc) (ho (sc_next_blocks sc)) (sc_network sc)) (\<lambda>net. ret (sc\<lparr>sc_network := net\<rparr>))"

section \<open>The start\<close>

record execution_metadata =
  em_coord :: coord
  em_replicas :: "coord list"
  em_global_id :: nat
  em_prev :: "(coord \<times> type_id) list"
  em_batch_mode :: batch_mode

text \<open>
  What the operators of a block ask the topology for in their \<^verbatim>\<open>setup\<close>: a \<^verbatim>\<open>Start\<close> (and the other operators that receive, in loops) the
  receiver of its replica for a previous block, an \<^verbatim>\<open>End\<close> or a router all the senders of its replica, and the operators of a loop the
  sender to a given endpoint. \<open>calls\<close> lists the calls of a replica in the order of its chain.
\<close>

datatype setup_call = GetReceiver type_id nat | GetSenders type_id | GetSender type_id receiver_endpoint

definition receiver_setup :: "type_id \<Rightarrow> nat \<Rightarrow> coord \<Rightarrow> topology \<Rightarrow> topology res" where
  "receiver_setup ty previous_block coord net =
     bindR (get_receiver ty (ReceiverEndpoint coord previous_block) net) (\<lambda>(receiver, net). ret net)"

definition senders_setup :: "type_id \<Rightarrow> coord \<Rightarrow> topology \<Rightarrow> topology res" where
  "senders_setup ty coord net = bindR (get_senders ty coord net) (\<lambda>(senders, net). ret net)"

definition sender_setup :: "type_id \<Rightarrow> receiver_endpoint \<Rightarrow> topology \<Rightarrow> topology res" where
  "sender_setup ty endpoint net = bindR (get_sender ty endpoint net) (\<lambda>(sender, net). ret net)"

fun setup_calls :: "coord \<Rightarrow> setup_call list \<Rightarrow> topology \<Rightarrow> topology res" where
  "setup_calls coord [] net = ret net"
| "setup_calls coord (GetReceiver ty b # cs) net = bindR (receiver_setup ty b coord net) (setup_calls coord cs)"
| "setup_calls coord (GetSenders ty # cs) net = bindR (senders_setup ty coord net) (setup_calls coord cs)"
| "setup_calls coord (GetSender ty e # cs) net = bindR (sender_setup ty e net) (setup_calls coord cs)"

text \<open>\<^verbatim>\<open>spawn_worker\<close>, up to the thread that runs the worker.\<close>

definition worker_setup :: "(coord \<Rightarrow> setup_call list) \<Rightarrow> execution_metadata \<Rightarrow> topology \<Rightarrow> topology res" where
  "worker_setup calls metadata net = setup_calls (em_coord metadata) (calls (em_coord metadata)) net"

text \<open>\<open>init\<close>, the closure stored with a replica, sets up its worker (\<open>worker_setup\<close>) with the metadata.\<close>

fun init_workers :: "replica_order \<Rightarrow> (execution_metadata \<Rightarrow> topology \<Rightarrow> topology res) \<Rightarrow> coord list \<Rightarrow> scheduler \<Rightarrow> (execution_metadata list \<times> scheduler) res" where
  "init_workers vo init [] sc = ret ([], sc)"
| "init_workers vo init (coord # coords) sc =
     (case map_of (sc_block_info sc) (block_id coord) of
        None \<Rightarrow> panic IndexOutOfBounds
      | Some info \<Rightarrow>
          (case map_of (bi_global_ids info) coord of
             None \<Rightarrow> panic IndexOutOfBounds
           | Some global_id \<Rightarrow>
               let metadata = \<lparr>em_coord = coord, em_replicas = all_replicas vo info, em_global_id = global_id,
                     em_prev = topology_prev (sc_network sc) coord, em_batch_mode = bi_batch_mode info\<rparr> in
               bindR (init metadata (sc_network sc)) (\<lambda>net.
                 bindR (init_workers vo init coords (sc\<lparr>sc_network := net\<rparr>)) (\<lambda>(ms, sc). ret (metadata # ms, sc)))))"

type_synonym topology_order = "(coord \<times> type_id, (coord \<times> bool) list) hmap \<Rightarrow> (coord \<times> type_id, (coord \<times> bool) list) hmap"

definition build_all :: "job_order \<Rightarrow> replica_order \<Rightarrow> topology_order \<Rightarrow> (execution_metadata \<Rightarrow> topology \<Rightarrow> topology res)
    \<Rightarrow> scheduler \<Rightarrow> (execution_metadata list \<times> scheduler) res" where
  "build_all ho vo to init sc =
     bindR (build_execution_graph ho vo sc) (\<lambda>sc.
       bindR (topology_build to (sc_network sc)) (\<lambda>net.
         bindR (init_workers vo init (sc_block_init sc) (sc\<lparr>sc_network := net\<rparr>)) (\<lambda>(ms, sc).
           ret (ms, sc\<lparr>sc_block_init := [], sc_network := topology_finalize (sc_network sc)\<rparr>))))"

definition start_blocking :: "job_order \<Rightarrow> replica_order \<Rightarrow> topology_order \<Rightarrow> (execution_metadata \<Rightarrow> topology \<Rightarrow> topology res)
    \<Rightarrow> nat \<Rightarrow> scheduler \<Rightarrow> (execution_metadata list \<times> scheduler) res" where
  "start_blocking ho vo to init block_count sc =
     assertR (length (sc_block_info sc) = block_count) (build_all ho vo to init sc)"

section \<open>Where the replicas are\<close>

text \<open>The reference: how many replicas each host runs.\<close>

fun limit_counts :: "nat \<Rightarrow> nat list \<Rightarrow> nat list" where
  "limit_counts q [] = []"
| "limit_counts q (n # ns) = min q n # limit_counts (q - n) ns"

fun placement_counts :: "runtime_config \<Rightarrow> replication \<Rightarrow> nat list" where
  "placement_counts (LocalConfig n) r = [clamp r n]"
| "placement_counts (RemoteConfig _ hosts) Unlimited = map hc_num_cores hosts"
| "placement_counts (RemoteConfig _ hosts) (Limited q) = limit_counts q (map hc_num_cores hosts)"
| "placement_counts (RemoteConfig _ hosts) PerHost = map (\<lambda>_. 1) hosts"
| "placement_counts (RemoteConfig _ hosts) One = [1]"

lemma limit_counts_sum: "sum_list (limit_counts q ns) = min q (sum_list ns)" "length (limit_counts q ns) = length ns"
  by (induction ns arbitrary: q) auto

definition placed_coords :: "nat \<Rightarrow> nat list \<Rightarrow> coord set" where
  "placed_coords b ns = {c. block_id c = b \<and> host_id c < length ns \<and> replica_id c < ns ! host_id c}"

definition global_index :: "nat list \<Rightarrow> coord \<Rightarrow> nat" where
  "global_index ns c = sum_list (take (host_id c) ns) + replica_id c"

definition placed :: "nat \<Rightarrow> nat list \<Rightarrow> placement \<Rightarrow> bool" where
  "placed b ns p \<longleftrightarrow> (case p of (counter, replicas, ids) \<Rightarrow> counter = sum_list ns
     \<and> replicas = map (\<lambda>i. (i, map (Coord b i) [0..<ns ! i])) [0..<length ns]
     \<and> (\<forall>c. map_of ids c = (if c \<in> placed_coords b ns then Some (global_index ns c) else None)))"

lemma map_of_hosts: "map_of (map (\<lambda>i. (i, f i)) [0..<n]) i = (if i < n then Some (f i) else None)"
  by (induction n) (auto simp: less_Suc_eq map_add_def)

lemma update_last: "map_of m k = None \<Longrightarrow> AList.update k v (m @ [(k, w)]) = m @ [(k, v)]"
  by (induction m) (auto split: if_splits)

lemma placed_coords_snoc:
  "c \<in> placed_coords b (ns @ [n]) \<longleftrightarrow> c \<in> placed_coords b ns \<or> (block_id c = b \<and> host_id c = length ns \<and> replica_id c < n)"
  by (auto simp: placed_coords_def nth_append)

lemma global_index_snoc: "c \<in> placed_coords b ns \<Longrightarrow> global_index (ns @ xs) c = global_index ns c"
  by (simp add: placed_coords_def global_index_def)

lemma add_replica_placed:
  assumes "placed b (ns @ [n]) p"
  shows "placed b (ns @ [Suc n]) (add_replica b (length ns) n p)"
proof -
  obtain counter replicas ids where p: "p = (counter, replicas, ids)" by (cases p)
  let ?rep = "\<lambda>k. map (\<lambda>i. (i, map (Coord b i) [0..<(ns @ [k]) ! i])) [0..<length (ns @ [k])]"
  have rep: "?rep k = map (\<lambda>i. (i, map (Coord b i) [0..<ns ! i])) [0..<length ns] @ [(length ns, map (Coord b (length ns)) [0..<k])]" for k
    by (simp add: nth_append)
  have none: "map_of (map (\<lambda>i. (i, map (Coord b i) [0..<ns ! i])) [0..<length ns]) (length ns) = None" unfolding map_of_hosts by simp
  have "push_entry (length ns) (Coord b (length ns) n) replicas = ?rep (Suc n)"
    using assms p unfolding placed_def rep push_entry_def by (simp add: rep map_add_def none update_last [OF none] split: option.split)
  moreover have "map_of (AList.update (Coord b (length ns) n) counter ids) c =
      (if c \<in> placed_coords b (ns @ [Suc n]) then Some (global_index (ns @ [Suc n]) c) else None)" for c
  proof (cases "c = Coord b (length ns) n")
    case True
    then show ?thesis using assms p by (auto simp: placed_def update_conv' placed_coords_snoc global_index_def)
  next
    case False
    then have "c \<in> placed_coords b (ns @ [Suc n]) \<longleftrightarrow> c \<in> placed_coords b (ns @ [n])"
      by (cases c) (auto simp: placed_coords_snoc less_Suc_eq)
    moreover have "global_index (ns @ [Suc n]) c = global_index (ns @ [n]) c" if "c \<in> placed_coords b (ns @ [n])"
      using that by (auto simp: placed_coords_def global_index_def)
    ultimately show ?thesis using assms p False by (auto simp: placed_def update_conv')
  qed
  ultimately show ?thesis using assms p by (simp add: placed_def add_replica_def)
qed

lemma add_replicas_placed:
  assumes "placed b ns p"
  shows "placed b (ns @ [n]) (add_replicas b (length ns) n p)"
proof -
  obtain counter replicas ids where p: "p = (counter, replicas, ids)" by (cases p)
  have none: "map_of replicas (length ns) = None" using assms p by (simp add: placed_def map_of_hosts)
  let ?p0 = "(counter, AList.update (length ns) [] replicas, ids)"
  have "c \<in> placed_coords b (ns @ [0]) \<longleftrightarrow> c \<in> placed_coords b ns" for c by (simp add: placed_coords_snoc)
  moreover have "map (\<lambda>i. (i, map (Coord b i) [0..<ns ! i])) [0..<length ns] = map (\<lambda>i. (i, map (Coord b i) [0..<(ns @ [0]) ! i])) [0..<length ns]"
    by (simp add: nth_append)
  ultimately have "placed b (ns @ [0]) ?p0"
    using assms p none by (auto simp: placed_def update_new global_index_snoc)
  then have "placed b (ns @ [n]) (fold (add_replica b (length ns)) [0..<n] ?p0)"
    by (induction n) (simp_all add: add_replica_placed)
  then show ?thesis using p none by (simp add: add_replicas_def)
qed

lemma place_hosts_placed: "placed b ns p \<Longrightarrow> placed b (ns @ map n hosts) (place_hosts b (length ns) n hosts p)"
proof (induction hosts arbitrary: ns p)
  case (Cons info hosts)
  from Cons.IH [OF add_replicas_placed [OF Cons.prems]] show ?case by simp
qed simp

lemma place_limited_placed:
  "placed b ns p \<Longrightarrow> placed b (ns @ limit_counts q (map hc_num_cores hosts)) (place_limited b (length ns) q hosts p)"
proof (induction hosts arbitrary: ns p q)
  case (Cons info hosts)
  have "q - min q (hc_num_cores info) = q - hc_num_cores info" by simp
  with Cons.IH [OF add_replicas_placed [OF Cons.prems, of "min q (hc_num_cores info)"], of "q - hc_num_cores info"] show ?case by (simp add: Let_def)
qed simp

lemma placed_Nil: "placed b [] (0, [], [])"
  by (simp add: placed_def placed_coords_def)

lemma block_info_placed:
  assumes "\<And>host. config \<noteq> RemoteConfig host []"
  shows "\<exists>replicas ids. block_info_of config b = ret \<lparr>bi_replicas = replicas, bi_global_ids = ids, bi_batch_mode = bl_batch_mode b, bi_only_one = bl_only_one b\<rparr>
    \<and> placed (bl_id b) (placement_counts config (bl_replication b)) (sum_list (placement_counts config (bl_replication b)), replicas, ids)"
proof (cases config)
  case (LocalConfig n)
  let ?k = "clamp (bl_replication b) n"
  have "map_of (map (\<lambda>r. (Coord (bl_id b) 0 r, r)) [0..<k]) c = (if c \<in> placed_coords (bl_id b) [k] then Some (global_index [k] c) else None)" for c k
    by (cases c, induction k) (auto simp: placed_coords_def global_index_def map_add_def less_Suc_eq split: if_splits)
  then show ?thesis using LocalConfig by (auto simp: local_block_info_def Let_def placed_def)
next
  case (RemoteConfig host hosts)
  with assms have hosts: "hosts \<noteq> []" by auto
  let ?ns = "placement_counts config (bl_replication b)"
  have "\<exists>p. block_info_of config b = (case p of (_, replicas, ids) \<Rightarrow>
      ret \<lparr>bi_replicas = replicas, bi_global_ids = ids, bi_batch_mode = bl_batch_mode b, bi_only_one = bl_only_one b\<rparr>) \<and> placed (bl_id b) ?ns p"
  proof (cases "bl_replication b")
    case Unlimited
    then show ?thesis using place_hosts_placed [OF placed_Nil, of "bl_id b" hc_num_cores hosts] RemoteConfig
      by (intro exI [of _ "place_hosts (bl_id b) 0 hc_num_cores hosts (0, [], [])"]) (simp add: remote_block_info_def)
  next
    case (Limited q)
    then show ?thesis using place_limited_placed [OF placed_Nil, of "bl_id b" q hosts] RemoteConfig
      by (intro exI [of _ "place_limited (bl_id b) 0 q hosts (0, [], [])"]) (simp add: remote_block_info_def)
  next
    case PerHost
    then show ?thesis using place_hosts_placed [OF placed_Nil, of "bl_id b" "\<lambda>_. 1" hosts] RemoteConfig
      by (intro exI [of _ "place_hosts (bl_id b) 0 (\<lambda>_. 1) hosts (0, [], [])"]) (simp add: remote_block_info_def)
  next
    case One
    then show ?thesis using add_replicas_placed [OF placed_Nil, of "bl_id b" 1] RemoteConfig hosts
      by (intro exI [of _ "add_replicas (bl_id b) 0 1 (0, [], [])"]) (simp add: remote_block_info_def)
  qed
  then obtain c replicas ids where "block_info_of config b = ret \<lparr>bi_replicas = replicas, bi_global_ids = ids, bi_batch_mode = bl_batch_mode b, bi_only_one = bl_only_one b\<rparr>"
    "placed (bl_id b) ?ns (c, replicas, ids)" by (auto split: prod.splits)
  moreover from this(2) have "c = sum_list ?ns" by (simp add: placed_def)
  ultimately show ?thesis by blast
qed

lemma global_index_bij: "bij_betw (global_index ns) (placed_coords b ns) {..<sum_list ns}"
proof (induction ns rule: rev_induct)
  case Nil
  then show ?case by (simp add: placed_coords_def bij_betw_def)
next
  case (snoc n ns)
  let ?last = "(Coord b (length ns)) ` {..<n}"
  have old: "bij_betw (global_index (ns @ [n])) (placed_coords b ns) {..<sum_list ns}"
    using snoc by (rule bij_betw_cong [THEN iffD1, rotated]) (simp add: global_index_snoc)
  have new: "bij_betw (global_index (ns @ [n])) ?last {sum_list ns..<sum_list ns + n}"
  proof (rule bij_betw_imageI)
    show "inj_on (global_index (ns @ [n])) ?last" by (auto simp: inj_on_def global_index_def)
    show "global_index (ns @ [n]) ` ?last = {sum_list ns..<sum_list ns + n}"
    proof (intro equalityI subsetI)
      fix x assume "x \<in> {sum_list ns..<sum_list ns + n}"
      then show "x \<in> global_index (ns @ [n]) ` ?last" by (auto simp: global_index_def image_image intro!: image_eqI [of _ _ "x - sum_list ns"])
    qed (auto simp: global_index_def)
  qed
  have "placed_coords b (ns @ [n]) = placed_coords b ns \<union> ?last"
  proof (intro equalityI subsetI)
    fix c assume "c \<in> placed_coords b (ns @ [n])"
    then show "c \<in> placed_coords b ns \<union> ?last" by (cases c) (auto simp: placed_coords_snoc)
  qed (auto simp: placed_coords_snoc)
  moreover have "{..<sum_list (ns @ [n])} = {..<sum_list ns} \<union> {sum_list ns..<sum_list ns + n}" by auto
  moreover have "{..<sum_list ns} \<inter> {sum_list ns..<sum_list ns + n} = {}" by auto
  ultimately show ?case using bij_betw_combine [OF old new] by simp
qed

section \<open>The edges of the execution graph\<close>

definition linked :: "bool \<Rightarrow> bool \<Rightarrow> nat \<Rightarrow> coord \<Rightarrow> coord \<Rightarrow> bool" where
  "linked only_one fragile n f t \<longleftrightarrow> (only_one \<or> fragile \<longrightarrow> n = 1 \<or> (host_id t = host_id f \<and> replica_id t = replica_id f))"

definition block_edges :: "replica_order \<Rightarrow> block_info \<Rightarrow> block_info \<Rightarrow> type_id \<Rightarrow> bool \<Rightarrow> edge list" where
  "block_edges vo from_info to_info ty fragile =
     [(f, t, ty, fragile). f \<leftarrow> all_replicas vo from_info, t \<leftarrow> all_replicas vo to_info,
       linked (bi_only_one from_info) fragile (length (all_replicas vo to_info)) f t]"

definition job_edges :: "replica_order \<Rightarrow> (nat, block_info) hmap \<Rightarrow> (nat, (nat \<times> type_id \<times> bool) list) hmap \<Rightarrow> edge list" where
  "job_edges vo infos jobs =
     concat (map (\<lambda>(from_block, nexts). concat (map (\<lambda>(to_block, ty, fragile).
       block_edges vo (the (map_of infos from_block)) (the (map_of infos to_block)) ty fragile) nexts)) jobs)"

definition blocks_known :: "(nat, block_info) hmap \<Rightarrow> (nat, (nat \<times> type_id \<times> bool) list) hmap \<Rightarrow> bool" where
  "blocks_known infos jobs \<longleftrightarrow> (\<forall>(from_block, nexts) \<in> set jobs. map_of infos from_block \<noteq> None \<and> (\<forall>(to_block, ty, fragile) \<in> set nexts. map_of infos to_block \<noteq> None))"

lemma connect_to_edges:
  "connect_to only_one f ty fragile n ts net = connect_all [(f, t, ty, fragile). t \<leftarrow> ts, linked only_one fragile n f t] net"
  by (induction ts arbitrary: net) (auto simp: linked_def fun_eq_iff intro!: arg_cong2 [where f = bindR])

lemma bindR_assoc: "bindR (bindR m f) g = bindR m (\<lambda>x. bindR (f x) g)"
  by (auto simp: bindR_def split: option.split sum.split)

lemma connect_from_edges:
  "connect_from only_one fs ty fragile tos net =
     connect_all [(f, t, ty, fragile). f \<leftarrow> fs, t \<leftarrow> tos, linked only_one fragile (length tos) f t] net"
  by (induction fs arbitrary: net) (auto simp: connect_to_edges connect_all_append intro!: arg_cong2 [where f = bindR] ext)

lemma connect_nexts_edges:
  assumes "\<forall>(to_block, ty, fragile) \<in> set nexts. map_of infos to_block \<noteq> None"
  shows "connect_nexts vo infos from_info nexts net =
     connect_all (concat (map (\<lambda>(to_block, ty, fragile). block_edges vo from_info (the (map_of infos to_block)) ty fragile) nexts)) net"
  using assms
proof (induction nexts arbitrary: net)
  case (Cons nx nexts)
  obtain to_block ty fragile where nx: "nx = (to_block, ty, fragile)" by (cases nx)
  with Cons.prems obtain to_info where "map_of infos to_block = Some to_info" by auto
  moreover have "connect_nexts vo infos from_info nexts =
      connect_all (concat (map (\<lambda>(to_block, ty, fragile). block_edges vo from_info (the (map_of infos to_block)) ty fragile) nexts))"
    using Cons by (intro ext) auto
  ultimately show ?case using nx by (simp add: connect_all_append connect_from_edges block_edges_def)
qed simp

lemma connect_job_graph_edges:
  assumes "blocks_known infos jobs"
  shows "connect_job_graph vo infos jobs net = connect_all (job_edges vo infos jobs) net"
  using assms
proof (induction jobs arbitrary: net)
  case (Cons job jobs)
  obtain from_block nexts where job: "job = (from_block, nexts)" by (cases job)
  with Cons.prems obtain from_info where info: "map_of infos from_block = Some from_info"
    and nexts: "\<forall>(to_block, ty, fragile) \<in> set nexts. map_of infos to_block \<noteq> None" by (auto simp: blocks_known_def)
  have "blocks_known infos jobs" using Cons.prems by (simp add: blocks_known_def)
  then have IH: "connect_job_graph vo infos jobs = connect_all (job_edges vo infos jobs)" using Cons.IH by (intro ext) auto
  have "connect_job_graph vo infos (job # jobs) net =
      bindR (connect_all (concat (map (\<lambda>(to_block, ty, fragile). block_edges vo from_info (the (map_of infos to_block)) ty fragile) nexts)) net)
        (connect_all (job_edges vo infos jobs))"
    unfolding job connect_job_graph.simps info option.case connect_nexts_edges [OF nexts] IH ..
  then show ?case using job info by (simp add: connect_all_append job_edges_def)
qed (simp add: job_edges_def)

text \<open>The same edges, whatever the orders of the maps.\<close>

definition replica_set :: "block_info \<Rightarrow> coord set" where
  "replica_set info = (\<Union>cs \<in> snd ` set (bi_replicas info). set cs)"

definition graph_edges :: "(nat, block_info) hmap \<Rightarrow> (nat, (nat \<times> type_id \<times> bool) list) hmap \<Rightarrow> edge set" where
  "graph_edges infos jobs = {(f, t, ty, fragile) | f t ty fragile from_block nexts to_block.
     (from_block, nexts) \<in> set jobs \<and> (to_block, ty, fragile) \<in> set nexts
     \<and> f \<in> replica_set (the (map_of infos from_block)) \<and> t \<in> replica_set (the (map_of infos to_block))
     \<and> linked (bi_only_one (the (map_of infos from_block))) fragile (length (all_replicas (\<lambda>m. m) (the (map_of infos to_block)))) f t}"

lemma all_replicas_order:
  assumes "hash_order vo"
  shows "set (all_replicas vo info) = replica_set info" and "length (all_replicas vo info) = length (all_replicas (\<lambda>m. m) info)"
proof -
  have "mset (map snd (vo (bi_replicas info))) = mset (map snd (bi_replicas info))" using hash_order_mset [OF assms] by (simp add: mset_map)
  then have "sum_list (map length (map snd (vo (bi_replicas info)))) = sum_list (map length (map snd (bi_replicas info)))"
    by (metis mset_map sum_mset_sum_list)
  then show "length (all_replicas vo info) = length (all_replicas (\<lambda>m. m) info)" by (simp add: all_replicas_def length_concat)
  show "set (all_replicas vo info) = replica_set info" using hash_order_set [OF assms] by (simp add: all_replicas_def replica_set_def)
qed

lemma job_edges_set:
  assumes "hash_order ho" and "hash_order vo"
  shows "set (job_edges vo infos (ho jobs)) = graph_edges infos jobs"
proof -
  have blocks: "e \<in> set (block_edges vo fi ti ty fr) \<longleftrightarrow> (\<exists>f t. e = (f, t, ty, fr) \<and> f \<in> replica_set fi \<and> t \<in> replica_set ti
      \<and> linked (bi_only_one fi) fr (length (all_replicas (\<lambda>m. m) ti)) f t)" for e fi ti ty fr
    by (auto simp: block_edges_def all_replicas_order [OF assms(2)])
  have jobs: "e \<in> set (job_edges vo infos (ho jobs)) \<longleftrightarrow> (\<exists>from_block nexts to_block ty fr. (from_block, nexts) \<in> set jobs \<and> (to_block, ty, fr) \<in> set nexts
      \<and> e \<in> set (block_edges vo (the (map_of infos from_block)) (the (map_of infos to_block)) ty fr))" for e
    unfolding job_edges_def set_concat set_map hash_order_set [OF assms(1)] by (force simp: case_prod_beta')
  show ?thesis unfolding graph_edges_def by (rule set_eqI) (unfold jobs blocks, blast)
qed

section \<open>A program\<close>

text \<open>What the construction of a job does to the scheduler.\<close>

datatype job_step = ScheduleBlock block | ConnectBlocks nat nat type_id bool

fun run_step :: "job_step \<Rightarrow> scheduler \<Rightarrow> scheduler res" where
  "run_step (ScheduleBlock b) sc = schedule_block b sc"
| "run_step (ConnectBlocks f t ty fragile) sc = ret (if fragile then connect_blocks_fragile f t ty sc else connect_blocks f t ty sc)"

fun run_steps :: "job_step list \<Rightarrow> scheduler \<Rightarrow> scheduler res" where
  "run_steps [] sc = ret sc"
| "run_steps (s # ss) sc = bindR (run_step s sc) (run_steps ss)"

definition step_blocks :: "job_step list \<Rightarrow> block list" where
  "step_blocks ss = concat (map (\<lambda>s. case s of ScheduleBlock b \<Rightarrow> [b] | _ \<Rightarrow> []) ss)"

lemma step_blocks_simps [simp]:
  "step_blocks [] = []" "step_blocks (ScheduleBlock b # ss) = b # step_blocks ss" "step_blocks (ConnectBlocks f t ty fr # ss) = step_blocks ss"
  by (simp_all add: step_blocks_def)

definition usable_config :: "runtime_config \<Rightarrow> nat \<Rightarrow> bool" where
  "usable_config config h \<longleftrightarrow> config_host_id config = Some h \<and> (\<forall>host. config \<noteq> RemoteConfig host [])"

abbreviation counts_of :: "runtime_config \<Rightarrow> block \<Rightarrow> nat list" where
  "counts_of config b \<equiv> placement_counts config (bl_replication b)"

text \<open>The information of a block is the one its requirements ask for.\<close>

definition info_ok :: "runtime_config \<Rightarrow> block \<Rightarrow> block_info \<Rightarrow> bool" where
  "info_ok config b info \<longleftrightarrow> bi_batch_mode info = bl_batch_mode b \<and> bi_only_one info = bl_only_one b
     \<and> placed (bl_id b) (counts_of config b) (sum_list (counts_of config b), bi_replicas info, bi_global_ids info)"

definition host_coords :: "runtime_config \<Rightarrow> nat \<Rightarrow> block \<Rightarrow> coord list" where
  "host_coords config h b = (if h < length (counts_of config b) then map (Coord (bl_id b) h) [0..<counts_of config b ! h] else [])"

lemma info_ok_facts:
  assumes "info_ok config b info"
  shows "info_replicas info h = host_coords config h b" and "replica_set info = placed_coords (bl_id b) (counts_of config b)"
    and "map_of (bi_global_ids info) c = (if c \<in> placed_coords (bl_id b) (counts_of config b) then Some (global_index (counts_of config b) c) else None)"
proof -
  let ?ns = "counts_of config b"
  have reps: "bi_replicas info = map (\<lambda>i. (i, map (Coord (bl_id b) i) [0..<?ns ! i])) [0..<length ?ns]" using assms by (simp add: info_ok_def placed_def)
  show "info_replicas info h = host_coords config h b" by (simp add: info_replicas_def host_coords_def reps map_of_hosts)
  show "replica_set info = placed_coords (bl_id b) ?ns"
  proof (intro equalityI subsetI)
    fix c assume "c \<in> placed_coords (bl_id b) ?ns"
    then show "c \<in> replica_set info"
      by (cases c) (auto simp: replica_set_def reps placed_coords_def intro!: bexI [of _ "host_id c"])
  qed (auto simp: replica_set_def reps placed_coords_def)
  show "map_of (bi_global_ids info) c = (if c \<in> placed_coords (bl_id b) ?ns then Some (global_index ?ns c) else None)"
    using assms by (simp add: info_ok_def placed_def)
qed

definition scheduled :: "runtime_config \<Rightarrow> nat \<Rightarrow> block list \<Rightarrow> scheduler \<Rightarrow> bool" where
  "scheduled config h bs sc \<longleftrightarrow> sc_config sc = config \<and> sc_network sc = topology_new config
     \<and> map fst (sc_block_info sc) = map bl_id bs \<and> (\<forall>b \<in> set bs. \<exists>info. map_of (sc_block_info sc) (bl_id b) = Some info \<and> info_ok config b info)
     \<and> sc_block_init sc = concat (map (host_coords config h) bs)"

lemma update_new_key: "k \<notin> fst ` set m \<Longrightarrow> AList.update k v m = m @ [(k, v)]"
  by (induction m) auto

lemma run_steps_scheduled:
  assumes "usable_config config h" and "scheduled config h bs sc" and "distinct (map bl_id (bs @ step_blocks ss))"
  shows "\<exists>sc'. run_steps ss sc = ret sc' \<and> scheduled config h (bs @ step_blocks ss) sc'"
  using assms(2,3)
proof (induction ss arbitrary: bs sc)
  case (Cons s ss)
  show ?case
  proof (cases s)
    case (ScheduleBlock b)
    obtain info where info: "block_info_of config b = ret info" "info_ok config b info"
      using block_info_placed [of config b] assms(1) by (auto simp: usable_config_def info_ok_def)
    let ?sc = "sc\<lparr>sc_block_info := AList.update (bl_id b) info (sc_block_info sc), sc_block_init := sc_block_init sc @ info_replicas info h\<rparr>"
    have "fst ` set (sc_block_info sc) = bl_id ` set bs" using Cons.prems(1) unfolding scheduled_def by (metis list.set_map)
    then have new: "bl_id b \<notin> fst ` set (sc_block_info sc)" using Cons.prems(2) ScheduleBlock by auto
    have "run_step s sc = ret ?sc" using ScheduleBlock Cons.prems(1) info(1) assms(1) by (simp add: schedule_block_def scheduled_def usable_config_def)
    moreover have lookup: "map_of (AList.update (bl_id b) info (sc_block_info sc)) i = (if i = bl_id b then Some info else map_of (sc_block_info sc) i)" for i
      by (simp add: update_conv')
    have "\<forall>b' \<in> set (bs @ [b]). \<exists>info'. map_of (sc_block_info ?sc) (bl_id b') = Some info' \<and> info_ok config b' info'"
    proof
      fix b' assume "b' \<in> set (bs @ [b])"
      moreover have "bl_id b' \<noteq> bl_id b" if "b' \<in> set bs" using that Cons.prems(2) ScheduleBlock by (auto simp: image_iff)
      ultimately show "\<exists>info'. map_of (sc_block_info ?sc) (bl_id b') = Some info' \<and> info_ok config b' info'"
        using Cons.prems(1) info(2) by (auto simp: scheduled_def lookup simp del: Some_eq_map_of_iff)
    qed
    then have "scheduled config h (bs @ [b]) ?sc"
      using Cons.prems(1) new info_ok_facts(1) [OF info(2)] by (simp add: scheduled_def update_new_key)
    ultimately show ?thesis using Cons.IH [of "bs @ [b]" ?sc] Cons.prems(2) ScheduleBlock by simp
  next
    case (ConnectBlocks f t ty fr)
    then show ?thesis using Cons by (auto simp: scheduled_def connect_blocks_def connect_blocks_fragile_def)
  qed
qed simp

lemma run_steps_new:
  assumes "usable_config config h" and "distinct (map bl_id (step_blocks ss))"
  shows "\<exists>sc. run_steps ss (scheduler_new config) = ret sc \<and> scheduled config h (step_blocks ss) sc"
proof -
  have "scheduled config h [] (scheduler_new config)" by (simp add: scheduled_def scheduler_new_def)
  from run_steps_scheduled [OF assms(1) this] assms(2) show ?thesis by simp
qed

text \<open>The execution graph, from the connections that \<^verbatim>\<open>Topology\<close> registers.\<close>

lemma execution_graph_built:
  assumes "hash_order ho" and "hash_order vo" and "config_host_id config = Some h" and "sc_network sc = topology_new config"
    and "blocks_known (sc_block_info sc) (sc_next_blocks sc)"
  shows "\<exists>net. build_execution_graph ho vo sc = ret (sc\<lparr>sc_network := net\<rparr>)
    \<and> connected config h (job_edges vo (sc_block_info sc) (ho (sc_next_blocks sc))) net"
proof -
  have known: "blocks_known (sc_block_info sc) (ho (sc_next_blocks sc))"
    using assms(5) hash_order_set [OF assms(1)] by (simp add: blocks_known_def)
  obtain net where "connect_all (job_edges vo (sc_block_info sc) (ho (sc_next_blocks sc))) (topology_new config) = ret net"
    "connected config h (job_edges vo (sc_block_info sc) (ho (sc_next_blocks sc))) net"
    using connect_all_connected [OF assms(3)] by blast
  then show ?thesis using assms(4) by (auto simp: build_execution_graph_def connect_job_graph_edges [OF known])
qed

lemma connected_prev: "connected config h E tp \<Longrightarrow> (f, ty) \<in> set (topology_prev tp t) \<longleftrightarrow> (\<exists>fr. (f, t, ty, fr) \<in> set E)"
  by (force simp: connected_def topology_prev_def non_empty_def edges_prev_def)

text \<open>The hosts agree: what depends on the set of the edges only.\<close>

lemma edges_set_cong:
  assumes "set E = set E'"
  shows "edges_demuxes E = edges_demuxes E'" and "edges_coords E = edges_coords E'" and "enough_ports hosts E = enough_ports hosts E'"
    and "demux_address hosts E d = demux_address hosts E' d"
  using assms by (simp_all add: edges_demuxes_def edges_coords_def enough_ports_def demux_address_def)

lemma same_job:
  assumes "distinct (map bl_id (step_blocks ss))" and "hosts \<noteq> []"
  shows "\<exists>sc1 sc2. run_steps ss (scheduler_new (RemoteConfig (Some h1) hosts)) = ret sc1 \<and> run_steps ss (scheduler_new (RemoteConfig (Some h2) hosts)) = ret sc2
    \<and> sc_block_info sc1 = sc_block_info sc2 \<and> sc_next_blocks sc1 = sc_next_blocks sc2
    \<and> sc_network sc1 = topology_new (RemoteConfig (Some h1) hosts) \<and> sc_network sc2 = topology_new (RemoteConfig (Some h2) hosts)"
proof -
  have same: "sc_block_info sc1' = sc_block_info sc2' \<and> sc_next_blocks sc1' = sc_next_blocks sc2'"
    if "run_steps ss sc1 = ret sc1'" "run_steps ss sc2 = ret sc2'" "sc_block_info sc1 = sc_block_info sc2" "sc_next_blocks sc1 = sc_next_blocks sc2"
      "sc_config sc1 = RemoteConfig (Some h1) hosts" "sc_config sc2 = RemoteConfig (Some h2) hosts" for ss sc1 sc2 sc1' sc2'
    using that
  proof (induction ss arbitrary: sc1 sc2)
    case (Cons s ss)
    show ?case
    proof (cases s)
      case (ScheduleBlock b)
      then obtain info where "remote_block_info hosts b = ret info" using Cons.prems(1,5) by (auto simp: schedule_block_def bindR_eq_ret)
      then show ?thesis using Cons.IH [of "sc1\<lparr>sc_block_info := _, sc_block_init := _\<rparr>" "sc2\<lparr>sc_block_info := _, sc_block_init := _\<rparr>"] Cons.prems ScheduleBlock
        by (simp add: schedule_block_def)
    next
      case (ConnectBlocks f t ty fr)
      then show ?thesis using Cons by (cases fr) (auto simp: connect_blocks_def connect_blocks_fragile_def)
    qed
  qed simp
  have "usable_config (RemoteConfig (Some h) hosts) h" for h using assms(2) by (simp add: usable_config_def)
  from run_steps_new [OF this assms(1)] obtain sc1 sc2 where
    sc: "run_steps ss (scheduler_new (RemoteConfig (Some h1) hosts)) = ret sc1" "scheduled (RemoteConfig (Some h1) hosts) h1 (step_blocks ss) sc1"
      "run_steps ss (scheduler_new (RemoteConfig (Some h2) hosts)) = ret sc2" "scheduled (RemoteConfig (Some h2) hosts) h2 (step_blocks ss) sc2" by blast
  then show ?thesis using same [OF sc(1,3)] by (simp add: scheduler_new_def scheduled_def)
qed

section \<open>The workers\<close>

text \<open>
  The calls of a replica fit the execution graph \<open>E\<close>: it asks, with the type of the connection, only for endpoints of connections that this host takes
  part in, and for the receiver of a previous block at most once.
\<close>

fun call_connected :: "nat \<Rightarrow> edge set \<Rightarrow> coord \<Rightarrow> setup_call \<Rightarrow> bool" where
  "call_connected h E c (GetReceiver ty b) = (\<exists>f fr. (f, c, ty, fr) \<in> E \<and> block_id f = b)"
| "call_connected h E c (GetSenders ty) = True"
| "call_connected h E c (GetSender ty e) =
     (\<exists>f fr. (f, re_coord e, ty, fr) \<in> E \<and> block_id f = re_prev_block_id e \<and> (host_id f = h \<or> host_id (re_coord e) = h))"

fun call_receivers :: "coord \<Rightarrow> setup_call list \<Rightarrow> receiver_endpoint list" where
  "call_receivers c [] = []"
| "call_receivers c (GetReceiver ty b # cs) = ReceiverEndpoint c b # call_receivers c cs"
| "call_receivers c (_ # cs) = call_receivers c cs"

definition calls_fit :: "nat \<Rightarrow> edge set \<Rightarrow> coord \<Rightarrow> setup_call list \<Rightarrow> bool" where
  "calls_fit h E c cs \<longleftrightarrow> (\<forall>call \<in> set cs. call_connected h E c call) \<and> distinct (call_receivers c cs)"

text \<open>The connections between two blocks have one type.\<close>

definition one_type :: "edge set \<Rightarrow> bool" where
  "one_type E \<longleftrightarrow> (\<forall>(f, t, ty, fr) \<in> E. \<forall>(f', t', ty', fr') \<in> E. t' = t \<and> block_id f' = block_id f \<longrightarrow> ty' = ty)"

definition endpoint_type :: "edge set \<Rightarrow> receiver_endpoint \<Rightarrow> type_id" where
  "endpoint_type E e = (SOME ty. \<exists>f fr. (f, re_coord e, ty, fr) \<in> E \<and> block_id f = re_prev_block_id e)"

lemma endpoint_type_eq:
  assumes "one_type E" and "(f, t, ty, fr) \<in> E"
  shows "endpoint_type E (ReceiverEndpoint t (block_id f)) = ty"
  unfolding endpoint_type_def by (rule some_equality) (use assms in \<open>auto simp: one_type_def\<close>)

lemma call_receivers_coord: "e \<in> set (call_receivers c cs) \<Longrightarrow> re_coord e = c"
  by (induction c cs rule: call_receivers.induct) auto

lemma setup_calls_handed:
  assumes ok: "well_connected config h E ty" and ty: "ty = endpoint_type (set E)" "one_type (set E)" and "host_id c = h"
    and "handed config h E ty net" and "calls_fit h (set E) c cs" and "set (call_receivers c cs) \<inter> tp_used_receivers net = {}"
  shows "\<exists>net'. setup_calls c cs net = ret net' \<and> handed config h E ty net' \<and> tp_prev net' = tp_prev net
    \<and> tp_used_receivers net' = set (call_receivers c cs) \<union> tp_used_receivers net"
  using assms(5-)
proof (induction cs arbitrary: net)
  case (Cons call cs)
  have rest: "calls_fit h (set E) c cs" "call_connected h (set E) c call"
    using Cons.prems(2) by (cases call; simp add: calls_fit_def)+
  have next_calls: "\<exists>net'. setup_calls c cs net1 = ret net' \<and> handed config h E ty net' \<and> tp_prev net' = tp_prev net
      \<and> tp_used_receivers net' = set (call_receivers c cs) \<union> tp_used_receivers net1"
    if "handed config h E ty net1" "tp_prev net1 = tp_prev net" "set (call_receivers c cs) \<inter> tp_used_receivers net1 = {}" for net1
    using Cons.IH [OF that(1) rest(1) that(3)] that(2) by simp
  show ?case
  proof (cases call)
    case (GetReceiver t b)
    from rest(2) obtain f fr where f: "(f, c, t, fr) \<in> set E" "block_id f = b" by (auto simp: GetReceiver)
    let ?e = "ReceiverEndpoint c b"
    have e: "?e \<in> edges_channels h E" "ty ?e = t" "?e \<notin> tp_used_receivers net" "?e \<notin> set (call_receivers c cs)"
      using f assms(4) Cons.prems(2,3) endpoint_type_eq [OF ty(2) f(1)] ty(1)
      by (auto simp: edges_channels_def GetReceiver calls_fit_def)
    from get_receiver_handed [OF ok Cons.prems(1) e(1) _ e(3)] assms(4) e(2) obtain net1 where
      net1: "get_receiver t ?e net = ret (?e, net1)" "handed config h E ty net1" "tp_used_receivers net1 = insert ?e (tp_used_receivers net)" by auto
    have "set (call_receivers c cs) \<inter> tp_used_receivers net1 = {}" using net1(3) e(4) Cons.prems(3) by (auto simp: GetReceiver)
    from next_calls [OF net1(2) get_receiver_prev [OF net1(1)] this] net1(1,3) show ?thesis
      by (auto simp: GetReceiver receiver_setup_def)
  next
    case (GetSenders t)
    from get_senders_handed [OF ok Cons.prems(1) assms(4), of t] obtain ss net1 where
      net1: "get_senders t c net = ret (ss, net1)" "handed config h E ty net1" "tp_used_receivers net1 = tp_used_receivers net" by blast
    from next_calls [OF net1(2) get_senders_prev [OF net1(1)]] net1(1,3) Cons.prems(3) show ?thesis
      by (auto simp: GetSenders senders_setup_def)
  next
    case (GetSender t e)
    from rest(2) obtain f fr where f: "(f, re_coord e, t, fr) \<in> set E" "block_id f = re_prev_block_id e" "host_id f = h \<or> host_id (re_coord e) = h"
      by (auto simp: GetSender)
    have e: "e \<in> edges_channels h E" "ty e = t"
      using f endpoint_type_eq [OF ty(2) f(1)] ty(1) by (cases e; auto simp: edges_channels_def)+
    from get_sender_handed [OF ok Cons.prems(1) e(1)] e(2) obtain net1 where
      net1: "get_sender t e net = ret (sender_of h e, net1)" "handed config h E ty net1" "tp_used_receivers net1 = tp_used_receivers net" by auto
    from next_calls [OF net1(2) get_sender_prev [OF net1(1)]] net1(1,3) Cons.prems(3) show ?thesis
      by (auto simp: GetSender sender_setup_def)
  qed
qed simp

lemma init_workers_metadata:
  assumes ok: "well_connected config h E ty" and ty: "ty = endpoint_type (set E)" "one_type (set E)"
    and "\<forall>c \<in> set cs. \<exists>info g. map_of (sc_block_info sc) (block_id c) = Some info \<and> map_of (bi_global_ids info) c = Some g"
    and "distinct cs" and "\<forall>c \<in> set cs. host_id c = h \<and> calls_fit h (set E) c (calls c)" and "handed config h E ty (sc_network sc)"
    and "\<forall>e \<in> tp_used_receivers (sc_network sc). re_coord e \<notin> set cs"
  shows "\<exists>sc'. init_workers vo (worker_setup calls) cs sc = ret (map (\<lambda>c. let info = the (map_of (sc_block_info sc) (block_id c)) in
      \<lparr>em_coord = c, em_replicas = all_replicas vo info, em_global_id = the (map_of (bi_global_ids info) c),
       em_prev = topology_prev (sc_network sc) c, em_batch_mode = bi_batch_mode info\<rparr>) cs, sc')
    \<and> tp_used_receivers (sc_network sc') = (\<Union>c \<in> set cs. set (call_receivers c (calls c))) \<union> tp_used_receivers (sc_network sc)"
  using assms(4-)
proof (induction cs arbitrary: sc)
  case (Cons c cs)
  obtain info g where info: "map_of (sc_block_info sc) (block_id c) = Some info" "map_of (bi_global_ids info) c = Some g" using Cons.prems(1) by auto
  let ?m = "\<lparr>em_coord = c, em_replicas = all_replicas vo info, em_global_id = g, em_prev = topology_prev (sc_network sc) c, em_batch_mode = bi_batch_mode info\<rparr>"
  have c: "host_id c = h" "calls_fit h (set E) c (calls c)" using Cons.prems(3) by auto
  have "set (call_receivers c (calls c)) \<inter> tp_used_receivers (sc_network sc) = {}" using Cons.prems(5) call_receivers_coord by fastforce
  from setup_calls_handed [OF ok ty c(1) Cons.prems(4) c(2) this] obtain net where
    net: "setup_calls c (calls c) (sc_network sc) = ret net" "handed config h E ty net" "tp_prev net = tp_prev (sc_network sc)"
      "tp_used_receivers net = set (call_receivers c (calls c)) \<union> tp_used_receivers (sc_network sc)" by blast
  have prev: "topology_prev net = topology_prev (sc_network sc)" using net(3) by (simp add: topology_prev_def fun_eq_iff)
  have "\<forall>e \<in> tp_used_receivers net. re_coord e \<notin> set cs"
    using net(4) Cons.prems(2,5) call_receivers_coord [of _ c "calls c"] by auto
  from Cons.IH [of "sc\<lparr>sc_network := net\<rparr>"] Cons.prems(1-3) net(2) this obtain sc' where
    "init_workers vo (worker_setup calls) cs (sc\<lparr>sc_network := net\<rparr>) = ret (map (\<lambda>c. let info = the (map_of (sc_block_info sc) (block_id c)) in
      \<lparr>em_coord = c, em_replicas = all_replicas vo info, em_global_id = the (map_of (bi_global_ids info) c),
       em_prev = topology_prev (sc_network sc) c, em_batch_mode = bi_batch_mode info\<rparr>) cs, sc')"
    "tp_used_receivers (sc_network sc') = (\<Union>c \<in> set cs. set (call_receivers c (calls c))) \<union> tp_used_receivers net"
    by (auto simp: prev)
  moreover have "worker_setup calls ?m (sc_network sc) = ret net" using net(1) by (simp add: worker_setup_def)
  ultimately show ?case using info net(4) by (auto simp: Let_def)
qed simp

text \<open>The two steps together: the graph and, for a remote environment, the ports.\<close>

definition ports_ok :: "runtime_config \<Rightarrow> edge list \<Rightarrow> bool" where
  "ports_ok config E \<longleftrightarrow> (\<forall>host hosts. config = RemoteConfig host hosts \<longrightarrow> enough_ports hosts E)"

lemma network_built:
  assumes "hash_order ho" and "hash_order vo" and "hash_order to" and "config_host_id config = Some h" and "sc_network sc = topology_new config"
    and "blocks_known (sc_block_info sc) (sc_next_blocks sc)" and "ports_ok config (job_edges vo (sc_block_info sc) (ho (sc_next_blocks sc)))"
  shows "\<exists>net tp. build_execution_graph ho vo sc = ret (sc\<lparr>sc_network := net\<rparr>) \<and> topology_build to net = ret tp
    \<and> (\<forall>f ty t. (f, ty) \<in> set (topology_prev tp t) \<longleftrightarrow> (\<exists>fragile. (f, t, ty, fragile) \<in> graph_edges (sc_block_info sc) (sc_next_blocks sc)))
    \<and> (\<forall>host hosts d. config = RemoteConfig host hosts \<longrightarrow> map_of (tp_addresses tp) d =
         (let E = job_edges vo (sc_block_info sc) (ho (sc_next_blocks sc)) in if d \<in> edges_demuxes E then Some (demux_address hosts E d) else None))
    \<and> connected config h (job_edges vo (sc_block_info sc) (ho (sc_next_blocks sc))) net"
proof -
  let ?E = "job_edges vo (sc_block_info sc) (ho (sc_next_blocks sc))"
  obtain net where net: "build_execution_graph ho vo sc = ret (sc\<lparr>sc_network := net\<rparr>)" "connected config h ?E net"
    using execution_graph_built [OF assms(1,2,4,5,6)] by blast
  obtain tp where tp: "topology_build to net = ret tp" "tp_prev tp = tp_prev net"
    "\<forall>host hosts d. config = RemoteConfig host hosts \<longrightarrow> map_of (tp_addresses tp) d = (if d \<in> edges_demuxes ?E then Some (demux_address hosts ?E d) else None)"
  proof (cases config)
    case (LocalConfig k)
    then show ?thesis using net(2) that by (simp add: topology_build_def connected_def)
  next
    case (RemoteConfig hst hosts)
    then have c: "config = RemoteConfig (Some h) hosts" using assms(4) by simp
    then have "enough_ports hosts ?E" using assms(7) by (simp add: ports_ok_def)
    from build_addresses [OF assms(3) net(2) [unfolded c] this] obtain tp' where
      tp': "topology_build to net = ret tp'" "tp' = net\<lparr>tp_addresses := tp_addresses tp'\<rparr>"
        "\<forall>d. map_of (tp_addresses tp') d = (if d \<in> edges_demuxes ?E then Some (demux_address hosts ?E d) else None)" by blast
    have "tp_prev tp' = tp_prev net" by (subst tp'(2)) simp
    then show ?thesis using tp'(1,3) c that by simp
  qed
  have "(f, ty) \<in> set (topology_prev tp t) \<longleftrightarrow> (\<exists>fragile. (f, t, ty, fragile) \<in> graph_edges (sc_block_info sc) (sc_next_blocks sc))" for f ty t
    using connected_prev [OF net(2)] job_edges_set [OF assms(1,2)] tp(2) by (simp add: topology_prev_def)
  then show ?thesis using net tp(1,3) unfolding Let_def by blast
qed

lemma build_used: "topology_build to net = ret tp \<Longrightarrow> connected config h E net \<Longrightarrow> tp_used_receivers tp = {}"
  by (auto simp: topology_build_def connected_def bindR_eq_ret split: runtime_config.splits)

text \<open>A replica that is set up has the information of its block.\<close>

lemma scheduled_replica:
  assumes "scheduled config h bs sc" and "c \<in> set (sc_block_init sc)"
  obtains b info where "b \<in> set bs" and "block_id c = bl_id b" and "map_of (sc_block_info sc) (block_id c) = Some info" and "info_ok config b info"
    and "map_of (bi_global_ids info) c = Some (global_index (counts_of config b) c)"
proof -
  from assms obtain b where b: "b \<in> set bs" "c \<in> set (host_coords config h b)" by (auto simp: scheduled_def)
  then have c: "block_id c = bl_id b" "c \<in> placed_coords (bl_id b) (counts_of config b)" by (auto simp: host_coords_def placed_coords_def split: if_splits)
  from b(1) assms(1) c(1) obtain info where info: "map_of (sc_block_info sc) (block_id c) = Some info" "info_ok config b info" by (auto simp: scheduled_def simp del: Some_eq_map_of_iff)
  moreover have "map_of (bi_global_ids info) c = Some (global_index (counts_of config b) c)" using info_ok_facts(3) [OF info(2)] c(2) by simp
  ultimately show ?thesis using that b(1) c(1) by blast
qed

text \<open>The replicas of a host are distinct, and in a local environment there is one host.\<close>

lemma host_coords_distinct:
  assumes "distinct (map bl_id bs)"
  shows "distinct (concat (map (host_coords config h) bs))"
proof -
  have coords: "c \<in> set (host_coords config h b) \<Longrightarrow> block_id c = bl_id b" for c b by (auto simp: host_coords_def split: if_splits)
  have "distinct (host_coords config h b)" for b by (simp add: host_coords_def distinct_map inj_on_def)
  with assms show ?thesis
  proof (induction bs)
    case (Cons b bs)
    have "set (host_coords config h b) \<inter> set (concat (map (host_coords config h) bs)) = {}"
    proof (rule equals0I)
      fix c assume "c \<in> set (host_coords config h b) \<inter> set (concat (map (host_coords config h) bs))"
      then obtain b' where b': "b' \<in> set bs" "c \<in> set (host_coords config h b')" "c \<in> set (host_coords config h b)" by auto
      with coords have "bl_id b = bl_id b'" by metis
      with b'(1) Cons.prems(1) show False by (auto simp: image_iff)
    qed
    with Cons show ?case by simp
  qed simp
qed

lemma local_edges:
  assumes "scheduled (LocalConfig n) h bs sc" and "blocks_known (sc_block_info sc) (sc_next_blocks sc)"
    and "(f, t, ty, fr) \<in> graph_edges (sc_block_info sc) (sc_next_blocks sc)"
  shows "host_id f = 0 \<and> host_id t = 0"
proof -
  have zero: "host_id c = 0" if "map_of (sc_block_info sc) i \<noteq> None" "c \<in> replica_set (the (map_of (sc_block_info sc) i))" for c i
  proof -
    have "i \<in> set (keys (sc_block_info sc))" using that(1) by (simp add: map_of_eq_None_iff)
    moreover have "keys (sc_block_info sc) = map bl_id bs" using assms(1) by (simp add: scheduled_def)
    ultimately obtain b where "b \<in> set bs" "i = bl_id b" by (metis imageE list.set_map)
    then obtain info where "map_of (sc_block_info sc) i = Some info" "info_ok (LocalConfig n) b info"
      using assms(1) by (auto simp: scheduled_def simp del: Some_eq_map_of_iff)
    with that(2) info_ok_facts(2) have "c \<in> placed_coords (bl_id b) (counts_of (LocalConfig n) b)" by simp
    then show ?thesis by (simp add: placed_coords_def)
  qed
  from assms(3) obtain i nexts j where e: "(i, nexts) \<in> set (sc_next_blocks sc)" "(j, ty, fr) \<in> set nexts"
    "f \<in> replica_set (the (map_of (sc_block_info sc) i))" "t \<in> replica_set (the (map_of (sc_block_info sc) j))"
    by (auto simp: graph_edges_def)
  from assms(2) e(1,2) have "map_of (sc_block_info sc) i \<noteq> None" "map_of (sc_block_info sc) j \<noteq> None"
    unfolding blocks_known_def by fastforce+
  with zero e(3,4) show ?thesis by blast
qed

lemma job_well_connected:
  assumes "usable_config config h" and "scheduled config h bs sc" and "blocks_known (sc_block_info sc) (sc_next_blocks sc)"
    and E: "set E = graph_edges (sc_block_info sc) (sc_next_blocks sc)" and "one_type (set E)" and "ports_ok config E"
  shows "well_connected config h E (endpoint_type (set E))"
proof -
  have "\<forall>(f, t, typ, fr) \<in> set E. endpoint_type (set E) (ReceiverEndpoint t (block_id f)) = typ"
    using endpoint_type_eq [OF assms(5)] by blast
  moreover have "case config of LocalConfig _ \<Rightarrow> h = 0 \<and> (\<forall>c \<in> edges_coords E. host_id c = 0)
      | RemoteConfig host hosts \<Rightarrow> host = Some h \<and> enough_ports hosts E"
  proof (cases config)
    case (LocalConfig n)
    have "host_id f = 0 \<and> host_id t = 0" if "(f, t, ty, fr) \<in> set E" for f t ty fr
      using local_edges assms(2,3) that LocalConfig E by blast
    then have "\<forall>c \<in> edges_coords E. host_id c = 0" by (auto simp: edges_coords_def)
    with LocalConfig assms(1) show ?thesis by (simp add: usable_config_def)
  next
    case (RemoteConfig host hosts)
    then show ?thesis using assms(1,6) by (simp add: usable_config_def ports_ok_def)
  qed
  ultimately show ?thesis unfolding well_connected_def by blast
qed

section \<open>Properties\<close>

text \<open>
  C14: the replicas of a block: host \<open>i\<close> runs replicas \<open>0, 1, \<dots>\<close> up to the number its cores and the replication of the
  block allow, a limit being spent from the first host on, and the global identifiers number all the replicas from 0 without gaps.
\<close>

theorem replica_placement:
  assumes "usable_config config h"
  shows "\<exists>info. block_info_of config b = ret info \<and> (\<forall>i. info_replicas info i = host_coords config i b)
    \<and> bij_betw (\<lambda>c. the (map_of (bi_global_ids info) c)) (replica_set info) {..<sum_list (counts_of config b)}
    \<and> sum_list (counts_of config b) = (case config of LocalConfig n \<Rightarrow> clamp (bl_replication b) n
         | RemoteConfig _ hosts \<Rightarrow> (let cores = sum_list (map hc_num_cores hosts) in
             case bl_replication b of Unlimited \<Rightarrow> cores | Limited q \<Rightarrow> min q cores | PerHost \<Rightarrow> length hosts | One \<Rightarrow> 1))"
proof -
  obtain info where info: "block_info_of config b = ret info" "info_ok config b info"
    using block_info_placed [of config b] assms by (auto simp: usable_config_def info_ok_def)
  let ?ns = "counts_of config b"
  have ids: "the (map_of (bi_global_ids info) c) = global_index ?ns c" if "c \<in> placed_coords (bl_id b) ?ns" for c
    using that by (simp add: info_ok_facts(3) [OF info(2)])
  have "bij_betw (\<lambda>c. the (map_of (bi_global_ids info) c)) (placed_coords (bl_id b) ?ns) {..<sum_list ?ns}"
    using global_index_bij by (rule bij_betw_cong [THEN iffD2, rotated]) (simp add: ids)
  moreover have "sum_list ?ns = (case config of LocalConfig n \<Rightarrow> clamp (bl_replication b) n
         | RemoteConfig _ hosts \<Rightarrow> (let cores = sum_list (map hc_num_cores hosts) in
             case bl_replication b of Unlimited \<Rightarrow> cores | Limited q \<Rightarrow> min q cores | PerHost \<Rightarrow> length hosts | One \<Rightarrow> 1))"
    by (cases config; cases "bl_replication b") (simp_all add: limit_counts_sum sum_list_triv Let_def)
  ultimately show ?thesis using info info_ok_facts(1,2) [OF info(2)] by auto
qed

text \<open>
  C19: the execution graph connects, for every connection of the job graph, each replica of the first block with
  each replica of the second, and if the first block has \<^verbatim>\<open>NextStrategy::OnlyOne\<close> or the connection is fragile, only with the single replica of the second
  or with the one in its own place; each replica knows exactly its previous replicas, whatever the order of the hash maps.
\<close>

theorem execution_graph:
  assumes "hash_order ho" and "hash_order vo" and "config_host_id config = Some h" and "sc_network sc = topology_new config"
    and "blocks_known (sc_block_info sc) (sc_next_blocks sc)"
  shows "\<exists>sc'. build_execution_graph ho vo sc = ret sc'
    \<and> (\<forall>f t ty. (f, ty) \<in> set (topology_prev (sc_network sc') t) \<longleftrightarrow> (\<exists>fragile. (f, t, ty, fragile) \<in> graph_edges (sc_block_info sc) (sc_next_blocks sc)))"
proof -
  obtain net where net: "build_execution_graph ho vo sc = ret (sc\<lparr>sc_network := net\<rparr>)"
    "connected config h (job_edges vo (sc_block_info sc) (ho (sc_next_blocks sc))) net"
    using execution_graph_built [OF assms] by blast
  then show ?thesis using connected_prev [OF net(2)] job_edges_set [OF assms(1,2)] by (auto simp del: split_paired_Ex)
qed

text \<open>
  C12: every host that builds the same job computes the same execution graph and the same addresses for its
  demultiplexers, although each iterates its own hash maps in its own order.
\<close>

theorem hosts_agree:
  assumes "hash_order ho1" "hash_order vo1" "hash_order to1" "hash_order ho2" "hash_order vo2" "hash_order to2"
    and "distinct (map bl_id (step_blocks ss))" and "hosts \<noteq> []"
    and "run_steps ss (scheduler_new (RemoteConfig (Some h1) hosts)) = ret sc1"
    and "blocks_known (sc_block_info sc1) (sc_next_blocks sc1)" and "enough_ports hosts (job_edges vo1 (sc_block_info sc1) (ho1 (sc_next_blocks sc1)))"
  shows "\<exists>sc2 sc1' sc2' tp1 tp2. run_steps ss (scheduler_new (RemoteConfig (Some h2) hosts)) = ret sc2
    \<and> build_execution_graph ho1 vo1 sc1 = ret sc1' \<and> build_execution_graph ho2 vo2 sc2 = ret sc2'
    \<and> topology_build to1 (sc_network sc1') = ret tp1 \<and> topology_build to2 (sc_network sc2') = ret tp2
    \<and> (\<forall>d. map_of (tp_addresses tp1) d = map_of (tp_addresses tp2) d)
    \<and> (\<forall>c. set (topology_prev tp1 c) = set (topology_prev tp2 c))"
proof -
  obtain sc2 where sc2: "run_steps ss (scheduler_new (RemoteConfig (Some h2) hosts)) = ret sc2"
    "sc_block_info sc1 = sc_block_info sc2" "sc_next_blocks sc1 = sc_next_blocks sc2"
    "sc_network sc1 = topology_new (RemoteConfig (Some h1) hosts)" "sc_network sc2 = topology_new (RemoteConfig (Some h2) hosts)"
    using same_job [OF assms(7,8), of h1 h2] assms(9) by auto
  let ?E1 = "job_edges vo1 (sc_block_info sc1) (ho1 (sc_next_blocks sc1))" and ?E2 = "job_edges vo2 (sc_block_info sc2) (ho2 (sc_next_blocks sc2))"
  have E: "set ?E2 = set ?E1" using job_edges_set [OF assms(1,2)] job_edges_set [OF assms(4,5)] sc2(2,3) by simp
  have ports: "ports_ok (RemoteConfig (Some h1) hosts) ?E1" "ports_ok (RemoteConfig (Some h2) hosts) ?E2"
    using assms(11) edges_set_cong(3) [OF E] by (simp_all add: ports_ok_def)
  have known: "blocks_known (sc_block_info sc2) (sc_next_blocks sc2)" using assms(10) sc2(2,3) by simp
  from network_built [OF assms(1-3) _ sc2(4) assms(10) ports(1)] obtain net1 tp1 where
    one: "build_execution_graph ho1 vo1 sc1 = ret (sc1\<lparr>sc_network := net1\<rparr>)" "topology_build to1 net1 = ret tp1"
      "\<forall>f ty t. (f, ty) \<in> set (topology_prev tp1 t) \<longleftrightarrow> (\<exists>fragile. (f, t, ty, fragile) \<in> graph_edges (sc_block_info sc1) (sc_next_blocks sc1))"
      "\<forall>d. map_of (tp_addresses tp1) d = (if d \<in> edges_demuxes ?E1 then Some (demux_address hosts ?E1 d) else None)" by (auto simp: Let_def)
  from network_built [OF assms(4-6) _ sc2(5) known ports(2)] obtain net2 tp2 where
    two: "build_execution_graph ho2 vo2 sc2 = ret (sc2\<lparr>sc_network := net2\<rparr>)" "topology_build to2 net2 = ret tp2"
      "\<forall>f ty t. (f, ty) \<in> set (topology_prev tp2 t) \<longleftrightarrow> (\<exists>fragile. (f, t, ty, fragile) \<in> graph_edges (sc_block_info sc2) (sc_next_blocks sc2))"
      "\<forall>d. map_of (tp_addresses tp2) d = (if d \<in> edges_demuxes ?E2 then Some (demux_address hosts ?E2 d) else None)" by (auto simp: Let_def)
  have "set (topology_prev tp1 c) = set (topology_prev tp2 c)" for c using one(3) two(3) sc2(2,3) by auto
  moreover have "map_of (tp_addresses tp1) d = map_of (tp_addresses tp2) d" for d using one(4) two(4) edges_set_cong(1,4) [OF E] by simp
  ultimately show ?thesis using sc2(1) one(1,2) two(1,2) by auto
qed

text \<open>
  C13: starting a job: if some block was never scheduled (a stream without a sink) the start panics; otherwise
  exactly the replicas of this host are set up, block by block, each with the batch mode and all the replicas of its block, its own global
  identifier and its previous replicas in the execution graph, and every channel that an operator asks for in its setup is handed out: the receivers
  that are taken at the end are exactly those asked for. The operators of a replica may ask for all its senders, for the sender of any connection
  of the execution graph that this host takes part in, and once for the receiver of each block with a replica connected to it (\<open>calls_fit\<close>).
\<close>

theorem workers_started:
  assumes "hash_order ho" and "hash_order vo" and "hash_order to" and "usable_config config h"
    and "distinct (map bl_id (step_blocks ss))" and "run_steps ss (scheduler_new config) = ret sc" and "blocks_known (sc_block_info sc) (sc_next_blocks sc)"
    and "ports_ok config (job_edges vo (sc_block_info sc) (ho (sc_next_blocks sc)))"
    and "one_type (graph_edges (sc_block_info sc) (sc_next_blocks sc))"
    and "\<forall>b \<in> set (step_blocks ss). \<forall>c \<in> set (host_coords config h b). calls_fit h (graph_edges (sc_block_info sc) (sc_next_blocks sc)) c (calls c)"
  shows "if n \<noteq> length (step_blocks ss) then start_blocking ho vo to (worker_setup calls) n sc = panic AssertFailed
    else \<exists>ms sc'. start_blocking ho vo to (worker_setup calls) n sc = ret (ms, sc')
      \<and> map em_coord ms = concat (map (host_coords config h) (step_blocks ss))
      \<and> (\<forall>m \<in> set ms. \<exists>b \<in> set (step_blocks ss). block_id (em_coord m) = bl_id b \<and> em_batch_mode m = bl_batch_mode b
           \<and> set (em_replicas m) = placed_coords (bl_id b) (counts_of config b) \<and> em_global_id m = global_index (counts_of config b) (em_coord m)
           \<and> (\<forall>f ty. (f, ty) \<in> set (em_prev m) \<longleftrightarrow> (\<exists>fragile. (f, em_coord m, ty, fragile) \<in> graph_edges (sc_block_info sc) (sc_next_blocks sc))))
      \<and> tp_used_receivers (sc_network sc') = (\<Union>m \<in> set ms. set (call_receivers (em_coord m) (calls (em_coord m))))"
proof -
  let ?E = "job_edges vo (sc_block_info sc) (ho (sc_next_blocks sc))"
  have sched: "scheduled config h (step_blocks ss) sc" using run_steps_new [OF assms(4,5)] assms(6) by auto
  have len: "length (sc_block_info sc) = length (step_blocks ss)" using sched unfolding scheduled_def by (metis length_map)
  have host: "config_host_id config = Some h" using assms(4) by (simp add: usable_config_def)
  have net0: "sc_network sc = topology_new config" and inits: "sc_block_init sc = concat (map (host_coords config h) (step_blocks ss))"
    using sched by (simp_all add: scheduled_def)
  have E: "set ?E = graph_edges (sc_block_info sc) (sc_next_blocks sc)" by (rule job_edges_set [OF assms(1,2)])
  from network_built [OF assms(1-3) host net0 assms(7,8)] obtain net tp where
    net: "build_execution_graph ho vo sc = ret (sc\<lparr>sc_network := net\<rparr>)" "topology_build to net = ret tp"
      "\<forall>f ty t. (f, ty) \<in> set (topology_prev tp t) \<longleftrightarrow> (\<exists>fragile. (f, t, ty, fragile) \<in> graph_edges (sc_block_info sc) (sc_next_blocks sc))"
      "connected config h ?E net" by blast
  have one: "one_type (set ?E)" unfolding E by (rule assms(9))
  have ok: "well_connected config h ?E (endpoint_type (set ?E))" by (rule job_well_connected [OF assms(4) sched assms(7) E one assms(8)])
  have handed: "handed config h ?E (endpoint_type (set ?E)) tp" by (rule built_handed [OF ok net(4) assms(3) net(2)])
  have fresh: "tp_used_receivers tp = {}" by (rule build_used [OF net(2,4)])
  let ?m = "\<lambda>c. let info = the (map_of (sc_block_info sc) (block_id c)) in
      \<lparr>em_coord = c, em_replicas = all_replicas vo info, em_global_id = the (map_of (bi_global_ids info) c), em_prev = topology_prev tp c, em_batch_mode = bi_batch_mode info\<rparr>"
  have known: "\<forall>c \<in> set (sc_block_init sc). \<exists>info g. map_of (sc_block_info sc) (block_id c) = Some info \<and> map_of (bi_global_ids info) c = Some g"
    using scheduled_replica [OF sched] by metis
  have fit: "\<forall>c \<in> set (sc_block_init sc). host_id c = h \<and> calls_fit h (set ?E) c (calls c)"
    unfolding inits E using assms(10) by (auto simp: host_coords_def split: if_splits)
  have dist: "distinct (sc_block_init sc)" unfolding inits by (rule host_coords_distinct [OF assms(5)])
  from init_workers_metadata [OF ok refl one, of "sc_block_init sc" "sc\<lparr>sc_network := tp\<rparr>" calls vo] known dist fit handed fresh obtain sc' where
    w: "init_workers vo (worker_setup calls) (sc_block_init sc) (sc\<lparr>sc_network := tp\<rparr>) = ret (map ?m (sc_block_init sc), sc')"
    and used: "tp_used_receivers (sc_network sc') = (\<Union>c \<in> set (sc_block_init sc). set (call_receivers c (calls c)))" by auto
  have each: "\<exists>b \<in> set (step_blocks ss). block_id c = bl_id b \<and> em_batch_mode (?m c) = bl_batch_mode b
       \<and> set (em_replicas (?m c)) = placed_coords (bl_id b) (counts_of config b) \<and> em_global_id (?m c) = global_index (counts_of config b) c"
    if c: "c \<in> set (sc_block_init sc)" for c
  proof (rule scheduled_replica [OF sched c])
    fix b info
    assume b: "b \<in> set (step_blocks ss)" "block_id c = bl_id b" "map_of (sc_block_info sc) (block_id c) = Some info" "info_ok config b info"
      "map_of (bi_global_ids info) c = Some (global_index (counts_of config b) c)"
    show ?thesis using b(1-3,5) info_ok_facts(2) [OF b(4)] all_replicas_order(1) [OF assms(2), of info] b(4)
      by (intro bexI [of _ b]) (simp_all add: info_ok_def)
  qed
  have coord: "em_coord (?m c) = c" "em_prev (?m c) = topology_prev tp c" for c by (simp_all add: Let_def)
  let ?sc' = "sc'\<lparr>sc_block_init := [], sc_network := topology_finalize (sc_network sc')\<rparr>"
  have "build_all ho vo to (worker_setup calls) sc = ret (map ?m (sc_block_init sc), ?sc')"
    using net(1,2) w by (simp add: build_all_def)
  then have start: "start_blocking ho vo to (worker_setup calls) n sc =
      (if n \<noteq> length (step_blocks ss) then panic AssertFailed else ret (map ?m (sc_block_init sc), ?sc'))"
    using len by (auto simp: start_blocking_def)
  have coords: "map em_coord (map ?m (sc_block_init sc)) = concat (map (host_coords config h) (step_blocks ss))"
    unfolding inits [symmetric] by (simp add: comp_def coord)
  have "tp_used_receivers (sc_network ?sc') = (\<Union>m \<in> set (map ?m (sc_block_init sc)). set (call_receivers (em_coord m) (calls (em_coord m))))"
    using used by (simp add: topology_finalize_def coord)
  moreover have "\<forall>m \<in> set (map ?m (sc_block_init sc)). \<exists>b \<in> set (step_blocks ss). block_id (em_coord m) = bl_id b \<and> em_batch_mode m = bl_batch_mode b
       \<and> set (em_replicas m) = placed_coords (bl_id b) (counts_of config b) \<and> em_global_id m = global_index (counts_of config b) (em_coord m)
       \<and> (\<forall>f ty. (f, ty) \<in> set (em_prev m) \<longleftrightarrow> (\<exists>fragile. (f, em_coord m, ty, fragile) \<in> graph_edges (sc_block_info sc) (sc_next_blocks sc)))"
    using each net(3) coord by auto
  ultimately show ?thesis using coords unfolding start by (simp only: if_True if_False not_False_eq_True split: if_split) blast
qed

section \<open>Witnesses\<close>

abbreviation example_job :: "job_step list" where
  "example_job \<equiv> [ScheduleBlock \<lparr>bl_id = 0, bl_batch_mode = Single, bl_only_one = False, bl_replication = Unlimited\<rparr>,
     ScheduleBlock \<lparr>bl_id = 1, bl_batch_mode = Single, bl_only_one = False, bl_replication = One\<rparr>, ConnectBlocks 0 1 7 False]"

abbreviation example_infos :: "(nat, block_info) hmap" where
  "example_infos \<equiv> [(0, \<lparr>bi_replicas = [(0, [Coord 0 0 0]), (1, [Coord 0 1 0])], bi_global_ids = [(Coord 0 0 0, 0), (Coord 0 1 0, 1)],
       bi_batch_mode = Single, bi_only_one = False\<rparr>),
     (1, \<lparr>bi_replicas = [(0, [Coord 1 0 0])], bi_global_ids = [(Coord 1 0 0, 0)], bi_batch_mode = Single, bi_only_one = False\<rparr>)]"

definition example_scheduler :: "nat \<Rightarrow> scheduler" where
  "example_scheduler h = \<lparr>sc_config = RemoteConfig (Some h) two_hosts, sc_next_blocks = [(0, [(1, 7, False)])], sc_prev_blocks = [(1, [(0, 7)])],
     sc_block_info = example_infos, sc_block_init = (if h = 0 then [Coord 0 0 0, Coord 1 0 0] else if h = 1 then [Coord 0 1 0] else []),
     sc_network = topology_new (RemoteConfig (Some h) two_hosts)\<rparr>"

lemma example_runs: "run_steps example_job (scheduler_new (RemoteConfig (Some h) two_hosts)) = ret (example_scheduler h)"
  by (simp add: scheduler_new_def schedule_block_def remote_block_info_def add_replicas_def add_replica_def push_entry_def info_replicas_def
      connect_blocks_def example_scheduler_def upt_rec)

lemma example_known: "blocks_known (sc_block_info (example_scheduler h)) (sc_next_blocks (example_scheduler h))"
  by (simp add: blocks_known_def example_scheduler_def)

lemma example_edges:
  "job_edges (\<lambda>m. m) (sc_block_info (example_scheduler h)) (sc_next_blocks (example_scheduler h)) =
     [(Coord 0 0 0, Coord 1 0 0, 7, False), (Coord 0 1 0, Coord 1 0 0, 7, False)]"
  by (simp add: job_edges_def block_edges_def all_replicas_def linked_def example_scheduler_def)

lemma example_ports: "enough_ports two_hosts (job_edges (\<lambda>m. m) (sc_block_info (example_scheduler h)) (sc_next_blocks (example_scheduler h)))"
proof -
  let ?D = "edges_demuxes [(Coord 0 0 0, Coord 1 0 0, 7, False), (Coord 0 1 0, Coord 1 0 0, 7, False)]"
  have D: "?D = {DemuxCoord (BlockCoord 1 0) 0}" by (auto simp: edges_demuxes_def demux_coord_new_def block_coord_of_def)
  have "card {d \<in> ?D. demux_host d = i} \<le> 1" for i
  proof -
    have "card {d \<in> ?D. demux_host d = i} \<le> card ?D" by (rule card_mono) (auto simp: edges_demuxes_def)
    then show ?thesis unfolding D by simp
  qed
  then have "card {d \<in> ?D. demux_host d = i} < 2 ^ 16 \<and> hc_base_port (two_hosts ! i) + card {d \<in> ?D. demux_host d = i} \<le> 2 ^ 16" if "i < 2" for i
  proof -
    have "hc_base_port (two_hosts ! i) \<le> 9600" using that by (auto simp: less_Suc_eq numeral_2_eq_2)
    moreover have "card {d \<in> ?D. demux_host d = i} \<le> 1" by fact
    moreover have "(2 :: nat) ^ 16 = 65536" by simp
    ultimately show ?thesis by linarith
  qed
  then show ?thesis unfolding example_edges enough_ports_def Let_def by (simp add: edges_coords_def numeral_2_eq_2)
qed

theorem replica_placement_witness:
  "\<exists>info. block_info_of (RemoteConfig (Some 1) two_hosts) \<lparr>bl_id = 3, bl_batch_mode = Single, bl_only_one = False, bl_replication = Limited 5\<rparr> = ret info
    \<and> info_replicas info 1 = [Coord 3 1 0] \<and> info_replicas info 2 = []"
proof -
  let ?b = "\<lparr>bl_id = 3, bl_batch_mode = Single, bl_only_one = False, bl_replication = Limited 5\<rparr>" and ?c = "RemoteConfig (Some 1) two_hosts"
  have "usable_config ?c 1" by (simp add: usable_config_def)
  from replica_placement [OF this, of ?b] show ?thesis by (auto simp: host_coords_def)
qed

theorem execution_graph_witness:
  "\<exists>sc'. build_execution_graph rev rev (example_scheduler 1) = ret sc'
    \<and> (Coord 0 1 0, 7) \<in> set (topology_prev (sc_network sc') (Coord 1 0 0)) \<and> topology_prev (sc_network sc') (Coord 0 0 0) = []"
proof -
  have "config_host_id (RemoteConfig (Some 1) two_hosts) = Some 1" "sc_network (example_scheduler 1) = topology_new (RemoteConfig (Some 1) two_hosts)"
    by (simp_all add: example_scheduler_def)
  from execution_graph [OF hash_order_rev hash_order_rev this example_known] obtain sc' where
    sc': "build_execution_graph rev rev (example_scheduler 1) = ret sc'"
      "\<forall>f t ty. (f, ty) \<in> set (topology_prev (sc_network sc') t) \<longleftrightarrow>
        (\<exists>fragile. (f, t, ty, fragile) \<in> graph_edges (sc_block_info (example_scheduler 1)) (sc_next_blocks (example_scheduler 1)))" by blast
  have "graph_edges (sc_block_info (example_scheduler 1)) (sc_next_blocks (example_scheduler 1)) =
      {(Coord 0 0 0, Coord 1 0 0, 7, False), (Coord 0 1 0, Coord 1 0 0, 7, False)}"
    unfolding job_edges_set [OF hash_order_id hash_order_id, symmetric] example_edges by simp
  then have "(Coord 0 1 0, 7) \<in> set (topology_prev (sc_network sc') (Coord 1 0 0))" "\<And>f ty. (f, ty) \<notin> set (topology_prev (sc_network sc') (Coord 0 0 0))"
    using sc'(2) by auto
  moreover from this(2) have "topology_prev (sc_network sc') (Coord 0 0 0) = []" by (metis list.set_intros(1) neq_Nil_conv prod.exhaust)
  ultimately show ?thesis using sc'(1) by blast
qed

theorem hosts_agree_witness:
  "\<exists>sc1' sc2' tp1 tp2. build_execution_graph (\<lambda>m. m) (\<lambda>m. m) (example_scheduler 0) = ret sc1' \<and> build_execution_graph rev rev (example_scheduler 1) = ret sc2'
    \<and> topology_build (\<lambda>m. m) (sc_network sc1') = ret tp1 \<and> topology_build rev (sc_network sc2') = ret tp2
    \<and> map_of (tp_addresses tp1) (DemuxCoord (BlockCoord 1 0) 0) = map_of (tp_addresses tp2) (DemuxCoord (BlockCoord 1 0) 0)"
proof -
  have "distinct (map bl_id (step_blocks example_job))" "two_hosts \<noteq> []" by simp_all
  from hosts_agree [OF hash_order_id hash_order_id hash_order_id hash_order_rev hash_order_rev hash_order_rev this example_runs [of 0] example_known example_ports, of 1]
  show ?thesis unfolding example_runs by auto
qed

text \<open>The first host sets up a replica that sends and one that receives.\<close>

definition example_calls :: "coord \<Rightarrow> setup_call list" where
  "example_calls c = (if block_id c = 0 then [GetSenders 7] else [GetReceiver 7 0])"

theorem workers_started_witness:
  "start_blocking rev (\<lambda>m. m) rev (worker_setup example_calls) 3 (example_scheduler 0) = panic AssertFailed
    \<and> (\<exists>ms sc'. start_blocking rev (\<lambda>m. m) rev (worker_setup example_calls) 2 (example_scheduler 0) = ret (ms, sc')
        \<and> map em_coord ms = [Coord 0 0 0, Coord 1 0 0]
        \<and> tp_used_receivers (sc_network sc') = {ReceiverEndpoint (Coord 1 0 0) 0})"
proof -
  let ?sc = "example_scheduler 0" and ?config = "RemoteConfig (Some 0) two_hosts"
  have config: "usable_config ?config 0" by (simp add: usable_config_def)
  have ids: "distinct (map bl_id (step_blocks example_job))" by simp
  have "set (job_edges (\<lambda>m. m) (sc_block_info ?sc) (rev (sc_next_blocks ?sc))) = set (job_edges (\<lambda>m. m) (sc_block_info ?sc) (sc_next_blocks ?sc))"
    by (simp add: job_edges_def)
  then have "enough_ports two_hosts (job_edges (\<lambda>m. m) (sc_block_info ?sc) (rev (sc_next_blocks ?sc)))"
    using example_ports [of 0] by (rule edges_set_cong(3) [THEN iffD2])
  then have ports: "ports_ok ?config (job_edges (\<lambda>m. m) (sc_block_info ?sc) (rev (sc_next_blocks ?sc)))"
    by (simp only: ports_ok_def runtime_config.inject) blast
  have E: "graph_edges (sc_block_info ?sc) (sc_next_blocks ?sc) = {(Coord 0 0 0, Coord 1 0 0, 7, False), (Coord 0 1 0, Coord 1 0 0, 7, False)}"
    unfolding job_edges_set [OF hash_order_id hash_order_id, symmetric] example_edges by simp
  then have one: "one_type (graph_edges (sc_block_info ?sc) (sc_next_blocks ?sc))" by (simp add: one_type_def)
  have coords: "concat (map (host_coords ?config 0) (step_blocks example_job)) = [Coord 0 0 0, Coord 1 0 0]" by (simp add: host_coords_def)
  have fit: "\<forall>b \<in> set (step_blocks example_job). \<forall>c \<in> set (host_coords ?config 0 b).
      calls_fit 0 (graph_edges (sc_block_info ?sc) (sc_next_blocks ?sc)) c (example_calls c)"
    unfolding E by (auto simp: host_coords_def example_calls_def calls_fit_def)
  note started = workers_started [OF hash_order_rev hash_order_id hash_order_rev config ids example_runs example_known ports one fit]
  have two: "length (step_blocks example_job) = 2" by simp
  from started [of 2] obtain ms sc' where
    run: "start_blocking rev (\<lambda>m. m) rev (worker_setup example_calls) 2 ?sc = ret (ms, sc')" "map em_coord ms = [Coord 0 0 0, Coord 1 0 0]"
      "tp_used_receivers (sc_network sc') = (\<Union>m \<in> set ms. set (call_receivers (em_coord m) (example_calls (em_coord m))))"
    unfolding two coords by auto
  have "(\<Union>m \<in> set ms. set (call_receivers (em_coord m) (example_calls (em_coord m)))) =
      (\<Union>c \<in> set (map em_coord ms). set (call_receivers c (example_calls c)))" by simp
  then have "tp_used_receivers (sc_network sc') = {ReceiverEndpoint (Coord 1 0 0) 0}" using run(3) unfolding run(2) by (simp add: example_calls_def)
  with run(1,2) started [of 3] show ?thesis unfolding two by auto
qed

end
