(* ===== verification/Iteration_Leader.thy ===== *)
theory Iteration_Leader
  imports Topology Start Batcher
begin

text \<open>
  The two ends of an iteration (\<^verbatim>\<open>src/operator/iteration/leader.rs\<close> and \<^verbatim>\<open>iteration_end.rs\<close>): every
  replica of the body sends one update per iteration to the leader, which folds them into the global
  state, decides whether to go on and tells the replicas. The user's \<^verbatim>\<open>global_fold\<close> and
  \<^verbatim>\<open>loop_condition\<close> are arguments: functions on the state, which both may change.
\<close>

section \<open>The leader\<close>

datatype iteration_result = Continue | Finished

definition from_condition :: "bool \<Rightarrow> iteration_result" where
  "from_condition should_continue = (if should_continue then Continue else Finished)"

type_synonym 'st state_feedback = "iteration_result \<times> 'st"

record 'st leader =
  ld_coord :: coord
  ld_iteration_index :: nat
  ld_max_iterations :: nat
  ld_state :: "'st option"
  ld_initial_state :: 'st
  ld_num_receivers :: nat
  ld_feedback_senders :: "receiver_endpoint list"
  ld_flush_and_restart :: bool

definition leader_new :: "'st \<Rightarrow> nat \<Rightarrow> 'st leader" where
  "leader_new initial_state num_iterations =
     \<lparr>ld_coord = Coord 0 0 0, ld_iteration_index = 0, ld_max_iterations = num_iterations,
      ld_state = Some initial_state, ld_initial_state = initial_state, ld_num_receivers = 0,
      ld_feedback_senders = [], ld_flush_and_restart = False\<rparr>"

text \<open>
  \<^verbatim>\<open>setup\<close>: the senders of the feedback come from the topology, the receiver of the updates is a
  \<^verbatim>\<open>Start\<close> whose own setup (\<open>rx_setup\<close>) returns it with the replicas it receives from.
\<close>

definition leader_setup :: "type_id \<Rightarrow> (topology \<Rightarrow> ('r \<times> coord list \<times> topology) res) \<Rightarrow> coord
    \<Rightarrow> topology \<Rightarrow> 'st leader \<Rightarrow> ('r \<times> 'st leader \<times> topology) res" where
  "leader_setup ty rx_setup coord tp ld =
     bindR (get_senders ty coord tp) (\<lambda>(senders, tp).
       bindR (rx_setup tp) (\<lambda>(rx, prev_replicas, tp).
         ret (rx, ld\<lparr>ld_coord := coord, ld_feedback_senders := map fst senders,
                     ld_num_receivers := length prev_replicas\<rparr>, tp)))"

text \<open>The loop of \<^verbatim>\<open>process_updates\<close>: \<open>missing\<close> is \<^verbatim>\<open>missing_state_updates\<close>.\<close>

partial_function (option) collect_updates :: "('st \<Rightarrow> 'u \<Rightarrow> 'st) \<Rightarrow> ('s, 'u) pull
    \<Rightarrow> nat \<times> 's \<times> 'st leader \<Rightarrow> ('st stream_element option \<times> 's \<times> 'st leader) res" where
  "collect_updates global_fold rx w =
     (case w of (missing, s, ld) \<Rightarrow>
        if 0 < missing then
          bindR (rx s) (\<lambda>(e, s).
            case e of
              Item state_update \<Rightarrow>
                bindR (unwrapR (ld_state ld)) (\<lambda>st.
                  collect_updates global_fold rx (missing - 1, s, ld\<lparr>ld_state := Some (global_fold st state_update)\<rparr>))
            | Terminate \<Rightarrow> ret (Some Terminate, s, ld)
            | FlushAndRestart \<Rightarrow> collect_updates global_fold rx (missing, s, ld)
            | FlushBatch \<Rightarrow> collect_updates global_fold rx (missing, s, ld)
            | _ \<Rightarrow> panic Unreachable)
        else ret (None, s, ld))"

definition process_updates :: "('st \<Rightarrow> 'u \<Rightarrow> 'st) \<Rightarrow> ('s, 'u) pull
    \<Rightarrow> 's \<times> 'st leader \<Rightarrow> ('st stream_element option \<times> 's \<times> 'st leader) res" where
  "process_updates global_fold rx w =
     (case w of (s, ld) \<Rightarrow> collect_updates global_fold rx (ld_num_receivers ld, s, ld))"

definition final_result :: "('st \<Rightarrow> bool \<times> 'st) \<Rightarrow> 'st leader \<Rightarrow> ('st option \<times> 'st leader) res" where
  "final_result loop_condition ld =
     bindR (unwrapR (ld_state ld)) (\<lambda>st.
       case loop_condition st of (cond, st) \<Rightarrow>
         let ld = ld\<lparr>ld_state := Some st\<rparr>;
             more_iterations = ld_iteration_index ld < ld_max_iterations ld;
             should_continue = cond \<and> more_iterations
         in if should_continue then ret (None, ld)
            else ret (ld_state ld, ld\<lparr>ld_state := Some (ld_initial_state ld)\<rparr>))"

fun send_feedback :: "coord \<Rightarrow> 'st state_feedback \<Rightarrow> receiver_endpoint list
    \<Rightarrow> 'st state_feedback network \<Rightarrow> 'st state_feedback network res" where
  "send_feedback coord fb [] net = ret net"
| "send_feedback coord fb (sender # senders) net =
     bindR (unwrapR (net_send net sender (new_single (Item fb) coord))) (send_feedback coord fb senders)"

partial_function (option) leader_loop :: "('st \<Rightarrow> 'u \<Rightarrow> 'st) \<Rightarrow> ('st \<Rightarrow> bool \<times> 'st) \<Rightarrow> ('s, 'u) pull
    \<Rightarrow> ('s \<times> 'st state_feedback network \<times> 'st leader, 'st) pull" where
  "leader_loop global_fold loop_condition rx w =
     (case w of (s, net, ld) \<Rightarrow>
        bindR (process_updates global_fold rx (s, ld)) (\<lambda>(r, s, ld).
          case r of
            Some value \<Rightarrow> ret (value, (s, net, ld))
          | None \<Rightarrow>
              bindR (final_result loop_condition (ld\<lparr>ld_iteration_index := ld_iteration_index ld + 1\<rparr>)) (\<lambda>(result, ld).
                bindR (unwrapR (ld_state ld)) (\<lambda>state.
                  bindR (send_feedback (ld_coord ld) (from_condition (result = None), state) (ld_feedback_senders ld) net) (\<lambda>net.
                    case result of
                      Some state \<Rightarrow> ret (Item state, (s, net, ld\<lparr>ld_flush_and_restart := True, ld_iteration_index := 0\<rparr>))
                    | None \<Rightarrow> leader_loop global_fold loop_condition rx (s, net, ld))))))"

definition leader_next :: "('st \<Rightarrow> 'u \<Rightarrow> 'st) \<Rightarrow> ('st \<Rightarrow> bool \<times> 'st) \<Rightarrow> ('s, 'u) pull
    \<Rightarrow> ('s \<times> 'st state_feedback network \<times> 'st leader, 'st) pull" where
  "leader_next global_fold loop_condition rx w =
     (case w of (s, net, ld) \<Rightarrow>
        if ld_flush_and_restart ld then ret (FlushAndRestart, (s, net, ld\<lparr>ld_flush_and_restart := False\<rparr>))
        else leader_loop global_fold loop_condition rx w)"

section \<open>The end of the body\<close>

record iteration_end =
  ie_has_received_item :: bool
  ie_leader_block_id :: nat
  ie_leader_sender :: "receiver_endpoint option"
  ie_coord :: coord

definition iteration_end_new :: "nat \<Rightarrow> iteration_end" where
  "iteration_end_new leader_block_id =
     \<lparr>ie_has_received_item = False, ie_leader_block_id = leader_block_id, ie_leader_sender = None,
      ie_coord = default_coord\<rparr>"

definition iteration_end_setup :: "(coord set \<Rightarrow> coord list) \<Rightarrow> type_id \<Rightarrow> coord \<Rightarrow> topology
    \<Rightarrow> iteration_end \<Rightarrow> (iteration_end \<times> topology) res" where
  "iteration_end_setup so ty coord tp ie =
     (let replicas = topology_replicas so tp (ie_leader_block_id ie) in
      assertR (length replicas = 1)
        (let endpoint = ReceiverEndpoint (hd replicas) (block_id coord) in
         bindR (get_sender ty endpoint tp) (\<lambda>(_, tp).
           ret (ie\<lparr>ie_leader_sender := Some endpoint, ie_coord := coord\<rparr>, tp))))"

definition send_update :: "'u stream_element \<Rightarrow> iteration_end \<Rightarrow> 'u network \<Rightarrow> 'u network res" where
  "send_update e ie net =
     bindR (unwrapR (ie_leader_sender ie)) (\<lambda>sender. unwrapR (net_send net sender (new_single e (ie_coord ie))))"

definition iteration_end_next :: "'u \<Rightarrow> ('s, 'u) pull \<Rightarrow> ('s \<times> 'u network \<times> iteration_end, unit) pull" where
  "iteration_end_next dflt p w =
     (case w of (s, net, ie) \<Rightarrow>
        bindR (p s) (\<lambda>(elem, s).
          case elem of
            Item _ \<Rightarrow>
              bindR (send_update elem ie net) (\<lambda>net. ret (Item (), (s, net, ie\<lparr>ie_has_received_item := True\<rparr>)))
          | FlushAndRestart \<Rightarrow>
              bindR (if \<not> ie_has_received_item ie then send_update (Item dflt) ie net else ret net) (\<lambda>net.
                ret (FlushAndRestart, (s, net, ie\<lparr>ie_has_received_item := False\<rparr>)))
          | Terminate \<Rightarrow> bindR (send_update Terminate ie net) (\<lambda>net. ret (Terminate, (s, net, ie)))
          | FlushBatch \<Rightarrow> ret (FlushBatch, (s, net, ie))
          | _ \<Rightarrow> panic Unreachable))"

section \<open>What the leader computes\<close>

text \<open>
  The reference: the updates of the rounds folded into the state, with the condition asked after every
  round. It returns the feedback of every round, the final state and the rounds not used.
\<close>

fun iterate_state :: "('st \<Rightarrow> 'u \<Rightarrow> 'st) \<Rightarrow> ('st \<Rightarrow> bool \<times> 'st) \<Rightarrow> nat \<Rightarrow> 'st \<Rightarrow> nat \<Rightarrow> 'st \<Rightarrow> 'u list list
    \<Rightarrow> ('st state_feedback list \<times> 'st \<times> 'u list list) option" where
  "iterate_state gf lc mx init i st [] = None"
| "iterate_state gf lc mx init i st (us # rounds) =
     (case lc (foldl gf st us) of (cond, st') \<Rightarrow>
        if cond \<and> Suc i < mx
        then (case iterate_state gf lc mx init (Suc i) st' rounds of
                None \<Rightarrow> None
              | Some (fbs, fin, rest) \<Rightarrow> Some ((Continue, st') # fbs, fin, rest))
        else Some ([(Finished, init)], st', rounds))"

text \<open>One round of updates as the receiver returns it: \<open>n\<close> updates, the last of them at the end.\<close>

fun update_elem :: "'u stream_element \<Rightarrow> bool" where
  "update_elem (Item _) = True"
| "update_elem FlushAndRestart = True"
| "update_elem FlushBatch = True"
| "update_elem _ = False"

fun is_item :: "'u stream_element \<Rightarrow> bool" where
  "is_item (Item _) = True"
| "is_item _ = False"

definition update_round :: "nat \<Rightarrow> 'u stream_element list \<Rightarrow> bool" where
  "update_round n es \<longleftrightarrow> list_all update_elem es \<and> length (elem_values es) = n \<and> (es \<noteq> [] \<longrightarrow> is_item (last es))"

lemma update_round_ConsE:
  assumes "update_round n (e # es)"
  obtains (item) u m where "e = Item u" "n = Suc m" "update_round m es"
  | (skip) "e = FlushAndRestart \<or> e = FlushBatch" "0 < n" "update_round n es"
proof -
  have some: "is_item (last es) \<Longrightarrow> es \<noteq> [] \<Longrightarrow> 0 < length (elem_values es)"
    by (cases es rule: rev_cases; cases "last es") auto
  show thesis
    using assms some by (cases e) (auto simp: update_round_def split: if_splits intro: item skip)
qed

lemma collect_updates_round:
  assumes "pulls rx s es s1" and "update_round missing es" and "ld_state ld = Some st"
  shows "collect_updates gf rx (missing, s, ld) = ret (None, s1, ld\<lparr>ld_state := Some (foldl gf st (elem_values es))\<rparr>)"
  using assms
proof (induction es arbitrary: s missing ld st)
  case Nil
  then show ?case
    by (subst collect_updates.simps) (auto simp: update_round_def)
next
  case (Cons e es)
  from Cons.prems(1) obtain s2 where "rx s = ret (e, s2)" and "pulls rx s2 es s1"
    by (auto simp: pulls_Cons_iff)
  with Cons.prems(2) show ?case
  proof (cases rule: update_round_ConsE)
    case (item u m)
    let ?ld = "ld\<lparr>ld_state := Some (gf st u)\<rparr>"
    from Cons.IH [OF \<open>pulls rx s2 es s1\<close> item(3), of ?ld "gf st u"]
    show ?thesis using item \<open>rx s = ret (e, s2)\<close> Cons.prems(3)
      by (subst collect_updates.simps) simp
  next
    case skip
    from Cons.IH [OF \<open>pulls rx s2 es s1\<close> skip(3) Cons.prems(3)]
    show ?thesis using skip \<open>rx s = ret (e, s2)\<close>
      by (subst collect_updates.simps) auto
  qed
qed

definition feedback_messages :: "coord \<Rightarrow> 'st state_feedback list \<Rightarrow> 'st state_feedback network_message list" where
  "feedback_messages coord fbs = map (\<lambda>fb. new_single (Item fb) coord) fbs"

definition broadcast :: "coord \<Rightarrow> receiver_endpoint set \<Rightarrow> 'st state_feedback list
    \<Rightarrow> 'st state_feedback network \<Rightarrow> 'st state_feedback network" where
  "broadcast coord eps fbs net =
     net\<lparr>nt_queue := (\<lambda>ep. nt_queue net ep @ (if ep \<in> eps then feedback_messages coord fbs else []))\<rparr>"

lemma broadcast_open [simp]: "nt_open (broadcast coord eps fbs net) = nt_open net"
  by (simp add: broadcast_def)

lemma broadcast_append: "broadcast coord eps fbs (broadcast coord eps gbs net) = broadcast coord eps (gbs @ fbs) net"
  by (simp add: broadcast_def feedback_messages_def fun_eq_iff)

lemma send_feedback_all:
  assumes "distinct eps" and "list_all (nt_open net) eps"
  shows "send_feedback coord fb eps net = ret (broadcast coord (set eps) [fb] net)"
  using assms
proof (induction eps arbitrary: net)
  case Nil
  then show ?case by (simp add: broadcast_def)
next
  case (Cons ep eps)
  let ?net = "net\<lparr>nt_queue := (nt_queue net)(ep := nt_queue net ep @ [new_single (Item fb) coord])\<rparr>"
  from Cons.IH [of ?net] Cons.prems have "send_feedback coord fb eps ?net = ret (broadcast coord (set eps) [fb] ?net)" by simp
  moreover have "broadcast coord (set eps) [fb] ?net = broadcast coord (set (ep # eps)) [fb] net"
    using Cons.prems(1) by (auto simp: broadcast_def feedback_messages_def fun_eq_iff)
  ultimately show ?case using Cons.prems(2) by (simp add: net_send_open)
qed

text \<open>The leader between two iterations of the outer stream.\<close>

definition leader_idle :: "'st leader \<Rightarrow> bool" where
  "leader_idle ld \<longleftrightarrow> ld_state ld = Some (ld_initial_state ld) \<and> ld_iteration_index ld = 0
     \<and> \<not> ld_flush_and_restart ld \<and> distinct (ld_feedback_senders ld)"

lemma leader_loop_round:
  assumes "pulls rx s es s1" and "update_round (ld_num_receivers ld) es" and "ld_state ld = Some st"
    and "distinct (ld_feedback_senders ld)" and "list_all (nt_open net) (ld_feedback_senders ld)"
    and "lc (foldl gf st (elem_values es)) = (cond, st')"
  shows "leader_loop gf lc rx (s, net, ld) =
     (if cond \<and> Suc (ld_iteration_index ld) < ld_max_iterations ld
      then leader_loop gf lc rx (s1, broadcast (ld_coord ld) (set (ld_feedback_senders ld)) [(Continue, st')] net,
             ld\<lparr>ld_iteration_index := Suc (ld_iteration_index ld), ld_state := Some st'\<rparr>)
      else ret (Item st', (s1, broadcast (ld_coord ld) (set (ld_feedback_senders ld)) [(Finished, ld_initial_state ld)] net,
             ld\<lparr>ld_state := Some (ld_initial_state ld), ld_flush_and_restart := True, ld_iteration_index := 0\<rparr>)))"
  using assms(3-) send_feedback_all [OF assms(4,5)]
  by (subst leader_loop.simps)
    (simp add: process_updates_def collect_updates_round [OF assms(1-3)] final_result_def from_condition_def Let_def)

lemma leader_loop_rounds:
  assumes "pulls rx s (concat rounds) s'" and "list_all (update_round (ld_num_receivers ld)) rounds"
    and "ld_state ld = Some st" and "distinct (ld_feedback_senders ld)"
    and "list_all (nt_open net) (ld_feedback_senders ld)"
    and "rounds \<noteq> []" and "ld_max_iterations ld \<le> ld_iteration_index ld + length rounds"
  shows "\<exists>fbs fin s1. 1 \<le> length fbs \<and> length fbs \<le> max 1 (ld_max_iterations ld - ld_iteration_index ld)
     \<and> iterate_state gf lc (ld_max_iterations ld) (ld_initial_state ld) (ld_iteration_index ld) st (map elem_values rounds)
         = Some (fbs, fin, map elem_values (drop (length fbs) rounds))
     \<and> pulls rx s (concat (take (length fbs) rounds)) s1
     \<and> leader_loop gf lc rx (s, net, ld) = ret (Item fin, (s1,
         broadcast (ld_coord ld) (set (ld_feedback_senders ld)) fbs net,
         ld\<lparr>ld_state := Some (ld_initial_state ld), ld_flush_and_restart := True, ld_iteration_index := 0\<rparr>))"
  using assms
proof (induction rounds arbitrary: s st net ld)
  case (Cons es rounds)
  from Cons.prems(1) obtain s1 where s1: "pulls rx s es s1" "pulls rx s1 (concat rounds) s'"
    by (auto simp: pulls_append)
  obtain cond st' where lc: "lc (foldl gf st (elem_values es)) = (cond, st')" by fastforce
  from Cons.prems(2) have round: "update_round (ld_num_receivers ld) es" by simp
  note loop = leader_loop_round [where lc = lc and gf = gf, OF s1(1) round Cons.prems(3-5) lc]
  show ?case
  proof (cases "cond \<and> Suc (ld_iteration_index ld) < ld_max_iterations ld")
    case False
    with loop lc s1 show ?thesis
      by (intro exI [of _ "[(Finished, ld_initial_state ld)]"] exI [of _ st'] exI [of _ s1]) auto
  next
    case True
    let ?ld = "ld\<lparr>ld_iteration_index := Suc (ld_iteration_index ld), ld_state := Some st'\<rparr>"
    let ?net = "broadcast (ld_coord ld) (set (ld_feedback_senders ld)) [(Continue, st')] net"
    from True Cons.prems have "rounds \<noteq> []" by auto
    with Cons.IH [of s1 ?ld st' ?net] s1 Cons.prems obtain fbs fin s2 where
      k: "1 \<le> length fbs" "length fbs \<le> max 1 (ld_max_iterations ld - Suc (ld_iteration_index ld))"
      and spec: "iterate_state gf lc (ld_max_iterations ld) (ld_initial_state ld) (Suc (ld_iteration_index ld)) st' (map elem_values rounds)
         = Some (fbs, fin, map elem_values (drop (length fbs) rounds))"
      and s2: "pulls rx s1 (concat (take (length fbs) rounds)) s2"
      and run: "leader_loop gf lc rx (s1, ?net, ?ld) = ret (Item fin, (s2,
         broadcast (ld_coord ld) (set (ld_feedback_senders ld)) fbs ?net,
         ?ld\<lparr>ld_state := Some (ld_initial_state ld), ld_flush_and_restart := True, ld_iteration_index := 0\<rparr>))"
      by auto
    have "pulls rx s (concat (take (length ((Continue, st') # fbs)) (es # rounds))) s2" using s1(1) s2 by (auto intro: pulls_appendI)
    with k spec run loop True lc show ?thesis
      by (intro exI [of _ "(Continue, st') # fbs"] exI [of _ fin] exI [of _ s2])
        (auto simp: broadcast_append)
  qed
qed simp

text \<open>
  C24: The leader of an iteration always ends it. Fed with rounds of one update per replica, it asks the
  loop condition after every round and, after between one and \<^verbatim>\<open>max_iterations\<close> rounds (one if that is
  zero), returns the folded state followed by \<^verbatim>\<open>FlushAndRestart\<close>; every replica of the loop has
  then received, in order, one answer per round, the last of them \<^verbatim>\<open>Finished\<close> with the
  initial state, and the leader is ready for the next run of the loop.
\<close>

theorem leader_terminates:
  assumes "leader_idle ld" and "list_all (nt_open net) (ld_feedback_senders ld)"
    and "list_all (update_round (ld_num_receivers ld)) rounds" and "max 1 (ld_max_iterations ld) \<le> length rounds"
    and "pulls rx s (concat rounds) s'"
  shows "\<exists>fbs fin s1. 1 \<le> length fbs \<and> length fbs \<le> max 1 (ld_max_iterations ld)
     \<and> iterate_state gf lc (ld_max_iterations ld) (ld_initial_state ld) 0 (ld_initial_state ld) (map elem_values rounds)
         = Some (fbs, fin, map elem_values (drop (length fbs) rounds))
     \<and> pulls rx s (concat (take (length fbs) rounds)) s1
     \<and> pulls (leader_next gf lc rx) (s, net, ld) [Item fin, FlushAndRestart]
         (s1, broadcast (ld_coord ld) (set (ld_feedback_senders ld)) fbs net, ld)"
proof -
  from assms(1) have ld: "ld_state ld = Some (ld_initial_state ld)" "ld_iteration_index ld = 0"
    "\<not> ld_flush_and_restart ld" "distinct (ld_feedback_senders ld)"
    by (auto simp: leader_idle_def)
  from assms(4) have "rounds \<noteq> []" and "ld_max_iterations ld \<le> ld_iteration_index ld + length rounds" by auto
  from leader_loop_rounds [where lc = lc and gf = gf, OF assms(5,3) ld(1,4) assms(2) this] ld
  obtain fbs fin s1 where k: "1 \<le> length fbs" "length fbs \<le> max 1 (ld_max_iterations ld)"
    and spec: "iterate_state gf lc (ld_max_iterations ld) (ld_initial_state ld) 0 (ld_initial_state ld) (map elem_values rounds)
         = Some (fbs, fin, map elem_values (drop (length fbs) rounds))"
    and s1: "pulls rx s (concat (take (length fbs) rounds)) s1"
    and run: "leader_loop gf lc rx (s, net, ld) = ret (Item fin, (s1,
         broadcast (ld_coord ld) (set (ld_feedback_senders ld)) fbs net,
         ld\<lparr>ld_state := Some (ld_initial_state ld), ld_flush_and_restart := True, ld_iteration_index := 0\<rparr>))"
    by auto
  have "ld\<lparr>ld_state := Some (ld_initial_state ld), ld_flush_and_restart := False, ld_iteration_index := 0\<rparr> = ld"
    using ld by (cases ld) simp
  then have "pulls (leader_next gf lc rx) (s, net, ld) [Item fin, FlushAndRestart]
         (s1, broadcast (ld_coord ld) (set (ld_feedback_senders ld)) fbs net, ld)"
    using ld run by (simp add: pulls_Cons_iff leader_next_def)
  with k spec s1 show ?thesis
    by (intro exI [of _ fbs] exI [of _ fin] exI [of _ s1]) simp
qed

theorem leader_terminates_witness:
  "\<exists>s1. pulls (leader_next (+) (\<lambda>st. (True, st)) fake_next)
       ([Item 1, FlushBatch, Item 2, Item 3, Item (4::nat)], \<lparr>nt_queue = (\<lambda>_. []), nt_open = (\<lambda>_. True)\<rparr>,
        (leader_new 0 2)\<lparr>ld_num_receivers := 2, ld_feedback_senders := [ReceiverEndpoint (Coord 1 0 0) 2, ReceiverEndpoint (Coord 1 0 1) 2]\<rparr>)
       [Item 10, FlushAndRestart] s1"
  using leader_terminates [of "(leader_new (0::nat) 2)\<lparr>ld_num_receivers := 2, ld_feedback_senders := [ReceiverEndpoint (Coord 1 0 0) 2, ReceiverEndpoint (Coord 1 0 1) 2]\<rparr>"
      "\<lparr>nt_queue = (\<lambda>_. []), nt_open = (\<lambda>_. True)\<rparr>" "[[Item 1, FlushBatch, Item 2], [Item 3, Item 4]]"
      fake_next "[Item 1, FlushBatch, Item 2, Item 3, Item 4]" "[]" "(+)" "\<lambda>st. (True, st)"]
  by (auto simp: leader_idle_def leader_new_def update_round_def pulls_Cons_iff)

section \<open>What the end of the body sends\<close>

definition pushed :: "receiver_endpoint \<Rightarrow> coord \<Rightarrow> 'u stream_element list \<Rightarrow> 'u network \<Rightarrow> 'u network" where
  "pushed ep coord es net =
     net\<lparr>nt_queue := (nt_queue net)(ep := nt_queue net ep @ map (\<lambda>e. new_single e coord) es)\<rparr>"

lemma pushed_simps [simp]:
  "nt_open (pushed ep coord es net) = nt_open net"
  "pushed ep coord es (pushed ep coord ds net) = pushed ep coord (ds @ es) net"
  "pushed ep coord [] net = net"
  by (auto simp: pushed_def)

lemma send_update_pushed:
  "ie_leader_sender ie = Some ep \<Longrightarrow> nt_open net ep \<Longrightarrow> send_update e ie net = ret (pushed ep (ie_coord ie) [e] net)"
  by (simp add: send_update_def net_send_open pushed_def)

fun end_elem :: "'u stream_element \<Rightarrow> bool" where
  "end_elem (Item _) = True"
| "end_elem FlushBatch = True"
| "end_elem _ = False"

definition updates_of :: "'u \<Rightarrow> 'u stream_element list \<Rightarrow> 'u list" where
  "updates_of dflt seg = (if elem_values seg = [] then [dflt] else elem_values seg)"

lemma iteration_end_data:
  assumes "pulls p s seg s1" and "list_all end_elem seg"
    and "ie_leader_sender ie = Some ep" and "nt_open net ep"
  shows "pulls (iteration_end_next dflt p) (s, net, ie) (map (elem_map (\<lambda>_. ())) seg)
     (s1, pushed ep (ie_coord ie) (map Item (elem_values seg)) net,
      ie\<lparr>ie_has_received_item := ie_has_received_item ie \<or> elem_values seg \<noteq> []\<rparr>)"
  using assms
proof (induction seg arbitrary: s net ie)
  case (Cons e seg)
  then obtain s2 where e: "p s = ret (e, s2)" and rest: "pulls p s2 seg s1" by (auto simp: pulls_Cons_iff)
  from Cons.prems(2) consider (item) u where "e = Item u" | (flush) "e = FlushBatch" by (cases e) auto
  then show ?case
  proof cases
    case item
    with Cons.IH [OF rest, of "ie\<lparr>ie_has_received_item := True\<rparr>" "pushed ep (ie_coord ie) [e] net"] e Cons.prems show ?thesis
      by (simp add: pulls_Cons_iff iteration_end_next_def send_update_pushed)
  next
    case flush
    with Cons.IH [OF rest, of ie net] e Cons.prems show ?thesis
      by (simp add: pulls_Cons_iff iteration_end_next_def)
  qed
qed simp

lemma iteration_end_segment:
  assumes "pulls p s (seg @ [FlushAndRestart]) s1" and "list_all end_elem seg"
    and "ie_leader_sender ie = Some ep" and "nt_open net ep" and "\<not> ie_has_received_item ie"
  shows "pulls (iteration_end_next dflt p) (s, net, ie) (map (elem_map (\<lambda>_. ())) (seg @ [FlushAndRestart]))
     (s1, pushed ep (ie_coord ie) (map Item (updates_of dflt seg)) net, ie)"
proof -
  from assms(1) obtain s2 where seg: "pulls p s seg s2" and "p s2 = ret (FlushAndRestart, s1)"
    by (auto simp: pulls_append)
  moreover have "ie\<lparr>ie_has_received_item := False\<rparr> = ie" using assms(5) by (cases ie) simp
  ultimately show ?thesis
    using iteration_end_data [OF seg assms(2-4), of dflt] assms(3-5)
    by (auto simp: pulls_append iteration_end_next_def send_update_pushed updates_of_def
        intro!: exI [of _ s2] exI [of _ "pushed ep (ie_coord ie) (map Item (elem_values seg)) net"] split: if_splits)
qed

text \<open>
  At the end of the body of an iteration, every iteration of a well-formed stream sends the leader
  the updates of that iteration, or the default update when there are none, so that a replica whose
  local fold gives at most one update sends exactly one per iteration; the end of the stream sends
  \<^verbatim>\<open>Terminate\<close>. Nothing else is sent, and the elements themselves pass without their payload.
\<close>

theorem iteration_end_updates:
  assumes "wf_stream es" and "pulls p s es s'" and "\<forall>seg \<in> set (iterations es). list_all end_elem seg"
    and "ie_leader_sender ie = Some ep" and "nt_open net ep" and "\<not> ie_has_received_item ie"
  shows "pulls (iteration_end_next dflt p) (s, net, ie) (map (elem_map (\<lambda>_. ())) es)
     (s', pushed ep (ie_coord ie) (map Item (concat (map (updates_of dflt) (iterations es))) @ [Terminate]) net, ie)"
proof -
  have "pulls (iteration_end_next dflt p) (s, net, ie) (map (elem_map (\<lambda>_. ())) (unsegment segs))
     (s', pushed ep (ie_coord ie) (map Item (concat (map (updates_of dflt) segs)) @ [Terminate]) net, ie)"
    if "pulls p s (unsegment segs) s'" and "\<forall>seg \<in> set segs. list_all end_elem seg" and "nt_open net ep" for segs s net
    using that
  proof (induction segs arbitrary: s net)
    case Nil
    with assms(4) show ?case by (simp add: unsegment_def iteration_end_next_def send_update_pushed)
  next
    case (Cons seg segs)
    then obtain s1 where seg: "pulls p s (seg @ [FlushAndRestart]) s1" and rest: "pulls p s1 (unsegment segs) s'"
      by (auto simp: unsegment_Cons pulls_append simp del: append_assoc)
    let ?net = "pushed ep (ie_coord ie) (map Item (updates_of dflt seg)) net"
    from Cons.prems have "list_all end_elem seg" by simp
    from pulls_appendI [OF iteration_end_segment [OF seg this assms(4) Cons.prems(3) assms(6)] Cons.IH [OF rest, of ?net]] Cons.prems
    show ?case by (simp add: unsegment_Cons)
  qed
  from this [of s "iterations es" net] assms wf_stream_unsegment(1) [OF assms(1)] show ?thesis by simp
qed

theorem iteration_end_updates_witness:
  "pulls (iteration_end_next 0 fake_next)
     ([FlushBatch, Item (5::nat), FlushAndRestart, FlushAndRestart, Terminate], \<lparr>nt_queue = (\<lambda>_. []), nt_open = (\<lambda>_. True)\<rparr>,
      (iteration_end_new 7)\<lparr>ie_leader_sender := Some (ReceiverEndpoint (Coord 7 0 0) 3)\<rparr>)
     [FlushBatch, Item (), FlushAndRestart, FlushAndRestart, Terminate]
     ([], pushed (ReceiverEndpoint (Coord 7 0 0) 3) default_coord [Item 5, Item 0, Terminate] \<lparr>nt_queue = (\<lambda>_. []), nt_open = (\<lambda>_. True)\<rparr>,
      (iteration_end_new 7)\<lparr>ie_leader_sender := Some (ReceiverEndpoint (Coord 7 0 0) 3)\<rparr>)"
  using iteration_end_updates [of "[FlushBatch, Item (5::nat), FlushAndRestart, FlushAndRestart, Terminate]" fake_next
      "[FlushBatch, Item (5::nat), FlushAndRestart, FlushAndRestart, Terminate]" "[]"
      "(iteration_end_new 7)\<lparr>ie_leader_sender := Some (ReceiverEndpoint (Coord 7 0 0) 3)\<rparr>"
      "ReceiverEndpoint (Coord 7 0 0) 3" "\<lparr>nt_queue = (\<lambda>_. []), nt_open = (\<lambda>_. True)\<rparr>" 0]
  by (simp add: iterations_def iteration_end_new_def updates_of_def pulls_Cons_iff wf_stream_def)

end
