(* ===== verification/Iteration_State.thy ===== *)
theory Iteration_State
  imports Iteration_Leader
begin

text \<open>
  The state of an iteration on a host (\<^verbatim>\<open>src/operator/iteration/mod.rs\<close> and \<^verbatim>\<open>state_handler.rs\<close>): a cell all
  the replicas of the host read without a lock, the generation lock that keeps the operators of the body
  away from it between two rounds, and the barrier after which the replicas start again. The threads of
  all the hosts are a step relation whose steps are the atomic actions of the code; over it, an unlock
  never panics, no operator reads the cell while it is written, and the rounds go on for ever.
\<close>

section \<open>The lock, the cell and the handler\<close>

record 'st host_state =
  hs_state :: 'st
  hs_generation :: nat
  hs_barrier_count :: nat
  hs_barrier_generation :: nat

definition host_state_new :: "'st \<Rightarrow> 'st host_state" where
  "host_state_new init = \<lparr>hs_state = init, hs_generation = 0, hs_barrier_count = 0, hs_barrier_generation = 0\<rparr>"

definition state_set :: "'st \<Rightarrow> 'st host_state \<Rightarrow> 'st host_state" where
  "state_set new_state h = h\<lparr>hs_state := new_state\<rparr>"

definition state_get :: "'st host_state \<Rightarrow> 'st" where
  "state_get h = hs_state h"

definition state_lock :: "'st host_state \<Rightarrow> 'st host_state" where
  "state_lock h = (if hs_generation h mod 2 = 0 then h\<lparr>hs_generation := hs_generation h + 1\<rparr> else h)"

definition state_unlock :: "'st host_state \<Rightarrow> 'st host_state res" where
  "state_unlock h = assertR (hs_generation h mod 2 = 1) (ret (h\<lparr>hs_generation := hs_generation h + 1\<rparr>))"

text \<open>\<^verbatim>\<open>wait_for_update\<close> blocks (\<open>None\<close>) while the generation is lower than the requested one.\<close>

definition wait_for_update :: "'st host_state \<Rightarrow> nat \<Rightarrow> unit res" where
  "wait_for_update h generation = (if hs_generation h < generation then None else ret ())"

text \<open>
  The standard library's \<^verbatim>\<open>Barrier\<close> for \<open>n\<close> threads: the last one to arrive opens it for all by moving to the
  next generation; the others wait until the generation they saw has passed.
\<close>

definition barrier_arrive :: "nat \<Rightarrow> 'st host_state \<Rightarrow> nat option \<times> 'st host_state" where
  "barrier_arrive n h =
     (if hs_barrier_count h + 1 < n then (Some (hs_barrier_generation h), h\<lparr>hs_barrier_count := hs_barrier_count h + 1\<rparr>)
      else (None, h\<lparr>hs_barrier_count := 0, hs_barrier_generation := hs_barrier_generation h + 1\<rparr>))"

definition select_leader :: "coord list \<Rightarrow> coord res" where
  "select_leader replicas = (if replicas = [] then panic UnwrapNone else ret (Min (set replicas)))"

record 'r state_handler =
  sh_coord :: coord
  sh_new_state_receiver :: "'r option"
  sh_leader_block_id :: nat
  sh_is_local_leader :: bool
  sh_num_local_replicas :: nat

definition handler_new :: "nat \<Rightarrow> 'r state_handler" where
  "handler_new leader_block_id =
     \<lparr>sh_coord = default_coord, sh_new_state_receiver = None, sh_leader_block_id = leader_block_id,
      sh_is_local_leader = False, sh_num_local_replicas = 0\<rparr>"

definition local_replicas :: "coord list \<Rightarrow> nat \<Rightarrow> coord list" where
  "local_replicas replicas h = filter (\<lambda>r. host_id r = h) replicas"

definition handler_setup :: "type_id \<Rightarrow> coord \<Rightarrow> coord list \<Rightarrow> topology
    \<Rightarrow> receiver_endpoint state_handler \<Rightarrow> (receiver_endpoint state_handler \<times> topology) res" where
  "handler_setup ty coord replicas tp sh =
     (let locals = local_replicas replicas (host_id coord) in
      bindR (select_leader locals) (\<lambda>leader.
        bindR (get_receiver ty (ReceiverEndpoint coord (sh_leader_block_id sh)) tp) (\<lambda>(receiver, tp).
          ret (sh\<lparr>sh_is_local_leader := leader = coord, sh_num_local_replicas := length locals,
                  sh_coord := coord, sh_new_state_receiver := Some receiver\<rparr>, tp))))"

text \<open>
  \<^verbatim>\<open>wait_sync_state\<close> as one thread runs it: \<open>barrier_wait\<close> is the call that blocks on the barrier, during which
  the other threads of the host may act on the shared state.
\<close>

definition wait_sync_state :: "(nat \<Rightarrow> 'st host_state \<Rightarrow> 'st host_state res) \<Rightarrow> 'st state_feedback
    \<Rightarrow> 'r state_handler \<Rightarrow> 'st host_state \<Rightarrow> (iteration_result \<times> 'st host_state) res" where
  "wait_sync_state barrier_wait state_update sh h =
     (case state_update of (should_continue, new_state) \<Rightarrow>
        let h = (if sh_is_local_leader sh then state_set new_state h else h) in
        bindR (barrier_wait (sh_num_local_replicas sh) h) (\<lambda>h.
          bindR (if sh_is_local_leader sh then state_unlock h else ret h) (\<lambda>h.
            ret (should_continue, h))))"

section \<open>All the threads together\<close>

text \<open>
  A replica of the block that starts the loop iterates until it has sent \<^verbatim>\<open>FlushAndRestart\<close>, waits for the
  leader's answer, holds it, has stored it (if it is the local leader), waits at the barrier it saw in the
  given generation, and has passed it.
\<close>

datatype 'st phase = Iterating | Waiting | Updating "'st state_feedback" | Ready | AtBarrier nat | Released

text \<open>
  The whole iteration: the hosts, the replicas of the starting block, the operators of the body that
  read from another block (their \<^verbatim>\<open>Start\<close> waits for the generation \<open>2 * ended\<close>, its \<^verbatim>\<open>state_generation\<close>),
  and what the leader has sent. \<open>it_ended\<close> counts the rounds whose \<^verbatim>\<open>FlushAndRestart\<close> a replica or an
  operator has passed on; \<open>it_states\<close> are the initial state and the states sent since.
\<close>

record 'st iteration =
  it_host :: "nat \<Rightarrow> 'st host_state"
  it_phase :: "coord \<Rightarrow> 'st phase"
  it_inbox :: "coord \<Rightarrow> 'st state_feedback list"
  it_ended :: "coord \<Rightarrow> nat"
  it_working :: "coord \<Rightarrow> bool"
  it_states :: "'st list"

definition iteration_new :: "'st \<Rightarrow> 'st iteration" where
  "iteration_new init =
     \<lparr>it_host = (\<lambda>_. host_state_new init), it_phase = (\<lambda>_. Iterating), it_inbox = (\<lambda>_. []),
      it_ended = (\<lambda>_. 0), it_working = (\<lambda>_. False), it_states = [init]\<rparr>"

definition local_leader :: "coord list \<Rightarrow> nat \<Rightarrow> coord" where
  "local_leader rs h = Min (set (local_replicas rs h))"

definition set_host :: "nat \<Rightarrow> 'st host_state \<Rightarrow> 'st iteration \<Rightarrow> 'st iteration" where
  "set_host h x it = it\<lparr>it_host := (it_host it)(h := x)\<rparr>"

definition set_phase :: "coord \<Rightarrow> 'st phase \<Rightarrow> 'st iteration \<Rightarrow> 'st iteration" where
  "set_phase c x it = it\<lparr>it_phase := (it_phase it)(c := x)\<rparr>"

text \<open>\<open>rs\<close>: the replicas of the starting block; \<open>bs\<close>: the operators of the body; \<open>ups b\<close>: who sends to \<open>b\<close>.\<close>

inductive iteration_step :: "coord list \<Rightarrow> coord list \<Rightarrow> (coord \<Rightarrow> coord list) \<Rightarrow> 'st iteration \<Rightarrow> 'st iteration \<Rightarrow> bool"
  for rs bs :: "coord list" and ups :: "coord \<Rightarrow> coord list" where
  end_round: "c \<in> set rs \<Longrightarrow> it_phase it c = Iterating \<Longrightarrow>
     iteration_step rs bs ups it
       (set_phase c Waiting (set_host (host_id c) (state_lock (it_host it (host_id c))) it)
          \<lparr>it_ended := (it_ended it)(c := it_ended it c + 1)\<rparr>)"
| receive: "c \<in> set rs \<Longrightarrow> it_phase it c = Waiting \<Longrightarrow> it_inbox it c = fb # fbs \<Longrightarrow>
     iteration_step rs bs ups it (set_phase c (Updating fb) it\<lparr>it_inbox := (it_inbox it)(c := fbs)\<rparr>)"
| set_leader: "c \<in> set rs \<Longrightarrow> it_phase it c = Updating (res, st) \<Longrightarrow> local_leader rs (host_id c) = c \<Longrightarrow>
     iteration_step rs bs ups it
       (set_phase c Ready (set_host (host_id c) (state_set st (it_host it (host_id c))) it))"
| set_other: "c \<in> set rs \<Longrightarrow> it_phase it c = Updating (res, st) \<Longrightarrow> local_leader rs (host_id c) \<noteq> c \<Longrightarrow>
     iteration_step rs bs ups it (set_phase c Ready it)"
| arrive: "c \<in> set rs \<Longrightarrow> it_phase it c = Ready \<Longrightarrow>
     barrier_arrive (length (local_replicas rs (host_id c))) (it_host it (host_id c)) = (r, h) \<Longrightarrow>
     iteration_step rs bs ups it
       (set_phase c (case r of Some g \<Rightarrow> AtBarrier g | None \<Rightarrow> Released) (set_host (host_id c) h it))"
| release: "c \<in> set rs \<Longrightarrow> it_phase it c = AtBarrier g \<Longrightarrow> hs_barrier_generation (it_host it (host_id c)) \<noteq> g \<Longrightarrow>
     iteration_step rs bs ups it (set_phase c Released it)"
| resume_leader: "c \<in> set rs \<Longrightarrow> it_phase it c = Released \<Longrightarrow> local_leader rs (host_id c) = c \<Longrightarrow>
     state_unlock (it_host it (host_id c)) = ret h \<Longrightarrow>
     iteration_step rs bs ups it (set_phase c Iterating (set_host (host_id c) h it))"
| resume_other: "c \<in> set rs \<Longrightarrow> it_phase it c = Released \<Longrightarrow> local_leader rs (host_id c) \<noteq> c \<Longrightarrow>
     iteration_step rs bs ups it (set_phase c Iterating it)"
| begin_work: "b \<in> set bs \<Longrightarrow> \<not> it_working it b \<Longrightarrow>
     wait_for_update (it_host it (host_id b)) (2 * it_ended it b) = ret () \<Longrightarrow>
     iteration_step rs bs ups it (it\<lparr>it_working := (it_working it)(b := True)\<rparr>)"
| end_work: "b \<in> set bs \<Longrightarrow> it_working it b \<Longrightarrow> \<forall>u \<in> set (ups b). it_ended it b < it_ended it u \<Longrightarrow>
     iteration_step rs bs ups it
       (it\<lparr>it_working := (it_working it)(b := False), it_ended := (it_ended it)(b := it_ended it b + 1)\<rparr>)"
| feedback: "\<forall>c \<in> set rs \<union> set bs. it_ended it c = length (it_states it) \<Longrightarrow>
     iteration_step rs bs ups it
       (it\<lparr>it_inbox := (\<lambda>c. if c \<in> set rs then it_inbox it c @ [(res, st)] else it_inbox it c),
           it_states := it_states it @ [st]\<rparr>)"

inductive iteration_reachable :: "coord list \<Rightarrow> coord list \<Rightarrow> (coord \<Rightarrow> coord list) \<Rightarrow> 'st \<Rightarrow> 'st iteration \<Rightarrow> bool"
  for rs bs ups init where
  start: "iteration_reachable rs bs ups init (iteration_new init)"
| further: "iteration_reachable rs bs ups init it \<Longrightarrow> iteration_step rs bs ups it it'
     \<Longrightarrow> iteration_reachable rs bs ups init it'"

section \<open>The invariant\<close>

text \<open>The replicas and the operators of a loop: disjoint, an operator only where there is a replica, no cycle in the body.\<close>

definition loop_body :: "coord list \<Rightarrow> coord list \<Rightarrow> (coord \<Rightarrow> coord list) \<Rightarrow> bool" where
  "loop_body rs bs ups \<longleftrightarrow> distinct rs \<and> set rs \<inter> set bs = {} \<and> host_id ` set bs \<subseteq> host_id ` set rs
     \<and> (\<forall>b \<in> set bs. set (ups b) \<subseteq> set rs \<union> set bs)
     \<and> acyclic {(u, b). b \<in> set bs \<and> u \<in> set (ups b) \<and> u \<in> set bs}"

text \<open>The round is the number of answers the leader has sent.\<close>

definition round_no :: "'st iteration \<Rightarrow> nat" where
  "round_no it = length (it_states it) - 1"

abbreviation cur_state :: "'st iteration \<Rightarrow> 'st" where
  "cur_state it \<equiv> it_states it ! round_no it"

definition replica_ok :: "'st iteration \<Rightarrow> coord \<Rightarrow> bool" where
  "replica_ok it c \<longleftrightarrow>
     (it_ended it c = round_no it \<or> it_ended it c = Suc (round_no it) \<and> it_phase it c = Waiting) \<and>
     (it_phase it c = Waiting \<and> it_ended it c = round_no it \<longrightarrow> (\<exists>r. it_inbox it c = [(r, cur_state it)])) \<and>
     (it_phase it c = Waiting \<and> it_ended it c = Suc (round_no it) \<longrightarrow> it_inbox it c = []) \<and>
     (it_phase it c \<noteq> Waiting \<longrightarrow> it_inbox it c = []) \<and>
     (\<forall>r s. it_phase it c = Updating (r, s) \<longrightarrow> s = cur_state it)"

definition barrier_closed :: "coord list \<Rightarrow> 'st iteration \<Rightarrow> nat \<Rightarrow> bool" where
  "barrier_closed rs it h \<longleftrightarrow>
     hs_barrier_count (it_host it h) = card {c \<in> set (local_replicas rs h). \<exists>g. it_phase it c = AtBarrier g} \<and>
     (\<exists>c \<in> set (local_replicas rs h). \<forall>g. it_phase it c \<noteq> AtBarrier g) \<and>
     (\<forall>c \<in> set (local_replicas rs h). it_ended it c = round_no it \<and> it_phase it c \<noteq> Released \<and> it_phase it c \<noteq> Iterating
        \<and> (\<forall>g. it_phase it c = AtBarrier g \<longrightarrow> g = hs_barrier_generation (it_host it h)))"

definition barrier_open :: "coord list \<Rightarrow> 'st iteration \<Rightarrow> nat \<Rightarrow> bool" where
  "barrier_open rs it h \<longleftrightarrow>
     hs_barrier_count (it_host it h) = 0 \<and>
     (\<forall>c \<in> set (local_replicas rs h).
        (it_ended it c = round_no it \<longrightarrow> it_phase it c \<noteq> Waiting \<and> it_phase it c \<noteq> Ready \<and> (\<forall>fb. it_phase it c \<noteq> Updating fb))
        \<and> (\<forall>g. it_phase it c = AtBarrier g \<longrightarrow> g \<noteq> hs_barrier_generation (it_host it h)))"

definition barrier_ok :: "coord list \<Rightarrow> 'st iteration \<Rightarrow> nat \<Rightarrow> bool" where
  "barrier_ok rs it h \<longleftrightarrow> (local_replicas rs h \<noteq> [] \<longrightarrow> barrier_closed rs it h \<or> barrier_open rs it h)"

definition lock_ok :: "coord list \<Rightarrow> 'st iteration \<Rightarrow> nat \<Rightarrow> bool" where
  "lock_ok rs it h \<longleftrightarrow> (local_replicas rs h \<noteq> [] \<longrightarrow>
     (it_ended it (local_leader rs h) = round_no it \<and> it_phase it (local_leader rs h) \<noteq> Iterating
        \<longrightarrow> Suc (hs_generation (it_host it h)) = 2 * round_no it) \<and>
     (it_phase it (local_leader rs h) = Iterating
        \<longrightarrow> hs_generation (it_host it h) = 2 * round_no it \<or> hs_generation (it_host it h) = Suc (2 * round_no it)) \<and>
     (it_ended it (local_leader rs h) = Suc (round_no it) \<longrightarrow> hs_generation (it_host it h) = Suc (2 * round_no it)))"

definition cell_ok :: "coord list \<Rightarrow> 'st iteration \<Rightarrow> nat \<Rightarrow> bool" where
  "cell_ok rs it h \<longleftrightarrow> (local_replicas rs h \<noteq> [] \<longrightarrow>
     it_ended it (local_leader rs h) = Suc (round_no it)
     \<or> it_phase it (local_leader rs h) \<noteq> Waiting \<and> (\<forall>fb. it_phase it (local_leader rs h) \<noteq> Updating fb)
     \<longrightarrow> hs_state (it_host it h) = cur_state it)"

definition body_ok :: "'st iteration \<Rightarrow> coord \<Rightarrow> bool" where
  "body_ok it b \<longleftrightarrow>
     (it_ended it b = round_no it \<or> it_ended it b = Suc (round_no it)) \<and>
     (it_working it b \<longrightarrow> it_ended it b = round_no it \<and> 2 * round_no it \<le> hs_generation (it_host it (host_id b)))"

definition iteration_inv :: "coord list \<Rightarrow> coord list \<Rightarrow> 'st iteration \<Rightarrow> bool" where
  "iteration_inv rs bs it \<longleftrightarrow> it_states it \<noteq> [] \<and> (\<forall>c \<in> set rs. replica_ok it c) \<and> (\<forall>b \<in> set bs. body_ok it b)
     \<and> (\<forall>h. barrier_ok rs it h) \<and> (\<forall>h. lock_ok rs it h) \<and> (\<forall>h. cell_ok rs it h)"

lemma local_replicas_set: "set (local_replicas rs h) = {c \<in> set rs. host_id c = h}"
  by (simp add: local_replicas_def)

lemma local_leader_in:
  assumes "local_replicas rs h \<noteq> []"
  shows "local_leader rs h \<in> set rs" and "host_id (local_leader rs h) = h"
proof -
  have "local_leader rs h \<in> set (local_replicas rs h)"
    using assms unfolding local_leader_def by (intro Min_in) auto
  then show "local_leader rs h \<in> set rs" and "host_id (local_leader rs h) = h" by (auto simp: local_replicas_set)
qed

lemma local_nonempty: "c \<in> set rs \<Longrightarrow> local_replicas rs (host_id c) \<noteq> []"
  by (metis (mono_tags, lifting) local_replicas_set mem_Collect_eq empty_iff empty_set)

lemma iteration_update_simps [simp]:
  "it_host (set_phase c x it) = it_host it" "it_phase (set_phase c x it) = (it_phase it)(c := x)"
  "it_inbox (set_phase c x it) = it_inbox it" "it_ended (set_phase c x it) = it_ended it"
  "it_working (set_phase c x it) = it_working it" "it_states (set_phase c x it) = it_states it"
  "it_host (set_host h y it) = (it_host it)(h := y)" "it_phase (set_host h y it) = it_phase it"
  "it_inbox (set_host h y it) = it_inbox it" "it_ended (set_host h y it) = it_ended it"
  "it_working (set_host h y it) = it_working it" "it_states (set_host h y it) = it_states it"
  by (simp_all add: set_phase_def set_host_def)

lemma round_no_simps [simp]:
  "round_no (set_phase c x it) = round_no it" "round_no (set_host h y it) = round_no it"
  "round_no (it\<lparr>it_inbox := ib\<rparr>) = round_no it" "round_no (it\<lparr>it_ended := en\<rparr>) = round_no it"
  "round_no (it\<lparr>it_working := wk\<rparr>) = round_no it"
  "it_states it \<noteq> [] \<Longrightarrow> round_no (it\<lparr>it_inbox := ib, it_states := it_states it @ [st]\<rparr>) = Suc (round_no it)"
  by (simp_all add: round_no_def)

lemma cur_state_feedback [simp]:
  "it_states it \<noteq> [] \<Longrightarrow> (it_states it @ [st]) ! Suc (round_no it) = st"
  by (simp add: round_no_def nth_append)

lemma length_states: "it_states it \<noteq> [] \<Longrightarrow> length (it_states it) = Suc (round_no it)"
  by (simp add: round_no_def)

lemma inv_start: "iteration_inv rs bs (iteration_new init)"
  by (auto simp: iteration_inv_def iteration_new_def host_state_new_def replica_ok_def body_ok_def barrier_ok_def
      barrier_open_def lock_ok_def cell_ok_def round_no_def)

lemma step_replica_ok:
  assumes "iteration_inv rs bs it" and "iteration_step rs bs ups it it'" and "loop_body rs bs ups" and "c \<in> set rs"
  shows "replica_ok it' c"
proof -
  from assms have ok: "replica_ok it c" and "c \<notin> set bs" and ne: "it_states it \<noteq> []"
    by (auto simp: iteration_inv_def loop_body_def)
  from assms(2) this assms(4) show ?thesis
    by (cases rule: iteration_step.cases)
      (auto simp: replica_ok_def length_states split: option.splits)
qed

lemma inv_generation:
  assumes "iteration_inv rs bs it" and "local_replicas rs h \<noteq> []"
  shows "hs_generation (it_host it h) \<le> Suc (2 * round_no it)"
proof -
  from assms have "lock_ok rs it h" and "replica_ok it (local_leader rs h)"
    using local_leader_in(1) [OF assms(2)] by (auto simp: iteration_inv_def)
  with assms(2) show ?thesis by (auto simp: lock_ok_def replica_ok_def)
qed

lemma body_host:
  assumes "loop_body rs bs ups" and "b \<in> set bs"
  shows "local_replicas rs (host_id b) \<noteq> []"
proof -
  from assms have "host_id b \<in> host_id ` set rs" by (auto simp: loop_body_def)
  then obtain c where "c \<in> set rs" and "host_id b = host_id c" by blast
  with local_nonempty show ?thesis by metis
qed

lemma step_body_ok:
  assumes "iteration_inv rs bs it" and "iteration_step rs bs ups it it'" and "loop_body rs bs ups" and "b \<in> set bs"
  shows "body_ok it' b"
proof -
  from assms have ok: "body_ok it b" and "b \<notin> set rs" and ne: "it_states it \<noteq> []"
    by (auto simp: iteration_inv_def loop_body_def)
  from inv_generation [OF assms(1) body_host [OF assms(3,4)]]
  have "\<not> Suc (Suc (2 * round_no it)) \<le> hs_generation (it_host it (host_id b))" by simp
  with assms(2) ok \<open>b \<notin> set rs\<close> ne length_states [OF ne] assms(4) show ?thesis
    by (cases rule: iteration_step.cases)
      (auto simp: body_ok_def length_states state_lock_def state_unlock_def state_set_def barrier_arrive_def
        wait_for_update_def assertR_def split: option.splits if_splits)
qed

text \<open>The actions on a host's state, field by field.\<close>

lemma host_action_simps [simp]:
  "hs_state (state_lock h) = hs_state h" "hs_barrier_count (state_lock h) = hs_barrier_count h"
  "hs_barrier_generation (state_lock h) = hs_barrier_generation h"
  "hs_generation (state_set st h) = hs_generation h" "hs_barrier_count (state_set st h) = hs_barrier_count h"
  "hs_barrier_generation (state_set st h) = hs_barrier_generation h" "hs_state (state_set st h) = st"
  by (auto simp: state_lock_def state_set_def)

lemma barrier_arrive_keeps:
  "barrier_arrive n h = (r, h') \<Longrightarrow> hs_state h' = hs_state h \<and> hs_generation h' = hs_generation h"
  by (auto simp: barrier_arrive_def split: if_splits)

lemma state_lock_generation:
  "hs_generation (state_lock h) = (if even (hs_generation h) then Suc (hs_generation h) else hs_generation h)"
  by (simp add: state_lock_def even_iff_mod_2_eq_zero)

lemma state_lock_cases:
  "hs_generation h = 2 * k \<Longrightarrow> hs_generation (state_lock h) = Suc (2 * k)"
  "hs_generation h = Suc (2 * k) \<Longrightarrow> hs_generation (state_lock h) = Suc (2 * k)"
  "Suc (hs_generation h) = 2 * k \<Longrightarrow> hs_generation (state_lock h) = hs_generation h"
  using even_Suc [of "hs_generation h"] by (auto simp: state_lock_generation)

lemma state_unlock_ret:
  "state_unlock h = ret h' \<longleftrightarrow> odd (hs_generation h) \<and> h' = h\<lparr>hs_generation := Suc (hs_generation h)\<rparr>"
  by (auto simp: state_unlock_def assertR_def odd_iff_mod_2_eq_one)

lemma step_cell_ok:
  assumes "iteration_inv rs bs it" and "iteration_step rs bs ups it it'" and "loop_body rs bs ups"
  shows "cell_ok rs it' h"
proof (cases "local_replicas rs h = []")
  case False
  let ?l = "local_leader rs h"
  from assms False have ok: "cell_ok rs it h" "replica_ok it ?l" "?l \<notin> set bs" "host_id ?l = h" "?l \<in> set rs"
    and ne: "it_states it \<noteq> []"
    using local_leader_in [OF False] by (auto simp: iteration_inv_def loop_body_def)
  from assms(2) this False show ?thesis
    by (cases rule: iteration_step.cases)
      (auto simp: cell_ok_def replica_ok_def length_states state_unlock_ret dest!: barrier_arrive_keeps split: option.splits if_splits)
qed (simp add: cell_ok_def)

lemma step_lock_ok:
  assumes "iteration_inv rs bs it" and "iteration_step rs bs ups it it'" and "loop_body rs bs ups"
  shows "lock_ok rs it' h"
proof (cases "local_replicas rs h = []")
  case False
  define l where "l = local_leader rs h"
  have l: "host_id l = h" "l \<in> set rs" "local_leader rs (host_id l) = l"
    using local_leader_in [OF False] by (auto simp: l_def)
  from assms l have "lock_ok rs it h" and "replica_ok it l" and "l \<notin> set bs" and ne: "it_states it \<noteq> []"
    by (auto simp: iteration_inv_def loop_body_def)
  then have lock: "it_ended it l = round_no it \<Longrightarrow> it_phase it l \<noteq> Iterating \<Longrightarrow> Suc (hs_generation (it_host it h)) = 2 * round_no it"
      "it_phase it l = Iterating \<Longrightarrow> hs_generation (it_host it h) = 2 * round_no it \<or> hs_generation (it_host it h) = Suc (2 * round_no it)"
      "it_ended it l = Suc (round_no it) \<Longrightarrow> hs_generation (it_host it h) = Suc (2 * round_no it)"
    and ended: "it_ended it l = round_no it \<or> it_ended it l = Suc (round_no it) \<and> it_phase it l = Waiting"
    using False by (auto simp: lock_ok_def replica_ok_def l_def)
  have frame: ?thesis if "hs_generation (it_host it' h) = hs_generation (it_host it h)" "round_no it' = round_no it"
    "it_ended it' l = it_ended it l" "it_phase it' l = Iterating \<longleftrightarrow> it_phase it l = Iterating"
    using \<open>lock_ok rs it h\<close> that by (simp add: lock_ok_def l_def)
  show ?thesis
    using assms(2)
  proof (cases rule: iteration_step.cases)
    case (end_round c)
    let ?g = "hs_generation (it_host it h)" and ?g' = "hs_generation (it_host it' h)"
    have "?g' = ?g \<or> ?g' = hs_generation (state_lock (it_host it h))" using end_round by auto
    then have "Suc ?g = 2 * round_no it \<Longrightarrow> ?g' = ?g" and "?g = Suc (2 * round_no it) \<Longrightarrow> ?g' = ?g"
      and "?g = 2 * round_no it \<Longrightarrow> ?g' = ?g \<or> ?g' = Suc (2 * round_no it)"
      using state_lock_cases [of "it_host it h" "round_no it"] by auto
    moreover have "?g' = hs_generation (state_lock (it_host it h))" if "c = l" using that end_round l by simp
    then have "c = l \<Longrightarrow> ?g' = Suc (2 * round_no it)"
      using lock(2) end_round(3) state_lock_cases(1,2) [of "it_host it h" "round_no it"] by auto
    moreover have "round_no it' = round_no it" "it_ended it' = (it_ended it)(c := Suc (it_ended it c))"
      "it_phase it' = (it_phase it)(c := Waiting)"
      using end_round by simp_all
    ultimately show ?thesis using lock ended end_round(3) unfolding lock_ok_def l_def [symmetric]
      by (cases "c = l") auto
  next
    case receive
    then show ?thesis using l \<open>l \<notin> set bs\<close> by (intro frame) (auto dest!: barrier_arrive_keeps split: option.splits)
  next
    case set_leader
    then show ?thesis using l \<open>l \<notin> set bs\<close> by (intro frame) (auto dest!: barrier_arrive_keeps split: option.splits)
  next
    case set_other
    then show ?thesis using l \<open>l \<notin> set bs\<close> by (intro frame) (auto dest!: barrier_arrive_keeps split: option.splits)
  next
    case arrive
    then show ?thesis using l \<open>l \<notin> set bs\<close> by (intro frame) (auto dest!: barrier_arrive_keeps split: option.splits)
  next
    case release
    then show ?thesis using l \<open>l \<notin> set bs\<close> by (intro frame) (auto dest!: barrier_arrive_keeps split: option.splits)
  next
    case resume_other
    then show ?thesis using l \<open>l \<notin> set bs\<close> by (intro frame) (auto dest!: barrier_arrive_keeps split: option.splits)
  next
    case begin_work
    then show ?thesis using l \<open>l \<notin> set bs\<close> by (intro frame) (auto dest!: barrier_arrive_keeps split: option.splits)
  next
    case end_work
    then show ?thesis using l \<open>l \<notin> set bs\<close> by (intro frame) (auto dest!: barrier_arrive_keeps split: option.splits)
  next
    case (resume_leader c x)
    then show ?thesis
    proof (cases "c = l")
      case True
      with resume_leader lock(1) ended l(1) have "Suc (hs_generation (it_host it h)) = 2 * round_no it" by auto
      with resume_leader True l(1) have "hs_generation (it_host it' h) = 2 * round_no it'" "it_phase it' l = Iterating"
        "it_ended it' l = round_no it'"
        using ended by (auto simp: state_unlock_ret)
      then show ?thesis by (simp add: lock_ok_def l_def)
    next
      case False
      moreover from False l(3) resume_leader(4) have "host_id c \<noteq> h" by (auto simp: l_def)
      ultimately show ?thesis using resume_leader by (intro frame) auto
    qed
  next
    case (feedback res st)
    then have "it_ended it l = Suc (round_no it)" using l ne by (simp add: length_states)
    with lock(3) ended feedback ne show ?thesis by (auto simp: lock_ok_def l_def)
  qed
qed (simp add: lock_ok_def)

lemma barrier_frame:
  assumes "barrier_ok rs it h" and "round_no it' = round_no it"
    and "\<And>c. c \<in> set (local_replicas rs h) \<Longrightarrow> it_phase it' c = it_phase it c \<and> it_ended it' c = it_ended it c"
    and "hs_barrier_count (it_host it' h) = hs_barrier_count (it_host it h)"
    and "hs_barrier_generation (it_host it' h) = hs_barrier_generation (it_host it h)"
  shows "barrier_ok rs it' h"
proof -
  from assms(3) have "{c \<in> set (local_replicas rs h). \<exists>g. it_phase it' c = AtBarrier g}
      = {c \<in> set (local_replicas rs h). \<exists>g. it_phase it c = AtBarrier g}" by auto
  with assms show ?thesis by (simp add: barrier_ok_def barrier_closed_def barrier_open_def)
qed

lemma barrier_cases:
  assumes "barrier_ok rs it (host_id c)" and "replica_ok it c" and "c \<in> set rs"
  shows "it_phase it c = Iterating \<or> it_phase it c = Released \<Longrightarrow> barrier_open rs it (host_id c)"
    and "it_phase it c = Waiting \<Longrightarrow> it_inbox it c \<noteq> [] \<Longrightarrow> barrier_closed rs it (host_id c)"
    and "it_phase it c = Updating fb \<or> it_phase it c = Ready \<Longrightarrow> barrier_closed rs it (host_id c)"
    and "it_phase it c = AtBarrier g \<Longrightarrow> hs_barrier_generation (it_host it (host_id c)) \<noteq> g \<Longrightarrow> barrier_open rs it (host_id c)"
proof -
  let ?h = "host_id c"
  have c: "c \<in> set (local_replicas rs ?h)" using assms(3) by (simp add: local_replicas_set)
  from assms(1) local_nonempty [OF assms(3)] have or: "barrier_closed rs it ?h \<or> barrier_open rs it ?h"
    by (simp add: barrier_ok_def)
  have closed: "it_phase it c \<noteq> Released \<and> it_phase it c \<noteq> Iterating
      \<and> (\<forall>g. it_phase it c = AtBarrier g \<longrightarrow> g = hs_barrier_generation (it_host it ?h))" if "barrier_closed rs it ?h"
    using that c by (simp add: barrier_closed_def)
  have opened: "it_ended it c = round_no it \<longrightarrow> it_phase it c \<noteq> Waiting \<and> it_phase it c \<noteq> Ready \<and> (\<forall>fb. it_phase it c \<noteq> Updating fb)"
    if "barrier_open rs it ?h"
    using that c by (simp add: barrier_open_def)
  have ended: "it_phase it c \<noteq> Waiting \<Longrightarrow> it_ended it c = round_no it"
    using assms(2) unfolding replica_ok_def by blast
  show "it_phase it c = Iterating \<or> it_phase it c = Released \<Longrightarrow> barrier_open rs it ?h"
    using or closed by blast
  show "it_phase it c = Waiting \<Longrightarrow> it_inbox it c \<noteq> [] \<Longrightarrow> barrier_closed rs it ?h"
    using or opened assms(2) unfolding replica_ok_def by blast
  show "it_phase it c = Updating fb \<or> it_phase it c = Ready \<Longrightarrow> barrier_closed rs it ?h"
    using or opened ended by fastforce
  show "it_phase it c = AtBarrier g \<Longrightarrow> hs_barrier_generation (it_host it ?h) \<noteq> g \<Longrightarrow> barrier_open rs it ?h"
    using or closed by blast
qed

text \<open>A replica that moves without touching the barrier keeps it closed, or open.\<close>

lemma barrier_closed_move:
  assumes "barrier_closed rs it h" and "\<forall>g. it_phase it c \<noteq> AtBarrier g" and "\<forall>g. x \<noteq> AtBarrier g"
    and "x \<noteq> Released" and "x \<noteq> Iterating" and "round_no it' = round_no it" and "it_ended it' = it_ended it"
    and "it_phase it' = (it_phase it)(c := x)"
    and "hs_barrier_count (it_host it' h) = hs_barrier_count (it_host it h)"
    and "hs_barrier_generation (it_host it' h) = hs_barrier_generation (it_host it h)"
  shows "barrier_closed rs it' h"
proof -
  have at: "(\<exists>g. it_phase it' c' = AtBarrier g) \<longleftrightarrow> (\<exists>g. it_phase it c' = AtBarrier g)" for c'
    using assms(2,3,8) by auto
  then have "(\<forall>g. it_phase it' c' \<noteq> AtBarrier g) \<longleftrightarrow> (\<forall>g. it_phase it c' \<noteq> AtBarrier g)" for c' by metis
  with at assms show ?thesis by (auto simp: barrier_closed_def)
qed

lemma barrier_open_move:
  assumes "barrier_open rs it h" and "\<forall>g. x \<noteq> AtBarrier g" and "round_no it' = round_no it"
    and "it_phase it' = (it_phase it)(c := x)" and "\<And>d. d \<noteq> c \<Longrightarrow> it_ended it' d = it_ended it d"
    and "x = Released \<or> x = Iterating \<or> it_ended it' c \<noteq> round_no it"
    and "hs_barrier_count (it_host it' h) = hs_barrier_count (it_host it h)"
    and "hs_barrier_generation (it_host it' h) = hs_barrier_generation (it_host it h)"
  shows "barrier_open rs it' h"
  using assms by (auto simp: barrier_open_def)

lemma barrier_arrive_ok:
  assumes "barrier_closed rs it h" and "distinct rs" and "c \<in> set rs" and "host_id c = h" and "it_phase it c = Ready"
    and "barrier_arrive (length (local_replicas rs h)) (it_host it h) = (r, x)"
    and "it' = set_phase c (case r of Some g \<Rightarrow> AtBarrier g | None \<Rightarrow> Released) (set_host h x it)"
  shows "barrier_closed rs it' h \<or> barrier_open rs it' h"
proof -
  let ?l = "set (local_replicas rs h)" and ?at = "\<lambda>it. {c \<in> set (local_replicas rs h). \<exists>g. it_phase it c = AtBarrier g}"
  have n: "length (local_replicas rs h) = card ?l"
    using assms(2) distinct_card [of "local_replicas rs h"] by (simp add: local_replicas_def)
  have c: "c \<in> ?l" "c \<notin> ?at it" using assms(3-5) by (auto simp: local_replicas_set)
  then have sub: "?at it \<subseteq> ?l - {c}" by blast
  have count: "hs_barrier_count (it_host it h) = card (?at it)" using assms(1) by (simp add: barrier_closed_def)
  show ?thesis
  proof (cases "hs_barrier_count (it_host it h) + 1 < card ?l")
    case True
    then have x: "r = Some (hs_barrier_generation (it_host it h))"
      "x = (it_host it h)\<lparr>hs_barrier_count := hs_barrier_count (it_host it h) + 1\<rparr>"
      using assms(6) unfolding n by (auto simp: barrier_arrive_def)
    have it': "it_phase it' = (it_phase it)(c := AtBarrier (hs_barrier_generation (it_host it h)))"
      "hs_barrier_count (it_host it' h) = Suc (card (?at it))" "it_ended it' = it_ended it" "round_no it' = round_no it"
      "hs_barrier_generation (it_host it' h) = hs_barrier_generation (it_host it h)"
      unfolding assms(7) x count [symmetric] by simp_all
    have "?at it' = insert c (?at it)" using it'(1) c by auto
    with c have "card (?at it') = Suc (card (?at it))" by simp
    moreover have "\<exists>d \<in> ?l. \<forall>g. it_phase it' d \<noteq> AtBarrier g"
    proof (rule ccontr)
      assume "\<not> ?thesis"
      then have "?at it' = ?l" by auto
      with \<open>card (?at it') = Suc (card (?at it))\<close> True count show False by simp
    qed
    ultimately have "barrier_closed rs it' h" using assms(1) it' by (simp add: barrier_closed_def)
    then show ?thesis ..
  next
    case False
    then have x: "r = None" "x = (it_host it h)\<lparr>hs_barrier_count := 0, hs_barrier_generation := hs_barrier_generation (it_host it h) + 1\<rparr>"
      using assms(6) unfolding n by (auto simp: barrier_arrive_def)
    have it': "it_phase it' = (it_phase it)(c := Released)" "hs_barrier_count (it_host it' h) = 0"
      "it_ended it' = it_ended it" "round_no it' = round_no it"
      "hs_barrier_generation (it_host it' h) = Suc (hs_barrier_generation (it_host it h))"
      unfolding assms(7) x by simp_all
    have "card ?l = Suc (card (?l - {c}))" using card_Suc_Diff1 [OF finite_set c(1)] by (rule sym)
    with False count have "card (?l - {c}) \<le> card (?at it)" by simp
    with sub have "?at it = ?l - {c}" by (intro card_seteq) auto
    then have "\<exists>g. it_phase it d = AtBarrier g" if "d \<in> ?l" "d \<noteq> c" for d using that by auto
    then have "it_phase it d = AtBarrier (hs_barrier_generation (it_host it h))" if "d \<in> ?l" "d \<noteq> c" for d
      using assms(1) that unfolding barrier_closed_def by metis
    then have "it_phase it' d = Released \<or> it_phase it' d = AtBarrier (hs_barrier_generation (it_host it h))" if "d \<in> ?l" for d
      using it'(1) that by (cases "d = c") auto
    with it' have "barrier_open rs it' h" unfolding barrier_open_def by force
    then show ?thesis ..
  qed
qed

lemma step_barrier_ok:
  assumes "iteration_inv rs bs it" and "iteration_step rs bs ups it it'" and "loop_body rs bs ups"
  shows "barrier_ok rs it' h"
proof -
  have ok: "barrier_ok rs it h" for h using assms(1) by (simp add: iteration_inv_def)
  have rep: "c \<in> set rs \<Longrightarrow> replica_ok it c" for c using assms(1) by (simp add: iteration_inv_def)
  have ne: "it_states it \<noteq> []" using assms(1) by (simp add: iteration_inv_def)
  have loc: "c \<in> set (local_replicas rs h) \<longleftrightarrow> c \<in> set rs \<and> host_id c = h" for c by (auto simp: local_replicas_set)
  have bs: "c \<in> set rs \<Longrightarrow> c \<notin> set bs" for c using assms(3) by (auto simp: loop_body_def)
  note cases = barrier_cases [OF ok rep]
  have moves: "barrier_ok rs it' h" if "round_no it' = round_no it"
      "\<And>d. d \<noteq> c \<Longrightarrow> it_phase it' d = it_phase it d \<and> it_ended it' d = it_ended it d"
      "\<And>k. k \<noteq> host_id c \<Longrightarrow> it_host it' k = it_host it k"
      "host_id c = h \<Longrightarrow> barrier_closed rs it' h \<or> barrier_open rs it' h" for c
  proof (cases "host_id c = h")
    case False
    then have "d \<noteq> c" if "d \<in> set (local_replicas rs h)" for d using that by (auto simp: loc)
    with False show ?thesis using that by (intro barrier_frame [OF ok]) auto
  qed (use that in \<open>auto simp: barrier_ok_def\<close>)
  show ?thesis
    using assms(2)
  proof (cases rule: iteration_step.cases)
    case (end_round c)
    have "barrier_open rs it' (host_id c)"
      by (rule barrier_open_move [of rs it _ Waiting _ c]) (use end_round cases(1) [of c] rep [of c] in \<open>auto simp: replica_ok_def\<close>)
    with end_round show ?thesis by (intro moves [of c]) auto
  next
    case (receive c fb fbs)
    have "barrier_closed rs it' (host_id c)"
      by (rule barrier_closed_move [of rs it _ c "Updating fb"]) (use receive cases(2) [of c] in \<open>auto\<close>)
    with receive show ?thesis by (intro moves [of c]) auto
  next
    case (set_leader c res st)
    have "barrier_closed rs it' (host_id c)"
      by (rule barrier_closed_move [of rs it _ c Ready]) (use set_leader cases(3) [of c "(res, st)"] in \<open>auto\<close>)
    with set_leader show ?thesis by (intro moves [of c]) auto
  next
    case (set_other c res st)
    have "barrier_closed rs it' (host_id c)"
      by (rule barrier_closed_move [of rs it _ c Ready]) (use set_other cases(3) [of c "(res, st)"] in \<open>auto\<close>)
    with set_other show ?thesis by (intro moves [of c]) auto
  next
    case (arrive c r x)
    then have "barrier_closed rs it' (host_id c) \<or> barrier_open rs it' (host_id c)"
      using cases(3) [of c] assms(3) by (intro barrier_arrive_ok [of rs it _ c r x it']) (auto simp: loop_body_def)
    with arrive show ?thesis by (intro moves [of c]) auto
  next
    case (release c g)
    have "barrier_open rs it' (host_id c)"
      by (rule barrier_open_move [of rs it _ Released _ c]) (use release cases(4) [of c g] in \<open>auto\<close>)
    with release show ?thesis by (intro moves [of c]) auto
  next
    case (resume_leader c x)
    have "barrier_open rs it' (host_id c)"
      by (rule barrier_open_move [of rs it _ Iterating _ c]) (use resume_leader cases(1) [of c] in \<open>auto simp: state_unlock_ret\<close>)
    with resume_leader show ?thesis by (intro moves [of c]) auto
  next
    case (resume_other c)
    have "barrier_open rs it' (host_id c)"
      by (rule barrier_open_move [of rs it _ Iterating _ c]) (use resume_other cases(1) [of c] in \<open>auto\<close>)
    with resume_other show ?thesis by (intro moves [of c]) auto
  next
    case (begin_work b)
    then show ?thesis by (intro barrier_frame [OF ok]) auto
  next
    case (end_work b)
    then show ?thesis using bs by (intro barrier_frame [OF ok]) (auto simp: loc)
  next
    case (feedback res st)
    have "it_phase it c = Waiting \<and> it_ended it c = Suc (round_no it)" if "c \<in> set (local_replicas rs h)" for c
      using rep [of c] that feedback(2) ne by (auto simp: loc replica_ok_def length_states)
    moreover from this have "barrier_open rs it h" if "local_replicas rs h \<noteq> []"
      using ok [of h] that by (auto simp: barrier_ok_def barrier_closed_def)
    moreover have "\<exists>c. c \<in> set (local_replicas rs h)" if "local_replicas rs h \<noteq> []"
      using that by (cases "local_replicas rs h") auto
    ultimately show ?thesis using feedback ne
      by (auto simp: barrier_ok_def barrier_closed_def barrier_open_def)
  qed
qed

lemma inv_step:
  assumes "iteration_inv rs bs it" and "iteration_step rs bs ups it it'" and "loop_body rs bs ups"
  shows "iteration_inv rs bs it'"
proof -
  have "it_states it' \<noteq> []"
    using assms(2) assms(1) by (cases rule: iteration_step.cases) (auto simp: iteration_inv_def)
  with step_replica_ok [OF assms] step_body_ok [OF assms] step_barrier_ok [OF assms] step_lock_ok [OF assms] step_cell_ok [OF assms]
  show ?thesis by (simp add: iteration_inv_def)
qed

lemma inv_reachable:
  assumes "iteration_reachable rs bs ups init it" and "loop_body rs bs ups"
  shows "iteration_inv rs bs it"
  using assms by (induction rule: iteration_reachable.induct) (auto intro: inv_start inv_step)

section \<open>What the synchronisation guarantees\<close>

lemma inv_leader:
  assumes "iteration_inv rs bs it" and "local_replicas rs h \<noteq> []"
  shows "2 * round_no it \<le> hs_generation (it_host it h) \<Longrightarrow> hs_state (it_host it h) = cur_state it"
    and "it_phase it (local_leader rs h) \<noteq> Waiting \<Longrightarrow> it_phase it (local_leader rs h) \<noteq> Iterating
      \<Longrightarrow> Suc (hs_generation (it_host it h)) = 2 * round_no it"
proof -
  let ?l = "local_leader rs h"
  have l: "lock_ok rs it h" "cell_ok rs it h" "replica_ok it ?l"
    using assms local_leader_in(1) [OF assms(2)] by (auto simp: iteration_inv_def)
  from l(3) have ended: "it_ended it ?l = round_no it \<or> it_ended it ?l = Suc (round_no it) \<and> it_phase it ?l = Waiting"
    by (simp add: replica_ok_def)
  with l(1) assms(2) show unlock: "it_phase it ?l \<noteq> Waiting \<Longrightarrow> it_phase it ?l \<noteq> Iterating
      \<Longrightarrow> Suc (hs_generation (it_host it h)) = 2 * round_no it"
    by (auto simp: lock_ok_def)
  assume "2 * round_no it \<le> hs_generation (it_host it h)"
  with l(1) assms(2) ended have "it_ended it ?l = Suc (round_no it) \<or> it_phase it ?l = Iterating"
    by (auto simp: lock_ok_def)
  with l(2) assms(2) show "hs_state (it_host it h) = cur_state it" by (auto simp: cell_ok_def)
qed

lemma inv_iterating:
  assumes "iteration_inv rs bs it" and "c \<in> set rs" and "it_phase it c = Iterating"
  shows "it_ended it c = round_no it" and "hs_state (it_host it (host_id c)) = cur_state it"
    and "\<forall>fb. it_phase it (local_leader rs (host_id c)) \<noteq> Updating fb"
proof -
  let ?l = "local_leader rs (host_id c)"
  have c: "barrier_ok rs it (host_id c)" "replica_ok it c" using assms by (auto simp: iteration_inv_def)
  have loc: "local_replicas rs (host_id c) \<noteq> []" using local_nonempty [OF assms(2)] .
  have l: "?l \<in> set (local_replicas rs (host_id c))" using local_leader_in [OF loc] by (simp add: local_replicas_set)
  have rl: "replica_ok it ?l" using assms(1) local_leader_in(1) [OF loc] by (simp add: iteration_inv_def)
  show "it_ended it c = round_no it" using c(2) assms(3) by (auto simp: replica_ok_def)
  have open_: "barrier_open rs it (host_id c)" using barrier_cases(1) [OF c assms(2)] assms(3) by simp
  from rl have "it_ended it ?l = round_no it \<or> it_ended it ?l = Suc (round_no it) \<and> it_phase it ?l = Waiting" by (simp add: replica_ok_def)
  with open_ l show no: "\<forall>fb. it_phase it ?l \<noteq> Updating fb" by (auto simp: barrier_open_def)
  from open_ l have "it_ended it ?l = round_no it \<longrightarrow> it_phase it ?l \<noteq> Waiting" by (simp add: barrier_open_def)
  with rl no have "it_ended it ?l = Suc (round_no it) \<or> it_phase it ?l \<noteq> Waiting" by (auto simp: replica_ok_def)
  moreover have "cell_ok rs it (host_id c)" using assms(1) by (simp add: iteration_inv_def)
  ultimately show "hs_state (it_host it (host_id c)) = cur_state it" using loc no by (auto simp: cell_ok_def)
qed

lemma iteration_state_facts:
  assumes "loop_body rs bs ups" and "iteration_reachable rs bs ups init it"
  shows "c \<in> set rs \<Longrightarrow> it_phase it c = Released \<Longrightarrow> local_leader rs (host_id c) = c
      \<Longrightarrow> \<exists>h. state_unlock (it_host it (host_id c)) = ret h"
    and "b \<in> set bs \<Longrightarrow> it_working it b \<Longrightarrow> state_get (it_host it (host_id b)) = it_states it ! it_ended it b"
    and "c \<in> set rs \<Longrightarrow> it_phase it c = Iterating \<Longrightarrow> state_get (it_host it (host_id c)) = it_states it ! it_ended it c"
    and "c \<in> set rs \<Longrightarrow> it_phase it c = Updating fb \<Longrightarrow> local_leader rs (host_id c) = c
      \<Longrightarrow> b \<in> set bs \<and> host_id b = host_id c \<and> it_working it b \<or> d \<in> set rs \<and> host_id d = host_id c \<and> it_phase it d = Iterating
      \<Longrightarrow> False"
proof -
  note inv = inv_reachable [OF assms(2,1)]
  have body: "body_ok it b" if "b \<in> set bs" for b using inv that by (simp add: iteration_inv_def)
  show "\<exists>h. state_unlock (it_host it (host_id c)) = ret h"
    if "c \<in> set rs" "it_phase it c = Released" "local_leader rs (host_id c) = c" for c
  proof -
    have "Suc (hs_generation (it_host it (host_id c))) = 2 * round_no it"
      using inv_leader(2) [OF inv local_nonempty [OF that(1)]] that by simp
    then have "odd (hs_generation (it_host it (host_id c)))" by (metis even_Suc even_mult_iff even_numeral)
    then show ?thesis by (simp add: state_unlock_ret)
  qed
  show "state_get (it_host it (host_id b)) = it_states it ! it_ended it b" if "b \<in> set bs" "it_working it b" for b
    using body [OF that(1)] that inv_leader(1) [OF inv body_host [OF assms(1) that(1)]]
    by (simp add: body_ok_def state_get_def)
  show "state_get (it_host it (host_id c)) = it_states it ! it_ended it c" if "c \<in> set rs" "it_phase it c = Iterating" for c
    using inv_iterating [OF inv that] by (simp add: state_get_def)
  show False if "c \<in> set rs" "it_phase it c = Updating fb" "local_leader rs (host_id c) = c"
    "b \<in> set bs \<and> host_id b = host_id c \<and> it_working it b \<or> d \<in> set rs \<and> host_id d = host_id c \<and> it_phase it d = Iterating"
    using that(4)
  proof
    assume b: "b \<in> set bs \<and> host_id b = host_id c \<and> it_working it b"
    then have "2 * round_no it \<le> hs_generation (it_host it (host_id c))" using body [of b] by (auto simp: body_ok_def)
    with inv_leader(2) [OF inv local_nonempty [OF that(1)]] that(2,3) show False by simp
  next
    assume "d \<in> set rs \<and> host_id d = host_id c \<and> it_phase it d = Iterating"
    with inv_iterating(3) [OF inv, of d] that show False by auto
  qed
qed

text \<open>
  C22: However the threads of the hosts interleave, the shared state of an iteration is used safely.
  The local leader's \<^verbatim>\<open>unlock\<close> never meets an unlocked generation; an operator of the body that
  works on a round, and a replica that iterates, reads the state the leader sent for exactly that round;
  and when the local leader writes the cell, no operator of its host works and no replica iterates.
\<close>

theorem iteration_state_safe:
  assumes "loop_body rs bs ups" and "iteration_reachable rs bs ups init it"
  shows "(\<forall>c \<in> set rs. it_phase it c = Released \<and> local_leader rs (host_id c) = c
         \<longrightarrow> (\<exists>h. state_unlock (it_host it (host_id c)) = ret h))
    \<and> (\<forall>b \<in> set bs. it_working it b \<longrightarrow> state_get (it_host it (host_id b)) = it_states it ! it_ended it b)
    \<and> (\<forall>c \<in> set rs. it_phase it c = Iterating \<longrightarrow> state_get (it_host it (host_id c)) = it_states it ! it_ended it c)
    \<and> (\<forall>c \<in> set rs. \<forall>fb. it_phase it c = Updating fb \<and> local_leader rs (host_id c) = c \<longrightarrow>
         (\<forall>b \<in> set bs. host_id b = host_id c \<longrightarrow> \<not> it_working it b) \<and>
         (\<forall>d \<in> set rs. host_id d = host_id c \<longrightarrow> it_phase it d \<noteq> Iterating))"
  by (intro conjI ballI allI impI notI; (elim conjE)?)
    (blast intro: iteration_state_facts(1-3) [OF assms] dest: iteration_state_facts(4) [OF assms])+

text \<open>One round on one host, up to the moment the local leader has passed the barrier.\<close>

theorem iteration_state_safe_witness:
  "\<exists>it h. iteration_reachable [Coord 2 0 0] [] (\<lambda>_. []) (5::nat) it \<and> it_phase it (Coord 2 0 0) = Released
     \<and> state_get (it_host it 0) = 9 \<and> state_unlock (it_host it 0) = ret h"
proof -
  let ?rs = "[Coord 2 0 0]" and ?c = "Coord 2 0 0" and ?R = "iteration_reachable [Coord 2 0 0] [] (\<lambda>_. []) (5::nat)"
  have leader: "local_replicas ?rs 0 = ?rs" "local_leader ?rs 0 = ?c" by (simp_all add: local_replicas_def local_leader_def)
  note next1 = iteration_reachable.further [of ?rs "[]" "\<lambda>_. []" "5::nat"]
  let ?i1 = "set_phase ?c Waiting (set_host 0 (state_lock (host_state_new (5::nat))) (iteration_new 5))\<lparr>it_ended := (\<lambda>_. 0)(?c := 1)\<rparr>"
  have 1: "?R ?i1"
    using next1 [OF iteration_reachable.start iteration_step.end_round [of ?c]] by (simp add: iteration_new_def)
  let ?i2 = "?i1\<lparr>it_inbox := (\<lambda>c. if c \<in> set ?rs then it_inbox ?i1 c @ [(Continue, 9)] else it_inbox ?i1 c), it_states := it_states ?i1 @ [9]\<rparr>"
  have 2: "?R ?i2"
    by (rule next1 [OF 1 iteration_step.feedback]) (simp add: iteration_new_def)
  let ?i3 = "set_phase ?c (Updating (Continue, 9)) ?i2\<lparr>it_inbox := (it_inbox ?i2)(?c := [])\<rparr>"
  have 3: "?R ?i3"
    by (rule next1 [OF 2 iteration_step.receive]) (simp_all add: iteration_new_def)
  let ?i4 = "set_phase ?c Ready (set_host (host_id ?c) (state_set 9 (it_host ?i3 (host_id ?c))) ?i3)"
  have 4: "?R ?i4"
    by (rule next1 [OF 3 iteration_step.set_leader]) (simp_all add: leader)
  let ?x = "barrier_arrive (length (local_replicas ?rs (host_id ?c))) (it_host ?i4 (host_id ?c))"
  let ?i5 = "set_phase ?c (case fst ?x of Some g \<Rightarrow> AtBarrier g | None \<Rightarrow> Released) (set_host (host_id ?c) (snd ?x) ?i4)"
  have 5: "?R ?i5"
    by (rule next1 [OF 4 iteration_step.arrive]) (simp_all add: leader)
  have loop: "loop_body ?rs [] (\<lambda>_. [])" by (simp add: loop_body_def acyclic_def)
  have released: "it_phase ?i5 ?c = Released" "state_get (it_host ?i5 0) = 9"
    by (simp_all add: leader barrier_arrive_def state_set_def state_get_def state_lock_def host_state_new_def)
  from iteration_state_safe [OF loop 5] released(1) leader(2)
  have "\<exists>h. state_unlock (it_host ?i5 0) = ret h" by (elim conjE) (drule bspec [of _ _ ?c], simp, simp only: coord.sel simp_thms)
  with 5 released show ?thesis by blast
qed

section \<open>The rounds go on\<close>

text \<open>How many steps of the current round a replica and an operator still have to make.\<close>

fun phase_steps :: "'st phase \<Rightarrow> nat" where
  "phase_steps Iterating = 1"
| "phase_steps Released = 2"
| "phase_steps (AtBarrier _) = 3"
| "phase_steps Ready = 4"
| "phase_steps (Updating _) = 5"
| "phase_steps Waiting = 6"

definition replica_steps :: "'st iteration \<Rightarrow> coord \<Rightarrow> nat" where
  "replica_steps it c = (if it_ended it c = round_no it then phase_steps (it_phase it c) else 0)"

definition body_steps :: "'st iteration \<Rightarrow> coord \<Rightarrow> nat" where
  "body_steps it b = (if it_ended it b = round_no it then if it_working it b then 1 else 2 else 0)"

definition steps_left :: "coord list \<Rightarrow> coord list \<Rightarrow> 'st iteration \<Rightarrow> nat" where
  "steps_left rs bs it = (\<Sum>c \<in> set rs. replica_steps it c) + (\<Sum>b \<in> set bs. body_steps it b)"

lemma phase_steps_le: "phase_steps ph \<le> 6"
  by (cases ph) auto

lemma steps_left_le: "steps_left rs bs it \<le> 6 * card (set rs) + 2 * card (set bs)"
proof -
  have "(\<Sum>c \<in> set rs. replica_steps it c) \<le> (\<Sum>c \<in> set rs. 6)"
    by (intro sum_mono) (simp add: replica_steps_def phase_steps_le)
  moreover have "(\<Sum>b \<in> set bs. body_steps it b) \<le> (\<Sum>b \<in> set bs. 2)"
    by (intro sum_mono) (simp add: body_steps_def)
  ultimately show ?thesis by (simp add: steps_left_def)
qed

lemma sum_less_at:
  fixes f :: "coord \<Rightarrow> nat"
  assumes "c \<in> set xs" and "f c < g c" and "\<And>d. d \<in> set xs \<Longrightarrow> d \<noteq> c \<Longrightarrow> f d = g d"
  shows "sum f (set xs) < sum g (set xs)"
proof (rule sum_strict_mono_ex1)
  show "\<forall>x \<in> set xs. f x \<le> g x"
    using assms(2,3) by (metis order.strict_implies_order order_refl)
qed (use assms in auto)

lemma steps_left_less:
  assumes "c \<in> set rs" and "replica_steps it' c < replica_steps it c"
    and "\<And>d. d \<in> set rs \<Longrightarrow> d \<noteq> c \<Longrightarrow> replica_steps it' d = replica_steps it d"
    and "\<And>b. b \<in> set bs \<Longrightarrow> body_steps it' b = body_steps it b"
  shows "steps_left rs bs it' < steps_left rs bs it"
  using sum_less_at [where f = "replica_steps it'", OF assms(1-3)] sum.cong [OF refl assms(4), of "set bs"]
  by (simp add: steps_left_def)

lemma body_steps_less:
  assumes "b \<in> set bs" and "body_steps it' b < body_steps it b"
    and "\<And>d. d \<in> set bs \<Longrightarrow> d \<noteq> b \<Longrightarrow> body_steps it' d = body_steps it d"
    and "\<And>c. c \<in> set rs \<Longrightarrow> replica_steps it' c = replica_steps it c"
  shows "steps_left rs bs it' < steps_left rs bs it"
  using sum_less_at [where f = "body_steps it'", OF assms(1-3)] sum.cong [OF refl assms(4), of "set rs"]
  by (simp add: steps_left_def)

text \<open>A step either sends an answer, which starts the next round, or brings the round closer to its end.\<close>

lemma step_decreases:
  assumes "iteration_inv rs bs it" and "iteration_step rs bs ups it it'" and "loop_body rs bs ups"
  shows "round_no it' = Suc (round_no it) \<or> round_no it' = round_no it \<and> steps_left rs bs it' < steps_left rs bs it"
proof -
  have rep: "c \<in> set rs \<Longrightarrow> replica_ok it c" and bs: "c \<in> set rs \<Longrightarrow> c \<notin> set bs" for c
    using assms by (auto simp: iteration_inv_def loop_body_def)
  have body: "b \<in> set bs \<Longrightarrow> body_ok it b" for b using assms by (simp add: iteration_inv_def)
  have ended: "it_ended it c = round_no it" if "c \<in> set rs" "it_phase it c \<noteq> Waiting \<or> it_inbox it c \<noteq> []" for c
    using rep [OF that(1)] that(2) by (auto simp: replica_ok_def)
  have move: ?thesis if "c \<in> set rs" "it_phase it c \<noteq> Waiting \<or> it_inbox it c \<noteq> []" "it_phase it' = (it_phase it)(c := x)"
      "round_no it' = round_no it" "it_ended it' = it_ended it" "it_working it' = it_working it" "phase_steps x < phase_steps (it_phase it c)" for c x
    using that ended [OF that(1,2)] steps_left_less [of c rs it' it bs]
    by (auto simp: replica_steps_def body_steps_def)
  show ?thesis
    using assms(2)
  proof (cases rule: iteration_step.cases)
    case (end_round c)
    have "steps_left rs bs it' < steps_left rs bs it"
      by (rule steps_left_less [of c]) (use end_round ended [of c] bs in \<open>auto simp: replica_steps_def body_steps_def\<close>)
    with end_round show ?thesis by simp
  next
    case (begin_work b)
    have "it_ended it b \<noteq> Suc (round_no it)"
    proof
      assume "it_ended it b = Suc (round_no it)"
      with begin_work inv_generation [OF assms(1) body_host [OF assms(3) begin_work(2)]] show False
        by (auto simp: wait_for_update_def split: if_splits)
    qed
    with body [OF begin_work(2)] have "it_ended it b = round_no it" by (simp add: body_ok_def)
    then have "steps_left rs bs it' < steps_left rs bs it"
      by (intro body_steps_less [of b]) (use begin_work bs in \<open>auto simp: replica_steps_def body_steps_def\<close>)
    with begin_work show ?thesis by simp
  next
    case (end_work b)
    have "it_ended it b = round_no it" using body [OF end_work(2)] end_work(3) by (simp add: body_ok_def)
    then have "steps_left rs bs it' < steps_left rs bs it"
      by (intro body_steps_less [of b]) (use end_work bs in \<open>auto simp: replica_steps_def body_steps_def\<close>)
    moreover have "round_no it' = round_no it" using end_work by (simp add: round_no_def)
    ultimately show ?thesis by simp
  next
    case feedback
    with assms(1) show ?thesis by (simp add: iteration_inv_def)
  next
    case (arrive c r x)
    then show ?thesis by (intro move [of c "case r of Some g \<Rightarrow> AtBarrier g | None \<Rightarrow> Released"]) (auto split: option.splits)
  qed (rule move, (auto)[7])+
qed

text \<open>A replica that has not ended the round can move, or another replica of its host can.\<close>

lemma replica_progress:
  assumes "iteration_inv rs bs it" and "loop_body rs bs ups" and "c \<in> set rs" and "it_ended it c = round_no it"
    and "\<forall>g. it_phase it c \<noteq> AtBarrier g \<or> hs_barrier_generation (it_host it (host_id c)) \<noteq> g"
  shows "\<exists>it'. iteration_step rs bs ups it it'"
proof (cases "it_phase it c")
  case Iterating
  then show ?thesis using assms(3) by (blast intro: iteration_step.end_round)
next
  case Waiting
  moreover have "replica_ok it c" using assms(1,3) by (simp add: iteration_inv_def)
  ultimately obtain fb where "it_inbox it c = [fb]" using assms(4) by (auto simp: replica_ok_def)
  with Waiting show ?thesis using assms(3) by (blast intro: iteration_step.receive)
next
  case (Updating fb)
  then show ?thesis using assms(3)
    by (cases fb; cases "local_leader rs (host_id c) = c") (blast intro: iteration_step.set_leader iteration_step.set_other)+
next
  case Ready
  then show ?thesis using assms(3)
    by (cases "barrier_arrive (length (local_replicas rs (host_id c))) (it_host it (host_id c))") (blast intro: iteration_step.arrive)
next
  case (AtBarrier g)
  then show ?thesis using assms(3,5) by (blast intro: iteration_step.release)
next
  case Released
  show ?thesis
  proof (cases "local_leader rs (host_id c) = c")
    case True
    with Released inv_leader(2) [OF assms(1) local_nonempty [OF assms(3)]]
    have "Suc (hs_generation (it_host it (host_id c))) = 2 * round_no it" by simp
    then have "odd (hs_generation (it_host it (host_id c)))" by (metis even_Suc even_mult_iff even_numeral)
    with Released True assms(3) show ?thesis by (metis iteration_step.resume_leader state_unlock_ret)
  next
    case False
    with Released assms(3) show ?thesis by (blast intro: iteration_step.resume_other)
  qed
qed

lemma replicas_progress:
  assumes "iteration_inv rs bs it" and "loop_body rs bs ups" and "c \<in> set rs" and "it_ended it c = round_no it"
  shows "\<exists>it'. iteration_step rs bs ups it it'"
proof (cases "\<exists>g. it_phase it c = AtBarrier g \<and> hs_barrier_generation (it_host it (host_id c)) = g")
  case False
  with replica_progress [OF assms] show ?thesis by blast
next
  case True
  have loc: "c \<in> set (local_replicas rs (host_id c))" using assms(3) by (simp add: local_replicas_set)
  then have "\<not> barrier_open rs it (host_id c)" using True by (auto simp: barrier_open_def)
  moreover have "barrier_ok rs it (host_id c)" using assms(1) by (simp add: iteration_inv_def)
  ultimately have closed: "barrier_closed rs it (host_id c)"
    using local_nonempty [OF assms(3)] by (simp add: barrier_ok_def)
  then obtain d where d: "d \<in> set (local_replicas rs (host_id c))" "\<forall>g. it_phase it d \<noteq> AtBarrier g"
    by (auto simp: barrier_closed_def)
  moreover from closed d(1) have "it_ended it d = round_no it" by (simp add: barrier_closed_def)
  ultimately show ?thesis
    using replica_progress [OF assms(1,2), of d] by (auto simp: local_replicas_set)
qed

text \<open>When all the replicas have ended the round, an operator none of whose predecessors is behind can move.\<close>

lemma body_progress:
  assumes "iteration_inv rs bs it" and "loop_body rs bs ups" and "\<forall>c \<in> set rs. it_ended it c = Suc (round_no it)"
    and "b \<in> set bs" and "it_ended it b = round_no it"
  shows "\<exists>it'. iteration_step rs bs ups it it'"
proof -
  let ?edge = "{(u, b). b \<in> set bs \<and> u \<in> set (ups b) \<and> u \<in> set bs}" and ?late = "{b \<in> set bs. it_ended it b = round_no it}"
  have "?edge \<subseteq> set bs \<times> set bs" by auto
  then have "finite ?edge" by (rule finite_subset) simp
  then have "wf ?edge" using assms(2) by (intro finite_acyclic_wf) (simp_all add: loop_body_def)
  moreover have "b \<in> ?late" using assms(4,5) by simp
  ultimately obtain m where m: "m \<in> ?late" and min: "\<And>u. (u, m) \<in> ?edge \<Longrightarrow> u \<notin> ?late"
    by (rule wfE_min) blast
  show ?thesis
  proof (cases "it_working it m")
    case True
    have "it_ended it m < it_ended it u" if u: "u \<in> set (ups m)" for u
    proof (cases "u \<in> set bs")
      case True
      with min [of u] u m have "it_ended it u \<noteq> round_no it" by auto
      moreover have "body_ok it u" using assms(1) True by (simp add: iteration_inv_def)
      ultimately show ?thesis using m by (auto simp: body_ok_def)
    next
      case False
      moreover have "set (ups m) \<subseteq> set rs \<union> set bs" using assms(2) m by (simp add: loop_body_def)
      ultimately have "u \<in> set rs" using u by blast
      with assms(3) m show ?thesis by simp
    qed
    with True m show ?thesis by (blast intro: iteration_step.end_work)
  next
    case False
    have host: "local_replicas rs (host_id m) \<noteq> []" using body_host [OF assms(2)] m by simp
    then have "lock_ok rs it (host_id m)" "local_leader rs (host_id m) \<in> set rs"
      using assms(1) local_leader_in(1) by (auto simp: iteration_inv_def)
    with assms(3) host have "hs_generation (it_host it (host_id m)) = Suc (2 * round_no it)" by (simp add: lock_ok_def)
    with m have "wait_for_update (it_host it (host_id m)) (2 * it_ended it m) = ret ()" by (simp add: wait_for_update_def)
    with False m show ?thesis by (blast intro: iteration_step.begin_work)
  qed
qed

lemma iteration_progress:
  assumes "iteration_inv rs bs it" and "loop_body rs bs ups"
  shows "\<exists>it'. iteration_step rs bs ups it it'"
proof -
  have late: "it_ended it c = round_no it \<or> it_ended it c = length (it_states it)" if "c \<in> set rs \<union> set bs" for c
    using assms(1) that by (auto simp: iteration_inv_def replica_ok_def body_ok_def length_states)
  consider c where "c \<in> set rs" "it_ended it c = round_no it"
    | b where "\<forall>c \<in> set rs. it_ended it c = length (it_states it)" "b \<in> set bs" "it_ended it b = round_no it"
    | "\<forall>c \<in> set rs \<union> set bs. it_ended it c = length (it_states it)"
    using late by blast
  then show ?thesis
  proof cases
    case 1
    then show ?thesis by (rule replicas_progress [OF assms])
  next
    case 2
    then show ?thesis using body_progress [OF assms, of b] assms(1) by (auto simp: iteration_inv_def length_states)
  next
    case 3
    then show ?thesis by (blast intro: iteration_step.feedback)
  qed
qed

lemma run_rounds:
  assumes "(iteration_step rs bs ups ^^ n) it it'" and "iteration_inv rs bs it" and "loop_body rs bs ups"
  shows "round_no it < round_no it' \<or> round_no it' = round_no it \<and> steps_left rs bs it' + n \<le> steps_left rs bs it"
    and "iteration_inv rs bs it'"
  using assms
proof (induction n arbitrary: it')
  case (Suc n)
  case 1
  then obtain it1 where it1: "(iteration_step rs bs ups ^^ n) it it1" and "iteration_step rs bs ups it1 it'" by auto
  with Suc.IH(2) [OF it1 1(2,3)] Suc.IH(1) [OF it1 1(2,3)] step_decreases [of rs bs it1 ups it'] 1(3) show ?case by fastforce
  case 2
  then show ?case using Suc.IH(2) by (auto intro: inv_step)
qed simp_all

text \<open>
  C23: The rounds of an iteration never get stuck. In every state the threads can reach, whatever their
  interleaving, some thread can take a step; and after at most six steps per replica and two per
  operator, in whatever order they are taken, the leader has sent the answer that starts the next round.
\<close>

theorem iteration_rounds_progress:
  assumes "loop_body rs bs ups" and "iteration_reachable rs bs ups init it"
  shows "(\<exists>it'. iteration_step rs bs ups it it') \<and>
    (\<forall>n it'. (iteration_step rs bs ups ^^ n) it it' \<and> 6 * card (set rs) + 2 * card (set bs) < n
       \<longrightarrow> length (it_states it) < length (it_states it'))"
proof (intro conjI allI impI; (elim conjE)?)
  note inv = inv_reachable [OF assms(2,1)]
  show "\<exists>it'. iteration_step rs bs ups it it'" by (rule iteration_progress [OF inv assms(1)])
  fix n it'
  assume run: "(iteration_step rs bs ups ^^ n) it it'" and n: "6 * card (set rs) + 2 * card (set bs) < n"
  have "it_states it' \<noteq> []" using run_rounds(2) [OF run inv assms(1)] by (simp add: iteration_inv_def)
  moreover have "round_no it < round_no it'"
    using run_rounds(1) [OF run inv assms(1)] steps_left_le [of rs bs it] n by linarith
  ultimately show "length (it_states it) < length (it_states it')" by (simp add: round_no_def)
qed

theorem iteration_rounds_progress_witness:
  "\<exists>it'. iteration_step [Coord 2 0 0, Coord 2 0 1] [Coord 3 0 0] (\<lambda>_. [Coord 2 0 0, Coord 2 0 1]) (iteration_new (0::nat)) it'"
proof -
  have "loop_body [Coord 2 0 0, Coord 2 0 1] [Coord 3 0 0] (\<lambda>_. [Coord 2 0 0, Coord 2 0 1])"
    by (auto simp: loop_body_def intro!: acyclicI dest: tranclD)
  then show ?thesis by (rule iteration_rounds_progress [OF _ iteration_reachable.start, THEN conjunct1])
qed

end
