(* ===== verification/Replay.thy ===== *)
theory Replay
  imports Iteration_State
begin

text \<open>
  The operator that starts a replay loop (\<^verbatim>\<open>src/operator/iteration/replay.rs\<close>): it passes its input on and keeps it,
  and feeds the same data to the body again as long as the leader answers \<^verbatim>\<open>Continue\<close>. The state of the host is
  shared with the other replicas; here it changes only by this thread and during the wait at the barrier.
\<close>

section \<open>The operator\<close>

record ('r, 'a) replay =
  rp_coord :: coord
  rp_state :: "'r state_handler"
  rp_content :: "'a stream_element list"
  rp_content_index :: nat
  rp_input_finished :: bool

definition replay_new :: "nat \<Rightarrow> ('r, 'a) replay" where
  "replay_new leader_block_id =
     \<lparr>rp_coord = Coord 0 0 0, rp_state = handler_new leader_block_id, rp_content = [], rp_content_index = 0,
      rp_input_finished = False\<rparr>"

definition replay_setup :: "(topology \<Rightarrow> topology res) \<Rightarrow> type_id \<Rightarrow> coord \<Rightarrow> coord list \<Rightarrow> topology
    \<Rightarrow> (receiver_endpoint, 'a) replay \<Rightarrow> ((receiver_endpoint, 'a) replay \<times> topology) res" where
  "replay_setup prev_setup ty coord replicas tp rp =
     bindR (prev_setup tp) (\<lambda>tp.
       bindR (handler_setup ty coord replicas tp (rp_state rp)) (\<lambda>(sh, tp).
         ret (rp\<lparr>rp_coord := coord, rp_state := sh\<rparr>, tp)))"

definition replay_input_next :: "('s, 'a) pull \<Rightarrow> 's \<times> 'st host_state \<times> ('r, 'a) replay
    \<Rightarrow> ('a stream_element option \<times> 's \<times> 'st host_state \<times> ('r, 'a) replay) res" where
  "replay_input_next p w =
     (case w of (s, h, rp) \<Rightarrow>
        if rp_input_finished rp then ret (None, s, h, rp)
        else
          bindR (p s) (\<lambda>(el, s).
            case el of
              FlushAndRestart \<Rightarrow>
                let content = rp_content rp @ [FlushAndRestart] in
                ret (Some FlushAndRestart, s, state_lock h,
                     rp\<lparr>rp_input_finished := True, rp_content := content, rp_content_index := length content\<rparr>)
            | FlushBatch \<Rightarrow> ret (Some FlushBatch, s, h, rp)
            | Terminate \<Rightarrow> ret (Some Terminate, s, h, rp)
            | el \<Rightarrow> ret (Some el, s, h, rp\<lparr>rp_content := rp_content rp @ [el]\<rparr>)))"

text \<open>\<^verbatim>\<open>wait_update\<close>: the next answer of the leader; \<open>recv\<close> receives from the leader's channel.\<close>

partial_function (option) wait_update :: "('q \<Rightarrow> ('st state_feedback network_message \<times> 'q) res) \<Rightarrow> ('q, 'st state_feedback) gen" where
  "wait_update recv q =
     bindR (recv q) (\<lambda>(message, q).
       if num_items message = 1 then
         (case nm_data message ! 0 of
            Item fb \<Rightarrow> ret (fb, q)
          | FlushBatch \<Rightarrow> wait_update recv q
          | FlushAndRestart \<Rightarrow> wait_update recv q
          | _ \<Rightarrow> panic Unreachable)
       else panic AssertFailed)"

partial_function (option) replay_next :: "(nat \<Rightarrow> 'st host_state \<Rightarrow> 'st host_state res)
    \<Rightarrow> ('q \<Rightarrow> ('st state_feedback network_message \<times> 'q) res) \<Rightarrow> ('s, 'a) pull
    \<Rightarrow> ('s \<times> 'q \<times> 'st host_state \<times> ('r, 'a) replay, 'a) pull" where
  "replay_next barrier_wait recv p w =
     (case w of (s, q, h, rp) \<Rightarrow>
        bindR (replay_input_next p (s, h, rp)) (\<lambda>(value, s, h, rp).
          case value of
            Some value \<Rightarrow> ret (value, (s, q, h, rp))
          | None \<Rightarrow>
              if rp_content_index rp < length (rp_content rp) then
                let item = rp_content rp ! rp_content_index rp;
                    rp = rp\<lparr>rp_content_index := rp_content_index rp + 1\<rparr>
                in ret (item, (s, q, if item = FlushAndRestart then state_lock h else h, rp))
              else
                bindR (unwrapR (sh_new_state_receiver (rp_state rp))) (\<lambda>_.
                  bindR (wait_update recv q) (\<lambda>(state_update, q).
                    bindR (wait_sync_state barrier_wait state_update (rp_state rp) h) (\<lambda>(result, h).
                      replay_next barrier_wait recv p (s, q, h,
                        case result of
                          Finished \<Rightarrow> rp\<lparr>rp_content_index := 0, rp_content := [], rp_input_finished := False\<rparr>
                        | Continue \<Rightarrow> rp\<lparr>rp_content_index := 0\<rparr>))))))"

section \<open>What a loop sees\<close>

text \<open>
  The barrier is passed, and while the local leader waits there no other thread unlocks the state; for another replica
  the leader may already have done so. \<open>ld\<close> says whether this is the local leader.
\<close>

definition barrier_keeps_lock :: "bool \<Rightarrow> (nat \<Rightarrow> 'st host_state \<Rightarrow> 'st host_state res) \<Rightarrow> bool" where
  "barrier_keeps_lock ld bw \<longleftrightarrow> (\<forall>n h. \<exists>h'. bw n h = ret h' \<and> (ld \<and> odd (hs_generation h) \<longrightarrow> odd (hs_generation h')))"

definition replay_content :: "'a stream_element list \<Rightarrow> 'a stream_element list" where
  "replay_content seg = filter (\<lambda>e. e \<noteq> FlushBatch) seg"

text \<open>The operator when the current run of the loop has replayed \<open>c\<close>, and between two runs.\<close>

definition replay_between :: "bool \<Rightarrow> ('r, 'a) replay \<Rightarrow> bool" where
  "replay_between ld rp \<longleftrightarrow> sh_is_local_leader (rp_state rp) = ld \<and> \<not> rp_input_finished rp \<and> rp_content rp = [] \<and> sh_new_state_receiver (rp_state rp) \<noteq> None"

definition replay_ended :: "bool \<Rightarrow> 'a stream_element list \<Rightarrow> 'st host_state \<Rightarrow> ('r, 'a) replay \<Rightarrow> bool" where
  "replay_ended ld c h rp \<longleftrightarrow> sh_is_local_leader (rp_state rp) = ld \<and> rp_input_finished rp \<and> rp_content rp = c \<and> rp_content_index rp = length c
     \<and> sh_new_state_receiver (rp_state rp) \<noteq> None \<and> odd (hs_generation h)"

lemma state_lock_odd [simp]: "odd (hs_generation (state_lock h))"
  by (simp add: state_lock_generation)

lemma replay_input:
  assumes "pulls p s (seg @ [FlushAndRestart]) s1" and "data_only seg" and "\<not> rp_input_finished rp"
    and "sh_new_state_receiver (rp_state rp) \<noteq> None" and "sh_is_local_leader (rp_state rp) = ld"
  shows "\<exists>h1 rp1. pulls (replay_next bw recv p) (s, q, h, rp) (seg @ [FlushAndRestart]) (s1, q, h1, rp1)
     \<and> replay_ended ld (rp_content rp @ replay_content seg @ [FlushAndRestart]) h1 rp1"
  using assms
proof (induction seg arbitrary: s rp)
  case Nil
  then have "replay_next bw recv p (s, q, h, rp) = ret (FlushAndRestart, (s1, q, state_lock h,
      rp\<lparr>rp_input_finished := True, rp_content := rp_content rp @ [FlushAndRestart], rp_content_index := Suc (length (rp_content rp))\<rparr>))"
    by (subst replay_next.simps) (simp add: replay_input_next_def Let_def)
  with Nil show ?case by (auto simp: replay_ended_def replay_content_def)
next
  case (Cons e seg)
  then obtain s2 where e: "p s = ret (e, s2)" and rest: "pulls p s2 (seg @ [FlushAndRestart]) s1" by (auto simp: pulls_Cons_iff)
  let ?rp = "if e = FlushBatch then rp else rp\<lparr>rp_content := rp_content rp @ [e]\<rparr>"
  have "replay_next bw recv p (s, q, h, rp) = ret (e, (s2, q, h, ?rp))"
    using Cons.prems(2,3) e by (subst replay_next.simps) (cases e; simp add: replay_input_next_def)
  moreover have "data_only seg" and "\<not> rp_input_finished ?rp" and "sh_new_state_receiver (rp_state ?rp) \<noteq> None"
    and "sh_is_local_leader (rp_state ?rp) = ld"
    using Cons.prems(2-5) by simp_all
  from Cons.IH [OF rest this] obtain h1 rp1 where "pulls (replay_next bw recv p) (s2, q, h, ?rp) (seg @ [FlushAndRestart]) (s1, q, h1, rp1)"
    and "replay_ended ld (rp_content ?rp @ replay_content seg @ [FlushAndRestart]) h1 rp1"
    by blast
  ultimately show ?case by (auto simp: pulls_Cons_iff replay_content_def split: if_splits)
qed

lemma replay_content_again:
  assumes "rp_input_finished rp" and "rp_content rp = xs @ ys @ [FlushAndRestart]" and "rp_content_index rp = length xs"
    and "FlushAndRestart \<notin> set ys" and "sh_new_state_receiver (rp_state rp) \<noteq> None" and "sh_is_local_leader (rp_state rp) = ld"
  shows "\<exists>h1 rp1. pulls (replay_next bw recv p) (s, q, h, rp) (ys @ [FlushAndRestart]) (s, q, h1, rp1)
     \<and> replay_ended ld (xs @ ys @ [FlushAndRestart]) h1 rp1 \<and> rp_state rp1 = rp_state rp"
  using assms
proof (induction ys arbitrary: xs rp)
  case Nil
  then have "replay_next bw recv p (s, q, h, rp) = ret (FlushAndRestart, (s, q, state_lock h, rp\<lparr>rp_content_index := Suc (length xs)\<rparr>))"
    by (subst replay_next.simps) (simp add: replay_input_next_def Let_def)
  with Nil show ?case by (auto simp: replay_ended_def)
next
  case (Cons y ys)
  let ?rp = "rp\<lparr>rp_content_index := Suc (length xs)\<rparr>"
  have "replay_next bw recv p (s, q, h, rp) = ret (y, (s, q, h, ?rp))"
    using Cons.prems by (subst replay_next.simps) (auto simp: replay_input_next_def Let_def nth_append)
  moreover have "\<exists>h1 rp1. pulls (replay_next bw recv p) (s, q, h, ?rp) (ys @ [FlushAndRestart]) (s, q, h1, rp1)
     \<and> replay_ended ld ((xs @ [y]) @ ys @ [FlushAndRestart]) h1 rp1 \<and> rp_state rp1 = rp_state ?rp"
    by (rule Cons.IH) (use Cons.prems in auto)
  ultimately show ?case by (auto simp: pulls_Cons_iff)
qed

text \<open>The answer of the leader is passed on once the state is stored and the barrier is passed.\<close>

lemma wait_sync_state_ok:
  assumes "barrier_keeps_lock (sh_is_local_leader sh) bw" and "odd (hs_generation h)"
  shows "\<exists>h1. wait_sync_state bw (res, st) sh h = ret (res, h1)"
proof -
  let ?h = "if sh_is_local_leader sh then state_set st h else h"
  from assms(1) obtain h1 where h1: "bw (sh_num_local_replicas sh) ?h = ret h1"
    "sh_is_local_leader sh \<and> odd (hs_generation ?h) \<longrightarrow> odd (hs_generation h1)" by (auto simp: barrier_keeps_lock_def)
  with assms(2) show ?thesis
    by (cases "sh_is_local_leader sh") (auto simp: wait_sync_state_def state_unlock_def assertR_def odd_iff_mod_2_eq_one)
qed

text \<open>At the end of a round the next call takes the leader's answer first.\<close>

lemma replay_answer:
  assumes "replay_ended ld c h rp" and "barrier_keeps_lock ld bw" and "wait_update recv q = ret ((res, st), q1)"
  shows "\<exists>h1. replay_next bw recv p (s, q, h, rp) = replay_next bw recv p (s, q1, h1,
     case res of Finished \<Rightarrow> rp\<lparr>rp_content_index := 0, rp_content := [], rp_input_finished := False\<rparr>
               | Continue \<Rightarrow> rp\<lparr>rp_content_index := 0\<rparr>)"
proof -
  from assms(1,2) have "barrier_keeps_lock (sh_is_local_leader (rp_state rp)) bw" "odd (hs_generation h)" by (simp_all add: replay_ended_def)
  from wait_sync_state_ok [OF this] have "\<exists>h1. wait_sync_state bw (res, st) (rp_state rp) h = ret (res, h1)" .
  with assms(1,3) show ?thesis
    by (subst replay_next.simps) (auto simp: replay_input_next_def replay_ended_def)
qed

lemma replay_round:
  assumes "replay_ended ld (c @ [FlushAndRestart]) h rp" and "FlushAndRestart \<notin> set c" and "barrier_keeps_lock ld bw"
    and "wait_update recv q = ret ((Continue, st), q1)"
  shows "\<exists>h1 rp1. pulls (replay_next bw recv p) (s, q, h, rp) (c @ [FlushAndRestart]) (s, q1, h1, rp1)
     \<and> replay_ended ld (c @ [FlushAndRestart]) h1 rp1"
proof -
  from replay_answer [where p = p and s = s, OF assms(1,3,4)] obtain h1 where
    answer: "replay_next bw recv p (s, q, h, rp) = replay_next bw recv p (s, q1, h1, rp\<lparr>rp_content_index := 0\<rparr>)" by auto
  moreover have "\<exists>h2 rp2. pulls (replay_next bw recv p) (s, q1, h1, rp\<lparr>rp_content_index := 0\<rparr>) (c @ [FlushAndRestart]) (s, q1, h2, rp2)
     \<and> replay_ended ld ([] @ c @ [FlushAndRestart]) h2 rp2 \<and> rp_state rp2 = rp_state (rp\<lparr>rp_content_index := 0\<rparr>)"
    by (rule replay_content_again) (use assms(1,2) in \<open>auto simp: replay_ended_def\<close>)
  ultimately show ?thesis by (auto simp: pulls_start_cong [OF answer])
qed

lemma replay_rounds:
  assumes "replay_ended ld (c @ [FlushAndRestart]) h rp" and "FlushAndRestart \<notin> set c" and "barrier_keeps_lock ld bw"
    and "pulls (wait_update recv) q fbs q1" and "map fst fbs = replicate k Continue"
  shows "\<exists>h1 rp1. pulls (replay_next bw recv p) (s, q, h, rp) (concat (replicate k (c @ [FlushAndRestart]))) (s, q1, h1, rp1)
     \<and> replay_ended ld (c @ [FlushAndRestart]) h1 rp1"
  using assms(1,4,5)
proof (induction k arbitrary: q h rp fbs)
  case (Suc k)
  then obtain st fbs' where fbs: "fbs = (Continue, st) # fbs'" "map fst fbs' = replicate k Continue" by (cases fbs) auto
  with Suc.prems(2) obtain q2 where q2: "wait_update recv q = ret ((Continue, st), q2)" "pulls (wait_update recv) q2 fbs' q1"
    by (auto simp: pulls_Cons_iff)
  from replay_round [where p = p and s = s, OF Suc.prems(1) assms(2,3) q2(1)] obtain h2 rp2 where
    r2: "pulls (replay_next bw recv p) (s, q, h, rp) (c @ [FlushAndRestart]) (s, q2, h2, rp2)" "replay_ended ld (c @ [FlushAndRestart]) h2 rp2"
    by blast
  from Suc.IH [OF r2(2) q2(2) fbs(2)] r2(1) show ?case
    by (simp del: append_assoc) (blast intro: pulls_appendI)
qed (auto simp: replay_ended_def)

lemma replay_run:
  assumes "replay_between ld rp" and "barrier_keeps_lock ld bw" and "data_only seg" and "pulls p s (seg @ [FlushAndRestart]) s1"
    and "pulls (wait_update recv) q fbs q1" and "map fst fbs = replicate k Continue @ [Finished]"
  shows "\<exists>st2 rp2 h2. pulls (replay_next bw recv p) (s, q, h, rp)
       (seg @ [FlushAndRestart] @ concat (replicate k (replay_content seg @ [FlushAndRestart]))) st2
     \<and> replay_next bw recv p st2 = replay_next bw recv p (s1, q1, h2, rp2) \<and> replay_between ld rp2"
proof -
  let ?c = "replay_content seg"
  from assms(1) replay_input [OF assms(4,3), of rp ld bw recv q h] obtain h1 rp1 where
    first: "pulls (replay_next bw recv p) (s, q, h, rp) (seg @ [FlushAndRestart]) (s1, q, h1, rp1)"
      "replay_ended ld (?c @ [FlushAndRestart]) h1 rp1" by (auto simp: replay_between_def)
  from assms(6) obtain fbs1 st where fbs: "fbs = fbs1 @ [(Finished, st)]" "map fst fbs1 = replicate k Continue"
    by (cases fbs rule: rev_cases) auto
  with assms(5) obtain q2 where q2: "pulls (wait_update recv) q fbs1 q2" "wait_update recv q2 = ret ((Finished, st), q1)"
    by (auto simp: pulls_append)
  have "FlushAndRestart \<notin> set ?c" using assms(3) by (auto simp: replay_content_def data_only_def list_all_iff)
  from replay_rounds [where p = p and s = s1, OF first(2) this assms(2) q2(1) fbs(2)] obtain h2 rp2 where
    rounds: "pulls (replay_next bw recv p) (s1, q, h1, rp1) (concat (replicate k (?c @ [FlushAndRestart]))) (s1, q2, h2, rp2)"
      "replay_ended ld (?c @ [FlushAndRestart]) h2 rp2" by blast
  from replay_answer [where p = p and s = s1, OF rounds(2) assms(2) q2(2)] obtain h3 where
    "replay_next bw recv p (s1, q2, h2, rp2) = replay_next bw recv p (s1, q1, h3,
       rp2\<lparr>rp_content_index := 0, rp_content := [], rp_input_finished := False\<rparr>)" by auto
  moreover have "replay_between ld (rp2\<lparr>rp_content_index := 0, rp_content := [], rp_input_finished := False\<rparr>)"
    using rounds(2) by (simp add: replay_between_def replay_ended_def)
  moreover have "pulls (replay_next bw recv p) (s, q, h, rp)
      (seg @ [FlushAndRestart] @ concat (replicate k (?c @ [FlushAndRestart]))) (s1, q2, h2, rp2)"
    using pulls_appendI [OF first(1) rounds(1)] by simp
  ultimately show ?thesis by blast
qed

definition replayed :: "'a stream_element list \<Rightarrow> nat \<Rightarrow> 'a stream_element list list" where
  "replayed seg k = seg # replicate k (replay_content seg)"

lemma replay_stream:
  assumes "barrier_keeps_lock ld bw" and "length ks = length segs" and "list_all data_only segs"
    and "pulls p s (unsegment segs) s'" and "pulls (wait_update recv) q fbs q'"
    and "map fst fbs = concat (map (\<lambda>k. replicate k Continue @ [Finished]) ks)" and "replay_between ld rp"
  shows "\<exists>st'. pulls (replay_next bw recv p) (s, q, h, rp) (unsegment (concat (map2 replayed segs ks))) st'"
  using assms(2-)
proof (induction ks segs arbitrary: s q h rp fbs rule: list_induct2)
  case Nil
  then have "replay_next bw recv p (s, q, h, rp) = ret (Terminate, (s', q, h, rp))"
    by (subst replay_next.simps) (simp add: unsegment_def replay_input_next_def replay_between_def)
  then show ?case by (auto simp: unsegment_def)
next
  case (Cons k ks seg segs)
  from Cons.prems(2) obtain s1 where s1: "pulls p s (seg @ [FlushAndRestart]) s1" "pulls p s1 (unsegment segs) s'"
    by (auto simp: unsegment_Cons pulls_append simp del: append_assoc)
  from Cons.prems(4) have "\<exists>fbs1 fbs2. fbs = fbs1 @ fbs2 \<and> replicate k Continue @ [Finished] = map fst fbs1
      \<and> concat (map (\<lambda>k. replicate k Continue @ [Finished]) ks) = map fst fbs2"
    by (subst map_eq_append_conv [symmetric]) simp
  then obtain fbs1 fbs2 where fbs: "fbs = fbs1 @ fbs2" "map fst fbs1 = replicate k Continue @ [Finished]"
    "map fst fbs2 = concat (map (\<lambda>k. replicate k Continue @ [Finished]) ks)"
    by metis
  with Cons.prems(3) obtain q1 where q1: "pulls (wait_update recv) q fbs1 q1" "pulls (wait_update recv) q1 fbs2 q'"
    by (auto simp: pulls_append)
  from Cons.prems(1) have "data_only seg" and rest: "list_all data_only segs" by simp_all
  from replay_run [OF Cons.prems(5) assms(1) this(1) s1(1) q1(1) fbs(2), of h] obtain st2 rp2 h2 where
    run: "pulls (replay_next bw recv p) (s, q, h, rp) (seg @ [FlushAndRestart] @ concat (replicate k (replay_content seg @ [FlushAndRestart]))) st2"
    and answer: "replay_next bw recv p st2 = replay_next bw recv p (s1, q1, h2, rp2)" and rp2: "replay_between ld rp2" by blast
  from Cons.IH [OF rest s1(2) q1(2) fbs(3) rp2, of h2] obtain st' where
    "pulls (replay_next bw recv p) (s1, q1, h2, rp2) (unsegment (concat (map2 replayed segs ks))) st'" by blast
  then have "pulls (replay_next bw recv p) st2 (unsegment (concat (map2 replayed segs ks))) st'"
    by (subst pulls_start_cong [OF answer]) (simp_all add: unsegment_def)
  from pulls_appendI [OF run this] show ?case
    by (intro exI [of _ st']) (simp add: unsegment_def replayed_def)
qed

text \<open>
  C26: A replay loop feeds its body exactly the rounds the leader asks for. The input of each run of the
  loop passes through once, and once more (its flushes left out) for every \<^verbatim>\<open>Continue\<close>; after
  \<^verbatim>\<open>Finished\<close> the next run starts with nothing left of the previous one.
\<close>

theorem replay_replays:
  assumes "wf_stream es" and "pulls p s es s'" and "length ks = length (iterations es)"
    and "pulls (wait_update recv) q fbs q'" and "map fst fbs = concat (map (\<lambda>k. replicate k Continue @ [Finished]) ks)"
    and "barrier_keeps_lock ld bw" and "replay_between ld rp"
  shows "\<exists>st'. pulls (replay_next bw recv p) (s, q, h, rp) (unsegment (concat (map2 replayed (iterations es) ks))) st'"
proof (rule replay_stream [OF assms(6,3) _ _ assms(4,5,7)])
  show "list_all data_only (iterations es)" using wf_stream_unsegment(2) [OF assms(1)] by (simp add: list_all_iff)
  show "pulls p s (unsegment (iterations es)) s'" using assms(2) wf_stream_unsegment(1) [OF assms(1)] by simp
qed

theorem replay_replays_witness:
  "\<exists>st'. pulls (replay_next (\<lambda>_ h. ret h) (\<lambda>q. case q of [] \<Rightarrow> None | m # q \<Rightarrow> ret (m, q)) fake_next)
     ([Item 7, FlushBatch, FlushAndRestart, Terminate],
      [new_single (Item (Continue, 1::nat)) default_coord, new_single FlushBatch default_coord, new_single (Item (Finished, 0)) default_coord],
      host_state_new 0, (replay_new 2)\<lparr>rp_state := (handler_new 2)\<lparr>sh_new_state_receiver := Some (), sh_is_local_leader := True\<rparr>\<rparr>)
     [Item (7::nat), FlushBatch, FlushAndRestart, Item 7, FlushAndRestart, Terminate] st'"
proof -
  let ?recv = "\<lambda>q. case q of [] \<Rightarrow> None | m # q \<Rightarrow> ret (m, q)"
  let ?q = "[new_single (Item (Continue, 1::nat)) default_coord, new_single FlushBatch default_coord, new_single (Item (Finished, 0)) default_coord]"
  have fbs: "pulls (wait_update ?recv) ?q [(Continue, 1), (Finished, 0)] []"
    by (simp add: pulls_Cons_iff) (subst wait_update.simps, simp add: new_single_def num_items_def,
      subst wait_update.simps, simp, subst wait_update.simps, simp add: num_items_def)
  show ?thesis
    using replay_replays [where ks = "[1]" and p = fake_next and bw = "\<lambda>_ h. ret h" and ld = True and h = "host_state_new 0" and s' = "[]"
        and es = "[Item (7::nat), FlushBatch, FlushAndRestart, Terminate]" and s = "[Item (7::nat), FlushBatch, FlushAndRestart, Terminate]"
        and rp = "(replay_new 2)\<lparr>rp_state := (handler_new 2)\<lparr>sh_new_state_receiver := Some (), sh_is_local_leader := True\<rparr>\<rparr>", OF _ _ _ fbs]
    by (simp add: iterations_def wf_stream_def pulls_Cons_iff barrier_keeps_lock_def replay_between_def replay_new_def handler_new_def
        replayed_def replay_content_def unsegment_def)
qed

end
