(* ===== verification/Group_By.thy ===== *)
theory Group_By
  imports Basic_Operators Folds End_Block Start
begin

text \<open>
  Two blocks connected by a shuffle on keys, from the operators of the first to those of the second: the
  two-phase aggregation \<^verbatim>\<open>group_by_fold\<close> of \<^verbatim>\<open>src/operator/mod.rs\<close>. Every replica of the first block folds its
  own elements by key and sends each key's result to the replica the key's hash chooses, which folds
  what it gets from all of them. The hash function, \<^verbatim>\<open>group_by_hash\<close>, is a parameter.
\<close>

section \<open>The stream that is built\<close>

definition group_by_fold_strategy :: "('k \<Rightarrow> nat) \<Rightarrow> ('k \<times> 'o) next_strategy" where
  "group_by_fold_strategy group_by_hash = GroupBy (\<lambda>(key, _). group_by_hash key)"

definition group_by_fold_local :: "(('k, 'o) hmap \<Rightarrow> ('k, 'o) hmap) \<Rightarrow> ('a \<Rightarrow> 'k) \<Rightarrow> 'o \<Rightarrow> ('o \<Rightarrow> 'a \<Rightarrow> 'o)
    \<Rightarrow> ('s, 'a) pull \<Rightarrow> (('s, 'k, 'o) keyed_fold, 'k \<times> 'o) pull" where
  "group_by_fold_local ho keyer init local prev = keyed_fold_next ho local init (key_by_next keyer prev)"

definition group_by_fold_global :: "(('k, 'o) hmap \<Rightarrow> ('k, 'o) hmap) \<Rightarrow> 'o \<Rightarrow> ('o \<Rightarrow> 'o \<Rightarrow> 'o)
    \<Rightarrow> ('s, 'k \<times> 'o) pull \<Rightarrow> (('s, 'k, 'o) keyed_fold, 'k \<times> 'o) pull" where
  "group_by_fold_global ho init global prev = keyed_fold_next ho global init prev"

text \<open>The local part is a chain of two operators, with the contract of the composition.\<close>

interpretation local_chain: operator_chain "\<lambda>s. s" "key_by_next keyer" "map (elem_map (\<lambda>t. (keyer t, t)))" "\<lambda>_. True"
  keyed_fold_new "keyed_fold_next (\<lambda>m. m) local init" "keyed_fold_sem (\<lambda>m. m) local init" "\<lambda>_. True"
  for keyer :: "'a \<Rightarrow> 'k" and local :: "'o \<Rightarrow> 'a \<Rightarrow> 'o" and init
  by unfold_locales

lemma group_by_fold_local_completes:
  assumes "wf_stream es" and "pulls prev s es s'"
  shows "\<exists>st'. do_work (group_by_fold_local (\<lambda>m. m) keyer init local prev) (keyed_fold_new s) = ret st'"
  using local_chain.chain.worker_completes [OF assms(1) _ assms(2)] by (simp add: group_by_fold_local_def)

section \<open>What a replica sends to an endpoint\<close>

lemma pulls_prefix:
  assumes "pulls p s xs s1" and "pulls p s ys s2" and "length xs \<le> length ys"
  shows "xs = take (length xs) ys"
  using assms
proof (induction xs arbitrary: s ys)
  case (Cons x xs)
  then show ?case by (cases ys) (auto simp: pulls_Cons_iff)
qed simp

text \<open>Two runs of a source up to its \<^verbatim>\<open>Terminate\<close> are the same.\<close>

lemma pulls_terminated:
  fixes p :: "('s, 'a) pull"
  assumes "pulls p s (xs @ [Terminate]) s1" and "pulls p s (ys @ [Terminate]) s2"
    and "Terminate \<notin> set xs" and "Terminate \<notin> set ys"
  shows "xs = ys"
proof -
  have le: "length ys \<le> length xs"
    if "pulls p s (xs @ [Terminate]) s1" "pulls p s (ys @ [Terminate]) s2" "Terminate \<notin> set ys" for xs ys s1 s2
  proof (rule ccontr)
    assume less: "\<not> length ys \<le> length xs"
    then have "xs @ [Terminate] = take (Suc (length xs)) ys"
      using pulls_prefix [OF that(1,2)] by simp
    with that(3) show False by (metis in_set_conv_decomp in_set_takeD)
  qed
  from le [OF assms(1,2,4)] le [OF assms(2,1,3)] have "length xs = length ys" by simp
  with pulls_prefix [OF assms(1,2)] show ?thesis by simp
qed

definition group_index :: "('a \<Rightarrow> nat) \<Rightarrow> 'a stream_element \<Rightarrow> nat" where
  "group_index f m = (case elem_value m of None \<Rightarrow> 0 | Some x \<Rightarrow> f x)"

lemma end_reach_pulls:
  assumes "end_reach ho rng prev c t0 endpoints st0 hist fin st"
    and ho: "hash_order ho" and fresh: "end_fresh c endpoints st0"
  shows "pulls prev (en_prev st0) (map fst hist) (en_prev st) \<and> (en_strategy st0 = GroupBy f \<longrightarrow> hist = map (\<lambda>m. (m, group_index f m)) (map fst hist))
    \<and> Terminate \<notin> set (map fst (if fin then butlast hist else hist)) \<and> (fin \<longrightarrow> hist \<noteq> [] \<and> fst (last hist) = Terminate)"
  using assms(1)
proof (induction rule: end_reach.induct)
  case (init st)
  then show ?case using end_setup_ok [OF ho fresh, of t0] by auto
next
  case (step hist st m s' now v st')
  have inv: "end_ready ho (en_strategy st0) (destinations (en_ignore st0) endpoints) (en_feedback st0) st"
    "senders_hold c (destinations (en_ignore st0) endpoints)
       (received (en_strategy st0) (destinations (en_ignore st0) endpoints) (en_feedback st0) hist) (en_net st) (en_senders st)"
    using end_reach_invariant [OF step(1) ho fresh] by (simp_all add: end_invariant_def)
  have "distinct (destinations (en_ignore st0) endpoints)" using fresh by (simp add: end_fresh_def)
  from end_next_ok [where prev = prev, OF ho this inv step(2), of rng now] step(3) have "en_prev st' = s'" by auto
  moreover have "chosen_index rng st m = group_index f m" if "en_strategy st0 = GroupBy f"
    using inv(1) that by (auto simp: chosen_index_def group_index_def end_ready_def split: option.split)
  ultimately show ?case using step by (auto intro: pulls_appendI)
qed auto

text \<open>When the operator has ended, it has taken the stream up to its end.\<close>

lemma end_reach_body:
  assumes reach: "end_reach ho rng prev c t0 eps st0 hist True st" and ho: "hash_order ho" and fresh: "end_fresh c eps st0"
    and es: "pulls prev (en_prev st0) (body @ [Terminate]) s'" "Terminate \<notin> set body"
  shows "map fst hist = body @ [Terminate]"
proof -
  have p: "pulls prev (en_prev st0) (map fst hist) (en_prev st)"
    and last: "hist \<noteq> []" "fst (last hist) = Terminate" "Terminate \<notin> set (map fst (butlast hist))"
    using end_reach_pulls [OF reach ho fresh] by (blast, blast, blast, simp)
  have "map fst hist = map fst (butlast hist) @ [Terminate]"
    using last by (metis append_butlast_last_id list.map(1) list.simps(9) map_append)
  with p es last(3) show ?thesis using pulls_terminated by metis
qed

text \<open>The elements of a stream that go to an endpoint; every watermark and end marker does.\<close>

definition goes_to :: "('a \<Rightarrow> nat) \<Rightarrow> receiver_endpoint list \<Rightarrow> receiver_endpoint \<Rightarrow> 'a stream_element \<Rightarrow> bool" where
  "goes_to f eps ep m = (case elem_value m of Some x \<Rightarrow> ep = eps ! (f x mod length eps) | None \<Rightarrow> m \<noteq> FlushBatch)"

text \<open>The endpoints of the replicas of one block, in order.\<close>

definition block_endpoints :: "receiver_endpoint list \<Rightarrow> bool" where
  "block_endpoints eps \<longleftrightarrow> sorted eps \<and> (\<forall>e \<in> set eps. \<forall>e' \<in> set eps. ep_block e = ep_block e')"

lemma end_delivers:
  assumes reach: "end_reach ho rng prev c t0 eps st0 hist True st" and ho: "hash_order ho"
    and fresh: "end_fresh c eps st0" and st0: "en_strategy st0 = GroupBy f" "en_ignore st0 = []" "en_feedback st0 = None"
    and eps: "block_endpoints eps" and ep: "ep \<in> set eps"
    and es: "pulls prev (en_prev st0) (body @ [Terminate]) s'" "Terminate \<notin> set body"
  shows "delivered (en_net st) ep c = filter (goes_to f eps ep) (body @ [Terminate])"
proof -
  have hist: "hist = map (\<lambda>m. (m, group_index f m)) (map fst hist)" using end_reach_pulls [OF reach ho fresh, of f] st0(1) by blast
  have body: "map fst hist = body @ [Terminate]" by (rule end_reach_body [OF reach ho fresh es])
  have eps': "destinations [] eps = eps" using eps by (simp add: destinations_def block_endpoints_def sorted_sort_id)
  have reps: "replicas eps ep = eps" using eps ep unfolding replicas_def block_endpoints_def by (intro filter_True) blast
  have "end_invariant ho c (GroupBy f) eps None hist True st"
    using end_reach_invariant [OF reach ho fresh] st0 eps' by simp
  then have "delivered (en_net st) ep c = received (GroupBy f) eps None hist ep"
    using ep by (simp add: end_invariant_def senders_ended_def)
  also have "\<dots> = map fst (filter (routed (GroupBy f) eps None ep) (map (\<lambda>m. (m, group_index f m)) (map fst hist)))"
    unfolding received_def by (rule arg_cong [OF hist])
  also have "\<dots> = filter (goes_to f eps ep) (body @ [Terminate])"
    unfolding body filter_map map_map
    by (simp add: comp_def routed_def goes_to_def chosen_replica_def reps group_index_def cong: filter_cong option.case_cong)
  finally show ?thesis .
qed

section \<open>What the next block receives\<close>

text \<open>\<^verbatim>\<open>Start\<close> reads the queue of its endpoint, with a fake message for every timeout.\<close>

definition timeout_message :: "'a network_message" where
  "timeout_message = new_single FlushBatch default_coord"

definition reads_queue :: "'a network \<Rightarrow> receiver_endpoint \<Rightarrow> 'a network_message list \<Rightarrow> bool" where
  "reads_queue net ep ms \<longleftrightarrow> filter (\<lambda>m. m \<noteq> timeout_message) ms = nt_queue net ep
     \<and> ms \<noteq> [] \<and> last ms \<noteq> timeout_message \<and> nm_data (last ms) \<noteq> []"

lemma arrivals_from_sender:
  "Start.from_sender c (arrivals ms) =
     filter (\<lambda>e. e \<noteq> FlushBatch) (concat (map nm_data (filter (\<lambda>m. nm_sender m = c) (filter (\<lambda>m. m \<noteq> timeout_message) ms))))"
proof (induction ms)
  case (Cons m ms)
  have "Start.from_sender c (map (Pair (nm_sender m)) (nm_data m)) = (if nm_sender m = c then filter (\<lambda>e. e \<noteq> FlushBatch) (nm_data m) else [])"
    by (auto simp: Start.from_sender_def filter_map comp_def)
  with Cons show ?case
    by (cases "m = timeout_message") (auto simp: arrivals_def timeout_message_def new_single_def)
qed (simp add: arrivals_def Start.from_sender_def)

lemma reads_from_sender:
  "reads_queue net ep ms \<Longrightarrow> Start.from_sender c (arrivals ms) = filter (\<lambda>e. e \<noteq> FlushBatch) (delivered net ep c)"
  by (simp add: arrivals_from_sender reads_queue_def delivered_def Batcher.from_sender_def)

lemma reads_known:
  assumes "reads_queue net ep ms" and "\<forall>m \<in> set (nt_queue net ep). nm_sender m \<in> set cs"
  shows "list_all (known_sender cs) (arrivals ms)"
proof -
  have known: "known_sender cs (nm_sender m, e)" if "m \<in> set ms" "e \<in> set (nm_data m)" for m e
  proof (cases "m = timeout_message")
    case True
    with that(2) show ?thesis by (simp add: timeout_message_def new_single_def)
  next
    case False
    then have "m \<in> set (filter (\<lambda>m. m \<noteq> timeout_message) ms)" using that(1) by simp
    then have "m \<in> set (nt_queue net ep)" using assms(1) unfolding reads_queue_def by argo
    then have "nm_sender m \<in> set cs" using assms(2) by blast
    then show ?thesis by (cases e) auto
  qed
  then show ?thesis by (auto simp: list_all_iff arrivals_def)
qed

lemma reads_last:
  assumes "reads_queue net ep ms"
  shows "last ms \<in> set (nt_queue net ep)"
    and "snd (last (arrivals ms)) = last (delivered net ep (nm_sender (last ms)))"
proof -
  let ?m = "last ms"
  have ne: "ms \<noteq> []" "nm_data ?m \<noteq> []" "?m \<noteq> timeout_message"
    and q: "nt_queue net ep = filter (\<lambda>m. m \<noteq> timeout_message) ms"
    using assms by (auto simp: reads_queue_def)
  have ms: "ms = butlast ms @ [?m]" using ne(1) by simp
  then have "filter (\<lambda>m. m \<noteq> timeout_message) ms = filter (\<lambda>m. m \<noteq> timeout_message) (butlast ms @ [?m])" by (rule arg_cong)
  also have "\<dots> = filter (\<lambda>m. m \<noteq> timeout_message) (butlast ms) @ filter (\<lambda>m. m \<noteq> timeout_message) [?m]" by (rule filter_append)
  finally have queue: "nt_queue net ep = filter (\<lambda>m. m \<noteq> timeout_message) (butlast ms) @ [?m]"
    unfolding q using ne(3) by simp
  then show "?m \<in> set (nt_queue net ep)" by simp
  from queue have "delivered net ep (nm_sender ?m) = concat (map nm_data (filter (\<lambda>m. nm_sender m = nm_sender ?m)
        (filter (\<lambda>m. m \<noteq> timeout_message) (butlast ms)))) @ nm_data ?m"
    by (simp add: delivered_def Batcher.from_sender_def del: filter_filter)
  moreover have "arrivals ms = arrivals (butlast ms @ [?m])" by (rule arg_cong [OF ms])
  then have "arrivals ms = arrivals (butlast ms) @ map (Pair (nm_sender ?m)) (nm_data ?m)"
    unfolding arrivals_def by (simp del: append_butlast_last_id)
  ultimately show "snd (last (arrivals ms)) = last (delivered net ep (nm_sender ?m))"
    using ne(2) by (simp add: last_map)
qed

lemma suffix_no_restart:
  assumes "xs @ ys = d @ [FlushAndRestart, Terminate]" and "FlushAndRestart \<notin> set ys"
  shows "ys = [] \<or> ys = [Terminate]"
proof (cases "length ys \<le> 1")
  case True
  then show ?thesis using arg_cong [OF assms(1), of last] by (cases ys) auto
next
  case False
  then have "length xs \<le> length d" using arg_cong [OF assms(1), of length] by simp
  then have "ys = drop (length xs) d @ [FlushAndRestart, Terminate]"
    using arg_cong [OF assms(1), of "drop (length xs)"] by simp
  with assms(2) show ?thesis by simp
qed

text \<open>One iteration and the end of every sender split at the last end marker.\<close>

lemma split_final:
  assumes cs: "cs \<noteq> []" and known: "list_all (known_sender cs) xs" and last: "xs \<noteq> []" "snd (last xs) = Terminate"
    and from_c: "\<And>c. c \<in> set cs \<Longrightarrow> Start.from_sender c xs = d c @ [FlushAndRestart, Terminate]"
    and data: "\<And>c. c \<in> set cs \<Longrightarrow> data_only (d c) \<and> respects_watermarks (d c)"
  obtains r closing where "xs = r @ closing" and "final_input cs r closing"
    and "\<And>c. c \<in> set cs \<Longrightarrow> Start.from_sender c closing = [] \<or> Start.from_sender c closing = [Terminate]"
proof -
  have "\<exists>x \<in> set xs. snd x = FlushAndRestart"
  proof -
    obtain c where "c \<in> set cs" using cs by (cases cs) auto
    then have "FlushAndRestart \<in> set (Start.from_sender c xs)" using from_c by simp
    then show ?thesis by (force simp: Start.from_sender_def)
  qed
  then obtain r x closing where xs: "xs = r @ x # closing" "snd x = FlushAndRestart" "\<forall>y \<in> set closing. snd y \<noteq> FlushAndRestart"
    using split_list_last_prop [of xs "\<lambda>x. snd x = FlushAndRestart"] by metis
  have rest: "Start.from_sender c closing = [] \<or> Start.from_sender c closing = [Terminate]" if "c \<in> set cs" for c
  proof (rule suffix_no_restart)
    show "Start.from_sender c (r @ [x]) @ Start.from_sender c closing = d c @ [FlushAndRestart, Terminate]"
      using from_c [OF that] unfolding xs(1) by (cases x) auto
    show "FlushAndRestart \<notin> set (Start.from_sender c closing)" using xs(3) by (auto simp: Start.from_sender_def)
  qed
  have ends: "snd y = Terminate \<or> snd y = FlushBatch" if "y \<in> set closing" for y
  proof (rule ccontr)
    assume no: "\<not> ?thesis"
    obtain s e where y: "y = (s, e)" by fastforce
    have "known_sender cs y" using known that xs(1) by (simp add: list_all_iff)
    then have "s \<in> set cs" using no y by (cases e) auto
    moreover have "e \<in> set (Start.from_sender s closing)" using that y no by (force simp: Start.from_sender_def)
    ultimately show False using rest [of s] no y by auto
  qed
  have "closing \<noteq> []" using last(2) xs by auto
  moreover from this have "snd (List.last closing) = Terminate" using last(2) xs by simp
  moreover have "list_all (\<lambda>c. let d = Start.from_sender c xs in
         d \<noteq> [] \<and> List.last d = Terminate \<and> butlast d \<noteq> [] \<and> List.last (butlast d) = FlushAndRestart
         \<and> data_only (butlast (butlast d)) \<and> respects_watermarks (butlast (butlast d))) cs"
    using data by (simp add: list_all_iff from_c butlast_append Let_def)
  moreover have "(r @ [x]) @ closing = xs" using xs(1) by simp
  ultimately have "final_input cs (r @ [x]) closing"
    using known xs(2) ends by (simp add: final_input_def list_all_iff)
  then show ?thesis using that [of "r @ [x]" closing] xs(1) rest by auto
qed

lemma sum_mset_empty: "finite S \<Longrightarrow> (\<Sum>c \<in> S. f c) = {#} \<longleftrightarrow> (\<forall>c \<in> S. f c = {#})"
  by (induction S rule: finite_induct) auto

lemma payload_by_sender:
  assumes "list_all (known_sender cs) xs"
  shows "mset (payload (map snd xs)) = (\<Sum>c \<in> set cs. mset (payload (Start.from_sender c xs)))"
  using assms
proof (induction xs)
  case (Cons x xs)
  obtain s e where x: "x = (s, e)" by fastforce
  show ?case
  proof (cases "elem_value e = None")
    case True
    then have "payload (Start.from_sender c (x # xs)) = payload (Start.from_sender c xs)" for c by (simp add: x)
    with True Cons show ?thesis by (simp add: x)
  next
    case False
    then have "known_sender cs (s, e) \<longleftrightarrow> s \<in> set cs" and fb: "e \<noteq> FlushBatch" by (cases e; simp)+
    with Cons.prems x have s: "s \<in> set cs" by simp
    have "mset (payload (Start.from_sender c (x # xs))) = (if c = s then {# e #} else {#}) + mset (payload (Start.from_sender c xs))" for c
      using False fb by (simp add: x)
    then have "(\<Sum>c \<in> set cs. mset (payload (Start.from_sender c (x # xs)))) =
        (\<Sum>c \<in> set cs. if c = s then {# e #} else {#}) + (\<Sum>c \<in> set cs. mset (payload (Start.from_sender c xs)))"
      by (simp add: sum.distrib)
    also have "(\<Sum>c \<in> set cs. if c = s then {# e #} else {#}) = {# e #}" using s by (simp add: sum.delta)
    finally show ?thesis using False Cons by (simp add: x)
  qed
qed (simp add: Start.from_sender_def)

lemma key_values_Cons:
  "key_values k (e # es) = (case elem_value e of Some (k', v) \<Rightarrow> if k' = k then v # key_values k es else key_values k es
     | None \<Rightarrow> key_values k es)"
  by (cases e) (auto simp: key_values_def key_elems_def)

definition key_part :: "'k \<Rightarrow> ('k \<times> 'v) stream_element multiset \<Rightarrow> 'v multiset" where
  "key_part k M = image_mset (\<lambda>e. snd (the (elem_value e))) (filter_mset (\<lambda>e. elem_key e = Some k) M)"

lemma key_values_payload: "mset (key_values k es) = key_part k (mset (payload es))"
proof (induction es)
  case (Cons e es)
  then show ?case by (cases e) (auto simp: key_values_Cons key_part_def)
qed (simp add: key_part_def)

lemma key_part_sum: "finite S \<Longrightarrow> key_part k (\<Sum>c \<in> S. f c) = (\<Sum>c \<in> S. key_part k (f c))"
  by (induction S rule: finite_induct) (auto simp: key_part_def)

text \<open>
  The stream of a receiving replica: one iteration, whose data are exactly the data that the sending
  replicas addressed to it.
\<close>

lemma exchange_received:
  assumes cs: "distinct cs" "cs \<noteq> []" and lock: "lock_returns lock"
    and ms: "pulls (start_fetch recv recv_timeout md) (False, rcv) ms q" "reads_queue net ep ms"
    and queue: "\<forall>m \<in> set (nt_queue net ep). nm_sender m \<in> set cs"
    and sent: "\<And>c. c \<in> set cs \<Longrightarrow> delivered net ep c = d c @ [FlushAndRestart, Terminate]"
    and data: "\<And>c. c \<in> set cs \<Longrightarrow> data_only (d c) \<and> respects_watermarks (d c) \<and> FlushBatch \<notin> set (d c)"
  shows "\<exists>out fb st'. pulls (start_next recv recv_timeout) (start_setup coord md rcv cs (start_new rcv0 lock))
      (out @ [FlushAndRestart] @ fb @ [Terminate]) st'
    \<and> data_only out \<and> respects_watermarks out \<and> set fb \<subseteq> {FlushBatch}
    \<and> mset (payload out) = (\<Sum>c \<in> set cs. mset (payload (d c)))"
proof -
  let ?xs = "arrivals ms"
  have no_fb: "filter (\<lambda>e. e \<noteq> FlushBatch) (d c) = d c" if "c \<in> set cs" for c
    using data [OF that] by (auto simp: filter_id_conv)
  have from_c: "Start.from_sender c ?xs = d c @ [FlushAndRestart, Terminate]" if "c \<in> set cs" for c
    using reads_from_sender [OF ms(2)] sent [OF that] no_fb [OF that] by simp
  have known: "list_all (known_sender cs) ?xs" by (rule reads_known [OF ms(2) queue])
  have ne: "ms \<noteq> []" "nm_data (last ms) \<noteq> []" "last ms \<noteq> timeout_message" using ms(2) by (auto simp: reads_queue_def)
  have "?xs \<noteq> []" using arrivals_nonempty [OF ne(1,2)] .
  have lastx: "snd (last ?xs) = Terminate"
    using reads_last [OF ms(2)] queue sent by auto
  obtain r closing where split: "?xs = r @ closing" "final_input cs r closing"
    "\<And>c. c \<in> set cs \<Longrightarrow> Start.from_sender c closing = [] \<or> Start.from_sender c closing = [Terminate]"
    using split_final [OF cs(2) known \<open>?xs \<noteq> []\<close> lastx from_c] data by blast
  have "arrivals ms = concat ([] @ [r]) @ closing" using split(1) by simp
  from start_merges [OF cs lock ms(1) ne(2) this _ split(2), of coord rcv0] obtain outs fb st' where
    st': "pulls (start_next recv recv_timeout) (start_setup coord md rcv cs (start_new rcv0 lock))
      (concat (map (\<lambda>out. out @ [FlushAndRestart]) outs) @ fb @ [Terminate]) st'"
    and outs: "list_all2 (merged_iteration None) ([] @ [r]) outs" and fb: "set fb \<subseteq> {FlushBatch}" by auto
  from outs obtain out where out: "outs = [out]" "merged_iteration None r out" by (cases outs) auto
  have "payload (Start.from_sender c r) = payload (d c)" if "c \<in> set cs" for c
  proof -
    have "Start.from_sender c r @ Start.from_sender c closing = d c @ [FlushAndRestart, Terminate]"
      using from_c [OF that] split(1) by simp
    from arg_cong [OF this, of payload] split(3) [OF that] show ?thesis by auto
  qed
  then have "mset (payload out) = (\<Sum>c \<in> set cs. mset (payload (d c)))"
    using out(2) payload_by_sender [of cs r] known split(1) by (simp add: merged_iteration_def)
  with st' out fb show ?thesis
    by (intro exI [of _ out] exI [of _ fb] exI [of _ st']) (simp add: merged_iteration_def respects_watermarks_def)
qed

section \<open>The local folds\<close>

definition keyed_elem :: "('a \<Rightarrow> 'k) \<Rightarrow> 'a stream_element \<Rightarrow> ('k \<times> 'a) stream_element" where
  "keyed_elem keyer = elem_map (\<lambda>t. (keyer t, t))"

definition group_values :: "('a \<Rightarrow> 'k) \<Rightarrow> 'k \<Rightarrow> 'a stream_element list \<Rightarrow> 'a list" where
  "group_values keyer k seg = filter (\<lambda>v. keyer v = k) (elem_values seg)"

lemma key_values_keyed: "key_values k (map (keyed_elem keyer) seg) = group_values keyer k seg"
proof (induction seg)
  case (Cons e seg)
  then show ?case by (cases e) (auto simp: group_values_def keyed_elem_def key_values_Cons)
qed (simp add: group_values_def)

lemma key_values_finite: "finite {k. key_values k seg \<noteq> []}"
proof -
  have "{k. key_values k seg \<noteq> []} \<subseteq> (\<lambda>e. the (elem_key e)) ` set seg"
    by (force simp: key_values_def key_elems_def elem_values_def List.map_filter_def filter_empty_conv image_iff)
  then show ?thesis by (rule finite_subset) simp
qed

lemma keyed_fold_iteration_data:
  "data_only (keyed_fold_iteration ho f init seg)" "respects_watermarks (keyed_fold_iteration ho f init seg)"
  "FlushBatch \<notin> set (keyed_fold_iteration ho f init seg)" "Terminate \<notin> set (keyed_fold_iteration ho f init seg)"
proof -
  have r: "keyed_result f init seg k = Item x \<or> (\<exists>t. keyed_result f init seg k = Timestamped x t)"
    if "x = (k, foldl f init (key_values k seg))" for k x
    using that by (cases "max_of (stamps (key_elems k seg))") (auto simp: keyed_result_def)
  then have no: "keyed_result f init seg k \<noteq> FlushBatch" "keyed_result f init seg k \<noteq> Terminate" "\<not> is_marker (keyed_result f init seg k)" for k
    by (metis is_marker.simps(3,4) stream_element.distinct)+
  show "data_only (keyed_fold_iteration ho f init seg)"
    using no(3) by (auto simp: keyed_fold_iteration_def data_only_def list_all_iff split: option.splits)
  show "FlushBatch \<notin> set (keyed_fold_iteration ho f init seg)" "Terminate \<notin> set (keyed_fold_iteration ho f init seg)"
    using no(1,2) [symmetric] by (simp_all add: keyed_fold_iteration_def image_iff split: option.splits)
  have "wm_from None (map (keyed_result f init seg) ks @ ys) = wm_from None ys" for ks ys
  proof (induction ks)
    case (Cons k ks)
    then show ?case using r [OF refl, of k] by (elim disjE exE) simp_all
  qed simp
  then have wm: "wm_from None (rev (map (keyed_result f init seg) ks) @ ys) = wm_from None ys" for ks ys
    by (simp add: rev_map)
  show "respects_watermarks (keyed_fold_iteration ho f init seg)"
    unfolding keyed_fold_iteration_def respects_watermarks_def wm by (simp split: option.split)
qed

lemma local_fold_out:
  assumes "hash_order ho" and "data_only seg" and "pulls prev s (seg @ [FlushAndRestart, Terminate]) s'"
  shows "\<exists>st'. pulls (group_by_fold_local ho keyer init local prev) (keyed_fold_new s)
    ((keyed_fold_iteration ho local init (map (keyed_elem keyer) seg) @ [FlushAndRestart]) @ [Terminate]) st'"
proof -
  let ?seg = "map (keyed_elem keyer) seg"
  have keyed: "pulls (key_by_next keyer prev) s (?seg @ [FlushAndRestart, Terminate]) s'"
    using pulls_map [OF assms(3), of "\<lambda>t. (keyer t, t)"] by (simp add: key_by_next_eq keyed_elem_def)
  have "is_marker (keyed_elem keyer e) = is_marker e" for e by (cases e) (simp_all add: keyed_elem_def)
  then have data: "data_only ?seg" using assms(2) by (simp add: data_only_def list_all_iff)
  have es: "?seg @ [FlushAndRestart, Terminate] = unsegment [?seg]" by (simp add: unsegment_def)
  then have "wf_stream (?seg @ [FlushAndRestart, Terminate])" using data by (simp add: wf_stream_unsegmentI)
  moreover have "iterations (?seg @ [FlushAndRestart, Terminate]) = [?seg]"
    unfolding es using data by (simp add: iterations_unsegment)
  ultimately show ?thesis
    using keyed_fold_produces [OF assms(1) _ keyed, of local init]
    by (simp add: keyed_fold_sem_def group_by_fold_local_def unsegment_def)
qed

text \<open>The element of a key in what a replica returns, and where it goes.\<close>

lemma key_part_results:
  "finite K \<Longrightarrow> key_part k (image_mset (keyed_result f init seg) (mset_set K)) = (if k \<in> K then {# foldl f init (key_values k seg) #} else {#})"
proof (induction K rule: finite_induct)
  case (insert k' K)
  have "elem_key (keyed_result f init seg k') = Some k'" "elem_value (keyed_result f init seg k') = Some (k', foldl f init (key_values k' seg))"
    by (cases "max_of (stamps (key_elems k' seg))"; simp add: keyed_result_def)+
  with insert show ?case by (auto simp: key_part_def)
qed (simp add: key_part_def)

lemma key_part_payload: "key_part k (mset (payload es)) = key_part k (mset es)"
proof (induction es)
  case (Cons e es)
  then show ?case by (cases e) (auto simp: key_part_def)
qed simp

lemma key_part_add [simp]: "key_part k (M + N) = key_part k M + key_part k N"
  by (simp add: key_part_def)

lemma key_part_fold:
  assumes "hash_order ho"
  shows "mset (key_values k (keyed_fold_iteration ho f init seg)) =
    (if key_values k seg = [] then {#} else {# foldl f init (key_values k seg) #})"
  unfolding key_values_payload key_part_payload keyed_fold_iteration_mset [OF assms]
  by (auto simp: key_part_results [OF key_values_finite] split: option.split) (auto simp: key_part_def)

definition responsible :: "('k \<Rightarrow> nat) \<Rightarrow> receiver_endpoint list \<Rightarrow> receiver_endpoint \<Rightarrow> 'k \<Rightarrow> bool" where
  "responsible hash eps ep k \<longleftrightarrow> ep = eps ! (hash k mod length eps)"

lemma key_values_routed:
  "key_values k (filter (goes_to (\<lambda>(k, _). hash k) eps ep) es) = (if responsible hash eps ep k then key_values k es else [])"
proof (induction es)
  case (Cons e es)
  then show ?case by (cases e) (auto simp: goes_to_def responsible_def key_values_Cons)
qed simp

lemma wm_from_filter:
  assumes "wm_from m xs" and "\<And>e. elem_value e = None \<Longrightarrow> e \<noteq> FlushBatch \<Longrightarrow> P e"
  shows "wm_from m (filter P xs)"
  using assms(1)
proof (induction m xs rule: wm_from.induct)
  case (3 m w es)
  then show ?case using assms(2) [of "Watermark w"] by simp
next
  case (4 m es)
  then show ?case using assms(2) [of FlushAndRestart] by simp
qed simp_all

lemma goes_to_data:
  assumes "data_only xs" and "respects_watermarks xs" and "FlushBatch \<notin> set xs"
  shows "data_only (filter (goes_to f eps ep) xs) \<and> respects_watermarks (filter (goes_to f eps ep) xs)
    \<and> FlushBatch \<notin> set (filter (goes_to f eps ep) xs)"
  using assms by (auto simp: data_only_def list_all_iff respects_watermarks_def goes_to_def intro!: wm_from_filter)

section \<open>The two phases together\<close>

text \<open>
  Every replica \<open>c\<close> of the first block has read \<open>seg c\<close>, its \<^verbatim>\<open>End\<close> has run to its end, with the others' messages
  in between, and all of them have left the network \<open>net\<close>.
\<close>

definition sent_local_folds :: "(('k, 'o) hmap \<Rightarrow> ('k, 'o) hmap) \<Rightarrow> ((nat \<times> nat list) list \<Rightarrow> (nat \<times> nat list) list) \<Rightarrow> ('r \<Rightarrow> nat \<times> 'r)
    \<Rightarrow> int \<Rightarrow> ('a \<Rightarrow> 'k) \<Rightarrow> ('k \<Rightarrow> nat) \<Rightarrow> 'o \<Rightarrow> ('o \<Rightarrow> 'a \<Rightarrow> 'o) \<Rightarrow> receiver_endpoint list \<Rightarrow> ('s, 'a) pull \<Rightarrow> 's
    \<Rightarrow> 'a stream_element list \<Rightarrow> ('k \<times> 'o) network \<Rightarrow> coord \<Rightarrow> bool" where
  "sent_local_folds ho eo rng t0 keyer hash init local eps prev s seg net c \<longleftrightarrow>
     data_only seg \<and> (\<exists>s'. pulls prev s (seg @ [FlushAndRestart, Terminate]) s')
   \<and> (\<exists>st0 hist st. end_fresh c eps st0 \<and> en_strategy st0 = group_by_fold_strategy hash \<and> en_ignore st0 = []
        \<and> en_feedback st0 = None \<and> en_prev st0 = keyed_fold_new s
        \<and> end_reach eo rng (group_by_fold_local ho keyer init local prev) c t0 eps st0 hist True st \<and> en_net st = net)"

lemma sent_delivered:
  assumes "sent_local_folds ho eo rng t0 keyer hash init local eps prev s seg net c"
    and "hash_order ho" and "hash_order eo" and "block_endpoints eps" and "ep \<in> set eps"
  shows "delivered net ep c = filter (goes_to (\<lambda>(k, _). hash k) eps ep)
    (keyed_fold_iteration ho local init (map (keyed_elem keyer) seg)) @ [FlushAndRestart, Terminate]"
proof -
  from assms(1) obtain s' st0 hist st where data: "data_only seg" and s': "pulls prev s (seg @ [FlushAndRestart, Terminate]) s'"
    and st0: "end_fresh c eps st0" "en_strategy st0 = group_by_fold_strategy hash" "en_ignore st0 = []" "en_feedback st0 = None"
      "en_prev st0 = keyed_fold_new s"
    and reach: "end_reach eo rng (group_by_fold_local ho keyer init local prev) c t0 eps st0 hist True st" "en_net st = net"
    by (auto simp: sent_local_folds_def)
  let ?out = "keyed_fold_iteration ho local init (map (keyed_elem keyer) seg)"
  obtain st' where out: "pulls (group_by_fold_local ho keyer init local prev) (en_prev st0) ((?out @ [FlushAndRestart]) @ [Terminate]) st'"
    using local_fold_out [OF assms(2) data s', of keyer init local] st0(5) by auto
  have "Terminate \<notin> set (?out @ [FlushAndRestart])" using keyed_fold_iteration_data(4) [of ho local init] by simp
  from end_delivers [OF reach(1) assms(3) st0(1) _ st0(3,4) assms(4,5) out this, of "\<lambda>(k, _). hash k"] st0(2) reach(2)
  show ?thesis by (simp add: group_by_fold_strategy_def goes_to_def)
qed

text \<open>Folding what the replicas folded, in any order, folds all of it.\<close>

definition folds_merge :: "'o \<Rightarrow> ('o \<Rightarrow> 'a \<Rightarrow> 'o) \<Rightarrow> ('o \<Rightarrow> 'o \<Rightarrow> 'o) \<Rightarrow> bool" where
  "folds_merge init local global \<longleftrightarrow> (\<forall>a x y. global (global a x) y = global (global a y) x)
     \<and> (\<forall>xss. [] \<notin> set xss \<longrightarrow> xss \<noteq> [] \<longrightarrow> foldl global init (map (foldl local init) xss) = foldl local init (concat xss))"

lemma foldl_any_order:
  assumes "\<And>a x y. f (f a x) y = f (f a y) x" and "mset xs = mset ys"
  shows "foldl f a xs = foldl f a ys"
proof -
  have "fold (\<lambda>x a. f a x) xs = fold (\<lambda>x a. f a x) ys"
    using assms by (intro fold_multiset_equiv) (auto simp: fun_eq_iff)
  then show ?thesis by (simp add: foldl_conv_fold)
qed

lemma folds_merge_any_order:
  assumes "folds_merge init local global" and "distinct cs" and "\<exists>c \<in> set cs. g c \<noteq> []"
    and "mset ys = (\<Sum>c \<in> set cs. if g c = [] then {#} else {# foldl local init (g c) #})"
  shows "foldl global init ys = foldl local init (concat (map g cs))"
proof -
  let ?xss = "filter (\<lambda>xs. xs \<noteq> []) (map g cs)"
  have "(\<Sum>c \<in> set cs. if g c = [] then {#} else {# foldl local init (g c) #}) = mset (map (foldl local init) ?xss)"
    using assms(2) by (induction cs) auto
  with assms(4) have "foldl global init ys = foldl global init (map (foldl local init) ?xss)"
    using assms(1) by (intro foldl_any_order) (simp_all add: folds_merge_def)
  also have "\<dots> = foldl local init (concat ?xss)"
    using assms(1,3) by (simp add: folds_merge_def filter_empty_conv)
  also have "concat ?xss = concat (map g cs)" by (induction cs) auto
  finally show ?thesis .
qed

lemma global_fold_out:
  assumes "hash_order ho" and "pulls p s (out @ [FlushAndRestart] @ fb @ [Terminate]) s'" and "data_only out" and "set fb \<subseteq> {FlushBatch}"
  shows "\<exists>st'. pulls (group_by_fold_global ho init global p) (keyed_fold_new s)
    (keyed_fold_iteration ho global init out @ [FlushAndRestart, Terminate]) st'"
proof -
  let ?h = "keyed_fold_iteration ho global init"
  have fb: "data_only fb" "?h fb = []"
  proof -
    from assms(4) show "data_only fb" by (auto simp: data_only_def list_all_iff)
    have "elem_values fb = []" "watermarks fb = []" using assms(4) by (induction fb) auto
    moreover have "ho [] = []" using hash_order_mset [OF assms(1), of "[]"] by simp
    ultimately show "?h fb = []" by (simp add: keyed_fold_iteration_def kf_accs_def)
  qed
  let ?es = "out @ [FlushAndRestart] @ fb"
  have state: "transduce_state (batch_step ?h) (Some []) ?es = Some fb"
    using batch_step_segment [OF assms(3), of ?h "[]"] batch_step_segment [OF fb(1), of ?h "[]"] by simp
  have idle: "keyed_fold_idle global init (keyed_fold_new s) (Some []) s" by (simp add: keyed_fold_new_def)
  have es: "pulls p s (?es @ [Terminate]) s'" using assms(2) by simp
  have "\<exists>st'. pulls (keyed_fold_next ho global init p) (keyed_fold_new s) (transduce (batch_step ?h) (Some []) (?es @ [Terminate])) st'"
    using transducer.produces_last [OF keyed_fold_transducer [OF assms(1)] idle es] unfolding state by fastforce
  moreover have "transduce (batch_step ?h) (Some []) (?es @ [Terminate]) = ?h out @ [FlushAndRestart, Terminate]"
    using batch_step_segment [OF assms(3), of ?h "[]"] batch_step_segment [OF fb(1), of ?h "[]"] fb(2)
    by (simp add: transduce_append)
  ultimately show ?thesis by (simp add: group_by_fold_global_def)
qed

lemma keyed_fold_values:
  assumes "hash_order ho"
  shows "mset (elem_values (keyed_fold_iteration ho f init seg)) =
    image_mset (\<lambda>k. (k, foldl f init (key_values k seg))) (mset_set {k. key_values k seg \<noteq> []})"
proof -
  have vals: "mset (elem_values es) = image_mset (\<lambda>e. the (elem_value e)) (filter_mset (\<lambda>e. elem_value e \<noteq> None) (mset es))" for es :: "('k \<times> 'o) stream_element list"
    by (induction es) (auto split: option.split)
  have res: "elem_value (keyed_result f init seg k) = Some (k, foldl f init (key_values k seg))" for k
    by (cases "max_of (stamps (key_elems k seg))") (simp_all add: keyed_result_def)
  have "filter_mset (\<lambda>e. elem_value e \<noteq> None) (image_mset (keyed_result f init seg) M) = image_mset (keyed_result f init seg) M" for M
    by (induction M) (simp_all add: res)
  then show ?thesis
    unfolding vals keyed_fold_iteration_mset [OF assms]
    by (auto simp: res multiset.map_comp comp_def split: option.split)
qed

lemma group_by_fold_result:
  assumes orders: "hash_order ho1" "hash_order ho2" "hash_order eo"
    and cs: "distinct cs" "cs \<noteq> []" and eps: "block_endpoints eps" "ep \<in> set eps"
    and sent: "\<forall>c \<in> set cs. sent_local_folds ho1 eo rng t0 keyer hash init local eps (prev c) (s c) (seg c) net c"
    and queue: "\<forall>m \<in> set (nt_queue net ep). nm_sender m \<in> set cs"
    and lock: "lock_returns lock" and ms: "pulls (start_fetch recv recv_timeout md) (False, rcv) ms q" "reads_queue net ep ms"
    and merge: "folds_merge init local global"
  shows "\<exists>out st'. pulls (group_by_fold_global ho2 init global (start_next recv recv_timeout))
      (keyed_fold_new (start_setup coord md rcv cs (start_new rcv0 lock))) (out @ [FlushAndRestart, Terminate]) st'
    \<and> data_only out
    \<and> mset (elem_values out) = image_mset (\<lambda>k. (k, foldl local init (concat (map (\<lambda>c. group_values keyer k (seg c)) cs))))
        (mset_set {k. responsible hash eps ep k \<and> (\<exists>c \<in> set cs. group_values keyer k (seg c) \<noteq> [])})"
proof -
  let ?local = "\<lambda>c. keyed_fold_iteration ho1 local init (map (keyed_elem keyer) (seg c))"
  let ?d = "\<lambda>c. filter (goes_to (\<lambda>(k, _). hash k) eps ep) (?local c)"
  let ?g = "\<lambda>k c. group_values keyer k (seg c)"
  have "delivered net ep c = ?d c @ [FlushAndRestart, Terminate]" if "c \<in> set cs" for c
  proof -
    from sent that have "sent_local_folds ho1 eo rng t0 keyer hash init local eps (prev c) (s c) (seg c) net c" by blast
    from sent_delivered [OF this orders(1,3) eps] show ?thesis .
  qed
  moreover have "data_only (?d c) \<and> respects_watermarks (?d c) \<and> FlushBatch \<notin> set (?d c)" for c
    by (intro goes_to_data keyed_fold_iteration_data)
  ultimately obtain out fb st where start: "pulls (start_next recv recv_timeout) (start_setup coord md rcv cs (start_new rcv0 lock))
      (out @ [FlushAndRestart] @ fb @ [Terminate]) st" "data_only out" "set fb \<subseteq> {FlushBatch}"
    and load: "mset (payload out) = (\<Sum>c \<in> set cs. mset (payload (?d c)))"
    using exchange_received [OF cs lock ms queue, of ?d coord rcv0] by blast
  have keys: "mset (key_values k out) = (if responsible hash eps ep k then \<Sum>c \<in> set cs. if ?g k c = [] then {#} else {# foldl local init (?g k c) #} else {#})" for k
  proof -
    have "mset (key_values k out) = (\<Sum>c \<in> set cs. mset (key_values k (?d c)))"
      unfolding key_values_payload load by (simp add: key_part_sum)
    also have "\<dots> = (\<Sum>c \<in> set cs. if responsible hash eps ep k then if ?g k c = [] then {#} else {# foldl local init (?g k c) #} else {#})"
      by (intro sum.cong) (simp_all add: key_values_routed key_part_fold [OF orders(1)] key_values_keyed)
    finally show ?thesis by simp
  qed
  have some: "key_values k out \<noteq> [] \<longleftrightarrow> responsible hash eps ep k \<and> (\<exists>c \<in> set cs. ?g k c \<noteq> [])" for k
    using keys [of k] by (simp add: sum_mset_empty flip: mset_zero_iff)
  have "foldl global init (key_values k out) = foldl local init (concat (map (?g k) cs))"
    if "responsible hash eps ep k \<and> (\<exists>c \<in> set cs. ?g k c \<noteq> [])" for k
    using folds_merge_any_order [OF merge cs(1), of "?g k"] that keys [of k] by simp
  then have "mset (elem_values (keyed_fold_iteration ho2 global init out)) =
      image_mset (\<lambda>k. (k, foldl local init (concat (map (?g k) cs)))) (mset_set {k. responsible hash eps ep k \<and> (\<exists>c \<in> set cs. ?g k c \<noteq> [])})"
    unfolding keyed_fold_values [OF orders(2)] some using key_values_finite [of out, unfolded some]
    by (intro image_mset_cong) simp
  with global_fold_out [OF orders(2) start, of init global] keyed_fold_iteration_data(1) [of ho2 global init out] show ?thesis by blast
qed

text \<open>
  C2: Aggregating by key in two phases gives the result of one. Let every replica of a block fold its
  own elements by key and send the results through the network, with any batching, any interleaving with the
  other replicas and any timeouts. Then the replica of the next block behind the endpoint \<open>ep\<close>
  returns, for exactly the keys whose hash chooses \<open>ep\<close>, one element each: the fold of all the values of
  that key in all the replicas. Here the global fold of local folds has to be a fold of all, in any order.
\<close>

theorem group_by_fold_distributes:
  assumes orders: "hash_order ho1" "hash_order ho2" "hash_order eo"
    and cs: "distinct cs" "cs \<noteq> []" and eps: "block_endpoints eps" "ep \<in> set eps"
    and sent: "\<forall>c \<in> set cs. sent_local_folds ho1 eo rng t0 keyer hash init local eps (prev c) (s c) (seg c) net c"
    and queue: "\<forall>m \<in> set (nt_queue net ep). nm_sender m \<in> set cs"
    and lock: "lock_returns lock" and ms: "pulls (start_fetch recv recv_timeout md) (False, rcv) ms q" "reads_queue net ep ms"
    and merge: "folds_merge init local global"
  shows "\<exists>out st'. pulls (group_by_fold_global ho2 init global (start_next recv recv_timeout))
      (keyed_fold_new (start_setup coord md rcv cs (start_new rcv0 lock))) (out @ [FlushAndRestart, Terminate]) st'
    \<and> data_only out
    \<and> mset (elem_values out) = image_mset (\<lambda>k. (k, foldl local init (concat (map (\<lambda>c. group_values keyer k (seg c)) cs))))
        (mset_set {k. responsible hash eps ep k \<and> (\<exists>c \<in> set cs. group_values keyer k (seg c) \<noteq> [])})"
  using assms by (rule group_by_fold_result)

text \<open>An instance for any fold: one replica with the element 3, one replica of the next block, a fixed batch size of two.\<close>

lemma example_sent:
  fixes init :: 'o and lc :: "'o \<Rightarrow> nat \<Rightarrow> 'o"
  defines "c \<equiv> Coord 2 0 0" and "ep \<equiv> ReceiverEndpoint (Coord 3 0 0) 2"
  shows "\<exists>net. sent_local_folds (\<lambda>m. m) (\<lambda>m. m) (\<lambda>r::unit. (0, r)) 0 even (\<lambda>b. if b then 4 else 5) init lc [ep] fake_next
      [Item (3::nat), FlushAndRestart, Terminate] [Item 3] net c
    \<and> nt_queue net ep = [new_batch [Item (False, lc init 3), FlushAndRestart] c, new_batch [Terminate] c]"
proof -
  let ?net = "\<lparr>nt_queue = \<lambda>_. [], nt_open = \<lambda>_. True\<rparr> :: (bool \<times> 'o) network"
  let ?inp = "[Item (3::nat), FlushAndRestart, Terminate]"
  let ?prev = "group_by_fold_local (\<lambda>m. m) even init lc fake_next :: ((nat stream_element list, bool, 'o) keyed_fold, bool \<times> 'o) pull"
  let ?st0 = "end_new (keyed_fold_new ?inp) (group_by_fold_strategy (\<lambda>b. if b then 4 else 5)) (Fixed 2) () ?net"
  have input: "pulls fake_next ?inp ([Item 3] @ [FlushAndRestart, Terminate]) []" using pulls_fake_all by simp
  have "data_only [Item (3::nat)]" by simp
  from local_fold_out [OF hash_order_id this input, of even init lc]
  obtain s1 s2 s3 where pulls: "?prev (keyed_fold_new ?inp) = ret (Item (False, lc init 3), s1)" "?prev s1 = ret (FlushAndRestart, s2)"
    "?prev s2 = ret (Terminate, s3)"
    by (auto simp: keyed_fold_iteration_def keyed_elem_def kf_accs_def kf_process_item_def keyed_result_def key_values_Cons
        key_elems_def pulls_Cons_iff)
  let ?q = "\<lambda>msgs buf s. (?st0\<lparr>en_prev := s, en_coord := Some c, en_blocks := [[0]],
      en_net := ?net\<lparr>nt_queue := (\<lambda>_. [])(ep := msgs)\<rparr>,
      en_senders := [(ep, (batcher_new 0 ep (Fixed 2) c)\<lparr>bt_buffer := buf\<rparr>)]\<rparr>)"
  let ?m1 = "new_batch [Item (False, lc init 3), FlushAndRestart] c" and ?m2 = "new_batch [Terminate] c"
  note simps = end_new_def end_next_def end_route_def flush_senders_def sender_broadcast_def sender_enqueue_def sender_flush_def sender_end_def
    batcher_enqueue_def batcher_flush_def batcher_end_def net_send_def batcher_new_def group_by_fold_strategy_def chosen_index_def
  have n0: "end_setup (\<lambda>m. m) 0 c [ep] ?st0 = ret (?q [] [] (keyed_fold_new ?inp))"
    by (simp add: end_setup_def setup_senders_def end_new_def group_by_fold_strategy_def batcher_new_def fun_eq_iff)
  have n1: "end_next (\<lambda>r::unit. (0, r)) 0 ?prev (?q [] [] (keyed_fold_new ?inp)) = ret (Item (), ?q [] [Item (False, lc init 3)] s1)"
    using pulls(1) by (simp add: simps)
  have n2: "end_next (\<lambda>r::unit. (0, r)) 0 ?prev (?q [] [Item (False, lc init 3)] s1) = ret (FlushAndRestart, ?q [?m1] [] s2)"
    using pulls(2) by (simp add: simps)
  have n3: "end_next (\<lambda>r::unit. (0, r)) 0 ?prev (?q [?m1] [] s2) = ret (Terminate, (?q [?m1, ?m2] [] s3)\<lparr>en_senders := []\<rparr>)"
    using pulls(3) by (simp add: simps)
  have "\<exists>h. end_reach (\<lambda>m. m) (\<lambda>r::unit. (0, r)) ?prev c 0 [ep] ?st0 h False (?q [] [Item (False, lc init 3)] s1)"
    using end_reach.step [OF end_reach.init [where rng = "\<lambda>r::unit. (0, r)" and prev = ?prev, OF n0] _ n1, of "Item (False, lc init 3)" s1] pulls(1)
    by auto
  then obtain h where r1': "end_reach (\<lambda>m. m) (\<lambda>r::unit. (0, r)) ?prev c 0 [ep] ?st0 h False (?q [] [Item (False, lc init 3)] s1)" by blast
  have r2: "\<exists>h. end_reach (\<lambda>m. m) (\<lambda>r::unit. (0, r)) ?prev c 0 [ep] ?st0 h False (?q [?m1] [] s2)"
    using end_reach.step [OF r1' _ n2, of FlushAndRestart s2] pulls(2) by auto
  then obtain h where r2': "end_reach (\<lambda>m. m) (\<lambda>r::unit. (0, r)) ?prev c 0 [ep] ?st0 h False (?q [?m1] [] s2)" by blast
  let ?fin = "(?q [?m1, ?m2] [] s3)\<lparr>en_senders := []\<rparr>"
  have "\<exists>h. end_reach (\<lambda>m. m) (\<lambda>r::unit. (0, r)) ?prev c 0 [ep] ?st0 h True ?fin"
    using end_reach.step [OF r2' _ n3, of Terminate s3] pulls(3) by auto
  then obtain h where r3: "end_reach (\<lambda>m. m) (\<lambda>r::unit. (0, r)) ?prev c 0 [ep] ?st0 h True ?fin" by blast
  have fresh: "end_fresh c [ep] ?st0" by (simp add: end_fresh_def end_new_def Batcher.from_sender_def group_by_fold_strategy_def)
  have "\<exists>st0 hist st. end_fresh c [ep] st0 \<and> en_strategy st0 = group_by_fold_strategy (\<lambda>b. if b then 4 else 5) \<and> en_ignore st0 = []
        \<and> en_feedback st0 = None \<and> en_prev st0 = keyed_fold_new ?inp
        \<and> end_reach (\<lambda>m. m) (\<lambda>r::unit. (0, r)) ?prev c 0 [ep] st0 hist True st \<and> en_net st = en_net ?fin"
    by (rule exI [of _ ?st0], rule exI [of _ h], rule exI [of _ ?fin]) (use fresh r3 in \<open>simp add: end_new_def\<close>)
  then have "sent_local_folds (\<lambda>m. m) (\<lambda>m. m) (\<lambda>r::unit. (0, r)) 0 even (\<lambda>b. if b then 4 else 5) init lc [ep] fake_next
      ?inp [Item 3] (en_net ?fin) c"
    unfolding sent_local_folds_def using input by auto
  then show ?thesis by (intro exI [of _ "en_net ?fin"]) simp
qed

theorem group_by_fold_distributes_witness:
  "\<exists>ms out st'. pulls (group_by_fold_global rev 0 (+) (start_next script_recv script_recv_timeout))
      (keyed_fold_new (start_setup (Coord 3 0 0) None ms [Coord 2 0 0] (start_new [] None))) (out @ [FlushAndRestart, Terminate]) st'
    \<and> mset (elem_values out) = {# (False, 3::nat) #}"
proof -
  let ?c = "Coord 2 0 0" and ?ep = "ReceiverEndpoint (Coord 3 0 0) 2"
  obtain net where net: "sent_local_folds (\<lambda>m. m) (\<lambda>m. m) (\<lambda>r::unit. (0, r)) 0 even (\<lambda>b. if b then 4 else 5) 0 (+) [?ep] fake_next
      [Item (3::nat), FlushAndRestart, Terminate] [Item 3] net ?c"
    "nt_queue net ?ep = [new_batch [Item (False, 3), FlushAndRestart] ?c, new_batch [Terminate] ?c]"
    using example_sent [of 0 "(+)"] by auto
  let ?ms = "nt_queue net ?ep"
  have fetch: "pulls (start_fetch script_recv script_recv_timeout None) (False, map Some ?ms) ?ms (False, [])"
    unfolding net(2) by (subst pulls_Cons_iff, simp add: start_fetch_def)+
  have reads: "reads_queue net ?ep ?ms"
    unfolding reads_queue_def net(2) by (simp add: timeout_message_def new_batch_def new_single_def)
  have plus: "foldl (+) a xs = a + foldl (+) 0 xs" for a :: nat and xs by (induction xs rule: rev_induct) auto
  have "foldl (+) 0 (map (foldl (+) 0) xss) = foldl (+) (0::nat) (concat xss)" for xss
    by (induction xss rule: rev_induct) (simp_all, metis plus)
  then have merge: "folds_merge (0::nat) (+) (+)" by (simp add: folds_merge_def)
  have keys: "{k. responsible (\<lambda>b. if b then 4 else 5) [?ep] ?ep k \<and> (\<exists>c \<in> set [?c]. group_values even k [Item (3::nat)] \<noteq> [])} = {False}"
    by (auto simp: responsible_def group_values_def)
  have sent: "\<forall>c \<in> set [?c]. sent_local_folds (\<lambda>m. m) (\<lambda>m. m) (\<lambda>r::unit. (0, r)) 0 even (\<lambda>b. if b then 4 else 5) 0 (+) [?ep] fake_next
      [Item 3, FlushAndRestart, Terminate] [Item 3] net c" using net(1) by simp
  have queue: "\<forall>m \<in> set ?ms. nm_sender m \<in> set [?c]" unfolding net(2) by (simp add: new_batch_def)
  have eps: "block_endpoints [?ep]" and lock: "lock_returns None" by (simp_all add: block_endpoints_def lock_returns_def)
  from group_by_fold_distributes [where ep = ?ep and cs = "[?c]" and prev = "\<lambda>_. fake_next" and seg = "\<lambda>_. [Item 3]"
        and s = "\<lambda>_. [Item 3, FlushAndRestart, Terminate]" and coord = "Coord 3 0 0" and ?rcv0.0 = "[]" and keyer = even,
        OF hash_order_id hash_order_rev hash_order_id _ _ eps _ sent queue lock fetch reads merge]
  obtain out st' where res: "pulls (group_by_fold_global rev 0 (+) (start_next script_recv script_recv_timeout))
      (keyed_fold_new (start_setup (Coord 3 0 0) None (map Some ?ms) [?c] (start_new [] None))) (out @ [FlushAndRestart, Terminate]) st'"
    "mset (elem_values out) = image_mset (\<lambda>k. (k, foldl (+) 0 (concat (map (\<lambda>c. group_values even k [Item (3::nat)]) [?c])))) (mset_set {False})"
    unfolding keys by auto
  have "mset (elem_values out) = {# (False, 3::nat) #}" using res(2) by (simp add: group_values_def)
  with res(1) show ?thesis by blast
qed

end
