(* ===== verification/Zip_Merge.thy ===== *)
theory Zip_Merge
  imports Basic_Operators Binary_Start
begin

text \<open>
  Two streams made into one: \<^verbatim>\<open>src/operator/zip.rs\<close> pairs their elements, \<^verbatim>\<open>src/operator/merge.rs\<close> takes them as
  they come. Both read the stream of a binary \<^verbatim>\<open>Start\<close>.
\<close>

section \<open>Zip\<close>

record ('s, 'a, 'b) zip_state =
  zp_prev :: 's
  zp_stash1 :: "'a stream_element list"
  zp_stash2 :: "'b stream_element list"

definition zip_new :: "'s \<Rightarrow> ('s, 'a, 'b) zip_state" where
  "zip_new prev = \<lparr>zp_prev = prev, zp_stash1 = [], zp_stash2 = []\<rparr>"

fun zip_items :: "'a stream_element \<Rightarrow> 'b stream_element \<Rightarrow> ('a \<times> 'b) stream_element res" where
  "zip_items (Item item1) (Item item2) = ret (Item (item1, item2))"
| "zip_items (Timestamped item1 ts1) (Timestamped item2 ts2) = ret (Timestamped (item1, item2) (max ts1 ts2))"
| "zip_items _ _ = panic ExplicitPanic"

partial_function (option) zip_next :: "('s, ('a, 'b) binary_element) pull \<Rightarrow> (('s, 'a, 'b) zip_state, 'a \<times> 'b) pull" where
  "zip_next prev st =
     (if zp_stash1 st = [] \<or> zp_stash2 st = [] then
        bindR (prev (zp_prev st)) (\<lambda>(item, s').
          let st = st\<lparr>zp_prev := s'\<rparr> in
          case item of
            Item (BLeft left) \<Rightarrow> zip_next prev (st\<lparr>zp_stash1 := zp_stash1 st @ [Item left]\<rparr>)
          | Timestamped (BLeft left) ts \<Rightarrow> zip_next prev (st\<lparr>zp_stash1 := zp_stash1 st @ [Timestamped left ts]\<rparr>)
          | Item (BRight right) \<Rightarrow> zip_next prev (st\<lparr>zp_stash2 := zp_stash2 st @ [Item right]\<rparr>)
          | Timestamped (BRight right) ts \<Rightarrow> zip_next prev (st\<lparr>zp_stash2 := zp_stash2 st @ [Timestamped right ts]\<rparr>)
          | Item _ \<Rightarrow> zip_next prev st
          | Timestamped _ _ \<Rightarrow> zip_next prev st
          | Watermark w \<Rightarrow> ret (Watermark w, st)
          | FlushAndRestart \<Rightarrow> ret (FlushAndRestart, st\<lparr>zp_stash1 := [], zp_stash2 := []\<rparr>)
          | FlushBatch \<Rightarrow> ret (FlushBatch, st)
          | Terminate \<Rightarrow> ret (Terminate, st))
      else
        bindR (zip_items (hd (zp_stash1 st)) (hd (zp_stash2 st))) (\<lambda>item.
          ret (item, st\<lparr>zp_stash1 := tl (zp_stash1 st), zp_stash2 := tl (zp_stash2 st)\<rparr>)))"

section \<open>Zip as a transducer\<close>

text \<open>The elements of a stream that come from the left and from the right.\<close>

fun left_elem :: "('a, 'b) binary_element stream_element \<Rightarrow> 'a stream_element option" where
  "left_elem (Item (BLeft x)) = Some (Item x)"
| "left_elem (Timestamped (BLeft x) ts) = Some (Timestamped x ts)"
| "left_elem _ = None"

fun right_elem :: "('a, 'b) binary_element stream_element \<Rightarrow> 'b stream_element option" where
  "right_elem (Item (BRight y)) = Some (Item y)"
| "right_elem (Timestamped (BRight y) ts) = Some (Timestamped y ts)"
| "right_elem _ = None"

abbreviation left_elems :: "('a, 'b) binary_element stream_element list \<Rightarrow> 'a stream_element list" where
  "left_elems es \<equiv> List.map_filter left_elem es"

abbreviation right_elems :: "('a, 'b) binary_element stream_element list \<Rightarrow> 'b stream_element list" where
  "right_elems es \<equiv> List.map_filter right_elem es"

fun control :: "'e stream_element \<Rightarrow> 'f stream_element list" where
  "control (Watermark w) = [Watermark w]"
| "control FlushBatch = [FlushBatch]"
| "control FlushAndRestart = [FlushAndRestart]"
| "control Terminate = [Terminate]"
| "control _ = []"

text \<open>The answer to an element: the pair it completes, or itself if it is no data.\<close>

definition zip_step :: "'a stream_element list \<times> 'b stream_element list \<Rightarrow> ('a, 'b) binary_element stream_element
    \<Rightarrow> (('a \<times> 'b) stream_element list \<times> ('a stream_element list \<times> 'b stream_element list)) res" where
  "zip_step c e =
     (let l = fst c @ (case left_elem e of None \<Rightarrow> [] | Some x \<Rightarrow> [x]);
          r = snd c @ (case right_elem e of None \<Rightarrow> [] | Some y \<Rightarrow> [y])
      in if elem_value e = None then
           ret (control e, if e = FlushAndRestart then ([], []) else c)
         else if l = [] \<or> r = [] then ret ([], (l, r))
         else bindR (zip_items (hd l) (hd r)) (\<lambda>item. ret ([item], (tl l, tl r))))"

definition zip_idle :: "('s, 'a, 'b) zip_state \<Rightarrow> 'a stream_element list \<times> 'b stream_element list \<Rightarrow> 's \<Rightarrow> bool" where
  "zip_idle st c s \<longleftrightarrow> st = \<lparr>zp_prev = s, zp_stash1 = fst c, zp_stash2 = snd c\<rparr> \<and> (fst c = [] \<or> snd c = [])"

lemma zip_next_data:
  assumes "l = [] \<or> r = []" and "p s = ret (e, s1)" and "elem_value e \<noteq> None"
  shows "zip_next p \<lparr>zp_prev = s, zp_stash1 = l, zp_stash2 = r\<rparr> =
    zip_next p \<lparr>zp_prev = s1, zp_stash1 = l @ (case left_elem e of None \<Rightarrow> [] | Some x \<Rightarrow> [x]),
      zp_stash2 = r @ (case right_elem e of None \<Rightarrow> [] | Some y \<Rightarrow> [y])\<rparr>"
proof (cases e)
  case (Item b)
  then show ?thesis using assms by (cases b) (simp_all add: zip_next.simps [of p "\<lparr>zp_prev = s, zp_stash1 = l, zp_stash2 = r\<rparr>"])
next
  case (Timestamped b t)
  then show ?thesis using assms by (cases b) (simp_all add: zip_next.simps [of p "\<lparr>zp_prev = s, zp_stash1 = l, zp_stash2 = r\<rparr>"])
qed (use assms(3) in simp_all)

lemma zip_next_pop:
  assumes "l \<noteq> []" and "r \<noteq> []"
  shows "zip_next p \<lparr>zp_prev = s, zp_stash1 = l, zp_stash2 = r\<rparr> =
    bindR (zip_items (hd l) (hd r)) (\<lambda>item. ret (item, \<lparr>zp_prev = s, zp_stash1 = tl l, zp_stash2 = tl r\<rparr>))"
  using assms by (simp add: zip_next.simps)

lemma zip_next_control:
  assumes "zp_stash1 st = [] \<or> zp_stash2 st = []" and "p (zp_prev st) = ret (e, s1)" and "elem_value e = None"
  shows "\<exists>y. control e = [y] \<and> zip_next p st = ret (y, (if e = FlushAndRestart then zip_new s1 else st\<lparr>zp_prev := s1\<rparr>))"
  using assms by (cases e) (simp_all add: zip_next.simps [of p st] zip_new_def)

interpretation zip_tr: fallible_transducer p "zip_next p" zip_idle zip_step
  for p :: "('s, ('a, 'b) binary_element) pull"
proof
  fix st :: "('s, 'a, 'b) zip_state" and c s e s1 c'
  assume st: "zip_idle st c s" and e: "p s = ret (e, s1)" and step: "zip_step c e = ret ([], c')"
  have "elem_value e \<noteq> None" using step by (cases e) (auto simp: zip_step_def)
  with zip_next_data [of "fst c" "snd c" p s e s1] st e step
  show "\<exists>st1. zip_next p st = zip_next p st1 \<and> zip_idle st1 c' s1"
    by (auto simp: zip_idle_def zip_step_def Let_def bindR_eq_ret split: if_splits)
next
  fix st :: "('s, 'a, 'b) zip_state" and c s e s1 y ys c'
  assume st: "zip_idle st c s" and e: "p s = ret (e, s1)" and step: "zip_step c e = ret (y # ys, c')"
  show "\<exists>st1. pulls (zip_next p) st (y # ys) st1 \<and> zip_idle st1 c' s1"
  proof (cases "elem_value e")
    case None
    with zip_next_control [of st p e s1] st e step show ?thesis
      by (auto simp: zip_idle_def zip_step_def zip_new_def split: if_splits)
  next
    case (Some v)
    let ?l = "fst c @ (case left_elem e of None \<Rightarrow> [] | Some x \<Rightarrow> [x])" and ?r = "snd c @ (case right_elem e of None \<Rightarrow> [] | Some x \<Rightarrow> [x])"
    let ?st1 = "\<lparr>zp_prev = s1, zp_stash1 = ?l, zp_stash2 = ?r\<rparr>"
    have ne: "?l \<noteq> []" "?r \<noteq> []" and item: "zip_items (hd ?l) (hd ?r) = ret y" "ys = []" "c' = (tl ?l, tl ?r)"
      using step Some by (auto simp: zip_step_def Let_def bindR_eq_ret split: if_splits)
    have "zip_next p st = zip_next p ?st1" using zip_next_data [of "fst c" "snd c" p s e s1] st e Some by (auto simp: zip_idle_def)
    also have "\<dots> = ret (y, \<lparr>zp_prev = s1, zp_stash1 = tl ?l, zp_stash2 = tl ?r\<rparr>)"
      using zip_next_pop [OF ne, of p s1] item(1) by simp
    finally have "zip_next p st = ret (y, \<lparr>zp_prev = s1, zp_stash1 = tl ?l, zp_stash2 = tl ?r\<rparr>)" .
    moreover have "tl ?l = [] \<or> tl ?r = []"
      using st by (cases "left_elem e"; cases "right_elem e") (auto simp: zip_idle_def)
    ultimately show ?thesis using item by (auto simp: zip_idle_def)
  qed
qed


section \<open>What an iteration returns\<close>

definition zip_pair :: "'a stream_element \<Rightarrow> 'b stream_element \<Rightarrow> ('a \<times> 'b) stream_element" where
  "zip_pair x y =
     (case (item_timestamp x, item_timestamp y) of
        (Some t, Some u) \<Rightarrow> Timestamped (the (elem_value x), the (elem_value y)) (max t u)
      | _ \<Rightarrow> Item (the (elem_value x), the (elem_value y)))"

text \<open>All the elements of both sides carry a timestamp, or none does.\<close>

definition same_kind :: "bool \<Rightarrow> ('a, 'b) binary_element stream_element list \<Rightarrow> bool" where
  "same_kind timed seg \<longleftrightarrow> (\<forall>x \<in> set (left_elems seg). (item_timestamp x \<noteq> None) = timed) \<and> (\<forall>y \<in> set (right_elems seg). (item_timestamp y \<noteq> None) = timed)"

lemma side_elem_data:
  "left_elem e = Some x \<Longrightarrow> elem_value x \<noteq> None \<and> elem_value e \<noteq> None \<and> item_timestamp x = item_timestamp e"
  "right_elem e = Some y \<Longrightarrow> elem_value y \<noteq> None \<and> elem_value e \<noteq> None \<and> item_timestamp y = item_timestamp e"
  "left_elem e = Some x \<Longrightarrow> right_elem e = None"
  by (cases e rule: left_elem.cases; auto)+

lemma side_elems_data: "x \<in> set (left_elems es) \<Longrightarrow> elem_value x \<noteq> None" "y \<in> set (right_elems es) \<Longrightarrow> elem_value y \<noteq> None"
  by (auto simp: List.map_filter_def dest: side_elem_data(1,2))

lemma zip_items_pair:
  assumes "elem_value x \<noteq> None" "elem_value y \<noteq> None" and "(item_timestamp x \<noteq> None) = (item_timestamp y \<noteq> None)"
  shows "zip_items x y = ret (zip_pair x y)"
  using assms by (cases x; cases y) (simp_all add: zip_pair_def)

lemma zip_pair_simps [simp]: "elem_value (zip_pair x y) = Some (the (elem_value x), the (elem_value y))" "control (zip_pair x y) = []" "\<not> is_marker (zip_pair x y)"
  by (simp_all add: zip_pair_def split: option.split)

lemma control_data [simp]: "\<not> is_marker e \<Longrightarrow> data_only (control e)"
  by (cases e) simp_all

lemma control_empty: "elem_value e \<noteq> None \<Longrightarrow> control e = []"
  by (cases e) simp_all

lemma zip_snoc:
  "length xs < length ys \<Longrightarrow> zip (xs @ [x]) ys = zip xs ys @ [(x, ys ! length xs)]"
  "length ys \<le> length xs \<Longrightarrow> zip (xs @ [x]) ys = zip xs ys"
  "length ys < length xs \<Longrightarrow> zip xs (ys @ [y]) = zip xs ys @ [(xs ! length ys, y)]"
  "length xs \<le> length ys \<Longrightarrow> zip xs (ys @ [y]) = zip xs ys"
proof -
  have "zip xs (take (length xs) ys) = zip xs ys" "zip (take (length ys) xs) ys = zip xs ys"
    by (induction xs ys rule: list_induct2') simp_all
  then show "length xs < length ys \<Longrightarrow> zip (xs @ [x]) ys = zip xs ys @ [(x, ys ! length xs)]"
    "length ys \<le> length xs \<Longrightarrow> zip (xs @ [x]) ys = zip xs ys"
    "length ys < length xs \<Longrightarrow> zip xs (ys @ [y]) = zip xs ys @ [(xs ! length ys, y)]"
    "length xs \<le> length ys \<Longrightarrow> zip xs (ys @ [y]) = zip xs ys"
    by (simp_all add: zip_append1 zip_append2 Cons_nth_drop_Suc [symmetric])
qed

definition unpaired :: "'a list \<Rightarrow> 'b list \<Rightarrow> 'a list \<times> 'b list" where
  "unpaired L R = (drop (min (length L) (length R)) L, drop (min (length L) (length R)) R)"

lemma zip_iteration:
  assumes "data_only seg" and "same_kind timed seg"
  shows "\<exists>out. transduceR zip_step ([], []) seg = ret (out, unpaired (left_elems seg) (right_elems seg))
    \<and> data_only out \<and> filter (\<lambda>e. elem_value e \<noteq> None) out = map (\<lambda>(x, y). zip_pair x y) (zip (left_elems seg) (right_elems seg))
    \<and> concat (map control out) = (concat (map control seg) :: ('a \<times> 'b) stream_element list)"
  using assms
proof (induction seg rule: rev_induct)
  case Nil
  then show ?case by (simp add: unpaired_def List.map_filter_simps)
next
  case (snoc e seg)
  let ?L = "left_elems seg" and ?R = "right_elems seg"
  have kind: "same_kind timed seg" using snoc.prems(2) by (auto simp: same_kind_def)
  obtain out where out: "transduceR zip_step ([], []) seg = ret (out, unpaired ?L ?R)" "data_only out"
    "filter (\<lambda>e. elem_value e \<noteq> None) out = map (\<lambda>(x, y). zip_pair x y) (zip ?L ?R)"
    "concat (map control out) = (concat (map control seg) :: ('a \<times> 'b) stream_element list)"
    using snoc.IH [OF _ kind] snoc.prems(1) by auto
  have marker: "\<not> is_marker e" using snoc.prems(1) by simp
  have "\<exists>o1. zip_step (unpaired ?L ?R) e = ret (o1, unpaired (left_elems (seg @ [e])) (right_elems (seg @ [e]))) \<and> data_only o1
    \<and> map (\<lambda>(x, y). zip_pair x y) (zip (left_elems (seg @ [e])) (right_elems (seg @ [e]))) = map (\<lambda>(x, y). zip_pair x y) (zip ?L ?R) @ filter (\<lambda>e. elem_value e \<noteq> None) o1
    \<and> concat (map control o1) = (control e :: ('a \<times> 'b) stream_element list)"
  proof -
    consider (none) "elem_value e = None" | (other) "elem_value e \<noteq> None" "left_elem e = None" "right_elem e = None"
      | (left) x where "left_elem e = Some x" "right_elem e = None" | (right) y where "right_elem e = Some y" "left_elem e = None"
      using side_elem_data(3) [of e] by (cases "left_elem e"; cases "right_elem e") auto
    then show ?thesis
    proof cases
      case none
      then have "left_elem e = None" "right_elem e = None" using side_elem_data(1,2) [of e] by (cases "left_elem e"; cases "right_elem e"; auto)+
      with none show ?thesis using marker by (cases e) (simp_all add: zip_step_def List.map_filter_simps)
    next
      case other
      then show ?thesis using nat_le_linear [of "length ?L" "length ?R"]
        by (auto simp: zip_step_def List.map_filter_simps control_empty unpaired_def Let_def)
    next
      case left
      note x = side_elem_data(1) [OF left(1)]
      show ?thesis
      proof (cases "length ?L < length ?R")
        case True
        then have "?R ! length ?L \<in> set ?R" by simp
        then have "zip_items x (?R ! length ?L) = ret (zip_pair x (?R ! length ?L))"
          using side_elems_data(2) x left(1) snoc.prems(2) by (intro zip_items_pair) (auto simp: same_kind_def List.map_filter_simps)
        then show ?thesis using True left x
          by (auto simp: zip_step_def unpaired_def List.map_filter_simps zip_snoc hd_drop_conv_nth control_empty drop_Suc tl_drop Let_def)
      next
        case False
        then show ?thesis using left x
          by (auto simp: zip_step_def unpaired_def List.map_filter_simps zip_snoc control_empty min_def Let_def)
      qed
    next
      case right
      note y = side_elem_data(2) [OF right(1)]
      show ?thesis
      proof (cases "length ?R < length ?L")
        case True
        then have "?L ! length ?R \<in> set ?L" by simp
        then have "zip_items (?L ! length ?R) y = ret (zip_pair (?L ! length ?R) y)"
          using side_elems_data(1) y right(1) snoc.prems(2) by (intro zip_items_pair) (auto simp: same_kind_def List.map_filter_simps)
        then show ?thesis using True right y
          by (auto simp: zip_step_def unpaired_def List.map_filter_simps zip_snoc hd_drop_conv_nth control_empty drop_Suc tl_drop Let_def)
      next
        case False
        then show ?thesis using right y
          by (auto simp: zip_step_def unpaired_def List.map_filter_simps zip_snoc control_empty min_def Let_def)
      qed
    qed
  qed
  then obtain o1 where "zip_step (unpaired ?L ?R) e = ret (o1, unpaired (left_elems (seg @ [e])) (right_elems (seg @ [e])))" "data_only o1"
    "map (\<lambda>(x, y). zip_pair x y) (zip (left_elems (seg @ [e])) (right_elems (seg @ [e]))) = map (\<lambda>(x, y). zip_pair x y) (zip ?L ?R) @ filter (\<lambda>e. elem_value e \<noteq> None) o1"
    "concat (map control o1) = (control e :: ('a \<times> 'b) stream_element list)" by blast
  with out show ?case
    by (intro exI [of _ "out @ o1"]) (simp add: transduceR_append)
qed


text \<open>A pair is complete when its later element arrives, so its timestamp is above every watermark returned before.\<close>

lemma zip_step_watermarks:
  assumes "zip_step c e = ret (o1, c')" and "fst c = [] \<or> snd c = []" and "wm_from m (e # es)"
  shows "(fst c' = [] \<or> snd c' = []) \<and> (\<exists>m'. wm_from m' es \<and> (\<forall>outs. wm_from m' outs \<longrightarrow> wm_from m (o1 @ outs)))"
proof (cases "elem_value e")
  case None
  then show ?thesis using assms by (cases e) (auto simp: zip_step_def)
next
  case (Some v)
  then have es: "wm_from m es" using assms(3) by (cases e) auto
  let ?l = "fst c @ (case left_elem e of None \<Rightarrow> [] | Some x \<Rightarrow> [x])" and ?r = "snd c @ (case right_elem e of None \<Rightarrow> [] | Some x \<Rightarrow> [x])"
  show ?thesis
  proof (cases "?l = [] \<or> ?r = []")
    case True
    then have "zip_step c e = ret ([], (?l, ?r))" using Some by (simp only: zip_step_def Let_def) simp
    then show ?thesis using assms(1) True es by auto
  next
    case False
    then obtain item where pair: "zip_items (hd ?l) (hd ?r) = ret item" "o1 = [item]" "c' = (tl ?l, tl ?r)"
      using assms(1) Some by (auto simp: zip_step_def Let_def bindR_eq_ret)
    have e: "above m t" if "item_timestamp e = Some t" for t using assms(3) that by (cases e) auto
    have left: "hd ?l = x \<and> item_timestamp x = item_timestamp e" if "left_elem e = Some x" for x
      using that False assms(2) side_elem_data(1,3) [OF that] by auto
    have right: "hd ?r = y \<and> item_timestamp y = item_timestamp e" if "right_elem e = Some y" for y
      using that False assms(2) side_elem_data(2) [OF that] side_elem_data(3) [of e] by (cases "left_elem e") auto
    have max: "above m (max t u)" if "above m t \<or> above m u" for t u using that by (cases m) auto
    have "above m (max t u)" if "hd ?l = Timestamped a t" "hd ?r = Timestamped b u" for a t b u
    proof (cases "left_elem e")
      case (Some x)
      then have "item_timestamp e = Some t" using left [OF Some] that(1) by (metis item_timestamp.simps(1))
      then show ?thesis using e max by blast
    next
      case None
      then obtain y where "right_elem e = Some y" using False assms(2) by (cases "right_elem e") auto
      then have "item_timestamp e = Some u" using right that(2) by (metis item_timestamp.simps(1))
      then show ?thesis using e max by blast
    qed
    then have "wm_from m (o1 @ outs)" if "wm_from m outs" for outs
      using pair(1,2) that by (cases "(hd ?l, hd ?r)" rule: zip_items.cases) auto
    moreover have "tl ?l = [] \<or> tl ?r = []" using assms(2) by (cases "left_elem e"; cases "right_elem e") auto
    ultimately show ?thesis using es pair(3) by auto
  qed
qed

lemma zip_watermarks:
  assumes "transduceR zip_step c es = ret (out, c')" and "fst c = [] \<or> snd c = []" and "wm_from m es"
  shows "wm_from m out"
  using assms
proof (induction es arbitrary: c m out)
  case (Cons e es)
  then obtain o1 c1 o2 where "zip_step c e = ret (o1, c1)" "transduceR zip_step c1 es = ret (o2, c')" "out = o1 @ o2"
    unfolding transduceR_Cons_ret by blast
  with zip_step_watermarks [of c e o1 c1 m es] Cons show ?case by blast
qed simp

text \<open>
  C31: Zip pairs the elements of the two sides in order, iteration by iteration: the n-th of the left with the n-th of the right,
  however the sides interleave, with the larger of the two timestamps; what has no partner is dropped at the end of the iteration. Watermarks
  and flushes pass, and if the input keeps the promises of its watermarks, so does the output. Either all or none
  of the elements of an iteration have to be timestamped.
\<close>

theorem zip_pairs:
  assumes "wf_stream es" and "pulls p s es s'" and "\<forall>seg \<in> set (iterations es). \<exists>timed. same_kind timed seg"
  shows "\<exists>outs st'. pulls (zip_next p) (zip_new s) (unsegment outs) st' \<and> list_all2 (\<lambda>seg out. data_only out
      \<and> filter (\<lambda>e. elem_value e \<noteq> None) out = map (\<lambda>(x, y). zip_pair x y) (zip (left_elems seg) (right_elems seg))
      \<and> concat (map control out) = (concat (map control seg) :: ('a \<times> 'b) stream_element list)
      \<and> (respects_watermarks seg \<longrightarrow> respects_watermarks out)) (iterations es) outs"
proof -
  let ?Q = "\<lambda>seg out. data_only out
      \<and> filter (\<lambda>e. elem_value e \<noteq> None) out = map (\<lambda>(x, y). zip_pair x y) (zip (left_elems seg) (right_elems seg))
      \<and> concat (map control out) = (concat (map control seg) :: ('a \<times> 'b) stream_element list)
      \<and> (respects_watermarks seg \<longrightarrow> respects_watermarks out)"
  note es = wf_stream_unsegment [OF assms(1)]
  have seg: "\<exists>out c'. transduceR zip_step c (seg @ [FlushAndRestart]) = ret (out @ [FlushAndRestart], c') \<and> ?Q seg out \<and> c' = ([], [])"
    if "c = ([], [])" "seg \<in> set (iterations es)" for c seg
  proof -
    from es(2) assms(3) that(2) obtain timed where "data_only seg" "same_kind timed seg" by blast
    from zip_iteration [OF this] obtain out where out: "transduceR zip_step ([], []) seg = ret (out, unpaired (left_elems seg) (right_elems seg))"
      "data_only out" "filter (\<lambda>e. elem_value e \<noteq> None) out = map (\<lambda>(x, y). zip_pair x y) (zip (left_elems seg) (right_elems seg))"
      "concat (map control out) = (concat (map control seg) :: ('a \<times> 'b) stream_element list)" by blast
    moreover have "respects_watermarks seg \<longrightarrow> respects_watermarks out"
      using zip_watermarks [OF out(1)] by (simp add: respects_watermarks_def)
    moreover have "zip_step (unpaired (left_elems seg) (right_elems seg)) FlushAndRestart = ret ([FlushAndRestart], ([], []))"
      by (simp add: zip_step_def)
    ultimately show ?thesis using that(1) by (intro exI [of _ out]) (simp add: transduceR_append)
  qed
  from transduceR_unsegment [of "\<lambda>c. c = ([], [])" "([], [])" "iterations es" zip_step ?Q, OF refl seg]
  obtain outs c' where run: "transduceR zip_step ([], []) es = ret (unsegment outs, c')" "list_all2 ?Q (iterations es) outs"
    using es(1) by (auto simp: zip_step_def)
  obtain ys where "es = ys @ [Terminate]" using assms(1) by (rule wf_stream_ends)
  with zip_tr.producesR_last [of "zip_new s" "([], [])" s p ys Terminate s' "unsegment outs" c'] run(1) assms(2)
  obtain st' where "pulls (zip_next p) (zip_new s) (unsegment outs) st'" by (auto simp: zip_idle_def zip_new_def zip_step_def)
  with run(2) show ?thesis by blast
qed

text \<open>An instance: the streams of the unit test, with the first iteration timestamped.\<close>

theorem zip_pairs_witness:
  "\<exists>outs st'. pulls (zip_next fake_next) (zip_new
      [Timestamped (BLeft 1) 5, Timestamped (BLeft 2) 6, Watermark 6, Timestamped (BRight 100) 7, Item LeftEnd, Item RightEnd, FlushAndRestart,
       Item (BLeft 3), Item (BRight 300), FlushAndRestart, Terminate]) (unsegment outs) st'
    \<and> list_all2 (\<lambda>vs out. filter (\<lambda>e. elem_value e \<noteq> None) out = vs \<and> respects_watermarks out)
        [[Timestamped (1 :: nat, 100 :: nat) 7], [Item (3, 300)]] outs"
proof -
  let ?s1 = "[Timestamped (BLeft 1) 5, Timestamped (BLeft 2) 6, Watermark 6, Timestamped (BRight 100) 7, Item LeftEnd, Item RightEnd] :: (nat, nat) binary_element stream_element list"
  let ?s2 = "[Item (BLeft 3), Item (BRight 300)] :: (nat, nat) binary_element stream_element list"
  let ?es = "?s1 @ [FlushAndRestart] @ ?s2 @ [FlushAndRestart, Terminate]"
  have its: "iterations ?es = [?s1, ?s2]" by (simp add: iterations_def)
  have "same_kind True ?s1" "same_kind False ?s2" by (simp_all add: same_kind_def List.map_filter_simps)
  moreover have "wf_stream ?es" by (simp add: wf_stream_def)
  ultimately obtain outs st' where "pulls (zip_next fake_next) (zip_new ?es) (unsegment outs) st'"
    and outs: "list_all2 (\<lambda>seg out. data_only out
      \<and> filter (\<lambda>e. elem_value e \<noteq> None) out = map (\<lambda>(x, y). zip_pair x y) (zip (left_elems seg) (right_elems seg))
      \<and> concat (map control out) = (concat (map control seg) :: (nat \<times> nat) stream_element list)
      \<and> (respects_watermarks seg \<longrightarrow> respects_watermarks out)) [?s1, ?s2] outs"
    using zip_pairs [of ?es fake_next ?es "[]"] pulls_fake_all [of ?es] unfolding its by auto
  moreover from outs have "list_all2 (\<lambda>vs out. filter (\<lambda>e. elem_value e \<noteq> None) out = vs \<and> respects_watermarks out)
        [[Timestamped (1 :: nat, 100 :: nat) 7], [Item (3, 300)]] outs"
    by (auto simp: list_all2_Cons1 List.map_filter_simps zip_pair_def respects_watermarks_def)
  ultimately show ?thesis by auto
qed


section \<open>Merge\<close>

datatype ('a, 'b) merge_element = MergeLeft 'a | MergeRight 'b

definition merge_next :: "('s, ('a, 'a) binary_element) pull \<Rightarrow> ('s, 'a) pull" where
  "merge_next prev = filter_map_next (\<lambda>e. case e of BLeft item \<Rightarrow> Some item | BRight item \<Rightarrow> Some item | _ \<Rightarrow> None) prev"

text \<open>\<^verbatim>\<open>merge_distinct\<close> maps both sides to the same type before it merges them.\<close>

definition merge_distinct_left :: "('s, 'a) pull \<Rightarrow> ('s, ('a, 'b) merge_element) pull" where
  "merge_distinct_left prev = map_next MergeLeft prev"

definition merge_distinct_right :: "('s, 'b) pull \<Rightarrow> ('s, ('a, 'b) merge_element) pull" where
  "merge_distinct_right prev = map_next MergeRight prev"

fun merged :: "('a, 'a) binary_element stream_element \<Rightarrow> 'a stream_element option" where
  "merged (Item (BLeft x)) = Some (Item x)"
| "merged (Item (BRight x)) = Some (Item x)"
| "merged (Timestamped (BLeft x) t) = Some (Timestamped x t)"
| "merged (Timestamped (BRight x) t) = Some (Timestamped x t)"
| "merged (Watermark w) = Some (Watermark w)"
| "merged FlushBatch = Some FlushBatch"
| "merged FlushAndRestart = Some FlushAndRestart"
| "merged Terminate = Some Terminate"
| "merged _ = None"

lemma merge_produces:
  assumes "wf_stream es" and "pulls p s es s'"
  shows "\<exists>st'. pulls (merge_next p) s (List.map_filter merged es) st'" and "wf_stream (List.map_filter merged es)"
proof -
  let ?f = "\<lambda>e. case e of BLeft item \<Rightarrow> Some item | BRight item \<Rightarrow> Some item | _ \<Rightarrow> None"
  have "elem_filter_map ?f e = merged e" for e :: "('a, 'a) binary_element stream_element"
    by (cases e rule: merged.cases) simp_all
  then have eq: "elem_filter_map ?f = (merged :: ('a, 'a) binary_element stream_element \<Rightarrow> 'a stream_element option)" by blast
  from filter_map_op.produces [OF assms(1) _ assms(2), of ?f] filter_map_op.sem_wf [OF assms(1), of ?f]
  show "\<exists>st'. pulls (merge_next p) s (List.map_filter merged es) st'" "wf_stream (List.map_filter merged es)"
    unfolding eq by (simp_all add: merge_next_def)
qed

text \<open>Nothing of the two sides is lost, and each keeps its order.\<close>

lemma merge_interleaves:
  "mset (filter (\<lambda>e. elem_value e \<noteq> None) (List.map_filter merged es)) = mset (left_elems es) + mset (right_elems es)"
proof (induction es)
  case (Cons e es)
  then show ?case by (cases e rule: merged.cases) (simp_all add: List.map_filter_simps)
qed (simp add: List.map_filter_simps)

end
