(* ===== verification/Interval_Join.thy ===== *)
theory Interval_Join
  imports Zip_Merge Stateful_Operators
begin

text \<open>
  The join of two streams by distance in event time: \<^verbatim>\<open>src/operator/interval_join.rs\<close> and the chain of operators that
  \<^verbatim>\<open>interval_join\<close> of \<^verbatim>\<open>src/operator/mod.rs\<close> builds around it, merge, reorder and join.
\<close>

section \<open>The operator\<close>

record ('s, 'k, 'a, 'b) interval_join =
  ij_prev :: 's
  ij_left :: "(timestamp \<times> 'k \<times> 'a) list"
  ij_right :: "('k, (timestamp \<times> 'b) list) hmap"
  ij_buffer :: "(timestamp \<times> 'k \<times> 'a \<times> 'b) list"
  ij_last_seen :: timestamp
  ij_upper_bound :: timestamp
  ij_lower_bound :: timestamp
  ij_received_restart :: bool

definition interval_join_new :: "timestamp \<Rightarrow> timestamp \<Rightarrow> 's \<Rightarrow> ('s, 'k, 'a, 'b) interval_join" where
  "interval_join_new lower_bound upper_bound prev = \<lparr>ij_prev = prev, ij_left = [], ij_right = [], ij_buffer = [], ij_last_seen = 0,
     ij_upper_bound = upper_bound, ij_lower_bound = lower_bound, ij_received_restart = False\<rparr>"

definition interval_lower :: "timestamp \<Rightarrow> timestamp \<Rightarrow> timestamp" where
  "interval_lower lb ts = (case checked_i64 (ts - lb) of Some t \<Rightarrow> t | None \<Rightarrow> i64_min)"

definition interval_upper :: "timestamp \<Rightarrow> timestamp \<Rightarrow> timestamp" where
  "interval_upper ub ts = (case checked_i64 (ts + ub) of Some t \<Rightarrow> t | None \<Rightarrow> i64_max)"

text \<open>The body of the loop for the first element of the left side, then \<^verbatim>\<open>advance\<close>.\<close>

definition advance_left :: "timestamp \<Rightarrow> timestamp \<Rightarrow> timestamp \<times> 'k \<times> 'a \<Rightarrow> ('k, (timestamp \<times> 'b) list) hmap
    \<Rightarrow> (timestamp \<times> 'k \<times> 'a \<times> 'b) list \<times> ('k, (timestamp \<times> 'b) list) hmap" where
  "advance_left lower upper l right_map =
     (case l of (left_ts, lkey, lvalue) \<Rightarrow>
        case map_of right_map lkey of
          None \<Rightarrow> ([], right_map)
        | Some right \<Rightarrow>
            let right = dropWhile (\<lambda>(right_ts, _). right_ts < lower) right;
                matches = map (\<lambda>(right_ts, rvalue). (max right_ts left_ts, lkey, lvalue, rvalue))
                  (takeWhile (\<lambda>(right_ts, _). right_ts \<le> upper) right)
            in (matches, AList.update lkey right right_map))"

function interval_advance :: "('s, 'k, 'a, 'b) interval_join \<Rightarrow> ('s, 'k, 'a, 'b) interval_join" where
  "interval_advance st =
     (case ij_left st of
        [] \<Rightarrow> if ij_received_restart st then st\<lparr>ij_right := []\<rparr> else st
      | l # rest \<Rightarrow>
          let lower = interval_lower (ij_lower_bound st) (fst l); upper = interval_upper (ij_upper_bound st) (fst l) in
          if ij_last_seen st \<le> upper \<and> \<not> ij_received_restart st then st
          else
            let (matches, right) = advance_left lower upper l (ij_right st) in
            interval_advance (st\<lparr>ij_left := rest, ij_right := right, ij_buffer := ij_buffer st @ matches\<rparr>))"
  by auto
termination
  by (relation "measure (\<lambda>st. length (ij_left st))") auto

declare interval_advance.simps [simp del]

partial_function (option) interval_join_next :: "('s, 'k \<times> ('a, 'b) merge_element) pull \<Rightarrow> (('s, 'k, 'a, 'b) interval_join, 'k \<times> 'a \<times> 'b) pull" where
  "interval_join_next prev st =
     (case ij_buffer st of
        (ts, item) # rest \<Rightarrow> ret (Timestamped item ts, st\<lparr>ij_buffer := rest\<rparr>)
      | [] \<Rightarrow>
          if ij_received_restart st then
            assertR (ij_left st = []) (assertR (ij_right st = [])
              (ret (FlushAndRestart, st\<lparr>ij_received_restart := False, ij_last_seen := 0\<rparr>)))
          else
            bindR (prev (ij_prev st)) (\<lambda>(e, s').
              let st = st\<lparr>ij_prev := s'\<rparr> in
              case e of
                Timestamped (key, item) ts \<Rightarrow>
                  assertR (ij_last_seen st \<le> ts)
                   (let st = st\<lparr>ij_last_seen := ts\<rparr> in
                    case item of
                      MergeLeft x \<Rightarrow> interval_join_next prev (interval_advance (st\<lparr>ij_left := ij_left st @ [(ts, key, x)]\<rparr>))
                    | MergeRight y \<Rightarrow> interval_join_next prev (interval_advance (st\<lparr>ij_right := push_entry key (ts, y) (ij_right st)\<rparr>)))
              | Watermark ts \<Rightarrow>
                  assertR (ij_last_seen st \<le> ts) (interval_join_next prev (interval_advance (st\<lparr>ij_last_seen := ts\<rparr>)))
              | FlushAndRestart \<Rightarrow> interval_join_next prev (interval_advance (st\<lparr>ij_received_restart := True\<rparr>))
              | Item _ \<Rightarrow> panic ExplicitPanic
              | FlushBatch \<Rightarrow> ret (FlushBatch, st)
              | Terminate \<Rightarrow> ret (Terminate, st)))"

text \<open>The two chains of operators behind a binary \<^verbatim>\<open>Start\<close>: for streams without a key and for keyed streams.\<close>

definition keyed_interval_join :: "(('k \<times> ('a, 'b) merge_element) timestamped_item list \<Rightarrow> ('k \<times> ('a, 'b) merge_element) timestamped_item list)
    \<Rightarrow> ('s, ('k \<times> ('a, 'b) merge_element, 'k \<times> ('a, 'b) merge_element) binary_element) pull
    \<Rightarrow> ((('s, 'k \<times> ('a, 'b) merge_element) reorder, 'k, 'a, 'b) interval_join, 'k \<times> 'a \<times> 'b) pull" where
  "keyed_interval_join srt prev = interval_join_next (reorder_next srt (merge_next prev))"

definition keyed_interval_join_new :: "timestamp \<Rightarrow> timestamp \<Rightarrow> 's
    \<Rightarrow> (('s, 'k \<times> ('a, 'b) merge_element) reorder, 'k, 'a, 'b) interval_join" where
  "keyed_interval_join_new lower_bound upper_bound s = interval_join_new lower_bound upper_bound (reorder_new s)"

definition stream_interval_join :: "((unit \<times> ('a, 'b) merge_element) timestamped_item list \<Rightarrow> (unit \<times> ('a, 'b) merge_element) timestamped_item list)
    \<Rightarrow> ('s, (('a, 'b) merge_element, ('a, 'b) merge_element) binary_element) pull
    \<Rightarrow> ((('s, unit \<times> ('a, 'b) merge_element) reorder, unit, 'a, 'b) interval_join, 'a \<times> 'b) pull" where
  "stream_interval_join srt prev = map_next snd (interval_join_next (reorder_next srt (key_by_next (\<lambda>_. ()) (merge_next prev))))"


section \<open>What is to be matched\<close>

fun merge_left :: "('k \<times> ('a, 'b) merge_element) stream_element \<Rightarrow> (timestamp \<times> 'k \<times> 'a) option" where
  "merge_left (Timestamped (k, MergeLeft x) t) = Some (t, k, x)"
| "merge_left _ = None"

fun merge_right :: "('k \<times> ('a, 'b) merge_element) stream_element \<Rightarrow> (timestamp \<times> 'k \<times> 'b) option" where
  "merge_right (Timestamped (k, MergeRight y) t) = Some (t, k, y)"
| "merge_right _ = None"

abbreviation lefts_of :: "('k \<times> ('a, 'b) merge_element) stream_element list \<Rightarrow> (timestamp \<times> 'k \<times> 'a) list" where
  "lefts_of es \<equiv> List.map_filter merge_left es"

abbreviation rights_of :: "('k \<times> ('a, 'b) merge_element) stream_element list \<Rightarrow> (timestamp \<times> 'k \<times> 'b) list" where
  "rights_of es \<equiv> List.map_filter merge_right es"

text \<open>The reference: every element of the right side with the key of the left one and at most the bounds away from it.\<close>

definition interval_matches :: "timestamp \<Rightarrow> timestamp \<Rightarrow> (timestamp \<times> 'k \<times> 'b) list \<Rightarrow> timestamp \<times> 'k \<times> 'a
    \<Rightarrow> (timestamp \<times> 'k \<times> 'a \<times> 'b) list" where
  "interval_matches lb ub R l =
     (case l of (t, k, x) \<Rightarrow>
        map (\<lambda>(u, _, y). (max u t, k, x, y)) (filter (\<lambda>(u, k', _). k' = k \<and> t - lb \<le> u \<and> u \<le> t + ub) R))"

lemma interval_matches_later:
  assumes "\<forall>r \<in> set R'. fst l + ub < fst r"
  shows "interval_matches lb ub (R @ R') l = interval_matches lb ub R l"
proof -
  obtain t k x where l: "l = (t, k, x)" by (cases l)
  have "filter (\<lambda>(u, k', _). k' = k \<and> t - lb \<le> u \<and> u \<le> t + ub) R' = []"
    using assms l by (auto simp: filter_empty_conv)
  then show ?thesis by (simp add: interval_matches_def l)
qed

definition i64_time :: "timestamp \<Rightarrow> bool" where
  "i64_time t \<longleftrightarrow> 0 \<le> t \<and> t \<le> i64_max"

lemma interval_lower_eq: "i64_time t \<Longrightarrow> i64_time lb \<Longrightarrow> interval_lower lb t = t - lb"
  by (auto simp: interval_lower_def i64_time_def checked_i64_def in_i64_def i64_min_def i64_max_def)

lemma interval_upper_le: "i64_time t \<Longrightarrow> i64_time ub \<Longrightarrow> i64_time u \<Longrightarrow> u \<le> interval_upper ub t \<longleftrightarrow> u \<le> t + ub"
  by (auto simp: interval_upper_def i64_time_def checked_i64_def in_i64_def i64_min_def i64_max_def)

section \<open>The right side\<close>

definition of_key :: "'k \<Rightarrow> (timestamp \<times> 'k \<times> 'b) list \<Rightarrow> (timestamp \<times> 'b) list" where
  "of_key k R = map (\<lambda>(u, _, y). (u, y)) (filter (\<lambda>(_, k', _). k' = k) R)"

definition entry :: "('k, 'v list) hmap \<Rightarrow> 'k \<Rightarrow> 'v list" where
  "entry m k = (case map_of m k of None \<Rightarrow> [] | Some vs \<Rightarrow> vs)"

text \<open>Only elements that no later left element can match have been removed.\<close>

definition right_kept :: "timestamp \<Rightarrow> (timestamp \<times> 'k \<times> 'a) list \<Rightarrow> (timestamp \<times> 'k \<times> 'b) list \<Rightarrow> ('k, (timestamp \<times> 'b) list) hmap \<Rightarrow> bool" where
  "right_kept lb d R m \<longleftrightarrow> (\<forall>k. \<exists>xs. of_key k R = xs @ entry m k \<and> (\<forall>r \<in> set xs. \<exists>l \<in> set d. fst r < fst l - lb))"

lemma of_key_append [simp]: "of_key k (R @ R') = of_key k R @ of_key k R'"
  by (simp add: of_key_def)

lemma of_key_sorted: "sorted (map fst R) \<Longrightarrow> sorted (map fst (of_key k R))"
  by (induction R) (auto simp: of_key_def)

lemma of_key_times: "r \<in> set (of_key k R) \<Longrightarrow> fst r \<in> fst ` set R"
  by (force simp: of_key_def)

lemma interval_matches_of_key:
  "interval_matches lb ub R (t, k, x) = map (\<lambda>(u, y). (max u t, k, x, y)) (filter (\<lambda>(u, _). t - lb \<le> u \<and> u \<le> t + ub) (of_key k R))"
  by (induction R) (auto simp: interval_matches_def of_key_def)

lemma window_of_sorted:
  assumes "sorted (map fst r)"
  shows "takeWhile (\<lambda>(u, _). u \<le> hi) (dropWhile (\<lambda>(u, _). u < (lo :: int)) r) = filter (\<lambda>(u, _). lo \<le> u \<and> u \<le> hi) r"
proof -
  have take: "takeWhile (\<lambda>(u, _). u \<le> hi) xs = filter (\<lambda>(u, _). u \<le> hi) xs" if "sorted (map fst xs)" for xs :: "(int \<times> 'a) list"
    using that
  proof (induction xs)
    case (Cons x xs)
    then have "\<forall>y \<in> set xs. fst x \<le> fst y" by simp
    then have "filter (\<lambda>(u, _). u \<le> hi) xs = []" if "\<not> fst x \<le> hi" using that by (auto simp: filter_empty_conv)
    with Cons show ?case by (cases x) auto
  qed simp
  have drop: "dropWhile (\<lambda>(u, _). u < lo) xs = filter (\<lambda>(u, _). lo \<le> u) xs" if "sorted (map fst xs)" for xs :: "(int \<times> 'a) list"
    using that
  proof (induction xs)
    case (Cons x xs)
    then have "\<forall>y \<in> set xs. fst x \<le> fst y" by simp
    then have "filter (\<lambda>(u, _). lo \<le> u) xs = xs" if "lo \<le> fst x" using that by (intro filter_True) force
    with Cons show ?case by (cases x) auto
  qed simp
  have "sorted (map fst (filter (\<lambda>(u, _). lo \<le> u) r))" using assms by (rule sorted_filter)
  from take [OF this] show ?thesis unfolding drop [OF assms] by (simp add: split_def conj_commute)
qed

lemma advance_left_matches:
  assumes kept: "right_kept lb d R m" and R: "sorted (map fst R)" "\<forall>r \<in> set R. i64_time (fst r)"
    and l: "\<forall>l' \<in> set d. fst l' \<le> fst l" "i64_time (fst l)" and bounds: "i64_time lb" "i64_time ub"
    and adv: "advance_left (interval_lower lb (fst l)) (interval_upper ub (fst l)) l m = (matches, m')"
  shows "matches = interval_matches lb ub R l" and "right_kept lb (d @ [l]) R m'"
proof -
  obtain t k x where lt: "l = (t, k, x)" by (cases l)
  obtain xs where xs: "of_key k R = xs @ entry m k" "\<forall>r \<in> set xs. \<exists>l \<in> set d. fst r < fst l - lb"
    using kept unfolding right_kept_def by blast
  have early: "\<forall>r \<in> set xs. fst r < t - lb" using xs(2) l(1) lt by fastforce
  let ?lo = "\<lambda>(u, _). u < t - lb" and ?in = "\<lambda>(u, _). t - lb \<le> u \<and> u \<le> t + ub"
  have "filter ?in xs = []" using early by (fastforce simp: filter_empty_conv)
  then have matches: "interval_matches lb ub R l = map (\<lambda>(u, y). (max u t, k, x, y)) (filter ?in (entry m k))"
    unfolding lt interval_matches_of_key xs(1) by simp
  have sorted: "sorted (map fst (entry m k))" using of_key_sorted [OF R(1), of k] unfolding xs(1) by (simp add: sorted_append)
  have time: "i64_time (fst r)" if "r \<in> set (dropWhile ?lo (entry m k))" for r
  proof -
    have "r \<in> set (of_key k R)" using that set_dropWhileD [OF that] xs(1) by auto
    then show ?thesis using R(2) of_key_times by fastforce
  qed
  have "takeWhile (\<lambda>(u, _). u \<le> interval_upper ub t) (dropWhile ?lo (entry m k)) = takeWhile (\<lambda>(u, _). u \<le> t + ub) (dropWhile ?lo (entry m k))"
    using time interval_upper_le [of t ub] l(2) bounds(2) lt by (intro takeWhile_cong) auto
  also have "\<dots> = filter ?in (entry m k)" by (rule window_of_sorted [OF sorted])
  finally have window: "takeWhile (\<lambda>(u, _). u \<le> interval_upper ub t) (dropWhile ?lo (entry m k)) = filter ?in (entry m k)" .
  have lower: "interval_lower lb t = t - lb" using interval_lower_eq l(2) bounds(1) lt by simp
  show "matches = interval_matches lb ub R l"
    unfolding matches using adv window lt by (auto simp: advance_left_def lower entry_def Let_def split: option.splits)
  show "right_kept lb (d @ [l]) R m'"
    unfolding right_kept_def
  proof
    fix k'
    show "\<exists>xs. of_key k' R = xs @ entry m' k' \<and> (\<forall>r \<in> set xs. \<exists>l \<in> set (d @ [l]). fst r < fst l - lb)"
    proof (cases "k' = k")
      case True
      have m': "entry m' k = dropWhile ?lo (entry m k)"
        using adv lt by (auto simp: advance_left_def lower entry_def update_conv' Let_def split: option.splits)
      have "\<forall>r \<in> set (takeWhile ?lo (entry m k)). fst r < fst l - lb" using lt by (auto dest!: set_takeWhileD)
      with xs m' True show ?thesis by (intro exI [of _ "xs @ takeWhile ?lo (entry m k)"]) auto
    next
      case False
      have "entry m' k' = entry m k'"
        using adv lt False by (auto simp: advance_left_def entry_def update_conv' Let_def split: option.splits)
      moreover obtain ys where "of_key k' R = ys @ entry m k'" "\<forall>r \<in> set ys. \<exists>l \<in> set d. fst r < fst l - lb"
        using kept unfolding right_kept_def by blast
      ultimately show ?thesis by (intro exI [of _ ys]) auto
    qed
  qed
qed


section \<open>One call of advance\<close>

lemma interval_advance_run:
  assumes "right_kept lb d R (ij_right st)" and "sorted (map fst (d @ ij_left st))" and "\<forall>l \<in> set (ij_left st). i64_time (fst l)"
    and R: "sorted (map fst R)" "\<forall>r \<in> set R. i64_time (fst r)"
    and bounds: "i64_time lb" "i64_time ub" "ij_lower_bound st = lb" "ij_upper_bound st = ub" and seen: "i64_time (ij_last_seen st)"
  shows "\<exists>d' left m. ij_left st = d' @ left
    \<and> interval_advance st = st\<lparr>ij_left := left, ij_right := m, ij_buffer := ij_buffer st @ concat (map (interval_matches lb ub R) d')\<rparr>
    \<and> (\<forall>l \<in> set d'. ij_received_restart st \<or> fst l + ub < ij_last_seen st)
    \<and> (if ij_received_restart st then left = [] \<and> m = [] else right_kept lb (d @ d') R m)"
  using assms(1,2,3) bounds(3,4) seen
proof (induction st arbitrary: d rule: interval_advance.induct)
  case (1 st)
  show ?case
  proof (cases "ij_left st")
    case Nil
    then show ?thesis using "1.prems"(1)
      by (intro exI [of _ "[]"] exI [of _ "if ij_received_restart st then [] else ij_right st"]) (simp add: interval_advance.simps [of st])
  next
    case (Cons l rest)
    let ?lower = "interval_lower (ij_lower_bound st) (fst l)" and ?upper = "interval_upper (ij_upper_bound st) (fst l)"
    show ?thesis
    proof (cases "ij_last_seen st \<le> ?upper \<and> \<not> ij_received_restart st")
      case True
      then show ?thesis using Cons "1.prems"(1)
        by (intro exI [of _ "[]"] exI [of _ "l # rest"] exI [of _ "ij_right st"]) (simp add: interval_advance.simps [of st])
    next
      case False
      obtain matches m where adv: "advance_left ?lower ?upper l (ij_right st) = (matches, m)" by fastforce
      let ?st1 = "st\<lparr>ij_left := rest, ij_right := m, ij_buffer := ij_buffer st @ matches\<rparr>"
      have l: "\<forall>l' \<in> set d. fst l' \<le> fst l" "i64_time (fst l)" using "1.prems"(2,3) Cons by (auto simp: sorted_append)
      have kept: "matches = interval_matches lb ub R l" "right_kept lb (d @ [l]) R m"
        using advance_left_matches [OF "1.prems"(1) R l bounds(1,2)] adv "1.prems"(4,5) by auto
      have step: "interval_advance st = interval_advance ?st1" using Cons False adv by (auto simp: interval_advance.simps [of st] Let_def)
      have "\<exists>d' left m'. ij_left ?st1 = d' @ left
        \<and> interval_advance ?st1 = ?st1\<lparr>ij_left := left, ij_right := m', ij_buffer := ij_buffer ?st1 @ concat (map (interval_matches lb ub R) d')\<rparr>
        \<and> (\<forall>l \<in> set d'. ij_received_restart ?st1 \<or> fst l + ub < ij_last_seen ?st1)
        \<and> (if ij_received_restart ?st1 then left = [] \<and> m' = [] else right_kept lb ((d @ [l]) @ d') R m')"
        using "1.prems" Cons kept(2) by (intro "1.IH" [OF Cons refl refl False adv [symmetric] refl]) auto
      then obtain d' left m' where run: "ij_left ?st1 = d' @ left"
        "interval_advance ?st1 = ?st1\<lparr>ij_left := left, ij_right := m', ij_buffer := ij_buffer ?st1 @ concat (map (interval_matches lb ub R) d')\<rparr>"
        "\<forall>l \<in> set d'. ij_received_restart ?st1 \<or> fst l + ub < ij_last_seen ?st1"
        "if ij_received_restart ?st1 then left = [] \<and> m' = [] else right_kept lb ((d @ [l]) @ d') R m'" by blast
      moreover have "ij_received_restart st \<or> fst l + ub < ij_last_seen st"
        using False interval_upper_le [OF l(2) bounds(2) "1.prems"(6)] "1.prems"(5) by auto
      ultimately show ?thesis using Cons kept(1) step by (intro exI [of _ "l # d'"] exI [of _ left] exI [of _ m']) auto
    qed
  qed
qed


section \<open>An iteration\<close>

lemma interval_drain:
  "ij_buffer st = buf \<Longrightarrow> pulls (interval_join_next p) st (map (\<lambda>(t, item). Timestamped item t) buf) (st\<lparr>ij_buffer := []\<rparr>)"
proof (induction buf arbitrary: st)
  case (Cons b buf)
  obtain t item where b: "b = (t, item)" by (cases b)
  have "interval_join_next p st = ret (Timestamped item t, st\<lparr>ij_buffer := buf\<rparr>)"
    using Cons.prems b by (simp add: interval_join_next.simps [of p st])
  with Cons.IH [of "st\<lparr>ij_buffer := buf\<rparr>"] b show ?case by (simp add: pulls_Cons_iff)
qed simp

text \<open>The timestamps of an iteration: none without, and none earlier than \<open>m\<close> or later than the largest.\<close>

definition interval_input :: "timestamp \<Rightarrow> 'a stream_element list \<Rightarrow> bool" where
  "interval_input m seg \<longleftrightarrow> data_only seg \<and> time_ordered (Some m) seg
     \<and> (\<forall>e \<in> set seg. case e of Item _ \<Rightarrow> False | Timestamped _ t \<Rightarrow> t \<le> i64_max | Watermark t \<Rightarrow> t \<le> i64_max | _ \<Rightarrow> True)"

lemma interval_input_times:
  assumes "interval_input m seg"
  shows "\<forall>l \<in> set (lefts_of seg). m \<le> fst l" "\<forall>r \<in> set (rights_of seg). m \<le> fst r"
proof -
  have "(\<forall>l \<in> set (lefts_of seg). m \<le> fst l) \<and> (\<forall>r \<in> set (rights_of seg). m \<le> fst r)" if "time_ordered (Some m) seg" "data_only seg"
    using that
  proof (induction seg arbitrary: m)
    case (Cons e seg)
    show ?case
    proof (cases e)
      case (Timestamped ki t)
      obtain k i where ki: "ki = (k, i)" by (cases ki)
      have "m \<le> t" "time_ordered (Some t) seg" "data_only seg" using Cons.prems Timestamped by simp_all
      with Cons.IH [of t] Timestamped ki show ?thesis by (cases i) (auto simp: List.map_filter_simps)
    next
      case (Watermark t)
      have "m \<le> t" "time_ordered (Some t) seg" "data_only seg" using Cons.prems Watermark by simp_all
      with Cons.IH [of t] Watermark show ?thesis by (auto simp: List.map_filter_simps)
    qed (use Cons in \<open>auto simp: List.map_filter_simps\<close>)
  qed (simp add: List.map_filter_simps)
  with assms show "\<forall>l \<in> set (lefts_of seg). m \<le> fst l" "\<forall>r \<in> set (rights_of seg). m \<le> fst r"
    by (simp_all add: interval_input_def)
qed

text \<open>
  The state in an iteration: the left elements \<open>d\<close> have been joined, those of the state have not, the right side
  holds what of \<open>R\<close> can still match, and all that has been seen is at most \<^verbatim>\<open>last_seen\<close>.
\<close>

definition interval_state :: "timestamp \<Rightarrow> timestamp \<Rightarrow> (timestamp \<times> 'k \<times> 'a) list \<Rightarrow> (timestamp \<times> 'k \<times> 'b) list \<Rightarrow> ('s, 'k, 'a, 'b) interval_join \<Rightarrow> bool" where
  "interval_state lb ub d R st \<longleftrightarrow> right_kept lb d R (ij_right st) \<and> sorted (map fst (d @ ij_left st)) \<and> sorted (map fst R)
     \<and> (\<forall>l \<in> set (d @ ij_left st). i64_time (fst l) \<and> fst l \<le> ij_last_seen st) \<and> (\<forall>r \<in> set R. i64_time (fst r) \<and> fst r \<le> ij_last_seen st)
     \<and> (\<forall>l \<in> set d. fst l + ub < ij_last_seen st)
     \<and> ij_lower_bound st = lb \<and> ij_upper_bound st = ub \<and> i64_time (ij_last_seen st) \<and> ij_buffer st = [] \<and> \<not> ij_received_restart st"

text \<open>The state after an element is pushed, before \<^verbatim>\<open>advance\<close>: it may close intervals.\<close>

lemma interval_advance_state:
  assumes "interval_state lb ub d R st" and "i64_time lb" and "i64_time ub"
  shows "\<exists>d' st1. interval_advance st = st1\<lparr>ij_buffer := concat (map (interval_matches lb ub R) d')\<rparr>
    \<and> ij_left st = d' @ ij_left st1 \<and> interval_state lb ub (d @ d') R st1 \<and> ij_last_seen st1 = ij_last_seen st \<and> ij_prev st1 = ij_prev st"
proof -
  note inv = assms(1) [unfolded interval_state_def]
  from interval_advance_run [of lb d R st ub] inv assms(2,3) obtain d' left m where run: "ij_left st = d' @ left"
    "interval_advance st = st\<lparr>ij_left := left, ij_right := m, ij_buffer := concat (map (interval_matches lb ub R) d')\<rparr>"
    "\<forall>l \<in> set d'. fst l + ub < ij_last_seen st" "right_kept lb (d @ d') R m" by auto
  with inv show ?thesis
    by (intro exI [of _ d'] exI [of _ "st\<lparr>ij_left := left, ij_right := m\<rparr>"]) (auto simp: interval_state_def)
qed


text \<open>The elements that carry data, and those of a result.\<close>

fun carries :: "'a stream_element \<Rightarrow> bool" where
  "carries (Item _) \<longleftrightarrow> True"
| "carries (Timestamped _ _) \<longleftrightarrow> True"
| "carries _ \<longleftrightarrow> False"

definition interval_result :: "timestamp \<Rightarrow> timestamp \<Rightarrow> (timestamp \<times> 'k \<times> 'a) list \<Rightarrow> (timestamp \<times> 'k \<times> 'b) list \<Rightarrow> ('k \<times> 'a \<times> 'b) stream_element list" where
  "interval_result lb ub L R = map (\<lambda>(t, item). Timestamped item t) (concat (map (interval_matches lb ub R) L))"

lemma interval_result_data [simp]: "data_only (interval_result lb ub L R)"
  "filter carries (interval_result lb ub L R) = interval_result lb ub L R" "watermarks (interval_result lb ub L R) = []"
proof -
  have "data_only (map (\<lambda>(t, item). Timestamped item t) xs)" "filter carries (map (\<lambda>(t, item). Timestamped item t) xs) = map (\<lambda>(t, item). Timestamped item t) xs"
    "watermarks (map (\<lambda>(t, item). Timestamped item t) xs) = []" for xs :: "(timestamp \<times> 'x) list"
    by (induction xs) auto
  then show "data_only (interval_result lb ub L R)" "watermarks (interval_result lb ub L R) = []"
    "filter carries (interval_result lb ub L R) = interval_result lb ub L R" unfolding interval_result_def by blast+
qed

lemma interval_result_append: "interval_result lb ub (L @ L') R = interval_result lb ub L R @ interval_result lb ub L' R"
  by (simp add: interval_result_def)

definition interval_ends :: "('s, 'k \<times> ('a, 'b) merge_element) pull \<Rightarrow> timestamp \<Rightarrow> timestamp \<Rightarrow> ('s, 'k, 'a, 'b) interval_join \<Rightarrow> 's
    \<Rightarrow> ('k \<times> 'a \<times> 'b) stream_element list \<Rightarrow> bool" where
  "interval_ends p lb ub st s1 vs \<longleftrightarrow> (\<exists>out. pulls (interval_join_next p) st (out @ [FlushAndRestart]) (interval_join_new lb ub s1)
     \<and> data_only out \<and> filter carries out = vs \<and> watermarks out = [])"

text \<open>From a call that advances on: the closed intervals are returned, then the rest.\<close>

lemma interval_continue:
  assumes "interval_state lb ub d R st0" and bounds: "i64_time lb" "i64_time ub" and "interval_join_next p st = interval_join_next p (interval_advance st0)"
    and later: "\<forall>r \<in> set R'. ij_last_seen st0 \<le> fst r"
    and rest: "\<And>d st1. interval_state lb ub d R st1 \<Longrightarrow> ij_last_seen st1 = ij_last_seen st0 \<Longrightarrow> ij_prev st1 = ij_prev st0
      \<Longrightarrow> interval_ends p lb ub st1 s1 (interval_result lb ub (ij_left st1 @ L') (R @ R'))"
  shows "interval_ends p lb ub st s1 (interval_result lb ub (ij_left st0 @ L') (R @ R'))"
proof -
  obtain d' st1 where adv: "interval_advance st0 = st1\<lparr>ij_buffer := concat (map (interval_matches lb ub R) d')\<rparr>"
    and st1: "ij_left st0 = d' @ ij_left st1" "interval_state lb ub (d @ d') R st1" "ij_last_seen st1 = ij_last_seen st0" "ij_prev st1 = ij_prev st0"
    using interval_advance_state [OF assms(1) bounds] by blast
  have closed: "\<forall>l \<in> set d'. fst l + ub < ij_last_seen st0" using st1(2,3) by (auto simp: interval_state_def)
  have "map (interval_matches lb ub (R @ R')) d' = map (interval_matches lb ub R) d'"
    using closed later by (intro map_cong refl interval_matches_later) fastforce
  then have "interval_result lb ub d' (R @ R') = interval_result lb ub d' R" unfolding interval_result_def by (rule arg_cong)
  then have vs: "interval_result lb ub (ij_left st0 @ L') (R @ R') = interval_result lb ub d' R @ interval_result lb ub (ij_left st1 @ L') (R @ R')"
    by (simp add: st1(1) interval_result_append)
  from rest [OF st1(2-4)] obtain out where out: "pulls (interval_join_next p) st1 (out @ [FlushAndRestart]) (interval_join_new lb ub s1)"
    "data_only out" "filter carries out = interval_result lb ub (ij_left st1 @ L') (R @ R')" "watermarks out = []"
    unfolding interval_ends_def by blast
  have buf: "st1\<lparr>ij_buffer := []\<rparr> = st1" using st1(2) by (cases st1) (simp add: interval_state_def)
  have "pulls (interval_join_next p) (interval_advance st0) (interval_result lb ub d' R) st1"
    unfolding adv using interval_drain [of "st1\<lparr>ij_buffer := concat (map (interval_matches lb ub R) d')\<rparr>" _ p] buf by (simp add: interval_result_def)
  from pulls_appendI [OF this out(1)] have "pulls (interval_join_next p) st ((interval_result lb ub d' R @ out) @ [FlushAndRestart]) (interval_join_new lb ub s1)"
    using pulls_start_cong [OF assms(4)] by simp
  then show ?thesis unfolding interval_ends_def vs using out by (intro exI [of _ "interval_result lb ub d' R @ out"]) simp
qed

lemma interval_restart:
  assumes "interval_state lb ub d R st" and bounds: "i64_time lb" "i64_time ub" and p: "p (ij_prev st) = ret (FlushAndRestart, s1)"
  shows "interval_ends p lb ub st s1 (interval_result lb ub (ij_left st) R)"
proof -
  note inv = assms(1) [unfolded interval_state_def]
  let ?st0 = "st\<lparr>ij_prev := s1, ij_received_restart := True\<rparr>"
  have step: "interval_join_next p st = interval_join_next p (interval_advance ?st0)"
    using inv p by (simp add: interval_join_next.simps [of p st])
  obtain d' left m where "ij_left ?st0 = d' @ left" "left = []" "m = []"
    "interval_advance ?st0 = ?st0\<lparr>ij_left := left, ij_right := m, ij_buffer := ij_buffer ?st0 @ concat (map (interval_matches lb ub R) d')\<rparr>"
    using interval_advance_run [of lb d R ?st0 ub] inv bounds by auto
  then have adv: "interval_advance ?st0 = ?st0\<lparr>ij_left := [], ij_right := [], ij_buffer := concat (map (interval_matches lb ub R) (ij_left st))\<rparr>"
    using inv by simp
  let ?last = "?st0\<lparr>ij_left := [], ij_right := [], ij_buffer := []\<rparr>"
  have "pulls (interval_join_next p) (interval_advance ?st0) (interval_result lb ub (ij_left st) R) ?last"
    using interval_drain [of "interval_advance ?st0" _ p] unfolding adv by (simp add: interval_result_def)
  moreover have "interval_join_next p ?last = ret (FlushAndRestart, interval_join_new lb ub s1)"
    using inv by (simp add: interval_join_next.simps [of p ?last] interval_join_new_def)
  ultimately have "pulls (interval_join_next p) (interval_advance ?st0) (interval_result lb ub (ij_left st) R @ [FlushAndRestart]) (interval_join_new lb ub s1)"
    by (intro pulls_appendI) simp_all
  then have "pulls (interval_join_next p) st (interval_result lb ub (ij_left st) R @ [FlushAndRestart]) (interval_join_new lb ub s1)"
    using pulls_start_cong [OF step] by simp
  then show ?thesis unfolding interval_ends_def by (intro exI [of _ "interval_result lb ub (ij_left st) R"]) simp
qed

lemma right_kept_push:
  assumes "right_kept lb d R m"
  shows "right_kept lb d (R @ [(t, k, y)]) (push_entry k (t, y) m)"
  unfolding right_kept_def
proof
  fix k'
  obtain xs where "of_key k' R = xs @ entry m k'" "\<forall>r \<in> set xs. \<exists>l \<in> set d. fst r < fst l - lb"
    using assms unfolding right_kept_def by blast
  then show "\<exists>xs. of_key k' (R @ [(t, k, y)]) = xs @ entry (push_entry k (t, y) m) k' \<and> (\<forall>r \<in> set xs. \<exists>l \<in> set d. fst r < fst l - lb)"
    by (intro exI [of _ xs]) (auto simp: of_key_def entry_def push_entry_map)
qed


lemma interval_state_seen:
  assumes "interval_state lb ub d R st" and "ij_last_seen st \<le> t" and "i64_time t"
  shows "interval_state lb ub d R (st\<lparr>ij_prev := s, ij_last_seen := t\<rparr>)"
proof -
  note inv = assms(1) [unfolded interval_state_def]
  have "\<forall>l \<in> set (d @ ij_left st). fst l \<le> t" "\<forall>r \<in> set R. fst r \<le> t" "\<forall>l \<in> set d. fst l + ub < t" using inv assms(2) by force+
  with inv assms(3) show ?thesis by (simp add: interval_state_def)
qed

lemma interval_state_push:
  assumes "interval_state lb ub d R st" and "ij_last_seen st = t"
  shows "interval_state lb ub d R (st\<lparr>ij_left := ij_left st @ [(t, k, x)]\<rparr>)"
    and "interval_state lb ub d (R @ [(t, k, y)]) (st\<lparr>ij_right := push_entry k (t, y) (ij_right st)\<rparr>)"
  using assms by (auto simp: interval_state_def sorted_append right_kept_push)

lemma interval_iteration:
  assumes "interval_state lb ub d R st" and bounds: "i64_time lb" "i64_time ub"
    and "pulls p (ij_prev st) (seg @ [FlushAndRestart]) s1" and "interval_input (ij_last_seen st) seg"
  shows "interval_ends p lb ub st s1 (interval_result lb ub (ij_left st @ lefts_of seg) (R @ rights_of seg))"
  using assms(1,4,5)
proof (induction seg arbitrary: st d R)
  case Nil
  then show ?case using interval_restart [OF Nil.prems(1) bounds, of p s1] by (simp add: List.map_filter_simps)
next
  case (Cons e seg)
  obtain s0 where p: "p (ij_prev st) = ret (e, s0)" "pulls p s0 (seg @ [FlushAndRestart]) s1" using Cons.prems(2) by (auto simp: pulls_Cons_iff)
  note inv = Cons.prems(1) [unfolded interval_state_def]
  have advance: "interval_ends p lb ub st s1 (interval_result lb ub (ij_left st0 @ lefts_of seg) (R0 @ rights_of seg))"
    if st0: "interval_state lb ub d R0 st0" "interval_join_next p st = interval_join_next p (interval_advance st0)" "ij_prev st0 = s0"
      and seg: "interval_input (ij_last_seen st0) seg" for st0 R0
    using Cons.IH p(2) seg st0(3) interval_input_times(2) [OF seg] by (intro interval_continue [OF st0(1) bounds st0(2)]) auto
  have seg: "interval_input t seg" "ij_last_seen st \<le> t" "t \<le> i64_max" "i64_time t" "p (ij_prev st) = ret (e, s0)"
    if "e = Watermark t \<or> (\<exists>x. e = Timestamped x t)" for t
    using Cons.prems(3) inv that p(1) by (auto simp: interval_input_def i64_time_def)
  show ?case
  proof (cases e)
    case (Item x)
    then show ?thesis using Cons.prems(3) by (simp add: interval_input_def)
  next
    case (Timestamped ki t)
    obtain k i where ki: "ki = (k, i)" by (cases ki)
    note seg = seg [of t] and e = Timestamped ki
    show ?thesis
    proof (cases i)
      case (MergeLeft x)
      let ?st0 = "st\<lparr>ij_prev := s0, ij_last_seen := t, ij_left := ij_left st @ [(t, k, x)]\<rparr>"
      have "interval_state lb ub d R ?st0"
        using interval_state_push(1) [OF interval_state_seen [OF Cons.prems(1), of t s0] refl] seg e by simp
      moreover have "interval_join_next p st = interval_join_next p (interval_advance ?st0)"
        using inv seg e MergeLeft by (simp add: interval_join_next.simps [of p st])
      ultimately show ?thesis using advance [of R ?st0] seg e MergeLeft by (simp add: List.map_filter_simps)
    next
      case (MergeRight y)
      let ?st0 = "st\<lparr>ij_prev := s0, ij_last_seen := t, ij_right := push_entry k (t, y) (ij_right st)\<rparr>"
      have "interval_state lb ub d (R @ [(t, k, y)]) ?st0"
        using interval_state_push(2) [OF interval_state_seen [OF Cons.prems(1), of t s0] refl] seg e by simp
      moreover have "interval_join_next p st = interval_join_next p (interval_advance ?st0)"
        using inv seg e MergeRight by (simp add: interval_join_next.simps [of p st])
      ultimately show ?thesis using advance [of "R @ [(t, k, y)]" ?st0] seg e MergeRight by (simp add: List.map_filter_simps)
    qed
  next
    case (Watermark t)
    note seg = seg [of t]
    let ?st0 = "st\<lparr>ij_prev := s0, ij_last_seen := t\<rparr>"
    have "interval_state lb ub d R ?st0" using interval_state_seen [OF Cons.prems(1), of t s0] seg Watermark by simp
    moreover have "interval_join_next p st = interval_join_next p (interval_advance ?st0)"
      using inv seg Watermark by (simp add: interval_join_next.simps [of p st])
    ultimately show ?thesis using advance [of R ?st0] seg Watermark by (simp add: List.map_filter_simps)
  next
    case FlushBatch
    let ?st0 = "st\<lparr>ij_prev := s0\<rparr>"
    have "interval_join_next p st = ret (FlushBatch, ?st0)" using inv p FlushBatch by (simp add: interval_join_next.simps [of p st])
    moreover have "interval_ends p lb ub ?st0 s1 (interval_result lb ub (ij_left ?st0 @ lefts_of seg) (R @ rights_of seg))"
      using Cons.prems(1,3) p(2) FlushBatch by (intro Cons.IH) (auto simp: interval_state_def interval_input_def)
    then obtain out where "pulls (interval_join_next p) ?st0 (out @ [FlushAndRestart]) (interval_join_new lb ub s1)" "data_only out"
      "filter carries out = interval_result lb ub (ij_left st @ lefts_of seg) (R @ rights_of seg)" "watermarks out = []"
      unfolding interval_ends_def by auto
    ultimately show ?thesis using FlushBatch unfolding interval_ends_def
      by (intro exI [of _ "FlushBatch # out"]) (simp add: List.map_filter_simps pulls_Cons_iff)
  qed (use Cons.prems(3) in \<open>auto simp: interval_input_def\<close>)
qed

lemma interval_state_new: "interval_state lb ub [] [] (interval_join_new lb ub s)"
  by (simp add: interval_state_def interval_join_new_def right_kept_def of_key_def entry_def i64_time_def i64_max_def)

lemma interval_stream:
  assumes "i64_time lb" "i64_time ub" and "\<forall>seg \<in> set segs. interval_input 0 seg" and "pulls p s (unsegment segs) s'"
  shows "\<exists>outs st'. pulls (interval_join_next p) (interval_join_new lb ub s) (unsegment outs) st'
    \<and> list_all2 (\<lambda>seg out. data_only out \<and> filter carries out = interval_result lb ub (lefts_of seg) (rights_of seg) \<and> watermarks out = []) segs outs"
  using assms(3,4)
proof (induction segs arbitrary: s)
  case Nil
  have "interval_join_next p (interval_join_new lb ub s) = ret (Terminate, interval_join_new lb ub s')"
    using Nil by (subst interval_join_next.simps) (simp add: unsegment_def interval_join_new_def)
  then show ?case by (intro exI [of _ "[]"]) (auto simp: unsegment_def)
next
  case (Cons seg segs)
  from Cons.prems(2) obtain s1 where p: "pulls p s (seg @ [FlushAndRestart]) s1" "pulls p s1 (unsegment segs) s'"
    unfolding unsegment_Cons pulls_append [of p s "seg @ [FlushAndRestart]"] by blast
  have "interval_ends p lb ub (interval_join_new lb ub s) s1 (interval_result lb ub (lefts_of seg) (rights_of seg))"
    using interval_iteration [OF interval_state_new assms(1,2), of p s seg s1] p(1) Cons.prems(1) by (simp add: interval_join_new_def)
  then obtain out where out: "pulls (interval_join_next p) (interval_join_new lb ub s) (out @ [FlushAndRestart]) (interval_join_new lb ub s1)"
    "data_only out" "filter carries out = interval_result lb ub (lefts_of seg) (rights_of seg)" "watermarks out = []"
    unfolding interval_ends_def by blast
  from Cons.IH [OF _ p(2)] Cons.prems(1) obtain outs st' where outs: "pulls (interval_join_next p) (interval_join_new lb ub s1) (unsegment outs) st'"
    "list_all2 (\<lambda>seg out. data_only out \<and> filter carries out = interval_result lb ub (lefts_of seg) (rights_of seg) \<and> watermarks out = []) segs outs" by auto
  have "pulls (interval_join_next p) (interval_join_new lb ub s) (unsegment (out # outs)) st'"
    unfolding unsegment_Cons using pulls_appendI [OF out(1) outs(1)] by simp
  with out outs(2) show ?case by (intro exI [of _ "out # outs"]) auto
qed


section \<open>The chain of operators\<close>

lemma interval_time_ordered:
  assumes "time_ordered m (unsegment segs)" and "\<forall>seg \<in> set segs. data_only seg" and "seg \<in> set segs" and "m = None"
  shows "time_ordered None seg"
proof -
  have split: "time_ordered m (seg @ [FlushAndRestart] @ rest) \<longleftrightarrow> time_ordered m seg \<and> time_ordered None rest" if "data_only seg"
    for m rest and seg :: "'a stream_element list"
    using that by (induction m seg rule: time_ordered.induct) auto
  from assms show ?thesis
    by (induction segs) (auto simp: unsegment_Cons split [simplified])
qed

lemma interval_inputI:
  assumes "data_only seg" and "time_ordered None seg" and "\<forall>e \<in> set seg. \<forall>x. e \<noteq> Item x"
    and "\<forall>e \<in> set seg. \<forall>t. timestamp_of e = Some t \<longrightarrow> i64_time t"
  shows "interval_input 0 seg"
proof -
  have "time_ordered (Some 0) seg" if "time_ordered None seg" "\<forall>e \<in> set seg. \<forall>t. timestamp_of e = Some t \<longrightarrow> i64_time t" "data_only seg"
    for seg :: "'a stream_element list"
    using that
  proof (induction seg)
    case (Cons e seg)
    then show ?case by (cases e) (auto simp: i64_time_def)
  qed simp
  with assms show ?thesis
    by (force simp: interval_input_def i64_time_def split: stream_element.splits)
qed

lemma interval_mset_concat: "mset (concat (map f xs)) = \<Sum>\<^sub># (image_mset (\<lambda>l. mset (f l)) (mset xs))"
  by (induction xs) auto

lemma merged_timestamp: "merged e0 = Some e \<Longrightarrow> timestamp_of e0 = timestamp_of e"
  by (cases e0 rule: merged.cases) auto

lemma interval_result_perm:
  fixes L L' :: "(timestamp \<times> 'k \<times> 'a) list" and R R' :: "(timestamp \<times> 'k \<times> 'b) list"
  assumes "mset L = mset L'" and "mset R = mset R'"
  shows "mset (interval_result lb ub L R) = mset (interval_result lb ub L' R')"
proof -
  have "mset (interval_matches lb ub R l) = mset (interval_matches lb ub R' l)" for l :: "timestamp \<times> 'k \<times> 'a"
    using assms(2) by (cases l) (simp add: interval_matches_def)
  then have "(\<lambda>l :: timestamp \<times> 'k \<times> 'a. mset (interval_matches lb ub R l)) = (\<lambda>l. mset (interval_matches lb ub R' l))" by (rule ext)
  then have "\<Sum>\<^sub># (image_mset (\<lambda>l. mset (interval_matches lb ub R l)) (mset L)) = \<Sum>\<^sub># (image_mset (\<lambda>l. mset (interval_matches lb ub R' l)) (mset L'))"
    using assms(1) by simp
  then have "mset (concat (map (interval_matches lb ub R) L)) = mset (concat (map (interval_matches lb ub R') L'))"
    unfolding interval_mset_concat .
  then show ?thesis unfolding interval_result_def mset_map by (rule arg_cong)
qed

lemma map_filter_mset: "mset es = mset es' \<Longrightarrow> mset (List.map_filter f es) = mset (List.map_filter f es')"
  by (simp add: List.map_filter_def)

lemma merged_stream:
  assumes "wf_stream es" and "respects_watermarks es"
  shows "respects_watermarks (List.map_filter merged es)" and "iterations (List.map_filter merged es) = map (List.map_filter merged) (iterations es)"
proof -
  have "wm_from m es \<Longrightarrow> wm_from m (List.map_filter merged es)" for m and es :: "('a, 'a) binary_element stream_element list"
  proof (induction es arbitrary: m)
    case (Cons e es)
    then show ?case by (cases e rule: merged.cases) (auto simp: List.map_filter_simps)
  qed (simp add: List.map_filter_simps)
  with assms(2) show "respects_watermarks (List.map_filter merged es)" by (simp add: respects_watermarks_def)
  have "iterations_from (List.map_filter merged pre) (List.map_filter merged es) = map (List.map_filter merged) (iterations_from pre es)"
    for pre and es :: "('a, 'a) binary_element stream_element list"
  proof (induction es arbitrary: pre)
    case (Cons e es)
    from Cons.IH [of "pre @ [e]"] Cons.IH [of "[]"] show ?case by (cases e rule: merged.cases) (simp_all add: List.map_filter_simps)
  qed (simp add: List.map_filter_simps)
  from this [of "[]"] show "iterations (List.map_filter merged es) = map (List.map_filter merged) (iterations es)"
    by (simp add: iterations_def List.map_filter_simps)
qed

text \<open>
  C30: An interval join of two keyed streams returns, for every iteration, exactly the pairs of a left and a right element with the
  same key whose timestamps are at most the bounds apart, each with the later of the two timestamps, however the two sides
  interleave and are out of order. No assertion fails. All elements have to be timestamped, with timestamps that are not negative,
  and the input has to keep the promises of its watermarks. Watermarks are not passed on.
\<close>

theorem interval_join_matches:
  assumes "i64_time lb" and "i64_time ub" and "stable_sort srt" and "wf_stream es" and "respects_watermarks es" and "pulls p s es s'"
    and "\<forall>seg \<in> set (iterations es). \<forall>e \<in> set seg. (\<forall>x. merged e \<noteq> Some (Item x)) \<and> (\<forall>t. timestamp_of e = Some t \<longrightarrow> i64_time t)"
  shows "\<exists>outs st'. pulls (keyed_interval_join srt p) (keyed_interval_join_new lb ub s) (unsegment outs) st'
    \<and> list_all2 (\<lambda>seg out. data_only out \<and> watermarks out = [] \<and> mset (filter carries out) =
          mset (interval_result lb ub (lefts_of (List.map_filter merged seg)) (rights_of (List.map_filter merged seg)))) (iterations es) outs"
proof -
  let ?m = "List.map_filter merged es"
  obtain sm where merge: "pulls (merge_next p) s ?m sm" "wf_stream ?m" using merge_produces [OF assms(4,6)] by blast
  note m = merged_stream [OF assms(4,5)]
  let ?same = "\<lambda>seg seg'. mset seg' = mset seg \<and> (\<forall>t. filter (\<lambda>e. item_timestamp e = Some t) seg' = filter (\<lambda>e. item_timestamp e = Some t) seg)"
  from reorder_orders [OF assms(3) merge(2) m(1) merge(1)] obtain ro sr where ro: "pulls (reorder_next srt (merge_next p)) (reorder_new s) ro sr"
    "wf_stream ro" "time_ordered None ro" "list_all2 ?same (iterations ?m) (iterations ro)" by blast
  note segs = wf_stream_unsegment [OF ro(2)]
  have "interval_input 0 seg" if seg: "seg \<in> set (iterations ro)" for seg
  proof (rule interval_inputI)
    show "data_only seg" using segs(2) seg by blast
    show "time_ordered None seg" using interval_time_ordered [OF _ segs(2) seg refl] ro(3) segs(1) by simp
    from seg obtain i where i: "i < length (iterations ro)" "seg = iterations ro ! i" by (metis in_set_conv_nth)
    define seg0 where "seg0 = iterations es ! i"
    have "seg0 \<in> set (iterations es)" "mset seg = mset (List.map_filter merged seg0)"
      using ro(4) i unfolding m(2) seg0_def by (auto simp: list_all2_conv_all_nth)
    then have "set seg = set (List.map_filter merged seg0)" by (metis mset_eq_setD)
    then have e: "\<forall>e \<in> set seg. \<exists>e0 \<in> set seg0. merged e0 = Some e" by (auto simp: List.map_filter_def)
    have seg0: "\<forall>e0 \<in> set seg0. (\<forall>x. merged e0 \<noteq> Some (Item x)) \<and> (\<forall>t. timestamp_of e0 = Some t \<longrightarrow> i64_time t)"
      using assms(7) \<open>seg0 \<in> set (iterations es)\<close> by blast
    show "\<forall>e \<in> set seg. \<forall>x. e \<noteq> Item x" using e seg0 by blast
    show "\<forall>e \<in> set seg. \<forall>t. timestamp_of e = Some t \<longrightarrow> i64_time t"
    proof (intro ballI allI impI)
      fix x t
      assume "x \<in> set seg" "timestamp_of x = Some t"
      then obtain e0 where "e0 \<in> set seg0" "merged e0 = Some x" using e by blast
      with merged_timestamp [of e0 x] seg0 \<open>timestamp_of x = Some t\<close> show "i64_time t" by simp
    qed
  qed
  with interval_stream [OF assms(1,2), of "iterations ro" "reorder_next srt (merge_next p)" "reorder_new s" sr] ro(1) segs(1)
  obtain outs st' where outs: "pulls (interval_join_next (reorder_next srt (merge_next p))) (interval_join_new lb ub (reorder_new s)) (unsegment outs) st'"
    "list_all2 (\<lambda>seg out. data_only out \<and> filter carries out = interval_result lb ub (lefts_of seg) (rights_of seg) \<and> watermarks out = []) (iterations ro) outs"
    by auto
  have "list_all2 (\<lambda>seg out. data_only out \<and> watermarks out = [] \<and> mset (filter carries out) =
          mset (interval_result lb ub (lefts_of (List.map_filter merged seg)) (rights_of (List.map_filter merged seg)))) (iterations es) outs"
    using ro(4) outs(2) unfolding m(2)
    by (auto simp: list_all2_conv_all_nth simp flip: mset_filter intro!: interval_result_perm map_filter_mset)
  with outs(1) show ?thesis by (auto simp: keyed_interval_join_def keyed_interval_join_new_def)
qed


text \<open>An instance: a left element at 10 and a right one at each of 8, 14 and 11, out of order, joined from 2 before to 3 after.\<close>

theorem interval_join_matches_witness:
  "\<exists>outs st'. pulls (keyed_interval_join (sort_key snd) fake_next) (keyed_interval_join_new 2 3
      [Timestamped (BLeft (''k'', MergeLeft ''l'')) 10, Timestamped (BRight (''k'', MergeRight ''a'')) 8, Timestamped (BRight (''k'', MergeRight ''b'')) 14,
       Item LeftEnd, Timestamped (BRight (''k'', MergeRight ''c'')) 11, Item RightEnd, FlushAndRestart, Terminate]) (unsegment outs) st'
    \<and> list_all2 (\<lambda>vs out. mset (filter carries out) = mset vs)
        [[Timestamped (''k'', ''l'', ''a'') 10, Timestamped (''k'', ''l'', ''c'') 11]] outs"
proof -
  let ?seg = "[Timestamped (BLeft (''k'', MergeLeft ''l'')) 10, Timestamped (BRight (''k'', MergeRight ''a'')) 8, Timestamped (BRight (''k'', MergeRight ''b'')) 14,
       Item LeftEnd, Timestamped (BRight (''k'', MergeRight ''c'')) 11, Item RightEnd]
    :: (string \<times> (string, string) merge_element, string \<times> (string, string) merge_element) binary_element stream_element list"
  let ?es = "?seg @ [FlushAndRestart, Terminate]"
  have its: "iterations ?es = [?seg]" by (simp add: iterations_def)
  have wf: "wf_stream ?es" "respects_watermarks ?es" by (simp_all add: wf_stream_def respects_watermarks_def)
  have b: "i64_time 2" "i64_time 3" by (simp_all add: i64_time_def i64_max_def)
  have times: "\<forall>seg \<in> set (iterations ?es). \<forall>e \<in> set seg. (\<forall>x. merged e \<noteq> Some (Item x)) \<and> (\<forall>t. timestamp_of e = Some t \<longrightarrow> i64_time t)"
    unfolding its by (simp add: i64_time_def i64_max_def)
  have pairs: "interval_result 2 3 (lefts_of (List.map_filter merged ?seg)) (rights_of (List.map_filter merged ?seg)) =
      [Timestamped (''k'', ''l'', ''a'') 10, Timestamped (''k'', ''l'', ''c'') 11]"
    by (simp add: List.map_filter_simps interval_result_def interval_matches_def)
  from interval_join_matches [OF b stable_sort_sort_key wf pulls_fake_all times] obtain outs st' where
    run: "pulls (keyed_interval_join (sort_key snd) fake_next) (keyed_interval_join_new 2 3 ?es) (unsegment outs) st'"
    and outs: "list_all2 (\<lambda>seg out. data_only out \<and> watermarks out = [] \<and> mset (filter carries out) =
        mset (interval_result 2 3 (lefts_of (List.map_filter merged seg)) (rights_of (List.map_filter merged seg)))) [?seg] outs"
    unfolding its by blast
  have "list_all2 (\<lambda>vs out. mset (filter carries out) = mset vs) [[Timestamped (''k'', ''l'', ''a'') 10, Timestamped (''k'', ''l'', ''c'') 11]] outs"
    using outs unfolding list_all2_Cons1 pairs by auto
  with run show ?thesis by auto
qed

text \<open>
  The first element of an iteration must not be negative: \<^verbatim>\<open>last_seen\<close> starts at 0, so that an element with
  a negative timestamp fails the assertion even though event time never goes back.
\<close>

lemma interval_join_negative:
  assumes "p s = ret (Timestamped (k, item) t, s1)" and "t < 0"
  shows "interval_join_next p (interval_join_new lb ub s) = panic AssertFailed"
  using assms by (subst interval_join_next.simps) (simp add: interval_join_new_def)

end
