(* ===== verification/File_Sources.thy ===== *)
theory File_Sources
  imports Stream_Element "HOL-Library.Word"
begin

text \<open>
  The sources that split a file among the replicas of a block: \<^verbatim>\<open>src/operator/source/file.rs\<close> and
  \<^verbatim>\<open>src/operator/source/csv.rs\<close>. The file system is a parameter, a map from paths to the bytes of regular
  files. The parser of the crate \<^verbatim>\<open>csv\<close> is a parameter as well.
\<close>

section \<open>Readers\<close>

type_synonym byte = "8 word"

text \<open>\<^verbatim>\<open>BufReader<File>\<close>: the bytes of the file and the position of the next one.\<close>

record file_reader =
  rd_bytes :: "byte list"
  rd_pos :: nat

fun split_line :: "'b \<Rightarrow> 'b list \<Rightarrow> 'b list \<times> 'b list" where
  "split_line t [] = ([], [])"
| "split_line t (b # bs) = (if b = t then ([b], bs) else (case split_line t bs of (line, rest) \<Rightarrow> (b # line, rest)))"

text \<open>\<^verbatim>\<open>read_until\<close>: the bytes up to and including the next terminator, or to the end of the file.\<close>

definition read_until :: "byte \<Rightarrow> file_reader \<Rightarrow> byte list \<times> file_reader" where
  "read_until t rd = (let line = fst (split_line t (drop (rd_pos rd) (rd_bytes rd))) in (line, rd\<lparr>rd_pos := rd_pos rd + length line\<rparr>))"

definition reader_seek :: "nat \<Rightarrow> file_reader \<Rightarrow> file_reader" where
  "reader_seek pos rd = rd\<lparr>rd_pos := pos\<rparr>"

text \<open>The encoding of a Rust \<^verbatim>\<open>String\<close>, which \<^verbatim>\<open>read_line\<close> checks.\<close>

definition utf8_continuation :: "byte \<Rightarrow> bool" where
  "utf8_continuation b \<longleftrightarrow> 0x80 \<le> b \<and> b \<le> 0xBF"

fun utf8 :: "byte list \<Rightarrow> bool" where
  "utf8 [] \<longleftrightarrow> True"
| "utf8 (b # bs) \<longleftrightarrow>
     (if b \<le> 0x7F then utf8 bs
      else if 0xC2 \<le> b \<and> b \<le> 0xDF then (case bs of c # r \<Rightarrow> utf8_continuation c \<and> utf8 r | _ \<Rightarrow> False)
      else if 0xE0 \<le> b \<and> b \<le> 0xEF then
        (case bs of c # d # r \<Rightarrow>
           (if b = 0xE0 then 0xA0 \<le> c \<and> c \<le> 0xBF else if b = 0xED then 0x80 \<le> c \<and> c \<le> 0x9F else utf8_continuation c)
           \<and> utf8_continuation d \<and> utf8 r
         | _ \<Rightarrow> False)
      else if 0xF0 \<le> b \<and> b \<le> 0xF4 then
        (case bs of c # d # e # r \<Rightarrow>
           (if b = 0xF0 then 0x90 \<le> c \<and> c \<le> 0xBF else if b = 0xF4 then 0x80 \<le> c \<and> c \<le> 0x8F else utf8_continuation c)
           \<and> utf8_continuation d \<and> utf8_continuation e \<and> utf8 r
         | _ \<Rightarrow> False)
      else False)"

abbreviation newline :: byte where "newline \<equiv> 10"

definition read_line :: "file_reader \<Rightarrow> (byte list \<times> file_reader) option" where
  "read_line rd = (case read_until newline rd of (line, rd) \<Rightarrow> if utf8 line then Some (line, rd) else None)"

section \<open>FileSource\<close>

record file_source =
  fi_path :: string
  fi_reader :: "file_reader option"
  fi_current :: nat
  fi_end :: nat
  fi_terminated :: bool

definition file_source_new :: "string \<Rightarrow> file_source" where
  "file_source_new path = \<lparr>fi_path = path, fi_reader = None, fi_current = 0, fi_end = 0, fi_terminated = False\<rparr>"

definition file_source_clone :: "file_source \<Rightarrow> file_source res" where
  "file_source_clone st = assertR (fi_reader st = None) (ret (file_source_new (fi_path st)))"

definition file_source_setup :: "(string \<Rightarrow> byte list option) \<Rightarrow> nat \<Rightarrow> nat \<Rightarrow> file_source \<Rightarrow> file_source res" where
  "file_source_setup files global_id instances st =
     (case files (fi_path st) of
        None \<Rightarrow> panic ExplicitPanic
      | Some bytes \<Rightarrow>
          let file_size = length bytes in
          if instances = 0 then panic DivideByZero
          else
            let range_size = file_size div instances;
                start = range_size * global_id;
                stop = (if global_id = instances - 1 then file_size else start + range_size);
                reader = reader_seek start \<lparr>rd_bytes = bytes, rd_pos = 0\<rparr>;
                (v, reader) = (if global_id \<noteq> 0 then read_until newline reader else ([], reader))
            in ret (st\<lparr>fi_current := start + length v, fi_end := stop, fi_reader := Some reader\<rparr>))"

definition file_source_next :: "(file_source, byte list) pull" where
  "file_source_next st =
     (if fi_terminated st then ret (Terminate, st)
      else if fi_current st \<le> fi_end st then
        bindR (unwrapR (fi_reader st)) (\<lambda>reader.
          case read_line reader of
            None \<Rightarrow> panic ExplicitPanic
          | Some (line, reader) \<Rightarrow>
              let st = st\<lparr>fi_reader := Some reader\<rparr> in
              if 0 < length line then ret (Item line, st\<lparr>fi_current := fi_current st + length line\<rparr>)
              else ret (FlushAndRestart, st\<lparr>fi_terminated := True\<rparr>))
      else ret (FlushAndRestart, st\<lparr>fi_terminated := True\<rparr>))"

section \<open>The lines of a file\<close>

lemma split_line_append: "fst (split_line t bs) @ snd (split_line t bs) = bs"
  by (induction bs) (auto split: prod.splits)

lemma split_line_length: "length (fst (split_line t bs)) + length (snd (split_line t bs)) = length bs"
  using arg_cong [OF split_line_append [of t bs], of length] by simp

lemma split_line_empty [simp]: "fst (split_line t bs) = [] \<longleftrightarrow> bs = []"
  by (cases bs) (auto split: prod.splits)

function lines_of :: "'b \<Rightarrow> 'b list \<Rightarrow> 'b list list" where
  "lines_of t bs = (if bs = [] then [] else fst (split_line t bs) # lines_of t (snd (split_line t bs)))"
  by auto
termination
proof (relation "measure (\<lambda>(t, bs). length bs)")
  fix t :: 'b and bs :: "'b list"
  assume "bs \<noteq> []"
  then have "0 < length (fst (split_line t bs))" by simp
  with split_line_length [of t bs] show "((t, snd (split_line t bs)), (t, bs)) \<in> measure (\<lambda>(t, bs). length bs)"
    unfolding in_measure prod.case by linarith
qed simp

declare lines_of.simps [simp del]

text \<open>The lines are the file cut after every terminator: this is what \<open>lines_of\<close> means.\<close>

lemma lines_of_concat: "concat (lines_of t bs) = bs"
  by (induction t bs rule: lines_of.induct) (subst lines_of.simps, auto simp: split_line_append)

lemma split_line_inner: "t \<notin> set (butlast (fst (split_line t bs)))"
  by (induction bs) (auto split: prod.splits)

lemma split_line_ends: "snd (split_line t bs) \<noteq> [] \<Longrightarrow> fst (split_line t bs) \<noteq> [] \<and> last (fst (split_line t bs)) = t"
proof (induction bs)
  case (Cons b bs)
  then show ?case by (cases "split_line t bs"; cases bs) (auto split: if_splits prod.splits)
qed simp

lemma lines_of_lines: "line \<in> set (lines_of t bs) \<Longrightarrow> line \<noteq> [] \<and> t \<notin> set (butlast line)"
  by (induction t bs rule: lines_of.induct) (subst (asm) (2) lines_of.simps, auto simp: split_line_inner split: if_splits)


section \<open>Where a replica starts\<close>

text \<open>The position after the first terminator at or after \<open>p\<close>.\<close>

definition align :: "'b \<Rightarrow> 'b list \<Rightarrow> nat \<Rightarrow> nat" where
  "align t bs p = p + length (fst (split_line t (drop p bs)))"

lemma align_drop: "drop (align t bs p) bs = snd (split_line t (drop p bs))"
proof -
  have "drop (align t bs p) bs = drop (length (fst (split_line t (drop p bs)))) (drop p bs)"
    by (simp add: align_def add.commute)
  also have "\<dots> = snd (split_line t (drop p bs))"
    using append_eq_conv_conj [of "fst (split_line t (drop p bs))"] split_line_append [of t "drop p bs"] by metis
  finally show ?thesis .
qed

lemma align_bounds: "p \<le> align t bs p" "p \<le> length bs \<Longrightarrow> align t bs p \<le> length bs" "p < length bs \<Longrightarrow> p < align t bs p"
proof -
  show "p \<le> align t bs p" by (simp add: align_def)
  show "p \<le> length bs \<Longrightarrow> align t bs p \<le> length bs"
    using split_line_length [of t "drop p bs"] by (simp add: align_def)
  show "p < length bs \<Longrightarrow> p < align t bs p" by (simp add: align_def)
qed

lemma align_end [simp]: "align t bs (length bs) = length bs"
  by (simp add: align_def)

text \<open>No terminator lies between \<open>p\<close> and the position before \<open>align p\<close>.\<close>

lemma align_inside:
  assumes "p \<le> q" and "q < align t bs p"
  shows "align t bs q = align t bs p"
proof -
  have inner: "length (fst (split_line t (drop n cs))) = length (fst (split_line t cs)) - n"
    if "n < length (fst (split_line t cs))" for n and cs
    using that
  proof (induction cs arbitrary: n)
    case (Cons c cs)
    then show ?case by (cases n) (auto split: prod.splits if_splits)
  qed simp
  from assms have "q - p < length (fst (split_line t (drop p bs)))" by (simp add: align_def)
  from inner [OF this] assms show ?thesis by (simp add: align_def)
qed

lemma align_mono:
  assumes "p \<le> q"
  shows "align t bs p \<le> align t bs q"
  using align_inside [OF assms, of t bs] align_bounds(1) [of q t bs] by (cases "q < align t bs p") auto

lemma align_line: "p < length bs \<Longrightarrow> lines_of t (drop p bs) = fst (split_line t (drop p bs)) # lines_of t (drop (align t bs p) bs)"
  by (subst lines_of.simps) (simp add: align_drop)

text \<open>The lines that begin at or before \<open>limit\<close>, from the line that begins at \<open>p\<close> on.\<close>

function lines_upto :: "'b \<Rightarrow> 'b list \<Rightarrow> nat \<Rightarrow> nat \<Rightarrow> 'b list list" where
  "lines_upto t bs limit p =
     (if p \<le> limit \<and> p < length bs then fst (split_line t (drop p bs)) # lines_upto t bs limit (align t bs p) else [])"
  by auto
termination
  by (relation "measure (\<lambda>(t, bs, limit, p). length bs - p)") (auto simp: align_bounds(3) intro: diff_less_mono2)

declare lines_upto.simps [simp del]

lemma lines_upto_split:
  assumes "limit < p \<Longrightarrow> p = align t bs limit" and "p \<le> length bs" and "limit \<le> length bs"
  shows "lines_of t (drop p bs) = lines_upto t bs limit p @ lines_of t (drop (align t bs limit) bs)"
  using assms
proof (induction t bs limit p rule: lines_upto.induct)
  case (1 t bs limit p)
  note IH = 1(1)
  consider "p \<le> limit" "p < length bs" | "limit < p" | "p = length bs" "p = limit" using 1(3,4) by linarith
  then show ?case
  proof cases
    case 1
    have "limit < align t bs p \<Longrightarrow> align t bs p = align t bs limit" using align_inside [OF \<open>p \<le> limit\<close>] by metis
    moreover have "align t bs p \<le> length bs" using align_bounds(2) [of p bs t] 1 by simp
    ultimately have "lines_of t (drop (align t bs p) bs) = lines_upto t bs limit (align t bs p) @ lines_of t (drop (align t bs limit) bs)"
      using IH 1 \<open>limit \<le> length bs\<close> by blast
    then show ?thesis using 1 by (subst lines_upto.simps) (simp add: align_line)
  next
    case 2
    with "1.prems"(1) show ?thesis by (subst lines_upto.simps) simp
  next
    case 3
    then show ?thesis by (subst lines_upto.simps) (simp add: lines_of.simps)
  qed
qed


section \<open>Every line once\<close>

text \<open>
  The replicas' first positions: the file's begin, then for each replica the first line that begins after its share of
  the bytes does, and the end of the file.
\<close>

definition share :: "nat \<Rightarrow> nat \<Rightarrow> nat \<Rightarrow> nat" where
  "share n len i = (if i = n then len else (len div n) * i)"

definition cut :: "'b \<Rightarrow> 'b list \<Rightarrow> nat \<Rightarrow> nat \<Rightarrow> nat" where
  "cut t bs n i = (if i = 0 then 0 else align t bs (share n (length bs) i))"

lemma share_mono: "i < n \<Longrightarrow> share n len i \<le> share n len (Suc i)"
proof -
  assume i: "i < n"
  then have "len div n * i \<le> len div n * n" by simp
  also have "\<dots> \<le> len" by simp
  finally show ?thesis using i by (simp add: share_def)
qed

lemma share_le: "i \<le> n \<Longrightarrow> share n len i \<le> len"
proof -
  assume "i \<le> n"
  then have "len div n * i \<le> len div n * n" by simp
  also have "\<dots> \<le> len" by simp
  finally show ?thesis by (simp add: share_def)
qed

lemma cut_le: "i \<le> n \<Longrightarrow> cut t bs n i \<le> length bs"
  by (simp add: cut_def align_bounds(2) share_le)

lemma cut_lines:
  assumes "i < n"
  shows "lines_of t (drop (cut t bs n i) bs) =
    lines_upto t bs (share n (length bs) (Suc i)) (cut t bs n i) @ lines_of t (drop (cut t bs n (Suc i)) bs)"
proof -
  let ?s = "share n (length bs)"
  have "cut t bs n i = align t bs (?s (Suc i))" if "?s (Suc i) < cut t bs n i"
    using that align_inside [OF share_mono [OF assms], of "length bs" t bs] by (auto simp: cut_def split: if_splits)
  moreover have "cut t bs n i \<le> length bs" using cut_le [of i n] assms by simp
  ultimately show ?thesis
    using lines_upto_split [of "?s (Suc i)" "cut t bs n i" t bs] share_le [of "Suc i" n] assms by (simp add: cut_def)
qed

lemma telescope:
  assumes "\<And>i. i < n \<Longrightarrow> g i = f i @ g (Suc i)"
  shows "g 0 = concat (map f [0..<n]) @ g n"
  using assms by (induction n) auto

lemma cut_lines_all:
  assumes "0 < n"
  shows "concat (map (\<lambda>i. lines_upto t bs (share n (length bs) (Suc i)) (cut t bs n i)) [0..<n]) = lines_of t bs"
proof -
  have "cut t bs n 0 = 0" "cut t bs n n = length bs" using assms by (simp_all add: cut_def share_def)
  with telescope [of n "\<lambda>i. lines_of t (drop (cut t bs n i) bs)"] cut_lines [of _ n t bs] show ?thesis
    by (simp add: lines_of.simps [of t "[]"])
qed

text \<open>What a replica returns.\<close>

lemma file_source_pulls:
  assumes "\<forall>line \<in> set (lines_upto newline bs limit p). utf8 line" and "p \<le> length bs"
    and "st = \<lparr>fi_path = path, fi_reader = Some \<lparr>rd_bytes = bs, rd_pos = p\<rparr>, fi_current = p, fi_end = limit, fi_terminated = False\<rparr>"
  shows "\<exists>st'. pulls file_source_next st (map Item (lines_upto newline bs limit p) @ [FlushAndRestart, Terminate]) st'"
  using assms
proof (induction newline bs limit p arbitrary: st rule: lines_upto.induct)
  case (1 bs limit p)
  let ?line = "fst (split_line newline (drop p bs))"
  show ?case
  proof (cases "p \<le> limit \<and> p < length bs")
    case True
    then have upto: "lines_upto newline bs limit p = ?line # lines_upto newline bs limit (align newline bs p)"
      by (subst lines_upto.simps) simp
    with "1.prems" have utf: "utf8 ?line" by simp
    let ?st1 = "\<lparr>fi_path = path, fi_reader = Some \<lparr>rd_bytes = bs, rd_pos = align newline bs p\<rparr>, fi_current = align newline bs p,
        fi_end = limit, fi_terminated = False\<rparr>"
    have "file_source_next st = ret (Item ?line, ?st1)"
      using True utf "1.prems"(3) by (simp add: file_source_next_def read_line_def read_until_def align_def Let_def)
    moreover have "\<exists>st'. pulls file_source_next ?st1 (map Item (lines_upto newline bs limit (align newline bs p)) @ [FlushAndRestart, Terminate]) st'"
      using "1.hyps" [OF True] "1.prems"(1) align_bounds(2) [of p bs newline] True unfolding upto by simp
    ultimately show ?thesis unfolding upto by (auto simp: pulls_Cons_iff)
  next
    case False
    then have "lines_upto newline bs limit p = []" by (subst lines_upto.simps) simp
    moreover have "drop p bs = []" if "p \<le> limit" using False that by simp
    ultimately show ?thesis
      using "1.prems"(3) by (auto simp: pulls_Cons_iff file_source_next_def read_line_def read_until_def Let_def)
  qed
qed

lemma file_source_setup_cut:
  assumes "files path = Some bs" and "i < n"
  shows "file_source_setup files i n (file_source_new path) = ret \<lparr>fi_path = path,
    fi_reader = Some \<lparr>rd_bytes = bs, rd_pos = cut newline bs n i\<rparr>, fi_current = cut newline bs n i,
    fi_end = share n (length bs) (Suc i), fi_terminated = False\<rparr>"
proof -
  have "share n (length bs) (Suc i) = (if i = n - 1 then length bs else length bs div n * i + length bs div n)"
    using assms(2) by (auto simp: share_def)
  moreover have "share n (length bs) i = length bs div n * i" using assms(2) by (simp add: share_def)
  ultimately show ?thesis
    using assms by (simp add: file_source_setup_def file_source_new_def reader_seek_def read_until_def cut_def align_def Let_def)
qed


text \<open>
  C32: Every line of a file is read by exactly one replica, whatever the number of replicas and wherever the file is cut:
  each replica returns a stream of one iteration, and the lines the replicas return are, from the first replica to the
  last, the lines of the file. All the lines have to be valid UTF-8.
\<close>

theorem file_lines_once:
  assumes "files path = Some bytes" and "0 < instances" and "\<forall>line \<in> set (lines_of newline bytes). utf8 line"
  shows "\<exists>outs. length outs = instances \<and> concat outs = lines_of newline bytes
    \<and> (\<forall>i < instances. \<exists>st st'. file_source_setup files i instances (file_source_new path) = ret st
         \<and> pulls file_source_next st (map Item (outs ! i) @ [FlushAndRestart, Terminate]) st')"
proof -
  let ?out = "\<lambda>i. lines_upto newline bytes (share instances (length bytes) (Suc i)) (cut newline bytes instances i)"
  let ?outs = "map ?out [0..<instances]"
  have all: "concat ?outs = lines_of newline bytes" by (rule cut_lines_all [OF assms(2)])
  have "\<exists>st st'. file_source_setup files i instances (file_source_new path) = ret st
      \<and> pulls file_source_next st (map Item (?outs ! i) @ [FlushAndRestart, Terminate]) st'" if i: "i < instances" for i
  proof -
    have "?outs ! i \<in> set ?outs" using i by (intro nth_mem) simp
    then have "\<forall>line \<in> set (?outs ! i). utf8 line" using assms(3) unfolding all [symmetric] by (simp only: set_concat) blast
    then have "\<forall>line \<in> set (?out i). utf8 line" using i by simp
    from file_source_pulls [OF this cut_le refl] file_source_setup_cut [where files = files, OF assms(1) i] i show ?thesis by fastforce
  qed
  with all show ?thesis by (intro exI [of _ ?outs]) simp
qed

text \<open>An instance: three replicas share two lines of four and of three bytes.\<close>

theorem file_lines_once_witness:
  "\<exists>outs. length outs = 3 \<and> concat outs = [[104, 105, 33, newline], [111, 107, newline]]
    \<and> (\<forall>i < 3. \<exists>st st'. file_source_setup [''f'' \<mapsto> [104, 105, 33, newline, 111, 107, newline]] i 3 (file_source_new ''f'') = ret st
         \<and> pulls file_source_next st (map Item (outs ! i) @ [FlushAndRestart, Terminate]) st')"
proof -
  have lines: "lines_of newline [104, 105, 33, newline, 111, 107, newline] = [[104, 105, 33, newline], [111, 107, newline]]"
    by (simp add: lines_of.simps)
  from file_lines_once [of "[''f'' \<mapsto> [104, 105, 33, newline, 111, 107, newline]]" "''f''" _ 3] lines show ?thesis by simp
qed


section \<open>CsvSource\<close>

text \<open>A reader that stops after a number of bytes; \<open>chunk\<close> is what the inner reader has available.\<close>

record limited_reader =
  lr_inner :: file_reader
  lr_remaining :: nat

definition limited_new :: "file_reader \<Rightarrow> nat \<Rightarrow> limited_reader" where
  "limited_new inner remaining = \<lparr>lr_inner = inner, lr_remaining = remaining\<rparr>"

definition reader_read :: "nat \<Rightarrow> nat \<Rightarrow> file_reader \<Rightarrow> byte list \<times> file_reader" where
  "reader_read chunk buf_len rd =
     (let got = take (min chunk buf_len) (drop (rd_pos rd) (rd_bytes rd)) in (got, rd\<lparr>rd_pos := rd_pos rd + length got\<rparr>))"

definition limited_read :: "nat \<Rightarrow> nat \<Rightarrow> limited_reader \<Rightarrow> byte list \<times> limited_reader" where
  "limited_read chunk buf_len lr =
     (if 0 < lr_remaining lr then
        case reader_read chunk buf_len (lr_inner lr) of (got, inner) \<Rightarrow>
          let read_bytes = min (length got) (lr_remaining lr) in
          (take read_bytes got, lr\<lparr>lr_inner := inner, lr_remaining := lr_remaining lr - read_bytes\<rparr>)
      else ([], lr))"

text \<open>All that the reader can still return, and that reads of any sizes return exactly this.\<close>

definition limited_content :: "limited_reader \<Rightarrow> byte list" where
  "limited_content lr = take (lr_remaining lr) (drop (rd_pos (lr_inner lr)) (rd_bytes (lr_inner lr)))"

fun limited_reads :: "(nat \<times> nat) list \<Rightarrow> limited_reader \<Rightarrow> byte list" where
  "limited_reads [] lr = []"
| "limited_reads ((chunk, buf_len) # sizes) lr =
     (case limited_read chunk buf_len lr of (got, lr) \<Rightarrow> got @ limited_reads sizes lr)"

datatype terminator = CRLF | Any byte
datatype trim = TrimNone | TrimHeaders | TrimFields | TrimAll

record csv_options =
  co_comment :: "byte option"
  co_delimiter :: byte
  co_double_quote :: bool
  co_escape :: "byte option"
  co_flexible :: bool
  co_quote :: byte
  co_quoting :: bool
  co_terminator :: terminator
  co_trim :: trim
  co_has_headers :: bool

definition csv_options_default :: csv_options where
  "csv_options_default = \<lparr>co_comment = None, co_delimiter = 44, co_double_quote = True, co_escape = None, co_flexible = False,
     co_quote = 34, co_quoting = True, co_terminator = CRLF, co_trim = TrimNone, co_has_headers = True\<rparr>"

text \<open>
  \<^verbatim>\<open>csv::Reader\<close> is given by what its successive calls of \<^verbatim>\<open>read_byte_record\<close> will return: the records, with
  \<open>None\<close> for an error. The parameter \<open>parse\<close> gives them from the options, the header and the bytes of the reader.
\<close>

type_synonym 'r csv_parser = "csv_options \<Rightarrow> byte list option \<Rightarrow> byte list \<Rightarrow> 'r option list"

record 'r csv_source =
  cs_path :: string
  cs_reader :: "'r option list option"
  cs_options :: csv_options
  cs_terminated :: bool

definition csv_source_new :: "string \<Rightarrow> 'r csv_source" where
  "csv_source_new path = \<lparr>cs_path = path, cs_reader = None, cs_options = csv_options_default, cs_terminated = False\<rparr>"

definition csv_comment :: "byte option \<Rightarrow> 'r csv_source \<Rightarrow> 'r csv_source" where
  "csv_comment c st = st\<lparr>cs_options := (cs_options st)\<lparr>co_comment := c\<rparr>\<rparr>"

definition csv_delimiter :: "byte \<Rightarrow> 'r csv_source \<Rightarrow> 'r csv_source" where
  "csv_delimiter d st = st\<lparr>cs_options := (cs_options st)\<lparr>co_delimiter := d\<rparr>\<rparr>"

definition csv_double_quote :: "bool \<Rightarrow> 'r csv_source \<Rightarrow> 'r csv_source" where
  "csv_double_quote b st = st\<lparr>cs_options := (cs_options st)\<lparr>co_double_quote := b\<rparr>\<rparr>"

definition csv_escape :: "byte option \<Rightarrow> 'r csv_source \<Rightarrow> 'r csv_source" where
  "csv_escape e st = st\<lparr>cs_options := (cs_options st)\<lparr>co_escape := e\<rparr>\<rparr>"

definition csv_flexible :: "bool \<Rightarrow> 'r csv_source \<Rightarrow> 'r csv_source" where
  "csv_flexible b st = st\<lparr>cs_options := (cs_options st)\<lparr>co_flexible := b\<rparr>\<rparr>"

definition csv_quote :: "byte \<Rightarrow> 'r csv_source \<Rightarrow> 'r csv_source" where
  "csv_quote q st = st\<lparr>cs_options := (cs_options st)\<lparr>co_quote := q\<rparr>\<rparr>"

definition csv_quoting :: "bool \<Rightarrow> 'r csv_source \<Rightarrow> 'r csv_source" where
  "csv_quoting b st = st\<lparr>cs_options := (cs_options st)\<lparr>co_quoting := b\<rparr>\<rparr>"

definition csv_terminator :: "terminator \<Rightarrow> 'r csv_source \<Rightarrow> 'r csv_source" where
  "csv_terminator t st = st\<lparr>cs_options := (cs_options st)\<lparr>co_terminator := t\<rparr>\<rparr>"

definition csv_trim :: "trim \<Rightarrow> 'r csv_source \<Rightarrow> 'r csv_source" where
  "csv_trim t st = st\<lparr>cs_options := (cs_options st)\<lparr>co_trim := t\<rparr>\<rparr>"

definition csv_has_headers :: "bool \<Rightarrow> 'r csv_source \<Rightarrow> 'r csv_source" where
  "csv_has_headers b st = st\<lparr>cs_options := (cs_options st)\<lparr>co_has_headers := b\<rparr>\<rparr>"

definition csv_source_clone :: "'r csv_source \<Rightarrow> 'r csv_source res" where
  "csv_source_clone st = assertR (cs_reader st = None) (ret ((csv_source_new (cs_path st))\<lparr>cs_options := cs_options st\<rparr>))"

definition last_byte_terminator :: "csv_options \<Rightarrow> byte" where
  "last_byte_terminator opts = (case co_terminator opts of CRLF \<Rightarrow> 10 | Any t \<Rightarrow> t)"

text \<open>The first half of \<^verbatim>\<open>setup\<close>: the header, and the reader of this replica's part of the file.\<close>

definition csv_limits :: "csv_options \<Rightarrow> byte list \<Rightarrow> nat \<Rightarrow> nat \<Rightarrow> (byte list \<times> limited_reader) res" where
  "csv_limits opts bytes global_id instances =
     (let file_size = length bytes;
          buf_reader = \<lparr>rd_bytes = bytes, rd_pos = 0\<rparr>;
          t = last_byte_terminator opts;
          (header, buf_reader) = (if co_has_headers opts then read_until t buf_reader else ([], buf_reader));
          header_size = length header;
          body_size = file_size - header_size
      in if instances = 0 then panic DivideByZero
         else
           let range_size = body_size div instances;
               start = header_size + range_size * global_id;
               stop = (if global_id = instances - 1 then file_size else start + range_size);
               (start, buf_reader) =
                 (if global_id \<noteq> 0 then
                    case read_until t (reader_seek start buf_reader) of (buf, r) \<Rightarrow> (start + length buf, r)
                  else (start, buf_reader));
               (stop, buf_reader) =
                 (if global_id \<noteq> instances - 1 then
                    case read_until t (reader_seek stop buf_reader) of (buf, r) \<Rightarrow> (stop + length buf, r)
                  else (stop, buf_reader));
               buf_reader = reader_seek start buf_reader
           in if stop < start then panic ArithOverflow
              else ret (header, limited_new buf_reader (stop - start)))"

definition csv_source_setup :: "'r csv_parser \<Rightarrow> (string \<Rightarrow> byte list option) \<Rightarrow> nat \<Rightarrow> nat \<Rightarrow> 'r csv_source \<Rightarrow> 'r csv_source res" where
  "csv_source_setup parse files global_id instances st =
     (case files (cs_path st) of
        None \<Rightarrow> panic ExplicitPanic
      | Some bytes \<Rightarrow>
          bindR (csv_limits (cs_options st) bytes global_id instances) (\<lambda>(header, limited_reader).
            let headers = (if co_has_headers (cs_options st) then Some header else None) in
            ret (st\<lparr>cs_reader := Some (parse (cs_options st) headers (limited_content limited_reader))\<rparr>)))"

definition csv_source_next :: "('r \<Rightarrow> 'a option) \<Rightarrow> ('r csv_source, 'a) pull" where
  "csv_source_next deserialize st =
     (if cs_terminated st then ret (Terminate, st)
      else bindR (unwrapR (cs_reader st)) (\<lambda>csv_reader.
        case csv_reader of
          Some buf # rest \<Rightarrow>
            bindR (unwrapR (deserialize buf)) (\<lambda>item. ret (Item item, st\<lparr>cs_reader := Some rest\<rparr>))
        | [] \<Rightarrow> ret (FlushAndRestart, st\<lparr>cs_terminated := True\<rparr>)
        | None # rest \<Rightarrow> panic ExplicitPanic))"

section \<open>Every byte once\<close>

lemma limited_read_content:
  assumes "limited_read chunk buf_len lr = (got, lr')"
  shows "limited_content lr = got @ limited_content lr'"
    and "0 < chunk \<Longrightarrow> 0 < buf_len \<Longrightarrow> limited_content lr \<noteq> [] \<Longrightarrow> got \<noteq> []"
proof -
  define r rest where "r = lr_remaining lr" and "rest = drop (rd_pos (lr_inner lr)) (rd_bytes (lr_inner lr))"
  define a where "a = take (min chunk buf_len) rest"
  have rest: "rest = a @ drop (length a) rest" by (simp add: a_def min_def)
  have got: "got = take (min (length a) r) a" "limited_content lr' = take (r - min (length a) r) (drop (length a) rest)" if "0 < r"
    using assms that unfolding limited_read_def reader_read_def limited_content_def Let_def a_def rest_def r_def
    by (auto simp: drop_drop add.commute)
  show "limited_content lr = got @ limited_content lr'"
  proof (cases "0 < r")
    case True
    have "limited_content lr = take r (a @ drop (length a) rest)" using rest by (simp add: limited_content_def r_def rest_def)
    also have "\<dots> = take (min (length a) r) a @ take (r - min (length a) r) (drop (length a) rest)"
      unfolding take_append by (cases "r < length a") (simp_all add: min_def)
    finally show ?thesis using got [OF True] by simp
  next
    case False
    then show ?thesis using assms by (auto simp: limited_read_def r_def limited_content_def)
  qed
  assume "0 < chunk" "0 < buf_len" "limited_content lr \<noteq> []"
  then show "got \<noteq> []" using got(1) by (auto simp: limited_content_def a_def r_def rest_def)
qed

lemma limited_reads_all:
  assumes "\<forall>(chunk, buf_len) \<in> set sizes. 0 < chunk \<and> 0 < buf_len" and "length (limited_content lr) \<le> length sizes"
  shows "limited_reads sizes lr = limited_content lr"
  using assms
proof (induction sizes arbitrary: lr)
  case (Cons size sizes)
  obtain chunk buf_len where size: "size = (chunk, buf_len)" by (cases size)
  obtain got lr' where got: "limited_read chunk buf_len lr = (got, lr')" by (cases "limited_read chunk buf_len lr")
  note content = limited_read_content [OF got]
  have "length (limited_content lr') \<le> length sizes"
  proof (cases "limited_content lr = []")
    case False
    then have "0 < length got" using content(2) Cons.prems(1) size by auto
    then show ?thesis using Cons.prems(2) unfolding content(1) length_append list.size by linarith
  qed (use content(1) in simp)
  with Cons show ?case using size got content(1) by simp
qed simp


text \<open>The header and the rest of the file.\<close>

definition csv_header :: "csv_options \<Rightarrow> byte list \<Rightarrow> byte list" where
  "csv_header opts bytes = (if co_has_headers opts then fst (split_line (last_byte_terminator opts) bytes) else [])"

definition csv_body :: "csv_options \<Rightarrow> byte list \<Rightarrow> byte list" where
  "csv_body opts bytes = drop (length (csv_header opts bytes)) bytes"

definition csv_chunk :: "byte \<Rightarrow> byte list \<Rightarrow> nat \<Rightarrow> nat \<Rightarrow> byte list" where
  "csv_chunk t body n i = take (cut t body n (Suc i) - cut t body n i) (drop (cut t body n i) body)"

lemma cut_mono: "i < n \<Longrightarrow> cut t bs n i \<le> cut t bs n (Suc i)"
  by (simp add: cut_def align_mono share_mono)

lemma csv_header_length: "length (csv_header opts bytes) + length (csv_body opts bytes) = length bytes"
  using split_line_length [of "last_byte_terminator opts" bytes] by (simp add: csv_header_def csv_body_def)

lemma csv_limits_eq:
  assumes "0 < n" and "h = length (csv_header opts bytes)" and "r = (length bytes - h) div n" and "t = last_byte_terminator opts"
    and "start = (if i \<noteq> 0 then h + r * i + length (fst (split_line t (drop (h + r * i) bytes))) else h + r * i)"
    and "stop = (if i \<noteq> n - 1 then h + r * i + r + length (fst (split_line t (drop (h + r * i + r) bytes))) else length bytes)"
  shows "csv_limits opts bytes i n =
    (if stop < start then panic ArithOverflow else ret (csv_header opts bytes, limited_new \<lparr>rd_bytes = bytes, rd_pos = start\<rparr> (stop - start)))"
proof -
  have header: "(if co_has_headers opts then read_until t \<lparr>rd_bytes = bytes, rd_pos = 0\<rparr> else ([], \<lparr>rd_bytes = bytes, rd_pos = 0\<rparr>)) =
      (csv_header opts bytes, \<lparr>rd_bytes = bytes, rd_pos = h\<rparr>)"
    by (simp add: csv_header_def read_until_def Let_def assms(2,4))
  show ?thesis
    using assms(1) unfolding csv_limits_def Let_def assms(4) [symmetric] header prod.case assms(2) [symmetric] assms(3) [symmetric] assms(5,6)
    by (auto simp: read_until_def reader_seek_def Let_def)
qed

lemma csv_limits_chunk:
  assumes "i < n"
  shows "\<exists>lr. csv_limits opts bytes i n = ret (csv_header opts bytes, lr)
    \<and> limited_content lr = csv_chunk (last_byte_terminator opts) (csv_body opts bytes) n i"
proof -
  define h t body where "h = length (csv_header opts bytes)" and "t = last_byte_terminator opts" and "body = csv_body opts bytes"
  define r where "r = (length bytes - h) div n"
  have size: "length bytes = h + length body" using csv_header_length [of opts bytes] by (simp add: h_def body_def)
  then have r: "r = length body div n" by (simp add: r_def)
  have shares: "share n (length body) i = r * i" "i \<noteq> n - 1 \<Longrightarrow> share n (length body) (Suc i) = r * i + r"
    "i = n - 1 \<Longrightarrow> share n (length body) (Suc i) = length body"
    using assms by (auto simp: share_def r)
  have align: "h + align t body p = h + p + length (fst (split_line t (drop (h + p) bytes)))" for p
    by (simp add: align_def body_def csv_body_def h_def add.commute)
  define a b where "a = h + cut t body n i" and "b = h + cut t body n (Suc i)"
  have ab: "a \<le> b" unfolding a_def b_def using cut_mono assms by simp
  have a: "a = (if i \<noteq> 0 then h + r * i + length (fst (split_line t (drop (h + r * i) bytes))) else h + r * i)"
    using align [of "r * i"] shares(1) by (simp add: a_def cut_def)
  have b: "b = (if i \<noteq> n - 1 then h + r * i + r + length (fst (split_line t (drop (h + r * i + r) bytes))) else length bytes)"
    using align [of "r * i + r"] shares(2,3) size by (auto simp: b_def cut_def add.assoc)
  have "csv_limits opts bytes i n = ret (csv_header opts bytes, limited_new \<lparr>rd_bytes = bytes, rd_pos = a\<rparr> (b - a))"
    using csv_limits_eq [OF _ h_def r_def t_def a b] ab assms by simp
  then show ?thesis
    by (simp add: limited_content_def limited_new_def csv_chunk_def csv_body_def a_def b_def h_def t_def body_def add.commute)
qed


lemma csv_chunk_step: "i < n \<Longrightarrow> drop (cut t body n i) body = csv_chunk t body n i @ drop (cut t body n (Suc i)) body"
  using append_take_drop_id [of "cut t body n (Suc i) - cut t body n i" "drop (cut t body n i) body"] cut_mono [of i n t body]
  by (simp add: csv_chunk_def)

text \<open>A replica's part begins after a terminator.\<close>

lemma cut_after_terminator:
  assumes "cut t bs n i < length bs" and "take (cut t bs n i) bs \<noteq> []"
  shows "last (take (cut t bs n i) bs) = t"
proof -
  let ?p = "share n (length bs) i"
  have c: "cut t bs n i = align t bs ?p" using assms(2) by (auto simp: cut_def split: if_splits)
  have "snd (split_line t (drop ?p bs)) \<noteq> []" using assms(1) align_drop [of t bs ?p] c by (metis drop_eq_Nil2 not_less)
  from split_line_ends [OF this] have ends: "fst (split_line t (drop ?p bs)) \<noteq> []" "last (fst (split_line t (drop ?p bs))) = t" by simp_all
  have "take (align t bs ?p) bs = take ?p bs @ fst (split_line t (drop ?p bs))"
    unfolding align_def take_add using split_line_append [of t "drop ?p bs"] by (metis append_eq_conv_conj)
  with ends c show ?thesis by simp
qed

text \<open>
  What the source needs of the parser: on this part of the file, a terminator ends a record. The crate documents this for
  terminators outside quotes.
\<close>

definition ends_records :: "(byte list \<Rightarrow> 'r option list) \<Rightarrow> byte \<Rightarrow> byte list \<Rightarrow> bool" where
  "ends_records parse t body \<longleftrightarrow> parse [] = []
     \<and> (\<forall>xs ys zs. body = xs @ ys @ zs \<and> (xs = [] \<or> last xs = t) \<and> ys \<noteq> [] \<and> last ys = t \<longrightarrow> parse (ys @ zs) = parse ys @ parse zs)"

lemma csv_chunk_records:
  assumes "ends_records parse t body" and "i < n"
  shows "parse (drop (cut t body n i) body) = parse (csv_chunk t body n i) @ parse (drop (cut t body n (Suc i)) body)"
proof -
  let ?a = "cut t body n i" and ?b = "cut t body n (Suc i)"
  let ?xs = "take ?a body" and ?ys = "csv_chunk t body n i" and ?zs = "drop ?b body"
  have nil: "parse [] = []" using assms(1) by (simp add: ends_records_def)
  have split: "drop ?a body = ?ys @ ?zs" using csv_chunk_step [OF assms(2)] .
  show ?thesis
  proof (cases "?b < length body \<and> ?ys \<noteq> []")
    case False
    then show ?thesis using nil split by auto
  next
    case True
    have body: "body = ?xs @ ?ys @ ?zs" unfolding split [symmetric] by simp
    then have "take ?b body = ?xs @ ?ys"
      using cut_le [of "Suc i" n t body] assms(2) by (metis Suc_leI append.assoc append_eq_conv_conj append_take_drop_id length_drop length_take min.absorb2 append_same_eq)
    with cut_after_terminator [of t body n "Suc i"] True have "last ?ys = t" by simp
    moreover have "?xs = [] \<or> last ?xs = t"
      using cut_after_terminator [of t body n i] cut_mono [OF assms(2), of t body] True by linarith
    ultimately show ?thesis using assms(1) body True unfolding split ends_records_def by blast
  qed
qed

lemma csv_chunks_records:
  assumes "ends_records parse t body" and "0 < n"
  shows "concat (map (\<lambda>i. parse (csv_chunk t body n i)) [0..<n]) = parse body"
proof -
  have "cut t body n 0 = 0" "cut t body n n = length body" using assms(2) by (simp_all add: cut_def share_def)
  with telescope [of n "\<lambda>i. parse (drop (cut t body n i) body)", OF csv_chunk_records [OF assms(1)]] assms(1)
  show ?thesis by (simp add: ends_records_def)
qed

lemma csv_source_pulls:
  assumes "\<forall>r \<in> set rs. deserialize r \<noteq> None" and "cs_reader st = Some (map Some rs)" and "\<not> cs_terminated st"
  shows "\<exists>st'. pulls (csv_source_next deserialize) st (map (\<lambda>r. Item (the (deserialize r))) rs @ [FlushAndRestart, Terminate]) st'"
  using assms
proof (induction rs arbitrary: st)
  case (Cons r rs)
  let ?st1 = "st\<lparr>cs_reader := Some (map Some rs)\<rparr>"
  have "csv_source_next deserialize st = ret (Item (the (deserialize r)), ?st1)"
    using Cons.prems by (auto simp: csv_source_next_def)
  moreover have "\<exists>st'. pulls (csv_source_next deserialize) ?st1 (map (\<lambda>r. Item (the (deserialize r))) rs @ [FlushAndRestart, Terminate]) st'"
    using Cons.prems by (intro Cons.IH) simp_all
  ultimately show ?case by (simp add: pulls_Cons_iff)
qed (auto simp: pulls_Cons_iff csv_source_next_def)

text \<open>
  C33: Every record of a CSV file is read by exactly one replica: the replicas take contiguous parts of the file after the
  header, cut after terminators, that together are the file, so that the records they return are, from the first replica to the
  last, those of the whole file. A terminator has to end a record wherever it stands, and all records have to be valid.
\<close>

theorem csv_records_once:
  assumes "files path = Some bytes" and "0 < instances"
    and "cs_path st0 = path" and "cs_options st0 = opts" and "cs_reader st0 = None" and "\<not> cs_terminated st0"
    and "records = parse opts (if co_has_headers opts then Some (csv_header opts bytes) else None)"
    and "ends_records records (last_byte_terminator opts) (csv_body opts bytes)"
    and "records (csv_body opts bytes) = map Some rs" and "\<forall>r \<in> set rs. deserialize r \<noteq> None"
  shows "\<exists>outs. length outs = instances \<and> concat outs = map (\<lambda>r. the (deserialize r)) rs
    \<and> (\<forall>i < instances. \<exists>st st'. csv_source_setup parse files i instances st0 = ret st
         \<and> pulls (csv_source_next deserialize) st (map Item (outs ! i) @ [FlushAndRestart, Terminate]) st')"
proof -
  let ?t = "last_byte_terminator opts" and ?body = "csv_body opts bytes"
  let ?part = "\<lambda>i. records (csv_chunk ?t ?body instances i)"
  let ?rs = "\<lambda>i. map the (?part i)"
  let ?outs = "map (\<lambda>i. map (\<lambda>r. the (deserialize r)) (?rs i)) [0..<instances]"
  have all: "concat (map ?part [0..<instances]) = map Some rs" using csv_chunks_records [OF assms(8,2)] assms(9) by simp
  have "concat ?outs = map (\<lambda>r. the (deserialize r)) (map the (concat (map ?part [0..<instances])))"
    by (simp add: map_concat comp_def)
  then have concat: "concat ?outs = map (\<lambda>r. the (deserialize r)) rs" unfolding all by (simp add: comp_def)
  have "\<exists>st st'. csv_source_setup parse files i instances st0 = ret st
      \<and> pulls (csv_source_next deserialize) st (map Item (?outs ! i) @ [FlushAndRestart, Terminate]) st'" if i: "i < instances" for i
  proof -
    have "set (?part i) \<subseteq> Some ` set rs"
    proof -
      have "set (?part i) \<subseteq> set (concat (map ?part [0..<instances]))" using i by auto
      then show ?thesis unfolding all by simp
    qed
    then have part: "map Some (?rs i) = ?part i" "\<forall>r \<in> set (?rs i). deserialize r \<noteq> None"
      using assms(10) by (auto intro!: map_idI)
    obtain lr where "csv_limits opts bytes i instances = ret (csv_header opts bytes, lr)" "limited_content lr = csv_chunk ?t ?body instances i"
      using csv_limits_chunk [OF i, of opts bytes] by blast
    then have "csv_source_setup parse files i instances st0 = ret (st0\<lparr>cs_reader := Some (?part i)\<rparr>)"
      using assms(1,3,4,7) by (simp add: csv_source_setup_def Let_def)
    then show ?thesis
      using csv_source_pulls [OF part(2), of "st0\<lparr>cs_reader := Some (?part i)\<rparr>"] part(1) assms(6) i by (auto simp: comp_def)
  qed
  with concat show ?thesis by (intro exI [of _ ?outs]) simp
qed

text \<open>An instance: two replicas, a parser that takes every line as a record, a file with a header and three records.\<close>

lemma lines_of_append: "ys \<noteq> [] \<Longrightarrow> last ys = t \<Longrightarrow> lines_of t (ys @ zs) = lines_of t ys @ lines_of t zs"
proof (induction t ys arbitrary: rule: lines_of.induct)
  case (1 t ys)
  have split: "split_line t (ys @ zs) = (fst (split_line t ys), snd (split_line t ys) @ zs)"
    using 1(2,3) by (induction ys) (auto split: prod.splits if_splits)
  show ?case
  proof (cases "snd (split_line t ys) = []")
    case True
    then show ?thesis using 1(2) split by (simp add: lines_of.simps [of t "ys @ zs"] lines_of.simps [of t ys] lines_of.simps [of t "[]"])
  next
    case False
    then have "last (snd (split_line t ys)) = t" using 1(3) split_line_append [of t ys] by (metis last_appendR)
    with 1 False show ?thesis using split by (simp add: lines_of.simps [of t "ys @ zs"] lines_of.simps [of t ys])
  qed
qed

theorem csv_records_once_witness:
  "\<exists>outs. length outs = 2 \<and> concat outs = [[49, 10], [50, 10], [51 :: byte, 10]]
    \<and> (\<forall>i < 2. \<exists>st st'. csv_source_setup (\<lambda>_ _ bs. map Some (lines_of 10 bs)) [''f'' \<mapsto> [110, 10, 49, 10, 50, 10, 51, 10]] i 2 (csv_source_new ''f'') = ret st
         \<and> pulls (csv_source_next Some) st (map Item (outs ! i) @ [FlushAndRestart, Terminate]) st')"
proof -
  let ?bytes = "[110, 10, 49, 10, 50, 10, 51, 10] :: byte list" and ?opts = csv_options_default
  have body: "csv_body ?opts ?bytes = [49, 10, 50, 10, 51, 10]" "last_byte_terminator ?opts = 10"
    by (simp_all add: csv_body_def csv_header_def csv_options_default_def last_byte_terminator_def)
  have "ends_records (\<lambda>bs. map Some (lines_of 10 bs)) 10 (csv_body ?opts ?bytes)"
    by (auto simp: ends_records_def lines_of_append lines_of.simps [of 10 "[]"])
  moreover have "lines_of 10 [49, 10, 50, 10, 51 :: byte, 10] = [[49, 10], [50, 10], [51, 10]]" by (simp add: lines_of.simps)
  ultimately show ?thesis
    using csv_records_once [of "[''f'' \<mapsto> ?bytes]" "''f''" ?bytes 2 "csv_source_new ''f''" ?opts "\<lambda>bs. map Some (lines_of 10 bs)"
        "\<lambda>_ _ bs. map Some (lines_of 10 bs)" "[[49, 10], [50, 10], [51, 10]]" Some] body
    by (simp add: csv_source_new_def)
qed

end
