(* ===== verification/Iterator_Sources.thy ===== *)
theory Iterator_Sources
  imports Stream_Element
begin

text \<open>
  The sources over iterators and channels: \<^verbatim>\<open>src/operator/source/iterator.rs\<close>,
  \<^verbatim>\<open>src/operator/source/parallel_iterator.rs\<close> and \<^verbatim>\<open>src/operator/source/channel.rs\<close>. A Rust iterator is its
  \<^verbatim>\<open>next\<close>, a function on its state; the channel of the crate \<^verbatim>\<open>flume\<close> is given by its two receive functions.
\<close>

section \<open>Iterators\<close>

type_synonym ('it, 'a) iter = "'it \<Rightarrow> ('a option \<times> 'it) res"

text \<open>\<^verbatim>\<open>Range<T>\<close> for an integer type: the next number and the end, which is not reached.\<close>

datatype range = Range (range_start: int) (range_end: int)


text \<open>The iterator returns \<open>xs\<close> and then ends.\<close>

inductive iterates :: "('it, 'a) iter \<Rightarrow> 'it \<Rightarrow> 'a list \<Rightarrow> bool" for nxt where
  ends: "nxt it = ret (None, it') \<Longrightarrow> iterates nxt it []"
| more: "nxt it = ret (Some x, it') \<Longrightarrow> iterates nxt it' xs \<Longrightarrow> iterates nxt it (x # xs)"


section \<open>IteratorSource\<close>

record 'it iterator_source =
  is_inner :: 'it
  is_terminated :: bool

definition iterator_source_new :: "'it \<Rightarrow> 'it iterator_source" where
  "iterator_source_new inner = \<lparr>is_inner = inner, is_terminated = False\<rparr>"

definition iterator_source_clone :: "'it iterator_source \<Rightarrow> 'it iterator_source res" where
  "iterator_source_clone st = panic ExplicitPanic"

definition iterator_source_next :: "('it, 'a) iter \<Rightarrow> ('it iterator_source, 'a) pull" where
  "iterator_source_next nxt st =
     (if is_terminated st then ret (Terminate, st)
      else bindR (nxt (is_inner st)) (\<lambda>(r, inner).
        let st = st\<lparr>is_inner := inner\<rparr> in
        case r of
          Some t \<Rightarrow> ret (Item t, st)
        | None \<Rightarrow> ret (FlushAndRestart, st\<lparr>is_terminated := True\<rparr>)))"

lemma iterator_source_pulls:
  assumes "iterates nxt it xs"
  shows "\<exists>st'. pulls (iterator_source_next nxt) (iterator_source_new it) (map Item xs @ [FlushAndRestart, Terminate]) st'"
  using assms
proof (induction rule: iterates.induct)
  case (more it x it' xs)
  then have "iterator_source_next nxt (iterator_source_new it) = ret (Item x, iterator_source_new it')"
    by (simp add: iterator_source_next_def iterator_source_new_def)
  with more.IH show ?case by (simp add: pulls_Cons_iff)
qed (simp add: pulls_Cons_iff iterator_source_next_def iterator_source_new_def)

section \<open>ParallelIteratorSource\<close>

datatype ('g, 'it) iterator_generator = Generator 'g | Iterator 'it | Generating

text \<open>\<^verbatim>\<open>generate_iterator\<close> of the trait \<^verbatim>\<open>IntoParallelSource\<close>, a function of the source, the index and the number of replicas.\<close>

type_synonym ('g, 'it) into_parallel = "'g \<Rightarrow> nat \<Rightarrow> nat \<Rightarrow> 'it res"

text \<open>The instance for functions, and those for ranges. First \<^verbatim>\<open>u64\<close>.\<close>

definition generate_fn :: "(nat \<Rightarrow> nat \<Rightarrow> 'it res, 'it) into_parallel" where
  "generate_fn g index peers = g index peers"






text \<open>
  The other types go through \<^verbatim>\<open>i64\<close>; \<open>lo\<close> and \<open>hi\<close> are the bounds of the type. \<^verbatim>\<open>as i64\<close> wraps, division rounds
  towards zero, and the result is converted back with \<^verbatim>\<open>try_into().unwrap()\<close>.
\<close>

definition as_i64 :: "int \<Rightarrow> int" where
  "as_i64 x = (x + 2 ^ 63) mod 2 ^ 64 - 2 ^ 63"

definition saturating_i64 :: "int \<Rightarrow> int" where
  "saturating_i64 x = max i64_min (min i64_max x)"

definition try_into :: "int \<Rightarrow> int \<Rightarrow> int \<Rightarrow> int res" where
  "try_into lo hi x = (if lo \<le> x \<and> x \<le> hi then ret x else panic UnwrapNone)"

definition div_zero :: "int \<Rightarrow> int \<Rightarrow> int" where
  "div_zero a b = (if 0 \<le> a then a div b else - ((- a) div b))"

definition generate_range :: "int \<Rightarrow> int \<Rightarrow> (range, range) into_parallel" where
  "generate_range lo hi r index peers =
     bindR (try_into i64_min i64_max (int index)) (\<lambda>index.
       bindR (try_into i64_min i64_max (int peers)) (\<lambda>peers.
         bindR (arith_i64 (as_i64 (range_end r) - as_i64 (range_start r))) (\<lambda>n.
           if peers = 0 then panic DivideByZero
           else
             let chunk_size = div_zero (saturating_i64 (n + (peers - 1))) peers in
             bindR (arith_i64 (index * chunk_size)) (\<lambda>offset.
               let start = saturating_i64 (as_i64 (range_start r) + offset);
                   stop = max (min (saturating_i64 (start + chunk_size)) (as_i64 (range_end r))) (as_i64 (range_start r))
               in bindR (try_into lo hi start) (\<lambda>start.
                    bindR (try_into lo hi stop) (\<lambda>stop. ret (Range start stop)))))))"

record ('g, 'it) parallel_source =
  ps_inner :: "('g, 'it) iterator_generator"
  ps_terminated :: bool


definition generator_clone :: "('g, 'it) iterator_generator \<Rightarrow> ('g, 'it) iterator_generator res" where
  "generator_clone ig = (case ig of Generator g \<Rightarrow> ret (Generator g) | _ \<Rightarrow> panic ExplicitPanic)"

definition parallel_source_clone :: "('g, 'it) parallel_source \<Rightarrow> ('g, 'it) parallel_source res" where
  "parallel_source_clone st = bindR (generator_clone (ps_inner st)) (\<lambda>inner. ret \<lparr>ps_inner = inner, ps_terminated = False\<rparr>)"






section \<open>Every number once\<close>














text \<open>
  Without the distance to the largest value a replica panics: the start of its chunk is not limited to the end of the range.
  The last two of 28 replicas of the \<^verbatim>\<open>u8\<close> range 0 to 254 do. Without the bound on the length \<^verbatim>\<open>end - start\<close> overflows, for \<^verbatim>\<open>i64::MIN..0\<close> in
  every replica; and just below that bound the rounding saturates, so that two replicas of \<^verbatim>\<open>0..i64::MAX\<close> leave out the last number.
\<close>

lemma parallel_range_overflows:
  "generate_range 0 255 (Range 0 255) 26 28 = panic UnwrapNone" "generate_range 0 255 (Range 0 255) 25 28 = ret (Range 250 255)"
  "generate_range i64_min i64_max (Range i64_min 0) 0 4 = panic ArithOverflow"
  "generate_range i64_min i64_max (Range 0 i64_max) 1 2 = ret (Range (2 ^ 62 - 1) (i64_max - 1))"
  by code_simp+


section \<open>ChannelSource\<close>

datatype 'a try_recv = TryOk 'a | TryEmpty | TryDisconnected

definition max_retry :: nat where "max_retry = 16"

record 'r channel_source =
  ch_rx :: 'r
  ch_terminated :: bool
  ch_retry_count :: nat

definition channel_source_new :: "'r \<Rightarrow> 'r channel_source" where
  "channel_source_new rx = \<lparr>ch_rx = rx, ch_terminated = False, ch_retry_count = 0\<rparr>"

definition channel_source_clone :: "'r channel_source \<Rightarrow> 'r channel_source res" where
  "channel_source_clone st = panic ExplicitPanic"

text \<open>\<^verbatim>\<open>recv\<close> blocks; it returns \<open>None\<close> for an error, which says that all the senders are gone.\<close>

function channel_source_next :: "('r \<Rightarrow> 'a try_recv \<times> 'r) \<Rightarrow> ('r \<Rightarrow> ('a option \<times> 'r) res) \<Rightarrow> ('r channel_source, 'a) pull" where
  "channel_source_next try_recv recv st =
     (if ch_terminated st then ret (Terminate, st)
      else
        let (result, rx) = try_recv (ch_rx st); st1 = st\<lparr>ch_rx := rx\<rparr> in
        case result of
          TryOk t \<Rightarrow> ret (Item t, st1\<lparr>ch_retry_count := 0\<rparr>)
        | TryEmpty \<Rightarrow>
            if ch_retry_count st < max_retry then
              channel_source_next try_recv recv (st1\<lparr>ch_retry_count := ch_retry_count st + 1\<rparr>)
            else if ch_retry_count st = max_retry then ret (FlushBatch, st1\<lparr>ch_retry_count := ch_retry_count st + 1\<rparr>)
            else
              bindR (recv rx) (\<lambda>(r, rx).
                let st2 = st1\<lparr>ch_rx := rx, ch_retry_count := 0\<rparr> in
                case r of
                  Some t \<Rightarrow> ret (Item t, st2)
                | None \<Rightarrow> ret (FlushAndRestart, st2\<lparr>ch_terminated := True\<rparr>))
        | TryDisconnected \<Rightarrow> ret (FlushAndRestart, st1\<lparr>ch_terminated := True\<rparr>))"
  by auto
termination
  by (relation "measure (\<lambda>(try_recv, recv, st). max_retry - ch_retry_count st)") auto

declare channel_source_next.simps [simp del]

text \<open>
  What the source relies on: the channel is a queue that hands out its content in order and fails only when it is empty and
  the senders are gone, and a blocking receive returns.
\<close>

definition channel_queue :: "('r \<Rightarrow> 'a try_recv \<times> 'r) \<Rightarrow> ('r \<Rightarrow> ('a option \<times> 'r) res) \<Rightarrow> ('r \<Rightarrow> 'a list) \<Rightarrow> bool" where
  "channel_queue try_recv recv content \<longleftrightarrow>
     (\<forall>r r'. (\<forall>t. try_recv r = (TryOk t, r') \<longrightarrow> content r = t # content r') \<and> (try_recv r = (TryEmpty, r') \<longrightarrow> content r = content r')
        \<and> (try_recv r = (TryDisconnected, r') \<longrightarrow> content r = []))
     \<and> (\<forall>r. \<exists>x r'. recv r = ret (x, r') \<and> content r = (case x of None \<Rightarrow> [] | Some t \<Rightarrow> t # content r'))"

lemma channel_source_step:
  assumes "channel_queue try_recv recv content" and "\<not> ch_terminated st"
  shows "\<exists>e st'. channel_source_next try_recv recv st = ret (e, st') \<and>
    ((\<exists>t. e = Item t \<and> content (ch_rx st) = t # content (ch_rx st') \<and> ch_retry_count st' = 0 \<and> \<not> ch_terminated st')
     \<or> e = FlushBatch \<and> content (ch_rx st') = content (ch_rx st) \<and> ch_retry_count st \<le> max_retry \<and> max_retry < ch_retry_count st' \<and> \<not> ch_terminated st'
     \<or> e = FlushAndRestart \<and> content (ch_rx st) = [] \<and> ch_terminated st')"
  using assms(2)
proof (induction try_recv \<equiv> try_recv recv \<equiv> recv st rule: channel_source_next.induct)
  case (1 st)
  obtain result rx where tried: "try_recv (ch_rx st) = (result, rx)" by fastforce
  obtain x rx' where recv: "recv rx = ret (x, rx')" "content rx = (case x of None \<Rightarrow> [] | Some t \<Rightarrow> t # content rx')"
    using assms(1) unfolding channel_queue_def by blast
  show ?case
  proof (cases result)
    case (TryOk t)
    with tried assms(1) have "content (ch_rx st) = t # content rx" unfolding channel_queue_def by blast
    then show ?thesis using TryOk tried "1.prems" by (subst channel_source_next.simps) simp
  next
    case TryDisconnected
    with tried assms(1) have "content (ch_rx st) = []" unfolding channel_queue_def by blast
    then show ?thesis using TryDisconnected tried "1.prems" by (subst channel_source_next.simps) simp
  next
    case TryEmpty
    with tried assms(1) have c: "content (ch_rx st) = content rx" unfolding channel_queue_def by blast
    consider "ch_retry_count st < max_retry" | "ch_retry_count st = max_retry" | "max_retry < ch_retry_count st" by linarith
    then show ?thesis
    proof cases
      case 1
      let ?st1 = "st\<lparr>ch_rx := rx, ch_retry_count := ch_retry_count st + 1\<rparr>"
      have "channel_source_next try_recv recv st = channel_source_next try_recv recv ?st1"
        using TryEmpty tried "1.prems" 1 by (subst channel_source_next.simps) simp
      moreover have "\<exists>e st'. channel_source_next try_recv recv ?st1 = ret (e, st') \<and>
        ((\<exists>t. e = Item t \<and> content (ch_rx ?st1) = t # content (ch_rx st') \<and> ch_retry_count st' = 0 \<and> \<not> ch_terminated st')
         \<or> e = FlushBatch \<and> content (ch_rx st') = content (ch_rx ?st1) \<and> ch_retry_count ?st1 \<le> max_retry \<and> max_retry < ch_retry_count st' \<and> \<not> ch_terminated st'
         \<or> e = FlushAndRestart \<and> content (ch_rx ?st1) = [] \<and> ch_terminated st')"
        using "1.hyps" [OF _ tried [symmetric] refl _ TryEmpty 1] "1.prems" by simp
      ultimately show ?thesis using c 1 by auto
    next
      case 2
      then show ?thesis using TryEmpty tried "1.prems" c by (subst channel_source_next.simps) simp
    next
      case 3
      then show ?thesis using TryEmpty tried "1.prems" c recv by (cases x; subst channel_source_next.simps) simp_all
    qed
  qed
qed

text \<open>No two flushes without an element between them.\<close>

fun single_flushes :: "'a stream_element list \<Rightarrow> bool" where
  "single_flushes (FlushBatch # FlushBatch # es) \<longleftrightarrow> False"
| "single_flushes (e # es) \<longleftrightarrow> single_flushes es"
| "single_flushes [] \<longleftrightarrow> True"

lemma single_flushes_Cons: "single_flushes (e # es) \<longleftrightarrow> (e = FlushBatch \<longrightarrow> (\<forall>es'. es \<noteq> FlushBatch # es')) \<and> single_flushes es"
  by (cases es; cases e; cases "hd es") auto

lemma channel_source_run:
  assumes "channel_queue try_recv recv content" and "\<not> ch_terminated st"
  shows "\<exists>es st'. pulls (channel_source_next try_recv recv) st (es @ [FlushAndRestart, Terminate]) st'
    \<and> filter (\<lambda>e. e \<noteq> FlushBatch) es = map Item (content (ch_rx st)) \<and> single_flushes es
    \<and> (max_retry < ch_retry_count st \<longrightarrow> (\<forall>es'. es \<noteq> FlushBatch # es'))"
  using assms(2)
proof (induction "2 * length (content (ch_rx st)) + (if ch_retry_count st \<le> max_retry then 1 else 0)" arbitrary: st rule: less_induct)
  case less
  let ?n = "channel_source_next try_recv recv"
  obtain e st1 where e: "?n st = ret (e, st1)" and cases:
    "(\<exists>t. e = Item t \<and> content (ch_rx st) = t # content (ch_rx st1) \<and> ch_retry_count st1 = 0 \<and> \<not> ch_terminated st1)
     \<or> e = FlushBatch \<and> content (ch_rx st1) = content (ch_rx st) \<and> ch_retry_count st \<le> max_retry \<and> max_retry < ch_retry_count st1 \<and> \<not> ch_terminated st1
     \<or> e = FlushAndRestart \<and> content (ch_rx st) = [] \<and> ch_terminated st1"
    using channel_source_step [OF assms(1) less.prems] by blast
  from cases show ?case
  proof (elim disjE)
    assume "\<exists>t. e = Item t \<and> content (ch_rx st) = t # content (ch_rx st1) \<and> ch_retry_count st1 = 0 \<and> \<not> ch_terminated st1"
    then obtain t where t: "e = Item t" "content (ch_rx st) = t # content (ch_rx st1)" "\<not> ch_terminated st1" by blast
    have "2 * length (content (ch_rx st1)) + (if ch_retry_count st1 \<le> max_retry then 1 else 0)
        < 2 * length (content (ch_rx st)) + (if ch_retry_count st \<le> max_retry then 1 else 0)" by (simp add: t(2))
    from less.hyps [OF this t(3)] obtain es st' where "pulls ?n st1 (es @ [FlushAndRestart, Terminate]) st'"
      "filter (\<lambda>e. e \<noteq> FlushBatch) es = map Item (content (ch_rx st1))" "single_flushes es" by auto
    with e t show ?thesis by (intro exI [of _ "Item t # es"]) (auto simp: pulls_Cons_iff)
  next
    assume f: "e = FlushBatch \<and> content (ch_rx st1) = content (ch_rx st) \<and> ch_retry_count st \<le> max_retry \<and> max_retry < ch_retry_count st1 \<and> \<not> ch_terminated st1"
    with less.hyps [of st1] obtain es st' where "pulls ?n st1 (es @ [FlushAndRestart, Terminate]) st'"
      "filter (\<lambda>e. e \<noteq> FlushBatch) es = map Item (content (ch_rx st1))" "single_flushes es" "\<forall>es'. es \<noteq> FlushBatch # es'" by auto
    with e f show ?thesis by (intro exI [of _ "FlushBatch # es"]) (auto simp: pulls_Cons_iff single_flushes_Cons)
  next
    assume f: "e = FlushAndRestart \<and> content (ch_rx st) = [] \<and> ch_terminated st1"
    have "?n st1 = ret (Terminate, st1)" using f by (subst channel_source_next.simps) simp
    with e f show ?thesis by (intro exI [of _ "[]"]) (auto simp: pulls_Cons_iff)
  qed
qed

text \<open>
  A channel source returns everything that is sent to its channel, once and in order, with a flush before it blocks but
  never two in a row, and ends its only iteration and the stream when the channel is empty and all the senders are gone. Every
  call returns, whatever the timing of the senders.
\<close>

theorem channel_source_delivers:
  assumes "channel_queue try_recv recv content"
  shows "\<exists>es st'. pulls (channel_source_next try_recv recv) (channel_source_new rx) (es @ [FlushAndRestart, Terminate]) st'
    \<and> filter (\<lambda>e. e \<noteq> FlushBatch) es = map Item (content rx) \<and> single_flushes es"
  using channel_source_run [OF assms, of "channel_source_new rx"] by (auto simp: channel_source_new_def)

text \<open>An instance: the outcomes are scripted, \<open>None\<close> for a moment when the channel is empty.\<close>

fun script_try_recv :: "'a option list \<Rightarrow> 'a try_recv \<times> 'a option list" where
  "script_try_recv [] = (TryDisconnected, [])"
| "script_try_recv (None # xs) = (TryEmpty, xs)"
| "script_try_recv (Some x # xs) = (TryOk x, xs)"

fun script_recv_blocking :: "'a option list \<Rightarrow> ('a option \<times> 'a option list) res" where
  "script_recv_blocking [] = ret (None, [])"
| "script_recv_blocking (None # xs) = script_recv_blocking xs"
| "script_recv_blocking (Some x # xs) = ret (Some x, xs)"

lemma script_channel: "channel_queue script_try_recv script_recv_blocking (List.map_filter (\<lambda>x. x))"
proof -
  have "(\<forall>t. script_try_recv r = (TryOk t, r') \<longrightarrow> List.map_filter (\<lambda>x. x) r = t # List.map_filter (\<lambda>x. x) r')
      \<and> (script_try_recv r = (TryEmpty, r') \<longrightarrow> List.map_filter (\<lambda>x. x) r = List.map_filter (\<lambda>x. x) r')
      \<and> (script_try_recv r = (TryDisconnected, r') \<longrightarrow> List.map_filter (\<lambda>x. x) r = [])" for r r' :: "'a option list"
    by (cases r rule: script_try_recv.cases) (auto simp: List.map_filter_simps)
  moreover have "\<exists>x r'. script_recv_blocking r = ret (x, r')
      \<and> List.map_filter (\<lambda>x. x) r = (case x of None \<Rightarrow> [] | Some t \<Rightarrow> t # List.map_filter (\<lambda>x. x) r')" for r :: "'a option list"
    by (induction r rule: script_recv_blocking.induct) (auto simp: List.map_filter_simps)
  ultimately show ?thesis unfolding channel_queue_def by blast
qed

theorem channel_source_delivers_witness:
  "\<exists>es st'. pulls (channel_source_next script_try_recv script_recv_blocking) (channel_source_new [Some 7, None, Some (8 :: nat)])
      (es @ [FlushAndRestart, Terminate]) st'
    \<and> filter (\<lambda>e. e \<noteq> FlushBatch) es = [Item 7, Item 8] \<and> single_flushes es"
  using channel_source_delivers [OF script_channel, of "[Some 7, None, Some (8 :: nat)]"] by (simp add: List.map_filter_simps)

end
