(* ===== verification/Iterate.thy ===== *)
theory Iterate
  imports Replay Binary_Start
begin

text \<open>
  The operator that starts an iterative loop (\<^verbatim>\<open>src/operator/iteration/iterate.rs\<close>): it passes its input to the body, takes what
  comes out of the body back, feeds it to the next round as long as the leader answers \<^verbatim>\<open>Continue\<close>, and sends the last
  round to the block behind the loop. It reads three channels at once: those of the input, of the feedback and of the
  leader. The channels are parameters, with what the code relies on stated in \<open>loop_channels\<close>.
\<close>

section \<open>The channels\<close>

record ('w, 'a, 'st) loop_ops =
  lo_try_feedback :: "'w \<Rightarrow> 'a network_message option \<times> 'w"
  lo_feedback :: "'w \<Rightarrow> ('a recv_result \<times> 'w) res"
  lo_select_feedback :: "'w \<Rightarrow> (('a, 'a) select_result \<times> 'w) res"
  lo_state :: "'w \<Rightarrow> ('st state_feedback recv_result \<times> 'w) res"
  lo_select_state :: "'w \<Rightarrow> (('st state_feedback, 'a) select_result \<times> 'w) res"
  lo_output :: "'a network_message \<Rightarrow> 'w \<Rightarrow> 'w option"

text \<open>A result that is unwrapped.\<close>

definition unwrap_recv :: "'a recv_result \<Rightarrow> 'a network_message res" where
  "unwrap_recv r = (case r of Inr m \<Rightarrow> ret m | Inl _ \<Rightarrow> panic UnwrapNone)"

section \<open>The operator\<close>

record ('r, 'a) iterate =
  it_coord :: coord
  it_state :: "'r state_handler"
  it_input_receiver :: "'r option"
  it_feedback_receiver :: "'r option"
  it_feedback_end_block_id :: nat
  it_input_block_id :: nat
  it_output_sender :: "net_sender option"
  it_output_block_id :: nat
  it_content :: "'a stream_element list"
  it_input_stash :: "'a stream_element list"
  it_feedback_content :: "'a stream_element list"
  it_input_finished :: bool

definition iterate_new :: "nat \<Rightarrow> nat \<Rightarrow> nat \<Rightarrow> nat \<Rightarrow> ('r, 'a) iterate" where
  "iterate_new input_block_id leader_block_id feedback_end_block_id output_block_id =
     \<lparr>it_coord = Coord 0 0 0, it_state = handler_new leader_block_id, it_input_receiver = None, it_feedback_receiver = None,
      it_feedback_end_block_id = feedback_end_block_id, it_input_block_id = input_block_id, it_output_sender = None,
      it_output_block_id = output_block_id, it_content = [], it_input_stash = [], it_feedback_content = [], it_input_finished = False\<rparr>"

definition iterate_setup :: "type_id \<Rightarrow> type_id \<Rightarrow> coord \<Rightarrow> coord list \<Rightarrow> topology
    \<Rightarrow> (receiver_endpoint, 'a) iterate \<Rightarrow> ((receiver_endpoint, 'a) iterate \<times> topology) res" where
  "iterate_setup ty state_ty coord replicas tp it =
     (let endpoint = ReceiverEndpoint coord (it_input_block_id it) in
      bindR (get_receiver ty endpoint tp) (\<lambda>(input_receiver, tp).
        let feedback_endpoint = ReceiverEndpoint coord (it_feedback_end_block_id it) in
        bindR (get_receiver ty feedback_endpoint tp) (\<lambda>(feedback_receiver, tp).
          let output_endpoint = ReceiverEndpoint (Coord (it_output_block_id it) (host_id coord) (replica_id coord)) (block_id coord) in
          bindR (get_sender ty output_endpoint tp) (\<lambda>(output_sender, tp).
            bindR (handler_setup state_ty coord replicas tp (it_state it)) (\<lambda>(sh, tp).
              ret (it\<lparr>it_coord := coord, it_input_receiver := Some input_receiver, it_feedback_receiver := Some feedback_receiver,
                      it_output_sender := Some output_sender, it_state := sh\<rparr>, tp))))))"

definition send_output :: "('w, 'a, 'st) loop_ops \<Rightarrow> 'a network_message \<Rightarrow> ('r, 'a) iterate \<Rightarrow> 'w \<Rightarrow> 'w res" where
  "send_output ops message it w = bindR (unwrapR (it_output_sender it)) (\<lambda>_. unwrapR (lo_output ops message w))"

text \<open>The state of the thread: the channels, the state of the host and the operator.\<close>

type_synonym ('w, 'st, 'r, 'a) iterate_world = "'w \<times> 'st host_state \<times> ('r, 'a) iterate"

definition next_input :: "('w, 'a, 'st) loop_ops \<Rightarrow> ('w, 'st, 'r, 'a) iterate_world
    \<Rightarrow> ('a stream_element option \<times> ('w, 'st, 'r, 'a) iterate_world) res" where
  "next_input ops W =
     (case W of (w, h, it) \<Rightarrow>
        case it_input_stash it of
          [] \<Rightarrow> ret (None, w, h, it)
        | item # rest \<Rightarrow>
            let it = it\<lparr>it_input_stash := rest\<rparr> in
            (case item of
               FlushAndRestart \<Rightarrow> ret (Some FlushAndRestart, w, state_lock h, it\<lparr>it_input_finished := True\<rparr>)
             | Terminate \<Rightarrow>
                 bindR (send_output ops (new_single Terminate (it_coord it)) it w) (\<lambda>w. ret (Some item, w, h, it))
             | _ \<Rightarrow> ret (Some item, w, h, it)))"

definition next_stored :: "('w, 'st, 'r, 'a) iterate_world \<Rightarrow> 'a stream_element option \<times> ('w, 'st, 'r, 'a) iterate_world" where
  "next_stored W =
     (case W of (w, h, it) \<Rightarrow>
        case it_content it of
          [] \<Rightarrow> (None, w, h, it)
        | item # rest \<Rightarrow> (Some item, w, (if item = FlushAndRestart then state_lock h else h), it\<lparr>it_content := rest\<rparr>))"

definition feedback_finished :: "('r, 'a) iterate \<Rightarrow> bool" where
  "feedback_finished it \<longleftrightarrow> it_feedback_content it \<noteq> [] \<and> last (it_feedback_content it) = FlushAndRestart"

text \<open>The method calls itself once more after the input channel is closed, then without it.\<close>

definition feedback_alone :: "('w, 'a, 'st) loop_ops \<Rightarrow> 'w \<Rightarrow> ('r, 'a) iterate \<Rightarrow> ('w \<times> ('r, 'a) iterate) res" where
  "feedback_alone ops w it =
     bindR (lo_feedback ops w) (\<lambda>(r, w). bindR (unwrap_recv r) (\<lambda>msg.
       ret (w, it\<lparr>it_feedback_content := it_feedback_content it @ nm_data msg\<rparr>)))"

definition input_or_feedback :: "('w, 'a, 'st) loop_ops \<Rightarrow> 'w \<Rightarrow> ('r, 'a) iterate \<Rightarrow> ('w \<times> ('r, 'a) iterate) res" where
  "input_or_feedback ops w it =
     bindR (unwrapR (it_feedback_receiver it)) (\<lambda>_.
       case it_input_receiver it of
         Some rx_input \<Rightarrow>
           bindR (lo_select_feedback ops w) (\<lambda>(r, w).
             case r of
               SelectA (Inr msg) \<Rightarrow> ret (w, it\<lparr>it_input_stash := it_input_stash it @ nm_data msg\<rparr>)
             | SelectB (Inr msg) \<Rightarrow> ret (w, it\<lparr>it_feedback_content := it_feedback_content it @ nm_data msg\<rparr>)
             | SelectA (Inl _) \<Rightarrow> feedback_alone ops w (it\<lparr>it_input_receiver := None\<rparr>)
             | SelectB (Inl _) \<Rightarrow> panic ExplicitPanic)
       | None \<Rightarrow> feedback_alone ops w it)"

partial_function (option) iterate_wait_update :: "('w, 'a, 'st) loop_ops \<Rightarrow> 'w \<Rightarrow> ('r, 'a) iterate \<Rightarrow> ('st state_feedback \<times> 'w \<times> ('r, 'a) iterate) res" where
  "iterate_wait_update ops w it =
     bindR (unwrapR (sh_new_state_receiver (it_state it))) (\<lambda>_.
       bindR
         (case it_input_receiver it of
            Some rx_input \<Rightarrow>
              bindR (lo_select_state ops w) (\<lambda>(r, w).
                case r of
                  SelectA (Inr state_msg) \<Rightarrow> ret (Some state_msg, w, it)
                | SelectA (Inl _) \<Rightarrow> panic ExplicitPanic
                | SelectB (Inr msg) \<Rightarrow> ret (None, w, it\<lparr>it_input_stash := it_input_stash it @ nm_data msg\<rparr>)
                | SelectB (Inl _) \<Rightarrow> ret (None, w, it\<lparr>it_input_receiver := None\<rparr>))
          | None \<Rightarrow> bindR (lo_state ops w) (\<lambda>(r, w). bindR (unwrap_recv r) (\<lambda>state_msg. ret (Some state_msg, w, it))))
         (\<lambda>(received, w, it).
            case received of
              None \<Rightarrow> iterate_wait_update ops w it
            | Some state_msg \<Rightarrow>
                if num_items state_msg = 1 then
                  (case nm_data state_msg ! 0 of
                     Item fb \<Rightarrow> ret (fb, w, it)
                   | FlushBatch \<Rightarrow> iterate_wait_update ops w it
                   | FlushAndRestart \<Rightarrow> iterate_wait_update ops w it
                   | _ \<Rightarrow> panic Unreachable)
                else panic AssertFailed))"

text \<open>The inner loops of \<^verbatim>\<open>next\<close>: what feedback has arrived, the next input, the rest of the feedback.\<close>

partial_function (option) drain_feedback :: "('w, 'a, 'st) loop_ops \<Rightarrow> 'w \<Rightarrow> ('r, 'a) iterate \<Rightarrow> ('w \<times> ('r, 'a) iterate) res" where
  "drain_feedback ops w it =
     (case lo_try_feedback ops w of
        (Some message, w) \<Rightarrow> drain_feedback ops w (it\<lparr>it_feedback_content := it_feedback_content it @ nm_data message\<rparr>)
      | (None, w) \<Rightarrow> ret (w, it))"

partial_function (option) await_input :: "('w, 'a, 'st) loop_ops \<Rightarrow> 'w \<Rightarrow> ('r, 'a) iterate \<Rightarrow> ('w \<times> ('r, 'a) iterate) res" where
  "await_input ops w it =
     (if it_input_stash it = [] then bindR (input_or_feedback ops w it) (\<lambda>(w, it). await_input ops w it) else ret (w, it))"

partial_function (option) await_feedback :: "('w, 'a, 'st) loop_ops \<Rightarrow> 'w \<Rightarrow> ('r, 'a) iterate \<Rightarrow> ('w \<times> ('r, 'a) iterate) res" where
  "await_feedback ops w it =
     (if \<not> feedback_finished it then bindR (input_or_feedback ops w it) (\<lambda>(w, it). await_feedback ops w it) else ret (w, it))"

partial_function (option) iterate_next :: "(nat \<Rightarrow> 'st host_state \<Rightarrow> 'st host_state res) \<Rightarrow> ('w, 'a, 'st) loop_ops
    \<Rightarrow> (('w, 'st, 'r, 'a) iterate_world, 'a) pull" where
  "iterate_next barrier_wait ops W =
     (case W of (w, h, it) \<Rightarrow>
        bindR (unwrapR (it_feedback_receiver it)) (\<lambda>_.
        bindR (drain_feedback ops w it) (\<lambda>(w, it).
          if \<not> it_input_finished it then
            bindR (await_input ops w it) (\<lambda>(w, it).
              bindR (next_input ops (w, h, it)) (\<lambda>(value, W). bindR (unwrapR value) (\<lambda>el. ret (el, W))))
          else if it_content it \<noteq> [] then
            (case next_stored (w, h, it) of (value, W) \<Rightarrow> bindR (unwrapR value) (\<lambda>el. ret (el, W)))
          else
            bindR (await_feedback ops w it) (\<lambda>(w, it).
              assertR (it_content it = [])
               (let it = it\<lparr>it_content := it_feedback_content it, it_feedback_content := it_content it\<rparr> in
                bindR (iterate_wait_update ops w it) (\<lambda>(state_update, w, it).
                  bindR (wait_sync_state barrier_wait state_update (it_state it) h) (\<lambda>(result, h).
                    case result of
                      Finished \<Rightarrow>
                        (let message = new_batch (it_content it) (it_coord it);
                             it = it\<lparr>it_input_finished := False, it_content := []\<rparr>
                         in bindR (send_output ops message it w) (\<lambda>w. iterate_next barrier_wait ops (w, h, it)))
                    | Continue \<Rightarrow> iterate_next barrier_wait ops (w, h, it))))))))"


section \<open>What the operator relies on\<close>

text \<open>
  What each channel still has to deliver. The feedback comes in rounds: the body returns the elements of a round only after
  the operator has returned that round, so not before the leader's answer to the round before.
\<close>

record ('a, 'st) loop_view =
  lv_input :: "'a network_message list"
  lv_feedback :: "'a network_message list"
  lv_rounds :: "'a network_message list list"
  lv_answers :: "'st state_feedback network_message list"
  lv_sent :: "'a network_message list"

definition answer_of :: "'st state_feedback network_message \<Rightarrow> 'st state_feedback list" where
  "answer_of a = (case nm_data a of [Item fb] \<Rightarrow> [fb] | _ \<Rightarrow> [])"

definition answered :: "'st state_feedback network_message \<Rightarrow> 'st state_feedback network_message list \<Rightarrow> ('a, 'st) loop_view \<Rightarrow> ('a, 'st) loop_view" where
  "answered a as v =
     (if answer_of a \<noteq> [] then v\<lparr>lv_answers := as, lv_feedback := (case lv_rounds v of [] \<Rightarrow> [] | r # _ \<Rightarrow> r), lv_rounds := tl (lv_rounds v)\<rparr>
      else v\<lparr>lv_answers := as\<rparr>)"

text \<open>
  Messages are received in the order they were sent, whatever the time they arrive and whichever channel is served first; the
  input channel is closed when it is empty; a call returns if there is something to receive; sending succeeds.
\<close>

definition takes_input :: "'a network_message \<Rightarrow> ('a, 'st) loop_view \<Rightarrow> ('a, 'st) loop_view \<Rightarrow> bool" where
  "takes_input m v v' \<longleftrightarrow> (\<exists>ms. lv_input v = m # ms \<and> v' = v\<lparr>lv_input := ms\<rparr>)"

definition takes_feedback :: "'a network_message \<Rightarrow> ('a, 'st) loop_view \<Rightarrow> ('a, 'st) loop_view \<Rightarrow> bool" where
  "takes_feedback m v v' \<longleftrightarrow> (\<exists>ms. lv_feedback v = m # ms \<and> v' = v\<lparr>lv_feedback := ms\<rparr>)"

definition takes_answer :: "'st state_feedback network_message \<Rightarrow> ('a, 'st) loop_view \<Rightarrow> ('a, 'st) loop_view \<Rightarrow> bool" where
  "takes_answer a v v' \<longleftrightarrow> (\<exists>as. lv_answers v = a # as \<and> v' = answered a as v)"

definition loop_channels :: "('w, 'a, 'st) loop_ops \<Rightarrow> ('w \<Rightarrow> ('a, 'st) loop_view) \<Rightarrow> bool" where
  "loop_channels ops view \<longleftrightarrow>
     (\<forall>w. (case lo_try_feedback ops w of (None, w') \<Rightarrow> view w' = view w | (Some m, w') \<Rightarrow> takes_feedback m (view w) (view w')))
   \<and> (\<forall>w. lv_feedback (view w) \<noteq> [] \<longrightarrow> (\<exists>m w'. lo_feedback ops w = ret (Inr m, w') \<and> takes_feedback m (view w) (view w')))
   \<and> (\<forall>w. lv_input (view w) \<noteq> [] \<or> lv_feedback (view w) \<noteq> [] \<longrightarrow>
        (\<exists>m w'. lo_select_feedback ops w = ret (SelectA (Inr m), w') \<and> takes_input m (view w) (view w'))
      \<or> (\<exists>m w'. lo_select_feedback ops w = ret (SelectB (Inr m), w') \<and> takes_feedback m (view w) (view w'))
      \<or> (\<exists>e w'. lo_select_feedback ops w = ret (SelectA (Inl e), w') \<and> lv_input (view w) = [] \<and> view w' = view w))
   \<and> (\<forall>w. lv_answers (view w) \<noteq> [] \<longrightarrow> (\<exists>a w'. lo_state ops w = ret (Inr a, w') \<and> takes_answer a (view w) (view w')))
   \<and> (\<forall>w. lv_answers (view w) \<noteq> [] \<longrightarrow>
        (\<exists>a w'. lo_select_state ops w = ret (SelectA (Inr a), w') \<and> takes_answer a (view w) (view w'))
      \<or> (\<exists>m w'. lo_select_state ops w = ret (SelectB (Inr m), w') \<and> takes_input m (view w) (view w'))
      \<or> (\<exists>e w'. lo_select_state ops w = ret (SelectB (Inl e), w') \<and> lv_input (view w) = [] \<and> view w' = view w))
   \<and> (\<forall>m w. \<exists>w'. lo_output ops m w = Some w' \<and> view w' = (view w)\<lparr>lv_sent := lv_sent (view w) @ [m]\<rparr>)"

lemma loop_channels_laws:
  assumes "loop_channels ops view"
  shows "case lo_try_feedback ops w of (None, w') \<Rightarrow> view w' = view w | (Some m, w') \<Rightarrow> takes_feedback m (view w) (view w')"
    and "lv_feedback (view w) \<noteq> [] \<Longrightarrow> \<exists>m w'. lo_feedback ops w = ret (Inr m, w') \<and> takes_feedback m (view w) (view w')"
    and "lv_input (view w) \<noteq> [] \<or> lv_feedback (view w) \<noteq> [] \<Longrightarrow>
        (\<exists>m w'. lo_select_feedback ops w = ret (SelectA (Inr m), w') \<and> takes_input m (view w) (view w'))
      \<or> (\<exists>m w'. lo_select_feedback ops w = ret (SelectB (Inr m), w') \<and> takes_feedback m (view w) (view w'))
      \<or> (\<exists>e w'. lo_select_feedback ops w = ret (SelectA (Inl e), w') \<and> lv_input (view w) = [] \<and> view w' = view w)"
    and "lv_answers (view w) \<noteq> [] \<Longrightarrow> \<exists>a w'. lo_state ops w = ret (Inr a, w') \<and> takes_answer a (view w) (view w')"
    and "lv_answers (view w) \<noteq> [] \<Longrightarrow>
        (\<exists>a w'. lo_select_state ops w = ret (SelectA (Inr a), w') \<and> takes_answer a (view w) (view w'))
      \<or> (\<exists>m w'. lo_select_state ops w = ret (SelectB (Inr m), w') \<and> takes_input m (view w) (view w'))
      \<or> (\<exists>e w'. lo_select_state ops w = ret (SelectB (Inl e), w') \<and> lv_input (view w) = [] \<and> view w' = view w)"
    and "\<exists>w'. lo_output ops m w = Some w' \<and> view w' = (view w)\<lparr>lv_sent := lv_sent (view w) @ [m]\<rparr>"
proof -
  note laws = assms [unfolded loop_channels_def]
  show "case lo_try_feedback ops w of (None, w') \<Rightarrow> view w' = view w | (Some m, w') \<Rightarrow> takes_feedback m (view w) (view w')"
    by (rule laws [THEN conjunct1, rule_format])
  show "lv_feedback (view w) \<noteq> [] \<Longrightarrow> \<exists>m w'. lo_feedback ops w = ret (Inr m, w') \<and> takes_feedback m (view w) (view w')"
    by (rule laws [THEN conjunct2, THEN conjunct1, THEN spec, THEN mp])
  show "lv_input (view w) \<noteq> [] \<or> lv_feedback (view w) \<noteq> [] \<Longrightarrow>
        (\<exists>m w'. lo_select_feedback ops w = ret (SelectA (Inr m), w') \<and> takes_input m (view w) (view w'))
      \<or> (\<exists>m w'. lo_select_feedback ops w = ret (SelectB (Inr m), w') \<and> takes_feedback m (view w) (view w'))
      \<or> (\<exists>e w'. lo_select_feedback ops w = ret (SelectA (Inl e), w') \<and> lv_input (view w) = [] \<and> view w' = view w)"
    by (rule laws [THEN conjunct2, THEN conjunct2, THEN conjunct1, THEN spec, THEN mp])
  note rest = laws [THEN conjunct2, THEN conjunct2, THEN conjunct2]
  show "lv_answers (view w) \<noteq> [] \<Longrightarrow> \<exists>a w'. lo_state ops w = ret (Inr a, w') \<and> takes_answer a (view w) (view w')"
    by (rule rest [THEN conjunct1, THEN spec, THEN mp])
  show "lv_answers (view w) \<noteq> [] \<Longrightarrow>
        (\<exists>a w'. lo_select_state ops w = ret (SelectA (Inr a), w') \<and> takes_answer a (view w) (view w'))
      \<or> (\<exists>m w'. lo_select_state ops w = ret (SelectB (Inr m), w') \<and> takes_input m (view w) (view w'))
      \<or> (\<exists>e w'. lo_select_state ops w = ret (SelectB (Inl e), w') \<and> lv_input (view w) = [] \<and> view w' = view w)"
    by (rule rest [THEN conjunct2, THEN conjunct1, THEN spec, THEN mp])
  show "\<exists>w'. lo_output ops m w = Some w' \<and> view w' = (view w)\<lparr>lv_sent := lv_sent (view w) @ [m]\<rparr>"
    by (rule rest [THEN conjunct2, THEN conjunct2, THEN spec, THEN spec])
qed

section \<open>What the operator still has to process\<close>

text \<open>The elements of the input and of the current round's feedback that it has not used yet, received or not.\<close>

definition msg_elems :: "'a network_message list \<Rightarrow> 'a stream_element list" where
  "msg_elems ms = concat (map nm_data ms)"

definition input_rest :: "('a, 'st) loop_view \<Rightarrow> ('r, 'a) iterate \<Rightarrow> 'a stream_element list" where
  "input_rest v it = it_input_stash it @ msg_elems (lv_input v)"

definition feedback_rest :: "('a, 'st) loop_view \<Rightarrow> ('r, 'a) iterate \<Rightarrow> 'a stream_element list" where
  "feedback_rest v it = it_feedback_content it @ msg_elems (lv_feedback v)"

text \<open>Receiving changes nothing else; once the input channel is closed it is empty.\<close>

definition view_frame :: "('a, 'st) loop_view \<Rightarrow> 'a network_message list list \<times> 'st state_feedback network_message list \<times> 'a network_message list" where
  "view_frame v = (lv_rounds v, lv_answers v, lv_sent v)"

definition iterate_frame :: "('r, 'a) iterate \<Rightarrow> coord \<times> 'r state_handler \<times> 'r option \<times> net_sender option \<times> 'a stream_element list \<times> bool" where
  "iterate_frame it = (it_coord it, it_state it, it_feedback_receiver it, it_output_sender it, it_content it, it_input_finished it)"

definition closed_empty :: "('a, 'st) loop_view \<Rightarrow> ('r, 'a) iterate \<Rightarrow> bool" where
  "closed_empty v it \<longleftrightarrow> (it_input_receiver it = None \<longrightarrow> lv_input v = [])"

definition received :: "('a, 'st) loop_view \<Rightarrow> ('r, 'a) iterate \<Rightarrow> ('a, 'st) loop_view \<Rightarrow> ('r, 'a) iterate \<Rightarrow> bool" where
  "received v it v' it' \<longleftrightarrow> input_rest v' it' = input_rest v it \<and> feedback_rest v' it' = feedback_rest v it
     \<and> view_frame v' = view_frame v \<and> iterate_frame it' = iterate_frame it \<and> (closed_empty v it \<longrightarrow> closed_empty v' it')
     \<and> set (lv_feedback v') \<subseteq> set (lv_feedback v) \<and> length (lv_input v') \<le> length (lv_input v) \<and> length (lv_feedback v') \<le> length (lv_feedback v)"

lemma received_refl [simp]: "received v it v it"
  by (simp add: received_def)

lemma received_trans: "received v1 it1 v2 it2 \<Longrightarrow> received v2 it2 v3 it3 \<Longrightarrow> received v1 it1 v3 it3"
  by (auto simp: received_def)

lemma received_input:
  assumes "takes_input m v v'" and "it_input_receiver it \<noteq> None"
  shows "received v it v' (it\<lparr>it_input_stash := it_input_stash it @ nm_data m\<rparr>)" and "length (lv_input v') < length (lv_input v)" and "lv_feedback v' = lv_feedback v"
  using assms by (auto simp: received_def takes_input_def input_rest_def feedback_rest_def msg_elems_def view_frame_def iterate_frame_def closed_empty_def)

lemma received_feedback:
  assumes "takes_feedback m v v'"
  shows "received v it v' (it\<lparr>it_feedback_content := it_feedback_content it @ nm_data m\<rparr>)" and "length (lv_feedback v') < length (lv_feedback v)" and "lv_input v' = lv_input v"
  using assms by (auto simp: received_def takes_feedback_def input_rest_def feedback_rest_def msg_elems_def view_frame_def iterate_frame_def closed_empty_def)

lemma received_closed: "lv_input v = [] \<Longrightarrow> received v it v (it\<lparr>it_input_receiver := None\<rparr>)"
  by (auto simp: received_def input_rest_def feedback_rest_def view_frame_def iterate_frame_def closed_empty_def)

section \<open>The inner loops end\<close>

lemma drain_feedback_ok:
  assumes "loop_channels ops view"
  shows "\<exists>w' it'. drain_feedback ops w it = ret (w', it') \<and> received (view w) it (view w') it'"
proof (induction "length (lv_feedback (view w))" arbitrary: w it rule: less_induct)
  case less
  obtain r w1 where tr: "lo_try_feedback ops w = (r, w1)" by fastforce
  have law: "case lo_try_feedback ops w of (None, w') \<Rightarrow> view w' = view w | (Some m, w') \<Rightarrow> takes_feedback m (view w) (view w')"
    by (rule loop_channels_laws(1) [OF assms])
  show ?case
  proof (cases r)
    case None
    then show ?thesis using tr law by (subst drain_feedback.simps) simp
  next
    case (Some m)
    let ?it1 = "it\<lparr>it_feedback_content := it_feedback_content it @ nm_data m\<rparr>"
    have take: "takes_feedback m (view w) (view w1)" using tr law Some by simp
    from less [OF received_feedback(2) [OF take], of ?it1] obtain w' it' where
      "drain_feedback ops w1 ?it1 = ret (w', it')" "received (view w1) ?it1 (view w') it'" by blast
    then show ?thesis using tr Some received_trans [OF received_feedback(1) [OF take]] by (subst drain_feedback.simps) auto
  qed
qed

text \<open>One call that waits for the input or for feedback receives a message.\<close>

lemma input_or_feedback_ok:
  fixes it :: "('r, 'a) iterate" and ops :: "('w, 'a, 'st) loop_ops"
  assumes ch: "loop_channels ops view" and "it_feedback_receiver it \<noteq> None" and "closed_empty (view w) it"
    and some: "lv_feedback (view w) \<noteq> [] \<or> lv_input (view w) \<noteq> []"
  shows "(\<exists>w' it'. input_or_feedback ops w it = ret (w', it') \<and> received (view w) it (view w') it'
      \<and> length (lv_input (view w')) + length (lv_feedback (view w')) < length (lv_input (view w)) + length (lv_feedback (view w)))"
proof -
  have alone: "\<exists>w' it'. feedback_alone ops w1 it1 = ret (w', it') \<and> received (view w1) it1 (view w') it'
      \<and> length (lv_input (view w')) + length (lv_feedback (view w')) < length (lv_input (view w1)) + length (lv_feedback (view w1))"
    if "lv_feedback (view w1) \<noteq> []" for w1 and it1 :: "('r, 'a) iterate"
  proof -
    from loop_channels_laws(2) [OF ch that] obtain m w' where m: "lo_feedback ops w1 = ret (Inr m, w')" "takes_feedback m (view w1) (view w')" by blast
    then show ?thesis using received_feedback(1) [OF m(2), of it1] received_feedback(2,3) [OF m(2)] by (simp add: feedback_alone_def unwrap_recv_def)
  qed
  show ?thesis
  proof (cases "it_input_receiver it")
    case None
    then have "lv_feedback (view w) \<noteq> []" using some assms(3) by (auto simp: closed_empty_def)
    from alone [OF this, of it] None assms(2) show ?thesis by (auto simp: input_or_feedback_def)
  next
    case (Some rx)
    have "lv_input (view w) \<noteq> [] \<or> lv_feedback (view w) \<noteq> []" using some by blast
    from loop_channels_laws(3) [OF ch this] consider
        (input) m w' where "lo_select_feedback ops w = ret (SelectA (Inr m), w')" "takes_input m (view w) (view w')"
      | (feedback) m w' where "lo_select_feedback ops w = ret (SelectB (Inr m), w')" "takes_feedback m (view w) (view w')"
      | (closed) e w' where "lo_select_feedback ops w = ret (SelectA (Inl e), w')" "lv_input (view w) = []" "view w' = view w"
      by blast
    then show ?thesis
    proof cases
      case input
      then show ?thesis using Some assms(2) received_input(1) [OF input(2), of it] received_input(2,3) [OF input(2), of it] by (auto simp: input_or_feedback_def)
    next
      case feedback
      then show ?thesis using Some assms(2) received_feedback(1) [OF feedback(2), of it] received_feedback(2,3) [OF feedback(2)] by (auto simp: input_or_feedback_def)
    next
      case closed
      then have "lv_feedback (view w') \<noteq> []" using some by simp
      from alone [OF this, of "it\<lparr>it_input_receiver := None\<rparr>"] obtain w2 it2 where
        "feedback_alone ops w' (it\<lparr>it_input_receiver := None\<rparr>) = ret (w2, it2)" "received (view w) (it\<lparr>it_input_receiver := None\<rparr>) (view w2) it2"
        "length (lv_input (view w2)) + length (lv_feedback (view w2)) < length (lv_input (view w)) + length (lv_feedback (view w))"
        unfolding closed(3) by blast
      then show ?thesis using Some assms(2) closed(1) received_trans [OF received_closed [OF closed(2), of it]] by (auto simp: input_or_feedback_def)
    qed
  qed
qed

lemma await_input_ok:
  assumes ch: "loop_channels ops view"
  shows "it_feedback_receiver it \<noteq> None \<Longrightarrow> closed_empty (view w) it \<Longrightarrow> input_rest (view w) it \<noteq> []
    \<Longrightarrow> \<exists>w' it'. await_input ops w it = ret (w', it') \<and> received (view w) it (view w') it' \<and> it_input_stash it' \<noteq> []"
proof (induction "length (lv_input (view w)) + length (lv_feedback (view w))" arbitrary: w it rule: less_induct)
  case less
  show ?case
  proof (cases "it_input_stash it = []")
    case True
    then have "lv_feedback (view w) \<noteq> [] \<or> lv_input (view w) \<noteq> []" using less.prems(3) by (auto simp: input_rest_def msg_elems_def)
    from input_or_feedback_ok [OF ch less.prems(1,2) this] obtain w1 it1 where one: "input_or_feedback ops w it = ret (w1, it1)"
      and r1: "received (view w) it (view w1) it1"
      and shorter: "length (lv_input (view w1)) + length (lv_feedback (view w1)) < length (lv_input (view w)) + length (lv_feedback (view w))" by blast
    have "it_feedback_receiver it1 \<noteq> None" and "closed_empty (view w1) it1" and "input_rest (view w1) it1 \<noteq> []"
      using r1 less.prems by (auto simp: received_def iterate_frame_def)
    from less.hyps [OF shorter this] obtain w2 it2 where
      "await_input ops w1 it1 = ret (w2, it2)" "received (view w1) it1 (view w2) it2" "it_input_stash it2 \<noteq> []" by blast
    then show ?thesis using True one received_trans [OF r1] by (subst await_input.simps) auto
  next
    case False
    then show ?thesis by (subst await_input.simps) simp
  qed
qed

lemma feedback_finished_iff:
  assumes "feedback_rest v it = f @ [FlushAndRestart]" and "data_only f" and "list_all (\<lambda>m. nm_data m \<noteq> []) (lv_feedback v)"
  shows "feedback_finished it \<longleftrightarrow> lv_feedback v = []"
proof
  assume "feedback_finished it"
  then obtain g where g: "it_feedback_content it = g @ [FlushAndRestart]"
    by (cases "it_feedback_content it" rule: rev_cases) (auto simp: feedback_finished_def)
  have "FlushAndRestart \<notin> set f" using assms(2) by (auto simp: data_only_def list_all_iff)
  with assms(1) g have "msg_elems (lv_feedback v) = []"
    by (cases "msg_elems (lv_feedback v)" rule: rev_cases) (auto simp: feedback_rest_def)
  with assms(3) show "lv_feedback v = []" by (cases "lv_feedback v") (auto simp: msg_elems_def)
qed (use assms in \<open>simp add: feedback_finished_def feedback_rest_def msg_elems_def\<close>)

lemma await_feedback_ok:
  assumes ch: "loop_channels ops view" and f: "data_only f"
  shows "it_feedback_receiver it \<noteq> None \<Longrightarrow> closed_empty (view w) it \<Longrightarrow> feedback_rest (view w) it = f @ [FlushAndRestart]
    \<Longrightarrow> list_all (\<lambda>m. nm_data m \<noteq> []) (lv_feedback (view w))
    \<Longrightarrow> \<exists>w' it'. await_feedback ops w it = ret (w', it') \<and> received (view w) it (view w') it' \<and> it_feedback_content it' = f @ [FlushAndRestart]"
proof (induction "length (lv_input (view w)) + length (lv_feedback (view w))" arbitrary: w it rule: less_induct)
  case less
  note fin = feedback_finished_iff [OF less.prems(3) f less.prems(4)]
  show ?case
  proof (cases "feedback_finished it")
    case False
    then have "lv_feedback (view w) \<noteq> [] \<or> lv_input (view w) \<noteq> []" using fin by simp
    from input_or_feedback_ok [OF ch less.prems(1,2) this] obtain w1 it1 where one: "input_or_feedback ops w it = ret (w1, it1)"
      and r1: "received (view w) it (view w1) it1"
      and shorter: "length (lv_input (view w1)) + length (lv_feedback (view w1)) < length (lv_input (view w)) + length (lv_feedback (view w))" by blast
    have "it_feedback_receiver it1 \<noteq> None" and "closed_empty (view w1) it1" and "feedback_rest (view w1) it1 = f @ [FlushAndRestart]"
      and "list_all (\<lambda>m. nm_data m \<noteq> []) (lv_feedback (view w1))"
      using r1 less.prems by (auto simp: received_def iterate_frame_def list_all_iff)
    from less.hyps [OF shorter this] obtain w2 it2 where
      "await_feedback ops w1 it1 = ret (w2, it2)" "received (view w1) it1 (view w2) it2" "it_feedback_content it2 = f @ [FlushAndRestart]" by blast
    then show ?thesis using False one received_trans [OF r1] by (subst await_feedback.simps) auto
  next
    case True
    with fin less.prems(3) have "it_feedback_content it = f @ [FlushAndRestart]" by (simp add: feedback_rest_def msg_elems_def)
    with True show ?thesis by (subst await_feedback.simps) simp
  qed
qed

section \<open>The state of the loop\<close>

text \<open>The leader sends its answers one by one, and the markers of its own stream.\<close>

definition leader_message :: "'st state_feedback network_message \<Rightarrow> bool" where
  "leader_message a \<longleftrightarrow> (\<exists>x. nm_data a = [x] \<and> (case x of Item _ \<Rightarrow> True | FlushBatch \<Rightarrow> True | FlushAndRestart \<Rightarrow> True | _ \<Rightarrow> False))"

definition first_round :: "'b list list \<Rightarrow> 'b list" where
  "first_round rs = (case rs of [] \<Rightarrow> [] | r # _ \<Rightarrow> r)"

definition nonempty_messages :: "'a network_message list \<Rightarrow> bool" where
  "nonempty_messages ms \<longleftrightarrow> list_all (\<lambda>m. nm_data m \<noteq> []) ms"

text \<open>What is left: the input, the feedback of this round and of the next ones, the answers; and what was sent.\<close>

definition loop_left :: "('a, 'st) loop_view \<Rightarrow> ('r, 'a) iterate \<Rightarrow> 'a stream_element list \<Rightarrow> 'a stream_element list
    \<Rightarrow> 'a stream_element list list \<Rightarrow> 'st state_feedback list \<Rightarrow> 'a network_message list \<Rightarrow> bool" where
  "loop_left v it input fb rounds fbs sent \<longleftrightarrow> closed_empty v it \<and> input_rest v it = input \<and> feedback_rest v it = fb
     \<and> nonempty_messages (lv_feedback v) \<and> map msg_elems (lv_rounds v) = rounds \<and> list_all nonempty_messages (lv_rounds v)
     \<and> concat (map answer_of (lv_answers v)) = fbs \<and> list_all leader_message (lv_answers v) \<and> lv_sent v = sent"

definition iterate_ready :: "bool \<Rightarrow> ('r, 'a) iterate \<Rightarrow> bool" where
  "iterate_ready ld it \<longleftrightarrow> sh_is_local_leader (it_state it) = ld \<and> it_feedback_receiver it \<noteq> None \<and> it_output_sender it \<noteq> None \<and> sh_new_state_receiver (it_state it) \<noteq> None"

lemma iterate_ready_frame: "iterate_frame it' = iterate_frame it \<Longrightarrow> iterate_ready ld it' = iterate_ready ld it"
  by (simp add: iterate_frame_def iterate_ready_def)

lemma received_left:
  "received v it v' it' \<Longrightarrow> loop_left v it input fb rounds fbs sent \<Longrightarrow> loop_left v' it' input fb rounds fbs sent"
  by (auto simp: received_def loop_left_def view_frame_def nonempty_messages_def list_all_iff)

text \<open>The leader's next message: an answer starts the next round, a marker changes nothing else.\<close>

lemma loop_left_answer:
  assumes "takes_answer a v v'" and "loop_left v it input fb rounds fbs sent" and "it_feedback_content it = []"
  shows "leader_message a" and "length (lv_answers v') < length (lv_answers v)" and "lv_input v' = lv_input v"
    and "answer_of a = [] \<Longrightarrow> loop_left v' it input fb rounds fbs sent"
    and "answer_of a = [x] \<Longrightarrow> x = hd fbs \<and> loop_left v' it input (first_round rounds) (tl rounds) (tl fbs) sent"
proof -
  from assms(1) obtain as where as: "lv_answers v = a # as" "v' = answered a as v" by (auto simp: takes_answer_def)
  show lm: "leader_message a" using assms(2) as(1) by (simp add: loop_left_def)
  show "length (lv_answers v') < length (lv_answers v)" and "lv_input v' = lv_input v" using as by (simp_all add: answered_def)
  show "loop_left v' it input fb rounds fbs sent" if "answer_of a = []"
    using assms(2) as that by (simp add: loop_left_def answered_def closed_empty_def input_rest_def feedback_rest_def)
  show "x = hd fbs \<and> loop_left v' it input (first_round rounds) (tl rounds) (tl fbs) sent" if "answer_of a = [x]"
  proof -
    have "v' = v\<lparr>lv_answers := as, lv_feedback := (case lv_rounds v of [] \<Rightarrow> [] | r # _ \<Rightarrow> r), lv_rounds := tl (lv_rounds v)\<rparr>"
      using as(2) that by (simp add: answered_def)
    then show ?thesis using assms(2,3) as(1) that
      by (cases "lv_rounds v") (auto simp: loop_left_def closed_empty_def input_rest_def feedback_rest_def first_round_def msg_elems_def nonempty_messages_def)
  qed
qed

lemma iterate_wait_update_ok:
  fixes it :: "('r, 'a) iterate" and ops :: "('w, 'a, 'st) loop_ops"
  assumes ch: "loop_channels ops view"
  shows "loop_left (view w) it input fb rounds (u # fbs) sent \<Longrightarrow> iterate_ready ld it \<Longrightarrow> it_feedback_content it = []
    \<Longrightarrow> \<exists>w' it'. iterate_wait_update ops w it = ret (u, w', it') \<and> iterate_frame it' = iterate_frame it
          \<and> loop_left (view w') it' input (first_round rounds) (tl rounds) fbs sent \<and> it_feedback_content it' = []"
proof (induction "length (lv_input (view w)) + length (lv_answers (view w)) + (if it_input_receiver it = None then 0 else 1)"
    arbitrary: w it rule: less_induct)
  case less
  let ?goal = "\<lambda>r. \<exists>w' it'. r = ret (u, w', it') \<and> iterate_frame it' = iterate_frame it
          \<and> loop_left (view w') it' input (first_round rounds) (tl rounds) fbs sent \<and> it_feedback_content it' = []"
  have some: "lv_answers (view w) \<noteq> []" using less.prems(1) by (auto simp: loop_left_def)
  obtain sr where sr: "sh_new_state_receiver (it_state it) = Some sr" using less.prems(2) by (auto simp: iterate_ready_def)
  have answer: "?goal (if num_items a = 1 then
                  (case nm_data a ! 0 of
                     Item fb \<Rightarrow> ret (fb, w1, it)
                   | FlushBatch \<Rightarrow> iterate_wait_update ops w1 it
                   | FlushAndRestart \<Rightarrow> iterate_wait_update ops w1 it
                   | _ \<Rightarrow> panic Unreachable)
                else panic AssertFailed)" if a: "takes_answer a (view w) (view w1)" for a w1
  proof -
    note la = loop_left_answer [OF a less.prems(1,3)]
    from la(1) obtain x where x: "nm_data a = [x]" "(case x of Item _ \<Rightarrow> True | FlushBatch \<Rightarrow> True | FlushAndRestart \<Rightarrow> True | _ \<Rightarrow> False)"
      by (auto simp: leader_message_def)
    show ?thesis
    proof (cases "answer_of a = []")
      case True
      with x have "x = FlushBatch \<or> x = FlushAndRestart" by (cases x) (simp_all add: answer_of_def)
      moreover have "?goal (iterate_wait_update ops w1 it)"
        by (rule less.hyps) (use la(2,3) la(4) [OF True] less.prems(2,3) in simp_all)
      ultimately show ?thesis using x(1) by (auto simp: num_items_def)
    next
      case False
      with x have "\<exists>y. x = Item y" by (cases x) (simp_all add: answer_of_def)
      then obtain y where y: "x = Item y" "answer_of a = [y]" using x(1) by (auto simp: answer_of_def)
      from la(5) [OF y(2)] x(1) y(1) less.prems(3) show ?thesis by (auto simp: num_items_def)
    qed
  qed
  have again: "?goal (iterate_wait_update ops w1 it1)"
    if "received (view w) it (view w1) it1" and "it_feedback_content it1 = []"
      and "length (lv_input (view w1)) + (if it_input_receiver it1 = None then 0 else 1) < length (lv_input (view w)) + (if it_input_receiver it = None then 0 else 1)"
    for w1 it1
  proof -
    have fr: "iterate_frame it1 = iterate_frame it" and "lv_answers (view w1) = lv_answers (view w)" using that(1) by (simp_all add: received_def view_frame_def)
    have "\<exists>w' it'. iterate_wait_update ops w1 it1 = ret (u, w', it') \<and> iterate_frame it' = iterate_frame it1
          \<and> loop_left (view w') it' input (first_round rounds) (tl rounds) fbs sent \<and> it_feedback_content it' = []"
    proof (rule less.hyps)
      show "loop_left (view w1) it1 input fb rounds (u # fbs) sent" by (rule received_left [OF that(1) less.prems(1)])
      show "iterate_ready ld it1" using less.prems(2) iterate_ready_frame [OF fr] by simp
    qed (use that(2,3) \<open>lv_answers (view w1) = lv_answers (view w)\<close> in simp_all)
    then show ?thesis using fr by simp
  qed
  show ?case
  proof (cases "it_input_receiver it")
    case None
    from loop_channels_laws(4) [OF ch some] obtain a w1 where "lo_state ops w = ret (Inr a, w1)" "takes_answer a (view w) (view w1)" by blast
    then show ?thesis using answer [of a w1] None sr by (subst iterate_wait_update.simps) (simp add: unwrap_recv_def)
  next
    case (Some rx)
    from loop_channels_laws(5) [OF ch some] consider
        (state) a w' where "lo_select_state ops w = ret (SelectA (Inr a), w')" "takes_answer a (view w) (view w')"
      | (input) m w' where "lo_select_state ops w = ret (SelectB (Inr m), w')" "takes_input m (view w) (view w')"
      | (closed) e w' where "lo_select_state ops w = ret (SelectB (Inl e), w')" "lv_input (view w) = []" "view w' = view w"
      by blast
    then show ?thesis
    proof cases
      case state
      then show ?thesis using answer [OF state(2)] Some sr by (subst iterate_wait_update.simps) simp
    next
      case input
      have "it_input_receiver it \<noteq> None" using Some by simp
      note ri = received_input [OF input(2) this]
      have "?goal (iterate_wait_update ops w' (it\<lparr>it_input_stash := it_input_stash it @ nm_data m\<rparr>))"
        by (rule again [OF ri(1)]) (use ri(2) less.prems(3) Some in simp_all)
      then show ?thesis using input(1) Some sr by (subst iterate_wait_update.simps) simp
    next
      case closed
      have "?goal (iterate_wait_update ops w' (it\<lparr>it_input_receiver := None\<rparr>))"
        by (rule again) (use received_closed [OF closed(2), of it] closed(3) less.prems(3) Some in simp_all)
      then show ?thesis using closed(1) Some sr by (subst iterate_wait_update.simps) simp
    qed
  qed
qed

section \<open>One call of next\<close>

lemma loop_left_ready:
  assumes "received v it v' it'" and "loop_left v it input fb rounds fbs sent" and "iterate_ready ld it"
  shows "loop_left v' it' input fb rounds fbs sent" and "iterate_ready ld it'" and "it_coord it' = it_coord it" and "it_content it' = it_content it"
    and "it_input_finished it' = it_input_finished it" and "it_feedback_receiver it' \<noteq> None" and "closed_empty v' it'" and "it_state it' = it_state it"
proof -
  have fr: "iterate_frame it' = iterate_frame it" using assms(1) by (simp add: received_def)
  show "loop_left v' it' input fb rounds fbs sent" by (rule received_left [OF assms(1,2)])
  then show "closed_empty v' it'" by (simp add: loop_left_def)
  show "iterate_ready ld it'" using assms(3) iterate_ready_frame [OF fr] by simp
  then show "it_feedback_receiver it' \<noteq> None" by (simp add: iterate_ready_def)
qed (use assms(1) in \<open>simp_all add: received_def iterate_frame_def\<close>)

text \<open>While the input lasts: its next element, wherever the feedback is.\<close>

lemma iterate_next_input:
  assumes ch: "loop_channels ops view" and left: "loop_left (view w) it (e # input) fb rounds fbs sent"
    and ready: "iterate_ready ld it" and "\<not> it_input_finished it"
  shows "\<exists>w' h' it'. iterate_next bw ops (w, h, it) = ret (e, (w', h', it'))
     \<and> loop_left (view w') it' input fb rounds fbs (sent @ (if e = Terminate then [new_single Terminate (it_coord it)] else []))
     \<and> iterate_ready ld it' \<and> it_coord it' = it_coord it \<and> it_content it' = it_content it \<and> (it_input_finished it' \<longleftrightarrow> e = FlushAndRestart)
     \<and> (e = FlushAndRestart \<longrightarrow> odd (hs_generation h'))"
proof -
  from drain_feedback_ok [OF ch, of w it] obtain w1 it1 where
    one: "drain_feedback ops w it = ret (w1, it1)" "received (view w) it (view w1) it1" by blast
  note l1 = loop_left_ready [OF one(2) left ready]
  have "input_rest (view w1) it1 \<noteq> []" using l1(1) by (simp add: loop_left_def)
  from await_input_ok [OF ch l1(6,7) this] obtain w2 it2 where
    two: "await_input ops w1 it1 = ret (w2, it2)" "received (view w1) it1 (view w2) it2" "it_input_stash it2 \<noteq> []" by blast
  note l2 = loop_left_ready [OF two(2) l1(1,2)]
  obtain rest where stash: "it_input_stash it2 = e # rest" using two(3) l2(1)
    by (cases "it_input_stash it2") (auto simp: loop_left_def input_rest_def)
  have sender: "it_output_sender it2 \<noteq> None" using l2(2) by (simp add: iterate_ready_def)
  let ?it = "it2\<lparr>it_input_stash := rest\<rparr>"
  have left': "loop_left (view w2) ?it input fb rounds fbs sent" and ready': "iterate_ready ld ?it"
    using l2(1,2) stash by (simp_all add: loop_left_def input_rest_def feedback_rest_def closed_empty_def iterate_ready_def)
  have "\<exists>w' h' it'. next_input ops (w2, h, it2) = ret (Some e, (w', h', it'))
     \<and> loop_left (view w') it' input fb rounds fbs (sent @ (if e = Terminate then [new_single Terminate (it_coord it)] else []))
     \<and> iterate_ready ld it' \<and> it_coord it' = it_coord it \<and> it_content it' = it_content it \<and> (it_input_finished it' \<longleftrightarrow> e = FlushAndRestart)
     \<and> (e = FlushAndRestart \<longrightarrow> odd (hs_generation h'))"
  proof (cases "e = Terminate")
    case True
    from loop_channels_laws(6) [OF ch, of "new_single Terminate (it_coord it2)" w2] obtain w3 where
      "lo_output ops (new_single Terminate (it_coord it2)) w2 = Some w3"
      "view w3 = (view w2)\<lparr>lv_sent := lv_sent (view w2) @ [new_single Terminate (it_coord it2)]\<rparr>" by blast
    then show ?thesis using True stash sender left' ready' l1(3-5) l2(3-5) assms(4)
      by (auto simp: next_input_def Let_def send_output_def loop_left_def input_rest_def feedback_rest_def closed_empty_def)
  next
    case False
    then show ?thesis using stash left' ready' l1(3-5) l2(3-5) assms(4)
      by (cases e) (auto simp: next_input_def Let_def iterate_ready_def loop_left_def input_rest_def feedback_rest_def closed_empty_def)
  qed
  moreover have "it_feedback_receiver it \<noteq> None" using ready by (simp add: iterate_ready_def)
  ultimately show ?thesis using one(1) two(1) l1(5) assms(4) by (subst iterate_next.simps) auto
qed

text \<open>The feedback of the last round: its next element.\<close>

lemma iterate_next_stored:
  assumes ch: "loop_channels ops view" and left: "loop_left (view w) it input fb rounds fbs sent"
    and ready: "iterate_ready ld it" and "it_input_finished it" and "it_content it = e # c"
  shows "\<exists>w' h' it'. iterate_next bw ops (w, h, it) = ret (e, (w', h', it')) \<and> loop_left (view w') it' input fb rounds fbs sent
     \<and> iterate_ready ld it' \<and> it_coord it' = it_coord it \<and> it_content it' = c \<and> it_input_finished it'
     \<and> (e = FlushAndRestart \<longrightarrow> odd (hs_generation h'))"
proof -
  from drain_feedback_ok [OF ch, of w it] obtain w1 it1 where
    one: "drain_feedback ops w it = ret (w1, it1)" "received (view w) it (view w1) it1" by blast
  note l1 = loop_left_ready [OF one(2) left ready]
  have "loop_left (view w1) (it1\<lparr>it_content := c\<rparr>) input fb rounds fbs sent" and "iterate_ready ld (it1\<lparr>it_content := c\<rparr>)"
    using l1(1,2) by (simp_all add: loop_left_def input_rest_def feedback_rest_def closed_empty_def iterate_ready_def)
  moreover have "it_feedback_receiver it \<noteq> None" using ready by (simp add: iterate_ready_def)
  ultimately show ?thesis using one(1) l1(3-5) assms(4,5) by (subst iterate_next.simps) (auto simp: next_stored_def)
qed

text \<open>At the end of a round: the rest of the feedback, the answer of the leader, and the next round or the output.\<close>

definition round_left :: "bool \<Rightarrow> ('a, 'st) loop_view \<Rightarrow> ('r, 'a) iterate \<Rightarrow> 'a stream_element list
    \<Rightarrow> 'a stream_element list list \<Rightarrow> 'st state_feedback list \<Rightarrow> 'a network_message list \<Rightarrow> bool" where
  "round_left ld v it input rounds fbs sent \<longleftrightarrow> loop_left v it input (first_round rounds) (tl rounds) fbs sent \<and> iterate_ready ld it"

lemma iterate_next_answer:
  assumes ch: "loop_channels ops view" and left: "round_left ld (view w) it input ((f @ [FlushAndRestart]) # rounds) ((res, st) # fbs) sent"
    and fin: "it_input_finished it" and empty: "it_content it = []" and f: "data_only f"
    and bw: "barrier_keeps_lock ld bw" and lock: "odd (hs_generation h)"
  shows "\<exists>w' h' it'. iterate_next bw ops (w, h, it) = iterate_next bw ops (w', h', it') \<and> it_coord it' = it_coord it
     \<and> (case res of
          Continue \<Rightarrow> round_left ld (view w') it' input rounds fbs sent \<and> it_input_finished it' \<and> it_content it' = f @ [FlushAndRestart]
        | Finished \<Rightarrow> round_left ld (view w') it' input rounds fbs (sent @ [new_batch (f @ [FlushAndRestart]) (it_coord it)])
                      \<and> \<not> it_input_finished it' \<and> it_content it' = [])"
proof -
  have left0: "loop_left (view w) it input (f @ [FlushAndRestart]) rounds ((res, st) # fbs) sent" and ready: "iterate_ready ld it"
    using left by (simp_all add: round_left_def first_round_def)
  from drain_feedback_ok [OF ch, of w it] obtain w1 it1 where
    one: "drain_feedback ops w it = ret (w1, it1)" "received (view w) it (view w1) it1" by blast
  note l1 = loop_left_ready [OF one(2) left0 ready]
  have "feedback_rest (view w1) it1 = f @ [FlushAndRestart]" and "list_all (\<lambda>m. nm_data m \<noteq> []) (lv_feedback (view w1))"
    using l1(1) by (simp_all add: loop_left_def nonempty_messages_def)
  from await_feedback_ok [OF ch f l1(6,7) this] obtain w2 it2 where two: "await_feedback ops w1 it1 = ret (w2, it2)"
    "received (view w1) it1 (view w2) it2" "it_feedback_content it2 = f @ [FlushAndRestart]" by blast
  note l2 = loop_left_ready [OF two(2) l1(1,2)]
  let ?it3 = "it2\<lparr>it_content := f @ [FlushAndRestart], it_feedback_content := []\<rparr>"
  have "loop_left (view w2) ?it3 input (feedback_rest (view w2) ?it3) rounds ((res, st) # fbs) sent" and "iterate_ready ld ?it3"
    using l2(1,2) by (simp_all add: loop_left_def input_rest_def closed_empty_def iterate_ready_def)
  from iterate_wait_update_ok [OF ch this] obtain w4 it4 where four: "iterate_wait_update ops w2 ?it3 = ret ((res, st), w4, it4)"
    "iterate_frame it4 = iterate_frame ?it3" "loop_left (view w4) it4 input (first_round rounds) (tl rounds) fbs sent" by auto
  have it4: "it_content it4 = f @ [FlushAndRestart]" "it_coord it4 = it_coord it" "it_input_finished it4" "iterate_ready ld it4"
    using four(2) l1(3,5) l2(3,5) fin iterate_ready_frame [OF four(2)] \<open>iterate_ready ld ?it3\<close> by (simp_all add: iterate_frame_def)
  have "barrier_keeps_lock (sh_is_local_leader (it_state it4)) bw" using bw it4(4) by (simp add: iterate_ready_def)
  from wait_sync_state_ok [OF this lock, of res st] obtain h4 where h4: "wait_sync_state bw (res, st) (it_state it4) h = ret (res, h4)" by blast
  have "it_feedback_receiver it \<noteq> None" using ready by (simp add: iterate_ready_def)
  then have step: "iterate_next bw ops (w, h, it) = (case res of
      Finished \<Rightarrow> bindR (send_output ops (new_batch (it_content it4) (it_coord it4)) (it4\<lparr>it_input_finished := False, it_content := []\<rparr>) w4)
                    (\<lambda>w. iterate_next bw ops (w, h4, it4\<lparr>it_input_finished := False, it_content := []\<rparr>))
    | Continue \<Rightarrow> iterate_next bw ops (w4, h4, it4))"
    using one(1) two(1,3) l1(4,5) l2(4) fin empty four(1) h4 by (subst iterate_next.simps) (auto simp: assertR_def Let_def split: iteration_result.split)
  show ?thesis
  proof (cases res)
    case Continue
    with step it4 four(3) show ?thesis by (auto simp: round_left_def)
  next
    case Finished
    let ?m = "new_batch (f @ [FlushAndRestart]) (it_coord it)"
    let ?it5 = "it4\<lparr>it_input_finished := False, it_content := []\<rparr>"
    from loop_channels_laws(6) [OF ch, of ?m w4] obtain w5 where w5: "lo_output ops ?m w4 = Some w5"
      "view w5 = (view w4)\<lparr>lv_sent := lv_sent (view w4) @ [?m]\<rparr>" by blast
    have "it_output_sender it4 \<noteq> None" using it4(4) by (simp add: iterate_ready_def)
    with Finished step it4 w5(1) have "iterate_next bw ops (w, h, it) = iterate_next bw ops (w5, h4, ?it5)"
      by (auto simp: send_output_def)
    moreover have "round_left ld (view w5) ?it5 input rounds fbs (sent @ [?m])"
      using four(3) it4(4) w5(2) by (simp add: round_left_def loop_left_def input_rest_def feedback_rest_def closed_empty_def iterate_ready_def)
    ultimately show ?thesis using Finished it4(2) by (intro exI [of _ w5] exI [of _ h4] exI [of _ ?it5]) simp
  qed
qed

section \<open>The rounds of a run\<close>

definition round_ended :: "bool \<Rightarrow> ('a, 'st) loop_view \<Rightarrow> 'st host_state \<Rightarrow> ('r, 'a) iterate \<Rightarrow> coord \<Rightarrow> 'a stream_element list
    \<Rightarrow> 'a stream_element list list \<Rightarrow> 'st state_feedback list \<Rightarrow> 'a network_message list \<Rightarrow> bool" where
  "round_ended ld v h it c input rounds fbs sent \<longleftrightarrow> round_left ld v it input rounds fbs sent \<and> it_input_finished it \<and> it_content it = []
     \<and> odd (hs_generation h) \<and> it_coord it = c"

definition run_starts :: "bool \<Rightarrow> ('a, 'st) loop_view \<Rightarrow> ('r, 'a) iterate \<Rightarrow> coord \<Rightarrow> 'a stream_element list
    \<Rightarrow> 'a stream_element list list \<Rightarrow> 'st state_feedback list \<Rightarrow> 'a network_message list \<Rightarrow> bool" where
  "run_starts ld v it c input rounds fbs sent \<longleftrightarrow> round_left ld v it input rounds fbs sent \<and> \<not> it_input_finished it \<and> it_content it = []
     \<and> it_coord it = c"

lemma iterate_input_run:
  assumes ch: "loop_channels ops view" and "data_only seg" and "run_starts ld (view w) it c (seg @ FlushAndRestart # input) rounds fbs sent"
  shows "\<exists>w' h' it'. pulls (iterate_next bw ops) (w, h, it) (seg @ [FlushAndRestart]) (w', h', it')
     \<and> round_ended ld (view w') h' it' c input rounds fbs sent"
  using assms(2,3)
proof (induction seg arbitrary: w h it)
  case Nil
  then have left: "loop_left (view w) it (FlushAndRestart # input) (first_round rounds) (tl rounds) fbs sent"
    and ready: "iterate_ready ld it" and fin: "\<not> it_input_finished it" by (simp_all add: run_starts_def round_left_def)
  from iterate_next_input [OF ch left ready fin, of bw h] Nil show ?case
    by (auto simp: round_ended_def run_starts_def round_left_def pulls_Cons_iff)
next
  case (Cons e seg)
  from Cons.prems have left: "loop_left (view w) it (e # seg @ FlushAndRestart # input) (first_round rounds) (tl rounds) fbs sent"
    and ready: "iterate_ready ld it" and fin: "\<not> it_input_finished it" by (simp_all add: run_starts_def round_left_def)
  from Cons.prems(1) have e: "e \<noteq> FlushAndRestart" "e \<noteq> Terminate" and seg: "data_only seg" by auto
  from iterate_next_input [OF ch left ready fin, of bw h] e obtain w1 h1 it1 where
    one: "iterate_next bw ops (w, h, it) = ret (e, (w1, h1, it1))"
    and left1: "loop_left (view w1) it1 (seg @ FlushAndRestart # input) (first_round rounds) (tl rounds) fbs sent"
    and it1: "iterate_ready ld it1" "it_coord it1 = it_coord it" "it_content it1 = it_content it" "\<not> it_input_finished it1" by auto
  have "run_starts ld (view w1) it1 c (seg @ FlushAndRestart # input) rounds fbs sent"
    using left1 it1 Cons.prems(2) by (simp add: run_starts_def round_left_def)
  from Cons.IH [OF seg this, of h1] one show ?case by (auto simp: pulls_Cons_iff)
qed

lemma iterate_stored_run:
  assumes ch: "loop_channels ops view" and "data_only f" and "round_left ld (view w) it input rounds fbs sent"
    and "it_input_finished it" and "it_content it = f @ [FlushAndRestart]"
  shows "\<exists>w' h' it'. pulls (iterate_next bw ops) (w, h, it) (f @ [FlushAndRestart]) (w', h', it')
     \<and> round_ended ld (view w') h' it' (it_coord it) input rounds fbs sent"
  using assms(2-)
proof (induction f arbitrary: w h it)
  case Nil
  then have left: "loop_left (view w) it input (first_round rounds) (tl rounds) fbs sent" and ready: "iterate_ready ld it"
    and c: "it_content it = FlushAndRestart # []" by (simp_all add: round_left_def)
  from iterate_next_stored [OF ch left ready Nil.prems(3) c, of bw h] show ?case
    by (auto simp: round_ended_def round_left_def pulls_Cons_iff)
next
  case (Cons e f)
  then have left: "loop_left (view w) it input (first_round rounds) (tl rounds) fbs sent" and ready: "iterate_ready ld it"
    and c: "it_content it = e # (f @ [FlushAndRestart])" by (simp_all add: round_left_def)
  from iterate_next_stored [OF ch left ready Cons.prems(3) c, of bw h] obtain w1 h1 it1 where
    one: "iterate_next bw ops (w, h, it) = ret (e, (w1, h1, it1))"
    and left1: "round_left ld (view w1) it1 input rounds fbs sent" and it1: "it_input_finished it1" "it_content it1 = f @ [FlushAndRestart]"
    and coord: "it_coord it1 = it_coord it" by (auto simp: round_left_def)
  have "data_only f" using Cons.prems(1) by simp
  from Cons.IH [OF this left1 it1, of h1] one coord show ?case by (auto simp: pulls_Cons_iff)
qed

lemma iterate_rounds:
  assumes ch: "loop_channels ops view" and bw: "barrier_keeps_lock ld bw"
  shows "round_ended ld (view w) h it c input (map (\<lambda>f. f @ [FlushAndRestart]) fs @ rounds) (fbs1 @ fbs) sent
    \<Longrightarrow> map fst fbs1 = replicate (length fs) Continue \<Longrightarrow> list_all data_only fs
    \<Longrightarrow> \<exists>w' h' it'. pulls (iterate_next bw ops) (w, h, it) (concat (map (\<lambda>f. f @ [FlushAndRestart]) fs)) (w', h', it')
         \<and> round_ended ld (view w') h' it' c input rounds fbs sent"
proof (induction fs arbitrary: w h it fbs1)
  case (Cons f fs)
  from Cons.prems(2) obtain st fbs2 where fbs1: "fbs1 = (Continue, st) # fbs2" "map fst fbs2 = replicate (length fs) Continue" by (cases fbs1) auto
  let ?rounds = "map (\<lambda>f. f @ [FlushAndRestart]) fs @ rounds"
  have left: "round_left ld (view w) it input ((f @ [FlushAndRestart]) # ?rounds) ((Continue, st) # (fbs2 @ fbs)) sent"
    and fin: "it_input_finished it" and empty: "it_content it = []" and lock: "odd (hs_generation h)" and c: "it_coord it = c"
    using Cons.prems(1) fbs1(1) by (simp_all add: round_ended_def)
  from Cons.prems(3) have f: "data_only f" and fs: "list_all data_only fs" by simp_all
  from iterate_next_answer [OF ch left fin empty f bw lock] obtain w1 h1 it1 where
    answer: "iterate_next bw ops (w, h, it) = iterate_next bw ops (w1, h1, it1)" and c1: "it_coord it1 = it_coord it"
    and left1: "round_left ld (view w1) it1 input ?rounds (fbs2 @ fbs) sent" and it1: "it_input_finished it1" "it_content it1 = f @ [FlushAndRestart]"
    by auto
  from iterate_stored_run [OF ch f left1 it1, of bw h1] obtain w2 h2 it2 where
    run: "pulls (iterate_next bw ops) (w1, h1, it1) (f @ [FlushAndRestart]) (w2, h2, it2)"
    and ended: "round_ended ld (view w2) h2 it2 c input ?rounds (fbs2 @ fbs) sent" unfolding c1 c by blast
  from Cons.IH [OF ended fbs1(2) fs] obtain w3 h3 it3 where
    rest: "pulls (iterate_next bw ops) (w2, h2, it2) (concat (map (\<lambda>f. f @ [FlushAndRestart]) fs)) (w3, h3, it3)"
    and ended3: "round_ended ld (view w3) h3 it3 c input rounds fbs sent" by blast
  have "pulls (iterate_next bw ops) (w, h, it) (f @ [FlushAndRestart]) (w2, h2, it2)"
    using run by (subst pulls_start_cong [OF answer]) simp_all
  from pulls_appendI [OF this rest] ended3 show ?case by auto
qed auto

text \<open>A run of the loop: its input, the rounds the body returns to be iterated again, and the one that leaves the loop.\<close>

record 'a loop_run =
  run_input :: "'a stream_element list"
  run_rounds :: "'a stream_element list list"
  run_output :: "'a stream_element list"

definition run_ok :: "'a loop_run \<Rightarrow> bool" where
  "run_ok r \<longleftrightarrow> data_only (run_input r) \<and> list_all data_only (run_rounds r) \<and> data_only (run_output r)"

definition run_feedback :: "'a loop_run \<Rightarrow> 'a stream_element list list" where
  "run_feedback r = map (\<lambda>f. f @ [FlushAndRestart]) (run_rounds r @ [run_output r])"

definition run_answers :: "'a loop_run \<Rightarrow> iteration_result list" where
  "run_answers r = replicate (length (run_rounds r)) Continue @ [Finished]"

lemma iterate_run:
  assumes ch: "loop_channels ops view" and bw: "barrier_keeps_lock ld bw" and ok: "run_ok r"
    and start: "run_starts ld (view w) it c (run_input r @ FlushAndRestart # input) (run_feedback r @ rounds) (fbs1 @ fbs) sent"
    and fbs1: "map fst fbs1 = run_answers r"
  shows "\<exists>st1 w' h' it'. pulls (iterate_next bw ops) (w, h, it) (concat (map (\<lambda>f. f @ [FlushAndRestart]) (run_input r # run_rounds r))) st1
     \<and> iterate_next bw ops st1 = iterate_next bw ops (w', h', it')
     \<and> run_starts ld (view w') it' c input rounds fbs (sent @ [new_batch (run_output r @ [FlushAndRestart]) c])"
proof -
  from fbs1 obtain fbs2 st where fbs2: "fbs1 = fbs2 @ [(Finished, st)]" "map fst fbs2 = replicate (length (run_rounds r)) Continue"
    by (cases fbs1 rule: rev_cases) (auto simp: run_answers_def)
  have seg: "data_only (run_input r)" and fs: "list_all data_only (run_rounds r)" and out: "data_only (run_output r)" using ok by (simp_all add: run_ok_def)
  let ?last = "run_output r @ [FlushAndRestart]"
  from iterate_input_run [OF ch seg start, of bw h] obtain w1 h1 it1 where
    first: "pulls (iterate_next bw ops) (w, h, it) (run_input r @ [FlushAndRestart]) (w1, h1, it1)"
    and ended: "round_ended ld (view w1) h1 it1 c input (map (\<lambda>f. f @ [FlushAndRestart]) (run_rounds r) @ (?last # rounds)) (fbs2 @ ((Finished, st) # fbs)) sent"
    by (auto simp: run_feedback_def fbs2(1))
  from iterate_rounds [OF ch bw ended fbs2(2) fs] obtain w2 h2 it2 where
    again: "pulls (iterate_next bw ops) (w1, h1, it1) (concat (map (\<lambda>f. f @ [FlushAndRestart]) (run_rounds r))) (w2, h2, it2)"
    and ended2: "round_ended ld (view w2) h2 it2 c input (?last # rounds) ((Finished, st) # fbs) sent" by blast
  then have left: "round_left ld (view w2) it2 input (?last # rounds) ((Finished, st) # fbs) sent" and fin: "it_input_finished it2"
    and empty: "it_content it2 = []" and lock: "odd (hs_generation h2)" and c: "it_coord it2 = c" by (simp_all add: round_ended_def)
  from iterate_next_answer [OF ch left fin empty out bw lock] obtain w3 h3 it3 where
    "iterate_next bw ops (w2, h2, it2) = iterate_next bw ops (w3, h3, it3)"
    and "run_starts ld (view w3) it3 c input rounds fbs (sent @ [new_batch ?last c])" by (auto simp: run_starts_def c)
  moreover from pulls_appendI [OF first again]
  have "pulls (iterate_next bw ops) (w, h, it) (concat (map (\<lambda>f. f @ [FlushAndRestart]) (run_input r # run_rounds r))) (w2, h2, it2)" by simp
  ultimately show ?thesis by blast
qed

definition loop_outputs :: "coord \<Rightarrow> 'a loop_run list \<Rightarrow> 'a network_message list" where
  "loop_outputs c runs = map (\<lambda>r. new_batch (run_output r @ [FlushAndRestart]) c) runs @ [new_single Terminate c]"

lemma iterate_stream:
  assumes ch: "loop_channels ops view" and bw: "barrier_keeps_lock ld bw"
  shows "list_all run_ok runs
    \<Longrightarrow> run_starts ld (view w) it c (unsegment (map run_input runs)) (concat (map run_feedback runs)) fbs sent
    \<Longrightarrow> map fst fbs = concat (map run_answers runs)
    \<Longrightarrow> \<exists>w' h' it'. pulls (iterate_next bw ops) (w, h, it) (unsegment (concat (map (\<lambda>r. run_input r # run_rounds r) runs))) (w', h', it')
         \<and> lv_sent (view w') = sent @ loop_outputs c runs"
proof (induction runs arbitrary: w h it fbs sent)
  case Nil
  then have left: "loop_left (view w) it (Terminate # []) [] [] fbs sent" and ready: "iterate_ready ld it"
    and fin: "\<not> it_input_finished it" and c: "it_coord it = c"
    by (simp_all add: run_starts_def round_left_def unsegment_def first_round_def)
  from iterate_next_input [OF ch left ready fin, of bw h] c show ?case
    by (auto simp: unsegment_def loop_outputs_def loop_left_def)
next
  case (Cons r runs)
  have "\<exists>fbs1 fbs2. fbs = fbs1 @ fbs2 \<and> run_answers r = map fst fbs1 \<and> concat (map run_answers runs) = map fst fbs2"
    using Cons.prems(3) by (subst map_eq_append_conv [symmetric]) simp
  then obtain fbs1 fbs2 where fbs: "fbs = fbs1 @ fbs2" "map fst fbs1 = run_answers r" "map fst fbs2 = concat (map run_answers runs)" by metis
  from Cons.prems(1) have r: "run_ok r" and runs: "list_all run_ok runs" by simp_all
  have start: "run_starts ld (view w) it c (run_input r @ FlushAndRestart # unsegment (map run_input runs)) (run_feedback r @ concat (map run_feedback runs)) (fbs1 @ fbs2) sent"
    using Cons.prems(2) fbs(1) by (simp add: unsegment_Cons)
  from iterate_run [OF ch bw r start fbs(2), of h] obtain st1 w1 h1 it1 where
    run: "pulls (iterate_next bw ops) (w, h, it) (concat (map (\<lambda>f. f @ [FlushAndRestart]) (run_input r # run_rounds r))) st1"
    and answer: "iterate_next bw ops st1 = iterate_next bw ops (w1, h1, it1)"
    and start1: "run_starts ld (view w1) it1 c (unsegment (map run_input runs)) (concat (map run_feedback runs)) fbs2
       (sent @ [new_batch (run_output r @ [FlushAndRestart]) c])" by blast
  from Cons.IH [OF runs start1 fbs(3), of h1] obtain w2 h2 it2 where
    rest: "pulls (iterate_next bw ops) (w1, h1, it1) (unsegment (concat (map (\<lambda>r. run_input r # run_rounds r) runs))) (w2, h2, it2)"
    and sent: "lv_sent (view w2) = (sent @ [new_batch (run_output r @ [FlushAndRestart]) c]) @ loop_outputs c runs" by blast
  have "pulls (iterate_next bw ops) st1 (unsegment (concat (map (\<lambda>r. run_input r # run_rounds r) runs))) (w2, h2, it2)"
    using rest by (subst pulls_start_cong [OF answer]) (simp_all add: unsegment_def)
  from pulls_appendI [OF run this] sent show ?case
    by (intro exI [of _ w2] exI [of _ h2] exI [of _ it2]) (simp add: unsegment_def loop_outputs_def)
qed

section \<open>The whole stream\<close>

text \<open>The operator after \<^verbatim>\<open>setup\<close>.\<close>

definition iterate_fresh :: "('r, 'a) iterate \<Rightarrow> bool" where
  "iterate_fresh it \<longleftrightarrow> iterate_ready (sh_is_local_leader (it_state it)) it \<and> it_input_receiver it \<noteq> None \<and> it_content it = [] \<and> it_input_stash it = []
     \<and> it_feedback_content it = [] \<and> \<not> it_input_finished it"

lemma iterate_setup_fresh:
  assumes "iterate_setup ty state_ty coord replicas tp (iterate_new input_block leader_block feedback_block output_block) = ret (it, tp')"
  shows "iterate_fresh it \<and> it_coord it = coord"
  using assms by (auto simp: iterate_setup_def iterate_new_def iterate_fresh_def iterate_ready_def Let_def handler_setup_def bindR_eq_ret split: prod.splits)

text \<open>
  C25: The iterative loop feeds its body exactly what it should. Whatever the order in which the messages of the input, of the
  feedback and of the leader arrive, each run of the loop passes its input on once, then every round the body returned that the
  leader answers with \<^verbatim>\<open>Continue\<close>; the round answered with \<^verbatim>\<open>Finished\<close> goes to the block behind the loop as
  one message. No element of a later run is lost or mixed in, every call returns, and the end of the stream is passed to both sides.
\<close>

theorem iterate_loops:
  assumes "loop_channels ops view" and "barrier_keeps_lock (sh_is_local_leader (it_state it)) bw" and "iterate_fresh it" and "runs \<noteq> []" and "list_all run_ok runs"
    and "msg_elems (lv_input (view w)) = unsegment (map run_input runs)"
    and "map msg_elems (lv_feedback (view w) # lv_rounds (view w)) = concat (map run_feedback runs)"
    and "list_all nonempty_messages (lv_feedback (view w) # lv_rounds (view w))"
    and "list_all leader_message (lv_answers (view w))"
    and "map fst (concat (map answer_of (lv_answers (view w)))) = concat (map run_answers runs)"
  shows "\<exists>w' h' it'. pulls (iterate_next bw ops) (w, h, it) (unsegment (concat (map (\<lambda>r. run_input r # run_rounds r) runs))) (w', h', it')
     \<and> lv_sent (view w') = lv_sent (view w) @ loop_outputs (it_coord it) runs"
proof (rule iterate_stream [OF assms(1,2,5) _ assms(10)])
  have "first_round (concat (map run_feedback runs)) = msg_elems (lv_feedback (view w))"
    and "tl (concat (map run_feedback runs)) = map msg_elems (lv_rounds (view w))"
    using assms(7) [symmetric] by (simp_all add: first_round_def)
  then show "run_starts (sh_is_local_leader (it_state it)) (view w) it (it_coord it) (unsegment (map run_input runs)) (concat (map run_feedback runs))
      (concat (map answer_of (lv_answers (view w)))) (lv_sent (view w))"
    using assms(3,6,8,9)
    by (auto simp: run_starts_def round_left_def loop_left_def iterate_fresh_def closed_empty_def input_rest_def feedback_rest_def)
qed

text \<open>Channels that are queues, where the input is served first.\<close>

definition pop_input :: "('a, 'st) loop_view \<Rightarrow> ('a network_message \<times> ('a, 'st) loop_view) option" where
  "pop_input v = (case lv_input v of [] \<Rightarrow> None | m # ms \<Rightarrow> Some (m, v\<lparr>lv_input := ms\<rparr>))"

definition pop_feedback :: "('a, 'st) loop_view \<Rightarrow> ('a network_message \<times> ('a, 'st) loop_view) option" where
  "pop_feedback v = (case lv_feedback v of [] \<Rightarrow> None | m # ms \<Rightarrow> Some (m, v\<lparr>lv_feedback := ms\<rparr>))"

definition pop_answer :: "('a, 'st) loop_view \<Rightarrow> ('st state_feedback network_message \<times> ('a, 'st) loop_view) option" where
  "pop_answer v = (case lv_answers v of [] \<Rightarrow> None | a # as \<Rightarrow> Some (a, answered a as v))"

definition loop_queues :: "(('a, 'st) loop_view, 'a, 'st) loop_ops" where
  "loop_queues =
     \<lparr>lo_try_feedback = (\<lambda>v. case pop_feedback v of None \<Rightarrow> (None, v) | Some (m, v') \<Rightarrow> (Some m, v')),
      lo_feedback = (\<lambda>v. map_option (\<lambda>(m, v'). Inr (Inr m, v')) (pop_feedback v)),
      lo_select_feedback = (\<lambda>v. case pop_input v of Some (m, v') \<Rightarrow> ret (SelectA (Inr m), v')
                                  | None \<Rightarrow> map_option (\<lambda>(m, v'). Inr (SelectB (Inr m), v')) (pop_feedback v)),
      lo_state = (\<lambda>v. map_option (\<lambda>(m, v'). Inr (Inr m, v')) (pop_answer v)),
      lo_select_state = (\<lambda>v. case pop_input v of Some (m, v') \<Rightarrow> ret (SelectB (Inr m), v')
                               | None \<Rightarrow> map_option (\<lambda>(a, v'). Inr (SelectA (Inr a), v')) (pop_answer v)),
      lo_output = (\<lambda>m v. Some (v\<lparr>lv_sent := lv_sent v @ [m]\<rparr>))\<rparr>"

lemma loop_queues_channels: "loop_channels loop_queues (\<lambda>v. v)"
  by (auto simp: loop_channels_def loop_queues_def pop_input_def pop_feedback_def pop_answer_def takes_input_def takes_feedback_def takes_answer_def
      split: list.splits option.splits)

theorem iterate_loops_witness:
  "\<exists>w' h' it'. pulls (iterate_next (\<lambda>_ h. ret h) loop_queues)
       (\<lparr>lv_input = [new_batch [Item 7, FlushAndRestart] default_coord, new_single Terminate default_coord],
         lv_feedback = [new_single (Item 8) default_coord, new_single FlushAndRestart default_coord],
         lv_rounds = [[new_batch [Item 9, FlushAndRestart] default_coord]],
         lv_answers = [new_single (Item (Continue, 1::nat)) default_coord, new_single FlushBatch default_coord, new_single (Item (Finished, 0)) default_coord],
         lv_sent = []\<rparr>, host_state_new 0,
        (iterate_new 0 1 2 3)\<lparr>it_input_receiver := Some (), it_feedback_receiver := Some (), it_output_sender := Some (LocalSender (ReceiverEndpoint (Coord 3 0 0) 0)),
          it_state := (handler_new 1)\<lparr>sh_new_state_receiver := Some ()\<rparr>\<rparr>)
       [Item (7::nat), FlushAndRestart, Item 8, FlushAndRestart, Terminate] (w', h', it')
     \<and> lv_sent w' = [new_batch [Item 9, FlushAndRestart] (Coord 0 0 0), new_single Terminate (Coord 0 0 0)]"
  using iterate_loops [OF loop_queues_channels, where bw = "\<lambda>_ h. ret h" and h = "host_state_new 0"
      and runs = "[\<lparr>run_input = [Item (7::nat)], run_rounds = [[Item 8]], run_output = [Item 9]\<rparr>]"
      and it = "(iterate_new 0 1 2 3)\<lparr>it_input_receiver := Some (), it_feedback_receiver := Some (), it_output_sender := Some (LocalSender (ReceiverEndpoint (Coord 3 0 0) 0)),
          it_state := (handler_new 1)\<lparr>sh_new_state_receiver := Some ()\<rparr>\<rparr>"
      and w = "\<lparr>lv_input = [new_batch [Item 7, FlushAndRestart] default_coord, new_single Terminate default_coord],
         lv_feedback = [new_single (Item 8) default_coord, new_single FlushAndRestart default_coord],
         lv_rounds = [[new_batch [Item 9, FlushAndRestart] default_coord]],
         lv_answers = [new_single (Item (Continue, 1::nat)) default_coord, new_single FlushBatch default_coord, new_single (Item (Finished, 0)) default_coord],
         lv_sent = []\<rparr>"]
  by (simp add: barrier_keeps_lock_def iterate_fresh_def iterate_ready_def iterate_new_def handler_new_def run_ok_def msg_elems_def new_batch_def
      new_single_def unsegment_def run_feedback_def nonempty_messages_def leader_message_def answer_of_def run_answers_def loop_outputs_def)

end
