(* ===== verification/Stream_Types.thy ===== *)
theory Stream_Types
  imports Stateful_Operators
begin

text \<open>
  The protocol of the streams as types (\<^verbatim>\<open>src/operator/mod.rs\<close> and the operators): a stream has no
  timestamps, has timestamps, or has timestamps and watermarks that keep their promise, and its values
  satisfy a predicate. The operators have types over them, so that a chain that is well typed neither panics
  nor breaks the promises its consumers rely on.
\<close>

section \<open>The types\<close>

datatype time_type = Untimed | Timed | EventTime

fun elem_type :: "time_type \<Rightarrow> ('a \<Rightarrow> bool) \<Rightarrow> 'a stream_element \<Rightarrow> bool" where
  "elem_type T P (Item x) \<longleftrightarrow> T = Untimed \<and> P x"
| "elem_type T P (Timestamped x t) \<longleftrightarrow> T \<noteq> Untimed \<and> P x"
| "elem_type T P (Watermark w) \<longleftrightarrow> T \<noteq> Untimed"
| "elem_type T P _ \<longleftrightarrow> True"

definition typed_stream :: "time_type \<Rightarrow> ('a \<Rightarrow> bool) \<Rightarrow> 'a stream_element list \<Rightarrow> bool" where
  "typed_stream T P es \<longleftrightarrow> wf_stream es \<and> list_all (elem_type T P) es \<and> (T = EventTime \<longrightarrow> respects_watermarks es)"

definition has_stream_type :: "('s, 'a) pull \<Rightarrow> 's \<Rightarrow> time_type \<Rightarrow> ('a \<Rightarrow> bool) \<Rightarrow> bool" where
  "has_stream_type p s T P \<longleftrightarrow> (\<exists>es s'. pulls p s es s' \<and> typed_stream T P es)"

text \<open>A well-typed operator does not go wrong: the worker that runs it ends.\<close>

lemma typed_completes:
  assumes "has_stream_type p s T P"
  shows "\<exists>s'. do_work p s = ret s'"
proof -
  from assms obtain es s' where es: "pulls p s es s'" "wf_stream es" by (auto simp: has_stream_type_def typed_stream_def)
  from es(2) obtain ys where "es = ys @ [Terminate]" "Terminate \<notin> set ys" by (rule wf_stream_ends)
  with es(1) do_work_pulls [of p s ys s'] show ?thesis by auto
qed

lemma iteration_elem:
  assumes "wf_stream es" and "seg \<in> set (iterations es)" and "e \<in> set seg"
  shows "e \<in> set es"
proof -
  have "e \<in> set (unsegment (iterations es))" using assms(2,3) by (auto simp: unsegment_def)
  then show ?thesis by (simp add: wf_stream_unsegment(1) [OF assms(1)])
qed

section \<open>Elementwise operators\<close>

text \<open>What the operators without a state have in common: an element becomes elements with the same time.\<close>

locale elementwise =
  fixes g :: "'a stream_element \<Rightarrow> 'b stream_element list"
  assumes g_item: "y \<in> set (g (Item x)) \<Longrightarrow> \<exists>z. y = Item z"
    and g_timestamped: "y \<in> set (g (Timestamped x t)) \<Longrightarrow> \<exists>z. y = Timestamped z t"
    and g_watermark: "g (Watermark w) = [Watermark w]"
    and g_flush: "g FlushBatch = [FlushBatch]"
    and g_restart: "g FlushAndRestart = [FlushAndRestart]"
    and g_terminate: "g Terminate = [Terminate]"
begin

lemma data_g: "\<not> is_marker e \<Longrightarrow> data_only (g e)"
  by (cases e) (auto simp: data_only_def list_all_iff g_watermark g_flush dest: g_item g_timestamped)

lemma wm_from_same_time: "list_all (\<lambda>y. \<exists>z. y = Timestamped z t) ys \<Longrightarrow> above m t \<Longrightarrow> wm_from m (ys @ es) = wm_from m es"
  by (induction ys) auto

lemma wm_from_no_time: "list_all (\<lambda>y. \<exists>z. y = Item z) ys \<Longrightarrow> wm_from m (ys @ es) = wm_from m es"
  by (induction ys) auto

lemma respects_g: "wm_from m es \<Longrightarrow> wm_from m (concat (map g es))"
proof (induction es arbitrary: m)
  case (Cons e es)
  then show ?case
  proof (cases e)
    case (Item x)
    have "list_all (\<lambda>y. \<exists>z. y = Item z) (g (Item x))" by (auto simp: list_all_iff dest: g_item)
    with Item Cons show ?thesis by (simp add: wm_from_no_time)
  next
    case (Timestamped x t)
    have "list_all (\<lambda>y. \<exists>z. y = Timestamped z t) (g (Timestamped x t))" by (auto simp: list_all_iff dest: g_timestamped)
    with Timestamped Cons show ?thesis by (simp add: wm_from_same_time)
  qed (simp_all add: g_watermark g_flush g_restart g_terminate)
qed simp

lemma typed_g:
  assumes "typed_stream T P es" and "\<And>e. elem_type T P e \<Longrightarrow> list_all (elem_type T Q) (g e)"
  shows "typed_stream T Q (concat (map g es))"
proof -
  have "wf_stream (concat (map g es))"
    using assms(1) unfolding typed_stream_def wf_stream_def
    by (intro wf_from_concat_map) (simp_all add: g_restart g_terminate data_g)
  moreover have "list_all (elem_type T Q) (concat (map g es))"
    using assms by (fastforce simp: typed_stream_def list_all_iff)
  ultimately show ?thesis
    using assms(1) respects_g by (simp add: typed_stream_def respects_watermarks_def)
qed

lemma typed_operator:
  assumes "has_stream_type p s T P" and "\<And>e. elem_type T P e \<Longrightarrow> list_all (elem_type T Q) (g e)"
    and "\<And>es s'. wf_stream es \<Longrightarrow> pulls p s es s' \<Longrightarrow> \<exists>st'. pulls q st (concat (map g es)) st'"
  shows "has_stream_type q st T Q"
  using assms(1) assms(3) typed_g [where T = T and P = P and Q = Q, OF _ assms(2)]
  unfolding has_stream_type_def typed_stream_def by blast

end

interpretation map_elems: elementwise "\<lambda>e. [elem_map f e]" for f :: "'a \<Rightarrow> 'b"
  by unfold_locales auto

interpretation filter_elems: elementwise "\<lambda>e. if keeps predicate e then [e] else []" for predicate :: "'a \<Rightarrow> bool"
  by unfold_locales (auto split: if_splits)

interpretation filter_map_elems: elementwise "\<lambda>e. case elem_filter_map predicate e of None \<Rightarrow> [] | Some y \<Rightarrow> [y]" for predicate :: "'a \<Rightarrow> 'b option"
  by unfold_locales (auto split: option.splits)

interpretation flat_map_elems: elementwise "elem_flat_map f" for f :: "'a \<Rightarrow> 'b list"
  by unfold_locales auto

lemma filter_as_concat: "filter P es = concat (map (\<lambda>e. if P e then [e] else []) es)"
  by (induction es) auto

lemma map_filter_as_concat: "List.map_filter g es = concat (map (\<lambda>e. case g e of None \<Rightarrow> [] | Some y \<Rightarrow> [y]) es)"
  by (induction es) (auto split: option.splits)

section \<open>The types of the operators\<close>

lemma map_typed:
  assumes "has_stream_type p s T P" and "\<And>x. P x \<Longrightarrow> Q (f x)"
  shows "has_stream_type (map_next f p) s T Q"
proof (rule map_elems.typed_operator [OF assms(1)])
  show "list_all (elem_type T Q) [elem_map f e]" if "elem_type T P e" for e
    using that assms(2) by (cases e) auto
  show "\<exists>st'. pulls (map_next f p) s (concat (map (\<lambda>e. [elem_map f e]) es)) st'" if "wf_stream es" and "pulls p s es s'" for es s'
    using pulls_map [OF that(2), of f] by auto
qed

lemma filter_typed:
  assumes "has_stream_type p s T P"
  shows "has_stream_type (filter_next predicate p) s T (\<lambda>x. P x \<and> predicate x)"
proof (rule filter_elems.typed_operator [OF assms])
  show "list_all (elem_type T (\<lambda>x. P x \<and> predicate x)) (if keeps predicate e then [e] else [])" if "elem_type T P e" for e
    using that by (cases e) auto
  show "\<exists>st'. pulls (filter_next predicate p) s (concat (map (\<lambda>e. if keeps predicate e then [e] else []) es)) st'"
    if "wf_stream es" and "pulls p s es s'" for es s'
    unfolding filter_as_concat [symmetric] by (rule filter_op.produces [OF that(1) TrueI that(2)])
qed

lemma filter_map_typed:
  assumes "has_stream_type p s T P" and "\<And>x y. P x \<Longrightarrow> f x = Some y \<Longrightarrow> Q y"
  shows "has_stream_type (filter_map_next f p) s T Q"
proof (rule filter_map_elems.typed_operator [OF assms(1)])
  show "list_all (elem_type T Q) (case elem_filter_map f e of None \<Rightarrow> [] | Some y \<Rightarrow> [y])" if "elem_type T P e" for e
    using that assms(2) by (cases e) (auto split: option.splits)
  show "\<exists>st'. pulls (filter_map_next f p) s (concat (map (\<lambda>e. case elem_filter_map f e of None \<Rightarrow> [] | Some y \<Rightarrow> [y]) es)) st'"
    if "wf_stream es" and "pulls p s es s'" for es s'
    unfolding map_filter_as_concat [symmetric] by (rule filter_map_op.produces [OF that(1) TrueI that(2)])
qed

lemma flat_map_typed:
  assumes "has_stream_type p s T P" and "\<And>x. P x \<Longrightarrow> list_all Q (f x)"
  shows "has_stream_type (flat_map_next f p) (flat_map_new s) T Q"
proof (rule flat_map_elems.typed_operator [OF assms(1)])
  show "list_all (elem_type T Q) (elem_flat_map f e)" if "elem_type T P e" for e
    using that assms(2) by (cases e) (auto simp: list_all_iff)
  show "\<exists>st'. pulls (flat_map_next f p) (flat_map_new s) (concat (map (elem_flat_map f) es)) st'"
    if "wf_stream es" and "pulls p s es s'" for es s'
    by (rule flat_map_op.produces [OF that(1) TrueI that(2)])
qed

lemma drop_timestamp_typed:
  assumes "has_stream_type p s T P"
  shows "has_stream_type (drop_timestamp_next p) s Untimed P"
proof -
  from assms obtain es s' where es: "pulls p s es s'" "wf_stream es" "list_all (elem_type T P) es"
    by (auto simp: has_stream_type_def typed_stream_def)
  have "elem_type Untimed P y" if "e \<in> set es" and "untimed e = Some y" for e y
    using es(3) that by (cases e) (auto simp: list_all_iff)
  then have "list_all (elem_type Untimed P) (List.map_filter untimed es)"
    by (auto simp: list_all_iff List.map_filter_def)
  then show ?thesis
    using drop_timestamp_op.produces [OF es(2) TrueI es(1)] drop_timestamp_op.sem_wf [OF es(2) TrueI]
    unfolding has_stream_type_def typed_stream_def by auto
qed

lemma elem_type_stamped:
  assumes "list_all (elem_type Untimed P) es"
  shows "list_all untimestamped es" and "list_all (elem_type Timed P) (concat (map (stamp tg wg) es))"
    and "(\<And>x t. wg x t = None) \<Longrightarrow> wm_from None (concat (map (stamp tg wg) es)) \<and> list_all (elem_type EventTime P) (concat (map (stamp tg wg) es))"
proof -
  have e: "untimestamped e \<and> list_all (elem_type Timed P) (stamp tg wg e)" if "elem_type Untimed P e" for e
    using that by (cases e) (auto split: option.splits)
  then show "list_all untimestamped es" and "list_all (elem_type Timed P) (concat (map (stamp tg wg) es))"
    using assms by (auto simp: list_all_iff)
  assume none: "\<And>x t. wg x t = None"
  show "wm_from None (concat (map (stamp tg wg) es)) \<and> list_all (elem_type EventTime P) (concat (map (stamp tg wg) es))"
    using assms
  proof (induction es)
    case (Cons e es)
    then show ?case by (cases e) (auto simp: none)
  qed simp
qed

lemma add_timestamp_typed:
  assumes "has_stream_type p s Untimed P"
  shows "has_stream_type (add_timestamp_next tg wg p) (add_timestamp_new s) Timed P"
    and "(\<And>x t. wg x t = None) \<Longrightarrow> has_stream_type (add_timestamp_next tg wg p) (add_timestamp_new s) EventTime P"
proof -
  from assms obtain es s' where es: "pulls p s es s'" "wf_stream es" "list_all (elem_type Untimed P) es"
    by (auto simp: has_stream_type_def typed_stream_def)
  note st = elem_type_stamped [OF es(3)]
  have "\<exists>st'. pulls (add_timestamp_next tg wg p) (add_timestamp_new s) (concat (map (stamp tg wg) es)) st'"
    and "wf_stream (concat (map (stamp tg wg) es))"
    using add_timestamp_op.produces [OF es(2) st(1) es(1)] add_timestamp_op.sem_wf [OF es(2) st(1)] by blast+
  then show "has_stream_type (add_timestamp_next tg wg p) (add_timestamp_new s) Timed P"
    and "(\<And>x t. wg x t = None) \<Longrightarrow> has_stream_type (add_timestamp_next tg wg p) (add_timestamp_new s) EventTime P"
    using st(2,3) [where tg = tg and wg = wg] unfolding has_stream_type_def typed_stream_def respects_watermarks_def by blast+
qed

lemma reorder_typed:
  assumes "has_stream_type p s EventTime P" and "stable_sort srt"
  shows "\<exists>out st'. pulls (reorder_next srt p) (reorder_new s) out st' \<and> typed_stream EventTime P out \<and> time_ordered None out"
proof -
  from assms(1) obtain es s' where es: "pulls p s es s'" "wf_stream es" "list_all (elem_type EventTime P) es" "respects_watermarks es"
    by (auto simp: has_stream_type_def typed_stream_def)
  from reorder_orders [OF assms(2) es(2,4,1)] obtain out st' where out: "pulls (reorder_next srt p) (reorder_new s) out st'"
    "wf_stream out" "respects_watermarks out" "time_ordered None out"
    and perm: "list_all2 (\<lambda>seg seg'. mset seg' = mset seg \<and> (\<forall>t. filter (\<lambda>e. item_timestamp e = Some t) seg' =
        filter (\<lambda>e. item_timestamp e = Some t) seg)) (iterations es) (iterations out)" by blast
  have "elem_type EventTime P e" if "e \<in> set seg'" "seg' \<in> set (iterations out)" for e seg'
  proof -
    from that(2) obtain i where i: "i < length (iterations out)" "seg' = iterations out ! i" by (auto simp: in_set_conv_nth)
    let ?seg = "iterations es ! i"
    have "?seg \<in> set (iterations es)" and "mset seg' = mset ?seg"
      using list_all2_nthD2 [OF perm i(1)] list_all2_lengthD [OF perm] i by simp_all
    then have "e \<in> set ?seg" using that(1) by (metis set_mset_mset)
    then have "e \<in> set es" by (rule iteration_elem [OF es(2) \<open>?seg \<in> set (iterations es)\<close>])
    with es(3) show ?thesis by (simp add: list_all_iff)
  qed
  then have "list_all (elem_type EventTime P) (unsegment (iterations out))" by (auto simp: unsegment_def list_all_iff)
  then have "list_all (elem_type EventTime P) out" using wf_stream_unsegment(1) [OF out(2)] by simp
  with out show ?thesis by (auto simp: typed_stream_def)
qed

subsection \<open>Folds\<close>

lemma wm_from_segment: "data_only seg \<Longrightarrow> wm_from m seg \<Longrightarrow> wm_from m (seg @ FlushAndRestart # es) = wm_from None es"
proof (induction m seg rule: wm_from.induct)
  case (2 m x t es)
  then show ?case by auto
qed auto

lemma typed_unsegment:
  assumes "\<forall>seg \<in> set segs. data_only seg \<and> list_all (elem_type T P) seg \<and> wm_from None seg" and "segs \<noteq> []"
  shows "typed_stream T P (unsegment segs)"
proof -
  have "wm_from None (unsegment segs)" using assms(1)
  proof (induction segs)
    case (Cons seg segs)
    then show ?case using wm_from_segment [of seg None "unsegment segs"] by (simp add: unsegment_Cons)
  qed (simp add: unsegment_def)
  moreover have "wf_stream (unsegment segs)" using assms by (intro wf_stream_unsegmentI) auto
  moreover have "list_all (elem_type T P) (unsegment segs)" using assms(1) by (auto simp: unsegment_def list_all_iff)
  ultimately show ?thesis by (simp add: typed_stream_def respects_watermarks_def)
qed

text \<open>The timestamps of a typed segment: none, or one for every value.\<close>

lemma typed_segment:
  assumes "list_all (elem_type T P) seg"
  shows "T = Untimed \<Longrightarrow> stamps seg = [] \<and> watermarks seg = []" and "T \<noteq> Untimed \<Longrightarrow> length (stamps seg) = length (elem_values seg)"
    and "list_all P (elem_values seg)"
proof -
  have "(T = Untimed \<longrightarrow> stamps seg = [] \<and> watermarks seg = []) \<and> (T \<noteq> Untimed \<longrightarrow> length (stamps seg) = length (elem_values seg)) \<and> list_all P (elem_values seg)"
    using assms
  proof (induction seg)
    case (Cons e seg)
    then show ?case by (cases e) (auto simp: stamps_def watermarks_def elem_values_def)
  qed (simp add: stamps_def watermarks_def elem_values_def)
  then show "T = Untimed \<Longrightarrow> stamps seg = [] \<and> watermarks seg = []" and "T \<noteq> Untimed \<Longrightarrow> length (stamps seg) = length (elem_values seg)"
    and "list_all P (elem_values seg)" by blast+
qed

lemma elem_type_stamp:
  assumes "list_all (elem_type T P) seg" and "elem_values seg \<noteq> []" and "Q y"
  shows "elem_type T Q (with_timestamp (max_of (stamps seg)) y)"
  using assms typed_segment(1,2) [OF assms(1)] by (cases "T = Untimed") (auto simp: max_of_def)

lemma fold_invariant: "list_all P xs \<Longrightarrow> Q a \<Longrightarrow> (\<And>a x. Q a \<Longrightarrow> P x \<Longrightarrow> Q (f a x)) \<Longrightarrow> Q (foldl f a xs)"
  by (induction xs arbitrary: a) auto

lemma typed_watermark:
  assumes "list_all (elem_type T P) seg"
  shows "list_all (elem_type T Q) (case max_of (watermarks seg) of None \<Rightarrow> [] | Some w \<Rightarrow> [Watermark w])"
  using typed_segment(1) [OF assms] by (cases "T = Untimed") (auto split: option.split)

lemma fold_typed:
  assumes "has_stream_type p s T P" and "Q init" and "\<And>a x. Q a \<Longrightarrow> P x \<Longrightarrow> Q (f a x)"
  shows "has_stream_type (fold_next f init p) (fold_new s) T Q"
proof -
  from assms(1) obtain es s' where es: "pulls p s es s'" "wf_stream es" "list_all (elem_type T P) es"
    by (auto simp: has_stream_type_def typed_stream_def)
  have "data_only (fold_iteration f init seg) \<and> list_all (elem_type T Q) (fold_iteration f init seg) \<and> wm_from None (fold_iteration f init seg)"
    if "list_all (elem_type T P) seg" for seg
    using elem_type_stamp [where P = P and Q = Q, OF that] typed_watermark [OF that, of Q]
      fold_invariant [where Q = Q, OF typed_segment(3) [OF that] assms(2,3)]
    by (cases "max_of (stamps seg)") (auto simp: fold_iteration_def data_only_def split: option.splits)
  moreover have "list_all (elem_type T P) seg" if "seg \<in> set (iterations es)" for seg
    using es(3) iteration_elem [OF es(2) that] by (auto simp: list_all_iff)
  ultimately have "typed_stream T Q (fold_sem f init es)"
    unfolding fold_sem_def using wf_stream_unsegment(3) [OF es(2)] by (intro typed_unsegment) auto
  then show ?thesis using fold_op.produces [OF es(2) TrueI es(1), of f init] unfolding has_stream_type_def by blast
qed

lemma keyed_result_typed:
  fixes f :: "'o \<Rightarrow> 'v \<Rightarrow> 'o"
  assumes "list_all (elem_type T P) seg" and "key_values k seg \<noteq> []" and "\<And>v. P (k, v) \<Longrightarrow> Q (k, init)"
    and "\<And>a v. Q (k, a) \<Longrightarrow> P (k, v) \<Longrightarrow> Q (k, f a v)"
  shows "elem_type T Q (keyed_result f init seg k)"
  unfolding keyed_result_def
proof (rule elem_type_stamp)
  let ?P = "\<lambda>x. P x \<and> fst x = k"
  have "elem_type T ?P e" if "e \<in> set seg" and "elem_key e = Some k" for e
    using assms(1) that by (cases e) (auto simp: list_all_iff)
  then show typed: "list_all (elem_type T ?P) (key_elems k seg)" by (auto simp: key_elems_def list_all_iff)
  show "elem_values (key_elems k seg) \<noteq> []" using assms(2) by (simp add: key_values_def)
  have vals: "list_all (\<lambda>v. P (k, v)) (key_values k seg)"
    using typed_segment(3) [OF typed] by (auto simp: key_values_def list_all_iff)
  moreover have "Q (k, init)" using vals assms(2,3) by (cases "key_values k seg") auto
  ultimately show "Q (k, foldl f init (key_values k seg))"
    using assms(4) by (rule fold_invariant [where Q = "\<lambda>a. Q (k, a)"])
qed

lemma wm_from_None_items: "list_all (\<lambda>e. watermark_of e = None \<and> \<not> is_marker e) xs \<Longrightarrow> wm_from None (xs @ es) = wm_from None es"
proof (induction xs)
  case (Cons e xs)
  then show ?case by (cases e) auto
qed simp

lemma keyed_fold_typed:
  fixes f :: "'o \<Rightarrow> 'v \<Rightarrow> 'o" and p :: "('s, 'k \<times> 'v) pull"
  assumes "has_stream_type p s T P" and ho: "hash_order ho" and "\<And>k v. P (k, v) \<Longrightarrow> Q (k, init)"
    and "\<And>k a v. Q (k, a) \<Longrightarrow> P (k, v) \<Longrightarrow> Q (k, f a v)"
  shows "has_stream_type (keyed_fold_next ho f init p) (keyed_fold_new s) T Q"
proof -
  from assms(1) obtain es s' where es: "pulls p s es s'" "wf_stream es" "list_all (elem_type T P) es"
    by (auto simp: has_stream_type_def typed_stream_def)
  let ?results = "\<lambda>seg. rev (map (keyed_result f init seg) (keys (ho (kf_accs f init seg))))"
  have "data_only (keyed_fold_iteration ho f init seg) \<and> list_all (elem_type T Q) (keyed_fold_iteration ho f init seg)
      \<and> wm_from None (keyed_fold_iteration ho f init seg)" if seg: "list_all (elem_type T P) seg" for seg
  proof -
    have "key_values k seg \<noteq> []" if "k \<in> set (keys (ho (kf_accs f init seg)))" for k
      using that hash_order_set [OF ho, of "kf_accs f init seg"] kf_accs_lookup [of f init seg k] by (force simp: map_of_eq_None_iff)
    then have typed: "list_all (elem_type T Q) (?results seg)"
      using keyed_result_typed [where Q = Q, OF seg _ assms(3,4)] by (auto simp: list_all_iff)
    have data: "list_all (\<lambda>e. watermark_of e = None \<and> \<not> is_marker e) (?results seg)"
    proof -
      have "watermark_of (keyed_result f init seg k) = None \<and> \<not> is_marker (keyed_result f init seg k)" for k
        by (cases "max_of (stamps (key_elems k seg))") (simp_all add: keyed_result_def)
      then show ?thesis by (simp add: list_all_iff)
    qed
    show ?thesis
      unfolding keyed_fold_iteration_def wm_from_None_items [OF data]
      using typed data typed_watermark [OF seg, of Q] by (auto simp: data_only_def list_all_iff split: option.splits)
  qed
  moreover have "list_all (elem_type T P) seg" if "seg \<in> set (iterations es)" for seg
    using es(3) iteration_elem [OF es(2) that] by (auto simp: list_all_iff)
  ultimately have "typed_stream T Q (keyed_fold_sem ho f init es)"
    unfolding keyed_fold_sem_def using wf_stream_unsegment(3) [OF es(2)] by (intro typed_unsegment) auto
  then show ?thesis using keyed_fold_produces [OF ho es(2,1), of f init] unfolding has_stream_type_def by blast
qed

section \<open>Properties\<close>

text \<open>
  C7: Well-typed chains do not go wrong. If the previous operator produces a stream of a type (its framing, its kind of time with
  the promises of its watermarks, and a predicate of its values), a worker that runs it ends, and every operator applied to it
  produces a stream of the operator's result type: mapping, filtering and flattening keep the kind of time, dropping timestamps
  needs none, adding timestamps needs a stream without them, folding keeps the kind of time and an invariant of the accumulator,
  and reordering a stream with watermarks keeps their promises.
\<close>

theorem operators_well_typed:
  assumes "has_stream_type p s T P"
  shows "(\<exists>s'. do_work p s = ret s')
    \<and> (\<forall>f Q. (\<forall>x. P x \<longrightarrow> Q (f x)) \<longrightarrow> has_stream_type (map_next f p) s T Q)
    \<and> (\<forall>predicate. has_stream_type (filter_next predicate p) s T (\<lambda>x. P x \<and> predicate x))
    \<and> (\<forall>f Q. (\<forall>x y. P x \<longrightarrow> f x = Some y \<longrightarrow> Q y) \<longrightarrow> has_stream_type (filter_map_next f p) s T Q)
    \<and> (\<forall>f Q. (\<forall>x. P x \<longrightarrow> list_all Q (f x)) \<longrightarrow> has_stream_type (flat_map_next f p) (flat_map_new s) T Q)
    \<and> has_stream_type (drop_timestamp_next p) s Untimed P
    \<and> (T = Untimed \<longrightarrow> (\<forall>tg wg. has_stream_type (add_timestamp_next tg wg p) (add_timestamp_new s) Timed P))
    \<and> (\<forall>f init Q. Q init \<and> (\<forall>a x. Q a \<longrightarrow> P x \<longrightarrow> Q (f a x)) \<longrightarrow> has_stream_type (fold_next f init p) (fold_new s) T Q)
    \<and> (T = EventTime \<longrightarrow> (\<forall>srt. stable_sort srt \<longrightarrow> has_stream_type (reorder_next srt p) (reorder_new s) EventTime P))"
proof (intro conjI allI impI)
  show "\<exists>s'. do_work p s = ret s'" by (rule typed_completes [OF assms])
  show "has_stream_type (map_next f p) s T Q" if "\<forall>x. P x \<longrightarrow> Q (f x)" for f Q
    using that by (intro map_typed [OF assms]) blast
  show "has_stream_type (filter_next predicate p) s T (\<lambda>x. P x \<and> predicate x)" for predicate by (rule filter_typed [OF assms])
  show "has_stream_type (filter_map_next f p) s T Q" if "\<forall>x y. P x \<longrightarrow> f x = Some y \<longrightarrow> Q y" for f Q
    using that by (intro filter_map_typed [OF assms]) blast
  show "has_stream_type (flat_map_next f p) (flat_map_new s) T Q" if "\<forall>x. P x \<longrightarrow> list_all Q (f x)" for f Q
    using that by (intro flat_map_typed [OF assms]) blast
  show "has_stream_type (drop_timestamp_next p) s Untimed P" by (rule drop_timestamp_typed [OF assms])
  show "has_stream_type (add_timestamp_next tg wg p) (add_timestamp_new s) Timed P" if "T = Untimed" for tg wg
    using assms that by (intro add_timestamp_typed(1)) simp
  show "has_stream_type (fold_next f init p) (fold_new s) T Q" if "Q init \<and> (\<forall>a x. Q a \<longrightarrow> P x \<longrightarrow> Q (f a x))" for f init Q
    using that by (intro fold_typed [OF assms]) blast+
  show "has_stream_type (reorder_next srt p) (reorder_new s) EventTime P" if "T = EventTime" and "stable_sort srt" for srt
    using reorder_typed [OF assms [unfolded that(1)] that(2)] unfolding has_stream_type_def by blast
qed

theorem operators_well_typed_witness:
  "(\<exists>s'. do_work (fake_next :: (nat stream_element list, nat) pull) [Item 1, Item 2, FlushAndRestart, Terminate] = ret s')
    \<and> has_stream_type (flat_map_next (\<lambda>x. [x, x + 1]) fake_next) (flat_map_new [Item 1, Item 2, FlushAndRestart, Terminate]) Untimed (\<lambda>x::nat. 0 < x)
    \<and> has_stream_type (add_timestamp_next int (\<lambda>_ t. Some t) fake_next) (add_timestamp_new [Item 1, Item 2, FlushAndRestart, Terminate]) Timed (\<lambda>x::nat. 0 < x)"
proof -
  have "has_stream_type (fake_next :: (nat stream_element list, nat) pull) [Item 1, Item 2, FlushAndRestart, Terminate] Untimed (\<lambda>x. 0 < x)"
    unfolding has_stream_type_def by (intro exI conjI, rule pulls_fake_all) (simp add: typed_stream_def wf_stream_def)
  note typed = operators_well_typed [OF this]
  show ?thesis
  proof (intro conjI)
    show "\<exists>s'. do_work (fake_next :: (nat stream_element list, nat) pull) [Item 1, Item 2, FlushAndRestart, Terminate] = ret s'"
      by (rule typed [THEN conjunct1])
    show "has_stream_type (flat_map_next (\<lambda>x. [x, x + 1]) fake_next) (flat_map_new [Item 1, Item 2, FlushAndRestart, Terminate]) Untimed (\<lambda>x::nat. 0 < x)"
      by (rule typed [THEN conjunct2, THEN conjunct2, THEN conjunct2, THEN conjunct2, THEN conjunct1, rule_format]) simp
    show "has_stream_type (add_timestamp_next int (\<lambda>_ t. Some t) fake_next) (add_timestamp_new [Item 1, Item 2, FlushAndRestart, Terminate]) Timed (\<lambda>x::nat. 0 < x)"
      by (rule typed [THEN conjunct2, THEN conjunct2, THEN conjunct2, THEN conjunct2, THEN conjunct2, THEN conjunct2, THEN conjunct1, THEN mp,
          OF refl, THEN spec, THEN spec])
  qed
qed

end
