(* ===== verification/Aggregations.thy ===== *)
theory Aggregations
  imports Group_By Stateful_Operators
begin

text \<open>
  The aggregations of \<^verbatim>\<open>src/operator/mod.rs\<close> that are written with folds: \<^verbatim>\<open>group_by_reduce\<close>, \<^verbatim>\<open>group_by_sum\<close>,
  \<^verbatim>\<open>group_by_avg\<close>, \<^verbatim>\<open>group_by_count\<close>, \<^verbatim>\<open>group_by_max_element\<close>, \<^verbatim>\<open>group_by_min_element\<close>, \<^verbatim>\<open>reduce\<close>, \<^verbatim>\<open>reduce_assoc\<close>, and the removal of
  duplicates, \<^verbatim>\<open>unique_assoc\<close> and \<^verbatim>\<open>unique_assoc_by_key\<close>. The closures are the ones the methods give to the folds; the locale
  \<open>aggregate\<close> says when folding in two phases over the network computes the function meant, once for all of them.
\<close>

section \<open>A map whose closure may panic\<close>

fun elem_mapR :: "('a \<Rightarrow> 'b res) \<Rightarrow> 'a stream_element \<Rightarrow> 'b stream_element res" where
  "elem_mapR f (Item x) = bindR (f x) (\<lambda>y. ret (Item y))"
| "elem_mapR f (Timestamped x ts) = bindR (f x) (\<lambda>y. ret (Timestamped y ts))"
| "elem_mapR f (Watermark w) = ret (Watermark w)"
| "elem_mapR f Terminate = ret Terminate"
| "elem_mapR f FlushAndRestart = ret FlushAndRestart"
| "elem_mapR f FlushBatch = ret FlushBatch"

definition map_res_next :: "('a \<Rightarrow> 'b res) \<Rightarrow> ('s, 'a) pull \<Rightarrow> ('s, 'b) pull" where
  "map_res_next f prev s = bindR (prev s) (\<lambda>(e, s). bindR (elem_mapR f e) (\<lambda>e. ret (e, s)))"

definition keyed_map_res :: "('k \<Rightarrow> 'v \<Rightarrow> 'o res) \<Rightarrow> ('s, 'k \<times> 'v) pull \<Rightarrow> ('s, 'k \<times> 'o) pull" where
  "keyed_map_res f = map_res_next (\<lambda>(k, v). bindR (f k v) (\<lambda>mapped_value. ret (k, mapped_value)))"

lemma pulls_map_res:
  assumes "pulls p s es s'" and "\<And>x. x \<in> set (elem_values es) \<Longrightarrow> f x = ret (g x)"
  shows "pulls (map_res_next f p) s (map (elem_map g) es) s'"
  using assms
proof (induction rule: pulls.induct)
  case (pulls_Cons s e s1 es s2)
  then have "elem_mapR f e = ret (elem_map g e)" by (cases e) auto
  moreover have "pulls (map_res_next f p) s1 (map (elem_map g) es) s2"
    using pulls_Cons.prems by (intro pulls_Cons.IH) (cases e; auto)
  moreover have "map_res_next f p s = ret (elem_map g e, s1)" using calculation(1) pulls_Cons.hyps(1) by (simp add: map_res_next_def)
  ultimately show ?case by (auto simp: pulls_Cons_iff)
qed simp

lemma data_only_map: "data_only (map (elem_map g) es) = data_only es"
proof -
  have "is_marker (elem_map g e) = is_marker e" for e by (cases e) auto
  then show ?thesis by (simp add: data_only_def list_all_iff)
qed

lemma elem_values_map: "elem_values (map (elem_map g) es) = map g (elem_values es)"
proof (induction es)
  case (Cons e es)
  then show ?case by (cases e) (auto simp: elem_values_def)
qed (simp add: elem_values_def)

section \<open>The closures\<close>

definition reduce_local :: "('a \<Rightarrow> 'a \<Rightarrow> 'a) \<Rightarrow> 'a option \<Rightarrow> 'a \<Rightarrow> 'a option" where
  "reduce_local f acc value = (case acc of None \<Rightarrow> Some value | Some acc \<Rightarrow> Some (f acc value))"

definition reduce_global :: "('a \<Rightarrow> 'a \<Rightarrow> 'a) \<Rightarrow> 'a option \<Rightarrow> 'a option \<Rightarrow> 'a option" where
  "reduce_global f acc1 acc2 =
     (case acc1 of None \<Rightarrow> acc2 | Some a \<Rightarrow> (case acc2 of Some b \<Rightarrow> Some (f a b) | None \<Rightarrow> Some a))"

definition max_element :: "('a \<Rightarrow> 'v :: linorder) \<Rightarrow> 'a \<Rightarrow> 'a \<Rightarrow> 'a" where
  "max_element get_value out value = (if get_value value > get_value out then value else out)"

definition min_element :: "('a \<Rightarrow> 'v :: linorder) \<Rightarrow> 'a \<Rightarrow> 'a \<Rightarrow> 'a" where
  "min_element get_value out value = (if get_value value < get_value out then value else out)"

definition sum_local :: "('a \<Rightarrow> 'v) \<Rightarrow> ('v \<Rightarrow> 'v \<Rightarrow> 'v) \<Rightarrow> 'v option \<Rightarrow> 'a \<Rightarrow> 'v option" where
  "sum_local get_value add acc value = (case acc of Some acc \<Rightarrow> Some (add acc (get_value value)) | None \<Rightarrow> Some (get_value value))"

definition sum_global :: "('v \<Rightarrow> 'v \<Rightarrow> 'v) \<Rightarrow> 'v option \<Rightarrow> 'v option \<Rightarrow> 'v option" where
  "sum_global add acc value =
     (case acc of None \<Rightarrow> value | Some a \<Rightarrow> (case value of Some v \<Rightarrow> Some (add a v) | None \<Rightarrow> Some a))"

definition avg_local :: "('a \<Rightarrow> 'v) \<Rightarrow> ('v \<Rightarrow> 'v \<Rightarrow> 'v) \<Rightarrow> 'v option \<times> nat \<Rightarrow> 'a \<Rightarrow> 'v option \<times> nat" where
  "avg_local get_value add acc value =
     (case acc of (sm, n) \<Rightarrow>
        (case sm of Some sm \<Rightarrow> Some (add sm (get_value value)) | None \<Rightarrow> Some (get_value value), n + 1))"

definition avg_global :: "('v \<Rightarrow> 'v \<Rightarrow> 'v) \<Rightarrow> 'v option \<times> nat \<Rightarrow> 'v option \<times> nat \<Rightarrow> 'v option \<times> nat" where
  "avg_global add acc lcl =
     (case (acc, lcl) of ((sm, n), (local_sum, local_count)) \<Rightarrow>
        (case sm of None \<Rightarrow> local_sum
         | Some sm \<Rightarrow> (case local_sum of Some local_sum \<Rightarrow> Some (add sm local_sum) | None \<Rightarrow> Some sm), n + local_count))"

text \<open>The division is by \<^verbatim>\<open>count as f64\<close>; both are the user's type's own, an argument.\<close>

definition avg_finish :: "('v \<Rightarrow> nat \<Rightarrow> 'v) \<Rightarrow> 'v option \<times> nat \<Rightarrow> 'v res" where
  "avg_finish dv acc = (case acc of (sm, n) \<Rightarrow> bindR (unwrapR sm) (\<lambda>sm. ret (dv sm n)))"

definition count_local :: "nat \<Rightarrow> 'a \<Rightarrow> nat" where
  "count_local n _ = n + 1"

definition count_global :: "nat \<Rightarrow> nat \<Rightarrow> nat" where
  "count_global n local_count = n + local_count"

text \<open>The streams of the block behind the shuffle: what they pull from is its \<^verbatim>\<open>Start\<close>.\<close>

definition group_by_reduce :: "(('k, 'a option) hmap \<Rightarrow> ('k, 'a option) hmap) \<Rightarrow> ('a \<Rightarrow> 'a \<Rightarrow> 'a)
    \<Rightarrow> ('s, 'k \<times> 'a option) pull \<Rightarrow> (('s, 'k, 'a option) keyed_fold, 'k \<times> 'a) pull" where
  "group_by_reduce ho f prev = keyed_map_res (\<lambda>_ v. unwrapR v) (group_by_fold_global ho None (reduce_global f) prev)"

definition group_by_max_element :: "(('k, 'a option) hmap \<Rightarrow> ('k, 'a option) hmap) \<Rightarrow> ('a \<Rightarrow> 'v :: linorder)
    \<Rightarrow> ('s, 'k \<times> 'a option) pull \<Rightarrow> (('s, 'k, 'a option) keyed_fold, 'k \<times> 'a) pull" where
  "group_by_max_element ho get_value = group_by_reduce ho (max_element get_value)"

definition group_by_min_element :: "(('k, 'a option) hmap \<Rightarrow> ('k, 'a option) hmap) \<Rightarrow> ('a \<Rightarrow> 'v :: linorder)
    \<Rightarrow> ('s, 'k \<times> 'a option) pull \<Rightarrow> (('s, 'k, 'a option) keyed_fold, 'k \<times> 'a) pull" where
  "group_by_min_element ho get_value = group_by_reduce ho (min_element get_value)"

definition group_by_sum :: "(('k, 'v option) hmap \<Rightarrow> ('k, 'v option) hmap) \<Rightarrow> ('v \<Rightarrow> 'v \<Rightarrow> 'v)
    \<Rightarrow> ('s, 'k \<times> 'v option) pull \<Rightarrow> (('s, 'k, 'v option) keyed_fold, 'k \<times> 'v) pull" where
  "group_by_sum ho add prev = keyed_map_res (\<lambda>_ v. unwrapR v) (group_by_fold_global ho None (sum_global add) prev)"

definition group_by_avg :: "(('k, 'v option \<times> nat) hmap \<Rightarrow> ('k, 'v option \<times> nat) hmap) \<Rightarrow> ('v \<Rightarrow> 'v \<Rightarrow> 'v) \<Rightarrow> ('v \<Rightarrow> nat \<Rightarrow> 'v)
    \<Rightarrow> ('s, 'k \<times> 'v option \<times> nat) pull \<Rightarrow> (('s, 'k, 'v option \<times> nat) keyed_fold, 'k \<times> 'v) pull" where
  "group_by_avg ho add dv prev = keyed_map_res (\<lambda>_. avg_finish dv) (group_by_fold_global ho (None, 0) (avg_global add) prev)"

definition group_by_count :: "(('k, nat) hmap \<Rightarrow> ('k, nat) hmap) \<Rightarrow> ('s, 'k \<times> nat) pull \<Rightarrow> (('s, 'k, nat) keyed_fold, 'k \<times> nat) pull" where
  "group_by_count ho prev = group_by_fold_global ho 0 count_global prev"

section \<open>Aggregates that can be merged\<close>

text \<open>
  The closures of an aggregation in two phases: folding what the replicas folded, in any order, folds all of it, and what is
  made of the result is the function \<open>spec\<close> of the values, in the order of the replicas.
\<close>

locale aggregate =
  fixes init :: 'o and lcl :: "'o \<Rightarrow> 'a \<Rightarrow> 'o" and glb :: "'o \<Rightarrow> 'o \<Rightarrow> 'o" and finish :: "'o \<Rightarrow> 'b res" and spec :: "'a list \<Rightarrow> 'b"
  assumes merge: "folds_merge init lcl glb"
    and result: "xs \<noteq> [] \<Longrightarrow> finish (foldl lcl init xs) = ret (spec xs)"
begin

lemma distributes:
  fixes keyer :: "'a \<Rightarrow> 'k"
  assumes "hash_order ho1" "hash_order ho2" "hash_order eo" and "distinct cs" "cs \<noteq> []" and "block_endpoints eps" "ep \<in> set eps"
    and "\<forall>c \<in> set cs. sent_local_folds ho1 eo rng t0 keyer hash init lcl eps (prev c) (s c) (seg c) net c"
    and "\<forall>m \<in> set (nt_queue net ep). nm_sender m \<in> set cs"
    and "lock_returns lock" and "pulls (start_fetch recv recv_timeout md) (False, rcv) ms q" "reads_queue net ep ms"
  shows "\<exists>out st'. pulls (keyed_map_res (\<lambda>_. finish) (group_by_fold_global ho2 init glb (start_next recv recv_timeout)))
      (keyed_fold_new (start_setup coord md rcv cs (start_new rcv0 lock))) (out @ [FlushAndRestart, Terminate]) st'
    \<and> data_only out
    \<and> mset (elem_values out) = image_mset (\<lambda>k. (k, spec (concat (map (\<lambda>c. group_values keyer k (seg c)) cs))))
        (mset_set {k. responsible hash eps ep k \<and> (\<exists>c \<in> set cs. group_values keyer k (seg c) \<noteq> [])})"
proof -
  let ?K = "{k. responsible hash eps ep k \<and> (\<exists>c \<in> set cs. group_values keyer k (seg c) \<noteq> [])}"
  let ?vals = "\<lambda>k. concat (map (\<lambda>c. group_values keyer k (seg c)) cs)"
  let ?g = "\<lambda>(k, v). (k, case finish v of Some (Inr y) \<Rightarrow> y | _ \<Rightarrow> undefined)"
  from group_by_fold_result [OF assms merge] obtain out st' where
    out: "pulls (group_by_fold_global ho2 init glb (start_next recv recv_timeout))
      (keyed_fold_new (start_setup coord md rcv cs (start_new rcv0 lock))) (out @ [FlushAndRestart, Terminate]) st'" "data_only out"
    and vals: "mset (elem_values out) = image_mset (\<lambda>k. (k, foldl lcl init (?vals k))) (mset_set ?K)" by blast
  have fin: "finite ?K" by (rule finite_subset [of _ "\<Union>c \<in> set cs. {k. group_values keyer k (seg c) \<noteq> []}"])
    (auto simp: key_values_finite simp flip: key_values_keyed)
  have finished: "finish (foldl lcl init (?vals k)) = ret (spec (?vals k))" if "k \<in> ?K" for k
    using that by (intro result) auto
  have "(\<lambda>(k, v). bindR (finish v) (\<lambda>mapped_value. ret (k, mapped_value))) x = ret (?g x)" if "x \<in> set (elem_values out)" for x
  proof -
    have "x \<in># image_mset (\<lambda>k. (k, foldl lcl init (?vals k))) (mset_set ?K)" using that by (simp flip: vals)
    then obtain k where "k \<in> ?K" "x = (k, foldl lcl init (?vals k))" using fin by auto
    then show ?thesis using finished [OF \<open>k \<in> ?K\<close>] by simp
  qed
  then have "pulls (keyed_map_res (\<lambda>_. finish) (group_by_fold_global ho2 init glb (start_next recv recv_timeout)))
      (keyed_fold_new (start_setup coord md rcv cs (start_new rcv0 lock))) (map (elem_map ?g) (out @ [FlushAndRestart, Terminate])) st'"
    unfolding keyed_map_res_def by (intro pulls_map_res [OF out(1)]) (auto simp: elem_values_def)
  moreover have "data_only (map (elem_map ?g) out)" using out(2) by (simp add: data_only_map)
  moreover have "mset (elem_values (map (elem_map ?g) out)) = image_mset (\<lambda>k. (k, spec (?vals k))) (mset_set ?K)"
  proof -
    have "elem_values (map (elem_map ?g) out) = map ?g (elem_values out)" by (rule elem_values_map)
    then show ?thesis using fin finished by (auto simp: vals multiset.map_comp comp_def intro!: image_mset_cong)
  qed
  ultimately show ?thesis by (intro exI [of _ "map (elem_map ?g) out"] exI [of _ st']) simp
qed

end

section \<open>The aggregations are mergeable\<close>

definition merges :: "'o \<Rightarrow> ('o \<Rightarrow> 'a \<Rightarrow> 'o) \<Rightarrow> ('o \<Rightarrow> 'o \<Rightarrow> 'o) \<Rightarrow> bool" where
  "merges init lcl glb \<longleftrightarrow> (\<forall>a x y. glb (glb a x) y = glb (glb a y) x) \<and> (\<forall>a xs. xs \<noteq> [] \<longrightarrow> glb a (foldl lcl init xs) = foldl lcl a xs)"

lemma merges_folds:
  assumes "merges init lcl glb"
  shows "folds_merge init lcl glb"
proof -
  have "foldl glb init (map (foldl lcl init) xss) = foldl lcl init (concat xss)" if "[] \<notin> set xss" for xss
    using that
  proof (induction xss rule: rev_induct)
    case (snoc xs xss)
    then have "xs \<noteq> []" by auto
    then have "glb a (foldl lcl init xs) = foldl lcl a xs" for a using assms by (simp add: merges_def)
    with snoc show ?case by simp
  qed simp
  with assms show ?thesis by (simp add: merges_def folds_merge_def)
qed

lemma merges_prod:
  assumes "merges i1 l1 g1" and "merges i2 l2 g2"
  shows "merges (i1, i2) (\<lambda>a x. (l1 (fst a) x, l2 (snd a) x)) (\<lambda>a b. (g1 (fst a) (fst b), g2 (snd a) (snd b)))"
proof -
  have "foldl (\<lambda>a x. (l1 (fst a) x, l2 (snd a) x)) a xs = (foldl l1 (fst a) xs, foldl l2 (snd a) xs)" for a xs
    by (induction xs arbitrary: a) auto
  then show ?thesis using assms by (simp add: merges_def)
qed

definition fold1 :: "('a \<Rightarrow> 'a \<Rightarrow> 'a) \<Rightarrow> 'a list \<Rightarrow> 'a" where
  "fold1 f xs = foldl f (hd xs) (tl xs)"

definition assoc_comm :: "('a \<Rightarrow> 'a \<Rightarrow> 'a) \<Rightarrow> bool" where
  "assoc_comm f \<longleftrightarrow> (\<forall>a b c. f (f a b) c = f a (f b c)) \<and> (\<forall>a b. f a b = f b a)"

lemma reduce_fold:
  assumes "xs \<noteq> []"
  shows "foldl (reduce_local f) None xs = Some (fold1 f xs)"
proof -
  have "foldl (reduce_local f) (Some a) ys = Some (foldl f a ys)" for a ys
    by (induction ys arbitrary: a) (simp_all add: reduce_local_def)
  with assms show ?thesis by (cases xs) (simp_all add: reduce_local_def fold1_def)
qed

lemma merges_reduce:
  assumes "assoc_comm f"
  shows "merges None (\<lambda>acc v. reduce_local f acc (g v)) (reduce_global f)"
  unfolding merges_def
proof (intro conjI allI impI)
  have assoc: "f (f a b) c = f a (f b c)" for a b c using assms unfolding assoc_comm_def by blast
  have comm: "f a b = f b a" for a b using assms unfolding assoc_comm_def by blast
  have comm': "f (f a b) c = f (f a c) b" for a b c by (metis assoc comm)
  show "reduce_global f (reduce_global f a x) y = reduce_global f (reduce_global f a y) x" for a x y
    by (cases a; cases x; cases y) (simp_all add: reduce_global_def comm', rule comm)
  show "reduce_global f a (foldl (\<lambda>acc v. reduce_local f acc (g v)) None xs) = foldl (\<lambda>acc v. reduce_local f acc (g v)) a xs" if "xs \<noteq> []" for a xs
    using that
  proof (induction xs rule: rev_induct)
    case (snoc x xs)
    have step: "reduce_global f a (reduce_local f b v) = reduce_local f (reduce_global f a b) v" if "b \<noteq> None" for b v
      using that by (cases a) (auto simp: reduce_global_def reduce_local_def assoc)
    show ?case
    proof (cases "xs = []")
      case True
      then show ?thesis by (cases a) (simp_all add: reduce_global_def reduce_local_def)
    next
      case False
      have "foldl (\<lambda>acc v. reduce_local f acc (g v)) None xs \<noteq> None"
        using False by (cases xs rule: rev_cases) (auto simp: reduce_local_def split: option.splits)
      with snoc.IH [OF False] step show ?thesis by simp
    qed
  qed simp
qed

lemma merges_count: "merges 0 count_local count_global"
proof -
  have "foldl count_local a xs = a + length xs" for a and xs :: "'a list"
    by (induction xs arbitrary: a) (simp_all add: count_local_def)
  then show ?thesis by (simp add: merges_def count_global_def)
qed

text \<open>The closures of the sum and of the average, by the ones of the reduction and the count.\<close>

lemma sum_closures: "sum_local g add = (\<lambda>acc v. reduce_local add acc (g v))" "sum_global add = reduce_global add"
  by (auto simp: fun_eq_iff sum_local_def reduce_local_def sum_global_def reduce_global_def split: option.split)

lemma avg_closures:
  "avg_local g add = (\<lambda>a v. (sum_local g add (fst a) v, count_local (snd a) v))"
  "avg_global add = (\<lambda>a b. (sum_global add (fst a) (fst b), count_global (snd a) (snd b)))"
  by (auto simp: fun_eq_iff avg_local_def sum_local_def count_local_def avg_global_def sum_global_def count_global_def split: option.split)

lemma sum_fold: "xs \<noteq> [] \<Longrightarrow> foldl (sum_local g add) None xs = Some (fold1 add (map g xs))"
  using reduce_fold [of "map g xs" add] by (simp add: sum_closures foldl_map)

lemma avg_fold: "xs \<noteq> [] \<Longrightarrow> foldl (avg_local g add) (None, 0) xs = (Some (fold1 add (map g xs)), length xs)"
proof -
  have "foldl (avg_local g add) a xs = (foldl (sum_local g add) (fst a) xs, snd a + length xs)" for a
    by (induction xs arbitrary: a) (simp_all add: avg_closures count_local_def)
  then show "xs \<noteq> [] \<Longrightarrow> ?thesis" by (simp add: sum_fold)
qed

lemma reduce_aggregate: "assoc_comm f \<Longrightarrow> aggregate None (reduce_local f) (reduce_global f) unwrapR (fold1 f)"
  using merges_folds [OF merges_reduce [where g = "\<lambda>x. x"]] by unfold_locales (simp_all add: reduce_fold)

lemma sum_aggregate: "assoc_comm add \<Longrightarrow> aggregate None (sum_local g add) (sum_global add) unwrapR (\<lambda>xs. fold1 add (map g xs))"
  using merges_folds [OF merges_reduce [where g = g]] by unfold_locales (simp_all add: sum_fold, simp add: sum_closures)

lemma avg_aggregate: "assoc_comm add \<Longrightarrow> aggregate (None, 0) (avg_local g add) (avg_global add) (avg_finish dv) (\<lambda>xs. dv (fold1 add (map g xs)) (length xs))"
  using merges_folds [OF merges_prod [OF merges_reduce [where g = g] merges_count]]
  by unfold_locales (simp_all add: avg_fold avg_finish_def, simp add: avg_closures sum_closures)

interpretation count_agg: aggregate 0 count_local count_global ret "length :: 'a list \<Rightarrow> nat"
proof
  show "folds_merge 0 count_local count_global" by (rule merges_folds [OF merges_count])
  show "ret (foldl count_local 0 xs) = ret (length xs)" for xs :: "'a list"
    by (induction xs rule: rev_induct) (simp_all add: count_local_def)
qed

text \<open>The elements with the largest and the smallest value; without ties the order of the replicas does not matter.\<close>

lemma max_element_assoc_comm: "inj get_value \<Longrightarrow> assoc_comm (max_element get_value)"
  by (auto simp: assoc_comm_def max_element_def dest: injD)

lemma min_element_assoc_comm: "inj get_value \<Longrightarrow> assoc_comm (min_element get_value)"
  by (auto simp: assoc_comm_def min_element_def dest: injD)

lemma fold1_snoc: "xs \<noteq> [] \<Longrightarrow> fold1 f (xs @ [x]) = f (fold1 f xs) x"
  by (cases xs) (simp_all add: fold1_def)

lemma fold1_max_element:
  assumes "xs \<noteq> []"
  shows "fold1 (max_element get_value) xs \<in> set xs" and "x \<in> set xs \<Longrightarrow> get_value x \<le> get_value (fold1 (max_element get_value) xs)"
proof -
  have "fold1 (max_element get_value) xs \<in> set xs \<and> (\<forall>x \<in> set xs. get_value x \<le> get_value (fold1 (max_element get_value) xs))"
    using assms
  proof (induction xs rule: rev_induct)
    case (snoc x xs)
    then show ?case
    proof (cases "xs = []")
      case False
      with snoc show ?thesis by (auto simp: fold1_snoc max_element_def)
    qed (simp add: fold1_def)
  qed simp
  then show "fold1 (max_element get_value) xs \<in> set xs" and "x \<in> set xs \<Longrightarrow> get_value x \<le> get_value (fold1 (max_element get_value) xs)" by blast+
qed

section \<open>Reductions of a whole stream\<close>

definition reduce_next :: "('a \<Rightarrow> 'a \<Rightarrow> 'a) \<Rightarrow> ('s, 'a) pull \<Rightarrow> (('s, 'a option) fold_op, 'a) pull" where
  "reduce_next f prev = map_res_next unwrapR (fold_next (reduce_local f) None prev)"

definition reduce_assoc_local :: "('a \<Rightarrow> 'a \<Rightarrow> 'a) \<Rightarrow> ('s, 'a) pull \<Rightarrow> (('s, 'a option) fold_op, 'a option) pull" where
  "reduce_assoc_local f prev = fold_next (reduce_local f) None prev"

definition reduce_assoc_global :: "('a \<Rightarrow> 'a \<Rightarrow> 'a) \<Rightarrow> ('s, 'a option) pull \<Rightarrow> (('s, 'a option) fold_op, 'a) pull" where
  "reduce_assoc_global f prev = map_res_next unwrapR (fold_next (reduce_global f) None prev)"

definition reduce_iteration :: "('a \<Rightarrow> 'a \<Rightarrow> 'a) \<Rightarrow> 'a stream_element list \<Rightarrow> 'a stream_element list" where
  "reduce_iteration f seg =
     (if elem_values seg = [] then [] else [with_timestamp (max_of (stamps seg)) (fold1 f (elem_values seg))]) @
     (case max_of (watermarks seg) of None \<Rightarrow> [] | Some w \<Rightarrow> [Watermark w])"

lemma elem_map_unsegment: "map (elem_map g) (unsegment segs) = unsegment (map (map (elem_map g)) segs)"
  by (simp add: unsegment_def map_concat comp_def)

lemma elem_values_unsegment: "set (elem_values (unsegment segs)) = (\<Union>seg \<in> set segs. set (elem_values seg))"
  by (induction segs) (auto simp: unsegment_def elem_values_def)

lemma elem_map_with_timestamp: "elem_map g (with_timestamp t x) = with_timestamp t (g x)"
  by (cases t) simp_all

lemma elem_values_iteration:
  "elem_values (fold_iteration f init seg) = (if elem_values seg = [] then [] else [foldl f init (elem_values seg)])"
  by (cases "max_of (stamps seg)"; cases "max_of (watermarks seg)") (simp_all add: fold_iteration_def elem_values_def)

lemma reduce_reduces:
  assumes "wf_stream es" and "pulls p s es s'"
  shows "\<exists>st'. pulls (reduce_next f p) (fold_new s) (unsegment (map (reduce_iteration f) (iterations es))) st'"
proof -
  from fold_op.produces [OF assms(1) TrueI assms(2), of "reduce_local f" None] obtain st' where
    fold: "pulls (fold_next (reduce_local f) None p) (fold_new s) (fold_sem (reduce_local f) None es) st'" ..
  have "unwrapR x = ret (the x)" if "x \<in> set (elem_values (fold_sem (reduce_local f) None es))" for x
    using that by (auto simp: fold_sem_def elem_values_unsegment elem_values_iteration reduce_fold split: if_splits)
  from pulls_map_res [OF fold this] have "pulls (reduce_next f p) (fold_new s) (map (elem_map the) (fold_sem (reduce_local f) None es)) st'"
    unfolding reduce_next_def .
  moreover have "map (elem_map the) (fold_iteration (reduce_local f) None seg) = reduce_iteration f seg" for seg
    by (auto simp: fold_iteration_def reduce_iteration_def reduce_fold elem_map_with_timestamp split: option.split)
  then have "map (elem_map the) (fold_sem (reduce_local f) None es) = unsegment (map (reduce_iteration f) (iterations es))"
    by (simp add: fold_sem_def elem_map_unsegment comp_def)
  ultimately show ?thesis by auto
qed

text \<open>What the single replica behind \<^verbatim>\<open>reduce_assoc\<close> makes of the reductions of the others.\<close>

lemma reduce_global_fold: "xs \<noteq> [] \<Longrightarrow> foldl (reduce_global f) None (map Some xs) = Some (fold1 f xs)"
proof (induction xs rule: rev_induct)
  case (snoc x xs)
  then show ?case by (cases "xs = []") (simp_all add: fold1_snoc reduce_global_def, simp add: fold1_def)
qed simp

lemma reduce_assoc_reduces:
  assumes "wf_stream es" and "pulls p s (map (elem_map Some) es) s'"
  shows "\<exists>st'. pulls (reduce_assoc_global f p) (fold_new s) (unsegment (map (reduce_iteration f) (iterations es))) st'"
proof -
  let ?es = "map (elem_map Some) es"
  have wf: "wf_stream ?es" using assms(1) by (simp add: wf_stream_def wf_from_map)
  have its: "iterations ?es = map (map (elem_map Some)) (iterations es)"
  proof -
    have "?es = unsegment (map (map (elem_map Some)) (iterations es))"
      using wf_stream_unsegment(1) [OF assms(1)] by (metis elem_map_unsegment)
    moreover have "\<forall>seg \<in> set (map (map (elem_map Some)) (iterations es)). data_only seg"
      using wf_stream_unsegment(2) [OF assms(1)] by (simp add: data_only_map)
    ultimately show ?thesis using iterations_unsegment by metis
  qed
  have elem: "item_timestamp (elem_map Some e) = item_timestamp e" "watermark_of (elem_map Some e) = watermark_of e" for e :: "'a stream_element"
    by (cases e; simp)+
  have stamps: "stamps (map (elem_map Some) seg) = stamps seg" "watermarks (map (elem_map Some) seg) = watermarks seg" for seg :: "'a stream_element list"
    by (induction seg) (simp_all add: stamps_def watermarks_def List.map_filter_simps elem split: option.split)
  from fold_op.produces [OF wf TrueI assms(2), of "reduce_global f" None] obtain st' where
    fold: "pulls (fold_next (reduce_global f) None p) (fold_new s) (fold_sem (reduce_global f) None ?es) st'" ..
  have "unwrapR x = ret (the x)" if "x \<in> set (elem_values (fold_sem (reduce_global f) None ?es))" for x
    using that by (auto simp: fold_sem_def its elem_values_unsegment elem_values_iteration elem_values_map reduce_global_fold split: if_splits)
  from pulls_map_res [OF fold this] have "pulls (reduce_assoc_global f p) (fold_new s) (map (elem_map the) (fold_sem (reduce_global f) None ?es)) st'"
    unfolding reduce_assoc_global_def .
  moreover have "map (elem_map the) (fold_iteration (reduce_global f) None (map (elem_map Some) seg)) = reduce_iteration f seg" for seg
    by (auto simp: fold_iteration_def reduce_iteration_def reduce_global_fold elem_values_map stamps elem_map_with_timestamp split: option.split)
  then have "map (elem_map the) (fold_sem (reduce_global f) None ?es) = unsegment (map (reduce_iteration f) (iterations es))"
    by (simp add: fold_sem_def its elem_map_unsegment comp_def)
  ultimately show ?thesis by auto
qed

section \<open>The aggregations over the network\<close>

lemma keyed_map_res_ret:
  fixes p :: "('s, 'a \<times> 'b) pull"
  shows "keyed_map_res (\<lambda>_. ret) p = p"
proof
  fix s
  have id: "elem_mapR (\<lambda>(k, v). ret (k, v)) e = ret e" for e :: "('a \<times> 'b) stream_element" by (cases e) auto
  show "keyed_map_res (\<lambda>_. ret) p s = p s"
    unfolding keyed_map_res_def map_res_next_def bindR_simps id by (simp add: bindR_def split: option.split sum.split prod.split)
qed

lemmas group_by_reduce_distributes = aggregate.distributes [OF reduce_aggregate, folded group_by_reduce_def]
lemmas group_by_sum_distributes = aggregate.distributes [OF sum_aggregate, folded group_by_sum_def]
lemmas group_by_max_element_distributes =
  aggregate.distributes [OF reduce_aggregate [OF max_element_assoc_comm], folded group_by_reduce_def, folded group_by_max_element_def]
lemmas group_by_min_element_distributes =
  aggregate.distributes [OF reduce_aggregate [OF min_element_assoc_comm], folded group_by_reduce_def, folded group_by_min_element_def]
lemmas group_by_count_distributes = count_agg.distributes [unfolded keyed_map_res_ret, folded group_by_count_def]

text \<open>
  C4: Averages by key over the network. Let every replica of a block sum and count its own elements by key and send the results, with
  any batching, interleaving and timeouts. Then the replica behind the endpoint \<open>ep\<close> returns, for exactly the keys
  whose hash chooses it, one element each: the sum of the values of all the elements of that key in all the replicas,
  divided by their number; the \<^verbatim>\<open>unwrap\<close> of the sum never panics. The addition has to be associative and commutative.
\<close>

theorem group_by_avg_averages:
  fixes keyer :: "'a \<Rightarrow> 'k" and get_value :: "'a \<Rightarrow> 'v"
  assumes "assoc_comm add"
    and "hash_order ho1" "hash_order ho2" "hash_order eo" and "distinct cs" "cs \<noteq> []" and "block_endpoints eps" "ep \<in> set eps"
    and "\<forall>c \<in> set cs. sent_local_folds ho1 eo rng t0 keyer hash (None, 0) (avg_local get_value add) eps (prev c) (s c) (seg c) net c"
    and "\<forall>m \<in> set (nt_queue net ep). nm_sender m \<in> set cs"
    and "lock_returns lock" and "pulls (start_fetch recv recv_timeout md) (False, rcv) ms q" "reads_queue net ep ms"
  shows "\<exists>out st'. pulls (group_by_avg ho2 add dv (start_next recv recv_timeout))
      (keyed_fold_new (start_setup coord md rcv cs (start_new rcv0 lock))) (out @ [FlushAndRestart, Terminate]) st'
    \<and> data_only out
    \<and> mset (elem_values out) = image_mset (\<lambda>k. let vs = concat (map (\<lambda>c. group_values keyer k (seg c)) cs)
          in (k, dv (fold1 add (map get_value vs)) (length vs)))
        (mset_set {k. responsible hash eps ep k \<and> (\<exists>c \<in> set cs. group_values keyer k (seg c) \<noteq> [])})"
  unfolding Let_def group_by_avg_def by (rule aggregate.distributes [OF avg_aggregate [OF assms(1)] assms(2-)])

theorem group_by_avg_averages_witness:
  "\<exists>ms out st'. pulls (group_by_avg rev (+) (div) (start_next script_recv script_recv_timeout))
      (keyed_fold_new (start_setup (Coord 3 0 0) None ms [Coord 2 0 0] (start_new [] None))) (out @ [FlushAndRestart, Terminate]) st'
    \<and> mset (elem_values out) = {# (False, 6::nat) #}"
proof -
  let ?c = "Coord 2 0 0" and ?ep = "ReceiverEndpoint (Coord 3 0 0) 2"
  let ?lc = "avg_local (\<lambda>x::nat. 2 * x) (+)"
  obtain net where net: "sent_local_folds (\<lambda>m. m) (\<lambda>m. m) (\<lambda>r::unit. (0, r)) 0 even (\<lambda>b. if b then 4 else 5) (None, 0) ?lc [?ep] fake_next
      [Item (3::nat), FlushAndRestart, Terminate] [Item 3] net ?c"
    "nt_queue net ?ep = [new_batch [Item (False, ?lc (None, 0) 3), FlushAndRestart] ?c, new_batch [Terminate] ?c]"
    using example_sent [of "(None, 0)" ?lc] by auto
  let ?ms = "nt_queue net ?ep"
  have fetch: "pulls (start_fetch script_recv script_recv_timeout None) (False, map Some ?ms) ?ms (False, [])"
    unfolding net(2) by (subst pulls_Cons_iff, simp add: start_fetch_def)+
  have reads: "reads_queue net ?ep ?ms"
    unfolding reads_queue_def net(2) by (simp add: timeout_message_def new_batch_def new_single_def)
  have add: "assoc_comm ((+) :: nat \<Rightarrow> nat \<Rightarrow> nat)" by (simp add: assoc_comm_def)
  have keys: "{k. responsible (\<lambda>b. if b then 4 else 5) [?ep] ?ep k \<and> (\<exists>c \<in> set [?c]. group_values even k [Item (3::nat)] \<noteq> [])} = {False}"
    by (auto simp: responsible_def group_values_def)
  have sent: "\<forall>c \<in> set [?c]. sent_local_folds (\<lambda>m. m) (\<lambda>m. m) (\<lambda>r::unit. (0, r)) 0 even (\<lambda>b. if b then 4 else 5) (None, 0) ?lc [?ep] fake_next
      [Item 3, FlushAndRestart, Terminate] [Item 3] net c" using net(1) by simp
  have queue: "\<forall>m \<in> set ?ms. nm_sender m \<in> set [?c]" unfolding net(2) by (simp add: new_batch_def)
  have eps: "block_endpoints [?ep]" and lock: "lock_returns None" by (simp_all add: block_endpoints_def lock_returns_def)
  from group_by_avg_averages [where ep = ?ep and cs = "[?c]" and prev = "\<lambda>_. fake_next" and seg = "\<lambda>_. [Item 3]"
        and s = "\<lambda>_. [Item 3, FlushAndRestart, Terminate]" and coord = "Coord 3 0 0" and ?rcv0.0 = "[]" and keyer = even and dv = "(div)",
        OF add hash_order_id hash_order_rev hash_order_id _ _ eps _ sent queue lock fetch reads]
  obtain out st' where res: "pulls (group_by_avg rev (+) (div) (start_next script_recv script_recv_timeout))
      (keyed_fold_new (start_setup (Coord 3 0 0) None (map Some ?ms) [?c] (start_new [] None))) (out @ [FlushAndRestart, Terminate]) st'"
    "mset (elem_values out) = image_mset (\<lambda>k. let vs = concat (map (\<lambda>c. group_values even k [Item (3::nat)]) [?c])
       in (k, fold1 (+) (map (\<lambda>x. 2 * x) vs) div length vs)) (mset_set {False})"
    unfolding keys by auto
  have "mset (elem_values out) = {# (False, 6::nat) #}" using res(2) by (simp add: group_values_def fold1_def)
  with res(1) show ?thesis by blast
qed

section \<open>Removing duplicates\<close>

text \<open>
  Both methods filter twice, before and after a shuffle, with the same test. The set of the second step belongs to a replica: it
  is captured by the closure of its \<^verbatim>\<open>rich_flat_map\<close>, which is a \<^verbatim>\<open>RichMap\<close> with one key and a \<^verbatim>\<open>Flatten\<close>. This is the step
  modelled here; the set of the first one is shared by the replicas of a host. \<^verbatim>\<open>insert\<close> of the hash sets returns whether the value
  was not there yet.
\<close>

definition set_insert :: "'k \<Rightarrow> 'k list \<Rightarrow> bool \<times> 'k list" where
  "set_insert k seen = (if k \<in> set seen then (False, seen) else (True, k # seen))"

definition unique_step :: "'a list \<Rightarrow> unit \<Rightarrow> 'a \<Rightarrow> 'a list \<times> 'a list" where
  "unique_step seen _ el = (if el \<notin> set seen then ([el], snd (set_insert el seen)) else ([], seen))"

definition unique_by_key_step :: "('a \<Rightarrow> 'k) \<Rightarrow> 'k list \<Rightarrow> unit \<Rightarrow> 'a \<Rightarrow> 'a list \<times> 'k list" where
  "unique_by_key_step f seen _ el = (case set_insert (f el) seen of (inserted, seen) \<Rightarrow> (if \<not> inserted then [el] else [], seen))"

definition rich_flat_map :: "('c \<Rightarrow> unit \<Rightarrow> 'a \<Rightarrow> 'b list \<times> 'c) \<Rightarrow> 'c \<Rightarrow> ('s, 'a) pull
    \<Rightarrow> ((('s, unit, 'c) rich_map, 'b) flat_map, 'b) pull" where
  "rich_flat_map f c prev = flatten_next (map_next snd (rich_map_next f c (key_by_next (\<lambda>_. ()) prev)))"

definition rich_flat_map_new :: "'s \<Rightarrow> (('s, unit, 'c) rich_map, 'b) flat_map" where
  "rich_flat_map_new s = flat_map_new (rich_map_new s)"

definition rich_flat_map_sem :: "('c \<Rightarrow> unit \<Rightarrow> 'a \<Rightarrow> 'b list \<times> 'c) \<Rightarrow> 'c \<Rightarrow> 'a stream_element list \<Rightarrow> 'b stream_element list" where
  "rich_flat_map_sem f c es =
     concat (map (elem_flat_map (\<lambda>x. x)) (map (elem_map snd) (rich_map_sem f c (map (elem_map (\<lambda>t. ((), t))) es))))"

interpretation rich_flat_map_op: stream_operator rich_flat_map_new "rich_flat_map f c" "rich_flat_map_sem f c" "\<lambda>_. True"
  for f :: "'c \<Rightarrow> unit \<Rightarrow> 'a \<Rightarrow> 'b list \<times> 'c" and c
proof
  fix es :: "'a stream_element list" and s s' and p :: "('s, 'a) pull"
  assume wf: "wf_stream es" and pulls: "pulls p s es s'"
  from key_by_op.produces [OF wf TrueI pulls, of "\<lambda>_. ()"] obtain s1 where
    k: "pulls (key_by_next (\<lambda>_. ()) p) s (map (elem_map (\<lambda>t. ((), t))) es) s1" ..
  have wf1: "wf_stream (map (elem_map (\<lambda>t. ((), t))) es)" using wf by (simp add: wf_stream_def wf_from_map)
  from rich_map_op.produces [where f = f and c = c, OF wf1 TrueI k] obtain s2 where
    r: "pulls (rich_map_next f c (key_by_next (\<lambda>_. ()) p)) (rich_map_new s) (rich_map_sem f c (map (elem_map (\<lambda>t. ((), t))) es)) s2" by blast
  have wf2: "wf_stream (map (elem_map snd) (rich_map_sem f c (map (elem_map (\<lambda>t. ((), t))) es)))"
    using rich_map_op.sem_wf [OF wf1 TrueI] by (simp add: wf_stream_def wf_from_map)
  from flatten_op.produces [OF wf2 TrueI pulls_map [OF r]] show "\<exists>st'. pulls (rich_flat_map f c p) (rich_flat_map_new s) (rich_flat_map_sem f c es) st'"
    unfolding rich_flat_map_def rich_flat_map_new_def rich_flat_map_sem_def .
next
  fix es :: "'a stream_element list"
  assume "wf_stream es"
  then have "wf_stream (map (elem_map (\<lambda>t. ((), t))) es)" by (simp add: wf_stream_def wf_from_map)
  from rich_map_op.sem_wf [OF this TrueI] show "wf_stream (rich_flat_map_sem f c es)"
    unfolding rich_flat_map_sem_def by (intro wf_stream_flat_map) (simp add: wf_stream_def wf_from_map)
qed

text \<open>The values that pass: the closure applied to one value after the other, in all the iterations.\<close>

fun flat_scan :: "('c \<Rightarrow> unit \<Rightarrow> 'a \<Rightarrow> 'b list \<times> 'c) \<Rightarrow> 'c \<Rightarrow> 'a list \<Rightarrow> 'b list" where
  "flat_scan f c [] = []"
| "flat_scan f c (v # vs) = (case f c () v of (out, c') \<Rightarrow> out @ flat_scan f c' vs)"

lemma flat_scan_snoc: "flat_scan f c (vs @ [v]) = flat_scan f c vs @ fst (f (closure_after f c () vs) () v)"
  by (induction vs arbitrary: c) (auto simp: closure_after_def split: prod.splits)

lemma elem_values_items: "elem_values (map Item xs) = xs" "elem_values (map (\<lambda>y. Timestamped y t) xs) = xs"
  by (induction xs) (simp_all add: elem_values_def)

lemma rich_flat_map_values: "elem_values (rich_flat_map_sem f c es) = flat_scan f c (elem_values es)"
proof (induction es rule: rev_induct)
  case (snoc e es)
  let ?k = "map (elem_map (\<lambda>t. ((), t))) es"
  have keys: "key_values () ?k = elem_values es"
  proof (induction es)
    case (Cons e es)
    then show ?case by (cases e) (auto simp: key_values_def key_elems_def elem_values_def)
  qed (simp add: key_values_def key_elems_def elem_values_def)
  have "rich_flat_map_sem f c (es @ [e]) = rich_flat_map_sem f c es @ elem_flat_map (\<lambda>x. x)
      (elem_map snd (elem_map (\<lambda>(k, v). (k, fst (f (closure_after f c k (key_values k ?k)) k v))) (elem_map (\<lambda>t. ((), t)) e)))"
    by (simp add: rich_flat_map_sem_def rich_map_sem_snoc)
  with snoc keys show ?case
    by (cases e) (simp_all add: elem_values_def flat_scan_snoc elem_values_items [unfolded elem_values_def])
qed (simp add: rich_flat_map_sem_def rich_map_sem_def elem_values_def)

text \<open>A closure that keeps the set of the keys it has seen and lets a value pass depending on whether its key is among them.\<close>

lemma seen_after:
  assumes "\<And>seen el. set (snd (step seen () el)) = insert (f el) (set seen)"
  shows "set (closure_after step seen () vs) = set seen \<union> f ` set vs"
  by (induction vs rule: rev_induct) (simp_all add: closure_after_def assms)

lemma scan_seen:
  assumes "\<And>seen el. set (snd (step seen () el)) = insert (f el) (set seen)"
    and "\<And>seen el. fst (step seen () el) = (if Q (f el \<in> set seen) then [el] else [])"
  shows "flat_scan step [] vs = map ((!) vs) (filter (\<lambda>i. Q (f (vs ! i) \<in> f ` set (take i vs))) [0..<length vs])"
proof (induction vs rule: rev_induct)
  case (snoc v vs)
  have "map ((!) (vs @ [v])) (filter (\<lambda>i. Q (f ((vs @ [v]) ! i) \<in> f ` set (take i (vs @ [v])))) [0..<length vs])
      = map ((!) vs) (filter (\<lambda>i. Q (f (vs ! i) \<in> f ` set (take i vs))) [0..<length vs])"
  proof -
    have "filter (\<lambda>i. Q (f ((vs @ [v]) ! i) \<in> f ` set (take i (vs @ [v])))) [0..<length vs] = filter (\<lambda>i. Q (f (vs ! i) \<in> f ` set (take i vs))) [0..<length vs]"
      by (intro filter_cong) (simp_all add: nth_append)
    then show ?thesis by (simp add: nth_append)
  qed
  moreover have "fst (step (closure_after step [] () vs) () v) = (if Q (f v \<in> f ` set vs) then [v] else [])"
    using assms(2) seen_after [of step f "[]" vs] assms(1) by simp
  ultimately show ?case using snoc by (simp add: flat_scan_snoc)
qed simp

lemma unique_scan: "flat_scan unique_step [] vs = map ((!) vs) (filter (\<lambda>i. vs ! i \<notin> set (take i vs)) [0..<length vs])"
  by (subst scan_seen [where f = "\<lambda>x. x" and Q = Not]) (auto simp: unique_step_def set_insert_def)

lemma unique_by_key_scan:
  "flat_scan (unique_by_key_step f) [] vs = map ((!) vs) (filter (\<lambda>i. f (vs ! i) \<in> f ` set (take i vs)) [0..<length vs])"
  by (subst scan_seen [where f = f and Q = "\<lambda>b. b"]) (auto simp: unique_by_key_step_def set_insert_def)

text \<open>\<^verbatim>\<open>unique_assoc\<close>: the first occurrence of every value passes.\<close>

lemma unique_assoc_keeps_first:
  assumes "wf_stream es" and "pulls p s es s'"
  shows "\<exists>out st'. pulls (rich_flat_map unique_step [] p) (rich_flat_map_new s) out st' \<and> wf_stream out
     \<and> elem_values out = (let vs = elem_values es in map ((!) vs) (filter (\<lambda>i. vs ! i \<notin> set (take i vs)) [0..<length vs]))"
  using rich_flat_map_op.produces [OF assms(1) TrueI assms(2), of unique_step "[]"] rich_flat_map_op.sem_wf [OF assms(1) TrueI, of unique_step "[]"]
  by (auto simp: Let_def rich_flat_map_values unique_scan)

text \<open>
  C40: \<^verbatim>\<open>unique_assoc_by_key\<close> keeps the wrong elements. Its documentation promises one element for each key; the test of \<^verbatim>\<open>insert\<close> is
  inverted, so that the step behind the shuffle lets exactly the elements pass whose key the replica has seen before, and drops the
  first one of every key: a stream in which no key occurs twice becomes empty.
\<close>

theorem unique_assoc_by_key_drops_first:
  assumes "wf_stream es" and "pulls p s es s'"
  shows "\<exists>out st'. pulls (rich_flat_map (unique_by_key_step f) [] p) (rich_flat_map_new s) out st' \<and> wf_stream out
     \<and> elem_values out = (let vs = elem_values es in map ((!) vs) (filter (\<lambda>i. f (vs ! i) \<in> f ` set (take i vs)) [0..<length vs]))
     \<and> (distinct (map f (elem_values es)) \<longrightarrow> elem_values out = [])"
proof -
  let ?vs = "elem_values es"
  have "filter (\<lambda>i. f (?vs ! i) \<in> f ` set (take i ?vs)) [0..<length ?vs] = []" if "distinct (map f ?vs)"
  proof -
    have "f (?vs ! i) \<notin> f ` set (take i ?vs)" if "i < length ?vs" for i
    proof
      assume "f (?vs ! i) \<in> f ` set (take i ?vs)"
      then obtain j where "j < i" "f (?vs ! j) = f (?vs ! i)" using that by (auto simp: in_set_conv_nth)
      with \<open>distinct (map f ?vs)\<close> that show False using nth_eq_iff_index_eq [of "map f ?vs" j i] by simp
    qed
    then show ?thesis by (simp add: filter_empty_conv)
  qed
  then show ?thesis
    using rich_flat_map_op.produces [OF assms(1) TrueI assms(2), of "unique_by_key_step f" "[]"]
      rich_flat_map_op.sem_wf [OF assms(1) TrueI, of "unique_by_key_step f" "[]"]
    by (auto simp: Let_def rich_flat_map_values unique_by_key_scan)
qed

theorem unique_assoc_by_key_drops_first_witness:
  "\<exists>out st'. pulls (rich_flat_map (unique_by_key_step (\<lambda>x. x mod 2)) [] fake_next)
      (rich_flat_map_new [Item (1::nat), Item 2, Item 3, FlushAndRestart, Terminate]) out st' \<and> elem_values out = [3]"
proof -
  have wf: "wf_stream [Item (1::nat), Item 2, Item 3, FlushAndRestart, Terminate]" by (simp add: wf_stream_def)
  have "elem_values [Item (1::nat), Item 2, Item 3, FlushAndRestart, Terminate] = [1, 2, 3]" by (simp add: elem_values_def List.map_filter_simps)
  moreover have "map ((!) [1, 2, 3::nat]) (filter (\<lambda>i. ([1, 2, 3::nat] ! i) mod 2 \<in> (\<lambda>x. x mod 2) ` set (take i [1, 2, 3])) [0..<length [1, 2, 3::nat]]) = [3]"
    by code_simp
  ultimately show ?thesis using unique_assoc_by_key_drops_first [OF wf pulls_fake_all, of "\<lambda>x. x mod 2"] unfolding Let_def by metis
qed

end
