(* ===== verification/Sinks.thy ===== *)
theory Sinks
  imports Aggregations
begin

text \<open>
  The operators that end a job (\<^verbatim>\<open>src/operator/sink\<close>): they collect a stream into a vector, a collection, a number or a
  channel, or call a closure for every element. The cell \<^verbatim>\<open>StreamOutputRef\<close>, shared with the caller, is part of the state. The locale
  \<open>sink\<close> is their contract: the worker of their block ends, and then the output holds a function of the values of the stream.
\<close>

section \<open>The sinks\<close>

record ('s, 'a) collect_vec_sink =
  cv_prev :: 's
  cv_result :: "'a list option"
  cv_output :: "'a list option"

definition collect_vec_new :: "'s \<Rightarrow> ('s, 'a) collect_vec_sink" where
  "collect_vec_new prev = \<lparr>cv_prev = prev, cv_result = Some [], cv_output = None\<rparr>"

definition collect_vec_push :: "'a \<Rightarrow> ('s, 'a) collect_vec_sink \<Rightarrow> ('s, 'a) collect_vec_sink" where
  "collect_vec_push t st = (case cv_result st of Some result \<Rightarrow> st\<lparr>cv_result := Some (result @ [t])\<rparr> | None \<Rightarrow> st)"

definition collect_vec_next :: "('s, 'a) pull \<Rightarrow> (('s, 'a) collect_vec_sink, unit) pull" where
  "collect_vec_next prev st =
     bindR (prev (cv_prev st)) (\<lambda>(e, s).
       let st = st\<lparr>cv_prev := s\<rparr> in
       case e of
         Item t \<Rightarrow> ret (Item (), collect_vec_push t st)
       | Timestamped t _ \<Rightarrow> ret (Item (), collect_vec_push t st)
       | Watermark w \<Rightarrow> ret (Watermark w, st)
       | Terminate \<Rightarrow>
           ret (Terminate, case cv_result st of Some result \<Rightarrow> st\<lparr>cv_result := None, cv_output := Some result\<rparr> | None \<Rightarrow> st)
       | FlushBatch \<Rightarrow> ret (FlushBatch, st)
       | FlushAndRestart \<Rightarrow> ret (FlushAndRestart, st))"

record 's collect_count_sink =
  cc_prev :: 's
  cc_result :: nat
  cc_output :: "nat option"

definition collect_count_new :: "'s \<Rightarrow> 's collect_count_sink" where
  "collect_count_new prev = \<lparr>cc_prev = prev, cc_result = 0, cc_output = None\<rparr>"

definition collect_count_next :: "('s, nat) pull \<Rightarrow> ('s collect_count_sink, unit) pull" where
  "collect_count_next prev st =
     bindR (prev (cc_prev st)) (\<lambda>(e, s).
       let st = st\<lparr>cc_prev := s\<rparr> in
       case e of
         Item c \<Rightarrow> ret (Item (), st\<lparr>cc_result := cc_result st + c\<rparr>)
       | Timestamped c _ \<Rightarrow> ret (Item (), st\<lparr>cc_result := cc_result st + c\<rparr>)
       | Watermark w \<Rightarrow> ret (Watermark w, st)
       | Terminate \<Rightarrow> ret (Terminate, st\<lparr>cc_output := Some (cc_result st)\<rparr>)
       | FlushBatch \<Rightarrow> ret (FlushBatch, st)
       | FlushAndRestart \<Rightarrow> ret (FlushAndRestart, st))"

text \<open>
  \<^verbatim>\<open>CollectChannelSink\<close>: the channel is unbounded; a send succeeds while its receiver exists and its error is ignored. \<open>chan_open\<close>
  says whether the receiver still exists at each send.
\<close>

record ('s, 'a) collect_channel_sink =
  ch_prev :: 's
  ch_tx :: bool
  ch_sent :: "'a list"

definition collect_channel_new :: "'s \<Rightarrow> ('s, 'a) collect_channel_sink" where
  "collect_channel_new prev = \<lparr>ch_prev = prev, ch_tx = True, ch_sent = []\<rparr>"

definition collect_channel_send :: "('a list \<Rightarrow> bool) \<Rightarrow> 'a \<Rightarrow> ('s, 'a) collect_channel_sink \<Rightarrow> ('s, 'a) collect_channel_sink" where
  "collect_channel_send chan_open t st = (if ch_tx st \<and> chan_open (ch_sent st) then st\<lparr>ch_sent := ch_sent st @ [t]\<rparr> else st)"

definition collect_channel_next :: "('a list \<Rightarrow> bool) \<Rightarrow> ('s, 'a) pull \<Rightarrow> (('s, 'a) collect_channel_sink, unit) pull" where
  "collect_channel_next chan_open prev st =
     bindR (prev (ch_prev st)) (\<lambda>(e, s).
       let st = st\<lparr>ch_prev := s\<rparr> in
       case e of
         Item t \<Rightarrow> ret (Item (), collect_channel_send chan_open t st)
       | Timestamped t _ \<Rightarrow> ret (Item (), collect_channel_send chan_open t st)
       | Watermark w \<Rightarrow> ret (Watermark w, st)
       | Terminate \<Rightarrow> ret (Terminate, st\<lparr>ch_tx := False\<rparr>)
       | FlushBatch \<Rightarrow> ret (FlushBatch, st)
       | FlushAndRestart \<Rightarrow> ret (FlushAndRestart, st))"

text \<open>\<^verbatim>\<open>ForEach\<close> with the state its closure captures.\<close>

partial_function (option) for_each_next :: "('c \<Rightarrow> 'a \<Rightarrow> 'c) \<Rightarrow> ('s, 'a) pull \<Rightarrow> ('s \<times> 'c, unit) pull" where
  "for_each_next f prev st =
     bindR (prev (fst st)) (\<lambda>(e, s).
       case e of
         Item t \<Rightarrow> for_each_next f prev (s, f (snd st) t)
       | Timestamped t _ \<Rightarrow> for_each_next f prev (s, f (snd st) t)
       | Watermark w \<Rightarrow> ret (Watermark w, (s, snd st))
       | Terminate \<Rightarrow> ret (Terminate, (s, snd st))
       | FlushBatch \<Rightarrow> ret (FlushBatch, (s, snd st))
       | FlushAndRestart \<Rightarrow> ret (FlushAndRestart, (s, snd st)))"

text \<open>
  \<^verbatim>\<open>Collect\<close> gives an iterator over the whole stream to \<^verbatim>\<open>FromIterator::from_iter\<close>, an argument that takes all of it. \<open>collect_next_item\<close>
  is the closure of the iterator.
\<close>

partial_function (option) collect_next_item :: "('s, 'a) pull \<Rightarrow> 's \<Rightarrow> ('a option \<times> 's) res" where
  "collect_next_item prev s =
     bindR (prev s) (\<lambda>(e, s).
       case e of
         Item t \<Rightarrow> ret (Some t, s)
       | Timestamped t _ \<Rightarrow> ret (Some t, s)
       | Terminate \<Rightarrow> ret (None, s)
       | _ \<Rightarrow> collect_next_item prev s)"

partial_function (option) collect_items :: "('s, 'a) pull \<Rightarrow> 'a list \<Rightarrow> 's \<Rightarrow> ('a list \<times> 's) res" where
  "collect_items prev acc s =
     bindR (collect_next_item prev s) (\<lambda>(x, s). case x of Some t \<Rightarrow> collect_items prev (acc @ [t]) s | None \<Rightarrow> ret (acc, s))"

definition collect_next :: "('a list \<Rightarrow> 'c) \<Rightarrow> ('s, 'a) pull \<Rightarrow> ('s \<times> 'c option, unit) pull" where
  "collect_next from_iter prev st =
     bindR (collect_items prev [] (fst st)) (\<lambda>(xs, s). ret (Terminate, (s, Some (from_iter xs))))"

text \<open>\<^verbatim>\<open>StreamOutput::get\<close>: the content is taken out of the cell.\<close>

definition output_get :: "'c option \<Rightarrow> 'c option \<times> 'c option" where
  "output_get cell = (cell, None)"

section \<open>Their contract\<close>

locale sink =
  fixes make :: "'s \<Rightarrow> 'st" and nxt :: "('s, 'a) pull \<Rightarrow> ('st, unit) pull" and out :: "'st \<Rightarrow> 'c option" and spec :: "'a list \<Rightarrow> 'c"
  assumes collects: "pulls p s (ys @ [Terminate]) s' \<Longrightarrow> Terminate \<notin> set ys
      \<Longrightarrow> \<exists>st'. do_work (nxt p) (make s) = ret st' \<and> out st' = Some (spec (elem_values ys))"
begin

lemma collects_stream:
  assumes "wf_stream es" and "pulls p s es s'"
  shows "\<exists>st'. do_work (nxt p) (make s) = ret st' \<and> out st' = Some (spec (elem_values es))"
proof -
  from assms(1) obtain ys where "es = ys @ [Terminate]" "Terminate \<notin> set ys" by (rule wf_stream_ends)
  with collects assms(2) show ?thesis by (simp add: elem_values_def)
qed

end

section \<open>They meet it\<close>

text \<open>What the sinks that answer every element return: a unit for each datum, everything else as it is.\<close>

fun sink_elem :: "'a stream_element \<Rightarrow> unit stream_element" where
  "sink_elem (Item _) = Item ()"
| "sink_elem (Timestamped _ _) = Item ()"
| "sink_elem (Watermark w) = Watermark w"
| "sink_elem FlushBatch = FlushBatch"
| "sink_elem FlushAndRestart = FlushAndRestart"
| "sink_elem Terminate = Terminate"

lemma sink_elem_Terminate: "Terminate \<notin> set ys \<Longrightarrow> Terminate \<notin> set (map sink_elem ys)"
proof (induction ys)
  case (Cons e ys)
  then show ?case by (cases e) auto
qed simp

lemma elem_values_Cons: "elem_values (e # es) = (case elem_value e of Some x \<Rightarrow> x # elem_values es | None \<Rightarrow> elem_values es)"
  by (simp add: elem_values_def List.map_filter_simps split: option.split)

text \<open>A sink whose state after the data \<open>xs\<close> is \<open>st s xs\<close> and which stores its result when the stream ends.\<close>

lemma sink_collects:
  fixes p :: "('s, 'a) pull"
  assumes "\<And>s e s1 xs. p s = ret (e, s1) \<Longrightarrow> e \<noteq> Terminate \<Longrightarrow> nxt (st s xs) = ret (sink_elem e, st s1 (xs @ (case elem_value e of Some x \<Rightarrow> [x] | None \<Rightarrow> [])))"
    and "\<And>s s1 xs. p s = ret (Terminate, s1) \<Longrightarrow> nxt (st s xs) = ret (Terminate, final s1 xs)"
    and "pulls p s (ys @ [Terminate]) s'" and "Terminate \<notin> set ys"
  shows "do_work nxt (st s []) = ret (final s' (elem_values ys))"
proof -
  have "pulls nxt (st s xs) (map sink_elem ys @ [Terminate]) (final s' (xs @ elem_values ys))" for xs
    using assms(3,4)
  proof (induction ys arbitrary: s xs)
    case Nil
    then show ?case using assms(2) by (simp add: elem_values_def)
  next
    case (Cons e ys)
    then obtain s1 where e: "p s = ret (e, s1)" "e \<noteq> Terminate" and rest: "pulls p s1 (ys @ [Terminate]) s'" "Terminate \<notin> set ys"
      by (auto simp: pulls_Cons_iff)
    from Cons.IH [OF rest, of "xs @ (case elem_value e of Some x \<Rightarrow> [x] | None \<Rightarrow> [])"] assms(1) [OF e] show ?case
      by (cases "elem_value e") (auto simp: pulls_Cons_iff elem_values_Cons)
  qed
  from do_work_pulls [OF this [of "[]"] sink_elem_Terminate [OF assms(4)]] show ?thesis by simp
qed

lemma collect_vec_steps:
  fixes p :: "('s, 'a) pull"
  shows "p s = ret (e, s1) \<Longrightarrow> e \<noteq> Terminate \<Longrightarrow> collect_vec_next p \<lparr>cv_prev = s, cv_result = Some xs, cv_output = None\<rparr> =
      ret (sink_elem e, \<lparr>cv_prev = s1, cv_result = Some (xs @ (case elem_value e of Some x \<Rightarrow> [x] | None \<Rightarrow> [])), cv_output = None\<rparr>)"
    and "p s = ret (Terminate, s1) \<Longrightarrow> collect_vec_next p \<lparr>cv_prev = s, cv_result = Some xs, cv_output = None\<rparr> = ret (Terminate, \<lparr>cv_prev = s1, cv_result = None, cv_output = Some xs\<rparr>)"
  by (cases e) (simp_all add: collect_vec_next_def collect_vec_push_def Let_def)

interpretation collect_vec_sink: sink collect_vec_new "collect_vec_next :: ('s, 'a) pull \<Rightarrow> (_, unit) pull" cv_output "\<lambda>xs. xs"
proof
  fix p :: "('s, 'a) pull" and s ys s'
  assume ys: "pulls p s (ys @ [Terminate]) s'" "Terminate \<notin> set ys"
  have "do_work (collect_vec_next p) \<lparr>cv_prev = s, cv_result = Some [], cv_output = None\<rparr> = ret \<lparr>cv_prev = s', cv_result = None, cv_output = Some (elem_values ys)\<rparr>"
    by (rule sink_collects [where st = "\<lambda>s xs. \<lparr>cv_prev = s, cv_result = Some xs, cv_output = None\<rparr>" and final = "\<lambda>s xs. \<lparr>cv_prev = s, cv_result = None, cv_output = Some xs\<rparr>", OF collect_vec_steps ys])
  then show "\<exists>st'. do_work (collect_vec_next p) (collect_vec_new s) = ret st' \<and> cv_output st' = Some (elem_values ys)"
    by (simp add: collect_vec_new_def)
qed

lemma collect_count_steps:
  fixes p :: "('s, nat) pull"
  shows "p s = ret (e, s1) \<Longrightarrow> e \<noteq> Terminate \<Longrightarrow> collect_count_next p \<lparr>cc_prev = s, cc_result = sum_list xs, cc_output = None\<rparr> =
      ret (sink_elem e, \<lparr>cc_prev = s1, cc_result = sum_list (xs @ (case elem_value e of Some x \<Rightarrow> [x] | None \<Rightarrow> [])), cc_output = None\<rparr>)"
    and "p s = ret (Terminate, s1) \<Longrightarrow> collect_count_next p \<lparr>cc_prev = s, cc_result = sum_list xs, cc_output = None\<rparr> = ret (Terminate, \<lparr>cc_prev = s1, cc_result = sum_list xs, cc_output = Some (sum_list xs)\<rparr>)"
  by (cases e) (simp_all add: collect_count_next_def Let_def)

interpretation collect_count_sink: sink collect_count_new collect_count_next cc_output sum_list
proof
  fix p :: "('s, nat) pull" and s ys s'
  assume ys: "pulls p s (ys @ [Terminate]) s'" "Terminate \<notin> set ys"
  have "do_work (collect_count_next p) \<lparr>cc_prev = s, cc_result = sum_list [], cc_output = None\<rparr> = ret \<lparr>cc_prev = s', cc_result = sum_list (elem_values ys), cc_output = Some (sum_list (elem_values ys))\<rparr>"
    by (rule sink_collects [where st = "\<lambda>s xs. \<lparr>cc_prev = s, cc_result = sum_list xs, cc_output = None\<rparr>" and final = "\<lambda>s xs. \<lparr>cc_prev = s, cc_result = sum_list xs, cc_output = Some (sum_list xs)\<rparr>", OF collect_count_steps ys])
  then show "\<exists>st'. do_work (collect_count_next p) (collect_count_new s) = ret st' \<and> cc_output st' = Some (sum_list (elem_values ys))"
    by (simp add: collect_count_new_def)
qed

lemma collect_channel_steps:
  fixes p :: "('s, 'a) pull"
  shows "p s = ret (e, s1) \<Longrightarrow> e \<noteq> Terminate \<Longrightarrow> collect_channel_next (\<lambda>_. True) p \<lparr>ch_prev = s, ch_tx = True, ch_sent = xs\<rparr> =
      ret (sink_elem e, \<lparr>ch_prev = s1, ch_tx = True, ch_sent = (xs @ (case elem_value e of Some x \<Rightarrow> [x] | None \<Rightarrow> []))\<rparr>)"
    and "p s = ret (Terminate, s1) \<Longrightarrow> collect_channel_next (\<lambda>_. True) p \<lparr>ch_prev = s, ch_tx = True, ch_sent = xs\<rparr> = ret (Terminate, \<lparr>ch_prev = s1, ch_tx = False, ch_sent = xs\<rparr>)"
  by (cases e) (simp_all add: collect_channel_next_def collect_channel_send_def Let_def)

interpretation collect_channel_sink: sink collect_channel_new "collect_channel_next (\<lambda>_. True) :: ('s, 'a) pull \<Rightarrow> (_, unit) pull" "\<lambda>st. Some (ch_sent st)" "\<lambda>xs. xs"
proof
  fix p :: "('s, 'a) pull" and s ys s'
  assume ys: "pulls p s (ys @ [Terminate]) s'" "Terminate \<notin> set ys"
  have "do_work (collect_channel_next (\<lambda>_. True) p) \<lparr>ch_prev = s, ch_tx = True, ch_sent = []\<rparr> = ret \<lparr>ch_prev = s', ch_tx = False, ch_sent = (elem_values ys)\<rparr>"
    by (rule sink_collects [where st = "\<lambda>s xs. \<lparr>ch_prev = s, ch_tx = True, ch_sent = xs\<rparr>" and final = "\<lambda>s xs. \<lparr>ch_prev = s, ch_tx = False, ch_sent = xs\<rparr>", OF collect_channel_steps ys])
  then show "\<exists>st'. do_work (collect_channel_next (\<lambda>_. True) p) (collect_channel_new s) = ret st' \<and> Some (ch_sent st') = Some (elem_values ys)"
    by (simp add: collect_channel_new_def)
qed

text \<open>\<^verbatim>\<open>ForEach\<close> returns only what is not a datum; its closure sees every datum in order.\<close>

lemma for_each_pulls:
  assumes "pulls p s (ys @ [Terminate]) s'" and "Terminate \<notin> set ys"
  shows "\<exists>zs. pulls (for_each_next f p) (s, c) (zs @ [Terminate]) (s', foldl f c (elem_values ys)) \<and> Terminate \<notin> set zs"
  using assms
proof (induction ys arbitrary: s c)
  case Nil
  then have "for_each_next f p (s, c) = ret (Terminate, (s', c))" by (subst for_each_next.simps) simp
  then show ?case by (intro exI [of _ "[]"]) (simp add: elem_values_def)
next
  case (Cons e ys)
  then obtain s1 where e: "p s = ret (e, s1)" "e \<noteq> Terminate" and rest: "pulls p s1 (ys @ [Terminate]) s'" "Terminate \<notin> set ys"
    by (auto simp: pulls_Cons_iff)
  show ?case
  proof (cases "elem_value e")
    case None
    then have "\<exists>z. for_each_next f p (s, c) = ret (z, (s1, c)) \<and> z \<noteq> Terminate"
      using e by (subst for_each_next.simps) (cases e; simp)
    then obtain z where z: "for_each_next f p (s, c) = ret (z, (s1, c))" "z \<noteq> Terminate" by blast
    from Cons.IH [OF rest, of c] obtain zs where "pulls (for_each_next f p) (s1, c) (zs @ [Terminate]) (s', foldl f c (elem_values ys))" "Terminate \<notin> set zs" by blast
    with z None show ?thesis by (intro exI [of _ "z # zs"]) (auto simp: pulls_Cons_iff elem_values_Cons)
  next
    case (Some x)
    then have step: "for_each_next f p (s, c) = for_each_next f p (s1, f c x)"
      using e by (subst for_each_next.simps) (cases e; simp)
    from Cons.IH [OF rest, of "f c x"] obtain zs where
      "pulls (for_each_next f p) (s1, f c x) (zs @ [Terminate]) (s', foldl f (f c x) (elem_values ys))" "Terminate \<notin> set zs" by blast
    then show ?thesis using Some pulls_start_cong [OF step, of "zs @ [Terminate]"] by (intro exI [of _ zs]) (auto simp: elem_values_Cons)
  qed
qed

interpretation for_each_sink: sink "\<lambda>s. (s, c)" "for_each_next f :: ('s, 'a) pull \<Rightarrow> (_, unit) pull" "\<lambda>st. Some (snd st)" "foldl f c"
  for f :: "'c \<Rightarrow> 'a \<Rightarrow> 'c" and c
proof
  fix p :: "('s, 'a) pull" and s ys s'
  assume "pulls p s (ys @ [Terminate]) s'" "Terminate \<notin> set ys"
  from for_each_pulls [OF this, of f c] obtain zs where
    "pulls (for_each_next f p) (s, c) (zs @ [Terminate]) (s', foldl f c (elem_values ys))" "Terminate \<notin> set zs" by blast
  from do_work_pulls [OF this] show "\<exists>st'. do_work (for_each_next f p) (s, c) = ret st' \<and> Some (snd st') = Some (foldl f c (elem_values ys))" by simp
qed

text \<open>\<^verbatim>\<open>Collect\<close> takes the whole stream in its first call.\<close>

lemma collect_items_all:
  assumes "pulls p s (ys @ [Terminate]) s'" and "Terminate \<notin> set ys"
  shows "collect_items p acc s = ret (acc @ elem_values ys, s')"
  using assms
proof (induction ys arbitrary: s acc)
  case Nil
  then show ?case by (subst collect_items.simps, subst collect_next_item.simps) (simp add: elem_values_def)
next
  case (Cons e ys)
  then obtain s1 where e: "p s = ret (e, s1)" "e \<noteq> Terminate" and rest: "pulls p s1 (ys @ [Terminate]) s'" "Terminate \<notin> set ys"
    by (auto simp: pulls_Cons_iff)
  have "collect_items p acc s = collect_items p (acc @ (case elem_value e of Some x \<Rightarrow> [x] | None \<Rightarrow> [])) s1"
  proof (cases "elem_value e")
    case None
    then have "collect_next_item p s = collect_next_item p s1" using e by (subst collect_next_item.simps) (cases e; simp)
    then show ?thesis using None collect_items.simps [of p acc s] collect_items.simps [of p acc s1] by simp
  next
    case (Some x)
    then have "collect_next_item p s = ret (Some x, s1)" using e by (subst collect_next_item.simps) (cases e; simp)
    then show ?thesis using Some by (subst collect_items.simps) simp
  qed
  then show ?case using Cons.IH [OF rest] by (simp add: elem_values_Cons split: option.split)
qed

interpretation collect_sink: sink "\<lambda>s. (s, None)" "collect_next from_iter :: ('s, 'a) pull \<Rightarrow> (_, unit) pull" snd from_iter
  for from_iter :: "'a list \<Rightarrow> 'c"
proof
  fix p :: "('s, 'a) pull" and s ys s'
  assume "pulls p s (ys @ [Terminate]) s'" "Terminate \<notin> set ys"
  from collect_items_all [OF this, of "[]"] have "collect_next from_iter p (s, None) = ret (Terminate, (s', Some (from_iter (elem_values ys))))"
    by (simp add: collect_next_def)
  then show "\<exists>st'. do_work (collect_next from_iter p) (s, None) = ret st' \<and> snd st' = Some (from_iter (elem_values ys))"
    by (simp add: do_work.simps)
qed

section \<open>A job that is collected\<close>

text \<open>
  A replica of the last parallel block has ended and sent its stream, one iteration \<open>seg\<close>, to the single replica of the sink's
  block, whose endpoint is \<open>ep\<close> (\<^verbatim>\<open>replication(Replication::One)\<close>).
\<close>

definition sent_to_one :: "((nat \<times> nat list) list \<Rightarrow> (nat \<times> nat list) list) \<Rightarrow> ('r \<Rightarrow> nat \<times> 'r) \<Rightarrow> int \<Rightarrow> receiver_endpoint
    \<Rightarrow> ('s, 'a) pull \<Rightarrow> 's \<Rightarrow> 'a stream_element list \<Rightarrow> 'a network \<Rightarrow> coord \<Rightarrow> bool" where
  "sent_to_one eo rng t0 ep prev s seg net c \<longleftrightarrow>
     data_only seg \<and> respects_watermarks seg \<and> (\<exists>s'. pulls prev s (seg @ [FlushAndRestart, Terminate]) s')
   \<and> (\<exists>st0 hist st. end_fresh c [ep] st0 \<and> en_strategy st0 = OnlyOne \<and> en_ignore st0 = [] \<and> en_feedback st0 = None \<and> en_prev st0 = s
        \<and> end_reach eo rng prev c t0 [ep] st0 hist True st \<and> en_net st = net)"

lemma routed_only: "routed OnlyOne [ep] None ep = (\<lambda>h. fst h \<noteq> FlushBatch)"
proof
  show "routed OnlyOne [ep] None ep h = (fst h \<noteq> FlushBatch)" for h
    by (cases "fst h") (simp_all add: routed_def chosen_replica_def replicas_def)
qed

lemma only_one_delivers:
  assumes "sent_to_one eo rng t0 ep prev s seg net c" and eo: "hash_order eo"
  shows "delivered net ep c = filter (\<lambda>e. e \<noteq> FlushBatch) seg @ [FlushAndRestart, Terminate]"
proof -
  from assms(1) obtain s' st0 hist st where data: "data_only seg" and s': "pulls prev s (seg @ [FlushAndRestart, Terminate]) s'"
    and st0: "end_fresh c [ep] st0" "en_strategy st0 = OnlyOne" "en_ignore st0 = []" "en_feedback st0 = None" "en_prev st0 = s"
    and reach: "end_reach eo rng prev c t0 [ep] st0 hist True st" "en_net st = net"
    by (auto simp: sent_to_one_def)
  have "Terminate \<notin> set (seg @ [FlushAndRestart])" using data by (auto simp: data_only_def list_all_iff)
  with end_reach_body [OF reach(1) eo st0(1), of "seg @ [FlushAndRestart]" s'] s' st0(5)
  have body: "map fst hist = (seg @ [FlushAndRestart]) @ [Terminate]" by simp
  have "end_invariant eo c OnlyOne [ep] None hist True st"
    using end_reach_invariant [OF reach(1) eo st0(1)] st0(2-4) by (simp add: destinations_def)
  then have "delivered net ep c = received OnlyOne [ep] None hist ep"
    using reach(2) by (simp add: end_invariant_def senders_ended_def)
  also have "\<dots> = map fst (filter (\<lambda>h. fst h \<noteq> FlushBatch) hist)" by (simp add: received_def routed_only)
  also have "\<dots> = filter (\<lambda>e. e \<noteq> FlushBatch) (map fst hist)" by (simp add: filter_map comp_def)
  finally show ?thesis by (simp add: body)
qed

lemma elem_values_payload: "mset (elem_values es) = image_mset (\<lambda>e. the (elem_value e)) (mset (payload es))"
  by (induction es) (auto simp: elem_values_def List.map_filter_simps split: option.split)

lemma image_mset_sum: "image_mset f (\<Sum>c \<in> S. g c) = (\<Sum>c \<in> S. image_mset f (g c))"
  by (induction S rule: infinite_finite_induct) simp_all

lemma elem_values_flushes: "elem_values (filter (\<lambda>e. e \<noteq> FlushBatch) es) = elem_values es"
  by (induction es) (auto simp: elem_values_def List.map_filter_simps split: option.split)

text \<open>The stream of the sink's replica, whatever order the messages arrive in: all the values that were sent.\<close>

lemma gathered_stream:
  assumes cs: "distinct cs" "cs \<noteq> []" and lock: "lock_returns lock" and eo: "hash_order eo"
    and ms: "pulls (start_fetch recv recv_timeout md) (False, rcv) ms q" "reads_queue net ep ms"
    and queue: "\<forall>m \<in> set (nt_queue net ep). nm_sender m \<in> set cs"
    and sent: "\<forall>c \<in> set cs. sent_to_one eo rng t0 ep (prev c) (s c) (seg c) net c"
  shows "\<exists>ys st'. pulls (start_next recv recv_timeout) (start_setup coord md rcv cs (start_new rcv0 lock)) (ys @ [Terminate]) st'
    \<and> Terminate \<notin> set ys \<and> mset (elem_values ys) = (\<Sum>c \<in> set cs. mset (elem_values (seg c)))"
proof -
  let ?d = "\<lambda>c. filter (\<lambda>e. e \<noteq> FlushBatch) (seg c)"
  have d: "delivered net ep c = ?d c @ [FlushAndRestart, Terminate]" if "c \<in> set cs" for c
  proof -
    from sent that have "sent_to_one eo rng t0 ep (prev c) (s c) (seg c) net c" by blast
    from only_one_delivers [OF this eo] show ?thesis .
  qed
  have "data_only (?d c) \<and> respects_watermarks (?d c) \<and> FlushBatch \<notin> set (?d c)" if "c \<in> set cs" for c
  proof -
    have "data_only (seg c)" and "respects_watermarks (seg c)" using sent that by (auto simp: sent_to_one_def)
    then show ?thesis using wm_from_filter [of None "seg c" "\<lambda>e. e \<noteq> FlushBatch"] by (auto simp: data_only_def list_all_iff respects_watermarks_def)
  qed
  from exchange_received [OF cs lock ms queue d this, of coord rcv0] obtain out fb st' where
    st': "pulls (start_next recv recv_timeout) (start_setup coord md rcv cs (start_new rcv0 lock)) (out @ [FlushAndRestart] @ fb @ [Terminate]) st'"
    and out: "data_only out" and fb: "set fb \<subseteq> {FlushBatch}" and load: "mset (payload out) = (\<Sum>c \<in> set cs. mset (payload (?d c)))" by blast
  have "elem_values fb = []" using fb by (induction fb) (auto simp: elem_values_def)
  then have "elem_values (out @ [FlushAndRestart] @ fb) = elem_values out" by (simp add: elem_values_def)
  moreover have "mset (elem_values out) = (\<Sum>c \<in> set cs. image_mset (\<lambda>e. the (elem_value e)) (mset (payload (?d c))))"
    unfolding elem_values_payload load by (rule image_mset_sum)
  then have "mset (elem_values out) = (\<Sum>c \<in> set cs. mset (elem_values (seg c)))" unfolding elem_values_payload [symmetric] elem_values_flushes .
  moreover have "Terminate \<notin> set (out @ [FlushAndRestart] @ fb)" using out fb by (auto simp: data_only_def list_all_iff)
  ultimately show ?thesis using st' by (intro exI [of _ "out @ [FlushAndRestart] @ fb"] exI [of _ st']) simp
qed

text \<open>\<^verbatim>\<open>collect_count\<close>: every replica counts its own elements with a \<^verbatim>\<open>Fold\<close>, the sink adds the counts.\<close>

lemma fold_count: "foldl count_local n xs = n + length xs"
  by (induction xs arbitrary: n) (simp_all add: count_local_def)

lemma sum_mset_sum: "sum_mset (\<Sum>c \<in> S. g c) = (\<Sum>c \<in> S. sum_mset (g c))"
  by (induction S rule: infinite_finite_induct) simp_all

lemma collect_count_counts:
  assumes "distinct cs" "cs \<noteq> []" and "lock_returns lock" and "hash_order eo"
    and "pulls (start_fetch recv recv_timeout md) (False, rcv) ms q" "reads_queue net ep ms"
    and "\<forall>m \<in> set (nt_queue net ep). nm_sender m \<in> set cs"
    and "\<forall>c \<in> set cs. sent_to_one eo rng t0 ep (fold_next count_local 0 (prev c)) (fold_new (s c)) (fold_iteration count_local 0 (seg c)) net c"
  shows "\<exists>st'. do_work (collect_count_next (start_next recv recv_timeout)) (collect_count_new (start_setup coord md rcv cs (start_new rcv0 lock))) = ret st'
    \<and> cc_output st' = Some (\<Sum>c \<in> set cs. length (elem_values (seg c)))"
proof -
  from gathered_stream [OF assms, of coord rcv0] obtain ys st' where
    ys: "pulls (start_next recv recv_timeout) (start_setup coord md rcv cs (start_new rcv0 lock)) (ys @ [Terminate]) st'" "Terminate \<notin> set ys"
    and vals: "mset (elem_values ys) = (\<Sum>c \<in> set cs. mset (elem_values (fold_iteration count_local 0 (seg c))))" by blast
  have "sum_list (elem_values ys) = sum_mset (mset (elem_values ys))" by (simp add: sum_mset_sum_list)
  also have "\<dots> = (\<Sum>c \<in> set cs. sum_mset (mset (elem_values (fold_iteration count_local 0 (seg c)))))" unfolding vals by (rule sum_mset_sum)
  also have "\<dots> = (\<Sum>c \<in> set cs. length (elem_values (seg c)))"
    by (intro sum.cong) (auto simp: elem_values_iteration fold_count)
  finally show ?thesis using collect_count_sink.collects [OF ys] by simp
qed

text \<open>An instance: one replica with the element 3 and the sink's replica, a fixed batch size of two.\<close>

lemma example_sent_one:
  defines "c \<equiv> Coord 2 0 0" and "ep \<equiv> ReceiverEndpoint (Coord 3 0 0) 2"
  shows "\<exists>net. sent_to_one (\<lambda>m. m) (\<lambda>r::unit. (0, r)) 0 ep fake_next [Item (3::nat), FlushAndRestart, Terminate] [Item 3] net c
    \<and> nt_queue net ep = [new_batch [Item 3, FlushAndRestart] c, new_batch [Terminate] c]"
proof -
  let ?net = "\<lparr>nt_queue = \<lambda>_. [], nt_open = \<lambda>_. True\<rparr> :: nat network"
  let ?inp = "[Item (3::nat), FlushAndRestart, Terminate]" and ?rng = "\<lambda>r::unit. (0::nat, r)"
  let ?st0 = "end_new ?inp OnlyOne (Fixed 2) () ?net"
  let ?q = "\<lambda>msgs buf s. (?st0\<lparr>en_prev := s, en_coord := Some c, en_blocks := [[0]],
      en_net := ?net\<lparr>nt_queue := (\<lambda>_. [])(ep := msgs)\<rparr>,
      en_senders := [(ep, (batcher_new 0 ep (Fixed 2) c)\<lparr>bt_buffer := buf\<rparr>)]\<rparr>)"
  let ?m1 = "new_batch [Item 3, FlushAndRestart] c" and ?m2 = "new_batch [Terminate] c"
  let ?fin = "(?q [?m1, ?m2] [] [])\<lparr>en_senders := []\<rparr>"
  note simps = end_new_def end_next_def end_route_def flush_senders_def sender_broadcast_def sender_enqueue_def sender_flush_def sender_end_def
    batcher_enqueue_def batcher_flush_def batcher_end_def net_send_def batcher_new_def chosen_index_def
  have n0: "end_setup (\<lambda>m. m) 0 c [ep] ?st0 = ret (?q [] [] ?inp)"
    by (simp add: end_setup_def setup_senders_def end_new_def batcher_new_def fun_eq_iff)
  have n1: "end_next ?rng 0 fake_next (?q [] [] ?inp) = ret (Item (), ?q [] [Item 3] [FlushAndRestart, Terminate])" by (simp add: simps)
  have n2: "end_next ?rng 0 fake_next (?q [] [Item 3] [FlushAndRestart, Terminate]) = ret (FlushAndRestart, ?q [?m1] [] [Terminate])" by (simp add: simps)
  have n3: "end_next ?rng 0 fake_next (?q [?m1] [] [Terminate]) = ret (Terminate, ?fin)" by (simp add: simps)
  have step: "\<exists>h. end_reach (\<lambda>m. m) ?rng fake_next c 0 [ep] ?st0 h (m = Terminate) st'"
    if "\<exists>h. end_reach (\<lambda>m. m) ?rng fake_next c 0 [ep] ?st0 h False st" and "fake_next (en_prev st) = ret (m, s)" and "end_next ?rng 0 fake_next st = ret (v, st')"
    for st m s v st'
  proof -
    from that(1) obtain h where "end_reach (\<lambda>m. m) ?rng fake_next c 0 [ep] ?st0 h False st" by blast
    from end_reach.step [OF this that(2,3)] show ?thesis by blast
  qed
  have "\<exists>h. end_reach (\<lambda>m. m) ?rng fake_next c 0 [ep] ?st0 h False (?q [] [Item 3] [FlushAndRestart, Terminate])"
    using step [OF _ _ n1, of "Item 3" "[FlushAndRestart, Terminate]"] end_reach.init [OF n0] by auto
  from step [OF this _ n2, of FlushAndRestart "[Terminate]"]
  have "\<exists>h. end_reach (\<lambda>m. m) ?rng fake_next c 0 [ep] ?st0 h False (?q [?m1] [] [Terminate])" by auto
  from step [OF this _ n3, of Terminate "[]"] obtain h where r3: "end_reach (\<lambda>m. m) ?rng fake_next c 0 [ep] ?st0 h True ?fin" by auto
  have fresh: "end_fresh c [ep] ?st0" by (simp add: end_fresh_def end_new_def Batcher.from_sender_def destinations_def)
  have "pulls fake_next ?inp ([Item 3] @ [FlushAndRestart, Terminate]) []" using pulls_fake_all by simp
  then have "sent_to_one (\<lambda>m. m) ?rng 0 ep fake_next ?inp [Item 3] (en_net ?fin) c"
    unfolding sent_to_one_def using fresh r3
    by (intro conjI exI [of _ ?st0] exI [of _ h] exI [of _ ?fin] exI [of _ "[]"]) (simp_all add: end_new_def respects_watermarks_def)
  then show ?thesis by (intro exI [of _ "en_net ?fin"]) simp
qed

end
