(* ===== verification/Spec2Isabelle.thy ===== *)
theory Spec2Isabelle
  imports Basic_Operators Folds Stateful_Operators Limit_Sorted Start Window_Count Window_Time
    Window_Sessions Route Sort_Merge_Join Remote Scheduler Replay Group_By
    Interval_Join File_Sources Iterator_Sources Iterate Stream_Types
    Aggregations Sinks
begin

text \<open>
  A verification library for renoir, a distributed stream processing engine. The paths below are
  relative to the crate's directory \<^verbatim>\<open>src/\<close>.

  \<^bold>\<open>The program.\<close> A job is a graph of blocks. A block is a chain of operators that pull elements from
  each other (\<^verbatim>\<open>Operator::next\<close>); it runs as several replicas, one thread each, on the hosts. The first
  operator of a block, \<^verbatim>\<open>Start\<close>, receives batches of elements from the replicas of the previous blocks, the
  last one, \<^verbatim>\<open>End\<close>, sends them on. A stream is a sequence of data elements, watermarks and flushes, cut into
  iterations by \<^verbatim>\<open>FlushAndRestart\<close> and ended by \<^verbatim>\<open>Terminate\<close>. The scheduler places the replicas, multiplies the
  job graph into the execution graph, and the topology gives every connection a channel, over TCP between
  two hosts. Loops feed their body again under the control of a leader.

  \<^bold>\<open>How code becomes definitions.\<close> \<open>Renoir_Prelude\<close>: a call returns a value of \<open>'a res\<close>, that is a value,
  a panic with its cause, or \<open>None\<close> when it does not return. A struct is a record, an enum a datatype, a method a function from the old
  to the new record. An operator is written over the \<^verbatim>\<open>next\<close> of the previous one, an argument of type
  \<open>pull\<close>; \<open>pulls nxt s es s'\<close> says that calls of \<open>nxt\<close> from \<open>s\<close> return the elements \<open>es\<close>. A loop that the types do not
  bound is a \<open>partial_function (option)\<close>, and the theorems say that it returns. A \<^verbatim>\<open>HashMap\<close> is an
  association list; where the code iterates over one, the order is an argument that only permutes
  (\<open>hash_order\<close>). Timestamps are integers with the 64-bit bounds written out where they matter; the
  clock, the random generator, the user's closures and the third-party crates (channels, serializer,
  sorting) are arguments with their documented behaviour as hypotheses. \<^verbatim>\<open>usize\<close> counters that grow
  with the number of messages or rounds are natural numbers.

  \<^bold>\<open>The theories.\<close>

  \<^item> \<open>Stream_Element\<close> (\<^verbatim>\<open>operator/mod.rs\<close>, \<^verbatim>\<open>worker.rs\<close>): elements, well-formed streams and their iterations, the
    worker loop. The locale \<open>stream_operator\<close> is the contract of an operator: on a well-formed input it
    returns a given function of it, which is well-formed, so that the worker of its block ends; chains of
    operators (\<open>operator_chain\<close>) have the contract of the composition. The locales \<open>transducer\<close> and
    \<open>fallible_transducer\<close> derive it from a step function.
  \<^item> \<open>Basic_Operators\<close> (\<^verbatim>\<open>map.rs\<close>, \<^verbatim>\<open>filter.rs\<close>, \<^verbatim>\<open>flat_map.rs\<close> and others), \<open>Folds\<close> (\<^verbatim>\<open>fold.rs\<close>, \<^verbatim>\<open>keyed_fold.rs\<close>),
    \<open>Stateful_Operators\<close> (\<^verbatim>\<open>rich_map.rs\<close>, \<^verbatim>\<open>reorder.rs\<close>) and \<open>Limit_Sorted\<close> (\<^verbatim>\<open>limit_sorted.rs\<close>): every operator
    is interpreted as a \<open>stream_operator\<close> with its specification on whole streams.
  \<^item> \<open>Network\<close> (\<^verbatim>\<open>network/mod.rs\<close>), \<open>Batcher\<close> (\<^verbatim>\<open>block/batcher.rs\<close>), \<open>End_Block\<close> (\<^verbatim>\<open>operator/end.rs\<close>,
    \<^verbatim>\<open>block/next_strategy.rs\<close>) and \<open>Route\<close> (\<^verbatim>\<open>operator/route.rs\<close>): who receives what, in which order, in batches of
    which size, whatever the clock and the other senders do. The locale \<open>sender_op\<close> is the contract
    of an operation on one sender, from which a loop over the senders is derived.
  \<^item> \<open>Start\<close> (\<^verbatim>\<open>operator/start/mod.rs\<close>, \<^verbatim>\<open>watermark_frontier.rs\<close>) and \<open>Binary_Start\<close> (\<^verbatim>\<open>simple.rs\<close>, \<^verbatim>\<open>binary.rs\<close>): the
    merge of the previous replicas, for every interleaving and every timeout.
  \<^item> \<open>Join\<close> and \<open>Sort_Merge_Join\<close> (\<^verbatim>\<open>operator/join\<close>): the join operators return the relational join of every iteration.
  \<^item> \<open>Window\<close>, \<open>Window_Accumulators\<close>, \<open>Window_Count\<close>, \<open>Window_Time\<close>, \<open>Window_Sessions\<close> (\<^verbatim>\<open>operator/window\<close>): the window
    operator treats every key as if it were alone (locale \<open>window_manager\<close>, an interpretation per manager); what
    the accumulators compute (locale \<open>window_accumulator\<close>); which elements each kind of window contains; where windows by time start, as
    a function of the input and of the slide (\<open>window_starts\<close>, on the grid of \<open>grid_after\<close>).
  \<^item> \<open>Remote\<close> (\<^verbatim>\<open>network/sync\<close>): the threads that move messages through a TCP connection.
  \<^item> \<open>Topology\<close> (\<^verbatim>\<open>network/topology.rs\<close>) and \<open>Scheduler\<close> (\<^verbatim>\<open>scheduler.rs\<close>, \<^verbatim>\<open>block/mod.rs\<close>): placement of the replicas,
    execution graph, ports and channels, the same on every host. A job is started with the calls that its operators make in \<^verbatim>\<open>setup\<close>
    (\<open>worker_setup\<close>), which take their channels from the topology.
  \<^item> \<open>Iteration_Leader\<close>, \<open>Iteration_State\<close>, \<open>Replay\<close>, \<open>Iterate\<close> (\<^verbatim>\<open>operator/iteration\<close>): the leader ends every loop; all the threads
    of a loop as the step relation \<open>iteration_step\<close>, with an invariant, safety of the shared state and progress of the
    rounds; the operator that replays its input; the operator that feeds the output of a round to the next one, over three
    channels whose arrival order is free (\<open>loop_channels\<close>).
  \<^item> \<open>Stream_Types\<close>: the protocol of the streams as types, and the types of the operators (locale \<open>elementwise\<close>).
  \<^item> \<open>Zip_Merge\<close> (\<^verbatim>\<open>operator/zip.rs\<close>, \<^verbatim>\<open>merge.rs\<close>) and \<open>Interval_Join\<close> (\<^verbatim>\<open>operator/interval_join.rs\<close>): two streams as one; the interval join
    is the chain of merge, \<^verbatim>\<open>Reorder\<close> and the operator, as the builder composes them.
  \<^item> \<open>File_Sources\<close> and \<open>Iterator_Sources\<close> (\<^verbatim>\<open>operator/source\<close>): files and ranges cut between the replicas, channels as sources.
  \<^item> \<open>Group_By\<close>: components together. The local fold of a block, its \<open>End_Block\<close>, the messages, the \<open>Start\<close> of the next block
    and the fold there, as \<^verbatim>\<open>group_by_fold\<close> chains them, compute the fold of every key.
  \<^item> \<open>Aggregations\<close> (\<^verbatim>\<open>operator/mod.rs\<close>): the closures of the aggregations that are written with folds. The locale \<open>aggregate\<close> says when
    folding in two phases computes the function meant, and carries the result of \<open>Group_By\<close> over to sums, counts, averages,
    reductions and extrema; the removal of duplicates.
  \<^item> \<open>Sinks\<close> (\<^verbatim>\<open>operator/sink\<close>): the locale \<open>sink\<close> is the contract of the operators that end a job, interpreted for each of them. With
    the exchange between two blocks it gives the theorem on whole jobs at the end of this theory (\<open>collect_vec_gathers\<close>), and \<open>collect_count_counts\<close>.

  \<^bold>\<open>Bounds.\<close> No model uses fuel. The termination theorems bound the work where the code does: the leader's
  rounds by \<^verbatim>\<open>max_iterations\<close>, a round by six steps per replica and two per operator of the body.

  \<^bold>\<open>Not modelled.\<close> Reading configurations, opening sockets and files, spawning and joining threads, logs,
  the profiler and the rendering of the job graph (\<^verbatim>\<open>Display\<close> and \<^verbatim>\<open>structure\<close>) are I/O without effect on the
  streams. The sources of other systems (Kafka, Avro, Parquet, asynchronous streams), the sinks into files and other systems, the asynchronous variants of the network and of
  \<^verbatim>\<open>map\<close>, and the caches between two jobs are wrappers of third-party code. The set that the replicas of a host share in the first
  step of \<^verbatim>\<open>unique_assoc\<close> is left out. The methods of \<^verbatim>\<open>Stream\<close> and
  \<^verbatim>\<open>KeyedStream\<close> build operators out of those modelled here.
\<close>


section \<open>A whole job\<close>

text \<open>
  C3: the path of a job's results to the program, over the exchange between two blocks and the sink. When every
  replica in \<open>cs\<close> has run to the end over its iteration \<open>seg c\<close> and sent it to the one replica of the
  last block (\<open>end_next\<close> under \<^verbatim>\<open>NextStrategy::OnlyOne\<close>, whatever the batching, the timers and the other
  senders did), the worker of \<^verbatim>\<open>collect_vec\<close> behind that replica's \<^verbatim>\<open>Start\<close> ends, for any timeouts of its
  receiver, and its output holds the values of all the replicas: none is lost, none is there twice.
\<close>

theorem collect_vec_gathers:
  assumes "distinct cs" "cs \<noteq> []" and "lock_returns lock" and "hash_order eo"
    and "pulls (start_fetch recv recv_timeout md) (False, rcv) ms q" "reads_queue net ep ms"
    and "\<forall>m \<in> set (nt_queue net ep). nm_sender m \<in> set cs"
    and "\<forall>c \<in> set cs. sent_to_one eo rng t0 ep (prev c) (s c) (seg c) net c"
  shows "\<exists>st' xs. do_work (collect_vec_next (start_next recv recv_timeout))
        (collect_vec_new (start_setup coord md rcv cs (start_new rcv0 lock))) = ret st'
    \<and> cv_output st' = Some xs \<and> mset xs = (\<Sum>c \<in> set cs. mset (elem_values (seg c)))"
proof -
  from gathered_stream [OF assms, of coord rcv0] obtain ys st' where
    ys: "pulls (start_next recv recv_timeout) (start_setup coord md rcv cs (start_new rcv0 lock)) (ys @ [Terminate]) st'" "Terminate \<notin> set ys"
    and vals: "mset (elem_values ys) = (\<Sum>c \<in> set cs. mset (elem_values (seg c)))" by blast
  from collect_vec_sink.collects [OF ys] vals show ?thesis by blast
qed

theorem collect_vec_gathers_witness:
  "\<exists>ms st'. do_work (collect_vec_next (start_next script_recv script_recv_timeout))
      (collect_vec_new (start_setup (Coord 3 0 0) None ms [Coord 2 0 0] (start_new [] None))) = ret st'
    \<and> cv_output st' = Some [3::nat]"
proof -
  let ?c = "Coord 2 0 0" and ?ep = "ReceiverEndpoint (Coord 3 0 0) 2"
  obtain net where net: "sent_to_one (\<lambda>m. m) (\<lambda>r::unit. (0, r)) 0 ?ep fake_next [Item (3::nat), FlushAndRestart, Terminate] [Item 3] net ?c"
    "nt_queue net ?ep = [new_batch [Item 3, FlushAndRestart] ?c, new_batch [Terminate] ?c]"
    using example_sent_one by auto
  let ?ms = "nt_queue net ?ep"
  have fetch: "pulls (start_fetch script_recv script_recv_timeout None) (False, map Some ?ms) ?ms (False, [])"
    unfolding net(2) by (subst pulls_Cons_iff, simp add: start_fetch_def)+
  have reads: "reads_queue net ?ep ?ms"
    unfolding reads_queue_def net(2) by (simp add: timeout_message_def new_batch_def new_single_def)
  have sent: "\<forall>c \<in> set [?c]. sent_to_one (\<lambda>m. m) (\<lambda>r::unit. (0, r)) 0 ?ep fake_next [Item (3::nat), FlushAndRestart, Terminate] [Item 3] net c"
    using net(1) by simp
  have queue: "\<forall>m \<in> set ?ms. nm_sender m \<in> set [?c]" unfolding net(2) by (simp add: new_batch_def)
  have lock: "lock_returns None" by (simp add: lock_returns_def)
  from collect_vec_gathers [where ep = ?ep and cs = "[?c]" and prev = "\<lambda>_. fake_next" and seg = "\<lambda>_. [Item (3::nat)]"
        and s = "\<lambda>_. [Item 3, FlushAndRestart, Terminate]" and coord = "Coord 3 0 0" and ?rcv0.0 = "[]",
        OF _ _ lock hash_order_id fetch reads queue sent]
  obtain st' xs where res: "do_work (collect_vec_next (start_next script_recv script_recv_timeout))
      (collect_vec_new (start_setup (Coord 3 0 0) None (map Some ?ms) [?c] (start_new [] None))) = ret st'"
    "cv_output st' = Some xs" "mset xs = {# 3::nat #}"
    by (auto simp: elem_values_def)
  then show ?thesis by auto
qed

end
